(* ===== verification/Prelude.thy ===== *)
theory Prelude
  imports Main "HOL-Library.Word" "HOL-Library.AList" "HOL-Library.Multiset"
    "HOL-Library.Char_ord" "HOL-Library.List_Lexorder"
begin

text \<open>
  Shared vocabulary of the development: how the Rust values the components use are written in
  HOL (results, machine integers, hash maps, decimal formatting), the collections of rewrite
  rules the component proofs draw on, and the interface of a hash map as a locale.
  Byte strings: a Rust \<^verbatim>\<open>String\<close> is the list of its UTF-8 bytes, so \<^typ>\<open>string\<close> equality, the
  byte-wise order of \<^verbatim>\<open>BTreeSet<&str>\<close> and the ASCII case folding of
  \<^verbatim>\<open>eq_ignore_ascii_case\<close> are those of the code.
\<close>

named_theorems wire_simps \<open>spellings of the enumerations on the wire and in the database\<close>
named_theorems hm_simps \<open>hash-map rewriting\<close>
named_theorems job_simps \<open>unfolding of the job operations\<close>

subsection \<open>Results and machine integers\<close>

type_synonym ('e, 'a) result = "'e + 'a"

abbreviation Err :: "'e \<Rightarrow> ('e, 'a) result" where "Err \<equiv> Inl"
abbreviation Ok :: "'a \<Rightarrow> ('e, 'a) result" where "Ok \<equiv> Inr"

type_synonym u32 = "32 word"
type_synonym u64 = "64 word"

definition usize_max :: nat where "usize_max = 2 ^ 64 - 1"

definition usat_add :: "nat \<Rightarrow> nat \<Rightarrow> nat" where
  "usat_add a b = min (a + b) usize_max"

definition usat_mul :: "nat \<Rightarrow> nat \<Rightarrow> nat" where
  "usat_mul a b = min (a * b) usize_max"

definition i64_min :: int where "i64_min = - (2 ^ 63)"
definition i64_max :: int where "i64_max = 2 ^ 63 - 1"

definition i64_sat :: "int \<Rightarrow> int" where
  "i64_sat x = max i64_min (min i64_max x)"

definition u32_sat_add :: "u32 \<Rightarrow> u32 \<Rightarrow> u32" where
  "u32_sat_add a b = (if unat a + unat b < 2 ^ 32 then a + b else - 1)"

definition u32_checked_sub :: "u32 \<Rightarrow> u32 \<Rightarrow> u32 option" where
  "u32_checked_sub a b = (if b \<le> a then Some (a - b) else None)"

definition u64_sat_mul :: "u64 \<Rightarrow> u64 \<Rightarrow> u64" where
  "u64_sat_mul a b = (if unat a * unat b < 2 ^ 64 then a * b else - 1)"

lemma unat_u64_max [simp]: "unat (- 1 :: u64) = 2 ^ 64 - 1"
  by (simp add: unsigned_minus_1_eq_mask mask_eq_exp_minus_1)

lemma unat_u32_max [simp]: "unat (- 1 :: u32) = 2 ^ 32 - 1"
  by (simp add: unsigned_minus_1_eq_mask mask_eq_exp_minus_1)

lemma unat_u64_sat_mul: "unat (u64_sat_mul a b) = min (unat a * unat b) (2 ^ 64 - 1)"
  by (auto simp: u64_sat_mul_def unat_word_ariths)

lemma unat_u32_sat_add: "unat (u32_sat_add a b) = min (unat a + unat b) (2 ^ 32 - 1)"
  by (auto simp: u32_sat_add_def unat_word_ariths)

lemma unat_u64_bound: "unat (a :: u64) < 2 ^ 64"
  using unsigned_less [of a] by simp

lemma unat_u32_bound: "unat (a :: u32) < 2 ^ 32"
  using unsigned_less [of a] by simp

subsection \<open>Decimal formatting, joining\<close>

fun show_nat :: "nat \<Rightarrow> string" where
  "show_nat n = (if n < 10 then [char_of (48 + n)]
     else show_nat (n div 10) @ [char_of (48 + n mod 10)])"

declare show_nat.simps [simp del]

lemma show_nat_nonempty [simp]: "show_nat n \<noteq> []"
  by (subst show_nat.simps) simp

fun join :: "string \<Rightarrow> string list \<Rightarrow> string" where
  "join sep [] = []"
| "join sep [x] = x"
| "join sep (x # y # xs) = x @ sep @ join sep (y # xs)"

lemma join_eq_Nil: "sep \<noteq> [] \<Longrightarrow> join sep xs = [] \<longleftrightarrow> xs = [] \<or> xs = [[]]"
  by (induction sep xs rule: join.induct) auto

lemma map_filter_if:
  "(\<And>x. g x = (if P x then Some (h x) else None)) \<Longrightarrow>
     List.map_filter g xs = map h (filter P xs)"
  by (induction xs) auto

subsection \<open>Hash maps\<close>

text \<open>
  A \<^verbatim>\<open>HashMap\<close> is an association list with distinct keys. The list order stands for the map's
  iteration order, which Rust leaves unspecified: every theorem holds for every list, hence
  for every iteration order.
\<close>

type_synonym ('k, 'v) hash_map = "('k \<times> 'v) list"

definition hm_wf :: "('k, 'v) hash_map \<Rightarrow> bool" where
  "hm_wf m \<longleftrightarrow> distinct (map fst m)"

definition hm_get :: "('k, 'v) hash_map \<Rightarrow> 'k \<Rightarrow> 'v option" where
  "hm_get m k = map_of m k"

definition hm_insert :: "'k \<Rightarrow> 'v \<Rightarrow> ('k, 'v) hash_map \<Rightarrow> ('k, 'v) hash_map" where
  "hm_insert k v m = AList.update k v m"

definition hm_remove :: "'k \<Rightarrow> ('k, 'v) hash_map \<Rightarrow> ('k, 'v) hash_map" where
  "hm_remove k m = AList.delete k m"

definition hm_modify :: "'k \<Rightarrow> ('v \<Rightarrow> 'v) \<Rightarrow> ('k, 'v) hash_map \<Rightarrow> ('k, 'v) hash_map" where
  "hm_modify k f m = AList.map_entry k f m"

definition hm_values :: "('k, 'v) hash_map \<Rightarrow> 'v list" where
  "hm_values m = map snd m"

definition hm_map_values :: "('v \<Rightarrow> 'v) \<Rightarrow> ('k, 'v) hash_map \<Rightarrow> ('k, 'v) hash_map" where
  "hm_map_values f m = map (\<lambda>(k, v). (k, f v)) m"

lemma hm_values_map_values [hm_simps]: "hm_values (hm_map_values f m) = map f (hm_values m)"
  by (auto simp: hm_values_def hm_map_values_def)

lemma hm_get_map_values [hm_simps]: "hm_get (hm_map_values f m) k = map_option f (hm_get m k)"
  by (induction m) (auto simp: hm_get_def hm_map_values_def)

lemma hm_wf_map_values [hm_simps]: "hm_wf (hm_map_values f m) = hm_wf m"
  by (simp add: hm_wf_def hm_map_values_def comp_def split_beta)

lemma hm_get_modify [hm_simps]:
  "hm_get (hm_modify k f m) k' = (if k = k' then map_option f (hm_get m k) else hm_get m k')"
  by (induction m) (auto simp: hm_get_def hm_modify_def)

lemma hm_wf_modify [hm_simps]: "hm_wf (hm_modify k f m) = hm_wf m"
proof -
  have "map fst (AList.map_entry k f m) = map fst m"
    by (induction m) auto
  then show ?thesis by (simp add: hm_wf_def hm_modify_def)
qed

lemma hm_modify_absent: "hm_get m k = None \<Longrightarrow> hm_modify k f m = m"
  by (induction m) (auto simp: hm_get_def hm_modify_def split: if_splits)

lemma hm_values_modify:
  "hm_get m k = Some v \<Longrightarrow>
     \<exists>us ws. hm_values m = us @ v # ws \<and> hm_values (hm_modify k f m) = us @ f v # ws"
proof (induction m)
  case Nil
  then show ?case by (simp add: hm_get_def)
next
  case (Cons e m)
  show ?case
  proof (cases "fst e = k")
    case True
    with Cons.prems show ?thesis
      by (intro exI [of _ "[]"] exI [of _ "hm_values m"]) (auto simp: hm_get_def hm_modify_def hm_values_def split: prod.splits)
  next
    case False
    with Cons.prems have "hm_get m k = Some v"
      by (auto simp: hm_get_def split: prod.splits)
    from Cons.IH [OF this] obtain us ws where
      "hm_values m = us @ v # ws" "hm_values (hm_modify k f m) = us @ f v # ws" by blast
    with False show ?thesis
      by (intro exI [of _ "snd e # us"] exI [of _ ws]) (auto simp: hm_modify_def hm_values_def split: prod.splits)
  qed
qed

lemma hm_get_in_values: "hm_get m k = Some v \<Longrightarrow> v \<in> set (hm_values m)"
  by (auto simp: hm_get_def hm_values_def dest!: map_of_SomeD intro: rev_image_eqI)

lemma hm_values_get: "hm_wf m \<Longrightarrow> v \<in> set (hm_values m) \<Longrightarrow> \<exists>k. hm_get m k = Some v"
  by (auto simp: hm_get_def hm_values_def hm_wf_def)


lemma hm_get_insert [hm_simps]:
  "hm_get (hm_insert k v m) k' = (if k = k' then Some v else hm_get m k')"
  by (simp add: hm_get_def hm_insert_def update_conv')

lemma hm_wf_insert [hm_simps]: "hm_wf m \<Longrightarrow> hm_wf (hm_insert k v m)"
  by (simp add: hm_wf_def hm_insert_def distinct_update)

lemma hm_get_remove [hm_simps]:
  "hm_get (hm_remove k m) k' = (if k = k' then None else hm_get m k')"
  by (simp add: hm_get_def hm_remove_def delete_conv')

lemma hm_wf_remove [hm_simps]: "hm_wf m \<Longrightarrow> hm_wf (hm_remove k m)"
  by (simp add: hm_wf_def hm_remove_def distinct_delete)

text \<open>
  What the clients of a hash map rely on: the effect of each operation on lookups, that the keys
  stay distinct, and that modifying one entry replaces exactly one value of the iteration.
\<close>

locale hash_map_api =
  fixes wf :: "'m \<Rightarrow> bool"
    and get :: "'m \<Rightarrow> 'k \<Rightarrow> 'v option"
    and insert_kv :: "'k \<Rightarrow> 'v \<Rightarrow> 'm \<Rightarrow> 'm"
    and remove_k :: "'k \<Rightarrow> 'm \<Rightarrow> 'm"
    and modify :: "'k \<Rightarrow> ('v \<Rightarrow> 'v) \<Rightarrow> 'm \<Rightarrow> 'm"
    and vals :: "'m \<Rightarrow> 'v list"
  assumes get_insert: "get (insert_kv k v m) k' = (if k = k' then Some v else get m k')"
    and get_remove: "get (remove_k k m) k' = (if k = k' then None else get m k')"
    and get_modify: "get (modify k f m) k' = (if k = k' then map_option f (get m k) else get m k')"
    and wf_insert: "wf m \<Longrightarrow> wf (insert_kv k v m)"
    and wf_remove: "wf m \<Longrightarrow> wf (remove_k k m)"
    and wf_modify: "wf m \<Longrightarrow> wf (modify k f m)"
    and modify_absent: "get m k = None \<Longrightarrow> modify k f m = m"
    and vals_modify: "get m k = Some v \<Longrightarrow>
      \<exists>us ws. vals m = us @ v # ws \<and> vals (modify k f m) = us @ f v # ws"
begin

lemma count_modify_same:
  assumes "get m k = Some v" and "P (f v) \<longleftrightarrow> P v"
  shows "length (filter P (vals (modify k f m))) = length (filter P (vals m))"
  using vals_modify [OF assms(1), of f] assms(2) by auto

lemma count_modify_up:
  assumes "get m k = Some v" and "\<not> P v" and "P (f v)"
  shows "length (filter P (vals (modify k f m))) = Suc (length (filter P (vals m)))"
  using vals_modify [OF assms(1), of f] assms(2,3) by auto

lemma count_modify_down:
  assumes "get m k = Some v" and "P v" and "\<not> P (f v)"
  shows "Suc (length (filter P (vals (modify k f m)))) = length (filter P (vals m))"
  using vals_modify [OF assms(1), of f] assms(2,3) by auto

lemma all_modify:
  assumes "\<forall>v \<in> set (vals m). Q v" and "\<And>v. Q v \<Longrightarrow> Q (f v)"
  shows "\<forall>v \<in> set (vals (modify k f m)). Q v"
proof (cases "get m k")
  case None
  with assms(1) show ?thesis by (simp add: modify_absent)
next
  case (Some v)
  from vals_modify [OF this, of f] assms show ?thesis by auto
qed

end

interpretation hm: hash_map_api hm_wf hm_get hm_insert hm_remove hm_modify hm_values
  by unfold_locales (simp_all add: hm_simps hm_modify_absent hm_values_modify)


subsection \<open>Enumerations with a wire spelling\<close>

text \<open>
  Several enumerations are written to the database and the API by a display function and read
  back by a parser. What a reader of stored rows relies on: a text parses to a value exactly
  when it is the value's spelling, and a refusal quotes the text after the type's label.
\<close>

locale wire_enum =
  fixes display :: "'k \<Rightarrow> string"
    and from_str :: "string \<Rightarrow> (string, 'k) result"
    and label :: string
  assumes from_str_Ok: "from_str s = Ok k \<longleftrightarrow> s = display k"
    and from_str_Err: "from_str s = Err e \<Longrightarrow> e = label @ s"
begin

lemma roundtrip: "from_str (display k) = Ok k"
  by (simp add: from_str_Ok)

lemma display_inj: "display k = display k' \<longleftrightarrow> k = k'"
  by (metis roundtrip sum.inject(2))

lemma refused: "from_str s = Err (label @ s) \<longleftrightarrow> (\<forall>k. s \<noteq> display k)"
proof (cases "from_str s")
  case (Inl e)
  with from_str_Err [OF Inl] from_str_Ok [of s] show ?thesis by auto
next
  case (Inr k)
  with from_str_Ok [of s k] show ?thesis by auto
qed

end

end
