(* ===== verification/Status.thy ===== *)
theory Status
  imports Prelude
begin

text \<open>
  Job and file lifecycle states (\<^verbatim>\<open>crates/batchalign/src/types/status.rs\<close>): the two status
  enumerations, the reasons a job's status may change for, the transition table every status
  write consults, and the spellings the database and the API use.
\<close>

datatype job_status =
    JobQueued | JobRunning | JobCompleted | JobFailed | JobCancelled | JobInterrupted
  | JobWritebackFailed

datatype status_change = Dispatch | MemoryRequeue | Interrupt | Finalize | Restart | Reconcile

fun is_terminal :: "job_status \<Rightarrow> bool" where
  "is_terminal JobCompleted = True"
| "is_terminal JobFailed = True"
| "is_terminal JobCancelled = True"
| "is_terminal JobInterrupted = True"
| "is_terminal JobWritebackFailed = True"
| "is_terminal _ = False"

fun is_active :: "job_status \<Rightarrow> bool" where
  "is_active JobQueued = True"
| "is_active JobRunning = True"
| "is_active _ = False"

definition can_cancel :: "job_status \<Rightarrow> bool" where
  "can_cancel s = is_active s"

fun is_recoverable :: "job_status \<Rightarrow> bool" where
  "is_recoverable JobRunning = True"
| "is_recoverable JobInterrupted = True"
| "is_recoverable _ = False"

fun can_restart :: "job_status \<Rightarrow> bool" where
  "can_restart JobCancelled = True"
| "can_restart JobFailed = True"
| "can_restart JobWritebackFailed = True"
| "can_restart _ = False"

fun can_transition_to :: "job_status \<Rightarrow> job_status \<Rightarrow> status_change \<Rightarrow> bool" where
  "can_transition_to s next Dispatch = (s = JobQueued \<and> next = JobRunning)"
| "can_transition_to s next MemoryRequeue = (is_active s \<and> next = JobQueued)"
| "can_transition_to s next Interrupt =
     (can_cancel s \<and> next \<in> {JobCancelled, JobInterrupted})"
| "can_transition_to s next Finalize = (is_active s \<and> is_terminal next)"
| "can_transition_to s next Restart = (can_restart s \<and> next = JobQueued)"
| "can_transition_to s next Reconcile =
     (is_recoverable s \<and> next \<in> {JobQueued, JobFailed, JobCompleted})"

fun job_status_display :: "job_status \<Rightarrow> string" where
  "job_status_display JobQueued = ''queued''"
| "job_status_display JobRunning = ''running''"
| "job_status_display JobCompleted = ''completed''"
| "job_status_display JobFailed = ''failed''"
| "job_status_display JobCancelled = ''cancelled''"
| "job_status_display JobInterrupted = ''interrupted''"
| "job_status_display JobWritebackFailed = ''writeback_failed''"

definition job_status_from_str :: "string \<Rightarrow> (string, job_status) result" where
  "job_status_from_str s =
     (if s = ''queued'' then Ok JobQueued
      else if s = ''running'' then Ok JobRunning
      else if s = ''completed'' then Ok JobCompleted
      else if s = ''failed'' then Ok JobFailed
      else if s = ''cancelled'' then Ok JobCancelled
      else if s = ''interrupted'' then Ok JobInterrupted
      else if s = ''writeback_failed'' then Ok JobWritebackFailed
      else Err (''unknown JobStatus: '' @ s))"

datatype file_status_kind =
    FileQueued | FileProcessing | FileDone | FileDiagnosed | FileError | FileInterrupted

fun file_is_terminal :: "file_status_kind \<Rightarrow> bool" where
  "file_is_terminal FileDone = True"
| "file_is_terminal FileDiagnosed = True"
| "file_is_terminal FileError = True"
| "file_is_terminal FileQueued = False"
| "file_is_terminal FileProcessing = False"
| "file_is_terminal FileInterrupted = False"

fun is_resumable :: "file_status_kind \<Rightarrow> bool" where
  "is_resumable FileInterrupted = True"
| "is_resumable FileProcessing = True"
| "is_resumable FileQueued = True"
| "is_resumable FileDone = False"
| "is_resumable FileDiagnosed = False"
| "is_resumable FileError = False"

fun wrote_output :: "file_status_kind \<Rightarrow> bool" where
  "wrote_output FileDone = True"
| "wrote_output FileDiagnosed = True"
| "wrote_output FileQueued = False"
| "wrote_output FileProcessing = False"
| "wrote_output FileError = False"
| "wrote_output FileInterrupted = False"

fun file_status_display :: "file_status_kind \<Rightarrow> string" where
  "file_status_display FileQueued = ''queued''"
| "file_status_display FileProcessing = ''processing''"
| "file_status_display FileDone = ''done''"
| "file_status_display FileDiagnosed = ''diagnosed''"
| "file_status_display FileError = ''error''"
| "file_status_display FileInterrupted = ''interrupted''"

definition file_status_from_str :: "string \<Rightarrow> (string, file_status_kind) result" where
  "file_status_from_str s =
     (if s = ''queued'' then Ok FileQueued
      else if s = ''processing'' then Ok FileProcessing
      else if s = ''done'' then Ok FileDone
      else if s = ''diagnosed'' then Ok FileDiagnosed
      else if s = ''error'' then Ok FileError
      else if s = ''interrupted'' then Ok FileInterrupted
      else Err (''unknown FileStatusKind: '' @ s))"

datatype file_progress_stage =
    StageProcessing | StageReading | StageResolvingAudio | StageRecoveringUtteranceTiming
  | StageRecoveringTimingFallback | StagePreparingAlignment | StageAligning | StageTranscribing
  | StageBenchmarking | StageCheckingCache | StageApplyingResults | StagePostProcessing
  | StageBuildingChat | StageSegmentingUtterances | StageAnalyzingMorphosyntax | StageFinalizing
  | StageWriting | StageParsing | StageAnalyzing | StageSegmenting | StageTranslating
  | StageResolvingCoreference | StageComparing | StageRetryScheduled | StageWaitingForWorker
  | StageWaitingForHostMemory | StagePreparingWorker | StageDownloadingModel

fun stage_label :: "file_progress_stage \<Rightarrow> string" where
  "stage_label StageProcessing = ''Processing''"
| "stage_label StageReading = ''Reading''"
| "stage_label StageResolvingAudio = ''Resolving audio''"
| "stage_label StageRecoveringUtteranceTiming = ''Recovering utterance timing''"
| "stage_label StageRecoveringTimingFallback = ''Recovering timing (fallback)''"
| "stage_label StagePreparingAlignment = ''Preparing alignment''"
| "stage_label StageAligning = ''Aligning''"
| "stage_label StageTranscribing = ''Transcribing''"
| "stage_label StageBenchmarking = ''Benchmarking''"
| "stage_label StageCheckingCache = ''Checking cache''"
| "stage_label StageApplyingResults = ''Applying results''"
| "stage_label StagePostProcessing = ''Post-processing''"
| "stage_label StageBuildingChat = ''Building CHAT''"
| "stage_label StageSegmentingUtterances = ''Segmenting utterances''"
| "stage_label StageAnalyzingMorphosyntax = ''Analyzing morphosyntax''"
| "stage_label StageFinalizing = ''Finalizing''"
| "stage_label StageWriting = ''Writing''"
| "stage_label StageParsing = ''Parsing''"
| "stage_label StageAnalyzing = ''Analyzing''"
| "stage_label StageSegmenting = ''Segmenting''"
| "stage_label StageTranslating = ''Translating''"
| "stage_label StageResolvingCoreference = ''Resolving coreference''"
| "stage_label StageComparing = ''Comparing''"
| "stage_label StageRetryScheduled = ''Retry scheduled''"
| "stage_label StageWaitingForWorker = ''Waiting for a worker''"
| "stage_label StageWaitingForHostMemory = ''Waiting for host memory''"
| "stage_label StagePreparingWorker = ''Preparing worker''"
| "stage_label StageDownloadingModel = ''Downloading model''"

subsection \<open>Spellings\<close>

lemma job_status_from_str_Ok: "job_status_from_str s = Ok k \<longleftrightarrow> s = job_status_display k"
  by (cases k) (auto simp: job_status_from_str_def)

lemma file_status_from_str_Ok: "file_status_from_str s = Ok k \<longleftrightarrow> s = file_status_display k"
  by (cases k) (auto simp: file_status_from_str_def)

interpretation job_wire: wire_enum job_status_display job_status_from_str "''unknown JobStatus: ''"
  by unfold_locales
    (auto simp: job_status_from_str_Ok, auto simp: job_status_from_str_def split: if_splits)

interpretation file_wire: wire_enum file_status_display file_status_from_str
    "''unknown FileStatusKind: ''"
  by unfold_locales
    (auto simp: file_status_from_str_Ok, auto simp: file_status_from_str_def split: if_splits)

subsection \<open>The status machine\<close>

text \<open>
  One step of a job's status for some reason, and the runs of such steps that use only the
  given reasons. Nothing but \<^const>\<open>can_transition_to\<close> decides a step.
\<close>

inductive status_run :: "status_change set \<Rightarrow> job_status \<Rightarrow> job_status \<Rightarrow> bool"
  for R :: "status_change set"
where
  run_refl: "status_run R s s"
| run_step: "status_run R s t \<Longrightarrow> r \<in> R \<Longrightarrow> can_transition_to t u r \<Longrightarrow> status_run R s u"

inductive_cases status_run_stepE: "status_run R s t"

lemma terminal_or_active: "is_terminal s \<noteq> is_active s"
  by (cases s) auto

lemma leaves_terminal_reasons:
  "can_transition_to s t r \<Longrightarrow> is_terminal s \<Longrightarrow> r = Restart \<or> r = Reconcile"
  by (cases r; cases s) (auto simp: can_cancel_def)

lemma completed_is_final: "\<not> can_transition_to JobCompleted t r"
  by (cases r) (auto simp: can_cancel_def)

lemma resumable_iff_not_terminal: "is_resumable k \<longleftrightarrow> \<not> file_is_terminal k"
  by (cases k) auto

lemma wrote_output_terminal: "wrote_output k \<Longrightarrow> file_is_terminal k"
  by (cases k) auto

lemma terminal_wrote_output_or_error: "file_is_terminal k \<longleftrightarrow> wrote_output k \<or> k = FileError"
  by (cases k) auto

subsection \<open>Properties\<close>

lemma run_trans: "status_run R t u \<Longrightarrow> status_run R s t \<Longrightarrow> status_run R s u"
  by (induction rule: status_run.induct) (auto intro: status_run.intros)

lemma run_one: "can_transition_to s t r \<Longrightarrow> r \<in> R \<Longrightarrow> status_run R s t"
  by (auto intro: status_run.intros)

lemma reach_queued: "s \<noteq> JobCompleted \<Longrightarrow> status_run UNIV s JobQueued"
  by (cases s)
    (auto intro: run_refl run_one [where r = MemoryRequeue] run_one [where r = Restart]
      run_one [where r = Reconcile])

lemma queued_reaches: "status_run UNIV JobQueued t"
  by (cases t)
    (auto intro: run_refl run_one [where r = Dispatch] run_one [where r = Finalize])

lemma completed_stuck: "status_run R s t \<Longrightarrow> s = JobCompleted \<Longrightarrow> t = JobCompleted"
  by (induction rule: status_run.induct) (auto simp: completed_is_final)

text \<open>
  Reachability of job statuses under the transition table: every status can be reached from
  every other one, except that a completed job never changes status again.
\<close>

theorem status_reachability:
  "status_run UNIV s t = (if s = JobCompleted then t = JobCompleted else True)"
  using completed_stuck [of UNIV s t] run_trans [OF queued_reaches reach_queued] run_refl by auto

lemma run_without_restart:
  "status_run R s t \<Longrightarrow> R \<inter> {Restart, Reconcile} = {} \<Longrightarrow> is_terminal s \<Longrightarrow> t = s"
proof (induction rule: status_run.induct)
  case (run_step s t r u)
  then have "t = s" and "r \<noteq> Restart" "r \<noteq> Reconcile" by auto
  with run_step.hyps(3) run_step.prems(2) leaves_terminal_reasons show ?case by blast
qed simp

text \<open>
  No resurrection: while nobody restarts the job and the server is not reconciling after a
  crash, dispatch, requeue, interruption and finalisation leave a job that has reached a terminal
  status in exactly that status, however many of them are attempted.
\<close>

theorem terminal_status_stays:
  assumes "is_terminal s" and "R \<inter> {Restart, Reconcile} = {}"
  shows "status_run R s t \<longleftrightarrow> t = s"
  using run_without_restart [OF _ assms(2,1)] run_refl by blast

theorem terminal_status_stays_witness:
  "\<not> status_run {Dispatch, MemoryRequeue, Interrupt, Finalize} JobCancelled JobQueued"
  using terminal_status_stays [of JobCancelled "{Dispatch, MemoryRequeue, Interrupt, Finalize}" JobQueued]
  by simp

end
