(* ===== verification/Scheduling.thy ===== *)
theory Scheduling
  imports Status
begin

text \<open>
  Scheduling types and policies: instants and their saturating arithmetic
  (\<^verbatim>\<open>crates/batchalign-types/src/machine_time.rs\<close>), failure categories, attempt outcomes, the
  retry policy with its saturating exponential backoff, queue leases
  (\<^verbatim>\<open>crates/batchalign/src/types/scheduling.rs\<close>, \<^verbatim>\<open>types/config/lease.rs\<close>) and the worker retry
  loop (\<^verbatim>\<open>crates/batchalign/src/infer_retry.rs\<close>).
\<close>

subsection \<open>Instants\<close>

text \<open>
  A \<^verbatim>\<open>MachineTime\<close> is a whole number of milliseconds since the Unix epoch. The range of dates
  is that of the \<^verbatim>\<open>jiff\<close> library's \<^verbatim>\<open>Timestamp::MIN\<close> and \<^verbatim>\<open>Timestamp::MAX\<close>: an argument of the
  operations that clamp to it. A \<^verbatim>\<open>std::time::Duration\<close> is a number of nanoseconds.
\<close>

type_synonym machine_time = int
type_synonym duration = nat

record timestamp_range =
  ts_min :: machine_time
  ts_max :: machine_time

definition from_secs :: "nat \<Rightarrow> duration" where "from_secs s = s * 10 ^ 9"
definition from_millis :: "nat \<Rightarrow> duration" where "from_millis ms = ms * 10 ^ 6"
definition as_millis :: "duration \<Rightarrow> nat" where "as_millis d = d div 10 ^ 6"

definition whole_millis :: "duration \<Rightarrow> int" where
  "whole_millis d = min (int (as_millis d)) i64_max"

definition from_saturated_millis :: "timestamp_range \<Rightarrow> int \<Rightarrow> machine_time" where
  "from_saturated_millis R ms = max (ts_min R) (min (ts_max R) ms)"

definition time_plus :: "timestamp_range \<Rightarrow> machine_time \<Rightarrow> duration \<Rightarrow> machine_time" where
  "time_plus R t d = from_saturated_millis R (i64_sat (t + whole_millis d))"

definition time_minus :: "timestamp_range \<Rightarrow> machine_time \<Rightarrow> duration \<Rightarrow> machine_time" where
  "time_minus R t d = from_saturated_millis R (i64_sat (t - whole_millis d))"

definition saturating_duration_since :: "machine_time \<Rightarrow> machine_time \<Rightarrow> duration" where
  "saturating_duration_since t earlier =
     (if t > earlier then nat (t - earlier) * 10 ^ 6 else 0)"

subsection \<open>Work units, failures, outcomes, dispositions\<close>

datatype work_unit_kind =
  FileSetup | FileProcess | FileInfer | NativeMedia | FileForcedAlignment | BatchInfer

fun work_unit_kind_display :: "work_unit_kind \<Rightarrow> string" where
  "work_unit_kind_display FileSetup = ''file_setup''"
| "work_unit_kind_display FileProcess = ''file_process''"
| "work_unit_kind_display FileInfer = ''file_infer''"
| "work_unit_kind_display NativeMedia = ''native_media''"
| "work_unit_kind_display FileForcedAlignment = ''file_forced_alignment''"
| "work_unit_kind_display BatchInfer = ''batch_infer''"

definition work_unit_kind_from_str :: "string \<Rightarrow> (string, work_unit_kind) result" where
  "work_unit_kind_from_str s =
     (if s = ''file_setup'' then Ok FileSetup
      else if s = ''file_process'' then Ok FileProcess
      else if s = ''file_infer'' then Ok FileInfer
      else if s = ''native_media'' then Ok NativeMedia
      else if s = ''file_forced_alignment'' then Ok FileForcedAlignment
      else if s = ''batch_infer'' then Ok BatchInfer
      else Err (''unknown WorkUnitKind: '' @ s))"

datatype failure_category =
    Validation | ParseError | InputMissing | EvidenceUnavailable | AnalysisUnavailable
  | WorkerCrash | WorkerTimeout | WorkerProtocol | WorkerBootstrap | LocalRuntime
  | ProviderTransient | ProviderTerminal | ProviderQuotaExhausted | ProviderAccountRefused
  | MemoryPressure | Cancelled | System | ModelAccessDenied | ModelOutputInvalid

definition failure_categories :: "failure_category list" where
  "failure_categories =
     [Validation, ParseError, InputMissing, EvidenceUnavailable, AnalysisUnavailable,
      WorkerCrash, WorkerTimeout, WorkerProtocol, WorkerBootstrap, LocalRuntime,
      ProviderTransient, ProviderTerminal, ProviderQuotaExhausted, ProviderAccountRefused,
      MemoryPressure, Cancelled, System, ModelAccessDenied, ModelOutputInvalid]"

fun failure_category_as_str :: "failure_category \<Rightarrow> string" where
  "failure_category_as_str Validation = ''validation''"
| "failure_category_as_str ParseError = ''parse_error''"
| "failure_category_as_str InputMissing = ''input_missing''"
| "failure_category_as_str EvidenceUnavailable = ''evidence_unavailable''"
| "failure_category_as_str AnalysisUnavailable = ''analysis_unavailable''"
| "failure_category_as_str WorkerCrash = ''worker_crash''"
| "failure_category_as_str WorkerTimeout = ''worker_timeout''"
| "failure_category_as_str WorkerProtocol = ''worker_protocol''"
| "failure_category_as_str WorkerBootstrap = ''worker_bootstrap''"
| "failure_category_as_str LocalRuntime = ''local_runtime''"
| "failure_category_as_str ProviderTransient = ''provider_transient''"
| "failure_category_as_str ProviderTerminal = ''provider_terminal''"
| "failure_category_as_str ProviderQuotaExhausted = ''provider_quota_exhausted''"
| "failure_category_as_str ProviderAccountRefused = ''provider_account_refused''"
| "failure_category_as_str MemoryPressure = ''memory_pressure''"
| "failure_category_as_str Cancelled = ''cancelled''"
| "failure_category_as_str System = ''system''"
| "failure_category_as_str ModelAccessDenied = ''model_access_denied''"
| "failure_category_as_str ModelOutputInvalid = ''model_output_invalid''"

definition failure_category_from_str :: "string \<Rightarrow> (string, failure_category) result" where
  "failure_category_from_str s =
     (case find (\<lambda>c. failure_category_as_str c = s) failure_categories of
        Some c \<Rightarrow> Ok c
      | None \<Rightarrow> Err (''unknown FailureCategory: '' @ s))"

datatype attempt_outcome =
  OutcomeSucceeded | OutcomeFailed | OutcomeRetryableFailure | OutcomeDeferred | OutcomeCancelled

fun attempt_outcome_display :: "attempt_outcome \<Rightarrow> string" where
  "attempt_outcome_display OutcomeSucceeded = ''succeeded''"
| "attempt_outcome_display OutcomeFailed = ''failed''"
| "attempt_outcome_display OutcomeRetryableFailure = ''retryable_failure''"
| "attempt_outcome_display OutcomeDeferred = ''deferred''"
| "attempt_outcome_display OutcomeCancelled = ''cancelled''"

definition attempt_outcome_from_str :: "string \<Rightarrow> (string, attempt_outcome) result" where
  "attempt_outcome_from_str s =
     (if s = ''succeeded'' then Ok OutcomeSucceeded
      else if s = ''failed'' then Ok OutcomeFailed
      else if s = ''retryable_failure'' then Ok OutcomeRetryableFailure
      else if s = ''deferred'' then Ok OutcomeDeferred
      else if s = ''cancelled'' then Ok OutcomeCancelled
      else Err (''unknown AttemptOutcome: '' @ s))"

datatype retry_disposition = Succeed | TerminalFailure | Retry | Defer

fun retry_disposition_display :: "retry_disposition \<Rightarrow> string" where
  "retry_disposition_display Succeed = ''succeed''"
| "retry_disposition_display TerminalFailure = ''terminal_failure''"
| "retry_disposition_display Retry = ''retry''"
| "retry_disposition_display Defer = ''defer''"

definition retry_disposition_from_str :: "string \<Rightarrow> (string, retry_disposition) result" where
  "retry_disposition_from_str s =
     (if s = ''succeed'' then Ok Succeed
      else if s = ''terminal_failure'' then Ok TerminalFailure
      else if s = ''retry'' then Ok Retry
      else if s = ''defer'' then Ok Defer
      else Err (''unknown RetryDisposition: '' @ s))"

subsection \<open>Retry policy\<close>

record retry_policy =
  max_attempts :: u32
  initial_backoff_ms :: u64
  max_backoff_ms :: u64
  backoff_multiplier :: u32

definition conservative :: retry_policy where
  "conservative = \<lparr>max_attempts = 3, initial_backoff_ms = 1000, max_backoff_ms = 60000,
     backoff_multiplier = 2\<rparr>"

text \<open>The loop of \<^verbatim>\<open>backoff_for_retry\<close>: the number of rounds left and the backoff so far.\<close>

fun backoff_loop :: "retry_policy \<Rightarrow> nat \<Rightarrow> u64 \<Rightarrow> u64" where
  "backoff_loop p 0 b = min b (max_backoff_ms p)"
| "backoff_loop p (Suc n) b =
     (let b' = u64_sat_mul b (ucast (backoff_multiplier p))
      in if max_backoff_ms p \<le> b' then max_backoff_ms p else backoff_loop p n b')"

definition backoff_for_retry :: "retry_policy \<Rightarrow> u32 \<Rightarrow> u64" where
  "backoff_for_retry p n =
     (if n \<le> 1 then min (initial_backoff_ms p) (max_backoff_ms p)
      else backoff_loop p (unat n - 1) (initial_backoff_ms p))"

datatype retryability = Retryable | Final

fun retryability_of :: "failure_category \<Rightarrow> retryability" where
  "retryability_of WorkerCrash = Retryable"
| "retryability_of WorkerTimeout = Retryable"
| "retryability_of ProviderTransient = Retryable"
| "retryability_of LocalRuntime = Retryable"
| "retryability_of MemoryPressure = Retryable"
| "retryability_of Validation = Final"
| "retryability_of ParseError = Final"
| "retryability_of InputMissing = Final"
| "retryability_of EvidenceUnavailable = Final"
| "retryability_of AnalysisUnavailable = Final"
| "retryability_of WorkerProtocol = Final"
| "retryability_of WorkerBootstrap = Final"
| "retryability_of ProviderTerminal = Final"
| "retryability_of ProviderQuotaExhausted = Final"
| "retryability_of ProviderAccountRefused = Final"
| "retryability_of Cancelled = Final"
| "retryability_of System = Final"
| "retryability_of ModelAccessDenied = Final"
| "retryability_of ModelOutputInvalid = Final"

datatype stop_reason = StopFinal | BudgetSpent

datatype next_attempt = RetryAfter u64 | Stop stop_reason

definition after_failure :: "retry_policy \<Rightarrow> u32 \<Rightarrow> failure_category \<Rightarrow> next_attempt" where
  "after_failure p attempt_number category =
     (case retryability_of category of
        Final \<Rightarrow> Stop StopFinal
      | Retryable \<Rightarrow>
          if attempt_number < max_attempts p
          then RetryAfter (backoff_for_retry p attempt_number)
          else Stop BudgetSpent)"

subsection \<open>The worker retry loop\<close>

text \<open>
  \<^verbatim>\<open>retry_worker_operation\<close> runs an operation under a cancellation authority. The environment
  is given by two arguments: \<open>attempt n\<close> is what the supervised \<open>n\<close>-th attempt yields
  (\<^const>\<open>None\<close> when the cancellation won the race, else the operation's own result), and
  \<open>slept n ms\<close> tells whether the backoff after attempt \<open>n\<close> finished before a cancellation.
  \<open>classify\<close> is \<^verbatim>\<open>classify_worker_error\<close> of the runner. The first component of the result is
  the sequence of retry warnings the loop logs: the attempt that failed and its backoff.
\<close>

datatype 'e retry_end = RetryFailed 'e | RetryCancelled

function retry_loop ::
  "retry_policy \<Rightarrow> ('e \<Rightarrow> failure_category) \<Rightarrow> (u32 \<Rightarrow> ('e, 'v) result option) \<Rightarrow>
   (u32 \<Rightarrow> u64 \<Rightarrow> bool) \<Rightarrow> u32 \<Rightarrow> (u32 \<times> u64) list \<times> ('e retry_end, 'v) result" where
  "retry_loop p classify attempt slept n =
     (case attempt n of
        None \<Rightarrow> ([], Err RetryCancelled)
      | Some (Inr v) \<Rightarrow> ([], Ok v)
      | Some (Inl e) \<Rightarrow>
          (case after_failure p n (classify e) of
             RetryAfter b \<Rightarrow>
               if slept n b
               then (let (ws, r) = retry_loop p classify attempt slept (n + 1) in ((n, b) # ws, r))
               else ([(n, b)], Err RetryCancelled)
           | Stop _ \<Rightarrow> ([], Err (RetryFailed e))))"
  by pat_completeness auto

lemma u32_less_Suc:
  fixes n m :: u32
  assumes "n < m"
  shows "unat (n + 1) = Suc (unat n)"
proof -
  from assms have "unat n < unat m" by (simp add: word_less_nat_alt)
  with unat_u32_bound [of m] have "unat n + 1 < 2 ^ 32" by simp
  then show ?thesis by (simp add: unat_word_ariths)
qed

termination retry_loop
proof (relation "measure (\<lambda>(p, c, a, s, n). unat (max_attempts p) - unat n)", goal_cases)
  case 1
  show ?case by simp
next
  case (2 p c a s n r e b)
  from 2(3) have "n < max_attempts p"
    by (auto simp: after_failure_def split: retryability.splits if_splits)
  then have "unat n < unat (max_attempts p)" by (simp add: word_less_nat_alt)
  with u32_less_Suc [OF \<open>n < max_attempts p\<close>] show ?case by simp
qed

declare retry_loop.simps [simp del]

definition retry_worker_operation ::
  "('e \<Rightarrow> failure_category) \<Rightarrow> (u32 \<Rightarrow> ('e, 'v) result option) \<Rightarrow>
   (u32 \<Rightarrow> u64 \<Rightarrow> bool) \<Rightarrow> (u32 \<times> u64) list \<times> ('e retry_end, 'v) result" where
  "retry_worker_operation classify attempt slept =
     retry_loop conservative classify attempt slept 1"

subsection \<open>Leases\<close>

definition lease_heartbeat :: duration where "lease_heartbeat = from_secs 60"

type_synonym lease_ttl = duration

definition lease_ttl_default :: lease_ttl where "lease_ttl_default = from_secs 300"

text \<open>\<^verbatim>\<open>LeaseTtl::from_secs\<close>; the refusal carries the rejected seconds.\<close>

definition lease_ttl_from_secs :: "u64 \<Rightarrow> (u64, lease_ttl) result" where
  "lease_ttl_from_secs secs =
     (let lifetime = from_secs (unat secs)
      in if lifetime > lease_heartbeat then Ok lifetime else Err secs)"

record lease_record =
  leased_by_node :: string
  heartbeat_at :: machine_time
  expires_at :: machine_time

text \<open>\<^verbatim>\<open>LeaseExpiryNotAfterHeartbeat\<close>: the heartbeat and the expiry the lease named.\<close>

type_synonym lease_expiry_error = "machine_time \<times> machine_time"

definition lease_new ::
  "string \<Rightarrow> machine_time \<Rightarrow> machine_time \<Rightarrow> (lease_expiry_error, lease_record) result" where
  "lease_new node heartbeat expires =
     (if expires > heartbeat
      then Ok \<lparr>leased_by_node = node, heartbeat_at = heartbeat, expires_at = expires\<rparr>
      else Err (heartbeat, expires))"

definition lease_taken ::
  "timestamp_range \<Rightarrow> string \<Rightarrow> machine_time \<Rightarrow> lease_ttl \<Rightarrow> lease_record" where
  "lease_taken R node now ttl =
     \<lparr>leased_by_node = node, heartbeat_at = now, expires_at = time_plus R now ttl\<rparr>"

definition lease_renew ::
  "timestamp_range \<Rightarrow> machine_time \<Rightarrow> lease_ttl \<Rightarrow> lease_record \<Rightarrow> lease_record" where
  "lease_renew R now ttl l = l\<lparr>heartbeat_at := now, expires_at := time_plus R now ttl\<rparr>"

definition is_held_at :: "lease_record \<Rightarrow> machine_time \<Rightarrow> bool" where
  "is_held_at l now \<longleftrightarrow> expires_at l > now"

subsection \<open>Spellings\<close>

lemma work_unit_kind_from_str_Ok:
  "work_unit_kind_from_str s = Ok k \<longleftrightarrow> s = work_unit_kind_display k"
  by (cases k) (auto simp: work_unit_kind_from_str_def)

lemma attempt_outcome_from_str_Ok:
  "attempt_outcome_from_str s = Ok k \<longleftrightarrow> s = attempt_outcome_display k"
  by (cases k) (auto simp: attempt_outcome_from_str_def)

lemma retry_disposition_from_str_Ok:
  "retry_disposition_from_str s = Ok k \<longleftrightarrow> s = retry_disposition_display k"
  by (cases k) (auto simp: retry_disposition_from_str_def)

lemma failure_category_as_str_inj: "failure_category_as_str c = failure_category_as_str d \<Longrightarrow> c = d"
  by (cases c; cases d) simp_all

lemma failure_categories_all: "c \<in> set failure_categories"
  by (cases c) (simp_all add: failure_categories_def)

lemma failure_category_from_str_Ok:
  "failure_category_from_str s = Ok k \<longleftrightarrow> s = failure_category_as_str k"
proof
  assume "failure_category_from_str s = Ok k"
  then have "find (\<lambda>c. failure_category_as_str c = s) failure_categories = Some k"
    by (auto simp: failure_category_from_str_def split: option.splits)
  then show "s = failure_category_as_str k"
    by (auto simp: find_Some_iff)
next
  assume s: "s = failure_category_as_str k"
  then have "find (\<lambda>c. failure_category_as_str c = s) failure_categories \<noteq> None"
    using failure_categories_all [of k] by (auto simp: find_None_iff)
  then obtain c where c: "find (\<lambda>c. failure_category_as_str c = s) failure_categories = Some c"
    by auto
  then have "failure_category_as_str c = s" by (auto simp: find_Some_iff)
  with s have "c = k" by (auto dest: failure_category_as_str_inj)
  with c show "failure_category_from_str s = Ok k"
    by (simp add: failure_category_from_str_def)
qed

interpretation work_unit_wire: wire_enum work_unit_kind_display work_unit_kind_from_str
    "''unknown WorkUnitKind: ''"
  by unfold_locales
    (auto simp: work_unit_kind_from_str_Ok, auto simp: work_unit_kind_from_str_def split: if_splits)

interpretation outcome_wire: wire_enum attempt_outcome_display attempt_outcome_from_str
    "''unknown AttemptOutcome: ''"
  by unfold_locales
    (auto simp: attempt_outcome_from_str_Ok, auto simp: attempt_outcome_from_str_def split: if_splits)

interpretation disposition_wire: wire_enum retry_disposition_display retry_disposition_from_str
    "''unknown RetryDisposition: ''"
  by unfold_locales
    (auto simp: retry_disposition_from_str_Ok,
     auto simp: retry_disposition_from_str_def split: if_splits)

interpretation category_wire: wire_enum failure_category_as_str failure_category_from_str
    "''unknown FailureCategory: ''"
  by unfold_locales
    (auto simp: failure_category_from_str_Ok,
     auto simp: failure_category_from_str_def split: option.splits)

subsection \<open>The backoff is the capped exponential\<close>

lemma unat_min_u64: "unat (min a b) = min (unat a) (unat (b :: u64))"
  by (simp add: min_def word_le_nat_alt)

lemma le_mult_power:
  fixes M b k :: nat
  assumes "M \<le> b * k"
  shows "M \<le> b * k ^ Suc n"
proof (cases "k = 0")
  case True
  with assms show ?thesis by simp
next
  case False
  then have "k \<le> k ^ Suc n" by simp
  then have "b * k \<le> b * k ^ Suc n" by (rule mult_le_mono2)
  with assms show ?thesis by (rule le_trans)
qed

lemma backoff_loop_closed:
  "unat (backoff_loop p n b) =
     min (unat (max_backoff_ms p)) (unat b * unat (backoff_multiplier p) ^ n)"
proof (induction n arbitrary: b)
  case 0
  show ?case by (simp add: unat_min_u64 min.commute)
next
  case (Suc n)
  let ?M = "unat (max_backoff_ms p)" and ?k = "unat (backoff_multiplier p)"
  let ?b' = "u64_sat_mul b (ucast (backoff_multiplier p))"
  have ucast_k: "unat (ucast (backoff_multiplier p) :: u64) = ?k"
    using unat_u32_bound [of "backoff_multiplier p"]
    by (simp add: unsigned_ucast_eq take_bit_nat_eq_self)
  have b': "unat ?b' = min (unat b * ?k) (2 ^ 64 - 1)"
    by (simp add: unat_u64_sat_mul ucast_k)
  have M: "?M \<le> 2 ^ 64 - 1"
    using unat_u64_bound [of "max_backoff_ms p"] by simp
  show ?case
  proof (cases "max_backoff_ms p \<le> ?b'")
    case True
    then have "?M \<le> unat b * ?k" by (simp add: word_le_nat_alt b')
    then have "?M \<le> unat b * ?k ^ Suc n" by (rule le_mult_power)
    with True show ?thesis by (simp add: Let_def)
  next
    case False
    then have "unat ?b' < ?M" by (simp add: word_le_nat_alt)
    with b' M have eq: "unat ?b' = unat b * ?k" by auto
    from False Suc.IH [of ?b'] show ?thesis
      by (simp add: Let_def eq mult.assoc)
  qed
qed

lemma backoff_closed:
  "unat (backoff_for_retry p n) =
     min (unat (max_backoff_ms p))
       (unat (initial_backoff_ms p) * unat (backoff_multiplier p) ^ (unat n - 1))"
proof (cases "n \<le> 1")
  case True
  then have "unat n - 1 = 0" by (simp add: word_le_nat_alt)
  with True show ?thesis by (simp add: backoff_for_retry_def unat_min_u64 min.commute)
next
  case False
  then show ?thesis by (simp add: backoff_for_retry_def backoff_loop_closed)
qed

lemma conservative_backoffs:
  "backoff_for_retry conservative 1 = 1000" "backoff_for_retry conservative 2 = 2000"
proof -
  have "unat (backoff_for_retry conservative 1) = unat (1000 :: u64)"
    "unat (backoff_for_retry conservative 2) = unat (2000 :: u64)"
    unfolding backoff_closed by (simp_all add: conservative_def)
  then show "backoff_for_retry conservative 1 = 1000" "backoff_for_retry conservative 2 = 2000"
    by (simp_all only: word_unat_eq_iff)
qed

lemma not_retryable [simp]: "r \<noteq> Retryable \<longleftrightarrow> r = Final"
  by (cases r) simp_all

lemma conservative_after_failure:
  "after_failure conservative 1 c =
     (if retryability_of c = Retryable then RetryAfter 1000 else Stop StopFinal)"
  "after_failure conservative 2 c =
     (if retryability_of c = Retryable then RetryAfter 2000 else Stop StopFinal)"
  "after_failure conservative 3 c =
     (if retryability_of c = Retryable then Stop BudgetSpent else Stop StopFinal)"
  using conservative_backoffs
  by (auto simp: after_failure_def conservative_def split: retryability.splits)

text \<open>
  A run of the loop read off its result: every warning but possibly the last was slept through, each
  is a retryable failure within the budget, and the attempt after them decides.
\<close>

definition warned ::
  "retry_policy \<Rightarrow> ('e \<Rightarrow> failure_category) \<Rightarrow> (u32 \<Rightarrow> ('e, 'v) result option) \<Rightarrow> u32 \<Rightarrow> u32 \<times> u64 \<Rightarrow> bool" where
  "warned p classify attempt n w \<longleftrightarrow>
     w = (n, backoff_for_retry p n) \<and> n < max_attempts p \<and>
     (\<exists>e. attempt n = Some (Err e) \<and> retryability_of (classify e) = Retryable)"

definition decided ::
  "retry_policy \<Rightarrow> ('e \<Rightarrow> failure_category) \<Rightarrow> (u32 \<Rightarrow> ('e, 'v) result option) \<Rightarrow> u32 \<Rightarrow>
   ('e retry_end, 'v) result \<Rightarrow> bool" where
  "decided p classify attempt n r \<longleftrightarrow>
     (case r of
        Inr v \<Rightarrow> attempt n = Some (Ok v)
      | Inl (RetryFailed e) \<Rightarrow>
          attempt n = Some (Err e) \<and> (retryability_of (classify e) = Final \<or> max_attempts p \<le> n)
      | Inl RetryCancelled \<Rightarrow> attempt n = None)"

fun ran ::
  "retry_policy \<Rightarrow> ('e \<Rightarrow> failure_category) \<Rightarrow> (u32 \<Rightarrow> ('e, 'v) result option) \<Rightarrow> (u32 \<Rightarrow> u64 \<Rightarrow> bool) \<Rightarrow> u32 \<Rightarrow>
   (u32 \<times> u64) list \<Rightarrow> ('e retry_end, 'v) result \<Rightarrow> bool" where
  "ran p classify attempt slept n [] r \<longleftrightarrow> decided p classify attempt n r"
| "ran p classify attempt slept n (w # ws) r \<longleftrightarrow>
     warned p classify attempt n w \<and>
     (if slept (fst w) (snd w) then ran p classify attempt slept (n + 1) ws r
      else ws = [] \<and> r = Err RetryCancelled)"

lemma after_failure_cases:
  "after_failure p n cat = RetryAfter b \<longleftrightarrow>
     retryability_of cat = Retryable \<and> n < max_attempts p \<and> b = backoff_for_retry p n"
  "(\<exists>x. after_failure p n cat = Stop x) \<longleftrightarrow> retryability_of cat = Final \<or> max_attempts p \<le> n"
  by (auto simp: after_failure_def split: retryability.splits)

lemma ran_iff: "retry_loop p c a s n = (ws, r) \<longleftrightarrow> ran p c a s n ws r"
proof (induction p c a s n arbitrary: ws r rule: retry_loop.induct)
  case (1 p c a s n)
  consider (retry) e b where "a n = Some (Inl e)" "after_failure p n (c e) = RetryAfter b"
    | (stop) e x where "a n = Some (Inl e)" "after_failure p n (c e) = Stop x"
    | (ok) v where "a n = Some (Inr v)" | (none) "a n = None"
    by (metis next_attempt.exhaust option.exhaust sum.exhaust)
  then show ?case
  proof cases
    case (retry e b)
    note b = retry(2) [unfolded after_failure_cases]
    obtain ws' r' where rec: "retry_loop p c a s (n + 1) = (ws', r')" by fastforce
    have loop: "retry_loop p c a s n = (if s n b then ((n, b) # ws', r') else ([(n, b)], Err RetryCancelled))"
      by (subst retry_loop.simps) (simp add: retry rec)
    have undecided: "\<not> decided p c a n r"
      using retry(1) b by (auto simp: decided_def split: sum.splits retry_end.splits)
    have "ran p c a s (n + 1) vs r \<longleftrightarrow> vs = ws' \<and> r = r'" if "s n b" for vs
      using 1 [OF retry(1) refl retry(2) that, of vs r] rec by auto
    moreover have "warned p c a n w \<longleftrightarrow> w = (n, b)" for w
      using retry(1) b by (auto simp: warned_def)
    ultimately show ?thesis
      unfolding loop using undecided by (cases ws; cases "s n b") auto
  next
    case (stop e x)
    have unwarned: "\<not> warned p c a n w" for w
      using stop(1) after_failure_cases(2) [of p n "c e"] stop(2) by (auto simp: warned_def)
    have loop: "retry_loop p c a s n = ([], Err (RetryFailed e))"
      by (subst retry_loop.simps) (simp add: stop)
    have "retryability_of (c e) = Final \<or> max_attempts p \<le> n"
      using after_failure_cases(2) [of p n "c e"] stop(2) by blast
    then have "decided p c a n r \<longleftrightarrow> r = Err (RetryFailed e)"
      using stop(1) by (auto simp: decided_def split: sum.splits retry_end.splits)
    then show ?thesis
      unfolding loop using unwarned by (cases ws) auto
  next
    case (ok v)
    then show ?thesis
      by (subst retry_loop.simps, cases ws)
        (auto simp: warned_def decided_def split: sum.splits retry_end.splits)
  next
    case none
    then show ?thesis
      by (subst retry_loop.simps, cases ws)
        (auto simp: warned_def decided_def split: sum.splits retry_end.splits)
  qed
qed

lemma ran_nth:
  "ran p c a s n ws r \<Longrightarrow>
     (\<forall>i < length ws. warned p c a (n + of_nat i) (ws ! i)) \<and>
     (\<forall>i < length ws - 1. s (fst (ws ! i)) (snd (ws ! i))) \<and>
     (if ws = [] \<or> s (fst (last ws)) (snd (last ws)) then decided p c a (n + of_nat (length ws)) r
      else r = Err RetryCancelled)"
proof (induction ws arbitrary: n)
  case (Cons w ws)
  show ?case
  proof (cases "s (fst w) (snd w)")
    case True
    with Cons.prems have first: "warned p c a n w" and rest: "ran p c a s (n + 1) ws r" by simp_all
    have "warned p c a (n + of_nat i) ((w # ws) ! i)" if "i < length (w # ws)" for i
      using that first Cons.IH [OF rest] by (cases i) (simp_all add: add.assoc)
    moreover have "s (fst ((w # ws) ! i)) (snd ((w # ws) ! i))" if "i < length (w # ws) - 1" for i
      using that True Cons.IH [OF rest] by (cases i) simp_all
    moreover have "if w # ws = [] \<or> s (fst (last (w # ws))) (snd (last (w # ws)))
        then decided p c a (n + of_nat (length (w # ws))) r else r = Err RetryCancelled"
      using True Cons.IH [OF rest] by (cases "ws = []") (auto simp: add.assoc split: if_splits)
    ultimately show ?thesis
      by blast
  next
    case False
    with Cons.prems show ?thesis by simp
  qed
qed simp

lemma ran_budget: "ran p c a s n ws r \<Longrightarrow> ws = [] \<or> unat n + length ws \<le> unat (max_attempts p)"
proof (induction ws arbitrary: n)
  case (Cons w ws)
  then have n: "n < max_attempts p" by (simp add: warned_def)
  have suc: "unat (n + 1) = Suc (unat n)" "unat n < unat (max_attempts p)"
    using u32_less_Suc [OF n] n by (simp_all add: word_less_nat_alt)
  show ?case
  proof (cases "s (fst w) (snd w)")
    case True
    with Cons.prems have "ran p c a s (n + 1) ws r" by simp
    from Cons.IH [OF this] suc show ?thesis by auto
  next
    case False
    with Cons.prems suc show ?thesis by simp
  qed
qed simp

subsection \<open>Lease arithmetic\<close>

lemma ttl_admitted:
  "lease_ttl_from_secs secs = Ok ttl \<longleftrightarrow> ttl = from_secs (unat secs) \<and> 60 < unat secs"
  by (auto simp: lease_ttl_from_secs_def Let_def lease_heartbeat_def from_secs_def)

definition timestamp_range_ok :: "timestamp_range \<Rightarrow> bool" where
  "timestamp_range_ok R \<longleftrightarrow> i64_min \<le> ts_min R \<and> ts_min R \<le> ts_max R \<and> ts_max R \<le> i64_max \<and>
     ts_max R - ts_min R \<le> i64_max"

lemma time_plus_from_secs:
  assumes "timestamp_range_ok R" and "ts_min R \<le> now"
  shows "time_plus R now (from_secs s) = min (ts_max R) (now + 1000 * int s)"
proof -
  have "as_millis (from_secs s) = 1000 * s"
    by (simp add: as_millis_def from_secs_def)
  then show ?thesis
    using assms
    by (auto simp: time_plus_def whole_millis_def from_saturated_millis_def i64_sat_def
        timestamp_range_ok_def i64_max_def i64_min_def min_def max_def)
qed

subsection \<open>Properties\<close>

text \<open>
  C36. The delay before a retry is the capped exponential: for every policy and every retry number
  the 64-bit loop with saturating multiplication and early exit returns
  \<open>min max_backoff (initial * multiplier ^ (n - 1))\<close> of the unbounded integers.
\<close>

theorem backoff_is_capped_exponential:
  "unat (backoff_for_retry p n) =
     min (unat (max_backoff_ms p))
       (unat (initial_backoff_ms p) * unat (backoff_multiplier p) ^ (unat n - 1))"
  by (rule backoff_closed)

text \<open>
  C37. The retry loop under any policy ends within the attempt budget and does exactly what the policy
  says. It logs the consecutive attempts from the first that failed with a category that may be retried
  while attempts were left, each with the backoff of the policy, and sleeps through every backoff but
  possibly the last. Its result is that of the attempt after them: the value of a success, the error of
  an attempt that failed for good or with the budget spent, or a cancellation of that attempt; a
  cancellation during the last backoff ends it as cancelled.
\<close>

theorem retry_loop_exact:
  "case retry_loop p classify attempt slept n of (ws, r) \<Rightarrow>
     (\<forall>i < length ws. warned p classify attempt (n + of_nat i) (ws ! i)) \<and>
     (\<forall>i < length ws - 1. slept (fst (ws ! i)) (snd (ws ! i))) \<and>
     (if ws = [] \<or> slept (fst (last ws)) (snd (last ws))
      then decided p classify attempt (n + of_nat (length ws)) r
      else r = Err RetryCancelled) \<and>
     (ws = [] \<or> unat n + length ws \<le> unat (max_attempts p))"
proof -
  obtain ws r where run: "retry_loop p classify attempt slept n = (ws, r)" by fastforce
  then have "ran p classify attempt slept n ws r" by (simp only: ran_iff)
  with ran_nth [OF this] ran_budget [OF this] show ?thesis unfolding run by simp
qed

theorem retry_loop_exact_witness:
  "retry_loop conservative (\<lambda>c. c) (\<lambda>n. if n = 1 then Some (Err WorkerCrash) else Some (Ok ())) (\<lambda>_ _. True) 1 =
     ([(1, 1000)], Ok ()) \<and>
   warned conservative (\<lambda>c. c) (\<lambda>n. if n = 1 then Some (Err WorkerCrash) else Some (Ok ())) 1 (1, 1000)"
proof -
  let ?a = "\<lambda>n :: u32. if n = 1 then Some (Err WorkerCrash) else Some (Ok ())"
  have run: "retry_loop conservative (\<lambda>c. c) ?a (\<lambda>_ _. True) 1 = ([(1, 1000)], Ok ())"
    by (simp add: retry_loop.simps [of conservative _ _ _ 1] retry_loop.simps [of conservative _ _ _ 2]
        conservative_after_failure)
  with retry_loop_exact [where p = conservative and classify = "\<lambda>c. c" and attempt = ?a
      and slept = "\<lambda>_ _. True" and n = 1] show ?thesis by simp
qed

text \<open>
  What a worker operation under the conservative policy ends with: the delays are at most one
  second and then two, a success is the first attempt that succeeded, a failure is final or the
  third attempt's, and a cancellation is reported only when an attempt or a delay was cut short.
\<close>

theorem retry_worker_operation_outcome:
  "case retry_worker_operation classify attempt slept of (ws, r) \<Rightarrow>
     ws = take (length ws) [(1, 1000), (2, 2000)] \<and>
     (case r of
        Inr v \<Rightarrow> attempt (1 + of_nat (length ws)) = Some (Ok v)
      | Inl (RetryFailed e) \<Rightarrow>
          attempt (1 + of_nat (length ws)) = Some (Err e) \<and>
          (retryability_of (classify e) = Final \<or> length ws = 2)
      | Inl RetryCancelled \<Rightarrow>
          attempt (1 + of_nat (length ws)) = None \<or> (\<exists>(n, b) \<in> set ws. \<not> slept n b))"
proof -
  let ?l = "retry_loop conservative classify attempt slept"
  note [simp] = retry_loop.simps [of conservative classify attempt slept 1]
    retry_loop.simps [of conservative classify attempt slept 2]
    retry_loop.simps [of conservative classify attempt slept 3]
    conservative_after_failure
  have step3: "?l 3 = ([], case attempt 3 of None \<Rightarrow> Err RetryCancelled
      | Some (Inr v) \<Rightarrow> Ok v | Some (Inl e) \<Rightarrow> Err (RetryFailed e))"
    by (auto split: option.splits sum.splits)
  show ?thesis
    unfolding retry_worker_operation_def
    by (auto simp: step3 Let_def split: option.splits sum.splits if_splits)
qed

text \<open>
  A lease of an admitted lifetime, taken or renewed, is held exactly until its lifetime has
  passed (or the calendar ends), so it outlives every heartbeat: a holder renewing each
  heartbeat never lets it lapse.
\<close>

theorem lease_held_until_expiry:
  assumes "lease_ttl_from_secs secs = Ok ttl" and "timestamp_range_ok R" and "ts_min R \<le> now"
  shows "(is_held_at (lease_taken R node now ttl) t \<longleftrightarrow>
      t < min (ts_max R) (now + 1000 * int (unat secs))) \<and>
    (is_held_at (lease_renew R now ttl l) t \<longleftrightarrow>
      t < min (ts_max R) (now + 1000 * int (unat secs))) \<and>
    (t \<le> time_plus R now lease_heartbeat \<and> t < ts_max R \<longrightarrow>
      is_held_at (lease_renew R now ttl l) t)"
proof -
  from assms(1) have ttl: "ttl = from_secs (unat secs)" and "60 < unat secs"
    by (simp_all only: ttl_admitted)
  then have "int 60 < int (unat secs)" by (simp only: of_nat_less_iff)
  then have secs: "60 < uint secs" by simp
  note defs = is_held_at_def lease_taken_def lease_renew_def lease_heartbeat_def ttl
    time_plus_from_secs [OF assms(2,3)]
  show ?thesis using secs by (simp add: defs)
qed

definition jiff_like :: timestamp_range where
  "jiff_like = \<lparr>ts_min = -377705023201000, ts_max = 253402207200999\<rparr>"

theorem lease_held_until_expiry_witness:
  "is_held_at (lease_taken jiff_like ''n'' 1000 lease_ttl_default) 300999 \<and>
   \<not> is_held_at (lease_taken jiff_like ''n'' 1000 lease_ttl_default) 301000 \<and>
   is_held_at (lease_renew jiff_like 1000 lease_ttl_default
     \<lparr>leased_by_node = ''n'', heartbeat_at = 0, expires_at = 999\<rparr>) 61000"
proof -
  have ttl: "lease_ttl_from_secs 300 = Ok lease_ttl_default"
    by (simp add: ttl_admitted lease_ttl_default_def)
  have R: "timestamp_range_ok jiff_like" "ts_min jiff_like \<le> 1000"
    by (simp_all add: timestamp_range_ok_def jiff_like_def i64_min_def i64_max_def)
  note held = lease_held_until_expiry [OF ttl R]
  show ?thesis
    using held [of "''n''" 300999] held [of "''n''" 301000] held [of "''n''" 61000]
    by (simp add: jiff_like_def)
qed

text \<open>
  Stored spellings: a text is read back as a failure category, an attempt outcome, a retry
  disposition, a work-unit kind, a job status or a file status exactly when it is that value's
  spelling, so what is written is read back and nothing else is.
\<close>

theorem stored_spellings_roundtrip:
  "(failure_category_from_str s = Ok c \<longleftrightarrow> s = failure_category_as_str c) \<and>
   (attempt_outcome_from_str s = Ok k \<longleftrightarrow> s = attempt_outcome_display k) \<and>
   (retry_disposition_from_str s = Ok d \<longleftrightarrow> s = retry_disposition_display d) \<and>
   (work_unit_kind_from_str s = Ok w \<longleftrightarrow> s = work_unit_kind_display w) \<and>
   (job_status_from_str s = Ok j \<longleftrightarrow> s = job_status_display j) \<and>
   (file_status_from_str s = Ok f \<longleftrightarrow> s = file_status_display f)"
  by (intro conjI category_wire.from_str_Ok outcome_wire.from_str_Ok disposition_wire.from_str_Ok
      work_unit_wire.from_str_Ok job_wire.from_str_Ok file_wire.from_str_Ok)

end
