(* ===== verification/File_Phase.thy ===== *)
theory File_Phase
  imports Scheduling
begin

text \<open>
  Per-file state (\<^verbatim>\<open>crates/batchalign/src/store/mod.rs\<close>): why an attempt failed, the phase of a
  file with exactly the times and the failure that phase has, its image in the database row and
  the reader of stored rows, the open waits a file shows, and the API entry of a file
  (with \<^verbatim>\<open>FileReview::of\<close> of \<^verbatim>\<open>types/response.rs\<close>).

  The admission diagnostics and the exclusion records are payloads this code only carries, so
  they are the type variables \<open>'d\<close> and \<open>'x\<close>; how they are rendered is an argument of
  the function that renders them.
\<close>

subsection \<open>Failures\<close>

datatype file_failure =
    Recorded string failure_category
  | MessageOnly string
  | CategoryOnly failure_category
  | Unrecorded

definition recorded :: "string \<Rightarrow> failure_category \<Rightarrow> file_failure" where
  "recorded message category = Recorded message category"

fun of_failed_row :: "string option \<Rightarrow> failure_category option \<Rightarrow> file_failure" where
  "of_failed_row (Some m) (Some c) = Recorded m c"
| "of_failed_row (Some m) None = MessageOnly m"
| "of_failed_row None (Some c) = CategoryOnly c"
| "of_failed_row None None = Unrecorded"

definition from_columns ::
  "string option \<Rightarrow> failure_category option \<Rightarrow> file_failure option" where
  "from_columns message category =
     (case (message, category) of
        (None, None) \<Rightarrow> None
      | (m, c) \<Rightarrow> Some (of_failed_row m c))"

fun failure_message :: "file_failure \<Rightarrow> string option" where
  "failure_message (Recorded m _) = Some m"
| "failure_message (MessageOnly m) = Some m"
| "failure_message (CategoryOnly _) = None"
| "failure_message Unrecorded = None"

fun failure_category_of :: "file_failure \<Rightarrow> failure_category option" where
  "failure_category_of (Recorded _ c) = Some c"
| "failure_category_of (CategoryOnly c) = Some c"
| "failure_category_of (MessageOnly _) = None"
| "failure_category_of Unrecorded = None"

subsection \<open>Phases\<close>

text \<open>
  The fields of each constructor, in the source's order: \<open>Processing\<close> its start;
  \<open>RetryPending\<close> start, failed-at, retry-at, failure; \<open>Done\<close> start, finish,
  exclusions; \<open>Diagnosed\<close> start, finish, diagnostics, exclusions; \<open>Error\<close> start,
  finish, failure; \<open>Interrupted\<close> start, last failure.
\<close>

datatype ('d, 'x) file_phase =
    Queued
  | Processing "machine_time option"
  | RetryPending "machine_time option" "machine_time option" machine_time file_failure
  | Done "machine_time option" "machine_time option" "'x list"
  | Diagnosed "machine_time option" "machine_time option" "'d option" "'x list"
  | Error "machine_time option" "machine_time option" file_failure
  | Interrupted "machine_time option" "file_failure option"

fun kind :: "('d, 'x) file_phase \<Rightarrow> file_status_kind" where
  "kind Queued = FileQueued"
| "kind (Processing _) = FileProcessing"
| "kind (RetryPending _ _ _ _) = FileProcessing"
| "kind (Done _ _ _) = FileDone"
| "kind (Diagnosed _ _ _ _) = FileDiagnosed"
| "kind (Error _ _ _) = FileError"
| "kind (Interrupted _ _) = FileInterrupted"

fun started_at :: "('d, 'x) file_phase \<Rightarrow> machine_time option" where
  "started_at Queued = None"
| "started_at (Processing s) = s"
| "started_at (RetryPending s _ _ _) = s"
| "started_at (Done s _ _) = s"
| "started_at (Diagnosed s _ _ _) = s"
| "started_at (Error s _ _) = s"
| "started_at (Interrupted s _) = s"

fun finished_at :: "('d, 'x) file_phase \<Rightarrow> machine_time option" where
  "finished_at (Done _ f _) = f"
| "finished_at (Diagnosed _ f _ _) = f"
| "finished_at (Error _ f _) = f"
| "finished_at Queued = None"
| "finished_at (Processing _) = None"
| "finished_at (RetryPending _ _ _ _) = None"
| "finished_at (Interrupted _ _) = None"

fun failure :: "('d, 'x) file_phase \<Rightarrow> file_failure option" where
  "failure (RetryPending _ _ _ e) = Some e"
| "failure (Error _ _ e) = Some e"
| "failure (Interrupted _ e) = e"
| "failure Queued = None"
| "failure (Processing _) = None"
| "failure (Done _ _ _) = None"
| "failure (Diagnosed _ _ _ _) = None"

fun diagnostics :: "('d, 'x) file_phase \<Rightarrow> 'd option" where
  "diagnostics (Diagnosed _ _ d _) = d"
| "diagnostics _ = None"

fun exclusions :: "('d, 'x) file_phase \<Rightarrow> 'x list" where
  "exclusions (Done _ _ xs) = xs"
| "exclusions (Diagnosed _ _ _ xs) = xs"
| "exclusions _ = []"

fun interrupted :: "('d, 'x) file_phase \<Rightarrow> ('d, 'x) file_phase" where
  "interrupted Queued = Interrupted None None"
| "interrupted (Processing s) = Interrupted s None"
| "interrupted (RetryPending s _ _ e) = Interrupted s (Some e)"
| "interrupted p = p"

fun next_eligible_at :: "('d, 'x) file_phase \<Rightarrow> machine_time option" where
  "next_eligible_at (RetryPending _ _ r _) = Some r"
| "next_eligible_at _ = None"

fun failed_at :: "('d, 'x) file_phase \<Rightarrow> machine_time option" where
  "failed_at (RetryPending _ f _ _) = f"
| "failed_at _ = None"

definition max_opt :: "machine_time option list \<Rightarrow> machine_time option" where
  "max_opt ts = (case List.map_filter id ts of [] \<Rightarrow> None | x # xs \<Rightarrow> Some (fold max xs x))"

definition last_activity_at :: "('d, 'x) file_phase \<Rightarrow> machine_time option" where
  "last_activity_at p = max_opt [started_at p, finished_at p, failed_at p]"

subsection \<open>Rows\<close>

record ('d, 'x) file_phase_columns =
  col_status :: file_status_kind
  col_error :: "string option"
  col_error_category :: "failure_category option"
  col_diagnostics :: "'d option"
  col_exclusions :: "'x list option"
  col_started_at :: "machine_time option"
  col_finished_at :: "machine_time option"
  col_next_eligible_at :: "machine_time option"

definition no_columns :: "('d, 'x) file_phase \<Rightarrow> ('d, 'x) file_phase_columns" where
  "no_columns p =
     \<lparr>col_status = kind p,
      col_error = Option.bind (failure p) failure_message,
      col_error_category = Option.bind (failure p) failure_category_of,
      col_diagnostics = diagnostics p,
      col_exclusions = (if exclusions p = [] then None else Some (exclusions p)),
      col_started_at = None,
      col_finished_at = None,
      col_next_eligible_at = None\<rparr>"

definition columns :: "('d, 'x) file_phase \<Rightarrow> ('d, 'x) file_phase_columns" where
  "columns p =
     (case p of
        Queued \<Rightarrow> no_columns p
      | Processing s \<Rightarrow> (no_columns p)\<lparr>col_started_at := s\<rparr>
      | RetryPending s f r _ \<Rightarrow>
          (no_columns p)\<lparr>col_started_at := s, col_finished_at := f, col_next_eligible_at := Some r\<rparr>
      | Done s f _ \<Rightarrow> (no_columns p)\<lparr>col_started_at := s, col_finished_at := f\<rparr>
      | Diagnosed s f _ _ \<Rightarrow> (no_columns p)\<lparr>col_started_at := s, col_finished_at := f\<rparr>
      | Error s f _ \<Rightarrow> (no_columns p)\<lparr>col_started_at := s, col_finished_at := f\<rparr>
      | Interrupted s _ \<Rightarrow> (no_columns p)\<lparr>col_started_at := s\<rparr>)"

record row_held =
  held_started_at :: bool
  held_finished_at :: bool
  held_next_eligible_at :: bool
  held_failure :: bool
  held_diagnostics :: bool
  held_exclusions :: bool

definition not_kept_by :: "row_held \<Rightarrow> ('d, 'x) file_phase_columns \<Rightarrow> string list" where
  "not_kept_by h kept =
     (let kept_failure = (col_error kept \<noteq> None \<or> col_error_category kept \<noteq> None)
      in map snd (filter fst
           [(held_started_at h \<and> col_started_at kept = None, ''started_at''),
            (held_finished_at h \<and> col_finished_at kept = None, ''finished_at''),
            (held_next_eligible_at h \<and> col_next_eligible_at kept = None, ''next_eligible_at''),
            (held_failure h \<and> \<not> kept_failure, ''an error''),
            (held_diagnostics h \<and> col_diagnostics kept = None, ''diagnostics''),
            (held_exclusions h \<and> col_exclusions kept = None, ''exclusions'')]))"

definition phase_of_row :: "('d, 'x) file_phase_columns \<Rightarrow> ('d, 'x) file_phase" where
  "phase_of_row row =
     (let s = col_started_at row; f = col_finished_at row;
          m = col_error row; c = col_error_category row;
          written = (case col_exclusions row of Some xs \<Rightarrow> xs | None \<Rightarrow> [])
      in case (col_status row, col_next_eligible_at row) of
           (FileProcessing, Some r) \<Rightarrow> RetryPending s f r (of_failed_row m c)
         | (FileProcessing, None) \<Rightarrow> Processing s
         | (FileError, _) \<Rightarrow> Error s f (of_failed_row m c)
         | (FileInterrupted, _) \<Rightarrow> Interrupted s (from_columns m c)
         | (FileDone, _) \<Rightarrow> Done s f written
         | (FileDiagnosed, _) \<Rightarrow> Diagnosed s f (col_diagnostics row) written
         | (FileQueued, _) \<Rightarrow> Queued)"

definition row_held_of :: "('d, 'x) file_phase_columns \<Rightarrow> row_held" where
  "row_held_of row =
     \<lparr>held_started_at = col_started_at row \<noteq> None,
      held_finished_at = col_finished_at row \<noteq> None,
      held_next_eligible_at = col_next_eligible_at row \<noteq> None,
      held_failure = (col_error row \<noteq> None \<or> col_error_category row \<noteq> None),
      held_diagnostics = col_diagnostics row \<noteq> None,
      held_exclusions = col_exclusions row \<noteq> None\<rparr>"

definition from_row ::
  "('d, 'x) file_phase_columns \<Rightarrow> ('d, 'x) file_phase \<times> string option" where
  "from_row row =
     (let phase = phase_of_row row;
          dropped = not_kept_by (row_held_of row) (columns phase)
      in (phase,
          if dropped = [] then None
          else Some (''the '' @ file_status_display (col_status row) @ '' row held '' @
            join '', '' dropped @ '', which '' @
            (if length dropped = 1 then ''was'' else ''were'') @ '' not kept'')))"

subsection \<open>Progress and open waits\<close>

record file_progress =
  current :: "int option"
  total :: "int option"
  stage :: "file_progress_stage option"

definition file_progress_default :: file_progress where
  "file_progress_default = \<lparr>current = None, total = None, stage = None\<rparr>"

datatype pool_wait = WaitWorker | WaitHostMemory

datatype model_load_progress = Preparing | Downloading u32

datatype model_load_change = LoadStarted | LoadAdvanced model_load_progress | LoadEnded

datatype worker_wait_change =
  WaitStarted pool_wait | WaitEnded pool_wait | ModelLoad model_load_change

text \<open>The count of an active preparation is a \<^verbatim>\<open>NonZeroU32\<close>.\<close>

datatype model_loading = Inactive | Active u32 model_load_progress

fun loading_apply :: "model_loading \<Rightarrow> model_load_change \<Rightarrow> model_loading" where
  "loading_apply Inactive LoadStarted = Active 1 Preparing"
| "loading_apply (Active n _) LoadStarted = Active (u32_sat_add n 1) Preparing"
| "loading_apply (Active n _) (LoadAdvanced progress) = Active n progress"
| "loading_apply (Active n _) LoadEnded =
     (if n - 1 \<noteq> 0 then Active (n - 1) Preparing else Inactive)"
| "loading_apply Inactive (LoadAdvanced _) = Inactive"
| "loading_apply Inactive LoadEnded = Inactive"

record open_worker_waits =
  worker :: u32
  host_memory :: u32
  loading :: model_loading

definition open_worker_waits_default :: open_worker_waits where
  "open_worker_waits_default = \<lparr>worker = 0, host_memory = 0, loading = Inactive\<rparr>"

fun wait_count :: "open_worker_waits \<Rightarrow> pool_wait \<Rightarrow> u32" where
  "wait_count w WaitWorker = worker w"
| "wait_count w WaitHostMemory = host_memory w"

fun set_wait_count :: "pool_wait \<Rightarrow> u32 \<Rightarrow> open_worker_waits \<Rightarrow> open_worker_waits" where
  "set_wait_count WaitWorker n w = w\<lparr>worker := n\<rparr>"
| "set_wait_count WaitHostMemory n w = w\<lparr>host_memory := n\<rparr>"

fun waits_apply :: "worker_wait_change \<Rightarrow> open_worker_waits \<Rightarrow> open_worker_waits" where
  "waits_apply (ModelLoad change) w = w\<lparr>loading := loading_apply (loading w) change\<rparr>"
| "waits_apply (WaitStarted wait) w = set_wait_count wait (u32_sat_add (wait_count w wait) 1) w"
| "waits_apply (WaitEnded wait) w =
     (case u32_checked_sub (wait_count w wait) 1 of
        Some remaining \<Rightarrow> set_wait_count wait remaining w
      | None \<Rightarrow> w)"

definition shown_stage :: "open_worker_waits \<Rightarrow> file_progress_stage option" where
  "shown_stage w =
     (if host_memory w \<ge> 1 then Some StageWaitingForHostMemory
      else if worker w \<ge> 1 then Some StageWaitingForWorker
      else case loading w of
          Inactive \<Rightarrow> None
        | Active _ Preparing \<Rightarrow> Some StagePreparingWorker
        | Active _ (Downloading _) \<Rightarrow> Some StageDownloadingModel)"

subsection \<open>File status and its API entry\<close>

datatype file_stamp_outcome =
  StampUnrecorded | Stamped string | NotStamped string string

record ('d, 'x) file_status =
  filename :: string
  phase :: "('d, 'x) file_phase"
  stamp :: file_stamp_outcome
  current_attempt_id :: "string option"
  progress :: file_progress
  worker_waits :: open_worker_waits

definition file_status_new :: "string \<Rightarrow> ('d, 'x) file_status" where
  "file_status_new name =
     \<lparr>filename = name, phase = Queued, stamp = StampUnrecorded, current_attempt_id = None,
      progress = file_progress_default, worker_waits = open_worker_waits_default\<rparr>"

definition status :: "('d, 'x) file_status \<Rightarrow> file_status_kind" where
  "status f = kind (phase f)"

definition shown_progress :: "('d, 'x) file_status \<Rightarrow> file_progress" where
  "shown_progress f =
     (case (shown_stage (worker_waits f), file_is_terminal (status f)) of
        (Some st, False) \<Rightarrow>
          \<lparr>current =
             (case (st, loading (worker_waits f)) of
                (StageDownloadingModel, Active _ (Downloading grown_kib)) \<Rightarrow> Some (uint grown_kib)
              | _ \<Rightarrow> None),
           total = None,
           stage = Some st\<rparr>
      | _ \<Rightarrow> progress f)"

definition requeue :: "('d, 'x) file_status \<Rightarrow> ('d, 'x) file_status" where
  "requeue f =
     f\<lparr>phase := Queued, current_attempt_id := None, progress := file_progress_default,
       worker_waits := open_worker_waits_default\<rparr>"

record review_block =
  headline :: string
  lines :: "string list"

record file_review =
  needs_review :: "review_block option"
  left_out :: "review_block option"

text \<open>
  How the payload records are written out (\<^verbatim>\<open>FileOutputDiagnostics::summary\<close> and \<^verbatim>\<open>lines\<close>,
  \<^verbatim>\<open>OutputExclusionRecord::summary_phrase\<close>, its \<^verbatim>\<open>Display\<close> and \<^verbatim>\<open>detail_lines\<close>).
\<close>

record ('d, 'x) review_text =
  diag_summary :: "'d \<Rightarrow> string"
  diag_lines :: "'d \<Rightarrow> string list"
  excl_phrase :: "'x \<Rightarrow> string"
  excl_display :: "'x \<Rightarrow> string"
  excl_details :: "'x \<Rightarrow> string list"

definition review_of ::
  "('d, 'x) review_text \<Rightarrow> file_status_kind \<Rightarrow> 'd option \<Rightarrow> 'x list \<Rightarrow> file_review" where
  "review_of T st diag xs =
     \<lparr>needs_review =
        (case st of
           FileDiagnosed \<Rightarrow>
             Some (case diag of
                 Some d \<Rightarrow> \<lparr>headline = diag_summary T d, lines = diag_lines T d\<rparr>
               | None \<Rightarrow> \<lparr>headline = ''needs review (no details were recorded)'', lines = []\<rparr>)
         | _ \<Rightarrow> None),
      left_out =
        (if xs = [] then None
         else Some
           \<lparr>headline = join ''; '' (map (excl_phrase T) xs),
            lines = concat (map (\<lambda>x. excl_display T x # map (\<lambda>l. ''  '' @ l) (excl_details T x)) xs)\<rparr>)\<rparr>"

text \<open>
  The API entry. \<open>duration_s\<close> keeps the \<^verbatim>\<open>Duration\<close> in nanoseconds that the source converts to
  floating-point seconds.
\<close>

record ('d, 'x) file_status_entry =
  entry_filename :: string
  entry_status :: file_status_kind
  entry_error :: "string option"
  entry_error_category :: "failure_category option"
  entry_diagnostics :: "'d option"
  entry_exclusions :: "'x list"
  entry_stamp :: file_stamp_outcome
  entry_started_at :: "machine_time option"
  entry_finished_at :: "machine_time option"
  duration_s :: "duration option"
  entry_next_eligible_at :: "machine_time option"
  progress_current :: "int option"
  progress_total :: "int option"
  progress_stage :: "file_progress_stage option"
  progress_label :: "string option"
  review :: file_review

definition show_int :: "int \<Rightarrow> string" where
  "show_int i = (if i < 0 then ''-'' @ show_nat (nat (- i)) else show_nat (nat i))"

definition label_of_progress :: "file_progress \<Rightarrow> string option" where
  "label_of_progress p =
     map_option
       (\<lambda>st. case (st, current p) of
           (StageDownloadingModel, Some grown_kib) \<Rightarrow>
             ''Downloading model ('' @ show_int grown_kib @ '' KiB received)''
         | _ \<Rightarrow> stage_label st)
       (stage p)"

definition to_entry ::
  "('d, 'x) review_text \<Rightarrow> ('d, 'x) file_status \<Rightarrow> ('d, 'x) file_status_entry" where
  "to_entry T f =
     (let p = phase f; shown = shown_progress f
      in \<lparr>entry_filename = filename f,
          entry_status = kind p,
          entry_error = Option.bind (failure p) failure_message,
          entry_error_category = Option.bind (failure p) failure_category_of,
          entry_diagnostics = diagnostics p,
          entry_exclusions = exclusions p,
          entry_stamp = stamp f,
          entry_started_at = started_at p,
          entry_finished_at = finished_at p,
          duration_s =
            (case (started_at p, finished_at p) of
               (Some s, Some e) \<Rightarrow> Some (saturating_duration_since e s)
             | _ \<Rightarrow> None),
          entry_next_eligible_at = next_eligible_at p,
          progress_current = current shown,
          progress_total = total shown,
          progress_stage = stage shown,
          progress_label = label_of_progress shown,
          review = review_of T (kind p) (diagnostics p) (exclusions p)\<rparr>)"

record operational_counters =
  worker_crashes :: int
  attempts_started :: int
  attempts_retried :: int
  deferred_work_units :: int
  forced_terminal_errors :: int
  memory_gate_aborts :: int

subsection \<open>Rows and phases\<close>

lemma of_failed_row_columns [simp]:
  "of_failed_row (failure_message e) (failure_category_of e) = e"
  by (cases e) simp_all

lemma of_failed_row_message [simp]: "failure_message (of_failed_row m c) = m"
  by (cases m; cases c) simp_all

lemma of_failed_row_category [simp]: "failure_category_of (of_failed_row m c) = c"
  by (cases m; cases c) simp_all

lemma from_columns_failure [simp]:
  "from_columns (failure_message e) (failure_category_of e) = (if e = Unrecorded then None else Some e)"
  by (cases e) (simp_all add: from_columns_def)

lemma from_columns_message [simp]: "Option.bind (from_columns m c) failure_message = m"
  by (cases m; cases c) (simp_all add: from_columns_def)

lemma from_columns_category [simp]: "Option.bind (from_columns m c) failure_category_of = c"
  by (cases m; cases c) (simp_all add: from_columns_def)

lemma from_columns_None [simp]: "from_columns None None = None"
  by (simp add: from_columns_def)

lemmas column_defs = columns_def no_columns_def phase_of_row_def row_held_of_def not_kept_by_def

lemma not_kept_Nil:
  "not_kept_by (row_held_of row) kept = [] \<longleftrightarrow>
     (col_started_at row = None \<or> col_started_at kept \<noteq> None) \<and>
     (col_finished_at row = None \<or> col_finished_at kept \<noteq> None) \<and>
     (col_next_eligible_at row = None \<or> col_next_eligible_at kept \<noteq> None) \<and>
     (col_error kept = None \<longrightarrow>
       col_error row = None \<and> col_error_category row = None \<or> col_error_category kept \<noteq> None) \<and>
     (col_diagnostics row = None \<or> col_diagnostics kept \<noteq> None) \<and>
     (col_exclusions row = None \<or> col_exclusions kept \<noteq> None)"
  unfolding not_kept_by_def Let_def map_is_Nil_conv filter_empty_conv row_held_of_def
  by (simp del: not_None_eq)

lemma not_kept_self: "not_kept_by (row_held_of c) c = []"
  unfolding not_kept_Nil by blast

text \<open>The phase a row stands for when it is written and read back.\<close>

definition read_back :: "('d, 'x) file_phase \<Rightarrow> ('d, 'x) file_phase" where
  "read_back p = (case p of Interrupted s (Some Unrecorded) \<Rightarrow> Interrupted s None | _ \<Rightarrow> p)"

lemma phase_of_columns: "phase_of_row (columns p) = read_back p"
proof (cases p)
  case (Interrupted s e)
  then show ?thesis
    by (cases e) (auto simp: read_back_def columns_def no_columns_def phase_of_row_def
        split: file_failure.splits)
qed (auto simp: read_back_def columns_def no_columns_def phase_of_row_def split: option.splits)

lemma columns_read_back: "columns (read_back p) = columns p"
  by (auto simp: read_back_def columns_def no_columns_def
      split: file_phase.splits option.splits file_failure.splits)

text \<open>
  C35. The database row of a phase: reading back what was written gives the phase and no report,
  for every phase but an interruption whose earlier failure named neither a message nor a
  category. That one comes back without its failure: an image with neither column is that of an
  interruption with no failure at all.
\<close>

theorem from_row_columns:
  "from_row (columns p) =
     (case p of Interrupted s (Some Unrecorded) \<Rightarrow> Interrupted s None | _ \<Rightarrow> p, None)"
  by (simp add: from_row_def Let_def phase_of_columns columns_read_back not_kept_self)
    (simp add: read_back_def)

text \<open>
  The reader of rows reports exactly what it loses: it gives no report if and only if writing
  the rebuilt phase back yields the row as it was stored, a stored empty exclusion list apart.
\<close>

theorem from_row_report_iff_lossless:
  assumes "col_exclusions row \<noteq> Some []"
  shows "snd (from_row row) = None \<longleftrightarrow> columns (fst (from_row row)) = row"
proof -
  let ?p = "phase_of_row row"
  have "not_kept_by (row_held_of row) (columns ?p) = [] \<longleftrightarrow> columns ?p = row"
    unfolding not_kept_Nil using assms
    by (cases row; cases "col_status row"; cases "col_next_eligible_at row")
      (auto simp: columns_def no_columns_def phase_of_row_def Let_def split: option.splits)
  then show ?thesis by (simp add: from_row_def Let_def)
qed

theorem from_row_report_iff_lossless_witness:
  "snd (from_row (columns (Processing (Some 3) :: (unit, unit) file_phase)
       \<lparr>col_finished_at := Some 4, col_error := Some ''x''\<rparr>)) =
     Some ''the processing row held finished_at, an error, which were not kept''"
  using from_row_report_iff_lossless [of "columns (Processing (Some 3) :: (unit, unit) file_phase)
       \<lparr>col_finished_at := Some 4, col_error := Some ''x''\<rparr>"]
  by (simp add: from_row_def column_defs Let_def)

text \<open>
  What an interruption does to a file: a second interruption changes nothing, a terminal
  phase is kept whole, every other phase becomes resumable with its start and failure kept and
  neither a finish time nor a retry deadline.
\<close>

theorem interrupted_phase:
  "interrupted (interrupted p) = interrupted p \<and>
   (if file_is_terminal (kind p) then interrupted p = p
    else kind (interrupted p) = FileInterrupted) \<and>
   started_at (interrupted p) = started_at p \<and>
   failure (interrupted p) = failure p \<and>
   finished_at (interrupted p) = finished_at p \<and>
   next_eligible_at (interrupted p) = None"
  by (cases p) simp_all

subsection \<open>Open waits\<close>

text \<open>
  What the waits count, over the whole numbers: each kind of wait opens and closes, a close with
  nothing open changes nothing.
\<close>

fun open_pool :: "pool_wait \<Rightarrow> worker_wait_change list \<Rightarrow> nat" where
  "open_pool k [] = 0"
| "open_pool k (WaitStarted j # cs) = (if j = k then Suc (open_pool k cs) else open_pool k cs)"
| "open_pool k (WaitEnded j # cs) = (if j = k then open_pool k cs - 1 else open_pool k cs)"
| "open_pool k (ModelLoad _ # cs) = open_pool k cs"

fun open_loads :: "worker_wait_change list \<Rightarrow> nat" where
  "open_loads [] = 0"
| "open_loads (ModelLoad LoadStarted # cs) = Suc (open_loads cs)"
| "open_loads (ModelLoad LoadEnded # cs) = open_loads cs - 1"
| "open_loads (_ # cs) = open_loads cs"

fun loads_counted :: "model_loading \<Rightarrow> nat" where
  "loads_counted Inactive = 0"
| "loads_counted (Active n _) = unat n"

definition loading_ok :: "model_loading \<Rightarrow> bool" where
  "loading_ok l \<longleftrightarrow> (\<forall>n p. l = Active n p \<longrightarrow> n \<noteq> 0)"

lemma open_pool_le: "open_pool k cs \<le> length cs"
  by (induction k cs rule: open_pool.induct) auto

lemma open_loads_le: "open_loads cs \<le> length cs"
  by (induction cs rule: open_loads.induct) auto

lemma wait_count_set [simp]:
  "wait_count (set_wait_count j n w) k = (if j = k then n else wait_count w k)"
  by (cases j; cases k) simp_all

lemma loading_set [simp]: "loading (set_wait_count j n w) = loading w"
  by (cases j) simp_all

lemma wait_count_loading [simp]: "wait_count (w\<lparr>loading := l\<rparr>) k = wait_count w k"
  by (cases k) simp_all

lemma u32_pred: "n \<noteq> 0 \<Longrightarrow> unat (n - 1 :: u32) = unat n - 1"
  by (metis unat_minus_one)

lemma u32_sat_add_one_nz: "u32_sat_add n 1 \<noteq> 0"
proof -
  have "unat (u32_sat_add n 1) \<noteq> 0" by (simp add: unat_u32_sat_add min_def)
  then show ?thesis by auto
qed

lemma loading_ok_apply: "loading_ok l \<Longrightarrow> loading_ok (loading_apply l c)"
  by (cases l; cases c) (auto simp: loading_ok_def u32_sat_add_one_nz)

lemma loading_ok_run: "loading_ok (loading (foldr waits_apply cs open_worker_waits_default))"
proof (induction cs)
  case Nil
  show ?case by (simp add: open_worker_waits_default_def loading_ok_def)
next
  case (Cons c cs)
  then show ?case by (cases c) (auto simp: loading_ok_apply split: option.splits)
qed

lemma u32_checked_sub_one:
  "u32_checked_sub n 1 = (if n = 0 then None else Some (n - 1))"
  by (auto simp: u32_checked_sub_def word_le_nat_alt Suc_le_eq unat_gt_0)

lemma wait_count_run:
  "length cs < 2 ^ 32 \<Longrightarrow>
     unat (wait_count (foldr waits_apply cs open_worker_waits_default) k) = open_pool k cs"
proof (induction cs)
  case Nil
  show ?case by (cases k) (simp_all add: open_worker_waits_default_def)
next
  case (Cons c cs)
  let ?n = "wait_count (foldr waits_apply cs open_worker_waits_default) k"
  from Cons have n: "unat ?n = open_pool k cs" by simp
  have "open_pool k cs + 1 < 2 ^ 32" using open_pool_le [of k cs] Cons.prems by simp
  with n show ?case
    by (cases c)
      (auto simp: unat_u32_sat_add u32_checked_sub_one u32_pred unat_eq_zero split: option.splits)
qed

lemma loads_run:
  "length cs < 2 ^ 32 \<Longrightarrow>
     loads_counted (loading (foldr waits_apply cs open_worker_waits_default)) = open_loads cs"
proof (induction cs)
  case Nil
  show ?case by (simp add: open_worker_waits_default_def)
next
  case (Cons c cs)
  let ?l = "loading (foldr waits_apply cs open_worker_waits_default)"
  from Cons have n: "loads_counted ?l = open_loads cs" by simp
  have bound: "open_loads cs + 1 < 2 ^ 32" using open_loads_le [of cs] Cons.prems by simp
  show ?case
  proof (cases c)
    case (ModelLoad m)
    show ?thesis
    proof (cases ?l)
      case Inactive
      with n ModelLoad show ?thesis by (cases m) simp_all
    next
      case (Active a p)
      with loading_ok_run [of cs] have "a \<noteq> 0" by (auto simp: loading_ok_def)
      then have pred: "unat (a - 1) = unat a - 1" by (rule u32_pred)
      from Active n ModelLoad bound pred show ?thesis
        by (cases m) (auto simp: unat_u32_sat_add unat_eq_zero)
    qed
  qed (use n in \<open>auto split: option.splits\<close>)
qed

text \<open>
  What a file shows while its work waits: after any history of fewer than \<open>2 ^ 32\<close> changes,
  the shown stage is the host-memory wait if one is open, else a worker wait if one is open, else
  the preparation of a model if one is open, and none exactly when every wait that began has
  ended.
\<close>

theorem shown_stage_of_history:
  assumes "length cs < 2 ^ 32"
  shows "shown_stage (fold waits_apply cs open_worker_waits_default) =
     (if open_pool WaitHostMemory (rev cs) \<noteq> 0 then Some StageWaitingForHostMemory
      else if open_pool WaitWorker (rev cs) \<noteq> 0 then Some StageWaitingForWorker
      else if open_loads (rev cs) = 0 then None
      else Some (case loading (fold waits_apply cs open_worker_waits_default) of
          Active _ (Downloading _) \<Rightarrow> StageDownloadingModel
        | _ \<Rightarrow> StagePreparingWorker))"
proof -
  let ?w = "fold waits_apply cs open_worker_waits_default"
  have len: "length (rev cs) < 2 ^ 32" using assms by simp
  have w: "?w = foldr waits_apply (rev cs) open_worker_waits_default" by (simp add: foldr_conv_fold)
  have ge: "(1 :: u32) \<le> n \<longleftrightarrow> unat n \<noteq> 0" for n by (simp add: word_le_nat_alt Suc_le_eq)
  have "unat (worker ?w) = open_pool WaitWorker (rev cs)"
    and "unat (host_memory ?w) = open_pool WaitHostMemory (rev cs)"
    using wait_count_run [OF len, of WaitWorker] wait_count_run [OF len, of WaitHostMemory]
    by (simp_all add: w)
  moreover have "loads_counted (loading ?w) = open_loads (rev cs)"
    using loads_run [OF len] by (simp add: w)
  moreover have "loads_counted (loading ?w) = 0 \<longleftrightarrow> loading ?w = Inactive"
    using loading_ok_run [of "rev cs"]
    by (cases "loading ?w") (auto simp: w loading_ok_def unat_eq_zero)
  ultimately show ?thesis
    unfolding shown_stage_def ge
    by (auto split: model_loading.splits model_load_progress.splits)
qed

theorem shown_stage_of_history_witness:
  "shown_stage (fold waits_apply
     [WaitStarted WaitWorker, WaitStarted WaitHostMemory, WaitEnded WaitWorker,
      WaitEnded WaitHostMemory, ModelLoad LoadStarted, ModelLoad (LoadAdvanced (Downloading 7))]
     open_worker_waits_default) = Some StageDownloadingModel"
  using shown_stage_of_history [of "[WaitStarted WaitWorker, WaitStarted WaitHostMemory,
      WaitEnded WaitWorker, WaitEnded WaitHostMemory, ModelLoad LoadStarted,
      ModelLoad (LoadAdvanced (Downloading 7))]"]
  by (simp add: open_worker_waits_default_def u32_sat_add_def u32_checked_sub_def)

end
