(* ===== verification/Domain.thy ===== *)
theory Domain
  imports Prelude
begin

text \<open>
  Domain vocabulary of a job (\<^verbatim>\<open>crates/batchalign-types/src/domain.rs\<close>): the released commands,
  the content types of results, validated language codes, language pairs, the job-level
  language specification and the worker-runtime language, each with the parser and the spelling
  the wire, the job record and the command line use.
\<close>

subsection \<open>Text\<close>

text \<open>
  \<^verbatim>\<open>str::trim\<close> removes characters with the Unicode \<^verbatim>\<open>White_Space\<close> property from both ends. On the
  UTF-8 bytes of a string these are the byte sequences below.
\<close>

definition white_space :: "string list" where
  "white_space =
     map (map char_of)
       ([[9], [10], [11], [12], [13], [32], [194, 133], [194, 160], [225, 154, 128],
         [226, 128, 168], [226, 128, 169], [226, 128, 175], [226, 129, 159], [227, 128, 128]] @
        map (\<lambda>i. [226, 128, 128 + i]) [0..<11] :: nat list list)"

function strip :: "string list \<Rightarrow> string \<Rightarrow> string" where
  "strip W s =
     (case find (\<lambda>w. w \<noteq> [] \<and> take (length w) s = w) W of
        None \<Rightarrow> s
      | Some w \<Rightarrow> strip W (drop (length w) s))"
  by pat_completeness auto

termination strip
proof (relation "measure (\<lambda>(W, s). length s)", goal_cases)
  case 1
  show ?case by simp
next
  case (2 W s w)
  then have "w \<noteq> []" "take (length w) s = w" by (auto simp: find_Some_iff)
  then show ?case by (cases s) auto
qed

declare strip.simps [simp del]

definition trim :: "string \<Rightarrow> string" where
  "trim s = rev (strip (map rev white_space) (rev (strip white_space s)))"

definition is_ascii_alphabetic :: "char \<Rightarrow> bool" where
  "is_ascii_alphabetic c \<longleftrightarrow>
     (let n = of_char c :: nat in 65 \<le> n \<and> n \<le> 90 \<or> 97 \<le> n \<and> n \<le> 122)"

definition to_ascii_lower :: "char \<Rightarrow> char" where
  "to_ascii_lower c = (let n = of_char c :: nat in if 65 \<le> n \<and> n \<le> 90 then char_of (n + 32) else c)"

definition eq_ignore_ascii_case :: "string \<Rightarrow> string \<Rightarrow> bool" where
  "eq_ignore_ascii_case a b \<longleftrightarrow> map to_ascii_lower a = map to_ascii_lower b"

text \<open>\<^verbatim>\<open>split_once\<close> on a one-byte separator.\<close>

fun split_once :: "char \<Rightarrow> string \<Rightarrow> (string \<times> string) option" where
  "split_once c [] = None"
| "split_once c (x # xs) =
     (if x = c then Some ([], xs)
      else map_option (\<lambda>(a, b). (x # a, b)) (split_once c xs))"

subsection \<open>Released commands\<close>

datatype released_command =
    Align | Transcribe | TranscribeS | Translate | Morphotag | Coref | Utseg | Benchmark
  | Opensmile | Compare | Avqi | Diarize | SpeakerIdentify | Convert

fun command_as_str :: "released_command \<Rightarrow> string" where
  "command_as_str Align = ''align''"
| "command_as_str Transcribe = ''transcribe''"
| "command_as_str TranscribeS = ''transcribe_s''"
| "command_as_str Translate = ''translate''"
| "command_as_str Morphotag = ''morphotag''"
| "command_as_str Coref = ''coref''"
| "command_as_str Utseg = ''utseg''"
| "command_as_str Benchmark = ''benchmark''"
| "command_as_str Opensmile = ''opensmile''"
| "command_as_str Compare = ''compare''"
| "command_as_str Avqi = ''avqi''"
| "command_as_str Diarize = ''diarize''"
| "command_as_str SpeakerIdentify = ''speaker_identify''"
| "command_as_str Convert = ''convert''"

definition command_try_from :: "string \<Rightarrow> (string, released_command) result" where
  "command_try_from s =
     (if s = ''align'' then Ok Align
      else if s = ''transcribe'' then Ok Transcribe
      else if s = ''transcribe_s'' then Ok TranscribeS
      else if s = ''translate'' then Ok Translate
      else if s = ''morphotag'' then Ok Morphotag
      else if s = ''coref'' then Ok Coref
      else if s = ''utseg'' then Ok Utseg
      else if s = ''benchmark'' then Ok Benchmark
      else if s = ''opensmile'' then Ok Opensmile
      else if s = ''compare'' then Ok Compare
      else if s = ''avqi'' then Ok Avqi
      else if s = ''diarize'' then Ok Diarize
      else if s = ''speaker_identify'' then Ok SpeakerIdentify
      else if s = ''convert'' then Ok Convert
      else Err s)"

definition command_parse_untrusted :: "string \<Rightarrow> (string, released_command) result" where
  "command_parse_untrusted s = command_try_from (trim s)"

subsection \<open>Content types\<close>

datatype content_type = Chat | Csv | Text | Json | Wav | Mp3

fun content_type_display :: "content_type \<Rightarrow> string" where
  "content_type_display Chat = ''chat''"
| "content_type_display Csv = ''csv''"
| "content_type_display Text = ''text''"
| "content_type_display Json = ''json''"
| "content_type_display Wav = ''wav''"
| "content_type_display Mp3 = ''mp3''"

fun is_binary :: "content_type \<Rightarrow> bool" where
  "is_binary Wav = True"
| "is_binary Mp3 = True"
| "is_binary Chat = False"
| "is_binary Csv = False"
| "is_binary Text = False"
| "is_binary Json = False"

fun binary_media_type :: "content_type \<Rightarrow> string option" where
  "binary_media_type Wav = Some ''audio/wav''"
| "binary_media_type Mp3 = Some ''audio/mpeg''"
| "binary_media_type Chat = None"
| "binary_media_type Csv = None"
| "binary_media_type Text = None"
| "binary_media_type Json = None"

subsection \<open>Language codes\<close>

datatype language_code3 = LanguageCode3 (code: string)

text \<open>What the private constructor guards: three lower-case ASCII letters.\<close>

definition code_ok :: "language_code3 \<Rightarrow> bool" where
  "code_ok c \<longleftrightarrow>
     length (code c) = 3 \<and> list_all (\<lambda>b. is_ascii_alphabetic b \<and> to_ascii_lower b = b) (code c)"

definition code_try_new :: "string \<Rightarrow> (string, language_code3) result" where
  "code_try_new s0 =
     (let s = trim s0
      in if length s = 3 \<and> list_all is_ascii_alphabetic s
         then Ok (LanguageCode3 (map to_ascii_lower s))
         else Err s)"

definition code_eng :: language_code3 where "code_eng = LanguageCode3 ''eng''"

datatype worker_language =
  WorkerResolved language_code3 | WorkerAuto | WorkerPerFile | WorkerUnspecified

definition worker_language_parse_untrusted :: "string \<Rightarrow> (string, worker_language) result" where
  "worker_language_parse_untrusted s0 =
     (let s = trim s0
      in if s = [] then Ok WorkerUnspecified
         else if eq_ignore_ascii_case s ''auto'' then Ok WorkerAuto
         else if eq_ignore_ascii_case s ''per-file'' then Ok WorkerPerFile
         else case code_try_new s of Inr c \<Rightarrow> Ok (WorkerResolved c) | Inl _ \<Rightarrow> Err s)"

fun as_worker_arg :: "worker_language \<Rightarrow> string" where
  "as_worker_arg (WorkerResolved c) = code c"
| "as_worker_arg WorkerAuto = ''auto''"
| "as_worker_arg WorkerPerFile = ''per-file''"
| "as_worker_arg WorkerUnspecified = ''''"

record language_pair =
  primary :: language_code3
  secondary :: language_code3

datatype invalid_language_pair =
  SameLanguage language_code3 | PairShape string | PairCode string

definition separator :: char where "separator = CHR '',''"

definition language_pair_new ::
  "language_code3 \<Rightarrow> language_code3 \<Rightarrow> (invalid_language_pair, language_pair) result" where
  "language_pair_new p s =
     (if p = s then Err (SameLanguage p) else Ok \<lparr>primary = p, secondary = s\<rparr>)"

definition language_pair_parse :: "string \<Rightarrow> (invalid_language_pair, language_pair) result" where
  "language_pair_parse t =
     (case split_once separator t of
        Some (p, s) \<Rightarrow>
          if separator \<notin> set s
          then (case code_try_new p of
                  Inl e \<Rightarrow> Err (PairCode e)
                | Inr pc \<Rightarrow>
                    (case code_try_new s of
                       Inl e \<Rightarrow> Err (PairCode e)
                     | Inr sc \<Rightarrow> language_pair_new pc sc))
          else Err (PairShape t)
      | None \<Rightarrow> Err (PairShape t))"

definition language_pair_display :: "language_pair \<Rightarrow> string" where
  "language_pair_display p = code (primary p) @ [separator] @ code (secondary p)"

datatype language_spec = Auto | Resolved language_code3 | Pair language_pair | PerFile

datatype invalid_language_spec = SpecCode string | SpecPair invalid_language_pair

fun as_resolved :: "language_spec \<Rightarrow> language_code3 option" where
  "as_resolved (Resolved c) = Some c"
| "as_resolved Auto = None"
| "as_resolved (Pair _) = None"
| "as_resolved PerFile = None"

fun to_worker_language :: "language_spec \<Rightarrow> worker_language" where
  "to_worker_language Auto = WorkerAuto"
| "to_worker_language (Resolved c) = WorkerResolved c"
| "to_worker_language (Pair p) = WorkerResolved (primary p)"
| "to_worker_language PerFile = WorkerPerFile"

definition language_spec_parse :: "string \<Rightarrow> (invalid_language_spec, language_spec) result" where
  "language_spec_parse t0 =
     (let t = trim t0
      in if eq_ignore_ascii_case t ''auto'' then Ok Auto
         else if eq_ignore_ascii_case t ''per-file'' then Ok PerFile
         else if separator \<in> set t
         then (case language_pair_parse t of Inl e \<Rightarrow> Err (SpecPair e) | Inr p \<Rightarrow> Ok (Pair p))
         else (case code_try_new t of Inl e \<Rightarrow> Err (SpecCode e) | Inr c \<Rightarrow> Ok (Resolved c)))"

definition language_spec_parse_from_db :: "string \<Rightarrow> language_spec \<times> bool" where
  "language_spec_parse_from_db s =
     (case language_spec_parse s of
        Inr spec \<Rightarrow> (spec, True)
      | Inl _ \<Rightarrow> (Resolved code_eng, False))"

fun language_spec_display :: "language_spec \<Rightarrow> string" where
  "language_spec_display Auto = ''auto''"
| "language_spec_display (Resolved c) = code c"
| "language_spec_display (Pair p) = language_pair_display p"
| "language_spec_display PerFile = ''per-file''"

subsection \<open>Trimming\<close>

lemma white_space_not_alphabetic:
  "w \<in> set white_space \<Longrightarrow>
     w \<noteq> [] \<and> \<not> is_ascii_alphabetic (hd w) \<and> \<not> is_ascii_alphabetic (last w)"
proof -
  have "list_all (\<lambda>w. w \<noteq> [] \<and> \<not> is_ascii_alphabetic (hd w) \<and> \<not> is_ascii_alphabetic (last w))
      white_space"
    by code_simp
  then show "w \<in> set white_space \<Longrightarrow> ?thesis" by (auto simp: list_all_iff)
qed

lemma strip_id:
  assumes "\<And>w. w \<in> set W \<Longrightarrow> w \<noteq> [] \<and> hd w \<noteq> hd s" and "s \<noteq> []"
  shows "strip W s = s"
proof -
  have "take (length w) s \<noteq> w" if "w \<in> set W" for w
    using assms(1) [OF that] assms(2) by (cases w; cases s) auto
  then have "find (\<lambda>w. w \<noteq> [] \<and> take (length w) s = w) W = None"
    by (auto simp: find_None_iff)
  then show ?thesis by (subst strip.simps) simp
qed

lemma trim_id:
  assumes "s \<noteq> []" and "is_ascii_alphabetic (hd s)" and "is_ascii_alphabetic (last s)"
  shows "trim s = s"
proof -
  have front: "strip white_space s = s"
    using assms by (intro strip_id) (metis white_space_not_alphabetic)
  have "strip (map rev white_space) (rev s) = rev s"
    using assms by (intro strip_id) (auto simp: hd_rev dest: white_space_not_alphabetic)
  with front show ?thesis by (simp add: trim_def)
qed

lemma trim_Nil [simp]: "trim [] = []"
proof -
  have "strip W [] = []" for W
    by (subst strip.simps) (auto split: option.splits simp: find_Some_iff)
  then show ?thesis by (simp add: trim_def)
qed

lemma ascii_letters:
  "is_ascii_alphabetic CHR ''a''" "is_ascii_alphabetic CHR ''o''"
  "is_ascii_alphabetic CHR ''p''" "is_ascii_alphabetic CHR ''e''"
  by code_simp+

lemma trim_auto [simp]: "trim ''auto'' = ''auto''"
  by (rule trim_id) (simp_all add: ascii_letters)

lemma trim_per_file [simp]: "trim ''per-file'' = ''per-file''"
  by (rule trim_id) (simp_all add: ascii_letters)

lemma separator_not_alphabetic: "\<not> is_ascii_alphabetic separator"
  by code_simp

subsection \<open>Codes\<close>

lemma lower_alphabetic:
  "is_ascii_alphabetic c \<Longrightarrow>
     is_ascii_alphabetic (to_ascii_lower c) \<and> to_ascii_lower (to_ascii_lower c) = to_ascii_lower c"
  by (auto simp: is_ascii_alphabetic_def to_ascii_lower_def Let_def)

lemma code_ok_alphabetic:
  assumes "code_ok c"
  shows "list_all is_ascii_alphabetic (code c)" and "map to_ascii_lower (code c) = code c"
    and "length (code c) = 3" and "code c \<noteq> []"
    and "is_ascii_alphabetic (hd (code c))" and "is_ascii_alphabetic (last (code c))"
    and "trim (code c) = code c" and "separator \<notin> set (code c)"
proof -
  show all: "list_all is_ascii_alphabetic (code c)" and len: "length (code c) = 3"
    and "map to_ascii_lower (code c) = code c"
    using assms by (auto simp: code_ok_def list_all_iff intro: map_idI)
  then show ne: "code c \<noteq> []" by auto
  with all show h: "is_ascii_alphabetic (hd (code c))" and l: "is_ascii_alphabetic (last (code c))"
    by (auto simp: list_all_iff)
  from ne h l show "trim (code c) = code c" by (rule trim_id)
  from all separator_not_alphabetic show "separator \<notin> set (code c)" by (auto simp: list_all_iff)
qed

lemma code_try_new_ok: "code_try_new s = Ok c \<Longrightarrow> code_ok c"
  by (auto simp: code_try_new_def code_ok_def Let_def list_all_iff lower_alphabetic split: if_splits)

lemma code_try_new_code: "code_ok c \<Longrightarrow> code_try_new (code c) = Ok c"
  using code_ok_alphabetic [of c] by (cases c) (simp add: code_try_new_def Let_def)

lemma split_once_app: "c \<notin> set a \<Longrightarrow> split_once c (a @ c # b) = Some (a, b)"
  by (induction a) auto

lemma code_not_keyword:
  assumes "code_ok c"
  shows "\<not> eq_ignore_ascii_case (code c) ''auto''" "\<not> eq_ignore_ascii_case (code c) ''per-file''"
  using code_ok_alphabetic(3) [OF assms]
  by (auto simp: eq_ignore_ascii_case_def dest: arg_cong [where f = length])

subsection \<open>Language specifications\<close>

definition pair_ok :: "language_pair \<Rightarrow> bool" where
  "pair_ok p \<longleftrightarrow> code_ok (primary p) \<and> code_ok (secondary p) \<and> primary p \<noteq> secondary p"

fun spec_ok :: "language_spec \<Rightarrow> bool" where
  "spec_ok (Resolved c) = code_ok c"
| "spec_ok (Pair p) = pair_ok p"
| "spec_ok Auto = True"
| "spec_ok PerFile = True"

fun worker_language_ok :: "worker_language \<Rightarrow> bool" where
  "worker_language_ok (WorkerResolved c) = code_ok c"
| "worker_language_ok _ = True"

lemma pair_display_facts:
  assumes "pair_ok p"
  shows "trim (language_pair_display p) = language_pair_display p"
    and "length (language_pair_display p) = 7"
    and "separator \<in> set (language_pair_display p)"
    and "language_pair_parse (language_pair_display p) = Ok p"
proof -
  from assms have ok: "code_ok (primary p)" "code_ok (secondary p)" and ne: "primary p \<noteq> secondary p"
    by (auto simp: pair_ok_def)
  note facts = code_ok_alphabetic [OF ok(1)] code_ok_alphabetic [OF ok(2)]
  show "trim (language_pair_display p) = language_pair_display p"
    using facts by (intro trim_id) (simp_all add: language_pair_display_def)
  show "length (language_pair_display p) = 7" "separator \<in> set (language_pair_display p)"
    using facts by (simp_all add: language_pair_display_def)
  show "language_pair_parse (language_pair_display p) = Ok p"
    using facts ne
    by (simp add: language_pair_parse_def language_pair_display_def split_once_app
        code_try_new_code ok language_pair_new_def)
qed

lemma pair_parse_ok: "language_pair_parse t = Ok p \<Longrightarrow> pair_ok p"
  using code_try_new_ok
  by (simp add: language_pair_parse_def language_pair_new_def pair_ok_def
      split: option.splits if_splits sum.splits prod.splits) fastforce

lemma spec_parse_ok: "language_spec_parse t = Ok spec \<Longrightarrow> spec_ok spec"
  by (auto simp: language_spec_parse_def Let_def dest: pair_parse_ok code_try_new_ok
      split: if_splits sum.splits)

lemma spec_parse_display: "spec_ok spec \<Longrightarrow> language_spec_parse (language_spec_display spec) = Ok spec"
proof (cases spec)
  case (Resolved c)
  assume "spec_ok spec"
  with Resolved have ok: "code_ok c" by simp
  with code_ok_alphabetic [OF ok] code_not_keyword [OF ok] Resolved show ?thesis
    by (simp add: language_spec_parse_def Let_def code_try_new_code)
next
  case (Pair p)
  assume "spec_ok spec"
  with Pair have ok: "pair_ok p" by simp
  have "\<not> eq_ignore_ascii_case (language_pair_display p) ''auto''"
    "\<not> eq_ignore_ascii_case (language_pair_display p) ''per-file''"
    using pair_display_facts(2) [OF ok]
    by (auto simp: eq_ignore_ascii_case_def dest: arg_cong [where f = length])
  with pair_display_facts [OF ok] Pair show ?thesis
    by (simp add: language_spec_parse_def Let_def)
qed (simp_all add: language_spec_parse_def eq_ignore_ascii_case_def to_ascii_lower_def Let_def)

text \<open>
  A job's language specification survives its text: the specifications that parse back from
  their own spelling are exactly the well-formed ones (three-letter codes, pairs of two different
  codes), everything a text parses to is well-formed, and a stored specification never falls back
  to English when it is read again.
\<close>

theorem language_spec_roundtrip:
  "(language_spec_parse (language_spec_display spec) = Ok spec \<longleftrightarrow> spec_ok spec) \<and>
   (case language_spec_parse t of
      Inl _ \<Rightarrow> snd (language_spec_parse_from_db t) = False
    | Inr parsed \<Rightarrow> spec_ok parsed \<and>
        language_spec_parse_from_db (language_spec_display parsed) = (parsed, True))"
  using spec_parse_ok [of "language_spec_display spec" spec] spec_parse_display [of spec]
  by (auto simp: language_spec_parse_from_db_def spec_parse_display dest: spec_parse_ok
      split: sum.splits)

lemma worker_parse_arg:
  "worker_language_ok w \<Longrightarrow> worker_language_parse_untrusted (as_worker_arg w) = Ok w"
proof (cases w)
  case (WorkerResolved c)
  assume "worker_language_ok w"
  with WorkerResolved have ok: "code_ok c" by simp
  with code_ok_alphabetic [OF ok] code_not_keyword [OF ok] WorkerResolved show ?thesis
    by (simp add: worker_language_parse_untrusted_def Let_def code_try_new_code)
qed (simp_all add: worker_language_parse_untrusted_def eq_ignore_ascii_case_def to_ascii_lower_def
    Let_def)

lemma worker_parse_ok: "worker_language_parse_untrusted t = Ok w \<Longrightarrow> worker_language_ok w"
  by (auto simp: worker_language_parse_untrusted_def Let_def dest: code_try_new_ok
      split: if_splits sum.splits)

text \<open>
  The language handed to a worker process: its argument text parses back to the same worker
  language exactly for the well-formed ones, and every parsed job specification yields one, so
  no job can start a worker with a language argument that is refused or read differently.
\<close>

theorem worker_language_roundtrip:
  "(worker_language_parse_untrusted (as_worker_arg w) = Ok w \<longleftrightarrow> worker_language_ok w) \<and>
   (case language_spec_parse t of
      Inl _ \<Rightarrow> True
    | Inr spec \<Rightarrow>
        worker_language_parse_untrusted (as_worker_arg (to_worker_language spec)) =
          Ok (to_worker_language spec))"
proof -
  have "spec_ok spec \<Longrightarrow> worker_language_ok (to_worker_language spec)" for spec
    by (cases spec) (auto simp: pair_ok_def)
  then show ?thesis
    using worker_parse_ok [of "as_worker_arg w" w] worker_parse_arg [of w]
    by (auto dest: spec_parse_ok simp: worker_parse_arg split: sum.splits)
qed

lemma command_try_from_Ok: "command_try_from s = Ok k \<longleftrightarrow> s = command_as_str k"
  by (cases k) (auto simp: command_try_from_def)

interpretation command_wire: wire_enum command_as_str command_try_from "''''"
  by unfold_locales
    (auto simp: command_try_from_Ok, auto simp: command_try_from_def split: if_splits)

end
