(* ===== verification/Job.thy ===== *)
theory Job
  imports File_Phase Domain
begin

text \<open>
  One job (\<^verbatim>\<open>crates/batchalign/src/store/job/\<close>): its records (\<^verbatim>\<open>types.rs\<close>), the lifecycle
  transitions (\<^verbatim>\<open>lifecycle.rs\<close>), the per-file transitions (\<^verbatim>\<open>file_status.rs\<close>), the queue lease
  (\<^verbatim>\<open>lease.rs\<close>), conflict detection (\<^verbatim>\<open>conflict.rs\<close>) and the projections (\<^verbatim>\<open>projections.rs\<close>). With
  them the job a submission becomes (\<^verbatim>\<open>submission.rs\<close>) and what a startup makes of a stored one
  (\<^verbatim>\<open>db/recovery.rs\<close>, \<^verbatim>\<open>store/queries/recovery.rs\<close>).

  A method on \<^verbatim>\<open>&mut self\<close> is a function from the job to its answer and the job afterwards.
  Values this code only carries (command options, JSON runtime state, execution plans, diagnostics
  and exclusion records) have the one type variable \<open>'v\<close>. Cancellation tokens are those of
  \<^verbatim>\<open>tokio_util\<close>: handles of type \<open>'tok\<close> into a state \<open>'w\<close>, with the operations the
  code calls as an argument.
\<close>

subsection \<open>Records\<close>

record ('tok, 'w) token_ops =
  tok_new :: "'w \<Rightarrow> 'tok \<times> 'w"
  tok_cancel :: "'tok \<Rightarrow> 'w \<Rightarrow> 'w"
  tok_is_cancelled :: "'tok \<Rightarrow> 'w \<Rightarrow> bool"

record job_identity =
  job_id :: string
  correlation_id :: string

record 'v job_dispatch_config =
  command :: released_command
  lang :: language_spec
  num_speakers :: u32
  options :: 'v
  runtime_state :: "(string \<times> 'v) list"
  debug_traces :: bool

record submitter =
  address :: string
  name :: "string option"

record job_source_context =
  submitter_of :: "submitter option"
  source_dir :: string

record job_filesystem_config =
  filenames :: "string list"
  has_chat :: "bool list"
  staging_dir :: string
  paths_mode :: bool
  source_paths :: "string list"
  output_paths :: "string list"
  before_paths :: "string option list"
  media_mapping :: string
  media_subdir :: string
  fs_source_dir :: string

record file_result_entry =
  result_filename :: string
  content_type :: content_type
  result_error :: "string option"

record 'v job_execution_state =
  exec_status :: job_status
  file_statuses :: "(string, ('v, 'v) file_status) hash_map"
  results :: "file_result_entry list"
  exec_error :: "string option"
  completed_files :: int

record job_last_cancel_info =
  cancel_at :: machine_time
  cancel_source :: string
  cancel_host :: "string option"
  cancel_reason :: "string option"

record job_schedule_state =
  submitted_at :: machine_time
  completed_at :: "machine_time option"
  job_next_eligible_at :: "machine_time option"
  num_workers :: "int option"
  lease :: "lease_record option"
  last_cancel :: "job_last_cancel_info option"

type_synonym run_generation = u64

definition generation_first :: run_generation where "generation_first = 0"

definition generation_next :: "run_generation \<Rightarrow> run_generation" where
  "generation_next g = g + 1"

record 'tok job_runtime_control =
  cancel_token :: 'tok
  runner_active :: bool
  run_generation_of :: run_generation

record ('v, 'tok) job =
  identity :: job_identity
  dispatch :: "'v job_dispatch_config"
  source :: job_source_context
  filesystem :: job_filesystem_config
  execution :: "'v job_execution_state"
  schedule :: job_schedule_state
  runtime :: "'tok job_runtime_control"
  execution_plan :: "'v option"

text \<open>A field-wise assignment into a nested record.\<close>

definition upd_exec ::
  "('v job_execution_state \<Rightarrow> 'v job_execution_state) \<Rightarrow> ('v, 'tok) job \<Rightarrow> ('v, 'tok) job" where
  "upd_exec f j = j\<lparr>execution := f (execution j)\<rparr>"

definition upd_sched ::
  "(job_schedule_state \<Rightarrow> job_schedule_state) \<Rightarrow> ('v, 'tok) job \<Rightarrow> ('v, 'tok) job" where
  "upd_sched f j = j\<lparr>schedule := f (schedule j)\<rparr>"

definition upd_runtime ::
  "('tok job_runtime_control \<Rightarrow> 'tok job_runtime_control) \<Rightarrow> ('v, 'tok) job \<Rightarrow> ('v, 'tok) job"
where
  "upd_runtime f j = j\<lparr>runtime := f (runtime j)\<rparr>"

abbreviation job_status_of :: "('v, 'tok) job \<Rightarrow> job_status" where
  "job_status_of j \<equiv> exec_status (execution j)"

abbreviation files_of :: "('v, 'tok) job \<Rightarrow> ('v, 'v) file_status list" where
  "files_of j \<equiv> hm_values (file_statuses (execution j))"

abbreviation file_of :: "('v, 'tok) job \<Rightarrow> string \<Rightarrow> ('v, 'v) file_status option" where
  "file_of j fn \<equiv> hm_get (file_statuses (execution j)) fn"

subsection \<open>Submitters\<close>

definition absent_column :: string where "absent_column = ''''"

text \<open>\<^verbatim>\<open>Submitter::client\<close>, on the text of the peer's IP address.\<close>

definition submitter_client :: "string \<Rightarrow> string \<Rightarrow> submitter" where
  "submitter_client addr resolved =
     \<lparr>address = addr, name = (if resolved = [] then None else Some resolved)\<rparr>"

definition submitter_direct_cli :: submitter where
  "submitter_direct_cli = \<lparr>address = ''127.0.0.1'', name = Some ''direct-cli''\<rparr>"

datatype stored_submitter = StoredRecorded submitter | Absent | NameWithoutAddress string

definition submitter_from_columns :: "string \<Rightarrow> string \<Rightarrow> stored_submitter" where
  "submitter_from_columns addr nm =
     (case (addr = [], nm = []) of
        (True, True) \<Rightarrow> Absent
      | (True, False) \<Rightarrow> NameWithoutAddress nm
      | (False, _) \<Rightarrow>
          StoredRecorded \<lparr>address = addr, name = (if nm = [] then None else Some nm)\<rparr>)"

definition submitter_columns :: "submitter option \<Rightarrow> string \<times> string" where
  "submitter_columns s =
     (case s of
        Some sub \<Rightarrow> (address sub, case name sub of Some n \<Rightarrow> n | None \<Rightarrow> absent_column)
      | None \<Rightarrow> (absent_column, absent_column))"

subsection \<open>Records the runner hands in\<close>

record 'v completed_file_output =
  out_filename :: string
  out_content_type :: content_type
  out_stamp :: file_stamp_outcome
  out_exclusions :: "'v list"

datatype 'v file_completion =
    WithoutResult
  | Clean "'v completed_file_output"
  | CompletionDiagnosed "'v completed_file_output" 'v

fun completion_result :: "'v file_completion \<Rightarrow> 'v completed_file_output option" where
  "completion_result WithoutResult = None"
| "completion_result (Clean r) = Some r"
| "completion_result (CompletionDiagnosed r _) = Some r"

record file_failure_record =
  fail_message :: string
  fail_category :: failure_category
  fail_finished_at :: machine_time

record file_retry_record =
  retry_message :: string
  retry_category :: failure_category
  retry_finished_at :: machine_time
  retry_at :: machine_time

record file_progress_record =
  prog_stage :: file_progress_stage
  prog_current :: "int option"
  prog_total :: "int option"

subsection \<open>Status columns\<close>

record job_status_columns =
  jc_status :: job_status
  jc_error :: "string option"
  jc_completed_at :: "machine_time option"
  jc_num_workers :: "int option"
  jc_next_eligible_at :: "machine_time option"

datatype stop = StopInterrupted | StopCancelled

fun stop_status :: "stop \<Rightarrow> job_status" where
  "stop_status StopInterrupted = JobInterrupted"
| "stop_status StopCancelled = JobCancelled"

definition stopped :: "job_status_columns \<Rightarrow> stop \<Rightarrow> machine_time \<Rightarrow> job_status_columns" where
  "stopped img s at =
     img\<lparr>jc_status := stop_status s, jc_completed_at := Some at, jc_next_eligible_at := None\<rparr>"

definition status_columns :: "('v, 'tok) job \<Rightarrow> job_status_columns" where
  "status_columns j =
     \<lparr>jc_status = job_status_of j,
      jc_error = exec_error (execution j),
      jc_completed_at = completed_at (schedule j),
      jc_num_workers = num_workers (schedule j),
      jc_next_eligible_at = job_next_eligible_at (schedule j)\<rparr>"

text \<open>
  Lengths of the file list and of the file map are cast to \<^verbatim>\<open>i64\<close> where they are recorded; Rust
  bounds a collection by \<^verbatim>\<open>isize::MAX\<close> bytes, so these casts are exact and are written \<^const>\<open>int\<close>.
\<close>

definition total_files :: "('v, 'tok) job \<Rightarrow> nat" where
  "total_files j = length (filenames (filesystem j))"

subsection \<open>Lifecycle\<close>

definition is_cancelled :: "('tok, 'w) token_ops \<Rightarrow> 'w \<Rightarrow> ('v, 'tok) job \<Rightarrow> bool" where
  "is_cancelled K w j = tok_is_cancelled K (cancel_token (runtime j)) w"

definition all_terminal_files_failed :: "('v, 'tok) job \<Rightarrow> bool" where
  "all_terminal_files_failed j =
     (let terminal = filter file_is_terminal (map status (files_of j))
      in terminal \<noteq> [] \<and> list_all (\<lambda>s. s = FileError) terminal)"

definition any_terminal_files_failed :: "('v, 'tok) job \<Rightarrow> bool" where
  "any_terminal_files_failed j =
     list_ex (\<lambda>f. status f = FileError) (filter (\<lambda>f. file_is_terminal (status f)) (files_of j))"

definition set_status ::
  "job_status \<Rightarrow> status_change \<Rightarrow> ('v, 'tok) job \<Rightarrow> bool \<times> ('v, 'tok) job" where
  "set_status next reason j =
     (if \<not> can_transition_to (job_status_of j) next reason then (False, j)
      else (True, upd_exec (\<lambda>e. e\<lparr>exec_status := next\<rparr>) j))"

definition adopt_status_columns ::
  "job_status_columns \<Rightarrow> ('v, 'tok) job \<Rightarrow> ('v, 'tok) job" where
  "adopt_status_columns img j =
     upd_sched (\<lambda>s. s\<lparr>completed_at := jc_completed_at img, num_workers := jc_num_workers img,
         job_next_eligible_at := jc_next_eligible_at img\<rparr>)
       (upd_exec (\<lambda>e. e\<lparr>exec_status := jc_status img, exec_error := jc_error img\<rparr>) j)"

definition job_stop :: "stop \<Rightarrow> machine_time \<Rightarrow> ('v, 'tok) job \<Rightarrow> bool \<times> ('v, 'tok) job" where
  "job_stop s at j =
     (case set_status (stop_status s) Interrupt j of
        (False, j') \<Rightarrow> (False, j')
      | (True, j') \<Rightarrow> (True, adopt_status_columns (stopped (status_columns j') s at) j'))"

definition clear_lease :: "('v, 'tok) job \<Rightarrow> ('v, 'tok) job" where
  "clear_lease j = upd_sched (\<lambda>s. s\<lparr>lease := None\<rparr>) j"

definition request_cancellation ::
  "('tok, 'w) token_ops \<Rightarrow> machine_time \<Rightarrow> 'w \<Rightarrow> ('v, 'tok) job \<Rightarrow>
   machine_time option \<times> 'w \<times> ('v, 'tok) job" where
  "request_cancellation K at w j =
     (let w' = tok_cancel K (cancel_token (runtime j)) w;
          (fired, j') = job_stop StopCancelled at j
      in (if fired then Some at else None, w', j'))"

definition requeue_after_memory_gate ::
  "machine_time \<Rightarrow> ('v, 'tok) job \<Rightarrow> bool \<times> ('v, 'tok) job" where
  "requeue_after_memory_gate retry j =
     (case set_status JobQueued MemoryRequeue j of
        (False, j') \<Rightarrow> (False, j')
      | (True, j') \<Rightarrow>
          (True, upd_sched (\<lambda>s. s\<lparr>completed_at := None, job_next_eligible_at := Some retry\<rparr>) j'))"

definition mark_running :: "('v, 'tok) job \<Rightarrow> bool \<times> ('v, 'tok) job" where
  "mark_running j =
     (case set_status JobRunning Dispatch j of
        (False, j') \<Rightarrow> (False, j')
      | (True, j') \<Rightarrow> (True, upd_sched (\<lambda>s. s\<lparr>job_next_eligible_at := None\<rparr>) j'))"

text \<open>The cast \<^verbatim>\<open>num_workers as i64\<close> of a \<^verbatim>\<open>usize\<close> wraps.\<close>

definition usize_as_i64 :: "nat \<Rightarrow> int" where
  "usize_as_i64 n = (if n < 2 ^ 63 then int n else int n - 2 ^ 64)"

definition record_worker_count :: "nat \<Rightarrow> ('v, 'tok) job \<Rightarrow> ('v, 'tok) job" where
  "record_worker_count n j = upd_sched (\<lambda>s. s\<lparr>num_workers := Some (usize_as_i64 n)\<rparr>) j"

definition job_fail :: "string \<Rightarrow> machine_time \<Rightarrow> ('v, 'tok) job \<Rightarrow> bool \<times> ('v, 'tok) job" where
  "job_fail error at j =
     (case set_status JobFailed Finalize j of
        (False, j') \<Rightarrow> (False, j')
      | (True, j') \<Rightarrow>
          (True, upd_sched (\<lambda>s. s\<lparr>completed_at := Some at\<rparr>)
                   (upd_exec (\<lambda>e. e\<lparr>exec_error := Some error\<rparr>) j')))"

definition interrupt_for_shutdown ::
  "('tok, 'w) token_ops \<Rightarrow> machine_time \<Rightarrow> 'w \<Rightarrow> ('v, 'tok) job \<Rightarrow>
   bool \<times> 'w \<times> ('v, 'tok) job" where
  "interrupt_for_shutdown K at w j =
     (let w' = tok_cancel K (cancel_token (runtime j)) w
      in case job_stop StopInterrupted at j of
           (True, j') \<Rightarrow> (True, w', upd_runtime (\<lambda>r. r\<lparr>runner_active := False\<rparr>) (clear_lease j'))
         | (False, j') \<Rightarrow> (False, w', j'))"

fun error_message_of :: "('v, 'v) file_phase \<Rightarrow> string option option" where
  "error_message_of (Error _ _ e) = Some (failure_message e)"
| "error_message_of _ = None"

text \<open>
  The loop of \<^verbatim>\<open>aggregate_file_failure_reason\<close>: the recorded messages of the files in an error
  phase, with duplicates, and the number of those files. The \<^verbatim>\<open>BTreeSet\<close> iterates them sorted and
  without duplicates.
\<close>

definition aggregate_file_failure_reason :: "('v, 'tok) job \<Rightarrow> string option" where
  "aggregate_file_failure_reason j =
     (let errors = List.map_filter (\<lambda>f. error_message_of (phase f)) (files_of j);
          failed_files = length errors;
          joined = join ''; '' (remdups (sort (List.map_filter id errors)))
      in if failed_files = 0 then None
         else Some
           (if joined = [] then show_nat failed_files @ '' file(s) failed''
            else if failed_files > 1 then show_nat failed_files @ '' file(s) failed: '' @ joined
            else joined))"

definition set_failure_reason_from_files :: "('v, 'tok) job \<Rightarrow> ('v, 'tok) job" where
  "set_failure_reason_from_files j =
     (case (exec_error (execution j), aggregate_file_failure_reason j) of
        (None, Some reason) \<Rightarrow> upd_exec (\<lambda>e. e\<lparr>exec_error := Some reason\<rparr>) j
      | _ \<Rightarrow> j)"

definition terminal_count :: "('v, 'tok) job \<Rightarrow> int" where
  "terminal_count j = int (length (filter (\<lambda>f. file_is_terminal (status f)) (files_of j)))"

definition finalize ::
  "job_status \<Rightarrow> machine_time \<Rightarrow> ('v, 'tok) job \<Rightarrow> bool \<times> ('v, 'tok) job" where
  "finalize final_status at j =
     (let (applied, j1) = set_status final_status Finalize j;
          j2 = (if applied \<and> final_status = JobFailed then set_failure_reason_from_files j1 else j1);
          j3 = (if applied
                then upd_sched (\<lambda>s. s\<lparr>completed_at := Some at, job_next_eligible_at := None\<rparr>) j2
                else j2)
      in (applied, upd_exec (\<lambda>e. e\<lparr>completed_files := terminal_count j3\<rparr>) j3))"

record conflict_entry =
  conflict_filename :: string
  conflict_job_id :: string
  conflict_command :: released_command
  conflict_status :: job_status

datatype 'e server_error = Planning 'e | JobConflict string "conflict_entry list"

text \<open>
  \<open>policy\<close> is \<^verbatim>\<open>selected_output_policy\<close> of the command's specification, on the submitted
  options.
\<close>

definition prepare_for_restart ::
  "(released_command \<Rightarrow> 'v \<Rightarrow> ('e, unit) result) \<Rightarrow> ('tok, 'w) token_ops \<Rightarrow> 'w \<Rightarrow>
   ('v, 'tok) job \<Rightarrow> ('e server_error, unit) result \<times> 'w \<times> ('v, 'tok) job" where
  "prepare_for_restart policy K w j =
     (case policy (command (dispatch j)) (options (dispatch j)) of
        Inl e \<Rightarrow> (Err (Planning e), w, j)
      | Inr _ \<Rightarrow>
          if \<not> can_restart (job_status_of j)
          then (Err (JobConflict
                  (''Job '' @ job_id (identity j) @ '' is '' @ job_status_display (job_status_of j) @
                   '', only cancelled or failed jobs can be restarted.'') []), w, j)
          else
            (let j1 = upd_exec (\<lambda>e. e\<lparr>file_statuses :=
                        hm_map_values (\<lambda>f. if \<not> wrote_output (status f) then requeue f else f)
                          (file_statuses e)\<rparr>) j;
                 j2 = snd (set_status JobQueued Restart j1);
                 j3 = upd_exec (\<lambda>e. e\<lparr>exec_error := None\<rparr>) j2;
                 j4 = clear_lease
                        (upd_sched (\<lambda>s. s\<lparr>completed_at := None, job_next_eligible_at := None\<rparr>) j3);
                 (tok, w') = tok_new K w;
                 j5 = upd_runtime (\<lambda>r. r\<lparr>cancel_token := tok,
                        run_generation_of := generation_next (run_generation_of r)\<rparr>) j4;
                 written = int (length (filter (\<lambda>f. wrote_output (status f)) (files_of j5)));
                 j6 = upd_exec (\<lambda>e. e\<lparr>completed_files := written,
                        results := filter (\<lambda>r. result_error r = None) (results e)\<rparr>) j5
             in (Ok (), w', j6)))"

datatype recovery_disposition = RecoveryRequeued | RecoveryFailed | RecoveryCompleted

definition reconcile_recovered_runtime_state ::
  "('v, 'tok) job \<Rightarrow> recovery_disposition \<times> ('v, 'tok) job" where
  "reconcile_recovered_runtime_state j =
     (if list_ex (\<lambda>f. is_resumable (status f)) (files_of j)
      then
        (let j1 = upd_exec (\<lambda>e. e\<lparr>file_statuses :=
                    hm_map_values (\<lambda>f. if is_resumable (status f) then requeue f else f)
                      (file_statuses e)\<rparr>) j;
             j2 = snd (set_status JobQueued Reconcile j1);
             j3 = upd_exec (\<lambda>e. e\<lparr>exec_error := None\<rparr>) j2;
             j4 = upd_sched (\<lambda>s. s\<lparr>completed_at := None, job_next_eligible_at := None\<rparr>) j3
         in (RecoveryRequeued, clear_lease j4))
      else
        (let all_errored = list_all (\<lambda>f. status f = FileError) (files_of j);
             j1 = snd (set_status (if all_errored then JobFailed else JobCompleted) Reconcile j);
             j2 = (if all_errored then set_failure_reason_from_files j1 else j1);
             j3 = upd_exec (\<lambda>e. e\<lparr>completed_files := int (total_files j2)\<rparr>) j2;
             j4 = upd_sched (\<lambda>s. s\<lparr>job_next_eligible_at := None\<rparr>) j3
         in (if all_errored then RecoveryFailed else RecoveryCompleted, clear_lease j4)))"

subsection \<open>Startup\<close>

text \<open>
  At startup the server first marks every active row interrupted (\<^verbatim>\<open>db/recovery.rs\<close>) and then
  loads the rows into memory, reconciling those left in a recoverable status
  (\<^verbatim>\<open>store/queries/recovery.rs\<close>). Both read the rows this build wrote for a job, so a row is
  the job it is the image of: \<open>recover_interrupted\<close> rewrites its status columns and the phases of
  its files, \<open>load_row\<close> builds the job anew from what the database holds (no stamp, no attempt, no
  progress, no open wait; results named from the artifacts; a fresh token, no runner, the first
  generation).
\<close>

definition recover_interrupted :: "machine_time \<Rightarrow> ('v, 'tok) job \<Rightarrow> ('v, 'tok) job" where
  "recover_interrupted now j =
     (if is_active (job_status_of j)
      then adopt_status_columns (stopped (status_columns j) StopInterrupted now)
             (upd_exec (\<lambda>e. e\<lparr>file_statuses :=
                hm_map_values (\<lambda>f. f\<lparr>phase := interrupted (phase f)\<rparr>) (file_statuses e)\<rparr>) j)
      else j)"

definition append_recovery_note :: "string option \<Rightarrow> string \<Rightarrow> string option" where
  "append_recovery_note existing note0 =
     (let note = ''[recovery] '' @ note0
      in case existing of
           Some e \<Rightarrow> if trim e = [] then Some note else Some (e @ [CHR 0x0A] @ note)
         | None \<Rightarrow> Some note)"

definition loaded_file :: "string \<Rightarrow> ('v, 'v) file_status \<Rightarrow> ('v, 'v) file_status" where
  "loaded_file fn f = (file_status_new fn)\<lparr>phase := phase f\<rparr>"

text \<open>
  What the load takes from the command's specification: the output policy, the text of its error,
  and the primary artifact of one input (display path and content type).
\<close>

record ('v, 'e, 'tok, 'w) store_env =
  se_tokens :: "('tok, 'w) token_ops"
  se_range :: timestamp_range
  se_policy :: "released_command \<Rightarrow> 'v \<Rightarrow> ('e, unit) result"
  se_error_text :: "'e \<Rightarrow> string"
  se_artifact :: "released_command \<Rightarrow> 'v \<Rightarrow> string \<Rightarrow> ('e, string \<times> content_type) result"

fun loaded_results ::
  "(string \<Rightarrow> ('e, string \<times> content_type) result) \<Rightarrow> (string, ('v, 'v) file_status) hash_map \<Rightarrow>
   ('e, file_result_entry list) result" where
  "loaded_results artifact [] = Ok []"
| "loaded_results artifact ((fn, f) # rows) =
     (if file_is_terminal (status f)
      then case artifact fn of
             Inl e \<Rightarrow> Err e
           | Inr (display, ct) \<Rightarrow>
               (case loaded_results artifact rows of
                  Inl e \<Rightarrow> Err e
                | Inr rs \<Rightarrow> Ok (\<lparr>result_filename = (if wrote_output (status f) then display else fn),
                     content_type = ct,
                     result_error = Option.bind (failure (phase f)) failure_message\<rparr> # rs))
      else loaded_results artifact rows)"

definition admission_note :: "string \<Rightarrow> string" where
  "admission_note e =
     ''Stored command/options are inconsistent: '' @ e @
     ''. Original records are unchanged; restart is refused until the mismatch is resolved.''"

definition loaded_submitter :: "submitter option \<Rightarrow> submitter option" where
  "loaded_submitter s =
     (case submitter_columns s of (addr, nm) \<Rightarrow>
        (case submitter_from_columns addr nm of StoredRecorded s' \<Rightarrow> Some s' | _ \<Rightarrow> None))"

definition loaded_job ::
  "job_status \<Rightarrow> string option \<Rightarrow> file_result_entry list \<Rightarrow> 'tok \<Rightarrow> ('v, 'tok) job \<Rightarrow> ('v, 'tok) job" where
  "loaded_job st note rs tok row =
     (let files = map (\<lambda>(fn, f). (fn, loaded_file fn f)) (file_statuses (execution row))
      in row\<lparr>
           identity := (identity row)\<lparr>correlation_id :=
             (if correlation_id (identity row) = [] then job_id (identity row)
              else correlation_id (identity row))\<rparr>,
           dispatch := (dispatch row)\<lparr>runtime_state := [], debug_traces := False\<rparr>,
           source := (source row)\<lparr>submitter_of := loaded_submitter (submitter_of (source row))\<rparr>,
           filesystem := (filesystem row)\<lparr>before_paths := [], fs_source_dir := []\<rparr>,
           execution := \<lparr>exec_status = st, file_statuses = files, results = rs,
             exec_error = (case note of
                 Some n \<Rightarrow> append_recovery_note (exec_error (execution row)) n
               | None \<Rightarrow> exec_error (execution row)),
             completed_files =
               int (length (filter (\<lambda>f. file_is_terminal (status f)) (hm_values files)))\<rparr>,
           runtime := \<lparr>cancel_token = tok, runner_active = False, run_generation_of = generation_first\<rparr>,
           execution_plan := None\<rparr>)"

definition load_row ::
  "('v, 'e, 'tok, 'w) store_env \<Rightarrow> machine_time \<Rightarrow> 'w \<Rightarrow> ('v, 'tok) job \<Rightarrow>
   ('w \<times> ('v, 'tok) job) option" where
  "load_row E ttl_cutoff w row =
     (if submitted_at (schedule row) < ttl_cutoff then None
      else
        (let cmd = command (dispatch row);
             opts = options (dispatch row);
             (tok, w') = tok_new (se_tokens E) w
         in case se_policy E cmd opts of
              Inl e \<Rightarrow>
                Some (w', loaded_job JobFailed (Some (admission_note (se_error_text E e))) [] tok row)
            | Inr _ \<Rightarrow>
                (case loaded_results (se_artifact E cmd opts) (file_statuses (execution row)) of
                   Inl _ \<Rightarrow> None
                 | Inr rs \<Rightarrow>
                     (let j = loaded_job (job_status_of row) None rs tok row
                      in Some (w', if is_recoverable (job_status_of row)
                                   then snd (reconcile_recovered_runtime_state j) else j)))))"

subsection \<open>Files of a job\<close>

text \<open>
  Every per-file transition looks the file up by name, answers \<^const>\<open>False\<close> when the job has no
  such file, and else rewrites that file's entry.
\<close>

definition with_file ::
  "string \<Rightarrow> (('v, 'v) file_status \<Rightarrow> ('v, 'v) file_status) \<Rightarrow> ('v, 'tok) job \<Rightarrow>
   bool \<times> ('v, 'tok) job" where
  "with_file fn g j =
     (case file_of j fn of
        None \<Rightarrow> (False, j)
      | Some _ \<Rightarrow>
          (True, upd_exec (\<lambda>e. e\<lparr>file_statuses := hm_modify fn g (file_statuses e)\<rparr>) j))"

definition mark_file_processing ::
  "string \<Rightarrow> machine_time \<Rightarrow> ('v, 'tok) job \<Rightarrow> bool \<times> ('v, 'tok) job" where
  "mark_file_processing fn at =
     with_file fn (\<lambda>f. f\<lparr>phase := Processing (Some at), progress := file_progress_default\<rparr>)"

text \<open>The phase a completion gives a file, and the result entry and stamp it carries.\<close>

definition completion_phase ::
  "machine_time option \<Rightarrow> machine_time \<Rightarrow> 'v file_completion \<Rightarrow> ('v, 'v) file_phase" where
  "completion_phase started finished c =
     (case c of
        WithoutResult \<Rightarrow> Done started (Some finished) []
      | Clean r \<Rightarrow> Done started (Some finished) (out_exclusions r)
      | CompletionDiagnosed r d \<Rightarrow>
          Diagnosed started (Some finished) (Some d) (out_exclusions r))"

definition completion_entry ::
  "'v file_completion \<Rightarrow> (file_result_entry \<times> file_stamp_outcome) option" where
  "completion_entry c =
     map_option
       (\<lambda>r. (\<lparr>result_filename = out_filename r, content_type = out_content_type r,
              result_error = None\<rparr>, out_stamp r))
       (completion_result c)"

definition mark_file_done ::
  "string \<Rightarrow> machine_time \<Rightarrow> 'v file_completion \<Rightarrow> ('v, 'tok) job \<Rightarrow>
   bool \<times> ('v, 'tok) job" where
  "mark_file_done fn at c j =
     (case file_of j fn of
        None \<Rightarrow> (False, j)
      | Some file \<Rightarrow>
          (let j1 = snd (with_file fn
                 (\<lambda>f. f\<lparr>phase := completion_phase (started_at (phase file)) at c,
                        progress := file_progress_default\<rparr>) j);
               j2 = (case completion_entry c of
                       Some (entry, st) \<Rightarrow>
                         upd_exec (\<lambda>e. e\<lparr>results := results e @ [entry]\<rparr>)
                           (snd (with_file fn (\<lambda>f. f\<lparr>stamp := st\<rparr>) j1))
                     | None \<Rightarrow> j1)
           in (True, upd_exec (\<lambda>e. e\<lparr>completed_files := completed_files e + 1\<rparr>) j2)))"

definition mark_file_error ::
  "string \<Rightarrow> file_failure_record \<Rightarrow> ('v, 'tok) job \<Rightarrow> bool \<times> ('v, 'tok) job" where
  "mark_file_error fn r j =
     (case file_of j fn of
        None \<Rightarrow> (False, j)
      | Some _ \<Rightarrow>
          (let j1 = snd (with_file fn
                 (\<lambda>f. f\<lparr>phase := Error (started_at (phase f)) (Some (fail_finished_at r))
                          (recorded (fail_message r) (fail_category r)),
                        progress := file_progress_default\<rparr>) j)
           in (True,
               upd_exec (\<lambda>e. e\<lparr>
                   results := results e @
                     [\<lparr>result_filename = fn, content_type = Chat,
                       result_error = Some (fail_message r)\<rparr>],
                   completed_files := completed_files e + 1\<rparr>) j1)))"

definition start_file_attempt ::
  "string \<Rightarrow> machine_time \<Rightarrow> ('v, 'tok) job \<Rightarrow> bool \<times> ('v, 'tok) job" where
  "start_file_attempt fn at =
     with_file fn (\<lambda>f. f\<lparr>phase := Processing (Some at), progress := (progress f)\<lparr>stage := None\<rparr>\<rparr>)"

definition mark_file_retry_pending ::
  "string \<Rightarrow> file_retry_record \<Rightarrow> ('v, 'tok) job \<Rightarrow> bool \<times> ('v, 'tok) job" where
  "mark_file_retry_pending fn retry =
     with_file fn
       (\<lambda>f. f\<lparr>phase := RetryPending (started_at (phase f)) (Some (retry_finished_at retry))
                (retry_at retry) (recorded (retry_message retry) (retry_category retry)),
              progress := file_progress_default\<lparr>stage := Some StageRetryScheduled\<rparr>\<rparr>)"

definition clear_file_retry_state :: "string \<Rightarrow> ('v, 'tok) job \<Rightarrow> bool \<times> ('v, 'tok) job" where
  "clear_file_retry_state fn =
     with_file fn
       (\<lambda>f. f\<lparr>phase := (case phase f of RetryPending s _ _ _ \<Rightarrow> Processing s | p \<Rightarrow> p),
              progress := (progress f)\<lparr>stage := None\<rparr>\<rparr>)"

definition set_file_progress ::
  "string \<Rightarrow> file_progress_record \<Rightarrow> ('v, 'tok) job \<Rightarrow> bool \<times> ('v, 'tok) job" where
  "set_file_progress fn p j =
     (case file_of j fn of
        None \<Rightarrow> (False, j)
      | Some file \<Rightarrow>
          if file_is_terminal (status file) then (False, j)
          else with_file fn
                 (\<lambda>f. f\<lparr>progress := \<lparr>current = prog_current p, total = prog_total p,
                     stage = Some (prog_stage p)\<rparr>\<rparr>) j)"

definition set_file_worker_wait ::
  "string \<Rightarrow> worker_wait_change \<Rightarrow> ('v, 'tok) job \<Rightarrow> bool \<times> ('v, 'tok) job" where
  "set_file_worker_wait fn change =
     with_file fn (\<lambda>f. f\<lparr>worker_waits := waits_apply change (worker_waits f)\<rparr>)"

definition unfinished_files :: "('v, 'tok) job \<Rightarrow> string list" where
  "unfinished_files j =
     map filename (filter (\<lambda>f. \<not> file_is_terminal (status f)) (files_of j))"

definition file_status_label :: "string \<Rightarrow> ('v, 'tok) job \<Rightarrow> string option" where
  "file_status_label fn j = map_option (\<lambda>f. file_status_display (status f)) (file_of j fn)"

subsection \<open>The queue lease\<close>

definition lease_blocks_local_dispatch :: "machine_time \<Rightarrow> ('v, 'tok) job \<Rightarrow> bool" where
  "lease_blocks_local_dispatch now j =
     (case lease (schedule j) of Some l \<Rightarrow> is_held_at l now | None \<Rightarrow> False)"

definition next_local_dispatch_wake_at ::
  "machine_time \<Rightarrow> ('v, 'tok) job \<Rightarrow> machine_time option" where
  "next_local_dispatch_wake_at now j =
     (let wake_at = (case job_next_eligible_at (schedule j) of
                       Some t \<Rightarrow> if t > now then Some t else None
                     | None \<Rightarrow> None)
      in case lease (schedule j) of
           Some l \<Rightarrow>
             if is_held_at l now
             then Some (case wake_at of Some t \<Rightarrow> min t (expires_at l) | None \<Rightarrow> expires_at l)
             else wake_at
         | None \<Rightarrow> wake_at)"

definition ready_for_local_dispatch :: "machine_time \<Rightarrow> ('v, 'tok) job \<Rightarrow> bool" where
  "ready_for_local_dispatch now j \<longleftrightarrow>
     job_status_of j = JobQueued \<and>
     \<not> runner_active (runtime j) \<and>
     \<not> lease_blocks_local_dispatch now j \<and>
     (case job_next_eligible_at (schedule j) of Some t \<Rightarrow> t \<le> now | None \<Rightarrow> True)"

definition claim_for_local_dispatch ::
  "timestamp_range \<Rightarrow> string \<Rightarrow> machine_time \<Rightarrow> lease_ttl \<Rightarrow> ('v, 'tok) job \<Rightarrow>
   lease_record option \<times> ('v, 'tok) job" where
  "claim_for_local_dispatch R node now ttl j =
     (if \<not> ready_for_local_dispatch now j then (None, j)
      else
        (let j1 = upd_runtime (\<lambda>r. r\<lparr>runner_active := True\<rparr>) j;
             j2 = upd_sched (\<lambda>s. s\<lparr>lease := Some (lease_taken R node now ttl)\<rparr>) j1
         in (lease (schedule j2), j2)))"

definition release_local_dispatch_claim :: "('v, 'tok) job \<Rightarrow> ('v, 'tok) job" where
  "release_local_dispatch_claim j =
     clear_lease (upd_runtime (\<lambda>r. r\<lparr>runner_active := False\<rparr>) j)"

definition renew_local_dispatch_lease ::
  "timestamp_range \<Rightarrow> string \<Rightarrow> machine_time \<Rightarrow> lease_ttl \<Rightarrow> ('v, 'tok) job \<Rightarrow>
   lease_record option \<times> ('v, 'tok) job" where
  "renew_local_dispatch_lease R node now ttl j =
     (if \<not> runner_active (runtime j) \<or> is_terminal (job_status_of j) then (None, j)
      else case lease (schedule j) of
          Some l \<Rightarrow>
            if leased_by_node l = node
            then (let l' = lease_renew R now ttl l
                  in (Some l', upd_sched (\<lambda>s. s\<lparr>lease := Some l'\<rparr>) j))
            else (None, j)
        | None \<Rightarrow> (None, j))"

subsection \<open>Conflicts\<close>

definition conflict_path :: "('v, 'tok) job \<Rightarrow> string \<Rightarrow> string" where
  "conflict_path j fn =
     (if source_dir (source j) = [] then fn else source_dir (source j) @ ''/'' @ fn)"

definition conflict_key :: "('v, 'tok) job \<Rightarrow> string \<Rightarrow> string option \<times> string" where
  "conflict_key j fn = (map_option address (submitter_of (source j)), conflict_path j fn)"

definition find_conflicts ::
  "(string, ('v, 'tok) job) hash_map \<Rightarrow> ('v, 'tok) job \<Rightarrow> conflict_entry list" where
  "find_conflicts jobs incoming =
     (let incoming_keys = map (conflict_key incoming) (filenames (filesystem incoming))
      in concat (map (\<lambda>active.
           if \<not> is_active (job_status_of active) then []
           else map (\<lambda>fn. \<lparr>conflict_filename = fn, conflict_job_id = job_id (identity active),
                             conflict_command = command (dispatch active),
                             conflict_status = job_status_of active\<rparr>)
                  (filter (\<lambda>fn. List.member incoming_keys (conflict_key active fn))
                    (filenames (filesystem active))))
         (hm_values jobs)))"

subsection \<open>Projections\<close>

definition job_duration :: "('v, 'tok) job \<Rightarrow> duration option" where
  "job_duration j =
     map_option (\<lambda>c. saturating_duration_since c (submitted_at (schedule j)))
       (completed_at (schedule j))"

definition submitted_by :: "('v, 'tok) job \<Rightarrow> string option" where
  "submitted_by j = map_option address (submitter_of (source j))"

definition submitted_by_name :: "('v, 'tok) job \<Rightarrow> string option" where
  "submitted_by_name j = Option.bind (submitter_of (source j)) name"

record 'v job_info =
  info_job_id :: string
  info_status :: job_status
  info_command :: released_command
  info_options :: 'v
  info_lang :: language_spec
  info_source_dir :: string
  info_total_files :: int
  info_completed_files :: int
  info_current_file :: "string option"
  info_error :: "string option"
  info_file_statuses :: "('v, 'v) file_status_entry list"
  info_submitted_at :: machine_time
  info_submitted_by :: "string option"
  info_submitted_by_name :: "string option"
  info_completed_at :: "machine_time option"
  info_duration_s :: "duration option"
  info_next_eligible_at :: "machine_time option"
  info_num_workers :: "int option"
  info_active_lease :: "lease_record option"
  info_execution_plan :: "'v option"
  info_last_cancelled_at :: "machine_time option"
  info_last_cancelled_source :: "string option"
  info_last_cancelled_host :: "string option"
  info_last_cancelled_reason :: "string option"

definition to_info :: "('v, 'v) review_text \<Rightarrow> ('v, 'tok) job \<Rightarrow> 'v job_info" where
  "to_info T j =
     \<lparr>info_job_id = job_id (identity j),
      info_status = job_status_of j,
      info_command = command (dispatch j),
      info_options = options (dispatch j),
      info_lang = lang (dispatch j),
      info_source_dir = source_dir (source j),
      info_total_files = int (total_files j),
      info_completed_files = completed_files (execution j),
      info_current_file = None,
      info_error = exec_error (execution j),
      info_file_statuses = map (to_entry T) (files_of j),
      info_submitted_at = submitted_at (schedule j),
      info_submitted_by = submitted_by j,
      info_submitted_by_name = submitted_by_name j,
      info_completed_at = completed_at (schedule j),
      info_duration_s = job_duration j,
      info_next_eligible_at = job_next_eligible_at (schedule j),
      info_num_workers = num_workers (schedule j),
      info_active_lease = lease (schedule j),
      info_execution_plan = execution_plan j,
      info_last_cancelled_at = map_option cancel_at (last_cancel (schedule j)),
      info_last_cancelled_source = map_option cancel_source (last_cancel (schedule j)),
      info_last_cancelled_host = Option.bind (last_cancel (schedule j)) cancel_host,
      info_last_cancelled_reason = Option.bind (last_cancel (schedule j)) cancel_reason\<rparr>"

record job_list_item =
  item_job_id :: string
  item_status :: job_status
  item_command :: released_command
  item_lang :: language_spec
  item_source_dir :: string
  item_total_files :: int
  item_completed_files :: int
  item_error_files :: int
  item_diagnosed_files :: int
  item_error :: "string option"
  item_submitted_at :: machine_time
  item_submitted_by :: "string option"
  item_submitted_by_name :: "string option"
  item_completed_at :: "machine_time option"
  item_duration_s :: "duration option"
  item_next_eligible_at :: "machine_time option"
  item_num_workers :: "int option"
  item_active_lease :: "lease_record option"

definition count_files :: "file_status_kind \<Rightarrow> ('v, 'tok) job \<Rightarrow> int" where
  "count_files k j = int (length (filter (\<lambda>f. status f = k) (files_of j)))"

definition to_list_item :: "('v, 'tok) job \<Rightarrow> job_list_item" where
  "to_list_item j =
     \<lparr>item_job_id = job_id (identity j),
      item_status = job_status_of j,
      item_command = command (dispatch j),
      item_lang = lang (dispatch j),
      item_source_dir = source_dir (source j),
      item_total_files = int (total_files j),
      item_completed_files = completed_files (execution j),
      item_error_files = count_files FileError j,
      item_diagnosed_files = count_files FileDiagnosed j,
      item_error = exec_error (execution j),
      item_submitted_at = submitted_at (schedule j),
      item_submitted_by = submitted_by j,
      item_submitted_by_name = submitted_by_name j,
      item_completed_at = completed_at (schedule j),
      item_duration_s = job_duration j,
      item_next_eligible_at = job_next_eligible_at (schedule j),
      item_num_workers = num_workers (schedule j),
      item_active_lease = lease (schedule j)\<rparr>"

record pending_job_file =
  file_index :: nat
  pending_filename :: string
  pending_has_chat :: bool

definition pending_files :: "('v, 'tok) job \<Rightarrow> pending_job_file list" where
  "pending_files j =
     List.map_filter
       (\<lambda>((i, fn), chat).
          let already_done = (case file_of j fn of Some f \<Rightarrow> file_is_terminal (status f) | None \<Rightarrow> False)
          in if already_done then None
             else Some \<lparr>file_index = i, pending_filename = fn, pending_has_chat = chat\<rparr>)
       (zip (List.enumerate 0 (filenames (filesystem j))) (has_chat (filesystem j)))"

record runner_filesystem_config =
  rf_paths_mode :: bool
  rf_source_paths :: "string list"
  rf_output_paths :: "string list"
  rf_before_paths :: "string option list"
  rf_staging_dir :: string
  rf_media_mapping :: string
  rf_media_subdir :: string
  rf_source_dir :: string

definition before_path :: "runner_filesystem_config \<Rightarrow> nat \<Rightarrow> string option" where
  "before_path c i =
     (if \<not> rf_paths_mode c then None
      else if i < length (rf_before_paths c) then rf_before_paths c ! i
      else None)"

record ('v, 'tok) runner_job_snapshot =
  snap_identity :: job_identity
  snap_dispatch :: "'v job_dispatch_config"
  snap_filesystem :: runner_filesystem_config
  snap_cancel_token :: 'tok
  snap_pending_files :: "pending_job_file list"
  snap_run_generation :: run_generation

definition to_runner_snapshot :: "('v, 'tok) job \<Rightarrow> ('v, 'tok) runner_job_snapshot" where
  "to_runner_snapshot j =
     \<lparr>snap_identity = identity j,
      snap_dispatch = dispatch j,
      snap_filesystem =
        \<lparr>rf_paths_mode = paths_mode (filesystem j),
         rf_source_paths = source_paths (filesystem j),
         rf_output_paths = output_paths (filesystem j),
         rf_before_paths = before_paths (filesystem j),
         rf_staging_dir = staging_dir (filesystem j),
         rf_media_mapping = media_mapping (filesystem j),
         rf_media_subdir = media_subdir (filesystem j),
         rf_source_dir = source_dir (source j)\<rparr>,
      snap_cancel_token = cancel_token (runtime j),
      snap_pending_files = pending_files j,
      snap_run_generation = run_generation_of (runtime j)\<rparr>"

subsection \<open>Status writers\<close>

text \<open>
  The contract of every operation that writes a job's status: a refusal leaves the status columns
  as they were, and a change it reports is one the transition table permits for its reason.
\<close>

locale status_writer =
  fixes op :: "('v, 'tok) job \<Rightarrow> bool \<times> ('v, 'tok) job"
    and reason :: status_change
  assumes refused: "\<not> fst (op j) \<Longrightarrow> status_columns (snd (op j)) = status_columns j"
    and applied: "fst (op j) \<Longrightarrow>
      can_transition_to (job_status_of j) (job_status_of (snd (op j))) reason"
begin

lemma terminal_refused:
  assumes "is_terminal (job_status_of j)" and "reason \<notin> {Restart, Reconcile}"
  shows "\<not> fst (op j)" and "status_columns (snd (op j)) = status_columns j"
proof -
  show "\<not> fst (op j)" using applied leaves_terminal_reasons assms by blast
  then show "status_columns (snd (op j)) = status_columns j" by (rule refused)
qed

lemma stays_in_table: "status_run {reason} (job_status_of j) (job_status_of (snd (op j)))"
proof (cases "fst (op j)")
  case True
  then show ?thesis by (auto intro: run_one applied)
next
  case False
  then have "status_columns (snd (op j)) = status_columns j" by (rule refused)
  then have "job_status_of (snd (op j)) = job_status_of j" by (simp add: status_columns_def)
  then show ?thesis by (simp add: run_refl)
qed

end

lemmas upd_defs [job_simps] = upd_exec_def upd_sched_def upd_runtime_def

lemma status_upd_sched [simp]: "job_status_of (upd_sched f j) = job_status_of j"
  by (simp add: upd_sched_def)

lemma status_upd_runtime [simp]: "job_status_of (upd_runtime f j) = job_status_of j"
  by (simp add: upd_runtime_def)

lemma set_status_fst: "fst (set_status t r j) = can_transition_to (job_status_of j) t r"
  by (simp add: set_status_def)

lemma set_status_refused: "\<not> fst (set_status t r j) \<Longrightarrow> snd (set_status t r j) = j"
  by (simp add: set_status_def split: if_splits)

lemma set_status_applied:
  "fst (set_status t r j) \<Longrightarrow> snd (set_status t r j) = upd_exec (\<lambda>e. e\<lparr>exec_status := t\<rparr>) j"
  by (simp add: set_status_def split: if_splits)

lemma set_reason_keeps [simp]:
  "job_status_of (set_failure_reason_from_files j) = job_status_of j"
  "schedule (set_failure_reason_from_files j) = schedule j"
  "file_statuses (execution (set_failure_reason_from_files j)) = file_statuses (execution j)"
  by (auto simp: set_failure_reason_from_files_def upd_exec_def split: option.splits)

interpretation running: status_writer mark_running Dispatch
  by unfold_locales
    (auto simp: mark_running_def set_status_def upd_defs split: if_splits prod.splits)

interpretation memory_gate: status_writer "requeue_after_memory_gate t" MemoryRequeue for t
  by unfold_locales
    (auto simp: requeue_after_memory_gate_def set_status_def upd_defs split: if_splits prod.splits)

interpretation failing: status_writer "job_fail e t" Finalize for e t
  by unfold_locales
    (auto simp: job_fail_def set_status_def upd_defs split: if_splits prod.splits)

lemma adopt_status_columns_image: "status_columns (adopt_status_columns img j) = img"
  by (cases img) (simp add: status_columns_def adopt_status_columns_def upd_defs)

lemma job_stop_cases:
  "job_stop s at j =
     (if can_cancel (job_status_of j)
      then (True, adopt_status_columns (stopped (status_columns j) s at) j)
      else (False, j))"
  by (cases s)
    (auto simp: job_stop_def set_status_def adopt_status_columns_def stopped_def status_columns_def
      upd_defs)

interpretation stopping: status_writer "job_stop s t" Interrupt for s t
  by unfold_locales
    (auto simp: job_stop_cases adopt_status_columns_def stopped_def upd_defs split: if_splits,
     (cases s; simp)+)

lemma finalize_cases:
  "finalize st t j =
     (let c = (\<lambda>j. upd_exec (\<lambda>e. e\<lparr>completed_files := terminal_count j\<rparr>) j)
      in if can_transition_to (job_status_of j) st Finalize
         then (True, c (upd_sched (\<lambda>s. s\<lparr>completed_at := Some t, job_next_eligible_at := None\<rparr>)
                (let j' = upd_exec (\<lambda>e. e\<lparr>exec_status := st\<rparr>) j
                 in if st = JobFailed then set_failure_reason_from_files j' else j')))
         else (False, c j))"
  by (auto simp: finalize_def set_status_def Let_def)

interpretation finalizing: status_writer "finalize st t" Finalize for st t
  by unfold_locales
    (auto simp: finalize_cases Let_def status_columns_def upd_defs split: if_splits)

subsection \<open>File transitions\<close>

text \<open>
  The contract of every per-file transition: it answers \<^const>\<open>True\<close> only for a file of the job,
  changes nothing when it refuses, touches no other file and nothing of the job outside its
  execution state, and never the status or error there.
\<close>

definition job_frame :: "('v, 'tok) job \<Rightarrow> ('v, 'tok) job \<Rightarrow> bool" where
  "job_frame j j' \<longleftrightarrow>
     (\<exists>e. j' = j\<lparr>execution := e\<rparr> \<and> exec_status e = exec_status (execution j) \<and>
          exec_error e = exec_error (execution j))"

lemma job_frame_refl [simp]: "job_frame j j"
  by (auto simp: job_frame_def intro: exI [of _ "execution j"])

lemma job_frame_columns: "job_frame j j' \<Longrightarrow> status_columns j' = status_columns j"
  by (auto simp: job_frame_def status_columns_def)

locale file_transition =
  fixes op :: "('v, 'tok) job \<Rightarrow> bool \<times> ('v, 'tok) job"
    and fn :: string
  assumes known: "fst (op j) \<Longrightarrow> file_of j fn \<noteq> None"
    and refused: "\<not> fst (op j) \<Longrightarrow> snd (op j) = j"
    and others: "fn' \<noteq> fn \<Longrightarrow> file_of (snd (op j)) fn' = file_of j fn'"
    and frame: "job_frame j (snd (op j))"
    and keys: "hm_wf (file_statuses (execution (snd (op j)))) = hm_wf (file_statuses (execution j))"
begin

lemma columns_kept: "status_columns (snd (op j)) = status_columns j"
  by (rule job_frame_columns) (rule frame)

lemma unknown_file: "file_of j fn = None \<Longrightarrow> op j = (False, j)"
  using known [of j] refused [of j] by (cases "op j") auto

end

lemma with_file_simps:
  "fst (with_file fn g j) \<longleftrightarrow> file_of j fn \<noteq> None"
  "file_of j fn = None \<Longrightarrow> snd (with_file fn g j) = j"
  "file_of (snd (with_file fn g j)) fn' =
     (if fn' = fn then map_option g (file_of j fn) else file_of j fn')"
  "hm_wf (file_statuses (execution (snd (with_file fn g j)))) = hm_wf (file_statuses (execution j))"
  "results (execution (snd (with_file fn g j))) = results (execution j)"
  "completed_files (execution (snd (with_file fn g j))) = completed_files (execution j)"
  by (auto simp: with_file_def upd_exec_def hm_simps split: option.splits)

lemma frame_upd_exec:
  assumes "job_frame j j'" and "\<And>e. exec_status (f e) = exec_status e \<and> exec_error (f e) = exec_error e"
  shows "job_frame j (upd_exec f j')"
  using assms by (auto simp: job_frame_def upd_exec_def)

lemma with_file_frame: "job_frame j (snd (with_file fn g j))"
  by (auto simp: with_file_def split: option.splits intro!: frame_upd_exec)

lemma frame_trans: "job_frame j j' \<Longrightarrow> job_frame j' j'' \<Longrightarrow> job_frame j j''"
  by (auto simp: job_frame_def)

interpretation via_with_file: file_transition "with_file fn g" fn for fn g
  by unfold_locales (auto simp: with_file_simps with_file_frame)

text \<open>What a completion and a failure do to the file, to the results and to the counter.\<close>

lemma mark_file_done_Some:
  assumes "file_of j fn = Some f"
  shows "fst (mark_file_done fn t c j)"
    and "file_of (snd (mark_file_done fn t c j)) fn' =
      (if fn' = fn
       then Some (f\<lparr>phase := completion_phase (started_at (phase f)) t c,
              progress := file_progress_default,
              stamp := (case completion_entry c of Some (_, st) \<Rightarrow> st | None \<Rightarrow> stamp f)\<rparr>)
       else file_of j fn')"
    and "completed_files (execution (snd (mark_file_done fn t c j))) = completed_files (execution j) + 1"
    and "results (execution (snd (mark_file_done fn t c j))) =
      results (execution j) @ (case completion_entry c of Some (e, _) \<Rightarrow> [e] | None \<Rightarrow> [])"
  using assms
  by (auto simp: mark_file_done_def Let_def upd_exec_def with_file_def hm_simps split: option.splits)

lemma mark_file_done_file_transition: "file_transition (mark_file_done fn t c) fn"
proof unfold_locales
  fix j :: "('a, 'b) job" and fn'
  show "fst (mark_file_done fn t c j) \<Longrightarrow> file_of j fn \<noteq> None"
    "\<not> fst (mark_file_done fn t c j) \<Longrightarrow> snd (mark_file_done fn t c j) = j"
    by (auto simp: mark_file_done_def Let_def split: option.splits)
  show "fn' \<noteq> fn \<Longrightarrow> file_of (snd (mark_file_done fn t c j)) fn' = file_of j fn'"
    by (cases "file_of j fn") (auto simp: mark_file_done_Some, simp add: mark_file_done_def)
  show "job_frame j (snd (mark_file_done fn t c j))"
    by (auto simp: mark_file_done_def Let_def split: option.splits
        intro!: frame_upd_exec frame_trans [OF with_file_frame with_file_frame] with_file_frame)
  show "hm_wf (file_statuses (execution (snd (mark_file_done fn t c j)))) =
      hm_wf (file_statuses (execution j))"
    by (auto simp: mark_file_done_def Let_def upd_exec_def with_file_def hm_simps split: option.splits)
qed

interpretation completing: file_transition "mark_file_done fn t c" fn for fn t c
  by (rule mark_file_done_file_transition)

lemma mark_file_error_Some:
  assumes "file_of j fn = Some f"
  shows "fst (mark_file_error fn r j)"
    and "file_of (snd (mark_file_error fn r j)) fn' =
      (if fn' = fn
       then Some (f\<lparr>phase := Error (started_at (phase f)) (Some (fail_finished_at r))
                (recorded (fail_message r) (fail_category r)),
              progress := file_progress_default\<rparr>)
       else file_of j fn')"
    and "completed_files (execution (snd (mark_file_error fn r j))) = completed_files (execution j) + 1"
  using assms
  by (auto simp: mark_file_error_def Let_def upd_exec_def with_file_def hm_simps split: option.splits)

lemma mark_file_error_file_transition: "file_transition (mark_file_error fn r) fn"
proof unfold_locales
  fix j :: "('a, 'b) job" and fn'
  show "fst (mark_file_error fn r j) \<Longrightarrow> file_of j fn \<noteq> None"
    "\<not> fst (mark_file_error fn r j) \<Longrightarrow> snd (mark_file_error fn r j) = j"
    by (auto simp: mark_file_error_def Let_def split: option.splits)
  show "fn' \<noteq> fn \<Longrightarrow> file_of (snd (mark_file_error fn r j)) fn' = file_of j fn'"
    by (cases "file_of j fn") (auto simp: mark_file_error_Some, simp add: mark_file_error_def)
  show "job_frame j (snd (mark_file_error fn r j))"
    by (auto simp: mark_file_error_def Let_def split: option.splits
        intro!: frame_upd_exec with_file_frame)
  show "hm_wf (file_statuses (execution (snd (mark_file_error fn r j)))) =
      hm_wf (file_statuses (execution j))"
    by (auto simp: mark_file_error_def Let_def upd_exec_def with_file_def hm_simps split: option.splits)
qed

interpretation erring: file_transition "mark_file_error fn r" fn for fn r
  by (rule mark_file_error_file_transition)

interpretation progressing: file_transition "set_file_progress fn p" fn for fn p
  by unfold_locales
    (auto simp: set_file_progress_def with_file_simps with_file_frame split: option.splits)

subsection \<open>Runs of a job\<close>

text \<open>
  The operations the store and the runners perform on a live job, in any order and any number
  (restarts and startups join them below). The cancellation state of the tokens is threaded beside
  the job.
\<close>

datatype 'v runner_op =
    OpCancel machine_time
  | OpShutdown machine_time
  | OpRunning
  | OpMemoryRequeue machine_time
  | OpFail string machine_time
  | OpFinalize job_status machine_time
  | OpWorkerCount nat
  | OpFileProcessing string machine_time
  | OpFileDone string machine_time "'v file_completion"
  | OpFileError string file_failure_record
  | OpFileStart string machine_time
  | OpFileRetry string file_retry_record
  | OpFileClearRetry string
  | OpFileProgress string file_progress_record
  | OpFileWait string worker_wait_change
  | OpClaim string machine_time lease_ttl
  | OpRelease
  | OpRenew string machine_time lease_ttl

fun run_op ::
  "('tok, 'w) token_ops \<Rightarrow> timestamp_range \<Rightarrow> 'v runner_op \<Rightarrow> 'w \<times> ('v, 'tok) job \<Rightarrow>
   'w \<times> ('v, 'tok) job" where
  "run_op K R (OpCancel t) (w, j) = snd (request_cancellation K t w j)"
| "run_op K R (OpShutdown t) (w, j) = snd (interrupt_for_shutdown K t w j)"
| "run_op K R OpRunning (w, j) = (w, snd (mark_running j))"
| "run_op K R (OpMemoryRequeue t) (w, j) = (w, snd (requeue_after_memory_gate t j))"
| "run_op K R (OpFail e t) (w, j) = (w, snd (job_fail e t j))"
| "run_op K R (OpFinalize st t) (w, j) = (w, snd (finalize st t j))"
| "run_op K R (OpWorkerCount n) (w, j) = (w, record_worker_count n j)"
| "run_op K R (OpFileProcessing fn t) (w, j) = (w, snd (mark_file_processing fn t j))"
| "run_op K R (OpFileDone fn t c) (w, j) = (w, snd (mark_file_done fn t c j))"
| "run_op K R (OpFileError fn r) (w, j) = (w, snd (mark_file_error fn r j))"
| "run_op K R (OpFileStart fn t) (w, j) = (w, snd (start_file_attempt fn t j))"
| "run_op K R (OpFileRetry fn r) (w, j) = (w, snd (mark_file_retry_pending fn r j))"
| "run_op K R (OpFileClearRetry fn) (w, j) = (w, snd (clear_file_retry_state fn j))"
| "run_op K R (OpFileProgress fn p) (w, j) = (w, snd (set_file_progress fn p j))"
| "run_op K R (OpFileWait fn c) (w, j) = (w, snd (set_file_worker_wait fn c j))"
| "run_op K R (OpClaim node t ttl) (w, j) = (w, snd (claim_for_local_dispatch R node t ttl j))"
| "run_op K R OpRelease (w, j) = (w, release_local_dispatch_claim j)"
| "run_op K R (OpRenew node t ttl) (w, j) = (w, snd (renew_local_dispatch_lease R node t ttl j))"

text \<open>The status columns without the worker count, which a runner records at any time.\<close>

definition outcome_columns ::
  "('v, 'tok) job \<Rightarrow> job_status \<times> string option \<times> machine_time option \<times> machine_time option" where
  "outcome_columns j =
     (job_status_of j, exec_error (execution j), completed_at (schedule j),
      job_next_eligible_at (schedule j))"

lemma outcome_of_columns: "status_columns j' = status_columns j \<Longrightarrow> outcome_columns j' = outcome_columns j"
  by (simp add: status_columns_def outcome_columns_def)

lemma lease_ops_outcome:
  "outcome_columns (record_worker_count n j) = outcome_columns j"
  "outcome_columns (release_local_dispatch_claim j) = outcome_columns j"
  "outcome_columns (snd (claim_for_local_dispatch R node t ttl j)) = outcome_columns j"
  "outcome_columns (snd (renew_local_dispatch_lease R node t ttl j)) = outcome_columns j"
  by (auto simp: outcome_columns_def record_worker_count_def release_local_dispatch_claim_def
      claim_for_local_dispatch_def renew_local_dispatch_lease_def clear_lease_def upd_defs Let_def
      split: option.splits)

lemma stop_terminal: "is_terminal (job_status_of j) \<Longrightarrow> job_stop s t j = (False, j)"
  using terminal_or_active [of "job_status_of j"] by (simp add: job_stop_cases can_cancel_def)

lemma run_op_terminal:
  assumes "is_terminal (job_status_of j)"
  shows "outcome_columns (snd (run_op K R x (w, j))) = outcome_columns j"
  by (cases x)
    (use assms stop_terminal [OF assms] in
      \<open>auto simp: request_cancellation_def interrupt_for_shutdown_def Let_def lease_ops_outcome
         running.terminal_refused memory_gate.terminal_refused failing.terminal_refused
         finalizing.terminal_refused via_with_file.columns_kept completing.columns_kept
         erring.columns_kept progressing.columns_kept mark_file_processing_def
         start_file_attempt_def mark_file_retry_pending_def clear_file_retry_state_def
         set_file_worker_wait_def intro!: outcome_of_columns\<close>)

text \<open>
  Everything that happens to a stored job over the lives of the server: what the store and the
  runners do to it while it is live, restarts, and startups (the sweep and the load). The answer
  is None when a startup does not load the row.
\<close>

datatype 'v store_op = Live "'v runner_op" | RestartJob | Startup machine_time machine_time

fun store_step ::
  "('v, 'e, 'tok, 'w) store_env \<Rightarrow> 'v store_op \<Rightarrow> 'w \<times> ('v, 'tok) job \<Rightarrow>
   ('w \<times> ('v, 'tok) job) option" where
  "store_step E (Live x) s = Some (run_op (se_tokens E) (se_range E) x s)"
| "store_step E RestartJob (w, j) = Some (snd (prepare_for_restart (se_policy E) (se_tokens E) w j))"
| "store_step E (Startup now ttl_cutoff) (w, j) = load_row E ttl_cutoff w (recover_interrupted now j)"

fun store_run ::
  "('v, 'e, 'tok, 'w) store_env \<Rightarrow> 'v store_op list \<Rightarrow> 'w \<times> ('v, 'tok) job \<Rightarrow>
   ('w \<times> ('v, 'tok) job) option" where
  "store_run E [] s = Some s"
| "store_run E (x # xs) s = Option.bind (store_step E x s) (store_run E xs)"

text \<open>Which of them may move a job that has ended.\<close>

fun reopens :: "('v, 'e, 'tok, 'w) store_env \<Rightarrow> 'v store_op \<Rightarrow> ('v, 'tok) job \<Rightarrow> bool" where
  "reopens E (Live x) j = False"
| "reopens E RestartJob j =
     (can_restart (job_status_of j) \<and> \<not> isl (se_policy E (command (dispatch j)) (options (dispatch j))))"
| "reopens E (Startup now ttl_cutoff) j =
     (job_status_of j = JobInterrupted \<or>
      isl (se_policy E (command (dispatch j)) (options (dispatch j))))"

lemma loaded_job_simps [simp]:
  "job_status_of (loaded_job st note rs tok row) = st"
  "schedule (loaded_job st note rs tok row) = schedule row"
  "filenames (filesystem (loaded_job st note rs tok row)) = filenames (filesystem row)"
  "file_statuses (execution (loaded_job st note rs tok row)) =
     map (\<lambda>(fn, f). (fn, loaded_file fn f)) (file_statuses (execution row))"
  "exec_error (execution (loaded_job st None rs tok row)) = exec_error (execution row)"
  by (simp_all add: loaded_job_def Let_def)

lemma load_row_SomeE:
  assumes "load_row E cutoff w row = Some (w', j')"
  obtains (refused) nt tok where "isl (se_policy E (command (dispatch row)) (options (dispatch row)))"
      and "j' = loaded_job JobFailed nt [] tok row"
    | (kept) rs tok where "\<not> isl (se_policy E (command (dispatch row)) (options (dispatch row)))"
      and "\<not> is_recoverable (job_status_of row)" and "j' = loaded_job (job_status_of row) None rs tok row"
    | (recovered) rs tok where "\<not> isl (se_policy E (command (dispatch row)) (options (dispatch row)))"
      and "is_recoverable (job_status_of row)"
      and "j' = snd (reconcile_recovered_runtime_state (loaded_job (job_status_of row) None rs tok row))"
  using assms by (auto simp: load_row_def Let_def split: if_splits sum.splits prod.splits)

lemma load_row_outcome:
  assumes "load_row E cutoff w row = Some (w', j')"
    and "\<not> isl (se_policy E (command (dispatch row)) (options (dispatch row)))"
    and "\<not> is_recoverable (job_status_of row)"
  shows "outcome_columns j' = outcome_columns row"
  using assms(1) by (cases rule: load_row_SomeE) (use assms in \<open>auto simp: outcome_columns_def\<close>)

lemma store_step_terminal:
  assumes "is_terminal (job_status_of j)" and "store_step E x (w, j) = Some (w', j')"
    and "\<not> reopens E x j"
  shows "outcome_columns j' = outcome_columns j"
proof (cases x)
  case (Live y)
  with assms run_op_terminal [of j] show ?thesis by (metis option.inject prod.sel(2) store_step.simps(1))
next
  case RestartJob
  with assms show ?thesis
    by (auto simp: prepare_for_restart_def split: sum.splits if_splits)
next
  case (Startup now cutoff)
  from assms(1) have "recover_interrupted now j = j"
    using terminal_or_active [of "job_status_of j"] by (auto simp: recover_interrupted_def)
  moreover from assms Startup have "\<not> is_recoverable (job_status_of j)"
    by (cases "job_status_of j") auto
  ultimately show ?thesis using assms Startup load_row_outcome [of E cutoff w j w' j'] by simp
qed


text \<open>
  Documented behaviour of \<^verbatim>\<open>tokio_util::sync::CancellationToken\<close> the code relies on: a new token is
  not cancelled and creating it changes no other, cancelling a token cancels it and no other.
\<close>

definition token_laws :: "('tok, 'w) token_ops \<Rightarrow> bool" where
  "token_laws K \<longleftrightarrow>
     (\<forall>w. \<not> tok_is_cancelled K (fst (tok_new K w)) (snd (tok_new K w))) \<and>
     (\<forall>w t. tok_is_cancelled K t w \<longrightarrow> tok_is_cancelled K t (snd (tok_new K w))) \<and>
     (\<forall>w t t'. tok_is_cancelled K t' (tok_cancel K t w) \<longleftrightarrow> t' = t \<or> tok_is_cancelled K t' w)"

text \<open>A concrete instance: numbered tokens and the list of the cancelled ones.\<close>

definition list_tokens :: "(nat, nat list) token_ops" where
  "list_tokens =
     \<lparr>tok_new = (\<lambda>cs. (Suc (foldr max cs 0), cs)),
      tok_cancel = (\<lambda>t cs. t # cs),
      tok_is_cancelled = (\<lambda>t cs. List.member cs t)\<rparr>"

lemma list_tokens_laws: "token_laws list_tokens"
proof -
  have "t \<in> set cs \<Longrightarrow> t \<le> foldr max cs 0" for t :: nat and cs
    by (induction cs) auto
  then have "Suc (foldr max cs 0) \<notin> set cs" for cs :: "nat list"
    using Suc_n_not_le_n by blast
  then show ?thesis by (auto simp: token_laws_def list_tokens_def)
qed

text \<open>A two-file job of the examples below.\<close>

definition sample_job :: "job_status \<Rightarrow> (string, ('v, 'v) file_status) hash_map \<Rightarrow> 'v \<Rightarrow> ('v, nat) job"
where
  "sample_job st files opts =
     \<lparr>identity = \<lparr>job_id = ''j1'', correlation_id = ''c1''\<rparr>,
      dispatch = \<lparr>command = Morphotag, lang = PerFile, num_speakers = 1, options = opts,
        runtime_state = [], debug_traces = False\<rparr>,
      source = \<lparr>submitter_of = Some submitter_direct_cli, source_dir = ''corpus''\<rparr>,
      filesystem = \<lparr>filenames = [''a.cha'', ''b.cha''], has_chat = [True, True], staging_dir = [],
        paths_mode = False, source_paths = [], output_paths = [], before_paths = [],
        media_mapping = [], media_subdir = [], fs_source_dir = ''corpus''\<rparr>,
      execution = \<lparr>exec_status = st, file_statuses = files, results = [], exec_error = None,
        completed_files = 0\<rparr>,
      schedule = \<lparr>submitted_at = 0, completed_at = (if is_terminal st then Some 5 else None),
        job_next_eligible_at = None, num_workers = None, lease = None, last_cancel = None\<rparr>,
      runtime = \<lparr>cancel_token = 0, runner_active = False, run_generation_of = generation_first\<rparr>,
      execution_plan = None\<rparr>"

definition done_file :: "string \<Rightarrow> ('v, 'v) file_status" where
  "done_file fn = (file_status_new fn)\<lparr>phase := Done (Some 1) (Some 2) []\<rparr>"

definition failed_file :: "string \<Rightarrow> ('v, 'v) file_status" where
  "failed_file fn = (file_status_new fn)\<lparr>phase := Error (Some 1) (Some 2) (recorded ''boom'' WorkerCrash)\<rparr>"

definition mixed_files :: "(string, ('v, 'v) file_status) hash_map" where
  "mixed_files = [(''a.cha'', done_file ''a.cha''), (''b.cha'', failed_file ''b.cha'')]"

definition sample_store :: "(unit, unit, nat, nat list) store_env" where
  "sample_store =
     \<lparr>se_tokens = list_tokens, se_range = jiff_like, se_policy = (\<lambda>_ _. Ok ()), se_error_text = (\<lambda>_. []),
      se_artifact = (\<lambda>_ _ fn. Ok (fn, Chat))\<rparr>"


subsection \<open>Restart\<close>

lemma requeue_status [simp]: "status (requeue f) = FileQueued"
  by (simp add: requeue_def status_def)

lemma restart_map:
  "(\<lambda>f. if \<not> wrote_output (status f) then requeue f else f) =
   (\<lambda>f. if wrote_output (status f) then f else requeue f)"
  by auto

lemma restart_count:
  "(\<lambda>f. wrote_output (status f)) \<circ> (\<lambda>f. if wrote_output (status f) then f else requeue f) =
   (\<lambda>f. wrote_output (status f))"
  by (auto simp: fun_eq_iff)

lemma restart_refused:
  assumes "fst (prepare_for_restart policy K w j) = Err e"
  shows "snd (prepare_for_restart policy K w j) = (w, j)"
  using assms by (auto simp: prepare_for_restart_def Let_def split: sum.splits if_splits prod.splits)

text \<open>
  C19. A restart is all or nothing: it is accepted exactly when the output policy accepts the
  job's options and the job was cancelled, failed or could not write back; a refusal changes
  neither the job nor any token. A restarted job is queued under a new run generation with no
  error, completion time, retry time or lease; every file that wrote its output is untouched,
  every other file is queued anew, the counter counts the written files, and the runner that may
  still be winding down keeps its claim.
\<close>

theorem restart_effect:
  "case prepare_for_restart policy K w j of
     (Inl e, w', j') \<Rightarrow> w' = w \<and> j' = j \<and>
       (case policy (command (dispatch j)) (options (dispatch j)) of
          Inl pe \<Rightarrow> e = Planning pe
        | Inr _ \<Rightarrow> \<not> can_restart (job_status_of j) \<and>
            e = JobConflict
              (''Job '' @ job_id (identity j) @ '' is '' @ job_status_display (job_status_of j) @
               '', only cancelled or failed jobs can be restarted.'') [])
   | (Inr _, w', j') \<Rightarrow>
       policy (command (dispatch j)) (options (dispatch j)) = Ok () \<and> can_restart (job_status_of j) \<and>
       outcome_columns j' = (JobQueued, None, None, None) \<and> lease (schedule j') = None \<and>
       run_generation_of (runtime j') = run_generation_of (runtime j) + 1 \<and>
       run_generation_of (runtime j') \<noteq> run_generation_of (runtime j) \<and>
       runner_active (runtime j') = runner_active (runtime j) \<and>
       (cancel_token (runtime j'), w') = tok_new K w \<and>
       (\<forall>fn. file_of j' fn =
          map_option (\<lambda>f. if wrote_output (status f) then f else requeue f) (file_of j fn)) \<and>
       completed_files (execution j') = int (length (filter (\<lambda>f. wrote_output (status f)) (files_of j))) \<and>
       results (execution j') = filter (\<lambda>r. result_error r = None) (results (execution j))"
proof (cases "policy (command (dispatch j)) (options (dispatch j))")
  case (Inl e)
  then show ?thesis by (simp add: prepare_for_restart_def)
next
  case (Inr u)
  show ?thesis
  proof (cases "can_restart (job_status_of j)")
    case False
    with Inr show ?thesis by (simp add: prepare_for_restart_def)
  next
    case True
    obtain tok w' where tok: "tok_new K w = (tok, w')" by fastforce
    from Inr True tok show ?thesis
      by (simp add: prepare_for_restart_def Let_def set_status_def upd_defs clear_lease_def
          outcome_columns_def generation_next_def restart_map hm_get_map_values
          hm_values_map_values restart_count)
  qed
qed

lemma restart_token:
  "prepare_for_restart policy K w j = (Ok (), w', j') \<Longrightarrow>
     (cancel_token (runtime j'), w') = tok_new K w"
  by (auto simp: prepare_for_restart_def Let_def set_status_def upd_defs
      clear_lease_def split: sum.splits if_splits prod.splits)

text \<open>
  Cancellation reaches the run it was aimed at and no later one: after a cancellation request
  the job's token is cancelled, whether or not the status could still change; after an accepted
  restart of the job its token is not, while the cancelled token the old runner holds stays
  cancelled and is not the new one.
\<close>

theorem cancel_then_restart_tokens:
  assumes "token_laws K"
    and "request_cancellation K at w j = (answer, w1, j1)"
    and "prepare_for_restart policy K w1 j1 = (Ok (), w2, j2)"
  shows "is_cancelled K w1 j1 \<and> \<not> is_cancelled K w2 j2 \<and>
    tok_is_cancelled K (cancel_token (runtime j)) w2 \<and>
    cancel_token (runtime j2) \<noteq> cancel_token (runtime j)"
proof -
  have w1: "w1 = tok_cancel K (cancel_token (runtime j)) w"
    and tok: "cancel_token (runtime j1) = cancel_token (runtime j)"
    using assms(2)
    by (auto simp: request_cancellation_def Let_def job_stop_cases adopt_status_columns_def upd_defs
        split: if_splits)
  have old1: "tok_is_cancelled K (cancel_token (runtime j)) w1"
    using assms(1) by (simp add: w1 token_laws_def)
  from restart_token [OF assms(3)] have w2: "w2 = snd (tok_new K w1)"
    and tok2: "cancel_token (runtime j2) = fst (tok_new K w1)"
    by (metis snd_conv, metis fst_conv)
  with assms(1) have new: "\<not> is_cancelled K w2 j2"
    by (simp add: is_cancelled_def token_laws_def)
  from w2 old1 assms(1) have old2: "tok_is_cancelled K (cancel_token (runtime j)) w2"
    by (simp add: token_laws_def)
  with new have "cancel_token (runtime j2) \<noteq> cancel_token (runtime j)"
    by (auto simp: is_cancelled_def)
  with old1 old2 new show ?thesis by (simp add: is_cancelled_def tok)
qed

theorem cancel_then_restart_tokens_witness:
  "let (_, w1, j1) = request_cancellation list_tokens 7 []
         (sample_job JobRunning (mixed_files :: (string, (unit, unit) file_status) hash_map) ());
       (r, w2, j2) = prepare_for_restart (\<lambda>_ _. Ok () :: (unit, unit) result) list_tokens w1 j1
   in r = Ok () \<and> is_cancelled list_tokens w1 j1 \<and> \<not> is_cancelled list_tokens w2 j2"
proof -
  let ?j = "sample_job JobRunning (mixed_files :: (string, (unit, unit) file_status) hash_map) ()"
  obtain a w1 j1 where c: "request_cancellation list_tokens 7 [] ?j = (a, w1, j1)"
    by (metis prod_cases3)
  obtain r w2 j2 where p: "prepare_for_restart (\<lambda>_ _. Ok () :: (unit, unit) result) list_tokens w1 j1 = (r, w2, j2)"
    by (metis prod_cases3)
  have "job_status_of j1 = JobCancelled"
    using c by (auto simp: request_cancellation_def Let_def job_stop_cases sample_job_def can_cancel_def
        adopt_status_columns_def stopped_def upd_defs)
  with p have r: "r = Ok ()" by (auto simp: prepare_for_restart_def Let_def split: prod.splits)
  from cancel_then_restart_tokens [OF list_tokens_laws c p [unfolded r]] p c r show ?thesis by simp
qed

subsection \<open>Stopping\<close>

lemma status_columns_unclaimed:
  "status_columns (upd_runtime f (clear_lease j)) = status_columns j"
  by (simp add: status_columns_def clear_lease_def upd_defs)

text \<open>
  Stopping a live job is the one shared transition of the status image: a user's cancellation
  and a shutdown each leave exactly the columns \<^const>\<open>stopped\<close> gives for an active job, and the
  columns as they were for any other; both cancel the token, and a shutdown also gives up the
  lease and the runner claim of the jobs it stopped.
\<close>

theorem stop_is_shared_transition:
  "(let (answer, w', j') = request_cancellation K t w j
    in status_columns j' =
         (if is_active (job_status_of j) then stopped (status_columns j) StopCancelled t
          else status_columns j) \<and>
       answer = (if is_active (job_status_of j) then Some t else None) \<and>
       w' = tok_cancel K (cancel_token (runtime j)) w) \<and>
   (let (fired, w', j') = interrupt_for_shutdown K t w j
    in status_columns j' =
         (if is_active (job_status_of j) then stopped (status_columns j) StopInterrupted t
          else status_columns j) \<and>
       fired = is_active (job_status_of j) \<and>
       (if fired then lease (schedule j') = None \<and> \<not> runner_active (runtime j') else j' = j) \<and>
       w' = tok_cancel K (cancel_token (runtime j)) w)"
  by (auto simp: request_cancellation_def interrupt_for_shutdown_def Let_def job_stop_cases
      can_cancel_def adopt_status_columns_image status_columns_unclaimed)
    (simp_all add: clear_lease_def upd_defs)

subsection \<open>Failure reasons\<close>

lemma aggregate_None:
  "aggregate_file_failure_reason j = None \<longleftrightarrow> (\<forall>f \<in> set (files_of j). status f \<noteq> FileError)"
proof -
  have err: "error_message_of p = None \<longleftrightarrow> kind p \<noteq> FileError" for p :: "('a, 'a) file_phase"
    by (cases p) simp_all
  have "List.map_filter g fs = [] \<longleftrightarrow> (\<forall>f \<in> set fs. g f = None)"
    for g :: "('a, 'a) file_status \<Rightarrow> string option option" and fs
    by (induction fs) (auto split: option.splits)
  then show ?thesis
    by (auto simp: aggregate_file_failure_reason_def Let_def err status_def)
qed

lemma mset_map_filter:
  "mset xs = mset ys \<Longrightarrow> mset (List.map_filter g xs) = mset (List.map_filter g ys)"
  by (simp add: List.map_filter_def)

text \<open>
  The failure reason of a job does not depend on the order its file map is walked in: any two
  walks over the same file entries give the same text, and there is no reason exactly when no
  file ended in an error.
\<close>

theorem failure_reason_deterministic:
  assumes "mset (files_of j) = mset (files_of j')"
  shows "aggregate_file_failure_reason j = aggregate_file_failure_reason j' \<and>
    (aggregate_file_failure_reason j = None \<longleftrightarrow> list_all (\<lambda>f. status f \<noteq> FileError) (files_of j))"
proof -
  let ?g = "\<lambda>f :: ('a, 'a) file_status. error_message_of (phase f)"
  have m: "mset (List.map_filter ?g (files_of j)) = mset (List.map_filter ?g (files_of j'))"
    by (rule mset_map_filter) (rule assms)
  then have len: "length (List.map_filter ?g (files_of j)) = length (List.map_filter ?g (files_of j'))"
    by (rule mset_eq_length)
  then have nil: "List.map_filter ?g (files_of j) = [] \<longleftrightarrow> List.map_filter ?g (files_of j') = []"
    by (metis length_0_conv)
  from mset_map_filter [OF m, of id]
  have "sort (List.map_filter id (List.map_filter ?g (files_of j))) =
      sort (List.map_filter id (List.map_filter ?g (files_of j')))"
    by (intro properties_for_sort) simp_all
  with len nil show ?thesis
    by (simp add: aggregate_None list_all_iff) (simp add: aggregate_file_failure_reason_def Let_def)
qed

theorem failure_reason_deterministic_witness:
  "aggregate_file_failure_reason (sample_job JobRunning
     (rev (mixed_files :: (string, (unit, unit) file_status) hash_map)) ()) =
   aggregate_file_failure_reason (sample_job JobRunning
     (mixed_files :: (string, (unit, unit) file_status) hash_map) ())"
  using failure_reason_deterministic [of
      "sample_job JobRunning (rev (mixed_files :: (string, (unit, unit) file_status) hash_map)) ()"
      "sample_job JobRunning (mixed_files :: (string, (unit, unit) file_status) hash_map) ()"]
  by (simp add: sample_job_def mixed_files_def hm_values_def)

subsection \<open>Finalisation and recovery\<close>

lemma terminal_count_cong [simp]:
  "terminal_count (j\<lparr>schedule := sc\<rparr>) = terminal_count j"
  "terminal_count (j\<lparr>execution := execution j\<lparr>exec_status := st\<rparr>\<rparr>) = terminal_count j"
  "terminal_count (j\<lparr>execution := execution j\<lparr>exec_status := st\<rparr>, schedule := sc\<rparr>) = terminal_count j"
  "terminal_count (set_failure_reason_from_files j) = terminal_count j"
  by (simp_all add: terminal_count_def)

lemma aggregate_status [simp]:
  "aggregate_file_failure_reason (j\<lparr>execution := execution j\<lparr>exec_status := st\<rparr>\<rparr>) =
     aggregate_file_failure_reason j"
  by (simp add: aggregate_file_failure_reason_def)

lemma reason_error:
  "exec_error (execution (set_failure_reason_from_files j)) =
     (if exec_error (execution j) = None then aggregate_file_failure_reason j
      else exec_error (execution j))"
  by (auto simp: set_failure_reason_from_files_def upd_exec_def split: option.splits)

lemma any_failed_iff: "any_terminal_files_failed j \<longleftrightarrow> (\<exists>f \<in> set (files_of j). status f = FileError)"
  by (auto simp: any_terminal_files_failed_def list_ex_iff)

text \<open>
  C31. Finalising a job: the change is applied exactly to an active job with a terminal status;
  then the job has that status, the given completion time and no retry time, and if it failed and
  no error was set directly its error is the aggregated reason of its files, so a job finalised
  as failed with a failed file always says why. The file entries are untouched and the counter
  is the number of terminal files, whether or not the change was applied.
\<close>

theorem finalize_effect:
  "case finalize st t j of (applied, j') \<Rightarrow>
     applied = (is_active (job_status_of j) \<and> is_terminal st) \<and>
     files_of j' = files_of j \<and>
     completed_files (execution j') = terminal_count j \<and>
     outcome_columns j' =
       (if applied
        then (st,
              if st = JobFailed \<and> exec_error (execution j) = None
              then aggregate_file_failure_reason j else exec_error (execution j),
              Some t, None)
        else outcome_columns j) \<and>
     (applied \<and> st = JobFailed \<and> any_terminal_files_failed j \<longrightarrow> exec_error (execution j') \<noteq> None)"
proof -
  have some: "any_terminal_files_failed j \<Longrightarrow> aggregate_file_failure_reason j \<noteq> None"
    using aggregate_None [of j] any_failed_iff [of j] by auto
  show ?thesis
    using some
    by (auto simp: finalize_cases Let_def outcome_columns_def reason_error upd_exec_def upd_sched_def)
qed

theorem finalize_effect_witness:
  "let j' = snd (finalize JobFailed 9
       (sample_job JobRunning (mixed_files :: (string, (unit, unit) file_status) hash_map) ()))
   in exec_error (execution j') \<noteq> None \<and> completed_files (execution j') = 2"
proof -
  let ?j = "sample_job JobRunning (mixed_files :: (string, (unit, unit) file_status) hash_map) ()"
  have "is_active (job_status_of ?j)" "any_terminal_files_failed ?j" "terminal_count ?j = 2"
    by (simp_all add: sample_job_def mixed_files_def done_file_def failed_file_def file_status_new_def
        any_failed_iff hm_values_def status_def terminal_count_def)
  with finalize_effect [where st = JobFailed and t = 9 and j = ?j] show ?thesis
    by (simp add: Let_def case_prod_beta)
qed

lemma not_all_resumable_error:
  "\<not> list_ex (\<lambda>f. is_resumable (status f)) fs \<Longrightarrow> f \<in> set fs \<Longrightarrow> file_is_terminal (status f)"
  by (auto simp: list_ex_iff resumable_iff_not_terminal)

text \<open>
  C20. Recovery of a job that a stopped server left running or interrupted: it is queued again
  exactly when some file has not ended, with those files queued anew and the ended ones untouched;
  otherwise no file entry changes and it has failed exactly when every file failed, then with the
  aggregated reason, and has completed otherwise: a job with some failed and some written files is
  completed, where the state diagrams of the book give failed. In every case the lease and the
  retry time are gone, and the answer names the status the job now has.
\<close>

theorem recovery_effect:
  assumes "is_recoverable (job_status_of j)"
  shows "case reconcile_recovered_runtime_state j of (d, j') \<Rightarrow>
     lease (schedule j') = None \<and> job_next_eligible_at (schedule j') = None \<and>
     job_status_of j' =
       (case d of RecoveryRequeued \<Rightarrow> JobQueued | RecoveryFailed \<Rightarrow> JobFailed
        | RecoveryCompleted \<Rightarrow> JobCompleted) \<and>
     (d = RecoveryRequeued \<longleftrightarrow> (\<exists>f \<in> set (files_of j). \<not> file_is_terminal (status f))) \<and>
     (d = RecoveryFailed \<longleftrightarrow> (\<forall>f \<in> set (files_of j). status f = FileError)) \<and>
     (\<forall>fn. file_of j' fn =
        map_option (\<lambda>f. if file_is_terminal (status f) then f else requeue f) (file_of j fn)) \<and>
     exec_error (execution j') =
       (case d of
          RecoveryRequeued \<Rightarrow> None
        | RecoveryFailed \<Rightarrow>
            if exec_error (execution j) = None then aggregate_file_failure_reason j
            else exec_error (execution j)
        | RecoveryCompleted \<Rightarrow> exec_error (execution j))"
proof (cases "list_ex (\<lambda>f. is_resumable (status f)) (files_of j)")
  case True
  then have ex: "\<exists>f \<in> set (files_of j). \<not> file_is_terminal (status f)"
    by (auto simp: list_ex_iff resumable_iff_not_terminal)
  then have "\<exists>f \<in> set (files_of j). status f \<noteq> FileError" by force
  with True ex assms show ?thesis
    by (auto simp: reconcile_recovered_runtime_state_def Let_def set_status_def upd_defs
        clear_lease_def hm_get_map_values resumable_iff_not_terminal if_distrib [of requeue]
        intro!: option.map_cong)
next
  case False
  have ended: "f \<in> set (files_of j) \<Longrightarrow> file_is_terminal (status f)" for f
    by (rule not_all_resumable_error [OF False])
  then have same: "map_option (\<lambda>f. if file_is_terminal (status f) then f else requeue f) (file_of j fn) =
      file_of j fn" for fn
    by (cases "file_of j fn") (auto dest: hm_get_in_values)
  from False assms ended same show ?thesis
    by (auto simp: reconcile_recovered_runtime_state_def Let_def set_status_def upd_defs
        clear_lease_def list_all_iff reason_error)
qed

theorem recovery_effect_witness:
  "fst (reconcile_recovered_runtime_state
     (sample_job JobInterrupted (mixed_files :: (string, (unit, unit) file_status) hash_map) ())) =
   RecoveryCompleted"
proof -
  let ?j = "sample_job JobInterrupted (mixed_files :: (string, (unit, unit) file_status) hash_map) ()"
  have files: "set (files_of ?j) = {done_file ''a.cha'', failed_file ''b.cha''}"
    by (simp add: sample_job_def mixed_files_def hm_values_def)
  have "is_recoverable (job_status_of ?j)" by (simp add: sample_job_def)
  from recovery_effect [OF this] files show ?thesis
    by (cases "fst (reconcile_recovered_runtime_state ?j)")
      (auto simp: case_prod_beta done_file_def failed_file_def status_def)
qed

subsection \<open>The counter of ended files\<close>

definition counter_ok :: "('v, 'tok) job \<Rightarrow> bool" where
  "counter_ok j \<longleftrightarrow> completed_files (execution j) = terminal_count j"

lemma terminal_count_with_file:
  assumes "file_of j fn = Some f" and "\<not> file_is_terminal (status f)"
  shows "terminal_count (snd (with_file fn g j)) =
    (if file_is_terminal (status (g f)) then terminal_count j + 1 else terminal_count j)"
  using assms hm.count_modify_up [OF assms(1), of "\<lambda>f. file_is_terminal (status f)" g]
    hm.count_modify_same [OF assms(1), of "\<lambda>f. file_is_terminal (status f)" g]
  by (simp add: terminal_count_def with_file_def upd_exec_def)

lemma terminal_count_files: "files_of j' = files_of j \<Longrightarrow> terminal_count j' = terminal_count j"
  by (simp add: terminal_count_def)

lemma kind_completion [simp]: "file_is_terminal (kind (completion_phase s t c))"
  by (cases c) (simp_all add: completion_phase_def)

lemma mark_file_done_count:
  assumes "file_of j fn = Some f" and "\<not> file_is_terminal (status f)"
  shows "terminal_count (snd (mark_file_done fn t c j)) = terminal_count j + 1"
proof -
  let ?g = "\<lambda>h. h\<lparr>phase := completion_phase (started_at (phase f)) t c, progress := file_progress_default\<rparr>"
  let ?j1 = "snd (with_file fn ?g j)"
  have one: "terminal_count ?j1 = terminal_count j + 1"
    using terminal_count_with_file [OF assms, of ?g] by (simp add: status_def)
  have f1: "file_of ?j1 fn = Some (?g f)" using assms(1) by (simp add: with_file_simps)
  have same: "terminal_count (snd (with_file fn (\<lambda>h. h\<lparr>stamp := st\<rparr>) ?j1)) = terminal_count ?j1" for st
    using hm.count_modify_same [OF f1, of "\<lambda>f. file_is_terminal (status f)" "\<lambda>h. h\<lparr>stamp := st\<rparr>"]
    by (simp add: terminal_count_def with_file_def upd_exec_def status_def split: option.splits)
  show ?thesis
    using assms(1) one same
    by (auto simp: mark_file_done_def Let_def terminal_count_def upd_exec_def split: option.splits)
qed

lemma mark_file_error_count:
  assumes "file_of j fn = Some f" and "\<not> file_is_terminal (status f)"
  shows "terminal_count (snd (mark_file_error fn r j)) = terminal_count j + 1"
  using assms(1) terminal_count_with_file [OF assms, of "\<lambda>f. f\<lparr>phase :=
      Error (started_at (phase f)) (Some (fail_finished_at r)) (recorded (fail_message r) (fail_category r)),
      progress := file_progress_default\<rparr>"]
  by (simp add: mark_file_error_def Let_def terminal_count_def upd_exec_def status_def)

text \<open>
  The counter of ended files is exact along the protocol: while a transition is applied to a
  file that has not ended, the counter stays the number of terminal files, through starts,
  retries, progress and waits, completions and errors; and finalisation makes it exact whatever
  happened before.
\<close>

theorem counter_exact:
  assumes "counter_ok j" and "file_of j fn = Some f" and "\<not> file_is_terminal (status f)"
  shows "counter_ok (snd (mark_file_done fn t c j)) \<and> counter_ok (snd (mark_file_error fn r j)) \<and>
    counter_ok (snd (mark_file_processing fn t j)) \<and> counter_ok (snd (start_file_attempt fn t j)) \<and>
    counter_ok (snd (mark_file_retry_pending fn rr j)) \<and> counter_ok (snd (clear_file_retry_state fn j)) \<and>
    counter_ok (snd (set_file_progress fn p j)) \<and> counter_ok (snd (set_file_worker_wait fn ch j)) \<and>
    counter_ok (snd (finalize st t any))"
proof -
  have keep: "counter_ok (snd (with_file fn g j))" if "\<not> file_is_terminal (status (g f))" for g
    using assms terminal_count_with_file [OF assms(2,3), of g] that
    by (simp add: counter_ok_def with_file_simps)
  have ends: "counter_ok (snd (mark_file_done fn t c j))" "counter_ok (snd (mark_file_error fn r j))"
    using assms
    by (simp_all add: counter_ok_def mark_file_done_count mark_file_done_Some mark_file_error_count
        mark_file_error_Some)
  have clear: "counter_ok (snd (clear_file_retry_state fn j))"
    unfolding clear_file_retry_state_def
    by (rule keep) (use assms(3) in \<open>cases "phase f"; simp add: status_def\<close>)
  have "counter_ok (snd (finalize st t any))"
    by (simp add: counter_ok_def finalize_cases Let_def upd_defs terminal_count_def)
  with ends clear keep assms(2,3) show ?thesis
    by (auto simp: mark_file_processing_def start_file_attempt_def mark_file_retry_pending_def
        set_file_progress_def set_file_worker_wait_def status_def)
qed

theorem counter_exact_witness:
  "counter_ok (snd (mark_file_done ''a.cha'' 4 WithoutResult
     (sample_job JobRunning [(''a.cha'', file_status_new ''a.cha'' :: (unit, unit) file_status)] ())))"
proof -
  let ?j = "sample_job JobRunning [(''a.cha'', file_status_new ''a.cha'' :: (unit, unit) file_status)] ()"
  have "counter_ok ?j" "file_of ?j ''a.cha'' = Some (file_status_new ''a.cha'')"
    "\<not> file_is_terminal (status (file_status_new ''a.cha'' :: (unit, unit) file_status))"
    by (simp_all add: counter_ok_def terminal_count_def sample_job_def hm_values_def hm_get_def
        file_status_new_def status_def)
  from counter_exact [OF this] show ?thesis by blast
qed

text \<open>Recording a second end for a file counts it again: the counter and the terminal files part.\<close>

lemma double_end_overcounts:
  assumes "counter_ok j" and "file_of j fn = Some f" and "file_is_terminal (status f)"
  shows "completed_files (execution (snd (mark_file_error fn r j))) =
    terminal_count (snd (mark_file_error fn r j)) + 1"
proof -
  let ?g = "\<lambda>f. f\<lparr>phase := Error (started_at (phase f)) (Some (fail_finished_at r))
      (recorded (fail_message r) (fail_category r)), progress := file_progress_default\<rparr>"
  have "terminal_count (snd (mark_file_error fn r j)) = terminal_count j"
    using assms(2,3) hm.count_modify_same [OF assms(2), of "\<lambda>f. file_is_terminal (status f)" ?g]
    by (simp add: mark_file_error_def with_file_def Let_def terminal_count_def upd_exec_def status_def)
  with assms show ?thesis by (simp add: mark_file_error_Some counter_ok_def)
qed

subsection \<open>Conflicts, submitters, pending files\<close>

lemma find_conflicts_mem:
  "c \<in> set (find_conflicts jobs incoming) \<longleftrightarrow>
     (\<exists>active \<in> set (hm_values jobs). \<exists>fn \<in> set (filenames (filesystem active)).
        is_active (job_status_of active) \<and>
        conflict_key active fn \<in> conflict_key incoming ` set (filenames (filesystem incoming)) \<and>
        c = \<lparr>conflict_filename = fn, conflict_job_id = job_id (identity active),
             conflict_command = command (dispatch active), conflict_status = job_status_of active\<rparr>)"
  by (auto simp: find_conflicts_def Let_def split: if_splits)

text \<open>
  Conflict detection is sound and complete: a submission is free of conflicts exactly when no
  active job of the same submitter address (or of none, for none) holds a file of the same path,
  the path being the file name under the job's source directory; and every reported entry is such
  a file of such a job.
\<close>

theorem conflicts_sound_complete:
  "(find_conflicts jobs incoming = [] \<longleftrightarrow>
     \<not> (\<exists>active \<in> set (hm_values jobs). is_active (job_status_of active) \<and>
        (\<exists>fn \<in> set (filenames (filesystem active)). \<exists>fn' \<in> set (filenames (filesystem incoming)).
           map_option address (submitter_of (source active)) =
             map_option address (submitter_of (source incoming)) \<and>
           conflict_path active fn = conflict_path incoming fn'))) \<and>
   list_all (\<lambda>c. \<exists>active \<in> set (hm_values jobs).
       conflict_job_id c = job_id (identity active) \<and> is_active (conflict_status c) \<and>
       conflict_status c = job_status_of active \<and>
       conflict_filename c \<in> set (filenames (filesystem active))) (find_conflicts jobs incoming)"
proof -
  have "find_conflicts jobs incoming = [] \<longleftrightarrow> (\<forall>c. c \<notin> set (find_conflicts jobs incoming))"
    by (cases "find_conflicts jobs incoming") auto
  then have "find_conflicts jobs incoming = [] \<longleftrightarrow>
     \<not> (\<exists>active \<in> set (hm_values jobs). is_active (job_status_of active) \<and>
        (\<exists>fn \<in> set (filenames (filesystem active)). \<exists>fn' \<in> set (filenames (filesystem incoming)).
           map_option address (submitter_of (source active)) =
             map_option address (submitter_of (source incoming)) \<and>
           conflict_path active fn = conflict_path incoming fn'))"
    unfolding find_conflicts_mem by (simp add: conflict_key_def image_iff) blast
  moreover have "\<exists>active \<in> set (hm_values jobs).
       conflict_job_id c = job_id (identity active) \<and> is_active (conflict_status c) \<and>
       conflict_status c = job_status_of active \<and>
       conflict_filename c \<in> set (filenames (filesystem active))"
    if "c \<in> set (find_conflicts jobs incoming)" for c
    using that unfolding find_conflicts_mem by force
  ultimately show ?thesis by (simp add: list_all_iff)
qed

definition submitter_ok :: "submitter \<Rightarrow> bool" where
  "submitter_ok s \<longleftrightarrow> address s \<noteq> [] \<and> name s \<noteq> Some []"

text \<open>
  The submitter columns: what is written reads back as the same submitter, or as none for
  none, exactly for the submitters whose address and recorded name are not empty, which is what
  the constructors make.
\<close>

theorem submitter_roundtrip:
  "((case submitter_columns s of (a, n) \<Rightarrow> submitter_from_columns a n) =
     (case s of None \<Rightarrow> Absent | Some sub \<Rightarrow> StoredRecorded sub)
    \<longleftrightarrow> (case s of None \<Rightarrow> True | Some sub \<Rightarrow> submitter_ok sub)) \<and>
   submitter_ok submitter_direct_cli \<and>
   (submitter_ok (submitter_client addr nm) \<longleftrightarrow> addr \<noteq> [])"
proof (cases s)
  case (Some sub)
  then show ?thesis
    by (cases sub)
      (auto simp: submitter_columns_def submitter_from_columns_def absent_column_def submitter_ok_def
        submitter_direct_cli_def submitter_client_def split: option.splits bool.splits)
qed (simp add: submitter_columns_def submitter_from_columns_def absent_column_def submitter_ok_def
    submitter_direct_cli_def submitter_client_def)

definition file_ended :: "('v, 'tok) job \<Rightarrow> string \<Rightarrow> bool" where
  "file_ended j fn = (case file_of j fn of Some f \<Rightarrow> file_is_terminal (status f) | None \<Rightarrow> False)"

lemma pending_files_alt:
  "pending_files j =
     map (\<lambda>((i, fn), chat). \<lparr>file_index = i, pending_filename = fn, pending_has_chat = chat\<rparr>)
       (filter (\<lambda>((i, fn), chat). \<not> file_ended j fn)
         (zip (List.enumerate 0 (filenames (filesystem j))) (has_chat (filesystem j))))"
  unfolding pending_files_def
  by (rule map_filter_if) (auto simp: file_ended_def Let_def split: option.splits)

text \<open>
  What a runner is handed: the files of the job that have not ended, in submission order, each
  with its position in the job's parallel lists and its own CHAT marker.
\<close>

theorem pending_files_exact:
  assumes "length (has_chat (filesystem j)) = length (filenames (filesystem j))"
  shows "map pending_filename (pending_files j) =
      filter (\<lambda>fn. \<not> file_ended j fn) (filenames (filesystem j)) \<and>
    list_all (\<lambda>p. file_index p < length (filenames (filesystem j)) \<and>
      filenames (filesystem j) ! file_index p = pending_filename p \<and>
      has_chat (filesystem j) ! file_index p = pending_has_chat p) (pending_files j) \<and>
    sorted (map file_index (pending_files j)) \<and> distinct (map file_index (pending_files j))"
proof -
  let ?fs = "filenames (filesystem j)" and ?cs = "has_chat (filesystem j)"
  let ?z = "zip (List.enumerate 0 ?fs) ?cs"
  let ?P = "\<lambda>((i, fn), chat). \<not> file_ended j fn"
  have names: "map (\<lambda>((i, fn), chat). fn) (filter ?P (zip (List.enumerate n fs) cs)) =
      filter (\<lambda>fn. \<not> file_ended j fn) fs" if "length cs = length fs" for n fs and cs :: "bool list"
    using that by (induction fs arbitrary: n cs) (auto simp: length_Suc_conv)
  have idx: "map (fst \<circ> fst) ?z = [0..<length ?fs]"
    using assms by (simp add: map_fst_zip [symmetric] flip: map_map) 
  have "sorted (map (fst \<circ> fst) (filter ?P ?z)) \<and> distinct (map (fst \<circ> fst) (filter ?P ?z))"
    using sorted_filter [of "fst \<circ> fst" ?z ?P] distinct_map_filter [of "fst \<circ> fst" ?z ?P]
    by (simp add: idx)
  moreover have "map file_index (pending_files j) = map (fst \<circ> fst) (filter ?P ?z)"
    by (auto simp: pending_files_alt split: prod.splits)
  moreover have "map pending_filename (pending_files j) = map (\<lambda>((i, fn), chat). fn) (filter ?P ?z)"
    by (auto simp: pending_files_alt split: prod.splits)
  moreover have "\<forall>p \<in> set (pending_files j). file_index p < length ?fs \<and>
      ?fs ! file_index p = pending_filename p \<and> ?cs ! file_index p = pending_has_chat p"
    by (auto simp: pending_files_alt in_set_zip nth_enumerate_eq)
  ultimately show ?thesis by (simp add: names [OF assms] list_all_iff)
qed

theorem pending_files_exact_witness:
  "map pending_filename (pending_files
     (sample_job JobRunning [(''a.cha'', done_file ''a.cha'' :: (unit, unit) file_status),
        (''b.cha'', file_status_new ''b.cha'')] ())) = [''b.cha'']"
  using pending_files_exact [of "sample_job JobRunning
      [(''a.cha'', done_file ''a.cha'' :: (unit, unit) file_status), (''b.cha'', file_status_new ''b.cha'')] ()"]
  by (simp add: sample_job_def file_ended_def hm_get_def done_file_def file_status_new_def status_def)

text \<open>
  The lease of a claimed job: a claim is granted exactly to a queued job no runner owns, no
  live lease holds and no retry time defers, and then no second claim can succeed until it is
  released; a renewal is granted exactly to the node that holds the lease of a job that a runner
  owns and that has not ended, and moves only the two times of that lease.
\<close>

theorem lease_protocol:
  "(case claim_for_local_dispatch R node now ttl j of (granted, j') \<Rightarrow>
      granted = (if ready_for_local_dispatch now j then Some (lease_taken R node now ttl) else None) \<and>
      (granted = None \<and> j' = j \<or>
       granted = lease (schedule j') \<and> \<not> ready_for_local_dispatch later j' \<and>
       fst (claim_for_local_dispatch R node2 later ttl j') = None \<and>
       job_status_of (release_local_dispatch_claim j') = JobQueued \<and>
       \<not> runner_active (runtime (release_local_dispatch_claim j')))) \<and>
   (case renew_local_dispatch_lease R node now ttl j of (granted, j') \<Rightarrow>
      (granted \<noteq> None \<longleftrightarrow> runner_active (runtime j) \<and> is_active (job_status_of j) \<and>
         map_option leased_by_node (lease (schedule j)) = Some node) \<and>
      (if granted = None then j' = j
       else granted = map_option (lease_renew R now ttl) (lease (schedule j)) \<and>
         j' = upd_sched (\<lambda>s. s\<lparr>lease := granted\<rparr>) j))"
proof -
  have active: "is_terminal st \<longleftrightarrow> \<not> is_active st" for st
    using terminal_or_active [of st] by blast
  show ?thesis
    by (auto simp: claim_for_local_dispatch_def renew_local_dispatch_lease_def
        ready_for_local_dispatch_def release_local_dispatch_claim_def clear_lease_def Let_def upd_defs
        active split: option.splits)
qed

subsection \<open>Reachable jobs\<close>

text \<open>
  A submitted job (\<^verbatim>\<open>submission.rs\<close>): queued, with nothing recorded, and one queued entry per name
  of the submission, inserted in turn; a name given twice keeps one entry.
\<close>

definition submitted_files :: "string list \<Rightarrow> (string, ('v, 'v) file_status) hash_map" where
  "submitted_files names = fold (\<lambda>fn m. hm_insert fn (file_status_new fn) m) names []"

definition submitted_job :: "('v, 'tok) job \<Rightarrow> bool" where
  "submitted_job j \<longleftrightarrow>
     outcome_columns j = (JobQueued, None, None, None) \<and>
     file_statuses (execution j) = submitted_files (filenames (filesystem j)) \<and>
     results (execution j) = [] \<and> completed_files (execution j) = 0 \<and>
     num_workers (schedule j) = None \<and> lease (schedule j) = None \<and> last_cancel (schedule j) = None \<and>
     \<not> runner_active (runtime j) \<and> run_generation_of (runtime j) = generation_first \<and>
     runtime_state (dispatch j) = [] \<and> execution_plan j = None"

text \<open>
  The jobs a server can hold: a submitted job, what the store and the runners make of it, accepted
  restarts, and what a startup loads. With \<open>swept\<close> every startup sweeps the active rows before it
  loads them, as the server does; without it a load may also find a row still queued or running.
\<close>

inductive job_reach :: "('v, 'e, 'tok, 'w) store_env \<Rightarrow> bool \<Rightarrow> ('v, 'tok) job \<Rightarrow> bool"
  for E :: "('v, 'e, 'tok, 'w) store_env" and swept
where
  reach_submit: "submitted_job j \<Longrightarrow> job_reach E swept j"
| reach_op: "job_reach E swept j \<Longrightarrow> job_reach E swept (snd (run_op (se_tokens E) (se_range E) x (w, j)))"
| reach_restart: "job_reach E swept j \<Longrightarrow>
    prepare_for_restart (se_policy E) (se_tokens E) w j = (Ok (), w', j') \<Longrightarrow> job_reach E swept j'"
| reach_startup: "job_reach E swept j \<Longrightarrow>
    load_row E cutoff w (recover_interrupted now j) = Some (w', j') \<Longrightarrow> job_reach E swept j'"
| reach_load: "job_reach E swept j \<Longrightarrow> \<not> swept \<Longrightarrow>
    load_row E cutoff w j = Some (w', j') \<Longrightarrow> job_reach E swept j'"

text \<open>
  The well-formedness of a job: no completion time on an active job (and, where startups sweep,
  one on every other), one file entry per submitted name, each under its own name.
\<close>

definition files_wf :: "string list \<Rightarrow> (string, ('v, 'v) file_status) hash_map \<Rightarrow> bool" where
  "files_wf names m \<longleftrightarrow>
     hm_wf m \<and> (\<forall>fn. hm_get m fn = None \<longleftrightarrow> fn \<notin> set names) \<and>
     (\<forall>fn f. hm_get m fn = Some f \<longrightarrow> filename f = fn)"

definition job_wf :: "bool \<Rightarrow> ('v, 'tok) job \<Rightarrow> bool" where
  "job_wf swept j \<longleftrightarrow>
     (is_active (job_status_of j) \<longrightarrow> completed_at (schedule j) = None) \<and>
     (swept \<and> completed_at (schedule j) = None \<longrightarrow> is_active (job_status_of j)) \<and>
     files_wf (filenames (filesystem j)) (file_statuses (execution j))"

lemma files_wf_get:
  assumes "files_wf ns m" and "hm_wf m' = hm_wf m"
    and "\<And>fn. hm_get m' fn = map_option (h fn) (hm_get m fn)"
    and "\<And>fn f. filename (h fn f) = filename f"
  shows "files_wf ns m'"
  using assms(1,2) unfolding files_wf_def by (auto simp: assms(3,4))

lemma files_wf_modify:
  assumes "files_wf ns m" and "\<And>f. filename (g f) = filename f"
  shows "files_wf ns (hm_modify fn g m)"
proof (rule files_wf_get [OF assms(1) hm_wf_modify])
  show "hm_get (hm_modify fn g m) x = map_option (if fn = x then g else id) (hm_get m x)" for x
    by (simp add: hm_get_modify option.map_id)
qed (simp add: assms(2))

lemma files_wf_map:
  assumes "files_wf ns m" and "\<And>f. filename (g f) = filename f"
  shows "files_wf ns (hm_map_values g m)"
  by (rule files_wf_get [OF assms(1) hm_wf_map_values hm_get_map_values]) (rule assms(2))

lemma filename_built [simp]: "filename (file_status_new fn) = fn" "filename (loaded_file fn f) = fn"
  by (simp_all add: file_status_new_def loaded_file_def)

lemma submitted_files_wf:
  "files_wf ns (submitted_files ns :: (string, ('v, 'v) file_status) hash_map)"
proof -
  have "hm_wf (fold (\<lambda>fn m. hm_insert fn (file_status_new fn) m) ns m) \<and>
      (\<forall>fn. hm_get (fold (\<lambda>fn m. hm_insert fn (file_status_new fn) m) ns m) fn =
        (if fn \<in> set ns then Some (file_status_new fn) else hm_get m fn))"
    if "hm_wf m" for m :: "(string, ('v, 'v) file_status) hash_map"
    using that
    by (induction ns arbitrary: m) (auto simp: hm_wf_def hm_get_def hm_insert_def distinct_update update_conv')
  from this [of "[]"] have "hm_wf (submitted_files ns :: (string, ('v, 'v) file_status) hash_map)"
    and "\<And>fn. hm_get (submitted_files ns :: (string, ('v, 'v) file_status) hash_map) fn =
      (if fn \<in> set ns then Some (file_status_new fn) else None)"
    by (simp_all add: submitted_files_def hm_wf_def hm_get_def [of "[]"])
  then show ?thesis by (simp add: files_wf_def)
qed

lemma files_wf_loaded:
  assumes "files_wf ns m"
  shows "files_wf ns (map (\<lambda>(fn, f). (fn, loaded_file fn f)) m)"
proof -
  have get: "hm_get (map (\<lambda>(fn, f). (fn, loaded_file fn f)) m) fn = map_option (loaded_file fn) (hm_get m fn)" for fn
    by (induction m) (auto simp: hm_get_def)
  have wf: "hm_wf (map (\<lambda>(fn, f). (fn, loaded_file fn f)) m) = hm_wf m"
    by (simp add: hm_wf_def comp_def split_beta)
  show ?thesis using assms by (auto simp: files_wf_def get wf)
qed

lemma filename_requeue [simp]: "filename (requeue f) = filename f"
  by (simp add: requeue_def)

text \<open>What of a job the well-formedness depends on.\<close>

lemma job_wf_cong:
  "\<lbrakk>job_wf sw j; outcome_columns j' = outcome_columns j; filesystem j' = filesystem j;
    files_wf (filenames (filesystem j)) (file_statuses (execution j'))\<rbrakk> \<Longrightarrow> job_wf sw j'"
  by (simp add: job_wf_def outcome_columns_def)

lemma with_file_wf:
  assumes "job_wf sw j" and "\<And>f. filename (g f) = filename f"
  shows "job_wf sw (snd (with_file fn g j))"
  using assms
  by (auto simp: with_file_def job_wf_def upd_exec_def files_wf_modify split: option.splits)

lemma upd_exec_wf:
  assumes "job_wf sw j" and "\<And>e. exec_status (f e) = exec_status e \<and> file_statuses (f e) = file_statuses e"
  shows "job_wf sw (upd_exec f j)"
  using assms by (simp add: job_wf_def upd_exec_def)

lemma done_error_wf:
  assumes "job_wf sw j"
  shows "job_wf sw (snd (mark_file_done fn t c j))" and "job_wf sw (snd (mark_file_error fn r j))"
  using assms
  by (auto simp: mark_file_done_def mark_file_error_def Let_def split: option.splits
      intro!: upd_exec_wf with_file_wf)

lemma status_ops_wf:
  assumes "job_wf sw j"
  shows "job_wf sw (snd (mark_running j))" "job_wf sw (snd (requeue_after_memory_gate t j))"
    "job_wf sw (snd (job_fail e t j))" "job_wf sw (snd (job_stop s t j))"
    "job_wf sw (snd (finalize st t j))" "job_wf sw (record_worker_count n j)"
    "job_wf sw (release_local_dispatch_claim j)"
    "job_wf sw (snd (claim_for_local_dispatch R node t ttl j))"
    "job_wf sw (snd (renew_local_dispatch_lease R node t ttl j))"
proof -
  have act: "is_terminal x \<Longrightarrow> \<not> is_active x" for x using terminal_or_active [of x] by blast
  note defs = job_wf_def upd_defs set_status_def
  show "job_wf sw (snd (mark_running j))" "job_wf sw (snd (requeue_after_memory_gate t j))"
    "job_wf sw (snd (job_fail e t j))"
    using assms by (auto simp: defs mark_running_def requeue_after_memory_gate_def job_fail_def)
  show "job_wf sw (snd (job_stop s t j))"
    using assms
    by (cases s) (auto simp: defs job_stop_cases adopt_status_columns_def stopped_def can_cancel_def)
  show "job_wf sw (snd (finalize st t j))"
    using assms
    by (auto simp: finalize_cases Let_def job_wf_def upd_exec_def upd_sched_def act
        set_failure_reason_from_files_def split: option.splits)
  show "job_wf sw (record_worker_count n j)" "job_wf sw (release_local_dispatch_claim j)"
    "job_wf sw (snd (claim_for_local_dispatch R node t ttl j))"
    "job_wf sw (snd (renew_local_dispatch_lease R node t ttl j))"
    using assms
    by (auto simp: defs record_worker_count_def release_local_dispatch_claim_def clear_lease_def
        claim_for_local_dispatch_def renew_local_dispatch_lease_def Let_def split: option.splits)
qed

lemma job_wf_unclaimed: "job_wf sw j \<Longrightarrow> job_wf sw (upd_runtime f (clear_lease j))"
  by (simp add: job_wf_def upd_defs clear_lease_def)

lemma run_op_wf:
  assumes "job_wf sw j"
  shows "job_wf sw (snd (run_op K R x (w, j)))"
proof (cases x)
  case (OpCancel t)
  with status_ops_wf(4) [OF assms, of StopCancelled t] show ?thesis
    by (simp add: request_cancellation_def Let_def case_prod_beta)
next
  case (OpShutdown t)
  with status_ops_wf(4) [OF assms, of StopInterrupted t] show ?thesis
    by (auto simp: interrupt_for_shutdown_def Let_def job_wf_unclaimed split: prod.splits bool.splits)
next
  case (OpFileProgress fn p)
  with assms show ?thesis
    by (auto simp: set_file_progress_def with_file_wf split: option.splits)
qed (use assms in \<open>simp_all add: status_ops_wf done_error_wf with_file_wf mark_file_processing_def
    start_file_attempt_def mark_file_retry_pending_def clear_file_retry_state_def
    set_file_worker_wait_def\<close>)

lemma restart_wf:
  assumes "job_wf sw j" and "prepare_for_restart policy K w j = (Ok (), w', j')"
  shows "job_wf sw j'"
proof -
  have "files_wf (filenames (filesystem j))
      (hm_map_values (\<lambda>f. if \<not> wrote_output (status f) then requeue f else f) (file_statuses (execution j)))"
    using assms(1) by (intro files_wf_map) (simp_all add: job_wf_def)
  with assms(2) show ?thesis
    by (auto simp: prepare_for_restart_def Let_def set_status_def upd_defs clear_lease_def job_wf_def
        split: sum.splits if_splits prod.splits)
qed

lemma recovery_wf:
  assumes "job_wf sw j" and "is_recoverable (job_status_of j)" and "sw \<Longrightarrow> job_status_of j = JobInterrupted"
  shows "job_wf sw (snd (reconcile_recovered_runtime_state j))"
proof -
  have "files_wf (filenames (filesystem j))
      (hm_map_values (\<lambda>f. if is_resumable (status f) then requeue f else f) (file_statuses (execution j)))"
    using assms(1) by (intro files_wf_map) (simp_all add: job_wf_def)
  with assms show ?thesis
    by (auto simp: reconcile_recovered_runtime_state_def Let_def set_status_def upd_defs
        clear_lease_def job_wf_def set_failure_reason_from_files_def split: option.splits)
qed

lemma sweep_wf:
  assumes "job_wf sw j"
  shows "job_wf sw (recover_interrupted now j)" and "\<not> is_active (job_status_of (recover_interrupted now j))"
proof -
  have "files_wf (filenames (filesystem j))
      (hm_map_values (\<lambda>f. f\<lparr>phase := interrupted (phase f)\<rparr>) (file_statuses (execution j)))"
    using assms by (intro files_wf_map) (simp_all add: job_wf_def)
  with assms show "job_wf sw (recover_interrupted now j)"
    and "\<not> is_active (job_status_of (recover_interrupted now j))"
    by (auto simp: recover_interrupted_def job_wf_def adopt_status_columns_def stopped_def upd_defs)
qed

lemma load_wf:
  assumes "job_wf sw j" and "load_row E cutoff w j = Some (w', j')"
    and "sw \<Longrightarrow> \<not> is_active (job_status_of j)"
  shows "job_wf sw j'"
proof -
  have wf: "job_wf sw (loaded_job st nt rs tok j)" if "st = job_status_of j \<or> st = JobFailed" for st nt rs tok
    using assms(1,3) that by (auto simp: job_wf_def files_wf_loaded)
  from assms(2) show ?thesis
  proof (cases rule: load_row_SomeE)
    case (recovered rs tok)
    then have "sw \<Longrightarrow> job_status_of j = JobInterrupted" using assms(3) by (cases "job_status_of j") auto
    with recovered wf show ?thesis by (simp add: recovery_wf)
  qed (simp_all add: wf)
qed



text \<open>
  Without the sweep a row still running whose files have all ended would be reconciled to an ended
  job with no completion time: the reconciliation of such a row leaves the time as it is.
\<close>

lemma unswept_recovery_unfinished:
  assumes "job_status_of j = JobRunning" and "job_wf sw j"
    and "\<not> list_ex (\<lambda>f. is_resumable (status f)) (files_of j)"
  shows "is_terminal (job_status_of (snd (reconcile_recovered_runtime_state j)))"
    and "completed_at (schedule (snd (reconcile_recovered_runtime_state j))) = None"
  using assms
  by (simp_all add: reconcile_recovered_runtime_state_def Let_def set_status_def upd_defs
      clear_lease_def job_wf_def set_failure_reason_from_files_def split: option.splits)

text \<open>
  A failure recorded while a requeued job waits for its retry time leaves that time on the failed
  job, unlike a stop or a finalisation.
\<close>

lemma fail_keeps_retry_time:
  assumes "is_active (job_status_of j)"
  shows "job_next_eligible_at (schedule (snd (job_fail e t j))) = job_next_eligible_at (schedule j)"
    and "job_status_of (snd (job_fail e t j)) = JobFailed"
    and "job_next_eligible_at (schedule (snd (finalize JobFailed t j))) = None"
  using assms
  by (simp_all add: job_fail_def set_status_def upd_defs finalize_cases Let_def)

end
