(* ===== verification/Registry.thy ===== *)
theory Registry
  imports Job
begin

text \<open>
  The job registry (\<^verbatim>\<open>crates/batchalign/src/store/registry.rs\<close>): the map of all known jobs, owned by
  one actor task that runs the operations it is sent one after the other. An operation is a
  function from the registry to its answer and the registry afterwards; the actor is their fold.
  The state of the cancellation tokens is a field of the registry, since every token belongs to
  some job.
\<close>

record ('v, 'tok, 'w) registry =
  jobs :: "(string, ('v, 'tok) job) hash_map"
  tokens :: 'w

subsection \<open>Access to one job\<close>

definition project_job ::
  "string \<Rightarrow> (('v, 'tok) job \<Rightarrow> 'r) \<Rightarrow> ('v, 'tok, 'w) registry \<Rightarrow> 'r option" where
  "project_job k f g = map_option f (hm_get (jobs g) k)"

text \<open>
  \<^verbatim>\<open>update_job\<close> with a transition that may also use the tokens, and the common case of one that does
  not.
\<close>

definition update_job_tokens ::
  "string \<Rightarrow> ('w \<Rightarrow> ('v, 'tok) job \<Rightarrow> 'r \<times> 'w \<times> ('v, 'tok) job) \<Rightarrow> ('v, 'tok, 'w) registry \<Rightarrow>
   'r option \<times> ('v, 'tok, 'w) registry" where
  "update_job_tokens k f g =
     (case hm_get (jobs g) k of
        None \<Rightarrow> (None, g)
      | Some j \<Rightarrow>
          (let (r, w', j') = f (tokens g) j
           in (Some r, g\<lparr>jobs := hm_modify k (\<lambda>_. j') (jobs g), tokens := w'\<rparr>)))"

definition update_job ::
  "string \<Rightarrow> (('v, 'tok) job \<Rightarrow> 'r \<times> ('v, 'tok) job) \<Rightarrow> ('v, 'tok, 'w) registry \<Rightarrow>
   'r option \<times> ('v, 'tok, 'w) registry" where
  "update_job k f = update_job_tokens k (\<lambda>w j. let (r, j') = f j in (r, w, j'))"

definition remove_job ::
  "string \<Rightarrow> (('v, 'tok) job \<Rightarrow> 'r) \<Rightarrow> ('v, 'tok, 'w) registry \<Rightarrow>
   'r option \<times> ('v, 'tok, 'w) registry" where
  "remove_job k f g =
     (case hm_get (jobs g) k of
        None \<Rightarrow> (None, g)
      | Some j \<Rightarrow> (Some (f j), g\<lparr>jobs := hm_remove k (jobs g)\<rparr>))"

text \<open>\<^verbatim>\<open>Option::flatten\<close> on the answer of an operation, and \<^verbatim>\<open>is_some\<close>.\<close>

definition flatten :: "'r option option \<times> 'g \<Rightarrow> 'r option \<times> 'g" where
  "flatten a = (Option.bind (fst a) id, snd a)"

definition answered :: "'r option \<times> 'g \<Rightarrow> bool \<times> 'g" where
  "answered a = (fst a \<noteq> None, snd a)"

record ('v, 'tok) file_update_projection =
  fu_job_id :: string
  fu_file :: "('v, 'v) file_status_entry"
  fu_phase :: "('v, 'v) file_phase"
  fu_completed_files :: int

definition file_update_projection ::
  "('v, 'v) review_text \<Rightarrow> ('v, 'tok) job \<Rightarrow> string \<Rightarrow> ('v, 'tok) file_update_projection option" where
  "file_update_projection T j fn =
     (case file_of j fn of
        None \<Rightarrow> None
      | Some f \<Rightarrow>
          Some \<lparr>fu_job_id = job_id (identity j), fu_file = to_entry T f, fu_phase = phase f,
            fu_completed_files = completed_files (execution j)\<rparr>)"

subsection \<open>Whole-registry operations\<close>

text \<open>\<open>debug_names\<close> renders the list of names the way \<^verbatim>\<open>{:?}\<close> does.\<close>

definition insert_checked ::
  "(string list \<Rightarrow> string) \<Rightarrow> ('v, 'tok) job \<Rightarrow> ('v, 'tok, 'w) registry \<Rightarrow>
   (unit server_error, unit) result \<times> ('v, 'tok, 'w) registry" where
  "insert_checked debug_names j g =
     (let conflicts = find_conflicts (jobs g) j
      in if conflicts \<noteq> []
         then (Err (JobConflict
                 (''Files already being processed by an active job: '' @
                  debug_names (map conflict_filename conflicts)) conflicts), g)
         else (Ok (), g\<lparr>jobs := hm_insert (job_id (identity j)) j (jobs g)\<rparr>))"

text \<open>\<^verbatim>\<open>sort_by_key\<close> is stable; the key is the submission time, newest first.\<close>

definition list_items :: "('v, 'tok, 'w) registry \<Rightarrow> job_list_item list" where
  "list_items g = sort_key (\<lambda>i. - item_submitted_at i) (map to_list_item (hm_values (jobs g)))"

definition active_jobs :: "('v, 'tok, 'w) registry \<Rightarrow> int" where
  "active_jobs g = int (length (filter (\<lambda>j. job_status_of j = JobRunning) (hm_values (jobs g))))"

definition queued_job_ids :: "('v, 'tok, 'w) registry \<Rightarrow> string list" where
  "queued_job_ids g =
     map (\<lambda>j. job_id (identity j)) (filter (\<lambda>j. job_status_of j = JobQueued) (hm_values (jobs g)))"

text \<open>The loop over \<^verbatim>\<open>values_mut\<close>, in the order of the map.\<close>

fun interrupt_loop ::
  "('tok, 'w) token_ops \<Rightarrow> machine_time \<Rightarrow> nat \<Rightarrow> 'w \<Rightarrow> (string, ('v, 'tok) job) hash_map \<Rightarrow>
   nat \<times> 'w \<times> (string, ('v, 'tok) job) hash_map" where
  "interrupt_loop K t n w [] = (n, w, [])"
| "interrupt_loop K t n w ((k, j) # rest) =
     (let (fired, w', j') = interrupt_for_shutdown K t w j;
          (n', w'', rest') = interrupt_loop K t (if fired then n + 1 else n) w' rest
      in (n', w'', (k, j') # rest'))"

definition interrupt_all_active ::
  "('tok, 'w) token_ops \<Rightarrow> machine_time \<Rightarrow> ('v, 'tok, 'w) registry \<Rightarrow>
   nat \<times> ('v, 'tok, 'w) registry" where
  "interrupt_all_active K t g =
     (let (n, w', m) = interrupt_loop K t 0 (tokens g) (jobs g)
      in (n, g\<lparr>jobs := m, tokens := w'\<rparr>))"

subsection \<open>Transitions of one job\<close>

definition reg_job_info ::
  "('v, 'v) review_text \<Rightarrow> string \<Rightarrow> ('v, 'tok, 'w) registry \<Rightarrow> 'v job_info option" where
  "reg_job_info T k = project_job k (to_info T)"

definition reg_request_cancellation ::
  "('tok, 'w) token_ops \<Rightarrow> string \<Rightarrow> machine_time \<Rightarrow> ('v, 'tok, 'w) registry \<Rightarrow>
   machine_time option option \<times> ('v, 'tok, 'w) registry" where
  "reg_request_cancellation K k t = update_job_tokens k (request_cancellation K t)"

definition set_last_cancel ::
  "string \<Rightarrow> job_last_cancel_info \<Rightarrow> ('v, 'tok, 'w) registry \<Rightarrow> bool \<times> ('v, 'tok, 'w) registry" where
  "set_last_cancel k info g =
     answered (update_job k (\<lambda>j. ((), upd_sched (\<lambda>s. s\<lparr>last_cancel := Some info\<rparr>) j)) g)"

definition remove_staging_dir ::
  "string \<Rightarrow> ('v, 'tok, 'w) registry \<Rightarrow> string option \<times> ('v, 'tok, 'w) registry" where
  "remove_staging_dir k = remove_job k (\<lambda>j. staging_dir (filesystem j))"

record 'v job_restart_projection =
  restart_info :: "'v job_info"
  restart_job_update :: job_list_item

definition restart_job ::
  "('v, 'v) review_text \<Rightarrow> (released_command \<Rightarrow> 'v \<Rightarrow> ('e, unit) result) \<Rightarrow> ('tok, 'w) token_ops \<Rightarrow>
   string \<Rightarrow> ('v, 'tok, 'w) registry \<Rightarrow>
   ('e server_error, 'v job_restart_projection) result option \<times> ('v, 'tok, 'w) registry" where
  "restart_job T policy K k =
     update_job_tokens k
       (\<lambda>w j. case prepare_for_restart policy K w j of
           (Inl e, w', j') \<Rightarrow> (Err e, w', j')
         | (Inr _, w', j') \<Rightarrow>
             (Ok \<lparr>restart_info = to_info T j', restart_job_update = to_list_item j'\<rparr>, w', j'))"

definition reg_status_columns ::
  "string \<Rightarrow> ('v, 'tok, 'w) registry \<Rightarrow> job_status_columns option" where
  "reg_status_columns k = project_job k status_columns"

definition is_running :: "string \<Rightarrow> ('v, 'tok, 'w) registry \<Rightarrow> bool option" where
  "is_running k = project_job k (\<lambda>j. job_status_of j = JobRunning)"

definition reg_job_status :: "string \<Rightarrow> ('v, 'tok, 'w) registry \<Rightarrow> job_status option" where
  "reg_job_status k = project_job k job_status_of"

text \<open>A transition that may refuse, answering with the summary row when it was applied.\<close>

definition then_item ::
  "(('v, 'tok) job \<Rightarrow> bool \<times> ('v, 'tok) job) \<Rightarrow> ('v, 'tok) job \<Rightarrow>
   job_list_item option \<times> ('v, 'tok) job" where
  "then_item op j = (case op j of (ok, j') \<Rightarrow> (if ok then Some (to_list_item j') else None, j'))"

definition reg_requeue_after_memory_gate ::
  "string \<Rightarrow> machine_time \<Rightarrow> ('v, 'tok, 'w) registry \<Rightarrow>
   job_list_item option \<times> ('v, 'tok, 'w) registry" where
  "reg_requeue_after_memory_gate k t g =
     flatten (update_job k (then_item (requeue_after_memory_gate t)) g)"

definition mark_job_running ::
  "string \<Rightarrow> ('v, 'tok, 'w) registry \<Rightarrow> job_list_item option \<times> ('v, 'tok, 'w) registry" where
  "mark_job_running k g = flatten (update_job k (then_item mark_running) g)"

definition record_job_worker_count ::
  "string \<Rightarrow> nat \<Rightarrow> ('v, 'tok, 'w) registry \<Rightarrow> bool \<times> ('v, 'tok, 'w) registry" where
  "record_job_worker_count k n g = answered (update_job k (\<lambda>j. ((), record_worker_count n j)) g)"

definition fail_job ::
  "string \<Rightarrow> string \<Rightarrow> machine_time \<Rightarrow> ('v, 'tok, 'w) registry \<Rightarrow>
   job_list_item option \<times> ('v, 'tok, 'w) registry" where
  "fail_job k e t g = flatten (update_job k (then_item (job_fail e t)) g)"

record job_completion_snapshot =
  cancelled :: bool
  all_failed :: bool
  any_failed :: bool

definition completion_snapshot ::
  "('tok, 'w) token_ops \<Rightarrow> string \<Rightarrow> ('v, 'tok, 'w) registry \<Rightarrow> job_completion_snapshot option" where
  "completion_snapshot K k g =
     project_job k (\<lambda>j. \<lparr>cancelled = is_cancelled K (tokens g) j,
       all_failed = all_terminal_files_failed j, any_failed = any_terminal_files_failed j\<rparr>) g"

definition finalize_job ::
  "string \<Rightarrow> run_generation \<Rightarrow> job_status \<Rightarrow> machine_time \<Rightarrow> ('v, 'tok, 'w) registry \<Rightarrow>
   job_list_item option \<times> ('v, 'tok, 'w) registry" where
  "finalize_job k expected_generation final_status t g =
     flatten (update_job k
       (\<lambda>j. if run_generation_of (runtime j) \<noteq> expected_generation then (None, j)
            else (let j' = snd (finalize final_status t j) in (Some (to_list_item j'), j'))) g)"

datatype begin_runner_outcome = Started run_generation lease_record | RunnerStillLive

definition begin_runner ::
  "timestamp_range \<Rightarrow> string \<Rightarrow> string \<Rightarrow> machine_time \<Rightarrow> lease_ttl \<Rightarrow>
   ('v, 'tok, 'w) registry \<Rightarrow> begin_runner_outcome option \<times> ('v, 'tok, 'w) registry" where
  "begin_runner R k node now ttl =
     update_job k
       (\<lambda>j. if runner_active (runtime j) then (RunnerStillLive, j)
            else
              (let l = lease_taken R node now ttl;
                   j' = upd_sched (\<lambda>s. s\<lparr>lease := Some l\<rparr>)
                          (upd_runtime (\<lambda>r. r\<lparr>runner_active := True\<rparr>) j)
               in (Started (run_generation_of (runtime j')) l, j')))"

definition last_file_activity_at ::
  "string \<Rightarrow> ('v, 'tok, 'w) registry \<Rightarrow> machine_time option" where
  "last_file_activity_at k g =
     Option.bind
       (project_job k
         (\<lambda>j. max_opt (map (\<lambda>f. last_activity_at (phase f)) (files_of j) @
                [Some (submitted_at (schedule j))])) g)
       id"

definition runner_generation_current ::
  "string \<Rightarrow> run_generation \<Rightarrow> ('v, 'tok, 'w) registry \<Rightarrow> bool" where
  "runner_generation_current k gen g =
     (case project_job k (\<lambda>j. run_generation_of (runtime j) = gen) g of Some b \<Rightarrow> b | None \<Rightarrow> False)"

definition release_runner_claim ::
  "string \<Rightarrow> ('v, 'tok, 'w) registry \<Rightarrow> bool \<times> ('v, 'tok, 'w) registry" where
  "release_runner_claim k g = answered (update_job k (\<lambda>j. ((), release_local_dispatch_claim j)) g)"

definition renew_job_lease ::
  "timestamp_range \<Rightarrow> string \<Rightarrow> string \<Rightarrow> machine_time \<Rightarrow> lease_ttl \<Rightarrow>
   ('v, 'tok, 'w) registry \<Rightarrow> lease_record option \<times> ('v, 'tok, 'w) registry" where
  "renew_job_lease R k node now ttl g =
     flatten (update_job k (renew_local_dispatch_lease R node now ttl) g)"

definition runner_snapshot ::
  "string \<Rightarrow> ('v, 'tok, 'w) registry \<Rightarrow> ('v, 'tok) runner_job_snapshot option" where
  "runner_snapshot k = project_job k to_runner_snapshot"

definition reg_unfinished_files :: "string \<Rightarrow> ('v, 'tok, 'w) registry \<Rightarrow> string list" where
  "reg_unfinished_files k g = (case project_job k unfinished_files g of Some fs \<Rightarrow> fs | None \<Rightarrow> [])"

definition reg_file_status_label ::
  "string \<Rightarrow> string \<Rightarrow> ('v, 'tok, 'w) registry \<Rightarrow> string option" where
  "reg_file_status_label k fn g = Option.bind (project_job k (file_status_label fn) g) id"

subsection \<open>Transitions of one file\<close>

text \<open>A per-file transition of one job, answering with the file's update when it was applied.\<close>

definition file_update ::
  "('v, 'v) review_text \<Rightarrow> string \<Rightarrow> string \<Rightarrow> (('v, 'tok) job \<Rightarrow> bool \<times> ('v, 'tok) job) \<Rightarrow>
   ('v, 'tok, 'w) registry \<Rightarrow>
   ('v, 'tok) file_update_projection option \<times> ('v, 'tok, 'w) registry" where
  "file_update T k fn op g =
     flatten (update_job k
       (\<lambda>j. case op j of (ok, j') \<Rightarrow> (if ok then file_update_projection T j' fn else None, j')) g)"

definition reg_mark_file_processing ::
  "('v, 'v) review_text \<Rightarrow> string \<Rightarrow> string \<Rightarrow> machine_time \<Rightarrow> ('v, 'tok, 'w) registry \<Rightarrow>
   ('v, 'tok) file_update_projection option \<times> ('v, 'tok, 'w) registry" where
  "reg_mark_file_processing T k fn t = file_update T k fn (mark_file_processing fn t)"

definition reg_mark_file_done ::
  "('v, 'v) review_text \<Rightarrow> string \<Rightarrow> string \<Rightarrow> machine_time \<Rightarrow> 'v file_completion \<Rightarrow>
   ('v, 'tok, 'w) registry \<Rightarrow>
   ('v, 'tok) file_update_projection option \<times> ('v, 'tok, 'w) registry" where
  "reg_mark_file_done T k fn t c = file_update T k fn (mark_file_done fn t c)"

definition reg_mark_file_error ::
  "('v, 'v) review_text \<Rightarrow> string \<Rightarrow> string \<Rightarrow> file_failure_record \<Rightarrow> ('v, 'tok, 'w) registry \<Rightarrow>
   ('v, 'tok) file_update_projection option \<times> ('v, 'tok, 'w) registry" where
  "reg_mark_file_error T k fn r = file_update T k fn (mark_file_error fn r)"

definition reg_start_file_attempt ::
  "('v, 'v) review_text \<Rightarrow> string \<Rightarrow> string \<Rightarrow> machine_time \<Rightarrow> ('v, 'tok, 'w) registry \<Rightarrow>
   ('v, 'tok) file_update_projection option \<times> ('v, 'tok, 'w) registry" where
  "reg_start_file_attempt T k fn t = file_update T k fn (start_file_attempt fn t)"

definition reg_mark_file_retry_pending ::
  "('v, 'v) review_text \<Rightarrow> string \<Rightarrow> string \<Rightarrow> file_retry_record \<Rightarrow> ('v, 'tok, 'w) registry \<Rightarrow>
   ('v, 'tok) file_update_projection option \<times> ('v, 'tok, 'w) registry" where
  "reg_mark_file_retry_pending T k fn r = file_update T k fn (mark_file_retry_pending fn r)"

definition reg_clear_file_retry_state ::
  "string \<Rightarrow> string \<Rightarrow> ('v, 'tok, 'w) registry \<Rightarrow> bool \<times> ('v, 'tok, 'w) registry" where
  "reg_clear_file_retry_state k fn g = answered (update_job k (clear_file_retry_state fn) g)"

definition reg_set_file_worker_wait ::
  "('v, 'v) review_text \<Rightarrow> string \<Rightarrow> string \<Rightarrow> worker_wait_change \<Rightarrow> ('v, 'tok, 'w) registry \<Rightarrow>
   ('v, 'tok) file_update_projection option \<times> ('v, 'tok, 'w) registry" where
  "reg_set_file_worker_wait T k fn ch = file_update T k fn (set_file_worker_wait fn ch)"

definition reg_set_file_progress ::
  "('v, 'v) review_text \<Rightarrow> string \<Rightarrow> string \<Rightarrow> file_progress_record \<Rightarrow> ('v, 'tok, 'w) registry \<Rightarrow>
   ('v, 'tok) file_update_projection option \<times> ('v, 'tok, 'w) registry" where
  "reg_set_file_progress T k fn p = file_update T k fn (set_file_progress fn p)"

definition attach_attempt_id ::
  "string \<Rightarrow> string \<Rightarrow> string \<Rightarrow> ('v, 'tok, 'w) registry \<Rightarrow> bool \<times> ('v, 'tok, 'w) registry" where
  "attach_attempt_id k fn attempt_id g =
     (case update_job k (with_file fn (\<lambda>f. f\<lparr>current_attempt_id := Some attempt_id\<rparr>)) g of
        (Some b, g') \<Rightarrow> (b, g')
      | (None, g') \<Rightarrow> (False, g'))"

definition take_attempt_id ::
  "string \<Rightarrow> string \<Rightarrow> ('v, 'tok, 'w) registry \<Rightarrow> string option \<times> ('v, 'tok, 'w) registry" where
  "take_attempt_id k fn g =
     flatten (update_job k
       (\<lambda>j. (Option.bind (file_of j fn) current_attempt_id,
             snd (with_file fn (\<lambda>f. f\<lparr>current_attempt_id := None\<rparr>) j))) g)"

subsection \<open>Claims of queued jobs\<close>

record claimed_queue_poll =
  ready_job_ids :: "string list"
  next_wake_at :: "machine_time option"
  claimed_leases :: "(string \<times> lease_record) list"

definition min_opt :: "machine_time list \<Rightarrow> machine_time option" where
  "min_opt ts = (case ts of [] \<Rightarrow> None | x # xs \<Rightarrow> Some (fold min xs x))"

fun claim_loop ::
  "timestamp_range \<Rightarrow> string \<Rightarrow> machine_time \<Rightarrow> lease_ttl \<Rightarrow> string list \<Rightarrow>
   (string, ('v, 'tok) job) hash_map \<Rightarrow>
   (string \<times> lease_record) list \<times> (string, ('v, 'tok) job) hash_map" where
  "claim_loop R node now ttl [] m = ([], m)"
| "claim_loop R node now ttl (k # ks) m =
     (case hm_get m k of
        None \<Rightarrow> claim_loop R node now ttl ks m
      | Some j \<Rightarrow>
          (let (granted, j') = claim_for_local_dispatch R node now ttl j;
               (ls, m') = claim_loop R node now ttl ks (hm_modify k (\<lambda>_. j') m)
           in (case granted of Some l \<Rightarrow> (k, l) # ls | None \<Rightarrow> ls, m')))"

definition claim_ready_queued_jobs ::
  "timestamp_range \<Rightarrow> machine_time \<Rightarrow> string \<Rightarrow> lease_ttl \<Rightarrow> ('v, 'tok, 'w) registry \<Rightarrow>
   claimed_queue_poll \<times> ('v, 'tok, 'w) registry" where
  "claim_ready_queued_jobs R now node ttl g =
     (let ready = map (\<lambda>j. (submitted_at (schedule j), job_id (identity j)))
                    (filter (ready_for_local_dispatch now) (hm_values (jobs g)));
          ids = map snd (sort_key fst ready);
          (ls, m) = claim_loop R node now ttl ids (jobs g);
          wakes = List.map_filter (next_local_dispatch_wake_at now)
                    (filter (\<lambda>j. job_status_of j = JobQueued \<and> \<not> runner_active (runtime j))
                      (hm_values m))
      in (\<lparr>ready_job_ids = ids, next_wake_at = min_opt wakes, claimed_leases = ls\<rparr>,
          g\<lparr>jobs := m\<rparr>))"

subsection \<open>Operations on one job touch no other\<close>

text \<open>
  The contract of every operation on the job with one identifier: no other entry changes, nothing
  changes when there is no such job, and the keys of the map stay distinct.
\<close>

locale job_local =
  fixes op :: "('v, 'tok, 'w) registry \<Rightarrow> 'r \<times> ('v, 'tok, 'w) registry"
    and k :: string
  assumes others: "k' \<noteq> k \<Longrightarrow> hm_get (jobs (snd (op g))) k' = hm_get (jobs g) k'"
    and absent: "hm_get (jobs g) k = None \<Longrightarrow> snd (op g) = g"
    and keys: "hm_wf (jobs g) \<Longrightarrow> hm_wf (jobs (snd (op g)))"
begin

lemma others_run: "k' \<noteq> k \<Longrightarrow> project_job k' f (snd (op g)) = project_job k' f g"
  by (simp add: project_job_def others)

end

lemma flatten_snd [simp]: "snd (flatten a) = snd a"
  by (simp add: flatten_def)

lemma answered_snd [simp]: "snd (answered a) = snd a"
  by (simp add: answered_def)

interpretation upd_tokens: job_local "update_job_tokens k f" k for k f
  by unfold_locales (auto simp: update_job_tokens_def hm_simps split: option.splits prod.splits)

interpretation upd: job_local "update_job k f" k for k f
  unfolding update_job_def by (rule upd_tokens.job_local_axioms)

interpretation removal: job_local "remove_job k f" k for k f
  by unfold_locales (auto simp: remove_job_def hm_simps split: option.splits)

text \<open>The transition of the job itself, and how it shows in the registry.\<close>

lemma get_update_job_tokens:
  "hm_get (jobs (snd (update_job_tokens k f g))) k =
     map_option (\<lambda>j. snd (snd (f (tokens g) j))) (hm_get (jobs g) k)"
  by (auto simp: update_job_tokens_def hm_simps split: option.splits prod.splits)

lemma get_update_job:
  "hm_get (jobs (snd (update_job k f g))) k = map_option (\<lambda>j. snd (f j)) (hm_get (jobs g) k)"
  by (auto simp: update_job_def get_update_job_tokens case_prod_beta intro!: option.map_cong)

text \<open>
  The registry's own vocabulary of state changes: which operation, on which job.
\<close>

datatype 'v reg_op =
    RCancel machine_time
  | RLastCancel job_last_cancel_info
  | RRemove
  | RRestart
  | RMemoryRequeue machine_time
  | RRunning
  | RWorkerCount nat
  | RFail string machine_time
  | RFinalize run_generation job_status machine_time
  | RBegin string machine_time lease_ttl
  | RRelease
  | RRenew string machine_time lease_ttl
  | RFileProcessing string machine_time
  | RFileDone string machine_time "'v file_completion"
  | RFileError string file_failure_record
  | RFileStart string machine_time
  | RFileRetry string file_retry_record
  | RFileClearRetry string
  | RFileWait string worker_wait_change
  | RFileProgress string file_progress_record
  | RAttach string string
  | RTake string

fun run_reg_op ::
  "('v, 'v) review_text \<Rightarrow> (released_command \<Rightarrow> 'v \<Rightarrow> ('e, unit) result) \<Rightarrow>
   ('tok, 'w) token_ops \<Rightarrow> timestamp_range \<Rightarrow> string \<Rightarrow> 'v reg_op \<Rightarrow> ('v, 'tok, 'w) registry \<Rightarrow> ('v, 'tok, 'w) registry" where
  "run_reg_op T P K R k (RCancel t) g = snd (reg_request_cancellation K k t g)"
| "run_reg_op T P K R k (RLastCancel i) g = snd (set_last_cancel k i g)"
| "run_reg_op T P K R k RRemove g = snd (remove_staging_dir k g)"
| "run_reg_op T P K R k RRestart g = snd (restart_job T P K k g)"
| "run_reg_op T P K R k (RMemoryRequeue t) g = snd (reg_requeue_after_memory_gate k t g)"
| "run_reg_op T P K R k RRunning g = snd (mark_job_running k g)"
| "run_reg_op T P K R k (RWorkerCount n) g = snd (record_job_worker_count k n g)"
| "run_reg_op T P K R k (RFail e t) g = snd (fail_job k e t g)"
| "run_reg_op T P K R k (RFinalize gen st t) g = snd (finalize_job k gen st t g)"
| "run_reg_op T P K R k (RBegin node t ttl) g = snd (begin_runner R k node t ttl g)"
| "run_reg_op T P K R k RRelease g = snd (release_runner_claim k g)"
| "run_reg_op T P K R k (RRenew node t ttl) g = snd (renew_job_lease R k node t ttl g)"
| "run_reg_op T P K R k (RFileProcessing fn t) g = snd (reg_mark_file_processing T k fn t g)"
| "run_reg_op T P K R k (RFileDone fn t c) g = snd (reg_mark_file_done T k fn t c g)"
| "run_reg_op T P K R k (RFileError fn r) g = snd (reg_mark_file_error T k fn r g)"
| "run_reg_op T P K R k (RFileStart fn t) g = snd (reg_start_file_attempt T k fn t g)"
| "run_reg_op T P K R k (RFileRetry fn r) g = snd (reg_mark_file_retry_pending T k fn r g)"
| "run_reg_op T P K R k (RFileClearRetry fn) g = snd (reg_clear_file_retry_state k fn g)"
| "run_reg_op T P K R k (RFileWait fn c) g = snd (reg_set_file_worker_wait T k fn c g)"
| "run_reg_op T P K R k (RFileProgress fn p) g = snd (reg_set_file_progress T k fn p g)"
| "run_reg_op T P K R k (RAttach fn a) g = snd (attach_attempt_id k fn a g)"
| "run_reg_op T P K R k (RTake fn) g = snd (take_attempt_id k fn g)"

lemma attach_snd:
  "snd (attach_attempt_id k fn a g) =
     snd (update_job k (with_file fn (\<lambda>f. f\<lparr>current_attempt_id := Some a\<rparr>)) g)"
  by (auto simp: attach_attempt_id_def split: prod.splits option.splits)

lemmas reg_defs =
  reg_request_cancellation_def set_last_cancel_def remove_staging_dir_def restart_job_def
  reg_requeue_after_memory_gate_def mark_job_running_def record_job_worker_count_def fail_job_def
  finalize_job_def begin_runner_def release_runner_claim_def renew_job_lease_def file_update_def
  reg_mark_file_processing_def reg_mark_file_done_def reg_mark_file_error_def
  reg_start_file_attempt_def reg_mark_file_retry_pending_def reg_clear_file_retry_state_def
  reg_set_file_worker_wait_def reg_set_file_progress_def attach_snd take_attempt_id_def

interpretation reg_ops: job_local "\<lambda>g. ((), run_reg_op T P K R k x g)" k for T P K R k x
proof unfold_locales
  fix g :: "('a, 'b, 'c) registry" and k'
  show "k' \<noteq> k \<Longrightarrow> hm_get (jobs (snd ((), run_reg_op T P K R k x g))) k' = hm_get (jobs g) k'"
    by (cases x) (simp_all add: reg_defs upd.others upd_tokens.others removal.others)
  show "hm_get (jobs g) k = None \<Longrightarrow> snd ((), run_reg_op T P K R k x g) = g"
    by (cases x) (simp_all add: reg_defs upd.absent upd_tokens.absent removal.absent)
  show "hm_wf (jobs g) \<Longrightarrow> hm_wf (jobs (snd ((), run_reg_op T P K R k x g)))"
    by (cases x) (simp_all add: reg_defs upd.keys upd_tokens.keys removal.keys)
qed

text \<open>
  The messages the actor is sent: an operation on one job, a submission, a claim of the whole queue
  and the shutdown. The actor runs them one after the other.
\<close>

datatype ('v, 'tok) registry_op =
    OnJob string "'v reg_op"
  | Submit "('v, 'tok) job"
  | ClaimReady machine_time string lease_ttl
  | InterruptAll machine_time

fun run_registry_op ::
  "('v, 'v) review_text \<Rightarrow> (released_command \<Rightarrow> 'v \<Rightarrow> ('e, unit) result) \<Rightarrow> ('tok, 'w) token_ops \<Rightarrow>
   timestamp_range \<Rightarrow> (string list \<Rightarrow> string) \<Rightarrow> ('v, 'tok) registry_op \<Rightarrow>
   ('v, 'tok, 'w) registry \<Rightarrow> ('v, 'tok, 'w) registry" where
  "run_registry_op T P K R dn (OnJob k x) g = run_reg_op T P K R k x g"
| "run_registry_op T P K R dn (Submit j) g = snd (insert_checked dn j g)"
| "run_registry_op T P K R dn (ClaimReady now node ttl) g = snd (claim_ready_queued_jobs R now node ttl g)"
| "run_registry_op T P K R dn (InterruptAll t) g = snd (interrupt_all_active K t g)"

text \<open>
  Which messages leave a claim of the job \<open>k\<close> standing: not its release, its removal, a submission
  under the same identifier or a shutdown, which takes every active job from its runner.
\<close>

fun keeps_claim :: "string \<Rightarrow> ('v, 'tok) registry_op \<Rightarrow> bool" where
  "keeps_claim k (OnJob k' x) \<longleftrightarrow> k' \<noteq> k \<or> x \<noteq> RRelease \<and> x \<noteq> RRemove"
| "keeps_claim k (Submit j) \<longleftrightarrow> job_id (identity j) \<noteq> k"
| "keeps_claim k (ClaimReady now node ttl) \<longleftrightarrow> True"
| "keeps_claim k (InterruptAll t) \<longleftrightarrow> False"

lemma claim_loop_rel:
  assumes refl: "\<And>j. Q j j" and trans: "\<And>a b c. Q a b \<Longrightarrow> Q b c \<Longrightarrow> Q a c"
    and claim: "\<And>j. Q j (snd (claim_for_local_dispatch R node now ttl j))"
  shows "rel_option Q (hm_get m k) (hm_get (snd (claim_loop R node now ttl ks m)) k)"
proof (induction ks arbitrary: m)
  case Nil
  show ?case by (simp add: option.rel_refl refl)
next
  case (Cons a ks)
  show ?case
  proof (cases "hm_get m a")
    case None
    with Cons.IH show ?thesis by simp
  next
    case (Some j)
    let ?m = "hm_modify a (\<lambda>_. snd (claim_for_local_dispatch R node now ttl j)) m"
    have "snd (claim_loop R node now ttl (a # ks) m) = snd (claim_loop R node now ttl ks ?m)"
      using Some by (simp add: case_prod_beta)
    moreover have "rel_option Q (hm_get m k) (hm_get ?m k)"
      using Some claim refl by (cases "hm_get m k") (auto simp: hm_get_modify)
    ultimately show ?thesis using Cons.IH [of ?m]
      by (cases "hm_get m k"; cases "hm_get ?m k") (auto simp: option_rel_Some1 intro: trans)
  qed
qed

lemma claim_ready_rel:
  assumes "\<And>j. Q j j" and "\<And>a b c. Q a b \<Longrightarrow> Q b c \<Longrightarrow> Q a c"
    and "\<And>j. Q j (snd (claim_for_local_dispatch R node now ttl j))"
  shows "rel_option Q (hm_get (jobs g) k) (hm_get (jobs (snd (claim_ready_queued_jobs R now node ttl g))) k)"
  using claim_loop_rel [of Q, OF assms]
  by (simp add: claim_ready_queued_jobs_def Let_def case_prod_beta)

text \<open>
  Jobs are isolated: any sequence of registry operations on other jobs (their cancellation,
  removal, restart, dispatch, finalisation, claims, leases, file updates) leaves a job's entry as it is,
  and an operation on an unknown job changes nothing at all.
\<close>

theorem registry_isolation:
  assumes "list_all (\<lambda>(k', x). k' \<noteq> k) ops"
  shows "hm_get (jobs (fold (\<lambda>(k', x). run_reg_op T P K R k' x) ops g)) k = hm_get (jobs g) k \<and>
    (hm_get (jobs g) unknown = None \<longrightarrow> run_reg_op T P K R unknown x g = g)"
proof -
  have "hm_get (jobs (fold (\<lambda>(k', x). run_reg_op T P K R k' x) ops g)) k = hm_get (jobs g) k"
    using assms
  proof (induction ops arbitrary: g)
    case (Cons y ops)
    obtain k' x' where y: "y = (k', x')" by fastforce
    with Cons.prems have "k \<noteq> k'" by auto
    then have "hm_get (jobs (run_reg_op T P K R k' x' g)) k = hm_get (jobs g) k"
      using reg_ops.others by simp
    with Cons y show ?case by simp
  qed simp
  with reg_ops.absent [of g unknown T P K R x] show ?thesis by simp
qed

text \<open>A registry with one job, for the examples.\<close>

definition one_job :: "('v, nat) job \<Rightarrow> ('v, nat, nat list) registry" where
  "one_job j = \<lparr>jobs = [(job_id (identity j), j)], tokens = []\<rparr>"

definition plain_text :: "(unit, unit) review_text" where
  "plain_text = \<lparr>diag_summary = (\<lambda>_. []), diag_lines = (\<lambda>_. []), excl_phrase = (\<lambda>_. []),
     excl_display = (\<lambda>_. []), excl_details = (\<lambda>_. [])\<rparr>"

definition accept_all :: "released_command \<Rightarrow> unit \<Rightarrow> (unit, unit) result" where
  "accept_all c v = Ok ()"

theorem registry_isolation_witness:
  "hm_get (jobs (fold (\<lambda>(k', x). run_reg_op plain_text accept_all list_tokens jiff_like k' x)
      [(''j2'', RRemove), (''j3'', RCancel 4)]
      (one_job (sample_job JobRunning (mixed_files :: (string, (unit, unit) file_status) hash_map) ()))))
    ''j1'' = Some (sample_job JobRunning mixed_files ())"
  using registry_isolation [of "''j1''" "[(''j2'', RRemove), (''j3'', RCancel 4)]" plain_text accept_all
      list_tokens jiff_like "one_job (sample_job JobRunning mixed_files ())"]
  by (simp add: one_job_def sample_job_def hm_get_def)

subsection \<open>Stale runners and runner claims\<close>

lemma hm_modify_same: "hm_get m k = Some v \<Longrightarrow> hm_modify k (\<lambda>_. v) m = m"
  by (induction m) (auto simp: hm_get_def hm_modify_def split: if_splits)

lemma finalize_job_stale:
  assumes "hm_get (jobs g) k = Some j" and "run_generation_of (runtime j) \<noteq> gen"
  shows "finalize_job k gen st t g = (None, g)"
  using assms
  by (simp add: finalize_job_def update_job_def update_job_tokens_def flatten_def hm_modify_same)

lemma restart_generation:
  "prepare_for_restart policy K w j = (Ok (), w', j') \<Longrightarrow>
     run_generation_of (runtime j') = run_generation_of (runtime j) + 1"
  by (auto simp: prepare_for_restart_def Let_def set_status_def upd_defs clear_lease_def
      generation_next_def split: sum.splits if_splits prod.splits)

lemma restart_job_Ok:
  assumes "restart_job T policy K k g = (Some (Ok p), g')" and "hm_get (jobs g) k = Some j"
  obtains w' j' where "prepare_for_restart policy K (tokens g) j = (Ok (), w', j')"
    and "hm_get (jobs g') k = Some j'"
proof -
  obtain r w' j' where p: "prepare_for_restart policy K (tokens g) j = (r, w', j')"
    by (metis prod_cases3)
  with assms have "r = Ok ()"
    by (auto simp: restart_job_def update_job_tokens_def split: sum.splits)
  moreover from assms(1) have "g' = snd (restart_job T policy K k g)" by simp
  then have "hm_get (jobs g') k = Some j'"
    using assms(2) p by (simp add: restart_job_def get_update_job_tokens split: sum.splits)
  ultimately show ?thesis using p that by blast
qed

text \<open>
  C2. A stale runner cannot end a restarted job: once a restart is accepted, a finalisation under
  the generation the job had before is refused without any change, whatever status it carries,
  and the old generation is no longer current.
\<close>

theorem stale_runner_cannot_finalize:
  assumes "hm_get (jobs g) k = Some j" and "restart_job T policy K k g = (Some (Ok p), g')"
  shows "finalize_job k (run_generation_of (runtime j)) st t g' = (None, g') \<and>
    \<not> runner_generation_current k (run_generation_of (runtime j)) g'"
proof -
  obtain w' j' where p: "prepare_for_restart policy K (tokens g) j = (Ok (), w', j')"
    and get: "hm_get (jobs g') k = Some j'"
    using restart_job_Ok [OF assms(2,1)] by blast
  from restart_generation [OF p] have "run_generation_of (runtime j') \<noteq> run_generation_of (runtime j)"
    by simp
  with finalize_job_stale [OF get] get show ?thesis
    by (simp add: runner_generation_current_def project_job_def)
qed

theorem stale_runner_cannot_finalize_witness:
  "let g = one_job (sample_job JobCancelled (mixed_files :: (string, (unit, unit) file_status) hash_map) ());
       g' = snd (restart_job plain_text (\<lambda>_ _. Ok () :: (unit, unit) result) list_tokens ''j1'' g)
   in finalize_job ''j1'' generation_first JobFailed 9 g' = (None, g')"
proof -
  let ?j = "sample_job JobCancelled (mixed_files :: (string, (unit, unit) file_status) hash_map) ()"
  let ?g = "one_job ?j"
  have get: "hm_get (jobs ?g) ''j1'' = Some ?j"
    by (simp add: one_job_def hm_get_def sample_job_def)
  obtain r g' where r: "restart_job plain_text (\<lambda>_ _. Ok () :: (unit, unit) result) list_tokens ''j1'' ?g = (r, g')"
    by fastforce
  have "can_restart (job_status_of ?j)" by (simp add: sample_job_def)
  with r get have "\<exists>p. r = Some (Ok p)"
    by (auto simp: restart_job_def update_job_tokens_def prepare_for_restart_def Let_def
        split: prod.splits)
  then obtain p where "r = Some (Ok p)" by blast
  with stale_runner_cannot_finalize [OF get, of plain_text "\<lambda>_ _. Ok () :: (unit, unit) result"
      list_tokens p g'] r
  show ?thesis by (simp add: sample_job_def Let_def)
qed

text \<open>Which transitions keep a runner's claim.\<close>

lemma job_frame_runtime: "job_frame j j' \<Longrightarrow> runtime j' = runtime j"
  by (auto simp: job_frame_def)

lemma file_ops_runtime:
  "runtime (snd (with_file fn g j)) = runtime j"
  "runtime (snd (mark_file_done fn t c j)) = runtime j"
  "runtime (snd (mark_file_error fn r j)) = runtime j"
  "runtime (snd (set_file_progress fn p j)) = runtime j"
  by (rule job_frame_runtime, rule via_with_file.frame completing.frame erring.frame progressing.frame)+

lemmas file_via_with_file =
  mark_file_processing_def start_file_attempt_def mark_file_retry_pending_def
  clear_file_retry_state_def set_file_worker_wait_def

lemma status_ops_runtime:
  "runtime (snd (mark_running j)) = runtime j"
  "runtime (snd (requeue_after_memory_gate t j)) = runtime j"
  "runtime (snd (job_fail e t j)) = runtime j"
  "runtime (snd (job_stop s t j)) = runtime j"
  "runtime (snd (finalize st t j)) = runtime j"
  "runtime (record_worker_count n j) = runtime j"
  "runtime (snd (renew_local_dispatch_lease R node t ttl j)) = runtime j"
  by (auto simp: mark_running_def requeue_after_memory_gate_def job_fail_def job_stop_cases
      finalize_cases Let_def set_status_def upd_defs adopt_status_columns_def
      set_failure_reason_from_files_def record_worker_count_def renew_local_dispatch_lease_def
      split: option.splits)

lemma restart_keeps_claim:
  "runner_active (runtime (snd (snd (prepare_for_restart P K w j)))) = runner_active (runtime j)"
  by (auto simp: prepare_for_restart_def Let_def set_status_def upd_defs clear_lease_def
      split: sum.splits prod.splits)

definition claimed :: "string \<Rightarrow> ('v, 'tok, 'w) registry \<Rightarrow> bool" where
  "claimed k g \<longleftrightarrow> (\<exists>j. hm_get (jobs g) k = Some j \<and> runner_active (runtime j))"

lemma claimed_update:
  assumes "claimed k g" and "\<And>w j. runner_active (runtime j) \<Longrightarrow> runner_active (runtime (snd (snd (f w j))))"
  shows "claimed k (snd (update_job_tokens k f g))"
  using assms by (auto simp: claimed_def get_update_job_tokens)

lemma claim_kept:
  assumes "claimed k g" and "k' = k \<Longrightarrow> x \<noteq> RRelease \<and> x \<noteq> RRemove"
  shows "claimed k (run_reg_op T P K R k' x g)"
proof (cases "k' = k")
  case False
  then have "hm_get (jobs (run_reg_op T P K R k' x g)) k = hm_get (jobs g) k"
    using reg_ops.others [of k k' T P K R x g] by simp
  with assms(1) show ?thesis by (simp add: claimed_def)
next
  case True
  from assms True show ?thesis
    by (cases x)
      (auto simp: reg_defs update_job_def case_prod_beta then_item_def file_ops_runtime status_ops_runtime
        file_via_with_file request_cancellation_def Let_def upd_defs
        restart_keeps_claim split: sum.splits intro!: claimed_update)
qed

lemma claim_kept_by:
  assumes "claimed k g" and "keeps_claim k x"
  shows "claimed k (run_registry_op T P K R dn x g)"
proof (cases x)
  case (OnJob k' y)
  with assms claim_kept [of k g k' y] show ?thesis by auto
next
  case (Submit j)
  with assms show ?thesis
    by (auto simp: claimed_def insert_checked_def Let_def hm_get_insert)
next
  case (ClaimReady now node ttl)
  have "rel_option (\<lambda>j j'. runner_active (runtime j) \<longrightarrow> runner_active (runtime j'))
      (hm_get (jobs g) k) (hm_get (jobs (snd (claim_ready_queued_jobs R now node ttl g))) k)"
    by (rule claim_ready_rel) (auto simp: claim_for_local_dispatch_def Let_def upd_defs)
  with assms ClaimReady show ?thesis by (auto simp: claimed_def option_rel_Some1)
next
  case (InterruptAll t)
  with assms show ?thesis by simp
qed

text \<open>
  C3. At most one runner owns a job: once a claim has been granted, every later claim of the job
  is answered that a runner is still live and changes nothing, and a claim of the whole queue
  passes it over, through any sequence of messages to the registry (operations on this and on
  other jobs, restarts included, submissions of other jobs, claims of the queue), until the claim
  is released, the job removed or replaced, or the server shut down. The granted claim names the
  job's current generation and the lease it took.
\<close>

theorem runner_claim_exclusive:
  assumes "begin_runner R k node now ttl g = (Some (Started gen l), g1)"
    and "list_all (keeps_claim k) ops"
  shows "let g2 = fold (run_registry_op T P K R dn) ops g1
    in begin_runner R k node2 now2 ttl2 g2 = (Some RunnerStillLive, g2) \<and>
       project_job k (ready_for_local_dispatch now2) g2 = Some False \<and>
       runner_generation_current k gen g1 \<and> l = lease_taken R node now ttl \<and>
       project_job k (\<lambda>j. lease (schedule j)) g1 = Some (Some l)"
proof -
  let ?g2 = "fold (run_registry_op T P K R dn) ops g1"
  from assms(1) have first: "claimed k g1" and cur: "runner_generation_current k gen g1"
    and l: "l = lease_taken R node now ttl"
    and held: "project_job k (\<lambda>j. lease (schedule j)) g1 = Some (Some l)"
    by (auto simp: begin_runner_def update_job_def update_job_tokens_def claimed_def hm_simps upd_defs
        Let_def runner_generation_current_def project_job_def split: option.splits if_splits)
  have claim: "claimed k ?g2"
    using first assms(2)
  proof (induction ops arbitrary: g1)
    case (Cons x ops)
    from Cons.prems have "claimed k (run_registry_op T P K R dn x g1)" by (simp add: claim_kept_by)
    from Cons.IH [OF this] Cons.prems(2) show ?case by simp
  qed simp
  then have "begin_runner R k node2 now2 ttl2 ?g2 = (Some RunnerStillLive, ?g2)"
    by (auto simp: claimed_def begin_runner_def update_job_def update_job_tokens_def hm_modify_same)
  moreover from claim have "project_job k (ready_for_local_dispatch now2) ?g2 = Some False"
    by (auto simp: claimed_def project_job_def ready_for_local_dispatch_def)
  ultimately show ?thesis using cur l held by (simp add: Let_def)
qed

theorem runner_claim_exclusive_witness:
  "let g = one_job (sample_job JobQueued (mixed_files :: (string, (unit, unit) file_status) hash_map) ());
       g1 = snd (begin_runner jiff_like ''j1'' ''n1'' 0 lease_ttl_default g);
       g2 = fold (run_registry_op plain_text accept_all list_tokens jiff_like concat)
              [OnJob ''j1'' (RCancel 3), OnJob ''j1'' RRestart, ClaimReady 4 ''n3'' lease_ttl_default] g1
   in fst (begin_runner jiff_like ''j1'' ''n2'' 5 lease_ttl_default g2) = Some RunnerStillLive"
proof -
  let ?g = "one_job (sample_job JobQueued (mixed_files :: (string, (unit, unit) file_status) hash_map) ())"
  have "fst (begin_runner jiff_like ''j1'' ''n1'' 0 lease_ttl_default ?g) =
      Some (Started generation_first (lease_taken jiff_like ''n1'' 0 lease_ttl_default))"
    by (simp add: begin_runner_def update_job_def update_job_tokens_def one_job_def hm_get_def
        sample_job_def Let_def upd_defs)
  then obtain g1 where "begin_runner jiff_like ''j1'' ''n1'' 0 lease_ttl_default ?g =
      (Some (Started generation_first (lease_taken jiff_like ''n1'' 0 lease_ttl_default)), g1)"
    by (metis prod.collapse)
  from runner_claim_exclusive [OF this, of
      "[OnJob ''j1'' (RCancel 3), OnJob ''j1'' RRestart, ClaimReady 4 ''n3'' lease_ttl_default]" plain_text
      accept_all list_tokens concat "''n2''" 5 lease_ttl_default] this
  show ?thesis by (simp add: Let_def)
qed

subsection \<open>Shutdown\<close>

lemma interrupt_active:
  "fst (interrupt_for_shutdown K t w j) = is_active (job_status_of j)"
  "\<not> is_active (job_status_of (snd (snd (interrupt_for_shutdown K t w j))))"
  "is_active (job_status_of j) \<Longrightarrow>
     job_status_of (snd (snd (interrupt_for_shutdown K t w j))) = JobInterrupted"
  "\<not> is_active (job_status_of j) \<Longrightarrow> snd (snd (interrupt_for_shutdown K t w j)) = j"
  by (auto simp: interrupt_for_shutdown_def Let_def job_stop_cases can_cancel_def
      adopt_status_columns_def stopped_def clear_lease_def upd_defs)

lemma interrupt_job_independent:
  "snd (snd (interrupt_for_shutdown K t w j)) = snd (snd (interrupt_for_shutdown K t w' j))"
  by (auto simp: interrupt_for_shutdown_def Let_def split: prod.splits bool.splits)

lemma interrupt_loop_effect:
  "case interrupt_loop K t n w m of (n', w', m') \<Rightarrow>
     n' = n + length (filter (\<lambda>j. is_active (job_status_of j)) (hm_values m)) \<and>
     m' = hm_map_values (\<lambda>j. snd (snd (interrupt_for_shutdown K t w j))) m"
proof (induction K t n w m rule: interrupt_loop.induct)
  case (1 K t n w)
  show ?case by (simp add: hm_map_values_def hm_values_def)
next
  case (2 K t n w k j rest)
  obtain fired w' j' where i: "interrupt_for_shutdown K t w j = (fired, w', j')"
    by (metis prod_cases3)
  have fired: "fired = is_active (job_status_of j)"
    using interrupt_active(1) [of K t w j] i by simp
  from "2.IH" [OF i [symmetric] refl] i fired
    interrupt_job_independent [of K t w' _ w]
  show ?case
    by (auto simp: hm_map_values_def hm_values_def split: prod.splits)
qed

text \<open>
  A graceful shutdown interrupts exactly the active jobs: the answer counts them, each becomes
  interrupted (so that recovery resumes it), every other job is untouched, no job is active
  afterwards and the keys of the registry are the same.
\<close>

theorem shutdown_effect:
  "case interrupt_all_active K t g of (n, g') \<Rightarrow>
     n = length (filter (\<lambda>j. is_active (job_status_of j)) (hm_values (jobs g))) \<and>
     list_all (\<lambda>j. \<not> is_active (job_status_of j)) (hm_values (jobs g')) \<and>
     map fst (jobs g') = map fst (jobs g) \<and>
     (\<forall>k. case (hm_get (jobs g) k, hm_get (jobs g') k) of
        (None, None) \<Rightarrow> True
      | (Some j, Some j') \<Rightarrow>
          if is_active (job_status_of j) then job_status_of j' = JobInterrupted else j' = j
      | _ \<Rightarrow> False)"
proof -
  obtain n w' m where loop: "interrupt_loop K t 0 (tokens g) (jobs g) = (n, w', m)"
    by (metis prod_cases3)
  from interrupt_loop_effect [where K = K and t = t and n = 0 and w = "tokens g" and m = "jobs g"] loop
  have n: "n = length (filter (\<lambda>j. is_active (job_status_of j)) (hm_values (jobs g)))"
    and m: "m = hm_map_values (\<lambda>j. snd (snd (interrupt_for_shutdown K t (tokens g) j))) (jobs g)"
    by simp_all
  have "map fst m = map fst (jobs g)"
    by (auto simp: m hm_map_values_def)
  with loop n m show ?thesis
    by (auto simp: interrupt_all_active_def hm_values_map_values hm_get_map_values list_all_iff
        interrupt_active split: option.splits)
qed

text \<open>
  The job list: exactly the summary rows of the jobs in the registry, each once, newest
  submission first.
\<close>

theorem list_items_newest_first:
  "mset (list_items g) = image_mset to_list_item (mset (hm_values (jobs g))) \<and>
   sorted_wrt (\<lambda>a b. item_submitted_at a \<ge> item_submitted_at b) (list_items g)"
proof -
  have "sorted (map (\<lambda>i. - item_submitted_at i) (list_items g))"
    by (simp add: list_items_def)
  then show ?thesis
    by (simp add: list_items_def sorted_map)
qed

subsection \<open>Active jobs share no file\<close>

text \<open>
  Two active jobs under different identifiers never hold the same path for the same submitter
  address, which is what conflict detection is for.
\<close>

definition share_file :: "('v, 'tok) job \<Rightarrow> ('v, 'tok) job \<Rightarrow> bool" where
  "share_file a b \<longleftrightarrow>
     (\<exists>fn \<in> set (filenames (filesystem a)). \<exists>fn' \<in> set (filenames (filesystem b)).
        conflict_key a fn = conflict_key b fn')"

definition conflict_free :: "(string, ('v, 'tok) job) hash_map \<Rightarrow> bool" where
  "conflict_free m \<longleftrightarrow>
     (\<forall>k1 k2 a b. k1 \<noteq> k2 \<longrightarrow> hm_get m k1 = Some a \<longrightarrow> hm_get m k2 = Some b \<longrightarrow>
        is_active (job_status_of a) \<longrightarrow> is_active (job_status_of b) \<longrightarrow> \<not> share_file a b)"

lemma conflict_freeD:
  "\<lbrakk>conflict_free m; k1 \<noteq> k2; hm_get m k1 = Some a; hm_get m k2 = Some b;
    is_active (job_status_of a); is_active (job_status_of b)\<rbrakk> \<Longrightarrow> \<not> share_file a b"
  unfolding conflict_free_def by blast

lemma share_file_sym: "share_file a b = share_file b a"
  by (auto simp: share_file_def) metis+

text \<open>A transition that keeps what identifies the job and does not make it active again.\<close>

definition tame :: "('v, 'tok) job \<Rightarrow> ('v, 'tok) job \<Rightarrow> bool" where
  "tame j j' \<longleftrightarrow>
     source j' = source j \<and> filesystem j' = filesystem j \<and>
     (is_active (job_status_of j') \<longrightarrow> is_active (job_status_of j))"

lemma tame_share:
  "tame a a' \<Longrightarrow> share_file a' b = share_file a b"
  "tame b b' \<Longrightarrow> share_file a b' = share_file a b"
  by (simp_all add: tame_def share_file_def conflict_key_def conflict_path_def)

lemma conflict_free_tame:
  assumes "conflict_free m" and "\<And>k j'. hm_get m' k = Some j' \<Longrightarrow> \<exists>j. hm_get m k = Some j \<and> tame j j'"
  shows "conflict_free m'"
  unfolding conflict_free_def
proof (intro allI impI)
  fix k1 k2 a b
  assume ne: "k1 \<noteq> k2" and get: "hm_get m' k1 = Some a" "hm_get m' k2 = Some b"
    and act: "is_active (job_status_of a)" "is_active (job_status_of b)"
  obtain a0 b0 where old: "hm_get m k1 = Some a0" "hm_get m k2 = Some b0"
    and t: "tame a0 a" "tame b0 b"
    using assms(2) get by blast
  then have "is_active (job_status_of a0)" "is_active (job_status_of b0)"
    using act by (auto simp: tame_def)
  with assms(1) ne old have "\<not> share_file a0 b0" unfolding conflict_free_def by blast
  then show "\<not> share_file a b" by (simp add: tame_share [OF t(1)] tame_share [OF t(2)])
qed

lemma tame_refl [simp]: "tame j j"
  by (simp add: tame_def)

lemma tame_update:
  assumes "\<And>w j. tame j (snd (snd (f w j)))" and "hm_get (jobs (snd (update_job_tokens k f g))) k' = Some j'"
  shows "\<exists>j. hm_get (jobs g) k' = Some j \<and> tame j j'"
  using assms upd_tokens.others [of k' k f g]
  by (cases "k' = k") (auto simp: get_update_job_tokens)

lemma job_frame_tame: "job_frame j j' \<Longrightarrow> tame j j'"
  by (auto simp: job_frame_def tame_def)

lemma file_ops_tame:
  "tame j (snd (with_file fn g j))" "tame j (snd (mark_file_done fn t c j))"
  "tame j (snd (mark_file_error fn r j))" "tame j (snd (set_file_progress fn p j))"
  by (rule job_frame_tame, rule via_with_file.frame completing.frame erring.frame progressing.frame)+

lemma status_ops_tame:
  "tame j (snd (mark_running j))" "tame j (snd (requeue_after_memory_gate t j))"
  "tame j (snd (job_fail e t j))" "tame j (snd (job_stop s t j))"
  "tame j (snd (finalize st t j))" "tame j (record_worker_count n j)"
  "tame j (release_local_dispatch_claim j)"
  "tame j (snd (renew_local_dispatch_lease R node t ttl j))"
proof -
  have act: "is_terminal x \<Longrightarrow> \<not> is_active x" for x using terminal_or_active [of x] by blast
  show "tame j (snd (finalize st t j))"
    by (auto simp: tame_def finalize_cases Let_def upd_exec_def upd_sched_def act
        set_failure_reason_from_files_def split: option.splits)
qed (auto simp: tame_def mark_running_def requeue_after_memory_gate_def job_fail_def job_stop_cases
    Let_def set_status_def upd_defs adopt_status_columns_def stopped_def can_cancel_def
    record_worker_count_def renew_local_dispatch_lease_def release_local_dispatch_claim_def
    clear_lease_def split: option.splits)

lemma reg_op_conflict_free:
  assumes "conflict_free (jobs g)" and "x \<noteq> RRestart"
  shows "conflict_free (jobs (run_reg_op T P K R k x g))"
proof (rule conflict_free_tame [OF assms(1)])
  fix k' j'
  assume get: "hm_get (jobs (run_reg_op T P K R k x g)) k' = Some j'"
  show "\<exists>j. hm_get (jobs g) k' = Some j \<and> tame j j'"
  proof (cases "x = RRemove")
    case True
    with get show ?thesis
      by (auto simp: remove_staging_dir_def remove_job_def hm_simps split: option.splits if_splits)
  next
    case False
    with assms(2) get show ?thesis
      by (cases x)
        (auto simp: reg_defs update_job_def case_prod_beta then_item_def file_ops_tame status_ops_tame
          file_via_with_file request_cancellation_def Let_def
          elim!: tame_update [rotated], auto simp: tame_def upd_defs)
  qed
qed

lemma insert_conflict_free:
  assumes "conflict_free (jobs g)"
  shows "conflict_free (jobs (snd (insert_checked dn j g)))"
proof (cases "find_conflicts (jobs g) j = []")
  case False
  with assms show ?thesis by (simp add: insert_checked_def Let_def)
next
  case True
  have new: "\<not> share_file a j" if "hm_get (jobs g) k = Some a" and "is_active (job_status_of a)" for k a
  proof
    assume "share_file a j"
    then obtain fn fn' where "fn \<in> set (filenames (filesystem a))" "fn' \<in> set (filenames (filesystem j))"
      "conflict_key a fn = conflict_key j fn'" by (auto simp: share_file_def)
    with that hm_get_in_values [OF that(1)] have
      "\<lparr>conflict_filename = fn, conflict_job_id = job_id (identity a), conflict_command = command (dispatch a),
        conflict_status = job_status_of a\<rparr> \<in> set (find_conflicts (jobs g) j)"
      unfolding find_conflicts_mem by blast
    with True show False by simp
  qed
  have "jobs (snd (insert_checked dn j g)) = hm_insert (job_id (identity j)) j (jobs g)"
    using True by (simp add: insert_checked_def)
  with assms new show ?thesis
    unfolding conflict_free_def
    by (auto simp: hm_get_insert share_file_sym [of j] split: if_splits)
qed

lemma tame_trans: "tame a b \<Longrightarrow> tame b c \<Longrightarrow> tame a c"
  by (auto simp: tame_def)

lemma interrupt_tame: "tame j (snd (snd (interrupt_for_shutdown K t w j)))"
  by (auto simp: tame_def interrupt_for_shutdown_def Let_def job_stop_cases adopt_status_columns_def
      stopped_def clear_lease_def upd_defs)

lemma registry_op_conflict_free:
  assumes "conflict_free (jobs g)" and "\<And>k. x \<noteq> OnJob k RRestart"
  shows "conflict_free (jobs (run_registry_op T P K R dn x g))"
proof (cases x)
  case (OnJob k y)
  with assms show ?thesis by (auto intro: reg_op_conflict_free)
next
  case (Submit j)
  with assms show ?thesis by (simp add: insert_conflict_free)
next
  case (ClaimReady now node ttl)
  have rel: "rel_option tame (hm_get (jobs g) k)
      (hm_get (jobs (snd (claim_ready_queued_jobs R now node ttl g))) k)" for k
    by (rule claim_ready_rel)
      (auto simp: tame_trans, auto simp: tame_def claim_for_local_dispatch_def Let_def upd_defs)
  show ?thesis
    unfolding ClaimReady run_registry_op.simps
    by (rule conflict_free_tame [OF assms(1)]) (metis rel option_rel_Some2)
next
  case (InterruptAll t)
  obtain n w' m where loop: "interrupt_loop K t 0 (tokens g) (jobs g) = (n, w', m)" by (metis prod_cases3)
  from interrupt_loop_effect [where K = K and t = t and n = 0 and w = "tokens g" and m = "jobs g"] loop
  have "m = hm_map_values (\<lambda>j. snd (snd (interrupt_for_shutdown K t (tokens g) j))) (jobs g)" by simp
  with InterruptAll loop show ?thesis
    by (auto simp: interrupt_all_active_def hm_get_map_values interrupt_tame
        intro!: conflict_free_tame [OF assms(1)])
qed

text \<open>
  C21. Active jobs share no file: from a registry without conflicts, any sequence of messages
  without a restart (submissions of any jobs, accepted or refused, operations on any jobs, claims
  of the queue, shutdowns) leaves no two active jobs of one submitter address with a common path. A
  refused submission changes nothing and reports at least one conflict, an accepted one holds the
  submitted job.
\<close>

theorem active_jobs_share_no_file:
  assumes "conflict_free (jobs g)" and "list_all (\<lambda>x. \<forall>k. x \<noteq> OnJob k RRestart) ops"
  shows "conflict_free (jobs (fold (run_registry_op T P K R dn) ops g)) \<and>
    (case insert_checked dn j g of
       (Inl e, g') \<Rightarrow> g' = g \<and> (\<exists>msg cs. e = JobConflict msg cs \<and> cs \<noteq> [])
     | (Inr _, g') \<Rightarrow> hm_get (jobs g') (job_id (identity j)) = Some j)"
proof -
  have "conflict_free (jobs (fold (run_registry_op T P K R dn) ops g))"
    using assms
  proof (induction ops arbitrary: g)
    case (Cons x ops)
    then have "conflict_free (jobs (run_registry_op T P K R dn x g))"
      by (intro registry_op_conflict_free) auto
    from Cons.IH [OF this] Cons.prems(2) show ?case by simp
  qed simp
  then show ?thesis by (auto simp: insert_checked_def Let_def hm_get_insert)
qed

theorem active_jobs_share_no_file_witness:
  "conflict_free (jobs (fold (run_registry_op plain_text accept_all list_tokens jiff_like concat)
     [Submit (sample_job JobQueued (mixed_files :: (string, (unit, unit) file_status) hash_map) ()),
      OnJob ''j1'' RRunning] \<lparr>jobs = [], tokens = []\<rparr>))"
proof -
  have "conflict_free (jobs \<lparr>jobs = [] :: (string, (unit, nat) job) hash_map, tokens = [] :: nat list\<rparr>)"
    by (simp add: conflict_free_def hm_get_def)
  from active_jobs_share_no_file [OF this, of "[Submit (sample_job JobQueued mixed_files ()),
      OnJob ''j1'' RRunning]" plain_text accept_all list_tokens jiff_like concat]
  show ?thesis by simp
qed

definition second_job :: "(unit, nat) job" where
  "second_job = (sample_job JobQueued mixed_files ())\<lparr>identity := \<lparr>job_id = ''j2'', correlation_id = ''c2''\<rparr>\<rparr>"

lemma restart_accepted:
  assumes "policy (command (dispatch j)) (options (dispatch j)) = Ok ()" and "can_restart (job_status_of j)"
  shows "\<exists>w' j'. prepare_for_restart policy K w j = (Ok (), w', j') \<and> job_status_of j' = JobQueued \<and>
    source j' = source j \<and> filesystem j' = filesystem j"
  using assms
  by (auto simp: prepare_for_restart_def Let_def set_status_def upd_defs clear_lease_def split: prod.splits)

lemma restart_job_effect:
  assumes "hm_get (jobs g) k = Some j" and "policy (command (dispatch j)) (options (dispatch j)) = Ok ()"
    and "can_restart (job_status_of j)"
  obtains p j' where "fst (restart_job T policy K k g) = Some (Ok p)"
    and "hm_get (jobs (snd (restart_job T policy K k g))) k = Some j'" and "is_active (job_status_of j')"
    and "\<And>b. share_file j' b = share_file j b"
    and "\<And>k'. k' \<noteq> k \<Longrightarrow> hm_get (jobs (snd (restart_job T policy K k g))) k' = hm_get (jobs g) k'"
proof -
  from restart_accepted [where policy = policy, OF assms(2,3), of K "tokens g"] obtain w' j' where
    p: "prepare_for_restart policy K (tokens g) j = (Ok (), w', j')"
    and act: "job_status_of j' = JobQueued"
    and same: "source j' = source j" "filesystem j' = filesystem j" by blast
  from assms(1) p obtain q where "fst (restart_job T policy K k g) = Some (Ok q)"
    by (simp add: restart_job_def update_job_tokens_def)
  moreover have "hm_get (jobs (snd (restart_job T policy K k g))) k = Some j'"
    using assms(1) p by (simp add: restart_job_def get_update_job_tokens)
  moreover have "share_file j' b = share_file j b" for b
    by (simp add: share_file_def conflict_key_def conflict_path_def same)
  moreover have "hm_get (jobs (snd (restart_job T policy K k g))) k' = hm_get (jobs g) k'" if "k' \<noteq> k" for k'
    using that by (simp add: restart_job_def upd_tokens.others)
  ultimately show ?thesis using that [of q j'] act by simp
qed

lemma restart_conflicts:
  assumes "conflict_free (jobs g)" and "hm_get (jobs g) k = Some j"
    and "policy (command (dispatch j)) (options (dispatch j)) = Ok ()" and "can_restart (job_status_of j)"
  shows "conflict_free (jobs (snd (restart_job T policy K k g))) \<longleftrightarrow>
    (\<forall>k' b. k' \<noteq> k \<and> hm_get (jobs g) k' = Some b \<and> is_active (job_status_of b) \<longrightarrow> \<not> share_file j b)"
proof -
  from restart_job_effect [where policy = policy and T = T and K = K, OF assms(2-4)] obtain j' where
    j': "hm_get (jobs (snd (restart_job T policy K k g))) k = Some j'" "is_active (job_status_of j')"
      "\<And>b. share_file j' b = share_file j b"
    and others: "\<And>k'. k' \<noteq> k \<Longrightarrow> hm_get (jobs (snd (restart_job T policy K k g))) k' = hm_get (jobs g) k'"
    by metis
  show ?thesis
  proof
    assume "conflict_free (jobs (snd (restart_job T policy K k g)))"
    with conflict_freeD [OF this _ j'(1) _ j'(2)] others j'(3)
    show "\<forall>k' b. k' \<noteq> k \<and> hm_get (jobs g) k' = Some b \<and> is_active (job_status_of b) \<longrightarrow> \<not> share_file j b"
      by metis
  next
    assume apart: "\<forall>k' b. k' \<noteq> k \<and> hm_get (jobs g) k' = Some b \<and> is_active (job_status_of b) \<longrightarrow> \<not> share_file j b"
    show "conflict_free (jobs (snd (restart_job T policy K k g)))"
      unfolding conflict_free_def
    proof (intro allI impI)
      fix k1 k2 a b
      assume *: "k1 \<noteq> k2" "hm_get (jobs (snd (restart_job T policy K k g))) k1 = Some a"
        "hm_get (jobs (snd (restart_job T policy K k g))) k2 = Some b"
        "is_active (job_status_of a)" "is_active (job_status_of b)"
      consider "k1 = k" | "k2 = k" | "k1 \<noteq> k" "k2 \<noteq> k" by blast
      then show "\<not> share_file a b"
        by cases (use * j' others apart share_file_sym conflict_freeD [OF assms(1)] in \<open>metis option.inject\<close>)+
    qed
  qed
qed

text \<open>
  C29. A restart is not checked for conflicts. Of a registry without conflicts and a restart that
  is accepted, the outcome is without conflicts exactly when no active job under another
  identifier shares a file with the restarted job; so whenever a job that shares a file with an
  ended one is accepted and the ended job is then restarted, the restart is accepted too and leaves
  two active jobs on one file. The exception for restarts in the property that active jobs share no
  file cannot be dropped.
\<close>

theorem restart_breaks_conflict_freedom:
  assumes "conflict_free (jobs g)" and "hm_get (jobs g) k = Some j"
    and "policy (command (dispatch j)) (options (dispatch j)) = Ok ()" and "can_restart (job_status_of j)"
  shows "(conflict_free (jobs (snd (restart_job T policy K k g))) \<longleftrightarrow>
      (\<forall>k' b. k' \<noteq> k \<and> hm_get (jobs g) k' = Some b \<and> is_active (job_status_of b) \<longrightarrow> \<not> share_file j b)) \<and>
    (\<forall>b g1. insert_checked dn b g = (Ok (), g1) \<and> job_id (identity b) \<noteq> k \<and>
        is_active (job_status_of b) \<and> share_file j b \<longrightarrow>
      conflict_free (jobs g1) \<and> (\<exists>p. fst (restart_job T policy K k g1) = Some (Ok p)) \<and>
      \<not> conflict_free (jobs (snd (restart_job T policy K k g1))))"
proof (intro conjI allI impI)
  show "conflict_free (jobs (snd (restart_job T policy K k g))) \<longleftrightarrow>
      (\<forall>k' b. k' \<noteq> k \<and> hm_get (jobs g) k' = Some b \<and> is_active (job_status_of b) \<longrightarrow> \<not> share_file j b)"
    using assms by (rule restart_conflicts)
  fix b g1
  assume b: "insert_checked dn b g = (Ok (), g1) \<and> job_id (identity b) \<noteq> k \<and>
        is_active (job_status_of b) \<and> share_file j b"
  from b insert_conflict_free [OF assms(1), of dn b] show cf: "conflict_free (jobs g1)" by simp
  from b have get: "hm_get (jobs g1) k = Some j" "hm_get (jobs g1) (job_id (identity b)) = Some b"
    using assms(2) by (auto simp: insert_checked_def Let_def hm_get_insert split: if_splits)
  from restart_job_effect [where policy = policy and T = T and K = K, OF get(1) assms(3,4)]
  show "\<exists>p. fst (restart_job T policy K k g1) = Some (Ok p)" by metis
  from restart_conflicts [where policy = policy, OF cf get(1) assms(3,4)] get(2) b
  show "\<not> conflict_free (jobs (snd (restart_job T policy K k g1)))" by blast
qed

theorem restart_breaks_conflict_freedom_witness:
  "let g = one_job (sample_job JobCancelled (mixed_files :: (string, (unit, unit) file_status) hash_map) ());
       (r, g1) = insert_checked concat second_job g
   in r = Ok () \<and> conflict_free (jobs g1) \<and>
      \<not> conflict_free (jobs (snd (restart_job plain_text accept_all list_tokens ''j1'' g1)))"
proof -
  let ?j = "sample_job JobCancelled (mixed_files :: (string, (unit, unit) file_status) hash_map) ()"
  let ?g = "one_job ?j"
  have "conflict_free (jobs ?g)" "hm_get (jobs ?g) ''j1'' = Some ?j"
    by (auto simp: conflict_free_def one_job_def hm_get_def sample_job_def split: if_splits)
  moreover have "accept_all (command (dispatch ?j)) (options (dispatch ?j)) = Ok ()" "can_restart (job_status_of ?j)"
    by (simp_all add: accept_all_def sample_job_def)
  moreover have "find_conflicts (jobs ?g) second_job = []"
    by (simp add: find_conflicts_def one_job_def hm_values_def sample_job_def)
  then obtain g1 where "insert_checked concat second_job ?g = (Ok (), g1)"
    by (simp add: insert_checked_def)
  moreover have "job_id (identity second_job) \<noteq> ''j1''" "is_active (job_status_of second_job)"
    "share_file ?j second_job"
    by (auto simp: second_job_def sample_job_def share_file_def conflict_key_def conflict_path_def)
  ultimately show ?thesis
    using restart_breaks_conflict_freedom [of ?g "''j1''" ?j accept_all plain_text list_tokens concat]
    by (simp add: Let_def)
qed

subsection \<open>Attempts and activity\<close>

text \<open>
  Attempt identifiers are handed over once: what was attached to a file is what is taken, a
  second take finds nothing, and neither changes the file's phase.
\<close>

theorem attempt_id_taken_once:
  assumes "hm_get (jobs g) k = Some j" and "file_of j fn = Some f"
  shows "case attach_attempt_id k fn a g of (ok, g1) \<Rightarrow>
    case take_attempt_id k fn g1 of (got, g2) \<Rightarrow>
      ok \<and> got = Some a \<and> fst (take_attempt_id k fn g2) = None \<and>
      project_job k (\<lambda>j. map_option phase (file_of j fn)) g2 = Some (Some (phase f))"
  using assms
  by (simp add: attach_attempt_id_def take_attempt_id_def update_job_def update_job_tokens_def
      flatten_def with_file_def upd_exec_def hm_simps project_job_def)

theorem attempt_id_taken_once_witness:
  "fst (take_attempt_id ''j1'' ''a.cha'' (snd (attach_attempt_id ''j1'' ''a.cha'' ''x''
     (one_job (sample_job JobRunning (mixed_files :: (string, (unit, unit) file_status) hash_map) ()))))) =
   Some ''x''"
proof -
  let ?j = "sample_job JobRunning (mixed_files :: (string, (unit, unit) file_status) hash_map) ()"
  have "hm_get (jobs (one_job ?j)) ''j1'' = Some ?j" "file_of ?j ''a.cha'' = Some (done_file ''a.cha'')"
    by (simp_all add: one_job_def hm_get_def sample_job_def mixed_files_def)
  from attempt_id_taken_once [OF this, of "''x''"] show ?thesis by (simp add: case_prod_beta)
qed

lemma max_opt_ge: "Some t \<in> set ts \<Longrightarrow> \<exists>m. max_opt ts = Some m \<and> t \<le> m"
proof -
  assume t: "Some t \<in> set ts"
  have fold_ge: "x \<le> fold max xs x \<and> (\<forall>y \<in> set xs. y \<le> fold max xs x)" for x :: int and xs
    by (induction xs arbitrary: x) (auto intro: order_trans max.cobounded1 max.cobounded2, (meson max.bounded_iff)+)
  have "t \<in> set (List.map_filter id ts)"
    using t by (induction ts) (auto split: option.splits)
  with fold_ge show ?thesis
    by (cases "List.map_filter id ts") (auto simp: max_opt_def)
qed

lemma activity_opt_ge:
  "Some t \<in> {started_at p, finished_at p, failed_at p} \<Longrightarrow> \<exists>m. last_activity_at p = Some m \<and> t \<le> m"
  unfolding last_activity_at_def by (rule max_opt_ge) auto

text \<open>
  The stall alarm's clock: for a known job the last activity is known, is never before the
  submission, and is never before any start, finish or failed attempt recorded on a file.
\<close>

theorem last_activity_covers_all:
  assumes "hm_get (jobs g) k = Some j"
  shows "\<exists>m. last_file_activity_at k g = Some m \<and> submitted_at (schedule j) \<le> m \<and>
    list_all (\<lambda>f. \<forall>t. Some t \<in> {started_at (phase f), finished_at (phase f), failed_at (phase f)} \<longrightarrow> t \<le> m)
      (files_of j)"
proof -
  let ?ts = "map (\<lambda>f. last_activity_at (phase f)) (files_of j) @ [Some (submitted_at (schedule j))]"
  have eq: "last_file_activity_at k g = max_opt ?ts"
    using assms by (simp add: last_file_activity_at_def project_job_def)
  obtain m where m: "max_opt ?ts = Some m" "submitted_at (schedule j) \<le> m"
    using max_opt_ge [of "submitted_at (schedule j)" ?ts] by auto
  have "t \<le> m" if f: "f \<in> set (files_of j)"
    and t: "Some t \<in> {started_at (phase f), finished_at (phase f), failed_at (phase f)}" for f t
  proof -
    obtain a where a: "last_activity_at (phase f) = Some a" "t \<le> a" using activity_opt_ge [OF t] by blast
    with f have "Some a \<in> set ?ts" by (metis (mono_tags, lifting) Un_iff image_eqI list.set_map set_append)
    from max_opt_ge [OF this] m(1) a(2) show ?thesis by auto
  qed
  with eq m show ?thesis by (auto simp: list_all_iff)
qed

theorem last_activity_covers_all_witness:
  "\<exists>m. last_file_activity_at ''j1''
     (one_job (sample_job JobRunning (mixed_files :: (string, (unit, unit) file_status) hash_map) ())) =
     Some m \<and> 0 \<le> m"
proof -
  let ?j = "sample_job JobRunning (mixed_files :: (string, (unit, unit) file_status) hash_map) ()"
  have "hm_get (jobs (one_job ?j)) ''j1'' = Some ?j" by (simp add: one_job_def hm_get_def sample_job_def)
  from last_activity_covers_all [OF this] show ?thesis by (auto simp: sample_job_def)
qed

subsection \<open>Claiming the queue\<close>

definition registry_keys_ok :: "(string, ('v, 'tok) job) hash_map \<Rightarrow> bool" where
  "registry_keys_ok m \<longleftrightarrow> hm_wf m \<and> (\<forall>k j. hm_get m k = Some j \<longrightarrow> job_id (identity j) = k)"

lemma claim_facts:
  "fst (claim_for_local_dispatch R node now ttl j) =
     (if ready_for_local_dispatch now j then Some (lease_taken R node now ttl) else None)"
  "\<not> ready_for_local_dispatch now j \<Longrightarrow> snd (claim_for_local_dispatch R node now ttl j) = j"
  "\<not> ready_for_local_dispatch now (snd (claim_for_local_dispatch R node now ttl j))"
  by (auto simp: claim_for_local_dispatch_def ready_for_local_dispatch_def Let_def upd_defs)

text \<open>After the loop, the listed jobs have been through the claim and no other job has changed.\<close>

lemma claim_loop_get:
  "distinct ks \<Longrightarrow>
     hm_get (snd (claim_loop R node now ttl ks m)) k =
       (if k \<in> set ks then map_option (\<lambda>j. snd (claim_for_local_dispatch R node now ttl j)) (hm_get m k)
        else hm_get m k)"
proof (induction ks arbitrary: m)
  case (Cons a ks)
  show ?case
  proof (cases "hm_get m a")
    case None
    with Cons show ?thesis by auto
  next
    case (Some j)
    let ?m = "hm_modify a (\<lambda>_. snd (claim_for_local_dispatch R node now ttl j)) m"
    have "snd (claim_loop R node now ttl (a # ks) m) = snd (claim_loop R node now ttl ks ?m)"
      using Some by (simp add: case_prod_beta)
    with Cons.IH [of ?m] Cons.prems Some show ?thesis by (auto simp: hm_get_modify)
  qed
qed simp

lemma claim_loop_leases:
  assumes "distinct ks" and "\<And>k. k \<in> set ks \<Longrightarrow> \<exists>j. hm_get m k = Some j \<and> ready_for_local_dispatch now j"
  shows "fst (claim_loop R node now ttl ks m) = map (\<lambda>k. (k, lease_taken R node now ttl)) ks"
  using assms
proof (induction ks arbitrary: m)
  case (Cons a ks)
  from Cons.prems(2) [of a] obtain j where j: "hm_get m a = Some j" "ready_for_local_dispatch now j" by auto
  let ?m = "hm_modify a (\<lambda>_. snd (claim_for_local_dispatch R node now ttl j)) m"
  have "fst (claim_loop R node now ttl ks ?m) = map (\<lambda>k. (k, lease_taken R node now ttl)) ks"
  proof (rule Cons.IH)
    fix k assume "k \<in> set ks"
    with Cons.prems show "\<exists>j. hm_get ?m k = Some j \<and> ready_for_local_dispatch now j"
      by (auto simp: hm_get_modify)
  qed (use Cons.prems in simp)
  with j show ?case by (simp add: case_prod_beta claim_facts(1))
qed simp

lemma sorted_ids:
  "set (map snd (sort_key fst (map (\<lambda>j. (submitted_at (schedule j), job_id (identity j))) js))) =
     (\<lambda>j. job_id (identity j)) ` set js"
  "mset (map snd (sort_key fst (map (\<lambda>j. (submitted_at (schedule j), job_id (identity j))) js))) =
     mset (map (\<lambda>j. job_id (identity j)) js)"
proof -
  show two: "mset (map snd (sort_key fst (map (\<lambda>j. (submitted_at (schedule j), job_id (identity j))) js))) =
     mset (map (\<lambda>j. job_id (identity j)) js)"
    by (simp add: multiset.map_comp comp_def)
  from mset_eq_setD [OF two]
  show "set (map snd (sort_key fst (map (\<lambda>j. (submitted_at (schedule j), job_id (identity j))) js))) =
     (\<lambda>j. job_id (identity j)) ` set js" by simp
qed

lemma registry_ids:
  assumes "registry_keys_ok m"
  shows "map (\<lambda>j. job_id (identity j)) (hm_values m) = map fst m"
proof -
  have "job_id (identity j) = k" if "(k, j) \<in> set m" for k j
    using assms that by (auto simp: registry_keys_ok_def hm_get_def hm_wf_def)
  then show ?thesis by (auto simp: hm_values_def)
qed

text \<open>
  Claiming the queue claims all of it, once: in a registry keyed by its jobs' identifiers every
  job that was ready is claimed, with a fresh lease for the asking node, and no other; the
  identifiers come oldest submission first without repetition, no job is ready afterwards, and
  the jobs that were not ready are unchanged.
\<close>

theorem claim_queue_exact:
  assumes "registry_keys_ok (jobs g)"
  shows "case claim_ready_queued_jobs R now node ttl g of (poll, g') \<Rightarrow>
    (\<forall>k. k \<in> set (ready_job_ids poll) \<longleftrightarrow>
       (\<exists>j. hm_get (jobs g) k = Some j \<and> ready_for_local_dispatch now j)) \<and>
    distinct (ready_job_ids poll) \<and>
    claimed_leases poll = map (\<lambda>k. (k, lease_taken R node now ttl)) (ready_job_ids poll) \<and>
    (\<forall>k. project_job k (ready_for_local_dispatch now) g' \<noteq> Some True) \<and>
    (\<forall>k j. hm_get (jobs g) k = Some j \<and> \<not> ready_for_local_dispatch now j \<longrightarrow> hm_get (jobs g') k = Some j)"
proof -
  let ?js = "filter (ready_for_local_dispatch now) (hm_values (jobs g))"
  define ids where
    "ids = map snd (sort_key fst (map (\<lambda>j. (submitted_at (schedule j), job_id (identity j))) ?js))"
  have wf: "hm_wf (jobs g)" using assms by (simp add: registry_keys_ok_def)
  have ready: "k \<in> set ids \<longleftrightarrow> (\<exists>j. hm_get (jobs g) k = Some j \<and> ready_for_local_dispatch now j)" for k
    unfolding ids_def sorted_ids(1) using assms hm_values_get [OF wf] hm_get_in_values [of "jobs g"]
    by (fastforce simp: registry_keys_ok_def)
  have "distinct (map (\<lambda>j. job_id (identity j)) (hm_values (jobs g)))"
    using wf by (simp add: registry_ids [OF assms] hm_wf_def)
  then have "distinct (map (\<lambda>j. job_id (identity j)) ?js)" by (rule distinct_map_filter)
  then have dist: "distinct ids"
    unfolding ids_def using mset_eq_imp_distinct_iff [OF sorted_ids(2) [of ?js]] by blast
  obtain ls m where loop: "claim_loop R node now ttl ids (jobs g) = (ls, m)" by fastforce
  have ls: "ls = map (\<lambda>k. (k, lease_taken R node now ttl)) ids"
    using claim_loop_leases [OF dist, of "jobs g" now R node ttl] ready loop by simp
  have m: "hm_get m k = (if k \<in> set ids
      then map_option (\<lambda>j. snd (claim_for_local_dispatch R node now ttl j)) (hm_get (jobs g) k)
      else hm_get (jobs g) k)" for k
    using claim_loop_get [OF dist, of R node now ttl "jobs g" k] loop by simp
  have "map_option (ready_for_local_dispatch now) (hm_get m k) \<noteq> Some True" for k
    using ready [of k] m [of k] by (auto simp: claim_facts(3) split: if_splits)
  moreover have "hm_get m k = Some j" if "hm_get (jobs g) k = Some j" "\<not> ready_for_local_dispatch now j" for k j
    using ready [of k] m [of k] that by simp
  moreover obtain wake where "claim_ready_queued_jobs R now node ttl g =
      (\<lparr>ready_job_ids = ids, next_wake_at = wake, claimed_leases = ls\<rparr>, g\<lparr>jobs := m\<rparr>)"
    using loop unfolding claim_ready_queued_jobs_def ids_def Let_def by simp
  ultimately show ?thesis using ready dist ls by (simp add: project_job_def)
qed

theorem claim_queue_exact_witness:
  "ready_job_ids (fst (claim_ready_queued_jobs jiff_like 3 ''n1'' lease_ttl_default
     (one_job (sample_job JobQueued (mixed_files :: (string, (unit, unit) file_status) hash_map) ())))) \<noteq> []"
proof -
  let ?j = "sample_job JobQueued (mixed_files :: (string, (unit, unit) file_status) hash_map) ()"
  have "registry_keys_ok (jobs (one_job ?j))"
    by (auto simp: registry_keys_ok_def one_job_def hm_wf_def hm_get_def split: if_splits)
  moreover have "hm_get (jobs (one_job ?j)) ''j1'' = Some ?j" "ready_for_local_dispatch 3 ?j"
    by (simp_all add: one_job_def hm_get_def sample_job_def ready_for_local_dispatch_def
        lease_blocks_local_dispatch_def)
  ultimately show ?thesis
    using claim_queue_exact [where g = "one_job ?j" and R = jiff_like and now = 3
        and node = "''n1''" and ttl = lease_ttl_default]
    by (fastforce simp: case_prod_beta)
qed

end
