(* ===== verification/Work_Control.thy ===== *)
theory Work_Control
  imports Prelude
begin

text \<open>
  Cooperative interruption of CPU-bound alignment
  (\<^verbatim>\<open>crates/batchalign-transform/src/dp_align/control.rs\<close>). Every aligner takes a
  \<^verbatim>\<open>WorkControl\<close> and asks it at fixed points whether to go on; a refusal leaves the aligner with
  the control's own error through \<^verbatim>\<open>?\<close>. A control is a record of functions on its own hidden
  state (the trait's methods take \<^verbatim>\<open>&self\<close>, so an implementation keeps counters in cells). The
  result of a computation is \<^const>\<open>None\<close> when it does not return. The diagnostic observer
  \<^verbatim>\<open>packed_search_cost\<close>, which has no result and which the code here never calls, is left out.
\<close>

record ('s, 'e) work_control =
  wc_check :: "'s \<Rightarrow> ('e, unit) result \<times> 's"
  wc_alignment_work :: "nat \<Rightarrow> 's \<Rightarrow> ('e, unit) result \<times> 's"
  wc_alignment_score_storage :: "nat \<Rightarrow> 's \<Rightarrow> ('e, unit) result \<times> 's"

text \<open>The trait's default bodies, and the control that never interrupts.\<close>

definition default_work :: "nat \<Rightarrow> 's \<Rightarrow> ('e, unit) result \<times> 's" where
  "default_work units s = (Ok (), s)"

definition default_storage :: "nat \<Rightarrow> 's \<Rightarrow> ('e, unit) result \<times> 's" where
  "default_storage cells s = (Ok (), s)"

text \<open>
  The error type of \<^verbatim>\<open>Uninterrupted\<close> is \<^verbatim>\<open>Infallible\<close>, which has no value. Types of HOL are
  inhabited, so the model leaves the error type open: no value of it is ever built.
\<close>

definition Uninterrupted :: "(unit, 'e) work_control" where
  "Uninterrupted = \<lparr>wc_check = (\<lambda>s. (Ok (), s)), wc_alignment_work = default_work,
     wc_alignment_score_storage = default_storage\<rparr>"

type_synonym ('s, 'e, 'a) controlled = "'s \<Rightarrow> (('e, 'a) result \<times> 's) option"

definition ctl_return :: "'a \<Rightarrow> ('s, 'e, 'a) controlled" where
  "ctl_return a s = Some (Ok a, s)"

text \<open>The \<^verbatim>\<open>?\<close> operator: go on with the value, leave with the error.\<close>

definition ctl_bind ::
  "('s, 'e, 'a) controlled \<Rightarrow> ('a \<Rightarrow> ('s, 'e, 'b) controlled) \<Rightarrow> ('s, 'e, 'b) controlled" where
  "ctl_bind c f s =
     (case c s of
        None \<Rightarrow> None
      | Some (Inl e, s') \<Rightarrow> Some (Err e, s')
      | Some (Inr a, s') \<Rightarrow> f a s')"

definition ctl_check :: "('s, 'e) work_control \<Rightarrow> ('s, 'e, unit) controlled" where
  "ctl_check C s = Some (wc_check C s)"

definition ctl_work :: "('s, 'e) work_control \<Rightarrow> nat \<Rightarrow> ('s, 'e, unit) controlled" where
  "ctl_work C units s = Some (wc_alignment_work C units s)"

definition ctl_storage :: "('s, 'e) work_control \<Rightarrow> nat \<Rightarrow> ('s, 'e, unit) controlled" where
  "ctl_storage C cells s = Some (wc_alignment_score_storage C cells s)"

text \<open>A \<^verbatim>\<open>for\<close> loop with \<^verbatim>\<open>?\<close> in its body, its mutable variables in the accumulator.\<close>

fun ctl_for :: "'x list \<Rightarrow> ('x \<Rightarrow> 'b \<Rightarrow> ('s, 'e, 'b) controlled) \<Rightarrow> 'b \<Rightarrow> ('s, 'e, 'b) controlled" where
  "ctl_for [] body acc = ctl_return acc"
| "ctl_for (x # xs) body acc = ctl_bind (body x acc) (ctl_for xs body)"

text \<open>
  \<^verbatim>\<open>uninterrupted\<close> takes the value out of a result that cannot be an error; the error branch is
  the empty match. \<^const>\<open>None\<close> again stands for not returning.
\<close>

definition uninterrupted :: "('s, 'e, 'a) controlled \<Rightarrow> 's \<Rightarrow> 'a option" where
  "uninterrupted c s = (case c s of Some (Inr a, _) \<Rightarrow> Some a | _ \<Rightarrow> None)"

subsection \<open>Computations that answer\<close>

text \<open>
  \<open>answers C c v\<close>: from every state of the control, \<open>c\<close> returns, and returns either the value
  \<open>v\<close> or an error some call of the control raised.
\<close>

definition raised :: "('s, 'e) work_control \<Rightarrow> 'e \<Rightarrow> bool" where
  "raised C e \<longleftrightarrow>
     (\<exists>s s' n. wc_check C s = (Err e, s') \<or> wc_alignment_work C n s = (Err e, s') \<or>
        wc_alignment_score_storage C n s = (Err e, s'))"

definition answers :: "('s, 'e) work_control \<Rightarrow> ('s, 'e, 'a) controlled \<Rightarrow> 'a \<Rightarrow> bool" where
  "answers C c v \<longleftrightarrow>
     (\<forall>s. \<exists>r s'. c s = Some (r, s') \<and> (r = Ok v \<or> (\<exists>e. r = Err e \<and> raised C e)))"

named_theorems answering \<open>rules that compute the answer of a controlled computation\<close>

lemma answers_return [answering]: "answers C (ctl_return v) v"
  by (auto simp: answers_def ctl_return_def)

lemma answers_bind:
  assumes "answers C c v" and "answers C (f v) w"
  shows "answers C (ctl_bind c f) w"
  unfolding answers_def
proof
  fix s
  from assms(1) obtain r s' where c: "c s = Some (r, s')"
    and r: "r = Ok v \<or> (\<exists>e. r = Err e \<and> raised C e)" unfolding answers_def by blast
  from assms(2) obtain r2 s2 where "f v s' = Some (r2, s2)"
    and "r2 = Ok w \<or> (\<exists>e. r2 = Err e \<and> raised C e)" unfolding answers_def by blast
  with c r show "\<exists>r s'. ctl_bind c f s = Some (r, s') \<and> (r = Ok w \<or> (\<exists>e. r = Err e \<and> raised C e))"
    by (auto simp: ctl_bind_def)
qed

lemma answers_check [answering]: "answers C (ctl_check C) ()"
  unfolding answers_def
proof
  fix s
  obtain r s' where r: "wc_check C s = (r, s')" by fastforce
  then show "\<exists>r s'. ctl_check C s = Some (r, s') \<and> (r = Ok () \<or> (\<exists>e. r = Err e \<and> raised C e))"
    by (cases r) (auto simp: ctl_check_def raised_def)
qed

lemma answers_work [answering]: "answers C (ctl_work C n) ()"
  unfolding answers_def
proof
  fix s
  obtain r s' where r: "wc_alignment_work C n s = (r, s')" by fastforce
  then show "\<exists>r s'. ctl_work C n s = Some (r, s') \<and> (r = Ok () \<or> (\<exists>e. r = Err e \<and> raised C e))"
    by (cases r) (auto simp: ctl_work_def raised_def)
qed

lemma answers_storage [answering]: "answers C (ctl_storage C n) ()"
  unfolding answers_def
proof
  fix s
  obtain r s' where r: "wc_alignment_score_storage C n s = (r, s')" by fastforce
  then show "\<exists>r s'. ctl_storage C n s = Some (r, s') \<and> (r = Ok () \<or> (\<exists>e. r = Err e \<and> raised C e))"
    by (cases r) (auto simp: ctl_storage_def raised_def)
qed

lemma answers_then:
  assumes "answers C c ()" and "answers C d w"
  shows "answers C (ctl_bind c (\<lambda>_. d)) w"
  using answers_bind [OF assms(1), of "\<lambda>_. d"] assms(2) by simp

lemma answers_if_check [answering]:
  "answers C (if b then ctl_check C else ctl_return ()) ()"
  by (simp add: answering)

lemma answers_for:
  assumes "\<And>x acc. x \<in> set xs \<Longrightarrow> answers C (body x acc) (step x acc)"
  shows "answers C (ctl_for xs body acc) (fold step xs acc)"
  using assms
proof (induction xs arbitrary: acc)
  case (Cons x xs)
  have "answers C (body x acc) (step x acc)" using Cons.prems by simp
  moreover have "answers C (ctl_for xs body (step x acc)) (fold step xs (step x acc))"
    using Cons.prems by (intro Cons.IH) simp
  ultimately show ?case by (simp add: answers_bind)
qed (simp add: answers_return)

lemma answers_ok:
  assumes "answers C c v" and "c s = Some (Ok w, s')"
  shows "w = v"
  using assms unfolding answers_def by (metis Inl_Inr_False Pair_inject option.inject sum.inject(2))

lemma Uninterrupted_never_raises: "\<not> raised Uninterrupted e"
  by (simp add: raised_def Uninterrupted_def default_work_def default_storage_def)

lemma answers_uninterrupted:
  assumes "answers Uninterrupted c v"
  shows "uninterrupted c s = Some v"
proof -
  from assms obtain r s' where "c s = Some (r, s')" "r = Ok v \<or> (\<exists>e. r = Err e \<and> raised Uninterrupted e)"
    unfolding answers_def by blast
  then show ?thesis by (auto simp: uninterrupted_def Uninterrupted_never_raises)
qed

end
