(* ===== verification/Packed_Bits.thy ===== *)
theory Packed_Bits
  imports Work_Control
begin

text \<open>
  Packed bit vectors (\<^verbatim>\<open>crates/batchalign-transform/src/dp_align/zero_padded.rs\<close>): a vector of
  a declared length held in 64-bit words, its constructors and edits, the zero-padded windows that
  shift it either way, and the reversal of \<^verbatim>\<open>packed_literal/arithmetic.rs\<close>. The theorems show that
  every constructor and edit keeps the representation invariant, that a window is the zero-extended
  shift and that reversal reads the vector backwards. \<^verbatim>\<open>usize\<close> lengths are natural numbers: no
  length, offset or block here is computed past twice the bits that memory holds.
\<close>

unbundle bit_operations_syntax

definition div_ceil :: "nat \<Rightarrow> nat \<Rightarrow> nat" where
  "div_ceil a b = (if a mod b = 0 then a div b else a div b + 1)"

text \<open>\<^verbatim>\<open>WindowStart\<close>\<close>

datatype window_start = At nat | Before nat

record packed_bits =
  pb_words :: "u64 list"
  pb_length :: nat

definition clear_past_length :: "packed_bits \<Rightarrow> packed_bits" where
  "clear_past_length bits =
     (if pb_length bits mod 64 \<noteq> 0 \<and> pb_words bits \<noteq> [] then
        bits\<lparr>pb_words := butlast (pb_words bits) @
          [last (pb_words bits) AND (push_bit (pb_length bits mod 64) 1 - 1)]\<rparr>
      else bits)"

definition pb_zeros :: "nat \<Rightarrow> packed_bits" where
  "pb_zeros len = \<lparr>pb_words = replicate (div_ceil len 64) 0, pb_length = len\<rparr>"

text \<open>
  \<^verbatim>\<open>try_from_fn\<close> calls a closure that may fail and that changes what it has captured: the closure
  threads that captured value.
\<close>

definition try_from_fn ::
  "nat \<Rightarrow> (nat \<Rightarrow> 'c \<Rightarrow> ('s, 'e, u64 \<times> 'c) controlled) \<Rightarrow> 'c \<Rightarrow> ('s, 'e, packed_bits) controlled" where
  "try_from_fn len word captured =
     ctl_bind
       (ctl_for [0..<div_ceil len 64]
          (\<lambda>block (words, captured). ctl_bind (word block captured) (\<lambda>(w, captured').
             ctl_return (words @ [w], captured')))
          ([], captured)) (\<lambda>(words, _).
     ctl_return (clear_past_length \<lparr>pb_words = words, pb_length = len\<rparr>))"

definition from_fn :: "nat \<Rightarrow> (nat \<Rightarrow> u64) \<Rightarrow> packed_bits" where
  "from_fn len word =
     clear_past_length \<lparr>pb_words = map word [0..<div_ceil len 64], pb_length = len\<rparr>"

text \<open>\<^verbatim>\<open>ZeroPadded::stored\<close> and \<^verbatim>\<open>ZeroPadded::window_word\<close>; the view is the vector's words.\<close>

definition stored :: "u64 list \<Rightarrow> nat \<Rightarrow> u64" where
  "stored words at = (if at < length words then words ! at else 0)"

fun window_word :: "u64 list \<Rightarrow> window_start \<Rightarrow> nat \<Rightarrow> u64" where
  "window_word words (At offset) block =
     (let at = offset div 64 + block; shift = offset mod 64
      in if shift = 0 then stored words at
         else drop_bit shift (stored words at) OR push_bit (64 - shift) (stored words (at + 1)))"
| "window_word words (Before offset) block =
     (if block < offset div 64 then 0
      else
        (let at = block - offset div 64; shift = offset mod 64;
             low = push_bit shift (stored words at)
         in if shift = 0 \<or> at = 0 then low
            else low OR drop_bit (64 - shift) (stored words (at - 1))))"

definition pb_window :: "u64 list \<Rightarrow> window_start \<Rightarrow> nat \<Rightarrow> packed_bits" where
  "pb_window words start span = from_fn span (window_word words start)"

text \<open>\<^verbatim>\<open>Vec::resize\<close>, then the vector's own \<^verbatim>\<open>resize\<close>.\<close>

definition resize_words :: "u64 list \<Rightarrow> nat \<Rightarrow> u64 list" where
  "resize_words words n = take n words @ replicate (n - length words) 0"

definition pb_resize :: "packed_bits \<Rightarrow> nat \<Rightarrow> packed_bits" where
  "pb_resize bits len =
     clear_past_length \<lparr>pb_words = resize_words (pb_words bits) (div_ceil len 64), pb_length = len\<rparr>"

text \<open>
  \<^verbatim>\<open>edit\<close>: the closure returns its result and the words it leaves, also when it fails. A slice
  cannot change its length.
\<close>

definition pb_edit ::
  "(u64 list \<Rightarrow> nat \<Rightarrow> ('e, unit) result \<times> u64 list) \<Rightarrow> packed_bits \<Rightarrow> ('e, unit) result \<times> packed_bits" where
  "pb_edit edit bits =
     (let (result, words) = edit (pb_words bits) (pb_length bits)
      in (result, clear_past_length (bits\<lparr>pb_words := words\<rparr>)))"

text \<open>\<^verbatim>\<open>u64::reverse_bits\<close> of the language, and the reversal of a vector.\<close>

definition reverse_word :: "u64 \<Rightarrow> u64" where
  "reverse_word w = horner_sum of_bool 2 (rev (map (bit w) [0..<64]))"

definition reverse_bits :: "packed_bits \<Rightarrow> packed_bits" where
  "reverse_bits bits =
     (let words = pb_words bits;
          reversed = from_fn (length words * 64) (\<lambda>block. reverse_word (words ! (length words - 1 - block)));
          padding = (64 - pb_length bits mod 64) mod 64
      in pb_window (pb_words reversed) (At padding) (pb_length bits))"

subsection \<open>The bits a vector holds\<close>

definition bit_at :: "u64 list \<Rightarrow> nat \<Rightarrow> bool" where
  "bit_at words i = bit (stored words (i div 64)) (i mod 64)"

text \<open>The invariant the type documents.\<close>

definition pb_ok :: "packed_bits \<Rightarrow> bool" where
  "pb_ok bits \<longleftrightarrow> length (pb_words bits) = div_ceil (pb_length bits) 64 \<and>
     (\<forall>i \<ge> pb_length bits. \<not> bit_at (pb_words bits) i)"

lemma div_mod_64: "\<exists>q r. n = 64 * q + r \<and> r < (64 :: nat)"
  by (intro exI [of _ "n div 64"] exI [of _ "n mod 64"]) simp

lemma less_64: "(i :: nat) < n \<longleftrightarrow> i div 64 < n div 64 \<or> i div 64 = n div 64 \<and> i mod 64 < n mod 64"
proof -
  obtain a b where "i = 64 * a + b" "b < 64" using div_mod_64 by blast
  moreover obtain c d where "n = 64 * c + d" "d < 64" using div_mod_64 by blast
  ultimately show ?thesis by auto
qed

lemma div_ceil_64: "div_ceil n 64 = (n + 63) div 64"
proof -
  obtain q r where n: "n = 64 * q + r" "r < 64" using div_mod_64 by blast
  show ?thesis
  proof (cases r)
    case (Suc k)
    then have "n + 63 = 64 * (q + 1) + k" "k < 64" using n by simp_all
    then have "(n + 63) div 64 = q + 1" by simp
    then show ?thesis using n Suc by (simp add: div_ceil_def)
  qed (use n in \<open>simp add: div_ceil_def\<close>)
qed

lemma bit_at_outside: "64 * length words \<le> i \<Longrightarrow> \<not> bit_at words i"
  by (auto simp: bit_at_def stored_def)

lemma bit_at_word: "k < 64 \<Longrightarrow> bit_at words (64 * b + k) = bit (stored words b) k"
  by (simp add: bit_at_def)

text \<open>A vector with the invariant is its length and its bits.\<close>

lemma words_eqI:
  assumes "length v = length w" and "\<And>i. bit_at v i = bit_at w i"
  shows "v = w"
proof (rule nth_equalityI [OF assms(1)])
  fix b assume b: "b < length v"
  show "v ! b = w ! b"
  proof (rule bit_word_eqI)
    fix k assume "k < LENGTH(64)"
    then show "bit (v ! b) k = bit (w ! b) k"
      using assms(2) [of "64 * b + k"] b assms(1) by (simp add: bit_at_word stored_def)
  qed
qed

lemma pb_eqI:
  assumes "pb_ok v" and "pb_ok w" and "pb_length v = pb_length w"
    and "\<And>i. i < pb_length v \<Longrightarrow> bit_at (pb_words v) i = bit_at (pb_words w) i"
  shows "v = w"
proof -
  have "pb_words v = pb_words w"
  proof (rule words_eqI)
    show "length (pb_words v) = length (pb_words w)" using assms(1-3) by (simp add: pb_ok_def)
    show "bit_at (pb_words v) i = bit_at (pb_words w) i" for i
      using assms by (cases "i < pb_length v") (auto simp: pb_ok_def)
  qed
  then show ?thesis using assms(3) by simp
qed

lemma bit_low_mask: "bit (push_bit n (1 :: u64) - 1) k \<longleftrightarrow> k < n \<and> k < 64" if "n < 64"
proof -
  have "push_bit n (1 :: u64) - 1 = mask n" by (simp add: mask_eq_exp_minus_1 push_bit_eq_mult)
  then show ?thesis using that by (simp add: bit_mask_iff) linarith
qed

lemma clear_past_length:
  assumes "length (pb_words bits) = div_ceil (pb_length bits) 64"
  shows "pb_ok (clear_past_length bits)" and "pb_length (clear_past_length bits) = pb_length bits"
    and "i < pb_length bits \<Longrightarrow> bit_at (pb_words (clear_past_length bits)) i = bit_at (pb_words bits) i"
proof -
  let ?n = "pb_length bits" and ?w = "pb_words bits"
  show "pb_length (clear_past_length bits) = ?n" by (simp add: clear_past_length_def)
  have both: "length (pb_words (clear_past_length bits)) = div_ceil ?n 64 \<and>
    bit_at (pb_words (clear_past_length bits)) i = (i < ?n \<and> bit_at ?w i)" for i
  proof (cases "?n mod 64 = 0")
    case True
    then have "64 * length ?w = ?n" using assms mult_div_mod_eq [of 64 ?n] by (simp add: div_ceil_def)
    moreover have "clear_past_length bits = bits" using True by (simp add: clear_past_length_def)
    ultimately show ?thesis using assms bit_at_outside [of ?w i] not_less by metis
  next
    case False
    then have dc: "div_ceil ?n 64 = Suc (?n div 64)" by (simp add: div_ceil_def)
    with assms have len: "length ?w = Suc (?n div 64)" by simp
    then have ne: "?w \<noteq> []" by auto
    have words: "pb_words (clear_past_length bits) =
        butlast ?w @ [last ?w AND (push_bit (?n mod 64) 1 - 1)]"
      using False ne by (simp add: clear_past_length_def)
    have at: "i div 64 = ?n div 64 \<Longrightarrow> i < ?n \<longleftrightarrow> i mod 64 < ?n mod 64"
      "i div 64 < ?n div 64 \<Longrightarrow> i < ?n" "?n div 64 < i div 64 \<Longrightarrow> \<not> i < ?n"
      using less_64 [of i ?n] by auto
    have last: "?w ! (?n div 64) = last ?w" using len ne by (simp add: last_conv_nth)
    consider "i div 64 < ?n div 64" | "i div 64 = ?n div 64" | "?n div 64 < i div 64" by linarith
    then show ?thesis
    proof cases
      case 1
      then show ?thesis using dc words len at(2) by (simp add: bit_at_def stored_def nth_append nth_butlast)
    next
      case 2
      then show ?thesis using dc words len last at(1)
        by (auto simp del: push_bit_of_1 simp: bit_at_def stored_def nth_append bit_and_iff bit_low_mask)
    next
      case 3
      then show ?thesis using dc words len at(3) by (simp add: bit_at_def stored_def)
    qed
  qed
  then show "pb_ok (clear_past_length bits)" by (simp add: pb_ok_def clear_past_length_def)
  show "i < ?n \<Longrightarrow> bit_at (pb_words (clear_past_length bits)) i = bit_at ?w i" using both by simp
qed

lemma from_fn_ok: "pb_ok (from_fn len word)" "pb_length (from_fn len word) = len"
  by (simp_all add: from_fn_def clear_past_length)

lemma bit_from_fn:
  assumes "i < len"
  shows "bit_at (pb_words (from_fn len word)) i = bit (word (i div 64)) (i mod 64)"
proof -
  have "i div 64 < div_ceil len 64" using assms by (simp add: div_ceil_64)
  then show ?thesis using assms unfolding from_fn_def by (simp add: clear_past_length) (simp add: bit_at_def stored_def)
qed

lemma bit_stored_beyond: "64 \<le> k \<Longrightarrow> \<not> bit (stored words b) k"
  by (auto dest: bit_imp_le_length)

lemma bit_window_at:
  assumes "k < 64"
  shows "bit (window_word words (At offset) block) k = bit_at words (offset + 64 * block + k)"
proof -
  obtain q s where o: "offset = 64 * q + s" "s < 64" using div_mod_64 by blast
  show ?thesis
  proof (cases "s + k < 64")
    case True
    then have "bit_at words (64 * (q + block) + (s + k)) = bit (stored words (q + block)) (s + k)"
      by (rule bit_at_word)
    moreover have "offset + 64 * block + k = 64 * (q + block) + (s + k)" using o by simp
    ultimately have at: "bit_at words (offset + 64 * block + k) = bit (stored words (q + block)) (s + k)"
      by (simp only:)
    show ?thesis unfolding at using True assms o
      by (auto simp: Let_def bit_or_iff bit_drop_bit_eq bit_push_bit_iff)
  next
    case False
    then have "bit_at words (64 * (q + block + 1) + (s + k - 64)) = bit (stored words (q + block + 1)) (s + k - 64)"
      using assms o(2) by (intro bit_at_word) simp
    moreover have "offset + 64 * block + k = 64 * (q + block + 1) + (s + k - 64)" using o False by simp
    ultimately have at: "bit_at words (offset + 64 * block + k) = bit (stored words (q + block + 1)) (s + k - 64)"
      by (simp only:)
    have "k - (64 - s) = s + k - 64" "s \<noteq> 0" "64 - s \<le> k" using False assms o(2) by auto
    then show ?thesis unfolding at using False assms o
      by (auto simp: Let_def bit_or_iff bit_drop_bit_eq bit_push_bit_iff bit_stored_beyond)
  qed
qed

lemma bit_window_before:
  assumes "k < 64"
  shows "bit (window_word words (Before offset) block) k \<longleftrightarrow>
      offset \<le> 64 * block + k \<and> bit_at words (64 * block + k - offset)"
proof -
  obtain q s where o: "offset = 64 * q + s" "s < 64" using div_mod_64 by blast
  consider "block < q" | "q \<le> block" "s \<le> k" | "block = q" "k < s" | "q < block" "k < s" by linarith
  then show ?thesis
  proof cases
    case 1
    then have "64 * block + k < offset" using assms o by linarith
    with 1 o show ?thesis by simp
  next
    case 2
    then have "64 * block + k - offset = 64 * (block - q) + (k - s)" using o by simp
    then have "bit_at words (64 * block + k - offset) = bit (stored words (block - q)) (k - s)"
      using assms bit_at_word [of "k - s" words "block - q"] by simp
    with 2 o assms show ?thesis
      by (auto simp: Let_def bit_or_iff bit_drop_bit_eq bit_push_bit_iff bit_stored_beyond)
  next
    case 3
    then show ?thesis using o by (simp add: Let_def bit_push_bit_iff)
  next
    case 4
    then have "64 * block + k - offset = 64 * (block - q - 1) + (64 - s + k)" using o by simp
    then have "bit_at words (64 * block + k - offset) = bit (stored words (block - q - 1)) (64 - s + k)"
      using 4 o(2) bit_at_word [of "64 - s + k" words "block - q - 1"] by simp
    with 4 o assms show ?thesis
      by (auto simp: Let_def bit_or_iff bit_drop_bit_eq bit_push_bit_iff)
  qed
qed

text \<open>The bit of a vector a window shows at \<open>j\<close>, zero before the vector and past its end.\<close>

fun shifted :: "(nat \<Rightarrow> bool) \<Rightarrow> window_start \<Rightarrow> nat \<Rightarrow> bool" where
  "shifted f (At offset) j = f (offset + j)"
| "shifted f (Before offset) j = (offset \<le> j \<and> f (j - offset))"

lemma bit_window_word: "k < 64 \<Longrightarrow> bit (window_word words start block) k = shifted (bit_at words) start (64 * block + k)"
  by (cases start) (simp_all add: bit_window_at bit_window_before add.assoc del: window_word.simps)

lemma bit_window:
  assumes "i < span"
  shows "bit_at (pb_words (pb_window words start span)) i = shifted (bit_at words) start i"
  using bit_window_word [of "i mod 64" words start "i div 64"] bit_from_fn [OF assms]
  by (simp add: pb_window_def)

lemma window_ok: "pb_ok (pb_window words start span)" "pb_length (pb_window words start span) = span"
  by (simp_all add: pb_window_def from_fn_ok)

lemma bit_reverse_word: "k < 64 \<Longrightarrow> bit (reverse_word w) k = bit w (63 - k)"
  by (simp add: reverse_word_def bit_horner_sum_bit_word_iff rev_nth)

lemma reverse_ok: "pb_ok (reverse_bits bits)" "pb_length (reverse_bits bits) = pb_length bits"
  by (simp_all add: reverse_bits_def Let_def window_ok)

lemma bit_reverse:
  assumes "length (pb_words bits) = div_ceil (pb_length bits) 64" and "k < pb_length bits"
  shows "bit_at (pb_words (reverse_bits bits)) k = bit_at (pb_words bits) (pb_length bits - 1 - k)"
proof -
  let ?w = "pb_words bits" and ?n = "pb_length bits"
  let ?N = "length ?w" and ?pad = "(64 - pb_length bits mod 64) mod 64"
  let ?rev = "from_fn (?N * 64) (\<lambda>block. reverse_word (?w ! (?N - 1 - block)))"
  have N: "64 * ?N = ?n + ?pad"
  proof -
    obtain q r where n: "?n = 64 * q + r" "r < 64" using div_mod_64 by blast
    then show ?thesis using assms(1) by (cases "r = 0") (auto simp: div_ceil_def)
  qed
  let ?p = "?pad + k"
  have p: "?p < ?N * 64" using N assms(2) by simp
  then have b: "?p div 64 < ?N" by (simp add: less_mult_imp_div_less)
  have "bit_at (pb_words (reverse_bits bits)) k = bit_at (pb_words ?rev) ?p"
    using assms(2) by (simp add: reverse_bits_def Let_def bit_window)
  also have "\<dots> = bit (?w ! (?N - 1 - ?p div 64)) (63 - ?p mod 64)"
    by (simp add: bit_from_fn [OF p] bit_reverse_word)
  also have "\<dots> = bit_at ?w (64 * (?N - 1 - ?p div 64) + (63 - ?p mod 64))"
    using b by (subst bit_at_word) (auto simp: stored_def)
  also have "64 * (?N - 1 - ?p div 64) + (63 - ?p mod 64) = ?n - 1 - k"
  proof -
    obtain q r where q: "?p = 64 * q + r" "r < 64" using div_mod_64 by blast
    then have "?p div 64 = q" "?p mod 64 = r" by simp_all
    with b q N assms(2) show ?thesis by simp
  qed
  finally show ?thesis .
qed

lemma zeros_ok: "pb_ok (pb_zeros len)"
  by (simp add: pb_ok_def pb_zeros_def bit_at_def stored_def)

lemma resize_words: "length (resize_words words n) = n" "bit_at (resize_words words n) i \<longleftrightarrow> i div 64 < n \<and> bit_at words i"
  by (auto simp: resize_words_def bit_at_def stored_def nth_append)

lemma resize_ok:
  "pb_ok (pb_resize bits len)" "pb_length (pb_resize bits len) = len"
  "i < len \<Longrightarrow> bit_at (pb_words (pb_resize bits len)) i = bit_at (pb_words bits) i"
proof -
  show "pb_ok (pb_resize bits len)" "pb_length (pb_resize bits len) = len"
    by (simp_all add: pb_resize_def clear_past_length resize_words)
  assume i: "i < len"
  then have "i div 64 < div_ceil len 64" by (simp add: div_ceil_64)
  with i show "bit_at (pb_words (pb_resize bits len)) i = bit_at (pb_words bits) i"
    by (simp add: pb_resize_def clear_past_length resize_words)
qed

text \<open>The vector a fallible closure fills, when the control lets it finish.\<close>

lemma answers_try_from_fn:
  assumes "\<And>block c. answers C (word block c) (f block c, g block c)"
  shows "answers C (try_from_fn len word c)
    (from_fn len (\<lambda>block. f block (fold g [0..<block] c)))"
proof -
  let ?st = "\<lambda>n. (map (\<lambda>b. f b (fold g [0..<b] c)) [0..<n], fold g [0..<n] c)"
  have "answers C (ctl_for [0..<div_ceil len 64]
      (\<lambda>block (words, captured). ctl_bind (word block captured) (\<lambda>(w, captured'). ctl_return (words @ [w], captured')))
      ([], c))
    (fold (\<lambda>block (words, captured). (words @ [f block captured], g block captured)) [0..<div_ceil len 64] ([], c))"
    by (rule answers_for) (auto intro!: answers_bind [OF assms] answers_return)
  moreover have "fold (\<lambda>block (words, captured). (words @ [f block captured], g block captured)) [0..<n] ([], c) = ?st n" for n
    by (induction n) simp_all
  ultimately show ?thesis unfolding try_from_fn_def from_fn_def
    by (intro answers_bind) (auto intro: answers_return)
qed

text \<open>Whatever the closure does, a vector it fills has one word per block of the length, and none past it.\<close>

lemma ctl_for_length:
  assumes "ctl_for xs (\<lambda>block (words, captured). ctl_bind (word block captured) (\<lambda>(w, captured').
      ctl_return (words @ [w], captured'))) (ws, c) s = Some (Ok (words, c'), s')"
  shows "length words = length ws + length xs"
  using assms
  by (induction xs arbitrary: ws c s)
    (auto simp: ctl_return_def ctl_bind_def split: option.splits sum.splits prod.splits)

lemma try_from_fn_ok:
  assumes "try_from_fn len word c s = Some (Ok bits, s')"
  shows "pb_ok bits \<and> pb_length bits = len"
proof -
  from assms obtain words c' s1 where
    loop: "ctl_for [0..<div_ceil len 64] (\<lambda>block (words, captured). ctl_bind (word block captured)
        (\<lambda>(w, captured'). ctl_return (words @ [w], captured'))) ([], c) s = Some (Ok (words, c'), s1)"
    and bits: "bits = clear_past_length \<lparr>pb_words = words, pb_length = len\<rparr>"
    by (auto simp: try_from_fn_def ctl_bind_def ctl_return_def split: option.splits sum.splits prod.splits)
  from ctl_for_length [OF loop] have "length words = div_ceil len 64" by simp
  with bits clear_past_length [of "\<lparr>pb_words = words, pb_length = len\<rparr>"] show ?thesis by simp
qed

subsection \<open>Properties\<close>

text \<open>
  A window of a packed vector, shifted either way and reaching past either end, holds the
  vector's bits where they are and zero everywhere else, in exactly the words its span needs.
\<close>

theorem window_is_shift:
  "pb_ok (pb_window words start span) \<and> pb_length (pb_window words start span) = span \<and>
   (\<forall>i. bit_at (pb_words (pb_window words start span)) i = (i < span \<and> shifted (bit_at words) start i))"
  using window_ok [of words start span] bit_window [of _ span words start]
  unfolding pb_ok_def by (metis not_le)

text \<open>
  Reading a packed vector backwards is an involution: bit \<open>k\<close> of the reversal is bit
  \<open>length - 1 - k\<close> of the vector, and reversing twice gives the vector back, words and all.
\<close>

theorem reverse_bits_involution:
  assumes "pb_ok bits"
  shows "(\<forall>k < pb_length bits. bit_at (pb_words (reverse_bits bits)) k = bit_at (pb_words bits) (pb_length bits - 1 - k)) \<and>
    reverse_bits (reverse_bits bits) = bits"
proof
  have len: "length (pb_words v) = div_ceil (pb_length v) 64" if "pb_ok v" for v using that by (simp add: pb_ok_def)
  show "\<forall>k < pb_length bits. bit_at (pb_words (reverse_bits bits)) k = bit_at (pb_words bits) (pb_length bits - 1 - k)"
    using bit_reverse [OF len [OF assms]] by blast
  show "reverse_bits (reverse_bits bits) = bits"
  proof (rule pb_eqI)
    fix i assume i: "i < pb_length (reverse_bits (reverse_bits bits))"
    then have "i < pb_length (reverse_bits bits)" by (simp add: reverse_ok)
    from bit_reverse [OF len [OF reverse_ok(1)] this]
    show "bit_at (pb_words (reverse_bits (reverse_bits bits))) i = bit_at (pb_words bits) i"
      using bit_reverse [OF len [OF assms], of "pb_length bits - 1 - i"] i by (simp add: reverse_ok)
  qed (use assms in \<open>simp_all add: reverse_ok\<close>)
qed

theorem reverse_bits_involution_witness:
  "pb_ok \<lparr>pb_words = [5], pb_length = 4\<rparr> \<and>
   reverse_bits (reverse_bits \<lparr>pb_words = [5], pb_length = 4\<rparr>) = \<lparr>pb_words = [5], pb_length = 4\<rparr>"
proof -
  have ok: "pb_ok \<lparr>pb_words = [5], pb_length = 4\<rparr>"
    using from_fn_ok(1) [of 4 "\<lambda>_. 5"] by (simp add: from_fn_def clear_past_length_def div_ceil_def)
  from reverse_bits_involution [OF ok] ok show ?thesis by blast
qed

text \<open>
  C34. Every constructor and every edit of a packed vector gives the representation: exactly the
  words the length needs and no bit set at or past the length. That holds of the vector of zeros,
  of one built by a function, of one a fallible closure fills (whatever the closure captures, and
  whenever it lets the construction finish), of a window and a reversal, of a resized vector, and of
  an edited one, also when the edit fails and whatever it leaves in the words.
\<close>

theorem packed_bits_representation:
  assumes "pb_ok bits" and "length (snd (edit (pb_words bits) (pb_length bits))) = length (pb_words bits)"
  shows "pb_ok (pb_zeros len) \<and> pb_ok (from_fn len word) \<and> pb_ok (pb_window words start len) \<and>
    pb_ok (pb_resize bits len) \<and> pb_ok (reverse_bits bits) \<and> pb_ok (snd (pb_edit edit bits)) \<and>
    pb_length (snd (pb_edit edit bits)) = pb_length bits \<and>
    (\<forall>s built s'. try_from_fn len filler captured s = Some (Ok built, s') \<longrightarrow>
       pb_ok built \<and> pb_length built = len)"
proof -
  let ?b = "bits\<lparr>pb_words := snd (edit (pb_words bits) (pb_length bits))\<rparr>"
  have "length (pb_words ?b) = div_ceil (pb_length ?b) 64" using assms by (simp add: pb_ok_def)
  then have "pb_ok (snd (pb_edit edit bits)) \<and> pb_length (snd (pb_edit edit bits)) = pb_length bits"
    using clear_past_length [of ?b] by (simp add: pb_edit_def split_beta)
  then show ?thesis
    by (auto simp: zeros_ok from_fn_ok window_ok resize_ok reverse_ok dest: try_from_fn_ok)
qed

theorem packed_bits_representation_witness:
  "pb_ok (pb_resize (pb_zeros 70) 3) \<and> pb_ok (snd (pb_edit (\<lambda>ws n. (Err ''refused'', map NOT ws)) (pb_zeros 70))) \<and>
   (\<exists>built. try_from_fn 70 (\<lambda>block c. ctl_return (NOT 0, c)) () () = (Some (Ok built, ()) :: ((unit, _) result \<times> _) option) \<and>
     pb_ok built)"
proof -
  let ?filler = "\<lambda>block c. ctl_return (NOT 0, c) :: (unit, unit, u64 \<times> unit) controlled"
  let ?built = "clear_past_length \<lparr>pb_words = [NOT 0, NOT 0], pb_length = 70\<rparr>"
  have "try_from_fn 70 ?filler () () = Some (Ok ?built, ())"
    by (simp add: try_from_fn_def ctl_bind_def ctl_return_def div_ceil_def upt_rec)
  then show ?thesis
    using packed_bits_representation [of "pb_zeros 70" "\<lambda>ws n. (Err ''refused'', map NOT ws)" 3 "\<lambda>_. 0" "[]" "At 0"
        ?filler "()"]
      packed_bits_representation [of "pb_zeros 70" "\<lambda>ws n. (Err ''refused'', map NOT ws)" 70 "\<lambda>_. 0" "[]" "At 0"
        ?filler "()"]
    by (auto simp: zeros_ok)
qed

end
