(* ===== verification/Chains.thy ===== *)
theory Chains
  imports Prelude
begin

text \<open>
  The specification behind correspondence certification
  (\<^verbatim>\<open>crates/batchalign-transform/src/dp_align/correspondence.rs\<close>): a set of candidate edges
  between payload and reference positions, the chains that increase on both sides, and the
  edges common to every longest chain. The theory proves what the module's header claims: an
  edge is common to all longest chains exactly when it is the only optimal edge of its rank.
  It holds no model of code.
\<close>

type_synonym edge = "nat \<times> nat"

definition before :: "edge \<Rightarrow> edge \<Rightarrow> bool" where
  "before e f \<longleftrightarrow> fst e < fst f \<and> snd e < snd f"

definition chain :: "edge set \<Rightarrow> edge list \<Rightarrow> bool" where
  "chain E c \<longleftrightarrow> set c \<subseteq> E \<and> sorted_wrt before c"

definition longest :: "edge set \<Rightarrow> edge list \<Rightarrow> bool" where
  "longest E c \<longleftrightarrow> chain E c \<and> (\<forall>d. chain E d \<longrightarrow> length d \<le> length c)"

definition common :: "edge set \<Rightarrow> edge set" where
  "common E = {e. \<forall>c. longest E c \<longrightarrow> e \<in> set c}"

lemma before_trans: "before a b \<Longrightarrow> before b c \<Longrightarrow> before a c"
  by (auto simp: before_def)

lemma chain_Nil [simp]: "chain E []"
  by (simp add: chain_def)

lemma chain_distinct: "chain E c \<Longrightarrow> distinct c"
proof -
  assume "chain E c"
  then have "sorted_wrt before c" by (simp add: chain_def)
  then show ?thesis by (induction c) (auto simp: before_def)
qed

lemma chain_length:
  assumes "finite E" and "chain E c"
  shows "length c \<le> card E"
  using assms chain_distinct [OF assms(2)] card_mono [of E "set c"]
  by (simp add: chain_def distinct_card)

lemma chain_take: "chain E c \<Longrightarrow> chain E (take n c)"
  by (auto simp: chain_def dest: in_set_takeD)

lemma chain_drop: "chain E c \<Longrightarrow> chain E (drop n c)"
  by (auto simp: chain_def dest: in_set_dropD)

lemma chain_append:
  "chain E (c @ d) \<longleftrightarrow> chain E c \<and> chain E d \<and> (\<forall>x \<in> set c. \<forall>y \<in> set d. before x y)"
  by (auto simp: chain_def sorted_wrt_append)

lemma chain_last:
  assumes "chain E c" and "x \<in> set (butlast c)"
  shows "before x (last c)"
proof -
  have "c \<noteq> []" using assms(2) by auto
  then have "butlast c @ [last c] = c" by simp
  with assms(1) have "chain E (butlast c @ [last c])" by (simp only:)
  with assms(2) show ?thesis by (simp add: chain_append)
qed

subsection \<open>Ranks\<close>

text \<open>
  \<open>fwd E e\<close> is the length of a longest chain that ends with \<open>e\<close>, \<open>bwd E e\<close> of one that starts with
  it, \<open>optimum E\<close> of a longest chain.
\<close>

definition fwd :: "edge set \<Rightarrow> edge \<Rightarrow> nat" where
  "fwd E e = Max {length c | c. chain E c \<and> c \<noteq> [] \<and> last c = e}"

definition bwd :: "edge set \<Rightarrow> edge \<Rightarrow> nat" where
  "bwd E e = Max {length c | c. chain E c \<and> c \<noteq> [] \<and> hd c = e}"

definition optimum :: "edge set \<Rightarrow> nat" where
  "optimum E = Max {length c | c. chain E c}"

lemma finite_lengths:
  assumes "finite E"
  shows "finite {length c | c. chain E c \<and> P c}"
proof (rule finite_subset)
  show "{length c | c. chain E c \<and> P c} \<subseteq> {..card E}" using chain_length [OF assms] by auto
qed simp

lemma optimum_attained:
  assumes "finite E"
  shows "\<exists>c. chain E c \<and> length c = optimum E"
proof -
  have "finite {length c | c. chain E c}" using finite_lengths [OF assms, of "\<lambda>_. True"] by simp
  moreover have "{length c | c. chain E c} \<noteq> {}" using chain_Nil by blast
  ultimately have "optimum E \<in> {length c | c. chain E c}" unfolding optimum_def by (rule Max_in)
  then show ?thesis by auto
qed

lemma optimum_ge:
  assumes "finite E" and "chain E c"
  shows "length c \<le> optimum E"
proof -
  have "finite {length c | c. chain E c}" using finite_lengths [OF assms(1), of "\<lambda>_. True"] by simp
  then show ?thesis using assms(2) unfolding optimum_def by (intro Max_ge) auto
qed

lemma longest_iff: "finite E \<Longrightarrow> longest E c \<longleftrightarrow> chain E c \<and> length c = optimum E"
  using optimum_attained [of E] optimum_ge [of E] unfolding longest_def by (metis order_antisym)

lemma fwd_attained:
  assumes "finite E" and "e \<in> E"
  shows "\<exists>c. chain E c \<and> c \<noteq> [] \<and> last c = e \<and> length c = fwd E e"
proof -
  have "{length c | c. chain E c \<and> c \<noteq> [] \<and> last c = e} \<noteq> {}"
    using assms(2) by (auto intro!: exI [of _ "[e]"] simp: chain_def)
  from Max_in [OF finite_lengths [OF assms(1)] this] show ?thesis unfolding fwd_def by auto
qed

lemma fwd_ge: "finite E \<Longrightarrow> chain E c \<Longrightarrow> c \<noteq> [] \<Longrightarrow> length c \<le> fwd E (last c)"
  unfolding fwd_def by (intro Max_ge finite_lengths) auto

lemma bwd_attained:
  assumes "finite E" and "e \<in> E"
  shows "\<exists>c. chain E c \<and> c \<noteq> [] \<and> hd c = e \<and> length c = bwd E e"
proof -
  have "{length c | c. chain E c \<and> c \<noteq> [] \<and> hd c = e} \<noteq> {}"
    using assms(2) by (auto intro!: exI [of _ "[e]"] simp: chain_def)
  from Max_in [OF finite_lengths [OF assms(1)] this] show ?thesis unfolding bwd_def by auto
qed

lemma bwd_ge: "finite E \<Longrightarrow> chain E c \<Longrightarrow> c \<noteq> [] \<Longrightarrow> length c \<le> bwd E (hd c)"
  unfolding bwd_def by (intro Max_ge finite_lengths) auto

lemma fwd_pos: "finite E \<Longrightarrow> e \<in> E \<Longrightarrow> 0 < fwd E e"
  by (metis fwd_attained length_greater_0_conv)

lemma bwd_pos: "finite E \<Longrightarrow> e \<in> E \<Longrightarrow> 0 < bwd E e"
  by (metis bwd_attained length_greater_0_conv)

text \<open>A longest chain that ends with an edge and one that starts with it join into one chain.\<close>

lemma join_chains:
  assumes "chain E c" and "chain E d" and "c \<noteq> []" and "d \<noteq> []" and "last c = hd d"
  shows "chain E (c @ tl d)"
proof -
  have "d = hd d # tl d" using assms(4) by simp
  with assms(2) have d: "chain E (hd d # tl d)" by (simp only:)
  have "before x y" if "x \<in> set c" "y \<in> set (tl d)" for x y
  proof -
    have hd: "before (hd d) y" using d that(2) by (simp add: chain_def)
    show ?thesis
    proof (cases "x = last c")
      case True
      with hd assms(5) show ?thesis by simp
    next
      case False
      with that(1) assms(3) have "x \<in> set (butlast c)"
        by (cases c rule: rev_cases) auto
      from chain_last [OF assms(1) this] hd assms(5) show ?thesis by (metis before_trans)
    qed
  qed
  moreover have "chain E (tl d)" using d chain_drop [of E d 1] assms(2) by (simp add: drop_Suc)
  ultimately show ?thesis using assms(1) by (simp add: chain_append)
qed

lemma through_le:
  assumes "finite E" and "e \<in> E"
  shows "\<exists>c. chain E c \<and> e \<in> set c \<and> length c = fwd E e + bwd E e - 1"
proof -
  obtain c d where c: "chain E c" "c \<noteq> []" "last c = e" "length c = fwd E e"
    and d: "chain E d" "d \<noteq> []" "hd d = e" "length d = bwd E e"
    using fwd_attained [OF assms] bwd_attained [OF assms] by auto
  have "chain E (c @ tl d)" using c d by (intro join_chains) auto
  moreover have "e \<in> set (c @ tl d)" using c by auto
  moreover have "length (c @ tl d) = fwd E e + bwd E e - 1" using c d by (cases d) auto
  ultimately show ?thesis by blast
qed

text \<open>In a longest chain every edge stands at its forward rank and is optimal.\<close>

lemma longest_rank:
  assumes "finite E" and "longest E c" and "k < length c"
  shows "fwd E (c ! k) = Suc k" and "fwd E (c ! k) + bwd E (c ! k) - 1 = optimum E"
proof -
  have c: "chain E c" "length c = optimum E" using assms(1,2) longest_iff by auto
  have "last (take (Suc k) c) = c ! k" using assms(3) by (simp add: take_Suc_conv_app_nth)
  with fwd_ge [OF assms(1) chain_take [OF c(1), of "Suc k"]] assms(3)
  have f: "Suc k \<le> fwd E (c ! k)" by (cases c) auto
  have "hd (drop k c) = c ! k" using assms(3) by (simp add: hd_drop_conv_nth)
  with bwd_ge [OF assms(1) chain_drop [OF c(1), of k]] assms(3)
  have b: "length c - k \<le> bwd E (c ! k)" by simp
  have "c ! k \<in> E" using c(1) assms(3) by (auto simp: chain_def)
  from through_le [OF assms(1) this] optimum_ge [OF assms(1)]
  have "fwd E (c ! k) + bwd E (c ! k) - 1 \<le> optimum E" by metis
  with f b c(2) assms(3) show "fwd E (c ! k) = Suc k" "fwd E (c ! k) + bwd E (c ! k) - 1 = optimum E"
    by linarith+
qed

definition optimal_edge :: "edge set \<Rightarrow> edge \<Rightarrow> bool" where
  "optimal_edge E e \<longleftrightarrow> e \<in> E \<and> fwd E e + bwd E e - 1 = optimum E"

lemma optimal_edge_iff:
  assumes "finite E"
  shows "optimal_edge E e \<longleftrightarrow> (\<exists>c. longest E c \<and> e \<in> set c)"
proof
  assume "optimal_edge E e"
  then have e: "e \<in> E" "fwd E e + bwd E e - 1 = optimum E" by (simp_all add: optimal_edge_def)
  from through_le [OF assms e(1)] e(2) show "\<exists>c. longest E c \<and> e \<in> set c"
    by (metis assms longest_iff)
next
  assume "\<exists>c. longest E c \<and> e \<in> set c"
  then obtain c k where "longest E c" "k < length c" "c ! k = e" by (auto simp: in_set_conv_nth)
  with longest_rank [OF assms] show "optimal_edge E e"
    by (auto simp: optimal_edge_def longest_def chain_def)
qed

lemma optimal_rank_bounds:
  assumes "finite E" and "optimal_edge E e"
  shows "0 < fwd E e" and "fwd E e \<le> optimum E"
proof -
  have e: "e \<in> E" "fwd E e + bwd E e - 1 = optimum E" using assms(2) by (simp_all add: optimal_edge_def)
  with fwd_pos [OF assms(1)] bwd_pos [OF assms(1)] show "0 < fwd E e" "fwd E e \<le> optimum E"
    by (simp, fastforce)
qed

text \<open>The certificate: an edge is common to every longest chain iff it is optimal and alone at its rank.\<close>

lemma common_iff_sole:
  assumes "finite E" and "E \<noteq> {}"
  shows "e \<in> common E \<longleftrightarrow>
    optimal_edge E e \<and> (\<forall>f. optimal_edge E f \<and> fwd E f = fwd E e \<longrightarrow> f = e)"
proof
  assume common: "e \<in> common E"
  obtain c0 where c0: "longest E c0" using optimum_attained [OF assms(1)] assms(1) longest_iff by blast
  with common have "optimal_edge E e" using optimal_edge_iff [OF assms(1)] by (auto simp: common_def)
  moreover have "f = e" if f: "optimal_edge E f" "fwd E f = fwd E e" for f
  proof -
    obtain c where c: "longest E c" "f \<in> set c" using f(1) optimal_edge_iff [OF assms(1)] by blast
    with common have "e \<in> set c" by (auto simp: common_def)
    with c obtain i j where "i < length c" "c ! i = f" "j < length c" "c ! j = e"
      by (auto simp: in_set_conv_nth)
    with longest_rank(1) [OF assms(1) c(1)] f(2) show ?thesis by (metis Suc_inject)
  qed
  ultimately show "optimal_edge E e \<and> (\<forall>f. optimal_edge E f \<and> fwd E f = fwd E e \<longrightarrow> f = e)" by blast
next
  assume sole: "optimal_edge E e \<and> (\<forall>f. optimal_edge E f \<and> fwd E f = fwd E e \<longrightarrow> f = e)"
  have "e \<in> set c" if c: "longest E c" for c
  proof -
    let ?k = "fwd E e - 1"
    have "0 < fwd E e" "fwd E e \<le> length c"
      using optimal_rank_bounds [OF assms(1), of e] sole c longest_iff [OF assms(1), of c] by simp_all
    then have "?k < length c" by linarith
    moreover have "fwd E (c ! ?k) = fwd E e"
      using longest_rank(1) [OF assms(1) c calculation] optimal_rank_bounds(1) [OF assms(1)] sole by simp
    moreover have "optimal_edge E (c ! ?k)"
      using optimal_edge_iff [OF assms(1)] c calculation(1) nth_mem by blast
    ultimately show ?thesis using sole by (metis nth_mem)
  qed
  then show "e \<in> common E" by (simp add: common_def)
qed

lemma common_subset: "finite E \<Longrightarrow> common E \<subseteq> E"
proof
  fix e assume E: "finite E" "e \<in> common E"
  obtain c where "longest E c" using optimum_attained [OF E(1)] longest_iff [OF E(1)] by blast
  with E(2) show "e \<in> E" by (auto simp: common_def longest_def chain_def)
qed

subsection \<open>Recurrences for the ranks\<close>

lemma fwd_rec:
  assumes "finite E" and "e \<in> E"
  shows "fwd E e = Suc (Max (insert 0 (fwd E ` {f \<in> E. before f e})))"
proof (rule antisym)
  obtain c where c: "chain E c" "c \<noteq> []" "last c = e" "length c = fwd E e"
    using fwd_attained [OF assms] by blast
  show "fwd E e \<le> Suc (Max (insert 0 (fwd E ` {f \<in> E. before f e})))"
  proof (cases "butlast c = []")
    case True
    then have "length c = 1" using c(2) by (cases c rule: rev_cases) auto
    with c(4) show ?thesis by simp
  next
    case False
    let ?f = "last (butlast c)"
    have "chain E (butlast c)" using chain_take [OF c(1)] by (simp add: butlast_conv_take)
    with fwd_ge [OF assms(1) this False] have "length c - 1 \<le> fwd E ?f" by simp
    moreover have "before ?f e" using chain_last [OF c(1), of ?f] c(3) False by simp
    moreover have "?f \<in> E" using c(1) last_in_set [OF False] in_set_butlastD by (fastforce simp: chain_def)
    moreover have "fwd E ?f \<le> Max (insert 0 (fwd E ` {f \<in> E. before f e}))"
      using assms(1) calculation by (intro Max_ge) auto
    ultimately show ?thesis using c(4) by linarith
  qed
  have "k \<le> fwd E e - 1" if k: "k \<in> insert 0 (fwd E ` {f \<in> E. before f e})" for k
  proof (cases "k = 0")
    case False
    with k obtain f where f: "f \<in> E" "before f e" "k = fwd E f" by auto
    obtain d where d: "chain E d" "d \<noteq> []" "last d = f" "length d = fwd E f"
      using fwd_attained [OF assms(1) f(1)] by blast
    have "before x e" if "x \<in> set d" for x
    proof (cases "x = last d")
      case True
      with d f show ?thesis by simp
    next
      case False
      with that d(2) have "x \<in> set (butlast d)" by (cases d rule: rev_cases) auto
      from chain_last [OF d(1) this] d f show ?thesis by (metis before_trans)
    qed
    moreover have "chain E [e]" using assms(2) by (simp add: chain_def)
    ultimately have "chain E (d @ [e])" using d(1) unfolding chain_append by (metis empty_iff empty_set set_ConsD)
    from fwd_ge [OF assms(1) this] d f show ?thesis by simp
  qed simp
  moreover have "Max (insert 0 (fwd E ` {f \<in> E. before f e})) \<in> insert 0 (fwd E ` {f \<in> E. before f e})"
    using assms(1) by (intro Max_in) auto
  ultimately have "Max (insert 0 (fwd E ` {f \<in> E. before f e})) \<le> fwd E e - 1" by blast
  with fwd_pos [OF assms] show "Suc (Max (insert 0 (fwd E ` {f \<in> E. before f e}))) \<le> fwd E e" by linarith
qed

text \<open>Turning both sequences around turns chains around and exchanges the two ranks.\<close>

definition mirror :: "nat \<Rightarrow> nat \<Rightarrow> edge \<Rightarrow> edge" where
  "mirror m n e = (m - 1 - fst e, n - 1 - snd e)"

lemma mirror_before:
  assumes "fst e < m" "snd e < n" "fst f < m" "snd f < n"
  shows "before (mirror m n f) (mirror m n e) \<longleftrightarrow> before e f"
  using assms by (auto simp: before_def mirror_def)

lemma mirror_mirror: "fst e < m \<Longrightarrow> snd e < n \<Longrightarrow> mirror m n (mirror m n e) = e"
  by (cases e) (auto simp: mirror_def)

definition within :: "nat \<Rightarrow> nat \<Rightarrow> edge set \<Rightarrow> bool" where
  "within m n E \<longleftrightarrow> (\<forall>e \<in> E. fst e < m \<and> snd e < n)"

lemma within_finite:
  assumes "within m n E"
  shows "finite E"
proof (rule finite_subset)
  show "E \<subseteq> {..<m} \<times> {..<n}" using assms by (auto simp: within_def)
qed simp

lemma chain_mirror:
  assumes "within m n E" and "chain E c"
  shows "chain (mirror m n ` E) (rev (map (mirror m n) c))"
proof -
  have in_E: "set c \<subseteq> E" using assms(2) by (simp add: chain_def)
  have "sorted_wrt (\<lambda>x y. before (mirror m n y) (mirror m n x)) c"
  proof (rule sorted_wrt_mono_rel [of c before])
    show "sorted_wrt before c" using assms(2) by (simp add: chain_def)
    show "before (mirror m n y) (mirror m n x)" if "x \<in> set c" "y \<in> set c" "before x y" for x y
      using that in_E assms(1) mirror_before [of x m n y] by (metis within_def subsetD)
  qed
  with in_E show ?thesis by (auto simp: chain_def sorted_wrt_rev sorted_wrt_map)
qed

lemma within_mirror: "within m n E \<Longrightarrow> within m n (mirror m n ` E)"
  by (auto simp: within_def mirror_def)

lemma mirror_image: "within m n E \<Longrightarrow> mirror m n ` mirror m n ` E = E"
  by (force simp: within_def image_image mirror_mirror)

lemma bwd_mirror:
  assumes "within m n E" and "e \<in> E"
  shows "bwd E e = fwd (mirror m n ` E) (mirror m n e)"
proof (rule antisym)
  let ?E = "mirror m n ` E"
  note fin = within_finite [OF assms(1)] within_finite [OF within_mirror [OF assms(1)]]
  obtain c where c: "chain E c" "c \<noteq> []" "hd c = e" "length c = bwd E e"
    using bwd_attained [OF fin(1) assms(2)] by blast
  from fwd_ge [OF fin(2) chain_mirror [OF assms(1) c(1)]] c
  show "bwd E e \<le> fwd ?E (mirror m n e)" by (simp add: last_rev hd_map)
  obtain d where d: "chain ?E d" "d \<noteq> []" "last d = mirror m n e" "length d = fwd ?E (mirror m n e)"
    using fwd_attained [OF fin(2), of "mirror m n e"] assms(2) by blast
  have "chain E (rev (map (mirror m n) d))"
    using chain_mirror [OF within_mirror [OF assms(1)] d(1)] mirror_image [OF assms(1)] by simp
  from bwd_ge [OF fin(1) this] d assms
  show "fwd ?E (mirror m n e) \<le> bwd E e" by (simp add: hd_rev last_map mirror_mirror within_def)
qed

lemma optimum_rank:
  assumes "finite E"
  shows "optimum E = Max (insert 0 (fwd E ` E))"
proof (rule antisym)
  obtain c where c: "longest E c" using optimum_attained [OF assms] longest_iff [OF assms] by blast
  then have len: "length c = optimum E" using longest_iff [OF assms] by blast
  show "optimum E \<le> Max (insert 0 (fwd E ` E))"
  proof (cases "c = []")
    case False
    then have "length c - 1 < length c" by simp
    from longest_rank(1) [OF assms c this] False have "fwd E (last c) = Suc (length c - 1)"
      by (simp add: last_conv_nth)
    moreover have "Suc (length c - 1) = optimum E" using False len by (cases c) auto
    ultimately have "fwd E (last c) = optimum E" by simp
    moreover have "last c \<in> E" using c False last_in_set [of c] by (auto simp: longest_def chain_def)
    ultimately show ?thesis using assms by (intro Max_ge) (auto simp: rev_image_eqI)
  qed (use len in simp)
  have "fwd E e \<le> optimum E" if "e \<in> E" for e
    using fwd_attained [OF assms that] optimum_ge [OF assms] by metis
  with assms show "Max (insert 0 (fwd E ` E)) \<le> optimum E" by simp
qed

end
