(* ===== verification/Prefix_Maximum.thy ===== *)
theory Prefix_Maximum
  imports Prelude
begin

text \<open>
  The Fenwick tree of maxima the correspondence ranks are read from (\<^verbatim>\<open>PrefixMaximum\<close> of
  \<^verbatim>\<open>crates/batchalign-transform/src/dp_align/correspondence.rs\<close>). Positions are natural numbers;
  \<^verbatim>\<open>usize::isolate_lowest_one\<close> and \<^verbatim>\<open>position &= position - 1\<close> are the bit operations of the
  code. The theorem: a query below a position is the largest rank recorded below it.
\<close>

unbundle bit_operations_syntax

subsection \<open>The tree\<close>

type_synonym prefix_maximum = "nat list"

definition prefix_maximum_new :: "nat \<Rightarrow> prefix_maximum" where
  "prefix_maximum_new n = replicate (n + 1) 0"

text \<open>\<^verbatim>\<open>usize::isolate_lowest_one\<close>: the lowest set bit, alone.\<close>

fun isolate_lowest_one :: "nat \<Rightarrow> nat" where
  "isolate_lowest_one n = (if n = 0 then 0 else if odd n then 1 else 2 * isolate_lowest_one (n div 2))"

declare isolate_lowest_one.simps [simp del]

lemma lowest_one_0 [simp]: "isolate_lowest_one 0 = 0"
  by (subst isolate_lowest_one.simps) simp

lemma lowest_one_odd [simp]: "isolate_lowest_one (Suc (2 * k)) = 1"
  by (subst isolate_lowest_one.simps) simp

lemma lowest_one_even: "isolate_lowest_one (2 * k) = 2 * isolate_lowest_one k"
  by (subst isolate_lowest_one.simps) simp

lemma binary_induct [case_names zero even odd]:
  assumes "P 0" and "\<And>k. 0 < k \<Longrightarrow> P k \<Longrightarrow> P (2 * k)" and "\<And>k. P (Suc (2 * k))"
  shows "P (n :: nat)"
proof (induction n rule: less_induct)
  case (less n)
  show ?case
  proof (cases "even n")
    case True
    then obtain k where k: "n = 2 * k" by (auto elim: evenE)
    with less assms(1,2) show ?thesis by (cases "k = 0") auto
  next
    case False
    then obtain k where "n = Suc (2 * k)" by (auto elim: oddE)
    with assms(3) show ?thesis by simp
  qed
qed

lemma and_pred: "n AND (n - 1) = n - isolate_lowest_one n" for n :: nat
proof (induction n rule: binary_induct)
  case (even k)
  then have "2 * k - 1 = Suc (2 * (k - 1))" by linarith
  then have "2 * k AND (2 * k - 1) = 2 * (k AND (k - 1))"
    by (simp add: and_nat_rec [of "2 * k"])
  with even show ?case by (simp add: lowest_one_even diff_mult_distrib2)
next
  case (odd k)
  show ?case by (simp add: and_nat_rec [of "Suc (2 * k)"])
qed simp

lemma lowest_one_bounds: "n > 0 \<Longrightarrow> 0 < isolate_lowest_one n \<and> isolate_lowest_one n \<le> n"
  by (induction n rule: binary_induct) (auto simp: lowest_one_even)

lemma and_pred_less: "n > 0 \<Longrightarrow> n AND (n - 1) < n" for n :: nat
  using lowest_one_bounds [of n] unfolding and_pred by linarith

function prefix_before :: "prefix_maximum \<Rightarrow> nat \<Rightarrow> nat \<Rightarrow> nat" where
  "prefix_before v position maximum =
     (if position > 0 then prefix_before v (position AND (position - 1)) (max maximum (v ! position))
      else maximum)"
  by pat_completeness auto

termination
  by (relation "measure (\<lambda>(v, position, maximum). position)")
    (simp_all add: and_pred_less del: One_nat_def)

declare prefix_before.simps [simp del]

text \<open>\<^verbatim>\<open>PrefixMaximum::before\<close>\<close>

definition pm_before :: "prefix_maximum \<Rightarrow> nat \<Rightarrow> nat" where
  "pm_before v position = prefix_before v position 0"

function record_loop :: "prefix_maximum \<Rightarrow> nat \<Rightarrow> nat \<Rightarrow> prefix_maximum" where
  "record_loop v position rank =
     (if 0 < position \<and> position < length v
      then record_loop (v[position := max (v ! position) rank]) (position + isolate_lowest_one position) rank
      else v)"
  by pat_completeness auto

termination
  by (relation "measure (\<lambda>(v, position, rank). length v - position)")
    (auto dest: lowest_one_bounds)

declare record_loop.simps [simp del]

text \<open>
  \<^verbatim>\<open>PrefixMaximum::record\<close>. The loop starts above zero, where the code's condition
  \<^verbatim>\<open>position < self.0.len()\<close> is that of \<open>record_loop\<close>.
\<close>

definition pm_record :: "prefix_maximum \<Rightarrow> nat \<Rightarrow> nat \<Rightarrow> prefix_maximum" where
  "pm_record v position rank = record_loop v (position + 1) rank"

subsection \<open>What the tree holds\<close>

text \<open>\<open>range_max f a b\<close> is the largest value of \<open>f\<close> on the positions from \<open>a\<close> below \<open>b\<close>, zero when there is none.\<close>

definition range_max :: "(nat \<Rightarrow> nat) \<Rightarrow> nat \<Rightarrow> nat \<Rightarrow> nat" where
  "range_max f a b = Max (insert 0 (f ` {a..<b}))"

lemma range_max_empty [simp]: "b \<le> a \<Longrightarrow> range_max f a b = 0"
  by (simp add: range_max_def)

lemma range_max_le: "range_max f a b \<le> m \<longleftrightarrow> (\<forall>i \<in> {a..<b}. f i \<le> m)"
  by (auto simp: range_max_def)

lemma range_max_ge: "a \<le> i \<Longrightarrow> i < b \<Longrightarrow> f i \<le> range_max f a b"
  unfolding range_max_def by (intro Max_ge) auto

lemma range_max_split:
  assumes "a \<le> b" and "b \<le> c"
  shows "range_max f a c = max (range_max f a b) (range_max f b c)"
proof -
  have "insert 0 (f ` {a..<c}) = insert 0 (f ` {a..<b}) \<union> insert 0 (f ` {b..<c})"
    using assms by (auto simp: image_Un [symmetric] ivl_disj_un)
  then show ?thesis unfolding range_max_def by (simp add: Max_Un del: Un_insert_left Un_insert_right)
qed

lemma range_max_update:
  "range_max (f(p := max (f p) r)) a b = (if a \<le> p \<and> p < b then max (range_max f a b) r else range_max f a b)"
proof (cases "a \<le> p \<and> p < b")
  case True
  show ?thesis
  proof (rule antisym)
    show "range_max (f(p := max (f p) r)) a b \<le> (if a \<le> p \<and> p < b then max (range_max f a b) r else range_max f a b)"
      unfolding range_max_le
    proof
      fix i assume "i \<in> {a..<b}"
      then have "f i \<le> range_max f a b" by (intro range_max_ge) auto
      with True show "(f(p := max (f p) r)) i \<le> (if a \<le> p \<and> p < b then max (range_max f a b) r else range_max f a b)"
        by auto
    qed
    have "r \<le> range_max (f(p := max (f p) r)) a b"
      using range_max_ge [of a p b "f(p := max (f p) r)"] True by simp
    moreover have "range_max f a b \<le> range_max (f(p := max (f p) r)) a b"
      unfolding range_max_le
    proof
      fix i assume "i \<in> {a..<b}"
      then have "(f(p := max (f p) r)) i \<le> range_max (f(p := max (f p) r)) a b" by (intro range_max_ge) auto
      then show "f i \<le> range_max (f(p := max (f p) r)) a b" by (auto split: if_splits)
    qed
    ultimately show "(if a \<le> p \<and> p < b then max (range_max f a b) r else range_max f a b) \<le>
        range_max (f(p := max (f p) r)) a b" using True by simp
  qed
next
  case False
  then have "f(p := max (f p) r) ` {a..<b} = f ` {a..<b}" by (intro image_cong) auto
  then have "range_max (f(p := max (f p) r)) a b = range_max f a b" unfolding range_max_def by (simp only:)
  with False show ?thesis by (simp only: if_False)
qed

lemma range_max_zero [simp]: "range_max (\<lambda>_. 0) a b = 0"
  using range_max_le [of "\<lambda>_. 0" a b 0] by simp

text \<open>
  The invariant: node \<open>i\<close> holds the largest rank on the \<open>isolate_lowest_one i\<close> positions below \<open>i\<close>.
\<close>

definition pm_holds :: "nat \<Rightarrow> (nat \<Rightarrow> nat) \<Rightarrow> prefix_maximum \<Rightarrow> bool" where
  "pm_holds n f v \<longleftrightarrow> length v = n + 1 \<and>
     (\<forall>i. 0 < i \<and> i \<le> n \<longrightarrow> v ! i = range_max f (i - isolate_lowest_one i) i)"

lemma pm_holds_new: "pm_holds n (\<lambda>_. 0) (prefix_maximum_new n)"
  by (auto simp: pm_holds_def prefix_maximum_new_def)

lemma prefix_before_max:
  assumes "pm_holds n f v" and "p \<le> n"
  shows "prefix_before v p m = max m (range_max f 0 p)"
  using assms(2)
proof (induction p arbitrary: m rule: less_induct)
  case (less p)
  show ?case
  proof (cases "p = 0")
    case True
    then show ?thesis by (subst prefix_before.simps) simp
  next
    case False
    let ?q = "p - isolate_lowest_one p"
    have q: "?q < p" using lowest_one_bounds [of p] False by linarith
    have "prefix_before v p m = prefix_before v ?q (max m (v ! p))"
      using False by (subst prefix_before.simps) (simp add: and_pred del: One_nat_def)
    also have "\<dots> = max (max m (v ! p)) (range_max f 0 ?q)" using q less by simp
    also have "v ! p = range_max f ?q p" using assms(1) less.prems False by (simp add: pm_holds_def)
    finally show ?thesis using range_max_split [of 0 ?q p f] q by (simp add: max.left_commute max.commute)
  qed
qed

lemma pm_before_max: "pm_holds n f v \<Longrightarrow> p \<le> n \<Longrightarrow> pm_before v p = range_max f 0 p"
  by (simp add: pm_before_def prefix_before_max)

text \<open>The nodes above a position are exactly those the update loop visits.\<close>

lemma covers_step:
  assumes "0 < q"
  shows "i - isolate_lowest_one i < q \<and> q \<le> i \<longleftrightarrow>
    i = q \<or> i - isolate_lowest_one i < q + isolate_lowest_one q \<and> q + isolate_lowest_one q \<le> i"
  using assms
proof (induction q arbitrary: i rule: binary_induct)
  case (even b)
  show ?case
  proof (cases "even i")
    case True
    then obtain a where i: "i = 2 * a" by (auto elim: evenE)
    from even.IH [OF even.hyps, of a] show ?thesis by (auto simp: i lowest_one_even)
  next
    case False
    then obtain a where i: "i = Suc (2 * a)" by (auto elim: oddE)
    show ?thesis unfolding i lowest_one_odd lowest_one_even by presburger
  qed
next
  case (odd b)
  show ?case
  proof (cases "even i")
    case True
    then obtain a where i: "i = 2 * a" by (auto elim: evenE)
    show ?thesis unfolding i lowest_one_odd lowest_one_even using lowest_one_bounds [of a] by presburger
  next
    case False
    then obtain a where i: "i = Suc (2 * a)" by (auto elim: oddE)
    show ?thesis unfolding i lowest_one_odd by presburger
  qed
qed simp

lemma record_loop_nth:
  assumes "0 < q" and "i < length v"
  shows "length (record_loop v q r) = length v \<and>
    record_loop v q r ! i = (if i - isolate_lowest_one i < q \<and> q \<le> i then max (v ! i) r else v ! i)"
  using assms
proof (induction v q r rule: record_loop.induct)
  case (1 v q r)
  show ?case
  proof (cases "q < length v")
    case True
    let ?v = "v[q := max (v ! q) r]"
    have eq: "record_loop v q r = record_loop ?v (q + isolate_lowest_one q) r"
      using True "1.prems" by (subst record_loop.simps) simp
    have IH: "length (record_loop ?v (q + isolate_lowest_one q) r) = length ?v \<and>
        record_loop ?v (q + isolate_lowest_one q) r ! i =
          (if i - isolate_lowest_one i < q + isolate_lowest_one q \<and> q + isolate_lowest_one q \<le> i
           then max (?v ! i) r else ?v ! i)"
      using True "1.prems" by (intro "1.IH") auto
    have above: "q < q + isolate_lowest_one q" using lowest_one_bounds "1.prems"(1) by simp
    show ?thesis using IH above covers_step [OF "1.prems"(1), of i] True "1.prems"(2)
      unfolding eq by (cases "i = q") auto
  next
    case False
    then show ?thesis using "1.prems" by (subst (1 2) record_loop.simps) auto
  qed
qed

lemma pm_holds_record:
  assumes "pm_holds n f v" and "p < n"
  shows "pm_holds n (f(p := max (f p) r)) (pm_record v p r)"
proof -
  have len: "length v = n + 1" using assms(1) by (simp add: pm_holds_def)
  have "pm_record v p r ! i = range_max (f(p := max (f p) r)) (i - isolate_lowest_one i) i"
    if "0 < i" "i \<le> n" for i
    using record_loop_nth [of "p + 1" i v r] that len assms(1)
    unfolding pm_record_def range_max_update pm_holds_def by (auto simp: less_Suc_eq_le)
  moreover have "length (pm_record v p r) = n + 1"
    using record_loop_nth [of "p + 1" 0 v r] len by (simp add: pm_record_def)
  ultimately show ?thesis by (simp add: pm_holds_def)
qed

text \<open>
  A query of the tree answers with the largest rank recorded below the position: after any
  sequence of recordings inside the tree, \<^verbatim>\<open>before(p)\<close> is the maximum of the ranks recorded at
  positions below \<open>p\<close>, and zero when there is none.
\<close>

theorem prefix_maximum_exact:
  assumes "list_all (\<lambda>(q, r). q < n) ops" and "p \<le> n"
  shows "pm_before (fold (\<lambda>(q, r) v. pm_record v q r) ops (prefix_maximum_new n)) p =
    Max (insert 0 (snd ` {op \<in> set ops. fst op < p}))"
proof -
  have "\<exists>f. pm_holds n f (fold (\<lambda>(q, r) v. pm_record v q r) ops (prefix_maximum_new n)) \<and>
      (\<forall>p. range_max f 0 p = Max (insert 0 (snd ` {op \<in> set ops. fst op < p})))"
    using assms(1)
  proof (induction ops rule: rev_induct)
    case Nil
    show ?case using pm_holds_new [of n] by (intro exI [of _ "\<lambda>_. 0"]) simp
  next
    case (snoc x ops)
    obtain q r where x: "x = (q, r)" by fastforce
    from snoc obtain f where f: "pm_holds n f (fold (\<lambda>(q, r) v. pm_record v q r) ops (prefix_maximum_new n))"
      "\<forall>p. range_max f 0 p = Max (insert 0 (snd ` {op \<in> set ops. fst op < p}))" by auto
    have "Max (insert 0 (snd ` {op \<in> set (ops @ [x]). fst op < p})) =
        range_max (f(q := max (f q) r)) 0 p" for p
    proof -
      have "{op \<in> set (ops @ [x]). fst op < p} =
          (if q < p then insert (q, r) {op \<in> set ops. fst op < p} else {op \<in> set ops. fst op < p})"
        by (auto simp: x)
      then show ?thesis unfolding range_max_update using f(2) [rule_format, of p]
        by (simp add: insert_commute [of 0] max.commute)
    qed
    then show ?case using pm_holds_record [OF f(1), of q r] snoc.prems x by auto
  qed
  then show ?thesis using pm_before_max [OF _ assms(2)] by metis
qed

theorem prefix_maximum_exact_witness:
  "pm_before (fold (\<lambda>(q, r) v. pm_record v q r) [(2, 5), (0, 3), (4, 9)] (prefix_maximum_new 5)) 4 = 5"
  using prefix_maximum_exact [of 5 "[(2, 5), (0, 3), (4, 9)]" 4]
  by (simp add: Collect_disj_eq conj_disj_distribR cong: conj_cong)

end
