(* ===== verification/Alignment_Spec.thy ===== *)
theory Alignment_Spec
  imports Prelude
begin

text \<open>
  What an alignment of two word sequences is, and the cost the aligners of
  \<^verbatim>\<open>crates/batchalign-transform/src/dp_align\<close> minimise: a matched pair is free, an element left
  alone costs one, and a substitution is two elements left alone. The theory holds the
  specification only (the possible alignments, their least cost and how it behaves under
  reversal, splitting and stripping); \<open>Dp_Align\<close> proves the code against it.
\<close>

subsection \<open>Alignments and their cost\<close>

text \<open>
  \<open>alignment m ps rs c\<close>: the payload \<open>ps\<close> and the reference \<open>rs\<close> can be aligned in order with
  \<open>c\<close> elements left alone, where \<open>m p r\<close> says which payload elements may be paired with which
  reference elements. \<open>m\<close> is any relation: fuzzy matching is not transitive.
\<close>

inductive alignment :: "('a \<Rightarrow> 'b \<Rightarrow> bool) \<Rightarrow> 'a list \<Rightarrow> 'b list \<Rightarrow> nat \<Rightarrow> bool"
  for m :: "'a \<Rightarrow> 'b \<Rightarrow> bool" where
  al_nil: "alignment m [] [] 0"
| al_match: "m p r \<Longrightarrow> alignment m ps rs c \<Longrightarrow> alignment m (p # ps) (r # rs) c"
| al_payload: "alignment m ps rs c \<Longrightarrow> alignment m (p # ps) rs (Suc c)"
| al_reference: "alignment m ps rs c \<Longrightarrow> alignment m ps (r # rs) (Suc c)"

inductive_cases alignment_consE: "alignment m (p # ps) (r # rs) c"
inductive_cases alignment_nil_left: "alignment m [] rs c"
inductive_cases alignment_nil_right: "alignment m ps [] c"

fun edit_cost :: "('a \<Rightarrow> 'b \<Rightarrow> bool) \<Rightarrow> 'a list \<Rightarrow> 'b list \<Rightarrow> nat" where
  "edit_cost m [] rs = length rs"
| "edit_cost m ps [] = length ps"
| "edit_cost m (p # ps) (r # rs) =
     min (min (edit_cost m ps rs + (if m p r then 0 else 2)) (edit_cost m (p # ps) rs + 1))
       (edit_cost m ps (r # rs) + 1)"

lemma edit_cost_Nil2 [simp]: "edit_cost m ps [] = length ps"
  by (cases ps) simp_all

lemma alignment_all_payload: "alignment m ps [] (length ps)"
  by (induction ps) (auto intro: alignment.intros)

lemma alignment_all_reference: "alignment m [] rs (length rs)"
  by (induction rs) (auto intro: alignment.intros)

lemma edit_cost_attained: "alignment m ps rs (edit_cost m ps rs)"
proof (induction m ps rs rule: edit_cost.induct)
  case (1 m rs)
  show ?case by (simp add: alignment_all_reference)
next
  case (2 m p ps)
  show ?case using alignment_all_payload [of m "p # ps"] by simp
next
  case (3 m p ps r rs)
  have sub: "alignment m (p # ps) (r # rs) (edit_cost m ps rs + (if m p r then 0 else 2))"
    using "3.IH"(1) by (auto intro: al_match al_payload al_reference)
  have "alignment m (p # ps) (r # rs) (edit_cost m (p # ps) rs + 1)"
    using "3.IH"(2) by (simp add: al_reference)
  moreover have "alignment m (p # ps) (r # rs) (edit_cost m ps (r # rs) + 1)"
    using "3.IH"(3) by (simp add: al_payload)
  ultimately show ?case using sub by (auto simp: min_def simp del: One_nat_def)
qed

lemma edit_cost_gap_payload: "edit_cost m (p # ps) rs \<le> Suc (edit_cost m ps rs)"
  by (cases rs) auto

lemma edit_cost_gap_reference: "edit_cost m ps (r # rs) \<le> Suc (edit_cost m ps rs)"
  by (cases ps) auto

lemma edit_cost_least: "alignment m ps rs c \<Longrightarrow> edit_cost m ps rs \<le> c"
proof (induction rule: alignment.induct)
  case (al_payload ps rs c p)
  then show ?case using edit_cost_gap_payload [of m p ps rs] by simp
next
  case (al_reference ps rs c r)
  then show ?case using edit_cost_gap_reference [of m ps r rs] by simp
qed auto

lemma edit_cost_le_lengths: "edit_cost m ps rs \<le> length ps + length rs"
  by (induction m ps rs rule: edit_cost.induct) auto

subsection \<open>Concatenation, reversal, swapping the sides\<close>

lemma alignment_append:
  "alignment m ps rs c \<Longrightarrow> alignment m ps' rs' c' \<Longrightarrow> alignment m (ps @ ps') (rs @ rs') (c + c')"
  by (induction rule: alignment.induct) (auto intro: alignment.intros)

lemma alignment_rev: "alignment m ps rs c \<Longrightarrow> alignment m (rev ps) (rev rs) c"
proof (induction rule: alignment.induct)
  case (al_match p r ps rs c)
  have "alignment m [p] [r] 0" using al_match.hyps(1) by (auto intro: alignment.intros)
  from alignment_append [OF al_match.IH this] show ?case by simp
next
  case (al_payload ps rs c p)
  have "alignment m [p] [] 1" using alignment_all_payload [of m "[p]"] by simp
  from alignment_append [OF al_payload.IH this] show ?case by simp
next
  case (al_reference ps rs c r)
  have "alignment m [] [r] 1" using alignment_all_reference [of m "[r]"] by simp
  from alignment_append [OF al_reference.IH this] show ?case by simp
qed (simp add: al_nil)

lemma edit_cost_rev: "edit_cost m (rev ps) (rev rs) = edit_cost m ps rs"
proof (rule antisym)
  show "edit_cost m (rev ps) (rev rs) \<le> edit_cost m ps rs"
    by (rule edit_cost_least [OF alignment_rev [OF edit_cost_attained]])
  show "edit_cost m ps rs \<le> edit_cost m (rev ps) (rev rs)"
    using edit_cost_least [OF alignment_rev [OF edit_cost_attained [of m "rev ps" "rev rs"]]] by simp
qed

lemma edit_cost_snoc:
  "edit_cost m (ps @ [p]) (rs @ [r]) =
     min (min (edit_cost m ps rs + (if m p r then 0 else 2)) (edit_cost m (ps @ [p]) rs + 1))
       (edit_cost m ps (rs @ [r]) + 1)"
proof -
  have "edit_cost m (ps @ [p]) (rs @ [r]) = edit_cost m (p # rev ps) (r # rev rs)"
    using edit_cost_rev [of m "ps @ [p]" "rs @ [r]"] by simp
  also have "\<dots> = min (min (edit_cost m ps rs + (if m p r then 0 else 2)) (edit_cost m (ps @ [p]) rs + 1))
       (edit_cost m ps (rs @ [r]) + 1)"
    using edit_cost_rev [of m ps rs] edit_cost_rev [of m "ps @ [p]" rs] edit_cost_rev [of m ps "rs @ [r]"]
    by simp
  finally show ?thesis .
qed

subsection \<open>Splitting the reference\<close>

lemma alignment_split:
  "alignment m ps rs c \<Longrightarrow> rs = rs1 @ rs2 \<Longrightarrow>
     \<exists>k c1 c2. k \<le> length ps \<and> c = c1 + c2 \<and> alignment m (take k ps) rs1 c1 \<and>
       alignment m (drop k ps) rs2 c2"
proof (induction arbitrary: rs1 rule: alignment.induct)
  case al_nil
  then show ?case by (intro exI [of _ 0]) (auto intro: alignment.intros)
next
  case (al_match p r ps rs c)
  show ?case
  proof (cases rs1)
    case Nil
    with al_match show ?thesis
      by (intro exI [of _ 0] exI [of _ 0] exI [of _ c]) (auto intro: alignment.intros)
  next
    case (Cons x xs)
    with al_match.prems al_match.IH [of xs] obtain k c1 c2 where
      "k \<le> length ps" "c = c1 + c2" "alignment m (take k ps) xs c1" "alignment m (drop k ps) rs2 c2"
      by auto
    with Cons al_match.prems al_match.hyps(1) show ?thesis
      by (intro exI [of _ "Suc k"] exI [of _ c1] exI [of _ c2]) (auto intro: alignment.intros)
  qed
next
  case (al_payload ps rs c p)
  from al_payload.IH [OF al_payload.prems] obtain k c1 c2 where
    "k \<le> length ps" "c = c1 + c2" "alignment m (take k ps) rs1 c1" "alignment m (drop k ps) rs2 c2"
    by auto
  then show ?case
    by (intro exI [of _ "Suc k"] exI [of _ "Suc c1"] exI [of _ c2]) (auto intro: alignment.intros)
next
  case (al_reference ps rs c r)
  show ?case
  proof (cases rs1)
    case Nil
    with al_reference show ?thesis
      by (intro exI [of _ 0] exI [of _ 0] exI [of _ "Suc c"]) (auto intro: alignment.intros)
  next
    case (Cons x xs)
    with al_reference.prems al_reference.IH [of xs] obtain k c1 c2 where
      "k \<le> length ps" "c = c1 + c2" "alignment m (take k ps) xs c1" "alignment m (drop k ps) rs2 c2"
      by auto
    with Cons al_reference.prems show ?thesis
      by (intro exI [of _ k] exI [of _ "Suc c1"] exI [of _ c2]) (auto intro: alignment.intros)
  qed
qed

lemma edit_cost_split_le:
  "edit_cost m ps (rs1 @ rs2) \<le> edit_cost m (take k ps) rs1 + edit_cost m (drop k ps) rs2"
  using edit_cost_least [OF alignment_append [OF edit_cost_attained [of m "take k ps" rs1]
        edit_cost_attained [of m "drop k ps" rs2]]]
  by simp

lemma edit_cost_split_ex:
  "\<exists>k \<le> length ps. edit_cost m ps (rs1 @ rs2) = edit_cost m (take k ps) rs1 + edit_cost m (drop k ps) rs2"
proof -
  obtain k c1 c2 where k: "k \<le> length ps" "edit_cost m ps (rs1 @ rs2) = c1 + c2"
    "alignment m (take k ps) rs1 c1" "alignment m (drop k ps) rs2 c2"
    using alignment_split [OF edit_cost_attained [of m ps "rs1 @ rs2"] refl] by blast
  with edit_cost_least [OF k(3)] edit_cost_least [OF k(4)] edit_cost_split_le [of m ps rs1 rs2 k]
  show ?thesis by (intro exI [of _ k]) auto
qed

subsection \<open>Stripping matched ends\<close>

lemma alignment_drop_payload:
  "alignment m ps rs c \<Longrightarrow> ps = p # qs \<Longrightarrow> \<exists>c'. c' \<le> Suc c \<and> alignment m qs rs c'"
proof (induction arbitrary: qs rule: alignment.induct)
  case (al_reference ps rs c r)
  then obtain c' where "c' \<le> Suc c" "alignment m qs rs c'" by blast
  then show ?case by (intro exI [of _ "Suc c'"]) (auto intro: alignment.intros)
qed (auto intro: alignment.intros le_SucI)

lemma alignment_drop_reference:
  "alignment m ps rs c \<Longrightarrow> rs = r # qs \<Longrightarrow> \<exists>c'. c' \<le> Suc c \<and> alignment m ps qs c'"
proof (induction arbitrary: qs rule: alignment.induct)
  case (al_payload ps rs c p)
  then obtain c' where "c' \<le> Suc c" "alignment m ps qs c'" by blast
  then show ?case by (intro exI [of _ "Suc c'"]) (auto intro: alignment.intros)
qed (auto intro: alignment.intros le_SucI)

lemma edit_cost_match:
  assumes "m p r"
  shows "edit_cost m (p # ps) (r # rs) = edit_cost m ps rs"
proof -
  from alignment_drop_payload [OF edit_cost_attained refl, of m p ps rs]
  have "edit_cost m ps rs \<le> Suc (edit_cost m (p # ps) rs)"
    using edit_cost_least le_trans by blast
  moreover from alignment_drop_reference [OF edit_cost_attained refl, of m ps r rs]
  have "edit_cost m ps rs \<le> Suc (edit_cost m ps (r # rs))"
    using edit_cost_least le_trans by blast
  ultimately show ?thesis using assms by simp
qed

lemma edit_cost_strip_prefix:
  "list_all2 m xs ys \<Longrightarrow> edit_cost m (xs @ ps) (ys @ rs) = edit_cost m ps rs"
  by (induction rule: list_all2_induct) (simp_all only: append_Cons append_Nil edit_cost_match)

lemma edit_cost_strip_suffix:
  assumes "list_all2 m xs ys"
  shows "edit_cost m (ps @ xs) (rs @ ys) = edit_cost m ps rs"
proof -
  from assms have "list_all2 m (rev xs) (rev ys)" by simp
  from edit_cost_strip_prefix [OF this, of "rev ps" "rev rs"]
  show ?thesis using edit_cost_rev [of m "ps @ xs" "rs @ ys"] edit_cost_rev [of m ps rs] by simp
qed

end
