(* ===== verification/Dp_Align.thy ===== *)
theory Dp_Align
  imports Alignment_Spec Work_Control Domain
begin

text \<open>
  Hirschberg sequence alignment
  (\<^verbatim>\<open>crates/batchalign-transform/src/dp_align/mod.rs\<close>, \<^verbatim>\<open>comparison.rs\<close>): the comparison modes,
  prefix and suffix stripping, the divide-and-conquer recursion, the two score rows and the
  full-table aligner with its flat table and traceback. Indices and scores are natural numbers;
  the code's \<^verbatim>\<open>usize::MAX\<close> and its saturating operations are written out. Every function takes
  the \<^verbatim>\<open>WorkControl\<close> and calls it where the code does. The theorems show that every public
  aligner returns, that what it returns is an in-order alignment that covers both sequences and
  leaves as few elements alone as any alignment can, and that a run under any control that is
  not interrupted gives the uninterrupted result.
\<close>

subsection \<open>Comparison of elements\<close>

datatype literal_match_mode = LiteralExact | AsciiInsensitive

text \<open>\<^verbatim>\<open>impl Alignable for String\<close>\<close>

definition string_matches :: "literal_match_mode \<Rightarrow> string \<Rightarrow> string \<Rightarrow> bool" where
  "string_matches policy a b =
     (case policy of LiteralExact \<Rightarrow> a = b | AsciiInsensitive \<Rightarrow> eq_ignore_ascii_case a b)"

definition string_to_key :: "string \<Rightarrow> string" where
  "string_to_key s = s"

text \<open>
  \<^verbatim>\<open>impl Alignable for char\<close>: a \<^verbatim>\<open>char\<close> is its code point, \<^verbatim>\<open>char::eq_ignore_ascii_case\<close> folds
  \<^verbatim>\<open>A\<close> to \<^verbatim>\<open>Z\<close> only, and \<^verbatim>\<open>to_string\<close> is the UTF-8 encoding.
\<close>

type_synonym rust_char = nat

definition char_ascii_lower :: "rust_char \<Rightarrow> rust_char" where
  "char_ascii_lower c = (if 65 \<le> c \<and> c \<le> 90 then c + 32 else c)"

definition char_matches :: "literal_match_mode \<Rightarrow> rust_char \<Rightarrow> rust_char \<Rightarrow> bool" where
  "char_matches policy a b =
     (case policy of LiteralExact \<Rightarrow> a = b
      | AsciiInsensitive \<Rightarrow> char_ascii_lower a = char_ascii_lower b)"

definition char_to_key :: "rust_char \<Rightarrow> string" where
  "char_to_key c =
     map char_of
       (if c < 0x80 then [c]
        else if c < 0x800 then [0xC0 + c div 0x40, 0x80 + c mod 0x40]
        else if c < 0x10000 then [0xE0 + c div 0x1000, 0x80 + c div 0x40 mod 0x40, 0x80 + c mod 0x40]
        else [0xF0 + c div 0x40000, 0x80 + c div 0x1000 mod 0x40, 0x80 + c div 0x40 mod 0x40,
              0x80 + c mod 0x40])"

text \<open>
  \<open>fuzzy_ops\<close> is what fuzzy matching uses from outside the repository: the Unicode table behind
  \<^verbatim>\<open>str::to_lowercase\<close>, \<^verbatim>\<open>strsim::jaro_winkler\<close>, and the comparison \<^verbatim>\<open>>=\<close> of \<^verbatim>\<open>f64\<close> (whose values
  are the type \<open>'f\<close>).
\<close>

record 'f fuzzy_ops =
  to_lowercase :: "string \<Rightarrow> string"
  jaro_winkler :: "string \<Rightarrow> string \<Rightarrow> 'f"
  f64_ge :: "'f \<Rightarrow> 'f \<Rightarrow> bool"

record prepared_fuzzy_word =
  original :: string
  lowercase :: string

definition prepared_fuzzy_word_new :: "'f fuzzy_ops \<Rightarrow> string \<Rightarrow> prepared_fuzzy_word" where
  "prepared_fuzzy_word_new F w = \<lparr>original = w, lowercase = to_lowercase F w\<rparr>"

definition fuzzy_matches ::
  "'f fuzzy_ops \<Rightarrow> 'f \<Rightarrow> prepared_fuzzy_word \<Rightarrow> prepared_fuzzy_word \<Rightarrow> bool" where
  "fuzzy_matches F threshold a b \<longleftrightarrow>
     eq_ignore_ascii_case (original a) (original b) \<or>
     f64_ge F (jaro_winkler F (lowercase a) (lowercase b)) threshold"

definition fuzzy_to_key :: "prepared_fuzzy_word \<Rightarrow> string" where
  "fuzzy_to_key w = original w"

subsection \<open>Results and costs\<close>

definition COST_SUB :: nat where "COST_SUB = 2"
definition COST_GAP :: nat where "COST_GAP = 1"
definition SMALL_CUTOFF :: nat where "SMALL_CUTOFF = 2048"

datatype align_result =
    Match string nat nat
  | ExtraPayload string nat
  | ExtraReference string nat

datatype 'f match_mode = Exact | CaseInsensitive | Fuzzy 'f

subsection \<open>Score rows\<close>

text \<open>
  One cell of a row: \<open>prev\<close> is the previous row, \<open>cur\<close> the part of this row already pushed.
  Positions outside a row are never read; \<^verbatim>\<open>prev[0]\<close> exists because a row has one more cell than
  the payload.
\<close>

definition row_cell ::
  "('a \<Rightarrow> 'a \<Rightarrow> bool) \<Rightarrow> nat list \<Rightarrow> 'a \<Rightarrow> nat \<times> 'a \<Rightarrow> nat list \<Rightarrow> nat list" where
  "row_cell matches prev ref_item ip cur =
     (let (pay_idx, pay_item) = ip;
          is_match = matches ref_item pay_item;
          sub_cost = prev ! pay_idx + (if is_match then 0 else COST_SUB);
          del_cost = prev ! (pay_idx + 1) + COST_GAP;
          ins_cost = cur ! pay_idx + COST_GAP
      in cur @ [min (min sub_cost del_cost) ins_cost])"

definition row_pass ::
  "('s, 'e) work_control \<Rightarrow> ('a \<Rightarrow> 'a \<Rightarrow> bool) \<Rightarrow> 'a list \<Rightarrow> 'a \<Rightarrow> nat list \<Rightarrow>
   ('s, 'e, nat list) controlled" where
  "row_pass C matches payload ref_item prev =
     ctl_bind (ctl_check C) (\<lambda>_.
     ctl_bind (ctl_work C (usat_add (length payload) 1)) (\<lambda>_.
     ctl_for (enumerate 0 payload)
       (\<lambda>ip cur.
          ctl_bind (if fst ip mod 1024 = 0 then ctl_check C else ctl_return ()) (\<lambda>_.
          ctl_return (row_cell matches prev ref_item ip cur)))
       [prev ! 0 + COST_GAP]))"

definition row_costs ::
  "('s, 'e) work_control \<Rightarrow> ('a \<Rightarrow> 'a \<Rightarrow> bool) \<Rightarrow> 'a list \<Rightarrow> 'a list \<Rightarrow>
   ('s, 'e, nat list) controlled" where
  "row_costs C matches reference payload =
     ctl_bind (ctl_work C (usat_add (length payload) 1)) (\<lambda>_.
     ctl_for reference (row_pass C matches payload) [0..<length payload + 1])"

definition row_costs_rev ::
  "('s, 'e) work_control \<Rightarrow> ('a \<Rightarrow> 'a \<Rightarrow> bool) \<Rightarrow> 'a list \<Rightarrow> 'a list \<Rightarrow>
   ('s, 'e, nat list) controlled" where
  "row_costs_rev C matches reference payload =
     ctl_bind (ctl_work C (usat_add (length payload) 1)) (\<lambda>_.
     ctl_for (rev reference) (row_pass C matches (rev payload)) [0..<length payload + 1])"

subsection \<open>The full-table aligner\<close>

datatype action = ActStart | ActMatch | ActSubstitution | ActExtraPayload | ActExtraReference

type_synonym dp_cell = "nat \<times> action \<times> nat \<times> nat"

definition small_init :: "nat \<Rightarrow> nat \<Rightarrow> dp_cell list" where
  "small_init rows cols =
     (let dp = replicate (rows * cols) (0, ActStart, 0, 0);
          dp = fold (\<lambda>i dp. dp[i * cols + 0 := (i * COST_GAP, ActExtraReference, i - 1, 0)]) [1..<rows] dp
      in fold (\<lambda>j dp. dp[0 * cols + j := (j * COST_GAP, ActExtraPayload, 0, j - 1)]) [1..<cols] dp)"

definition small_cell ::
  "('a \<Rightarrow> 'a \<Rightarrow> bool) \<Rightarrow> 'a list \<Rightarrow> 'a list \<Rightarrow> nat \<Rightarrow> nat \<Rightarrow> nat \<Rightarrow> dp_cell list \<Rightarrow> dp_cell list" where
  "small_cell matches payload reference cols i j dp =
     (let is_match = matches (reference ! (i - 1)) (payload ! (j - 1));
          sub_cost = fst (dp ! ((i - 1) * cols + (j - 1))) + (if is_match then 0 else COST_SUB);
          del_cost = fst (dp ! ((i - 1) * cols + j)) + COST_GAP;
          ins_cost = fst (dp ! (i * cols + (j - 1))) + COST_GAP
      in if sub_cost \<le> del_cost \<and> sub_cost \<le> ins_cost
         then dp[i * cols + j :=
                (sub_cost, if is_match then ActMatch else ActSubstitution, i - 1, j - 1)]
         else if del_cost \<le> sub_cost \<and> del_cost \<le> ins_cost
         then dp[i * cols + j := (del_cost, ActExtraReference, i - 1, j)]
         else dp[i * cols + j := (ins_cost, ActExtraPayload, i, j - 1)])"

text \<open>What one step of the traceback pushes.\<close>

definition trace_push ::
  "('a \<Rightarrow> string) \<Rightarrow> 'a list \<Rightarrow> 'a list \<Rightarrow> nat \<Rightarrow> nat \<Rightarrow> action \<Rightarrow> nat \<Rightarrow> nat \<Rightarrow>
   align_result list" where
  "trace_push to_key payload reference pay_offset ref_offset action pi pj =
     (case action of
        ActMatch \<Rightarrow> [Match (to_key (reference ! pi)) (pay_offset + pj) (ref_offset + pi)]
      | ActSubstitution \<Rightarrow>
          [ExtraPayload (to_key (payload ! pj)) (pay_offset + pj),
           ExtraReference (to_key (reference ! pi)) (ref_offset + pi)]
      | ActExtraPayload \<Rightarrow> [ExtraPayload (to_key (payload ! pj)) (pay_offset + pj)]
      | ActExtraReference \<Rightarrow> [ExtraReference (to_key (reference ! pi)) (ref_offset + pi)]
      | ActStart \<Rightarrow> [])"

text \<open>
  The \<^verbatim>\<open>while i > 0 || j > 0\<close> loop. It ends because of what the table holds, not because of its
  own text, so it is a partial function: \<^const>\<open>None\<close> is a loop that does not end.
\<close>

partial_function (option) traceback ::
  "('s, 'e) work_control \<Rightarrow> ('a \<Rightarrow> string) \<Rightarrow> 'a list \<Rightarrow> 'a list \<Rightarrow> nat \<Rightarrow> nat \<Rightarrow> nat \<Rightarrow>
   dp_cell list \<Rightarrow> nat \<Rightarrow> nat \<Rightarrow> align_result list \<Rightarrow> 's \<Rightarrow>
   (('e, align_result list) result \<times> 's) option" where
  "traceback C to_key payload reference pay_offset ref_offset cols dp i j output s =
     (if \<not> (i > 0 \<or> j > 0) then Some (Ok output, s)
      else case dp ! (i * cols + j) of (_, action, pi, pj) \<Rightarrow>
        (case wc_alignment_work C (if action = ActSubstitution then 2 else 1) s of
           (Inl e, s') \<Rightarrow> Some (Err e, s')
         | (Inr _, s') \<Rightarrow>
             if action = ActStart then Some (Ok output, s')
             else traceback C to_key payload reference pay_offset ref_offset cols dp pi pj
                    (output @ trace_push to_key payload reference pay_offset ref_offset action pi pj) s'))"

declare traceback.simps [code]

definition align_small ::
  "('s, 'e) work_control \<Rightarrow> ('a \<Rightarrow> 'a \<Rightarrow> bool) \<Rightarrow> ('a \<Rightarrow> string) \<Rightarrow> 'a list \<Rightarrow> 'a list \<Rightarrow> nat \<Rightarrow> nat \<Rightarrow>
   ('s, 'e, align_result list) controlled" where
  "align_small C matches to_key payload reference pay_offset ref_offset =
     (let rows = length reference + 1;
          cols = length payload + 1;
          cells = usat_mul rows cols
      in ctl_bind (ctl_storage C cells) (\<lambda>_.
         ctl_bind (ctl_work C cells) (\<lambda>_.
         ctl_bind
           (ctl_for [1..<rows]
              (\<lambda>i. ctl_for [1..<cols]
                 (\<lambda>j dp. ctl_bind (if j mod 1024 = 1 then ctl_check C else ctl_return ()) (\<lambda>_.
                    ctl_return (small_cell matches payload reference cols i j dp))))
              (small_init rows cols)) (\<lambda>dp.
         ctl_bind
           (traceback C to_key payload reference pay_offset ref_offset cols dp (rows - 1) (cols - 1) [])
           (\<lambda>output. ctl_return (rev output))))))"

subsection \<open>Hirschberg recursion\<close>

text \<open>The scan for the cheapest split: \<open>(best, split)\<close>, starting at \<^verbatim>\<open>(usize::MAX, 0)\<close>.\<close>

definition best_split :: "nat list \<Rightarrow> nat list \<Rightarrow> nat \<Rightarrow> nat \<times> nat" where
  "best_split score_left score_right pay_len =
     fold (\<lambda>k (best, split).
         let cost = score_left ! k + score_right ! (pay_len - k)
         in if cost < best then (cost, k) else (best, split))
       [0..<pay_len + 1] (usize_max, 0)"

function (sequential) hirschberg ::
  "('s, 'e) work_control \<Rightarrow> ('a \<Rightarrow> 'a \<Rightarrow> bool) \<Rightarrow> ('a \<Rightarrow> string) \<Rightarrow> 'a list \<Rightarrow> 'a list \<Rightarrow> nat \<Rightarrow> nat \<Rightarrow>
   ('s, 'e, align_result list) controlled" where
  "hirschberg C matches to_key payload reference pay_offset ref_offset =
     ctl_bind (ctl_check C) (\<lambda>_.
     if reference = [] then
       ctl_bind (ctl_work C (length payload)) (\<lambda>_.
       ctl_return (map (\<lambda>(i, k). ExtraPayload (to_key k) (pay_offset + i)) (enumerate 0 payload)))
     else if payload = [] then
       ctl_bind (ctl_work C (length reference)) (\<lambda>_.
       ctl_return (map (\<lambda>(i, k). ExtraReference (to_key k) (ref_offset + i)) (enumerate 0 reference)))
     else if length reference \<le> 1 \<or> length payload \<le> 1 \<or>
       usat_mul (length reference) (length payload) \<le> SMALL_CUTOFF then
       align_small C matches to_key payload reference pay_offset ref_offset
     else
       (let mid = length reference div 2;
            left_ref = take mid reference;
            right_ref = drop mid reference
        in ctl_bind (ctl_storage C (usat_mul (usat_add (length payload) 1) 3)) (\<lambda>_.
           ctl_bind (row_costs C matches left_ref payload) (\<lambda>score_left.
           ctl_bind (row_costs_rev C matches right_ref payload) (\<lambda>score_right.
           ctl_bind (ctl_work C (usat_add (length payload) 1)) (\<lambda>_.
           (let split = snd (best_split score_left score_right (length payload))
            in ctl_bind (hirschberg C matches to_key (take split payload) left_ref pay_offset ref_offset)
                 (\<lambda>left_result.
               ctl_bind (hirschberg C matches to_key (drop split payload) right_ref (pay_offset + split)
                   (ref_offset + mid)) (\<lambda>right_result.
               ctl_bind (ctl_work C (length right_result)) (\<lambda>_.
               ctl_return (left_result @ right_result)))))))))))"
  by pat_completeness auto

termination
  by (relation "measure (\<lambda>(C, matches, to_key, payload, reference, pay_offset, ref_offset).
        length reference)") auto

declare hirschberg.simps [simp del]

subsection \<open>Stripping and the entry points\<close>

text \<open>The length of the run of matching pairs at the front of two lists, with the loop's calls.\<close>

fun matching_run ::
  "('s, 'e) work_control \<Rightarrow> ('a \<Rightarrow> 'a \<Rightarrow> bool) \<Rightarrow> ('a \<times> 'a) list \<Rightarrow> nat \<Rightarrow> ('s, 'e, nat) controlled" where
  "matching_run C matches [] len = ctl_return len"
| "matching_run C matches ((p, r) # prs) len =
     ctl_bind (ctl_work C 1) (\<lambda>_.
     if \<not> matches p r then ctl_return len else matching_run C matches prs (len + 1))"

definition align_generic ::
  "('s, 'e) work_control \<Rightarrow> ('a \<Rightarrow> 'a \<Rightarrow> bool) \<Rightarrow> ('a \<Rightarrow> string) \<Rightarrow> 'a list \<Rightarrow> 'a list \<Rightarrow>
   ('s, 'e, align_result list) controlled" where
  "align_generic C matches to_key payload reference =
     ctl_bind (ctl_check C) (\<lambda>_.
     ctl_bind (matching_run C matches (zip payload reference) 0) (\<lambda>prefix_len.
     ctl_bind (matching_run C matches
         (zip (rev (drop prefix_len payload)) (rev (drop prefix_len reference))) 0) (\<lambda>suffix_len.
     ctl_bind (ctl_work C prefix_len) (\<lambda>_.
     (let result = map (\<lambda>(i, ref_item). Match (to_key ref_item) i i)
            (take prefix_len (enumerate 0 reference));
          mid_pay = drop prefix_len (take (length payload - suffix_len) payload);
          mid_ref = drop prefix_len (take (length reference - suffix_len) reference)
      in ctl_bind (hirschberg C matches to_key mid_pay mid_ref prefix_len prefix_len) (\<lambda>middle.
         ctl_bind (ctl_work C (usat_add (length middle) suffix_len)) (\<lambda>_.
         (let pay_suffix_start = length payload - suffix_len;
              ref_suffix_start = length reference - suffix_len
          in ctl_return (result @ middle @
               map (\<lambda>i. Match (to_key (reference ! (ref_suffix_start + i))) (pay_suffix_start + i)
                     (ref_suffix_start + i)) [0..<suffix_len])))))))))"

definition align_controlled ::
  "'f fuzzy_ops \<Rightarrow> ('s, 'e) work_control \<Rightarrow> string list \<Rightarrow> string list \<Rightarrow> 'f match_mode \<Rightarrow>
   ('s, 'e, align_result list) controlled" where
  "align_controlled F C payload reference mode =
     ctl_bind (ctl_check C) (\<lambda>_.
     case mode of
       Exact \<Rightarrow> align_generic C (string_matches LiteralExact) string_to_key payload reference
     | CaseInsensitive \<Rightarrow>
         align_generic C (string_matches AsciiInsensitive) string_to_key payload reference
     | Fuzzy threshold \<Rightarrow>
         ctl_bind (ctl_work C (usat_add (length payload) (length reference))) (\<lambda>_.
         align_generic C (fuzzy_matches F threshold) fuzzy_to_key
           (map (prepared_fuzzy_word_new F) payload) (map (prepared_fuzzy_word_new F) reference)))"

definition align ::
  "'f fuzzy_ops \<Rightarrow> string list \<Rightarrow> string list \<Rightarrow> 'f match_mode \<Rightarrow> align_result list option" where
  "align F payload reference mode =
     uninterrupted (align_controlled F (Uninterrupted :: (unit, unit) work_control) payload reference mode) ()"

definition align_chars ::
  "rust_char list \<Rightarrow> rust_char list \<Rightarrow> 'f match_mode \<Rightarrow> align_result list option" where
  "align_chars payload reference mode =
     (let m = (case mode of Exact \<Rightarrow> LiteralExact | CaseInsensitive \<Rightarrow> AsciiInsensitive
               | Fuzzy _ \<Rightarrow> AsciiInsensitive)
      in uninterrupted (align_generic (Uninterrupted :: (unit, unit) work_control) (char_matches m) char_to_key
           payload reference) ())"

subsection \<open>What a result says\<close>

text \<open>
  \<open>aligned m key ps rs i j out\<close>: \<open>out\<close> walks both sequences in order from the positions \<open>i\<close> and
  \<open>j\<close>, names every element of both exactly once by its key and index, and pairs only elements
  that match. \<open>gaps\<close> is the cost of such a result: the elements left alone.
\<close>

fun aligned ::
  "('a \<Rightarrow> 'a \<Rightarrow> bool) \<Rightarrow> ('a \<Rightarrow> string) \<Rightarrow> 'a list \<Rightarrow> 'a list \<Rightarrow> nat \<Rightarrow> nat \<Rightarrow> align_result list \<Rightarrow> bool" where
  "aligned m key ps rs i j [] \<longleftrightarrow> ps = [] \<and> rs = []"
| "aligned m key ps rs i j (Match k a b # out) \<longleftrightarrow>
     (case (ps, rs) of
        (p # ps', r # rs') \<Rightarrow> m p r \<and> k = key r \<and> a = i \<and> b = j \<and> aligned m key ps' rs' (Suc i) (Suc j) out
      | _ \<Rightarrow> False)"
| "aligned m key ps rs i j (ExtraPayload k a # out) \<longleftrightarrow>
     (case ps of p # ps' \<Rightarrow> k = key p \<and> a = i \<and> aligned m key ps' rs (Suc i) j out | [] \<Rightarrow> False)"
| "aligned m key ps rs i j (ExtraReference k b # out) \<longleftrightarrow>
     (case rs of r # rs' \<Rightarrow> k = key r \<and> b = j \<and> aligned m key ps rs' i (Suc j) out | [] \<Rightarrow> False)"

fun is_match :: "align_result \<Rightarrow> bool" where
  "is_match (Match _ _ _) = True"
| "is_match _ = False"

definition gaps :: "align_result list \<Rightarrow> nat" where
  "gaps out = length (filter (\<lambda>x. \<not> is_match x) out)"

lemma gaps_simps [simp]:
  "gaps [] = 0" "gaps (Match k a b # out) = gaps out"
  "gaps (ExtraPayload k a # out) = Suc (gaps out)" "gaps (ExtraReference k b # out) = Suc (gaps out)"
  "gaps (xs @ ys) = gaps xs + gaps ys" "gaps (rev xs) = gaps xs"
  by (simp_all add: gaps_def rev_filter [symmetric])

lemma aligned_append:
  "aligned m key ps rs i j out \<Longrightarrow> aligned m key ps' rs' (i + length ps) (j + length rs) out' \<Longrightarrow>
     aligned m key (ps @ ps') (rs @ rs') i j (out @ out')"
  by (induction m key ps rs i j out rule: aligned.induct) (auto split: list.splits)

lemma aligned_alignment: "aligned m key ps rs i j out \<Longrightarrow> alignment m ps rs (gaps out)"
  by (induction m key ps rs i j out rule: aligned.induct)
    (auto split: list.splits intro: alignment.intros)

lemma aligned_gaps_least: "aligned m key ps rs i j out \<Longrightarrow> edit_cost m ps rs \<le> gaps out"
  by (rule edit_cost_least [OF aligned_alignment])

text \<open>A result that covers both sequences at least cost.\<close>

definition optimal ::
  "('a \<Rightarrow> 'a \<Rightarrow> bool) \<Rightarrow> ('a \<Rightarrow> string) \<Rightarrow> 'a list \<Rightarrow> 'a list \<Rightarrow> nat \<Rightarrow> nat \<Rightarrow> align_result list \<Rightarrow> bool" where
  "optimal m key ps rs i j out \<longleftrightarrow> aligned m key ps rs i j out \<and> gaps out = edit_cost m ps rs"

lemma optimal_append:
  assumes "optimal m key ps rs i j out" and "optimal m key ps' rs' (i + length ps) (j + length rs) out'"
    and "edit_cost m (ps @ ps') (rs @ rs') = edit_cost m ps rs + edit_cost m ps' rs'"
  shows "optimal m key (ps @ ps') (rs @ rs') i j (out @ out')"
  using assms by (simp add: optimal_def aligned_append)

lemma optimal_minimal:
  "optimal m key ps rs i j out \<Longrightarrow> aligned m key ps rs i j out' \<Longrightarrow> gaps out \<le> gaps out'"
  using aligned_gaps_least [of m key ps rs i j out'] by (simp add: optimal_def)

lemma optimal_extra_payload:
  "optimal m key ps [] i j (map (\<lambda>(n, k). ExtraPayload (key k) (i + n)) (enumerate 0 ps))"
proof -
  have "aligned m key ps [] (i + n0) j (map (\<lambda>(n, k). ExtraPayload (key k) (i + n)) (enumerate n0 ps)) \<and>
      gaps (map (\<lambda>(n, k). ExtraPayload (key k) (i + n)) (enumerate n0 ps)) = length ps" for n0
  proof (induction ps arbitrary: n0)
    case (Cons p ps)
    from Cons.IH [of "Suc n0"] show ?case by simp
  qed simp
  from this [of 0] show ?thesis by (simp add: optimal_def)
qed

lemma optimal_extra_reference:
  "optimal m key [] rs i j (map (\<lambda>(n, k). ExtraReference (key k) (j + n)) (enumerate 0 rs))"
proof -
  have "aligned m key [] rs i (j + n0) (map (\<lambda>(n, k). ExtraReference (key k) (j + n)) (enumerate n0 rs)) \<and>
      gaps (map (\<lambda>(n, k). ExtraReference (key k) (j + n)) (enumerate n0 rs)) = length rs" for n0
  proof (induction rs arbitrary: n0)
    case (Cons r rs)
    from Cons.IH [of "Suc n0"] show ?case by simp
  qed simp
  from this [of 0] show ?thesis by (simp add: optimal_def)
qed

subsection \<open>Score rows\<close>

text \<open>The comparison is written reference first; \<open>paired\<close> turns it to payload first.\<close>

definition paired :: "('a \<Rightarrow> 'a \<Rightarrow> bool) \<Rightarrow> 'a \<Rightarrow> 'a \<Rightarrow> bool" where
  "paired matches p r = matches r p"

text \<open>The row the passes compute: the cost of every prefix of the payload.\<close>

definition score_row :: "('a \<Rightarrow> 'a \<Rightarrow> bool) \<Rightarrow> 'a list \<Rightarrow> 'a list \<Rightarrow> nat list" where
  "score_row matches reference payload =
     map (\<lambda>k. edit_cost (paired matches) (take k payload) reference) [0..<length payload + 1]"

lemma map_upt_nth: "k < n \<Longrightarrow> map f [0..<n] ! k = f k"
  by simp

lemma score_row_nth:
  "k \<le> length payload \<Longrightarrow>
     score_row matches reference payload ! k = edit_cost (paired matches) (take k payload) reference"
  by (simp add: score_row_def map_upt_nth del: upt_Suc)

lemma row_cells:
  assumes "prev = score_row matches rs (xs @ ys)"
  shows "fold (row_cell matches prev r) (enumerate (length xs) ys)
       (map (\<lambda>k. edit_cost (paired matches) (take k (xs @ ys)) (rs @ [r])) [0..<length xs + 1]) =
     score_row matches (rs @ [r]) (xs @ ys)"
  using assms
proof (induction ys arbitrary: xs)
  case Nil
  then show ?case by (simp add: score_row_def)
next
  case (Cons y ys)
  let ?cur = "map (\<lambda>k. edit_cost (paired matches) (take k (xs @ y # ys)) (rs @ [r])) [0..<length xs + 1]"
  have at: "prev ! length xs = edit_cost (paired matches) xs rs"
    "prev ! (length xs + 1) = edit_cost (paired matches) (xs @ [y]) rs"
    "?cur ! length xs = edit_cost (paired matches) xs (rs @ [r])"
    using Cons.prems by (simp_all add: score_row_nth nth_append del: upt_Suc)
  have "row_cell matches prev r (length xs, y) ?cur = ?cur @ [edit_cost (paired matches) (xs @ [y]) (rs @ [r])]"
    unfolding row_cell_def Let_def prod.case at COST_SUB_def COST_GAP_def
    by (simp only: edit_cost_snoc paired_def)
  also have "\<dots> =
      map (\<lambda>k. edit_cost (paired matches) (take k (xs @ y # ys)) (rs @ [r])) [0..<length (xs @ [y]) + 1]"
    by simp
  finally have "row_cell matches prev r (length xs, y) ?cur = \<dots>" .
  with Cons.IH [of "xs @ [y]"] Cons.prems show ?case by simp
qed

lemma answers_row_pass:
  assumes "prev = score_row matches rs payload"
  shows "answers C (row_pass C matches payload r prev) (score_row matches (rs @ [r]) payload)"
proof -
  have "answers C (ctl_for (enumerate 0 payload)
       (\<lambda>ip cur.
          ctl_bind (if fst ip mod 1024 = 0 then ctl_check C else ctl_return ()) (\<lambda>_.
          ctl_return (row_cell matches prev r ip cur))) [prev ! 0 + COST_GAP])
      (fold (row_cell matches prev r) (enumerate 0 payload) [prev ! 0 + COST_GAP])"
    by (intro answers_for answers_then answering)
  moreover have "prev ! 0 + COST_GAP = Suc (length rs)"
    using assms by (simp add: COST_GAP_def score_row_nth)
  moreover have "map (\<lambda>k. edit_cost (paired matches) (take k payload) (rs @ [r])) [0..<length ([] :: 'a list) + 1] =
      [Suc (length rs)]" by simp
  ultimately show ?thesis
    using row_cells [of prev matches rs "[]" payload r] assms
    unfolding row_pass_def by (intro answers_then answering) simp
qed

lemma answers_row_passes:
  assumes "prev = score_row matches rs payload"
  shows "answers C (ctl_for rs' (row_pass C matches payload) prev) (score_row matches (rs @ rs') payload)"
  using assms
proof (induction rs' arbitrary: rs prev)
  case Nil
  then show ?case by (simp add: answers_return)
next
  case (Cons r rs')
  from Cons.IH [OF refl, of "rs @ [r]"] answers_row_pass [OF Cons.prems, of C r]
  show ?case by (simp add: answers_bind)
qed

lemma score_row_start: "[0..<length payload + 1] = score_row matches [] payload"
  by (auto intro!: nth_equalityI simp: score_row_def simp del: upt_Suc)

lemma answers_row_costs: "answers C (row_costs C matches reference payload) (score_row matches reference payload)"
  using answers_row_passes [OF score_row_start, of C reference matches payload]
  unfolding row_costs_def by (intro answers_then answering) simp

lemma answers_row_costs_rev:
  "answers C (row_costs_rev C matches reference payload) (score_row matches (rev reference) (rev payload))"
  using answers_row_passes [OF score_row_start, of C "rev reference" matches "rev payload"]
  unfolding row_costs_rev_def by (intro answers_then answering) simp

lemma score_row_rev_nth:
  assumes "k \<le> length payload"
  shows "score_row matches (rev reference) (rev payload) ! (length payload - k) =
    edit_cost (paired matches) (drop k payload) reference"
  using assms edit_cost_rev [of "paired matches" "drop k payload" reference]
  by (simp add: score_row_nth rev_drop)

subsection \<open>The flat table\<close>

text \<open>The entry the table holds at row \<open>i\<close> and column \<open>j\<close>, in terms of the least costs of the prefixes.\<close>

fun small_entry :: "('a \<Rightarrow> 'a \<Rightarrow> bool) \<Rightarrow> 'a list \<Rightarrow> 'a list \<Rightarrow> nat \<Rightarrow> nat \<Rightarrow> dp_cell" where
  "small_entry m ps rs 0 0 = (0, ActStart, 0, 0)"
| "small_entry m ps rs (Suc i) 0 = (Suc i, ActExtraReference, i, 0)"
| "small_entry m ps rs 0 (Suc j) = (Suc j, ActExtraPayload, 0, j)"
| "small_entry m ps rs (Suc i) (Suc j) =
     (let match = m (ps ! j) (rs ! i);
          sub_cost = edit_cost m (take j ps) (take i rs) + (if match then 0 else 2);
          del_cost = edit_cost m (take (Suc j) ps) (take i rs) + 1;
          ins_cost = edit_cost m (take j ps) (take (Suc i) rs) + 1
      in if sub_cost \<le> del_cost \<and> sub_cost \<le> ins_cost
         then (sub_cost, if match then ActMatch else ActSubstitution, i, j)
         else if del_cost \<le> sub_cost \<and> del_cost \<le> ins_cost then (del_cost, ActExtraReference, i, Suc j)
         else (ins_cost, ActExtraPayload, Suc i, j))"

lemma small_entry_cost:
  "i \<le> length rs \<Longrightarrow> j \<le> length ps \<Longrightarrow>
     fst (small_entry m ps rs i j) = edit_cost m (take j ps) (take i rs)"
proof (induction m ps rs i j rule: small_entry.induct)
  case (4 m ps rs i j)
  then have "edit_cost m (take (Suc j) ps) (take (Suc i) rs) =
      edit_cost m (take j ps @ [ps ! j]) (take i rs @ [rs ! i])"
    by (simp add: take_Suc_conv_app_nth)
  moreover have "take (Suc j) ps = take j ps @ [ps ! j]" "take (Suc i) rs = take i rs @ [rs ! i]"
    using 4 by (simp_all add: take_Suc_conv_app_nth)
  ultimately show ?case unfolding edit_cost_snoc by (auto simp: Let_def min_def)
qed simp_all

lemma flat_index_inj:
  fixes cols :: nat
  assumes "j < cols" and "j' < cols" and "i * cols + j = i' * cols + j'"
  shows "i = i' \<and> j = j'"
proof -
  have "(i * cols + j) div cols = i" "(i' * cols + j') div cols = i'" using assms(1,2) by simp_all
  with assms(3) show ?thesis by auto
qed

lemma flat_index_bound:
  fixes cols :: nat
  assumes "i < rows" and "j < cols"
  shows "i * cols + j < rows * cols"
proof -
  have "i * cols + j < Suc i * cols" using assms(2) by simp
  also have "\<dots> \<le> rows * cols" using assms(1) by (intro mult_le_mono1) simp
  finally show ?thesis .
qed

text \<open>\<open>filled\<close>: the table holds the entries of the positions \<open>D\<close>.\<close>

definition filled ::
  "('a \<Rightarrow> 'a \<Rightarrow> bool) \<Rightarrow> 'a list \<Rightarrow> 'a list \<Rightarrow> (nat \<times> nat) set \<Rightarrow> dp_cell list \<Rightarrow> bool" where
  "filled m ps rs D dp \<longleftrightarrow> length dp = (length rs + 1) * (length ps + 1) \<and>
     (\<forall>(i, j) \<in> D. i \<le> length rs \<and> j \<le> length ps \<and> dp ! (i * (length ps + 1) + j) = small_entry m ps rs i j)"

lemma filled_update:
  assumes "filled m ps rs D dp" and "i \<le> length rs" and "j \<le> length ps"
  shows "filled m ps rs (insert (i, j) D) (dp[i * (length ps + 1) + j := small_entry m ps rs i j])"
proof -
  let ?cols = "length ps + 1"
  have len: "length dp = (length rs + 1) * ?cols" using assms(1) unfolding filled_def by blast
  have "i * ?cols + j < (length rs + 1) * ?cols" using assms(2,3) by (intro flat_index_bound) auto
  with len have at: "i * ?cols + j < length dp" by (simp only:)
  have "dp[i * ?cols + j := small_entry m ps rs i j] ! (i' * ?cols + j') = small_entry m ps rs i' j'"
    if "(i', j') \<in> insert (i, j) D" for i' j'
  proof (cases "(i', j') = (i, j)")
    case True
    with at show ?thesis by (simp del: mult_Suc_right add_Suc_right)
  next
    case False
    with that have "(i', j') \<in> D" by auto
    with assms(1) have "j' < ?cols" "dp ! (i' * ?cols + j') = small_entry m ps rs i' j'"
      unfolding filled_def by auto
    with False assms(3) flat_index_inj [of j ?cols j' i i']
    have "i * ?cols + j \<noteq> i' * ?cols + j'" by auto
    from nth_list_update_neq [OF this, of dp] \<open>dp ! (i' * ?cols + j') = small_entry m ps rs i' j'\<close>
    show ?thesis by (simp only:)
  qed
  moreover have "i' \<le> length rs \<and> j' \<le> length ps" if "(i', j') \<in> insert (i, j) D" for i' j'
    using that assms unfolding filled_def by auto
  ultimately show ?thesis using len unfolding filled_def by auto
qed

lemma filled_mono: "filled m ps rs D dp \<Longrightarrow> D' \<subseteq> D \<Longrightarrow> filled m ps rs D' dp"
  unfolding filled_def by blast

lemma filled_first_column:
  assumes "filled m ps rs D dp" and "n \<le> length rs + 1"
  shows "filled m ps rs (D \<union> {1..<n} \<times> {0})
    (fold (\<lambda>i dp. dp[i * (length ps + 1) + 0 := (i * COST_GAP, ActExtraReference, i - 1, 0)]) [1..<n] dp)"
  using assms(2)
proof (induction n)
  case (Suc n)
  show ?case
  proof (cases n)
    case 0
    with assms(1) show ?thesis by simp
  next
    case (Suc k)
    have "filled m ps rs (insert (n, 0) (D \<union> {1..<n} \<times> {0}))
        ((fold (\<lambda>i dp. dp[i * (length ps + 1) + 0 := (i * COST_GAP, ActExtraReference, i - 1, 0)]) [1..<n] dp)
          [n * (length ps + 1) + 0 := small_entry m ps rs n 0])"
      using Suc.prems Suc.IH by (intro filled_update) auto
    moreover have "insert (n, 0) (D \<union> {1..<n} \<times> {0}) = D \<union> {1..<Suc n} \<times> {0}" using Suc by auto
    ultimately show ?thesis using Suc by (simp add: COST_GAP_def)
  qed
qed (use assms(1) in simp)

lemma filled_first_row:
  assumes "filled m ps rs D dp" and "n \<le> length ps + 1"
  shows "filled m ps rs (D \<union> {0} \<times> {1..<n})
    (fold (\<lambda>j dp. dp[0 * (length ps + 1) + j := (j * COST_GAP, ActExtraPayload, 0, j - 1)]) [1..<n] dp)"
  using assms(2)
proof (induction n)
  case (Suc n)
  show ?case
  proof (cases n)
    case 0
    with assms(1) show ?thesis by simp
  next
    case (Suc k)
    have "filled m ps rs (insert (0, n) (D \<union> {0} \<times> {1..<n}))
        ((fold (\<lambda>j dp. dp[0 * (length ps + 1) + j := (j * COST_GAP, ActExtraPayload, 0, j - 1)]) [1..<n] dp)
          [0 * (length ps + 1) + n := small_entry m ps rs 0 n])"
      using Suc.prems Suc.IH by (intro filled_update) auto
    moreover have "insert (0, n) (D \<union> {0} \<times> {1..<n}) = D \<union> {0} \<times> {1..<Suc n}" using Suc by auto
    ultimately show ?thesis using Suc by (simp add: COST_GAP_def)
  qed
qed (use assms(1) in simp)

definition borders :: "'a list \<Rightarrow> 'a list \<Rightarrow> (nat \<times> nat) set" where
  "borders ps rs = {0..length rs} \<times> {0} \<union> {0} \<times> {0..length ps}"

lemma filled_init: "filled m ps rs (borders ps rs) (small_init (length rs + 1) (length ps + 1))"
proof -
  have "filled m ps rs {(0, 0)} (replicate ((length rs + 1) * (length ps + 1)) (0, ActStart, 0, 0))"
    by (simp add: filled_def)
  from filled_first_row [OF filled_first_column [OF this order_refl] order_refl]
  have "filled m ps rs ({(0, 0)} \<union> {1..<length rs + 1} \<times> {0} \<union> {0} \<times> {1..<length ps + 1})
      (small_init (length rs + 1) (length ps + 1))"
    unfolding small_init_def Let_def .
  then show ?thesis by (rule filled_mono) (auto simp: borders_def)
qed

lemma filled_cell:
  assumes "filled (paired matches) ps rs D dp" and "(i, j) \<in> D" and "(i, Suc j) \<in> D" and "(Suc i, j) \<in> D"
  shows "filled (paired matches) ps rs (insert (Suc i, Suc j) D)
    (small_cell matches ps rs (length ps + 1) (Suc i) (Suc j) dp)"
proof -
  let ?e = "\<lambda>i j. dp ! (i * (length ps + 1) + j)"
  have le: "Suc i \<le> length rs" "Suc j \<le> length ps"
    and cells: "?e i j = small_entry (paired matches) ps rs i j"
      "?e i (Suc j) = small_entry (paired matches) ps rs i (Suc j)"
      "?e (Suc i) j = small_entry (paired matches) ps rs (Suc i) j"
    using assms unfolding filled_def by auto
  have costs: "fst (small_entry (paired matches) ps rs i j) = edit_cost (paired matches) (take j ps) (take i rs)"
    "fst (small_entry (paired matches) ps rs i (Suc j)) = edit_cost (paired matches) (take (Suc j) ps) (take i rs)"
    "fst (small_entry (paired matches) ps rs (Suc i) j) = edit_cost (paired matches) (take j ps) (take (Suc i) rs)"
    using le by (auto intro: small_entry_cost)
  have "small_cell matches ps rs (length ps + 1) (Suc i) (Suc j) dp =
      dp[Suc i * (length ps + 1) + Suc j := small_entry (paired matches) ps rs (Suc i) (Suc j)]"
    unfolding small_cell_def diff_Suc_1 cells costs small_entry.simps Let_def COST_SUB_def COST_GAP_def paired_def
    by (simp only: if_distrib [of "\<lambda>x. dp[Suc i * (length ps + 1) + Suc j := x]"] split: if_split)
  then show ?thesis using filled_update [OF assms(1) le] by (simp only:)
qed

lemma filled_row:
  assumes "filled (paired matches) ps rs D dp" and "{i} \<times> {0..length ps} \<subseteq> D" and "(Suc i, 0) \<in> D"
    and "n \<le> length ps + 1"
  shows "filled (paired matches) ps rs (D \<union> {Suc i} \<times> {1..<n})
    (fold (small_cell matches ps rs (length ps + 1) (Suc i)) [1..<n] dp)"
  using assms(4)
proof (induction n)
  case (Suc n)
  show ?case
  proof (cases n)
    case 0
    with assms(1) show ?thesis by simp
  next
    case (Suc k)
    let ?D = "D \<union> {Suc i} \<times> {1..<n}"
    let ?dp = "fold (small_cell matches ps rs (length ps + 1) (Suc i)) [1..<n] dp"
    have "filled (paired matches) ps rs (insert (Suc i, Suc k) ?D)
        (small_cell matches ps rs (length ps + 1) (Suc i) (Suc k) ?dp)"
    proof (rule filled_cell)
      show "filled (paired matches) ps rs ?D ?dp" using Suc.IH Suc.prems by simp
      show "(i, k) \<in> ?D" "(i, Suc k) \<in> ?D" using assms(2) Suc.prems Suc by auto
      show "(Suc i, k) \<in> ?D" using assms(3) Suc by (cases k) auto
    qed
    moreover have "insert (Suc i, Suc k) ?D = D \<union> {Suc i} \<times> {1..<Suc n}" using Suc by auto
    ultimately show ?thesis using Suc by simp
  qed
qed (use assms(1) in simp)

lemma filled_rows:
  assumes "n \<le> length rs + 1"
  shows "filled (paired matches) ps rs (borders ps rs \<union> {1..<n} \<times> {1..<length ps + 1})
    (fold (\<lambda>i. fold (small_cell matches ps rs (length ps + 1) i) [1..<length ps + 1]) [1..<n]
      (small_init (length rs + 1) (length ps + 1)))"
  using assms
proof (induction n)
  case 0
  show ?case using filled_init [of "paired matches" ps rs] by simp
next
  case (Suc n)
  show ?case
  proof (cases n)
    case 0
    with filled_init [of "paired matches" ps rs] show ?thesis by simp
  next
    case (Suc k)
    let ?D = "borders ps rs \<union> {1..<n} \<times> {1..<length ps + 1}"
    let ?dp = "fold (\<lambda>i. fold (small_cell matches ps rs (length ps + 1) i) [1..<length ps + 1]) [1..<n]
      (small_init (length rs + 1) (length ps + 1))"
    have "filled (paired matches) ps rs (?D \<union> {Suc k} \<times> {1..<length ps + 1})
        (fold (small_cell matches ps rs (length ps + 1) (Suc k)) [1..<length ps + 1] ?dp)"
    proof (rule filled_row [OF _ _ _ order_refl])
      show "filled (paired matches) ps rs ?D ?dp" using Suc.IH Suc.prems by simp
      show "{k} \<times> {0..length ps} \<subseteq> ?D"
      proof (cases k)
        case 0
        then show ?thesis by (auto simp: borders_def)
      next
        case (Suc l)
        with \<open>n = Suc k\<close> Suc.prems show ?thesis by (auto simp: borders_def)
      qed
      show "(Suc k, 0) \<in> ?D" using Suc Suc.prems by (auto simp: borders_def)
    qed
    moreover have "?D \<union> {Suc k} \<times> {1..<length ps + 1} = borders ps rs \<union> {1..<Suc n} \<times> {1..<length ps + 1}"
      using Suc by auto
    ultimately show ?thesis using Suc by (simp del: upt_Suc add: upt_Suc_append)
  qed
qed

text \<open>Every position of the completed table.\<close>

lemma table_complete:
  assumes "i \<le> length rs" and "j \<le> length ps"
  shows "fold (\<lambda>i. fold (small_cell matches ps rs (length ps + 1) i) [1..<length ps + 1]) [1..<length rs + 1]
      (small_init (length rs + 1) (length ps + 1)) ! (i * (length ps + 1) + j) =
    small_entry (paired matches) ps rs i j"
proof -
  have "(i, j) \<in> borders ps rs \<union> {1..<length rs + 1} \<times> {1..<length ps + 1}"
    using assms by (auto simp: borders_def)
  with filled_rows [of "length rs + 1" rs matches ps] show ?thesis unfolding filled_def by blast
qed

subsection \<open>Traceback\<close>

text \<open>
  The reference definition of the full-table aligner: recursion over the prefixes, no table, no
  loop. The result is in the order the traceback pushes, last element first.
\<close>

fun small_path ::
  "('a \<Rightarrow> 'a \<Rightarrow> bool) \<Rightarrow> ('a \<Rightarrow> string) \<Rightarrow> 'a list \<Rightarrow> 'a list \<Rightarrow> nat \<Rightarrow> nat \<Rightarrow> nat \<Rightarrow> nat \<Rightarrow>
   align_result list" where
  "small_path m key ps rs po ro 0 0 = []"
| "small_path m key ps rs po ro (Suc i) 0 =
     ExtraReference (key (rs ! i)) (ro + i) # small_path m key ps rs po ro i 0"
| "small_path m key ps rs po ro 0 (Suc j) =
     ExtraPayload (key (ps ! j)) (po + j) # small_path m key ps rs po ro 0 j"
| "small_path m key ps rs po ro (Suc i) (Suc j) =
     (let match = m (ps ! j) (rs ! i);
          sub_cost = edit_cost m (take j ps) (take i rs) + (if match then 0 else 2);
          del_cost = edit_cost m (take (Suc j) ps) (take i rs) + 1;
          ins_cost = edit_cost m (take j ps) (take (Suc i) rs) + 1
      in if sub_cost \<le> del_cost \<and> sub_cost \<le> ins_cost
         then (if match then [Match (key (rs ! i)) (po + j) (ro + i)]
               else [ExtraPayload (key (ps ! j)) (po + j), ExtraReference (key (rs ! i)) (ro + i)]) @
              small_path m key ps rs po ro i j
         else if del_cost \<le> sub_cost \<and> del_cost \<le> ins_cost
         then ExtraReference (key (rs ! i)) (ro + i) # small_path m key ps rs po ro i (Suc j)
         else ExtraPayload (key (ps ! j)) (po + j) # small_path m key ps rs po ro (Suc i) j)"

lemma answers_trace_step:
  assumes "i > 0 \<or> j > 0" and "dp ! (i * cols + j) = (c, action, pi, pj)" and "action \<noteq> ActStart"
    and "answers C (traceback C key ps rs po ro cols dp pi pj
      (acc @ trace_push key ps rs po ro action pi pj)) v"
  shows "answers C (traceback C key ps rs po ro cols dp i j acc) v"
proof -
  have "traceback C key ps rs po ro cols dp i j acc =
      ctl_bind (ctl_work C (if action = ActSubstitution then 2 else 1)) (\<lambda>_.
        traceback C key ps rs po ro cols dp pi pj (acc @ trace_push key ps rs po ro action pi pj))"
    (is "_ = ?rest")
  proof (rule ext)
    show "traceback C key ps rs po ro cols dp i j acc s = ?rest s" for s
      using assms(1-3)
      by (subst traceback.simps) (auto simp: ctl_bind_def ctl_work_def split: sum.splits prod.splits)
  qed
  with assms(4) show ?thesis by (simp only:) (intro answers_then answering)
qed

lemma answers_traceback:
  assumes "\<And>i j. i \<le> length rs \<Longrightarrow> j \<le> length ps \<Longrightarrow>
      dp ! (i * (length ps + 1) + j) = small_entry m ps rs i j"
    and "i \<le> length rs" and "j \<le> length ps"
  shows "answers C (traceback C key ps rs po ro (length ps + 1) dp i j acc)
    (acc @ small_path m key ps rs po ro i j)"
  using assms(2,3)
proof (induction "i + j" arbitrary: i j acc rule: less_induct)
  case less
  note entry = assms(1) [OF less.prems]
  show ?case
  proof (cases "small_entry m ps rs i j")
    case (fields c act pi pj)
    show ?thesis
    proof (cases "i = 0 \<and> j = 0")
      case True
      have "traceback C key ps rs po ro (length ps + 1) dp 0 0 acc = ctl_return acc"
        by (rule ext) (subst traceback.simps, simp add: ctl_return_def)
      with True show ?thesis by (simp add: answers_return)
    next
      case False
      have step: "act \<noteq> ActStart \<and> pi + pj < i + j \<and> pi \<le> i \<and> pj \<le> j \<and>
          small_path m key ps rs po ro i j =
            trace_push key ps rs po ro act pi pj @ small_path m key ps rs po ro pi pj"
        using fields False
        by (cases i; cases j) (auto simp: trace_push_def Let_def split: if_splits)
      then have "answers C (traceback C key ps rs po ro (length ps + 1) dp pi pj
          (acc @ trace_push key ps rs po ro act pi pj))
        ((acc @ trace_push key ps rs po ro act pi pj) @ small_path m key ps rs po ro pi pj)"
        using less.prems by (intro less.hyps) auto
      with step fields entry False show ?thesis
        by (intro answers_trace_step [of i j dp _ c act pi pj]) auto
    qed
  qed
qed

text \<open>The path is an alignment of the prefixes at least cost.\<close>

lemma optimal_small_path:
  "i \<le> length rs \<Longrightarrow> j \<le> length ps \<Longrightarrow>
     optimal m key (take j ps) (take i rs) po ro (rev (small_path m key ps rs po ro i j))"
proof (induction m key ps rs po ro i j rule: small_path.induct)
  case (1 m key ps rs po ro)
  show ?case by (simp add: optimal_def)
next
  case (2 m key ps rs po ro i)
  then show ?case
    by (auto simp: optimal_def take_Suc_conv_app_nth intro: aligned_append [where ps' = "[]", simplified])
next
  case (3 m key ps rs po ro j)
  then show ?case
    by (auto simp: optimal_def take_Suc_conv_app_nth intro: aligned_append [where rs' = "[]", simplified])
next
  case (4 m key ps rs po ro i j)
  let ?sub = "edit_cost m (take j ps) (take i rs) + (if m (ps ! j) (rs ! i) then 0 else 2)"
  let ?del = "edit_cost m (take (Suc j) ps) (take i rs) + 1"
  let ?ins = "edit_cost m (take j ps) (take (Suc i) rs) + 1"
  have ps: "take (Suc j) ps = take j ps @ [ps ! j]" and rs: "take (Suc i) rs = take i rs @ [rs ! i]"
    and len: "length (take j ps) = j" "length (take i rs) = i"
    using "4.prems" by (simp_all add: take_Suc_conv_app_nth)
  have cost: "edit_cost m (take j ps @ [ps ! j]) (take i rs @ [rs ! i]) = min (min ?sub ?del) ?ins"
    unfolding edit_cost_snoc ps rs by simp
  consider (sub) "?sub \<le> ?del \<and> ?sub \<le> ?ins" | (del) "\<not> (?sub \<le> ?del \<and> ?sub \<le> ?ins)" "?del \<le> ?sub \<and> ?del \<le> ?ins"
    | (ins) "\<not> (?sub \<le> ?del \<and> ?sub \<le> ?ins)" "\<not> (?del \<le> ?sub \<and> ?del \<le> ?ins)" by blast
  then show ?case
  proof cases
    case sub
    then have "edit_cost m (take j ps @ [ps ! j]) (take i rs @ [rs ! i]) = ?sub" using cost by simp
    moreover have "optimal m key (take j ps) (take i rs) po ro (rev (small_path m key ps rs po ro i j))"
      by (rule "4.IH"(1) [OF refl refl refl refl sub]) (use "4.prems" in simp_all)
    ultimately show ?thesis
      using sub len unfolding ps rs optimal_def small_path.simps Let_def by (auto intro!: aligned_append)
  next
    case del
    then have "edit_cost m (take j ps @ [ps ! j]) (take i rs @ [rs ! i]) = ?del" using cost by simp
    moreover have "optimal m key (take (Suc j) ps) (take i rs) po ro
        (rev (small_path m key ps rs po ro i (Suc j)))"
      by (rule "4.IH"(2) [OF refl refl refl refl del]) (use "4.prems" in simp_all)
    ultimately show ?thesis
      using del len aligned_append [of m key "take j ps @ [ps ! j]" "take i rs" po ro _ "[]" "[rs ! i]"]
      unfolding ps rs optimal_def small_path.simps Let_def by auto
  next
    case ins
    then have "edit_cost m (take j ps @ [ps ! j]) (take i rs @ [rs ! i]) = ?ins" using cost by auto
    moreover have "optimal m key (take j ps) (take (Suc i) rs) po ro
        (rev (small_path m key ps rs po ro (Suc i) j))"
      by (rule "4.IH"(3) [OF refl refl refl refl ins]) (use "4.prems" in simp_all)
    ultimately show ?thesis
      using ins len aligned_append [of m key "take j ps" "take i rs @ [rs ! i]" po ro _ "[ps ! j]" "[]"]
      unfolding ps rs optimal_def small_path.simps Let_def by auto
  qed
qed

lemma answers_align_small:
  "answers C (align_small C matches key ps rs po ro)
     (rev (small_path (paired matches) key ps rs po ro (length rs) (length ps)))"
proof -
  let ?dp = "fold (\<lambda>i. fold (small_cell matches ps rs (length ps + 1) i) [1..<length ps + 1])
    [1..<length rs + 1] (small_init (length rs + 1) (length ps + 1))"
  have table: "answers C (ctl_for [1..<length rs + 1]
       (\<lambda>i. ctl_for [1..<length ps + 1]
          (\<lambda>j dp. ctl_bind (if j mod 1024 = 1 then ctl_check C else ctl_return ()) (\<lambda>_.
             ctl_return (small_cell matches ps rs (length ps + 1) i j dp))))
       (small_init (length rs + 1) (length ps + 1))) ?dp"
    by (intro answers_for answers_then answering)
  have trace: "answers C (traceback C key ps rs po ro (length ps + 1) ?dp
      (length rs + 1 - 1) (length ps + 1 - 1) [])
      (small_path (paired matches) key ps rs po ro (length rs) (length ps))"
    using answers_traceback [of rs ps ?dp "paired matches" "length rs" "length ps" C key po ro "[]"]
      table_complete [of _ rs _ ps matches]
    by simp
  show ?thesis
    unfolding align_small_def Let_def
    by (intro answers_then answers_bind [OF table] answers_bind [OF trace] answering)
qed

text \<open>
  C32. The full-table aligner with its flat table, its in-place updates and its traceback loop
  returns what the table-free recursion over prefixes returns, under every control: it ends,
  reads only entries it wrote, and fails only with an error the control raised.
\<close>

theorem align_small_refines:
  "\<exists>r s'. align_small C matches key ps rs po ro s = Some (r, s') \<and>
     (r = Ok (rev (small_path (paired matches) key ps rs po ro (length rs) (length ps))) \<or>
      (\<exists>e. r = Err e \<and> raised C e))"
  using answers_align_small [of C matches key ps rs po ro] unfolding answers_def by blast

subsection \<open>Divide and conquer\<close>

lemma best_split_min:
  assumes "\<exists>k \<le> n. l ! k + r ! (n - k) < usize_max"
  shows "case best_split l r n of (best, split) \<Rightarrow>
    split \<le> n \<and> best = l ! split + r ! (n - split) \<and> (\<forall>k \<le> n. best \<le> l ! k + r ! (n - k))"
proof -
  let ?f = "\<lambda>k. l ! k + r ! (n - k)"
  let ?scan = "\<lambda>N. fold (\<lambda>k (best, split). let cost = ?f k in if cost < best then (cost, k) else (best, split))
    [0..<N] (usize_max, 0)"
  have "case ?scan N of (best, split) \<Rightarrow> best \<le> usize_max \<and> (\<forall>k < N. best \<le> ?f k) \<and>
      (best = usize_max \<or> split < N \<and> best = ?f split)" for N
  proof (induction N)
    case (Suc N)
    obtain best split where "?scan N = (best, split)" by fastforce
    with Suc show ?case by (auto simp: Let_def less_Suc_eq)
  qed simp
  from this [of "Suc n"] assms show ?thesis
    unfolding best_split_def by (auto simp: less_Suc_eq_le split: prod.splits)
qed

lemma split_optimal:
  assumes "length ps + length (rs1 @ rs2) < usize_max"
    and "split = snd (best_split (score_row matches rs1 ps) (score_row matches (rev rs2) (rev ps)) (length ps))"
  shows "split \<le> length ps"
    and "edit_cost (paired matches) ps (rs1 @ rs2) =
      edit_cost (paired matches) (take split ps) rs1 + edit_cost (paired matches) (drop split ps) rs2"
proof -
  let ?l = "score_row matches rs1 ps" and ?r = "score_row matches (rev rs2) (rev ps)"
  let ?c = "\<lambda>k. edit_cost (paired matches) (take k ps) rs1 + edit_cost (paired matches) (drop k ps) rs2"
  have at: "?l ! k + ?r ! (length ps - k) = ?c k" if "k \<le> length ps" for k
    using that score_row_rev_nth [OF that, of matches rs2] by (simp add: score_row_nth [OF that])
  obtain k where k: "k \<le> length ps" "edit_cost (paired matches) ps (rs1 @ rs2) = ?c k"
    using edit_cost_split_ex [of ps "paired matches" rs1 rs2] by auto
  moreover have "edit_cost (paired matches) ps (rs1 @ rs2) < usize_max"
    using edit_cost_le_lengths [of "paired matches" ps "rs1 @ rs2"] assms(1) by simp
  ultimately have "?l ! k + ?r ! (length ps - k) < usize_max" using at by simp
  with k(1) have "\<exists>k \<le> length ps. ?l ! k + ?r ! (length ps - k) < usize_max" by blast
  note best = best_split_min [OF this]
  obtain b where b: "best_split ?l ?r (length ps) = (b, split)" using assms(2) by (cases "best_split ?l ?r (length ps)") simp
  note best = best [unfolded b prod.case]
  have "split \<le> length ps \<and> (\<forall>k \<le> length ps. ?c split \<le> ?c k)"
  proof (intro conjI allI impI)
    show "split \<le> length ps" using best by blast
    show "?c split \<le> ?c k" if "k \<le> length ps" for k
      using best at [OF that] at [of split] that by metis
  qed
  with k edit_cost_split_le [of "paired matches" ps rs1 rs2 split]
  show "split \<le> length ps" "edit_cost (paired matches) ps (rs1 @ rs2) = ?c split" by force+
qed

text \<open>The four branches of the recursion.\<close>

lemma answers_hirschberg_payload:
  "answers C (hirschberg C matches key ps [] po ro)
     (map (\<lambda>(i, k). ExtraPayload (key k) (po + i)) (enumerate 0 ps))"
  by (subst hirschberg.simps) (simp only: simp_thms if_True, intro answers_then answering)

lemma answers_hirschberg_reference:
  assumes "rs \<noteq> []"
  shows "answers C (hirschberg C matches key [] rs po ro)
    (map (\<lambda>(i, k). ExtraReference (key k) (ro + i)) (enumerate 0 rs))"
  by (subst hirschberg.simps) (simp only: assms simp_thms if_True if_False, intro answers_then answering)

lemma answers_hirschberg_small:
  assumes "rs \<noteq> []" and "ps \<noteq> []"
    and "length rs \<le> 1 \<or> length ps \<le> 1 \<or> usat_mul (length rs) (length ps) \<le> SMALL_CUTOFF"
  shows "answers C (hirschberg C matches key ps rs po ro)
    (rev (small_path (paired matches) key ps rs po ro (length rs) (length ps)))"
  by (subst hirschberg.simps) (simp only: assms simp_thms if_True if_False,
      intro answers_then answering answers_align_small)

lemma answers_hirschberg_split:
  assumes "rs \<noteq> []" and "ps \<noteq> []"
    and "\<not> (length rs \<le> 1 \<or> length ps \<le> 1 \<or> usat_mul (length rs) (length ps) \<le> SMALL_CUTOFF)"
    and "mid = length rs div 2"
    and "split = snd (best_split (score_row matches (take mid rs) ps)
      (score_row matches (rev (drop mid rs)) (rev ps)) (length ps))"
    and "answers C (hirschberg C matches key (take split ps) (take mid rs) po ro) left"
    and "answers C (hirschberg C matches key (drop split ps) (drop mid rs) (po + split) (ro + mid)) right"
  shows "answers C (hirschberg C matches key ps rs po ro) (left @ right)"
  by (subst hirschberg.simps) (simp only: assms(1-3) simp_thms if_False Let_def,
      intro answers_then answers_bind [OF answers_row_costs] answers_bind [OF answers_row_costs_rev]
        answers_bind [OF assms(6) [unfolded assms(4,5)]] answers_bind [OF assms(7) [unfolded assms(4,5)]] answering)

text \<open>
  Stated for two controls of any types, so that one of them can be \<^const>\<open>Uninterrupted\<close>: both runs
  answer the same result.
\<close>

lemma answers_hirschberg:
  assumes "length ps + length rs < usize_max"
  shows "\<exists>out. optimal (paired matches) key ps rs po ro out \<and>
    answers C (hirschberg C matches key ps rs po ro) out \<and>
    answers C' (hirschberg C' matches key ps rs po ro) out"
  using assms
proof (induction "length rs" arbitrary: ps rs po ro rule: less_induct)
  case less
  let ?m = "paired matches"
  consider (empty_ref) "rs = []" | (empty_pay) "rs \<noteq> []" "ps = []"
    | (small) "rs \<noteq> []" "ps \<noteq> []"
        "length rs \<le> 1 \<or> length ps \<le> 1 \<or> usat_mul (length rs) (length ps) \<le> SMALL_CUTOFF"
    | (split) "rs \<noteq> []" "ps \<noteq> []"
        "\<not> (length rs \<le> 1 \<or> length ps \<le> 1 \<or> usat_mul (length rs) (length ps) \<le> SMALL_CUTOFF)" by blast
  then show ?case
  proof cases
    case empty_ref
    show ?thesis unfolding empty_ref using optimal_extra_payload [of ?m key ps po ro]
        answers_hirschberg_payload [of C matches key ps po ro] answers_hirschberg_payload [of C' matches key ps po ro]
      by blast
  next
    case empty_pay
    show ?thesis unfolding empty_pay(2) using optimal_extra_reference [of ?m key rs po ro]
        answers_hirschberg_reference [OF empty_pay(1), of C matches key po ro]
        answers_hirschberg_reference [OF empty_pay(1), of C' matches key po ro]
      by blast
  next
    case small
    have "optimal ?m key ps rs po ro (rev (small_path ?m key ps rs po ro (length rs) (length ps)))"
      using optimal_small_path [of "length rs" rs "length ps" ps ?m key po ro] by simp
    with answers_hirschberg_small [OF small, of C matches key po ro]
      answers_hirschberg_small [OF small, of C' matches key po ro]
    show ?thesis by blast
  next
    case split
    define mid where "mid = length rs div 2"
    define cut where "cut = snd (best_split (score_row matches (take mid rs) ps)
      (score_row matches (rev (drop mid rs)) (rev ps)) (length ps))"
    have lens: "length (take mid rs) < length rs" "length (drop mid rs) < length rs" "mid \<le> length rs"
      using split(3) by (auto simp: mid_def)
    have small: "length (take cut ps) + length (take mid rs) < usize_max"
      "length (drop cut ps) + length (drop mid rs) < usize_max"
      using less.prems by (simp_all add: min_def)
    have "length ps + length (take mid rs @ drop mid rs) < usize_max" using less.prems by simp
    note best = split_optimal [OF this cut_def]
    obtain left where left: "optimal ?m key (take cut ps) (take mid rs) po ro left"
      "answers C (hirschberg C matches key (take cut ps) (take mid rs) po ro) left"
      "answers C' (hirschberg C' matches key (take cut ps) (take mid rs) po ro) left"
      using less.hyps [OF lens(1) small(1)] by blast
    obtain right where right: "optimal ?m key (drop cut ps) (drop mid rs) (po + cut) (ro + mid) right"
      "answers C (hirschberg C matches key (drop cut ps) (drop mid rs) (po + cut) (ro + mid)) right"
      "answers C' (hirschberg C' matches key (drop cut ps) (drop mid rs) (po + cut) (ro + mid)) right"
      using less.hyps [OF lens(2) small(2)] by blast
    have "optimal ?m key (take cut ps @ drop cut ps) (take mid rs @ drop mid rs) po ro (left @ right)"
      using left(1) right(1) best lens(3) by (intro optimal_append) (simp_all add: min_absorb2)
    then have "optimal ?m key ps rs po ro (left @ right)" by simp
    with answers_hirschberg_split [OF split mid_def cut_def left(2) right(2)]
      answers_hirschberg_split [OF split mid_def cut_def left(3) right(3)]
    show ?thesis by blast
  qed
qed

subsection \<open>Stripping\<close>

lemma answers_matching_run:
  "answers C (matching_run C matches prs n) (n + length (takeWhile (\<lambda>(p, r). matches p r) prs))"
proof (induction prs arbitrary: n)
  case (Cons pr prs)
  obtain p r where pr: "pr = (p, r)" by fastforce
  show ?case
  proof (cases "matches p r")
    case True
    with Cons.IH [of "n + 1"] pr show ?thesis by (simp add: answers_then answers_work)
  next
    case False
    with pr show ?thesis by (simp add: answers_then answering)
  qed
qed (simp add: answers_return)

lemma matching_run_pairs:
  assumes "n = length (takeWhile (\<lambda>(p, r). m p r) (zip ps rs))"
  shows "n \<le> length ps" "n \<le> length rs" "list_all2 m (take n ps) (take n rs)"
proof -
  have le: "n \<le> length (zip ps rs)" using assms by (simp only: length_takeWhile_le)
  then show "n \<le> length ps" "n \<le> length rs" by simp_all
  have "m (ps ! i) (rs ! i)" if "i < n" for i
    using that assms le nth_mem [of i "takeWhile (\<lambda>(p, r). m p r) (zip ps rs)"]
    by (auto simp: takeWhile_nth dest!: set_takeWhileD)
  with le show "list_all2 m (take n ps) (take n rs)" by (auto simp: list_all2_conv_all_nth)
qed

lemma aligned_matches:
  "list_all2 m xs ys \<Longrightarrow>
     aligned m key xs ys i j (map (\<lambda>n. Match (key (ys ! n)) (i + n) (j + n)) [0..<length ys])"
proof (induction xs ys arbitrary: i j rule: list_all2_induct)
  case (Cons x xs y ys)
  have "[0..<length (y # ys)] = 0 # map Suc [0..<length ys]" by (simp add: map_Suc_upt upt_conv_Cons del: upt_Suc)
  with Cons.hyps Cons.IH [of "Suc i" "Suc j"] show ?case by (simp add: comp_def del: upt_Suc)
qed simp

lemma gaps_matches: "gaps (map (\<lambda>n. Match (f n) (g n) (h n)) ns) = 0"
  by (induction ns) auto

lemma optimal_matches:
  assumes "list_all2 m xs ys"
  shows "optimal m key xs ys i j (map (\<lambda>n. Match (key (ys ! n)) (i + n) (j + n)) [0..<length ys])"
  using aligned_matches [OF assms, of key i j] edit_cost_strip_prefix [OF assms, of "[]" "[]"]
  unfolding optimal_def gaps_matches by simp

text \<open>The stripped prefix, the middle and the stripped suffix put together.\<close>

lemma optimal_stripped:
  assumes "list_all2 m ps1 rs1" and "optimal m key ps2 rs2 (length ps1) (length rs1) mid"
    and "list_all2 m ps3 rs3"
  shows "optimal m key (ps1 @ ps2 @ ps3) (rs1 @ rs2 @ rs3) 0 0
    (map (\<lambda>n. Match (key (rs1 ! n)) (0 + n) (0 + n)) [0..<length rs1] @ mid @
     map (\<lambda>n. Match (key (rs3 ! n)) (length ps1 + length ps2 + n) (length rs1 + length rs2 + n))
       [0..<length rs3])"
proof -
  have "edit_cost m ps1 rs1 = 0" "edit_cost m ps3 rs3 = 0"
    using edit_cost_strip_prefix [OF assms(1), of "[]" "[]"] edit_cost_strip_prefix [OF assms(3), of "[]" "[]"]
    by simp_all
  then show ?thesis
    using assms edit_cost_strip_prefix [OF assms(1), of "ps2 @ ps3" "rs2 @ rs3"]
      edit_cost_strip_suffix [OF assms(3), of ps2 rs2]
    by (intro optimal_append optimal_matches) (simp_all add: optimal_matches)
qed

definition stripped_result ::
  "('a \<Rightarrow> string) \<Rightarrow> 'a list \<Rightarrow> 'a list \<Rightarrow> nat \<Rightarrow> nat \<Rightarrow> align_result list \<Rightarrow> align_result list" where
  "stripped_result key payload reference p s mid =
     map (\<lambda>(i, r). Match (key r) i i) (take p (enumerate 0 reference)) @ mid @
     map (\<lambda>i. Match (key (reference ! (length reference - s + i))) (length payload - s + i)
       (length reference - s + i)) [0..<s]"

lemma answers_generic_parts:
  assumes "p = length (takeWhile (\<lambda>(p, r). matches p r) (zip payload reference))"
    and "s = length (takeWhile (\<lambda>(p, r). matches p r) (zip (rev (drop p payload)) (rev (drop p reference))))"
    and "answers C (hirschberg C matches key (drop p (take (length payload - s) payload))
      (drop p (take (length reference - s) reference)) p p) mid"
  shows "answers C (align_generic C matches key payload reference) (stripped_result key payload reference p s mid)"
proof -
  have p: "answers C (matching_run C matches (zip payload reference) 0) p"
    using answers_matching_run [of C matches "zip payload reference" 0] assms(1) by simp
  have s: "answers C (matching_run C matches (zip (rev (drop p payload)) (rev (drop p reference))) 0) s"
    using answers_matching_run [of C matches "zip (rev (drop p payload)) (rev (drop p reference))" 0] assms(2)
    by simp
  show ?thesis
    unfolding align_generic_def Let_def stripped_result_def
    by (intro answers_then answering answers_bind [OF p] answers_bind [OF s] answers_bind [OF assms(3)])
qed

lemma drop_take_parts:
  assumes "p + s \<le> length xs"
  shows "xs = take p xs @ drop p (take (length xs - s) xs) @ drop (length xs - s) xs"
proof -
  have "take (length xs - s) xs = take p (take (length xs - s) xs) @ drop p (take (length xs - s) xs)"
    by (simp only: append_take_drop_id)
  also have "take p (take (length xs - s) xs) = take p xs" using assms by (simp add: min_absorb1)
  finally show ?thesis by (metis append_assoc append_take_drop_id)
qed

lemma optimal_stripped_result:
  assumes p: "p = length (takeWhile (\<lambda>(p, r). m p r) (zip payload reference))"
    and s: "s = length (takeWhile (\<lambda>(p, r). m p r) (zip (rev (drop p payload)) (rev (drop p reference))))"
    and mid: "optimal m key (drop p (take (length payload - s) payload))
      (drop p (take (length reference - s) reference)) p p mid"
  shows "optimal m key payload reference 0 0 (stripped_result key payload reference p s mid)"
proof -
  let ?mp = "drop p (take (length payload - s) payload)" and ?mr = "drop p (take (length reference - s) reference)"
  let ?sp = "drop (length payload - s) payload" and ?sr = "drop (length reference - s) reference"
  note pre = matching_run_pairs [OF p]
  note suf = matching_run_pairs [OF s]
  have bounds: "p + s \<le> length payload" "p + s \<le> length reference" using pre suf by simp_all
  have "take s (rev (drop p payload)) = rev ?sp" "take s (rev (drop p reference)) = rev ?sr"
    using bounds by (simp_all add: take_rev)
  with suf(3) have ends: "list_all2 m ?sp ?sr" by simp
  have lens: "length (take p payload) = p" "length (take p reference) = p" "length ?sr = s"
    "p + length ?mp = length payload - s" "p + length ?mr = length reference - s"
    using bounds by simp_all
  have "map (\<lambda>(i, r). Match (key r) i i) (take p (enumerate 0 reference)) =
      map (\<lambda>n. Match (key (take p reference ! n)) (0 + n) (0 + n)) [0..<p]"
    using bounds by (intro nth_equalityI) (auto simp: nth_enumerate_eq)
  moreover have "map (\<lambda>i. Match (key (reference ! (length reference - s + i))) (length payload - s + i)
       (length reference - s + i)) [0..<s] =
      map (\<lambda>n. Match (key (?sr ! n)) (p + length ?mp + n) (p + length ?mr + n)) [0..<length ?sr]"
    using lens bounds by (intro nth_equalityI) auto
  ultimately have "stripped_result key payload reference p s mid =
      map (\<lambda>n. Match (key (take p reference ! n)) (0 + n) (0 + n)) [0..<length (take p reference)] @ mid @
      map (\<lambda>n. Match (key (?sr ! n)) (length (take p payload) + length ?mp + n)
        (length (take p reference) + length ?mr + n)) [0..<length ?sr]"
    unfolding stripped_result_def lens(1,2) by (simp only:)
  moreover have "optimal m key ?mp ?mr (length (take p payload)) (length (take p reference)) mid"
    using mid unfolding lens(1,2) .
  ultimately have "optimal m key (take p payload @ ?mp @ ?sp) (take p reference @ ?mr @ ?sr) 0 0
      (stripped_result key payload reference p s mid)"
    using optimal_stripped [OF pre(3) _ ends] by (simp only:)
  then show ?thesis using drop_take_parts [OF bounds(1)] drop_take_parts [OF bounds(2)] by (simp only:)
qed

lemma answers_align_generic:
  assumes "length payload + length reference < usize_max"
  shows "\<exists>out. ((\<forall>a b. matches a b = matches b a) \<longrightarrow> optimal matches key payload reference 0 0 out) \<and>
    answers C (align_generic C matches key payload reference) out \<and>
    answers C' (align_generic C' matches key payload reference) out"
proof -
  define p where "p = length (takeWhile (\<lambda>(p, r). matches p r) (zip payload reference))"
  define s where "s = length (takeWhile (\<lambda>(p, r). matches p r)
    (zip (rev (drop p payload)) (rev (drop p reference))))"
  let ?mp = "drop p (take (length payload - s) payload)" and ?mr = "drop p (take (length reference - s) reference)"
  have "length ?mp + length ?mr < usize_max" using assms by simp
  from answers_hirschberg [OF this, of matches key p p C C'] obtain mid where mid:
    "optimal (paired matches) key ?mp ?mr p p mid"
    "answers C (hirschberg C matches key ?mp ?mr p p) mid" "answers C' (hirschberg C' matches key ?mp ?mr p p) mid"
    by blast
  have "paired matches = matches" if "\<forall>a b. matches a b = matches b a"
    using that by (auto simp: paired_def fun_eq_iff)
  then have "(\<forall>a b. matches a b = matches b a) \<longrightarrow>
      optimal matches key payload reference 0 0 (stripped_result key payload reference p s mid)"
    using optimal_stripped_result [OF p_def s_def] mid(1) by metis
  with answers_generic_parts [OF p_def s_def mid(2)] answers_generic_parts [OF p_def s_def mid(3)]
  show ?thesis by blast
qed

subsection \<open>The contract of a comparison, and the entry points\<close>

text \<open>
  What the aligner relies on in an \<^verbatim>\<open>Alignable\<close> type: the comparison does not depend on which
  side is the payload. The stripping loops compare payload with reference, the score rows and
  the table compare reference with payload. Nothing else is needed; in particular not that
  matching is transitive.
\<close>

locale alignable =
  fixes matches :: "'a \<Rightarrow> 'a \<Rightarrow> bool"
    and to_key :: "'a \<Rightarrow> string"
  assumes matches_sym: "matches a b = matches b a"
begin

lemma generic_optimal:
  assumes "length payload + length reference < usize_max"
  shows "\<exists>out. answers C (align_generic C matches to_key payload reference) out \<and>
    aligned matches to_key payload reference 0 0 out \<and>
    (\<forall>out'. aligned matches to_key payload reference 0 0 out' \<longrightarrow> gaps out \<le> gaps out')"
proof -
  obtain out where "optimal matches to_key payload reference 0 0 out"
    and "answers C (align_generic C matches to_key payload reference) out"
    using answers_align_generic [OF assms, of matches to_key C C] matches_sym by blast
  then show ?thesis using optimal_minimal [of matches to_key payload reference 0 0 out]
    by (auto simp: optimal_def)
qed

end

lemma string_matches_sym: "string_matches policy a b = string_matches policy b a"
  by (auto simp: string_matches_def eq_ignore_ascii_case_def split: literal_match_mode.splits)

interpretation literal_string: alignable "string_matches policy" string_to_key
  by unfold_locales (rule string_matches_sym)

interpretation literal_char: alignable "char_matches policy" char_to_key
  by unfold_locales (auto simp: char_matches_def split: literal_match_mode.splits)

text \<open>
  The relation a mode stands for on plain words. \<open>fuzzy_symmetric\<close> is what fuzzy mode relies on
  in \<^verbatim>\<open>strsim\<close>: the Jaro-Winkler similarity of two words does not depend on their order.
\<close>

definition mode_matches :: "'f fuzzy_ops \<Rightarrow> 'f match_mode \<Rightarrow> string \<Rightarrow> string \<Rightarrow> bool" where
  "mode_matches F mode a b =
     (case mode of
        Exact \<Rightarrow> a = b
      | CaseInsensitive \<Rightarrow> eq_ignore_ascii_case a b
      | Fuzzy t \<Rightarrow> eq_ignore_ascii_case a b \<or>
          f64_ge F (jaro_winkler F (to_lowercase F a) (to_lowercase F b)) t)"

definition fuzzy_symmetric :: "'f fuzzy_ops \<Rightarrow> bool" where
  "fuzzy_symmetric F \<longleftrightarrow> (\<forall>a b. jaro_winkler F a b = jaro_winkler F b a)"

lemma fuzzy_matches_prepared:
  "fuzzy_matches F t (prepared_fuzzy_word_new F a) (prepared_fuzzy_word_new F b) = mode_matches F (Fuzzy t) a b"
  by (simp add: fuzzy_matches_def prepared_fuzzy_word_new_def mode_matches_def)

lemma aligned_map:
  assumes "\<And>a b. m' (f a) (f b) = m a b" and "\<And>a. key' (f a) = key a"
  shows "aligned m' key' (map f ps) (map f rs) i j out = aligned m key ps rs i j out"
proof (induction out arbitrary: ps rs i j)
  case (Cons x out)
  then show ?case using assms by (cases x) (auto split: list.splits)
qed simp

text \<open>
  A control that interrupts nothing and one that may: both runs of \<^const>\<open>align_controlled\<close> answer
  the same result.
\<close>

lemma answers_align_controlled:
  assumes "length payload + length reference < usize_max"
  shows "\<exists>out. answers C (align_controlled F C payload reference mode) out \<and>
    answers C' (align_controlled F C' payload reference mode) out \<and>
    ((case mode of Fuzzy _ \<Rightarrow> fuzzy_symmetric F | _ \<Rightarrow> True) \<longrightarrow>
      aligned (mode_matches F mode) string_to_key payload reference 0 0 out \<and>
      (\<forall>out'. aligned (mode_matches F mode) string_to_key payload reference 0 0 out' \<longrightarrow> gaps out \<le> gaps out'))"
proof -
  have literal: "\<exists>out. answers C (ctl_bind (ctl_check C) (\<lambda>_. align_generic C (string_matches pol) string_to_key payload reference)) out \<and>
      answers C' (ctl_bind (ctl_check C') (\<lambda>_. align_generic C' (string_matches pol) string_to_key payload reference)) out \<and>
      aligned (string_matches pol) string_to_key payload reference 0 0 out \<and>
      (\<forall>out'. aligned (string_matches pol) string_to_key payload reference 0 0 out' \<longrightarrow> gaps out \<le> gaps out')" for pol
    using answers_align_generic [OF assms, of "string_matches pol" string_to_key C C'] string_matches_sym
      optimal_minimal answers_then [OF answers_check]
    by (metis optimal_def)
  show ?thesis
  proof (cases mode)
    case Exact
    moreover have "mode_matches F Exact = string_matches LiteralExact"
      by (simp add: fun_eq_iff mode_matches_def string_matches_def)
    ultimately show ?thesis using literal [of LiteralExact] by (simp add: align_controlled_def)
  next
    case CaseInsensitive
    moreover have "mode_matches F CaseInsensitive = string_matches AsciiInsensitive"
      by (simp add: fun_eq_iff mode_matches_def string_matches_def)
    ultimately show ?thesis using literal [of AsciiInsensitive] by (simp add: align_controlled_def)
  next
    case (Fuzzy t)
    let ?ps = "map (prepared_fuzzy_word_new F) payload" and ?rs = "map (prepared_fuzzy_word_new F) reference"
    obtain out where out:
      "(\<forall>a b. fuzzy_matches F t a b = fuzzy_matches F t b a) \<longrightarrow>
         optimal (fuzzy_matches F t) fuzzy_to_key ?ps ?rs 0 0 out"
      "answers C (align_generic C (fuzzy_matches F t) fuzzy_to_key ?ps ?rs) out"
      "answers C' (align_generic C' (fuzzy_matches F t) fuzzy_to_key ?ps ?rs) out"
      using answers_align_generic [of ?ps ?rs "fuzzy_matches F t" fuzzy_to_key C C'] assms by auto
    have "aligned (fuzzy_matches F t) fuzzy_to_key ?ps ?rs 0 0 o' =
        aligned (mode_matches F (Fuzzy t)) string_to_key payload reference 0 0 o'" for o'
      by (rule aligned_map, rule fuzzy_matches_prepared)
        (simp add: fuzzy_to_key_def string_to_key_def prepared_fuzzy_word_new_def)
    moreover have "fuzzy_symmetric F \<Longrightarrow> \<forall>a b. fuzzy_matches F t a b = fuzzy_matches F t b a"
      by (auto simp: fuzzy_symmetric_def fuzzy_matches_def eq_ignore_ascii_case_def)
    ultimately have "fuzzy_symmetric F \<longrightarrow> aligned (mode_matches F (Fuzzy t)) string_to_key payload reference 0 0 out \<and>
      (\<forall>out'. aligned (mode_matches F (Fuzzy t)) string_to_key payload reference 0 0 out' \<longrightarrow> gaps out \<le> gaps out')"
      using out(1) optimal_minimal [of "fuzzy_matches F t" fuzzy_to_key ?ps ?rs 0 0 out]
      by (auto simp: optimal_def)
    moreover have "answers C (align_controlled F C payload reference mode) out"
      "answers C' (align_controlled F C' payload reference mode) out"
      using out(2,3) Fuzzy by (simp_all add: align_controlled_def answers_then answering)
    ultimately show ?thesis using Fuzzy by auto
  qed
qed

text \<open>
  C4. \<^verbatim>\<open>align\<close> returns, and what it returns is an alignment: it names every word of both
  sequences once and in order, by spelling and index, pairs only words the mode accepts, and
  leaves no more words alone than any other alignment of the two sequences. Fuzzy mode relies on
  the similarity being symmetric. (A slice is never long enough to reach \<^verbatim>\<open>usize::MAX\<close>.)
\<close>

theorem align_optimal:
  assumes "length payload + length reference < usize_max"
    and "case mode of Fuzzy _ \<Rightarrow> fuzzy_symmetric F | _ \<Rightarrow> True"
  shows "\<exists>out. align F payload reference mode = Some out \<and>
    aligned (mode_matches F mode) string_to_key payload reference 0 0 out \<and>
    (\<forall>out'. aligned (mode_matches F mode) string_to_key payload reference 0 0 out' \<longrightarrow> gaps out \<le> gaps out')"
proof -
  obtain out where "answers (Uninterrupted :: (unit, unit) work_control)
      (align_controlled F Uninterrupted payload reference mode) out"
    and "aligned (mode_matches F mode) string_to_key payload reference 0 0 out \<and>
      (\<forall>out'. aligned (mode_matches F mode) string_to_key payload reference 0 0 out' \<longrightarrow> gaps out \<le> gaps out')"
    using answers_align_controlled [OF assms(1), of "Uninterrupted :: (unit, unit) work_control" F mode
        "Uninterrupted :: (unit, unit) work_control"] assms(2) by blast
  then show ?thesis unfolding align_def by (intro exI [of _ out] conjI answers_uninterrupted) simp_all
qed

text \<open>
  C5. Interruption cannot change a result: under every control \<^verbatim>\<open>align_controlled\<close> returns, and it
  returns either exactly the uninterrupted result or an error that the control itself raised.
\<close>

theorem align_controlled_agrees:
  assumes "length payload + length reference < usize_max"
  shows "\<exists>r s'. align_controlled F C payload reference mode s = Some (r, s') \<and>
    (case r of Inr out \<Rightarrow> align F payload reference mode = Some out | Inl e \<Rightarrow> raised C e)"
proof -
  obtain out where "answers C (align_controlled F C payload reference mode) out"
    and "answers (Uninterrupted :: (unit, unit) work_control)
      (align_controlled F Uninterrupted payload reference mode) out"
    using answers_align_controlled [OF assms, of C F mode "Uninterrupted :: (unit, unit) work_control"] by blast
  then have "answers C (align_controlled F C payload reference mode) out" "align F payload reference mode = Some out"
    by (simp_all add: align_def answers_uninterrupted)
  moreover from this(1) obtain r s' where "align_controlled F C payload reference mode s = Some (r, s')"
    and "r = Ok out \<or> (\<exists>e. r = Err e \<and> raised C e)" unfolding answers_def by blast
  ultimately show ?thesis by auto
qed

text \<open>
  The same for characters: \<^verbatim>\<open>align_chars\<close> returns an optimal alignment under exact or ASCII
  case-insensitive comparison; fuzzy mode falls back to the latter.
\<close>

theorem align_chars_optimal:
  assumes "length payload + length reference < usize_max"
  shows "\<exists>out. align_chars payload reference mode = Some out \<and>
    (let m = char_matches (case mode of Exact \<Rightarrow> LiteralExact | _ \<Rightarrow> AsciiInsensitive)
     in aligned m char_to_key payload reference 0 0 out \<and>
        (\<forall>out'. aligned m char_to_key payload reference 0 0 out' \<longrightarrow> gaps out \<le> gaps out'))"
proof -
  let ?pol = "case mode of Exact \<Rightarrow> LiteralExact | _ \<Rightarrow> AsciiInsensitive"
  have "align_chars payload reference mode =
      uninterrupted (align_generic (Uninterrupted :: (unit, unit) work_control) (char_matches ?pol) char_to_key
        payload reference) ()"
    by (cases mode) (simp_all add: align_chars_def)
  moreover obtain out where "answers (Uninterrupted :: (unit, unit) work_control)
      (align_generic Uninterrupted (char_matches ?pol) char_to_key payload reference) out"
    and "aligned (char_matches ?pol) char_to_key payload reference 0 0 out"
    and "\<forall>out'. aligned (char_matches ?pol) char_to_key payload reference 0 0 out' \<longrightarrow> gaps out \<le> gaps out'"
    using literal_char.generic_optimal [OF assms] by blast
  ultimately show ?thesis unfolding Let_def
    by (intro exI [of _ out] conjI) (simp_all only: answers_uninterrupted)
qed


text \<open>A stand-in for the outside operations of fuzzy matching: similarity 1 for equal words, else 0.\<close>

definition equal_words :: "nat fuzzy_ops" where
  "equal_words = \<lparr>to_lowercase = map to_ascii_lower, jaro_winkler = (\<lambda>a b. if a = b then 1 else 0),
     f64_ge = (\<lambda>x y. y \<le> x)\<rparr>"

text \<open>A control that allows a number of checks and then refuses.\<close>

definition some_checks :: "(nat, string) work_control" where
  "some_checks = \<lparr>wc_check = (\<lambda>n. if n = 0 then (Err ''cancelled'', 0) else (Ok (), n - 1)),
     wc_alignment_work = default_work, wc_alignment_score_storage = default_storage\<rparr>"

theorem align_optimal_witness:
  "\<exists>out. align equal_words [''the'', ''cat''] [''cat''] (Fuzzy 1) = Some out \<and> gaps out \<le> 1"
proof -
  have "fuzzy_symmetric equal_words" by (auto simp: fuzzy_symmetric_def equal_words_def)
  then have "\<exists>out. align equal_words [''the'', ''cat''] [''cat''] (Fuzzy 1) = Some out \<and>
    aligned (mode_matches equal_words (Fuzzy 1)) string_to_key [''the'', ''cat''] [''cat''] 0 0 out \<and>
    (\<forall>out'. aligned (mode_matches equal_words (Fuzzy 1)) string_to_key [''the'', ''cat''] [''cat''] 0 0 out' \<longrightarrow>
      gaps out \<le> gaps out')"
    by (intro align_optimal) (simp_all add: usize_max_def)
  moreover have "aligned (mode_matches equal_words (Fuzzy 1)) string_to_key [''the'', ''cat''] [''cat''] 0 0
      [ExtraPayload ''the'' 0, Match ''cat'' 1 0]"
    by (simp add: string_to_key_def mode_matches_def eq_ignore_ascii_case_def)
  ultimately show ?thesis by fastforce
qed

theorem align_controlled_agrees_witness:
  "\<exists>r s'. align_controlled equal_words some_checks [''a''] [''b''] Exact 2 = Some (r, s') \<and>
    (case r of Inr out \<Rightarrow> align equal_words [''a''] [''b''] Exact = Some out | Inl e \<Rightarrow> raised some_checks e)"
  by (rule align_controlled_agrees) (simp add: usize_max_def)

theorem align_chars_optimal_witness:
  "\<exists>out. align_chars [65, 98] [97] (CaseInsensitive :: nat match_mode) = Some out \<and> gaps out \<le> 1"
proof -
  have "\<exists>out. align_chars [65, 98] [97] (CaseInsensitive :: nat match_mode) = Some out \<and>
    (let m = char_matches (case (CaseInsensitive :: nat match_mode) of Exact \<Rightarrow> LiteralExact | _ \<Rightarrow> AsciiInsensitive)
     in aligned m char_to_key [65, 98] [97] 0 0 out \<and>
        (\<forall>out'. aligned m char_to_key [65, 98] [97] 0 0 out' \<longrightarrow> gaps out \<le> gaps out'))"
    by (rule align_chars_optimal) (simp add: usize_max_def)
  moreover have "aligned (char_matches AsciiInsensitive) char_to_key [65, 98] [97] 0 0
      [Match (char_to_key 97) 0 0, ExtraPayload (char_to_key 98) 1]"
    by (simp add: char_matches_def char_ascii_lower_def)
  ultimately show ?thesis unfolding Let_def match_mode.case by (metis gaps_simps(1-3) One_nat_def)
qed

text \<open>
  The score rows of the divide step are exact. When \<^verbatim>\<open>row_costs\<close> is not interrupted, its cell
  \<open>k\<close> is the least cost of aligning the first \<open>k\<close> payload elements with the whole reference;
  \<^verbatim>\<open>row_costs_rev\<close> gives the least cost for the last \<open>k\<close>.
\<close>

theorem row_costs_exact:
  assumes "k \<le> length payload"
  shows "(row_costs C matches reference payload s = Some (Ok row, s1) \<longrightarrow>
      alignment (paired matches) (take k payload) reference (row ! k) \<and>
      (\<forall>c. alignment (paired matches) (take k payload) reference c \<longrightarrow> row ! k \<le> c)) \<and>
    (row_costs_rev C matches reference payload s = Some (Ok row, s1) \<longrightarrow>
      alignment (paired matches) (drop (length payload - k) payload) reference (row ! k) \<and>
      (\<forall>c. alignment (paired matches) (drop (length payload - k) payload) reference c \<longrightarrow> row ! k \<le> c)) \<and>
    row_costs C matches reference payload s \<noteq> None \<and> row_costs_rev C matches reference payload s \<noteq> None"
proof (intro conjI impI)
  assume "row_costs C matches reference payload s = Some (Ok row, s1)"
  from answers_ok [OF answers_row_costs this] assms
  have "row ! k = edit_cost (paired matches) (take k payload) reference" by (simp add: score_row_nth)
  then show "alignment (paired matches) (take k payload) reference (row ! k)"
    and "\<forall>c. alignment (paired matches) (take k payload) reference c \<longrightarrow> row ! k \<le> c"
    by (simp_all add: edit_cost_attained edit_cost_least)
next
  assume "row_costs_rev C matches reference payload s = Some (Ok row, s1)"
  from answers_ok [OF answers_row_costs_rev this]
    score_row_rev_nth [of "length payload - k" payload matches reference] assms
  have "row ! k = edit_cost (paired matches) (drop (length payload - k) payload) reference" by simp
  then show "alignment (paired matches) (drop (length payload - k) payload) reference (row ! k)"
    and "\<forall>c. alignment (paired matches) (drop (length payload - k) payload) reference c \<longrightarrow> row ! k \<le> c"
    by (simp_all add: edit_cost_attained edit_cost_least)
next
  show "row_costs C matches reference payload s \<noteq> None" "row_costs_rev C matches reference payload s \<noteq> None"
    using answers_row_costs [of C matches reference payload] answers_row_costs_rev [of C matches reference payload]
    unfolding answers_def by fastforce+
qed

theorem row_costs_exact_witness:
  "\<exists>row s1. row_costs some_checks (=) [''b''] [''a'', ''b''] (9 :: nat) = Some (Ok row, s1) \<and>
    alignment (paired (=)) (take 2 [''a'', ''b'']) [''b''] (row ! 2)"
proof -
  have "row_costs some_checks (=) [''b''] [''a'', ''b''] (9 :: nat) = Some (Ok [1, 2, 1], 7)"
    by (simp add: row_costs_def row_pass_def row_cell_def ctl_bind_def ctl_return_def ctl_check_def ctl_work_def
        some_checks_def default_work_def COST_GAP_def COST_SUB_def numeral_2_eq_2 upt_rec)
  with row_costs_exact [of 2 "[''a'', ''b'']" some_checks "(=)" "[''b'']" 9 "[1, 2, 1]" 7] show ?thesis
    by fastforce
qed

end
