(* ===== verification/Correspondence.thy ===== *)
theory Correspondence
  imports Chains Prefix_Maximum Dp_Align
begin

text \<open>
  Certification of common correspondences by sparse ranking
  (\<^verbatim>\<open>crates/batchalign-transform/src/dp_align/correspondence/sparse.rs\<close>): forward and backward rank
  passes over the candidate edges with the Fenwick tree, and the census of optimal edges per
  rank. An \<^verbatim>\<open>Edge\<close> is the pair of its payload and reference index. The lemmas show that the pairs
  certified are exactly those common to all longest chains of candidate edges, and that the longest
  chains of matching pairs are what the alignments at least cost match.
\<close>

subsection \<open>Rank passes\<close>

datatype multiplicity = MEmpty | MUnique | MCompeting

fun multiplicity_observe :: "multiplicity \<Rightarrow> multiplicity" where
  "multiplicity_observe MEmpty = MUnique"
| "multiplicity_observe MUnique = MCompeting"
| "multiplicity_observe MCompeting = MCompeting"

record candidates =
  cand_reference :: "string list"
  cand_edges :: "edge list"

record forward_ranked =
  fr_candidates :: candidates
  fr_forward :: "nat list"
  fr_optimum :: nat

record complete_ranks =
  cr_forward :: forward_ranked
  cr_backward :: "nat list"

definition match_rank_after :: "nat \<Rightarrow> nat" where
  "match_rank_after prefix = prefix + 1"

text \<open>
  The \<^verbatim>\<open>while\<close> loop of both passes over the edges not yet ranked, a row of equal payload index at
  a time: the ranks of the whole row are read before any of them is recorded. \<open>at\<close> is the tree
  position of an edge; the backward pass walks the edges from the last to the first.
\<close>

function rank_rows ::
  "('s, 'e) work_control \<Rightarrow> (edge \<Rightarrow> nat) \<Rightarrow> edge list \<Rightarrow> prefix_maximum \<Rightarrow> nat list \<Rightarrow>
   ('s, 'e, prefix_maximum \<times> nat list) controlled" where
  "rank_rows C at edges ranks out =
     (if edges = [] then ctl_return (ranks, out)
      else
        (let row = takeWhile (\<lambda>e. fst e = fst (hd edges)) edges
         in ctl_bind (ctl_check C) (\<lambda>_.
            ctl_bind
              (ctl_for row (\<lambda>e out. ctl_bind (ctl_check C) (\<lambda>_.
                 ctl_return (out @ [match_rank_after (pm_before ranks (at e))]))) out) (\<lambda>out'.
            ctl_bind
              (ctl_for (zip row (drop (length out) out')) (\<lambda>er ranks. ctl_bind (ctl_check C) (\<lambda>_.
                 ctl_return (pm_record ranks (at (fst er)) (snd er)))) ranks) (\<lambda>ranks'.
            rank_rows C at (drop (length row) edges) ranks' out')))))"
  by pat_completeness auto

termination
  by (relation "measure (\<lambda>(C, at, edges, ranks, out). length edges)") (auto simp: neq_Nil_conv)

declare rank_rows.simps [simp del]

definition rank_forward ::
  "('s, 'e) work_control \<Rightarrow> candidates \<Rightarrow> ('s, 'e, forward_ranked) controlled" where
  "rank_forward C cand =
     ctl_bind
       (rank_rows C snd (cand_edges cand) (prefix_maximum_new (length (cand_reference cand))) []) (\<lambda>(ranks, forward).
     ctl_return \<lparr>fr_candidates = cand, fr_forward = forward,
       fr_optimum = pm_before ranks (length (cand_reference cand))\<rparr>)"

definition rank_backward ::
  "('s, 'e) work_control \<Rightarrow> forward_ranked \<Rightarrow> ('s, 'e, complete_ranks) controlled" where
  "rank_backward C fr =
     (let len = length (cand_reference (fr_candidates fr))
      in ctl_bind
           (rank_rows C (\<lambda>e. len - 1 - snd e) (rev (cand_edges (fr_candidates fr))) (prefix_maximum_new len) [])
           (\<lambda>(_, backward). ctl_return \<lparr>cr_forward = fr, cr_backward = backward\<rparr>))"

subsection \<open>Certification\<close>

text \<open>\<^verbatim>\<open>CompleteRanks::certify\<close>: the census of optimal edges per rank, then the edges alone at theirs.\<close>

definition certify_ranks ::
  "('s, 'e) work_control \<Rightarrow> complete_ranks \<Rightarrow> ('s, 'e, edge list) controlled" where
  "certify_ranks C cr =
     (let fr = cr_forward cr;
          opt = fr_optimum fr
      in ctl_bind
           (ctl_for (zip (fr_forward fr) (rev (cr_backward cr)))
              (\<lambda>fb populations. ctl_bind (ctl_check C) (\<lambda>_.
                 ctl_return
                   (if fst fb + snd fb - 1 = opt
                    then populations[fst fb - 1 := multiplicity_observe (populations ! (fst fb - 1))]
                    else populations)))
              (replicate opt MEmpty)) (\<lambda>populations.
         ctl_for (zip (zip (cand_edges (fr_candidates fr)) (fr_forward fr)) (rev (cr_backward cr)))
           (\<lambda>efb pairs. ctl_bind (ctl_check C) (\<lambda>_.
              ctl_return
                (case efb of ((edge, forward), backward) \<Rightarrow>
                   if forward + backward - 1 = opt \<and> populations ! (forward - 1) = MUnique
                   then pairs @ [edge] else pairs)))
           []))"

text \<open>\<^verbatim>\<open>Candidates::certify\<close>\<close>

definition candidates_certify ::
  "('s, 'e) work_control \<Rightarrow> candidates \<Rightarrow> ('s, 'e, edge list) controlled" where
  "candidates_certify C cand =
     (if cand_edges cand = [] then ctl_return []
      else ctl_bind (rank_forward C cand) (\<lambda>fr. ctl_bind (rank_backward C fr) (certify_ranks C)))"

subsection \<open>The passes compute the ranks\<close>

text \<open>\<open>recorded\<close>: the tree holds the ranks \<open>rk\<close> of the edges \<open>D\<close> at their reference positions.\<close>

definition recorded :: "nat \<Rightarrow> (edge \<Rightarrow> nat) \<Rightarrow> edge set \<Rightarrow> prefix_maximum \<Rightarrow> bool" where
  "recorded n rk D v \<longleftrightarrow>
     (\<exists>f. pm_holds n f v \<and> (\<forall>p. range_max f 0 p = Max (insert 0 (rk ` {e \<in> D. snd e < p}))))"

lemma recorded_new: "recorded n rk {} (prefix_maximum_new n)"
  using pm_holds_new [of n] unfolding recorded_def by (intro exI [of _ "\<lambda>_. 0"]) simp

lemma recorded_before: "recorded n rk D v \<Longrightarrow> p \<le> n \<Longrightarrow> pm_before v p = Max (insert 0 (rk ` {e \<in> D. snd e < p}))"
  unfolding recorded_def using pm_before_max by metis

lemma recorded_record:
  assumes "recorded n rk D v" and "finite D" and "snd e < n"
  shows "recorded n rk (insert e D) (pm_record v (snd e) (rk e))"
proof -
  obtain f where f: "pm_holds n f v" "\<forall>p. range_max f 0 p = Max (insert 0 (rk ` {e \<in> D. snd e < p}))"
    using assms(1) unfolding recorded_def by blast
  have "range_max (f(snd e := max (f (snd e)) (rk e))) 0 p =
      Max (insert 0 (rk ` {x \<in> insert e D. snd x < p}))" for p
  proof -
    have "{x \<in> insert e D. snd x < p} = (if snd e < p then insert e {x \<in> D. snd x < p} else {x \<in> D. snd x < p})"
      by auto
    then show ?thesis using assms(2) f(2) [rule_format, of p] unfolding range_max_update
      by (simp add: insert_commute [of 0] max.commute)
  qed
  with pm_holds_record [OF f(1) assms(3), of "rk e"] show ?thesis unfolding recorded_def by blast
qed

lemma recorded_fold:
  assumes "recorded n rk D v" and "finite D" and "\<forall>e \<in> set es. snd e < n"
  shows "recorded n rk (D \<union> set es) (fold (\<lambda>e v. pm_record v (snd e) (rk e)) es v)"
  using assms
proof (induction es arbitrary: D v)
  case (Cons e es)
  from Cons.IH [OF recorded_record [OF Cons.prems(1,2), of e]] Cons.prems show ?case by simp
qed simp

text \<open>One row: read all ranks, then record them.\<close>

lemma answers_row:
  assumes "\<And>e. e \<in> set row \<Longrightarrow> match_rank_after (pm_before ranks (at e)) = rk e"
  shows "answers C (ctl_for row (\<lambda>e out. ctl_bind (ctl_check C) (\<lambda>_.
      ctl_return (out @ [match_rank_after (pm_before ranks (at e))]))) out) (out @ map rk row)"
proof -
  have "answers C (ctl_for row (\<lambda>e out. ctl_bind (ctl_check C) (\<lambda>_.
      ctl_return (out @ [match_rank_after (pm_before ranks (at e))]))) out)
    (fold (\<lambda>e out. out @ [match_rank_after (pm_before ranks (at e))]) row out)"
    by (intro answers_for answers_then answering)
  moreover have "fold (\<lambda>e out. out @ [match_rank_after (pm_before ranks (at e))]) row out = out @ map rk row"
    using assms by (induction row arbitrary: out) auto
  ultimately show ?thesis by simp
qed

lemma answers_row_record:
  "answers C (ctl_for (zip row (map rk row)) (\<lambda>er ranks. ctl_bind (ctl_check C) (\<lambda>_.
     ctl_return (pm_record ranks (at (fst er)) (snd er)))) ranks)
   (fold (\<lambda>e v. pm_record v (at e) (rk e)) row ranks)"
proof -
  have "answers C (ctl_for (zip row (map rk row)) (\<lambda>er ranks. ctl_bind (ctl_check C) (\<lambda>_.
     ctl_return (pm_record ranks (at (fst er)) (snd er)))) ranks)
   (fold (\<lambda>er ranks. pm_record ranks (at (fst er)) (snd er)) (zip row (map rk row)) ranks)"
    by (intro answers_for answers_then answering)
  moreover have "fold (\<lambda>er ranks. pm_record ranks (at (fst er)) (snd er)) (zip row (map rk row)) ranks =
      fold (\<lambda>e v. pm_record v (at e) (rk e)) row ranks"
    by (induction row arbitrary: ranks) auto
  ultimately show ?thesis by simp
qed

lemma answers_rank_rows_step:
  assumes "edges \<noteq> []" and "row = takeWhile (\<lambda>e. fst e = fst (hd edges)) edges"
    and "answers C (ctl_for row (\<lambda>e out. ctl_bind (ctl_check C) (\<lambda>_.
      ctl_return (out @ [match_rank_after (pm_before ranks (at e))]))) out) out'"
    and "answers C (ctl_for (zip row (drop (length out) out')) (\<lambda>er ranks. ctl_bind (ctl_check C) (\<lambda>_.
      ctl_return (pm_record ranks (at (fst er)) (snd er)))) ranks) ranks'"
    and "answers C (rank_rows C at (drop (length row) edges) ranks' out') w"
  shows "answers C (rank_rows C at edges ranks out) w"
  by (subst rank_rows.simps) (simp only: assms(1) if_False Let_def flip: assms(2),
      intro answers_then answers_bind [OF assms(3)] answers_bind [OF assms(4)] assms(5) answering)

lemma answers_rank_rows:
  assumes "sorted (map fst es)" and "\<forall>d \<in> D. \<forall>e \<in> set es. fst d < fst e" and "E = D \<union> set es"
    and "within m n E" and "recorded n (fwd E) D ranks"
  shows "answers C (rank_rows C snd es ranks out)
    (fold (\<lambda>e v. pm_record v (snd e) (fwd E e)) es ranks, out @ map (fwd E) es)"
  using assms(1,2,3,5)
proof (induction "length es" arbitrary: es D ranks out rule: less_induct)
  case less
  show ?case
  proof (cases es)
    case Nil
    then show ?thesis by (subst rank_rows.simps) (simp add: answers_return)
  next
    case (Cons e0 es0)
    define row where "row = takeWhile (\<lambda>e. fst e = fst (hd es)) es"
    define rest where "rest = drop (length row) es"
    have fin: "finite E" using within_finite [OF assms(4)] .
    have split: "es = row @ rest" unfolding row_def rest_def by (metis takeWhile_eq_take append_take_drop_id)
    have row: "fst e = fst (hd es)" if "e \<in> set row" for e using that set_takeWhileD unfolding row_def by fastforce
    have "e0 \<in> set row" using Cons unfolding row_def by simp
    then have "row \<noteq> []" by auto
    have above: "fst e < fst f" if e: "e \<in> set row" and f: "f \<in> set rest" for e f
    proof -
      have "rest \<noteq> []" using f by auto
      then have "fst (hd rest) \<noteq> fst (hd es)"
        using hd_dropWhile [of "\<lambda>e. fst e = fst (hd es)" es] unfolding rest_def row_def dropWhile_eq_drop by simp
      moreover have "fst (hd es) \<le> fst (hd rest)" "fst (hd rest) \<le> fst f"
      proof -
        have s: "sorted (map fst row @ map fst rest)" using less.prems(1) split by (metis map_append)
        have "hd es \<in> set row" using \<open>row \<noteq> []\<close> split by (metis hd_append2 hd_in_set)
        with s \<open>rest \<noteq> []\<close> show "fst (hd es) \<le> fst (hd rest)" by (auto simp: sorted_append)
        from s have "sorted (map fst rest)" by (simp add: sorted_append)
        with f \<open>rest \<noteq> []\<close> show "fst (hd rest) \<le> fst f" by (cases rest) auto
      qed
      ultimately show ?thesis using row [OF e] by simp
    qed
    have rank: "match_rank_after (pm_before ranks (snd e)) = fwd E e" if e: "e \<in> set row" for e
    proof -
      have "e \<in> E" using e split less.prems(3) by auto
      then have "snd e \<le> n" using assms(4) by (auto simp: within_def)
      have "f \<in> D \<and> snd f < snd e \<longleftrightarrow> f \<in> E \<and> before f e" for f
      proof -
        have "f \<in> E \<longleftrightarrow> f \<in> D \<or> f \<in> set row \<or> f \<in> set rest" using less.prems(3) split by auto
        moreover have "fst f < fst e" if "f \<in> D" using less.prems(2) that e split by auto
        ultimately show ?thesis using row [of f] row [OF e] above [OF e, of f] by (auto simp: before_def)
      qed
      then have "{f \<in> D. snd f < snd e} = {f \<in> E. before f e}" by blast
      with recorded_before [OF less.prems(4) \<open>snd e \<le> n\<close>] fwd_rec [OF fin \<open>e \<in> E\<close>]
      show ?thesis by (simp add: match_rank_after_def)
    qed
    let ?ranks = "fold (\<lambda>e v. pm_record v (snd e) (fwd E e)) row ranks"
    have "answers C (rank_rows C snd rest ?ranks (out @ map (fwd E) row))
        (fold (\<lambda>e v. pm_record v (snd e) (fwd E e)) rest ?ranks, (out @ map (fwd E) row) @ map (fwd E) rest)"
    proof (rule less.hyps)
      show "length rest < length es" using split \<open>row \<noteq> []\<close> by simp
      show "sorted (map fst rest)" using less.prems(1) split by (metis map_append sorted_append)
      show "\<forall>d \<in> D \<union> set row. \<forall>e \<in> set rest. fst d < fst e" using less.prems(2) split above by auto
      show "E = D \<union> set row \<union> set rest" using less.prems(3) split by auto
      show "recorded n (fwd E) (D \<union> set row) ?ranks"
        using less.prems(3,4) split assms(4) fin by (intro recorded_fold) (auto simp: within_def)
    qed
    moreover have "answers C (ctl_for row (\<lambda>e out. ctl_bind (ctl_check C) (\<lambda>_.
      ctl_return (out @ [match_rank_after (pm_before ranks (snd e))]))) out) (out @ map (fwd E) row)"
      using rank by (intro answers_row) auto
    moreover have "answers C (ctl_for (zip row (drop (length out) (out @ map (fwd E) row))) (\<lambda>er ranks.
      ctl_bind (ctl_check C) (\<lambda>_. ctl_return (pm_record ranks (snd (fst er)) (snd er)))) ranks) ?ranks"
      using answers_row_record [of C row "fwd E" snd ranks] by simp
    ultimately have "answers C (rank_rows C snd es ranks out)
        (fold (\<lambda>e v. pm_record v (snd e) (fwd E e)) rest ?ranks, (out @ map (fwd E) row) @ map (fwd E) rest)"
      using Cons by (intro answers_rank_rows_step [OF _ row_def]) (simp_all only: rest_def list.distinct simp_thms)
    then show ?thesis by (simp add: split)
  qed
qed

text \<open>The backward pass is the forward pass over the mirrored edges.\<close>

lemma rank_rows_map:
  assumes "\<And>e f. e \<in> set edges \<Longrightarrow> f \<in> set edges \<Longrightarrow> (fst (g e) = fst (g f)) = (fst e = fst f)"
    and "\<And>e. e \<in> set edges \<Longrightarrow> at' (g e) = at e"
  shows "rank_rows C at edges ranks out = rank_rows C at' (map g edges) ranks out"
  using assms
proof (induction "length edges" arbitrary: edges ranks out rule: less_induct)
  case less
  show ?case
  proof (cases "edges = []")
    case True
    then show ?thesis by (subst (1 2) rank_rows.simps) simp
  next
    case False
    define row where "row = takeWhile (\<lambda>e. fst e = fst (hd edges)) edges"
    have "hd edges \<in> set edges" using False by simp
    then have "takeWhile (\<lambda>e. fst (g e) = fst (g (hd edges))) edges = row"
      unfolding row_def using less.prems(1) by (intro takeWhile_cong) auto
    then have row': "takeWhile (\<lambda>e. fst e = fst (hd (map g edges))) (map g edges) = map g row"
      using False by (simp add: takeWhile_map comp_def hd_map)
    have sub: "set row \<subseteq> set edges" unfolding row_def by (auto dest: set_takeWhileD)
    have "hd edges \<in> set row" using False unfolding row_def by (cases edges) auto
    then have shorter: "length (drop (length row) edges) < length edges" using False by (cases row) auto
    have for1: "ctl_for (map g row) (\<lambda>e out. ctl_bind (ctl_check C) (\<lambda>_.
        ctl_return (out @ [match_rank_after (pm_before ranks (at' e))]))) out =
      ctl_for row (\<lambda>e out. ctl_bind (ctl_check C) (\<lambda>_.
        ctl_return (out @ [match_rank_after (pm_before ranks (at e))]))) out" for ranks :: prefix_maximum and out
      using sub less.prems(2) by (induction row arbitrary: out) (auto intro!: arg_cong2 [of _ _ _ _ ctl_bind])
    have for2: "ctl_for (zip (map g row) rks) (\<lambda>er ranks. ctl_bind (ctl_check C) (\<lambda>_.
        ctl_return (pm_record ranks (at' (fst er)) (snd er)))) ranks =
      ctl_for (zip row rks) (\<lambda>er ranks. ctl_bind (ctl_check C) (\<lambda>_.
        ctl_return (pm_record ranks (at (fst er)) (snd er)))) ranks" for rks and ranks :: prefix_maximum
      using sub less.prems(2)
    proof (induction row arbitrary: rks ranks)
      case (Cons e row)
      then show ?case by (cases rks) (auto intro!: arg_cong2 [of _ _ _ _ ctl_bind])
    qed simp
    have "rank_rows C at (drop (length row) edges) r o' = rank_rows C at' (map g (drop (length row) edges)) r o'" for r o'
      using less.prems(1) [OF in_set_dropD in_set_dropD] less.prems(2) [OF in_set_dropD]
      by (intro less.hyps shorter)
    then show ?thesis
      using False by (subst (1 2) rank_rows.simps)
        (simp only: map_is_Nil_conv if_False Let_def row' for1 for2 length_map drop_map flip: row_def)
  qed
qed

lemma answers_rank_forward:
  assumes "sorted (map fst es)" and "within m (length rs) (set es)"
  shows "answers C (rank_forward C \<lparr>cand_reference = rs, cand_edges = es\<rparr>)
    \<lparr>fr_candidates = \<lparr>cand_reference = rs, cand_edges = es\<rparr>, fr_forward = map (fwd (set es)) es,
     fr_optimum = optimum (set es)\<rparr>"
proof -
  let ?n = "length rs" and ?E = "set es"
  let ?ranks = "fold (\<lambda>e v. pm_record v (snd e) (fwd ?E e)) es (prefix_maximum_new ?n)"
  have "answers C (rank_rows C snd es (prefix_maximum_new ?n) []) (?ranks, map (fwd ?E) es)"
    using answers_rank_rows [of es "{}" ?E m ?n "prefix_maximum_new ?n" C "[]"] assms recorded_new [of ?n]
    by simp
  moreover have "recorded ?n (fwd ?E) ({} \<union> set es) ?ranks"
    using assms(2) by (intro recorded_fold recorded_new) (auto simp: within_def)
  then have "pm_before ?ranks ?n = optimum ?E"
    using recorded_before [of ?n "fwd ?E" "set es" ?ranks ?n] assms(2)
    by (simp add: optimum_rank within_def cong: conj_cong)
  ultimately show ?thesis unfolding rank_forward_def
    by (auto intro!: answers_bind answering)
qed

lemma answers_rank_backward:
  assumes "sorted (map fst es)" and "within m (length rs) (set es)"
  shows "answers C (rank_backward C \<lparr>fr_candidates = \<lparr>cand_reference = rs, cand_edges = es\<rparr>, fr_forward = fw, fr_optimum = opt\<rparr>)
    \<lparr>cr_forward = \<lparr>fr_candidates = \<lparr>cand_reference = rs, cand_edges = es\<rparr>, fr_forward = fw, fr_optimum = opt\<rparr>,
     cr_backward = rev (map (bwd (set es)) es)\<rparr>"
proof -
  let ?n = "length rs" and ?E = "set es"
  let ?g = "mirror m ?n"
  let ?es = "map ?g (rev es)"
  have "rank_rows C (\<lambda>e. ?n - 1 - snd e) (rev es) (prefix_maximum_new ?n) [] =
      rank_rows C snd ?es (prefix_maximum_new ?n) []"
  proof (rule rank_rows_map)
    fix e f assume "e \<in> set (rev es)" "f \<in> set (rev es)"
    then have "fst e < m" "fst f < m" using assms(2) by (auto simp: within_def)
    then show "(fst (?g e) = fst (?g f)) = (fst e = fst f)" unfolding mirror_def fst_conv by linarith
  qed (simp add: mirror_def)
  moreover have "sorted (map fst ?es)"
  proof -
    have "sorted_wrt (\<lambda>x y. fst x \<le> fst y) es" using assms(1) by (simp add: sorted_wrt_map)
    then have "sorted_wrt (\<lambda>x y. m - 1 - fst y \<le> m - 1 - fst x) es"
      by (rule sorted_wrt_mono_rel [rotated]) auto
    then show ?thesis by (simp add: sorted_wrt_map sorted_wrt_rev mirror_def)
  qed
  then have "answers C (rank_rows C snd ?es (prefix_maximum_new ?n) [])
      (fold (\<lambda>e v. pm_record v (snd e) (fwd (set ?es) e)) ?es (prefix_maximum_new ?n), map (fwd (set ?es)) ?es)"
    using answers_rank_rows [of ?es "{}" "set ?es" m ?n "prefix_maximum_new ?n" C "[]"]
      within_mirror [OF assms(2)] recorded_new [of ?n] by simp
  moreover have "map (fwd (set ?es)) ?es = rev (map (bwd ?E) es)"
    using bwd_mirror [OF assms(2)] by (simp add: rev_map [symmetric] comp_def)
  ultimately show ?thesis unfolding rank_backward_def Let_def
    by (auto intro!: answers_bind answering)
qed

subsection \<open>The census\<close>

definition times_observed :: "nat \<Rightarrow> multiplicity" where
  "times_observed k = (if k = 0 then MEmpty else if k = 1 then MUnique else MCompeting)"

lemma observe_times: "multiplicity_observe (times_observed k) = times_observed (Suc k)"
  by (cases "k = 0"; cases "k = 1") (auto simp: times_observed_def)

lemma times_observed_unique [simp]: "times_observed k = MUnique \<longleftrightarrow> k = 1"
  by (simp add: times_observed_def)

lemma census_nth:
  assumes "\<forall>e \<in> set zs. opt e \<longrightarrow> 0 < rk e \<and> rk e \<le> N" and "i < N"
  shows "let pops = fold (\<lambda>e pops. if opt e then pops[rk e - 1 := multiplicity_observe (pops ! (rk e - 1))] else pops)
      zs (replicate N MEmpty)
    in length pops = N \<and> pops ! i = times_observed (length (filter (\<lambda>e. opt e \<and> rk e = Suc i) zs))"
  using assms
proof (induction zs arbitrary: i rule: rev_induct)
  case Nil
  then show ?case by (simp add: times_observed_def)
next
  case (snoc e zs)
  let ?pops = "fold (\<lambda>e pops. if opt e then pops[rk e - 1 := multiplicity_observe (pops ! (rk e - 1))] else pops)
      zs (replicate N MEmpty)"
  have IH: "length ?pops = N \<and> ?pops ! k = times_observed (length (filter (\<lambda>e. opt e \<and> rk e = Suc k) zs))"
    if "k < N" for k using snoc.IH [of k] snoc.prems(1) that by (simp add: Let_def)
  show ?case
  proof (cases "opt e")
    case True
    then have "0 < rk e" "rk e \<le> N" using snoc.prems(1) by auto
    then have at: "rk e - 1 < N" by linarith
    show ?thesis
    proof (cases "rk e = Suc i")
      case True
      with \<open>opt e\<close> IH [OF snoc.prems(2)] snoc.prems(2) show ?thesis
        by (simp add: Let_def observe_times)
    next
      case False
      with \<open>0 < rk e\<close> have "rk e - 1 \<noteq> i" by linarith
      with \<open>opt e\<close> False IH [OF snoc.prems(2)] at show ?thesis by (simp add: Let_def)
    qed
  next
    case False
    with IH [OF snoc.prems(2)] show ?thesis by (simp add: Let_def)
  qed
qed

lemma sole_filter:
  assumes "distinct zs" and "e \<in> set zs" and "P e"
  shows "length (filter P zs) = 1 \<longleftrightarrow> (\<forall>f \<in> set zs. P f \<longrightarrow> f = e)"
proof
  assume "length (filter P zs) = 1"
  then obtain x where "filter P zs = [x]" by (auto simp: length_Suc_conv)
  then have "f = x" if "f \<in> set zs" "P f" for f 
  proof -
    have "f \<in> set (filter P zs)" using that by simp
    with \<open>filter P zs = [x]\<close> show ?thesis by simp
  qed
  with assms(2,3) show "\<forall>f \<in> set zs. P f \<longrightarrow> f = e" by blast
next
  assume "\<forall>f \<in> set zs. P f \<longrightarrow> f = e"
  then have "{x. P x} \<inter> set zs = {e}" using assms(2,3) by blast
  then show "length (filter P zs) = 1" using distinct_length_filter [OF assms(1), of P] by simp
qed

lemma fold_select:
  "fold (\<lambda>z acc. if P z then acc @ [f z] else acc) zs acc = acc @ map f (filter P zs)"
  by (induction zs arbitrary: acc) auto

lemma zip_map_self: "zip (map f xs) (map g xs) = map (\<lambda>x. (f x, g x)) xs"
  by (induction xs) auto

definition census :: "(edge \<Rightarrow> nat) \<Rightarrow> (edge \<Rightarrow> nat) \<Rightarrow> nat \<Rightarrow> edge list \<Rightarrow> multiplicity list" where
  "census fw bw opt es =
     fold (\<lambda>e pops. if fw e + bw e - 1 = opt
       then pops[fw e - 1 := multiplicity_observe (pops ! (fw e - 1))] else pops) es (replicate opt MEmpty)"

lemma answers_certify_ranks:
  "answers C (certify_ranks C
     \<lparr>cr_forward = \<lparr>fr_candidates = \<lparr>cand_reference = rs, cand_edges = es\<rparr>, fr_forward = map fw es, fr_optimum = opt\<rparr>,
      cr_backward = rev (map bw es)\<rparr>)
   (filter (\<lambda>e. fw e + bw e - 1 = opt \<and> census fw bw opt es ! (fw e - 1) = MUnique) es)"
proof -
  have count: "answers C (ctl_for (zip (map fw es) (map bw es))
      (\<lambda>fb populations. ctl_bind (ctl_check C) (\<lambda>_. ctl_return
        (if fst fb + snd fb - 1 = opt
         then populations[fst fb - 1 := multiplicity_observe (populations ! (fst fb - 1))] else populations)))
      (replicate opt MEmpty))
    (fold (\<lambda>fb populations. if fst fb + snd fb - 1 = opt
         then populations[fst fb - 1 := multiplicity_observe (populations ! (fst fb - 1))] else populations)
      (zip (map fw es) (map bw es)) (replicate opt MEmpty))"
    by (intro answers_for answers_then answering)
  have pops: "fold (\<lambda>fb populations. if fst fb + snd fb - 1 = opt
         then populations[fst fb - 1 := multiplicity_observe (populations ! (fst fb - 1))] else populations)
      (zip (map fw es) (map bw es)) (replicate opt MEmpty) = census fw bw opt es"
    unfolding zip_map_self census_def fold_map comp_def fst_conv snd_conv ..
  let ?P = "\<lambda>e. fw e + bw e - 1 = opt \<and> census fw bw opt es ! (fw e - 1) = MUnique"
  have pick: "answers C (ctl_for (zip (zip es (map fw es)) (map bw es))
      (\<lambda>efb pairs. ctl_bind (ctl_check C) (\<lambda>_. ctl_return
        (case efb of ((edge, forward), backward) \<Rightarrow>
           if forward + backward - 1 = opt \<and> census fw bw opt es ! (forward - 1) = MUnique then pairs @ [edge] else pairs)))
      [])
    (fold (\<lambda>efb pairs. case efb of ((edge, forward), backward) \<Rightarrow>
           if forward + backward - 1 = opt \<and> census fw bw opt es ! (forward - 1) = MUnique then pairs @ [edge] else pairs)
      (zip (zip es (map fw es)) (map bw es)) [])"
    by (intro answers_for answers_then answering)
  have "zip (zip es (map fw es)) (map bw es) = map (\<lambda>e. ((e, fw e), bw e)) es"
    by (induction es) auto
  then have "fold (\<lambda>efb pairs. case efb of ((edge, forward), backward) \<Rightarrow>
           if forward + backward - 1 = opt \<and> census fw bw opt es ! (forward - 1) = MUnique then pairs @ [edge] else pairs)
      (zip (zip es (map fw es)) (map bw es)) [] = filter ?P es"
    using fold_select [of ?P "\<lambda>e. e" es "[]"] by (simp add: fold_map comp_def)
  with pick have picked: "answers C (ctl_for (zip (zip es (map fw es)) (map bw es))
      (\<lambda>efb pairs. ctl_bind (ctl_check C) (\<lambda>_. ctl_return
        (case efb of ((edge, forward), backward) \<Rightarrow>
           if forward + backward - 1 = opt \<and> census fw bw opt es ! (forward - 1) = MUnique then pairs @ [edge] else pairs)))
      []) (filter ?P es)" by (simp only:)
  show ?thesis
    unfolding certify_ranks_def Let_def complete_ranks.simps forward_ranked.simps candidates.simps rev_rev_ident
    by (rule answers_bind [OF count [unfolded pops]]) (rule picked)
qed

text \<open>The certified pairs are the candidate edges common to every longest chain, in their order.\<close>

lemma answers_candidates_certify:
  assumes "sorted (map fst es)" and "distinct es" and "within m (length rs) (set es)"
  shows "answers C (candidates_certify C \<lparr>cand_reference = rs, cand_edges = es\<rparr>)
    (filter (\<lambda>e. e \<in> common (set es)) es)"
proof (cases "es = []")
  case True
  then show ?thesis by (simp add: candidates_certify_def answers_return)
next
  case False
  let ?E = "set es" and ?opt = "\<lambda>e. fwd (set es) e + bwd (set es) e - 1 = optimum (set es)"
  let ?pops = "census (fwd ?E) (bwd ?E) (optimum ?E) es"
  have fin: "finite ?E" by simp
  have oe: "optimal_edge ?E e \<longleftrightarrow> ?opt e" if "e \<in> ?E" for e using that by (simp add: optimal_edge_def)
  have sole: "?opt e \<and> ?pops ! (fwd ?E e - 1) = MUnique \<longleftrightarrow> e \<in> common ?E" if e: "e \<in> ?E" for e
  proof (cases "?opt e")
    case True
    with oe [OF e] have rank: "0 < fwd ?E e" "fwd ?E e \<le> optimum ?E" using optimal_rank_bounds [OF fin] by blast+
    have "?pops ! (fwd ?E e - 1) = times_observed (length (filter (\<lambda>f. ?opt f \<and> fwd ?E f = fwd ?E e) es))"
      using census_nth [of es ?opt "fwd ?E" "optimum ?E" "fwd ?E e - 1"] optimal_rank_bounds [OF fin] oe rank
      unfolding census_def Let_def by simp
    then have "?pops ! (fwd ?E e - 1) = MUnique \<longleftrightarrow> (\<forall>f \<in> ?E. ?opt f \<and> fwd ?E f = fwd ?E e \<longrightarrow> f = e)"
      using sole_filter [OF assms(2) e, of "\<lambda>f. ?opt f \<and> fwd ?E f = fwd ?E e"] True
      by (simp only: times_observed_unique simp_thms)
    then show ?thesis using True common_iff_sole [OF fin, of e] False oe e
      by (auto simp: optimal_edge_def)
  next
    case False
    then show ?thesis using common_iff_sole [OF fin, of e] \<open>es \<noteq> []\<close> by (auto simp: optimal_edge_def)
  qed
  have "filter (\<lambda>e. ?opt e \<and> ?pops ! (fwd ?E e - 1) = MUnique) es = filter (\<lambda>e. e \<in> common ?E) es"
    using sole by (intro filter_cong refl) blast
  moreover have "answers C (candidates_certify C \<lparr>cand_reference = rs, cand_edges = es\<rparr>)
      (filter (\<lambda>e. ?opt e \<and> ?pops ! (fwd ?E e - 1) = MUnique) es)"
    unfolding candidates_certify_def candidates.simps using False
    by (simp only: if_False) (intro answers_bind [OF answers_rank_forward [OF assms(1,3)]]
        answers_bind [OF answers_rank_backward [OF assms(1,3)]] answers_certify_ranks)
  ultimately show ?thesis by simp
qed

subsection \<open>Chains and alignments\<close>

text \<open>The pairs an alignment result matches, and the candidate edges of two sequences.\<close>

fun matched_pairs :: "align_result list \<Rightarrow> edge list" where
  "matched_pairs [] = []"
| "matched_pairs (Match k i j # out) = (i, j) # matched_pairs out"
| "matched_pairs (_ # out) = matched_pairs out"

definition match_edges :: "('a \<Rightarrow> 'a \<Rightarrow> bool) \<Rightarrow> 'a list \<Rightarrow> 'a list \<Rightarrow> edge set" where
  "match_edges m ps rs = {(i, j). i < length ps \<and> j < length rs \<and> m (ps ! i) (rs ! j)}"

lemma within_match_edges: "within (length ps) (length rs) (match_edges m ps rs)"
  by (auto simp: within_def match_edges_def)

lemma matched_pairs_append: "matched_pairs (xs @ ys) = matched_pairs xs @ matched_pairs ys"
  by (induction xs rule: matched_pairs.induct) auto

lemma aligned_pairs:
  "aligned m key ps rs i j out \<Longrightarrow>
     length ps + length rs = gaps out + 2 * length (matched_pairs out) \<and>
     sorted_wrt before (matched_pairs out) \<and>
     (\<forall>(a, b) \<in> set (matched_pairs out). i \<le> a \<and> j \<le> b \<and> (a - i, b - j) \<in> match_edges m ps rs)"
proof (induction m key ps rs i j out rule: aligned.induct)
  case (2 m key ps rs i j k a b out)
  then obtain p ps' r rs' where c: "ps = p # ps'" "rs = r # rs'" "m p r" "a = i" "b = j"
    "aligned m key ps' rs' (Suc i) (Suc j) out"
    by (auto split: list.splits)
  from "2.IH" [OF refl c(1,2) c(6)] have IH: "length ps' + length rs' = gaps out + 2 * length (matched_pairs out)"
    "sorted_wrt before (matched_pairs out)"
    "\<forall>(a, b) \<in> set (matched_pairs out). Suc i \<le> a \<and> Suc j \<le> b \<and> (a - Suc i, b - Suc j) \<in> match_edges m ps' rs'"
    by auto
  have "i \<le> x \<and> j \<le> y \<and> (x - i, y - j) \<in> match_edges m ps rs" if "(x, y) \<in> set (matched_pairs out)" for x y
    using IH(3) that c by (auto simp: match_edges_def nth_Cons' dest!: bspec)
  moreover have "before (a, b) xy" if "xy \<in> set (matched_pairs out)" for xy
    using IH(3) that c(4,5) by (auto simp: before_def)
  ultimately show ?case using IH(1,2) c(1-5) by (auto simp: match_edges_def)
next
  case (3 m key ps rs i j k a out)
  then obtain p ps' where c: "ps = p # ps'" "aligned m key ps' rs (Suc i) j out" by (auto split: list.splits)
  from "3.IH" [OF c(1,2)] c show ?case by (auto simp: match_edges_def nth_Cons' dest!: bspec)
next
  case (4 m key ps rs i j k b out)
  then obtain r rs' where c: "rs = r # rs'" "aligned m key ps rs' i (Suc j) out" by (auto split: list.splits)
  from "4.IH" [OF c(1,2)] c show ?case by (auto simp: match_edges_def nth_Cons' dest!: bspec)
qed auto

lemmas aligned_lengths = aligned_pairs [THEN conjunct1]

lemma aligned_chain:
  "aligned m key ps rs 0 0 out \<Longrightarrow> chain (match_edges m ps rs) (matched_pairs out)"
  using aligned_pairs [of m key ps rs 0 0 out] by (auto simp: chain_def)

lemma matched_pairs_extras:
  "matched_pairs (map (\<lambda>(n, k). ExtraPayload (f k) (g n)) xs) = []"
  "matched_pairs (map (\<lambda>(n, k). ExtraReference (f k) (g n)) xs) = []"
  by (induction xs) auto

text \<open>Every chain of candidate edges is matched by some alignment.\<close>

lemma chain_aligned:
  assumes "sorted_wrt before c"
    and "\<forall>(a, b) \<in> set c. i \<le> a \<and> j \<le> b \<and> (a - i, b - j) \<in> match_edges m ps rs"
  shows "\<exists>out. aligned m key ps rs i j out \<and> matched_pairs out = c"
  using assms
proof (induction c arbitrary: i j ps rs)
  case Nil
  have "aligned m key ([] @ ps) (rs @ []) i j
    (map (\<lambda>(n, k). ExtraReference (key k) (j + n)) (enumerate 0 rs) @
     map (\<lambda>(n, k). ExtraPayload (key k) (i + n)) (enumerate 0 ps))"
    using optimal_extra_reference [of m key rs i j] optimal_extra_payload [of m key ps i "j + length rs"]
    by (intro aligned_append) (simp_all add: optimal_def)
  then show ?case by (intro exI) (auto simp: matched_pairs_append matched_pairs_extras)
next
  case (Cons e c)
  obtain a b where e: "e = (a, b)" by fastforce
  have ab: "i \<le> a" "j \<le> b" "a - i < length ps" "b - j < length rs" "m (ps ! (a - i)) (rs ! (b - j))"
    using Cons.prems(2) e by (auto simp: match_edges_def)
  let ?p1 = "take (a - i) ps" and ?p2 = "drop (Suc (a - i)) ps"
  let ?r1 = "take (b - j) rs" and ?r2 = "drop (Suc (b - j)) rs"
  have ps: "ps = ?p1 @ ps ! (a - i) # ?p2" and rs: "rs = ?r1 @ rs ! (b - j) # ?r2"
    using ab(3,4) by (simp_all add: id_take_nth_drop [symmetric])
  have "\<forall>(x, y) \<in> set c. Suc a \<le> x \<and> Suc b \<le> y \<and> (x - Suc a, y - Suc b) \<in> match_edges m ?p2 ?r2"
  proof clarify
    fix x y assume xy: "(x, y) \<in> set c"
    with Cons.prems(1) e have gt: "a < x" "b < y" by (auto simp: before_def)
    moreover have "(x - i, y - j) \<in> match_edges m ps rs" using Cons.prems(2) xy by auto
    moreover have "Suc (a - i) + (x - Suc a) = x - i" "Suc (b - j) + (y - Suc b) = y - j" using gt ab by linarith+
    moreover have "x - Suc a < length ?p2" "y - Suc b < length ?r2"
      using calculation ab unfolding match_edges_def mem_Collect_eq prod.case length_drop by linarith+
    ultimately show "Suc a \<le> x \<and> Suc b \<le> y \<and> (x - Suc a, y - Suc b) \<in> match_edges m ?p2 ?r2"
      unfolding match_edges_def mem_Collect_eq prod.case by (auto simp only: nth_drop length_drop Suc_leI)
  qed
  then obtain out where out: "aligned m key ?p2 ?r2 (Suc a) (Suc b) out" "matched_pairs out = c"
    using Cons.IH [of "Suc a" "Suc b" ?p2 ?r2] Cons.prems(1) by auto
  let ?X = "map (\<lambda>(n, k). ExtraPayload (key k) (i + n)) (enumerate 0 ?p1)"
  let ?Y = "map (\<lambda>(n, k). ExtraReference (key k) (j + n)) (enumerate 0 ?r1)"
  have "aligned m key (?p1 @ [] @ ps ! (a - i) # ?p2) ([] @ ?r1 @ rs ! (b - j) # ?r2) i j
      (?X @ ?Y @ Match (key (rs ! (b - j))) a b # out)"
    using optimal_extra_payload [of m key ?p1 i j] optimal_extra_reference [of m key ?r1 "i + length ?p1" j] out ab
    by (intro aligned_append) (simp_all add: optimal_def min_def)
  then have "aligned m key ps rs i j (?X @ ?Y @ Match (key (rs ! (b - j))) a b # out)"
    using ps rs by simp
  moreover have "matched_pairs (?X @ ?Y @ Match (key (rs ! (b - j))) a b # out) = e # c"
    using out(2) e by (simp add: matched_pairs_append matched_pairs_extras)
  ultimately show ?case by blast
qed

definition least_gaps ::
  "('a \<Rightarrow> 'a \<Rightarrow> bool) \<Rightarrow> ('a \<Rightarrow> string) \<Rightarrow> 'a list \<Rightarrow> 'a list \<Rightarrow> align_result list \<Rightarrow> bool" where
  "least_gaps m key ps rs out \<longleftrightarrow> aligned m key ps rs 0 0 out \<and>
     (\<forall>out'. aligned m key ps rs 0 0 out' \<longrightarrow> gaps out \<le> gaps out')"

lemma least_gaps_longest:
  assumes "least_gaps m key ps rs out"
  shows "longest (match_edges m ps rs) (matched_pairs out)"
  unfolding longest_def
proof (intro conjI allI impI)
  have al: "aligned m key ps rs 0 0 out" using assms by (simp add: least_gaps_def)
  then show "chain (match_edges m ps rs) (matched_pairs out)" by (rule aligned_chain)
  fix d assume "chain (match_edges m ps rs) d"
  then obtain out' where out': "aligned m key ps rs 0 0 out'" "matched_pairs out' = d"
    using chain_aligned [of d 0 0 m ps rs key] by (auto simp: chain_def)
  with assms have "gaps out \<le> gaps out'" by (simp add: least_gaps_def)
  with aligned_lengths [OF al] aligned_lengths [OF out'(1)] out'(2)
  show "length d \<le> length (matched_pairs out)" by simp
qed

lemma longest_least_gaps:
  assumes "longest (match_edges m ps rs) c"
  shows "\<exists>out. least_gaps m key ps rs out \<and> matched_pairs out = c"
proof -
  have c: "chain (match_edges m ps rs) c" using assms by (simp add: longest_def)
  then obtain out where out: "aligned m key ps rs 0 0 out" "matched_pairs out = c"
    using chain_aligned [of c 0 0 m ps rs key] by (auto simp: chain_def)
  have "gaps out \<le> gaps out'" if "aligned m key ps rs 0 0 out'" for out'
  proof -
    have "length (matched_pairs out') \<le> length c" using assms aligned_chain [OF that] by (simp add: longest_def)
    with aligned_lengths [OF out(1)] aligned_lengths [OF that] out(2) show ?thesis by simp
  qed
  with out show ?thesis by (auto simp: least_gaps_def)
qed

text \<open>The common edges are the pairs matched by every alignment at least cost.\<close>

lemma common_alignments:
  "common (match_edges m ps rs) = {e. \<forall>out. least_gaps m key ps rs out \<longrightarrow> e \<in> set (matched_pairs out)}"
  unfolding common_def using least_gaps_longest longest_least_gaps by (metis (no_types, lifting))

end
