(* ===== verification/Packed_Literal.thy ===== *)
theory Packed_Literal
  imports Packed_Bits Correspondence
begin

text \<open>
  The packed score rows (\<^verbatim>\<open>crates/batchalign-transform/src/dp_align/packed_literal.rs\<close> and
  \<^verbatim>\<open>packed_literal/arithmetic.rs\<close>): a row of the longest-common-subsequence table is kept as its
  unit increments, one bit per reference position, and one word of the payload advances it 64
  positions at a time by a subtraction whose borrow runs through the words. The theorems show
  that the sparse equality masks describe the reference and that a row, read through its prefix
  scores, holds the lengths of the longest chains of matching pairs.
\<close>

subsection \<open>The row kernel\<close>

text \<open>\<^verbatim>\<open>u64::overflowing_sub\<close> and \<^verbatim>\<open>u64::count_ones\<close> of the language.\<close>

definition overflowing_sub :: "u64 \<Rightarrow> u64 \<Rightarrow> u64 \<times> bool" where
  "overflowing_sub a b = (a - b, a < b)"

definition count_ones :: "u64 \<Rightarrow> nat" where
  "count_ones w = length (filter (bit w) [0..<64])"

text \<open>\<^verbatim>\<open>step\<close>: the new word, then the values left in \<^verbatim>\<open>carry\<close> and \<^verbatim>\<open>borrow\<close>.\<close>

definition kernel_step :: "u64 \<Rightarrow> u64 \<Rightarrow> u64 \<Rightarrow> bool \<Rightarrow> u64 \<times> u64 \<times> bool" where
  "kernel_step old matches carry borrow =
     (let x = old OR matches;
          shifted = push_bit 1 old OR carry;
          carry' = drop_bit 63 old;
          (difference, first) = overflowing_sub x shifted;
          (difference, second) = overflowing_sub difference (of_bool borrow)
      in (x AND NOT difference, carry', first \<or> second))"

type_synonym postings = "(nat \<times> u64) list"

text \<open>
  \<^verbatim>\<open>extend_sparse\<close>: the loop's variables are the words already written, \<^verbatim>\<open>carry\<close>, \<^verbatim>\<open>borrow\<close> and the
  cursor into the postings.
\<close>

definition sparse_mask :: "postings \<Rightarrow> nat \<Rightarrow> nat \<Rightarrow> u64 \<times> nat" where
  "sparse_mask postings cursor block =
     (if cursor < length postings \<and> fst (postings ! cursor) = block
      then (snd (postings ! cursor), cursor + 1) else (0, cursor))"

definition extend_word :: "postings \<Rightarrow> nat \<times> u64 \<Rightarrow> u64 list \<times> u64 \<times> bool \<times> nat \<Rightarrow> u64 list \<times> u64 \<times> bool \<times> nat" where
  "extend_word postings bs st =
     (case st of (out, carry, borrow, cursor) \<Rightarrow>
        let (mask, cursor) = sparse_mask postings cursor (fst bs);
            (state, carry, borrow) = kernel_step (snd bs) mask carry borrow
        in (out @ [state], carry, borrow, cursor))"

definition extend_sparse ::
  "('s, 'e) work_control \<Rightarrow> u64 list \<Rightarrow> postings \<Rightarrow> ('s, 'e, u64 list) controlled" where
  "extend_sparse C bits postings =
     ctl_bind
       (ctl_for (enumerate 0 bits)
          (\<lambda>bs st. ctl_bind (if fst bs mod 1024 = 0 then ctl_check C else ctl_return ()) (\<lambda>_.
             ctl_return (extend_word postings bs st)))
          ([], 1, False, 0)) (\<lambda>(out, _).
     ctl_return out)"

subsection \<open>Masks of a reference\<close>

datatype reference_order = Forward | Reverse

text \<open>\<^verbatim>\<open>key\<close> and \<^verbatim>\<open>LiteralMatchMode::matches_words\<close>\<close>

fun literal_key :: "string \<Rightarrow> literal_match_mode \<Rightarrow> string" where
  "literal_key word LiteralExact = word"
| "literal_key word AsciiInsensitive = map to_ascii_lower word"

fun matches_words :: "literal_match_mode \<Rightarrow> string \<Rightarrow> string \<Rightarrow> bool" where
  "matches_words LiteralExact source reference = (source = reference)"
| "matches_words AsciiInsensitive source reference = eq_ignore_ascii_case source reference"

record literal_reference =
  lr_reference :: "string list"
  lr_mode :: literal_match_mode
  lr_masks :: "(string, postings) hash_map"

text \<open>The body of the loop of \<^verbatim>\<open>observe\<close>: \<^verbatim>\<open>entry(..).or_default()\<close>, then the last posting or a new one.\<close>

definition push_posting :: "nat \<Rightarrow> postings \<Rightarrow> postings" where
  "push_posting j postings =
     (let block = j div 64; b = push_bit (j mod 64) 1
      in if postings \<noteq> [] \<and> fst (last postings) = block
         then butlast postings @ [(block, snd (last postings) OR b)]
         else postings @ [(block, b)])"

fun original_index :: "nat \<Rightarrow> reference_order \<Rightarrow> nat \<Rightarrow> nat" where
  "original_index len Forward j = j"
| "original_index len Reverse j = len - 1 - j"

definition observe_position ::
  "string list \<Rightarrow> literal_match_mode \<Rightarrow> reference_order \<Rightarrow> nat \<Rightarrow> (string, postings) hash_map \<Rightarrow>
   (string, postings) hash_map" where
  "observe_position reference mode order j masks =
     (let k = literal_key (reference ! original_index (length reference) order j) mode
      in hm_insert k (push_posting j (case hm_get masks k of Some ps \<Rightarrow> ps | None \<Rightarrow> [])) masks)"

definition literal_reference_observe ::
  "('s, 'e) work_control \<Rightarrow> string list \<Rightarrow> literal_match_mode \<Rightarrow> reference_order \<Rightarrow>
   ('s, 'e, literal_reference) controlled" where
  "literal_reference_observe C reference mode order =
     ctl_bind (ctl_check C) (\<lambda>_.
     ctl_bind
       (ctl_for [0..<length reference]
          (\<lambda>j masks. ctl_bind (if j mod 1024 = 0 then ctl_check C else ctl_return ()) (\<lambda>_.
             ctl_return (observe_position reference mode order j masks))) []) (\<lambda>masks.
     ctl_return \<lparr>lr_reference = reference, lr_mode = mode, lr_masks = masks\<rparr>))"

definition lr_postings :: "literal_reference \<Rightarrow> string \<Rightarrow> postings option" where
  "lr_postings owner word = hm_get (lr_masks owner) (literal_key word (lr_mode owner))"

definition lr_advance ::
  "('s, 'e) work_control \<Rightarrow> literal_reference \<Rightarrow> u64 list \<Rightarrow> string \<Rightarrow> ('s, 'e, u64 list) controlled" where
  "lr_advance C owner bits word =
     extend_sparse C bits (case lr_postings owner word of Some ps \<Rightarrow> ps | None \<Rightarrow> [])"

subsection \<open>Rows, checkpoints and prefix scores\<close>

record packed_row =
  row_owner :: literal_reference
  row_bits :: "u64 list"

record packed_checkpoint =
  cp_owner :: literal_reference
  cp_bits :: "u64 list"

definition lr_start :: "literal_reference \<Rightarrow> packed_row" where
  "lr_start owner = \<lparr>row_owner = owner, row_bits = replicate (div_ceil (length (lr_reference owner)) 64) 0\<rparr>"

definition row_checkpoint :: "packed_row \<Rightarrow> packed_checkpoint" where
  "row_checkpoint row = \<lparr>cp_owner = row_owner row, cp_bits = row_bits row\<rparr>"

definition checkpoint_resume :: "packed_checkpoint \<Rightarrow> packed_row" where
  "checkpoint_resume cp = \<lparr>row_owner = cp_owner cp, row_bits = cp_bits cp\<rparr>"

definition row_extend ::
  "('s, 'e) work_control \<Rightarrow> packed_row \<Rightarrow> string \<Rightarrow> ('s, 'e, packed_row) controlled" where
  "row_extend C row word =
     ctl_bind (ctl_check C) (\<lambda>_.
     ctl_bind (lr_advance C (row_owner row) (row_bits row) word) (\<lambda>bits.
     ctl_return (row\<lparr>row_bits := bits\<rparr>)))"

definition row_score :: "packed_row \<Rightarrow> nat" where
  "row_score row = sum_list (map count_ones (row_bits row))"

record prefix_block =
  blk_before :: nat
  blk_bits :: u64

record prefix_scores =
  ps_blocks :: "prefix_block list"
  ps_length :: nat
  ps_total :: nat

fun prefix_blocks :: "nat \<Rightarrow> u64 list \<Rightarrow> prefix_block list \<times> nat" where
  "prefix_blocks seen [] = ([], seen)"
| "prefix_blocks seen (bits # rest) =
     (let (blocks, total) = prefix_blocks (seen + count_ones bits) rest
      in (\<lparr>blk_before = seen, blk_bits = bits\<rparr> # blocks, total))"

definition row_prefixes :: "packed_row \<Rightarrow> prefix_scores" where
  "row_prefixes row =
     (let (blocks, total) = prefix_blocks 0 (row_bits row)
      in \<lparr>ps_blocks = blocks, ps_length = length (lr_reference (row_owner row)), ps_total = total\<rparr>)"

definition scores_before :: "prefix_scores \<Rightarrow> nat \<Rightarrow> nat" where
  "scores_before scores prefix =
     (if prefix = ps_length scores then ps_total scores
      else
        (let block = ps_blocks scores ! (prefix div 64);
             m = push_bit (prefix mod 64) 1 - 1
         in blk_before block + count_ones (blk_bits block AND m)))"

subsection \<open>Subtraction bit by bit\<close>

fun borrow_at :: "'a :: len word \<Rightarrow> 'a word \<Rightarrow> bool \<Rightarrow> nat \<Rightarrow> bool" where
  "borrow_at x s b 0 = b"
| "borrow_at x s b (Suc j) = (if bit x j then bit s j \<and> borrow_at x s b j else bit s j \<or> borrow_at x s b j)"

lemma take_bit_diff_borrow:
  fixes x s :: "'a :: len word"
  assumes "j \<le> LENGTH('a)"
  shows "take_bit j (uint (x - s - of_bool b)) =
      take_bit j (uint x) - take_bit j (uint s) - of_bool b + 2 ^ j * of_bool (borrow_at x s b j)"
    and "j < LENGTH('a) \<Longrightarrow> bit (x - s - of_bool b) j = (bit x j \<noteq> (bit s j \<noteq> borrow_at x s b j))"
proof -
  define c :: int where "c = of_bool b"
  define d where "d = uint (x - s - of_bool b)"
  have whole: "d = take_bit LENGTH('a) (uint x - uint s - c)" unfolding d_def c_def
    by (cases b) (simp_all add: uint_word_ariths take_bit_eq_mod mod_diff_left_eq)
  have cong: "take_bit n d = take_bit n (take_bit n (uint x) - take_bit n (uint s) - c)"
    if "n \<le> LENGTH('a)" for n
  proof -
    have "take_bit n d = take_bit n (uint x - uint s - c)" using that by (simp add: whole min_def)
    moreover have "(uint x mod 2 ^ n - uint s mod 2 ^ n - c) mod 2 ^ n = (uint x - uint s - c) mod 2 ^ n"
      by (metis mod_diff_left_eq mod_diff_eq)
    ultimately show ?thesis unfolding take_bit_eq_mod by (simp only:)
  qed
  have step: "bit d n = (bit x n \<noteq> (bit s n \<noteq> borrow_at x s b n))"
    if IH: "take_bit n d = take_bit n (uint x) - take_bit n (uint s) - c + 2 ^ n * of_bool (borrow_at x s b n)"
      and n: "n < LENGTH('a)" for n
  proof -
    define e :: int where "e = of_bool (bit (uint x) n) - of_bool (bit (uint s) n) - of_bool (borrow_at x s b n)"
    have "take_bit (Suc n) (uint x) - take_bit (Suc n) (uint s) - c = take_bit n d + 2 ^ n * e"
      unfolding IH e_def take_bit_Suc_from_most by (simp only: ring_distribs)
    with cong [of "Suc n"] n have "take_bit (Suc n) d = take_bit (Suc n) (take_bit n d + 2 ^ n * e)" by simp
    moreover have "take_bit (Suc n) d = take_bit (Suc n) (take_bit n d + 2 ^ n * of_bool (bit d n))"
      using take_bit_Suc_from_most [of n d] by (metis add.commute min.idem take_bit_take_bit)
    ultimately have "(2 :: int) ^ Suc n dvd take_bit n d + 2 ^ n * of_bool (bit d n) - (take_bit n d + 2 ^ n * e)"
      unfolding take_bit_eq_mod by (metis mod_eq_dvd_iff)
    then have "(2 :: int) ^ n * 2 dvd 2 ^ n * (of_bool (bit d n) - e)" by (simp add: algebra_simps)
    then have "(2 :: int) dvd of_bool (bit d n) - e" by (subst (asm) dvd_mult_cancel_left) simp
    then show ?thesis unfolding e_def using n by (auto simp: of_bool_def bit_uint_iff split: if_splits)
  qed
  have main: "take_bit n d = take_bit n (uint x) - take_bit n (uint s) - c + 2 ^ n * of_bool (borrow_at x s b n)"
    if "n \<le> LENGTH('a)" for n using that
  proof (induction n)
    case 0
    then show ?case by (simp add: c_def)
  next
    case (Suc n)
    then have IH: "take_bit n d = take_bit n (uint x) - take_bit n (uint s) - c + 2 ^ n * of_bool (borrow_at x s b n)"
      and n: "n < LENGTH('a)" by simp_all
    from step [OF IH n] IH n show ?case unfolding take_bit_Suc_from_most borrow_at.simps
      by (cases "bit x n"; cases "bit s n"; cases "borrow_at x s b n") (simp_all add: bit_uint_iff)
  qed
  show "take_bit j (uint (x - s - of_bool b)) =
      take_bit j (uint x) - take_bit j (uint s) - of_bool b + 2 ^ j * of_bool (borrow_at x s b j)"
    using main [OF assms] by (simp only: d_def c_def)
  assume j: "j < LENGTH('a)"
  have "bit d j = bit (x - s - of_bool b) j" unfolding d_def using j by (simp add: bit_uint_iff)
  with step [OF main [OF assms] j] show "bit (x - s - of_bool b) j = (bit x j \<noteq> (bit s j \<noteq> borrow_at x s b j))"
    by simp
qed

lemma borrow_out:
  fixes x s :: "'a :: len word"
  shows "x < s \<or> x - s < of_bool b \<longleftrightarrow> borrow_at x s b LENGTH('a)"
proof -
  have whole: "take_bit LENGTH('a) (uint w) = uint w" for w :: "'a word"
    by (simp add: take_bit_int_eq_self_iff)
  have "uint (x - s - of_bool b) = uint x - uint s - of_bool b + 2 ^ LENGTH('a) * of_bool (borrow_at x s b LENGTH('a))"
    using take_bit_diff_borrow(1) [of "LENGTH('a)" x s b] by (simp only: whole order.refl)
  moreover have "0 \<le> uint (x - s - of_bool b)" "uint (x - s - of_bool b) < 2 ^ LENGTH('a)" by simp_all
  moreover have "uint x < 2 ^ LENGTH('a)" by simp
  moreover have "0 \<le> uint s" by simp
  ultimately have "borrow_at x s b LENGTH('a) \<longleftrightarrow> uint x < uint s + of_bool b"
    by (cases "borrow_at x s b LENGTH('a)"; cases b) auto
  moreover have "x - s < of_bool b \<longleftrightarrow> uint x - uint s < of_bool b" if "\<not> x < s"
    using that by (cases b) (auto simp: word_less_def uint_sub_if' word_le_def not_less)
  ultimately show ?thesis by (cases "x < s") (auto simp: word_less_def)
qed

subsection \<open>One row of the table\<close>

text \<open>The rank of a bit function, and the row the table's recurrence makes of the previous row.\<close>

definition rank :: "(nat \<Rightarrow> bool) \<Rightarrow> nat \<Rightarrow> nat" where
  "rank f k = card {i. i < k \<and> f i}"

fun lcs_row :: "(nat \<Rightarrow> nat) \<Rightarrow> (nat \<Rightarrow> bool) \<Rightarrow> nat \<Rightarrow> nat" where
  "lcs_row L m 0 = 0"
| "lcs_row L m (Suc k) = max (L (Suc k)) (max (lcs_row L m k) (L k + of_bool (m k)))"

lemma rank_0 [simp]: "rank f 0 = 0"
  by (simp add: rank_def)

lemma rank_Suc [simp]: "rank f (Suc k) = rank f k + of_bool (f k)"
proof -
  have "{i. i < Suc k \<and> f i} = (if f k then insert k {i. i < k \<and> f i} else {i. i < k \<and> f i})"
    by (auto simp: less_Suc_eq)
  then show ?thesis by (simp add: rank_def)
qed

lemma rank_cong: "(\<And>i. i < k \<Longrightarrow> f i = g i) \<Longrightarrow> rank f k = rank g k"
  unfolding rank_def by (intro arg_cong [where f = card]) auto

lemma lcs_row_cong: "(\<And>i. i \<le> k \<Longrightarrow> L i = L' i) \<Longrightarrow> (\<And>i. i < k \<Longrightarrow> m i = m' i) \<Longrightarrow> lcs_row L m k = lcs_row L' m' k"
  by (induction k) auto

text \<open>The new row is above the old one by at most one; where it is, the word holds no increment.\<close>

definition raised_at :: "(nat \<Rightarrow> bool) \<Rightarrow> (nat \<Rightarrow> bool) \<Rightarrow> nat \<Rightarrow> bool" where
  "raised_at f m k \<longleftrightarrow> rank f k < lcs_row (rank f) m k"

lemma lcs_row_bounds: "rank f k \<le> lcs_row (rank f) m k \<and> lcs_row (rank f) m k \<le> rank f k + 1"
proof (induction k)
  case (Suc k)
  then show ?case by (cases "f k"; cases "m k") auto
qed simp

lemma lcs_row_raised: "lcs_row (rank f) m k = rank f k + of_bool (raised_at f m k)"
  using lcs_row_bounds [of f k m] by (cases "raised_at f m k") (auto simp: raised_at_def)

lemma raised_at_Suc: "raised_at f m (Suc k) \<longleftrightarrow> \<not> f k \<and> (raised_at f m k \<or> m k)"
  using lcs_row_bounds [of f k m] by (cases "f k"; cases "m k") (auto simp: raised_at_def)

lemma lcs_row_rank: "lcs_row (rank f) m k = rank (\<lambda>i. (f i \<or> m i) \<and> \<not> raised_at f m i) k"
proof (induction k)
  case (Suc k)
  then show ?case using lcs_row_raised [of f m k] lcs_row_raised [of f m "Suc k"]
    by (auto simp: raised_at_Suc simp del: lcs_row.simps)
qed simp

text \<open>The relation the carry and the borrow keep at every position.\<close>

definition linked :: "(nat \<Rightarrow> bool) \<Rightarrow> (nat \<Rightarrow> bool) \<Rightarrow> nat \<Rightarrow> bool \<Rightarrow> bool \<Rightarrow> bool" where
  "linked f m k c b \<longleftrightarrow> (if raised_at f m k then \<not> c \<and> \<not> b else c \<noteq> b)"

lemma linked_0: "linked f m 0 True False"
  by (simp add: linked_def raised_at_def)

lemma linked_Suc:
  assumes "linked f m k c b"
  shows "linked f m (Suc k) (f k) (if f k \<or> m k then c \<and> b else c \<or> b)"
  using assms by (auto simp: linked_def raised_at_Suc split: if_splits)

lemma kernel_step_row:
  assumes "kernel_step old matches carry borrow = (new, carry', borrow')"
    and "linked f m (64 * block) c borrow" and "carry = of_bool c"
    and "\<And>k. k < 64 \<Longrightarrow> f (64 * block + k) = bit old k" and "\<And>k. k < 64 \<Longrightarrow> m (64 * block + k) = bit matches k"
  shows "\<exists>c'. linked f m (64 * Suc block) c' borrow' \<and> carry' = of_bool c'"
    and "\<And>k. k < 64 \<Longrightarrow> bit new k \<longleftrightarrow> (f (64 * block + k) \<or> m (64 * block + k)) \<and> \<not> raised_at f m (64 * block + k)"
proof -
  let ?x = "old OR matches" and ?s = "push_bit 1 old OR carry"
  let ?d = "?x - ?s - of_bool borrow"
  have new: "new = ?x AND NOT ?d" "carry' = drop_bit 63 old" "borrow' \<longleftrightarrow> ?x < ?s \<or> ?x - ?s < of_bool borrow"
    using assms(1) by (auto simp: kernel_step_def overflowing_sub_def Let_def)
  have x: "bit ?x k \<longleftrightarrow> f (64 * block + k) \<or> m (64 * block + k)" if "k < 64" for k
    using assms(4,5) that by (simp add: bit_or_iff)
  have s0: "bit ?s 0 = c" unfolding bit_or_iff bit_push_bit_iff using assms(3) by simp
  have s: "bit ?s (Suc k) = bit old k" if "Suc k < 64" for k
    unfolding bit_or_iff bit_push_bit_iff using assms(3) that by (auto simp: bit_1_iff)
  have link: "linked f m (64 * block + k) (if k = 0 then c else bit old (k - 1)) (borrow_at ?x ?s borrow k)"
    if "k \<le> 64" for k using that
  proof (induction k)
    case 0
    then show ?case using assms(2) by simp
  next
    case (Suc k)
    then have k: "k < 64" by simp
    have "bit ?s k = (if k = 0 then c else bit old (k - 1))" using s0 s [of "k - 1"] k by (cases k) auto
    with linked_Suc [OF Suc.IH] k x [OF k] assms(4) [OF k] show ?case by (auto simp: conj_commute disj_commute)
  qed
  have "bit old 63 = bit carry' 0" using new(2) by (simp add: bit_drop_bit_eq)
  moreover have "carry' = of_bool (bit old 63)"
  proof (rule bit_word_eqI)
    fix k assume "k < LENGTH(64)"
    then show "bit carry' k = bit (of_bool (bit old 63) :: u64) k"
      using new(2) by (cases k) (auto simp: bit_drop_bit_eq bit_1_iff dest: bit_imp_le_length)
  qed
  moreover have "borrow' = borrow_at ?x ?s borrow 64" using new(3) borrow_out [of ?x ?s borrow] by simp
  ultimately show "\<exists>c'. linked f m (64 * Suc block) c' borrow' \<and> carry' = of_bool c'"
    using link [of 64] by (intro exI [of _ "bit old 63"]) (simp add: add.commute)
  fix k :: nat assume k: "k < 64"
  have "bit ?d k = (bit ?x k \<noteq> (bit ?s k \<noteq> borrow_at ?x ?s borrow k))"
    using take_bit_diff_borrow(2) [of k ?x ?s borrow] k by simp
  moreover have "bit ?s k = (if k = 0 then c else bit old (k - 1))" using s0 s [of "k - 1"] k by (cases k) auto
  ultimately show "bit new k \<longleftrightarrow> (f (64 * block + k) \<or> m (64 * block + k)) \<and> \<not> raised_at f m (64 * block + k)"
    using link [of k] k x [OF k] unfolding new(1) by (auto simp: bit_and_iff bit_not_iff linked_def split: if_splits)
qed

subsection \<open>Masks\<close>

definition postings_ok :: "postings \<Rightarrow> bool" where
  "postings_ok ps \<longleftrightarrow> sorted_wrt (<) (map fst ps)"

definition mask_at :: "postings \<Rightarrow> nat \<Rightarrow> u64" where
  "mask_at ps block = (case map_of ps block of Some w \<Rightarrow> w | None \<Rightarrow> 0)"

definition posting_bit :: "postings \<Rightarrow> nat \<Rightarrow> bool" where
  "posting_bit ps j = bit (mask_at ps (j div 64)) (j mod 64)"

definition cursor_at :: "postings \<Rightarrow> nat \<Rightarrow> nat" where
  "cursor_at ps block = length (takeWhile (\<lambda>p. fst p < block) ps)"

lemma mask_at_Cons: "mask_at ((b, w) # ps) block = (if b = block then w else mask_at ps block)"
  by (simp add: mask_at_def)

lemma mask_at_late: "\<forall>p \<in> set ps. block < fst p \<Longrightarrow> mask_at ps block = 0"
  by (induction ps) (auto simp: mask_at_def)

text \<open>The cursor at the first posting not before a block finds that block's mask.\<close>

lemma sparse_mask_cursor:
  assumes "postings_ok ps"
  shows "sparse_mask ps (cursor_at ps block) block = (mask_at ps block, cursor_at ps (Suc block))"
  using assms
proof (induction ps)
  case Nil
  then show ?case by (simp add: sparse_mask_def cursor_at_def mask_at_def)
next
  case (Cons p ps)
  obtain b w where p: "p = (b, w)" by fastforce
  have later: "\<forall>q \<in> set ps. b < fst q" and ok: "postings_ok ps" using Cons.prems p by (auto simp: postings_ok_def)
  consider "b < block" | "b = block" | "block < b" by linarith
  then show ?case
  proof cases
    case 1
    then have "sparse_mask (p # ps) (cursor_at (p # ps) block) block =
        (let (m, c) = sparse_mask ps (cursor_at ps block) block in (m, Suc c))"
      by (simp add: p sparse_mask_def cursor_at_def)
    with Cons.IH [OF ok] 1 show ?thesis by (simp add: p mask_at_Cons) (simp add: cursor_at_def)
  next
    case 2
    moreover have "takeWhile (\<lambda>q. fst q < Suc block) ps = []" using later 2 by (cases ps) auto
    ultimately show ?thesis by (simp add: p sparse_mask_def cursor_at_def mask_at_Cons)
  next
    case 3
    with later have "mask_at ps block = 0" by (intro mask_at_late) auto
    with 3 show ?thesis by (simp add: p sparse_mask_def cursor_at_def mask_at_Cons)
  qed
qed

lemma cursor_at_0 [simp]: "cursor_at ps 0 = 0"
  by (cases ps) (simp_all add: cursor_at_def)

lemma bit_at_append:
  "bit_at (ws @ [w]) i = (if i div 64 < length ws then bit_at ws i else i div 64 = length ws \<and> bit w (i mod 64))"
  by (auto simp: bit_at_def stored_def nth_append)

text \<open>The words already written hold the new row's increments; carry, borrow and cursor are in step.\<close>

lemma extend_words:
  assumes "postings_ok ps" and "n \<le> length bits"
  shows "\<exists>out c b. fold (extend_word ps) (enumerate 0 (take n bits)) ([], 1, False, 0) = (out, of_bool c, b, cursor_at ps n) \<and>
    length out = n \<and> linked (bit_at bits) (posting_bit ps) (64 * n) c b \<and>
    (\<forall>i < 64 * n. bit_at out i \<longleftrightarrow>
       (bit_at bits i \<or> posting_bit ps i) \<and> \<not> raised_at (bit_at bits) (posting_bit ps) i)"
  using assms(2)
proof (induction n)
  case 0
  show ?case using linked_0 by (intro exI [of _ "[]"] exI [of _ True] exI [of _ False]) simp
next
  case (Suc n)
  let ?f = "bit_at bits" and ?m = "posting_bit ps"
  from Suc obtain out c b where IH:
    "fold (extend_word ps) (enumerate 0 (take n bits)) ([], 1, False, 0) = (out, of_bool c, b, cursor_at ps n)"
    "length out = n" "linked ?f ?m (64 * n) c b" "\<forall>i < 64 * n. bit_at out i \<longleftrightarrow> (?f i \<or> ?m i) \<and> \<not> raised_at ?f ?m i"
    by auto
  obtain new carry' b' where k: "kernel_step (bits ! n) (mask_at ps n) (of_bool c) b = (new, carry', b')"
    by (rule prod_cases3)
  have n: "n < length bits" using Suc.prems by simp
  have old: "?f (64 * n + k) = bit (bits ! n) k" and msk: "?m (64 * n + k) = bit (mask_at ps n) k" if "k < 64" for k
    using that n by (simp_all add: bit_at_def stored_def posting_bit_def)
  from kernel_step_row [OF k IH(3) refl old msk] obtain c' where c': "linked ?f ?m (64 * Suc n) c' b'" "carry' = of_bool c'"
    and bits: "\<And>k. k < 64 \<Longrightarrow> bit new k \<longleftrightarrow> (?f (64 * n + k) \<or> ?m (64 * n + k)) \<and> \<not> raised_at ?f ?m (64 * n + k)"
    by blast
  have "enumerate 0 (take (Suc n) bits) = enumerate 0 (take n bits) @ [(n, bits ! n)]"
    using n by (simp add: take_Suc_conv_app_nth enumerate_append_eq)
  then have "fold (extend_word ps) (enumerate 0 (take (Suc n) bits)) ([], 1, False, 0) =
      (out @ [new], of_bool c', b', cursor_at ps (Suc n))"
    using IH(1) k c'(2) by (simp add: extend_word_def sparse_mask_cursor [OF assms(1)])
  moreover have "bit_at (out @ [new]) i \<longleftrightarrow> (?f i \<or> ?m i) \<and> \<not> raised_at ?f ?m i" if "i < 64 * Suc n" for i
  proof (cases "i < 64 * n")
    case True
    then have "i div 64 < n" by (simp add: less_mult_imp_div_less mult.commute)
    with True IH(2,4) show ?thesis by (simp add: bit_at_append)
  next
    case False
    define k where "k = i - 64 * n"
    have i: "i = 64 * n + k" "k < 64" using False that by (simp_all add: k_def)
    then have "i div 64 = n" "i mod 64 = k" by simp_all
    with IH(2) bits [OF i(2)] i(1) show ?thesis by (simp add: bit_at_append)
  qed
  ultimately show ?case using IH(2) c'(1) by (intro exI [of _ "out @ [new]"] exI [of _ c'] exI [of _ b']) simp
qed

definition extended :: "postings \<Rightarrow> u64 list \<Rightarrow> u64 list" where
  "extended ps bits = fst (fold (extend_word ps) (enumerate 0 bits) ([], 1, False, 0))"

lemma answers_extend_sparse: "answers C (extend_sparse C bits ps) (extended ps bits)"
proof -
  have "answers C (ctl_for (enumerate 0 bits) (\<lambda>bs st.
      ctl_bind (if fst bs mod 1024 = 0 then ctl_check C else ctl_return ()) (\<lambda>_. ctl_return (extend_word ps bs st)))
      ([], 1, False, 0)) (fold (extend_word ps) (enumerate 0 bits) ([], 1, False, 0))"
    by (intro answers_for answers_then answering)
  then show ?thesis unfolding extend_sparse_def extended_def
    by (rule answers_bind) (simp add: split_beta answers_return)
qed

lemma extended_row:
  assumes "postings_ok ps"
  shows "length (extended ps bits) = length bits"
    and "k \<le> 64 * length bits \<Longrightarrow> rank (bit_at (extended ps bits)) k = lcs_row (rank (bit_at bits)) (posting_bit ps) k"
    and "bit_at (extended ps bits) i \<Longrightarrow> bit_at bits i \<or> posting_bit ps i"
proof -
  from extend_words [OF assms, of "length bits" bits] have e: "length (extended ps bits) = length bits"
    "\<forall>i < 64 * length bits. bit_at (extended ps bits) i \<longleftrightarrow>
       (bit_at bits i \<or> posting_bit ps i) \<and> \<not> raised_at (bit_at bits) (posting_bit ps) i"
    by (auto simp: extended_def)
  show "length (extended ps bits) = length bits" by (rule e(1))
  show "bit_at (extended ps bits) i \<Longrightarrow> bit_at bits i \<or> posting_bit ps i"
    using e bit_at_outside [of "extended ps bits" i] by (metis not_le)
  assume "k \<le> 64 * length bits"
  with e(2) show "rank (bit_at (extended ps bits)) k = lcs_row (rank (bit_at bits)) (posting_bit ps) k"
    unfolding lcs_row_rank by (intro rank_cong) auto
qed

lemma mask_at_snoc:
  assumes "\<forall>p \<in> set qs. fst p < b"
  shows "mask_at (qs @ [(b, w)]) x = (if x = b then w else mask_at qs x)"
proof -
  have "map_of qs b = None" using assms by (auto simp: map_of_eq_None_iff)
  then show ?thesis by (auto simp: mask_at_def map_add_def split: option.splits)
qed

lemma push_posting:
  assumes "postings_ok ps" and "\<forall>p \<in> set ps. 64 * fst p < n"
  shows "postings_ok (push_posting n ps)" and "\<forall>p \<in> set (push_posting n ps). 64 * fst p < Suc n"
    and "posting_bit (push_posting n ps) j \<longleftrightarrow> j = n \<or> posting_bit ps j"
proof -
  let ?b = "n div 64" and ?w = "push_bit (n mod 64) 1 :: u64"
  have at: "j = n \<longleftrightarrow> j div 64 = ?b \<and> j mod 64 = n mod 64" for j by (metis mult_div_mod_eq)
  have w: "bit ?w k \<longleftrightarrow> k = n mod 64" for k
    unfolding bit_push_bit_iff by (auto simp: bit_1_iff)
  have le: "fst p \<le> ?b" if "p \<in> set ps" for p using assms(2) that by (auto simp: less_eq_div_iff_mult_less_eq)
  have nb: "64 * ?b < Suc n" by (simp add: less_Suc_eq_le)
  have "postings_ok (push_posting n ps) \<and> (\<forall>p \<in> set (push_posting n ps). 64 * fst p < Suc n) \<and>
      (\<forall>j. posting_bit (push_posting n ps) j \<longleftrightarrow> j = n \<or> posting_bit ps j)"
  proof (cases "ps \<noteq> [] \<and> fst (last ps) = ?b")
    case True
    define qs v where "qs = butlast ps" and "v = snd (last ps)"
    have ps: "ps = qs @ [(?b, v)]" using True unfolding qs_def v_def by (metis append_butlast_last_id prod.collapse)
    then have push: "push_posting n ps = qs @ [(?b, v OR ?w)]" by (simp add: push_posting_def Let_def)
    have lt: "\<forall>p \<in> set qs. fst p < ?b" and ok: "postings_ok qs" using assms(1) ps by (auto simp: postings_ok_def sorted_wrt_append)
    have "postings_ok (push_posting n ps)" using assms(1) ps push by (auto simp: postings_ok_def sorted_wrt_append)
    moreover have "\<forall>p \<in> set (push_posting n ps). 64 * fst p < Suc n"
      using assms(2) ps push nb by (auto intro: less_SucI)
    moreover have "posting_bit (push_posting n ps) j \<longleftrightarrow> j = n \<or> posting_bit ps j" for j
      unfolding push unfolding ps posting_bit_def mask_at_snoc [OF lt] at by (auto simp: bit_or_iff w simp del: push_bit_of_1)
    ultimately show ?thesis by blast
  next
    case False
    then have push: "push_posting n ps = ps @ [(?b, ?w)]" by (auto simp: push_posting_def Let_def)
    have lt: "\<forall>p \<in> set ps. fst p < ?b"
    proof (cases ps rule: rev_cases)
      case (snoc qs p)
      then have "fst p < ?b" using False le [of p] by simp
      moreover have "\<forall>q \<in> set qs. fst q < fst p" using assms(1) snoc by (auto simp: postings_ok_def sorted_wrt_append)
      ultimately show ?thesis using snoc by auto
    qed simp
    have "postings_ok (push_posting n ps)" using assms(1) push lt by (auto simp: postings_ok_def sorted_wrt_append)
    moreover have "\<forall>p \<in> set (push_posting n ps). 64 * fst p < Suc n" using assms(2) push nb by (auto intro: less_SucI)
    moreover have "posting_bit (push_posting n ps) j \<longleftrightarrow> j = n \<or> posting_bit ps j" for j
    proof -
      have "mask_at ps ?b = 0" using lt by (fastforce simp: mask_at_def split: option.splits dest: map_of_SomeD)
      then show ?thesis
        unfolding push posting_bit_def mask_at_snoc [OF lt] at by (auto simp: w simp del: push_bit_of_1)
    qed
    ultimately show ?thesis by blast
  qed
  then show "postings_ok (push_posting n ps)" "\<forall>p \<in> set (push_posting n ps). 64 * fst p < Suc n"
    "posting_bit (push_posting n ps) j \<longleftrightarrow> j = n \<or> posting_bit ps j" by blast+
qed

definition owned_postings :: "(string, postings) hash_map \<Rightarrow> string \<Rightarrow> postings" where
  "owned_postings masks k = (case hm_get masks k of Some ps \<Rightarrow> ps | None \<Rightarrow> [])"

definition masks_ok :: "(nat \<Rightarrow> string) \<Rightarrow> nat \<Rightarrow> (string, postings) hash_map \<Rightarrow> bool" where
  "masks_ok key_of n masks \<longleftrightarrow>
     (\<forall>k. let ps = owned_postings masks k
          in postings_ok ps \<and> (\<forall>p \<in> set ps. 64 * fst p < n) \<and> (\<forall>j. posting_bit ps j \<longleftrightarrow> j < n \<and> key_of j = k))"

lemma masks_ok_observe:
  assumes "\<And>j. key_of j = literal_key (rs ! original_index (length rs) order j) mode"
  shows "masks_ok key_of n (fold (observe_position rs mode order) [0..<n] [])"
proof (induction n)
  case 0
  then show ?case by (simp add: masks_ok_def owned_postings_def hm_get_def postings_ok_def posting_bit_def mask_at_def)
next
  case (Suc n)
  let ?masks = "fold (observe_position rs mode order) [0..<n] []"
  have IH: "postings_ok (owned_postings ?masks k)" "\<forall>p \<in> set (owned_postings ?masks k). 64 * fst p < n"
    "posting_bit (owned_postings ?masks k) j \<longleftrightarrow> j < n \<and> key_of j = k" for k j
    using Suc by (simp_all add: masks_ok_def Let_def)
  have owned: "owned_postings (observe_position rs mode order n ?masks) k =
      (if k = key_of n then push_posting n (owned_postings ?masks k) else owned_postings ?masks k)" for k
    using assms [of n] by (auto simp: owned_postings_def observe_position_def Let_def hm_get_insert)
  have "let ps = owned_postings (observe_position rs mode order n ?masks) k
    in postings_ok ps \<and> (\<forall>p \<in> set ps. 64 * fst p < Suc n) \<and> (\<forall>j. posting_bit ps j \<longleftrightarrow> j < Suc n \<and> key_of j = k)" for k
  proof (cases "k = key_of n")
    case True
    then show ?thesis unfolding owned using push_posting [OF IH(1,2)] IH(3) by (auto simp: Let_def)
  next
    case False
    then show ?thesis unfolding owned using IH by (auto simp: Let_def less_Suc_eq)
  qed
  then show ?case by (simp add: masks_ok_def)
qed

lemma literal_key_matches: "literal_key a mode = literal_key b mode \<longleftrightarrow> string_matches mode a b"
  by (cases mode) (simp_all add: string_matches_def eq_ignore_ascii_case_def)

subsection \<open>Rows of a reference\<close>

fun ordered :: "reference_order \<Rightarrow> 'a list \<Rightarrow> 'a list" where
  "ordered Forward rs = rs"
| "ordered Reverse rs = rev rs"

lemma ordered_nth: "j < length rs \<Longrightarrow> rs ! original_index (length rs) order j = ordered order rs ! j"
  by (cases order) (simp_all add: rev_nth)

lemma length_ordered [simp]: "length (ordered order rs) = length rs"
  by (cases order) simp_all

text \<open>The masks of a reference, read in its order, are its matches with a word.\<close>

definition reads :: "literal_reference \<Rightarrow> literal_match_mode \<Rightarrow> string list \<Rightarrow> bool" where
  "reads owner mode rs \<longleftrightarrow> lr_mode owner = mode \<and> length (lr_reference owner) = length rs \<and>
     (\<forall>word. let ps = owned_postings (lr_masks owner) (literal_key word mode)
        in postings_ok ps \<and> (\<forall>j. posting_bit ps j \<longleftrightarrow> j < length rs \<and> string_matches mode word (rs ! j)))"

lemma answers_literal_reference_observe:
  "\<exists>owner. reads owner mode (ordered order rs) \<and> lr_reference owner = rs \<and>
     (\<forall>C :: ('s, 'e) work_control. answers C (literal_reference_observe C rs mode order) owner)"
proof -
  let ?masks = "fold (observe_position rs mode order) [0..<length rs] []"
  let ?owner = "\<lparr>lr_reference = rs, lr_mode = mode, lr_masks = ?masks\<rparr>"
  have "masks_ok (\<lambda>j. literal_key (rs ! original_index (length rs) order j) mode) (length rs) ?masks"
    by (rule masks_ok_observe) simp
  then have "reads ?owner mode (ordered order rs)"
    unfolding reads_def masks_ok_def Let_def
    by (auto simp: ordered_nth literal_key_matches [symmetric])
  moreover have "answers C (literal_reference_observe C rs mode order) ?owner" for C :: "('s, 'e) work_control"
  proof -
    have "answers C (ctl_for [0..<length rs] (\<lambda>j masks.
        ctl_bind (if j mod 1024 = 0 then ctl_check C else ctl_return ()) (\<lambda>_.
          ctl_return (observe_position rs mode order j masks))) []) ?masks"
      by (intro answers_for answers_then answering)
    then show ?thesis unfolding literal_reference_observe_def
      by (intro answers_then answering) (erule answers_bind, rule answers_return)
  qed
  ultimately show ?thesis by (intro exI [of _ ?owner]) simp
qed

definition row_holds :: "literal_match_mode \<Rightarrow> string list \<Rightarrow> packed_row \<Rightarrow> (nat \<Rightarrow> nat) \<Rightarrow> bool" where
  "row_holds mode rs row L \<longleftrightarrow> reads (row_owner row) mode rs \<and>
     length (row_bits row) = div_ceil (length rs) 64 \<and> (\<forall>i \<ge> length rs. \<not> bit_at (row_bits row) i) \<and>
     (\<forall>k \<le> length rs. rank (bit_at (row_bits row)) k = L k)"

lemma div_ceil_covers: "n \<le> 64 * div_ceil n 64"
proof -
  obtain q r where n: "n = 64 * q + r" "r < 64" using div_mod_64 by blast
  then show ?thesis by (auto simp: div_ceil_def)
qed

lemma row_holds_start: "reads owner mode rs \<Longrightarrow> row_holds mode rs (lr_start owner) (\<lambda>_. 0)"
  by (auto simp: row_holds_def lr_start_def reads_def bit_at_def stored_def rank_def)

definition row_extended :: "packed_row \<Rightarrow> string \<Rightarrow> packed_row" where
  "row_extended row word =
     (let owner = row_owner row
      in row\<lparr>row_bits := extended (owned_postings (lr_masks owner) (literal_key word (lr_mode owner))) (row_bits row)\<rparr>)"

lemma answers_row_extend: "answers C (row_extend C row word) (row_extended row word)"
proof -
  have "answers C (lr_advance C (row_owner row) (row_bits row) word) (row_bits (row_extended row word))"
    unfolding lr_advance_def lr_postings_def row_extended_def owned_postings_def Let_def
    by (simp add: answers_extend_sparse)
  moreover have "row\<lparr>row_bits := row_bits (row_extended row word)\<rparr> = row_extended row word"
    by (simp add: row_extended_def Let_def)
  ultimately show ?thesis unfolding row_extend_def
    by (intro answers_then answering) (erule answers_bind, simp add: answers_return)
qed

lemma row_holds_extended:
  assumes "row_holds mode rs row L"
  shows "row_holds mode rs (row_extended row word) (lcs_row L (\<lambda>j. string_matches mode word (rs ! j)))"
proof -
  let ?ps = "owned_postings (lr_masks (row_owner row)) (literal_key word mode)"
  have reads: "reads (row_owner row) mode rs" and len: "length (row_bits row) = div_ceil (length rs) 64"
    and pad: "\<forall>i \<ge> length rs. \<not> bit_at (row_bits row) i" and holds: "\<forall>k \<le> length rs. rank (bit_at (row_bits row)) k = L k"
    using assms by (simp_all add: row_holds_def)
  have ok: "postings_ok ?ps" and post: "posting_bit ?ps j \<longleftrightarrow> j < length rs \<and> string_matches mode word (rs ! j)" for j
    using reads by (simp_all add: reads_def Let_def)
  have row: "row_extended row word = row\<lparr>row_bits := extended ?ps (row_bits row)\<rparr>"
    using reads by (simp add: row_extended_def reads_def Let_def)
  have all: "length rs \<le> 64 * length (row_bits row)" using len div_ceil_covers by simp
  have "rank (bit_at (extended ?ps (row_bits row))) k = lcs_row L (\<lambda>j. string_matches mode word (rs ! j)) k"
    if "k \<le> length rs" for k
    using extended_row(2) [OF ok, of k "row_bits row"] that all holds post
    by (auto intro!: lcs_row_cong)
  moreover have "\<not> bit_at (extended ?ps (row_bits row)) i" if "length rs \<le> i" for i
    using that extended_row(3) [OF ok, of "row_bits row" i] pad post [of i] by auto
  ultimately show ?thesis
    using reads len extended_row(1) [OF ok] by (simp add: row row_holds_def)
qed

subsection \<open>Scores\<close>

lemma rank_add: "rank f (a + b) = rank f a + rank (\<lambda>i. f (a + i)) b"
  by (induction b) auto

lemma count_ones_rank: "count_ones w = rank (bit w) 64"
proof -
  have "set (filter (bit w) [0..<64]) = {i. i < 64 \<and> bit w i}" by auto
  moreover have "distinct (filter (bit w) [0..<64])" by simp
  ultimately show ?thesis unfolding count_ones_def rank_def by (metis distinct_card)
qed

lemma count_ones_low: "k < 64 \<Longrightarrow> count_ones (w AND (push_bit k 1 - 1)) = rank (bit w) k"
  unfolding count_ones_rank rank_def
  by (intro arg_cong [where f = card]) (auto simp: bit_and_iff bit_low_mask simp del: push_bit_of_1)

lemma rank_words:
  "b \<le> length ws \<Longrightarrow> rank (bit_at ws) (64 * b) = sum_list (map count_ones (take b ws))"
proof (induction b)
  case (Suc b)
  have "rank (bit_at ws) (64 * Suc b) = rank (bit_at ws) (64 * b) + rank (\<lambda>i. bit_at ws (64 * b + i)) 64"
    using rank_add [of "bit_at ws" "64 * b" 64] by (simp add: add.commute)
  also have "rank (\<lambda>i. bit_at ws (64 * b + i)) 64 = count_ones (ws ! b)"
    unfolding count_ones_rank using Suc.prems by (intro rank_cong) (simp add: bit_at_def stored_def)
  finally show ?case using Suc by (simp add: take_Suc_conv_app_nth)
qed simp

lemma prefix_blocks_nth:
  "prefix_blocks s ws = (blocks, tot) \<Longrightarrow>
     tot = s + sum_list (map count_ones ws) \<and> length blocks = length ws \<and>
     (\<forall>b < length ws. blocks ! b = \<lparr>blk_before = s + sum_list (map count_ones (take b ws)), blk_bits = ws ! b\<rparr>)"
proof (induction ws arbitrary: s blocks tot)
  case (Cons w ws)
  obtain bs t where r: "prefix_blocks (s + count_ones w) ws = (bs, t)" by fastforce
  with Cons.prems have "blocks = \<lparr>blk_before = s, blk_bits = w\<rparr> # bs" "tot = t" by simp_all
  with Cons.IH [OF r] show ?case by (auto simp: nth_Cons' take_Cons')
qed simp

text \<open>The prefix scores and the score of a row are the values it holds.\<close>

lemma row_scores:
  assumes "row_holds mode rs row L"
  shows "k \<le> length rs \<Longrightarrow> scores_before (row_prefixes row) k = L k" and "row_score row = L (length rs)"
proof -
  let ?ws = "row_bits row" and ?n = "length rs"
  have reads: "reads (row_owner row) mode rs" and len: "length ?ws = div_ceil ?n 64"
    and pad: "\<forall>i \<ge> ?n. \<not> bit_at ?ws i" and holds: "\<forall>k \<le> ?n. rank (bit_at ?ws) k = L k"
    using assms by (simp_all add: row_holds_def)
  have "{i. i < 64 * length ?ws \<and> bit_at ?ws i} = {i. i < ?n \<and> bit_at ?ws i}"
    using pad div_ceil_covers [of ?n] len by (metis (lifting) not_le order_less_le_trans)
  then have "rank (bit_at ?ws) (64 * length ?ws) = L ?n" using holds by (simp add: rank_def)
  then have total: "sum_list (map count_ones ?ws) = L ?n" using rank_words [of "length ?ws" ?ws] by simp
  then show "row_score row = L ?n" by (simp add: row_score_def)
  assume k: "k \<le> ?n"
  obtain blocks t where b: "prefix_blocks 0 ?ws = (blocks, t)" by fastforce
  note blk = prefix_blocks_nth [OF b]
  have ps: "row_prefixes row = \<lparr>ps_blocks = blocks, ps_length = ?n, ps_total = t\<rparr>"
    using reads b by (simp add: row_prefixes_def reads_def)
  show "scores_before (row_prefixes row) k = L k"
  proof (cases "k = ?n")
    case True
    then show ?thesis using ps blk total by (simp add: scores_before_def)
  next
    case False
    then have kn: "k div 64 < length ?ws" using k len by (simp add: div_ceil_64)
    have "L k = rank (bit_at ?ws) (64 * (k div 64) + k mod 64)" using holds k by simp
    also have "\<dots> = sum_list (map count_ones (take (k div 64) ?ws)) + rank (bit (?ws ! (k div 64))) (k mod 64)"
      unfolding rank_add using rank_words [of "k div 64" ?ws] kn
      by (auto simp: bit_at_def stored_def intro!: rank_cong)
    finally show ?thesis using ps blk kn False
      by (simp add: scores_before_def Let_def count_ones_low del: push_bit_of_1)
  qed
qed

subsection \<open>Rows and chains\<close>

definition below :: "edge set \<Rightarrow> nat \<Rightarrow> nat \<Rightarrow> edge set" where
  "below E i k = {e \<in> E. fst e < i \<and> snd e < k}"

lemma finite_below: "finite (below E i k)"
proof (rule finite_subset)
  show "below E i k \<subseteq> {..<i} \<times> {..<k}" by (auto simp: below_def)
qed simp

lemma chain_mono: "chain E c \<Longrightarrow> E \<subseteq> F \<Longrightarrow> chain F c"
  by (auto simp: chain_def)

lemma optimum_mono: "finite F \<Longrightarrow> E \<subseteq> F \<Longrightarrow> optimum E \<le> optimum F"
  by (metis chain_mono finite_subset optimum_attained optimum_ge)

lemma optimum_empty [simp]: "optimum {} = 0"
  using optimum_attained [of "{}"] by (auto simp: chain_def)

text \<open>The recurrence of the table, for the optima of the corners of a set of edges.\<close>

lemma optimum_corner:
  "optimum (below E (Suc i) (Suc k)) =
     max (optimum (below E i (Suc k))) (max (optimum (below E (Suc i) k)) (optimum (below E i k) + of_bool ((i, k) \<in> E)))"
proof (rule antisym)
  let ?B = "below E (Suc i) (Suc k)"
  obtain c where c: "chain ?B c" "length c = optimum ?B" using optimum_attained [OF finite_below] by blast
  show "optimum ?B \<le> max (optimum (below E i (Suc k))) (max (optimum (below E (Suc i) k)) (optimum (below E i k) + of_bool ((i, k) \<in> E)))"
  proof (cases c rule: rev_cases)
    case Nil
    then show ?thesis using c by simp
  next
    case (snoc d e)
    have e: "e \<in> E" "fst e \<le> i" "snd e \<le> k" using c(1) snoc by (auto simp: chain_def below_def)
    have d: "set d \<subseteq> below E (fst e) (snd e)" "sorted_wrt before d"
      using c(1) snoc by (auto simp: chain_def below_def before_def sorted_wrt_append)
    consider "fst e < i" | "snd e < k" | "e = (i, k)" using e(2,3) by (cases e) fastforce
    then show ?thesis
    proof cases
      case 1
      then have "chain (below E i (Suc k)) c" using d e snoc c(1) by (auto simp: chain_def below_def)
      from optimum_ge [OF finite_below this] c(2) show ?thesis by simp
    next
      case 2
      then have "chain (below E (Suc i) k) c" using d e snoc c(1) by (auto simp: chain_def below_def)
      from optimum_ge [OF finite_below this] c(2) show ?thesis by simp
    next
      case 3
      then have "chain (below E i k) d" using d by (auto simp: chain_def)
      from optimum_ge [OF finite_below this] 3 e(1) c(2) snoc show ?thesis by simp
    qed
  qed
next
  have "optimum (below E i (Suc k)) \<le> optimum (below E (Suc i) (Suc k))"
    "optimum (below E (Suc i) k) \<le> optimum (below E (Suc i) (Suc k))"
    "optimum (below E i k) \<le> optimum (below E (Suc i) (Suc k))"
    by (intro optimum_mono finite_below; auto simp: below_def)+
  moreover have "optimum (below E i k) + 1 \<le> optimum (below E (Suc i) (Suc k))" if "(i, k) \<in> E"
  proof -
    obtain c where c: "chain (below E i k) c" "length c = optimum (below E i k)" using optimum_attained [OF finite_below] by blast
    then have "chain (below E (Suc i) (Suc k)) (c @ [(i, k)])"
      using that by (auto simp: chain_def below_def before_def sorted_wrt_append)
    from optimum_ge [OF finite_below this] c(2) show ?thesis by simp
  qed
  ultimately show "max (optimum (below E i (Suc k))) (max (optimum (below E (Suc i) k)) (optimum (below E i k) + of_bool ((i, k) \<in> E)))
      \<le> optimum (below E (Suc i) (Suc k))" by simp
qed

lemma lcs_row_optimum:
  "lcs_row (\<lambda>k. optimum (below E i k)) (\<lambda>k. (i, k) \<in> E) k = optimum (below E (Suc i) k)"
proof (induction k)
  case (Suc k)
  then show ?case by (simp add: optimum_corner)
next
  case 0
  have "below E (Suc i) 0 = {}" by (simp add: below_def)
  then show ?case by simp
qed

lemma fwd_below:
  assumes "finite E" and "(i, k) \<in> E"
  shows "fwd E (i, k) = optimum (below E i k) + 1"
proof (rule antisym)
  obtain c where c: "chain E c" "c \<noteq> []" "last c = (i, k)" "length c = fwd E (i, k)" using fwd_attained [OF assms] by blast
  then obtain d where d: "c = d @ [(i, k)]" by (metis append_butlast_last_id)
  with c(1) have "chain (below E i k) d" by (auto simp: chain_def below_def before_def sorted_wrt_append)
  from optimum_ge [OF finite_below this] d c(4) show "fwd E (i, k) \<le> optimum (below E i k) + 1" by simp
next
  obtain c where c: "chain (below E i k) c" "length c = optimum (below E i k)" using optimum_attained [OF finite_below] by blast
  then have "chain E (c @ [(i, k)])" using assms(2) by (auto simp: chain_def below_def before_def sorted_wrt_append)
  from fwd_ge [OF assms(1) this] c(2) show "optimum (below E i k) + 1 \<le> fwd E (i, k)" by simp
qed

text \<open>
  A row that has read the first \<open>i\<close> words of a payload holds the optima of the corners of their
  edges, and one more word keeps that.
\<close>

definition row_after ::
  "literal_match_mode \<Rightarrow> string list \<Rightarrow> string list \<Rightarrow> nat \<Rightarrow> packed_row \<Rightarrow> bool" where
  "row_after mode ps rs i row \<longleftrightarrow>
     row_holds mode rs row (\<lambda>k. optimum (below (match_edges (string_matches mode) ps rs) i k))"

lemma row_after_start:
  assumes "reads owner mode rs"
  shows "row_after mode ps rs 0 (lr_start owner)"
proof -
  have "below E 0 k = {}" for E k by (simp add: below_def)
  then show ?thesis using row_holds_start [OF assms] by (simp add: row_after_def)
qed

lemma row_after_extended:
  assumes "row_after mode ps rs i row" and "i < length ps"
  shows "row_after mode ps rs (Suc i) (row_extended row (ps ! i))"
proof -
  let ?E = "match_edges (string_matches mode) ps rs"
  have "row_holds mode rs (row_extended row (ps ! i))
      (lcs_row (\<lambda>k. optimum (below ?E i k)) (\<lambda>j. string_matches mode (ps ! i) (rs ! j)))"
    using row_holds_extended [OF assms(1) [unfolded row_after_def]] .
  moreover have "lcs_row (\<lambda>k. optimum (below ?E i k)) (\<lambda>j. string_matches mode (ps ! i) (rs ! j)) k =
      optimum (below ?E (Suc i) k)" if "k \<le> length rs" for k
    unfolding lcs_row_optimum [symmetric] using that assms(2) by (intro lcs_row_cong) (auto simp: match_edges_def)
  ultimately show ?thesis by (simp add: row_after_def row_holds_def)
qed

definition rows_from :: "literal_reference \<Rightarrow> string list \<Rightarrow> nat \<Rightarrow> packed_row" where
  "rows_from owner ps i = fold (\<lambda>w row. row_extended row w) (take i ps) (lr_start owner)"

lemma rows_from_0 [simp]: "rows_from owner ps 0 = lr_start owner"
  by (simp add: rows_from_def)

lemma rows_from_Suc: "i < length ps \<Longrightarrow> rows_from owner ps (Suc i) = row_extended (rows_from owner ps i) (ps ! i)"
  by (simp add: rows_from_def take_Suc_conv_app_nth)

lemma row_after_rows_from:
  assumes "reads owner mode rs"
  shows "i \<le> length ps \<Longrightarrow> row_after mode ps rs i (rows_from owner ps i)"
  by (induction i) (simp_all add: row_after_start [OF assms] rows_from_Suc row_after_extended)

lemma rows_from_scores:
  assumes "reads owner mode rs" and "i \<le> length ps"
  shows "k \<le> length rs \<Longrightarrow> scores_before (row_prefixes (rows_from owner ps i)) k =
      optimum (below (match_edges (string_matches mode) ps rs) i k)"
    and "row_score (rows_from owner ps i) = optimum (below (match_edges (string_matches mode) ps rs) i (length rs))"
  using row_scores [OF row_after_rows_from [OF assms, unfolded row_after_def]] by simp_all

lemma below_prefix: "k \<le> length rs \<Longrightarrow> below (match_edges m ps rs) (length ps) k = match_edges m ps (take k rs)"
  by (auto simp: below_def match_edges_def)

text \<open>
  C10. Reading a payload into a packed row, whichever way the reference is read and under whatever
  control, returns, and unless the control interrupts it the row's score and every one of its prefix
  scores are the lengths of the longest chains of matching pairs between the payload and the
  prefix of the reference, that is the longest-common-subsequence table, boundary positions and
  padded last word included.
\<close>

theorem packed_row_exact:
  "\<exists>r s'. ctl_bind (literal_reference_observe C rs mode order) (\<lambda>owner.
        ctl_bind (ctl_for ps (\<lambda>word row. row_extend C row word) (lr_start owner)) (\<lambda>row.
        ctl_return (row_score row, map (scores_before (row_prefixes row)) [0..<Suc (length rs)]))) s = Some (r, s') \<and>
     (case r of
        Inl e \<Rightarrow> raised C e
      | Inr (score, prefixes) \<Rightarrow>
          score = optimum (match_edges (string_matches mode) ps (ordered order rs)) \<and>
          prefixes = map (\<lambda>k. optimum (match_edges (string_matches mode) ps (take k (ordered order rs)))) [0..<Suc (length rs)])"
proof -
  let ?rs = "ordered order rs" and ?m = "string_matches mode"
  obtain owner where owner: "reads owner mode ?rs" "lr_reference owner = rs"
    "answers C (literal_reference_observe C rs mode order) owner"
    using answers_literal_reference_observe by blast
  let ?row = "rows_from owner ps (length ps)"
  have row: "answers C (ctl_for ps (\<lambda>word row. row_extend C row word) (lr_start owner)) ?row"
    unfolding rows_from_def take_all [OF order.refl] by (intro answers_for answers_row_extend)
  have "answers C (ctl_bind (literal_reference_observe C rs mode order) (\<lambda>owner.
        ctl_bind (ctl_for ps (\<lambda>word row. row_extend C row word) (lr_start owner)) (\<lambda>row.
        ctl_return (row_score row, map (scores_before (row_prefixes row)) [0..<Suc (length rs)]))))
      (row_score ?row, map (scores_before (row_prefixes ?row)) [0..<Suc (length rs)])"
    by (rule answers_bind [OF owner(3)], rule answers_bind [OF row], rule answers_return)
  then obtain r s' where r: "ctl_bind (literal_reference_observe C rs mode order) (\<lambda>owner.
        ctl_bind (ctl_for ps (\<lambda>word row. row_extend C row word) (lr_start owner)) (\<lambda>row.
        ctl_return (row_score row, map (scores_before (row_prefixes row)) [0..<Suc (length rs)]))) s = Some (r, s')"
    "r = Ok (row_score ?row, map (scores_before (row_prefixes ?row)) [0..<Suc (length rs)]) \<or> (\<exists>e. r = Err e \<and> raised C e)"
    unfolding answers_def by blast
  have "row_score ?row = optimum (match_edges ?m ps ?rs)"
    using rows_from_scores(2) [OF owner(1) order.refl, of ps] below_prefix [of "length ?rs" ?rs ?m ps] by simp
  moreover have "map (scores_before (row_prefixes ?row)) [0..<Suc (length rs)] =
      map (\<lambda>k. optimum (match_edges ?m ps (take k ?rs))) [0..<Suc (length rs)]"
    using rows_from_scores(1) [OF owner(1) order.refl, of _ ps] below_prefix [of _ ?rs ?m ps]
    by (intro map_cong refl) auto
  ultimately show ?thesis using r by (auto simp del: upt_Suc)
qed

end
