(* ===== verification/Fuzzy_Candidates.thy ===== *)
theory Fuzzy_Candidates
  imports Correspondence
begin

text \<open>
  The fuzzy candidate producer
  (\<^verbatim>\<open>crates/batchalign-transform/src/dp_align/correspondence/fuzzy.rs\<close>): words are interned so that
  each spelling is prepared once, the reference is grouped into classes of equal spelling, a row
  of edges is compared once per spelling and copied from the edges already emitted after that,
  and a row is admitted against the edge allowance before any of it is appended. The theorem
  says that all this sharing is invisible: the edges are those of comparing every payload word
  with every reference word, and a refusal means there are more of them than allowed.
\<close>

subsection \<open>Data\<close>

record edge_span =
  span_start :: nat
  span_end :: nat

datatype word_row = Unobserved | CompleteRow edge_span

record fuzzy_word =
  fw_prepared :: prepared_fuzzy_word
  fw_row :: word_row

record reference_class =
  rc_word :: nat
  rc_occurrences :: nat

record 'f fuzzy_candidates =
  fc_reference :: "string list"
  fc_words :: "fuzzy_word list"
  fc_payload :: "nat list"
  fc_reference_classes :: "reference_class list"
  fc_reference_order :: "nat list"
  fc_policy :: 'f
  fc_edge_limit :: nat

record correspondence_budget =
  edge_limit :: nat

definition candidate_edges_budget :: "nat \<Rightarrow> correspondence_budget" where
  "candidate_edges_budget limit = \<lparr>edge_limit = limit\<rparr>"

datatype relation = Matching | Distinct

datatype row_source = Observed "relation list" | Retained edge_span

subsection \<open>Preparation\<close>

text \<open>The closure \<^verbatim>\<open>intern\<close> over the dictionary and the word list.\<close>

definition intern ::
  "'f fuzzy_ops \<Rightarrow> string \<Rightarrow> (string, nat) hash_map \<times> fuzzy_word list \<Rightarrow>
   nat \<times> (string, nat) hash_map \<times> fuzzy_word list" where
  "intern F spelling dw =
     (case hm_get (fst dw) spelling of
        Some k \<Rightarrow> (k, dw)
      | None \<Rightarrow>
          (let k = length (snd dw)
           in (k, hm_insert spelling k (fst dw),
               snd dw @ [\<lparr>fw_prepared = prepared_fuzzy_word_new F spelling, fw_row = Unobserved\<rparr>])))"

definition prepare_payload_step ::
  "'f fuzzy_ops \<Rightarrow> string \<Rightarrow> ((string, nat) hash_map \<times> fuzzy_word list) \<times> nat list \<Rightarrow>
   ((string, nat) hash_map \<times> fuzzy_word list) \<times> nat list" where
  "prepare_payload_step F spelling st =
     (let (k, dw) = intern F spelling (fst st) in (dw, snd st @ [k]))"

definition prepare_reference_step ::
  "'f fuzzy_ops \<Rightarrow> string \<Rightarrow>
   ((string, nat) hash_map \<times> fuzzy_word list) \<times> (string, nat) hash_map \<times> reference_class list \<times> nat list \<Rightarrow>
   ((string, nat) hash_map \<times> fuzzy_word list) \<times> (string, nat) hash_map \<times> reference_class list \<times> nat list" where
  "prepare_reference_step F spelling st =
     (case st of (dw, by_spelling, classes, order) \<Rightarrow>
        let (k, dw, by_spelling, classes) =
              (case hm_get by_spelling spelling of
                 Some k \<Rightarrow> (k, dw, by_spelling, classes)
               | None \<Rightarrow>
                   (let k = length classes;
                        (w, dw') = intern F spelling dw
                    in (k, dw', hm_insert spelling k by_spelling, classes @ [\<lparr>rc_word = w, rc_occurrences = 0\<rparr>])))
        in (dw, by_spelling,
            classes[k := (classes ! k)\<lparr>rc_occurrences := rc_occurrences (classes ! k) + 1\<rparr>], order @ [k]))"

definition fuzzy_prepare ::
  "'f fuzzy_ops \<Rightarrow> ('s, 'e) work_control \<Rightarrow> string list \<Rightarrow> string list \<Rightarrow> 'f \<Rightarrow> nat \<Rightarrow>
   ('s, 'e, 'f fuzzy_candidates) controlled" where
  "fuzzy_prepare F C payload reference policy limit =
     ctl_bind
       (ctl_for payload (\<lambda>spelling st. ctl_bind (ctl_check C) (\<lambda>_.
          ctl_return (prepare_payload_step F spelling st))) (([], []), [])) (\<lambda>(dw, source).
     ctl_bind
       (ctl_for reference (\<lambda>spelling st. ctl_bind (ctl_check C) (\<lambda>_.
          ctl_return (prepare_reference_step F spelling st))) (dw, [], [], []))
       (\<lambda>(dw, _, classes, order).
     ctl_return \<lparr>fc_reference = reference, fc_words = snd dw, fc_payload = source,
       fc_reference_classes = classes, fc_reference_order = order, fc_policy = policy, fc_edge_limit = limit\<rparr>))"

subsection \<open>Rows\<close>

definition observe_class ::
  "'f fuzzy_ops \<Rightarrow> 'f \<Rightarrow> fuzzy_word list \<Rightarrow> nat \<Rightarrow> reference_class \<Rightarrow> relation list \<times> nat \<Rightarrow> relation list \<times> nat" where
  "observe_class F policy words w other mc =
     (if fuzzy_matches F policy (fw_prepared (words ! w)) (fw_prepared (words ! rc_word other))
      then (fst mc @ [Matching], snd mc + rc_occurrences other)
      else (fst mc @ [Distinct], snd mc))"

definition row_source_of ::
  "'f fuzzy_ops \<Rightarrow> ('s, 'e) work_control \<Rightarrow> 'f fuzzy_candidates \<Rightarrow> fuzzy_word list \<Rightarrow> nat \<Rightarrow>
   ('s, 'e, row_source \<times> nat) controlled" where
  "row_source_of F C fc words w =
     (case fw_row (words ! w) of
        CompleteRow span \<Rightarrow> ctl_return (Retained span, span_end span - span_start span)
      | Unobserved \<Rightarrow>
          ctl_bind
            (ctl_for (fc_reference_classes fc) (\<lambda>other mc. ctl_bind (ctl_check C) (\<lambda>_.
               ctl_return (observe_class F (fc_policy fc) words w other mc))) ([], 0)) (\<lambda>(matches, cnt).
          ctl_return (Observed matches, cnt)))"

text \<open>\<^verbatim>\<open>PreparedRow::admit\<close>\<close>

definition row_admitted :: "nat \<Rightarrow> nat \<Rightarrow> edge list \<Rightarrow> bool" where
  "row_admitted cnt limit edges \<longleftrightarrow> \<not> (cnt > limit - length edges)"

text \<open>\<^verbatim>\<open>AdmittedRow::append\<close>\<close>

definition row_append ::
  "('s, 'e) work_control \<Rightarrow> nat list \<Rightarrow> row_source \<Rightarrow> nat \<Rightarrow> edge list \<Rightarrow>
   ('s, 'e, edge list \<times> edge_span) controlled" where
  "row_append C order source payload edges =
     (let start = length edges
      in ctl_bind
        (case source of
           Observed matches \<Rightarrow>
             ctl_for (enumerate 0 order) (\<lambda>rc edges. ctl_bind (ctl_check C) (\<lambda>_.
               ctl_return (case matches ! snd rc of
                             Matching \<Rightarrow> edges @ [(payload, fst rc)]
                           | Distinct \<Rightarrow> edges))) edges
         | Retained span \<Rightarrow>
             ctl_for [span_start span..<span_end span] (\<lambda>index edges. ctl_bind (ctl_check C) (\<lambda>_.
               ctl_return (edges @ [(payload, snd (edges ! index))]))) edges) (\<lambda>edges.
         ctl_return (edges, \<lparr>span_start = start, span_end = length edges\<rparr>)))"

fun finish_rows ::
  "'f fuzzy_ops \<Rightarrow> ('s, 'e) work_control \<Rightarrow> 'f fuzzy_candidates \<Rightarrow> (nat \<times> nat) list \<Rightarrow> fuzzy_word list \<Rightarrow>
   edge list \<Rightarrow> ('s, 'e, (correspondence_budget, edge list) result) controlled" where
  "finish_rows F C fc [] words edges = ctl_return (Ok edges)"
| "finish_rows F C fc ((payload, w) # rest) words edges =
     ctl_bind (ctl_check C) (\<lambda>_.
     ctl_bind (row_source_of F C fc words w) (\<lambda>(source, cnt).
     if \<not> row_admitted cnt (fc_edge_limit fc) edges
     then ctl_return (Err (candidate_edges_budget (fc_edge_limit fc)))
     else
       ctl_bind (row_append C (fc_reference_order fc) source payload edges) (\<lambda>(edges, span).
       finish_rows F C fc rest
         (case fw_row (words ! w) of
            Unobserved \<Rightarrow> words[w := (words ! w)\<lparr>fw_row := CompleteRow span\<rparr>]
          | CompleteRow _ \<Rightarrow> words) edges)))"

definition fuzzy_finish ::
  "'f fuzzy_ops \<Rightarrow> ('s, 'e) work_control \<Rightarrow> 'f fuzzy_candidates \<Rightarrow>
   ('s, 'e, (correspondence_budget, candidates) result) controlled" where
  "fuzzy_finish F C fc =
     ctl_bind (finish_rows F C fc (enumerate 0 (fc_payload fc)) (fc_words fc) []) (\<lambda>r.
     ctl_return (case r of Inl b \<Rightarrow> Err b
       | Inr edges \<Rightarrow> Ok \<lparr>cand_reference = fc_reference fc, cand_edges = edges\<rparr>))"

subsection \<open>What preparation gives\<close>

definition words_ok :: "'f fuzzy_ops \<Rightarrow> (string, nat) hash_map \<times> fuzzy_word list \<Rightarrow> bool" where
  "words_ok F dw \<longleftrightarrow>
     (\<forall>x \<in> set (snd dw). fw_prepared x = prepared_fuzzy_word_new F (original (fw_prepared x)) \<and> fw_row x = Unobserved) \<and>
     (\<forall>s k. hm_get (fst dw) s = Some k \<longrightarrow> k < length (snd dw) \<and> original (fw_prepared (snd dw ! k)) = s)"

definition spelled :: "fuzzy_word list \<Rightarrow> nat \<Rightarrow> string \<Rightarrow> bool" where
  "spelled words k s \<longleftrightarrow> k < length words \<and> original (fw_prepared (words ! k)) = s"

lemma spelled_append: "spelled words k s \<Longrightarrow> spelled (words @ extra) k s"
  by (auto simp: spelled_def nth_append)

lemma intern_spelled:
  assumes "words_ok F dw" and "intern F s dw = (k, dw')"
  shows "words_ok F dw' \<and> spelled (snd dw') k s \<and> (\<exists>extra. snd dw' = snd dw @ extra)"
proof (cases "hm_get (fst dw) s")
  case None
  then have k: "k = length (snd dw)"
    "dw' = (hm_insert s k (fst dw), snd dw @ [\<lparr>fw_prepared = prepared_fuzzy_word_new F s, fw_row = Unobserved\<rparr>])"
    using assms(2) by (auto simp: intern_def Let_def)
  have "words_ok F dw'"
    using assms(1) unfolding words_ok_def k(2)
    by (auto simp: hm_get_insert k(1) nth_append prepared_fuzzy_word_new_def less_Suc_eq)
  then show ?thesis using k by (simp add: spelled_def prepared_fuzzy_word_new_def)
next
  case (Some j)
  with assms show ?thesis by (auto simp: intern_def words_ok_def spelled_def intro: exI [of _ "[]"])
qed

lemma prepare_payload_ok:
  assumes "words_ok F dw"
  shows "let (dw', src) = fold (prepare_payload_step F) payload (dw, src0)
    in words_ok F dw' \<and> (\<exists>extra. snd dw' = snd dw @ extra) \<and>
      (\<exists>ks. src = src0 @ ks \<and> list_all2 (spelled (snd dw')) ks payload)"
  using assms
proof (induction payload arbitrary: dw src0)
  case Nil
  show ?case using Nil.prems by auto
next
  case (Cons s payload)
  obtain k dw1 where i: "intern F s dw = (k, dw1)" by (rule prod.exhaust)
  from intern_spelled [OF Cons.prems i] obtain extra1 where
    one: "words_ok F dw1" "spelled (snd dw1) k s" "snd dw1 = snd dw @ extra1" by blast
  obtain dw2 src where f: "fold (prepare_payload_step F) payload (dw1, src0 @ [k]) = (dw2, src)" by (rule prod.exhaust)
  from Cons.IH [OF one(1), of "src0 @ [k]"] f obtain extra2 ks where
    two: "words_ok F dw2" "snd dw2 = snd dw1 @ extra2" "src = (src0 @ [k]) @ ks" "list_all2 (spelled (snd dw2)) ks payload"
    by auto
  have "spelled (snd dw2) k s" using one(2) two(2) by (simp add: spelled_append)
  moreover have "prepare_payload_step F s (dw, src0) = (dw1, src0 @ [k])" using i by (simp add: prepare_payload_step_def)
  ultimately show ?case using one two f by auto
qed

text \<open>Classes: each position of the reference names a class of its spelling, and a class counts its positions.\<close>

definition classes_ok ::
  "fuzzy_word list \<Rightarrow> (string, nat) hash_map \<Rightarrow> reference_class list \<Rightarrow> nat list \<Rightarrow> string list \<Rightarrow> bool" where
  "classes_ok words bys classes order done_refs \<longleftrightarrow>
     (\<forall>s k. hm_get bys s = Some k \<longrightarrow> k < length classes \<and> spelled words (rc_word (classes ! k)) s) \<and>
     list_all2 (\<lambda>k s. k < length classes \<and> spelled words (rc_word (classes ! k)) s) order done_refs \<and>
     (\<forall>k < length classes. rc_occurrences (classes ! k) = length (filter (\<lambda>x. x = k) order))"

lemma classes_ok_append: "classes_ok words bys classes order rs \<Longrightarrow> classes_ok (words @ extra) bys classes order rs"
  by (auto simp: classes_ok_def list_all2_conv_all_nth spelled_append)

lemma prepare_reference_ok:
  assumes "words_ok F dw" and "classes_ok (snd dw) bys classes order rs"
    and "prepare_reference_step F s (dw, bys, classes, order) = (dw', bys', classes', order')"
  shows "words_ok F dw' \<and> classes_ok (snd dw') bys' classes' order' (rs @ [s]) \<and> (\<exists>extra. snd dw' = snd dw @ extra)"
proof (cases "hm_get bys s")
  case (Some k)
  then have st: "dw' = dw" "bys' = bys" "order' = order @ [k]"
    "classes' = classes[k := (classes ! k)\<lparr>rc_occurrences := rc_occurrences (classes ! k) + 1\<rparr>]"
    using assms(3) by (auto simp: prepare_reference_step_def)
  have k: "k < length classes" "spelled (snd dw) (rc_word (classes ! k)) s"
    using assms(2) Some by (auto simp: classes_ok_def)
  have "rc_word (classes' ! i) = rc_word (classes ! i)" for i
    using k(1) unfolding st(4) by (cases "i = k") auto
  moreover have "rc_occurrences (classes' ! i) = length (filter (\<lambda>x. x = i) order')" if "i < length classes'" for i
    using assms(2) that k(1) unfolding st(3,4) classes_ok_def by (cases "i = k") auto
  ultimately show ?thesis using assms(1,2) k unfolding st(1-3) classes_ok_def
    by (auto simp: st(4) intro!: list_all2_appendI)
next
  case None
  let ?k = "length classes"
  obtain w dw1 where i: "intern F s dw = (w, dw1)" by (rule prod.exhaust)
  from intern_spelled [OF assms(1) i] obtain extra where
    one: "words_ok F dw1" "spelled (snd dw1) w s" "snd dw1 = snd dw @ extra" by blast
  have st: "dw' = dw1" "bys' = hm_insert s ?k bys" "order' = order @ [?k]"
    "classes' = classes @ [\<lparr>rc_word = w, rc_occurrences = 1\<rparr>]"
    using assms(3) None i by (auto simp: prepare_reference_step_def Let_def)
  have old: "classes_ok (snd dw1) bys classes order rs" using classes_ok_append [OF assms(2)] one(3) by simp
  have "filter (\<lambda>x. x = ?k) order = []"
    using old by (fastforce simp: classes_ok_def list_all2_conv_all_nth filter_empty_conv in_set_conv_nth)
  then have "rc_occurrences (classes' ! j) = length (filter (\<lambda>x. x = j) order')" if "j < length classes'" for j
    using old that unfolding st(3,4) classes_ok_def by (cases "j < ?k") (auto simp: nth_append less_Suc_eq)
  moreover have "list_all2 (\<lambda>k s. k < length classes' \<and> spelled (snd dw1) (rc_word (classes' ! k)) s) order' (rs @ [s])"
    using old one(2) unfolding st(3,4) classes_ok_def
    by (intro list_all2_appendI) (auto simp: nth_append list_all2_conv_all_nth)
  moreover have "\<forall>t k. hm_get bys' t = Some k \<longrightarrow> k < length classes' \<and> spelled (snd dw1) (rc_word (classes' ! k)) t"
    using old one(2) unfolding st(2,4) classes_ok_def by (auto simp: hm_get_insert nth_append less_Suc_eq)
  ultimately show ?thesis using one unfolding st(1) classes_ok_def by auto
qed

lemma prepare_references_ok:
  assumes "words_ok F dw" and "classes_ok (snd dw) bys classes order rs"
  shows "case fold (prepare_reference_step F) more_rs (dw, bys, classes, order) of (dw', bys', classes', order') \<Rightarrow>
    words_ok F dw' \<and> classes_ok (snd dw') bys' classes' order' (rs @ more_rs) \<and> (\<exists>extra. snd dw' = snd dw @ extra)"
  using assms
proof (induction more_rs arbitrary: dw bys classes order rs)
  case Nil
  then show ?case by auto
next
  case (Cons s more_rs)
  obtain dw1 bys1 classes1 order1 where
    s: "prepare_reference_step F s (dw, bys, classes, order) = (dw1, bys1, classes1, order1)"
    by (metis prod_cases4)
  from prepare_reference_ok [OF Cons.prems s] obtain extra where
    one: "words_ok F dw1" "classes_ok (snd dw1) bys1 classes1 order1 (rs @ [s])" "snd dw1 = snd dw @ extra" by blast
  from Cons.IH [OF one(1,2)] s one(3) show ?case by (auto split: prod.splits)
qed

subsection \<open>Rows are complete\<close>

text \<open>The reference positions a payload word matches, and the edges of all payload words in order.\<close>

definition matching_refs :: "('a \<Rightarrow> 'a \<Rightarrow> bool) \<Rightarrow> 'a list \<Rightarrow> 'a \<Rightarrow> nat list" where
  "matching_refs m rs p = filter (\<lambda>j. m p (rs ! j)) [0..<length rs]"

definition edges_of :: "('a \<Rightarrow> 'a \<Rightarrow> bool) \<Rightarrow> 'a list \<Rightarrow> 'a list \<Rightarrow> nat \<Rightarrow> edge list" where
  "edges_of m ps rs n = concat (map (\<lambda>i. map (\<lambda>j. (i, j)) (matching_refs m rs (ps ! i))) [0..<n])"

definition all_edges :: "('a \<Rightarrow> 'a \<Rightarrow> bool) \<Rightarrow> 'a list \<Rightarrow> 'a list \<Rightarrow> edge list" where
  "all_edges m ps rs = edges_of m ps rs (length ps)"

lemma edges_of_Suc: "edges_of m ps rs (Suc n) = edges_of m ps rs n @ map (\<lambda>j. (n, j)) (matching_refs m rs (ps ! n))"
  by (simp add: edges_of_def)

lemma edges_of_mono: "n \<le> k \<Longrightarrow> length (edges_of m ps rs n) \<le> length (edges_of m ps rs k)"
  by (induction k) (auto simp: edges_of_Suc le_Suc_eq)

lemma set_all_edges: "set (all_edges m ps rs) = match_edges m ps rs"
  by (auto simp: all_edges_def edges_of_def matching_refs_def match_edges_def)

lemma sorted_edges_of: "sorted (map fst (edges_of m ps rs n))"
proof (induction n)
  case (Suc n)
  have "\<forall>x \<in> set (edges_of m ps rs n). fst x < n" by (auto simp: edges_of_def)
  with Suc show ?case
    by (auto simp: edges_of_Suc sorted_append comp_def map_replicate_const)
qed (simp add: edges_of_def)

lemma distinct_edges_of: "distinct (edges_of m ps rs n)"
proof (induction n)
  case (Suc n)
  have "\<forall>x \<in> set (edges_of m ps rs n). fst x < n" by (auto simp: edges_of_def)
  moreover have "distinct (map (\<lambda>j. (n, j)) (matching_refs m rs (ps ! n)))"
    by (simp add: distinct_map matching_refs_def inj_on_def)
  ultimately show ?case using Suc by (auto simp: edges_of_Suc)
qed (simp add: edges_of_def)

text \<open>Counting by class is counting by position.\<close>

lemma sum_by_class:
  assumes "\<forall>x \<in> set order. x < n"
  shows "(\<Sum>k \<leftarrow> [0..<n]. if P k then length (filter (\<lambda>x. x = k) order) else 0) = length (filter P order)"
  using assms
proof (induction order)
  case Nil
  have "(\<Sum>k \<leftarrow> [0..<n]. if P k then length (filter (\<lambda>x. x = k) []) else 0) = (\<Sum>k \<leftarrow> [0..<n]. 0 :: nat)"
    by (rule arg_cong [of _ _ sum_list]) simp
  then show ?case by (simp only: sum_list_0 filter.simps list.size)
next
  case (Cons x order)
  have "(\<Sum>k \<leftarrow> [0..<n]. if P k then length (filter (\<lambda>y. y = k) (x # order)) else 0) =
      (\<Sum>k \<leftarrow> [0..<n]. (if P k then length (filter (\<lambda>y. y = k) order) else 0) + (if k = x \<and> P x then 1 else 0))"
    by (rule arg_cong [of _ _ sum_list]) auto
  also have "\<dots> = length (filter P order) + (\<Sum>k \<leftarrow> [0..<n]. if k = x \<and> P x then 1 else 0)"
    using Cons by (simp add: sum_list_addf)
  also have "(\<Sum>k \<leftarrow> [0..<n]. if k = x \<and> P x then 1 else 0) = (if P x then 1 else 0 :: nat)"
    using Cons.prems by (auto simp: interv_sum_list_conv_sum_set_nat sum.If_cases)
  finally show ?case by simp
qed

lemma observe_classes:
  "fold (observe_class F policy words w) classes (ms, n) =
     (ms @ map (\<lambda>c. if fuzzy_matches F policy (fw_prepared (words ! w)) (fw_prepared (words ! rc_word c)) then Matching else Distinct) classes,
      n + (\<Sum>c \<leftarrow> classes. if fuzzy_matches F policy (fw_prepared (words ! w)) (fw_prepared (words ! rc_word c)) then rc_occurrences c else 0))"
  by (induction classes arbitrary: ms n) (auto simp: observe_class_def)

text \<open>
  What a run of rows keeps: the words are those prepared, and a completed row names the edges that
  hold its matches.
\<close>

definition rows_ok ::
  "'f fuzzy_ops \<Rightarrow> 'f \<Rightarrow> string list \<Rightarrow> fuzzy_word list \<Rightarrow> fuzzy_word list \<Rightarrow> edge list \<Rightarrow> bool" where
  "rows_ok F policy rs words0 words edges \<longleftrightarrow>
     map fw_prepared words = map fw_prepared words0 \<and>
     (\<forall>k < length words. \<forall>span. fw_row (words ! k) = CompleteRow span \<longrightarrow>
        span_start span \<le> span_end span \<and> span_end span \<le> length edges \<and>
        map snd (take (span_end span - span_start span) (drop (span_start span) edges)) =
          matching_refs (mode_matches F (Fuzzy policy)) rs (original (fw_prepared (words ! k))))"

lemma rows_ok_append:
  "rows_ok F policy rs words0 words edges \<Longrightarrow> rows_ok F policy rs words0 words (edges @ tail)"
  unfolding rows_ok_def by auto


definition row_source_value :: "'f fuzzy_ops \<Rightarrow> 'f fuzzy_candidates \<Rightarrow> fuzzy_word list \<Rightarrow> nat \<Rightarrow> row_source" where
  "row_source_value F fc words w =
     (case fw_row (words ! w) of
        CompleteRow span \<Rightarrow> Retained span
      | Unobserved \<Rightarrow> Observed (map (\<lambda>c. if fuzzy_matches F (fc_policy fc) (fw_prepared (words ! w))
            (fw_prepared (words ! rc_word c)) then Matching else Distinct) (fc_reference_classes fc)))"

definition prepared_for :: "'f fuzzy_ops \<Rightarrow> string list \<Rightarrow> string list \<Rightarrow> 'f fuzzy_candidates \<Rightarrow> bool" where
  "prepared_for F ps rs fc \<longleftrightarrow>
     (\<forall>x \<in> set (fc_words fc). fw_prepared x = prepared_fuzzy_word_new F (original (fw_prepared x)) \<and> fw_row x = Unobserved) \<and>
     list_all2 (spelled (fc_words fc)) (fc_payload fc) ps \<and> fc_reference fc = rs \<and>
     (\<exists>bys. classes_ok (fc_words fc) bys (fc_reference_classes fc) (fc_reference_order fc) rs)"

text \<open>Comparing interned words is comparing their spellings.\<close>

lemma interned_matches:
  assumes "prepared_for F ps rs fc" and "rows_ok F (fc_policy fc) rs (fc_words fc) words edges"
    and "spelled (fc_words fc) k s" and "spelled (fc_words fc) l t"
  shows "fuzzy_matches F (fc_policy fc) (fw_prepared (words ! k)) (fw_prepared (words ! l)) =
    mode_matches F (Fuzzy (fc_policy fc)) s t"
proof -
  have same: "fw_prepared (words ! i) = fw_prepared (fc_words fc ! i)" if "i < length (fc_words fc)" for i
    using assms(2) that unfolding rows_ok_def by (metis length_map nth_map)
  have "fw_prepared (words ! k) = prepared_fuzzy_word_new F s" "fw_prepared (words ! l) = prepared_fuzzy_word_new F t"
    using assms(1,3,4) same unfolding prepared_for_def spelled_def by (metis nth_mem)+
  then show ?thesis by (simp add: fuzzy_matches_prepared)
qed

lemma class_of:
  assumes "prepared_for F ps rs fc" and "j < length rs"
  shows "fc_reference_order fc ! j < length (fc_reference_classes fc)"
    and "spelled (fc_words fc) (rc_word (fc_reference_classes fc ! (fc_reference_order fc ! j))) (rs ! j)"
    and "length (fc_reference_order fc) = length rs"
  using assms unfolding prepared_for_def classes_ok_def by (auto simp: list_all2_conv_all_nth)

lemma answers_row_source:
  assumes "prepared_for F ps rs fc" and "rows_ok F (fc_policy fc) rs (fc_words fc) words edges"
    and "spelled (fc_words fc) w p"
  shows "answers C (row_source_of F C fc words w)
    (row_source_value F fc words w, length (matching_refs (mode_matches F (Fuzzy (fc_policy fc))) rs p))"
proof (cases "fw_row (words ! w)")
  case (CompleteRow span)
  have len: "length words = length (fc_words fc)" "fw_prepared (words ! w) = fw_prepared (fc_words fc ! w)"
    using assms(2,3) unfolding rows_ok_def spelled_def by (metis length_map, metis length_map nth_map)
  then have "w < length words" "original (fw_prepared (words ! w)) = p" using assms(3) by (simp_all add: spelled_def)
  with assms(2) CompleteRow have span: "span_start span \<le> span_end span" "span_end span \<le> length edges"
    "map snd (take (span_end span - span_start span) (drop (span_start span) edges)) =
      matching_refs (mode_matches F (Fuzzy (fc_policy fc))) rs p"
    by (simp_all add: rows_ok_def)
  from arg_cong [OF span(3), of length] span(1,2)
  have "length (matching_refs (mode_matches F (Fuzzy (fc_policy fc))) rs p) = span_end span - span_start span"
    by simp
  then show ?thesis using CompleteRow by (simp add: row_source_of_def row_source_value_def answers_return)
next
  case Unobserved
  let ?M = "mode_matches F (Fuzzy (fc_policy fc))"
  let ?cs = "fc_reference_classes fc" and ?order = "fc_reference_order fc"
  let ?P = "\<lambda>k. fuzzy_matches F (fc_policy fc) (fw_prepared (words ! w)) (fw_prepared (words ! rc_word (?cs ! k)))"
  note cls = class_of [OF assms(1)]
  have P: "?P (?order ! j) = ?M p (rs ! j)" if "j < length rs" for j
    using interned_matches [OF assms(1,2,3) cls(2) [OF that]] .
  have occ: "rc_occurrences (?cs ! k) = length (filter (\<lambda>x. x = k) ?order)" if "k < length ?cs" for k
    using assms(1) that unfolding prepared_for_def classes_ok_def by auto
  have lo: "length ?order = length rs" using assms(1) unfolding prepared_for_def classes_ok_def by (auto simp: list_all2_conv_all_nth)
  then have "\<forall>x \<in> set ?order. x < length ?cs" using cls(1) by (auto simp: in_set_conv_nth)
  moreover have "map (\<lambda>k. if ?P k then rc_occurrences (?cs ! k) else 0) [0..<length ?cs] =
      map (\<lambda>k. if ?P k then length (filter (\<lambda>x. x = k) ?order) else 0) [0..<length ?cs]"
    using occ by (intro map_cong) auto
  ultimately have "(\<Sum>k \<leftarrow> [0..<length ?cs]. if ?P k then rc_occurrences (?cs ! k) else 0) = length (filter ?P ?order)"
    using sum_by_class [of ?order "length ?cs" ?P] by (simp only:)
  moreover have "map (\<lambda>c. if fuzzy_matches F (fc_policy fc) (fw_prepared (words ! w)) (fw_prepared (words ! rc_word c))
      then rc_occurrences c else 0) ?cs = map (\<lambda>k. if ?P k then rc_occurrences (?cs ! k) else 0) [0..<length ?cs]"
    by (intro nth_equalityI) auto
  moreover have "length (filter ?P ?order) = length (matching_refs ?M rs p)"
  proof -
    have "filter ?P ?order = filter ?P (map ((!) ?order) [0..<length rs])" using lo by (metis map_nth)
    also have "length \<dots> = length (filter (\<lambda>j. ?P (?order ! j)) [0..<length rs])" by (simp add: filter_map comp_def)
    also have "filter (\<lambda>j. ?P (?order ! j)) [0..<length rs] = matching_refs ?M rs p"
      unfolding matching_refs_def using P by (intro filter_cong) auto
    finally show ?thesis .
  qed
  ultimately have total: "(\<Sum>c \<leftarrow> ?cs. if fuzzy_matches F (fc_policy fc) (fw_prepared (words ! w)) (fw_prepared (words ! rc_word c))
      then rc_occurrences c else 0) = length (matching_refs ?M rs p)" by simp
  have "answers C (ctl_for ?cs (\<lambda>other mc. ctl_bind (ctl_check C) (\<lambda>_.
      ctl_return (observe_class F (fc_policy fc) words w other mc))) ([], 0))
    (fold (observe_class F (fc_policy fc) words w) ?cs ([], 0))"
    by (intro answers_for answers_then answering)
  then show ?thesis
    unfolding row_source_of_def row_source_value_def Unobserved word_row.case observe_classes total
    by (auto intro!: answers_bind answering)
qed

lemma answers_row_append:
  assumes "prepared_for F ps rs fc" and "rows_ok F (fc_policy fc) rs (fc_words fc) words edges"
    and "spelled (fc_words fc) w p"
  shows "answers C (row_append C (fc_reference_order fc) (row_source_value F fc words w) i edges)
    (let edges' = edges @ map (\<lambda>j. (i, j)) (matching_refs (mode_matches F (Fuzzy (fc_policy fc))) rs p)
     in (edges', \<lparr>span_start = length edges, span_end = length edges'\<rparr>))"
proof (cases "fw_row (words ! w)")
  case (CompleteRow span)
  have len: "length words = length (fc_words fc)" "fw_prepared (words ! w) = fw_prepared (fc_words fc ! w)"
    using assms(2,3) unfolding rows_ok_def spelled_def by (metis length_map, metis length_map nth_map)
  then have "w < length words" "original (fw_prepared (words ! w)) = p" using assms(3) by (simp_all add: spelled_def)
  with assms(2) CompleteRow have span: "span_start span \<le> span_end span" "span_end span \<le> length edges"
    "map snd (take (span_end span - span_start span) (drop (span_start span) edges)) =
      matching_refs (mode_matches F (Fuzzy (fc_policy fc))) rs p"
    by (simp_all add: rows_ok_def)
  have copy: "fold (\<lambda>index es. es @ [(i, snd (es ! index))]) [a..<b] (edges @ tail) =
      edges @ tail @ map (\<lambda>index. (i, snd (edges ! index))) [a..<b]" if "b \<le> length edges" for a b tail
    using that
  proof (induction "b - a" arbitrary: a tail)
    case (Suc n)
    then have "[a..<b] = a # [Suc a..<b]" "a < length edges" by (simp_all add: upt_rec)
    with Suc.hyps(1) [of "Suc a" "tail @ [(i, snd (edges ! a))]"] Suc.hyps(2) Suc.prems show ?case
      by (simp add: nth_append)
  qed simp
  have "map (\<lambda>index. snd (edges ! index)) [span_start span..<span_end span] =
      map snd (take (span_end span - span_start span) (drop (span_start span) edges))"
    using span(1,2) by (intro nth_equalityI) auto
  then have "map (\<lambda>index. (i, snd (edges ! index))) [span_start span..<span_end span] =
      map (\<lambda>j. (i, j)) (matching_refs (mode_matches F (Fuzzy (fc_policy fc))) rs p)"
    using span(3) by (metis (no_types, lifting) map_map comp_def map_eq_conv)
  with copy [OF span(2), of "span_start span" "[]"]
  have run: "fold (\<lambda>index es. es @ [(i, snd (es ! index))]) [span_start span..<span_end span] edges =
      edges @ map (\<lambda>j. (i, j)) (matching_refs (mode_matches F (Fuzzy (fc_policy fc))) rs p)" by simp
  have "answers C (ctl_for [span_start span..<span_end span] (\<lambda>index edges. ctl_bind (ctl_check C) (\<lambda>_.
      ctl_return (edges @ [(i, snd (edges ! index))]))) edges)
    (fold (\<lambda>index es. es @ [(i, snd (es ! index))]) [span_start span..<span_end span] edges)"
    by (intro answers_for answers_then answering)
  then show ?thesis unfolding row_append_def row_source_value_def CompleteRow run Let_def
    by (auto intro!: answers_bind answering)
next
  case Unobserved
  let ?M = "mode_matches F (Fuzzy (fc_policy fc))"
  let ?cs = "fc_reference_classes fc" and ?order = "fc_reference_order fc"
  define ms where "ms = map (\<lambda>c. if fuzzy_matches F (fc_policy fc) (fw_prepared (words ! w))
            (fw_prepared (words ! rc_word c)) then Matching else Distinct) ?cs"
  note cls = class_of [OF assms(1)]
  have lo: "length ?order = length rs"
    using assms(1) unfolding prepared_for_def classes_ok_def by (auto simp: list_all2_conv_all_nth)
  have ms: "ms ! (?order ! j) = (if ?M p (rs ! j) then Matching else Distinct)" if "j < length rs" for j
    using cls(1) [OF that] interned_matches [OF assms(1,2,3) cls(2) [OF that]] by (simp add: ms_def)
  have "enumerate 0 ?order = map (\<lambda>j. (j, ?order ! j)) [0..<length rs]"
    using lo by (intro nth_equalityI) (auto simp: nth_enumerate_eq)
  then have "fold (\<lambda>rc es. case ms ! snd rc of Matching \<Rightarrow> es @ [(i, fst rc)] | Distinct \<Rightarrow> es) (enumerate 0 ?order) edges =
      fold (\<lambda>j es. if ?M p (rs ! j) then es @ [(i, j)] else es) [0..<length rs] edges"
    using ms by (auto simp: fold_map comp_def intro!: fold_cong)
  also have "\<dots> = edges @ map (\<lambda>j. (i, j)) (matching_refs ?M rs p)"
    by (simp add: fold_select matching_refs_def)
  finally have run: "fold (\<lambda>rc es. case ms ! snd rc of Matching \<Rightarrow> es @ [(i, fst rc)] | Distinct \<Rightarrow> es) (enumerate 0 ?order) edges =
      edges @ map (\<lambda>j. (i, j)) (matching_refs ?M rs p)" .
  have "answers C (ctl_for (enumerate 0 ?order) (\<lambda>rc edges. ctl_bind (ctl_check C) (\<lambda>_.
      ctl_return (case ms ! snd rc of Matching \<Rightarrow> edges @ [(i, fst rc)] | Distinct \<Rightarrow> edges))) edges)
    (fold (\<lambda>rc es. case ms ! snd rc of Matching \<Rightarrow> es @ [(i, fst rc)] | Distinct \<Rightarrow> es) (enumerate 0 ?order) edges)"
    by (intro answers_for answers_then answering)
  then show ?thesis unfolding row_append_def row_source_value_def Unobserved run Let_def
    by (auto simp flip: ms_def intro!: answers_bind answering)
qed

lemma map_update_same:
  assumes "f x = f (ws ! k)"
  shows "map f (ws[k := x]) = map f ws"
proof (rule nth_equalityI)
  fix i assume "i < length (map f (ws[k := x]))"
  with assms show "map f (ws[k := x]) ! i = map f ws ! i" by (cases "i = k") simp_all
qed simp

lemma answers_finish_rows:
  assumes "prepared_for F ps rs fc" and "i \<le> length ps"
    and "rows_ok F (fc_policy fc) rs (fc_words fc) words (edges_of (mode_matches F (Fuzzy (fc_policy fc))) ps rs i)"
    and "length (edges_of (mode_matches F (Fuzzy (fc_policy fc))) ps rs i) \<le> fc_edge_limit fc"
  shows "answers C (finish_rows F C fc (drop i (enumerate 0 (fc_payload fc))) words
      (edges_of (mode_matches F (Fuzzy (fc_policy fc))) ps rs i))
    (if length (all_edges (mode_matches F (Fuzzy (fc_policy fc))) ps rs) \<le> fc_edge_limit fc
     then Ok (all_edges (mode_matches F (Fuzzy (fc_policy fc))) ps rs)
     else Err (candidate_edges_budget (fc_edge_limit fc)))"
  using assms(2-4)
proof (induction "length ps - i" arbitrary: i words)
  case 0
  have "length (fc_payload fc) = length ps" using assms(1) by (auto simp: prepared_for_def list_all2_lengthD)
  with 0 show ?case by (simp add: all_edges_def answers_return)
next
  case (Suc n)
  let ?M = "mode_matches F (Fuzzy (fc_policy fc))"
  let ?es = "edges_of ?M ps rs i" and ?refs = "matching_refs ?M rs (ps ! i)"
  have i: "i < length ps" using Suc.hyps(2) by simp
  have lp: "length (fc_payload fc) = length ps" using assms(1) by (auto simp: prepared_for_def list_all2_lengthD)
  let ?w = "fc_payload fc ! i"
  have w: "spelled (fc_words fc) ?w (ps ! i)" using assms(1) i lp by (auto simp: prepared_for_def list_all2_conv_all_nth)
  have rest: "drop i (enumerate 0 (fc_payload fc)) = (i, ?w) # drop (Suc i) (enumerate 0 (fc_payload fc))"
    using i lp by (simp add: Cons_nth_drop_Suc [symmetric] nth_enumerate_eq)
  note src = answers_row_source [OF assms(1) Suc.prems(2) w, of C]
  note app = answers_row_append [OF assms(1) Suc.prems(2) w, of C i, unfolded Let_def, folded edges_of_Suc]
  show ?case
  proof (cases "length (edges_of ?M ps rs (Suc i)) \<le> fc_edge_limit fc")
    case False
    then have "\<not> row_admitted (length ?refs) (fc_edge_limit fc) ?es"
      using Suc.prems(3) by (simp add: row_admitted_def edges_of_Suc)
    moreover have "\<not> length (all_edges ?M ps rs) \<le> fc_edge_limit fc"
      using False edges_of_mono [of "Suc i" "length ps" ?M ps rs] i by (simp add: all_edges_def)
    ultimately show ?thesis unfolding rest finish_rows.simps
      by (intro answers_then answering answers_bind [OF src]) (simp add: answers_return)
  next
    case True
    then have adm: "row_admitted (length ?refs) (fc_edge_limit fc) ?es"
      by (simp add: row_admitted_def edges_of_Suc)
    define span where "span = \<lparr>span_start = length ?es, span_end = length (edges_of ?M ps rs (Suc i))\<rparr>"
    define words' where "words' = (case fw_row (words ! ?w) of
        Unobserved \<Rightarrow> words[?w := (words ! ?w)\<lparr>fw_row := CompleteRow span\<rparr>] | CompleteRow _ \<Rightarrow> words)"
    have len: "length words = length (fc_words fc)" "fw_prepared (words ! ?w) = fw_prepared (fc_words fc ! ?w)"
      using Suc.prems(2) w unfolding rows_ok_def spelled_def by (metis length_map, metis length_map nth_map)
    have grown: "rows_ok F (fc_policy fc) rs (fc_words fc) words (edges_of ?M ps rs (Suc i))"
      using rows_ok_append [OF Suc.prems(2)] by (simp add: edges_of_Suc)
    have ok: "rows_ok F (fc_policy fc) rs (fc_words fc) words' (edges_of ?M ps rs (Suc i))"
    proof (cases "fw_row (words ! ?w)")
      case Unobserved
      have "map fw_prepared words' = map fw_prepared (fc_words fc)"
        using grown map_update_same [of fw_prepared "(words ! ?w)\<lparr>fw_row := CompleteRow span\<rparr>" words ?w]
        unfolding words'_def Unobserved rows_ok_def by simp
      moreover have "map snd (take (span_end span - span_start span) (drop (span_start span) (edges_of ?M ps rs (Suc i)))) = ?refs"
        by (simp add: span_def edges_of_Suc comp_def)
      ultimately show ?thesis
        using grown w len unfolding rows_ok_def words'_def Unobserved spelled_def
        by (auto simp: nth_list_update span_def edges_of_Suc split: if_splits)
    next
      case (CompleteRow s)
      with grown show ?thesis by (simp add: words'_def)
    qed
    have "answers C (finish_rows F C fc (drop (Suc i) (enumerate 0 (fc_payload fc))) words' (edges_of ?M ps rs (Suc i)))
      (if length (all_edges ?M ps rs) \<le> fc_edge_limit fc then Ok (all_edges ?M ps rs)
       else Err (candidate_edges_budget (fc_edge_limit fc)))"
      using Suc.hyps i by (intro Suc.hyps(1) ok True) auto
    from this [unfolded words'_def span_def] show ?thesis unfolding rest finish_rows.simps
      by (intro answers_then answering answers_bind [OF src])
        (simp only: prod.case adm simp_thms if_False, intro answers_bind [OF app], simp only: prod.case)
  qed
qed

lemma answers_fuzzy_prepare:
  "\<exists>fc. answers C (fuzzy_prepare F C ps rs policy limit) fc \<and> answers C' (fuzzy_prepare F C' ps rs policy limit) fc \<and>
     prepared_for F ps rs fc \<and> fc_policy fc = policy \<and> fc_edge_limit fc = limit"
proof -
  obtain dw src where one: "fold (prepare_payload_step F) ps (([], []), []) = (dw, src)" by (rule prod.exhaust)
  have ok0: "words_ok F ([], [])" by (simp add: words_ok_def hm_get_def)
  from prepare_payload_ok [OF ok0, of ps "[]"] one
  have dw: "words_ok F dw" "list_all2 (spelled (snd dw)) src ps" by auto
  obtain dw' bys cs ord where two: "fold (prepare_reference_step F) rs (dw, [], [], []) = (dw', bys, cs, ord)"
    by (metis prod_cases4)
  have cs0: "classes_ok (snd dw) [] [] [] []" by (simp add: classes_ok_def hm_get_def)
  from prepare_references_ok [OF dw(1) cs0, of rs] two obtain extra where
    r: "words_ok F dw'" "classes_ok (snd dw') bys cs ord rs" "snd dw' = snd dw @ extra" by auto
  define fc where "fc = \<lparr>fc_reference = rs, fc_words = snd dw', fc_payload = src,
       fc_reference_classes = cs, fc_reference_order = ord, fc_policy = policy, fc_edge_limit = limit\<rparr>"
  have "list_all2 (spelled (snd dw')) src ps" using dw(2) r(3) by (auto elim!: list_all2_mono intro: spelled_append)
  then have "prepared_for F ps rs fc" using r by (auto simp: prepared_for_def fc_def words_ok_def)
  moreover have run: "answers D (fuzzy_prepare F D ps rs policy limit) fc" for D :: "('x, 'y) work_control"
  proof -
    have "answers D (ctl_for ps (\<lambda>s st. ctl_bind (ctl_check D) (\<lambda>_. ctl_return (prepare_payload_step F s st))) (([], []), []))
        (dw, src)" unfolding one [symmetric] by (intro answers_for answers_then answering)
    moreover have "answers D (ctl_for rs (\<lambda>s st. ctl_bind (ctl_check D) (\<lambda>_. ctl_return (prepare_reference_step F s st))) (dw, [], [], []))
        (dw', bys, cs, ord)" unfolding two [symmetric] by (intro answers_for answers_then answering)
    ultimately show ?thesis unfolding fuzzy_prepare_def fc_def by (auto intro!: answers_bind answering)
  qed
  ultimately show ?thesis using run by (intro exI [of _ fc]) (auto simp: fc_def)
qed

text \<open>Preparation and completion together, under two controls at once.\<close>

lemma answers_fuzzy_candidates:
  assumes m_def: "m = mode_matches F (Fuzzy policy)"
  shows "answers C (ctl_bind (fuzzy_prepare F C ps rs policy limit) (fuzzy_finish F C))
    (if length (all_edges m ps rs) \<le> limit then Ok \<lparr>cand_reference = rs, cand_edges = all_edges m ps rs\<rparr>
     else Err (candidate_edges_budget limit))"
proof -
  obtain fc where fc: "answers C (fuzzy_prepare F C ps rs policy limit) fc" "prepared_for F ps rs fc"
    "fc_policy fc = policy" "fc_edge_limit fc = limit"
    using answers_fuzzy_prepare [of C F ps rs policy limit C] by blast
  have "rows_ok F policy rs (fc_words fc) (fc_words fc) (edges_of m ps rs 0)"
    using fc(2) unfolding rows_ok_def prepared_for_def by (auto dest: nth_mem)
  with answers_finish_rows [OF fc(2), of 0 "fc_words fc" C]
  have "answers C (finish_rows F C fc (enumerate 0 (fc_payload fc)) (fc_words fc) [])
    (if length (all_edges m ps rs) \<le> limit then Ok (all_edges m ps rs) else Err (candidate_edges_budget limit))"
    by (simp add: fc(3,4) m_def edges_of_def cong: if_cong split del: if_split)
  moreover have "fc_reference fc = rs" using fc(2) by (simp add: prepared_for_def)
  ultimately have "answers C (fuzzy_finish F C fc)
    (if length (all_edges m ps rs) \<le> limit then Ok \<lparr>cand_reference = rs, cand_edges = all_edges m ps rs\<rparr>
     else Err (candidate_edges_budget limit))"
    unfolding fuzzy_finish_def by (elim answers_bind) (simp add: answers_return)
  then show ?thesis by (rule answers_bind [OF fc(1)])
qed

text \<open>
  C33. Interning, class counting and row reuse of the fuzzy producer are invisible: when it is not
  interrupted, it delivers the edges of comparing every payload word with every reference word,
  in payload then reference order, if there are at most \<open>limit\<close> of them, and otherwise refuses
  with that limit. It always returns.
\<close>

theorem fuzzy_candidates_exact:
  "\<exists>r s'. ctl_bind (fuzzy_prepare F C ps rs policy limit) (fuzzy_finish F C) s = Some (r, s') \<and>
     (case r of
        Inl e \<Rightarrow> raised C e
      | Inr (Inl b) \<Rightarrow> edge_limit b = limit \<and> limit < card (match_edges (mode_matches F (Fuzzy policy)) ps rs)
      | Inr (Inr cand) \<Rightarrow>
          cand_reference cand = rs \<and> set (cand_edges cand) = match_edges (mode_matches F (Fuzzy policy)) ps rs \<and>
          distinct (cand_edges cand) \<and> sorted (map fst (cand_edges cand)) \<and> length (cand_edges cand) \<le> limit)"
proof -
  let ?m = "mode_matches F (Fuzzy policy)"
  have edges: "distinct (all_edges ?m ps rs)" "sorted (map fst (all_edges ?m ps rs))"
    by (simp_all add: all_edges_def distinct_edges_of sorted_edges_of)
  then have "card (match_edges ?m ps rs) = length (all_edges ?m ps rs)"
    using distinct_card set_all_edges by metis
  moreover obtain r s' where "ctl_bind (fuzzy_prepare F C ps rs policy limit) (fuzzy_finish F C) s = Some (r, s')"
    "r = Ok (if length (all_edges ?m ps rs) \<le> limit then Ok \<lparr>cand_reference = rs, cand_edges = all_edges ?m ps rs\<rparr>
     else Err (candidate_edges_budget limit)) \<or> (\<exists>e. r = Err e \<and> raised C e)"
    using answers_fuzzy_candidates [OF refl, of C F ps rs policy limit] unfolding answers_def by blast
  ultimately show ?thesis using edges
    by (auto simp: candidate_edges_budget_def set_all_edges split: if_splits)
qed

end
