(* ===== verification/Literal_Candidates.thy ===== *)
theory Literal_Candidates
  imports Packed_Literal Fuzzy_Candidates
begin

text \<open>
  The literal candidate producer and its packed proof
  (\<^verbatim>\<open>crates/batchalign-transform/src/dp_align/correspondence/literal.rs\<close>): postings of the reference,
  the count of raw edges, the storage estimate that admits the packed route, and the proof itself,
  which keeps a checkpoint of the forward row every \<open>stride\<close> words, rebuilds the rows of one
  segment at a time, walks the payload from its end beside the backward row and counts the optimal
  edges of every rank. The theorems show that the pairs it certifies are those common to
  every longest chain of matching pairs and that it refuses exactly when there are more optimal
  edges than allowed.
\<close>

subsection \<open>Observation\<close>

record literal_candidates =
  lc_payload :: "string list"
  lc_reference :: "string list"
  lc_mode :: literal_match_mode
  lc_postings :: "(string, nat list) hash_map"
  lc_raw_edges :: nat

definition push_reference ::
  "literal_match_mode \<Rightarrow> nat \<times> string \<Rightarrow> (string, nat list) hash_map \<Rightarrow> (string, nat list) hash_map" where
  "push_reference mode iw postings =
     (let k = literal_key (snd iw) mode
      in hm_insert k ((case hm_get postings k of Some ps \<Rightarrow> ps | None \<Rightarrow> []) @ [fst iw]) postings)"

definition count_edges ::
  "literal_match_mode \<Rightarrow> (string, nat list) hash_map \<Rightarrow> nat \<times> string \<Rightarrow> nat \<Rightarrow> nat" where
  "count_edges mode postings iw raw =
     (case hm_get postings (literal_key (snd iw) mode) of Some ps \<Rightarrow> usat_add raw (length ps) | None \<Rightarrow> raw)"

definition literal_candidates_observe ::
  "('s, 'e) work_control \<Rightarrow> string list \<Rightarrow> string list \<Rightarrow> literal_match_mode \<Rightarrow>
   ('s, 'e, literal_candidates) controlled" where
  "literal_candidates_observe C payload reference mode =
     ctl_bind (ctl_check C) (\<lambda>_.
     ctl_bind
       (ctl_for (enumerate 0 reference) (\<lambda>iw postings.
          ctl_bind (if fst iw mod 1024 = 0 then ctl_check C else ctl_return ()) (\<lambda>_.
          ctl_return (push_reference mode iw postings))) []) (\<lambda>postings.
     ctl_bind
       (ctl_for (enumerate 0 payload) (\<lambda>iw raw.
          ctl_bind (if fst iw mod 1024 = 0 then ctl_check C else ctl_return ()) (\<lambda>_.
          ctl_return (count_edges mode postings iw raw))) 0) (\<lambda>raw.
     ctl_return \<lparr>lc_payload = payload, lc_reference = reference, lc_mode = mode,
       lc_postings = postings, lc_raw_edges = raw\<rparr>)))"

definition lc_references :: "literal_candidates \<Rightarrow> nat \<Rightarrow> nat list option" where
  "lc_references input p = hm_get (lc_postings input) (literal_key (lc_payload input ! p) (lc_mode input))"

subsection \<open>Admission\<close>

text \<open>
  The estimate uses the sizes the compiler gives four types: they are parameters, as the language
  leaves the layout of such types open. A \<^verbatim>\<open>u64\<close> and, on the targets of the program, a \<^verbatim>\<open>usize\<close>
  have eight bytes.
\<close>

record type_sizes =
  rank_population_bytes :: nat
  prefix_block_bytes :: nat
  edge_bytes :: nat
  match_rank_bytes :: nat

definition BIT_WORDS :: nat where "BIT_WORDS = div_ceil 8 8"

definition BLOCK_WORDS :: "type_sizes \<Rightarrow> nat" where
  "BLOCK_WORDS Z = div_ceil (prefix_block_bytes Z) 8"

definition EDGE_PAYLOAD_BYTES :: "type_sizes \<Rightarrow> nat" where
  "EDGE_PAYLOAD_BYTES Z = edge_bytes Z + 2 * match_rank_bytes Z"

lemma stride_below:
  assumes "stride < div_ceil m stride"
  shows "stride < m"
proof (cases "stride = 0 \<or> m = 0")
  case True
  then show ?thesis using assms by (auto simp: div_ceil_def split: if_splits)
next
  case False
  define q r where "q = m div stride" and "r = m mod stride"
  define t where "t = stride * q"
  have m: "m = t + r" by (simp add: q_def r_def t_def)
  have "q \<le> t" using False by (simp add: t_def)
  then have "div_ceil m stride \<le> m"
    using m unfolding div_ceil_def q_def [symmetric] r_def [symmetric] by auto
  with assms show ?thesis by simp
qed

text \<open>The loop that finds the least stride whose square covers the payload.\<close>

function stride_from :: "nat \<Rightarrow> nat \<Rightarrow> nat" where
  "stride_from m stride = (if stride < div_ceil m stride then stride_from m (stride + 1) else stride)"
  by pat_completeness auto

termination
  by (relation "measure (\<lambda>(m, stride). m - stride)") (auto dest: stride_below)

declare stride_from.simps [simp del]

record storage_admitted =
  sa_input :: literal_candidates
  sa_stride :: nat
  sa_edge_limit :: nat

definition storage_words :: "type_sizes \<Rightarrow> nat \<Rightarrow> nat \<Rightarrow> nat \<Rightarrow> nat" where
  "storage_words Z m n stride =
     (let rows = usat_add (usat_mul (usat_add (m div stride + 1) 4) BIT_WORDS) (usat_mul (stride + 1) (BLOCK_WORDS Z));
          rank_words = div_ceil (rank_population_bytes Z) 8 + 2
      in usat_add (usat_add (usat_mul (div_ceil n 64) rows) (usat_mul n 32)) (usat_mul (usat_add m 1) rank_words))"

definition storage_admit :: "type_sizes \<Rightarrow> literal_candidates \<Rightarrow> nat \<Rightarrow> storage_admitted option" where
  "storage_admit Z input limit =
     (let m = length (lc_payload input);
          n = length (lc_reference input);
          stride = stride_from m 1
      in if storage_words Z m n stride \<le> usat_mul limit (div_ceil (EDGE_PAYLOAD_BYTES Z) 8)
         then Some \<lparr>sa_input = input, sa_stride = stride, sa_edge_limit = limit\<rparr> else None)"

subsection \<open>The packed proof\<close>

datatype rank_population = RankEmpty | RankUnique nat nat | RankCompeting

fun rank_observe :: "nat \<Rightarrow> nat \<Rightarrow> rank_population \<Rightarrow> rank_population" where
  "rank_observe p r RankEmpty = RankUnique p r"
| "rank_observe p r (RankUnique _ _) = RankCompeting"
| "rank_observe p r RankCompeting = RankCompeting"

datatype correspondence_admission =
    AdmissionComplete "edge list"
  | AdmissionBudgetExhausted correspondence_budget

text \<open>
  The early \<^verbatim>\<open>return\<close> of a refusal out of the nested loops is the left injection of the loops' result;
  the loops' variables are the count of optimal edges and the populations.
\<close>

type_synonym tally = "correspondence_budget + nat \<times> rank_population list"

fun observe_references ::
  "('s, 'e) work_control \<Rightarrow> prefix_scores \<Rightarrow> prefix_scores \<Rightarrow> nat \<Rightarrow> nat \<Rightarrow> nat \<Rightarrow> nat \<Rightarrow>
   (nat \<times> nat) list \<Rightarrow> nat \<times> rank_population list \<Rightarrow> ('s, 'e, tally) controlled" where
  "observe_references C prefix suffix opt limit n p [] st = ctl_return (Inr st)"
| "observe_references C prefix suffix opt limit n p ((ordinal, r) # rest) st =
     ctl_bind (if ordinal mod 1024 = 0 then ctl_check C else ctl_return ()) (\<lambda>_.
       let rk = scores_before prefix r + 1
       in if rk + scores_before suffix (n - r - 1) = opt then
            (if fst st = limit then ctl_return (Inl (candidate_edges_budget limit))
             else observe_references C prefix suffix opt limit n p rest
                    (fst st + 1, (snd st)[rk := rank_observe p r (snd st ! rk)]))
          else observe_references C prefix suffix opt limit n p rest st)"

text \<open>One segment backwards: its payload indices from last to first, beside the backward row.\<close>

fun scan_segment ::
  "('s, 'e) work_control \<Rightarrow> literal_candidates \<Rightarrow> prefix_scores list \<Rightarrow> nat \<Rightarrow> nat \<Rightarrow> nat \<Rightarrow> nat list \<Rightarrow>
   nat \<times> rank_population list \<Rightarrow> packed_row \<Rightarrow>
   ('s, 'e, correspondence_budget + (nat \<times> rank_population list) \<times> packed_row) controlled" where
  "scan_segment C input prefixes start opt limit [] st backward = ctl_return (Inr (st, backward))"
| "scan_segment C input prefixes start opt limit (p # rest) st backward =
     ctl_bind (ctl_check C) (\<lambda>_.
     ctl_bind
       (case lc_references input p of
          None \<Rightarrow> ctl_return (Inr st)
        | Some references \<Rightarrow>
            observe_references C (prefixes ! (p - start)) (row_prefixes backward) opt limit
              (length (lc_reference input)) p (enumerate 0 references) st) (\<lambda>t.
     case t of
       Inl budget \<Rightarrow> ctl_return (Inl budget)
     | Inr st' \<Rightarrow>
         ctl_bind (row_extend C backward (lc_payload input ! p)) (\<lambda>backward'.
         scan_segment C input prefixes start opt limit rest st' backward')))"

text \<open>The prefix scores of one segment, rebuilt from its checkpoint.\<close>

definition segment_prefixes ::
  "('s, 'e) work_control \<Rightarrow> literal_candidates \<Rightarrow> packed_checkpoint \<Rightarrow> nat \<Rightarrow> nat \<Rightarrow>
   ('s, 'e, prefix_scores list) controlled" where
  "segment_prefixes C input checkpoint start finish =
     ctl_bind
       (ctl_for [start..<finish] (\<lambda>p (prefixes, row).
          ctl_bind (row_extend C row (lc_payload input ! p)) (\<lambda>row'.
          ctl_return (prefixes @ [row_prefixes row], row'))) ([], checkpoint_resume checkpoint)) (\<lambda>(prefixes, _).
     ctl_return prefixes)"

lemma segment_start: "0 < finish \<Longrightarrow> (finish - 1) div stride * stride < (finish :: nat)"
  by (metis Suc_pred' div_times_less_eq_dividend le_imp_less_Suc)

text \<open>The \<^verbatim>\<open>while end > 0\<close> loop over the segments, last segment first.\<close>

function scan_segments ::
  "('s, 'e) work_control \<Rightarrow> literal_candidates \<Rightarrow> packed_checkpoint list \<Rightarrow> nat \<Rightarrow> nat \<Rightarrow> nat \<Rightarrow> nat \<Rightarrow>
   nat \<times> rank_population list \<Rightarrow> packed_row \<Rightarrow> ('s, 'e, tally) controlled" where
  "scan_segments C input checkpoints stride opt limit finish st backward =
     (if finish = 0 then ctl_return (Inr st)
      else
        (let start = (finish - 1) div stride * stride
         in ctl_bind (segment_prefixes C input (checkpoints ! (start div stride)) start finish) (\<lambda>prefixes.
            ctl_bind (scan_segment C input prefixes start opt limit (rev [start..<finish]) st backward) (\<lambda>t.
            case t of
              Inl budget \<Rightarrow> ctl_return (Inl budget)
            | Inr (st', backward') \<Rightarrow>
                scan_segments C input checkpoints stride opt limit start st' backward'))))"
  by pat_completeness auto

termination
  by (relation "measure (\<lambda>(C, input, checkpoints, stride, opt, limit, finish, st, backward). finish)")
    (use segment_start in auto)

declare scan_segments.simps [simp del]

fun unique_pair :: "rank_population \<Rightarrow> edge option" where
  "unique_pair (RankUnique p r) = Some (p, r)"
| "unique_pair _ = None"

definition proof_certify ::
  "('s, 'e) work_control \<Rightarrow> storage_admitted \<Rightarrow> ('s, 'e, correspondence_admission) controlled" where
  "proof_certify C admitted =
     (let input = sa_input admitted; stride = sa_stride admitted; limit = sa_edge_limit admitted
      in ctl_bind (ctl_check C) (\<lambda>_.
         ctl_bind (literal_reference_observe C (lc_reference input) (lc_mode input) Forward) (\<lambda>forward_reference.
         ctl_bind (literal_reference_observe C (lc_reference input) (lc_mode input) Reverse) (\<lambda>reverse_reference.
         ctl_bind
           (ctl_for (enumerate 0 (lc_payload input)) (\<lambda>pw (forward, checkpoints).
              ctl_bind (row_extend C forward (snd pw)) (\<lambda>forward'.
              ctl_return (forward', if (fst pw + 1) mod stride = 0 then checkpoints @ [row_checkpoint forward']
                                    else checkpoints)))
              (lr_start forward_reference, [row_checkpoint (lr_start forward_reference)])) (\<lambda>(forward, checkpoints).
         let opt = row_score forward
         in ctl_bind
              (scan_segments C input checkpoints stride opt limit (length (lc_payload input))
                 (0, replicate (opt + 1) RankEmpty) (lr_start reverse_reference)) (\<lambda>t.
            ctl_return
              (case t of
                 Inl budget \<Rightarrow> AdmissionBudgetExhausted budget
               | Inr (_, populations) \<Rightarrow> AdmissionComplete (List.map_filter unique_pair populations))))))))"

definition literal_candidates_certify ::
  "type_sizes \<Rightarrow> ('s, 'e) work_control \<Rightarrow> literal_candidates \<Rightarrow> nat \<Rightarrow>
   ('s, 'e, correspondence_admission option) controlled" where
  "literal_candidates_certify Z C input limit =
     (case storage_admit Z input limit of
        None \<Rightarrow> ctl_return None
      | Some admitted \<Rightarrow> ctl_bind (proof_certify C admitted) (\<lambda>a. ctl_return (Some a)))"

subsection \<open>What observation gives\<close>

lemma push_references:
  "hm_get (fold (push_reference mode) (enumerate 0 rs) []) k =
     (let js = filter (\<lambda>j. literal_key (rs ! j) mode = k) [0..<length rs] in if js = [] then None else Some js)"
proof (induction rs rule: rev_induct)
  case Nil
  then show ?case by (simp add: hm_get_def)
next
  case (snoc w rs)
  let ?js = "\<lambda>k. filter (\<lambda>j. literal_key (rs ! j) mode = k) [0..<length rs]"
  have "filter (\<lambda>j. literal_key ((rs @ [w]) ! j) mode = k) [0..<length (rs @ [w])] =
      ?js k @ (if literal_key w mode = k then [length rs] else [])"
    by (auto simp: nth_append intro!: filter_cong)
  then show ?case
    using snoc by (auto simp: push_reference_def Let_def hm_get_insert enumerate_append_eq)
qed

definition prepared_literal :: "literal_match_mode \<Rightarrow> string list \<Rightarrow> string list \<Rightarrow> literal_candidates \<Rightarrow> bool" where
  "prepared_literal mode ps rs input \<longleftrightarrow>
     lc_payload input = ps \<and> lc_reference input = rs \<and> lc_mode input = mode \<and>
     (\<forall>p < length ps. (case lc_references input p of Some js \<Rightarrow> js | None \<Rightarrow> []) = matching_refs (string_matches mode) rs (ps ! p)) \<and>
     lc_raw_edges input \<le> length (all_edges (string_matches mode) ps rs)"

lemma count_edges_le:
  assumes "\<And>i. i < length ps \<Longrightarrow> length (case hm_get postings (literal_key (ps ! i) mode) of Some js \<Rightarrow> js | None \<Rightarrow> []) = f i"
  shows "fold (count_edges mode postings) (enumerate 0 ps) 0 \<le> (\<Sum>i < length ps. f i)"
  using assms
proof (induction ps rule: rev_induct)
  case (snoc w ps)
  have "fold (count_edges mode postings) (enumerate 0 ps) 0 \<le> (\<Sum>i < length ps. f i)"
  proof (rule snoc.IH)
    fix i assume "i < length ps"
    with snoc.prems [of i] show "length (case hm_get postings (literal_key (ps ! i) mode) of Some js \<Rightarrow> js | None \<Rightarrow> []) = f i"
      by (simp add: nth_append)
  qed
  moreover have "length (case hm_get postings (literal_key w mode) of Some js \<Rightarrow> js | None \<Rightarrow> []) = f (length ps)"
    using snoc.prems [of "length ps"] by simp
  ultimately show ?case
    by (auto simp: enumerate_append_eq count_edges_def [of mode postings "(length ps, w)"] usat_add_def min_def split: option.splits)
qed simp

lemma length_all_edges: "length (all_edges m ps rs) = (\<Sum>i < length ps. length (matching_refs m rs (ps ! i)))"
proof -
  have "length (edges_of m ps rs n) = (\<Sum>i < n. length (matching_refs m rs (ps ! i)))" for n
    by (induction n) (simp_all add: edges_of_Suc edges_of_def)
  then show ?thesis by (simp add: all_edges_def)
qed

lemma matching_refs_key:
  "matching_refs (string_matches mode) rs w = filter (\<lambda>j. literal_key (rs ! j) mode = literal_key w mode) [0..<length rs]"
  unfolding matching_refs_def by (intro filter_cong refl) (auto simp: literal_key_matches [symmetric])

lemma answers_literal_candidates_observe:
  "\<exists>input. prepared_literal mode ps rs input \<and>
     (\<forall>C :: ('s, 'e) work_control. answers C (literal_candidates_observe C ps rs mode) input)"
proof -
  let ?postings = "fold (push_reference mode) (enumerate 0 rs) []"
  let ?raw = "fold (count_edges mode ?postings) (enumerate 0 ps) 0"
  let ?input = "\<lparr>lc_payload = ps, lc_reference = rs, lc_mode = mode, lc_postings = ?postings, lc_raw_edges = ?raw\<rparr>"
  have refs: "(case hm_get ?postings (literal_key w mode) of Some js \<Rightarrow> js | None \<Rightarrow> []) =
      matching_refs (string_matches mode) rs w" for w
    by (simp add: push_references matching_refs_key Let_def)
  have "?raw \<le> length (all_edges (string_matches mode) ps rs)"
    unfolding length_all_edges by (rule count_edges_le) (simp only: refs)
  then have "prepared_literal mode ps rs ?input"
    using refs by (simp add: prepared_literal_def lc_references_def)
  moreover have "answers C (literal_candidates_observe C ps rs mode) ?input" for C :: "('s, 'e) work_control"
  proof -
    have "answers C (ctl_for (enumerate 0 rs) (\<lambda>iw postings.
        ctl_bind (if fst iw mod 1024 = 0 then ctl_check C else ctl_return ()) (\<lambda>_.
          ctl_return (push_reference mode iw postings))) []) ?postings"
      by (intro answers_for answers_then answering)
    moreover have "answers C (ctl_for (enumerate 0 ps) (\<lambda>iw raw.
        ctl_bind (if fst iw mod 1024 = 0 then ctl_check C else ctl_return ()) (\<lambda>_.
          ctl_return (count_edges mode ?postings iw raw))) 0) ?raw"
      by (intro answers_for answers_then answering)
    ultimately show ?thesis unfolding literal_candidates_observe_def
      by (intro answers_then answering) (erule answers_bind, erule answers_bind, rule answers_return)
  qed
  ultimately show ?thesis by (intro exI [of _ ?input]) simp
qed

subsection \<open>The tally of optimal edges\<close>

text \<open>The loops' result as a function of the edges in the order visited.\<close>

fun tally_edges :: "nat \<Rightarrow> (edge \<Rightarrow> bool) \<Rightarrow> (edge \<Rightarrow> nat) \<Rightarrow> edge list \<Rightarrow> nat \<times> rank_population list \<Rightarrow> tally" where
  "tally_edges limit opt rk [] st = Inr st"
| "tally_edges limit opt rk (e # es) st =
     (if opt e then
        (if fst st = limit then Inl (candidate_edges_budget limit)
         else tally_edges limit opt rk es
                (fst st + 1, (snd st)[rk e := rank_observe (fst e) (snd e) (snd st ! rk e)]))
      else tally_edges limit opt rk es st)"

lemma tally_append:
  "tally_edges limit opt rk (xs @ ys) st =
     (case tally_edges limit opt rk xs st of Inl b \<Rightarrow> Inl b | Inr st' \<Rightarrow> tally_edges limit opt rk ys st')"
  by (induction xs arbitrary: st) auto

lemma answers_observe_references:
  assumes "\<forall>x \<in> set xs. (scores_before prefix (snd x) + 1 + scores_before suffix (n - snd x - 1) = best \<longleftrightarrow> opt (p, snd x)) \<and>
      scores_before prefix (snd x) + 1 = rk (p, snd x)"
  shows "answers C (observe_references C prefix suffix best limit n p xs st)
    (tally_edges limit opt rk (map (\<lambda>x. (p, snd x)) xs) st)"
  using assms
proof (induction xs arbitrary: st)
  case Nil
  then show ?case by (simp add: answers_return)
next
  case (Cons x xs)
  obtain i r where x: "x = (i, r)" by fastforce
  have rk: "scores_before prefix r + 1 = rk (p, r)" using Cons.prems x by auto
  have opt: "(rk (p, r) + scores_before suffix (n - r - 1) = best) = opt (p, r)"
    unfolding rk [symmetric] using Cons.prems x by auto
  have "answers C (observe_references C prefix suffix best limit n p xs st')
    (tally_edges limit opt rk (map (\<lambda>x. (p, snd x)) xs) st')" for st' using Cons by simp
  then show ?case unfolding x observe_references.simps Let_def rk opt
    by (intro answers_then answering) (simp add: answers_return)
qed

definition visited :: "(string \<Rightarrow> string \<Rightarrow> bool) \<Rightarrow> string list \<Rightarrow> string list \<Rightarrow> nat list \<Rightarrow> edge list" where
  "visited m ps rs is = concat (map (\<lambda>i. map (\<lambda>j. (i, j)) (matching_refs m rs (ps ! i))) is)"

lemma tally_length: "tally_edges limit opt rk es st = Inr st' \<Longrightarrow> length (snd st') = length (snd st)"
  by (induction es arbitrary: st) (auto split: if_splits)

subsection \<open>Rows give the ranks\<close>

lemma match_edges_rev:
  "match_edges m (rev ps) (rev rs) = mirror (length ps) (length rs) ` match_edges m ps rs"
proof -
  have sub: "mirror (length ps) (length rs) ` match_edges m ps rs \<subseteq> match_edges m (rev ps) (rev rs)" for ps rs :: "'a list"
    by (auto simp: match_edges_def mirror_def rev_nth)
  from image_mono [OF sub [of "rev ps" "rev rs"], of "mirror (length ps) (length rs)"]
  have "match_edges m (rev ps) (rev rs) \<subseteq> mirror (length ps) (length rs) ` match_edges m ps rs"
    using mirror_image [OF within_match_edges, of "rev ps" "rev rs" m] by simp
  with sub [of ps rs] show ?thesis by (simp add: subset_antisym)
qed

lemma finite_match_edges: "finite (match_edges m ps rs)"
  by (rule within_finite [OF within_match_edges])

lemma forward_rank:
  assumes "reads fo mode rs" and "(p, r) \<in> match_edges (string_matches mode) ps rs"
  shows "scores_before (row_prefixes (rows_from fo ps p)) r + 1 = fwd (match_edges (string_matches mode) ps rs) (p, r)"
proof -
  have "p \<le> length ps" "r \<le> length rs" using assms(2) by (auto simp: match_edges_def)
  then show ?thesis using rows_from_scores(1) [OF assms(1)] fwd_below [OF finite_match_edges assms(2)] by simp
qed

lemma backward_rank:
  assumes "reads ro mode (rev rs)" and "(p, r) \<in> match_edges (string_matches mode) ps rs"
  shows "scores_before (row_prefixes (rows_from ro (rev ps) (length ps - 1 - p))) (length rs - r - 1) + 1 =
    bwd (match_edges (string_matches mode) ps rs) (p, r)"
proof -
  let ?E = "match_edges (string_matches mode) ps rs" and ?m = "mirror (length ps) (length rs)"
  have "?m (p, r) \<in> match_edges (string_matches mode) (rev ps) (rev rs)" using assms(2) match_edges_rev by blast
  from forward_rank [OF assms(1) this [unfolded mirror_def]]
  have "scores_before (row_prefixes (rows_from ro (rev ps) (length ps - 1 - p))) (length rs - r - 1) + 1 =
      fwd (?m ` ?E) (?m (p, r))" by (simp add: match_edges_rev mirror_def)
  then show ?thesis using bwd_mirror [OF within_match_edges assms(2)] by simp
qed

definition on_optimum :: "edge set \<Rightarrow> edge \<Rightarrow> bool" where
  "on_optimum E e \<longleftrightarrow> fwd E e + bwd E e - 1 = optimum E"

lemma visited_Cons: "visited m ps rs (i # is) = map (\<lambda>j. (i, j)) (matching_refs m rs (ps ! i)) @ visited m ps rs is"
  by (simp add: visited_def)

lemma visited_append: "visited m ps rs (is @ js) = visited m ps rs is @ visited m ps rs js"
  by (simp add: visited_def)

lemma snd_enumerate: "x \<in> set (enumerate k xs) \<Longrightarrow> snd x \<in> set xs"
  by (cases x) (simp add: enumerate_eq_zip set_zip_rightD)

lemma map_snd_of_enumerate: "map (\<lambda>x. f (snd x)) (enumerate k xs) = map f xs"
  by (rule nth_equalityI) (simp_all add: nth_enumerate_eq)

lemma answers_scan_segment:
  fixes mode ps rs
  defines "E \<equiv> match_edges (string_matches mode) ps rs"
  assumes input: "prepared_literal mode ps rs input" and fo: "reads fo mode rs" and ro: "reads ro mode (rev rs)"
    and pre: "\<And>p. start \<le> p \<Longrightarrow> p < start + k \<Longrightarrow> prefixes ! (p - start) = row_prefixes (rows_from fo ps p)"
    and len: "start + k \<le> length ps"
  shows "answers C (scan_segment C input prefixes start (optimum E) limit (rev [start..<start + k]) st
      (rows_from ro (rev ps) (length ps - (start + k))))
    (case tally_edges limit (on_optimum E) (fwd E) (visited (string_matches mode) ps rs (rev [start..<start + k])) st of
       Inl b \<Rightarrow> Inl b | Inr st' \<Rightarrow> Inr (st', rows_from ro (rev ps) (length ps - start)))"
  using pre len
proof (induction k arbitrary: st)
  case 0
  then show ?case by (simp add: visited_def answers_return)
next
  case (Suc k)
  let ?p = "start + k" and ?m = "string_matches mode"
  let ?row = "rows_from ro (rev ps) (length ps - Suc ?p)" and ?refs = "matching_refs ?m rs (ps ! (start + k))"
  have p: "?p < length ps" using Suc.prems(2) by simp
  have rev: "rev [start..<Suc ?p] = ?p # rev [start..<?p]" by simp
  have refs: "(case lc_references input ?p of Some js \<Rightarrow> js | None \<Rightarrow> []) = ?refs"
    using input p by (simp add: prepared_literal_def)
  have ranks: "\<forall>x \<in> set (enumerate 0 ?refs).
      (scores_before (prefixes ! (?p - start)) (snd x) + 1 + scores_before (row_prefixes ?row) (length rs - snd x - 1) = optimum E
        \<longleftrightarrow> on_optimum E (?p, snd x)) \<and> scores_before (prefixes ! (?p - start)) (snd x) + 1 = fwd E (?p, snd x)"
  proof
    fix x assume "x \<in> set (enumerate 0 ?refs)"
    then have "snd x \<in> set ?refs" by (rule snd_enumerate)
    then have e: "(?p, snd x) \<in> E" using p by (auto simp: E_def match_edges_def matching_refs_def)
    have "prefixes ! (?p - start) = row_prefixes (rows_from fo ps ?p)" using Suc.prems(1) [of ?p] by simp
    with forward_rank [OF fo e [unfolded E_def]] backward_rank [OF ro e [unfolded E_def]]
    show "(scores_before (prefixes ! (?p - start)) (snd x) + 1 + scores_before (row_prefixes ?row) (length rs - snd x - 1) = optimum E
        \<longleftrightarrow> on_optimum E (?p, snd x)) \<and> scores_before (prefixes ! (?p - start)) (snd x) + 1 = fwd E (?p, snd x)"
      unfolding on_optimum_def E_def [symmetric] by (auto simp: E_def)
  qed
  have row: "answers C (case lc_references input ?p of None \<Rightarrow> ctl_return (Inr st)
      | Some references \<Rightarrow> observe_references C (prefixes ! (?p - start)) (row_prefixes ?row) (optimum E) limit
          (length (lc_reference input)) ?p (enumerate 0 references) st)
    (tally_edges limit (on_optimum E) (fwd E) (map (\<lambda>j. (?p, j)) ?refs) st)"
  proof (cases "lc_references input ?p")
    case None
    with refs have "?refs = []" by simp
    with None show ?thesis by (simp add: answers_return)
  next
    case (Some js)
    with refs have "js = ?refs" by simp
    moreover have "length (lc_reference input) = length rs" using input by (simp add: prepared_literal_def)
    moreover have "map (\<lambda>x. (?p, snd x)) (enumerate 0 ?refs) = map (\<lambda>j. (?p, j)) ?refs"
      by (rule map_snd_of_enumerate)
    ultimately show ?thesis using Some answers_observe_references [OF ranks] by simp
  qed
  have ext: "answers C (row_extend C ?row (lc_payload input ! ?p)) (rows_from ro (rev ps) (length ps - ?p))"
  proof -
    have "rev ps ! (length ps - Suc ?p) = ps ! ?p" using p by (simp add: rev_nth)
    moreover have "Suc (length ps - Suc ?p) = length ps - ?p" using p by simp
    ultimately have "rows_from ro (rev ps) (length ps - ?p) = row_extended ?row (lc_payload input ! ?p)"
      using rows_from_Suc [of "length ps - Suc ?p" "rev ps" ro] p input by (simp add: prepared_literal_def)
    then show ?thesis using answers_row_extend by simp
  qed
  have IH: "answers C (scan_segment C input prefixes start (optimum E) limit (rev [start..<?p]) st'
      (rows_from ro (rev ps) (length ps - ?p)))
    (case tally_edges limit (on_optimum E) (fwd E) (visited ?m ps rs (rev [start..<?p])) st' of
       Inl b \<Rightarrow> Inl b | Inr st' \<Rightarrow> Inr (st', rows_from ro (rev ps) (length ps - start)))" for st'
    using Suc.prems by (intro Suc.IH) simp_all
  show ?case unfolding add_Suc_right rev scan_segment.simps visited_Cons tally_append
  proof (intro answers_then answering answers_bind [OF row])
    let ?t = "tally_edges limit (on_optimum E) (fwd E) (map (\<lambda>j. (?p, j)) ?refs) st"
    show "answers C (case ?t of Inl budget \<Rightarrow> ctl_return (Inl budget)
        | Inr st' \<Rightarrow> ctl_bind (row_extend C ?row (lc_payload input ! ?p))
            (scan_segment C input prefixes start (optimum E) limit (rev [start..<?p]) st'))
      (case (case ?t of Inl b \<Rightarrow> Inl b
             | Inr st' \<Rightarrow> tally_edges limit (on_optimum E) (fwd E) (visited ?m ps rs (rev [start..<?p])) st') of
         Inl b \<Rightarrow> Inl b | Inr st' \<Rightarrow> Inr (st', rows_from ro (rev ps) (length ps - start)))"
    proof (cases ?t)
      case (Inr st')
      show ?thesis unfolding Inr sum.case by (rule answers_bind [OF ext], rule IH)
    qed (simp add: answers_return)
  qed
qed

lemma answers_segment_prefixes:
  assumes "finish \<le> length ps" and "start \<le> finish" and "lc_payload input = ps"
  shows "answers C (segment_prefixes C input (row_checkpoint (rows_from fo ps start)) start finish)
    (map (\<lambda>p. row_prefixes (rows_from fo ps p)) [start..<finish])"
proof -
  have "answers C (ctl_for [start..<finish] (\<lambda>p (prefixes, row).
      ctl_bind (row_extend C row (lc_payload input ! p)) (\<lambda>row'. ctl_return (prefixes @ [row_prefixes row], row')))
      ([], checkpoint_resume (row_checkpoint (rows_from fo ps start))))
    (fold (\<lambda>p (prefixes, row). (prefixes @ [row_prefixes row], row_extended row (ps ! p))) [start..<finish]
      ([], checkpoint_resume (row_checkpoint (rows_from fo ps start))))"
    using assms(3) by (intro answers_for) (auto intro!: answers_bind [OF answers_row_extend] answers_return)
  moreover have "fold (\<lambda>p (prefixes, row). (prefixes @ [row_prefixes row], row_extended row (ps ! p))) [start..<start + k]
      ([], checkpoint_resume (row_checkpoint (rows_from fo ps start))) =
    (map (\<lambda>p. row_prefixes (rows_from fo ps p)) [start..<start + k], rows_from fo ps (start + k))"
    if "start + k \<le> length ps" for k using that
    by (induction k) (simp_all add: checkpoint_resume_def row_checkpoint_def rows_from_Suc)
  from this [of "finish - start"] have "fold (\<lambda>p (prefixes, row). (prefixes @ [row_prefixes row], row_extended row (ps ! p)))
      [start..<finish] ([], checkpoint_resume (row_checkpoint (rows_from fo ps start))) =
    (map (\<lambda>p. row_prefixes (rows_from fo ps p)) [start..<finish], rows_from fo ps finish)"
    using assms(1,2) by simp
  ultimately show ?thesis unfolding segment_prefixes_def
    by (intro answers_bind [where v = "(map (\<lambda>p. row_prefixes (rows_from fo ps p)) [start..<finish], rows_from fo ps finish)"])
      (simp_all add: answers_return)
qed

lemma answers_scan_segments:
  fixes mode ps rs
  defines "E \<equiv> match_edges (string_matches mode) ps rs"
  assumes input: "prepared_literal mode ps rs input" and fo: "reads fo mode rs" and ro: "reads ro mode (rev rs)"
    and cps: "\<And>c. c * stride < length ps \<Longrightarrow> checkpoints ! c = row_checkpoint (rows_from fo ps (c * stride))"
    and stride: "0 < stride" and len: "finish \<le> length ps"
  shows "answers C (scan_segments C input checkpoints stride (optimum E) limit finish st
      (rows_from ro (rev ps) (length ps - finish)))
    (tally_edges limit (on_optimum E) (fwd E) (visited (string_matches mode) ps rs (rev [0..<finish])) st)"
  using len
proof (induction finish arbitrary: st rule: less_induct)
  case (less finish)
  show ?case
  proof (cases "finish = 0")
    case True
    then show ?thesis by (subst scan_segments.simps) (simp add: visited_def answers_return)
  next
    case False
    let ?m = "string_matches mode"
    let ?start = "(finish - 1) div stride * stride"
    let ?prefixes = "map (\<lambda>p. row_prefixes (rows_from fo ps p)) [?start..<finish]"
    have start: "?start < finish" using segment_start False by simp
    have cp: "checkpoints ! (?start div stride) = row_checkpoint (rows_from fo ps ?start)"
      using cps [of "?start div stride"] stride start less.prems by simp
    have seg: "answers C (scan_segment C input ?prefixes ?start (optimum E) limit (rev [?start..<finish]) st
        (rows_from ro (rev ps) (length ps - finish)))
      (case tally_edges limit (on_optimum E) (fwd E) (visited ?m ps rs (rev [?start..<finish])) st of
         Inl b \<Rightarrow> Inl b | Inr st' \<Rightarrow> Inr (st', rows_from ro (rev ps) (length ps - ?start)))"
      using answers_scan_segment [OF input fo ro, of ?start "finish - ?start" ?prefixes C limit st] start less.prems
      by (simp add: E_def)
    have IH: "answers C (scan_segments C input checkpoints stride (optimum E) limit ?start st'
        (rows_from ro (rev ps) (length ps - ?start)))
      (tally_edges limit (on_optimum E) (fwd E) (visited ?m ps rs (rev [0..<?start])) st')" for st'
      using start less.prems by (intro less.IH) simp_all
    have pre: "answers C (segment_prefixes C input (checkpoints ! (?start div stride)) ?start finish) ?prefixes"
      unfolding cp using start less.prems input by (intro answers_segment_prefixes) (simp_all add: prepared_literal_def)
    have "[0..<finish] = [0..<?start] @ [?start..<finish]"
      using upt_add_eq_append [of 0 ?start "finish - ?start"] start by simp
    then have rev: "rev [0..<finish] = rev [?start..<finish] @ rev [0..<?start]" by simp
    let ?t = "tally_edges limit (on_optimum E) (fwd E) (visited ?m ps rs (rev [?start..<finish])) st"
    have "answers C (case (case ?t of Inl b \<Rightarrow> Inl b | Inr st' \<Rightarrow> Inr (st', rows_from ro (rev ps) (length ps - ?start))) of
          Inl budget \<Rightarrow> ctl_return (Inl budget)
        | Inr (st', backward') \<Rightarrow> scan_segments C input checkpoints stride (optimum E) limit ?start st' backward')
      (case ?t of Inl b \<Rightarrow> Inl b
       | Inr st' \<Rightarrow> tally_edges limit (on_optimum E) (fwd E) (visited ?m ps rs (rev [0..<?start])) st')"
    proof (cases ?t)
      case (Inr st')
      show ?thesis unfolding Inr sum.case prod.case by (rule IH)
    qed (simp add: answers_return)
    then show ?thesis using False
      unfolding rev visited_append tally_append
      by (subst scan_segments.simps, simp only: Let_def if_False) (intro answers_bind [OF pre] answers_bind [OF seg])
  qed
qed

lemma answers_checkpoints:
  assumes "0 < stride" and "lc_payload input = ps"
  shows "answers C (ctl_for (enumerate 0 (lc_payload input)) (\<lambda>pw (forward, checkpoints).
      ctl_bind (row_extend C forward (snd pw)) (\<lambda>forward'.
      ctl_return (forward', if (fst pw + 1) mod stride = 0 then checkpoints @ [row_checkpoint forward'] else checkpoints)))
      (lr_start fo, [row_checkpoint (lr_start fo)]))
    (rows_from fo ps (length ps), map (\<lambda>c. row_checkpoint (rows_from fo ps (c * stride))) [0..<Suc (length ps div stride)])"
proof -
  let ?step = "\<lambda>pw (forward, checkpoints).
      (row_extended forward (snd pw), if (fst pw + 1) mod stride = 0 then checkpoints @ [row_checkpoint (row_extended forward (snd pw))] else checkpoints)"
  have "answers C (ctl_for (enumerate 0 (lc_payload input)) (\<lambda>pw (forward, checkpoints).
      ctl_bind (row_extend C forward (snd pw)) (\<lambda>forward'.
      ctl_return (forward', if (fst pw + 1) mod stride = 0 then checkpoints @ [row_checkpoint forward'] else checkpoints)))
      (lr_start fo, [row_checkpoint (lr_start fo)]))
    (fold ?step (enumerate 0 ps) (lr_start fo, [row_checkpoint (lr_start fo)]))"
    unfolding assms(2) by (rule answers_for) (auto intro!: answers_bind [OF answers_row_extend] answers_return)
  moreover have "fold ?step (enumerate 0 (take n ps)) (lr_start fo, [row_checkpoint (lr_start fo)]) =
      (rows_from fo ps n, map (\<lambda>c. row_checkpoint (rows_from fo ps (c * stride))) [0..<Suc (n div stride)])"
    if "n \<le> length ps" for n using that
  proof (induction n)
    case (Suc n)
    then have "enumerate 0 (take (Suc n) ps) = enumerate 0 (take n ps) @ [(n, ps ! n)]"
      by (simp add: take_Suc_conv_app_nth enumerate_append_eq)
    moreover have "Suc (n div stride) * stride = Suc n" if "Suc n mod stride = 0"
      using that by (metis div_Suc mod_0_imp_dvd dvd_div_mult_self)
    ultimately show ?case using Suc by (auto simp: rows_from_Suc div_Suc)
  qed simp
  from this [of "length ps"] have "fold ?step (enumerate 0 ps) (lr_start fo, [row_checkpoint (lr_start fo)]) =
      (rows_from fo ps (length ps), map (\<lambda>c. row_checkpoint (rows_from fo ps (c * stride))) [0..<Suc (length ps div stride)])"
    by simp
  ultimately show ?thesis by (simp only:)
qed

subsection \<open>What the tally certifies\<close>

definition summarise :: "edge list \<Rightarrow> rank_population" where
  "summarise es = fold (\<lambda>e. rank_observe (fst e) (snd e)) es RankEmpty"

lemma rank_observe_competing: "fold (\<lambda>e. rank_observe (fst e) (snd e)) es RankCompeting = RankCompeting"
  by (induction es) auto

lemma unique_summarise: "unique_pair (summarise es) = (case es of [e] \<Rightarrow> Some e | _ \<Rightarrow> None)"
  by (auto simp: summarise_def rank_observe_competing split: list.split)

lemma tally_result:
  assumes "\<forall>e \<in> set es. opt e \<longrightarrow> rk e < length pops" and "c \<le> limit"
  shows "tally_edges limit opt rk es (c, pops) =
    (if c + length (filter opt es) \<le> limit
     then Inr (c + length (filter opt es),
       map (\<lambda>i. fold (\<lambda>e. rank_observe (fst e) (snd e)) (filter (\<lambda>e. opt e \<and> rk e = i) es) (pops ! i)) [0..<length pops])
     else Inl (candidate_edges_budget limit))"
  using assms
proof (induction es arbitrary: c pops)
  case Nil
  then show ?case by (simp add: map_nth)
next
  case (Cons e es)
  show ?case
  proof (cases "opt e \<and> c < limit")
    case True
    let ?pops = "pops[rk e := rank_observe (fst e) (snd e) (pops ! rk e)]"
    have "rk e < length pops" using Cons.prems True by simp
    then have "map (\<lambda>i. fold (\<lambda>e. rank_observe (fst e) (snd e)) (filter (\<lambda>e. opt e \<and> rk e = i) es) (?pops ! i)) [0..<length ?pops] =
      map (\<lambda>i. fold (\<lambda>e. rank_observe (fst e) (snd e)) (filter (\<lambda>e. opt e \<and> rk e = i) (e # es)) (pops ! i)) [0..<length pops]"
      using True by (intro map_cong) (auto simp: nth_list_update)
    then show ?thesis using Cons.IH [of ?pops "Suc c"] Cons.prems True by simp
  next
    case False
    then show ?thesis using Cons.IH [of pops c] Cons.prems by (cases "opt e") auto
  qed
qed

text \<open>Pairs are certified for a set of edges when they are its common edges, in increasing order.\<close>

definition certifies :: "edge set \<Rightarrow> edge list \<Rightarrow> bool" where
  "certifies E pairs \<longleftrightarrow> set pairs = common E \<and> sorted_wrt before pairs"

lemma common_before:
  assumes "finite E" and "e \<in> common E" and "f \<in> common E" and "fwd E e < fwd E f"
  shows "before e f"
proof -
  obtain c where c: "longest E c" using optimum_attained [OF assms(1)] longest_iff [OF assms(1)] by blast
  have "e \<in> set c" "f \<in> set c" using assms(2,3) c by (simp_all add: common_def)
  then obtain i j where i: "i < length c" "c ! i = e" and j: "j < length c" "c ! j = f"
    unfolding in_set_conv_nth by blast
  have "i < j" using longest_rank(1) [OF assms(1) c i(1)] longest_rank(1) [OF assms(1) c j(1)] i j assms(4) by simp
  moreover have "sorted_wrt before c" using c by (simp add: longest_def chain_def)
  ultimately show ?thesis using i j by (auto simp: sorted_wrt_iff_nth_less)
qed

lemma sole_iff:
  assumes "distinct es"
  shows "filter P es = [e] \<longleftrightarrow> e \<in> set es \<and> P e \<and> (\<forall>f \<in> set es. P f \<longrightarrow> f = e)"
proof
  assume "filter P es = [e]"
  then have "set (filter P es) = {e}" by simp
  then show "e \<in> set es \<and> P e \<and> (\<forall>f \<in> set es. P f \<longrightarrow> f = e)" unfolding set_filter by blast
next
  assume "e \<in> set es \<and> P e \<and> (\<forall>f \<in> set es. P f \<longrightarrow> f = e)"
  then have "set (filter P es) = {e}" by auto
  moreover have "distinct (filter P es)" using assms by simp
  moreover have "xs = [e]" if "set xs = {e}" "distinct xs" for xs
    using that by (cases xs) (auto simp: subset_singleton_iff)
  ultimately show "filter P es = [e]" by blast
qed

lemma in_map_filter: "e \<in> set (List.map_filter f xs) \<longleftrightarrow> (\<exists>x \<in> set xs. f x = Some e)"
  by (force simp: map_filter_def)

lemma tally_certifies:
  assumes "finite E" and "distinct es" and "set es = E"
  shows "certifies E (List.map_filter unique_pair
    (map (\<lambda>i. summarise (filter (\<lambda>e. on_optimum E e \<and> fwd E e = i) es)) [0..<optimum E + 1]))"
proof -
  let ?P = "\<lambda>i e. on_optimum E e \<and> fwd E e = i"
  let ?u = "\<lambda>i. unique_pair (summarise (filter (?P i) es))"
  have u: "?u i = Some e \<longleftrightarrow> filter (?P i) es = [e]" for i e
    by (auto simp: unique_summarise split: list.splits)
  have oe: "optimal_edge E e \<longleftrightarrow> e \<in> E \<and> on_optimum E e" for e by (simp add: optimal_edge_def on_optimum_def)
  have sole: "?u i = Some e \<longleftrightarrow> e \<in> common E \<and> fwd E e = i" for i e
  proof -
    have "?u i = Some e \<longleftrightarrow> e \<in> E \<and> ?P i e \<and> (\<forall>f \<in> E. ?P i f \<longrightarrow> f = e)"
      unfolding u using sole_iff [OF assms(2), of "?P i" e] assms(3) by simp
    also have "\<dots> \<longleftrightarrow> optimal_edge E e \<and> fwd E e = i \<and> (\<forall>f. optimal_edge E f \<and> fwd E f = fwd E e \<longrightarrow> f = e)"
      by (auto simp: oe)
    also have "\<dots> \<longleftrightarrow> e \<in> common E \<and> fwd E e = i"
    proof (cases "E = {}")
      case True
      then show ?thesis using common_subset [OF assms(1)] by (auto simp: optimal_edge_def)
    next
      case False
      then show ?thesis using common_iff_sole [OF assms(1)] by blast
    qed
    finally show ?thesis .
  qed
  have pairs: "List.map_filter unique_pair (map (\<lambda>i. summarise (filter (?P i) es)) [0..<optimum E + 1]) =
      List.map_filter ?u [0..<optimum E + 1]"
    by (simp add: map_filter_def comp_def filter_map)
  have "e \<in> set (List.map_filter ?u [0..<optimum E + 1]) \<longleftrightarrow> e \<in> common E" for e
  proof -
    have "fwd E e \<le> optimum E" if "e \<in> common E"
    proof -
      have "E \<noteq> {}" using that common_subset [OF assms(1)] by blast
      then show ?thesis using that common_iff_sole [OF assms(1)] optimal_rank_bounds [OF assms(1)] by blast
    qed
    then show ?thesis unfolding in_map_filter sole by (auto simp: less_Suc_eq_le)
  qed
  moreover have "sorted_wrt before (List.map_filter ?u [0..<n])" for n
  proof (induction n)
    case (Suc n)
    have "before x y" if x: "x \<in> set (List.map_filter ?u [0..<n])" and y: "?u n = Some y" for x y
    proof -
      obtain i where "i < n" "?u i = Some x" using x unfolding in_map_filter by auto
      then show ?thesis using y sole common_before [OF assms(1), of x y] by auto
    qed
    then show ?case using Suc by (cases "?u n") (auto simp: map_filter_def sorted_wrt_append)
  qed (simp add: map_filter_def)
  ultimately show ?thesis unfolding certifies_def pairs by blast
qed

lemma certifies_unique:
  assumes "certifies E xs" and "certifies E ys"
  shows "xs = ys"
proof -
  have strict: "sorted_wrt (<) (map fst zs)" if "sorted_wrt before zs" for zs
    unfolding sorted_wrt_map using that by (rule sorted_wrt_mono_rel [rotated]) (simp add: before_def)
  have "inj_on fst (set zs)" if "sorted_wrt before zs" for zs
    using strict [OF that] by (simp add: strict_sorted_iff distinct_map)
  moreover have sorted: "sorted_wrt before xs" "sorted_wrt before ys" and same: "set xs = set ys"
    using assms by (auto simp: certifies_def)
  moreover have "map fst xs = map fst ys"
    using strict [OF sorted(1)] strict [OF sorted(2)] same by (intro strict_sorted_equal) simp_all
  ultimately show ?thesis by (metis map_inj_on Un_absorb)
qed

lemma distinct_visited:
  assumes "distinct is"
  shows "distinct (visited m ps rs is)"
  using assms
proof (induction "is")
  case (Cons i "is")
  have "distinct (map (\<lambda>j. (i, j)) (matching_refs m rs (ps ! i)))"
    by (simp add: distinct_map matching_refs_def inj_on_def)
  then show ?case using Cons by (auto simp: visited_Cons) (auto simp: visited_def)
qed (simp add: visited_def)

lemma set_visited: "set (visited m ps rs (rev [0..<length ps])) = match_edges m ps rs"
  by (auto simp: visited_def match_edges_def matching_refs_def)

lemma answers_admission:
  "answers C
     (ctl_return (case (if b then Inr (n, pops) else Inl x) of
        Inl budget \<Rightarrow> AdmissionBudgetExhausted budget
      | Inr (_, populations) \<Rightarrow> AdmissionComplete (f populations)))
     (if b then AdmissionComplete (f pops) else AdmissionBudgetExhausted x)"
  by (cases b) (simp_all add: answers_return)

text \<open>The packed proof certifies the common pairs, or refuses because more edges than allowed are optimal.\<close>

lemma answers_proof_certify:
  fixes mode ps rs
  defines "E \<equiv> match_edges (string_matches mode) ps rs"
  assumes input: "prepared_literal mode ps rs input" and stride: "0 < stride"
  shows "\<exists>pairs. certifies E pairs \<and>
    (\<forall>C :: ('s, 'e) work_control. answers C (proof_certify C \<lparr>sa_input = input, sa_stride = stride, sa_edge_limit = limit\<rparr>)
      (if card {e \<in> E. on_optimum E e} \<le> limit then AdmissionComplete pairs
       else AdmissionBudgetExhausted (candidate_edges_budget limit)))"
proof -
  let ?m = "string_matches mode" and ?es = "visited (string_matches mode) ps rs (rev [0..<length ps])"
  let ?pops = "map (\<lambda>i. summarise (filter (\<lambda>e. on_optimum E e \<and> fwd E e = i) ?es)) [0..<optimum E + 1]"
  have in_ps: "lc_payload input = ps" "lc_reference input = rs" "lc_mode input = mode"
    using input by (simp_all add: prepared_literal_def)
  obtain fo where fo: "reads fo mode rs"
    "\<And>C :: ('s, 'e) work_control. answers C (literal_reference_observe C rs mode Forward) fo"
    using answers_literal_reference_observe [of mode Forward rs] by auto
  obtain ro where ro: "reads ro mode (rev rs)"
    "\<And>C :: ('s, 'e) work_control. answers C (literal_reference_observe C rs mode Reverse) ro"
    using answers_literal_reference_observe [of mode Reverse rs] by auto
  have dist: "distinct ?es" and es: "set ?es = E" unfolding E_def by (simp_all add: distinct_visited set_visited)
  have fin: "finite E" unfolding E_def by (rule finite_match_edges)
  have score: "row_score (rows_from fo ps (length ps)) = optimum E"
    using rows_from_scores(2) [OF fo(1) order.refl] below_prefix [of "length rs" rs ?m ps] by (simp add: E_def)
  let ?cps = "map (\<lambda>c. row_checkpoint (rows_from fo ps (c * stride))) [0..<Suc (length ps div stride)]"
  have cps: "?cps ! c = row_checkpoint (rows_from fo ps (c * stride))" if "c * stride < length ps" for c
  proof -
    have "c \<le> length ps div stride" using that stride by (simp add: less_eq_div_iff_mult_less_eq)
    then show ?thesis by (simp del: upt_Suc)
  qed
  have "\<forall>e \<in> set ?es. on_optimum E e \<longrightarrow> fwd E e < length (replicate (optimum E + 1) RankEmpty)"
    using es optimal_rank_bounds(2) [OF fin] by (auto simp: optimal_edge_def on_optimum_def less_Suc_eq_le)
  from tally_result [OF this, of 0 limit]
  have tally: "tally_edges limit (on_optimum E) (fwd E) ?es (0, replicate (optimum E + 1) RankEmpty) =
    (if length (filter (on_optimum E) ?es) \<le> limit then Inr (length (filter (on_optimum E) ?es), ?pops)
     else Inl (candidate_edges_budget limit))"
    by (simp add: summarise_def del: upt_Suc replicate_Suc cong: map_cong if_cong)
  have count: "length (filter (on_optimum E) ?es) = card {e \<in> E. on_optimum E e}"
    using distinct_length_filter [OF dist, of "on_optimum E"] es by (simp add: Int_def conj_commute)
  have "certifies E (List.map_filter unique_pair ?pops)" by (rule tally_certifies [OF fin dist es])
  moreover have "answers C (proof_certify C \<lparr>sa_input = input, sa_stride = stride, sa_edge_limit = limit\<rparr>)
      (if card {e \<in> E. on_optimum E e} \<le> limit then AdmissionComplete (List.map_filter unique_pair ?pops)
       else AdmissionBudgetExhausted (candidate_edges_budget limit))" for C :: "('s, 'e) work_control"
  proof -
    note run = answers_scan_segments [OF input fo(1) ro(1) cps stride order.refl, of C limit "(0, replicate (optimum E + 1) RankEmpty)",
      folded E_def, unfolded tally count diff_self_eq_0 rows_from_0]
    show ?thesis
      unfolding proof_certify_def Let_def storage_admitted.simps in_ps
      by (intro answers_then answering, rule answers_bind [OF fo(2)], rule answers_bind [OF ro(2)],
          rule answers_bind [OF answers_checkpoints [OF stride in_ps(1), unfolded in_ps]], unfold prod.case score,
          rule answers_bind [OF run], assumption)
        (rule answers_admission)
  qed
  ultimately show ?thesis by blast
qed

lemma stride_from_pos: "0 < s \<Longrightarrow> 0 < stride_from m s"
proof (induction m s rule: stride_from.induct)
  case (1 m s)
  then show ?case by (subst stride_from.simps) simp
qed

text \<open>The stride is the least whose square covers the payload: the segments number at most the stride.\<close>

lemma stride_from_covers: "div_ceil m (stride_from m s) \<le> stride_from m s"
proof (induction m s rule: stride_from.induct)
  case (1 m s)
  show ?case
  proof (cases "s < div_ceil m s")
    case True
    with 1 show ?thesis by (subst (1 2) stride_from.simps) simp
  next
    case False
    then show ?thesis by (subst (1 2) stride_from.simps) simp
  qed
qed

lemma answers_literal_candidates_certify:
  fixes mode ps rs
  defines "E \<equiv> match_edges (string_matches mode) ps rs"
  assumes input: "prepared_literal mode ps rs input"
  shows "\<exists>r. (\<forall>C :: ('s, 'e) work_control. answers C (literal_candidates_certify Z C input limit) r) \<and>
    (case r of None \<Rightarrow> storage_admit Z input limit = None
     | Some (AdmissionComplete pairs) \<Rightarrow> certifies E pairs \<and> card {e \<in> E. on_optimum E e} \<le> limit
     | Some (AdmissionBudgetExhausted b) \<Rightarrow> b = candidate_edges_budget limit \<and> limit < card {e \<in> E. on_optimum E e})"
proof (cases "storage_admit Z input limit")
  case None
  then show ?thesis by (auto simp: literal_candidates_certify_def intro!: exI [of _ None] answers_return)
next
  case (Some a)
  let ?stride = "stride_from (length (lc_payload input)) 1"
  have a: "a = \<lparr>sa_input = input, sa_stride = ?stride, sa_edge_limit = limit\<rparr>"
    using Some by (auto simp: storage_admit_def Let_def split: if_splits)
  obtain pairs where p: "certifies E pairs"
    "\<And>C :: ('s, 'e) work_control. answers C (proof_certify C a)
      (if card {e \<in> E. on_optimum E e} \<le> limit then AdmissionComplete pairs
       else AdmissionBudgetExhausted (candidate_edges_budget limit))"
    using answers_proof_certify [OF input stride_from_pos [of 1]] unfolding a E_def by fastforce
  let ?r = "if card {e \<in> E. on_optimum E e} \<le> limit then AdmissionComplete pairs
       else AdmissionBudgetExhausted (candidate_edges_budget limit)"
  have "answers C (literal_candidates_certify Z C input limit) (Some ?r)" for C :: "('s, 'e) work_control"
    unfolding literal_candidates_certify_def Some option.case by (rule answers_bind [OF p(2) answers_return])
  then show ?thesis using p(1) by (intro exI [of _ "Some ?r"]) simp
qed

end
