(* ===== verification/Admission.thy ===== *)
theory Admission
  imports Literal_Candidates
begin

text \<open>
  Admission of common correspondences and the metered inspection beside it
  (\<^verbatim>\<open>crates/batchalign-transform/src/dp_align/correspondence.rs\<close>,
  \<^verbatim>\<open>correspondence/inspection.rs\<close>): the choice between the sparse, the packed and the fuzzy
  producer, the refusal by the edge allowance, the meter that bounds the diagnostic alignment by
  work and by live score cells, and the pair of both that callers read. The theorems show that
  the admitted pairs are those every alignment at least cost matches, that a refusal is honest,
  that an inspection is the original alignment or a refusal by its own limits, and that the
  admitted pairs lie on the inspected path.
\<close>

subsection \<open>Candidate edges\<close>

definition MAX_EDGES :: nat where "MAX_EDGES = 1048576"

datatype prepared_correspondences = PreparedSparse candidates | PreparedCertified "edge list"

text \<open>The closure \<^verbatim>\<open>push\<close> and the two loops around it; the left injection is the early refusal.\<close>

fun push_references ::
  "('s, 'e) work_control \<Rightarrow> nat \<Rightarrow> nat \<Rightarrow> nat list \<Rightarrow> edge list \<Rightarrow>
   ('s, 'e, (correspondence_budget, edge list) result) controlled" where
  "push_references C limit i [] edges = ctl_return (Ok edges)"
| "push_references C limit i (j # js) edges =
     ctl_bind (ctl_check C) (\<lambda>_.
     if length edges = limit then ctl_return (Err (candidate_edges_budget limit))
     else push_references C limit i js (edges @ [(i, j)]))"

fun push_rows ::
  "('s, 'e) work_control \<Rightarrow> literal_candidates \<Rightarrow> nat \<Rightarrow> nat list \<Rightarrow> edge list \<Rightarrow>
   ('s, 'e, (correspondence_budget, edge list) result) controlled" where
  "push_rows C input limit [] edges = ctl_return (Ok edges)"
| "push_rows C input limit (i # rest) edges =
     ctl_bind (ctl_check C) (\<lambda>_.
     ctl_bind
       (case lc_references input i of
          None \<Rightarrow> ctl_return (Ok edges)
        | Some references \<Rightarrow> push_references C limit i references edges) (\<lambda>r.
     case r of Inl b \<Rightarrow> ctl_return (Err b) | Inr edges' \<Rightarrow> push_rows C input limit rest edges'))"

definition literal_edges ::
  "type_sizes \<Rightarrow> ('s, 'e) work_control \<Rightarrow> string list \<Rightarrow> string list \<Rightarrow> literal_match_mode \<Rightarrow> nat \<Rightarrow>
   ('s, 'e, (correspondence_budget, prepared_correspondences) result) controlled" where
  "literal_edges Z C payload reference mode limit =
     ctl_bind (literal_candidates_observe C payload reference mode) (\<lambda>input.
     ctl_bind
       (if lc_raw_edges input > limit then literal_candidates_certify Z C input limit else ctl_return None) (\<lambda>r.
     case r of
       Some (AdmissionComplete pairs) \<Rightarrow> ctl_return (Ok (PreparedCertified pairs))
     | Some (AdmissionBudgetExhausted b) \<Rightarrow> ctl_return (Err b)
     | None \<Rightarrow>
         ctl_bind (push_rows C input limit [0..<length payload] []) (\<lambda>r.
         ctl_return (map_sum id (\<lambda>edges. PreparedSparse \<lparr>cand_reference = reference, cand_edges = edges\<rparr>) r))))"

definition candidate_edges ::
  "'f fuzzy_ops \<Rightarrow> type_sizes \<Rightarrow> ('s, 'e) work_control \<Rightarrow> string list \<Rightarrow> string list \<Rightarrow> 'f match_mode \<Rightarrow> nat \<Rightarrow>
   ('s, 'e, (correspondence_budget, prepared_correspondences) result) controlled" where
  "candidate_edges F Z C payload reference mode limit =
     ctl_bind (ctl_check C) (\<lambda>_.
     case mode of
       Exact \<Rightarrow> literal_edges Z C payload reference LiteralExact limit
     | CaseInsensitive \<Rightarrow> literal_edges Z C payload reference AsciiInsensitive limit
     | Fuzzy threshold \<Rightarrow>
         ctl_bind (fuzzy_prepare F C payload reference threshold limit) (\<lambda>fc.
         ctl_bind (fuzzy_finish F C fc) (\<lambda>r. ctl_return (map_sum id PreparedSparse r))))"

subsection \<open>Admission\<close>

definition admit_controlled ::
  "'f fuzzy_ops \<Rightarrow> type_sizes \<Rightarrow> ('s, 'e) work_control \<Rightarrow> string list \<Rightarrow> string list \<Rightarrow> 'f match_mode \<Rightarrow> nat \<Rightarrow>
   ('s, 'e, correspondence_admission) controlled" where
  "admit_controlled F Z C payload reference mode limit =
     ctl_bind (candidate_edges F Z C payload reference mode limit) (\<lambda>r.
     case r of
       Inr (PreparedSparse cand) \<Rightarrow>
         ctl_bind (candidates_certify C cand) (\<lambda>pairs. ctl_return (AdmissionComplete pairs))
     | Inr (PreparedCertified pairs) \<Rightarrow> ctl_return (AdmissionComplete pairs)
     | Inl budget \<Rightarrow> ctl_return (AdmissionBudgetExhausted budget))"

definition admission_observe_controlled ::
  "'f fuzzy_ops \<Rightarrow> type_sizes \<Rightarrow> ('s, 'e) work_control \<Rightarrow> string list \<Rightarrow> string list \<Rightarrow> 'f match_mode \<Rightarrow>
   ('s, 'e, correspondence_admission) controlled" where
  "admission_observe_controlled F Z C payload reference mode = admit_controlled F Z C payload reference mode MAX_EDGES"

definition admission_observe ::
  "'f fuzzy_ops \<Rightarrow> type_sizes \<Rightarrow> string list \<Rightarrow> string list \<Rightarrow> 'f match_mode \<Rightarrow> correspondence_admission option" where
  "admission_observe F Z payload reference mode =
     uninterrupted (admission_observe_controlled F Z (Uninterrupted :: (unit, unit) work_control) payload reference mode) ()"

subsection \<open>Inspection\<close>

definition MAX_WORK :: nat where "MAX_WORK = 64000000"
definition MAX_SCORE_CELLS :: nat where "MAX_SCORE_CELLS = 1048576"

datatype inspection_limit = LimitWork | LimitScoreStorage

record inspection_budget =
  ib_kind :: inspection_limit
  ib_limit :: nat
  ib_used :: nat
  ib_required_at_least :: nat

datatype inspection_admission =
    InspectionComplete "align_result list"
  | InspectionBudgetExhausted inspection_budget

datatype 'e meter_stopped = Interrupted 'e | StoppedBudget inspection_budget

text \<open>
  \<^verbatim>\<open>Meter\<close>: the state is the inner control's state with the cells \<^verbatim>\<open>work\<close> and \<^verbatim>\<open>peak\<close>.
\<close>

type_synonym 's metered = "'s \<times> nat \<times> nat"

definition meter_check ::
  "('s, 'e) work_control \<Rightarrow> 's metered \<Rightarrow> ('e meter_stopped, unit) result \<times> 's metered" where
  "meter_check C st =
     (case st of (s, work, peak) \<Rightarrow>
        (case wc_check C s of
           (Inl e, s') \<Rightarrow> (Err (Interrupted e), (s', work, peak))
         | (Inr u, s') \<Rightarrow> (Ok (), (s', work, peak))))"

definition checked_add :: "nat \<Rightarrow> nat \<Rightarrow> nat option" where
  "checked_add a b = (if a + b \<le> usize_max then Some (a + b) else None)"

definition meter_work ::
  "('s, 'e) work_control \<Rightarrow> nat \<Rightarrow> nat \<Rightarrow> 's metered \<Rightarrow> ('e meter_stopped, unit) result \<times> 's metered" where
  "meter_work C work_limit units st =
     (case meter_check C st of
        (Inl e, st') \<Rightarrow> (Err e, st')
      | (Inr u, (s', work, peak)) \<Rightarrow>
          (let required = checked_add work units
           in if (case required of None \<Rightarrow> True | Some n \<Rightarrow> n > work_limit)
              then (Err (StoppedBudget \<lparr>ib_kind = LimitWork, ib_limit = work_limit, ib_used = work,
                      ib_required_at_least = (case required of Some n \<Rightarrow> n | None \<Rightarrow> usize_max)\<rparr>),
                    (s', work, peak))
              else (Ok (), (s', (case required of Some n \<Rightarrow> n | None \<Rightarrow> work), peak))))"

definition meter_storage ::
  "('s, 'e) work_control \<Rightarrow> nat \<Rightarrow> nat \<Rightarrow> 's metered \<Rightarrow> ('e meter_stopped, unit) result \<times> 's metered" where
  "meter_storage C storage_limit cells st =
     (case meter_check C st of
        (Inl e, st') \<Rightarrow> (Err e, st')
      | (Inr u, (s', work, peak)) \<Rightarrow>
          (if cells > storage_limit
           then (Err (StoppedBudget \<lparr>ib_kind = LimitScoreStorage, ib_limit = storage_limit, ib_used = peak,
                   ib_required_at_least = cells\<rparr>), (s', work, peak))
           else (Ok (), (s', work, max peak cells))))"

definition meter :: "('s, 'e) work_control \<Rightarrow> nat \<Rightarrow> nat \<Rightarrow> ('s metered, 'e meter_stopped) work_control" where
  "meter C work_limit storage_limit =
     \<lparr>wc_check = meter_check C, wc_alignment_work = meter_work C work_limit,
      wc_alignment_score_storage = meter_storage C storage_limit\<rparr>"

text \<open>\<^verbatim>\<open>PendingInspection::bind\<close> and \<^verbatim>\<open>finish\<close>\<close>

definition inspection_finish ::
  "'f fuzzy_ops \<Rightarrow> ('s, 'e) work_control \<Rightarrow> string list \<Rightarrow> string list \<Rightarrow> 'f match_mode \<Rightarrow>
   ('s, 'e, inspection_admission) controlled" where
  "inspection_finish F C payload reference mode s =
     (case align_controlled F (meter C MAX_WORK MAX_SCORE_CELLS) payload reference mode (s, 0, 0) of
        None \<Rightarrow> None
      | Some (Inr path, (s', _)) \<Rightarrow> Some (Ok (InspectionComplete path), s')
      | Some (Inl (StoppedBudget refusal), (s', _)) \<Rightarrow> Some (Ok (InspectionBudgetExhausted refusal), s')
      | Some (Inl (Interrupted e), (s', _)) \<Rightarrow> Some (Err e, s'))"

subsection \<open>Analysis\<close>

record correspondence_analysis =
  an_inspection :: inspection_admission
  an_admission :: correspondence_admission

definition analysis_observe_controlled ::
  "'f fuzzy_ops \<Rightarrow> type_sizes \<Rightarrow> ('s, 'e) work_control \<Rightarrow> string list \<Rightarrow> string list \<Rightarrow> 'f match_mode \<Rightarrow>
   ('s, 'e, correspondence_analysis) controlled" where
  "analysis_observe_controlled F Z C payload reference mode =
     ctl_bind (admission_observe_controlled F Z C payload reference mode) (\<lambda>admission.
     ctl_bind (inspection_finish F C payload reference mode) (\<lambda>inspection.
     ctl_return \<lparr>an_inspection = inspection, an_admission = admission\<rparr>))"

definition analysis_observe ::
  "'f fuzzy_ops \<Rightarrow> type_sizes \<Rightarrow> string list \<Rightarrow> string list \<Rightarrow> 'f match_mode \<Rightarrow> correspondence_analysis option" where
  "analysis_observe F Z payload reference mode =
     uninterrupted (analysis_observe_controlled F Z (Uninterrupted :: (unit, unit) work_control) payload reference mode) ()"

definition analysis_selected :: "correspondence_analysis \<Rightarrow> align_result list option" where
  "analysis_selected a =
     (case an_inspection a of InspectionComplete path \<Rightarrow> Some path | InspectionBudgetExhausted _ \<Rightarrow> None)"

subsection \<open>Candidate edges are the matching pairs\<close>

lemma answers_push_references:
  "length edges \<le> limit \<Longrightarrow> answers C (push_references C limit i js edges)
     (if length edges + length js \<le> limit then Ok (edges @ map (\<lambda>j. (i, j)) js) else Err (candidate_edges_budget limit))"
proof (induction js arbitrary: edges)
  case Nil
  then show ?case by (simp add: answers_return)
next
  case (Cons j js)
  show ?case
  proof (cases "length edges = limit")
    case True
    then show ?thesis by (auto intro!: answers_then answering)
  next
    case False
    with Cons.prems Cons.IH [of "edges @ [(i, j)]"] show ?thesis by (auto intro!: answers_then answering)
  qed
qed

lemma answers_push_rows:
  assumes "prepared_literal mode ps rs input"
  shows "n + k \<le> length ps \<Longrightarrow> length edges \<le> limit \<Longrightarrow> answers C (push_rows C input limit [n..<n + k] edges)
     (let es = visited (string_matches mode) ps rs [n..<n + k]
      in if length edges + length es \<le> limit then Ok (edges @ es) else Err (candidate_edges_budget limit))"
proof (induction k arbitrary: n edges)
  case 0
  then show ?case by (simp add: visited_def answers_return)
next
  case (Suc k)
  let ?row = "map (\<lambda>j. (n, j)) (matching_refs (string_matches mode) rs (ps ! n))"
  have "(case lc_references input n of Some js \<Rightarrow> js | None \<Rightarrow> []) = matching_refs (string_matches mode) rs (ps ! n)"
    using assms Suc.prems by (simp add: prepared_literal_def)
  then have row: "answers C (case lc_references input n of None \<Rightarrow> ctl_return (Ok edges)
      | Some references \<Rightarrow> push_references C limit n references edges)
    (if length edges + length ?row \<le> limit then Ok (edges @ ?row) else Err (candidate_edges_budget limit))"
    using answers_push_references [OF Suc.prems(2), of C n "matching_refs (string_matches mode) rs (ps ! n)"] Suc.prems(2)
    by (cases "lc_references input n") (auto simp: answers_return)
  have upt: "[n..<n + Suc k] = n # [Suc n..<Suc n + k]" by (simp add: upt_rec)
  show ?case unfolding upt push_rows.simps Let_def visited_Cons
  proof (intro answers_then answering answers_bind [OF row])
    let ?es = "visited (string_matches mode) ps rs [Suc n..<Suc n + k]"
    show "answers C (case if length edges + length ?row \<le> limit then Ok (edges @ ?row) else Err (candidate_edges_budget limit) of
          Inl b \<Rightarrow> ctl_return (Err b) | Inr edges' \<Rightarrow> push_rows C input limit [Suc n..<Suc n + k] edges')
      (if length edges + length (?row @ ?es) \<le> limit then Ok (edges @ ?row @ ?es) else Err (candidate_edges_budget limit))"
    proof (cases "length edges + length ?row \<le> limit")
      case True
      with Suc.IH [of "Suc n" "edges @ ?row"] Suc.prems show ?thesis by (simp add: Let_def add.assoc del: upt_Suc cong: if_cong split del: if_split)
    next
      case False
      then show ?thesis by (simp add: answers_return)
    qed
  qed
qed

lemma visited_all_edges: "visited m ps rs [0..<length ps] = all_edges m ps rs"
  by (simp add: visited_def all_edges_def edges_of_def)

lemma answers_bind_assoc:
  assumes "answers C (ctl_bind c f) v" and "answers C (g v) w"
  shows "answers C (ctl_bind c (\<lambda>x. ctl_bind (f x) g)) w"
proof -
  have "ctl_bind c (\<lambda>x. ctl_bind (f x) g) = ctl_bind (ctl_bind c f) g"
    by (rule ext) (simp add: ctl_bind_def split: option.split prod.split sum.split)
  then show ?thesis using answers_bind [OF assms(1), of g w] assms(2) by simp
qed

lemma card_match_edges: "card (match_edges m ps rs) = length (all_edges m ps rs)"
proof -
  have "distinct (all_edges m ps rs)" by (simp add: all_edges_def distinct_edges_of)
  then show ?thesis using distinct_card set_all_edges by metis
qed

lemma answers_literal_edges:
  fixes mode ps rs
  defines "E \<equiv> match_edges (string_matches mode) ps rs"
  shows "\<exists>r. answers C (literal_edges Z C ps rs mode limit) r \<and>
    (case r of
       Inl b \<Rightarrow> b = candidate_edges_budget limit \<and> limit < card E
     | Inr (PreparedCertified pairs) \<Rightarrow> certifies E pairs
     | Inr (PreparedSparse cand) \<Rightarrow> cand = \<lparr>cand_reference = rs, cand_edges = all_edges (string_matches mode) ps rs\<rparr>)"
proof -
  let ?es = "all_edges (string_matches mode) ps rs"
  obtain input where input: "prepared_literal mode ps rs input" "answers C (literal_candidates_observe C ps rs mode) input"
    using answers_literal_candidates_observe by blast
  obtain a where a: "answers C (if lc_raw_edges input > limit then literal_candidates_certify Z C input limit else ctl_return None) a"
    "case a of None \<Rightarrow> True
     | Some (AdmissionComplete pairs) \<Rightarrow> certifies E pairs
     | Some (AdmissionBudgetExhausted b) \<Rightarrow> b = candidate_edges_budget limit \<and> limit < card {e \<in> E. on_optimum E e}"
  proof (cases "lc_raw_edges input > limit")
    case True
    with answers_literal_candidates_certify [OF input(1), of Z limit] show ?thesis
      using that unfolding E_def by (fastforce split: option.splits correspondence_admission.splits)
  next
    case False
    then show ?thesis using that [of None] by (simp add: answers_return)
  qed
  have fewer: "card {e \<in> E. on_optimum E e} \<le> card E"
    using finite_match_edges unfolding E_def by (intro card_mono) auto
  have "length ([] :: edge list) \<le> limit" by simp
  note rows = answers_push_rows [OF input(1) _ this, of 0 "length ps" C, simplified add_0 visited_all_edges Let_def]
  show ?thesis
  proof (cases a)
    case None
    let ?r = "if length ?es \<le> limit then Ok (PreparedSparse \<lparr>cand_reference = rs, cand_edges = ?es\<rparr>)
      else Err (candidate_edges_budget limit)"
    have "answers C (ctl_bind (push_rows C input limit [0..<length ps] []) (\<lambda>r.
        ctl_return (map_sum id (\<lambda>edges. PreparedSparse \<lparr>cand_reference = rs, cand_edges = edges\<rparr>) r))) ?r"
      by (rule answers_bind [OF rows]) (auto simp: answers_return)
    then have "answers C (literal_edges Z C ps rs mode limit) ?r"
      unfolding literal_edges_def using None by (intro answers_bind [OF input(2)] answers_bind [OF a(1)]) simp
    then show ?thesis by (intro exI [of _ ?r]) (simp add: E_def card_match_edges)
  next
    case (Some adm)
    let ?r = "case adm of AdmissionComplete pairs \<Rightarrow> Ok (PreparedCertified pairs) | AdmissionBudgetExhausted b \<Rightarrow> Err b"
    have "answers C (literal_edges Z C ps rs mode limit) ?r"
      unfolding literal_edges_def using Some
      by (intro answers_bind [OF input(2)] answers_bind [OF a(1)]) (simp add: answers_return split: correspondence_admission.split)
    then show ?thesis using a(2) fewer Some
      by (intro exI [of _ ?r]) (auto split: correspondence_admission.splits)
  qed
qed

lemma certifies_filter:
  assumes "sorted (map fst es)" and "distinct es"
  shows "certifies (set es) (filter (\<lambda>e. e \<in> common (set es)) es)"
proof -
  let ?E = "set es" and ?cs = "filter (\<lambda>e. e \<in> common (set es)) es"
  have "sorted_wrt (\<lambda>x y. fst x \<le> fst y \<and> x \<noteq> y) es"
    using assms by (simp add: sorted_wrt_iff_nth_less sorted_map nth_eq_iff_index_eq sorted_iff_nth_mono_less)
  then have "sorted_wrt (\<lambda>x y. fst x \<le> fst y \<and> x \<noteq> y) ?cs" by (rule sorted_wrt_filter)
  moreover have "before x y" if "x \<in> set ?cs" "y \<in> set ?cs" "fst x \<le> fst y \<and> x \<noteq> y" for x y
  proof -
    have c: "x \<in> common ?E" "y \<in> common ?E" using that by simp_all
    then have ne: "?E \<noteq> {}" using that by auto
    have "fwd ?E x \<noteq> fwd ?E y" using c common_iff_sole [OF finite_set ne] that(3) by metis
    then consider "before x y" | "before y x" using common_before [OF finite_set] c by (meson linorder_neqE_nat)
    then show ?thesis using that(3) by cases (auto simp: before_def)
  qed
  ultimately have "sorted_wrt before ?cs" by (rule sorted_wrt_mono_rel [rotated]) blast
  then show ?thesis using common_subset [of ?E] by (auto simp: certifies_def)
qed

lemma answers_certify_all:
  "answers C (candidates_certify C \<lparr>cand_reference = rs, cand_edges = all_edges m ps rs\<rparr>)
     (filter (\<lambda>e. e \<in> common (match_edges m ps rs)) (all_edges m ps rs))"
  "certifies (match_edges m ps rs) (filter (\<lambda>e. e \<in> common (match_edges m ps rs)) (all_edges m ps rs))"
  using answers_candidates_certify [of "all_edges m ps rs" "length ps" rs C] certifies_filter [of "all_edges m ps rs"]
  by (simp_all add: all_edges_def sorted_edges_of distinct_edges_of set_all_edges [unfolded all_edges_def] within_match_edges)

lemma answers_candidate_edges:
  "\<exists>r. answers C (candidate_edges F Z C ps rs mode limit) r \<and>
    (case r of
       Inl b \<Rightarrow> b = candidate_edges_budget limit \<and> limit < card (match_edges (mode_matches F mode) ps rs)
     | Inr (PreparedCertified pairs) \<Rightarrow> certifies (match_edges (mode_matches F mode) ps rs) pairs
     | Inr (PreparedSparse cand) \<Rightarrow> cand = \<lparr>cand_reference = rs, cand_edges = all_edges (mode_matches F mode) ps rs\<rparr>)"
proof -
  have modes: "mode_matches F Exact = string_matches LiteralExact" "mode_matches F CaseInsensitive = string_matches AsciiInsensitive"
    by (simp_all add: fun_eq_iff mode_matches_def string_matches_def)
  show ?thesis
  proof (cases mode)
    case Exact
    show ?thesis using answers_literal_edges [of C Z ps rs LiteralExact limit]
      unfolding candidate_edges_def Exact match_mode.case modes by (blast intro: answers_then answers_check)
  next
    case CaseInsensitive
    show ?thesis using answers_literal_edges [of C Z ps rs AsciiInsensitive limit]
      unfolding candidate_edges_def CaseInsensitive match_mode.case modes by (blast intro: answers_then answers_check)
  next
    case (Fuzzy t)
    let ?es = "all_edges (mode_matches F (Fuzzy t)) ps rs"
    let ?r = "if length ?es \<le> limit then Ok \<lparr>cand_reference = rs, cand_edges = ?es\<rparr> else Err (candidate_edges_budget limit)"
    have "answers C (candidate_edges F Z C ps rs mode limit) (map_sum id PreparedSparse ?r)"
      unfolding candidate_edges_def Fuzzy match_mode.case
      by (intro answers_then answering answers_bind_assoc [OF answers_fuzzy_candidates [OF refl]])
    then show ?thesis using Fuzzy by (intro exI [of _ "map_sum id PreparedSparse ?r"]) (simp add: card_match_edges)
  qed
qed

text \<open>The admission as a whole: certified pairs, or a refusal that is true.\<close>

lemma answers_admit_controlled:
  "\<exists>a. answers C (admit_controlled F Z C ps rs mode limit) a \<and>
    (case a of
       AdmissionComplete pairs \<Rightarrow> certifies (match_edges (mode_matches F mode) ps rs) pairs
     | AdmissionBudgetExhausted b \<Rightarrow> b = candidate_edges_budget limit \<and> limit < card (match_edges (mode_matches F mode) ps rs))"
proof -
  let ?E = "match_edges (mode_matches F mode) ps rs"
  obtain r where r: "answers C (candidate_edges F Z C ps rs mode limit) r"
    "case r of Inl b \<Rightarrow> b = candidate_edges_budget limit \<and> limit < card ?E
     | Inr (PreparedCertified pairs) \<Rightarrow> certifies ?E pairs
     | Inr (PreparedSparse cand) \<Rightarrow> cand = \<lparr>cand_reference = rs, cand_edges = all_edges (mode_matches F mode) ps rs\<rparr>"
    using answers_candidate_edges by blast
  have admit: "answers C (admit_controlled F Z C ps rs mode limit) a"
    if "answers C (case r of
         Inr (PreparedSparse cand) \<Rightarrow> ctl_bind (candidates_certify C cand) (\<lambda>pairs. ctl_return (AdmissionComplete pairs))
       | Inr (PreparedCertified pairs) \<Rightarrow> ctl_return (AdmissionComplete pairs)
       | Inl budget \<Rightarrow> ctl_return (AdmissionBudgetExhausted budget)) a" for a
    unfolding admit_controlled_def by (rule answers_bind [OF r(1)]) (rule that)
  consider b where "r = Inl b" | cand where "r = Inr (PreparedSparse cand)" | pairs where "r = Inr (PreparedCertified pairs)"
    by (metis prepared_correspondences.exhaust sumE)
  then show ?thesis
  proof cases
    case 1
    then show ?thesis using admit [of "AdmissionBudgetExhausted b"] r(2) by (auto simp: answers_return)
  next
    case 2
    let ?pairs = "filter (\<lambda>e. e \<in> common ?E) (all_edges (mode_matches F mode) ps rs)"
    have "answers C (ctl_bind (candidates_certify C cand) (\<lambda>pairs. ctl_return (AdmissionComplete pairs))) (AdmissionComplete ?pairs)"
    proof -
      have "cand = \<lparr>cand_reference = rs, cand_edges = all_edges (mode_matches F mode) ps rs\<rparr>" using r(2) 2 by simp
      then show ?thesis using answers_bind [OF answers_certify_all(1), of C "\<lambda>pairs. ctl_return (AdmissionComplete pairs)"]
        by (simp add: answers_return)
    qed
    then show ?thesis using admit [of "AdmissionComplete ?pairs"] answers_certify_all(2) 2 by auto
  next
    case 3
    then show ?thesis using admit [of "AdmissionComplete pairs"] r(2) by (auto simp: answers_return)
  qed
qed

subsection \<open>The meter\<close>

lemma raised_meter:
  assumes "raised (meter C work_limit storage_limit) e"
  shows "case e of Interrupted e' \<Rightarrow> raised C e'
    | StoppedBudget b \<Rightarrow> ib_limit b = (case ib_kind b of LimitWork \<Rightarrow> work_limit | LimitScoreStorage \<Rightarrow> storage_limit) \<and>
        (ib_limit b < ib_required_at_least b \<or> ib_required_at_least b = usize_max)"
proof -
  have check: "raised C e'" if "meter_check C st = (Err (Interrupted e'), st')" for st st' e'
    using that by (auto simp: meter_check_def raised_def split: prod.splits sum.splits)
  have no_budget: "meter_check C st \<noteq> (Err (StoppedBudget b), st')" for st st' b
    by (auto simp: meter_check_def split: prod.splits sum.splits)
  obtain st st' n where "meter_check C st = (Err e, st') \<or> meter_work C work_limit n st = (Err e, st') \<or>
      meter_storage C storage_limit n st = (Err e, st')"
    using assms unfolding raised_def meter_def work_control.simps by blast
  then consider "meter_check C st = (Err e, st')"
    | b where "e = StoppedBudget b" "ib_kind b = LimitWork" "ib_limit b = work_limit"
        "work_limit < ib_required_at_least b \<or> ib_required_at_least b = usize_max"
    | b where "e = StoppedBudget b" "ib_kind b = LimitScoreStorage" "ib_limit b = storage_limit"
        "storage_limit < ib_required_at_least b"
    by (auto simp: meter_work_def meter_storage_def Let_def split: prod.splits sum.splits option.splits if_splits)
  then show ?thesis
  proof cases
    case 1
    then show ?thesis using check no_budget by (cases e) auto
  qed simp_all
qed

lemma inspection_cases:
  assumes "length payload + length reference < usize_max"
  shows "\<exists>r s'. inspection_finish F C payload reference mode s = Some (r, s') \<and>
    (case r of
       Inl e \<Rightarrow> raised C e
     | Inr (InspectionComplete path) \<Rightarrow> align F payload reference mode = Some path
     | Inr (InspectionBudgetExhausted b) \<Rightarrow>
         ib_limit b = (case ib_kind b of LimitWork \<Rightarrow> MAX_WORK | LimitScoreStorage \<Rightarrow> MAX_SCORE_CELLS) \<and>
         ib_limit b < ib_required_at_least b)"
proof -
  let ?M = "meter C MAX_WORK MAX_SCORE_CELLS"
  obtain out where out: "answers ?M (align_controlled F ?M payload reference mode) out"
    "answers (Uninterrupted :: (unit, unit) work_control) (align_controlled F Uninterrupted payload reference mode) out"
    using answers_align_controlled [OF assms, of ?M F mode "Uninterrupted :: (unit, unit) work_control"] by blast
  obtain r st where r: "align_controlled F ?M payload reference mode (s, 0, 0) = Some (r, st)"
    "r = Ok out \<or> (\<exists>e. r = Err e \<and> raised ?M e)" using out(1) unfolding answers_def by blast
  obtain s' w pk where st: "st = (s', w, pk)" by (rule prod_cases3)
  have small: "MAX_WORK < usize_max" "MAX_SCORE_CELLS < usize_max" by (simp_all add: MAX_WORK_def MAX_SCORE_CELLS_def usize_max_def)
  have al: "align F payload reference mode = Some out" using answers_uninterrupted [OF out(2)] by (simp add: align_def)
  consider "r = Ok out" | e where "r = Err (Interrupted e)" "raised C e"
    | b where "r = Err (StoppedBudget b)" "ib_limit b = (case ib_kind b of LimitWork \<Rightarrow> MAX_WORK | LimitScoreStorage \<Rightarrow> MAX_SCORE_CELLS)"
        "ib_limit b < ib_required_at_least b"
  proof -
    note m = raised_meter [of C MAX_WORK MAX_SCORE_CELLS]
    consider "r = Ok out" | e where "r = Err (Interrupted e)" "raised ?M (Interrupted e)"
      | b where "r = Err (StoppedBudget b)" "raised ?M (StoppedBudget b)" using r(2) meter_stopped.exhaust by metis
    then show thesis
    proof cases
      case 2
      then show ?thesis using that(2) m [of "Interrupted e"] by simp
    next
      case 3
      then show ?thesis using that(3) m [of "StoppedBudget b"] small by (auto split: inspection_limit.splits)
    qed (rule that(1))
  qed
  then show ?thesis using r(1) st al by cases (auto simp: inspection_finish_def)
qed

subsection \<open>Properties\<close>

text \<open>
  C6. Admission of common correspondences is exact. Under every control it returns; unless the
  control interrupts it, the admitted pairs, strictly increasing on both sides, are precisely those
  matched by every alignment that leaves as few words alone as possible, whichever producer (sparse,
  packed or fuzzy) made them; and a refusal names the allowance and happens only when more word pairs
  match than it allows.
\<close>

theorem admitted_pairs_common:
  "\<exists>r s'. admission_observe_controlled F Z C payload reference mode s = Some (r, s') \<and>
     (case r of
        Inl e \<Rightarrow> raised C e
      | Inr (AdmissionComplete pairs) \<Rightarrow>
          sorted_wrt before pairs \<and>
          set pairs = {e. \<forall>out. least_gaps (mode_matches F mode) string_to_key payload reference out \<longrightarrow>
                             e \<in> set (matched_pairs out)}
      | Inr (AdmissionBudgetExhausted b) \<Rightarrow>
          edge_limit b = MAX_EDGES \<and> MAX_EDGES < card (match_edges (mode_matches F mode) payload reference))"
proof -
  obtain a where a: "answers C (admission_observe_controlled F Z C payload reference mode) a"
    "case a of
       AdmissionComplete pairs \<Rightarrow> certifies (match_edges (mode_matches F mode) payload reference) pairs
     | AdmissionBudgetExhausted b \<Rightarrow> b = candidate_edges_budget MAX_EDGES \<and>
         MAX_EDGES < card (match_edges (mode_matches F mode) payload reference)"
    unfolding admission_observe_controlled_def using answers_admit_controlled by blast
  obtain r s' where r: "admission_observe_controlled F Z C payload reference mode s = Some (r, s')"
    "r = Ok a \<or> (\<exists>e. r = Err e \<and> raised C e)" using a(1) unfolding answers_def by blast
  have "case a of
      AdmissionComplete pairs \<Rightarrow> sorted_wrt before pairs \<and>
          set pairs = {e. \<forall>out. least_gaps (mode_matches F mode) string_to_key payload reference out \<longrightarrow>
                             e \<in> set (matched_pairs out)}
    | AdmissionBudgetExhausted b \<Rightarrow>
          edge_limit b = MAX_EDGES \<and> MAX_EDGES < card (match_edges (mode_matches F mode) payload reference)"
    using a(2) common_alignments [of "mode_matches F mode" payload reference string_to_key]
    by (auto simp: certifies_def candidate_edges_budget_def split: correspondence_admission.splits)
  with r show ?thesis by auto
qed

text \<open>Sizes a compiler may choose for the types of the storage estimate.\<close>

definition usual_sizes :: type_sizes where
  "usual_sizes = \<lparr>rank_population_bytes = 24, prefix_block_bytes = 16, edge_bytes = 16, match_rank_bytes = 8\<rparr>"

theorem admitted_pairs_common_witness:
  "\<exists>pairs s'. admission_observe_controlled equal_words usual_sizes (Uninterrupted :: (unit, unit) work_control)
      [''the'', ''cat''] [''cat''] Exact () = Some (Ok (AdmissionComplete pairs), s') \<and> sorted_wrt before pairs"
proof -
  have "match_edges (mode_matches equal_words Exact) [''the'', ''cat''] [''cat''] \<subseteq> {..<2} \<times> {..<1}"
    by (auto simp: match_edges_def)
  from card_mono [OF _ this] have few: "\<not> MAX_EDGES < card (match_edges (mode_matches equal_words Exact) [''the'', ''cat''] [''cat''])"
    by (simp add: MAX_EDGES_def)
  let ?run = "admission_observe_controlled equal_words usual_sizes (Uninterrupted :: (unit, unit) work_control)
      [''the'', ''cat''] [''cat''] Exact ()"
  note exact = admitted_pairs_common [of equal_words usual_sizes "Uninterrupted :: (unit, unit) work_control"
      "[''the'', ''cat'']" "[''cat'']" Exact "()"]
  then obtain r s' where run: "?run = Some (r, s')" by blast
  show ?thesis
  proof (cases r)
    case (Inl e)
    with run exact show ?thesis by (auto simp: Uninterrupted_never_raises)
  next
    case (Inr adm)
    with run exact few show ?thesis by (cases adm) auto
  qed
qed

text \<open>
  C11. The metered inspection cannot lie. It returns; the path it completes is the result of \<^verbatim>\<open>align\<close>
  itself; a refusal carries the fixed limit of its kind and a requirement above that limit; and
  an interruption is an error the caller's own control raised.
\<close>

theorem inspection_honest:
  assumes "length payload + length reference < usize_max"
  shows "\<exists>r s'. inspection_finish F C payload reference mode s = Some (r, s') \<and>
    (case r of
       Inl e \<Rightarrow> raised C e
     | Inr (InspectionComplete path) \<Rightarrow> align F payload reference mode = Some path
     | Inr (InspectionBudgetExhausted b) \<Rightarrow>
         ib_limit b = (case ib_kind b of LimitWork \<Rightarrow> MAX_WORK | LimitScoreStorage \<Rightarrow> MAX_SCORE_CELLS) \<and>
         ib_limit b < ib_required_at_least b)"
  using assms by (rule inspection_cases)

theorem inspection_honest_witness:
  "\<exists>r s'. inspection_finish equal_words some_checks [''a''] [''b''] Exact 2 = Some (r, s') \<and>
    (case r of
       Inl e \<Rightarrow> raised some_checks e
     | Inr (InspectionComplete path) \<Rightarrow> align equal_words [''a''] [''b''] Exact = Some path
     | Inr (InspectionBudgetExhausted b) \<Rightarrow>
         ib_limit b = (case ib_kind b of LimitWork \<Rightarrow> MAX_WORK | LimitScoreStorage \<Rightarrow> MAX_SCORE_CELLS) \<and>
         ib_limit b < ib_required_at_least b)"
  by (rule inspection_honest) (simp add: usize_max_def)

text \<open>
  C7. Proof and inspection agree. \<^verbatim>\<open>CorrespondenceAnalysis\<close> returns, and when both of its halves
  complete, the selected path is the result of \<^verbatim>\<open>align\<close> and every admitted pair is matched on it:
  common correspondences are never at odds with the alignment shown beside them.
\<close>

theorem admitted_pairs_on_path:
  assumes "length payload + length reference < usize_max"
    and "case mode of Fuzzy _ \<Rightarrow> fuzzy_symmetric F | _ \<Rightarrow> True"
  shows "\<exists>r s'. analysis_observe_controlled F Z C payload reference mode s = Some (r, s') \<and>
    (case r of
       Inl e \<Rightarrow> raised C e
     | Inr a \<Rightarrow>
         (case (an_admission a, analysis_selected a) of
            (AdmissionComplete pairs, Some path) \<Rightarrow>
              align F payload reference mode = Some path \<and> set pairs \<subseteq> set (matched_pairs path)
          | _ \<Rightarrow> True))"
proof -
  let ?m = "mode_matches F mode"
  obtain a where a: "answers C (admission_observe_controlled F Z C payload reference mode) a"
    "case a of AdmissionComplete pairs \<Rightarrow> certifies (match_edges ?m payload reference) pairs | _ \<Rightarrow> True"
    unfolding admission_observe_controlled_def
    using answers_admit_controlled [of C F Z payload reference mode MAX_EDGES] by (fastforce split: correspondence_admission.splits)
  obtain r s1 where r: "admission_observe_controlled F Z C payload reference mode s = Some (r, s1)"
    "r = Ok a \<or> (\<exists>e. r = Err e \<and> raised C e)" using a(1) unfolding answers_def by blast
  obtain i s2 where i: "inspection_finish F C payload reference mode s1 = Some (i, s2)"
    "case i of Inl e \<Rightarrow> raised C e
     | Inr (InspectionComplete path) \<Rightarrow> align F payload reference mode = Some path
     | Inr (InspectionBudgetExhausted b) \<Rightarrow> True"
    using inspection_cases [OF assms(1), of F C mode s1] by (fastforce split: sum.splits inspection_admission.splits)
  obtain out where out: "answers C (align_controlled F C payload reference mode) out"
    "answers (Uninterrupted :: (unit, unit) work_control) (align_controlled F Uninterrupted payload reference mode) out"
    "least_gaps ?m string_to_key payload reference out"
    using answers_align_controlled [OF assms(1), of C F mode "Uninterrupted :: (unit, unit) work_control"] assms(2)
    unfolding least_gaps_def by blast
  have al: "align F payload reference mode = Some out" using answers_uninterrupted [OF out(2)] by (simp add: align_def)
  have common: "common (match_edges ?m payload reference) \<subseteq> set (matched_pairs out)"
    using least_gaps_longest [OF out(3)] by (auto simp: common_def)
  show ?thesis using r i a(2) al common
    by (auto simp: analysis_observe_controlled_def ctl_bind_def ctl_return_def analysis_selected_def certifies_def
        split: sum.splits inspection_admission.splits correspondence_admission.splits)
qed

theorem admitted_pairs_on_path_witness:
  "\<exists>r s'. analysis_observe_controlled equal_words usual_sizes some_checks [''the'', ''cat''] [''cat''] (Fuzzy 1) 50 = Some (r, s') \<and>
    (case r of
       Inl e \<Rightarrow> raised some_checks e
     | Inr a \<Rightarrow>
         (case (an_admission a, analysis_selected a) of
            (AdmissionComplete pairs, Some path) \<Rightarrow>
              align equal_words [''the'', ''cat''] [''cat''] (Fuzzy 1) = Some path \<and> set pairs \<subseteq> set (matched_pairs path)
          | _ \<Rightarrow> True))"
proof -
  have "fuzzy_symmetric equal_words" by (auto simp: fuzzy_symmetric_def equal_words_def)
  then show ?thesis by (intro admitted_pairs_on_path) (simp_all add: usize_max_def)
qed

lemma admit_complete_certifies:
  assumes "admit_controlled F Z C payload reference mode limit s = Some (Ok (AdmissionComplete pairs), s1)"
  shows "certifies (match_edges (mode_matches F mode) payload reference) pairs"
proof -
  obtain a where a: "answers C (admit_controlled F Z C payload reference mode limit) a"
    "case a of AdmissionComplete pairs \<Rightarrow> certifies (match_edges (mode_matches F mode) payload reference) pairs | _ \<Rightarrow> True"
    using answers_admit_controlled [of C F Z payload reference mode limit] by (fastforce split: correspondence_admission.splits)
  from answers_ok [OF a(1), of s "AdmissionComplete pairs" s1] assms a(2) show ?thesis by auto
qed

text \<open>
  The route does not matter. Two admissions of the same words that both complete, under whatever
  controls, allowances and type sizes (so by the sparse ranks or by the packed rows), certify the
  same pairs in the same order.
\<close>

theorem admissions_agree:
  assumes "admit_controlled F Z C payload reference mode limit s = Some (Ok (AdmissionComplete pairs), s1)"
    and "admit_controlled F Z' C' payload reference mode limit' t = Some (Ok (AdmissionComplete pairs'), t1)"
  shows "pairs' = pairs"
  by (rule certifies_unique [OF admit_complete_certifies [OF assms(2)] admit_complete_certifies [OF assms(1)]])

lemma admit_uninterrupted:
  assumes "card (match_edges (mode_matches F mode) ps rs) \<le> limit"
  shows "\<exists>pairs. admit_controlled F Z (Uninterrupted :: (unit, unit) work_control) ps rs mode limit () =
    Some (Ok (AdmissionComplete pairs), ())"
proof -
  obtain a where a: "answers (Uninterrupted :: (unit, unit) work_control) (admit_controlled F Z Uninterrupted ps rs mode limit) a"
    "case a of
       AdmissionComplete pairs \<Rightarrow> certifies (match_edges (mode_matches F mode) ps rs) pairs
     | AdmissionBudgetExhausted b \<Rightarrow> b = candidate_edges_budget limit \<and> limit < card (match_edges (mode_matches F mode) ps rs)"
    using answers_admit_controlled by blast
  then obtain pairs where "a = AdmissionComplete pairs" using assms by (auto split: correspondence_admission.splits)
  moreover obtain r s' where "admit_controlled F Z (Uninterrupted :: (unit, unit) work_control) ps rs mode limit () = Some (r, s')"
    "r = Ok a \<or> (\<exists>e. r = Err e \<and> raised (Uninterrupted :: (unit, unit) work_control) e)"
    using a(1) unfolding answers_def by blast
  ultimately show ?thesis by (auto simp: Uninterrupted_never_raises)
qed

theorem admissions_agree_witness:
  "\<exists>pairs. admit_controlled equal_words usual_sizes (Uninterrupted :: (unit, unit) work_control) [''a''] [''a''] Exact 5 () =
      Some (Ok (AdmissionComplete pairs), ()) \<and>
    admit_controlled equal_words usual_sizes (Uninterrupted :: (unit, unit) work_control) [''a''] [''a''] Exact 1 () =
      Some (Ok (AdmissionComplete pairs), ())"
proof -
  have "match_edges (mode_matches equal_words Exact) [''a''] [''a''] \<subseteq> {(0, 0)}" by (auto simp: match_edges_def)
  from card_mono [OF _ this] have few: "card (match_edges (mode_matches equal_words Exact) [''a''] [''a'']) \<le> 1" by simp
  obtain xs ys where
    xs: "admit_controlled equal_words usual_sizes (Uninterrupted :: (unit, unit) work_control) [''a''] [''a''] Exact 5 () =
      Some (Ok (AdmissionComplete xs), ())" and
    ys: "admit_controlled equal_words usual_sizes (Uninterrupted :: (unit, unit) work_control) [''a''] [''a''] Exact 1 () =
      Some (Ok (AdmissionComplete ys), ())"
    using admit_uninterrupted [OF few] admit_uninterrupted [OF order_trans [OF few]] by (metis one_le_numeral)
  from admissions_agree [OF xs ys] xs ys show ?thesis by simp
qed

end
