(* ===== verification/Interleaving.thy ===== *)
theory Interleaving
  imports Dp_Align
begin

text \<open>
  Joint lexical correspondence of two speakers with one reference
  (\<^verbatim>\<open>crates/batchalign-transform/src/dp_align/interleaving.rs\<close>): the admitted shape and its flat
  index, the prepared match relation, the forward and backward score tables over the product of the
  three word sequences, the evidence read off both tables, the traceback and the accessors of the
  result. The lengths are natural numbers; the checked \<^verbatim>\<open>usize\<close> operations of the admission are
  written out, and behind it every index is below the number of cells. The specification is that of
  sets of matches: a set that uses a reference word once and keeps the order of each speaker is an
  assignment. The theorems show that the tables hold the sizes of the largest assignments, that the
  traceback ends with a largest one, and that candidates, missing words and common matches are
  exactly what all the largest assignments together say.
\<close>

subsection \<open>Data\<close>

datatype speaker_chain = FirstChain | SecondChain

fun chain_index :: "speaker_chain \<Rightarrow> nat" where
  "chain_index FirstChain = 0"
| "chain_index SecondChain = 1"

datatype interleaving_refusal = CellBudgetExceeded

record match_address =
  ma_chain :: speaker_chain
  ma_word :: nat
  ma_reference :: nat

record word_evidence =
  we_candidates :: "nat list"
  we_can_be_missing :: bool

record two_speaker_alignment =
  tsa_sources :: "string list list"
  tsa_reference :: "string list"
  tsa_optimum :: nat
  tsa_selected :: "match_address list"
  tsa_words :: "word_evidence list list"

record interleaving_match =
  im_address :: match_address
  im_source :: string
  im_reference :: string

definition MAX_CELLS :: nat where "MAX_CELLS = 1048576"

subsection \<open>The admitted shape\<close>

definition usize_checked_add :: "nat \<Rightarrow> nat \<Rightarrow> nat option" where
  "usize_checked_add a b = (if a + b \<le> usize_max then Some (a + b) else None)"

definition usize_checked_mul :: "nat \<Rightarrow> nat \<Rightarrow> nat option" where
  "usize_checked_mul a b = (if a * b \<le> usize_max then Some (a * b) else None)"

record admitted_shape =
  sh_second :: nat
  sh_reference :: nat
  sh_cells :: nat

definition admitted_shape_new :: "nat \<Rightarrow> nat \<Rightarrow> nat \<Rightarrow> nat \<Rightarrow> admitted_shape option" where
  "admitted_shape_new first second reference budget =
     Option.bind (usize_checked_add second 1) (\<lambda>second.
     Option.bind (usize_checked_add reference 1) (\<lambda>reference.
     Option.bind (usize_checked_add first 1) (\<lambda>first.
     Option.bind (usize_checked_mul first second) (\<lambda>cells.
     Option.bind (usize_checked_mul cells reference) (\<lambda>cells.
     if cells \<le> budget
     then Some \<lparr>sh_second = second, sh_reference = reference, sh_cells = cells\<rparr>
     else None)))))"

definition shape_at :: "admitted_shape \<Rightarrow> nat \<Rightarrow> nat \<Rightarrow> nat \<Rightarrow> nat" where
  "shape_at shape first second reference =
     (first * sh_second shape + second) * sh_reference shape + reference"

subsection \<open>The match relation\<close>

record match_relation =
  mr_reference_len :: nat
  mr_matches :: "bool list list"

definition match_relation_new ::
  "'f fuzzy_ops \<Rightarrow> string list list \<Rightarrow> string list \<Rightarrow> 'f match_mode \<Rightarrow> match_relation" where
  "match_relation_new F sources reference mode =
     \<lparr>mr_reference_len = length reference,
      mr_matches =
        (case mode of
           Fuzzy threshold \<Rightarrow>
             (let prepared = map (prepared_fuzzy_word_new F) reference
              in map (\<lambda>source. concat (map (\<lambda>word.
                   let word = prepared_fuzzy_word_new F word
                   in map (\<lambda>other. fuzzy_matches F threshold word other) prepared) source)) sources)
         | _ \<Rightarrow>
             map (\<lambda>source. concat (map (\<lambda>word. map (\<lambda>other.
               case mode of Exact \<Rightarrow> word = other | _ \<Rightarrow> eq_ignore_ascii_case word other)
               reference) source)) sources)\<rparr>"

definition relation_matches :: "match_relation \<Rightarrow> speaker_chain \<Rightarrow> nat \<Rightarrow> nat \<Rightarrow> bool" where
  "relation_matches R chain word reference =
     mr_matches R ! chain_index chain ! (word * mr_reference_len R + reference)"

subsection \<open>The two score tables\<close>

definition forward_cell ::
  "match_relation \<Rightarrow> admitted_shape \<Rightarrow> nat \<Rightarrow> nat \<Rightarrow> nat \<Rightarrow> nat list \<Rightarrow> nat" where
  "forward_cell R shape i j k forward =
     (let score = 0;
          score = (if i > 0 then max score (forward ! shape_at shape (i - 1) j k) else score);
          score = (if j > 0 then max score (forward ! shape_at shape i (j - 1) k) else score)
      in if k > 0 then
           (let score = max score (forward ! shape_at shape i j (k - 1));
                score = (if i > 0 \<and> relation_matches R FirstChain (i - 1) (k - 1)
                         then max score (forward ! shape_at shape (i - 1) j (k - 1) + 1) else score);
                score = (if j > 0 \<and> relation_matches R SecondChain (j - 1) (k - 1)
                         then max score (forward ! shape_at shape i (j - 1) (k - 1) + 1) else score)
            in score)
         else score)"

definition forward_table ::
  "match_relation \<Rightarrow> admitted_shape \<Rightarrow> nat \<Rightarrow> nat \<Rightarrow> nat \<Rightarrow> nat list" where
  "forward_table R shape first second reference =
     fold (\<lambda>i. fold (\<lambda>j. fold (\<lambda>k forward.
         forward[shape_at shape i j k := forward_cell R shape i j k forward])
       [0..<reference + 1]) [0..<second + 1]) [0..<first + 1]
       (replicate (sh_cells shape) 0)"

definition backward_cell ::
  "match_relation \<Rightarrow> admitted_shape \<Rightarrow> nat \<Rightarrow> nat \<Rightarrow> nat \<Rightarrow> nat \<Rightarrow> nat \<Rightarrow> nat \<Rightarrow> nat list \<Rightarrow> nat" where
  "backward_cell R shape first second reference i j k backward =
     (let score = 0;
          score = (if i < first then max score (backward ! shape_at shape (i + 1) j k) else score);
          score = (if j < second then max score (backward ! shape_at shape i (j + 1) k) else score)
      in if k < reference then
           (let score = max score (backward ! shape_at shape i j (k + 1));
                score = (if i < first \<and> relation_matches R FirstChain i k
                         then max score (backward ! shape_at shape (i + 1) j (k + 1) + 1) else score);
                score = (if j < second \<and> relation_matches R SecondChain j k
                         then max score (backward ! shape_at shape i (j + 1) (k + 1) + 1) else score)
            in score)
         else score)"

definition backward_table ::
  "match_relation \<Rightarrow> admitted_shape \<Rightarrow> nat \<Rightarrow> nat \<Rightarrow> nat \<Rightarrow> nat list" where
  "backward_table R shape first second reference =
     fold (\<lambda>i. fold (\<lambda>j. fold (\<lambda>k backward.
         backward[shape_at shape i j k :=
           backward_cell R shape first second reference i j k backward])
       (rev [0..<reference + 1])) (rev [0..<second + 1])) (rev [0..<first + 1])
       (replicate (sh_cells shape) 0)"

subsection \<open>Evidence and traceback\<close>

text \<open>One edge out of the state \<open>(i, j, k)\<close>: skip or match the next word of one chain.\<close>

definition observe_edge ::
  "match_relation \<Rightarrow> admitted_shape \<Rightarrow> nat \<Rightarrow> nat list \<Rightarrow> nat \<Rightarrow> nat \<Rightarrow> nat \<Rightarrow>
   speaker_chain \<times> nat \<times> nat \<times> nat \<Rightarrow> word_evidence list list \<Rightarrow> word_evidence list list" where
  "observe_edge R shape reference backward optimum prefix k edge words =
     (case edge of (chain, word, next_i, next_j) \<Rightarrow>
        if word = length (words ! chain_index chain) then words
        else
          (let evidence = words ! chain_index chain ! word;
               evidence =
                 (if prefix + backward ! shape_at shape next_i next_j k = optimum
                  then evidence\<lparr>we_can_be_missing := True\<rparr> else evidence);
               evidence =
                 (if k < reference \<and> relation_matches R chain word k \<and>
                     prefix + 1 + backward ! shape_at shape next_i next_j (k + 1) = optimum
                  then evidence\<lparr>we_candidates := we_candidates evidence @ [k]\<rparr> else evidence)
           in words[chain_index chain := (words ! chain_index chain)[word := evidence]]))"

definition observe_edges ::
  "match_relation \<Rightarrow> admitted_shape \<Rightarrow> nat \<Rightarrow> nat \<Rightarrow> nat \<Rightarrow> nat list \<Rightarrow> nat list \<Rightarrow> nat \<Rightarrow>
   word_evidence list list" where
  "observe_edges R shape first second reference forward backward optimum =
     fold (\<lambda>i. fold (\<lambda>j. fold (\<lambda>k.
         fold (observe_edge R shape reference backward optimum (forward ! shape_at shape i j k) k)
           [(FirstChain, i, i + 1, j), (SecondChain, j, i, j + 1)])
       [0..<reference + 1]) [0..<second + 1]) [0..<first + 1]
       (map (\<lambda>len. map (\<lambda>_. \<lparr>we_candidates = [], we_can_be_missing = False\<rparr>) [0..<len]) [first, second])"

text \<open>\<^verbatim>\<open>sort_unstable\<close> and \<^verbatim>\<open>dedup\<close> of the candidates of every word.\<close>

definition settle_words :: "word_evidence list list \<Rightarrow> word_evidence list list" where
  "settle_words words =
     map (map (\<lambda>word. word\<lparr>we_candidates := remdups_adj (sort (we_candidates word))\<rparr>)) words"

text \<open>
  The \<^verbatim>\<open>while\<close> loop that selects one assignment. Its last branch moves on in the second chain
  without a guard, so that it ends is a fact about the table; \<^const>\<open>None\<close> is a run that does not
  return: an endless loop, or the panic of an index outside the table.
\<close>

definition table_read :: "nat list \<Rightarrow> nat \<Rightarrow> nat option" where
  "table_read table n = (if n < length table then Some (table ! n) else None)"

partial_function (option) select_path ::
  "match_relation \<Rightarrow> admitted_shape \<Rightarrow> nat \<Rightarrow> nat \<Rightarrow> nat \<Rightarrow> nat list \<Rightarrow> nat \<Rightarrow> nat \<Rightarrow> nat \<Rightarrow>
   match_address list \<Rightarrow> match_address list option" where
  "select_path R shape first second reference backward i j k selected =
     (if \<not> (i < first \<or> j < second \<or> k < reference) then Some selected
      else case table_read backward (shape_at shape i j k) of None \<Rightarrow> None | Some score \<Rightarrow>
       (if i < first \<and> k < reference \<and> relation_matches R FirstChain i k \<and>
           1 + backward ! shape_at shape (i + 1) j (k + 1) = score
        then select_path R shape first second reference backward (i + 1) j (k + 1)
               (selected @ [\<lparr>ma_chain = FirstChain, ma_word = i, ma_reference = k\<rparr>])
        else if j < second \<and> k < reference \<and> relation_matches R SecondChain j k \<and>
           1 + backward ! shape_at shape i (j + 1) (k + 1) = score
        then select_path R shape first second reference backward i (j + 1) (k + 1)
               (selected @ [\<lparr>ma_chain = SecondChain, ma_word = j, ma_reference = k\<rparr>])
        else if k < reference \<and> backward ! shape_at shape i j (k + 1) = score
        then select_path R shape first second reference backward i j (k + 1) selected
        else if i < first \<and> backward ! shape_at shape (i + 1) j k = score
        then select_path R shape first second reference backward (i + 1) j k selected
        else select_path R shape first second reference backward i (j + 1) k selected))"

declare select_path.simps [code]

subsection \<open>The analysis and its accessors\<close>

definition with_budget ::
  "'f fuzzy_ops \<Rightarrow> string list \<Rightarrow> string list \<Rightarrow> string list \<Rightarrow> 'f match_mode \<Rightarrow> nat \<Rightarrow>
   (interleaving_refusal, two_speaker_alignment) result option" where
  "with_budget F first second reference mode budget =
     (case admitted_shape_new (length first) (length second) (length reference) budget of
        None \<Rightarrow> Some (Err CellBudgetExceeded)
      | Some shape \<Rightarrow>
          (let relation = match_relation_new F [first, second] reference mode;
               forward = forward_table relation shape (length first) (length second) (length reference);
               backward = backward_table relation shape (length first) (length second) (length reference);
               optimum = backward ! 0;
               words = settle_words
                 (observe_edges relation shape (length first) (length second) (length reference)
                    forward backward optimum)
           in Option.bind
                (select_path relation shape (length first) (length second) (length reference)
                   backward 0 0 0 [])
                (\<lambda>selected. Some (Ok \<lparr>tsa_sources = [first, second], tsa_reference = reference,
                   tsa_optimum = optimum, tsa_selected = selected, tsa_words = words\<rparr>))))"

definition interleaving_observe ::
  "'f fuzzy_ops \<Rightarrow> string list \<Rightarrow> string list \<Rightarrow> string list \<Rightarrow> 'f match_mode \<Rightarrow>
   (interleaving_refusal, two_speaker_alignment) result option" where
  "interleaving_observe F first second reference mode =
     with_budget F first second reference mode MAX_CELLS"

definition bound_match :: "two_speaker_alignment \<Rightarrow> match_address \<Rightarrow> interleaving_match" where
  "bound_match A address =
     \<lparr>im_address = address,
      im_source = tsa_sources A ! chain_index (ma_chain address) ! ma_word address,
      im_reference = tsa_reference A ! ma_reference address\<rparr>"

definition matched_words :: "two_speaker_alignment \<Rightarrow> nat" where
  "matched_words A = tsa_optimum A"

definition selected_matches :: "two_speaker_alignment \<Rightarrow> interleaving_match list" where
  "selected_matches A = map (bound_match A) (tsa_selected A)"

text \<open>The words of a chain, each the position a view on the analysis keeps.\<close>

definition chain_words :: "two_speaker_alignment \<Rightarrow> speaker_chain \<Rightarrow> nat list" where
  "chain_words A chain = [0..<length (tsa_sources A ! chain_index chain)]"

definition interleaving_evidence :: "two_speaker_alignment \<Rightarrow> speaker_chain \<Rightarrow> nat \<Rightarrow> word_evidence" where
  "interleaving_evidence A chain word = tsa_words A ! chain_index chain ! word"

definition interleaving_can_be_missing :: "two_speaker_alignment \<Rightarrow> speaker_chain \<Rightarrow> nat \<Rightarrow> bool" where
  "interleaving_can_be_missing A chain word = we_can_be_missing (interleaving_evidence A chain word)"

definition interleaving_candidates ::
  "two_speaker_alignment \<Rightarrow> speaker_chain \<Rightarrow> nat \<Rightarrow> interleaving_match list" where
  "interleaving_candidates A chain word =
     map (\<lambda>reference. bound_match A
         \<lparr>ma_chain = chain, ma_word = word, ma_reference = reference\<rparr>)
       (we_candidates (interleaving_evidence A chain word))"

definition interleaving_common ::
  "two_speaker_alignment \<Rightarrow> speaker_chain \<Rightarrow> nat \<Rightarrow> interleaving_match option" where
  "interleaving_common A chain word =
     (let evidence = interleaving_evidence A chain word
      in if we_can_be_missing evidence \<or> length (we_candidates evidence) \<noteq> 1 then None
         else Some (bound_match A \<lparr>ma_chain = chain, ma_word = word,
                ma_reference = we_candidates evidence ! 0\<rparr>))"

subsection \<open>Assignments\<close>

text \<open>
  What the analysis is about, without any table: a set of matches of which no two use the same
  reference word and in which the words of each speaker and their reference words come in the same
  order. Nothing relates the words of different speakers. \<open>largest\<close> assignments are those no other
  assignment has more matches than.
\<close>

definition joint :: "match_address set \<Rightarrow> bool" where
  "joint A \<longleftrightarrow>
     (\<forall>a\<in>A. \<forall>b\<in>A. a \<noteq> b \<longrightarrow> ma_reference a \<noteq> ma_reference b) \<and>
     (\<forall>a\<in>A. \<forall>b\<in>A. ma_chain a = ma_chain b \<longrightarrow>
        (ma_word a < ma_word b \<longleftrightarrow> ma_reference a < ma_reference b))"

definition assignment :: "(match_address \<Rightarrow> bool) \<Rightarrow> match_address set \<Rightarrow> bool" where
  "assignment matching A \<longleftrightarrow> (\<forall>a\<in>A. matching a) \<and> joint A"

definition largest :: "(match_address \<Rightarrow> bool) \<Rightarrow> match_address set \<Rightarrow> bool" where
  "largest matching A \<longleftrightarrow>
     assignment matching A \<and> (\<forall>B. assignment matching B \<longrightarrow> card B \<le> card A)"

text \<open>
  A position in the product is a word of each speaker, \<open>p\<close>, and one of the reference, \<open>k\<close>. The
  matches before it and those from it on are two boxes; \<open>most\<close> is the size of the largest assignment
  inside a set.
\<close>

definition ahead_of :: "(speaker_chain \<Rightarrow> nat) \<Rightarrow> nat \<Rightarrow> match_address set" where
  "ahead_of p k = {a. ma_word a < p (ma_chain a) \<and> ma_reference a < k}"

definition beyond :: "(speaker_chain \<Rightarrow> nat) \<Rightarrow> nat \<Rightarrow> match_address set" where
  "beyond p k = {a. p (ma_chain a) \<le> ma_word a \<and> k \<le> ma_reference a}"

definition most :: "(match_address \<Rightarrow> bool) \<Rightarrow> match_address set \<Rightarrow> nat" where
  "most matching X = Max (card ` {A. assignment matching A \<and> A \<subseteq> X})"

definition step_of :: "speaker_chain \<Rightarrow> (speaker_chain \<Rightarrow> nat) \<Rightarrow> speaker_chain \<Rightarrow> nat" where
  "step_of c p = p(c := p c + 1)"

definition match_at :: "speaker_chain \<Rightarrow> (speaker_chain \<Rightarrow> nat) \<Rightarrow> nat \<Rightarrow> match_address" where
  "match_at c p k = \<lparr>ma_chain = c, ma_word = p c, ma_reference = k\<rparr>"

lemma match_at_sel [simp]:
  "ma_chain (match_at c p k) = c" "ma_word (match_at c p k) = p c" "ma_reference (match_at c p k) = k"
  by (simp_all add: match_at_def)

lemma match_at_eq: "ma_chain a = c \<Longrightarrow> ma_word a = p c \<Longrightarrow> ma_reference a = k \<Longrightarrow> a = match_at c p k"
  by (cases a) (simp add: match_at_def)

lemma assignment_subset: "assignment matching A \<Longrightarrow> B \<subseteq> A \<Longrightarrow> assignment matching B"
  unfolding assignment_def joint_def by (simp add: subset_iff)

lemma assignment_empty [simp]: "assignment matching {}"
  by (simp add: assignment_def joint_def)

lemma assignment_single: "matching a \<Longrightarrow> assignment matching {a}"
  by (simp add: assignment_def joint_def)

lemma assignment_matching: "assignment matching A \<Longrightarrow> a \<in> A \<Longrightarrow> matching a"
  by (simp add: assignment_def)

lemma assignment_order:
  "assignment matching A \<Longrightarrow> a \<in> A \<Longrightarrow> b \<in> A \<Longrightarrow> ma_chain a = ma_chain b \<Longrightarrow>
   ma_word a < ma_word b \<longleftrightarrow> ma_reference a < ma_reference b"
  by (simp add: assignment_def joint_def)

lemma assignment_reference:
  "assignment matching A \<Longrightarrow> a \<in> A \<Longrightarrow> b \<in> A \<Longrightarrow> ma_reference a = ma_reference b \<Longrightarrow> a = b"
  by (auto simp: assignment_def joint_def)

lemma assignment_word:
  assumes "assignment matching A" "a \<in> A" "b \<in> A" "ma_chain a = ma_chain b" "ma_word a = ma_word b"
  shows "a = b"
  using assignment_order[OF assms(1-4)] assignment_order[OF assms(1,3,2)] assms
  by (auto intro: assignment_reference)

text \<open>Two assignments on the two sides of a position make one.\<close>

lemma assignment_glue:
  assumes A: "assignment matching A" and B: "assignment matching B"
    and "A \<subseteq> ahead_of p k" "B \<subseteq> beyond p k"
  shows "assignment matching (A \<union> B)"
proof -
  have apart: "ma_reference a < ma_reference b \<and> (ma_chain a = ma_chain b \<longrightarrow> ma_word a < ma_word b)"
    if "a \<in> A" "b \<in> B" for a b
    using that assms(3,4) by (fastforce simp: ahead_of_def beyond_def)
  have "ma_reference a \<noteq> ma_reference b" if "a \<in> A \<union> B" "b \<in> A \<union> B" "a \<noteq> b" for a b
    using that apart[of a b] apart[of b a] assignment_reference[OF A, of a b] assignment_reference[OF B, of a b]
    by auto
  moreover have "ma_word a < ma_word b \<longleftrightarrow> ma_reference a < ma_reference b"
    if "a \<in> A \<union> B" "b \<in> A \<union> B" "ma_chain a = ma_chain b" for a b
    using that apart[of a b] apart[of b a] assignment_order[OF A, of a b] assignment_order[OF B, of a b]
    by auto
  ultimately show ?thesis
    using A B by (auto simp: assignment_def joint_def)
qed

lemma glue_disjoint: "A \<subseteq> ahead_of p k \<Longrightarrow> B \<subseteq> beyond p k \<Longrightarrow> A \<inter> B = {}"
  by (fastforce simp: ahead_of_def beyond_def)

text \<open>
  The largest assignments when every match lies within the words of the speakers and the reference:
  what the two tables and the traceback rely on.
\<close>

locale word_census =
  fixes matching :: "match_address \<Rightarrow> bool" and lens :: "speaker_chain \<Rightarrow> nat" and refs :: nat
  assumes in_census: "matching a \<Longrightarrow> ma_word a < lens (ma_chain a) \<and> ma_reference a < refs"
begin

lemma finite_matching: "finite {a. matching a}"
proof -
  have "finite (UNIV :: speaker_chain set)"
    by (rule finite_subset[of _ "{FirstChain, SecondChain}"]) (auto intro: speaker_chain.exhaust)
  then have fin: "finite (SIGMA c : UNIV. {..<lens c} \<times> {..<refs})"
    by (rule finite_SigmaI) simp
  have "{a. matching a} \<subseteq>
      (\<lambda>(c, w, k). \<lparr>ma_chain = c, ma_word = w, ma_reference = k\<rparr>) ` (SIGMA c : UNIV. {..<lens c} \<times> {..<refs})"
  proof
    fix a assume "a \<in> {a. matching a}"
    then show "a \<in> (\<lambda>(c, w, k). \<lparr>ma_chain = c, ma_word = w, ma_reference = k\<rparr>) `
        (SIGMA c : UNIV. {..<lens c} \<times> {..<refs})"
      using in_census[of a]
      by (intro image_eqI[of _ _ "(ma_chain a, ma_word a, ma_reference a)"]) simp_all
  qed
  then show ?thesis
    using fin by (rule finite_subset[OF _ finite_imageI])
qed

lemma finite_assignment: "assignment matching A \<Longrightarrow> finite A"
  by (rule finite_subset[OF _ finite_matching]) (auto simp: assignment_def)

lemma finite_sizes: "finite (card ` {A. assignment matching A \<and> A \<subseteq> X})"
proof -
  have "{A. assignment matching A \<and> A \<subseteq> X} \<subseteq> Pow {a. matching a}"
    by (auto simp: assignment_def)
  then show ?thesis
    using finite_matching by (intro finite_imageI) (rule finite_subset, auto)
qed

lemma most_ge: "assignment matching A \<Longrightarrow> A \<subseteq> X \<Longrightarrow> card A \<le> most matching X"
  unfolding most_def by (rule Max_ge[OF finite_sizes]) simp

lemma most_attained:
  obtains A where "assignment matching A" "A \<subseteq> X" "card A = most matching X"
proof -
  have "most matching X \<in> card ` {A. assignment matching A \<and> A \<subseteq> X}"
    unfolding most_def by (rule Max_in[OF finite_sizes]) (auto intro: exI[of _ "{}"])
  then show thesis
    using that by auto
qed

lemma most_mono: "X \<subseteq> Y \<Longrightarrow> most matching X \<le> most matching Y"
  by (metis most_attained most_ge subset_trans)

lemma largest_iff: "largest matching A \<longleftrightarrow> assignment matching A \<and> card A = most matching UNIV"
proof
  assume A: "largest matching A"
  obtain B where "assignment matching B" "card B = most matching UNIV"
    by (rule most_attained)
  then show "assignment matching A \<and> card A = most matching UNIV"
    using A most_ge[of A UNIV] by (fastforce simp: largest_def)
next
  assume "assignment matching A \<and> card A = most matching UNIV"
  then show "largest matching A"
    using most_ge[of _ UNIV] by (auto simp: largest_def)
qed

lemma largest_exists: "\<exists>A. largest matching A"
  by (metis largest_iff most_attained)

lemma card_glue:
  assumes "assignment matching A" "assignment matching B" "A \<subseteq> ahead_of p k" "B \<subseteq> beyond p k"
  shows "card (A \<union> B) = card A + card B"
  using glue_disjoint[OF assms(3,4)] finite_assignment[OF assms(1)] finite_assignment[OF assms(2)]
  by (rule card_Un_disjoint[rotated 2])

lemma most_before_none: "most matching (ahead_of p 0) = 0"
proof -
  obtain A where "A \<subseteq> ahead_of p 0" "card A = most matching (ahead_of p 0)"
    by (rule most_attained)
  then show ?thesis
    by (simp add: ahead_of_def)
qed

lemma most_beyond_none: "refs \<le> k \<Longrightarrow> most matching (beyond p k) = 0"
proof -
  assume k: "refs \<le> k"
  obtain A where A: "assignment matching A" "A \<subseteq> beyond p k" "card A = most matching (beyond p k)"
    by (rule most_attained)
  then have "A = {}"
    using k in_census by (fastforce simp: assignment_def beyond_def)
  then show ?thesis
    using A by simp
qed

text \<open>
  The recursion of the forward table: the best assignment before a position leaves out the last word
  of a speaker or of the reference, or matches the two.
\<close>

lemma before_smaller: "most matching (ahead_of (p(c := p c - 1)) k) \<le> most matching (ahead_of p k)"
  by (rule most_mono) (auto simp: ahead_of_def split: if_splits)

lemma before_fewer: "most matching (ahead_of p (k - 1)) \<le> most matching (ahead_of p k)"
  by (rule most_mono) (auto simp: ahead_of_def)

lemma before_match:
  assumes "matching (match_at c p k)"
  shows "most matching (ahead_of p k) + 1 \<le> most matching (ahead_of (step_of c p) (k + 1))"
proof -
  obtain A where A: "assignment matching A" "A \<subseteq> ahead_of p k" "card A = most matching (ahead_of p k)"
    by (rule most_attained)
  have single: "assignment matching {match_at c p k}" "{match_at c p k} \<subseteq> beyond p k"
    using assms by (simp_all add: assignment_single beyond_def)
  have "A \<union> {match_at c p k} \<subseteq> ahead_of (step_of c p) (k + 1)"
    using A(2) by (fastforce simp: ahead_of_def step_of_def)
  then show ?thesis
    using most_ge[OF assignment_glue[OF A(1) single(1) A(2) single(2)]]
      card_glue[OF A(1) single(1) A(2) single(2)] A(3) by simp
qed

lemma before_cases:
  assumes "0 < k"
  obtains (reference) "most matching (ahead_of p k) \<le> most matching (ahead_of p (k - 1))"
  | (skip) c where "0 < p c" "most matching (ahead_of p k) \<le> most matching (ahead_of (p(c := p c - 1)) k)"
  | (match) c where "0 < p c" "matching (match_at c (p(c := p c - 1)) (k - 1))"
      "most matching (ahead_of p k) \<le> most matching (ahead_of (p(c := p c - 1)) (k - 1)) + 1"
proof -
  obtain A where A: "assignment matching A" "A \<subseteq> ahead_of p k" "card A = most matching (ahead_of p k)"
    by (rule most_attained)
  show thesis
  proof (cases "\<exists>a\<in>A. ma_reference a = k - 1")
    case False
    then have "A \<subseteq> ahead_of p (k - 1)"
      using A(2) by (fastforce simp: ahead_of_def)
    then show thesis
      using reference most_ge[OF A(1)] A(3) by simp
  next
    case True
    then obtain a where a: "a \<in> A" "ma_reference a = k - 1"
      by blast
    let ?c = "ma_chain a"
    have w: "ma_word a < p ?c"
      using a(1) A(2) by (auto simp: ahead_of_def)
    have others: "ma_reference b < k - 1 \<and> (ma_chain b = ?c \<longrightarrow> ma_word b < ma_word a)"
      if "b \<in> A" "b \<noteq> a" for b
    proof -
      have "ma_reference b < k"
        using that A(2) by (auto simp: ahead_of_def)
      moreover have "ma_reference b \<noteq> ma_reference a"
        using assignment_reference[OF A(1) that(1) a(1)] that(2) by blast
      ultimately have "ma_reference b < ma_reference a"
        using a(2) by simp
      then show ?thesis
        using assignment_order[OF A(1) that(1) a(1)] a(2) by simp
    qed
    show thesis
    proof (cases "ma_word a = p ?c - 1")
      case True
      have "b \<in> ahead_of (p(?c := p ?c - 1)) (k - 1)" if "b \<in> A - {a}" for b
        using that others[of b] subsetD[OF A(2), of b] True by (auto simp: ahead_of_def)
      then have "A - {a} \<subseteq> ahead_of (p(?c := p ?c - 1)) (k - 1)"
        by blast
      then have "card (A - {a}) \<le> most matching (ahead_of (p(?c := p ?c - 1)) (k - 1))"
        using most_ge assignment_subset[OF A(1)] by blast
      moreover have "card A = card (A - {a}) + 1"
        using card_Suc_Diff1[OF finite_assignment[OF A(1)] a(1)] by simp
      moreover have "match_at ?c (p(?c := p ?c - 1)) (k - 1) = a"
        using a(2) True by (intro match_at_eq[symmetric]) simp_all
      then have "matching (match_at ?c (p(?c := p ?c - 1)) (k - 1))"
        using assignment_matching[OF A(1) a(1)] by (rule ssubst)
      ultimately show thesis
        using match[of ?c] w A(3) by simp
    next
      case False
      then have "A \<subseteq> ahead_of (p(?c := p ?c - 1)) k"
        using others A(2) w by (force simp: ahead_of_def)
      then show thesis
        using skip[of ?c] w most_ge[OF A(1)] A(3) by simp
    qed
  qed
qed

text \<open>The recursion of the backward table, from the first words on.\<close>

lemma beyond_smaller: "most matching (beyond (step_of c p) k) \<le> most matching (beyond p k)"
  by (rule most_mono) (auto simp: beyond_def step_of_def split: if_splits)

lemma beyond_fewer: "most matching (beyond p (k + 1)) \<le> most matching (beyond p k)"
  by (rule most_mono) (auto simp: beyond_def)

lemma beyond_match:
  assumes "matching (match_at c p k)"
  shows "most matching (beyond (step_of c p) (k + 1)) + 1 \<le> most matching (beyond p k)"
proof -
  obtain A where A: "assignment matching A" "A \<subseteq> beyond (step_of c p) (k + 1)"
    "card A = most matching (beyond (step_of c p) (k + 1))"
    by (rule most_attained)
  have single: "assignment matching {match_at c p k}" "{match_at c p k} \<subseteq> ahead_of (step_of c p) (k + 1)"
    using assms by (simp_all add: assignment_single ahead_of_def step_of_def)
  have "{match_at c p k} \<union> A \<subseteq> beyond p k"
    using A(2) by (fastforce simp: beyond_def step_of_def split: if_splits)
  then show ?thesis
    using most_ge[OF assignment_glue[OF single(1) A(1) single(2) A(2)]]
      card_glue[OF single(1) A(1) single(2) A(2)] A(3) by simp
qed

lemma beyond_cases:
  obtains (reference) "most matching (beyond p k) \<le> most matching (beyond p (k + 1))"
  | (skip) c where "p c < lens c" "most matching (beyond p k) \<le> most matching (beyond (step_of c p) k)"
  | (match) c where "p c < lens c" "matching (match_at c p k)"
      "most matching (beyond p k) \<le> most matching (beyond (step_of c p) (k + 1)) + 1"
proof -
  obtain A where A: "assignment matching A" "A \<subseteq> beyond p k" "card A = most matching (beyond p k)"
    by (rule most_attained)
  show thesis
  proof (cases "\<exists>a\<in>A. ma_reference a = k")
    case False
    then have "A \<subseteq> beyond p (k + 1)"
      using A(2) by (fastforce simp: beyond_def)
    then show thesis
      using reference most_ge[OF A(1)] A(3) by simp
  next
    case True
    then obtain a where a: "a \<in> A" "ma_reference a = k"
      by blast
    let ?c = "ma_chain a"
    have w: "p ?c \<le> ma_word a" "ma_word a < lens ?c"
      using a(1) A(2) in_census[OF assignment_matching[OF A(1) a(1)]] by (auto simp: beyond_def)
    have others: "k < ma_reference b \<and> (ma_chain b = ?c \<longrightarrow> ma_word a < ma_word b)"
      if "b \<in> A" "b \<noteq> a" for b
    proof -
      have "k \<le> ma_reference b"
        using that A(2) by (auto simp: beyond_def)
      moreover have "ma_reference b \<noteq> ma_reference a"
        using assignment_reference[OF A(1) that(1) a(1)] that(2) by blast
      ultimately have "ma_reference a < ma_reference b"
        using a(2) by simp
      then show ?thesis
        using assignment_order[OF A(1) a(1) that(1)] a(2) by simp
    qed
    show thesis
    proof (cases "ma_word a = p ?c")
      case True
      have "b \<in> beyond (step_of ?c p) (k + 1)" if "b \<in> A - {a}" for b
        using that others[of b] subsetD[OF A(2), of b] True by (auto simp: beyond_def step_of_def)
      then have "A - {a} \<subseteq> beyond (step_of ?c p) (k + 1)"
        by blast
      then have "card (A - {a}) \<le> most matching (beyond (step_of ?c p) (k + 1))"
        using most_ge assignment_subset[OF A(1)] by blast
      moreover have "card A = card (A - {a}) + 1"
        using card_Suc_Diff1[OF finite_assignment[OF A(1)] a(1)] by simp
      moreover have "match_at ?c p k = a"
        using a(2) True by (intro match_at_eq[symmetric]) simp_all
      then have "matching (match_at ?c p k)"
        using assignment_matching[OF A(1) a(1)] by (rule ssubst)
      ultimately show thesis
        using match[of ?c] w A(3) by simp
    next
      case False
      then have "A \<subseteq> beyond (step_of ?c p) k"
        using others A(2) w by (force simp: beyond_def step_of_def)
      then show thesis
        using skip[of ?c] w most_ge[OF A(1)] A(3) by simp
    qed
  qed
qed

text \<open>
  Every assignment is cut in two at every reference word, and a position is on a largest assignment
  exactly when the two sides add up.
\<close>

lemma assignment_cut:
  assumes A: "assignment matching A"
  obtains p where "\<And>c. p c \<le> lens c" "A \<subseteq> ahead_of p k \<union> beyond p k"
proof -
  define p where "p = (\<lambda>c. LEAST w. \<forall>a\<in>A. ma_chain a = c \<and> ma_reference a < k \<longrightarrow> ma_word a < w)"
  have bound: "\<forall>a\<in>A. ma_chain a = c \<and> ma_reference a < k \<longrightarrow> ma_word a < lens c" for c
    using in_census assignment_matching[OF A] by fastforce
  have least: "\<forall>a\<in>A. ma_chain a = c \<and> ma_reference a < k \<longrightarrow> ma_word a < p c" for c
    unfolding p_def by (rule LeastI) (rule bound)
  have "a \<in> ahead_of p k \<union> beyond p k" if a: "a \<in> A" for a
  proof (cases "ma_reference a < k")
    case True
    then show ?thesis
      using least[of "ma_chain a"] a by (simp add: ahead_of_def)
  next
    case False
    have "\<forall>b\<in>A. ma_chain b = ma_chain a \<and> ma_reference b < k \<longrightarrow> ma_word b < ma_word a"
      using assignment_order[OF A _ a] False by auto
    then have "p (ma_chain a) \<le> ma_word a"
      unfolding p_def by (rule Least_le)
    then show ?thesis
      using False by (simp add: beyond_def)
  qed
  moreover have "p c \<le> lens c" for c
    unfolding p_def by (rule Least_le) (rule bound)
  ultimately show thesis
    using that by blast
qed

lemma card_cut:
  assumes "assignment matching A"
  shows "card A = card {a \<in> A. ma_reference a < k} + card {a \<in> A. k \<le> ma_reference a}"
proof -
  have "A = {a \<in> A. ma_reference a < k} \<union> {a \<in> A. k \<le> ma_reference a}"
    by auto
  moreover have "card ({a \<in> A. ma_reference a < k} \<union> {a \<in> A. k \<le> ma_reference a}) =
      card {a \<in> A. ma_reference a < k} + card {a \<in> A. k \<le> ma_reference a}"
    using finite_assignment[OF assms] by (intro card_Un_disjoint) auto
  ultimately show ?thesis
    by simp
qed

lemma sides_within: "most matching (ahead_of p k) + most matching (beyond p k) \<le> most matching UNIV"
proof -
  obtain A where A: "assignment matching A" "A \<subseteq> ahead_of p k" "card A = most matching (ahead_of p k)"
    by (rule most_attained)
  obtain B where B: "assignment matching B" "B \<subseteq> beyond p k" "card B = most matching (beyond p k)"
    by (rule most_attained)
  show ?thesis
    using most_ge[OF assignment_glue[OF A(1) B(1) A(2) B(2)], of UNIV] card_glue[OF A(1) B(1) A(2) B(2)]
      A(3) B(3) by simp
qed

lemma match_largest:
  assumes "matching (match_at c p k)"
    and "most matching (ahead_of p k) + 1 + most matching (beyond (step_of c p) (k + 1)) = most matching UNIV"
  shows "\<exists>A. largest matching A \<and> match_at c p k \<in> A"
proof -
  obtain A where A: "assignment matching A" "A \<subseteq> ahead_of p k" "card A = most matching (ahead_of p k)"
    by (rule most_attained)
  obtain B where B: "assignment matching B" "B \<subseteq> beyond (step_of c p) (k + 1)"
    "card B = most matching (beyond (step_of c p) (k + 1))"
    by (rule most_attained)
  have single: "assignment matching {match_at c p k}" "{match_at c p k} \<subseteq> beyond p k"
    using assms by (simp_all add: assignment_single beyond_def)
  have AS: "assignment matching (A \<union> {match_at c p k})"
    "A \<union> {match_at c p k} \<subseteq> ahead_of (step_of c p) (k + 1)"
    using assignment_glue[OF A(1) single(1) A(2) single(2)] A(2)
    by (simp, fastforce simp: ahead_of_def step_of_def)
  have "card (A \<union> {match_at c p k} \<union> B) = most matching UNIV"
    using card_glue[OF AS(1) B(1) AS(2) B(2)] card_glue[OF A(1) single(1) A(2) single(2)] A(3) B(3) assms(2)
    by simp
  then show ?thesis
    using assignment_glue[OF AS(1) B(1) AS(2) B(2)] by (auto simp: largest_iff)
qed

lemma match_on_largest:
  assumes A: "largest matching A" and a: "a \<in> A"
  obtains p where "\<And>c. p c \<le> lens c" "p (ma_chain a) = ma_word a"
    "most matching (ahead_of p (ma_reference a)) + 1 +
     most matching (beyond (step_of (ma_chain a) p) (ma_reference a + 1)) = most matching UNIV"
proof -
  let ?c = "ma_chain a" and ?k = "ma_reference a"
  have asg: "assignment matching A" "card A = most matching UNIV"
    using A by (simp_all add: largest_iff)
  obtain q where q: "\<And>c. q c \<le> lens c" "A \<subseteq> ahead_of q ?k \<union> beyond q ?k"
    using assignment_cut[OF asg(1)] by blast
  define p where "p = q(?c := ma_word a)"
  have p: "p ?c = ma_word a" "p c \<le> lens c" for c
    using q(1)[of c] in_census[OF assignment_matching[OF asg(1) a]] by (simp_all add: p_def)
  have early: "{b \<in> A. ma_reference b < ?k} \<subseteq> ahead_of p ?k"
    using assignment_order[OF asg(1) _ a] q(2) by (auto simp: ahead_of_def beyond_def p_def)
  have late: "{b \<in> A. ?k + 1 \<le> ma_reference b} \<subseteq> beyond (step_of ?c p) (?k + 1)"
    using assignment_order[OF asg(1) a] q(2) by (fastforce simp: ahead_of_def beyond_def p_def step_of_def)
  have at_k: "{b \<in> A. ma_reference b < ?k + 1} = insert a {b \<in> A. ma_reference b < ?k}"
    using a assignment_reference[OF asg(1) _ a] by (auto simp: less_Suc_eq)
  have "card A \<le> most matching (ahead_of p ?k) + 1 + most matching (beyond (step_of ?c p) (?k + 1))"
    using card_cut[OF asg(1), of "?k + 1"] most_ge[OF assignment_subset[OF asg(1)] early]
      most_ge[OF assignment_subset[OF asg(1)] late] finite_assignment[OF asg(1)]
    unfolding at_k by simp
  moreover have "a = match_at ?c p ?k"
    by (rule match_at_eq) (simp_all add: p)
  then have "most matching (ahead_of p ?k) + 1 \<le> most matching (ahead_of (step_of ?c p) (?k + 1))"
    using before_match assignment_matching[OF asg(1) a] by metis
  moreover have "most matching (ahead_of (step_of ?c p) (?k + 1)) +
      most matching (beyond (step_of ?c p) (?k + 1)) \<le> most matching UNIV"
    by (rule sides_within)
  ultimately show thesis
    using that[of p] p asg(2) by simp
qed

lemma skip_largest:
  assumes "most matching (ahead_of p k) + most matching (beyond (step_of c p) k) = most matching UNIV"
  shows "\<exists>A. largest matching A \<and> (\<forall>a\<in>A. \<not> (ma_chain a = c \<and> ma_word a = p c))"
proof -
  obtain A where A: "assignment matching A" "A \<subseteq> ahead_of p k" "card A = most matching (ahead_of p k)"
    by (rule most_attained)
  obtain B where B: "assignment matching B" "B \<subseteq> beyond (step_of c p) k"
    "card B = most matching (beyond (step_of c p) k)"
    by (rule most_attained)
  have B': "B \<subseteq> beyond p k"
    using B(2) by (fastforce simp: beyond_def step_of_def split: if_splits)
  have "largest matching (A \<union> B)"
    using assignment_glue[OF A(1) B(1) A(2) B'] card_glue[OF A(1) B(1) A(2) B'] A(3) B(3) assms
    by (simp add: largest_iff)
  moreover have "\<not> (ma_chain a = c \<and> ma_word a = p c)" if "a \<in> A \<union> B" for a
    using that A(2) B(2) by (auto simp: ahead_of_def beyond_def step_of_def)
  ultimately show ?thesis
    by blast
qed

lemma skip_on_largest:
  assumes A: "largest matching A" and w: "w < lens c"
    and omitted: "\<forall>a\<in>A. \<not> (ma_chain a = c \<and> ma_word a = w)"
  obtains p k where "\<And>c. p c \<le> lens c" "k \<le> refs" "p c = w"
    "most matching (ahead_of p k) + most matching (beyond (step_of c p) k) = most matching UNIV"
proof -
  have asg: "assignment matching A" "card A = most matching UNIV"
    using A by (simp_all add: largest_iff)
  define k where "k = (LEAST k. \<forall>a\<in>A. ma_chain a = c \<and> ma_word a < w \<longrightarrow> ma_reference a < k)"
  have bound: "\<forall>a\<in>A. ma_chain a = c \<and> ma_word a < w \<longrightarrow> ma_reference a < refs"
    using in_census assignment_matching[OF asg(1)] by fastforce
  have k: "\<forall>a\<in>A. ma_chain a = c \<and> ma_word a < w \<longrightarrow> ma_reference a < k" "k \<le> refs"
    unfolding k_def by (rule LeastI, rule bound) (rule Least_le, rule bound)
  have after: "k \<le> ma_reference b" if b: "b \<in> A" "ma_chain b = c" "w < ma_word b" for b
  proof -
    have "ma_reference a < ma_reference b" if "a \<in> A" "ma_chain a = c" "ma_word a < w" for a
      using assignment_order[OF asg(1) that(1) b(1)] that b by simp
    then show ?thesis
      unfolding k_def by (intro Least_le) blast
  qed
  obtain q where q: "\<And>c. q c \<le> lens c" "A \<subseteq> ahead_of q k \<union> beyond q k"
    using assignment_cut[OF asg(1)] by blast
  define p where "p = q(c := w)"
  have p: "p c = w" "p d \<le> lens d" for d
    using q(1)[of d] w by (simp_all add: p_def)
  have side: "ma_word b < w \<longleftrightarrow> ma_reference b < k" if "b \<in> A" "ma_chain b = c" for b
    using that k(1) after[OF that] omitted by (metis linorder_not_less nat_neq_iff)
  have early: "{b \<in> A. ma_reference b < k} \<subseteq> ahead_of p k"
    using side q(2) by (auto simp: ahead_of_def beyond_def p_def)
  have late: "b \<in> beyond (step_of c p) k" if b: "b \<in> A" "k \<le> ma_reference b" for b
  proof (cases "ma_chain b = c")
    case True
    then have "w < ma_word b"
      using side[OF b(1) True] omitted b by (metis linorder_not_less nat_neq_iff)
    then show ?thesis
      using True b by (simp add: beyond_def p_def step_of_def)
  next
    case False
    then show ?thesis
      using q(2) b by (auto simp: ahead_of_def beyond_def p_def step_of_def)
  qed
  have "card A \<le> most matching (ahead_of p k) + most matching (beyond (step_of c p) k)"
    using card_cut[OF asg(1), of k] most_ge[OF assignment_subset[OF asg(1)] early]
      most_ge[OF assignment_subset[OF asg(1)], of "{b \<in> A. k \<le> ma_reference b}" "beyond (step_of c p) k"] late
    by fastforce
  moreover have "most matching (ahead_of p k) + most matching (beyond (step_of c p) k) \<le> most matching UNIV"
    using sides_within[of p k] beyond_smaller[of c p k] by simp
  ultimately show thesis
    using that[of p k] p k(2) asg(2) by simp
qed

end

subsection \<open>Loops over the table\<close>

lemma fold_product: "fold (\<lambda>x. fold (f x) ys) xs = fold (\<lambda>(x, y). f x y) (List.product xs ys)"
proof (induction xs)
  case (Cons x xs)
  have "fold (\<lambda>(x, y). f x y) (map (Product_Type.Pair x) ys) = fold (f x) ys"
    by (simp add: fold_map comp_def)
  then show ?case
    by (simp add: Cons.IH)
qed simp

lemma fold_concat_map: "fold (\<lambda>x. fold f (g x)) xs = fold f (concat (map g xs))"
  by (induction xs) simp_all

lemma product_rev: "List.product (rev xs) (rev ys) = rev (List.product xs ys)"
  by (simp add: product_concat_map rev_concat rev_map comp_def)

lemma map_product_upt:
  assumes "map f xs = [0..<len]"
  shows "map (\<lambda>(i, x). i * len + f x) (List.product [0..<n] xs) = [0..<n * len]"
proof (induction n)
  case (Suc n)
  have "map ((\<lambda>(i, x). i * len + f x) \<circ> Product_Type.Pair n) xs = map (\<lambda>y. y + n * len) (map f xs)"
    by (simp add: comp_def add.commute)
  also have "\<dots> = [n * len..<n * len + len]"
    unfolding assms using map_add_upt[of "n * len" len] by (simp add: add.commute)
  finally have "map (\<lambda>(i, x). i * len + f x) (List.product [n] xs) = [n * len..<n * len + len]"
    by simp
  moreover have "List.product [0..<Suc n] xs = List.product [0..<n] xs @ List.product [n] xs"
    by (simp add: product_concat_map)
  ultimately show ?case
    using Suc.IH upt_add_eq_append[of 0 "n * len" len] by (simp add: add.commute)
qed simp

text \<open>
  Filling a table cell by cell: when every cell is right as soon as the cells written earlier are,
  the whole table is.
\<close>

lemma fold_fills:
  assumes "distinct (map ix cs)" "\<forall>c\<in>set cs. ix c < length T0"
    and "\<And>us c vs T. cs = us @ c # vs \<Longrightarrow> \<forall>d\<in>set us. T ! ix d = V d \<Longrightarrow> cell c T = V c"
  shows "\<forall>c\<in>set cs. fold (\<lambda>c T. T[ix c := cell c T]) cs T0 ! ix c = V c"
  using assms
proof (induction cs rule: rev_induct)
  case (snoc c cs)
  define T where "T = fold (\<lambda>c T. T[ix c := cell c T]) cs T0"
  have len: "length T = length T0"
    unfolding T_def by (induction cs arbitrary: T0) simp_all
  have IH: "\<forall>d\<in>set cs. T ! ix d = V d"
    unfolding T_def
  proof (rule snoc.IH)
    show "cell d T' = V d" if "cs = us @ d # vs" "\<forall>e\<in>set us. T' ! ix e = V e" for us d vs T'
      using snoc.prems(3)[of us d "vs @ [c]" T'] that by simp
  qed (use snoc.prems in simp_all)
  have "cell c T = V c"
    using snoc.prems(3)[of cs c "[]" T] IH by simp
  then show ?case
    using IH snoc.prems(1,2) len by (auto simp: T_def[symmetric] nth_list_update)
qed simp

lemma length_fold_update: "length (fold (\<lambda>c T. T[ix c := cell c T]) cs T0) = length T0"
  by (induction cs arbitrary: T0) simp_all

text \<open>The states of the product in the order of the loops.\<close>

definition states :: "nat \<Rightarrow> nat \<Rightarrow> nat \<Rightarrow> (nat \<times> nat \<times> nat) list" where
  "states m n r = List.product [0..<m + 1] (List.product [0..<n + 1] [0..<r + 1])"

lemma in_states [simp]: "(i, j, k) \<in> set (states m n r) \<longleftrightarrow> i \<le> m \<and> j \<le> n \<and> k \<le> r"
  by (auto simp: states_def)

lemma admitted_shape_new_eq:
  "admitted_shape_new m n r budget =
     (if (m + 1) * (n + 1) * (r + 1) \<le> min budget usize_max
      then Some \<lparr>sh_second = n + 1, sh_reference = r + 1, sh_cells = (m + 1) * (n + 1) * (r + 1)\<rparr>
      else None)"
proof -
  have "n + 1 \<le> (m + 1) * (n + 1) * (r + 1)" "r + 1 \<le> (m + 1) * (n + 1) * (r + 1)"
    "m + 1 \<le> (m + 1) * (n + 1) * (r + 1)" "(m + 1) * (n + 1) \<le> (m + 1) * (n + 1) * (r + 1)"
    by simp_all
  then have "n + 1 \<le> usize_max \<and> r + 1 \<le> usize_max \<and> m + 1 \<le> usize_max \<and> (m + 1) * (n + 1) \<le> usize_max"
    if "(m + 1) * (n + 1) * (r + 1) \<le> usize_max"
    using that le_trans by blast
  then show ?thesis
    unfolding admitted_shape_new_def usize_checked_add_def usize_checked_mul_def
    by (auto simp del: mult_Suc mult_Suc_right add_Suc_right One_nat_def)
qed

fun at_pos :: "nat \<Rightarrow> nat \<Rightarrow> speaker_chain \<Rightarrow> nat" where
  "at_pos i j FirstChain = i"
| "at_pos i j SecondChain = j"

lemma at_pos_eta: "at_pos (p FirstChain) (p SecondChain) = p"
proof
  show "at_pos (p FirstChain) (p SecondChain) c = p c" for c
    by (cases c) simp_all
qed

lemma at_pos_update [simp]:
  "(at_pos i j)(FirstChain := x) = at_pos x j" "(at_pos i j)(SecondChain := x) = at_pos i x"
  by (rule ext, case_tac xa) (simp_all, rule ext, case_tac xa, simp_all)

lemma beyond_start: "beyond (at_pos 0 0) 0 = UNIV"
proof -
  have "at_pos 0 0 c = 0" for c
    by (cases c) simp_all
  then show ?thesis
    by (simp add: beyond_def)
qed

lemma step_of_at_pos [simp]:
  "step_of FirstChain (at_pos i j) = at_pos (i + 1) j" "step_of SecondChain (at_pos i j) = at_pos i (j + 1)"
  by (simp_all add: step_of_def)

subsection \<open>The tables hold the largest sizes\<close>

lemma forward_cell_le:
  "0 < k \<Longrightarrow> forward_cell R shape i j k T \<le> x \<longleftrightarrow>
     (0 < i \<longrightarrow> T ! shape_at shape (i - 1) j k \<le> x) \<and>
     (0 < j \<longrightarrow> T ! shape_at shape i (j - 1) k \<le> x) \<and>
     T ! shape_at shape i j (k - 1) \<le> x \<and>
     (0 < i \<and> relation_matches R FirstChain (i - 1) (k - 1) \<longrightarrow> T ! shape_at shape (i - 1) j (k - 1) + 1 \<le> x) \<and>
     (0 < j \<and> relation_matches R SecondChain (j - 1) (k - 1) \<longrightarrow> T ! shape_at shape i (j - 1) (k - 1) + 1 \<le> x)"
  unfolding forward_cell_def Let_def by auto

lemma backward_cell_le:
  "k < r \<Longrightarrow> backward_cell R shape m n r i j k T \<le> x \<longleftrightarrow>
     (i < m \<longrightarrow> T ! shape_at shape (i + 1) j k \<le> x) \<and>
     (j < n \<longrightarrow> T ! shape_at shape i (j + 1) k \<le> x) \<and>
     T ! shape_at shape i j (k + 1) \<le> x \<and>
     (i < m \<and> relation_matches R FirstChain i k \<longrightarrow> T ! shape_at shape (i + 1) j (k + 1) + 1 \<le> x) \<and>
     (j < n \<and> relation_matches R SecondChain j k \<longrightarrow> T ! shape_at shape i (j + 1) (k + 1) + 1 \<le> x)"
  unfolding backward_cell_def Let_def by auto

text \<open>What the traceback collects from a position on.\<close>

definition collects ::
  "(match_address \<Rightarrow> bool) \<Rightarrow> (speaker_chain \<Rightarrow> nat) \<Rightarrow> nat \<Rightarrow> match_address list \<Rightarrow> bool" where
  "collects matching p k path \<longleftrightarrow>
     assignment matching (set path) \<and> set path \<subseteq> beyond p k \<and>
     length path = most matching (beyond p k) \<and> sorted_wrt (<) (map ma_reference path)"

text \<open>A census whose relation has been prepared and whose shape has been admitted.\<close>

locale prepared_census = word_census +
  fixes R :: match_relation and shape :: admitted_shape
  assumes relation_exact:
      "w < lens c \<Longrightarrow> k < refs \<Longrightarrow>
       relation_matches R c w k \<longleftrightarrow> matching \<lparr>ma_chain = c, ma_word = w, ma_reference = k\<rparr>"
    and shape_second: "sh_second shape = lens SecondChain + 1"
    and shape_reference: "sh_reference shape = refs + 1"
    and shape_cells:
      "sh_cells shape = (lens FirstChain + 1) * (lens SecondChain + 1) * (refs + 1)"
begin

lemma relation_at: "p c < lens c \<Longrightarrow> k < refs \<Longrightarrow> relation_matches R c (p c) k \<longleftrightarrow> matching (match_at c p k)"
  by (simp add: match_at_def relation_exact)

lemma index_of_states:
  "map (\<lambda>(i, j, k). shape_at shape i j k) (states (lens FirstChain) (lens SecondChain) refs) = [0..<sh_cells shape]"
proof -
  let ?f = "\<lambda>(j, k). j * (refs + 1) + k"
  have "map ?f (List.product [0..<lens SecondChain + 1] [0..<refs + 1]) =
      [0..<(lens SecondChain + 1) * (refs + 1)]"
    using map_product_upt[of "\<lambda>k. k" "[0..<refs + 1]" "refs + 1" "lens SecondChain + 1"] by simp
  then have "map (\<lambda>(i, x). i * ((lens SecondChain + 1) * (refs + 1)) + ?f x)
        (states (lens FirstChain) (lens SecondChain) refs) =
      [0..<(lens FirstChain + 1) * ((lens SecondChain + 1) * (refs + 1))]"
    unfolding states_def by (rule map_product_upt)
  moreover have "(\<lambda>(i, j, k). shape_at shape i j k) =
      (\<lambda>(i, x). i * ((lens SecondChain + 1) * (refs + 1)) + ?f x)"
    by (auto simp: fun_eq_iff shape_at_def shape_second shape_reference algebra_simps)
  ultimately show ?thesis
    by (simp only: shape_cells mult.assoc)
qed

lemma index_bound:
  "i \<le> lens FirstChain \<Longrightarrow> j \<le> lens SecondChain \<Longrightarrow> k \<le> refs \<Longrightarrow> shape_at shape i j k < sh_cells shape"
proof -
  assume "i \<le> lens FirstChain" "j \<le> lens SecondChain" "k \<le> refs"
  then have "shape_at shape i j k \<in>
      set (map (\<lambda>(i, j, k). shape_at shape i j k) (states (lens FirstChain) (lens SecondChain) refs))"
    unfolding set_map by (intro image_eqI[of _ _ "(i, j, k)"]) simp_all
  then show ?thesis
    unfolding index_of_states by simp
qed

text \<open>A state is written after every state of the same or smaller coordinates.\<close>

lemma earlier_state:
  assumes "states (lens FirstChain) (lens SecondChain) refs = us @ (i, j, k) # vs"
    and "i' \<le> i" "j' \<le> j" "k' \<le> k" "(i', j', k') \<noteq> (i, j, k)"
  shows "(i', j', k') \<in> set us"
proof -
  let ?ix = "\<lambda>(i, j, k). shape_at shape i j k"
  have "(i, j, k) \<in> set (states (lens FirstChain) (lens SecondChain) refs)"
    unfolding assms(1) by simp
  then have mem: "(i', j', k') \<in> set (us @ (i, j, k) # vs)"
    unfolding assms(1)[symmetric] using assms(2-4) by simp
  have "sorted_wrt (<) (map ?ix (us @ (i, j, k) # vs))"
    unfolding assms(1)[symmetric] index_of_states by simp
  moreover have "shape_at shape i' j' k' \<le> shape_at shape i j k"
    unfolding shape_at_def using assms(2-4) by (intro add_le_mono mult_le_mono) simp_all
  ultimately show ?thesis
    using mem assms(5) by (fastforce simp: sorted_wrt_append)
qed

lemma later_state:
  assumes "rev (states (lens FirstChain) (lens SecondChain) refs) = us @ (i, j, k) # vs"
    and "i \<le> i'" "j \<le> j'" "k \<le> k'" "i' \<le> lens FirstChain" "j' \<le> lens SecondChain" "k' \<le> refs"
      "(i', j', k') \<noteq> (i, j, k)"
  shows "(i', j', k') \<in> set us"
proof -
  let ?ix = "\<lambda>(i, j, k). shape_at shape i j k"
  have split: "states (lens FirstChain) (lens SecondChain) refs = rev vs @ (i, j, k) # rev us"
    using arg_cong[OF assms(1), of rev] by simp
  have mem: "(i', j', k') \<in> set (rev vs @ (i, j, k) # rev us)"
    unfolding split[symmetric] using assms(5-7) by simp
  have "sorted_wrt (<) (map ?ix (rev vs @ (i, j, k) # rev us))"
    unfolding split[symmetric] index_of_states by simp
  moreover have "shape_at shape i j k \<le> shape_at shape i' j' k'"
    unfolding shape_at_def using assms(2-4) by (intro add_le_mono mult_le_mono) simp_all
  ultimately show ?thesis
    using mem assms(8) by (fastforce simp: sorted_wrt_append)
qed

lemma forward_cell_most:
  assumes "i \<le> lens FirstChain" "j \<le> lens SecondChain" "k \<le> refs"
    and T: "\<And>i' j' k'. i' \<le> i \<Longrightarrow> j' \<le> j \<Longrightarrow> k' \<le> k \<Longrightarrow> (i', j', k') \<noteq> (i, j, k) \<Longrightarrow>
      T ! shape_at shape i' j' k' = most matching (ahead_of (at_pos i' j') k')"
  shows "forward_cell R shape i j k T = most matching (ahead_of (at_pos i j) k)"
proof (cases "k = 0")
  case True
  then show ?thesis
    using T by (simp add: forward_cell_def most_before_none)
next
  case False
  let ?V = "\<lambda>i j k. most matching (ahead_of (at_pos i j) k)"
  have first: "relation_matches R FirstChain (i - 1) (k - 1) \<longleftrightarrow> matching (match_at FirstChain (at_pos (i - 1) j) (k - 1))"
    if "0 < i"
    using relation_at[of "at_pos (i - 1) j" FirstChain "k - 1"] that False assms by simp
  have second: "relation_matches R SecondChain (j - 1) (k - 1) \<longleftrightarrow> matching (match_at SecondChain (at_pos i (j - 1)) (k - 1))"
    if "0 < j"
    using relation_at[of "at_pos i (j - 1)" SecondChain "k - 1"] that False assms by simp
  have below: "?V (i - 1) j k \<le> ?V i j k" "?V i (j - 1) k \<le> ?V i j k" "?V i j (k - 1) \<le> ?V i j k"
    using before_smaller[of "at_pos i j" FirstChain k] before_smaller[of "at_pos i j" SecondChain k]
      before_fewer[of "at_pos i j" k] by simp_all
  have match: "?V (i - 1) j (k - 1) + 1 \<le> ?V i j k" if "0 < i" "relation_matches R FirstChain (i - 1) (k - 1)"
    using before_match[of FirstChain "at_pos (i - 1) j" "k - 1"] that first False by simp
  have match': "?V i (j - 1) (k - 1) + 1 \<le> ?V i j k" if "0 < j" "relation_matches R SecondChain (j - 1) (k - 1)"
    using before_match[of SecondChain "at_pos i (j - 1)" "k - 1"] that second False by simp
  have dep: "0 < i \<Longrightarrow> T ! shape_at shape (i - 1) j k = ?V (i - 1) j k"
    "0 < j \<Longrightarrow> T ! shape_at shape i (j - 1) k = ?V i (j - 1) k"
    "T ! shape_at shape i j (k - 1) = ?V i j (k - 1)"
    "0 < i \<Longrightarrow> T ! shape_at shape (i - 1) j (k - 1) = ?V (i - 1) j (k - 1)"
    "0 < j \<Longrightarrow> T ! shape_at shape i (j - 1) (k - 1) = ?V i (j - 1) (k - 1)"
    using T False by simp_all
  note deps = dep[simplified] and bounds = forward_cell_le[simplified, of k R shape i j T]
  have le: "forward_cell R shape i j k T \<le> ?V i j k"
    using False below match match' by (simp add: bounds deps)
  have options: "(0 < i \<longrightarrow> ?V (i - 1) j k \<le> forward_cell R shape i j k T) \<and>
      (0 < j \<longrightarrow> ?V i (j - 1) k \<le> forward_cell R shape i j k T) \<and>
      ?V i j (k - 1) \<le> forward_cell R shape i j k T \<and>
      (0 < i \<and> relation_matches R FirstChain (i - 1) (k - 1) \<longrightarrow>
         ?V (i - 1) j (k - 1) + 1 \<le> forward_cell R shape i j k T) \<and>
      (0 < j \<and> relation_matches R SecondChain (j - 1) (k - 1) \<longrightarrow>
         ?V i (j - 1) (k - 1) + 1 \<le> forward_cell R shape i j k T)"
    using False bounds[of "forward_cell R shape i j k T"] by (simp add: deps)
  have "0 < k"
    using False by simp
  then have ge: "?V i j k \<le> forward_cell R shape i j k T"
  proof (cases rule: before_cases[of k "at_pos i j"])
    case (skip c)
    then show ?thesis
      using options by (cases c) simp_all
  next
    case (match c)
    then show ?thesis
      using options first second by (cases c) simp_all
  qed (use options in simp)
  show ?thesis
    using le ge by (rule antisym)
qed

lemma backward_cell_most:
  assumes "i \<le> lens FirstChain" "j \<le> lens SecondChain" "k \<le> refs"
    and T: "\<And>i' j' k'. i \<le> i' \<Longrightarrow> j \<le> j' \<Longrightarrow> k \<le> k' \<Longrightarrow> i' \<le> lens FirstChain \<Longrightarrow> j' \<le> lens SecondChain \<Longrightarrow>
      k' \<le> refs \<Longrightarrow> (i', j', k') \<noteq> (i, j, k) \<Longrightarrow>
      T ! shape_at shape i' j' k' = most matching (beyond (at_pos i' j') k')"
  shows "backward_cell R shape (lens FirstChain) (lens SecondChain) refs i j k T =
    most matching (beyond (at_pos i j) k)"
proof (cases "k = refs")
  case True
  then show ?thesis
    using T assms by (simp add: backward_cell_def most_beyond_none)
next
  case False
  then have k: "k < refs"
    using assms by simp
  let ?V = "\<lambda>i j k. most matching (beyond (at_pos i j) k)"
  let ?B = "backward_cell R shape (lens FirstChain) (lens SecondChain) refs i j k T"
  have first: "relation_matches R FirstChain i k \<longleftrightarrow> matching (match_at FirstChain (at_pos i j) k)"
    if "i < lens FirstChain"
    using relation_at[of "at_pos i j" FirstChain k] that k by simp
  have second: "relation_matches R SecondChain j k \<longleftrightarrow> matching (match_at SecondChain (at_pos i j) k)"
    if "j < lens SecondChain"
    using relation_at[of "at_pos i j" SecondChain k] that k by simp
  have below: "?V (i + 1) j k \<le> ?V i j k" "?V i (j + 1) k \<le> ?V i j k" "?V i j (k + 1) \<le> ?V i j k"
    using beyond_smaller[of FirstChain "at_pos i j" k] beyond_smaller[of SecondChain "at_pos i j" k]
      beyond_fewer[of "at_pos i j" k] by simp_all
  have match: "?V (i + 1) j (k + 1) + 1 \<le> ?V i j k" if "i < lens FirstChain" "relation_matches R FirstChain i k"
    using beyond_match[of FirstChain "at_pos i j" k] that first by simp
  have match': "?V i (j + 1) (k + 1) + 1 \<le> ?V i j k" if "j < lens SecondChain" "relation_matches R SecondChain j k"
    using beyond_match[of SecondChain "at_pos i j" k] that second by simp
  have dep: "i < lens FirstChain \<Longrightarrow> T ! shape_at shape (i + 1) j k = ?V (i + 1) j k"
    "j < lens SecondChain \<Longrightarrow> T ! shape_at shape i (j + 1) k = ?V i (j + 1) k"
    "T ! shape_at shape i j (k + 1) = ?V i j (k + 1)"
    "i < lens FirstChain \<Longrightarrow> T ! shape_at shape (i + 1) j (k + 1) = ?V (i + 1) j (k + 1)"
    "j < lens SecondChain \<Longrightarrow> T ! shape_at shape i (j + 1) (k + 1) = ?V i (j + 1) (k + 1)"
    using T k assms(1,2) by simp_all
  note deps = dep[simplified]
    and bounds = backward_cell_le[simplified, of k refs R shape "lens FirstChain" "lens SecondChain" i j T]
  have le: "?B \<le> ?V i j k"
    using k below match match' by (simp add: bounds deps)
  have options: "(i < lens FirstChain \<longrightarrow> ?V (i + 1) j k \<le> ?B) \<and>
      (j < lens SecondChain \<longrightarrow> ?V i (j + 1) k \<le> ?B) \<and> ?V i j (k + 1) \<le> ?B \<and>
      (i < lens FirstChain \<and> relation_matches R FirstChain i k \<longrightarrow> ?V (i + 1) j (k + 1) + 1 \<le> ?B) \<and>
      (j < lens SecondChain \<and> relation_matches R SecondChain j k \<longrightarrow> ?V i (j + 1) (k + 1) + 1 \<le> ?B)"
    using k bounds[of ?B] by (simp add: deps)
  have ge: "?V i j k \<le> ?B"
  proof (cases rule: beyond_cases[of "at_pos i j" k])
    case (skip c)
    then show ?thesis
      using options by (cases c) simp_all
  next
    case (match c)
    then show ?thesis
      using options first second by (cases c) simp_all
  qed (use options in simp)
  show ?thesis
    using le ge by (rule antisym)
qed

end

context prepared_census
begin

lemma forward_table_exact:
  "i \<le> lens FirstChain \<Longrightarrow> j \<le> lens SecondChain \<Longrightarrow> k \<le> refs \<Longrightarrow>
   forward_table R shape (lens FirstChain) (lens SecondChain) refs ! shape_at shape i j k =
   most matching (ahead_of (at_pos i j) k)"
proof -
  assume bounds: "i \<le> lens FirstChain" "j \<le> lens SecondChain" "k \<le> refs"
  let ?cs = "states (lens FirstChain) (lens SecondChain) refs"
  let ?ix = "\<lambda>(i, j, k). shape_at shape i j k" and ?cell = "\<lambda>(i, j, k). forward_cell R shape i j k"
    and ?V = "\<lambda>(i, j, k). most matching (ahead_of (at_pos i j) k)"
  have table: "forward_table R shape (lens FirstChain) (lens SecondChain) refs =
      fold (\<lambda>c T. T[?ix c := ?cell c T]) ?cs (replicate (sh_cells shape) 0)"
    unfolding forward_table_def fold_product states_def
    by (intro fold_cong) (simp_all add: split_beta fun_eq_iff)
  have all: "\<forall>c\<in>set ?cs. fold (\<lambda>c T. T[?ix c := ?cell c T]) ?cs (replicate (sh_cells shape) 0) ! ?ix c = ?V c"
  proof (rule fold_fills)
    show "distinct (map ?ix ?cs)"
      unfolding index_of_states by simp
    show "\<forall>c\<in>set ?cs. ?ix c < length (replicate (sh_cells shape) 0)"
      using index_bound by auto
    show "?cell c T = ?V c" if split: "?cs = us @ c # vs" and filled: "\<forall>d\<in>set us. T ! ?ix d = ?V d" for us c vs T
    proof -
      obtain i j k where c: "c = (i, j, k)"
        by (rule prod_cases3)
      have "c \<in> set ?cs"
        unfolding split by simp
      moreover have "T ! shape_at shape i' j' k' = most matching (ahead_of (at_pos i' j') k')"
        if le: "i' \<le> i" "j' \<le> j" "k' \<le> k" "(i', j', k') \<noteq> (i, j, k)" for i' j' k'
        using earlier_state[OF split[unfolded c] le] filled by fastforce
      ultimately show ?thesis
        using forward_cell_most[of i j k T] unfolding c by simp
    qed
  qed
  show ?thesis
    unfolding table using bspec[OF all, of "(i, j, k)"] bounds by simp
qed

lemma backward_table_exact:
  "i \<le> lens FirstChain \<Longrightarrow> j \<le> lens SecondChain \<Longrightarrow> k \<le> refs \<Longrightarrow>
   backward_table R shape (lens FirstChain) (lens SecondChain) refs ! shape_at shape i j k =
   most matching (beyond (at_pos i j) k)" (is "_ \<Longrightarrow> _ \<Longrightarrow> _ \<Longrightarrow> ?T ! _ = _")
  and backward_table_length:
  "length (backward_table R shape (lens FirstChain) (lens SecondChain) refs) = sh_cells shape"
proof -
  let ?cs = "rev (states (lens FirstChain) (lens SecondChain) refs)"
  let ?ix = "\<lambda>(i, j, k). shape_at shape i j k"
    and ?cell = "\<lambda>(i, j, k). backward_cell R shape (lens FirstChain) (lens SecondChain) refs i j k"
    and ?V = "\<lambda>(i, j, k). most matching (beyond (at_pos i j) k)"
  have table: "?T = fold (\<lambda>c T. T[?ix c := ?cell c T]) ?cs (replicate (sh_cells shape) 0)"
    unfolding backward_table_def fold_product states_def product_rev
    by (intro fold_cong) (simp_all add: split_beta fun_eq_iff)
  show "length ?T = sh_cells shape"
    unfolding table length_fold_update by simp
  have all: "\<forall>c\<in>set ?cs. fold (\<lambda>c T. T[?ix c := ?cell c T]) ?cs (replicate (sh_cells shape) 0) ! ?ix c = ?V c"
  proof (rule fold_fills)
    show "distinct (map ?ix ?cs)"
      unfolding rev_map[symmetric] index_of_states by simp
    show "\<forall>c\<in>set ?cs. ?ix c < length (replicate (sh_cells shape) 0)"
      using index_bound by auto
    show "?cell c T = ?V c" if split: "?cs = us @ c # vs" and filled: "\<forall>d\<in>set us. T ! ?ix d = ?V d" for us c vs T
    proof -
      obtain i j k where c: "c = (i, j, k)"
        by (rule prod_cases3)
      have "c \<in> set ?cs"
        unfolding split by simp
      moreover have "T ! shape_at shape i' j' k' = most matching (beyond (at_pos i' j') k')"
        if le: "i \<le> i'" "j \<le> j'" "k \<le> k'" "i' \<le> lens FirstChain" "j' \<le> lens SecondChain" "k' \<le> refs"
          "(i', j', k') \<noteq> (i, j, k)" for i' j' k'
        using later_state[OF split[unfolded c] le] filled by fastforce
      ultimately show ?thesis
        using backward_cell_most[of i j k T] unfolding c by simp
    qed
  qed
  show "?T ! shape_at shape i j k = most matching (beyond (at_pos i j) k)"
    if "i \<le> lens FirstChain" "j \<le> lens SecondChain" "k \<le> refs"
    unfolding table using bspec[OF all, of "(i, j, k)"] that by simp
qed

lemma collects_match:
  assumes "matching (match_at c p k)" "collects matching (step_of c p) (k + 1) path"
    and "1 + most matching (beyond (step_of c p) (k + 1)) = most matching (beyond p k)"
  shows "collects matching p k (match_at c p k # path)"
proof -
  have path: "assignment matching (set path)" "set path \<subseteq> beyond (step_of c p) (k + 1)"
    using assms(2) by (simp_all add: collects_def)
  have "{match_at c p k} \<subseteq> ahead_of (step_of c p) (k + 1)"
    by (simp add: ahead_of_def step_of_def)
  then have "assignment matching ({match_at c p k} \<union> set path)"
    by (rule assignment_glue[OF assignment_single[of matching, OF assms(1)] path(1) _ path(2)])
  moreover have "set path \<subseteq> beyond p k"
    using path(2) by (fastforce simp: beyond_def step_of_def split: if_splits)
  moreover have "\<forall>a\<in>set path. k < ma_reference a"
    using path(2) by (auto simp: beyond_def)
  ultimately show ?thesis
    using assms(2,3) by (simp add: collects_def beyond_def)
qed

lemma collects_skip:
  assumes "collects matching q l path" "beyond q l \<subseteq> beyond p k"
    "most matching (beyond q l) = most matching (beyond p k)"
  shows "collects matching p k path"
  using assms by (auto simp: collects_def)

lemma collects_reference:
  "collects matching p (k + 1) path \<Longrightarrow> most matching (beyond p (k + 1)) = most matching (beyond p k) \<Longrightarrow> collects matching p k path"
  by (erule collects_skip) (auto simp: beyond_def)

lemma collects_step:
  "collects matching (step_of c p) k path \<Longrightarrow> most matching (beyond (step_of c p) k) = most matching (beyond p k) \<Longrightarrow>
   collects matching p k path"
  by (erule collects_skip) (auto simp: beyond_def step_of_def split: if_splits)

lemma collects_end: "refs \<le> k \<Longrightarrow> collects matching p k []"
  by (simp add: collects_def most_beyond_none)

lemma second_optimal:
  assumes "i < lens FirstChain \<or> j < lens SecondChain \<or> k < refs"
    and "\<not> (i < lens FirstChain \<and> k < refs \<and> matching (match_at FirstChain (at_pos i j) k) \<and>
        1 + most matching (beyond (at_pos (i + 1) j) (k + 1)) = most matching (beyond (at_pos i j) k))"
      "\<not> (j < lens SecondChain \<and> k < refs \<and> matching (match_at SecondChain (at_pos i j) k) \<and>
        1 + most matching (beyond (at_pos i (j + 1)) (k + 1)) = most matching (beyond (at_pos i j) k))"
      "\<not> (k < refs \<and> most matching (beyond (at_pos i j) (k + 1)) = most matching (beyond (at_pos i j) k))"
      "\<not> (i < lens FirstChain \<and> most matching (beyond (at_pos (i + 1) j) k) = most matching (beyond (at_pos i j) k))"
  shows "j < lens SecondChain \<and> most matching (beyond (at_pos i (j + 1)) k) = most matching (beyond (at_pos i j) k)"
proof (cases "k < refs")
  case False
  then show ?thesis
    using assms(1,5) by (auto simp: most_beyond_none)
next
  case True
  have matched: "1 + most matching (beyond (step_of c (at_pos i j)) (k + 1)) = most matching (beyond (at_pos i j) k)"
    if "matching (match_at c (at_pos i j) k)"
      "most matching (beyond (at_pos i j) k) \<le> most matching (beyond (step_of c (at_pos i j)) (k + 1)) + 1" for c
    using beyond_match[OF that(1)] that(2) by simp
  have skipped: "most matching (beyond (step_of c (at_pos i j)) k) = most matching (beyond (at_pos i j) k)"
    if "most matching (beyond (at_pos i j) k) \<le> most matching (beyond (step_of c (at_pos i j)) k)" for c
    using beyond_smaller[of c "at_pos i j" k] that by simp
  show ?thesis
  proof (cases rule: beyond_cases[of "at_pos i j" k])
    case reference
    then show ?thesis
      using assms(4) True beyond_fewer[of "at_pos i j" k] by simp
  next
    case (skip c)
    then show ?thesis
      using skipped[of c] assms(5) by (cases c) simp_all
  next
    case (match c)
    then show ?thesis
      using matched[of c] assms(2,3) True by (cases c) simp_all
  qed
qed

lemma select_path_unfold:
  assumes "i \<le> lens FirstChain" "j \<le> lens SecondChain" "k \<le> refs"
    and "i < lens FirstChain \<or> j < lens SecondChain \<or> k < refs"
  shows "select_path R shape (lens FirstChain) (lens SecondChain) refs
      (backward_table R shape (lens FirstChain) (lens SecondChain) refs) i j k acc =
    (let go = select_path R shape (lens FirstChain) (lens SecondChain) refs
           (backward_table R shape (lens FirstChain) (lens SecondChain) refs);
         V = (\<lambda>i j k. most matching (beyond (at_pos i j) k))
     in if i < lens FirstChain \<and> k < refs \<and> matching (match_at FirstChain (at_pos i j) k) \<and>
           1 + V (i + 1) j (k + 1) = V i j k
        then go (i + 1) j (k + 1) (acc @ [match_at FirstChain (at_pos i j) k])
        else if j < lens SecondChain \<and> k < refs \<and> matching (match_at SecondChain (at_pos i j) k) \<and>
           1 + V i (j + 1) (k + 1) = V i j k
        then go i (j + 1) (k + 1) (acc @ [match_at SecondChain (at_pos i j) k])
        else if k < refs \<and> V i j (k + 1) = V i j k then go i j (k + 1) acc
        else if i < lens FirstChain \<and> V (i + 1) j k = V i j k then go (i + 1) j k acc
        else go i (j + 1) k acc)"
proof -
  let ?T = "backward_table R shape (lens FirstChain) (lens SecondChain) refs"
  have reads: "i < lens FirstChain \<Longrightarrow> k < refs \<Longrightarrow> ?T ! shape_at shape (i + 1) j (k + 1) = most matching (beyond (at_pos (i + 1) j) (k + 1))"
    "j < lens SecondChain \<Longrightarrow> k < refs \<Longrightarrow> ?T ! shape_at shape i (j + 1) (k + 1) = most matching (beyond (at_pos i (j + 1)) (k + 1))"
    "k < refs \<Longrightarrow> ?T ! shape_at shape i j (k + 1) = most matching (beyond (at_pos i j) (k + 1))"
    "i < lens FirstChain \<Longrightarrow> ?T ! shape_at shape (i + 1) j k = most matching (beyond (at_pos (i + 1) j) k)"
    using assms(1-3) by (simp_all add: backward_table_exact)
  have "table_read ?T (shape_at shape i j k) = Some (most matching (beyond (at_pos i j) k))"
    using assms(1-3) by (simp add: table_read_def backward_table_length index_bound backward_table_exact)
  then show ?thesis
    using assms(4) by (subst select_path.simps)
      (simp add: reads[simplified] relation_exact match_at_def Let_def cong: conj_cong)
qed

lemma select_path_collects:
  assumes "i \<le> lens FirstChain" "j \<le> lens SecondChain" "k \<le> refs"
  shows "\<exists>path. select_path R shape (lens FirstChain) (lens SecondChain) refs
      (backward_table R shape (lens FirstChain) (lens SecondChain) refs) i j k acc = Some (acc @ path) \<and>
      collects matching (at_pos i j) k path"
  using assms
proof (induction "(lens FirstChain - i) + (lens SecondChain - j) + (refs - k)" arbitrary: i j k acc
    rule: less_induct)
  case less
  let ?go = "select_path R shape (lens FirstChain) (lens SecondChain) refs
      (backward_table R shape (lens FirstChain) (lens SecondChain) refs)"
  let ?V = "\<lambda>i j k. most matching (beyond (at_pos i j) k)"
  let ?first = "i < lens FirstChain \<and> k < refs \<and> matching (match_at FirstChain (at_pos i j) k) \<and>
    1 + ?V (i + 1) j (k + 1) = ?V i j k"
  let ?second = "j < lens SecondChain \<and> k < refs \<and> matching (match_at SecondChain (at_pos i j) k) \<and>
    1 + ?V i (j + 1) (k + 1) = ?V i j k"
  let ?reference = "k < refs \<and> ?V i j (k + 1) = ?V i j k"
  let ?skip = "i < lens FirstChain \<and> ?V (i + 1) j k = ?V i j k"
  show ?case
  proof (cases "i < lens FirstChain \<or> j < lens SecondChain \<or> k < refs")
    case False
    then show ?thesis
      using less.prems by (subst select_path.simps) (simp add: collects_end)
  next
    case True
    note step = select_path_unfold[OF less.prems True, of acc, unfolded Let_def]
    consider (first) ?first | (second) "\<not> ?first" ?second | (reference) "\<not> ?first" "\<not> ?second" ?reference
      | (skip) "\<not> ?first" "\<not> ?second" "\<not> ?reference" ?skip
      | (last) "\<not> ?first" "\<not> ?second" "\<not> ?reference" "\<not> ?skip"
      by blast
    then show ?thesis
    proof cases
      case first
      obtain path where "?go (i + 1) j (k + 1) (acc @ [match_at FirstChain (at_pos i j) k]) =
          Some ((acc @ [match_at FirstChain (at_pos i j) k]) @ path)"
        "collects matching (at_pos (i + 1) j) (k + 1) path"
        using less.hyps[of "i + 1" j "k + 1"] first less.prems by fastforce
      then show ?thesis
        using step[unfolded if_P[OF first]] first collects_match[of FirstChain "at_pos i j" k path] by simp
    next
      case second
      obtain path where "?go i (j + 1) (k + 1) (acc @ [match_at SecondChain (at_pos i j) k]) =
          Some ((acc @ [match_at SecondChain (at_pos i j) k]) @ path)"
        "collects matching (at_pos i (j + 1)) (k + 1) path"
        using less.hyps[of i "j + 1" "k + 1"] second less.prems by fastforce
      then show ?thesis
        using step[unfolded if_not_P[OF second(1)] if_P[OF second(2)]] second(2) collects_match[of SecondChain "at_pos i j" k path] by simp
    next
      case reference
      obtain path where "?go i j (k + 1) acc = Some (acc @ path)" "collects matching (at_pos i j) (k + 1) path"
        using less.hyps[of i j "k + 1"] reference less.prems by fastforce
      then show ?thesis
        using step[unfolded if_not_P[OF reference(1)] if_not_P[OF reference(2)] if_P[OF reference(3)]]
          reference(3) collects_reference[of "at_pos i j" k path] by simp
    next
      case skip
      obtain path where "?go (i + 1) j k acc = Some (acc @ path)" "collects matching (at_pos (i + 1) j) k path"
        using less.hyps[of "i + 1" j k] skip less.prems by fastforce
      then show ?thesis
        using step[unfolded if_not_P[OF skip(1)] if_not_P[OF skip(2)] if_not_P[OF skip(3)] if_P[OF skip(4)]]
          skip(4) collects_step[of FirstChain "at_pos i j" k path] by simp
    next
      case last
      then have j: "j < lens SecondChain" "?V i (j + 1) k = ?V i j k"
        using second_optimal[OF True] by blast+
      obtain path where "?go i (j + 1) k acc = Some (acc @ path)" "collects matching (at_pos i (j + 1)) k path"
        using less.hyps[of i "j + 1" k] j less.prems by fastforce
      then show ?thesis
        using step[unfolded if_not_P[OF last(1)] if_not_P[OF last(2)] if_not_P[OF last(3)] if_not_P[OF last(4)]]
          j collects_step[of SecondChain "at_pos i j" k path] by simp
    qed
  qed
qed

lemma collects_largest: "collects matching (at_pos 0 0) 0 path \<Longrightarrow> largest matching (set path) \<and> distinct path"
proof -
  assume path: "collects matching (at_pos 0 0) 0 path"
  then have "distinct (map ma_reference path)"
    by (simp add: collects_def strict_sorted_iff)
  then have "distinct path"
    by (simp add: distinct_map)
  then show ?thesis
    using path by (simp add: collects_def beyond_start largest_iff distinct_card)
qed

end

subsection \<open>Evidence collected from the edges\<close>

definition words_of :: "(speaker_chain \<Rightarrow> nat) \<Rightarrow> word_evidence list list \<Rightarrow> bool" where
  "words_of lens words \<longleftrightarrow> length words = 2 \<and> (\<forall>c. length (words ! chain_index c) = lens c)"

lemma chain_index_eq [simp]: "chain_index c = chain_index d \<longleftrightarrow> c = d" "chain_index c < 2"
  by (cases c; cases d; simp)+

lemma words_of_edge:
  "words_of lens words \<Longrightarrow> words_of lens (observe_edge R shape r B opt prefix k edge words)"
  by (cases edge) (auto simp: words_of_def observe_edge_def Let_def nth_list_update)

lemma edge_other:
  assumes "words_of lens words" "chain \<noteq> c \<or> word \<noteq> w"
  shows "observe_edge R shape r B opt prefix k (chain, word, i, j) words ! chain_index c ! w = words ! chain_index c ! w"
  using assms by (cases "chain = c") (auto simp: words_of_def observe_edge_def Let_def)

lemma edge_own:
  assumes "words_of lens words" "w < lens c"
  shows "we_can_be_missing (observe_edge R shape r B opt prefix k (c, w, i, j) words ! chain_index c ! w) \<longleftrightarrow>
      we_can_be_missing (words ! chain_index c ! w) \<or> prefix + B ! shape_at shape i j k = opt"
    and "we_candidates (observe_edge R shape r B opt prefix k (c, w, i, j) words ! chain_index c ! w) =
      we_candidates (words ! chain_index c ! w) @
      (if k < r \<and> relation_matches R c w k \<and> prefix + 1 + B ! shape_at shape i j (k + 1) = opt then [k] else [])"
  using assms by (simp_all add: words_of_def observe_edge_def Let_def)

lemma edge_missing:
  assumes "words_of lens words" "w < lens c"
  shows "we_can_be_missing (observe_edge R shape r B opt prefix k (chain, word, i, j) words ! chain_index c ! w) \<longleftrightarrow>
    we_can_be_missing (words ! chain_index c ! w) \<or>
    chain = c \<and> word = w \<and> prefix + B ! shape_at shape i j k = opt"
  using edge_own(1)[OF assms] edge_other[OF assms(1)] by (cases "chain = c \<and> word = w") auto

lemma edge_candidates:
  assumes "words_of lens words" "w < lens c"
  shows "set (we_candidates (observe_edge R shape r B opt prefix k (chain, word, i, j) words ! chain_index c ! w)) =
    set (we_candidates (words ! chain_index c ! w)) \<union>
    {l. l = k \<and> chain = c \<and> word = w \<and> k < r \<and> relation_matches R c w k \<and>
        prefix + 1 + B ! shape_at shape i j (k + 1) = opt}"
proof (cases "chain = c \<and> word = w")
  case True
  then show ?thesis
    using edge_own(2)[OF assms, of R shape r B opt prefix k i j] by auto
next
  case False
  then show ?thesis
    using edge_other[OF assms(1), of chain c word w R shape r B opt prefix k i j] by auto
qed

text \<open>
  A run over edges, each with the score before it: the edges that let a word be missing and those
  that give it a candidate.
\<close>

type_synonym scored_edge = "nat \<times> nat \<times> speaker_chain \<times> nat \<times> nat \<times> nat"

fun skips :: "admitted_shape \<Rightarrow> nat list \<Rightarrow> nat \<Rightarrow> speaker_chain \<Rightarrow> nat \<Rightarrow> scored_edge \<Rightarrow> bool" where
  "skips shape B opt c w (prefix, k, chain, word, i, j) \<longleftrightarrow>
     chain = c \<and> word = w \<and> prefix + B ! shape_at shape i j k = opt"

fun takes ::
  "match_relation \<Rightarrow> admitted_shape \<Rightarrow> nat \<Rightarrow> nat list \<Rightarrow> nat \<Rightarrow> speaker_chain \<Rightarrow> nat \<Rightarrow> scored_edge \<Rightarrow> nat \<Rightarrow>
   bool" where
  "takes R shape r B opt c w (prefix, k, chain, word, i, j) l \<longleftrightarrow>
     l = k \<and> chain = c \<and> word = w \<and> k < r \<and> relation_matches R c w k \<and>
     prefix + 1 + B ! shape_at shape i j (k + 1) = opt"

lemma edges_evidence:
  assumes "words_of lens words" "w < lens c"
  shows "words_of lens (fold (\<lambda>(prefix, k, edge). observe_edge R shape r B opt prefix k edge) es words) \<and>
    (we_can_be_missing
       (fold (\<lambda>(prefix, k, edge). observe_edge R shape r B opt prefix k edge) es words ! chain_index c ! w) \<longleftrightarrow>
     we_can_be_missing (words ! chain_index c ! w) \<or> (\<exists>e\<in>set es. skips shape B opt c w e)) \<and>
    set (we_candidates
       (fold (\<lambda>(prefix, k, edge). observe_edge R shape r B opt prefix k edge) es words ! chain_index c ! w)) =
     set (we_candidates (words ! chain_index c ! w)) \<union> {l. \<exists>e\<in>set es. takes R shape r B opt c w e l}"
proof (induction es rule: rev_induct)
  case Nil
  then show ?case
    using assms(1) by simp
next
  case (snoc e es)
  obtain prefix k chain word i j where e: "e = (prefix, k, chain, word, i, j)"
    by (metis prod.collapse)
  define mid where "mid = fold (\<lambda>(prefix, k, edge). observe_edge R shape r B opt prefix k edge) es words"
  note IH = snoc.IH[folded mid_def]
  have wf: "words_of lens mid"
    using IH by blast
  have run: "fold (\<lambda>(prefix, k, edge). observe_edge R shape r B opt prefix k edge) (es @ [e]) words =
      observe_edge R shape r B opt prefix k (chain, word, i, j) mid"
    by (simp add: e mid_def)
  show ?case
    unfolding run edge_missing[OF wf assms(2)] edge_candidates[OF wf assms(2)]
    using IH words_of_edge[OF wf, of R shape r B opt prefix k "(chain, word, i, j)"]
    by (simp add: e bex_Un Un_assoc Collect_disj_eq disj_commute Un_commute)
qed

text \<open>The edges of the three loops, with the forward score of the state they leave.\<close>

fun edges_at :: "admitted_shape \<Rightarrow> nat list \<Rightarrow> nat \<times> nat \<times> nat \<Rightarrow> scored_edge list" where
  "edges_at shape forward (i, j, k) =
     [(forward ! shape_at shape i j k, k, FirstChain, i, i + 1, j),
      (forward ! shape_at shape i j k, k, SecondChain, j, i, j + 1)]"

definition scored_edges :: "admitted_shape \<Rightarrow> nat \<Rightarrow> nat \<Rightarrow> nat \<Rightarrow> nat list \<Rightarrow> scored_edge list" where
  "scored_edges shape m n r forward = concat (map (edges_at shape forward) (states m n r))"

lemma observe_edges_eq:
  "observe_edges R shape m n r forward B opt =
     fold (\<lambda>(prefix, k, edge). observe_edge R shape r B opt prefix k edge) (scored_edges shape m n r forward)
       (map (\<lambda>len. map (\<lambda>_. \<lparr>we_candidates = [], we_can_be_missing = False\<rparr>) [0..<len]) [m, n])"
  (is "_ = fold ?f _ ?init")
proof -
  define visit where "visit = (\<lambda>i j k. fold ?f (edges_at shape forward (i, j, k)))"
  have "observe_edges R shape m n r forward B opt =
      fold (\<lambda>i. fold (\<lambda>j. fold (visit i j) [0..<r + 1]) [0..<n + 1]) [0..<m + 1] ?init"
    by (simp add: observe_edges_def visit_def)
  also have "\<dots> = fold (\<lambda>(i, j, k). visit i j k) (states m n r) ?init"
    unfolding fold_product states_def by (intro fold_cong) (simp_all add: split_beta)
  also have "\<dots> = fold (\<lambda>s. fold ?f (edges_at shape forward s)) (states m n r) ?init"
    by (intro fold_cong) (auto simp: visit_def)
  finally show ?thesis
    by (simp only: fold_concat_map scored_edges_def)
qed

lemma in_scored_edges:
  "(prefix, k, c, w, i', j') \<in> set (scored_edges shape m n r forward) \<longleftrightarrow>
     (\<exists>p. p FirstChain \<le> m \<and> p SecondChain \<le> n \<and> k \<le> r \<and> p c = w \<and>
        prefix = forward ! shape_at shape (p FirstChain) (p SecondChain) k \<and>
        i' = step_of c p FirstChain \<and> j' = step_of c p SecondChain)" (is "?edge \<longleftrightarrow> ?position")
proof
  assume ?edge
  then obtain i j where "i \<le> m" "j \<le> n" "k \<le> r" "prefix = forward ! shape_at shape i j k"
    "c = FirstChain \<and> w = i \<and> i' = i + 1 \<and> j' = j \<or> c = SecondChain \<and> w = j \<and> i' = i \<and> j' = j + 1"
    by (auto simp: scored_edges_def)
  then show ?position
    by (intro exI[of _ "at_pos i j"]) auto
next
  assume ?position
  then obtain p where p: "p FirstChain \<le> m" "p SecondChain \<le> n" "k \<le> r" "p c = w"
    "prefix = forward ! shape_at shape (p FirstChain) (p SecondChain) k"
    "i' = step_of c p FirstChain" "j' = step_of c p SecondChain"
    by blast
  then have "(prefix, k, c, w, i', j') \<in> set (edges_at shape forward (p FirstChain, p SecondChain, k))"
    by (cases c) (simp_all add: step_of_def)
  moreover have "(p FirstChain, p SecondChain, k) \<in> set (states m n r)"
    using p by simp
  ultimately show ?edge
    unfolding scored_edges_def by (auto simp del: edges_at.simps in_states)
qed

context prepared_census
begin

lemma position_bounds:
  "p FirstChain \<le> lens FirstChain \<and> p SecondChain \<le> lens SecondChain \<longleftrightarrow> (\<forall>d. p d \<le> lens d)"
  by (metis speaker_chain.exhaust)

lemma prefix_at:
  "\<forall>d. p d \<le> lens d \<Longrightarrow> k \<le> refs \<Longrightarrow>
   forward_table R shape (lens FirstChain) (lens SecondChain) refs ! shape_at shape (p FirstChain) (p SecondChain) k =
   most matching (ahead_of p k)"
  by (simp add: forward_table_exact at_pos_eta)

lemma suffix_at:
  "\<forall>d. p d \<le> lens d \<Longrightarrow> k \<le> refs \<Longrightarrow>
   backward_table R shape (lens FirstChain) (lens SecondChain) refs ! shape_at shape (p FirstChain) (p SecondChain) k =
   most matching (beyond p k)"
  by (simp add: backward_table_exact at_pos_eta)

lemma step_within: "\<forall>d. p d \<le> lens d \<Longrightarrow> p c < lens c \<Longrightarrow> \<forall>d. step_of c p d \<le> lens d"
  by (simp add: step_of_def)

lemma skips_exact:
  assumes "w < lens c"
  shows "(\<exists>e\<in>set (scored_edges shape (lens FirstChain) (lens SecondChain) refs
       (forward_table R shape (lens FirstChain) (lens SecondChain) refs)).
       skips shape (backward_table R shape (lens FirstChain) (lens SecondChain) refs) (most matching UNIV) c w e) \<longleftrightarrow>
     (\<exists>A. largest matching A \<and> (\<forall>a\<in>A. \<not> (ma_chain a = c \<and> ma_word a = w)))" 
    (is "(\<exists>e\<in>set (scored_edges _ ?m ?n _ ?F). skips _ ?B _ _ _ e) \<longleftrightarrow> ?omits")
proof
  assume "\<exists>e\<in>set (scored_edges shape ?m ?n refs ?F). skips shape ?B (most matching UNIV) c w e"
  then obtain prefix k i j where e: "(prefix, k, c, w, i, j) \<in> set (scored_edges shape ?m ?n refs ?F)"
    "prefix + ?B ! shape_at shape i j k = most matching UNIV"
    by (auto elim!: skips.elims)
  then obtain p where p: "\<forall>d. p d \<le> lens d" "k \<le> refs" "p c = w"
    "prefix = ?F ! shape_at shape (p FirstChain) (p SecondChain) k"
    "i = step_of c p FirstChain" "j = step_of c p SecondChain"
    unfolding in_scored_edges using position_bounds by blast
  then have "most matching (ahead_of p k) + most matching (beyond (step_of c p) k) = most matching UNIV"
    using e(2) assms prefix_at[OF p(1,2)] suffix_at[OF step_within[OF p(1), of c] p(2)] by simp
  then show ?omits
    using skip_largest p(3) by blast
next
  assume ?omits
  then obtain p k where p: "\<forall>d. p d \<le> lens d" "k \<le> refs" "p c = w"
    "most matching (ahead_of p k) + most matching (beyond (step_of c p) k) = most matching UNIV"
    using skip_on_largest[OF _ assms] by metis
  have "(most matching (ahead_of p k), k, c, w, step_of c p FirstChain, step_of c p SecondChain) \<in> set (scored_edges shape ?m ?n refs ?F)"
    unfolding in_scored_edges using p prefix_at[OF p(1,2)] by (intro exI[of _ p]) simp
  moreover have "skips shape ?B (most matching UNIV) c w
      (most matching (ahead_of p k), k, c, w, step_of c p FirstChain, step_of c p SecondChain)"
    using p assms suffix_at[OF step_within[OF p(1), of c] p(2)] by simp
  ultimately show "\<exists>e\<in>set (scored_edges shape ?m ?n refs ?F). skips shape ?B (most matching UNIV) c w e"
    by blast
qed

lemma takes_exact:
  assumes "w < lens c"
  shows "(\<exists>e\<in>set (scored_edges shape (lens FirstChain) (lens SecondChain) refs
       (forward_table R shape (lens FirstChain) (lens SecondChain) refs)).
       takes R shape refs (backward_table R shape (lens FirstChain) (lens SecondChain) refs) (most matching UNIV)
         c w e l) \<longleftrightarrow>
     (\<exists>A. largest matching A \<and> \<lparr>ma_chain = c, ma_word = w, ma_reference = l\<rparr> \<in> A)" 
    (is "(\<exists>e\<in>set (scored_edges _ ?m ?n _ ?F). takes _ _ _ ?B _ _ _ e _) \<longleftrightarrow> ?has")
proof
  assume "\<exists>e\<in>set (scored_edges shape ?m ?n refs ?F). takes R shape refs ?B (most matching UNIV) c w e l"
  then obtain prefix i j where e: "(prefix, l, c, w, i, j) \<in> set (scored_edges shape ?m ?n refs ?F)" "l < refs" "relation_matches R c w l"
    "prefix + 1 + ?B ! shape_at shape i j (l + 1) = most matching UNIV"
    by (auto elim!: takes.elims)
  then obtain p where p: "\<forall>d. p d \<le> lens d" "p c = w"
    "prefix = ?F ! shape_at shape (p FirstChain) (p SecondChain) l"
    "i = step_of c p FirstChain" "j = step_of c p SecondChain"
    unfolding in_scored_edges using position_bounds by blast
  then have "most matching (ahead_of p l) + 1 + most matching (beyond (step_of c p) (l + 1)) = most matching UNIV"
    using e(2,4) assms prefix_at[OF p(1), of l] suffix_at[OF step_within[OF p(1), of c], of "l + 1"] by simp
  then show ?has
    using match_largest[of c p l] assms p(2) e(2,3) by (simp add: relation_exact match_at_def)
next
  assume ?has
  then obtain A where A: "largest matching A" "\<lparr>ma_chain = c, ma_word = w, ma_reference = l\<rparr> \<in> A"
    by blast
  then have m: "matching \<lparr>ma_chain = c, ma_word = w, ma_reference = l\<rparr>"
    by (auto simp: largest_def assignment_def)
  then have l: "l < refs" "relation_matches R c w l"
    using in_census[OF m] assms by (simp_all add: relation_exact)
  obtain p where p: "\<forall>d. p d \<le> lens d" "p c = w"
    "most matching (ahead_of p l) + 1 + most matching (beyond (step_of c p) (l + 1)) = most matching UNIV"
    using match_on_largest[OF A] by (metis match_address.select_convs(1-3))
  have "(most matching (ahead_of p l), l, c, w, step_of c p FirstChain, step_of c p SecondChain) \<in> set (scored_edges shape ?m ?n refs ?F)"
    unfolding in_scored_edges using p l(1) prefix_at[OF p(1), of l] by (intro exI[of _ p]) simp
  moreover have "takes R shape refs ?B (most matching UNIV) c w
      (most matching (ahead_of p l), l, c, w, step_of c p FirstChain, step_of c p SecondChain) l"
    using p l assms suffix_at[OF step_within[OF p(1), of c], of "l + 1"] by simp
  ultimately show "\<exists>e\<in>set (scored_edges shape ?m ?n refs ?F). takes R shape refs ?B (most matching UNIV) c w e l"
    by blast
qed

lemma evidence_exact:
  assumes "w < lens c"
  defines "evidence \<equiv> observe_edges R shape (lens FirstChain) (lens SecondChain) refs
      (forward_table R shape (lens FirstChain) (lens SecondChain) refs)
      (backward_table R shape (lens FirstChain) (lens SecondChain) refs) (most matching UNIV)"
  shows "words_of lens evidence"
    and "we_can_be_missing (evidence ! chain_index c ! w) \<longleftrightarrow>
      (\<exists>A. largest matching A \<and> (\<forall>a\<in>A. \<not> (ma_chain a = c \<and> ma_word a = w)))"
    and "set (we_candidates (evidence ! chain_index c ! w)) =
      {l. \<exists>A. largest matching A \<and> \<lparr>ma_chain = c, ma_word = w, ma_reference = l\<rparr> \<in> A}"
proof -
  let ?init = "map (\<lambda>len. map (\<lambda>_. \<lparr>we_candidates = [], we_can_be_missing = False\<rparr>) [0..<len])
      [lens FirstChain, lens SecondChain]"
  have chain: "?init ! chain_index d = map (\<lambda>_. \<lparr>we_candidates = [], we_can_be_missing = False\<rparr>) [0..<lens d]" for d
    by (cases d) simp_all
  have init: "words_of lens ?init" "\<not> we_can_be_missing (?init ! chain_index c ! w)"
    "we_candidates (?init ! chain_index c ! w) = []"
    unfolding words_of_def chain using assms(1) by simp_all
  note run = edges_evidence[OF init(1) assms(1), of R shape refs
      "backward_table R shape (lens FirstChain) (lens SecondChain) refs" "most matching UNIV"
      "scored_edges shape (lens FirstChain) (lens SecondChain) refs
         (forward_table R shape (lens FirstChain) (lens SecondChain) refs)",
      folded observe_edges_eq evidence_def, unfolded skips_exact[OF assms(1)] takes_exact[OF assms(1)]]
  show "words_of lens evidence"
    using run by blast
  show "we_can_be_missing (evidence ! chain_index c ! w) \<longleftrightarrow>
      (\<exists>A. largest matching A \<and> (\<forall>a\<in>A. \<not> (ma_chain a = c \<and> ma_word a = w)))"
    using run init(2) by blast
  show "set (we_candidates (evidence ! chain_index c ! w)) =
      {l. \<exists>A. largest matching A \<and> \<lparr>ma_chain = c, ma_word = w, ma_reference = l\<rparr> \<in> A}"
    using run init(3) by simp
qed

end

context word_census
begin

lemma finite_candidates:
  "finite {r. \<exists>M. largest matching M \<and> \<lparr>ma_chain = c, ma_word = w, ma_reference = r\<rparr> \<in> M}"
proof (rule finite_subset)
  show "{r. \<exists>M. largest matching M \<and> \<lparr>ma_chain = c, ma_word = w, ma_reference = r\<rparr> \<in> M} \<subseteq> {..<refs}"
    using in_census by (fastforce simp: largest_def assignment_def)
qed simp

text \<open>A word that no largest assignment omits and that has one candidate is matched alike in all of them.\<close>

lemma common_iff:
  "\<not> (\<exists>M. largest matching M \<and> (\<forall>a\<in>M. \<not> (ma_chain a = c \<and> ma_word a = w))) \<and>
   {r. \<exists>M. largest matching M \<and> \<lparr>ma_chain = c, ma_word = w, ma_reference = r\<rparr> \<in> M} = {r} \<longleftrightarrow>
   (\<forall>M. largest matching M \<longrightarrow> \<lparr>ma_chain = c, ma_word = w, ma_reference = r\<rparr> \<in> M)" (is "?unique \<longleftrightarrow> ?all")
proof
  assume unique: ?unique
  show ?all
  proof (intro allI impI)
    fix M assume M: "largest matching M"
    then obtain a where a: "a \<in> M" "ma_chain a = c" "ma_word a = w"
      using unique by blast
    then have own: "\<lparr>ma_chain = c, ma_word = w, ma_reference = ma_reference a\<rparr> = a"
      by simp
    then have "ma_reference a \<in> {r. \<exists>M. largest matching M \<and> \<lparr>ma_chain = c, ma_word = w, ma_reference = r\<rparr> \<in> M}"
      using M a(1) by auto
    then have "ma_reference a = r"
      using unique by blast
    then show "\<lparr>ma_chain = c, ma_word = w, ma_reference = r\<rparr> \<in> M"
      using own a(1) by simp
  qed
next
  assume all: ?all
  have same: "s = r" if "largest matching M" "\<lparr>ma_chain = c, ma_word = w, ma_reference = s\<rparr> \<in> M" for M s
    using assignment_word[of matching M "\<lparr>ma_chain = c, ma_word = w, ma_reference = s\<rparr>"
        "\<lparr>ma_chain = c, ma_word = w, ma_reference = r\<rparr>"] all that by (simp add: largest_def)
  have "\<not> (\<exists>M. largest matching M \<and> (\<forall>a\<in>M. \<not> (ma_chain a = c \<and> ma_word a = w)))"
    using all by (metis match_address.select_convs(1,2))
  moreover have "{r. \<exists>M. largest matching M \<and> \<lparr>ma_chain = c, ma_word = w, ma_reference = r\<rparr> \<in> M} = {r}"
    using same all largest_exists by blast
  ultimately show ?unique
    by blast
qed

end

subsection \<open>The analysis of two speakers\<close>

definition source_words :: "string list \<Rightarrow> string list \<Rightarrow> speaker_chain \<Rightarrow> string list" where
  "source_words first second c = [first, second] ! chain_index c"

definition lexical_match ::
  "'f fuzzy_ops \<Rightarrow> 'f match_mode \<Rightarrow> string list \<Rightarrow> string list \<Rightarrow> string list \<Rightarrow> match_address \<Rightarrow> bool" where
  "lexical_match F mode first second reference a \<longleftrightarrow>
     ma_word a < length (source_words first second (ma_chain a)) \<and> ma_reference a < length reference \<and>
     mode_matches F mode (source_words first second (ma_chain a) ! ma_word a) (reference ! ma_reference a)"

lemma concat_rows_nth:
  "w < length xs \<Longrightarrow> k < length ys \<Longrightarrow> concat (map (\<lambda>x. map (g x) ys) xs) ! (w * length ys + k) = g (xs ! w) (ys ! k)"
proof (induction xs arbitrary: w)
  case (Cons x xs)
  then show ?case
    by (cases w) (simp_all add: nth_append)
qed simp

lemma relation_new_exact:
  assumes "w < length (source_words first second c)" "k < length reference"
  shows "relation_matches (match_relation_new F [first, second] reference mode) c w k =
    mode_matches F mode (source_words first second c ! w) (reference ! k)"
proof -
  have rows: "map g [first, second] ! chain_index c = g (source_words first second c)" for g :: "string list \<Rightarrow> bool list"
    by (cases c) (simp_all add: source_words_def)
  have prepared: "concat (map (\<lambda>x. map (h x) (map pre reference)) src) ! (w * length reference + k) =
      h (src ! w) (pre (reference ! k))" if "w < length src"
    for h :: "string \<Rightarrow> prepared_fuzzy_word \<Rightarrow> bool" and pre src
    using concat_rows_nth[OF that, of k "map pre reference" h] assms(2) by simp
  show ?thesis
  proof (cases mode)
    case (Fuzzy t)
    then show ?thesis
      using assms prepared[OF assms(1)]
      unfolding relation_matches_def match_relation_new_def
      by (simp only: match_mode.case match_relation.select_convs Let_def rows fuzzy_matches_prepared)
  qed (use assms in \<open>simp_all only: relation_matches_def match_relation_new_def match_mode.case
      match_relation.select_convs rows concat_rows_nth mode_matches_def\<close>)
qed

interpretation lexical: prepared_census
  "lexical_match F mode first second reference" "\<lambda>c. length (source_words first second c)" "length reference"
  "match_relation_new F [first, second] reference mode"
  "\<lparr>sh_second = length second + 1, sh_reference = length reference + 1,
    sh_cells = (length first + 1) * (length second + 1) * (length reference + 1)\<rparr>"
  for F mode first second reference
  by unfold_locales (simp_all add: lexical_match_def relation_new_exact source_words_def)

lemma settle_words_nth:
  "words_of lens words \<Longrightarrow> w < lens c \<Longrightarrow>
   settle_words words ! chain_index c ! w =
   (words ! chain_index c ! w)\<lparr>we_candidates := remdups_adj (sort (we_candidates (words ! chain_index c ! w)))\<rparr>"
  by (simp add: settle_words_def words_of_def)

lemma distinct_remdups_adj: "sorted xs \<Longrightarrow> distinct (remdups_adj xs)" for xs :: "nat list"
  by (induction xs rule: remdups_adj.induct) auto

lemma remdups_adj_sort: "remdups_adj (sort xs) = sorted_list_of_set (set xs)" for xs :: "nat list"
  by (rule sorted_distinct_set_unique) (simp_all add: distinct_remdups_adj)

lemma with_budget_refuses:
  "min budget usize_max < (length first + 1) * (length second + 1) * (length reference + 1) \<Longrightarrow>
   with_budget F first second reference mode budget = Some (Err CellBudgetExceeded)"
  by (simp only: with_budget_def admitted_shape_new_eq not_less[symmetric] if_not_P simp_thms option.case)

text \<open>What an admitted analysis holds, in terms of its words.\<close>

lemma with_budget_admits:
  assumes "(length first + 1) * (length second + 1) * (length reference + 1) \<le> min budget usize_max"
  obtains A where "with_budget F first second reference mode budget = Some (Ok A)"
    "tsa_sources A = [first, second]" "tsa_reference A = reference"
    "collects (lexical_match F mode first second reference) (at_pos 0 0) 0 (tsa_selected A)"
    "tsa_optimum A = length (tsa_selected A)"
    "\<And>c w. w < length (source_words first second c) \<Longrightarrow>
       interleaving_can_be_missing A c w \<longleftrightarrow>
         (\<exists>M. largest (lexical_match F mode first second reference) M \<and>
            (\<forall>a\<in>M. \<not> (ma_chain a = c \<and> ma_word a = w)))"
    "\<And>c w. w < length (source_words first second c) \<Longrightarrow>
       we_candidates (interleaving_evidence A c w) =
         sorted_list_of_set {r. \<exists>M. largest (lexical_match F mode first second reference) M \<and>
            \<lparr>ma_chain = c, ma_word = w, ma_reference = r\<rparr> \<in> M}"
proof -
  let ?m = "length first" and ?n = "length second" and ?r = "length reference"
  let ?R = "match_relation_new F [first, second] reference mode"
  let ?shape = "\<lparr>sh_second = ?n + 1, sh_reference = ?r + 1, sh_cells = (?m + 1) * (?n + 1) * (?r + 1)\<rparr>"
  let ?F = "forward_table ?R ?shape ?m ?n ?r" and ?B = "backward_table ?R ?shape ?m ?n ?r"
  let ?M = "lexical_match F mode first second reference" and ?L = "\<lambda>c. length (source_words first second c)"
  have lens: "?L FirstChain = ?m" "?L SecondChain = ?n"
    by (simp_all add: source_words_def)
  obtain path where path: "select_path ?R ?shape ?m ?n ?r ?B 0 0 0 [] = Some path" "collects ?M (at_pos 0 0) 0 path"
    using lexical.select_path_collects[of 0 first second 0 0 reference F mode "[]"] by (auto simp: lens)
  have everything: "beyond (at_pos 0 0) 0 = UNIV"
    by (rule beyond_start)
  have "?B ! shape_at ?shape 0 0 0 = most ?M (beyond (at_pos 0 0) 0)"
    using lexical.backward_table_exact[of 0 first second 0 0 reference F mode] by (simp add: lens)
  then have opt: "?B ! 0 = most ?M UNIV"
    by (simp add: shape_at_def everything)
  define E where "E = observe_edges ?R ?shape ?m ?n ?r ?F ?B (?B ! 0)"
  define A where "A = \<lparr>tsa_sources = [first, second], tsa_reference = reference, tsa_optimum = ?B ! 0,
      tsa_selected = path, tsa_words = settle_words E\<rparr>"
  have run: "with_budget F first second reference mode budget = Some (Ok A)"
    using assms path(1) unfolding with_budget_def admitted_shape_new_eq A_def E_def
    by (simp only: if_P option.case Let_def bind.bind_lunit)
  note evidence = lexical.evidence_exact[where first = first and second = second and reference = reference and F = F
        and mode = mode, unfolded lens,
      folded opt, folded E_def]
  have settled: "tsa_words A ! chain_index c ! w =
      (E ! chain_index c ! w)\<lparr>we_candidates := sorted_list_of_set (set (we_candidates (E ! chain_index c ! w)))\<rparr>"
    if "w < ?L c" for c w
    using settle_words_nth[OF evidence(1)[OF that] that] by (simp add: A_def remdups_adj_sort)
  show thesis
  proof (rule that[OF run])
    show "collects ?M (at_pos 0 0) 0 (tsa_selected A)" "tsa_optimum A = length (tsa_selected A)"
      using path(2) opt by (simp_all add: A_def collects_def everything)
  qed (simp_all add: interleaving_can_be_missing_def interleaving_evidence_def settled evidence(2,3),
      simp_all add: A_def)
qed

subsection \<open>Properties\<close>

text \<open>
  C9. The joint analysis always returns. It refuses exactly when the product of the three lengths
  plus one exceeds the budget or the word size; otherwise its selected matches are in reference
  order and are a largest assignment: no two use the same reference word, each speaker's order is
  kept, every pair is accepted by the match mode, no other such set has more matches, and the
  reported population is their number. Each match carries the two words its address names.
\<close>

theorem interleaving_selects_largest:
  "(min budget usize_max < (length first + 1) * (length second + 1) * (length reference + 1) \<and>
      with_budget F first second reference mode budget = Some (Err CellBudgetExceeded)) \<or>
   ((length first + 1) * (length second + 1) * (length reference + 1) \<le> min budget usize_max \<and>
    (\<exists>A. with_budget F first second reference mode budget = Some (Ok A) \<and>
       largest (lexical_match F mode first second reference) (im_address ` set (selected_matches A)) \<and>
       sorted_wrt (<) (map (ma_reference \<circ> im_address) (selected_matches A)) \<and>
       matched_words A = length (selected_matches A) \<and>
       list_all (\<lambda>m. im_source m = source_words first second (ma_chain (im_address m)) ! ma_word (im_address m) \<and>
           im_reference m = reference ! ma_reference (im_address m)) (selected_matches A)))"
proof (cases "(length first + 1) * (length second + 1) * (length reference + 1) \<le> min budget usize_max")
  case True
  obtain A where A: "with_budget F first second reference mode budget = Some (Ok A)"
    "tsa_sources A = [first, second]" "tsa_reference A = reference"
    "collects (lexical_match F mode first second reference) (at_pos 0 0) 0 (tsa_selected A)"
    "tsa_optimum A = length (tsa_selected A)"
    using with_budget_admits[OF True] by metis
  have addresses: "map im_address (selected_matches A) = tsa_selected A"
    by (simp add: selected_matches_def bound_match_def comp_def)
  have "largest (lexical_match F mode first second reference) (im_address ` set (selected_matches A))"
    using lexical.collects_largest[OF A(4)] addresses by (metis set_map)
  moreover have "sorted_wrt (<) (map (ma_reference \<circ> im_address) (selected_matches A))"
    using A(4) addresses by (metis collects_def map_map)
  moreover have "matched_words A = length (selected_matches A)"
    by (simp add: A(5) matched_words_def selected_matches_def)
  ultimately show ?thesis
    using True A(1,2,3) by (auto simp: selected_matches_def bound_match_def list_all_iff source_words_def)
next
  case False
  then show ?thesis
    using with_budget_refuses[of budget first second reference F mode] by linarith
qed

text \<open>
  C8. The evidence of an analysis is exact over all largest assignments, not only the selected
  one: a word is reported as possibly missing exactly when some largest assignment omits it, its
  candidates are exactly the reference words some largest assignment gives it, in order and without
  repetition, and a common match is reported exactly when every largest assignment has it.
\<close>

theorem interleaving_evidence_exact:
  assumes "with_budget F first second reference mode budget = Some (Ok A)"
    and "w < length (source_words first second c)"
  shows "(interleaving_can_be_missing A c w \<longleftrightarrow>
      (\<exists>M. largest (lexical_match F mode first second reference) M \<and>
         (\<forall>a\<in>M. \<not> (ma_chain a = c \<and> ma_word a = w)))) \<and>
    map (ma_reference \<circ> im_address) (interleaving_candidates A c w) =
      sorted_list_of_set {r. \<exists>M. largest (lexical_match F mode first second reference) M \<and>
         \<lparr>ma_chain = c, ma_word = w, ma_reference = r\<rparr> \<in> M} \<and>
    (interleaving_common A c w = Some m \<longleftrightarrow>
      (\<exists>r. m = \<lparr>im_address = \<lparr>ma_chain = c, ma_word = w, ma_reference = r\<rparr>,
                im_source = source_words first second c ! w, im_reference = reference ! r\<rparr> \<and>
         (\<forall>M. largest (lexical_match F mode first second reference) M \<longrightarrow>
            \<lparr>ma_chain = c, ma_word = w, ma_reference = r\<rparr> \<in> M)))"
proof -
  let ?M = "lexical_match F mode first second reference"
  let ?S = "{r. \<exists>M. largest ?M M \<and> \<lparr>ma_chain = c, ma_word = w, ma_reference = r\<rparr> \<in> M}"
  have "(length first + 1) * (length second + 1) * (length reference + 1) \<le> min budget usize_max"
    using with_budget_refuses[of budget first second reference F mode] assms(1) by fastforce
  then have A: "tsa_sources A = [first, second]" "tsa_reference A = reference"
    "interleaving_can_be_missing A c w \<longleftrightarrow>
       (\<exists>M. largest ?M M \<and> (\<forall>a\<in>M. \<not> (ma_chain a = c \<and> ma_word a = w)))"
    "we_candidates (interleaving_evidence A c w) = sorted_list_of_set ?S"
    using with_budget_admits[of first second reference budget F mode] assms by auto
  have bound: "bound_match A \<lparr>ma_chain = c, ma_word = w, ma_reference = r\<rparr> =
      \<lparr>im_address = \<lparr>ma_chain = c, ma_word = w, ma_reference = r\<rparr>,
       im_source = source_words first second c ! w, im_reference = reference ! r\<rparr>" for r
    by (simp add: bound_match_def A(1,2) source_words_def)
  have "map (ma_reference \<circ> im_address) (interleaving_candidates A c w) = sorted_list_of_set ?S"
    by (simp add: interleaving_candidates_def bound_match_def comp_def A(4))
  moreover have "finite ?S"
    by (rule lexical.finite_candidates)
  then have "interleaving_common A c w = Some m \<longleftrightarrow>
      \<not> interleaving_can_be_missing A c w \<and>
      (\<exists>r. ?S = {r} \<and> m = bound_match A \<lparr>ma_chain = c, ma_word = w, ma_reference = r\<rparr>)"
    by (auto simp: interleaving_common_def Let_def A(4) interleaving_can_be_missing_def[symmetric]
        card_1_singleton_iff)
  then have "interleaving_common A c w = Some m \<longleftrightarrow>
      (\<exists>r. m = bound_match A \<lparr>ma_chain = c, ma_word = w, ma_reference = r\<rparr> \<and>
        (\<not> (\<exists>M. largest ?M M \<and> (\<forall>a\<in>M. \<not> (ma_chain a = c \<and> ma_word a = w))) \<and> ?S = {r}))"
    unfolding A(3) by blast
  ultimately show ?thesis
    unfolding lexical.common_iff bound using A(3) by simp
qed

text \<open>Two words spoken in the order the reference does not have: each speaker's own order is all that counts.\<close>

definition crossing_analysis :: two_speaker_alignment where
  "crossing_analysis =
     \<lparr>tsa_sources = [[''yes''], [''no'']], tsa_reference = [''no'', ''yes''], tsa_optimum = 2,
      tsa_selected = [\<lparr>ma_chain = SecondChain, ma_word = 0, ma_reference = 0\<rparr>,
        \<lparr>ma_chain = FirstChain, ma_word = 0, ma_reference = 1\<rparr>],
      tsa_words = [[\<lparr>we_candidates = [1], we_can_be_missing = False\<rparr>],
        [\<lparr>we_candidates = [0], we_can_be_missing = False\<rparr>]]\<rparr>"

lemma crossing_with_budget:
  "with_budget equal_words [''yes''] [''no''] [''no'', ''yes''] Exact 12 = Some (Ok crossing_analysis)"
proof -
  let ?R = "\<lparr>mr_reference_len = 2, mr_matches = [[False, True], [True, False]]\<rparr>"
  let ?shape = "\<lparr>sh_second = 2, sh_reference = 3, sh_cells = 12\<rparr>"
  let ?F = "forward_table ?R ?shape 1 1 2" and ?B = "backward_table ?R ?shape 1 1 2"
  have shape: "admitted_shape_new 1 1 2 12 = Some ?shape"
    by (simp add: admitted_shape_new_eq usize_max_def)
  have relation: "match_relation_new equal_words [[''yes''], [''no'']] [''no'', ''yes''] Exact = ?R"
    by (simp add: match_relation_new_def)
  have loops: "[0..<1 + 1] = [0, 1 :: nat]" "[0..<2 + 1] = [0, 1, 2 :: nat]"
    by (simp_all add: upt_rec)
  have forward: "?F = [0, 0, 0, 0, 1, 1, 0, 0, 1, 0, 1, 2]"
    unfolding forward_table_def loops
    by (simp add: forward_cell_def shape_at_def relation_matches_def eval_nat_numeral)
  have backward: "?B = [2, 1, 0, 1, 1, 0, 1, 0, 0, 0, 0, 0]"
    unfolding backward_table_def loops
    by (simp add: backward_cell_def shape_at_def relation_matches_def eval_nat_numeral)
  have words: "settle_words (observe_edges ?R ?shape 1 1 2 [0, 0, 0, 0, 1, 1, 0, 0, 1, 0, 1, 2]
      [2, 1, 0, 1, 1, 0, 1, 0, 0, 0, 0, 0] 2) =
      tsa_words crossing_analysis"
    by code_simp
  have path: "select_path ?R ?shape 1 1 2 [2, 1, 0, 1, 1, 0, 1, 0, 0, 0, 0, 0] 0 0 0 [] =
      Some (tsa_selected crossing_analysis)"
    by code_simp
  have lens: "length [''yes''] = 1" "length [''no''] = 1" "length [''no'', ''yes''] = 2"
    by simp_all
  show ?thesis
    unfolding with_budget_def lens shape option.case relation Let_def forward backward nth_Cons_0 words path bind.bind_lunit
    by (simp add: crossing_analysis_def)
qed

theorem interleaving_selects_largest_witness:
  "\<exists>A. with_budget equal_words [''yes''] [''no''] [''no'', ''yes''] Exact 12 = Some (Ok A) \<and>
     largest (lexical_match equal_words Exact [''yes''] [''no''] [''no'', ''yes''])
       (im_address ` set (selected_matches A)) \<and> matched_words A = 2"
  using interleaving_selects_largest[of 12 "[''yes'']" "[''no'']" "[''no'', ''yes'']" equal_words Exact]
  by (auto simp: crossing_with_budget crossing_analysis_def matched_words_def usize_max_def)

theorem interleaving_evidence_exact_witness:
  "interleaving_common crossing_analysis FirstChain 0 =
     Some \<lparr>im_address = \<lparr>ma_chain = FirstChain, ma_word = 0, ma_reference = 1\<rparr>,
       im_source = ''yes'', im_reference = ''yes''\<rparr> \<and>
   \<not> (\<exists>M. largest (lexical_match equal_words Exact [''yes''] [''no''] [''no'', ''yes'']) M \<and>
     \<lparr>ma_chain = FirstChain, ma_word = 0, ma_reference = 1\<rparr> \<notin> M)"
proof -
  have common: "interleaving_common crossing_analysis FirstChain 0 =
      Some \<lparr>im_address = \<lparr>ma_chain = FirstChain, ma_word = 0, ma_reference = 1\<rparr>,
        im_source = ''yes'', im_reference = ''yes''\<rparr>"
    by code_simp
  have "0 < length (source_words [''yes''] [''no''] FirstChain)"
    by (simp add: source_words_def)
  from interleaving_evidence_exact[OF crossing_with_budget this] have
    "interleaving_common crossing_analysis FirstChain 0 = Some m \<Longrightarrow>
     \<forall>M. largest (lexical_match equal_words Exact [''yes''] [''no''] [''no'', ''yes'']) M \<longrightarrow> im_address m \<in> M" for m
    by auto
  from this[OF common] common show ?thesis
    by simp
qed

end
