(* ===== verification/Btree_Map.thy ===== *)
theory Btree_Map
  imports Prelude
begin

text \<open>
  A \<^verbatim>\<open>BTreeMap\<close> is the list of its entries in key order: its keys are strictly increasing, so two
  maps with the same lookups are the same list. \<^verbatim>\<open>bt_entry\<close> is \<^verbatim>\<open>entry(k).or_insert(d)\<close> followed by
  an update of the value in place.
\<close>

type_synonym ('k, 'v) btree_map = "('k \<times> 'v) list"

definition bt_wf :: "('k :: linorder, 'v) btree_map \<Rightarrow> bool" where
  "bt_wf m \<longleftrightarrow> sorted_wrt (<) (map fst m)"

fun bt_insert :: "'k :: linorder \<Rightarrow> 'v \<Rightarrow> ('k, 'v) btree_map \<Rightarrow> ('k, 'v) btree_map" where
  "bt_insert k v [] = [(k, v)]"
| "bt_insert k v ((k', v') # m) =
     (if k < k' then (k, v) # (k', v') # m
      else if k = k' then (k, v) # m
      else (k', v') # bt_insert k v m)"

definition bt_get :: "('k :: linorder, 'v) btree_map \<Rightarrow> 'k \<Rightarrow> 'v option" where
  "bt_get m k = map_of m k"

definition bt_or_insert :: "'k :: linorder \<Rightarrow> 'v \<Rightarrow> ('k, 'v) btree_map \<Rightarrow> ('k, 'v) btree_map" where
  "bt_or_insert k v m = (case bt_get m k of Some _ \<Rightarrow> m | None \<Rightarrow> bt_insert k v m)"

definition bt_from_entries :: "('k :: linorder \<times> 'v) list \<Rightarrow> ('k, 'v) btree_map" where
  "bt_from_entries es = fold (\<lambda>(k, v). bt_insert k v) es []"

lemma bt_get_insert [simp]: "bt_get (bt_insert k v m) k' = (if k' = k then Some v else bt_get m k')"
  by (induction k v m rule: bt_insert.induct) (auto simp: bt_get_def)

lemma set_bt_insert: "fst ` set (bt_insert k v m) = insert k (fst ` set m)"
  by (induction k v m rule: bt_insert.induct) auto

lemma bt_wf_insert [simp]: "bt_wf m \<Longrightarrow> bt_wf (bt_insert k v m)"
proof (induction k v m rule: bt_insert.induct)
  case (2 k v k' v' m)
  have "k' < x" if "x \<in> fst ` set (bt_insert k v m)" "\<not> k < k'" "k \<noteq> k'" for x
    using that "2.prems" by (auto simp: set_bt_insert bt_wf_def)
  with 2 show ?case
    by (auto simp: bt_wf_def)
qed (simp add: bt_wf_def)

lemma bt_wf_Nil [simp]: "bt_wf []"
  by (simp add: bt_wf_def)

lemma bt_get_Nil [simp]: "bt_get [] k = None"
  by (simp add: bt_get_def)

lemma bt_wf_Cons: "bt_wf ((k, v) # m) \<longleftrightarrow> bt_wf m \<and> (\<forall>k' \<in> fst ` set m. k < k')"
  by (auto simp: bt_wf_def)

lemma bt_get_first: "bt_wf ((k, v) # m) \<Longrightarrow> k' \<le> k \<Longrightarrow> bt_get m k' = None"
  by (auto simp: bt_wf_Cons bt_get_def map_of_eq_None_iff)

lemma bt_map_eqI:
  "bt_wf m \<Longrightarrow> bt_wf m' \<Longrightarrow> (\<And>k. bt_get m k = bt_get m' k) \<Longrightarrow> m = m'"
proof (induction m arbitrary: m')
  case Nil
  from Nil.prems(3) show ?case by (cases m') (force simp: bt_get_def split: if_splits)+
next
  case (Cons e m)
  obtain k v where e: "e = (k, v)" by force
  show ?case
  proof (cases m')
    case Nil
    with Cons.prems(3) [of k] show ?thesis by (simp add: e bt_get_def)
  next
    case (Cons e' m'')
    obtain k' v' where e': "e' = (k', v')" by force
    have eq: "bt_get ((k, v) # m) x = bt_get ((k', v') # m'') x" for x
      using Cons.prems(3) [of x] by (simp add: e Cons e')
    have "k = k'"
    proof (rule ccontr)
      assume "k \<noteq> k'"
      then consider "k < k'" | "k' < k" by fastforce
      then show False
      proof cases
        case 1
        with bt_get_first [of k' v' m'' k] Cons.prems(2) have "bt_get m'' k = None"
          by (simp add: Cons e')
        with eq [of k] 1 show False by (auto simp: bt_get_def split: if_splits)
      next
        case 2
        with bt_get_first [of k v m k'] Cons.prems(1) have "bt_get m k' = None"
          by (simp add: e)
        with eq [of k'] 2 show False by (auto simp: bt_get_def split: if_splits)
      qed
    qed
    moreover have "v = v'" using eq [of k] \<open>k = k'\<close> by (simp add: bt_get_def)
    moreover have "m = m''"
    proof (rule Cons.IH)
      show "bt_wf m" "bt_wf m''" using Cons.prems(1,2) by (simp_all add: e Cons e' bt_wf_Cons)
      show "bt_get m x = bt_get m'' x" for x
        using eq [of x] bt_get_first [of k v m x] bt_get_first [of k' v' m'' x] Cons.prems(1,2)
          \<open>k = k'\<close>
        by (cases "x = k") (simp_all add: e Cons e' bt_get_def)
    qed
    ultimately show ?thesis by (simp add: e e' Cons)
  qed
qed

lemma bt_wf_fold_insert [simp]:
  "bt_wf m \<Longrightarrow> bt_wf (fold (\<lambda>(k, v). bt_insert k v) es m)"
  by (induction es arbitrary: m) (auto simp: split_beta)

lemma bt_get_fold_insert:
  "bt_get (fold (\<lambda>(k, v). bt_insert k v) es m) k =
     (case map_of (rev es) k of Some v \<Rightarrow> Some v | None \<Rightarrow> bt_get m k)"
  by (induction es arbitrary: m) (auto simp: map_add_def split: option.splits)

lemma bt_wf_from_entries [simp]: "bt_wf (bt_from_entries es)"
  by (simp add: bt_from_entries_def)

lemma bt_get_from_entries: "bt_get (bt_from_entries es) k = map_of (rev es) k"
  by (auto simp: bt_from_entries_def bt_get_fold_insert split: option.splits)

lemma bt_get_from_distinct:
  assumes "distinct (map fst es)"
  shows "bt_get (bt_from_entries es) k = map_of es k"
proof -
  have "distinct (map fst (rev es))" using assms by (simp flip: rev_map)
  then have "map_of (rev es) k = Some v \<longleftrightarrow> map_of es k = Some v" for v
    using assms by (simp only: map_of_eq_Some_iff set_rev)
  then show ?thesis by (simp add: bt_get_from_entries) (metis option.exhaust)
qed

subsection \<open>Entries updated in place\<close>

definition bt_entry :: "'k :: linorder \<Rightarrow> 'v \<Rightarrow> ('v \<Rightarrow> 'v) \<Rightarrow> ('k, 'v) btree_map \<Rightarrow> ('k, 'v) btree_map" where
  "bt_entry k d f m = bt_insert k (f (case bt_get m k of Some v \<Rightarrow> v | None \<Rightarrow> d)) m"

lemma bt_get_entry [simp]:
  "bt_get (bt_entry k d f m) k' =
     (if k' = k then Some (f (case bt_get m k of Some v \<Rightarrow> v | None \<Rightarrow> d)) else bt_get m k')"
  by (simp add: bt_entry_def)

lemma bt_wf_entry [simp]: "bt_wf m \<Longrightarrow> bt_wf (bt_entry k d f m)"
  by (simp add: bt_entry_def)

lemma bt_wf_distinct: "bt_wf m \<Longrightarrow> distinct (map fst m)"
  unfolding bt_wf_def using strict_sorted_iff by blast

lemma bt_get_in: "bt_wf m \<Longrightarrow> (k, v) \<in> set m \<longleftrightarrow> bt_get m k = Some v"
  by (simp add: bt_get_def bt_wf_distinct)

end
