(* ===== verification/Engines.thy ===== *)
theory Engines
  imports Btree_Map
begin

text \<open>
  Engine selection (\<^verbatim>\<open>crates/batchalign/src/types/engines.rs\<close>): the closed sets of ASR, UTR,
  forced-alignment, translation and speaker engines, the names each answers to on the command
  line, in stored options and in worker keys, the table of forced-alignment engines with its
  compile-time checks, and the engine overrides of a job with their stored and worker-facing
  forms. The contract of the trait \<^verbatim>\<open>SelectableEngine\<close> is the locale \<^verbatim>\<open>selectable_engine\<close>.
  Not here: which languages a table of another module admits (\<^verbatim>\<open>LanguageTable::admits\<close>).
\<close>

named_theorems engine_simps \<open>tables of the engine categories\<close>

subsection \<open>What every engine category provides\<close>

text \<open>
  The provided methods of the trait \<^verbatim>\<open>SelectableEngine\<close> over the category's tables: resolving a
  name is the first match of the accepted names, a hidden name is an accepted one that is not
  its engine's canonical name, and a stored name that is not recognised is reported with the
  category.
\<close>

datatype unknown_engine_name = UnknownEngineName (unknown_name: string) (unknown_category: string)

definition unknown_engine_display :: "unknown_engine_name \<Rightarrow> string" where
  "unknown_engine_display e =
     ''unknown engine name '' @ [CHR 0x22] @ unknown_name e @ [CHR 0x22] @ '' for '' @ unknown_category e"

definition resolve_variant :: "(string \<times> 'e) list \<Rightarrow> string \<Rightarrow> 'e option" where
  "resolve_variant accepted name = map_option snd (find (\<lambda>(a, _). a = name) accepted)"

definition hidden_alias_names :: "('e \<Rightarrow> string) \<Rightarrow> (string \<times> 'e) list \<Rightarrow> string list" where
  "hidden_alias_names selection_name accepted =
     map fst (filter (\<lambda>(n, e). n \<noteq> selection_name e) accepted)"

definition parse_wire_name ::
    "(string \<Rightarrow> 'e option) \<Rightarrow> string \<Rightarrow> string \<Rightarrow> (unknown_engine_name, 'e) result" where
  "parse_wire_name try_from_wire_name category name =
     (case try_from_wire_name name of
        Some e \<Rightarrow> Ok e
      | None \<Rightarrow> Err (UnknownEngineName name category))"

lemma resolve_variant_iff:
  "distinct (map fst accepted) \<Longrightarrow> resolve_variant accepted n = Some e \<longleftrightarrow> (n, e) \<in> set accepted"
  by (induction accepted) (auto simp: resolve_variant_def rev_image_eqI split: if_splits)

text \<open>
  The contract: the category lists every engine once, no spelling is accepted twice, every
  canonical name is accepted for its engine, and every stored name is read back.
\<close>

locale selectable_engine =
  fixes all_engines :: "'e list"
    and selection_name :: "'e \<Rightarrow> string"
    and accepted :: "(string \<times> 'e) list"
    and wire_name :: "'e \<Rightarrow> string"
    and try_from_wire_name :: "string \<Rightarrow> 'e option"
    and category :: string
  assumes all_complete: "e \<in> set all_engines"
    and all_distinct: "distinct all_engines"
    and spellings_distinct: "distinct (map fst accepted)"
    and canonical_accepted: "(selection_name e, e) \<in> set accepted"
    and wire_accepted: "try_from_wire_name (wire_name e) = Some e"
begin

lemma resolve_iff: "resolve_variant accepted n = Some e \<longleftrightarrow> (n, e) \<in> set accepted"
  by (rule resolve_variant_iff) (rule spellings_distinct)

lemma resolve_canonical: "resolve_variant accepted (selection_name e) = Some e"
  by (simp add: resolve_iff canonical_accepted)

lemma selection_name_inj: "selection_name e = selection_name e' \<longleftrightarrow> e = e'"
  by (metis resolve_canonical option.inject)

lemma wire_name_inj: "wire_name e = wire_name e' \<longleftrightarrow> e = e'"
  by (metis wire_accepted option.inject)

lemma parse_wire_roundtrip: "parse_wire_name try_from_wire_name category (wire_name e) = Ok e"
  by (simp add: parse_wire_name_def wire_accepted)

lemma parse_wire_Err:
  "parse_wire_name try_from_wire_name category n = Err x \<Longrightarrow>
     x = UnknownEngineName n category \<and> (\<forall>e. n \<noteq> wire_name e)"
  using wire_accepted by (auto simp: parse_wire_name_def split: option.splits)

lemma accepted_partition:
  "resolve_variant accepted n \<noteq> None \<longleftrightarrow>
     n \<in> set (map selection_name all_engines) \<or> n \<in> set (hidden_alias_names selection_name accepted)"
  using resolve_iff [of n] all_complete canonical_accepted
  by (force simp: hidden_alias_names_def)

lemma advertised_not_hidden:
  "set (map selection_name all_engines) \<inter> set (hidden_alias_names selection_name accepted) = {}"
  by (auto simp: hidden_alias_names_def) (metis resolve_canonical resolve_iff option.inject)

end

subsection \<open>ASR engines\<close>

datatype asr_engine_name =
    AsrRevAi | AsrWhisper | AsrWhisperHub | AsrWhisperX | AsrWhisperOai | AsrWhisperRs
  | AsrHkTencent | AsrHkAliyun | AsrHkFunaudio | AsrHkQwen

definition asr_all :: "asr_engine_name list" where
  "asr_all =
     [AsrRevAi, AsrWhisper, AsrWhisperHub, AsrWhisperX, AsrWhisperOai, AsrWhisperRs,
      AsrHkTencent, AsrHkAliyun, AsrHkFunaudio, AsrHkQwen]"

fun asr_wire_name :: "asr_engine_name \<Rightarrow> string" where
  "asr_wire_name AsrRevAi = ''rev''"
| "asr_wire_name AsrWhisper = ''whisper''"
| "asr_wire_name AsrWhisperHub = ''whisper_hub''"
| "asr_wire_name AsrWhisperX = ''whisperx''"
| "asr_wire_name AsrWhisperOai = ''whisper_oai''"
| "asr_wire_name AsrWhisperRs = ''whisper_rs''"
| "asr_wire_name AsrHkTencent = ''tencent''"
| "asr_wire_name AsrHkAliyun = ''aliyun''"
| "asr_wire_name AsrHkFunaudio = ''funaudio''"
| "asr_wire_name AsrHkQwen = ''qwen''"

definition asr_accepted_names :: "(string \<times> asr_engine_name) list" where
  "asr_accepted_names =
     [(''rev'', AsrRevAi), (''whisper'', AsrWhisper), (''whisper_hub'', AsrWhisperHub),
      (''whisperx'', AsrWhisperX), (''whisper_oai'', AsrWhisperOai),
      (''whisper-oai'', AsrWhisperOai), (''whisper_rs'', AsrWhisperRs),
      (''tencent'', AsrHkTencent), (''aliyun'', AsrHkAliyun), (''funaudio'', AsrHkFunaudio),
      (''qwen'', AsrHkQwen)]"

definition asr_try_from_wire_name :: "string \<Rightarrow> asr_engine_name option" where
  "asr_try_from_wire_name name =
     (if name = ''rev'' then Some AsrRevAi
      else if name = ''whisper'' then Some AsrWhisper
      else if name = ''whisper_hub'' then Some AsrWhisperHub
      else if name = ''whisperx'' then Some AsrWhisperX
      else if name = ''whisper_oai'' then Some AsrWhisperOai
      else if name = ''whisper_rs'' then Some AsrWhisperRs
      else if name = ''tencent'' then Some AsrHkTencent
      else if name = ''aliyun'' then Some AsrHkAliyun
      else if name = ''funaudio'' then Some AsrHkFunaudio
      else if name = ''qwen'' then Some AsrHkQwen
      else None)"

fun asr_is_rust_owned :: "asr_engine_name \<Rightarrow> bool" where
  "asr_is_rust_owned e \<longleftrightarrow> e = AsrRevAi \<or> e = AsrWhisperRs"

fun asr_dispatch_override_name :: "asr_engine_name \<Rightarrow> string option" where
  "asr_dispatch_override_name AsrWhisper = Some ''whisper''"
| "asr_dispatch_override_name AsrWhisperHub = Some ''whisper_hub''"
| "asr_dispatch_override_name AsrHkTencent = Some ''tencent''"
| "asr_dispatch_override_name AsrHkAliyun = Some ''aliyun''"
| "asr_dispatch_override_name AsrHkFunaudio = Some ''funaudio''"
| "asr_dispatch_override_name AsrHkQwen = Some ''qwen''"
| "asr_dispatch_override_name AsrRevAi = None"
| "asr_dispatch_override_name AsrWhisperX = None"
| "asr_dispatch_override_name AsrWhisperOai = None"
| "asr_dispatch_override_name AsrWhisperRs = None"

definition asr_from_wire_name :: "string \<Rightarrow> (unknown_engine_name, asr_engine_name) result" where
  "asr_from_wire_name = parse_wire_name asr_try_from_wire_name ''ASR''"

text \<open>Resident memory estimates, in MB.\<close>

definition HTTP_CLIENT_BASELINE_RSS_MB :: nat where "HTTP_CLIENT_BASELINE_RSS_MB = 200"
definition SEAMLESS_M4T_MEDIUM_RSS_MB :: nat where "SEAMLESS_M4T_MEDIUM_RSS_MB = 2900"
definition NLLB_200_DISTILLED_1_3B_RSS_MB :: nat where "NLLB_200_DISTILLED_1_3B_RSS_MB = 5500"
definition WHISPER_LARGE_V3_RSS_MB :: nat where "WHISPER_LARGE_V3_RSS_MB = 3500"
definition WAVE2VEC_FA_RSS_MB :: nat where "WAVE2VEC_FA_RSS_MB = 1800"
definition QWEN3_FA_RSS_MB :: nat where "QWEN3_FA_RSS_MB = 3000"

fun asr_resident_memory_mb :: "asr_engine_name \<Rightarrow> nat" where
  "asr_resident_memory_mb AsrWhisper = WHISPER_LARGE_V3_RSS_MB"
| "asr_resident_memory_mb AsrWhisperHub = WHISPER_LARGE_V3_RSS_MB"
| "asr_resident_memory_mb AsrWhisperX = WHISPER_LARGE_V3_RSS_MB"
| "asr_resident_memory_mb AsrWhisperRs = WHISPER_LARGE_V3_RSS_MB"
| "asr_resident_memory_mb AsrHkQwen = WHISPER_LARGE_V3_RSS_MB"
| "asr_resident_memory_mb AsrRevAi = HTTP_CLIENT_BASELINE_RSS_MB"
| "asr_resident_memory_mb AsrWhisperOai = HTTP_CLIENT_BASELINE_RSS_MB"
| "asr_resident_memory_mb AsrHkTencent = HTTP_CLIENT_BASELINE_RSS_MB"
| "asr_resident_memory_mb AsrHkAliyun = HTTP_CLIENT_BASELINE_RSS_MB"
| "asr_resident_memory_mb AsrHkFunaudio = HTTP_CLIENT_BASELINE_RSS_MB"

datatype language_table = WhisperTokens | WhisperCpp | RevAiTable
datatype asr_language_authority = LanguageTable language_table | EngineOwned

fun language_authority :: "asr_engine_name \<Rightarrow> asr_language_authority" where
  "language_authority AsrWhisper = LanguageTable WhisperTokens"
| "language_authority AsrWhisperX = LanguageTable WhisperTokens"
| "language_authority AsrWhisperOai = LanguageTable WhisperTokens"
| "language_authority AsrWhisperRs = LanguageTable WhisperCpp"
| "language_authority AsrRevAi = LanguageTable RevAiTable"
| "language_authority AsrWhisperHub = EngineOwned"
| "language_authority AsrHkTencent = EngineOwned"
| "language_authority AsrHkAliyun = EngineOwned"
| "language_authority AsrHkFunaudio = EngineOwned"
| "language_authority AsrHkQwen = EngineOwned"

interpretation asr: selectable_engine asr_all asr_wire_name asr_accepted_names asr_wire_name
  asr_try_from_wire_name "''ASR''"
proof unfold_locales
  show "e \<in> set asr_all" "(asr_wire_name e, e) \<in> set asr_accepted_names"
    "asr_try_from_wire_name (asr_wire_name e) = Some e" for e
    by (cases e; simp add: asr_all_def asr_accepted_names_def asr_try_from_wire_name_def)+
qed (simp_all add: asr_all_def asr_accepted_names_def)

subsection \<open>UTR engines\<close>

datatype utr_engine = UtrRevAi | UtrWhisper | UtrHkTencent

definition utr_all :: "utr_engine list" where
  "utr_all = [UtrRevAi, UtrWhisper, UtrHkTencent]"

fun utr_wire_name :: "utr_engine \<Rightarrow> string" where
  "utr_wire_name UtrRevAi = ''rev_utr''"
| "utr_wire_name UtrWhisper = ''whisper_utr''"
| "utr_wire_name UtrHkTencent = ''tencent_utr''"

fun utr_canonical_name :: "utr_engine \<Rightarrow> string" where
  "utr_canonical_name UtrRevAi = ''rev''"
| "utr_canonical_name UtrWhisper = ''whisper''"
| "utr_canonical_name UtrHkTencent = ''tencent''"

definition utr_accepted_names :: "(string \<times> utr_engine) list" where
  "utr_accepted_names =
     [(''rev'', UtrRevAi), (''whisper'', UtrWhisper), (''tencent'', UtrHkTencent),
      (''rev_utr'', UtrRevAi), (''whisper_utr'', UtrWhisper), (''tencent_utr'', UtrHkTencent)]"

definition utr_is_rust_owned :: "utr_engine \<Rightarrow> bool" where
  "utr_is_rust_owned e \<longleftrightarrow> e = UtrRevAi"

definition supports_partial_windows :: "utr_engine \<Rightarrow> bool" where
  "supports_partial_windows e \<longleftrightarrow> \<not> utr_is_rust_owned e"

definition utr_from_wire_name :: "string \<Rightarrow> (unknown_engine_name, utr_engine) result" where
  "utr_from_wire_name = parse_wire_name (resolve_variant utr_accepted_names) ''UTR''"

interpretation utr: selectable_engine utr_all utr_canonical_name utr_accepted_names utr_wire_name
  "resolve_variant utr_accepted_names" "''UTR''"
proof unfold_locales
  show "e \<in> set utr_all" "(utr_canonical_name e, e) \<in> set utr_accepted_names"
    "resolve_variant utr_accepted_names (utr_wire_name e) = Some e" for e
    by (cases e; simp add: utr_all_def utr_accepted_names_def resolve_variant_def)+
qed (simp_all add: utr_all_def utr_accepted_names_def)

subsection \<open>Forced-alignment engines\<close>

datatype fa_engine_name = FaWave2Vec | FaWhisper | FaWav2vecCanto | FaQwen3

datatype fa_timing_resolution = WordIntervals | TokenOnsets

datatype language_support = AnyLanguage | OnlyLanguages "string list"

fun support_covers :: "language_support \<Rightarrow> string \<Rightarrow> bool" where
  "support_covers AnyLanguage code = True"
| "support_covers (OnlyLanguages codes) code = (code \<in> set codes)"

fun is_language_general :: "language_support \<Rightarrow> bool" where
  "is_language_general AnyLanguage = True"
| "is_language_general (OnlyLanguages codes) = False"

datatype fa_fallback_policy = RetryGroupOn fa_engine_name | NoFallback

fun retry_target :: "fa_fallback_policy \<Rightarrow> fa_engine_name option" where
  "retry_target (RetryGroupOn e) = Some e"
| "retry_target NoFallback = None"

datatype fa_backend_v2 = BackendWhisper | BackendWave2vec | BackendWav2vecCanto | BackendQwen3

record fa_engine_spec =
  fs_engine :: fa_engine_name
  fs_wire_name :: string
  fs_selection_name :: string
  fs_aliases :: "string list"
  fs_dispatch_override_name :: string
  fs_timing_resolution :: fa_timing_resolution
  fs_aggregation_target :: nat
  fs_resident_memory_mb :: nat
  fs_language_support :: language_support
  fs_fallback :: fa_fallback_policy
  fs_worker_backend :: fa_backend_v2

definition LEGACY_WORD_INTERVAL_AGGREGATION :: nat where
  "LEGACY_WORD_INTERVAL_AGGREGATION = 15000"
definition LEGACY_ONSET_AGGREGATION :: nat where
  "LEGACY_ONSET_AGGREGATION = 20000"
definition FA_QWEN3_LANGUAGES :: "string list" where
  "FA_QWEN3_LANGUAGES = [''yue'', ''zho'', ''cmn'', ''eng'']"

definition WAVE2VEC_FA_SPEC :: fa_engine_spec where
  "WAVE2VEC_FA_SPEC =
     \<lparr>fs_engine = FaWave2Vec, fs_wire_name = ''wav2vec_fa'', fs_selection_name = ''wav2vec'',
      fs_aliases = [''wav2vec_fa'', ''wave2vec''], fs_dispatch_override_name = ''wave2vec'',
      fs_timing_resolution = WordIntervals,
      fs_aggregation_target = LEGACY_WORD_INTERVAL_AGGREGATION,
      fs_resident_memory_mb = WAVE2VEC_FA_RSS_MB, fs_language_support = AnyLanguage,
      fs_fallback = RetryGroupOn FaWhisper, fs_worker_backend = BackendWave2vec\<rparr>"

definition WHISPER_FA_SPEC :: fa_engine_spec where
  "WHISPER_FA_SPEC =
     \<lparr>fs_engine = FaWhisper, fs_wire_name = ''whisper_fa'', fs_selection_name = ''whisper'',
      fs_aliases = [''whisper_fa''], fs_dispatch_override_name = ''whisper'',
      fs_timing_resolution = TokenOnsets,
      fs_aggregation_target = LEGACY_ONSET_AGGREGATION,
      fs_resident_memory_mb = WHISPER_LARGE_V3_RSS_MB, fs_language_support = AnyLanguage,
      fs_fallback = NoFallback, fs_worker_backend = BackendWhisper\<rparr>"

definition WAV2VEC_CANTO_FA_SPEC :: fa_engine_spec where
  "WAV2VEC_CANTO_FA_SPEC =
     \<lparr>fs_engine = FaWav2vecCanto, fs_wire_name = ''cantonese_fa'',
      fs_selection_name = ''cantonese'',
      fs_aliases = [''cantonese_fa'', ''wav2vec_canto'', ''wav2vec_fa_canto''],
      fs_dispatch_override_name = ''wav2vec_canto'',
      fs_timing_resolution = WordIntervals,
      fs_aggregation_target = LEGACY_WORD_INTERVAL_AGGREGATION,
      fs_resident_memory_mb = WAVE2VEC_FA_RSS_MB, fs_language_support = AnyLanguage,
      fs_fallback = RetryGroupOn FaWhisper, fs_worker_backend = BackendWav2vecCanto\<rparr>"

definition QWEN3_FA_SPEC :: fa_engine_spec where
  "QWEN3_FA_SPEC =
     \<lparr>fs_engine = FaQwen3, fs_wire_name = ''qwen3_fa'', fs_selection_name = ''qwen3_fa'',
      fs_aliases = [''qwen3-fa'', ''qwen3''], fs_dispatch_override_name = ''qwen3_fa'',
      fs_timing_resolution = WordIntervals,
      fs_aggregation_target = LEGACY_WORD_INTERVAL_AGGREGATION,
      fs_resident_memory_mb = QWEN3_FA_RSS_MB,
      fs_language_support = OnlyLanguages FA_QWEN3_LANGUAGES,
      fs_fallback = NoFallback, fs_worker_backend = BackendQwen3\<rparr>"

definition FA_ENGINES :: "fa_engine_spec list" where
  "FA_ENGINES = [WAVE2VEC_FA_SPEC, WHISPER_FA_SPEC, WAV2VEC_CANTO_FA_SPEC, QWEN3_FA_SPEC]"

fun fa_spec :: "fa_engine_name \<Rightarrow> fa_engine_spec" where
  "fa_spec FaWave2Vec = WAVE2VEC_FA_SPEC"
| "fa_spec FaWhisper = WHISPER_FA_SPEC"
| "fa_spec FaWav2vecCanto = WAV2VEC_CANTO_FA_SPEC"
| "fa_spec FaQwen3 = QWEN3_FA_SPEC"

definition engines_from_table :: "fa_engine_name list" where
  "engines_from_table = map fs_engine FA_ENGINES"

definition accepted_names_from_table :: "(string \<times> fa_engine_name) list" where
  "accepted_names_from_table =
     concat (map (\<lambda>s. (fs_selection_name s, fs_engine s) #
       map (\<lambda>alias. (alias, fs_engine s)) (fs_aliases s)) FA_ENGINES)"

fun fa_from_worker_backend :: "fa_backend_v2 \<Rightarrow> fa_engine_name" where
  "fa_from_worker_backend BackendWhisper = FaWhisper"
| "fa_from_worker_backend BackendWave2vec = FaWave2Vec"
| "fa_from_worker_backend BackendWav2vecCanto = FaWav2vecCanto"
| "fa_from_worker_backend BackendQwen3 = FaQwen3"

definition fa_wire_name :: "fa_engine_name \<Rightarrow> string" where
  "fa_wire_name e = fs_wire_name (fa_spec e)"

definition fa_selection_name :: "fa_engine_name \<Rightarrow> string" where
  "fa_selection_name e = fs_selection_name (fa_spec e)"

definition fa_dispatch_override_name :: "fa_engine_name \<Rightarrow> string" where
  "fa_dispatch_override_name e = fs_dispatch_override_name (fa_spec e)"

definition fa_resident_memory_mb :: "fa_engine_name \<Rightarrow> nat" where
  "fa_resident_memory_mb e = fs_resident_memory_mb (fa_spec e)"

definition fa_try_from_wire_name :: "string \<Rightarrow> fa_engine_name option" where
  "fa_try_from_wire_name = resolve_variant accepted_names_from_table"

definition fa_from_wire_name :: "string \<Rightarrow> (unknown_engine_name, fa_engine_name) result" where
  "fa_from_wire_name = parse_wire_name fa_try_from_wire_name ''FA''"

lemmas fa_specs =
  WAVE2VEC_FA_SPEC_def WHISPER_FA_SPEC_def WAV2VEC_CANTO_FA_SPEC_def QWEN3_FA_SPEC_def

lemma accepted_names_from_table_eval:
  "accepted_names_from_table =
     [(''wav2vec'', FaWave2Vec), (''wav2vec_fa'', FaWave2Vec), (''wave2vec'', FaWave2Vec),
      (''whisper'', FaWhisper), (''whisper_fa'', FaWhisper),
      (''cantonese'', FaWav2vecCanto), (''cantonese_fa'', FaWav2vecCanto),
      (''wav2vec_canto'', FaWav2vecCanto), (''wav2vec_fa_canto'', FaWav2vecCanto),
      (''qwen3_fa'', FaQwen3), (''qwen3-fa'', FaQwen3), (''qwen3'', FaQwen3)]"
  by (simp add: accepted_names_from_table_def FA_ENGINES_def fa_specs)

interpretation fa: selectable_engine engines_from_table fa_selection_name accepted_names_from_table
  fa_wire_name fa_try_from_wire_name "''FA''"
proof unfold_locales
  show "e \<in> set engines_from_table" for e
    by (cases e) (simp_all add: engines_from_table_def FA_ENGINES_def fa_specs)
  show "(fa_selection_name e, e) \<in> set accepted_names_from_table" for e
    by (cases e) (simp_all add: accepted_names_from_table_eval fa_selection_name_def fa_specs)
  show "fa_try_from_wire_name (fa_wire_name e) = Some e" for e
    by (cases e) (simp_all add: fa_try_from_wire_name_def accepted_names_from_table_eval
        fa_wire_name_def fa_specs resolve_variant_def)
  show "distinct (map fst accepted_names_from_table)"
    by (simp add: accepted_names_from_table_eval)
qed (simp add: engines_from_table_def FA_ENGINES_def fa_specs)

subsection \<open>Translation and speaker engines\<close>

datatype translate_engine_name = MtGoogle | MtSeamless | MtNllb | MtTencent | MtAliyun

definition translate_all :: "translate_engine_name list" where
  "translate_all = [MtGoogle, MtSeamless, MtNllb, MtTencent, MtAliyun]"

fun translate_wire_name :: "translate_engine_name \<Rightarrow> string" where
  "translate_wire_name MtGoogle = ''google''"
| "translate_wire_name MtSeamless = ''seamless''"
| "translate_wire_name MtNllb = ''nllb''"
| "translate_wire_name MtTencent = ''tencent''"
| "translate_wire_name MtAliyun = ''aliyun''"

definition translate_accepted_names :: "(string \<times> translate_engine_name) list" where
  "translate_accepted_names =
     [(''google'', MtGoogle), (''seamless'', MtSeamless), (''nllb'', MtNllb),
      (''tencent'', MtTencent), (''aliyun'', MtAliyun)]"

definition translate_dispatch_override_name :: "translate_engine_name \<Rightarrow> string" where
  "translate_dispatch_override_name e = translate_wire_name e"

fun translate_resident_memory_mb :: "translate_engine_name \<Rightarrow> nat" where
  "translate_resident_memory_mb MtGoogle = HTTP_CLIENT_BASELINE_RSS_MB"
| "translate_resident_memory_mb MtTencent = HTTP_CLIENT_BASELINE_RSS_MB"
| "translate_resident_memory_mb MtAliyun = HTTP_CLIENT_BASELINE_RSS_MB"
| "translate_resident_memory_mb MtSeamless = SEAMLESS_M4T_MEDIUM_RSS_MB"
| "translate_resident_memory_mb MtNllb = NLLB_200_DISTILLED_1_3B_RSS_MB"

definition translate_from_wire_name ::
    "string \<Rightarrow> (unknown_engine_name, translate_engine_name) result" where
  "translate_from_wire_name = parse_wire_name (resolve_variant translate_accepted_names) ''translate''"

interpretation mt: selectable_engine translate_all translate_wire_name translate_accepted_names
  translate_wire_name "resolve_variant translate_accepted_names" "''translate''"
proof unfold_locales
  show "e \<in> set translate_all" "(translate_wire_name e, e) \<in> set translate_accepted_names"
    "resolve_variant translate_accepted_names (translate_wire_name e) = Some e" for e
    by (cases e; simp add: translate_all_def translate_accepted_names_def resolve_variant_def)+
qed (simp_all add: translate_all_def translate_accepted_names_def)

datatype speaker_engine_name = SpPyannoteAi | SpPyannote

definition speaker_all :: "speaker_engine_name list" where
  "speaker_all = [SpPyannoteAi, SpPyannote]"

fun speaker_wire_name :: "speaker_engine_name \<Rightarrow> string" where
  "speaker_wire_name SpPyannoteAi = ''pyannote_ai''"
| "speaker_wire_name SpPyannote = ''pyannote''"

fun speaker_selection_name :: "speaker_engine_name \<Rightarrow> string" where
  "speaker_selection_name SpPyannoteAi = ''pyannote-ai''"
| "speaker_selection_name SpPyannote = ''pyannote''"

definition speaker_accepted_names :: "(string \<times> speaker_engine_name) list" where
  "speaker_accepted_names =
     [(''pyannote-ai'', SpPyannoteAi), (''pyannote_ai'', SpPyannoteAi), (''pyannote'', SpPyannote)]"

definition speaker_from_wire_name ::
    "string \<Rightarrow> (unknown_engine_name, speaker_engine_name) result" where
  "speaker_from_wire_name =
     parse_wire_name (resolve_variant speaker_accepted_names) ''speaker diarization''"

interpretation sp: selectable_engine speaker_all speaker_selection_name speaker_accepted_names
  speaker_wire_name "resolve_variant speaker_accepted_names" "''speaker diarization''"
proof unfold_locales
  show "e \<in> set speaker_all" "(speaker_selection_name e, e) \<in> set speaker_accepted_names"
    "resolve_variant speaker_accepted_names (speaker_wire_name e) = Some e" for e
    by (cases e; simp add: speaker_all_def speaker_accepted_names_def resolve_variant_def)+
qed (simp_all add: speaker_all_def speaker_accepted_names_def)

datatype speaker_embedding_backend = EmbeddingPyannote

fun embedding_wire_name :: "speaker_embedding_backend \<Rightarrow> string" where
  "embedding_wire_name EmbeddingPyannote = ''pyannote''"

definition embedding_from_wire_name :: "string \<Rightarrow> speaker_embedding_backend option" where
  "embedding_from_wire_name name = (if name = ''pyannote'' then Some EmbeddingPyannote else None)"

subsection \<open>Engine overrides\<close>

text \<open>
  The overrides of a job. A serialised form is the sequence of entries \<^verbatim>\<open>serialize_map\<close> writes;
  a reader collects the entries into a sorted map, so a repeated key keeps its last value, and
  handles them in key order. The JSON text of a sequence of entries is \<^verbatim>\<open>serde_json\<close>'s, the
  parameter \<^verbatim>\<open>json\<close>. \<^verbatim>\<open>unknown_embedding\<close> is the message the reader builds with the \<^verbatim>\<open>Debug\<close>
  spelling of the value, also a parameter.
\<close>

record engine_overrides =
  eo_asr :: "asr_engine_name option"
  eo_fa :: "fa_engine_name option"
  eo_utr :: "utr_engine option"
  eo_translate :: "translate_engine_name option"
  eo_speaker :: "speaker_engine_name option"
  eo_speaker_embedding :: "speaker_embedding_backend option"
  eo_extras :: "(string, string) btree_map"

definition no_overrides :: engine_overrides where
  "no_overrides =
     \<lparr>eo_asr = None, eo_fa = None, eo_utr = None, eo_translate = None, eo_speaker = None,
      eo_speaker_embedding = None, eo_extras = []\<rparr>"

definition overrides_is_empty :: "engine_overrides \<Rightarrow> bool" where
  "overrides_is_empty ov \<longleftrightarrow>
     eo_utr ov = None \<and> eo_asr ov = None \<and> eo_fa ov = None \<and> eo_translate ov = None \<and>
     eo_speaker ov = None \<and> eo_speaker_embedding ov = None \<and> eo_extras ov = []"

definition opt_entry :: "string \<Rightarrow> ('a \<Rightarrow> string) \<Rightarrow> 'a option \<Rightarrow> (string \<times> string) list" where
  "opt_entry key name x = (case x of None \<Rightarrow> [] | Some e \<Rightarrow> [(key, name e)])"

definition overrides_entries :: "engine_overrides \<Rightarrow> (string \<times> string) list" where
  "overrides_entries ov =
     opt_entry ''asr'' asr_wire_name (eo_asr ov) @
     opt_entry ''fa'' fa_wire_name (eo_fa ov) @
     opt_entry ''utr'' utr_wire_name (eo_utr ov) @
     opt_entry ''translate'' translate_wire_name (eo_translate ov) @
     opt_entry ''speaker'' speaker_wire_name (eo_speaker ov) @
     opt_entry ''speaker_embedding'' embedding_wire_name (eo_speaker_embedding ov) @
     eo_extras ov"

definition to_json_string :: "((string \<times> string) list \<Rightarrow> string) \<Rightarrow> engine_overrides \<Rightarrow> string" where
  "to_json_string json ov = (if overrides_is_empty ov then [] else json (overrides_entries ov))"

definition dispatch_overrides :: "engine_overrides \<Rightarrow> (string, string) btree_map" where
  "dispatch_overrides ov =
     bt_from_entries
       (opt_entry ''asr'' id (Option.bind (eo_asr ov) asr_dispatch_override_name) @
        opt_entry ''fa'' fa_dispatch_override_name (eo_fa ov) @
        opt_entry ''translate'' translate_dispatch_override_name (eo_translate ov) @
        opt_entry ''speaker'' speaker_wire_name (eo_speaker ov) @
        opt_entry ''speaker_embedding'' embedding_wire_name (eo_speaker_embedding ov) @
        eo_extras ov)"

definition to_dispatch_json_string ::
    "((string \<times> string) list \<Rightarrow> string) \<Rightarrow> engine_overrides \<Rightarrow> string" where
  "to_dispatch_json_string json ov =
     (let m = dispatch_overrides ov in if m = [] then [] else json m)"

definition overrides_set ::
    "(string \<Rightarrow> string) \<Rightarrow> string \<Rightarrow> string \<Rightarrow> engine_overrides \<Rightarrow> (string, engine_overrides) result"
where
  "overrides_set unknown_embedding key v ov =
     (if key = ''asr'' then
        (case asr_from_wire_name v of Inl e \<Rightarrow> Err (unknown_engine_display e)
         | Inr e \<Rightarrow> Ok (ov\<lparr>eo_asr := Some e\<rparr>))
      else if key = ''fa'' then
        (case fa_from_wire_name v of Inl e \<Rightarrow> Err (unknown_engine_display e)
         | Inr e \<Rightarrow> Ok (ov\<lparr>eo_fa := Some e\<rparr>))
      else if key = ''utr'' then
        (case utr_from_wire_name v of Inl e \<Rightarrow> Err (unknown_engine_display e)
         | Inr e \<Rightarrow> Ok (ov\<lparr>eo_utr := Some e\<rparr>))
      else if key = ''translate'' then
        (case translate_from_wire_name v of Inl e \<Rightarrow> Err (unknown_engine_display e)
         | Inr e \<Rightarrow> Ok (ov\<lparr>eo_translate := Some e\<rparr>))
      else if key = ''speaker'' then
        (case speaker_from_wire_name v of Inl e \<Rightarrow> Err (unknown_engine_display e)
         | Inr e \<Rightarrow> Ok (ov\<lparr>eo_speaker := Some e\<rparr>))
      else if key = ''speaker_embedding'' then
        (case embedding_from_wire_name v of None \<Rightarrow> Err (unknown_embedding v)
         | Some e \<Rightarrow> Ok (ov\<lparr>eo_speaker_embedding := Some e\<rparr>))
      else Ok (ov\<lparr>eo_extras := bt_insert key v (eo_extras ov)\<rparr>))"

fun overrides_read ::
    "(string \<Rightarrow> string) \<Rightarrow> (string \<times> string) list \<Rightarrow> engine_overrides \<Rightarrow> (string, engine_overrides) result"
where
  "overrides_read u [] ov = Ok ov"
| "overrides_read u ((key, v) # es) ov =
     (case overrides_set u key v ov of Inl e \<Rightarrow> Err e | Inr ov' \<Rightarrow> overrides_read u es ov')"

definition overrides_deserialize ::
    "(string \<Rightarrow> string) \<Rightarrow> (string \<times> string) list \<Rightarrow> (string, engine_overrides) result" where
  "overrides_deserialize u entries = overrides_read u (bt_from_entries entries) no_overrides"

subsection \<open>Names that imply overrides\<close>

definition PARAFORMER_SELECTION_NAME :: string where "PARAFORMER_SELECTION_NAME = ''paraformer''"
definition PARAFORMER_CHECKPOINT :: string where "PARAFORMER_CHECKPOINT = ''paraformer-zh''"
definition FUNAUDIO_MODEL_OVERRIDE_KEY :: string where
  "FUNAUDIO_MODEL_OVERRIDE_KEY = ''funaudio_model''"

record asr_selection =
  as_engine :: asr_engine_name
  as_implied_overrides :: "(string \<times> string) list"

definition from_engine :: "asr_engine_name \<Rightarrow> asr_selection" where
  "from_engine e = \<lparr>as_engine = e, as_implied_overrides = []\<rparr>"

definition asr_selection_parse :: "string \<Rightarrow> asr_selection option" where
  "asr_selection_parse name =
     (if name = PARAFORMER_SELECTION_NAME then
        Some \<lparr>as_engine = AsrHkFunaudio,
              as_implied_overrides = [(FUNAUDIO_MODEL_OVERRIDE_KEY, PARAFORMER_CHECKPOINT)]\<rparr>
      else map_option from_engine (resolve_variant asr_accepted_names name))"

definition asr_selectable_names :: "string list" where
  "asr_selectable_names = map asr_wire_name asr_all @ [PARAFORMER_SELECTION_NAME]"

definition apply_implied :: "asr_selection \<Rightarrow> engine_overrides \<Rightarrow> engine_overrides" where
  "apply_implied s ov =
     fold (\<lambda>(key, v) ov. ov\<lparr>eo_extras := bt_or_insert key v (eo_extras ov)\<rparr>)
       (as_implied_overrides s) ov"

subsection \<open>Reading overrides back\<close>

definition reserved_keys :: "string list" where
  "reserved_keys = [''asr'', ''fa'', ''utr'', ''translate'', ''speaker'', ''speaker_embedding'']"

definition overrides_wf :: "engine_overrides \<Rightarrow> bool" where
  "overrides_wf ov \<longleftrightarrow>
     bt_wf (eo_extras ov) \<and> list_all (\<lambda>(k, v). k \<notin> set reserved_keys) (eo_extras ov)"

definition entry_readable :: "string \<times> string \<Rightarrow> bool" where
  "entry_readable = (\<lambda>(k, v).
     (k = ''asr'' \<longrightarrow> asr_try_from_wire_name v \<noteq> None) \<and>
     (k = ''fa'' \<longrightarrow> fa_try_from_wire_name v \<noteq> None) \<and>
     (k = ''utr'' \<longrightarrow> resolve_variant utr_accepted_names v \<noteq> None) \<and>
     (k = ''translate'' \<longrightarrow> resolve_variant translate_accepted_names v \<noteq> None) \<and>
     (k = ''speaker'' \<longrightarrow> resolve_variant speaker_accepted_names v \<noteq> None) \<and>
     (k = ''speaker_embedding'' \<longrightarrow> embedding_from_wire_name v \<noteq> None))"

definition lookup_over ::
    "(string \<Rightarrow> 'a option) \<Rightarrow> string \<Rightarrow> (string \<times> string) list \<Rightarrow> 'a option \<Rightarrow> 'a option" where
  "lookup_over try key m x = (case map_of m key of None \<Rightarrow> x | Some v \<Rightarrow> try v)"

definition overrides_over :: "(string \<times> string) list \<Rightarrow> engine_overrides \<Rightarrow> engine_overrides" where
  "overrides_over m ov =
     \<lparr>eo_asr = lookup_over asr_try_from_wire_name ''asr'' m (eo_asr ov),
      eo_fa = lookup_over fa_try_from_wire_name ''fa'' m (eo_fa ov),
      eo_utr = lookup_over (resolve_variant utr_accepted_names) ''utr'' m (eo_utr ov),
      eo_translate =
        lookup_over (resolve_variant translate_accepted_names) ''translate'' m (eo_translate ov),
      eo_speaker =
        lookup_over (resolve_variant speaker_accepted_names) ''speaker'' m (eo_speaker ov),
      eo_speaker_embedding =
        lookup_over embedding_from_wire_name ''speaker_embedding'' m (eo_speaker_embedding ov),
      eo_extras =
        fold (\<lambda>(k, v). bt_insert k v) (filter (\<lambda>(k, v). k \<notin> set reserved_keys) m) (eo_extras ov)\<rparr>"

lemmas from_wire_defs =
  asr_from_wire_name_def fa_from_wire_name_def utr_from_wire_name_def
  translate_from_wire_name_def speaker_from_wire_name_def parse_wire_name_def

lemma reserved_key_iff:
  "k \<in> set reserved_keys \<longleftrightarrow>
     k = ''asr'' \<or> k = ''fa'' \<or> k = ''utr'' \<or> k = ''translate'' \<or> k = ''speaker'' \<or>
     k = ''speaker_embedding''"
  by (simp add: reserved_keys_def)

lemma overrides_set_over:
  assumes "entry_readable (k, v)"
  shows "overrides_set u k v ov = Ok (overrides_over [(k, v)] ov)"
proof (cases "k \<in> set reserved_keys")
  case True
  then consider "k = ''asr''" | "k = ''fa''" | "k = ''utr''" | "k = ''translate''"
    | "k = ''speaker''" | "k = ''speaker_embedding''" unfolding reserved_key_iff by blast
  then show ?thesis
    using assms
    by cases (simp; clarsimp simp: overrides_set_def overrides_over_def lookup_over_def
        reserved_keys_def entry_readable_def from_wire_defs)+
next
  case False
  then show ?thesis
    by (auto simp: overrides_set_def overrides_over_def lookup_over_def reserved_keys_def)
qed

lemma overrides_set_readable:
  "overrides_set u k v ov = Ok ov' \<Longrightarrow> entry_readable (k, v)"
  by (auto simp: overrides_set_def entry_readable_def from_wire_defs
      split: if_splits option.splits)

lemma lookup_over_Cons:
  "k \<notin> fst ` set m \<Longrightarrow>
     lookup_over try key m (lookup_over try key [(k, v)] x) = lookup_over try key ((k, v) # m) x"
  using map_of_eq_None_iff [of m k] by (cases "key = k") (simp_all add: lookup_over_def)

lemma overrides_over_Cons:
  "k \<notin> fst ` set m \<Longrightarrow> overrides_over m (overrides_over [(k, v)] ov) = overrides_over ((k, v) # m) ov"
  by (simp add: overrides_over_def lookup_over_Cons)

lemma overrides_read_over:
  "distinct (map fst m) \<Longrightarrow> list_all entry_readable m \<Longrightarrow>
     overrides_read u m ov = Ok (overrides_over m ov)"
proof (induction m arbitrary: ov)
  case Nil
  then show ?case by (simp add: overrides_over_def lookup_over_def)
next
  case (Cons e m)
  then show ?case
    by (cases e) (simp add: overrides_set_over overrides_over_Cons)
qed

lemma overrides_read_readable:
  "overrides_read u m ov = Ok ov' \<Longrightarrow> list_all entry_readable m"
  by (induction u m ov rule: overrides_read.induct)
     (auto dest: overrides_set_readable split: sum.splits)

lemma map_of_filter_keys:
  "map_of (filter (\<lambda>(k, v). P k) m) k = (if P k then map_of m k else None)"
  by (induction m) auto

lemma bt_from_entries_distinct: "distinct (map fst (bt_from_entries es))"
  using bt_wf_from_entries [of es] by (simp add: bt_wf_def strict_sorted_iff)

lemma set_bt_from_entries:
  assumes "distinct (map fst es)"
  shows "set (bt_from_entries es) = set es"
proof -
  have "(k, v) \<in> set (bt_from_entries es) \<longleftrightarrow> (k, v) \<in> set es" for k v
    using bt_get_from_distinct [OF assms, of k] assms bt_from_entries_distinct [of es]
    by (simp add: bt_get_def) (metis map_of_eq_Some_iff)
  then show ?thesis by auto
qed

lemma overrides_over_cong:
  assumes "\<And>k. map_of m k = map_of m' k" and "distinct (map fst m)" and "distinct (map fst m')"
  shows "overrides_over m no_overrides = overrides_over m' no_overrides"
proof -
  let ?f = "filter (\<lambda>(k, v). k \<notin> set reserved_keys)"
  have d: "distinct (map fst (?f m))" if "distinct (map fst m)" for m :: "(string \<times> string) list"
    using that by (metis distinct_map_filter)
  have "bt_from_entries (?f m) = bt_from_entries (?f m')"
    by (rule bt_map_eqI)
       (simp_all add: bt_get_from_distinct d assms(2,3) map_of_filter_keys assms(1))
  then show ?thesis
    by (simp add: overrides_over_def lookup_over_def assms(1) no_overrides_def bt_from_entries_def)
qed

lemma overrides_deserialize_over:
  assumes "distinct (map fst es)" and "list_all entry_readable es"
  shows "overrides_deserialize u es = Ok (overrides_over es no_overrides)"
proof -
  have "list_all entry_readable (bt_from_entries es)"
    using assms by (simp add: list_all_iff set_bt_from_entries)
  then have "overrides_deserialize u es = Ok (overrides_over (bt_from_entries es) no_overrides)"
    by (simp add: overrides_deserialize_def overrides_read_over bt_from_entries_distinct)
  also have "overrides_over (bt_from_entries es) no_overrides = overrides_over es no_overrides"
    using bt_get_from_distinct [OF assms(1)]
    by (intro overrides_over_cong) (simp_all add: bt_get_def assms(1) bt_from_entries_distinct)
  finally show ?thesis .
qed

lemma overrides_wf_iff:
  "overrides_wf ov \<longleftrightarrow> bt_wf (eo_extras ov) \<and> fst ` set (eo_extras ov) \<inter> set reserved_keys = {}"
  by (auto simp: overrides_wf_def list_all_iff)

lemma overrides_read_unreserved:
  "overrides_read u m ov = Ok ov' \<Longrightarrow> overrides_wf ov \<Longrightarrow> overrides_wf ov'"
proof (induction u m ov arbitrary: ov' rule: overrides_read.induct)
  case (2 u key v es ov)
  then obtain ov1 where ov1: "overrides_set u key v ov = Ok ov1" "overrides_read u es ov1 = Ok ov'"
    by (auto split: sum.splits)
  have "overrides_wf ov1"
    using overrides_set_over [OF overrides_set_readable [OF ov1(1)], of u ov] ov1(1) "2.prems"(2)
    by (auto simp: overrides_wf_iff overrides_over_def set_bt_insert)
  with 2 ov1 show ?case by auto
qed simp

lemma map_of_opt_entry:
  "map_of (opt_entry key name x @ m) k =
     (if k = key \<and> x \<noteq> None then map_option name x else map_of m k)"
  by (cases x) (auto simp: opt_entry_def)

lemma keys_opt_entry:
  "key' \<notin> fst ` set (opt_entry key name x @ m) \<longleftrightarrow>
     (key' = key \<longrightarrow> x = None) \<and> key' \<notin> fst ` set m"
  by (cases x) (auto simp: opt_entry_def)

lemma distinct_opt_entry:
  "distinct (map fst (opt_entry key name x @ m)) \<longleftrightarrow>
     distinct (map fst m) \<and> (x \<noteq> None \<longrightarrow> key \<notin> fst ` set m)"
  by (cases x) (auto simp: opt_entry_def)

lemma overrides_wf_lookup:
  "overrides_wf ov \<Longrightarrow> k \<in> set reserved_keys \<Longrightarrow> map_of (eo_extras ov) k = None"
  by (auto simp: overrides_wf_iff map_of_eq_None_iff)

lemma readable_unreserved: "k \<notin> set reserved_keys \<Longrightarrow> entry_readable (k, v)"
  by (simp add: reserved_keys_def entry_readable_def)

lemma embedding_wire: "embedding_from_wire_name (embedding_wire_name e) = Some e"
  by (cases e) (simp add: embedding_from_wire_name_def)

lemma overrides_wf_extras:
  assumes "overrides_wf ov"
  shows "distinct (map fst (eo_extras ov))" and "k \<in> set reserved_keys \<Longrightarrow> k \<notin> fst ` set (eo_extras ov)"
    and "list_all entry_readable (eo_extras ov)"
proof -
  show "distinct (map fst (eo_extras ov))"
    using assms by (simp add: overrides_wf_def bt_wf_def strict_sorted_iff)
  show un: "k \<in> set reserved_keys \<Longrightarrow> k \<notin> fst ` set (eo_extras ov)" for k
    using assms by (auto simp: overrides_wf_iff)
  show "list_all entry_readable (eo_extras ov)"
    using un readable_unreserved by (fastforce simp: list_all_iff)
qed

lemma readable_opt_entry:
  "list_all entry_readable (opt_entry key name x @ m) \<longleftrightarrow>
     list_all entry_readable m \<and> (\<forall>e. x = Some e \<longrightarrow> entry_readable (key, name e))"
  by (cases x) (auto simp: opt_entry_def)

lemma readable_wire_names:
  "entry_readable (''asr'', asr_wire_name e1)" "entry_readable (''fa'', fa_wire_name e2)"
  "entry_readable (''utr'', utr_wire_name e3)" "entry_readable (''translate'', translate_wire_name e4)"
  "entry_readable (''speaker'', speaker_wire_name e5)"
  "entry_readable (''speaker_embedding'', embedding_wire_name e6)"
  by (simp_all add: entry_readable_def asr.wire_accepted fa.wire_accepted
      utr.wire_accepted mt.wire_accepted sp.wire_accepted embedding_wire)

lemma extras_kept:
  assumes "overrides_wf ov" and "\<And>k. k \<notin> set reserved_keys \<Longrightarrow> map_of es k = map_of (eo_extras ov) k"
    and "distinct (map fst es)"
  shows "fold (\<lambda>(k, v). bt_insert k v) (filter (\<lambda>(k, v). k \<notin> set reserved_keys) es) [] = eo_extras ov"
proof -
  have "bt_from_entries (filter (\<lambda>(k, v). k \<notin> set reserved_keys) es) = eo_extras ov"
  proof (rule bt_map_eqI)
    show "bt_wf (eo_extras ov)" using assms(1) by (simp add: overrides_wf_def)
    have d: "distinct (map fst (filter (\<lambda>(k, v). k \<notin> set reserved_keys) es))"
      using assms(3) by (metis distinct_map_filter)
    show "bt_get (bt_from_entries (filter (\<lambda>(k, v). k \<notin> set reserved_keys) es)) k =
        bt_get (eo_extras ov) k" for k
      using overrides_wf_lookup [OF assms(1), of k]
      by (subst bt_get_from_distinct [OF d]) (simp add: map_of_filter_keys bt_get_def assms(2))
  qed simp
  then show ?thesis by (simp add: bt_from_entries_def)
qed

lemmas entries_simps =
  map_of_opt_entry distinct_opt_entry readable_opt_entry readable_wire_names

lemma overrides_wf_keys:
  assumes "overrides_wf ov"
  shows "''asr'' \<notin> fst ` set (eo_extras ov)" "''fa'' \<notin> fst ` set (eo_extras ov)"
    "''utr'' \<notin> fst ` set (eo_extras ov)" "''translate'' \<notin> fst ` set (eo_extras ov)"
    "''speaker'' \<notin> fst ` set (eo_extras ov)" "''speaker_embedding'' \<notin> fst ` set (eo_extras ov)"
  by (rule overrides_wf_extras(2) [OF assms], simp add: reserved_keys_def)+

lemma overrides_wf_none:
  assumes "overrides_wf ov"
  shows "map_of (eo_extras ov) ''asr'' = None" "map_of (eo_extras ov) ''fa'' = None"
    "map_of (eo_extras ov) ''utr'' = None" "map_of (eo_extras ov) ''translate'' = None"
    "map_of (eo_extras ov) ''speaker'' = None" "map_of (eo_extras ov) ''speaker_embedding'' = None"
  by (rule overrides_wf_lookup [OF assms], simp add: reserved_keys_def)+

lemma overrides_entries_read:
  assumes "overrides_wf ov"
  shows "distinct (map fst (overrides_entries ov))" "list_all entry_readable (overrides_entries ov)"
    "overrides_over (overrides_entries ov) no_overrides = ov"
proof -
  note x = overrides_wf_extras [OF assms] and un = overrides_wf_keys [OF assms]
  show d: "distinct (map fst (overrides_entries ov))"
    unfolding overrides_entries_def distinct_opt_entry keys_opt_entry by (simp add: x(1) un)
  show "list_all entry_readable (overrides_entries ov)"
    using x(3) unfolding overrides_entries_def by (simp only: entries_simps simp_thms)
  have "fold (\<lambda>(k, v). bt_insert k v)
      (filter (\<lambda>(k, v). k \<notin> set reserved_keys) (overrides_entries ov)) [] = eo_extras ov"
    by (rule extras_kept [OF assms _ d])
       (simp only: overrides_entries_def map_of_opt_entry reserved_key_iff, simp)
  then show "overrides_over (overrides_entries ov) no_overrides = ov"
    using overrides_wf_none [OF assms]
    unfolding overrides_over_def lookup_over_def no_overrides_def overrides_entries_def
      map_of_opt_entry
    by (cases ov) (auto simp: asr.wire_accepted fa.wire_accepted
      utr.wire_accepted mt.wire_accepted sp.wire_accepted embedding_wire split: option.splits)
qed

lemma overrides_wf_empty [simp]: "overrides_wf no_overrides"
  by (simp add: overrides_wf_def no_overrides_def)

text \<open>
  Stored overrides come back. Writing the overrides of a job and reading them back gives the
  same overrides exactly when no engine knob uses one of the six keys that name an engine
  choice; everything a read accepts has that form, so a stored and re-read value never changes
  again. A read is refused exactly when an engine key holds a name its category does not know.
\<close>

theorem overrides_roundtrip:
  "(overrides_deserialize u (overrides_entries ov) = Ok ov \<longleftrightarrow> overrides_wf ov) \<and>
   (case overrides_deserialize u es of
      Err e \<Rightarrow> \<not> list_all entry_readable (bt_from_entries es)
    | Ok got \<Rightarrow> list_all entry_readable (bt_from_entries es) \<and> overrides_wf got \<and>
        overrides_deserialize u (overrides_entries got) = Ok got)"
proof -
  have wf: "overrides_wf got" if "overrides_deserialize u es = Ok got" for es got
    using that overrides_read_unreserved [of u _ no_overrides got]
    by (simp add: overrides_deserialize_def)
  have again: "overrides_deserialize u (overrides_entries ov) = Ok ov" if "overrides_wf ov" for ov
    using overrides_deserialize_over overrides_entries_read [OF that] by simp
  have "overrides_deserialize u es = Ok (overrides_over (bt_from_entries es) no_overrides)"
    if "list_all entry_readable (bt_from_entries es)"
    using that by (simp add: overrides_deserialize_def overrides_read_over bt_from_entries_distinct)
  moreover have "list_all entry_readable (bt_from_entries es)"
    if "overrides_deserialize u es = Ok x" for x
    using that overrides_read_readable by (simp add: overrides_deserialize_def)
  ultimately show ?thesis
    using wf again by (cases "overrides_deserialize u es") auto
qed

lemma fa_dispatch_accepted: "fa_try_from_wire_name (fa_dispatch_override_name e) = Some e"
  by (cases e) (simp_all add: fa_dispatch_override_name_def fa_try_from_wire_name_def fa_specs
      accepted_names_from_table_eval resolve_variant_def)

lemma asr_dispatch_accepted:
  "asr_dispatch_override_name e = Some n \<Longrightarrow> asr_try_from_wire_name n = Some e"
proof -
  have "case asr_dispatch_override_name e of None \<Rightarrow> True | Some n \<Rightarrow> asr_try_from_wire_name n = Some e"
    by (cases e) (simp_all add: asr_try_from_wire_name_def)
  then show "asr_dispatch_override_name e = Some n \<Longrightarrow> asr_try_from_wire_name n = Some e" by simp
qed

definition hosted_asr :: "asr_engine_name option \<Rightarrow> asr_engine_name option" where
  "hosted_asr x = Option.bind x (\<lambda>e. case asr_dispatch_override_name e of None \<Rightarrow> None | Some _ \<Rightarrow> Some e)"

lemma hosted_asr_read:
  "hosted_asr x = Option.bind (Option.bind x asr_dispatch_override_name) asr_try_from_wire_name"
  using asr_dispatch_accepted by (cases x) (auto simp: hosted_asr_def split: option.splits)

definition worker_overrides :: "engine_overrides \<Rightarrow> engine_overrides" where
  "worker_overrides ov =
     ov\<lparr>eo_utr := None, eo_asr := hosted_asr (eo_asr ov)\<rparr>"

text \<open>
  What a worker is told. The worker-facing map of a job's overrides, read with the reader of
  stored overrides, names the same engines and knobs, less the UTR engine and an ASR engine that
  no worker hosts, although the forced-alignment names it uses differ from the stored ones.
\<close>

theorem dispatch_reads_back:
  assumes "overrides_wf ov"
  shows "overrides_deserialize u (dispatch_overrides ov) = Ok (worker_overrides ov)"
proof -
  let ?es = "opt_entry ''asr'' id (Option.bind (eo_asr ov) asr_dispatch_override_name) @
        opt_entry ''fa'' fa_dispatch_override_name (eo_fa ov) @
        opt_entry ''translate'' translate_dispatch_override_name (eo_translate ov) @
        opt_entry ''speaker'' speaker_wire_name (eo_speaker ov) @
        opt_entry ''speaker_embedding'' embedding_wire_name (eo_speaker_embedding ov) @
        eo_extras ov"
  note x = overrides_wf_extras [OF assms] and un = overrides_wf_keys [OF assms]
  have asr: "entry_readable (''asr'', id n)"
    if "Option.bind (eo_asr ov) asr_dispatch_override_name = Some n" for n
    using that asr_dispatch_accepted by (cases "eo_asr ov") (auto simp: entry_readable_def)
  have fa: "entry_readable (''fa'', fa_dispatch_override_name e)" for e
    by (simp add: entry_readable_def fa_dispatch_accepted)
  have d: "distinct (map fst ?es)"
    unfolding distinct_opt_entry keys_opt_entry by (simp add: x(1) un)
  have r: "list_all entry_readable ?es"
    using x(3) asr fa unfolding readable_opt_entry translate_dispatch_override_name_def
    by (simp add: readable_wire_names)
  have dd: "distinct (map fst (dispatch_overrides ov))"
    by (simp add: dispatch_overrides_def bt_from_entries_distinct)
  have "list_all entry_readable (dispatch_overrides ov)"
    using r by (simp add: dispatch_overrides_def list_all_iff set_bt_from_entries [OF d])
  then have "overrides_deserialize u (dispatch_overrides ov) =
      Ok (overrides_over (dispatch_overrides ov) no_overrides)"
    using dd overrides_deserialize_over by blast
  also have "overrides_over (dispatch_overrides ov) no_overrides = overrides_over ?es no_overrides"
    by (rule overrides_over_cong [OF _ dd d])
       (simp add: dispatch_overrides_def bt_get_from_distinct [OF d, unfolded bt_get_def])
  also have "overrides_over ?es no_overrides = worker_overrides ov"
  proof -
    have "fold (\<lambda>(k, v). bt_insert k v)
        (filter (\<lambda>(k, v). k \<notin> set reserved_keys) ?es) [] = eo_extras ov"
      by (rule extras_kept [OF assms _ d]) (simp only: map_of_opt_entry reserved_key_iff, simp)
    then show ?thesis
      using overrides_wf_none [OF assms]
      unfolding overrides_over_def lookup_over_def no_overrides_def map_of_opt_entry
        worker_overrides_def hosted_asr_read translate_dispatch_override_name_def
      by (cases ov; cases "Option.bind (eo_asr ov) asr_dispatch_override_name") (auto simp: fa_dispatch_accepted mt.wire_accepted sp.wire_accepted
        embedding_wire split: option.splits)
  qed
  finally show ?thesis .
qed

definition canto_overrides :: engine_overrides where
  "canto_overrides =
     no_overrides\<lparr>eo_asr := Some AsrRevAi, eo_fa := Some FaWav2vecCanto, eo_utr := Some UtrWhisper,
       eo_extras := [(''qwen_model'', ''small'')]\<rparr>"

theorem dispatch_reads_back_witness:
  "overrides_wf canto_overrides \<and>
   overrides_deserialize id (dispatch_overrides canto_overrides) =
     Ok (no_overrides\<lparr>eo_fa := Some FaWav2vecCanto, eo_extras := [(''qwen_model'', ''small'')]\<rparr>)"
proof -
  have wf: "overrides_wf canto_overrides"
    by (simp add: overrides_wf_def canto_overrides_def no_overrides_def bt_wf_def reserved_keys_def)
  have "worker_overrides canto_overrides =
      no_overrides\<lparr>eo_fa := Some FaWav2vecCanto, eo_extras := [(''qwen_model'', ''small'')]\<rparr>"
    by (simp add: worker_overrides_def canto_overrides_def no_overrides_def hosted_asr_def)
  with dispatch_reads_back [OF wf, of id] wf show ?thesis by simp
qed

text \<open>
  The table of forced-alignment engines is sound. Each engine has its own row and the worker
  backends correspond to the engines one to one; no spelling belongs to two engines, and every
  canonical and stored name resolves to its engine; a group is retried on another engine that
  takes every language, reports token onsets and never retries again, so a failed group is
  aligned at most twice and never on an engine its languages were not admitted for.
\<close>

theorem fa_table_sound:
  "fs_engine (fa_spec e) = e \<and> fa_spec e \<in> set FA_ENGINES \<and>
   fa_from_worker_backend (fs_worker_backend (fa_spec e)) = e \<and>
   fs_worker_backend (fa_spec (fa_from_worker_backend b)) = b \<and>
   resolve_variant accepted_names_from_table (fa_selection_name e) = Some e \<and>
   fa_from_wire_name (fa_wire_name e) = Ok e \<and>
   distinct (map fst accepted_names_from_table) \<and>
   (case retry_target (fs_fallback (fa_spec e)) of
      None \<Rightarrow> True
    | Some t \<Rightarrow> t \<noteq> e \<and> support_covers (fs_language_support (fa_spec t)) code \<and>
        fs_timing_resolution (fa_spec t) = TokenOnsets \<and>
        retry_target (fs_fallback (fa_spec t)) = None)"
proof -
  have "fs_engine (fa_spec e) = e" "fa_spec e \<in> set FA_ENGINES"
    "fa_from_worker_backend (fs_worker_backend (fa_spec e)) = e"
    by (cases e; simp add: fa_specs FA_ENGINES_def)+
  moreover have "fs_worker_backend (fa_spec (fa_from_worker_backend b)) = b"
    by (cases b) (simp_all add: fa_specs)
  moreover have "case retry_target (fs_fallback (fa_spec e)) of
      None \<Rightarrow> True
    | Some t \<Rightarrow> t \<noteq> e \<and> support_covers (fs_language_support (fa_spec t)) code \<and>
        fs_timing_resolution (fa_spec t) = TokenOnsets \<and>
        retry_target (fs_fallback (fa_spec t)) = None"
    by (cases e) (simp_all add: fa_specs)
  moreover have "fa_from_wire_name (fa_wire_name e) = Ok e"
    by (simp only: fa_from_wire_name_def fa.parse_wire_roundtrip)
  ultimately show ?thesis
    using fa.resolve_canonical fa.spellings_distinct by blast
qed

text \<open>
  A typed ASR name. \<^verbatim>\<open>paraformer\<close> is the FunAudio engine with its checkpoint, unless the job
  already names one; every other name is an accepted spelling with nothing implied. One accepted
  spelling, \<^verbatim>\<open>whisper-oai\<close>, is not read back from stored options.
\<close>

lemma asr_selection_parse_iff:
  "asr_selection_parse n = Some s \<longleftrightarrow>
     n = ''paraformer'' \<and>
       s = \<lparr>as_engine = AsrHkFunaudio, as_implied_overrides = [(''funaudio_model'', ''paraformer-zh'')]\<rparr> \<or>
     (n, as_engine s) \<in> set asr_accepted_names \<and> as_implied_overrides s = []"
proof -
  have "''paraformer'' \<notin> fst ` set asr_accepted_names" by (simp add: asr_accepted_names_def)
  then show ?thesis
    using asr.resolve_iff [of n]
    by (cases s) (force simp: asr_selection_parse_def PARAFORMER_SELECTION_NAME_def
        FUNAUDIO_MODEL_OVERRIDE_KEY_def PARAFORMER_CHECKPOINT_def from_engine_def)
qed

lemma apply_implied_paraformer:
  assumes "asr_selection_parse ''paraformer'' = Some s"
  shows "bt_get (eo_extras (apply_implied s ov)) k =
    (if k = ''funaudio_model'' \<and> bt_get (eo_extras ov) k = None then Some ''paraformer-zh''
     else bt_get (eo_extras ov) k)"
  using assms
  by (auto simp: asr_selection_parse_def PARAFORMER_SELECTION_NAME_def FUNAUDIO_MODEL_OVERRIDE_KEY_def
      PARAFORMER_CHECKPOINT_def apply_implied_def bt_or_insert_def split: option.splits)

theorem asr_alias_not_stored:
  "asr_selection_parse ''whisper-oai'' = Some (from_engine AsrWhisperOai) \<and>
   asr_from_wire_name ''whisper-oai'' = Err (UnknownEngineName ''whisper-oai'' ''ASR'') \<and>
   (asr_try_from_wire_name n = Some e \<longrightarrow> resolve_variant asr_accepted_names n = Some e)"
proof -
  have "asr_selection_parse ''whisper-oai'' = Some (from_engine AsrWhisperOai)"
    by (simp add: asr_selection_parse_def PARAFORMER_SELECTION_NAME_def resolve_variant_def
        asr_accepted_names_def)
  moreover have "asr_from_wire_name ''whisper-oai'' = Err (UnknownEngineName ''whisper-oai'' ''ASR'')"
    by (simp add: asr_from_wire_name_def parse_wire_name_def asr_try_from_wire_name_def)
  moreover have "resolve_variant asr_accepted_names n = Some e" if "asr_try_from_wire_name n = Some e"
    using that asr.canonical_accepted [of e]
    by (cases e) (auto simp: asr.resolve_iff asr_try_from_wire_name_def split: if_splits)
  ultimately show ?thesis by blast
qed

text \<open>
  The names a worker sees and the stored names of the forced-alignment engines differ for all but
  one engine.
\<close>

lemma fa_dispatch_differs: "fa_dispatch_override_name e = fa_wire_name e \<longleftrightarrow> e = FaQwen3"
  by (cases e) (simp_all add: fa_dispatch_override_name_def fa_wire_name_def fa_specs)

end
