(* ===== verification/Memory_Budget.thy ===== *)
theory Memory_Budget
  imports Complex_Main Domain Engines
begin

text \<open>
  Memory budgets: the tiers of a host by its RAM and the per-worker peak estimate
  (\<^verbatim>\<open>crates/batchalign-types/src/memory.rs\<close>), worker profiles (\<^verbatim>\<open>worker_profile.rs\<close>), the registry
  of released commands with their budgets (\<^verbatim>\<open>command_spec.rs\<close>), and what a worker holds per load
  (\<^verbatim>\<open>crates/batchalign/src/worker/residency.rs\<close>). Sizes are numbers of MB. The tables hold small
  constants, so their sums and products stay far below the width of \<^verbatim>\<open>u64\<close>
  (\<^verbatim>\<open>residency_settles\<close>) and are written over the natural numbers. The loading overhead, a
  floating-point constant, is the rational number it denotes: the product with a budget below
  \<^verbatim>\<open>2^52\<close> is exact, so the truncation is a floor.
\<close>

subsection \<open>Tasks, profiles, tiers\<close>

datatype infer_task =
    TaskMorphosyntax | TaskUtseg | TaskTranslate | TaskCoref | TaskFa | TaskAsr | TaskOpensmile
  | TaskAvqi | TaskSpeaker | TaskWordSegmentation

fun task_wire_name :: "infer_task \<Rightarrow> string" where
  "task_wire_name TaskMorphosyntax = ''morphosyntax''"
| "task_wire_name TaskUtseg = ''utseg''"
| "task_wire_name TaskTranslate = ''translate''"
| "task_wire_name TaskCoref = ''coref''"
| "task_wire_name TaskFa = ''fa''"
| "task_wire_name TaskAsr = ''asr''"
| "task_wire_name TaskOpensmile = ''opensmile''"
| "task_wire_name TaskAvqi = ''avqi''"
| "task_wire_name TaskSpeaker = ''speaker''"
| "task_wire_name TaskWordSegmentation = ''word_segmentation''"

datatype worker_profile = GpuProfile | StanzaProfile | IoProfile

fun profile_for_task :: "infer_task \<Rightarrow> worker_profile" where
  "profile_for_task TaskAsr = GpuProfile"
| "profile_for_task TaskFa = GpuProfile"
| "profile_for_task TaskSpeaker = GpuProfile"
| "profile_for_task TaskMorphosyntax = StanzaProfile"
| "profile_for_task TaskUtseg = StanzaProfile"
| "profile_for_task TaskCoref = StanzaProfile"
| "profile_for_task TaskTranslate = IoProfile"
| "profile_for_task TaskOpensmile = IoProfile"
| "profile_for_task TaskAvqi = IoProfile"
| "profile_for_task TaskWordSegmentation = IoProfile"

fun profile_label :: "worker_profile \<Rightarrow> string" where
  "profile_label GpuProfile = ''profile:gpu''"
| "profile_label StanzaProfile = ''profile:stanza''"
| "profile_label IoProfile = ''profile:io''"

fun profile_name :: "worker_profile \<Rightarrow> string" where
  "profile_name GpuProfile = ''gpu''"
| "profile_name StanzaProfile = ''stanza''"
| "profile_name IoProfile = ''io''"

definition profile_try_from_name :: "string \<Rightarrow> worker_profile option" where
  "profile_try_from_name name =
     (if name = ''gpu'' then Some GpuProfile
      else if name = ''stanza'' then Some StanzaProfile
      else if name = ''io'' then Some IoProfile
      else None)"

fun default_max_workers :: "worker_profile \<Rightarrow> nat \<Rightarrow> nat" where
  "default_max_workers GpuProfile auto_tune = 1"
| "default_max_workers StanzaProfile auto_tune = auto_tune"
| "default_max_workers IoProfile auto_tune = 1"

datatype memory_tier_kind = SmallTier | MediumTier | LargeTier | FleetTier

text \<open>The refusal quotes the text in its \<^verbatim>\<open>Debug\<close> spelling, the parameter \<^verbatim>\<open>debug\<close>.\<close>

definition tier_from_str :: "(string \<Rightarrow> string) \<Rightarrow> string \<Rightarrow> (string, memory_tier_kind) result" where
  "tier_from_str debug s =
     (if s = ''small'' then Ok SmallTier
      else if s = ''medium'' then Ok MediumTier
      else if s = ''large'' then Ok LargeTier
      else if s = ''fleet'' then Ok FleetTier
      else Err (''unknown memory tier '' @ debug s @ ''; valid values: small, medium, large, fleet''))"

fun tier_display :: "memory_tier_kind \<Rightarrow> string" where
  "tier_display SmallTier = ''Small (<24 GB)''"
| "tier_display MediumTier = ''Medium (24-48 GB)''"
| "tier_display LargeTier = ''Large (48-128 GB)''"
| "tier_display FleetTier = ''Fleet (>128 GB)''"

record memory_tier =
  tier_kind :: memory_tier_kind
  tier_total_mb :: nat
  headroom_mb :: nat
  gpu_startup_mb :: nat
  stanza_startup_mb :: nat
  io_startup_mb :: nat
  max_suggested_workers :: nat

definition tier_from_total_mb :: "nat \<Rightarrow> memory_tier" where
  "tier_from_total_mb total_mb =
     (let (kind, headroom, gpu, stanza, io, max_workers) =
        (if total_mb < 24000 then (SmallTier, 2000, 6000, 3000, 2000, 1)
         else if total_mb < 48000 then (MediumTier, 4000, 3000, 6000, 3000, 1)
         else if total_mb < 128000 then (LargeTier, 8000, 16000, 12000, 4000, 4)
         else (FleetTier, 8000, 16000, 12000, 4000, 8))
      in \<lparr>tier_kind = kind, tier_total_mb = total_mb, headroom_mb = headroom,
          gpu_startup_mb = gpu, stanza_startup_mb = stanza, io_startup_mb = io,
          max_suggested_workers = max_workers\<rparr>)"

fun startup_reservation_mb_for_tier :: "worker_profile \<Rightarrow> memory_tier \<Rightarrow> nat" where
  "startup_reservation_mb_for_tier GpuProfile tier = gpu_startup_mb tier"
| "startup_reservation_mb_for_tier StanzaProfile tier = stanza_startup_mb tier"
| "startup_reservation_mb_for_tier IoProfile tier = io_startup_mb tier"

definition estimate_per_worker_peak_mb_with_profile ::
    "nat \<Rightarrow> worker_profile \<Rightarrow> memory_tier \<Rightarrow> nat" where
  "estimate_per_worker_peak_mb_with_profile worst_case profile tier =
     min worst_case (startup_reservation_mb_for_tier profile tier)"

definition estimate_per_worker_peak_mb :: "nat \<Rightarrow> bool \<Rightarrow> memory_tier \<Rightarrow> nat" where
  "estimate_per_worker_peak_mb worst_case is_gpu_heavy tier =
     estimate_per_worker_peak_mb_with_profile worst_case
       (if is_gpu_heavy then GpuProfile else StanzaProfile) tier"

subsection \<open>The registry of commands\<close>

datatype gil_process_need = AlwaysProcess | NeverProcess (threaded_base_mb: nat)

fun needs_process :: "gil_process_need \<Rightarrow> bool" where
  "needs_process AlwaysProcess = True"
| "needs_process (NeverProcess mb) = False"

record command_spec =
  cs_name :: released_command
  cs_tasks :: "infer_task list"
  cs_task_label :: string
  cs_profile :: "worker_profile option"
  cs_gil_process_need :: gil_process_need
  cs_base_mb_process :: nat
  cs_loading_overhead :: rat

datatype python_runtime = Gil | FreeThreaded

fun base_mb_for_need :: "gil_process_need \<Rightarrow> python_runtime \<Rightarrow> nat \<Rightarrow> nat" where
  "base_mb_for_need (NeverProcess mb) FreeThreaded process_mb = mb"
| "base_mb_for_need (NeverProcess mb) Gil process_mb = process_mb"
| "base_mb_for_need AlwaysProcess runtime process_mb = process_mb"

definition base_mb_for_runtime :: "command_spec \<Rightarrow> python_runtime \<Rightarrow> nat" where
  "base_mb_for_runtime spec runtime =
     base_mb_for_need (cs_gil_process_need spec) runtime (cs_base_mb_process spec)"

definition execution_budget_mb :: "command_spec \<Rightarrow> python_runtime \<Rightarrow> nat" where
  "execution_budget_mb spec runtime =
     nat \<lfloor>of_nat (base_mb_for_runtime spec runtime) * cs_loading_overhead spec\<rfloor>"

definition COMMAND_SPECS :: "command_spec list" where
  "COMMAND_SPECS =
     [\<lparr>cs_name = Align, cs_tasks = [TaskFa], cs_task_label = ''fa'',
       cs_profile = Some GpuProfile, cs_gil_process_need = NeverProcess 4000, cs_base_mb_process = 4000,
       cs_loading_overhead = 3 / 2\<rparr>,
      \<lparr>cs_name = Transcribe, cs_tasks = [TaskAsr], cs_task_label = ''asr'',
       cs_profile = Some GpuProfile, cs_gil_process_need = NeverProcess 1500, cs_base_mb_process = 1500,
       cs_loading_overhead = 3 / 2\<rparr>,
      \<lparr>cs_name = TranscribeS, cs_tasks = [TaskAsr], cs_task_label = ''asr'',
       cs_profile = Some GpuProfile, cs_gil_process_need = NeverProcess 2500, cs_base_mb_process = 2500,
       cs_loading_overhead = 3 / 2\<rparr>,
      \<lparr>cs_name = Translate, cs_tasks = [TaskTranslate], cs_task_label = ''translate'',
       cs_profile = Some IoProfile, cs_gil_process_need = NeverProcess 4000, cs_base_mb_process = 4000,
       cs_loading_overhead = 3 / 2\<rparr>,
      \<lparr>cs_name = Morphotag, cs_tasks = [TaskMorphosyntax], cs_task_label = ''morphosyntax'',
       cs_profile = Some StanzaProfile, cs_gil_process_need = AlwaysProcess, cs_base_mb_process = 8000,
       cs_loading_overhead = 3 / 2\<rparr>,
      \<lparr>cs_name = Coref, cs_tasks = [TaskCoref], cs_task_label = ''coref'',
       cs_profile = Some StanzaProfile, cs_gil_process_need = AlwaysProcess, cs_base_mb_process = 4000,
       cs_loading_overhead = 3 / 2\<rparr>,
      \<lparr>cs_name = Utseg, cs_tasks = [TaskUtseg], cs_task_label = ''utterance'',
       cs_profile = Some StanzaProfile, cs_gil_process_need = AlwaysProcess, cs_base_mb_process = 6000,
       cs_loading_overhead = 3 / 2\<rparr>,
      \<lparr>cs_name = Benchmark, cs_tasks = [TaskAsr], cs_task_label = ''asr,eval'',
       cs_profile = Some GpuProfile, cs_gil_process_need = NeverProcess 1500, cs_base_mb_process = 1500,
       cs_loading_overhead = 3 / 2\<rparr>,
      \<lparr>cs_name = Opensmile, cs_tasks = [TaskOpensmile], cs_task_label = ''opensmile'',
       cs_profile = Some IoProfile, cs_gil_process_need = AlwaysProcess, cs_base_mb_process = 500,
       cs_loading_overhead = 3 / 2\<rparr>,
      \<lparr>cs_name = Compare, cs_tasks = [TaskMorphosyntax], cs_task_label = ''morphosyntax'',
       cs_profile = Some StanzaProfile, cs_gil_process_need = AlwaysProcess, cs_base_mb_process = 8000,
       cs_loading_overhead = 3 / 2\<rparr>,
      \<lparr>cs_name = Avqi, cs_tasks = [TaskAvqi], cs_task_label = ''avqi'',
       cs_profile = Some IoProfile, cs_gil_process_need = AlwaysProcess, cs_base_mb_process = 1500,
       cs_loading_overhead = 3 / 2\<rparr>,
      \<lparr>cs_name = Diarize, cs_tasks = [TaskSpeaker], cs_task_label = ''speaker'',
       cs_profile = Some GpuProfile, cs_gil_process_need = NeverProcess 2500, cs_base_mb_process = 2500,
       cs_loading_overhead = 3 / 2\<rparr>,
      \<lparr>cs_name = SpeakerIdentify, cs_tasks = [TaskSpeaker], cs_task_label = ''speaker'',
       cs_profile = Some GpuProfile, cs_gil_process_need = NeverProcess 1000, cs_base_mb_process = 1000,
       cs_loading_overhead = 3 / 2\<rparr>,
      \<lparr>cs_name = Convert, cs_tasks = [], cs_task_label = '''',
       cs_profile = None, cs_gil_process_need = NeverProcess 256, cs_base_mb_process = 256,
       cs_loading_overhead = 3 / 2\<rparr>]"

definition command_spec_for :: "released_command \<Rightarrow> command_spec option" where
  "command_spec_for name = find (\<lambda>s. cs_name s = name) COMMAND_SPECS"

definition profile_for_command :: "released_command \<Rightarrow> worker_profile option" where
  "profile_for_command command = Option.bind (command_spec_for command) cs_profile"

text \<open>The reservation of one worker of a command on a host of the given size.\<close>

definition per_worker_budget :: "command_spec \<Rightarrow> python_runtime \<Rightarrow> nat \<Rightarrow> nat" where
  "per_worker_budget spec runtime total_mb =
     (let tier = tier_from_total_mb total_mb; worst_case = execution_budget_mb spec runtime
      in case cs_profile spec of
           Some profile \<Rightarrow> estimate_per_worker_peak_mb_with_profile worst_case profile tier
         | None \<Rightarrow> worst_case)"

subsection \<open>What a load holds\<close>

datatype footprint = MeasuredFootprint (built: nat) (measured_in_use: nat) | EstimatedFootprint nat

definition footprint_wf :: "footprint \<Rightarrow> bool" where
  "footprint_wf f \<longleftrightarrow> (case f of MeasuredFootprint b u \<Rightarrow> b \<le> u | EstimatedFootprint _ \<Rightarrow> True)"

fun footprint_in_use :: "footprint \<Rightarrow> nat" where
  "footprint_in_use (MeasuredFootprint b u) = u"
| "footprint_in_use (EstimatedFootprint u) = u"

fun footprint_unread :: "footprint \<Rightarrow> nat" where
  "footprint_unread (MeasuredFootprint b u) = u - b"
| "footprint_unread (EstimatedFootprint u) = 0"

definition ACTIVATION_MARGIN_PERCENT :: nat where "ACTIVATION_MARGIN_PERCENT = 25"

definition div_ceil :: "nat \<Rightarrow> nat \<Rightarrow> nat" where
  "div_ceil a b = (if a mod b > 0 then a div b + 1 else a div b)"

definition footprint_margin :: "footprint \<Rightarrow> nat" where
  "footprint_margin f = div_ceil (footprint_in_use f * ACTIVATION_MARGIN_PERCENT) 100"

definition footprint_reserved :: "footprint \<Rightarrow> nat" where
  "footprint_reserved f = footprint_in_use f + footprint_margin f"

definition footprint_settled :: "footprint \<Rightarrow> nat" where
  "footprint_settled f = footprint_unread f + footprint_margin f"

definition WORKER_BASELINE :: footprint where "WORKER_BASELINE = MeasuredFootprint 275 275"
definition STANZA_MORPHOSYNTAX_PIPELINE_MB :: nat where "STANZA_MORPHOSYNTAX_PIPELINE_MB = 752"
definition STANZA_PIPELINE_CAPACITY :: nat where "STANZA_PIPELINE_CAPACITY = 2"
definition MORPHOSYNTAX :: footprint where
  "MORPHOSYNTAX = EstimatedFootprint (STANZA_PIPELINE_CAPACITY * STANZA_MORPHOSYNTAX_PIPELINE_MB)"
definition UTSEG :: footprint where
  "UTSEG = EstimatedFootprint (STANZA_MORPHOSYNTAX_PIPELINE_MB + 460)"
definition COREF :: footprint where "COREF = MeasuredFootprint 519 2568"
definition PYANNOTE_DIARIZATION :: footprint where
  "PYANNOTE_DIARIZATION = MeasuredFootprint 378 2274"
definition SPEAKER_EMBEDDING :: footprint where "SPEAKER_EMBEDDING = MeasuredFootprint 381 514"

datatype residency = ResidencyNothing | WorkerLife footprint | PerBatch footprint

fun speaker_residency ::
    "speaker_engine_name option \<Rightarrow> speaker_embedding_backend option \<Rightarrow> residency" where
  "speaker_residency (Some SpPyannote) x = WorkerLife PYANNOTE_DIARIZATION"
| "speaker_residency (Some SpPyannoteAi) (Some EmbeddingPyannote) = WorkerLife SPEAKER_EMBEDDING"
| "speaker_residency None (Some EmbeddingPyannote) = WorkerLife SPEAKER_EMBEDDING"
| "speaker_residency (Some SpPyannoteAi) None = ResidencyNothing"
| "speaker_residency None None = ResidencyNothing"

fun residency_of :: "infer_task \<Rightarrow> engine_overrides \<Rightarrow> residency" where
  "residency_of TaskMorphosyntax engines = WorkerLife MORPHOSYNTAX"
| "residency_of TaskUtseg engines = WorkerLife UTSEG"
| "residency_of TaskCoref engines = PerBatch COREF"
| "residency_of TaskTranslate engines =
     WorkerLife (EstimatedFootprint (translate_resident_memory_mb
       (case eo_translate engines of Some e \<Rightarrow> e | None \<Rightarrow> MtGoogle)))"
| "residency_of TaskFa engines =
     (case eo_fa engines of
        Some e \<Rightarrow> WorkerLife (EstimatedFootprint (fa_resident_memory_mb e))
      | None \<Rightarrow> ResidencyNothing)"
| "residency_of TaskAsr engines =
     (case eo_asr engines of
        Some e \<Rightarrow>
          (case asr_dispatch_override_name e of
             Some _ \<Rightarrow> WorkerLife (EstimatedFootprint (asr_resident_memory_mb e))
           | None \<Rightarrow> ResidencyNothing)
      | None \<Rightarrow> ResidencyNothing)"
| "residency_of TaskSpeaker engines =
     speaker_residency (eo_speaker engines) (eo_speaker_embedding engines)"
| "residency_of TaskOpensmile engines = ResidencyNothing"
| "residency_of TaskAvqi engines = ResidencyNothing"
| "residency_of TaskWordSegmentation engines = ResidencyNothing"

fun residency_loading :: "residency \<Rightarrow> nat option" where
  "residency_loading ResidencyNothing = None"
| "residency_loading (WorkerLife f) = Some (footprint_reserved f)"
| "residency_loading (PerBatch f) = Some (footprint_reserved f)"

fun residency_resident :: "residency \<Rightarrow> nat" where
  "residency_resident ResidencyNothing = 0"
| "residency_resident (PerBatch f) = 0"
| "residency_resident (WorkerLife f) = footprint_settled f"

fun residency_batch :: "residency \<Rightarrow> nat option" where
  "residency_batch ResidencyNothing = None"
| "residency_batch (WorkerLife f) = None"
| "residency_batch (PerBatch f) = Some (footprint_reserved f)"


subsection \<open>Consistency of the tables\<close>

lemma command_spec_for_eval:
  "command_spec_for c = Some (COMMAND_SPECS ! (case c of
     Align \<Rightarrow> 0 | Transcribe \<Rightarrow> 1 | TranscribeS \<Rightarrow> 2 | Translate \<Rightarrow> 3 | Morphotag \<Rightarrow> 4 | Coref \<Rightarrow> 5
   | Utseg \<Rightarrow> 6 | Benchmark \<Rightarrow> 7 | Opensmile \<Rightarrow> 8 | Compare \<Rightarrow> 9 | Avqi \<Rightarrow> 10 | Diarize \<Rightarrow> 11
   | SpeakerIdentify \<Rightarrow> 12 | Convert \<Rightarrow> 13))"
  by (cases c) (simp_all add: command_spec_for_def COMMAND_SPECS_def)

text \<open>
  The command registry agrees with the task profiles. Every released command has exactly the
  entry that names it, so the lookup never panics; every task of a command runs on the
  command's worker profile; and a command has no profile exactly when it has no worker task.
\<close>

theorem command_specs_consistent:
  "\<exists>s. command_spec_for c = Some s \<and> cs_name s = c \<and> s \<in> set COMMAND_SPECS \<and>
     (\<forall>s' \<in> set COMMAND_SPECS. cs_name s' = c \<longrightarrow> s' = s) \<and>
     list_all (\<lambda>t. Some (profile_for_task t) = cs_profile s) (cs_tasks s) \<and>
     (cs_profile s = None \<longleftrightarrow> cs_tasks s = []) \<and>
     profile_for_command c = cs_profile s"
  by (cases c)
     (simp_all add: command_spec_for_eval profile_for_command_def, simp_all add: COMMAND_SPECS_def)

lemma execution_budget_three_halves:
  "s \<in> set COMMAND_SPECS \<Longrightarrow> 2 * execution_budget_mb s runtime = 3 * base_mb_for_runtime s runtime"
  by (cases runtime) (auto simp: COMMAND_SPECS_def execution_budget_mb_def base_mb_for_runtime_def)

text \<open>
  On a large host the envelope of the tier is no smaller than the worst case for every command
  but translation.
\<close>

theorem large_tier_clamp:
  assumes "48000 \<le> total_mb" and "command_spec_for c = Some s"
  shows "per_worker_budget s runtime total_mb =
    (if c = Translate then 4000 else execution_budget_mb s runtime)"
  using assms
  by (cases c; cases runtime)
     (auto simp: command_spec_for_eval per_worker_budget_def tier_from_total_mb_def Let_def
       estimate_per_worker_peak_mb_with_profile_def execution_budget_mb_def base_mb_for_runtime_def
       COMMAND_SPECS_def)

lemma footprint_settled_le: "footprint_wf f \<Longrightarrow> footprint_settled f \<le> footprint_reserved f"
  by (cases f) (auto simp: footprint_wf_def footprint_settled_def footprint_reserved_def)

lemmas residency_constants =
  MORPHOSYNTAX_def UTSEG_def COREF_def PYANNOTE_DIARIZATION_def SPEAKER_EMBEDDING_def
  STANZA_MORPHOSYNTAX_PIPELINE_MB_def STANZA_PIPELINE_CAPACITY_def
  HTTP_CLIENT_BASELINE_RSS_MB_def SEAMLESS_M4T_MEDIUM_RSS_MB_def NLLB_200_DISTILLED_1_3B_RSS_MB_def
  WHISPER_LARGE_V3_RSS_MB_def WAVE2VEC_FA_RSS_MB_def QWEN3_FA_RSS_MB_def

lemma footprint_reserved_eq:
  "footprint_reserved f = footprint_in_use f + div_ceil (footprint_in_use f) 4"
proof -
  have "div_ceil (u * 25) 100 = div_ceil u 4" for u
    using div_mult_mult1 [of 25 u 4] mult_mod_right [of 25 u 4]
    by (simp add: div_ceil_def mult.commute)
  then show ?thesis
    by (simp add: footprint_reserved_def footprint_margin_def ACTIVATION_MARGIN_PERCENT_def)
qed

lemma engine_memory_bounds:
  "asr_resident_memory_mb a \<le> 5500" "fa_resident_memory_mb f \<le> 5500"
  "translate_resident_memory_mb m \<le> 5500"
proof -
  show "asr_resident_memory_mb a \<le> 5500" by (cases a) (simp_all add: residency_constants)
  show "fa_resident_memory_mb f \<le> 5500"
    by (cases f) (simp_all add: residency_constants fa_specs fa_resident_memory_mb_def)
  show "translate_resident_memory_mb m \<le> 5500" by (cases m) (simp_all add: residency_constants)
qed

lemma residency_footprint:
  "residency_of t eng = WorkerLife f \<or> residency_of t eng = PerBatch f \<Longrightarrow>
     footprint_wf f \<and> footprint_in_use f \<le> 5500"
proof (cases t)
  case TaskSpeaker
  assume "residency_of t eng = WorkerLife f \<or> residency_of t eng = PerBatch f"
  with TaskSpeaker show ?thesis
    by (cases "eo_speaker eng" rule: option.exhaust; cases "eo_speaker_embedding eng")
       (auto simp: footprint_wf_def residency_constants elim!: speaker_residency.elims)
qed (auto simp: footprint_wf_def engine_memory_bounds residency_constants split: option.splits)

text \<open>
  A load's lease covers what the worker will hold and only shrinks. A load that takes a lease
  reserves the in-use figure and a quarter of it, rounded up, at most 6875 MB over all tasks and
  engines; once the model is resident the lease keeps no more than that; and a batch of a
  per-batch model reserves what its load reserved. A load that takes no lease keeps nothing.
\<close>

theorem residency_settles:
  "case residency_loading (residency_of t eng) of
     None \<Rightarrow> residency_resident (residency_of t eng) = 0 \<and> residency_batch (residency_of t eng) = None
   | Some mb \<Rightarrow> residency_resident (residency_of t eng) \<le> mb \<and> mb \<le> 6875 \<and>
       (case residency_batch (residency_of t eng) of
          None \<Rightarrow> True
        | Some b \<Rightarrow> b = mb \<and> residency_resident (residency_of t eng) = 0)"
proof -
  have bound: "footprint_reserved f \<le> 6875" if "footprint_in_use f \<le> 5500" for f
    using that mult_div_mod_eq [of 4 "footprint_in_use f"] mod_less_divisor [of 4 "footprint_in_use f"]
    unfolding footprint_reserved_eq div_ceil_def by (split if_split) linarith
  show ?thesis
    using residency_footprint [of t eng] footprint_settled_le bound
    by (cases "residency_of t eng") auto
qed

end
