(* ===== verification/Host_Memory.thy ===== *)
theory Host_Memory
  imports Scheduling Memory_Budget
begin

text \<open>
  The host-memory ledger (\<^verbatim>\<open>crates/batchalign/src/host_memory.rs\<close>): one file shared by every
  batchalign process of a machine, in which worker startups, model loads and jobs reserve memory
  before they take it. Each access takes the file's lock, reads the leases, drops the stale
  ones, runs one action and writes the ledger back.

  What an access takes from outside is the record \<^verbatim>\<open>ledger_env\<close>: the process, the clock, the
  process table, the memory reading, a fresh identifier and which file operation fails, if any.
  An access answers a result or None, which is not returning: when the rewrite fails after an
  action that granted a lease, the granted lease is dropped before the locked file, its
  \<^verbatim>\<open>Drop\<close> opens the ledger again to release it, and waits for the lock its own caller holds.
  The file is what \<^verbatim>\<open>serde_json\<close> reads in it: blank, not a ledger (with the parse message), or
  a list of stored leases; the writer's output reads back as what was written. Memory sizes are
  \<^verbatim>\<open>u64\<close> values as natural numbers; saturating operations are written out, a saturating
  subtraction is that of the natural numbers, and the one plain sum wraps, as in a release build.
\<close>

subsection \<open>Leases\<close>

datatype memory_lease_kind =
  WorkerStartup | JobExecution | MlTestExclusive | ModelLoad | ModelBatch | ModelRequest

fun holds_startup_slot :: "memory_lease_kind \<Rightarrow> bool" where
  "holds_startup_slot WorkerStartup = True"
| "holds_startup_slot JobExecution = False"
| "holds_startup_slot MlTestExclusive = False"
| "holds_startup_slot ModelLoad = False"
| "holds_startup_slot ModelBatch = False"
| "holds_startup_slot ModelRequest = False"

datatype demand_side = JobSide | WorkerSide

fun demand_side_of :: "memory_lease_kind \<Rightarrow> demand_side" where
  "demand_side_of JobExecution = JobSide"
| "demand_side_of MlTestExclusive = JobSide"
| "demand_side_of WorkerStartup = WorkerSide"
| "demand_side_of ModelLoad = WorkerSide"
| "demand_side_of ModelBatch = WorkerSide"
| "demand_side_of ModelRequest = WorkerSide"

type_synonym worker_pid = nat
type_synonym memory_mb = nat

record memory_lease_record =
  lr_id :: string
  lr_kind :: memory_lease_kind
  lr_owner_pid :: worker_pid
  lr_worker_pid :: "worker_pid option"
  lr_reserved_mb :: memory_mb
  lr_label :: string
  lr_created_at :: machine_time

record memory_lease_record_wire =
  lw_id :: string
  lw_kind :: memory_lease_kind
  lw_owner_pid :: worker_pid
  lw_worker_pid :: "worker_pid option"
  lw_reserved_mb :: memory_mb
  lw_startup_slot :: bool
  lw_label :: string
  lw_created_at_epoch_s :: int

text \<open>
  The stored time is whole Unix seconds. \<^verbatim>\<open>as_second\<close> truncates towards the epoch; a stored value
  outside the instants of the library fails the read.
\<close>

definition as_second :: "machine_time \<Rightarrow> int" where
  "as_second t = (if 0 \<le> t then t div 1000 else - (- t div 1000))"

definition ledger_seconds_deserialize :: "timestamp_range \<Rightarrow> int \<Rightarrow> machine_time option" where
  "ledger_seconds_deserialize R s =
     (if ts_min R \<le> s * 1000 \<and> s * 1000 \<le> ts_max R then Some (s * 1000) else None)"

definition lease_into_wire :: "memory_lease_record \<Rightarrow> memory_lease_record_wire" where
  "lease_into_wire r =
     \<lparr>lw_id = lr_id r, lw_kind = lr_kind r, lw_owner_pid = lr_owner_pid r,
      lw_worker_pid = lr_worker_pid r, lw_reserved_mb = lr_reserved_mb r,
      lw_startup_slot = holds_startup_slot (lr_kind r), lw_label = lr_label r,
      lw_created_at_epoch_s = as_second (lr_created_at r)\<rparr>"

definition lease_from_wire ::
    "timestamp_range \<Rightarrow> memory_lease_record_wire \<Rightarrow> memory_lease_record option" where
  "lease_from_wire R w =
     map_option (\<lambda>t.
       \<lparr>lr_id = lw_id w, lr_kind = lw_kind w, lr_owner_pid = lw_owner_pid w,
        lr_worker_pid = lw_worker_pid w, lr_reserved_mb = lw_reserved_mb w,
        lr_label = lw_label w, lr_created_at = t\<rparr>)
       (ledger_seconds_deserialize R (lw_created_at_epoch_s w))"

type_synonym memory_ledger = "memory_lease_record list"

subsection \<open>Reservation arithmetic\<close>

record reservation =
  rv_owner :: worker_pid
  rv_kind :: memory_lease_kind
  rv_reserved :: memory_mb

definition lease_reservation :: "memory_lease_record \<Rightarrow> reservation" where
  "lease_reservation r =
     \<lparr>rv_owner = lr_owner_pid r, rv_kind = lr_kind r, rv_reserved = lr_reserved_mb r\<rparr>"

record owner_demand =
  od_job :: nat
  od_worker :: nat

definition add_demand ::
    "reservation \<Rightarrow> (worker_pid, owner_demand) hash_map \<Rightarrow> (worker_pid, owner_demand) hash_map" where
  "add_demand r m =
     (let d = (case hm_get m (rv_owner r) of Some d \<Rightarrow> d | None \<Rightarrow> \<lparr>od_job = 0, od_worker = 0\<rparr>)
      in hm_insert (rv_owner r)
           (case demand_side_of (rv_kind r) of
              JobSide \<Rightarrow> d\<lparr>od_job := usat_add (od_job d) (rv_reserved r)\<rparr>
            | WorkerSide \<Rightarrow> d\<lparr>od_worker := usat_add (od_worker d) (rv_reserved r)\<rparr>) m)"

definition effective_reserved_mb :: "reservation list \<Rightarrow> nat" where
  "effective_reserved_mb rs =
     sum_list (map (\<lambda>d. max (od_job d) (od_worker d)) (hm_values (fold add_demand rs []))) mod 2 ^ 64"

subsection \<open>Requests, errors, environment\<close>

record memory_lease_request =
  rq_kind :: memory_lease_kind
  rq_reserved_mb :: memory_mb
  rq_label :: string
  rq_worker_pid :: "worker_pid option"

definition request_worker_startup :: "worker_profile \<Rightarrow> worker_language \<Rightarrow> string \<Rightarrow> memory_lease_request" where
  "request_worker_startup profile lang engine_overrides =
     \<lparr>rq_kind = WorkerStartup, rq_reserved_mb = footprint_reserved WORKER_BASELINE,
      rq_label = ''worker-startup:'' @ profile_label profile @ '':'' @ as_worker_arg lang @ '':'' @
        engine_overrides,
      rq_worker_pid = None\<rparr>"

definition request_model_load :: "worker_pid \<Rightarrow> string \<Rightarrow> memory_mb \<Rightarrow> memory_lease_request" where
  "request_model_load worker what reserved =
     \<lparr>rq_kind = ModelLoad, rq_reserved_mb = reserved,
      rq_label = ''model-load:'' @ what @ '':pid '' @ show_nat worker, rq_worker_pid = Some worker\<rparr>"

definition request_model_batch :: "worker_pid \<Rightarrow> string \<Rightarrow> memory_mb \<Rightarrow> memory_lease_request" where
  "request_model_batch worker what reserved =
     \<lparr>rq_kind = ModelBatch, rq_reserved_mb = reserved,
      rq_label = ''model-batch:'' @ what @ '':pid '' @ show_nat worker, rq_worker_pid = Some worker\<rparr>"

definition request_model_request :: "worker_pid \<Rightarrow> string \<Rightarrow> memory_mb \<Rightarrow> memory_lease_request" where
  "request_model_request worker what reserved =
     \<lparr>rq_kind = ModelRequest, rq_reserved_mb = reserved,
      rq_label = ''model-request:'' @ what @ '':pid '' @ show_nat worker, rq_worker_pid = Some worker\<rparr>"

definition request_ml_test_lock :: "string \<Rightarrow> memory_lease_request" where
  "request_ml_test_lock label =
     \<lparr>rq_kind = MlTestExclusive, rq_reserved_mb = 0, rq_label = label, rq_worker_pid = None\<rparr>"

datatype ledger_io_step =
  CreateDir | OpenFile | LockFile | ReadFile | SetLen | SeekStart | WriteJson | WriteNewline | SyncFile

type_synonym host_unreadable = string

datatype host_memory_error =
    Unreadable host_unreadable
  | LedgerIo ledger_io_step
  | CorruptLedger string
  | CapacityRejected (cr_label: string) (cr_available: memory_mb) (cr_pending: memory_mb)
      (cr_requested: memory_mb) (cr_reserve: memory_mb) (cr_total: memory_mb)
  | MlTestLockBusy (holders: "string list")
  | StartupSlotsBusy (ssb_label: string) (active_slots: nat) (max_slots: nat)
  | TimedOut (to_label: string) (waited_s: nat) (last_reason: string)

record system_memory =
  sm_total_mb :: memory_mb
  sm_available_mb :: memory_mb

definition used_mb :: "system_memory \<Rightarrow> memory_mb" where
  "used_mb s = sm_total_mb s - sm_available_mb s"

datatype ledger_file = BlankLedger | UnparsableLedger string | StoredLedger "memory_lease_record_wire list"

record ledger_env =
  le_pid :: worker_pid
  le_processes :: "(host_unreadable, worker_pid \<Rightarrow> bool) result"
  le_memory :: "(host_unreadable, system_memory) result"
  le_now :: machine_time
  le_created :: machine_time
  le_new_id :: string
  le_range :: timestamp_range
  le_io :: "ledger_io_step option"
  le_partial :: ledger_file
  le_message :: string
  le_reopens :: bool

record host_memory_config =
  hc_reserve_mb :: memory_mb
  hc_max_startups :: nat

subsection \<open>Stale leases and locked access\<close>

definition PRE_SPAWN_INTENT_DEADLINE :: duration where
  "PRE_SPAWN_INTENT_DEADLINE = from_secs 1800"

datatype liveness = Alive | Dead

definition bound_pid :: "memory_lease_record \<Rightarrow> worker_pid" where
  "bound_pid l = (case lr_worker_pid l of Some p \<Rightarrow> p | None \<Rightarrow> lr_owner_pid l)"

definition refreshed_pids :: "memory_ledger \<Rightarrow> worker_pid list" where
  "refreshed_pids ledger = remdups_adj (sort (map bound_pid ledger))"

definition liveness_of :: "(worker_pid \<Rightarrow> bool) \<Rightarrow> worker_pid list \<Rightarrow> worker_pid \<Rightarrow> liveness" where
  "liveness_of running pids pid = (if pid \<in> set pids \<and> running pid then Alive else Dead)"

definition lease_retained :: "(worker_pid \<Rightarrow> liveness) \<Rightarrow> machine_time \<Rightarrow> memory_lease_record \<Rightarrow> bool" where
  "lease_retained live now l =
     (case lr_worker_pid l of
        Some p \<Rightarrow> live p = Alive
      | None \<Rightarrow>
          (if live (lr_owner_pid l) = Dead then False
           else saturating_duration_since now (lr_created_at l) < PRE_SPAWN_INTENT_DEADLINE))"

datatype pruned = PrunedNothing | PrunedSome

definition prune_stale_leases ::
    "ledger_env \<Rightarrow> memory_ledger \<Rightarrow> (host_unreadable, memory_ledger \<times> pruned) result" where
  "prune_stale_leases env ledger =
     (if ledger = [] then Ok (ledger, PrunedNothing)
      else case le_processes env of
             Inl e \<Rightarrow> Err e
           | Inr running \<Rightarrow>
               (let kept = filter (lease_retained (liveness_of running (refreshed_pids ledger)) (le_now env)) ledger
                in Ok (kept, if length kept = length ledger then PrunedNothing else PrunedSome)))"

definition read_ledger :: "timestamp_range \<Rightarrow> string \<Rightarrow> ledger_file \<Rightarrow> (string, memory_ledger) result" where
  "read_ledger R range_message file =
     (case file of
        BlankLedger \<Rightarrow> Ok []
      | UnparsableLedger message \<Rightarrow> Err message
      | StoredLedger ws \<Rightarrow>
          (if list_all (\<lambda>w. lease_from_wire R w \<noteq> None) ws
           then Ok (List.map_filter (lease_from_wire R) ws) else Err range_message))"

text \<open>The rewrite, up to its first failure: the error, if any, and what the file then holds.\<close>

definition write_ledger ::
    "ledger_env \<Rightarrow> memory_ledger \<Rightarrow> ledger_file \<Rightarrow> host_memory_error option \<times> ledger_file" where
  "write_ledger env ledger file =
     (let written = StoredLedger (map lease_into_wire ledger)
      in case le_io env of
           Some SetLen \<Rightarrow> (Some (LedgerIo SetLen), file)
         | Some SeekStart \<Rightarrow> (Some (LedgerIo SeekStart), BlankLedger)
         | Some WriteJson \<Rightarrow> (Some (CorruptLedger (le_message env)), le_partial env)
         | Some WriteNewline \<Rightarrow> (Some (LedgerIo WriteNewline), written)
         | Some SyncFile \<Rightarrow> (Some (LedgerIo SyncFile), written)
         | _ \<Rightarrow> (None, written))"

fun opening_step :: "ledger_io_step \<Rightarrow> bool" where
  "opening_step s \<longleftrightarrow> s = CreateDir \<or> s = OpenFile \<or> s = LockFile \<or> s = ReadFile"

type_synonym 'a access = "(host_memory_error, 'a) result option \<times> ledger_file"

text \<open>
  \<open>relocks\<close> says of a value whether dropping it releases a lease. After a failed write the result of
  the action is dropped while the file is still locked: a value that releases a lease then never
  gets the lock, provided its release finds the ledger's directory and file (\<open>le_reopens\<close>), and
  the access does not return.
\<close>

definition after_failed_write ::
    "ledger_env \<Rightarrow> ('a \<Rightarrow> bool) \<Rightarrow> (host_memory_error, 'a) result \<Rightarrow> host_memory_error \<Rightarrow>
      (host_memory_error, 'a) result option" where
  "after_failed_write env relocks r e =
     (case r of
        Inr x \<Rightarrow> if relocks x \<and> le_reopens env then None else Some (Err e)
      | Inl _ \<Rightarrow> Some (Err e))"

definition with_locked_ledger ::
    "ledger_env \<Rightarrow> ('a \<Rightarrow> bool) \<Rightarrow> (memory_ledger \<Rightarrow> (host_memory_error, 'a) result \<times> memory_ledger) \<Rightarrow>
      ledger_file \<Rightarrow> 'a access" where
  "with_locked_ledger env relocks action file =
     (case filter opening_step (case le_io env of Some s \<Rightarrow> [s] | None \<Rightarrow> []) of
        s # _ \<Rightarrow> (Some (Err (LedgerIo s)), file)
      | [] \<Rightarrow>
          (case read_ledger (le_range env) (le_message env) file of
             Inl message \<Rightarrow> (Some (Err (CorruptLedger message)), file)
           | Inr ledger \<Rightarrow>
               (case prune_stale_leases env ledger of
                  Inl e \<Rightarrow> (Some (Err (Unreadable e)), file)
                | Inr (kept, pruned) \<Rightarrow>
                    (let (r, ledger') = action kept
                     in if isl r \<and> pruned = PrunedNothing then (Some r, file)
                        else case write_ledger env ledger' file of
                               (None, file') \<Rightarrow> (Some r, file')
                             | (Some e, file') \<Rightarrow> (after_failed_write env relocks r e, file')))))"

subsection \<open>Actions on the ledger\<close>

record host_memory_lease =
  hl_id :: string
  hl_released :: bool

definition new_lease :: "string \<Rightarrow> host_memory_lease" where
  "new_lease i = \<lparr>hl_id = i, hl_released = False\<rparr>"

text \<open>\<^verbatim>\<open>Drop for HostMemoryLease\<close>: a lease that is not released yet is released, under the lock.\<close>

definition lease_relocks :: "host_memory_lease \<Rightarrow> bool" where
  "lease_relocks lease \<longleftrightarrow> \<not> hl_released lease"

definition acquire_record :: "ledger_env \<Rightarrow> memory_lease_request \<Rightarrow> memory_lease_record" where
  "acquire_record env rq =
     \<lparr>lr_id = le_new_id env, lr_kind = rq_kind rq, lr_owner_pid = le_pid env,
      lr_worker_pid = rq_worker_pid rq, lr_reserved_mb = rq_reserved_mb rq,
      lr_label = rq_label rq, lr_created_at = le_created env\<rparr>"

definition request_reservation :: "ledger_env \<Rightarrow> memory_lease_request \<Rightarrow> reservation" where
  "request_reservation env rq =
     \<lparr>rv_owner = le_pid env, rv_kind = rq_kind rq, rv_reserved = rq_reserved_mb rq\<rparr>"

definition ml_holders :: "memory_ledger \<Rightarrow> string list" where
  "ml_holders ledger = map lr_label (filter (\<lambda>l. lr_kind l = MlTestExclusive) ledger)"

definition startup_slots :: "memory_ledger \<Rightarrow> nat" where
  "startup_slots ledger = length (filter (\<lambda>l. holds_startup_slot (lr_kind l)) ledger)"

definition reserved_total :: "memory_ledger \<Rightarrow> nat" where
  "reserved_total ledger = effective_reserved_mb (map lease_reservation ledger)"

definition projected_total :: "ledger_env \<Rightarrow> memory_lease_request \<Rightarrow> memory_ledger \<Rightarrow> nat" where
  "projected_total env rq ledger =
     effective_reserved_mb (map lease_reservation ledger @ [request_reservation env rq])"

definition acquire_action ::
    "host_memory_config \<Rightarrow> ledger_env \<Rightarrow> memory_lease_request \<Rightarrow> memory_ledger \<Rightarrow>
      (host_memory_error, host_memory_lease) result \<times> memory_ledger" where
  "acquire_action cfg env rq ledger =
     (if rq_kind rq = MlTestExclusive \<and> ml_holders ledger \<noteq> []
      then (Err (MlTestLockBusy (ml_holders ledger)), ledger)
      else if holds_startup_slot (rq_kind rq) \<and> startup_slots ledger \<ge> hc_max_startups cfg
      then (Err (StartupSlotsBusy (rq_label rq) (startup_slots ledger) (hc_max_startups cfg)), ledger)
      else case le_memory env of
             Inl e \<Rightarrow> (Err (Unreadable e), ledger)
           | Inr system \<Rightarrow>
               (let pending = reserved_total ledger;
                    projected = projected_total env rq ledger;
                    adds_demand = projected > pending;
                    projected_available = sm_available_mb system - projected
                in if adds_demand \<and> projected_available < hc_reserve_mb cfg
                   then (Err (CapacityRejected (rq_label rq) (sm_available_mb system) pending
                     (rq_reserved_mb rq) (hc_reserve_mb cfg) (sm_total_mb system)), ledger)
                   else (Ok (new_lease (le_new_id env)), ledger @ [acquire_record env rq])))"

definition try_acquire_lease ::
    "host_memory_config \<Rightarrow> ledger_env \<Rightarrow> memory_lease_request \<Rightarrow> ledger_file \<Rightarrow>
      host_memory_lease access" where
  "try_acquire_lease cfg env rq = with_locked_ledger env lease_relocks (acquire_action cfg env rq)"

definition RESERVE_HEADROOM_FRACTION_DENOM :: nat where "RESERVE_HEADROOM_FRACTION_DENOM = 4"

definition effective_reserve_mb :: "nat \<Rightarrow> nat \<Rightarrow> nat" where
  "effective_reserve_mb reserve available = min reserve (available div RESERVE_HEADROOM_FRACTION_DENOM)"

fun plan_loop :: "nat \<Rightarrow> nat \<Rightarrow> nat \<Rightarrow> nat \<Rightarrow> nat \<Rightarrow> (nat \<times> nat) option" where
  "plan_loop per available effective_reserve pending 0 = None"
| "plan_loop per available effective_reserve pending (Suc w) =
     (let requested = usat_mul per (Suc w);
          projected_available = available - pending - requested
      in if projected_available \<ge> effective_reserve then Some (Suc w, requested)
         else plan_loop per available effective_reserve pending w)"

definition plan_job_reservation :: "nat \<Rightarrow> nat \<Rightarrow> nat \<Rightarrow> nat \<Rightarrow> nat \<Rightarrow> (nat \<times> nat) option" where
  "plan_job_reservation requested_workers per available reserve pending =
     plan_loop per available (effective_reserve_mb reserve available) pending requested_workers"

record job_execution_plan =
  jp_granted_workers :: nat
  jp_requested_workers :: nat
  jp_lease :: host_memory_lease
  jp_reserved_mb :: memory_mb

definition plan_action ::
    "host_memory_config \<Rightarrow> ledger_env \<Rightarrow> python_runtime \<Rightarrow> released_command \<Rightarrow> nat \<Rightarrow> string \<Rightarrow>
      memory_ledger \<Rightarrow> (host_memory_error, job_execution_plan) result \<times> memory_ledger" where
  "plan_action cfg env runtime command requested label ledger =
     (case le_memory env of
        Inl e \<Rightarrow> (Err (Unreadable e), ledger)
      | Inr system \<Rightarrow>
          (let per = per_worker_budget (the (command_spec_for command)) runtime (sm_total_mb system);
               pending = reserved_total ledger
           in case plan_job_reservation requested per (sm_available_mb system) (hc_reserve_mb cfg) pending of
                None \<Rightarrow>
                  (Err (CapacityRejected label (sm_available_mb system) pending (usat_mul per requested)
                     (hc_reserve_mb cfg) (sm_total_mb system)), ledger)
              | Some (granted, reserved) \<Rightarrow>
                  (Ok \<lparr>jp_granted_workers = granted, jp_requested_workers = requested,
                       jp_lease = new_lease (le_new_id env), jp_reserved_mb = reserved\<rparr>,
                   ledger @ [\<lparr>lr_id = le_new_id env, lr_kind = JobExecution, lr_owner_pid = le_pid env,
                     lr_worker_pid = None, lr_reserved_mb = reserved, lr_label = label,
                     lr_created_at = le_created env\<rparr>])))"

definition try_plan_job_execution ::
    "host_memory_config \<Rightarrow> ledger_env \<Rightarrow> python_runtime \<Rightarrow> released_command \<Rightarrow> nat \<Rightarrow> string \<Rightarrow>
      ledger_file \<Rightarrow> job_execution_plan access" where
  "try_plan_job_execution cfg env runtime command requested label =
     with_locked_ledger env (\<lambda>plan. lease_relocks (jp_lease plan)) (plan_action cfg env runtime command requested label)"

fun update_first ::
    "('a \<Rightarrow> bool) \<Rightarrow> ('a \<Rightarrow> 'a) \<Rightarrow> 'a list \<Rightarrow> 'a list" where
  "update_first P f [] = []"
| "update_first P f (x # xs) = (if P x then f x # xs else x # update_first P f xs)"

definition set_worker_pid ::
    "ledger_env \<Rightarrow> host_memory_lease \<Rightarrow> worker_pid \<Rightarrow> ledger_file \<Rightarrow>
      unit access" where
  "set_worker_pid env lease pid =
     with_locked_ledger env (\<lambda>_. False) (\<lambda>ledger. (Ok (),
       update_first (\<lambda>l. lr_id l = hl_id lease) (\<lambda>l. l\<lparr>lr_worker_pid := Some pid\<rparr>) ledger))"

definition settle ::
    "ledger_env \<Rightarrow> string \<Rightarrow> memory_mb \<Rightarrow> ledger_file \<Rightarrow> unit access"
where
  "settle env i reserved =
     with_locked_ledger env (\<lambda>_. False) (\<lambda>ledger. (Ok (),
       update_first (\<lambda>l. lr_id l = i) (\<lambda>l. l\<lparr>lr_reserved_mb := reserved\<rparr>) ledger))"

definition release_internal ::
    "ledger_env \<Rightarrow> host_memory_lease \<Rightarrow> ledger_file \<Rightarrow> host_memory_lease \<times> ledger_file" where
  "release_internal env lease file =
     (if hl_released lease then (lease, file)
      else (lease\<lparr>hl_released := True\<rparr>,
            snd (with_locked_ledger env (\<lambda>_. False)
              (\<lambda>ledger. (Ok (), filter (\<lambda>l. lr_id l \<noteq> hl_id lease) ledger)) file)))"

datatype pressure_level = Healthy | Guarded | Constrained | Critical

definition pressure_level_for :: "memory_mb \<Rightarrow> memory_mb \<Rightarrow> pressure_level" where
  "pressure_level_for available reserve =
     (if available \<le> reserve then Critical
      else let extra_headroom = available - reserve
           in if extra_headroom \<le> 2048 then Constrained
              else if extra_headroom \<le> 8192 then Guarded
              else Healthy)"

record host_memory_snapshot =
  hs_total_mb :: memory_mb
  hs_available_mb :: memory_mb
  hs_reserve_mb :: memory_mb
  hs_active_reserved_mb :: memory_mb
  hs_startup_leases :: nat
  hs_job_execution_leases :: nat
  hs_ml_test_locks :: nat
  hs_labels :: "string list"
  hs_pressure_level :: pressure_level

fun kind_debug :: "memory_lease_kind \<Rightarrow> string" where
  "kind_debug WorkerStartup = ''WorkerStartup''"
| "kind_debug JobExecution = ''JobExecution''"
| "kind_debug MlTestExclusive = ''MlTestExclusive''"
| "kind_debug ModelLoad = ''ModelLoad''"
| "kind_debug ModelBatch = ''ModelBatch''"
| "kind_debug ModelRequest = ''ModelRequest''"

definition count_kind :: "memory_lease_kind \<Rightarrow> memory_ledger \<Rightarrow> nat" where
  "count_kind k ledger = length (filter (\<lambda>l. lr_kind l = k) ledger)"

definition snapshot_action ::
    "host_memory_config \<Rightarrow> ledger_env \<Rightarrow> memory_ledger \<Rightarrow>
      (host_memory_error, host_memory_snapshot) result \<times> memory_ledger" where
  "snapshot_action cfg env ledger =
     (case le_memory env of
        Inl e \<Rightarrow> (Err (Unreadable e), ledger)
      | Inr system \<Rightarrow>
          (Ok \<lparr>hs_total_mb = sm_total_mb system, hs_available_mb = sm_available_mb system,
               hs_reserve_mb = hc_reserve_mb cfg, hs_active_reserved_mb = reserved_total ledger,
               hs_startup_leases = count_kind WorkerStartup ledger,
               hs_job_execution_leases = count_kind JobExecution ledger,
               hs_ml_test_locks = count_kind MlTestExclusive ledger,
               hs_labels = map (\<lambda>l. kind_debug (lr_kind l) @ '':'' @ lr_label l @ '':'' @
                 show_nat (lr_reserved_mb l) @ ''MB'') ledger,
               hs_pressure_level = pressure_level_for (sm_available_mb system) (hc_reserve_mb cfg)\<rparr>,
           ledger))"

definition snapshot ::
    "host_memory_config \<Rightarrow> ledger_env \<Rightarrow> ledger_file \<Rightarrow>
      host_memory_snapshot access" where
  "snapshot cfg env = with_locked_ledger env (\<lambda>_. False) (snapshot_action cfg env)"

subsection \<open>Memory readings\<close>

record declared_host =
  dh_memory :: system_memory
  dh_logical_cpus :: nat

datatype host_readings = Live | Declared declared_host

definition readings_memory ::
    "host_readings \<Rightarrow> (host_unreadable, system_memory) result \<Rightarrow> (host_unreadable, system_memory) result" where
  "readings_memory readings live = (case readings of Live \<Rightarrow> live | Declared host \<Rightarrow> Ok (dh_memory host))"

definition SNAPSHOT_TTL :: duration where "SNAPSHOT_TTL = from_millis 1000"

datatype cached_snapshot = CacheEmpty | CacheRead system_memory nat

text \<open>The operating system reports bytes; \<^verbatim>\<open>raw\<close> is its total and available memory or the failure.\<close>

definition refresh_read_system_memory ::
    "(host_unreadable, nat \<times> nat) result \<Rightarrow> (host_unreadable, system_memory) result" where
  "refresh_read_system_memory raw =
     (case raw of
        Inl e \<Rightarrow> Err e
      | Inr (total_bytes, available_bytes) \<Rightarrow>
          Ok \<lparr>sm_total_mb = total_bytes div (1024 * 1024), sm_available_mb = available_bytes div (1024 * 1024)\<rparr>)"

definition read_system_memory ::
    "nat \<Rightarrow> (host_unreadable, nat \<times> nat) result \<Rightarrow> nat \<Rightarrow> cached_snapshot \<Rightarrow>
      (host_unreadable, system_memory) result \<times> cached_snapshot" where
  "read_system_memory now raw read_at cache =
     (let refresh = (case refresh_read_system_memory raw of
             Inl e \<Rightarrow> (Err e, cache)
           | Inr s \<Rightarrow> (Ok s, CacheRead s read_at))
      in case cache of
           CacheRead s taken \<Rightarrow> if now - taken < SNAPSHOT_TTL then (Ok s, cache) else refresh
         | CacheEmpty \<Rightarrow> refresh)"

subsection \<open>Waiting for a lease\<close>

text \<open>
  Instants are nanoseconds of the process's monotonic clock. The display text of an error is the
  parameter \<^verbatim>\<open>show\<close>. A wait is run over a list of ticks, one per attempt: what other processes
  have done to the file since the last one, what the attempt finds outside, and the instant read
  after it. The end of the list is a wait that has not ended yet. An attempt that does not return
  is the end of the wait: it does not return either.
\<close>

datatype lease_step = RetryStep | StopStep host_memory_error

datatype lease_wait = BoundedWait duration nat | QueuedForever

definition lease_wait_bounded :: "nat \<Rightarrow> duration \<Rightarrow> lease_wait" where
  "lease_wait_bounded now timeout = BoundedWait timeout (now + timeout)"

definition capacity_rejection_is_retryable :: "nat \<Rightarrow> nat \<Rightarrow> nat \<Rightarrow> bool" where
  "capacity_rejection_is_retryable total_mb requested reserve \<longleftrightarrow> usat_add requested reserve \<le> total_mb"

fun retryable_error :: "host_memory_error \<Rightarrow> bool" where
  "retryable_error (CapacityRejected label available pending requested reserve total_mb) =
     capacity_rejection_is_retryable total_mb requested reserve"
| "retryable_error (MlTestLockBusy hs) = True"
| "retryable_error (StartupSlotsBusy label a b) = True"
| "retryable_error (Unreadable e) = False"
| "retryable_error (LedgerIo s) = False"
| "retryable_error (CorruptLedger s) = False"
| "retryable_error (TimedOut label w r) = False"

definition after_failed_attempt ::
    "(host_memory_error \<Rightarrow> string) \<Rightarrow> host_memory_error \<Rightarrow> string \<Rightarrow> lease_wait \<Rightarrow> nat \<Rightarrow> string \<Rightarrow>
      lease_step \<times> string" where
  "after_failed_attempt show e label wait now last_r =
     (if \<not> retryable_error e then (StopStep e, last_r)
      else case wait of
             QueuedForever \<Rightarrow> (RetryStep, show e)
           | BoundedWait timeout deadline \<Rightarrow>
               (if timeout = 0 then (StopStep e, last_r)
                else if now < deadline then (RetryStep, show e)
                else (StopStep (TimedOut label (timeout div 10 ^ 9) last_r), [])))"

record lease_tick =
  tk_env :: ledger_env
  tk_others :: "ledger_file \<Rightarrow> ledger_file"
  tk_now :: nat

definition no_decision_yet :: string where "no_decision_yet = ''no capacity decision yet''"

fun wait_loop ::
    "(ledger_env \<Rightarrow> ledger_file \<Rightarrow> 'a access) \<Rightarrow>
      (host_memory_error \<Rightarrow> string) \<Rightarrow> string \<Rightarrow> lease_wait \<Rightarrow> string \<Rightarrow> lease_tick list \<Rightarrow> ledger_file \<Rightarrow>
      'a access option" where
  "wait_loop attempt show label wait last_r [] file = None"
| "wait_loop attempt show label wait last_r (t # ts) file =
     (let (r, file') = attempt (tk_env t) (tk_others t file)
      in case r of
           None \<Rightarrow> Some (None, file')
         | Some (Inr x) \<Rightarrow> Some (Some (Ok x), file')
         | Some (Inl e) \<Rightarrow>
             (case after_failed_attempt show e label wait (tk_now t) last_r of
                (RetryStep, last_r') \<Rightarrow> wait_loop attempt show label wait last_r' ts file'
              | (StopStep e', _) \<Rightarrow> Some (Some (Err e'), file')))"

definition wait_for_lease ::
    "host_memory_config \<Rightarrow> (host_memory_error \<Rightarrow> string) \<Rightarrow> memory_lease_request \<Rightarrow> duration \<Rightarrow> nat \<Rightarrow>
      lease_tick list \<Rightarrow> ledger_file \<Rightarrow> host_memory_lease access option"
where
  "wait_for_lease cfg show rq timeout started =
     wait_loop (\<lambda>env. try_acquire_lease cfg env rq) show (rq_label rq)
       (lease_wait_bounded started timeout) no_decision_yet"

definition acquire_ml_test_lock ::
    "host_memory_config \<Rightarrow> (host_memory_error \<Rightarrow> string) \<Rightarrow> string \<Rightarrow> duration \<Rightarrow> nat \<Rightarrow>
      lease_tick list \<Rightarrow> ledger_file \<Rightarrow> host_memory_lease access option"
where
  "acquire_ml_test_lock cfg show label = wait_for_lease cfg show (request_ml_test_lock label)"

definition wait_for_job_execution_plan ::
    "host_memory_config \<Rightarrow> (host_memory_error \<Rightarrow> string) \<Rightarrow> python_runtime \<Rightarrow> released_command \<Rightarrow> nat \<Rightarrow> string \<Rightarrow>
      duration \<Rightarrow> nat \<Rightarrow> lease_tick list \<Rightarrow> ledger_file \<Rightarrow>
      job_execution_plan access option"
where
  "wait_for_job_execution_plan cfg show runtime command requested label timeout started =
     wait_loop (\<lambda>env. try_plan_job_execution cfg env runtime command requested label) show label
       (lease_wait_bounded started timeout) no_decision_yet"

datatype reclaimed = Retired | NothingIdle

datatype queue_event =
  LoggedWaiting string | ToldQueued | WarnedWaiting string | TriedAtOnce | SleptPoll | LoggedGranted | ToldDequeued

datatype queued_lease_failure = RefusedLease host_memory_error | AttemptDidNotFinish string

record queue_tick = lease_tick +
  qt_join_error :: "string option"
  qt_reclaimed :: reclaimed

definition dequeue :: "bool \<Rightarrow> queue_event list" where
  "dequeue queued = (if queued then [ToldDequeued] else [])"

fun queue_loop ::
    "host_memory_config \<Rightarrow> (host_memory_error \<Rightarrow> string) \<Rightarrow> memory_lease_request \<Rightarrow> duration \<Rightarrow> bool \<Rightarrow> nat \<Rightarrow>
      string \<Rightarrow> queue_tick list \<Rightarrow> ledger_file \<Rightarrow>
      (queued_lease_failure, host_memory_lease) result option \<times> queue_event list \<times> ledger_file" where
  "queue_loop cfg show rq report_every queued next_report last_r [] file = (None, dequeue queued, file)"
| "queue_loop cfg show rq report_every queued next_report last_r (t # ts) file =
     (case qt_join_error t of
        Some j \<Rightarrow> (Some (Err (AttemptDidNotFinish j)), dequeue queued, tk_others t file)
      | None \<Rightarrow>
          (let (r, file') = try_acquire_lease cfg (tk_env t) rq (tk_others t file)
           in case r of
                None \<Rightarrow> (None, dequeue queued, file')
              | Some (Inr lease) \<Rightarrow>
                  (Some (Ok lease), (if queued then [LoggedGranted] else []) @ dequeue queued, file')
              | Some (Inl e) \<Rightarrow>
                  (case after_failed_attempt show e (rq_label rq) QueuedForever (tk_now t) last_r of
                     (StopStep e', _) \<Rightarrow> (Some (Err (RefusedLease e')), dequeue queued, file')
                   | (RetryStep, last_r') \<Rightarrow>
                       (let began = (if queued then [] else [LoggedWaiting last_r', ToldQueued]);
                            due = (tk_now t \<ge> next_report);
                            warned = (if due then [WarnedWaiting last_r'] else []);
                            paused = [case qt_reclaimed t of Retired \<Rightarrow> TriedAtOnce | NothingIdle \<Rightarrow> SleptPoll];
                            (out, evs, file'') =
                              queue_loop cfg show rq report_every True
                                (if due then next_report + report_every else next_report) last_r' ts file'
                        in (out, began @ warned @ paused @ evs, file'')))))"

definition QUEUED_LEASE_REPORT_INTERVAL :: duration where
  "QUEUED_LEASE_REPORT_INTERVAL = from_secs 60"

definition queue_for_lease ::
    "host_memory_config \<Rightarrow> (host_memory_error \<Rightarrow> string) \<Rightarrow> memory_lease_request \<Rightarrow> nat \<Rightarrow>
      queue_tick list \<Rightarrow> ledger_file \<Rightarrow>
      (queued_lease_failure, host_memory_lease) result option \<times> queue_event list \<times> ledger_file" where
  "queue_for_lease cfg show rq started =
     queue_loop cfg show rq QUEUED_LEASE_REPORT_INTERVAL False (started + QUEUED_LEASE_REPORT_INTERVAL)
       no_decision_yet"

subsection \<open>What the arithmetic computes\<close>

text \<open>
  The demand of an owner without saturation: the larger of what its jobs and what its workers
  reserved. \<^verbatim>\<open>demand_total\<close> is the reference the ledger's arithmetic is compared with.
\<close>

definition side_sum :: "reservation list \<Rightarrow> worker_pid \<Rightarrow> demand_side \<Rightarrow> nat" where
  "side_sum rs own s =
     sum_list (map rv_reserved (filter (\<lambda>r. rv_owner r = own \<and> demand_side_of (rv_kind r) = s) rs))"

definition owner_max :: "reservation list \<Rightarrow> worker_pid \<Rightarrow> nat" where
  "owner_max rs own =
     max (min (side_sum rs own JobSide) usize_max) (min (side_sum rs own WorkerSide) usize_max)"

definition demand_total :: "reservation list \<Rightarrow> nat" where
  "demand_total rs =
     (\<Sum>own \<in> rv_owner ` set rs. max (side_sum rs own JobSide) (side_sum rs own WorkerSide))"

lemma side_sum_snoc:
  "side_sum (rs @ [r]) own s =
     side_sum rs own s + (if rv_owner r = own \<and> demand_side_of (rv_kind r) = s then rv_reserved r else 0)"
  by (simp add: side_sum_def)

lemma side_sum_absent: "own \<notin> rv_owner ` set rs \<Longrightarrow> side_sum rs own s = 0"
  by (auto simp: side_sum_def filter_empty_conv intro!: arg_cong [of _ "[]" "\<lambda>xs. sum_list (map rv_reserved xs)"])

lemma usat_add_min: "usat_add (min a usize_max) b = min (a + b) usize_max"
  by (auto simp: usat_add_def min_def)

lemma owner_demand_lookup:
  "hm_get (fold add_demand rs []) own =
     (if own \<in> rv_owner ` set rs
      then Some \<lparr>od_job = min (side_sum rs own JobSide) usize_max,
                 od_worker = min (side_sum rs own WorkerSide) usize_max\<rparr>
      else None)"
proof (induction rs arbitrary: own rule: rev_induct)
  case Nil
  then show ?case by (simp add: hm_get_def)
next
  case (snoc r rs)
  let ?d = "\<lparr>od_job = min (side_sum rs (rv_owner r) JobSide) usize_max,
      od_worker = min (side_sum rs (rv_owner r) WorkerSide) usize_max\<rparr>"
  have d: "(case hm_get (fold add_demand rs []) (rv_owner r) of Some d \<Rightarrow> d
      | None \<Rightarrow> \<lparr>od_job = 0, od_worker = 0\<rparr>) = ?d"
    by (simp add: snoc.IH side_sum_absent)
  have step: "hm_get (fold add_demand (rs @ [r]) []) own =
      (if rv_owner r = own then Some (case demand_side_of (rv_kind r) of
         JobSide \<Rightarrow> ?d\<lparr>od_job := usat_add (od_job ?d) (rv_reserved r)\<rparr>
       | WorkerSide \<Rightarrow> ?d\<lparr>od_worker := usat_add (od_worker ?d) (rv_reserved r)\<rparr>)
       else hm_get (fold add_demand rs []) own)"
    using d by (simp add: add_demand_def Let_def hm_simps)
  show ?case
    unfolding step snoc.IH
    by (cases "demand_side_of (rv_kind r)") (auto simp: side_sum_snoc usat_add_min)
qed

lemma owner_demand_wf: "hm_wf (fold add_demand rs [])"
proof -
  have "hm_wf m \<Longrightarrow> hm_wf (fold add_demand rs m)" for m
    by (induction rs arbitrary: m) (simp_all add: add_demand_def Let_def hm_simps)
  then show ?thesis by (simp add: hm_wf_def)
qed

lemma hm_values_sum:
  assumes "hm_wf m"
  shows "sum_list (map f (hm_values m)) = (\<Sum>k \<in> fst ` set m. f (the (hm_get m k)))"
proof -
  have "map f (hm_values m) = map (\<lambda>k. f (the (hm_get m k))) (map fst m)"
    using assms by (auto simp: hm_values_def hm_get_def hm_wf_def)
  then show ?thesis
    using assms by (simp add: hm_wf_def sum_list_distinct_conv_sum_set flip: map_map)
qed

lemma effective_reserved_sum:
  "effective_reserved_mb rs = (\<Sum>own \<in> rv_owner ` set rs. owner_max rs own) mod 2 ^ 64"
proof -
  let ?m = "fold add_demand rs []"
  have keys: "fst ` set ?m = rv_owner ` set rs"
  proof -
    have "own \<in> fst ` set ?m \<longleftrightarrow> own \<in> rv_owner ` set rs" for own
      using owner_demand_lookup [of rs own] map_of_eq_None_iff [of ?m own]
      by (simp add: hm_get_def split: if_splits)
    then show ?thesis by blast
  qed
  have "sum_list (map (\<lambda>d. max (od_job d) (od_worker d)) (hm_values ?m)) =
      (\<Sum>own \<in> rv_owner ` set rs. owner_max rs own)"
    by (simp add: hm_values_sum [OF owner_demand_wf] keys owner_demand_lookup owner_max_def)
  then show ?thesis by (simp add: effective_reserved_mb_def)
qed

lemma owner_max_superset:
  assumes "finite A" and "rv_owner ` set rs \<subseteq> A"
  shows "(\<Sum>own \<in> rv_owner ` set rs. owner_max rs own) = (\<Sum>own \<in> A. owner_max rs own)"
  by (rule sum.mono_neutral_left) (use assms in \<open>auto simp: owner_max_def side_sum_absent\<close>)

lemma side_sum_le_total: "side_sum rs own s \<le> demand_total rs"
proof (cases "own \<in> rv_owner ` set rs")
  case True
  have "side_sum rs own s \<le> max (side_sum rs own JobSide) (side_sum rs own WorkerSide)"
    by (cases s) simp_all
  also have "\<dots> \<le> demand_total rs"
    unfolding demand_total_def using True
    by (intro member_le_sum [where f = "\<lambda>own. max (side_sum rs own JobSide) (side_sum rs own WorkerSide)"]) simp_all
  finally show ?thesis .
qed (simp add: side_sum_absent)

text \<open>
  The reservation arithmetic. The hash-map fold with its saturating sums computes, for every
  order of the leases, the sum over the owners of the larger of their two sides, each side
  saturated and the sum modulo the word size; below \<^verbatim>\<open>2^64\<close> MB nothing saturates or wraps and it
  is the exact demand, to which adding a lease never takes away.
\<close>

theorem effective_reserved_exact:
  "effective_reserved_mb rs = (\<Sum>own \<in> rv_owner ` set rs. owner_max rs own) mod 2 ^ 64 \<and>
   (demand_total rs < 2 ^ 64 \<longrightarrow> effective_reserved_mb rs = demand_total rs) \<and>
   (mset rs = mset rs' \<longrightarrow> effective_reserved_mb rs = effective_reserved_mb rs') \<and>
   (demand_total (rs @ [r]) < 2 ^ 64 \<longrightarrow> effective_reserved_mb rs \<le> effective_reserved_mb (rs @ [r]))"
  (is "_ \<and> _ \<and> _ \<and> ?mono")
proof -
  have exact: "effective_reserved_mb rs = demand_total rs" if "demand_total rs < 2 ^ 64" for rs
  proof -
    have "min (side_sum rs own s) usize_max = side_sum rs own s" for own s
      using side_sum_le_total [of rs own s] that by (simp add: usize_max_def)
    then show ?thesis
      using that by (simp add: effective_reserved_sum owner_max_def demand_total_def)
  qed
  have perm: "effective_reserved_mb rs = effective_reserved_mb rs'" if "mset rs = mset rs'" for rs'
  proof -
    have "side_sum xs own s = sum_mset (image_mset rv_reserved
        (filter_mset (\<lambda>r. rv_owner r = own \<and> demand_side_of (rv_kind r) = s) (mset xs)))" for xs own s
      by (simp add: side_sum_def flip: sum_mset_sum_list)
    then have "side_sum rs own s = side_sum rs' own s" for own s using that by simp
    moreover have "set rs = set rs'" using that by (rule mset_eq_setD)
    ultimately show ?thesis by (simp add: effective_reserved_sum owner_max_def)
  qed
  have mono: "demand_total rs \<le> demand_total (rs @ [r])"
  proof -
    let ?f = "\<lambda>rs own. max (side_sum rs own JobSide) (side_sum rs own WorkerSide)"
    have "demand_total rs = (\<Sum>own \<in> rv_owner ` set (rs @ [r]). ?f rs own)"
      unfolding demand_total_def
      by (rule sum.mono_neutral_left) (auto simp: side_sum_absent)
    also have "\<dots> \<le> demand_total (rs @ [r])"
      unfolding demand_total_def by (rule sum_mono) (auto simp: side_sum_snoc)
    finally show ?thesis .
  qed
  have ?mono using mono exact [of rs] exact [of "rs @ [r]"] by linarith
  with exact perm show ?thesis using effective_reserved_sum by blast
qed

theorem effective_reserved_exact_witness:
  "effective_reserved_mb
     [\<lparr>rv_owner = 7, rv_kind = JobExecution, rv_reserved = 6000\<rparr>,
      \<lparr>rv_owner = 7, rv_kind = ModelLoad, rv_reserved = 940\<rparr>,
      \<lparr>rv_owner = 9, rv_kind = WorkerStartup, rv_reserved = 344\<rparr>] = 6344"
proof -
  let ?rs = "[\<lparr>rv_owner = 7, rv_kind = JobExecution, rv_reserved = 6000\<rparr>,
      \<lparr>rv_owner = 7, rv_kind = ModelLoad, rv_reserved = 940\<rparr>,
      \<lparr>rv_owner = 9, rv_kind = WorkerStartup, rv_reserved = 344\<rparr>] :: reservation list"
  have "demand_total ?rs = 6344" by (simp add: demand_total_def side_sum_def)
  moreover have "demand_total ?rs < 2 ^ 64 \<longrightarrow> effective_reserved_mb ?rs = demand_total ?rs"
    using effective_reserved_exact [of ?rs ?rs] by blast
  ultimately show ?thesis by simp
qed

lemma worker_suballocation:
  assumes "demand_side_of (rv_kind r) = WorkerSide"
    and "side_sum rs (rv_owner r) WorkerSide + rv_reserved r \<le> side_sum rs (rv_owner r) JobSide"
  shows "effective_reserved_mb (rs @ [r]) = effective_reserved_mb rs"
proof -
  let ?A = "rv_owner ` set (rs @ [r])"
  have "owner_max (rs @ [r]) own = owner_max rs own" for own
    using assms by (auto simp: owner_max_def side_sum_snoc max_def min_def)
  moreover have "(\<Sum>own \<in> rv_owner ` set rs. owner_max rs own) = (\<Sum>own \<in> ?A. owner_max rs own)"
    by (rule owner_max_superset) auto
  ultimately show ?thesis by (simp add: effective_reserved_sum)
qed

subsection \<open>Pruning and the stored form\<close>

definition lease_live :: "(worker_pid \<Rightarrow> bool) \<Rightarrow> machine_time \<Rightarrow> memory_lease_record \<Rightarrow> bool" where
  "lease_live running now l \<longleftrightarrow>
     (case lr_worker_pid l of
        Some p \<Rightarrow> running p
      | None \<Rightarrow> running (lr_owner_pid l) \<and> now < lr_created_at l + 1800 * 1000)"

lemma bound_pid_refreshed: "l \<in> set ledger \<Longrightarrow> bound_pid l \<in> set (refreshed_pids ledger)"
  by (simp add: refreshed_pids_def)

lemma intent_deadline:
  "saturating_duration_since now t < PRE_SPAWN_INTENT_DEADLINE \<longleftrightarrow> now < t + 1800 * 1000"
  by (auto simp: saturating_duration_since_def PRE_SPAWN_INTENT_DEADLINE_def from_secs_def)

lemma lease_retained_live:
  assumes "l \<in> set ledger"
  shows "lease_retained (liveness_of running (refreshed_pids ledger)) now l \<longleftrightarrow> lease_live running now l"
  using bound_pid_refreshed [OF assms]
  by (cases "lr_worker_pid l")
     (auto simp: lease_retained_def liveness_of_def lease_live_def bound_pid_def intent_deadline
       simp del: of_nat_power)

lemma filter_length_eq: "length (filter P xs) = length xs \<longleftrightarrow> filter P xs = xs"
  by (induction xs) (auto, metis length_filter_le Suc_n_not_le_n)

lemma prune_filter:
  "prune_stale_leases env ledger =
     (case le_processes env of
        Inl e \<Rightarrow> if ledger = [] then Ok ([], PrunedNothing) else Err e
      | Inr running \<Rightarrow>
          Ok (filter (lease_live running (le_now env)) ledger,
              if filter (lease_live running (le_now env)) ledger = ledger then PrunedNothing else PrunedSome))"
proof -
  have "filter (lease_retained (liveness_of running (refreshed_pids ledger)) (le_now env)) ledger =
      filter (lease_live running (le_now env)) ledger" for running
    by (rule filter_cong) (simp_all add: lease_retained_live)
  then show ?thesis
    by (simp add: prune_stale_leases_def filter_length_eq Let_def split: sum.splits)
qed

text \<open>
  What a prune removes. A lease that names its worker lasts exactly as long as that worker
  runs, whatever its age and its owner; any other lease lasts while its owner runs, and for at
  most thirty minutes; the order of the others is kept. A process table that cannot be read
  removes nothing and fails the access, except that an empty ledger needs no table.
\<close>

theorem prune_exact:
  "prune_stale_leases env ledger =
     (case le_processes env of
        Inl e \<Rightarrow> if ledger = [] then Ok ([], PrunedNothing) else Err e
      | Inr running \<Rightarrow>
          Ok (filter (lease_live running (le_now env)) ledger,
              if filter (lease_live running (le_now env)) ledger = ledger then PrunedNothing else PrunedSome))"
  by (rule prune_filter)

definition stored_lease :: "memory_lease_record \<Rightarrow> memory_lease_record" where
  "stored_lease l = l\<lparr>lr_created_at := as_second (lr_created_at l) * 1000\<rparr>"

definition range_ok :: "timestamp_range \<Rightarrow> memory_lease_record \<Rightarrow> bool" where
  "range_ok R l \<longleftrightarrow> ts_min R \<le> lr_created_at l \<and> lr_created_at l \<le> ts_max R"

lemma as_second_bounds:
  "0 \<le> t \<Longrightarrow> 0 \<le> as_second t * 1000 \<and> as_second t * 1000 \<le> t \<and> t < as_second t * 1000 + 1000"
  "t < 0 \<Longrightarrow> t \<le> as_second t * 1000 \<and> as_second t * 1000 \<le> 0 \<and> as_second t * 1000 < t + 1000"
  unfolding as_second_def using mult_div_mod_eq [of 1000 t] mult_div_mod_eq [of 1000 "- t"]
    pos_mod_bound [of 1000 t] pos_mod_sign [of 1000 t]
    pos_mod_bound [of 1000 "- t"] pos_mod_sign [of 1000 "- t"]
  by (simp_all; linarith)+

lemma lease_wire_roundtrip:
  assumes "ts_min R \<le> 0" and "0 \<le> ts_max R" and "range_ok R l"
  shows "lease_from_wire R (lease_into_wire l) = Some (stored_lease l)"
proof -
  have "ts_min R \<le> as_second (lr_created_at l) * 1000 \<and> as_second (lr_created_at l) * 1000 \<le> ts_max R"
    using as_second_bounds [of "lr_created_at l"] assms by (cases "0 \<le> lr_created_at l") (auto simp: range_ok_def)
  then show ?thesis
    by (cases l) (simp add: lease_from_wire_def lease_into_wire_def ledger_seconds_deserialize_def stored_lease_def)
qed

lemma stored_lease_idem: "stored_lease (stored_lease l) = stored_lease l"
proof -
  have "as_second (s * 1000) = s" for s :: int
    by (simp add: as_second_def) (metis minus_equation_iff nonzero_mult_div_cancel_right zero_neq_numeral mult_minus_left)
  then show ?thesis by (simp add: stored_lease_def)
qed

lemma read_written:
  assumes "ts_min R \<le> 0" and "0 \<le> ts_max R" and "list_all (range_ok R) ledger"
  shows "read_ledger R m (StoredLedger (map lease_into_wire ledger)) = Ok (map stored_lease ledger)"
  using assms lease_wire_roundtrip [OF assms(1,2)]
  by (induction ledger) (auto simp: read_ledger_def split: if_splits)

subsection \<open>Locked access\<close>

lemma with_locked_ok:
  assumes "le_io env = None" and "read_ledger (le_range env) (le_message env) file = Ok ledger"
    and "prune_stale_leases env ledger = Ok (kept, p)"
  shows "with_locked_ledger env relocks act file =
    (if isl (fst (act kept)) \<and> p = PrunedNothing then (Some (fst (act kept)), file)
     else (Some (fst (act kept)), StoredLedger (map lease_into_wire (snd (act kept)))))"
  using assms by (simp add: with_locked_ledger_def write_ledger_def split_beta Let_def)

definition write_step :: "ledger_io_step \<Rightarrow> bool" where
  "write_step s \<longleftrightarrow> \<not> opening_step s"

lemma write_ledger_file:
  "snd (write_ledger env ledger file) \<in>
     {file, BlankLedger, le_partial env, StoredLedger (map lease_into_wire ledger)}"
proof (cases "le_io env")
  case (Some s)
  then show ?thesis by (cases s) (simp_all add: write_ledger_def)
qed (simp add: write_ledger_def)

lemma write_ledger_error:
  assumes "fst (write_ledger env ledger file) = Some e"
  shows "((\<exists>s. e = LedgerIo s) \<or> (\<exists>m. e = CorruptLedger m)) \<and> (\<exists>s. le_io env = Some s \<and> write_step s)"
proof (cases "le_io env")
  case (Some s)
  with assms show ?thesis by (cases s) (auto simp: write_ledger_def write_step_def)
qed (use assms in \<open>simp add: write_ledger_def\<close>)

text \<open>
  The ways an access can end, for any action: before the action with the file as it was, after a
  refusal with the file as it was, with a rewrite, or with a rewrite that fails half way, whose
  answer is its error unless dropping what was granted never ends.
\<close>

lemma with_locked_cases:
  obtains (untouched) e where "with_locked_ledger env relocks act file = (Some (Err e), file)"
      "(\<exists>s. e = LedgerIo s) \<or> (\<exists>m. e = CorruptLedger m) \<or> (\<exists>m. e = Unreadable m)"
  | (refused) ledger kept p where
      "read_ledger (le_range env) (le_message env) file = Ok ledger"
      "prune_stale_leases env ledger = Ok (kept, p)" "isl (fst (act kept))"
      "with_locked_ledger env relocks act file = (Some (fst (act kept)), file)"
  | (rewritten) ledger kept p r where
      "read_ledger (le_range env) (le_message env) file = Ok ledger"
      "prune_stale_leases env ledger = Ok (kept, p)"
      "with_locked_ledger env relocks act file = (r, snd (write_ledger env (snd (act kept)) file))"
      "r = Some (fst (act kept)) \<or> (\<exists>e. fst (write_ledger env (snd (act kept)) file) = Some e \<and>
         r = after_failed_write env relocks (fst (act kept)) e)"
proof (cases "filter opening_step (case le_io env of Some s \<Rightarrow> [s] | None \<Rightarrow> [])")
  case (Cons s ss)
  then show ?thesis by (intro untouched [of "LedgerIo s"]) (simp_all add: with_locked_ledger_def)
next
  case Nil
  show ?thesis
  proof (cases "read_ledger (le_range env) (le_message env) file")
    case (Inl m)
    with Nil show ?thesis by (intro untouched [of "CorruptLedger m"]) (simp_all add: with_locked_ledger_def)
  next
    case (Inr ledger)
    show ?thesis
    proof (cases "prune_stale_leases env ledger")
      case (Inl e)
      with Nil Inr show ?thesis
        by (intro untouched [of "Unreadable e"]) (simp_all add: with_locked_ledger_def)
    next
      case p: (Inr kp)
      obtain kept p where kp: "kp = (kept, p)" by force
      obtain w f' where w: "write_ledger env (snd (act kept)) file = (w, f')" by force
      have eq: "with_locked_ledger env relocks act file =
          (if isl (fst (act kept)) \<and> p = PrunedNothing then (Some (fst (act kept)), file)
           else (case w of None \<Rightarrow> Some (fst (act kept))
                  | Some e \<Rightarrow> after_failed_write env relocks (fst (act kept)) e, f'))"
        using Nil Inr p kp w by (simp add: with_locked_ledger_def split_beta Let_def split: option.splits)
      show ?thesis
      proof (cases "isl (fst (act kept)) \<and> p = PrunedNothing")
        case True
        with eq Inr p kp show ?thesis by (intro refused [of ledger kept p]) simp_all
      next
        case False
        with eq have "with_locked_ledger env relocks act file =
            (case w of None \<Rightarrow> Some (fst (act kept))
              | Some e \<Rightarrow> after_failed_write env relocks (fst (act kept)) e, f')" by simp
        with Inr p kp w show ?thesis by (cases w) (auto intro: rewritten)
      qed
    qed
  qed
qed

lemma prune_sublist:
  "prune_stale_leases env ledger = Ok (kept, p) \<Longrightarrow> \<exists>P. kept = filter P ledger"
  by (auto simp: prune_stale_leases_def Let_def split: if_splits sum.splits)

subsection \<open>Invariant of the shared ledger\<close>

text \<open>
  The invariant of the ledger: at most one real-model test lock, no more startup leases than
  slots, no identifier twice. The processes of the host may differ in their configuration; the
  slots are those of \<open>cfg\<close>, the most any of them allows.
\<close>

definition ledger_ok :: "host_memory_config \<Rightarrow> memory_ledger \<Rightarrow> bool" where
  "ledger_ok cfg ledger \<longleftrightarrow>
     length (ml_holders ledger) \<le> 1 \<and> startup_slots ledger \<le> hc_max_startups cfg \<and>
     distinct (map lr_id ledger)"

definition file_ok :: "host_memory_config \<Rightarrow> timestamp_range \<Rightarrow> ledger_file \<Rightarrow> bool" where
  "file_ok cfg R file \<longleftrightarrow>
     (case read_ledger R [] file of Inl _ \<Rightarrow> True | Inr ledger \<Rightarrow> ledger_ok cfg ledger)"

definition lease_ids :: "timestamp_range \<Rightarrow> ledger_file \<Rightarrow> string list" where
  "lease_ids R file = (case read_ledger R [] file of Inl _ \<Rightarrow> [] | Inr ledger \<Rightarrow> map lr_id ledger)"

lemma read_ledger_message:
  "read_ledger R m file = Ok ledger \<longleftrightarrow> read_ledger R m' file = Ok ledger"
  by (auto simp: read_ledger_def split: ledger_file.splits if_splits)

lemma ledger_ok_filter: "ledger_ok cfg ledger \<Longrightarrow> ledger_ok cfg (filter P ledger)"
proof -
  have "length (filter Q (filter P ledger)) \<le> length (filter Q ledger)" for Q
    by (induction ledger) auto
  then show "ledger_ok cfg ledger \<Longrightarrow> ledger_ok cfg (filter P ledger)"
    by (simp add: ledger_ok_def ml_holders_def startup_slots_def distinct_map_filter del: filter_filter)
       (metis le_trans)
qed

lemma lease_from_into:
  "lease_from_wire R (lease_into_wire l) = Some l' \<Longrightarrow> lr_kind l' = lr_kind l \<and> lr_id l' = lr_id l"
  by (auto simp: lease_from_wire_def lease_into_wire_def)

lemma read_ledger_kinds:
  assumes "read_ledger R m (StoredLedger (map lease_into_wire ledger)) = Ok ledger'"
  shows "map lr_kind ledger' = map lr_kind ledger" "map lr_id ledger' = map lr_id ledger"
proof -
  have all: "list_all (\<lambda>w. lease_from_wire R w \<noteq> None) (map lease_into_wire ledger)"
    and eq: "ledger' = List.map_filter (lease_from_wire R) (map lease_into_wire ledger)"
    using assms by (simp_all add: read_ledger_def split: if_splits)
  from all have "map lr_kind (List.map_filter (lease_from_wire R) (map lease_into_wire ledger)) = map lr_kind ledger \<and>
      map lr_id (List.map_filter (lease_from_wire R) (map lease_into_wire ledger)) = map lr_id ledger"
    by (induction ledger) (auto dest: lease_from_into)
  then show "map lr_kind ledger' = map lr_kind ledger" "map lr_id ledger' = map lr_id ledger"
    by (simp_all add: eq)
qed

lemma ledger_ok_kinds:
  assumes "map lr_kind l = map lr_kind l'" and "map lr_id l = map lr_id l'"
  shows "ledger_ok cfg l \<longleftrightarrow> ledger_ok cfg l'"
proof -
  have counts: "length (ml_holders l) = length (filter (\<lambda>k. k = MlTestExclusive) (map lr_kind l))"
    "startup_slots l = length (filter holds_startup_slot (map lr_kind l))" for l
    by (simp_all add: ml_holders_def startup_slots_def filter_map comp_def)
  show ?thesis unfolding ledger_ok_def counts assms ..
qed

text \<open>
  What an action must promise for the invariant: it keeps it, given that the identifier it may
  hand out is not in use. Every operation on the ledger is such an action, so one lemma covers
  every access, with every failure of the file operations.
\<close>

locale ledger_action =
  fixes cfg :: host_memory_config
    and new_id :: string
    and act :: "memory_ledger \<Rightarrow> (host_memory_error, 'a) result \<times> memory_ledger"
  assumes keeps: "ledger_ok cfg ledger \<Longrightarrow> new_id \<notin> set (map lr_id ledger) \<Longrightarrow> ledger_ok cfg (snd (act ledger))"
begin

lemma access_keeps:
  assumes "file_ok cfg (le_range env) file" and "new_id \<notin> set (lease_ids (le_range env) file)"
    and "\<forall>ws. le_partial env \<noteq> StoredLedger ws"
  shows "file_ok cfg (le_range env) (snd (with_locked_ledger env relocks act file))"
proof (cases rule: with_locked_cases [of env relocks act "file"])
  case (rewritten ledger kept p r)
  have read: "read_ledger (le_range env) [] file = Ok ledger"
    using rewritten(1) read_ledger_message by blast
  obtain P where kept: "kept = filter P ledger" using prune_sublist [OF rewritten(2)] by blast
  have "ledger_ok cfg ledger" "new_id \<notin> set (map lr_id ledger)"
    using assms(1,2) read by (simp_all add: file_ok_def lease_ids_def)
  then have "ledger_ok cfg (snd (act kept))"
    by (intro keeps) (auto simp: kept intro: ledger_ok_filter)
  then have "file_ok cfg (le_range env) (StoredLedger (map lease_into_wire (snd (act kept))))"
    using ledger_ok_kinds [OF read_ledger_kinds] by (simp add: file_ok_def split: sum.splits)
  moreover have "file_ok cfg (le_range env) (le_partial env)" "file_ok cfg (le_range env) BlankLedger"
    using assms(3)
    by (cases "le_partial env"; simp add: file_ok_def read_ledger_def ledger_ok_def ml_holders_def startup_slots_def)+
  ultimately show ?thesis
    using write_ledger_file [of env "snd (act kept)" "file"] assms(1) rewritten(3) by auto
qed (use assms(1) in simp_all)

end

interpretation acquiring: ledger_action cfg "le_new_id env"
  "acquire_action (own\<lparr>hc_max_startups := min (hc_max_startups own) (hc_max_startups cfg)\<rparr>) env rq"
  for cfg own env rq
proof
  fix ledger
  assume "ledger_ok cfg ledger" "le_new_id env \<notin> set (map lr_id ledger)"
  then show "ledger_ok cfg (snd (acquire_action
      (own\<lparr>hc_max_startups := min (hc_max_startups own) (hc_max_startups cfg)\<rparr>) env rq ledger))"
    by (cases "rq_kind rq")
       (auto simp: acquire_action_def acquire_record_def ledger_ok_def ml_holders_def startup_slots_def
         Let_def split: sum.splits)
qed

interpretation planning: ledger_action cfg "le_new_id env" "plan_action own env runtime command requested label"
  for cfg own env runtime command requested label
proof
  fix ledger
  assume "ledger_ok cfg ledger" "le_new_id env \<notin> set (map lr_id ledger)"
  then show "ledger_ok cfg (snd (plan_action own env runtime command requested label ledger))"
    by (auto simp: plan_action_def ledger_ok_def ml_holders_def startup_slots_def Let_def
        split: sum.splits option.splits)
qed

lemma update_first_maps:
  "(\<And>x. g (f x) = g x) \<Longrightarrow> map g (update_first P f xs) = map g xs"
  by (induction xs) auto

interpretation tagging: ledger_action cfg i
  "\<lambda>ledger. (Ok (), update_first (\<lambda>l. lr_id l = j) (\<lambda>l. l\<lparr>lr_worker_pid := Some pid\<rparr>) ledger)" for cfg i j pid
  by unfold_locales (subst ledger_ok_kinds, simp_all add: update_first_maps)

interpretation settling: ledger_action cfg i
  "\<lambda>ledger. (Ok (), update_first (\<lambda>l. lr_id l = j) (\<lambda>l. l\<lparr>lr_reserved_mb := mb\<rparr>) ledger)" for cfg i j mb
  by unfold_locales (subst ledger_ok_kinds, simp_all add: update_first_maps)

interpretation releasing: ledger_action cfg i "\<lambda>ledger. (Ok (), filter (\<lambda>l. lr_id l \<noteq> j) ledger)" for cfg i j
  by unfold_locales (simp add: ledger_ok_filter)

interpretation snapshotting: ledger_action cfg i "snapshot_action own env" for cfg i own env
  by unfold_locales (simp add: snapshot_action_def split: sum.splits)

text \<open>
  One access by any process of the host, under its own configuration, with whatever it finds outside.
\<close>

definition env_ok :: "timestamp_range \<Rightarrow> ledger_file \<Rightarrow> ledger_env \<Rightarrow> bool" where
  "env_ok R file env \<longleftrightarrow>
     le_range env = R \<and> le_new_id env \<notin> set (lease_ids R file) \<and>
     (case le_partial env of StoredLedger _ \<Rightarrow> False | _ \<Rightarrow> True)"

inductive ledger_step :: "host_memory_config \<Rightarrow> timestamp_range \<Rightarrow> ledger_file \<Rightarrow> ledger_file \<Rightarrow> bool"
  for cfg R where
    step_acquire: "env_ok R file env \<Longrightarrow> hc_max_startups own \<le> hc_max_startups cfg \<Longrightarrow>
      ledger_step cfg R file (snd (try_acquire_lease own env rq file))"
  | step_plan: "env_ok R file env \<Longrightarrow>
      ledger_step cfg R file (snd (try_plan_job_execution own env runtime command requested label file))"
  | step_tag: "env_ok R file env \<Longrightarrow> ledger_step cfg R file (snd (set_worker_pid env lease pid file))"
  | step_settle: "env_ok R file env \<Longrightarrow> ledger_step cfg R file (snd (settle env i mb file))"
  | step_release: "env_ok R file env \<Longrightarrow> ledger_step cfg R file (snd (release_internal env lease file))"
  | step_snapshot: "env_ok R file env \<Longrightarrow> ledger_step cfg R file (snd (snapshot own env file))"

inductive ledger_reachable :: "host_memory_config \<Rightarrow> timestamp_range \<Rightarrow> ledger_file \<Rightarrow> bool" for cfg R where
    reach_start: "ledger_reachable cfg R BlankLedger"
  | reach_step: "ledger_reachable cfg R file \<Longrightarrow> ledger_step cfg R file file' \<Longrightarrow> ledger_reachable cfg R file'"

lemma ledger_step_keeps:
  assumes "ledger_step cfg R file file'" and "file_ok cfg R file"
  shows "file_ok cfg R file'"
proof -
  have partial: "\<forall>ws. le_partial env \<noteq> StoredLedger ws" and range: "le_range env = R"
    and fresh: "le_new_id env \<notin> set (lease_ids R file)" if "env_ok R file env" for env
    using that by (auto simp: env_ok_def)
  from assms(1) show ?thesis
  proof cases
    case (step_acquire env own rq)
    then have "own\<lparr>hc_max_startups := min (hc_max_startups own) (hc_max_startups cfg)\<rparr> = own"
      by (simp add: min_absorb1)
    with acquiring.access_keeps [where cfg = cfg and env = env and own = own and rq = rq]
      step_acquire partial range fresh assms(2)
    show ?thesis by (simp add: try_acquire_lease_def)
  next
    case (step_plan env own runtime command requested label)
    with planning.access_keeps [where cfg = cfg and env = env and own = own] partial range fresh assms(2) show ?thesis
      by (simp add: try_plan_job_execution_def)
  next
    case (step_tag env lease pid)
    with tagging.access_keeps [where i = "le_new_id env" and cfg = cfg and env = env] partial range fresh assms(2) show ?thesis
      by (simp add: set_worker_pid_def)
  next
    case (step_settle env i mb)
    with settling.access_keeps [where i = "le_new_id env" and cfg = cfg and env = env] partial range fresh assms(2) show ?thesis
      by (simp add: settle_def)
  next
    case (step_release env lease)
    with releasing.access_keeps [where i = "le_new_id env" and cfg = cfg and env = env] partial range fresh assms(2) show ?thesis
      by (simp add: release_internal_def)
  next
    case (step_snapshot env own)
    with snapshotting.access_keeps [where i = "le_new_id env" and cfg = cfg and env = env] partial range fresh assms(2) show ?thesis
      by (simp add: snapshot_def)
  qed
qed

text \<open>
  C22. The shared ledger stays sound. After any sequence of accesses by any processes, each under its
  own configuration, whatever the clocks, process tables and memory readings they see and whichever
  file operations fail (a broken write never leaving something that parses), a ledger that can be
  read has at most one real-model test lock, no more worker startups than the largest number of
  slots any of them allows, and no identifier twice.
\<close>

theorem ledger_invariant:
  "ledger_reachable cfg R file \<Longrightarrow> file_ok cfg R file"
proof (induction rule: ledger_reachable.induct)
  case reach_start
  show ?case by (simp add: file_ok_def read_ledger_def ledger_ok_def ml_holders_def startup_slots_def)
next
  case (reach_step "file" file')
  then show ?case by (blast intro: ledger_step_keeps)
qed

definition sample_range :: timestamp_range where
  "sample_range = \<lparr>ts_min = - 377705023201000, ts_max = 253402207200999\<rparr>"

definition sample_env :: "nat \<Rightarrow> machine_time \<Rightarrow> string \<Rightarrow> ledger_env" where
  "sample_env pid t i =
     \<lparr>le_pid = pid, le_processes = Ok (\<lambda>p. p = 100 \<or> p = 200),
      le_memory = Ok \<lparr>sm_total_mb = 16000, sm_available_mb = 9000\<rparr>,
      le_now = t, le_created = t, le_new_id = i, le_range = sample_range, le_io = None,
      le_partial = BlankLedger, le_message = '''', le_reopens = True\<rparr>"

definition sample_config :: host_memory_config where
  "sample_config = \<lparr>hc_reserve_mb = 2048, hc_max_startups = 1\<rparr>"

lemmas sample_defs = sample_range_def sample_env_def sample_config_def

definition locked_file :: ledger_file where
  "locked_file = snd (try_acquire_lease sample_config (sample_env 100 0 ''a'') (request_ml_test_lock ''t1'') BlankLedger)"

lemma locked_file_eq:
  "try_acquire_lease sample_config (sample_env 100 0 ''a'') (request_ml_test_lock ''t1'') BlankLedger =
     (Some (Ok (new_lease ''a'')), locked_file)"
  "locked_file = StoredLedger [\<lparr>lw_id = ''a'', lw_kind = MlTestExclusive, lw_owner_pid = 100,
     lw_worker_pid = None, lw_reserved_mb = 0, lw_startup_slot = False, lw_label = ''t1'',
     lw_created_at_epoch_s = 0\<rparr>]"
  by (simp_all add: locked_file_def try_acquire_lease_def with_locked_ledger_def read_ledger_def
      prune_stale_leases_def acquire_action_def request_ml_test_lock_def ml_holders_def
      projected_total_def reserved_total_def effective_reserved_mb_def add_demand_def
      request_reservation_def hm_get_def hm_insert_def hm_values_def usat_add_def
      acquire_record_def write_ledger_def lease_into_wire_def as_second_def sample_defs new_lease_def)

theorem ledger_invariant_witness:
  "ledger_reachable sample_config sample_range locked_file \<and> file_ok sample_config sample_range locked_file"
proof -
  have "env_ok sample_range BlankLedger (sample_env 100 0 ''a'')"
    by (simp add: env_ok_def lease_ids_def read_ledger_def sample_env_def)
  then have "ledger_step sample_config sample_range BlankLedger locked_file"
    unfolding locked_file_def by (rule step_acquire) simp
  then have "ledger_reachable sample_config sample_range locked_file"
    by (rule reach_step [OF reach_start])
  with ledger_invariant show ?thesis by blast
qed

subsection \<open>Admission\<close>

definition admits :: "host_memory_config \<Rightarrow> ledger_env \<Rightarrow> memory_lease_request \<Rightarrow> memory_ledger \<Rightarrow> bool" where
  "admits cfg env rq ledger \<longleftrightarrow>
     (rq_kind rq = MlTestExclusive \<longrightarrow> ml_holders ledger = []) \<and>
     (rq_kind rq = WorkerStartup \<longrightarrow> startup_slots ledger < hc_max_startups cfg) \<and>
     (case le_memory env of
        Inl _ \<Rightarrow> False
      | Inr system \<Rightarrow>
          reserved_total (ledger @ [acquire_record env rq]) \<le> reserved_total ledger \<or>
          hc_reserve_mb cfg \<le> sm_available_mb system - reserved_total (ledger @ [acquire_record env rq]))"

lemma projected_record: "projected_total env rq ledger = reserved_total (ledger @ [acquire_record env rq])"
  by (simp add: projected_total_def reserved_total_def request_reservation_def acquire_record_def
      lease_reservation_def)

lemma startup_kind: "holds_startup_slot k \<longleftrightarrow> k = WorkerStartup"
  by (cases k) simp_all

lemma acquire_action_admits:
  "acquire_action cfg env rq ledger =
     (if admits cfg env rq ledger
      then (Ok (new_lease (le_new_id env)), ledger @ [acquire_record env rq])
      else (fst (acquire_action cfg env rq ledger), ledger)) \<and>
   (isl (fst (acquire_action cfg env rq ledger)) \<longleftrightarrow> \<not> admits cfg env rq ledger)"
  by (auto simp: acquire_action_def admits_def projected_record startup_kind Let_def not_less
      split: sum.splits)

lemma admission_outcome:
  assumes "le_io env = None" and "read_ledger (le_range env) (le_message env) file = Ok ledger"
    and "prune_stale_leases env ledger = Ok (kept, p)"
  shows "if admits cfg env rq kept
    then try_acquire_lease cfg env rq file =
      (Some (Ok (new_lease (le_new_id env))), StoredLedger (map lease_into_wire (kept @ [acquire_record env rq])))
    else \<exists>e. try_acquire_lease cfg env rq file =
      (Some (Err e), if kept = ledger then file else StoredLedger (map lease_into_wire kept))"
proof -
  have "p = PrunedNothing \<longleftrightarrow> kept = ledger"
    using assms(3) by (auto simp: prune_filter split: sum.splits if_splits)
  then show ?thesis
    using acquire_action_admits [of cfg env rq kept]
      with_locked_ok [OF assms, of lease_relocks "acquire_action cfg env rq"]
    by (cases "fst (acquire_action cfg env rq kept)") (auto simp: try_acquire_lease_def split: if_splits)
qed

text \<open>
  C23. Admission keeps the reserve free. On a readable ledger a request is granted exactly when it
  breaks no exclusion and either adds nothing to the demand the ledger already records or leaves
  the configured reserve of the memory now available; a granted request is recorded last under
  a fresh identifier, and a refused one changes nothing beyond the stale leases every access
  drops.
\<close>

theorem admission_exact:
  assumes "le_io env = None" and "read_ledger (le_range env) (le_message env) file = Ok ledger"
    and "prune_stale_leases env ledger = Ok (kept, p)"
  shows "if admits cfg env rq kept
    then try_acquire_lease cfg env rq file =
      (Some (Ok (new_lease (le_new_id env))), StoredLedger (map lease_into_wire (kept @ [acquire_record env rq])))
    else \<exists>e. try_acquire_lease cfg env rq file =
      (Some (Err e), if kept = ledger then file else StoredLedger (map lease_into_wire kept))"
  using assms by (rule admission_outcome)

theorem admission_exact_witness:
  "\<exists>e. try_acquire_lease sample_config (sample_env 200 5000 ''b'') (request_ml_test_lock ''t2'') locked_file =
     (Some (Err e), locked_file)"
proof -
  let ?env = "sample_env 200 5000 ''b''"
  let ?l = "\<lparr>lr_id = ''a'', lr_kind = MlTestExclusive, lr_owner_pid = 100, lr_worker_pid = None,
     lr_reserved_mb = 0, lr_label = ''t1'', lr_created_at = 0\<rparr>"
  have "read_ledger (le_range ?env) (le_message ?env) locked_file = Ok [?l]"
    by (simp add: locked_file_eq read_ledger_def lease_from_wire_def ledger_seconds_deserialize_def sample_defs)
  moreover have "prune_stale_leases ?env [?l] = Ok ([?l], PrunedNothing)"
    by (simp add: prune_filter lease_live_def sample_defs)
  moreover have "le_io ?env = None" by (simp add: sample_defs)
  moreover have "\<not> admits sample_config ?env (request_ml_test_lock ''t2'') [?l]"
    by (simp add: admits_def request_ml_test_lock_def ml_holders_def)
  ultimately show ?thesis
    using admission_exact [of ?env locked_file "[?l]" "[?l]" PrunedNothing sample_config "request_ml_test_lock ''t2''"]
    by auto
qed

text \<open>
  A worker inside its job's reservation never waits. When the memory a process's jobs reserved
  covers what its workers hold and the new request, a model reservation of that process is
  granted whatever the host now reports as available, so a job cannot wait on its own lease.
\<close>

theorem suballocation_granted:
  assumes "le_io env = None" and "read_ledger (le_range env) (le_message env) file = Ok ledger"
    and "prune_stale_leases env ledger = Ok (kept, p)" and "le_memory env = Ok system"
    and "rq_kind rq \<in> {ModelLoad, ModelBatch, ModelRequest}"
    and "side_sum (map lease_reservation kept) (le_pid env) WorkerSide + rq_reserved_mb rq
      \<le> side_sum (map lease_reservation kept) (le_pid env) JobSide"
  shows "fst (try_acquire_lease cfg env rq file) = Some (Ok (new_lease (le_new_id env)))"
proof -
  have "projected_total env rq kept = reserved_total kept"
    unfolding projected_total_def reserved_total_def
    by (rule worker_suballocation) (use assms(5,6) in \<open>auto simp: request_reservation_def\<close>)
  then have "admits cfg env rq kept"
    using assms(4,5) by (auto simp: admits_def simp flip: projected_record)
  with admission_outcome [OF assms(1-3), of cfg rq] show ?thesis by simp
qed

definition job_lease :: memory_lease_record where
  "job_lease = \<lparr>lr_id = ''j'', lr_kind = JobExecution, lr_owner_pid = 100, lr_worker_pid = None,
     lr_reserved_mb = 6000, lr_label = ''job'', lr_created_at = 0\<rparr>"

lemma job_file_read:
  "read_ledger sample_range m (StoredLedger [lease_into_wire job_lease]) = Ok [job_lease]"
  by (simp add: read_ledger_def lease_from_wire_def lease_into_wire_def ledger_seconds_deserialize_def
      sample_range_def job_lease_def as_second_def)

theorem suballocation_granted_witness:
  "fst (try_acquire_lease sample_config
      (sample_env 100 60000 ''m'' \<lparr>le_memory := Ok \<lparr>sm_total_mb = 16000, sm_available_mb = 100\<rparr>\<rparr>)
      (request_model_load 200 ''asr'' 4375) (StoredLedger [lease_into_wire job_lease])) =
    Some (Ok (new_lease ''m''))"
proof -
  let ?env = "sample_env 100 60000 ''m'' \<lparr>le_memory := Ok \<lparr>sm_total_mb = 16000, sm_available_mb = 100\<rparr>\<rparr>"
  have "fst (try_acquire_lease sample_config ?env (request_model_load 200 ''asr'' 4375)
      (StoredLedger [lease_into_wire job_lease])) = Some (Ok (new_lease (le_new_id ?env)))"
  proof (rule suballocation_granted)
    show "le_io ?env = None" by (simp add: sample_env_def)
    show "read_ledger (le_range ?env) (le_message ?env) (StoredLedger [lease_into_wire job_lease]) = Ok [job_lease]"
      using job_file_read by (simp add: sample_env_def)
    show "prune_stale_leases ?env [job_lease] = Ok ([job_lease], PrunedNothing)"
      by (simp add: prune_filter lease_live_def sample_env_def job_lease_def)
  qed (simp_all add: sample_env_def request_model_load_def side_sum_def lease_reservation_def job_lease_def)
  then show ?thesis by (simp add: sample_env_def)
qed

subsection \<open>The real-model test lock\<close>

text \<open>
  The test lock excludes, for thirty minutes. While the process that holds the lock runs and
  less than thirty minutes have passed since the lock was recorded, every other request for it
  is refused and names the holder.
\<close>

theorem ml_lock_excludes:
  assumes "le_io env = None" and "read_ledger (le_range env) (le_message env) file = Ok ledger"
    and "le_processes env = Ok running"
    and "l \<in> set ledger" and "lr_kind l = MlTestExclusive" and "lr_worker_pid l = None"
    and "running (lr_owner_pid l)" and "le_now env < lr_created_at l + 1800 * 1000"
  shows "\<exists>hs. fst (try_acquire_lease cfg env (request_ml_test_lock label) file) = Some (Err (MlTestLockBusy hs)) \<and>
    lr_label l \<in> set hs"
proof -
  obtain p where p: "prune_stale_leases env ledger = Ok (filter (lease_live running (le_now env)) ledger, p)"
    using assms(3) by (simp add: prune_filter)
  let ?kept = "filter (lease_live running (le_now env)) ledger"
  have "l \<in> set ?kept" using assms(4,6,7,8) by (simp add: lease_live_def)
  then have "lr_label l \<in> set (ml_holders ?kept)" using assms(5) by (auto simp: ml_holders_def)
  moreover from this have "acquire_action cfg env (request_ml_test_lock label) ?kept =
      (Err (MlTestLockBusy (ml_holders ?kept)), ?kept)"
    by (auto simp: acquire_action_def request_ml_test_lock_def)
  ultimately show ?thesis
    using with_locked_ok [OF assms(1,2) p, of lease_relocks "acquire_action cfg env (request_ml_test_lock label)"]
    by (simp add: try_acquire_lease_def)
qed

theorem ml_lock_excludes_witness:
  "\<exists>hs. fst (try_acquire_lease sample_config (sample_env 200 1799999 ''b'') (request_ml_test_lock ''t2'') locked_file) =
     Some (Err (MlTestLockBusy hs)) \<and> ''t1'' \<in> set hs"
proof -
  let ?env = "sample_env 200 1799999 ''b''"
  let ?l = "\<lparr>lr_id = ''a'', lr_kind = MlTestExclusive, lr_owner_pid = 100, lr_worker_pid = None,
     lr_reserved_mb = 0, lr_label = ''t1'', lr_created_at = 0\<rparr>"
  have "read_ledger (le_range ?env) (le_message ?env) locked_file = Ok [?l]"
    by (simp add: locked_file_eq read_ledger_def lease_from_wire_def ledger_seconds_deserialize_def sample_defs)
  then show ?thesis
    using ml_lock_excludes [of ?env locked_file "[?l]" "\<lambda>p. p = 100 \<or> p = 200" ?l sample_config "''t2''"]
    by (simp add: sample_env_def)
qed

lemma zero_reservation:
  assumes "rv_reserved r = 0"
  shows "effective_reserved_mb (rs @ [r]) = effective_reserved_mb rs"
proof -
  have "owner_max (rs @ [r]) own = owner_max rs own" for own
    using assms by (simp add: owner_max_def side_sum_snoc)
  moreover have "(\<Sum>own \<in> rv_owner ` set rs. owner_max rs own) =
      (\<Sum>own \<in> rv_owner ` set (rs @ [r]). owner_max rs own)"
    by (rule owner_max_superset) auto
  ultimately show ?thesis by (simp add: effective_reserved_sum)
qed

lemma test_lock_admitted:
  "le_memory env = Ok system \<Longrightarrow>
     admits cfg env (request_ml_test_lock label) ledger \<longleftrightarrow> ml_holders ledger = []"
  using zero_reservation [of "lease_reservation (acquire_record env (request_ml_test_lock label))"
      "map lease_reservation ledger"]
  by (auto simp: admits_def reserved_total_def request_ml_test_lock_def acquire_record_def lease_reservation_def)

text \<open>
  C40. The test lock and a job's reservation lapse while they are held. On a readable ledger where
  every test lock names no worker and its process still runs, a second process is granted the
  exclusive lock exactly when thirty minutes have passed since each recorded lock was taken; and
  of any lease without a worker whose process still runs, a job's reservation included, the access
  keeps exactly those younger than thirty minutes. Nothing moves the time of a lease, so a job that
  runs longer is no longer counted.
\<close>

theorem held_leases_lapse:
  assumes "le_io env = None" and "read_ledger (le_range env) (le_message env) file = Ok ledger"
    and "le_processes env = Ok running" and "le_memory env = Ok system"
    and "\<forall>l \<in> set ledger. lr_kind l = MlTestExclusive \<longrightarrow> lr_worker_pid l = None \<and> running (lr_owner_pid l)"
  shows "((\<exists>lease. fst (try_acquire_lease cfg env (request_ml_test_lock label) file) = Some (Ok lease)) \<longleftrightarrow>
      (\<forall>l \<in> set ledger. lr_kind l = MlTestExclusive \<longrightarrow> lr_created_at l + 1800 * 1000 \<le> le_now env)) \<and>
    (\<exists>kept p. prune_stale_leases env ledger = Ok (kept, p) \<and>
       (\<forall>l \<in> set ledger. lr_worker_pid l = None \<and> running (lr_owner_pid l) \<longrightarrow>
          (l \<in> set kept \<longleftrightarrow> le_now env < lr_created_at l + 1800 * 1000)))"
proof -
  let ?kept = "filter (lease_live running (le_now env)) ledger"
  obtain p where p: "prune_stale_leases env ledger = Ok (?kept, p)"
    using assms(3) by (simp add: prune_filter)
  have "ml_holders ?kept = [] \<longleftrightarrow>
      (\<forall>l \<in> set ledger. lr_kind l = MlTestExclusive \<longrightarrow> lr_created_at l + 1800 * 1000 \<le> le_now env)"
    using assms(5) by (fastforce simp: ml_holders_def filter_empty_conv lease_live_def)
  moreover have "(\<exists>lease. fst (try_acquire_lease cfg env (request_ml_test_lock label) file) = Some (Ok lease)) \<longleftrightarrow>
      admits cfg env (request_ml_test_lock label) ?kept"
    using admission_outcome [OF assms(1,2) p, of cfg "request_ml_test_lock label"] by (auto split: if_splits)
  ultimately have "(\<exists>lease. fst (try_acquire_lease cfg env (request_ml_test_lock label) file) = Some (Ok lease)) \<longleftrightarrow>
      (\<forall>l \<in> set ledger. lr_kind l = MlTestExclusive \<longrightarrow> lr_created_at l + 1800 * 1000 \<le> le_now env)"
    by (simp add: test_lock_admitted [OF assms(4)])
  with p show ?thesis by (auto simp: lease_live_def)
qed

theorem held_leases_lapse_witness:
  "(\<exists>lease. fst (try_acquire_lease sample_config (sample_env 200 1800000 ''b'') (request_ml_test_lock ''t2'')
      locked_file) = Some (Ok lease)) \<and>
   \<not> (\<exists>lease. fst (try_acquire_lease sample_config (sample_env 200 1799999 ''b'') (request_ml_test_lock ''t2'')
      locked_file) = Some (Ok lease))"
proof -
  let ?l = "\<lparr>lr_id = ''a'', lr_kind = MlTestExclusive, lr_owner_pid = 100, lr_worker_pid = None,
     lr_reserved_mb = 0, lr_label = ''t1'', lr_created_at = 0\<rparr>"
  have read: "read_ledger (le_range (sample_env 200 t ''b'')) (le_message (sample_env 200 t ''b'')) locked_file = Ok [?l]" for t
    by (simp add: locked_file_eq read_ledger_def lease_from_wire_def ledger_seconds_deserialize_def sample_defs)
  from held_leases_lapse [OF _ read, of 1800000 "\<lambda>p. p = 100 \<or> p = 200" "\<lparr>sm_total_mb = 16000, sm_available_mb = 9000\<rparr>"
      sample_config "''t2''"]
    held_leases_lapse [OF _ read, of 1799999 "\<lambda>p. p = 100 \<or> p = 200" "\<lparr>sm_total_mb = 16000, sm_available_mb = 9000\<rparr>"
      sample_config "''t2''"]
  show ?thesis by (simp add: sample_env_def)
qed

subsection \<open>Planning a job\<close>

definition plan_fits :: "nat \<Rightarrow> nat \<Rightarrow> nat \<Rightarrow> nat \<Rightarrow> nat \<Rightarrow> bool" where
  "plan_fits per available reserve pending w \<longleftrightarrow>
     effective_reserve_mb reserve available \<le> available - pending - usat_mul per w"

lemma plan_loop_step:
  "0 < n \<Longrightarrow> plan_loop per available eff pending n =
     (if eff \<le> available - pending - usat_mul per n then Some (n, usat_mul per n)
      else plan_loop per available eff pending (n - 1))"
  by (cases n) (simp_all add: Let_def)

lemmas plan_eval =
  plan_job_reservation_def effective_reserve_mb_def RESERVE_HEADROOM_FRACTION_DENOM_def
  usat_mul_def usize_max_def plan_loop_step

lemma plan_loop_maximal:
  "case plan_loop per available (effective_reserve_mb reserve available) pending n of
     None \<Rightarrow> \<forall>w \<in> {1..n}. \<not> plan_fits per available reserve pending w
   | Some (w, mb) \<Rightarrow> w \<in> {1..n} \<and> mb = usat_mul per w \<and> plan_fits per available reserve pending w \<and>
       (\<forall>w' \<in> {w<..n}. \<not> plan_fits per available reserve pending w')"
proof (induction n)
  case (Suc n)
  then show ?case
    by (auto simp: plan_fits_def Let_def le_Suc_eq split: option.splits)
qed simp



text \<open>
  A job that would fit later is refused as one that never can. The refusal of a plan reports
  the budget of every worker asked for, so a request whose full parallelism exceeds the machine
  is not retried inside its window, although one of its workers fits as soon as memory is free.
\<close>

theorem plan_refusal_overstated:
  "plan_action sample_config
      (sample_env 100 0 ''p'' \<lparr>le_memory := Ok \<lparr>sm_total_mb = 16000, sm_available_mb = 1000\<rparr>\<rparr>)
      Gil Align 4 ''job'' [] =
    (Err (CapacityRejected ''job'' 1000 0 24000 2048 16000), []) \<and>
   \<not> retryable_error (CapacityRejected ''job'' 1000 0 24000 2048 16000) \<and>
   plan_job_reservation 4 6000 14000 2048 0 = Some (1, 6000)"
proof -
  have "per_worker_budget (the (command_spec_for Align)) Gil 16000 = 6000"
    by (simp add: command_spec_for_eval COMMAND_SPECS_def per_worker_budget_def execution_budget_mb_def
        base_mb_for_runtime_def estimate_per_worker_peak_mb_with_profile_def tier_from_total_mb_def)
  moreover have "plan_job_reservation 4 6000 1000 2048 0 = None"
    "plan_job_reservation 4 6000 14000 2048 0 = Some (1, 6000)"
    by (simp_all add: plan_eval)
  moreover have "reserved_total [] = 0"
    by (simp add: reserved_total_def effective_reserved_sum)
  ultimately show ?thesis
    by (simp add: plan_action_def sample_defs usat_mul_def usize_max_def
        capacity_rejection_is_retryable_def usat_add_def)
qed

subsection \<open>Waits end\<close>

text \<open>
  What the attempts of a wait answer, were it to go on through all its ticks: each finds the ledger
  as the one before and the other processes left it.
\<close>

fun wait_attempts ::
    "(ledger_env \<Rightarrow> ledger_file \<Rightarrow> 'a access) \<Rightarrow> lease_tick list \<Rightarrow> ledger_file \<Rightarrow>
      (host_memory_error, 'a) result option list" where
  "wait_attempts attempt [] file = []"
| "wait_attempts attempt (t # ts) file =
     (let (r, file') = attempt (tk_env t) (tk_others t file) in r # wait_attempts attempt ts file')"

lemma wait_loop_returns:
  "t \<in> set ts \<Longrightarrow> deadline \<le> tk_now t \<Longrightarrow>
     \<exists>x. wait_loop attempt show label (BoundedWait timeout deadline) last_r ts file = Some x"
proof (induction ts arbitrary: last_r "file")
  case (Cons t' ts)
  obtain r file' where a: "attempt (tk_env t') (tk_others t' file) = (r, file')" by force
  show ?case
  proof (cases "\<exists>e. r = Some (Inl e)")
    case True
    then obtain e where "r = Some (Inl e)" by blast
    with a Cons show ?thesis
      by (cases "after_failed_attempt show e label (BoundedWait timeout deadline) (tk_now t') last_r")
         (auto simp: after_failed_attempt_def split: if_splits)
  qed (use a in \<open>auto split: option.splits sum.splits\<close>)
qed simp

lemma wait_loop_zero:
  "wait_loop attempt show label (BoundedWait 0 deadline) last_r (t # ts) file =
     Some (attempt (tk_env t) (tk_others t file))"
  by (cases "attempt (tk_env t) (tk_others t file)")
     (auto simp: after_failed_attempt_def split: option.splits sum.splits)

lemma with_locked_error:
  assumes "fst (with_locked_ledger env relocks act file) = Some (Err e)"
  shows "(\<exists>kept. fst (act kept) = Err e) \<or> (\<exists>s. e = LedgerIo s) \<or> (\<exists>m. e = CorruptLedger m) \<or> (\<exists>m. e = Unreadable m)"
proof (cases rule: with_locked_cases [of env relocks act "file"])
  case (rewritten ledger kept p r)
  have "after_failed_write env relocks x e' = Some (Err e) \<Longrightarrow> e' = e" for x e'
    by (auto simp: after_failed_write_def split: sum.splits if_splits)
  with rewritten assms write_ledger_error show ?thesis by fastforce
qed (use assms in auto)

lemma with_locked_blocks:
  assumes "fst (with_locked_ledger env relocks act file) = None"
  shows "(\<exists>s. le_io env = Some s \<and> write_step s) \<and> le_reopens env"
proof (cases rule: with_locked_cases [of env relocks act "file"])
  case (rewritten ledger kept p r)
  have "after_failed_write env relocks x e = None \<Longrightarrow> le_reopens env" for x e
    by (auto simp: after_failed_write_def split: sum.splits if_splits)
  with rewritten assms write_ledger_error show ?thesis by fastforce
qed (use assms in auto)

lemma try_acquire_not_timed_out: "fst (try_acquire_lease cfg env rq file) \<noteq> Some (Err (TimedOut label w m))"
proof
  assume "fst (try_acquire_lease cfg env rq file) = Some (Err (TimedOut label w m))"
  then obtain kept where "fst (acquire_action cfg env rq kept) = Err (TimedOut label w m)"
    unfolding try_acquire_lease_def using with_locked_error by blast
  then show False by (auto simp: acquire_action_def Let_def split: if_splits sum.splits)
qed

lemma wait_loop_blocks:
  "wait_loop attempt show label wait last_r ts file = Some (None, file') \<Longrightarrow>
     \<exists>t \<in> set ts. \<exists>f. fst (attempt (tk_env t) f) = None"
proof (induction ts arbitrary: last_r "file")
  case (Cons t ts)
  obtain r f1 where a: "attempt (tk_env t) (tk_others t file) = (r, f1)" by force
  show ?case
  proof (cases "\<exists>e. r = Some (Inl e)")
    case True
    then obtain e where e: "r = Some (Inl e)" by blast
    obtain st last_r' where step: "after_failed_attempt show e label wait (tk_now t) last_r = (st, last_r')"
      by force
    with Cons.prems a e have "wait_loop attempt show label wait last_r' ts f1 = Some (None, file')"
      by (cases st) simp_all
    from Cons.IH [OF this] show ?thesis by auto
  next
    case False
    with Cons.prems a have "r = None" by (cases r) (auto split: sum.splits)
    with a have "fst (attempt (tk_env t) (tk_others t file)) = None" by simp
    then show ?thesis by auto
  qed
qed simp

lemma wait_loop_timed_out:
  assumes "\<And>env f l w m. fst (attempt env f) \<noteq> Some (Err (TimedOut l w m))"
  shows "wait_loop attempt show label (BoundedWait timeout d) last_r ts file = Some (Some (Err (TimedOut l w m)), file') \<Longrightarrow>
     0 < timeout \<and> w = timeout div 10 ^ 9 \<and> l = label \<and>
     (\<exists>n es. n < length ts \<and> d \<le> tk_now (ts ! n) \<and> (\<forall>i < n. tk_now (ts ! i) < d) \<and>
        length es = Suc n \<and> list_all retryable_error es \<and>
        take (Suc n) (wait_attempts attempt ts file) = map (\<lambda>e. Some (Err e)) es \<and>
        m = last (last_r # map show (butlast es)))"
proof (induction ts arbitrary: last_r "file")
  case (Cons t ts)
  obtain r0 f1 where a: "attempt (tk_env t) (tk_others t file) = (r0, f1)" by force
  from Cons.prems a obtain e where e: "r0 = Some (Inl e)" by (auto split: option.splits sum.splits)
  have other: "e \<noteq> TimedOut l w m" using assms [of "tk_env t" "tk_others t file" l w m] a e by auto
  let ?next = "after_failed_attempt show e label (BoundedWait timeout d) (tk_now t) last_r"
  show ?case
  proof (cases "retryable_error e \<and> 0 < timeout \<and> tk_now t < d")
    case True
    then have "?next = (RetryStep, show e)" by (simp add: after_failed_attempt_def)
    with Cons.prems a e have "wait_loop attempt show label (BoundedWait timeout d) (show e) ts f1 =
        Some (Some (Err (TimedOut l w m)), file')" by simp
    from Cons.IH [OF this] obtain n es where ih: "0 < timeout" "w = timeout div 10 ^ 9" "l = label"
      "n < length ts" "d \<le> tk_now (ts ! n)" "\<forall>i < n. tk_now (ts ! i) < d" "length es = Suc n"
      "list_all retryable_error es" "take (Suc n) (wait_attempts attempt ts f1) = map (\<lambda>e. Some (Err e)) es"
      "m = last (show e # map show (butlast es))" by blast
    from ih(7) have "butlast (e # es) = e # butlast es" by auto
    with ih a e True have "Suc n < length (t # ts) \<and> d \<le> tk_now ((t # ts) ! Suc n) \<and>
        (\<forall>i < Suc n. tk_now ((t # ts) ! i) < d) \<and> length (e # es) = Suc (Suc n) \<and>
        list_all retryable_error (e # es) \<and>
        take (Suc (Suc n)) (wait_attempts attempt (t # ts) file) = map (\<lambda>e. Some (Err e)) (e # es) \<and>
        m = last (last_r # map show (butlast (e # es)))"
      by (simp add: All_less_Suc2)
    with ih(1-3) show ?thesis by blast
  next
    case False
    with Cons.prems a e other have "retryable_error e \<and> 0 < timeout \<and> d \<le> tk_now t \<and>
        w = timeout div 10 ^ 9 \<and> l = label \<and> m = last_r"
      by (auto simp: after_failed_attempt_def split: if_splits)
    with a e show ?thesis by (intro conjI exI [of _ 0] exI [of _ "[e]"]) auto
  qed
qed simp



text \<open>
  A write that fails under a granted lease never returns: the lease is dropped with the ledger still
  locked, and its release waits for that lock. A request the host would have granted blocks its
  process (and, holding the lock, every other one), where the error was to be reported.
\<close>

lemma failed_write_blocks:
  assumes "read_ledger (le_range env) (le_message env) file = Ok ledger"
    and "prune_stale_leases env ledger = Ok (kept, p)" and "admits cfg env rq kept"
    and "le_io env = Some s" and "write_step s" and "le_reopens env"
  shows "fst (try_acquire_lease cfg env rq file) = None"
proof -
  have act: "acquire_action cfg env rq kept = (Ok (new_lease (le_new_id env)), kept @ [acquire_record env rq])"
    using acquire_action_admits [of cfg env rq kept] assms(3) by simp
  have "\<exists>e f. write_ledger env (kept @ [acquire_record env rq]) file = (Some e, f)"
    using assms(4,5) by (cases s) (simp_all add: write_ledger_def write_step_def)
  with assms act show ?thesis
    by (auto simp: try_acquire_lease_def with_locked_ledger_def write_step_def after_failed_write_def
        lease_relocks_def new_lease_def Let_def)
qed

subsection \<open>Queued waits\<close>

text \<open>
  The answers of the attempts of a queued wait, were it to go on through all its ticks; an attempt
  that does not return is the last.
\<close>

fun queue_attempts ::
    "host_memory_config \<Rightarrow> memory_lease_request \<Rightarrow> queue_tick list \<Rightarrow> ledger_file \<Rightarrow>
      (queued_lease_failure, host_memory_lease) result list" where
  "queue_attempts cfg rq [] file = []"
| "queue_attempts cfg rq (t # ts) file =
     (case qt_join_error t of
        Some j \<Rightarrow> Err (AttemptDidNotFinish j) # queue_attempts cfg rq ts (tk_others t file)
      | None \<Rightarrow>
          (let (r, file') = try_acquire_lease cfg (tk_env t) rq (tk_others t file)
           in case r of
                None \<Rightarrow> []
              | Some (Inl e) \<Rightarrow> Err (RefusedLease e) # queue_attempts cfg rq ts file'
              | Some (Inr l) \<Rightarrow> Ok l # queue_attempts cfg rq ts file'))"

fun keeps_waiting :: "(queued_lease_failure, 'a) result \<Rightarrow> bool" where
  "keeps_waiting (Inl (RefusedLease e)) = retryable_error e"
| "keeps_waiting (Inl (AttemptDidNotFinish j)) = False"
| "keeps_waiting (Inr l) = False"

lemma after_failed_queued:
  "after_failed_attempt show e label QueuedForever now last_r =
     (if retryable_error e then (RetryStep, show e) else (StopStep e, last_r))"
  by (simp add: after_failed_attempt_def)

lemma queue_loop_outcome:
  "fst (queue_loop cfg show rq report_every queued next_report last_r ts file) =
     find (\<lambda>r. \<not> keeps_waiting r) (queue_attempts cfg rq ts file)"
proof (induction ts arbitrary: queued next_report last_r "file")
  case (Cons t ts)
  then show ?case
    by (cases "qt_join_error t"; cases "try_acquire_lease cfg (tk_env t) rq (tk_others t file)")
       (auto simp: after_failed_queued Let_def split_beta split: option.splits sum.splits)
qed simp

lemma queue_loop_events:
  "fst (snd (queue_loop cfg show rq report_every queued next_report last_r ts file)) = evs \<Longrightarrow>
     count_list evs ToldQueued \<le> (if queued then 0 else 1) \<and>
     count_list evs ToldDequeued = (if queued then 1 else count_list evs ToldQueued) \<and>
     (evs = [] \<or> last evs = ToldDequeued)"
proof (induction ts arbitrary: queued next_report last_r "file" evs)
  case (Cons t ts)
  show ?case
  proof (cases "qt_join_error t")
    case None
    obtain r f1 where a: "try_acquire_lease cfg (tk_env t) rq (tk_others t file) = (r, f1)" by force
    show ?thesis
    proof (cases "\<exists>e. r = Some (Inl e)")
      case True
      then obtain e where Inl: "r = Some (Inl e)" by blast
      let ?next = "if tk_now t \<ge> next_report then next_report + report_every else next_report"
      let ?rest = "queue_loop cfg show rq report_every True ?next (show e) ts f1"
      obtain out evs' f2 where rest: "?rest = (out, evs', f2)" by (rule prod_cases3)
      have ih: "evs' \<noteq> [] \<and> last evs' = ToldDequeued \<and> count_list evs' ToldQueued = 0 \<and>
          count_list evs' ToldDequeued = 1"
        using Cons.IH [of True ?next "show e" f1 evs'] rest by auto
      show ?thesis
      proof (cases "retryable_error e")
        case True
        then have "evs = (if queued then [] else [LoggedWaiting (show e), ToldQueued]) @
            (if tk_now t \<ge> next_report then [WarnedWaiting (show e)] else []) @
            [case qt_reclaimed t of Retired \<Rightarrow> TriedAtOnce | NothingIdle \<Rightarrow> SleptPoll] @ evs'"
          using Cons.prems a Inl None rest by (simp add: after_failed_queued Let_def)
        with ih show ?thesis by (simp split: reclaimed.splits)
      next
        case False
        then have "evs = dequeue queued"
          using Cons.prems a Inl None by (simp add: after_failed_queued)
        then show ?thesis by (simp add: dequeue_def)
      qed
    qed (use Cons.prems a None in \<open>auto simp: dequeue_def split: option.splits sum.splits\<close>)
  qed (use Cons.prems in \<open>auto simp: dequeue_def\<close>)
qed (auto simp: dequeue_def)

text \<open>
  A queued wait is decided by the host alone. It returns with the first attempt that is not a
  retryable refusal (a grant, a refusal for good, an attempt that did not finish) and waits as long
  as there is none; it never times out. Its observer is told at most once that it queued and, however the
  wait ends or is dropped, exactly then and last that it stopped waiting.
\<close>

theorem queue_decided:
  "fst (queue_for_lease cfg show rq started ts file) =
     find (\<lambda>r. \<not> keeps_waiting r) (queue_attempts cfg rq ts file) \<and>
   fst (queue_for_lease cfg show rq started ts file) \<noteq> Some (Err (RefusedLease (TimedOut label w m))) \<and>
   (let evs = fst (snd (queue_for_lease cfg show rq started ts file))
    in count_list evs ToldQueued \<le> 1 \<and> count_list evs ToldDequeued = count_list evs ToldQueued \<and>
       (evs = [] \<or> last evs = ToldDequeued))"
proof -
  have "Err (RefusedLease (TimedOut label w m)) \<notin> set (queue_attempts cfg rq ts file)"
  proof (induction ts arbitrary: "file")
    case (Cons t ts)
    then show ?case
      using try_acquire_not_timed_out [of cfg "tk_env t" rq "tk_others t file" label w m]
      by (cases "qt_join_error t"; cases "try_acquire_lease cfg (tk_env t) rq (tk_others t file)")
         (auto split: option.splits sum.splits)
  qed simp
  then have "find (\<lambda>r. \<not> keeps_waiting r) (queue_attempts cfg rq ts file) \<noteq>
      Some (Err (RefusedLease (TimedOut label w m)))"
    by (auto simp: find_Some_iff)
  with queue_loop_events [OF refl, of cfg "show" rq QUEUED_LEASE_REPORT_INTERVAL False
      "started + QUEUED_LEASE_REPORT_INTERVAL" no_decision_yet ts "file"]
  show ?thesis by (simp add: queue_for_lease_def queue_loop_outcome Let_def)
qed

text \<open>
  Half-written ledgers. The rewrite truncates the file before it writes, so a failure in between
  leaves a blank file, which the next access reads as a host with no leases.
\<close>

theorem failed_rewrite_forgets:
  assumes "read_ledger (le_range env) (le_message env) file = Ok ledger"
    and "prune_stale_leases env ledger = Ok (kept, p)" and "le_io env = Some SeekStart"
  shows "release_internal env \<lparr>hl_id = i, hl_released = False\<rparr> file =
    (\<lparr>hl_id = i, hl_released = True\<rparr>, BlankLedger) \<and> read_ledger R m BlankLedger = Ok []"
  using assms
  by (simp add: release_internal_def with_locked_ledger_def write_ledger_def read_ledger_def Let_def)

text \<open>
  A memory reading is never older than the cache's lifetime, and a failed refresh is the caller's
  error rather than an older reading.
\<close>

lemma reading_never_stale:
  "case read_system_memory now raw read_at cache of
     (Inr s, cache') \<Rightarrow>
       (\<exists>taken. cache = CacheRead s taken \<and> cache' = cache \<and> now - taken < SNAPSHOT_TTL) \<or>
       refresh_read_system_memory raw = Ok s \<and> cache' = CacheRead s read_at
   | (Inl e, cache') \<Rightarrow> refresh_read_system_memory raw = Err e \<and> cache' = cache"
  by (auto simp: read_system_memory_def Let_def split: cached_snapshot.splits sum.splits)

end
