(* ===== verification/Fa_Timing.thy ===== *)
theory Fa_Timing
  imports Prelude
begin

text \<open>
  The timing vocabulary of forced alignment: milliseconds of a file, a request window and a
  duration (\<^verbatim>\<open>crates/batchalign/src/time.rs\<close>), the history of a number and its tally
  (\<^verbatim>\<open>chat_ops/fa/origin.rs\<close>), recordings, instants and request windows
  (\<^verbatim>\<open>chat_ops/fa/coordinates.rs\<close>), word spans and their faults (\<^verbatim>\<open>chat_ops/fa/timing.rs\<close>) and word
  timings (\<^verbatim>\<open>chat_ops/fa/mod.rs\<close>). Milliseconds are 64-bit words: a sum wraps as it does in the
  released build. Values the code builds through one gate only (a window inside its recording,
  an instant inside its recording, a timing of positive extent) are records with a
  well-formedness predicate that every constructor is shown to establish.
  Not here: the textual forms, and the interval refusals of the UTR path.
\<close>

named_theorems fa_simps \<open>unfolding of the forced-alignment vocabulary\<close>

subsection \<open>Milliseconds\<close>

type_synonym ms = u64
type_synonym file_ms = u64
type_synonym window_ms = u64

definition u64_sat_sub :: "u64 \<Rightarrow> u64 \<Rightarrow> u64" where
  "u64_sat_sub a b = (if b \<le> a then a - b else 0)"

definition u64_sat_add :: "u64 \<Rightarrow> u64 \<Rightarrow> u64" where
  "u64_sat_add a b = (if unat a + unat b < 2 ^ 64 then a + b else - 1)"

definition since :: "file_ms \<Rightarrow> file_ms \<Rightarrow> ms" where
  "since later earlier = u64_sat_sub later earlier"

lemma unat_sat_sub [fa_simps]: "unat (u64_sat_sub a b) = unat a - unat b"
  by (auto simp: u64_sat_sub_def word_le_nat_alt unat_sub)

lemma unat_sat_add [fa_simps]: "unat (u64_sat_add a b) = min (unat a + unat b) (2 ^ 64 - 1)"
  by (auto simp: u64_sat_add_def unat_word_ariths)

lemma unat_since [fa_simps]: "unat (since a b) = unat a - unat b"
  by (simp add: since_def unat_sat_sub)

lemma unat_add_bounded:
  fixes a b c :: u64
  assumes "unat a + unat b \<le> unat c"
  shows "unat (a + b) = unat a + unat b"
  using assms unat_u64_bound [of c] by (simp add: unat_word_ariths)

subsection \<open>Where a number came from\<close>

datatype clamp_bound = RecordingEnd | RequestEnd | RequestStart | UtteranceBullet | NextOnset

record char_edits =
  transcript_only :: nat
  label_only :: nat

definition CharEdits_ZERO :: char_edits where
  "CharEdits_ZERO = \<lparr>transcript_only = 0, label_only = 0\<rparr>"

definition is_exact :: "char_edits \<Rightarrow> bool" where
  "is_exact e \<longleftrightarrow> transcript_only e = 0 \<and> label_only e = 0"

datatype origin =
    EngineMeasured string
  | TranscriptBullet
  | ClampedTo clamp_bound origin file_ms ms
  | RebalancedWithNeighbour origin file_ms
  | InheritedFromNeighbour file_ms
  | MergedFromParts nat
  | DerivedFromNextOnset
  | FallbackDuration ms
  | AttributedByCharAlignment origin char_edits

datatype origin_kind = Observed | Derived | Assumed | Adjusted

fun origin_kind_of :: "origin \<Rightarrow> origin_kind" where
  "origin_kind_of (EngineMeasured _) = Observed"
| "origin_kind_of TranscriptBullet = Observed"
| "origin_kind_of DerivedFromNextOnset = Derived"
| "origin_kind_of (InheritedFromNeighbour _) = Derived"
| "origin_kind_of (MergedFromParts _) = Derived"
| "origin_kind_of (FallbackDuration _) = Assumed"
| "origin_kind_of (AttributedByCharAlignment _ _) = Assumed"
| "origin_kind_of (ClampedTo _ _ _ _) = Adjusted"
| "origin_kind_of (RebalancedWithNeighbour _ _) = Adjusted"

definition is_observation :: "origin \<Rightarrow> bool" where
  "is_observation origin = (origin_kind_of origin = Observed)"

fun origin_was :: "origin \<Rightarrow> origin option" where
  "origin_was (ClampedTo _ w _ _) = Some w"
| "origin_was (RebalancedWithNeighbour w _) = Some w"
| "origin_was (AttributedByCharAlignment w _) = Some w"
| "origin_was _ = None"

lemma origin_was_size: "origin_was x = Some w \<Longrightarrow> size w < size x"
  by (cases x) auto

function origin_chain :: "origin \<Rightarrow> origin list" where
  "origin_chain x = x # (case origin_was x of Some w \<Rightarrow> origin_chain w | None \<Rightarrow> [])"
  by pat_completeness auto
termination by (relation "measure size") (auto simp: origin_was_size)

declare origin_chain.simps [simp del]

lemma origin_chain_eval [simp]:
  "origin_chain (EngineMeasured name) = [EngineMeasured name]"
  "origin_chain TranscriptBullet = [TranscriptBullet]"
  "origin_chain (ClampedTo b w p q) = ClampedTo b w p q # origin_chain w"
  "origin_chain (RebalancedWithNeighbour w p) = RebalancedWithNeighbour w p # origin_chain w"
  "origin_chain (InheritedFromNeighbour p) = [InheritedFromNeighbour p]"
  "origin_chain (MergedFromParts n) = [MergedFromParts n]"
  "origin_chain DerivedFromNextOnset = [DerivedFromNextOnset]"
  "origin_chain (FallbackDuration p) = [FallbackDuration p]"
  "origin_chain (AttributedByCharAlignment w e) = AttributedByCharAlignment w e # origin_chain w"
  by (simp_all add: origin_chain.simps)

definition underlying :: "origin \<Rightarrow> origin" where
  "underlying x = fold (\<lambda>o' _. o') (origin_chain x) x"

fun is_recording_clamp :: "origin \<Rightarrow> bool" where
  "is_recording_clamp (ClampedTo RecordingEnd _ _ _) = True"
| "is_recording_clamp _ = False"

definition origin_overran_recording :: "origin \<Rightarrow> bool" where
  "origin_overran_recording x = list_ex is_recording_clamp (origin_chain x)"

fun is_attribution :: "origin \<Rightarrow> bool" where
  "is_attribution (AttributedByCharAlignment _ _) = True"
| "is_attribution _ = False"

definition attributed_by_alignment :: "origin \<Rightarrow> bool" where
  "attributed_by_alignment x = list_ex is_attribution (origin_chain x)"

record provenance_tally =
  tl_observed :: nat
  tl_derived :: nat
  tl_assumed :: nat
  tl_adjusted :: nat
  tl_overran_recording :: nat
  tl_attributed :: nat

definition empty_tally :: provenance_tally where
  "empty_tally = \<lparr>tl_observed = 0, tl_derived = 0, tl_assumed = 0, tl_adjusted = 0,
     tl_overran_recording = 0, tl_attributed = 0\<rparr>"

definition tally_record :: "provenance_tally \<Rightarrow> origin \<Rightarrow> provenance_tally" where
  "tally_record t origin =
     (let t = (case origin_kind_of origin of
                 Observed \<Rightarrow> t\<lparr>tl_observed := tl_observed t + 1\<rparr>
               | Derived \<Rightarrow> t\<lparr>tl_derived := tl_derived t + 1\<rparr>
               | Assumed \<Rightarrow> t\<lparr>tl_assumed := tl_assumed t + 1\<rparr>
               | Adjusted \<Rightarrow> t\<lparr>tl_adjusted := tl_adjusted t + 1\<rparr>);
          t = (if origin_overran_recording origin
               then t\<lparr>tl_overran_recording := tl_overran_recording t + 1\<rparr> else t)
      in if attributed_by_alignment origin then t\<lparr>tl_attributed := tl_attributed t + 1\<rparr> else t)"

definition tally_total :: "provenance_tally \<Rightarrow> nat" where
  "tally_total t = tl_observed t + tl_derived t + tl_assumed t + tl_adjusted t"

definition any_not_observed :: "provenance_tally \<Rightarrow> bool" where
  "any_not_observed t \<longleftrightarrow> tally_total t > tl_observed t"

definition needs_review :: "provenance_tally \<Rightarrow> bool" where
  "needs_review t \<longleftrightarrow> tl_assumed t > 0 \<or> tl_attributed t > 0 \<or> tl_overran_recording t > 0"

subsection \<open>Recordings, instants and request windows\<close>

datatype 'a clamped = AsGiven 'a | ClampedBound 'a

fun clamped_value :: "'a clamped \<Rightarrow> 'a" where
  "clamped_value (AsGiven v) = v"
| "clamped_value (ClampedBound v) = v"

record recording =
  rec_duration :: file_ms

record recorded_instant =
  ri_at :: file_ms
  ri_recording :: recording
  ri_origin :: origin

datatype containment = Inside recorded_instant | Beyond file_ms ms origin

definition overshoot_of :: "recording \<Rightarrow> file_ms \<Rightarrow> ms option" where
  "overshoot_of r t = (if t \<le> rec_duration r then None else Some (since t (rec_duration r)))"

definition recording_clamp_bound :: "recording \<Rightarrow> file_ms \<Rightarrow> file_ms clamped" where
  "recording_clamp_bound r t =
     (case overshoot_of r t of None \<Rightarrow> AsGiven t | Some _ \<Rightarrow> ClampedBound (rec_duration r))"

definition locate :: "recording \<Rightarrow> file_ms \<Rightarrow> origin \<Rightarrow> containment" where
  "locate r t origin =
     (if t \<le> rec_duration r then Inside \<lparr>ri_at = t, ri_recording = r, ri_origin = origin\<rparr>
      else Beyond t (since t (rec_duration r)) origin)"

definition recording_clamp :: "recording \<Rightarrow> file_ms \<Rightarrow> origin \<Rightarrow> recorded_instant clamped" where
  "recording_clamp r t origin =
     (case locate r t origin of
        Inside i \<Rightarrow> AsGiven i
      | Beyond reported exceeds_by origin' \<Rightarrow>
          ClampedBound \<lparr>ri_at = rec_duration r, ri_recording = r,
            ri_origin = ClampedTo RecordingEnd origin' reported exceeds_by\<rparr>)"

definition relabelled :: "recorded_instant \<Rightarrow> origin \<Rightarrow> recorded_instant" where
  "relabelled i origin = \<lparr>ri_at = ri_at i, ri_recording = ri_recording i, ri_origin = origin\<rparr>"

datatype window_fault =
    WindowInverted file_ms file_ms
  | WindowEmpty file_ms
  | PastRecording file_ms ms

datatype outside_window = BeyondWindowEnd window_ms ms ms

record fa_window =
  fw_start :: file_ms
  fw_end :: file_ms
  fw_recording :: recording

definition window_within :: "recording \<Rightarrow> file_ms \<Rightarrow> file_ms \<Rightarrow> (window_fault, fa_window) result" where
  "window_within r start e =
     (if start > e then Err (WindowInverted start e)
      else if start = e then Err (WindowEmpty start)
      else case overshoot_of r e of
             Some exceeds_by \<Rightarrow> Err (PastRecording e exceeds_by)
           | None \<Rightarrow> Ok \<lparr>fw_start = start, fw_end = e, fw_recording = r\<rparr>)"

definition extend_by :: "fa_window \<Rightarrow> ms \<Rightarrow> fa_window" where
  "extend_by w extension =
     w\<lparr>fw_end := min (u64_sat_add (fw_end w) extension) (rec_duration (fw_recording w))\<rparr>"

definition window_split_at :: "fa_window \<Rightarrow> file_ms \<Rightarrow> (fa_window, fa_window \<times> fa_window) result" where
  "window_split_at w t =
     (if fw_start w < t \<and> t < fw_end w then Ok (w\<lparr>fw_end := t\<rparr>, w\<lparr>fw_start := t\<rparr>) else Err w)"

definition window_len :: "fa_window \<Rightarrow> ms" where
  "window_len w = since (fw_end w) (fw_start w)"

definition clamp_derived_end :: "fa_window \<Rightarrow> file_ms \<Rightarrow> origin \<Rightarrow> recorded_instant clamped" where
  "clamp_derived_end w t origin =
     (if t > fw_end w
      then ClampedBound \<lparr>ri_at = fw_end w, ri_recording = fw_recording w,
             ri_origin = ClampedTo RequestEnd origin t (since t (fw_end w))\<rparr>
      else recording_clamp (fw_recording w) t origin)"

definition to_file :: "fa_window \<Rightarrow> window_ms \<Rightarrow> string \<Rightarrow> (outside_window, recorded_instant) result" where
  "to_file w reported engine =
     (if reported > window_len w
      then Err (BeyondWindowEnd reported (window_len w) (reported - window_len w))
      else case locate (fw_recording w) (fw_start w + reported) (EngineMeasured engine) of
             Inside i \<Rightarrow> Ok i
           | Beyond _ exceeds_by _ \<Rightarrow> Err (BeyondWindowEnd reported (window_len w) exceeds_by))"

subsection \<open>Word spans\<close>

datatype span_fault = SpanInverted file_ms file_ms | NoExtent file_ms

record word_span =
  ws_start :: recorded_instant
  ws_end :: recorded_instant

definition span_between :: "recorded_instant \<Rightarrow> recorded_instant \<Rightarrow> (span_fault, word_span) result" where
  "span_between start e =
     (if ri_at e > ri_at start then Ok \<lparr>ws_start = start, ws_end = e\<rparr>
      else if ri_at e = ri_at start then Err (NoExtent (ri_at start))
      else Err (SpanInverted (ri_at start) (ri_at e)))"

definition span_measured :: "recorded_instant \<Rightarrow> recorded_instant \<Rightarrow> (span_fault, word_span) result" where
  "span_measured start e = span_between start e"

definition end_from_next_onset ::
    "recorded_instant \<Rightarrow> recorded_instant \<Rightarrow> (span_fault, word_span) result" where
  "end_from_next_onset start next_onset = span_between start (relabelled next_onset DerivedFromNextOnset)"

definition end_assumed ::
    "recorded_instant \<Rightarrow> ms \<Rightarrow> fa_window \<Rightarrow> (span_fault, word_span clamped) result" where
  "end_assumed start assumed w =
     (case clamp_derived_end w (ri_at start + assumed) (FallbackDuration assumed) of
        AsGiven e \<Rightarrow> map_sum id AsGiven (span_between start e)
      | ClampedBound e \<Rightarrow> map_sum id ClampedBound (span_between start e))"

record span_rejections =
  sr_no_extent :: nat
  sr_inverted :: nat
  sr_outside_window :: nat
  sr_worst_overshoot :: ms
  sr_inadmissible :: nat

definition no_rejections :: span_rejections where
  "no_rejections = \<lparr>sr_no_extent = 0, sr_inverted = 0, sr_outside_window = 0, sr_worst_overshoot = 0,
     sr_inadmissible = 0\<rparr>"

definition record_span_fault :: "span_rejections \<Rightarrow> span_fault \<Rightarrow> span_rejections" where
  "record_span_fault r fault =
     (case fault of
        NoExtent _ \<Rightarrow> r\<lparr>sr_no_extent := sr_no_extent r + 1\<rparr>
      | SpanInverted _ _ \<Rightarrow> r\<lparr>sr_inverted := sr_inverted r + 1\<rparr>)"

definition record_outside :: "span_rejections \<Rightarrow> outside_window \<Rightarrow> span_rejections" where
  "record_outside r fault =
     (case fault of BeyondWindowEnd _ _ exceeds_by \<Rightarrow>
        r\<lparr>sr_outside_window := sr_outside_window r + 1,
          sr_worst_overshoot := max (sr_worst_overshoot r) exceeds_by\<rparr>)"

definition rejections_total :: "span_rejections \<Rightarrow> nat" where
  "rejections_total r = sr_no_extent r + sr_inverted r + sr_outside_window r + sr_inadmissible r"

definition rejections_outside_window :: "span_rejections \<Rightarrow> bool" where
  "rejections_outside_window r \<longleftrightarrow> sr_outside_window r > 0"

subsection \<open>Word timings\<close>

definition LAST_WORD_FALLBACK_MS :: ms where "LAST_WORD_FALLBACK_MS = 500"

record time_span =
  ts_start_ms :: u64
  ts_end_ms :: u64

definition duration_ms :: "time_span \<Rightarrow> u64" where
  "duration_ms s = u64_sat_sub (ts_end_ms s) (ts_start_ms s)"

type_synonym model_alignment_score = u32

definition score_from_millionths :: "u32 \<Rightarrow> (u32, model_alignment_score) result" where
  "score_from_millionths millionths = (if millionths \<le> 1000000 then Ok millionths else Err millionths)"

record word_timing =
  wt_span :: time_span
  wt_request_window :: "fa_window option"
  wt_model_score :: "model_alignment_score option"
  wt_start_origin :: origin
  wt_end_origin :: origin

definition word_timing_new :: "u64 \<Rightarrow> u64 \<Rightarrow> origin \<Rightarrow> origin \<Rightarrow> word_timing option" where
  "word_timing_new start_ms end_ms start_origin end_origin =
     (if end_ms > start_ms
      then Some \<lparr>wt_span = \<lparr>ts_start_ms = start_ms, ts_end_ms = end_ms\<rparr>, wt_request_window = None,
             wt_model_score = None, wt_start_origin = start_origin, wt_end_origin = end_origin\<rparr>
      else None)"

definition bind_request :: "word_timing \<Rightarrow> fa_window \<Rightarrow> (word_timing, word_timing) result" where
  "bind_request t w =
     (if ts_start_ms (wt_span t) < fw_start w \<or> ts_end_ms (wt_span t) > fw_end w then Err t
      else Ok (t\<lparr>wt_request_window := Some w\<rparr>))"

definition with_model_score :: "model_alignment_score \<Rightarrow> word_timing \<Rightarrow> word_timing" where
  "with_model_score score t = t\<lparr>wt_model_score := Some score\<rparr>"

datatype degenerate_word_timing = DegenerateWordTiming u64 u64

definition timing_from_transcript :: "time_span \<Rightarrow> (degenerate_word_timing, word_timing) result" where
  "timing_from_transcript s =
     (case word_timing_new (ts_start_ms s) (ts_end_ms s) TranscriptBullet TranscriptBullet of
        Some t \<Rightarrow> Ok t | None \<Rightarrow> Err (DegenerateWordTiming (ts_start_ms s) (ts_end_ms s)))"

record word_timing_wire =
  ww_span :: time_span
  ww_model_score :: "model_alignment_score option"
  ww_start_origin :: origin
  ww_end_origin :: origin

definition timing_into_wire :: "word_timing \<Rightarrow> word_timing_wire" where
  "timing_into_wire t =
     \<lparr>ww_span = wt_span t, ww_model_score = wt_model_score t,
      ww_start_origin = wt_start_origin t, ww_end_origin = wt_end_origin t\<rparr>"

definition timing_from_wire :: "word_timing_wire \<Rightarrow> (degenerate_word_timing, word_timing) result" where
  "timing_from_wire w =
     (case word_timing_new (ts_start_ms (ww_span w)) (ts_end_ms (ww_span w)) (ww_start_origin w)
             (ww_end_origin w) of
        Some t \<Rightarrow> Ok (t\<lparr>wt_model_score := ww_model_score w\<rparr>)
      | None \<Rightarrow> Err (DegenerateWordTiming (ts_start_ms (ww_span w)) (ts_end_ms (ww_span w))))"

subsection \<open>What the constructors establish\<close>

definition window_wf :: "fa_window \<Rightarrow> bool" where
  "window_wf w \<longleftrightarrow> fw_start w < fw_end w \<and> fw_end w \<le> rec_duration (fw_recording w)"

definition instant_in :: "fa_window \<Rightarrow> recorded_instant \<Rightarrow> bool" where
  "instant_in w i \<longleftrightarrow> fw_start w \<le> ri_at i \<and> ri_at i \<le> fw_end w \<and> ri_recording i = fw_recording w"

definition timing_wf :: "word_timing \<Rightarrow> bool" where
  "timing_wf t \<longleftrightarrow> ts_start_ms (wt_span t) < ts_end_ms (wt_span t)"

lemma window_within_Ok_iff:
  "window_within r s e = Ok w \<longleftrightarrow> w = \<lparr>fw_start = s, fw_end = e, fw_recording = r\<rparr> \<and> window_wf w"
  by (auto simp: window_within_def window_wf_def overshoot_of_def)

lemma extend_by_wf: "window_wf w \<Longrightarrow> window_wf (extend_by w x) \<and> fw_end w \<le> fw_end (extend_by w x)"
proof -
  assume wf: "window_wf w"
  have "fw_end w \<le> u64_sat_add (fw_end w) x"
    using unat_u64_bound [of "fw_end w"] by (auto simp: word_le_nat_alt unat_sat_add)
  with wf show ?thesis
    by (auto simp: window_wf_def extend_by_def)
qed

lemma window_split_wf:
  "window_wf w \<Longrightarrow> window_split_at w t = Ok (a, b) \<Longrightarrow>
     window_wf a \<and> window_wf b \<and> fw_start a = fw_start w \<and> fw_end a = fw_start b \<and> fw_end b = fw_end w"
  by (auto simp: window_split_at_def window_wf_def split: if_splits)

lemma window_offset:
  assumes "window_wf w" and "reported \<le> window_len w"
  shows "unat (fw_start w + reported) = unat (fw_start w) + unat reported"
    and "unat (fw_start w) + unat reported \<le> unat (fw_end w)"
proof -
  from assms(2) have "unat reported \<le> unat (fw_end w) - unat (fw_start w)"
    by (simp add: word_le_nat_alt window_len_def unat_since)
  with assms(1) show le: "unat (fw_start w) + unat reported \<le> unat (fw_end w)"
    by (auto simp: window_wf_def word_less_nat_alt)
  show "unat (fw_start w + reported) = unat (fw_start w) + unat reported"
    by (rule unat_add_bounded [OF le])
qed

lemma to_file_cases:
  assumes "window_wf w"
  shows "to_file w reported engine =
    (if reported \<le> window_len w
     then Ok \<lparr>ri_at = fw_start w + reported, ri_recording = fw_recording w, ri_origin = EngineMeasured engine\<rparr>
     else Err (BeyondWindowEnd reported (window_len w) (reported - window_len w)))"
proof (cases "reported \<le> window_len w")
  case True
  from window_offset [OF assms True] assms
  have "fw_start w + reported \<le> rec_duration (fw_recording w)"
    by (simp add: word_le_nat_alt window_wf_def)
  with True show ?thesis by (simp add: to_file_def locate_def not_le)
qed (simp add: to_file_def not_le)

lemma to_file_in:
  assumes "window_wf w" and "to_file w reported engine = Ok i"
  shows "instant_in w i"
  using assms window_offset [OF assms(1), of reported]
  by (auto simp: to_file_cases instant_in_def word_le_nat_alt split: if_splits)

lemma span_between_Ok_iff:
  "span_between s e = Ok p \<longleftrightarrow> ri_at s < ri_at e \<and> p = \<lparr>ws_start = s, ws_end = e\<rparr>"
  by (auto simp: span_between_def)

lemma clamp_derived_end_in:
  assumes "window_wf w" and "fw_start w \<le> t"
  shows "instant_in w (clamped_value (clamp_derived_end w t x))"
  using assms order.trans [of t "fw_end w" "rec_duration (fw_recording w)"]
  by (auto simp: clamp_derived_end_def recording_clamp_def locate_def instant_in_def window_wf_def
      intro: order.strict_implies_order)

lemma end_from_next_onset_Ok:
  assumes "end_from_next_onset s n = Ok p"
  shows "ws_start p = s \<and> ri_at (ws_end p) = ri_at n \<and> ri_recording (ws_end p) = ri_recording n \<and>
    ri_origin (ws_end p) = DerivedFromNextOnset \<and> ri_at s < ri_at n"
  using assms by (auto simp: end_from_next_onset_def span_between_Ok_iff relabelled_def)

lemma underlying_chain: "underlying x = last (origin_chain x)"
proof -
  have "fold (\<lambda>o' _. o') xs x = (if xs = [] then x else last xs)" for xs and x :: origin
    by (induction xs arbitrary: x) auto
  moreover have "origin_chain x \<noteq> []" by (simp add: origin_chain.simps)
  ultimately show ?thesis by (simp add: underlying_def)
qed

lemma underlying_clamped [simp]: "underlying (ClampedTo b w p q) = underlying w"
  by (simp add: underlying_chain) (simp add: origin_chain.simps)

lemma clamp_derived_end_at:
  "fw_end w \<le> rec_duration (fw_recording w) \<Longrightarrow>
     ri_at (clamped_value (clamp_derived_end w t x)) = min t (fw_end w) \<and>
     underlying (ri_origin (clamped_value (clamp_derived_end w t x))) = underlying x"
  by (auto simp: clamp_derived_end_def recording_clamp_def locate_def min_def)

lemma clamped_map_value:
  "(case c of AsGiven e \<Rightarrow> map_sum id AsGiven (g e) | ClampedBound e \<Rightarrow> map_sum id ClampedBound (g e)) = Ok q
   \<Longrightarrow> g (clamped_value c) = Ok (clamped_value q)"
  by (cases c; cases "g (clamped_value c)") auto

lemma end_assumed_Ok:
  assumes "window_wf w" and "instant_in w s" and "end_assumed s assumed w = Ok c"
  shows "ws_start (clamped_value c) = s \<and> ri_at s < ri_at (ws_end (clamped_value c)) \<and>
    instant_in w (ws_end (clamped_value c))"
proof -
  let ?e = "clamped_value (clamp_derived_end w (ri_at s + assumed) (FallbackDuration assumed))"
  from assms(3) have "span_between s ?e = Ok (clamped_value c)"
    unfolding end_assumed_def by (rule clamped_map_value)
  then have p: "clamped_value c = \<lparr>ws_start = s, ws_end = ?e\<rparr>" "ri_at s < ri_at ?e"
    by (auto simp: span_between_Ok_iff)
  have at: "ri_at ?e = min (ri_at s + assumed) (fw_end w)"
    using assms(1) by (simp add: clamp_derived_end_at window_wf_def)
  then have "fw_start w \<le> ri_at s + assumed"
    using p(2) assms(2) by (auto simp: instant_in_def)
  from clamp_derived_end_in [OF assms(1) this] p show ?thesis by simp
qed

lemma word_timing_new_Some_iff:
  "word_timing_new s e so eo = Some t \<longleftrightarrow>
     s < e \<and> t = \<lparr>wt_span = \<lparr>ts_start_ms = s, ts_end_ms = e\<rparr>, wt_request_window = None,
       wt_model_score = None, wt_start_origin = so, wt_end_origin = eo\<rparr>"
  by (auto simp: word_timing_new_def)

text \<open>
  A stored timing comes back. Reading what a timing of positive extent writes gives the timing less
  its request window, which is not stored; a stored span without extent is refused.
\<close>

lemma timing_wire_roundtrip:
  "timing_from_wire (timing_into_wire t) =
     (if timing_wf t then Ok (t\<lparr>wt_request_window := None\<rparr>)
      else Err (DegenerateWordTiming (ts_start_ms (wt_span t)) (ts_end_ms (wt_span t))))"
  by (cases t) (auto simp: timing_from_wire_def timing_into_wire_def word_timing_new_def timing_wf_def)

lemma tally_record_counts:
  "tally_total (tally_record t x) = tally_total t + 1"
  "needs_review (tally_record t x) \<longleftrightarrow>
     needs_review t \<or> origin_kind_of x = Assumed \<or> attributed_by_alignment x \<or> origin_overran_recording x"
  by (auto simp: tally_record_def Let_def tally_total_def needs_review_def split: origin_kind.splits)

lemma tally_fold:
  "tally_total (fold (\<lambda>x t. tally_record t x) xs t) = tally_total t + length xs \<and>
   (needs_review (fold (\<lambda>x t. tally_record t x) xs t) \<longleftrightarrow>
      needs_review t \<or> (\<exists>x \<in> set xs. origin_kind_of x = Assumed \<or> attributed_by_alignment x \<or>
        origin_overran_recording x))"
  by (induction xs arbitrary: t) (auto simp: tally_record_counts)

text \<open>
  C38. What an engine reports is placed inside the audio it was given or refused with the exact
  excess. In a window of a recording, a reported position is accepted exactly when it is at most the
  window's length; it is then the start of the window plus the report, without wrap-around,
  inside window and recording, and marked as measured by that engine.
\<close>

theorem window_report_exact:
  assumes "window_within r s e = Ok w"
  shows "case to_file w reported engine of
      Ok i \<Rightarrow> unat reported \<le> unat e - unat s \<and> unat (ri_at i) = unat s + unat reported \<and>
        ri_at i \<le> e \<and> ri_at i \<le> rec_duration r \<and> ri_recording i = r \<and> ri_origin i = EngineMeasured engine
    | Err (BeyondWindowEnd rep len excess) \<Rightarrow> rep = reported \<and> unat len = unat e - unat s \<and>
        unat reported = unat len + unat excess \<and> 0 < excess"
proof -
  note w = conjunct1 [OF assms [unfolded window_within_Ok_iff]]
    and wf = conjunct2 [OF assms [unfolded window_within_Ok_iff]]
  have len: "unat (window_len w) = unat e - unat s" by (simp add: w window_len_def unat_since)
  show ?thesis
  proof (cases "reported \<le> window_len w")
    case True
    from window_offset [OF wf True] True wf show ?thesis
      by (simp add: to_file_cases [OF wf] len [symmetric] word_le_nat_alt) (simp add: w window_wf_def word_le_nat_alt)
  next
    case False
    then show ?thesis
      by (simp add: to_file_cases [OF wf] len [symmetric] word_le_nat_alt word_less_nat_alt unat_sub)
  qed
qed

theorem window_report_exact_witness:
  "\<exists>w. window_within \<lparr>rec_duration = 1259968\<rparr> 1255165 1259968 = Ok w \<and>
     (case to_file w 33020 ''whisper'' of
        Ok i \<Rightarrow> False
      | Err (BeyondWindowEnd rep len excess) \<Rightarrow> rep = 33020 \<and> unat len = 4803 \<and> unat excess = 28217)"
proof -
  let ?r = "\<lparr>rec_duration = 1259968\<rparr>" and ?w = "\<lparr>fw_start = 1255165, fw_end = 1259968, fw_recording = \<lparr>rec_duration = 1259968\<rparr>\<rparr>"
  have w: "window_within ?r 1255165 1259968 = Ok ?w"
    by (simp add: window_within_Ok_iff window_wf_def)
  with window_report_exact [OF w, of 33020 "''whisper''"]
  show ?thesis by (intro exI [of _ ?w]) (auto split: sum.splits outside_window.splits)
qed

end
