(* ===== verification/Fa_Labels.thy ===== *)
theory Fa_Labels
  imports Fa_Timing Btree_Map Dp_Align "HOL-Library.Sublist"
begin

text \<open>
  From an engine's answer to word timings (\<^verbatim>\<open>crates/batchalign/src/chat_ops/fa/alignment.rs\<close>,
  \<^verbatim>\<open>alignment/token_map.rs\<close>, \<^verbatim>\<open>alignment/residue.rs\<close>). An engine that reports word intervals is
  checked against its window; an engine that reports labels with onsets has them stitched to the
  words in order, and what the stitch cannot spell is attributed by a character alignment
  (\<^verbatim>\<open>align_chars\<close> of \<^verbatim>\<open>Dp_Align\<close>), each label to one word. A \<^verbatim>\<open>String\<close> is the list of its code points,
  with byte lengths where the code counts bytes. Taken from outside: the Unicode tables, the
  conversions from floating point (\<^verbatim>\<open>fa_ops\<close>). Not here: the log lines themselves, JSON.
\<close>

subsection \<open>Text\<close>

type_synonym text_chars = "rust_char list"

record 'f fa_ops =
  fo_to_lowercase :: "rust_char \<Rightarrow> text_chars"
  fo_nfc :: "text_chars \<Rightarrow> text_chars"
  fo_is_alphanumeric :: "rust_char \<Rightarrow> bool"
  fo_whole_millis :: "'f \<Rightarrow> u64"
  fo_model_score :: "'f \<Rightarrow> model_alignment_score option"

definition len_utf8 :: "text_chars \<Rightarrow> nat" where
  "len_utf8 cs = sum_list (map (\<lambda>c. length (char_to_key c)) cs)"

text \<open>\<^verbatim>\<open>str::get(n..)\<close>: the text from byte \<open>n\<close> on, if \<open>n\<close> is a character boundary.\<close>

fun get_from :: "text_chars \<Rightarrow> nat \<Rightarrow> text_chars option" where
  "get_from [] n = (if n = 0 then Some [] else None)"
| "get_from (c # cs) n =
     (if n = 0 then Some (c # cs)
      else let w = length (char_to_key c) in if n < w then None else get_from cs (n - w))"

definition is_whitespace :: "rust_char \<Rightarrow> bool" where
  "is_whitespace c \<longleftrightarrow> (9 \<le> c \<and> c \<le> 13) \<or> c \<in> {0x20, 0x85, 0xA0, 0x1680} \<or> (0x2000 \<le> c \<and> c \<le> 0x200A) \<or>
     c \<in> {0x2028, 0x2029, 0x202F, 0x205F, 0x3000}"

definition trim_text :: "text_chars \<Rightarrow> text_chars" where
  "trim_text cs = rev (dropWhile is_whitespace (rev (dropWhile is_whitespace cs)))"

definition normalize_fa_alignment_unit :: "'f fa_ops \<Rightarrow> text_chars \<Rightarrow> text_chars" where
  "normalize_fa_alignment_unit F text =
     filter (fo_is_alphanumeric F) (fo_nfc F (concat (map (fo_to_lowercase F) text)))"

subsection \<open>Words, labels and outcomes\<close>

record fa_word =
  fd_utterance_index :: nat
  fd_utterance_word_index :: nat
  fd_text :: text_chars


record 'f fa_raw_token =
  rt_text :: text_chars
  rt_time_s :: 'f

record 'f fa_indexed_timing =
  it_start_ms :: u64
  it_end_ms :: u64
  it_confidence :: "'f option"

datatype 'f fa_raw_response =
    IndexedWordLevel "'f fa_indexed_timing option list"
  | TokenLevel "'f fa_raw_token list"

type_synonym word_slot = nat
type_synonym label_slot = nat

record label_run =
  run_first :: label_slot
  run_last :: label_slot

definition run_through :: "label_slot \<Rightarrow> label_slot \<Rightarrow> label_run option" where
  "run_through first_l last_l =
     (if last_l \<ge> first_l then Some \<lparr>run_first = first_l, run_last = last_l\<rparr> else None)"

definition run_after :: "label_run \<Rightarrow> label_slot" where
  "run_after run = run_last run + 1"

datatype untimed_reason =
    NoTimingFromHost
  | ReportedOutsideWindow outside_window
  | NoLexicalContent
  | NoUsableLabels
  | NoLabelSpan
  | SpanRefused span_fault
  | TimingRefusedProvenSpan
  | ResidueTooLongToAlign nat nat nat
  | NonMonotoneAttribution

datatype word_timing_outcome =
    Timed word_timing char_edits
  | Untimed untimed_reason

record attribution =
  at_run :: label_run
  at_edits :: char_edits

record discarded_timings =
  dt_labels_rejected :: span_rejections
  dt_assumed_then_clamped :: nat
  dt_invalid_model_score :: nat

definition no_discards :: discarded_timings where
  "no_discards = \<lparr>dt_labels_rejected = no_rejections, dt_assumed_then_clamped = 0, dt_invalid_model_score = 0\<rparr>"

definition discard_outside :: "discarded_timings \<Rightarrow> outside_window \<Rightarrow> discarded_timings" where
  "discard_outside d fault = d\<lparr>dt_labels_rejected := record_outside (dt_labels_rejected d) fault\<rparr>"

definition note_clamp :: "discarded_timings \<Rightarrow> 'a clamped \<Rightarrow> discarded_timings" where
  "note_clamp d c =
     (case c of AsGiven _ \<Rightarrow> d
      | ClampedBound _ \<Rightarrow> d\<lparr>dt_assumed_then_clamped := dt_assumed_then_clamped d + 1\<rparr>)"

definition record_invalid_model_score :: "discarded_timings \<Rightarrow> discarded_timings" where
  "record_invalid_model_score d = d\<lparr>dt_invalid_model_score := dt_invalid_model_score d + 1\<rparr>"

type_synonym word_track = "text_chars list"

fun word_track_of :: "'f fa_ops \<Rightarrow> fa_word list \<Rightarrow> (untimed_reason, word_track) result" where
  "word_track_of F [] = Ok []"
| "word_track_of F (word # words) =
     (let norm = normalize_fa_alignment_unit F (fd_text word)
      in if norm = [] then Err NoLexicalContent
         else case word_track_of F words of Inl r \<Rightarrow> Err r | Inr norms \<Rightarrow> Ok (norm # norms))"

definition slot_after :: "word_track \<Rightarrow> word_slot \<Rightarrow> word_slot option" where
  "slot_after words slot = (if slot + 1 < length words then Some (slot + 1) else None)"

definition slot_before :: "word_slot \<Rightarrow> word_slot option" where
  "slot_before slot = (if slot \<ge> 1 then Some (slot - 1) else None)"

record label_track =
  lt_norms :: "text_chars list"
  lt_onsets :: "recorded_instant list"
  lt_window :: fa_window

definition special_marker :: "text_chars \<Rightarrow> bool" where
  "special_marker cs \<longleftrightarrow> prefix [60, 124] cs \<and> suffix [124, 62] cs"

fun from_engine_tokens_loop ::
    "'f fa_ops \<Rightarrow> fa_window \<Rightarrow> string \<Rightarrow> 'f fa_raw_token list \<Rightarrow> text_chars list \<times> recorded_instant list \<Rightarrow>
      discarded_timings \<Rightarrow> (text_chars list \<times> recorded_instant list) \<times> discarded_timings" where
  "from_engine_tokens_loop F window engine [] track d = (track, d)"
| "from_engine_tokens_loop F window engine (token # tokens) (norms, onsets) d =
     (let token_text = trim_text (rt_text token)
      in if special_marker token_text then from_engine_tokens_loop F window engine tokens (norms, onsets) d
         else (let norm = normalize_fa_alignment_unit F token_text
               in if norm = [] then from_engine_tokens_loop F window engine tokens (norms, onsets) d
                  else case to_file window (fo_whole_millis F (rt_time_s token)) engine of
                         Inr onset \<Rightarrow>
                           from_engine_tokens_loop F window engine tokens (norms @ [norm], onsets @ [onset]) d
                       | Inl fault \<Rightarrow>
                           from_engine_tokens_loop F window engine tokens (norms, onsets) (discard_outside d fault)))"

definition from_engine_tokens ::
    "'f fa_ops \<Rightarrow> 'f fa_raw_token list \<Rightarrow> fa_window \<Rightarrow> string \<Rightarrow> discarded_timings \<Rightarrow> label_track \<times> discarded_timings" where
  "from_engine_tokens F tokens window engine d =
     (let ((norms, onsets), d') = from_engine_tokens_loop F window engine tokens ([], []) d
      in (\<lparr>lt_norms = norms, lt_onsets = onsets, lt_window = window\<rparr>, d'))"

definition span_for :: "label_track \<Rightarrow> label_run \<Rightarrow> (span_fault, word_span clamped) result" where
  "span_for labels run =
     (let start = lt_onsets labels ! run_first run
      in if run_after run < length (lt_onsets labels)
         then map_sum id AsGiven (end_from_next_onset start (lt_onsets labels ! run_after run))
         else end_assumed start LAST_WORD_FALLBACK_MS (lt_window labels))"

subsection \<open>The in-order stitch\<close>

function spell_loop :: "text_chars list \<Rightarrow> text_chars \<Rightarrow> nat \<Rightarrow> nat \<Rightarrow> bool \<times> nat" where
  "spell_loop norms word_norm matched cursor =
     (if cursor < length norms
      then case get_from word_norm matched of
             None \<Rightarrow> (False, cursor)
           | Some rest \<Rightarrow>
               (let label = norms ! cursor
                in if \<not> prefix label rest then (False, cursor)
                   else (let matched = matched + len_utf8 label; cursor = cursor + 1
                         in if matched = len_utf8 word_norm then (True, cursor)
                            else spell_loop norms word_norm matched cursor))
      else (False, cursor))"
  by pat_completeness auto
termination by (relation "measure (\<lambda>(norms, word, matched, cursor). length norms - cursor)") auto

declare spell_loop.simps [simp del]

fun stitch_loop :: "text_chars list \<Rightarrow> word_track \<Rightarrow> nat \<Rightarrow> label_run list \<Rightarrow> label_run list \<times> label_slot" where
  "stitch_loop norms [] next runs = (runs, next)"
| "stitch_loop norms (word_norm # words) next runs =
     (if next \<ge> length norms then (runs, next)
      else let (spelled, cursor) = spell_loop norms word_norm 0 next
           in if \<not> spelled then (runs, next)
              else case run_through next (cursor - 1) of
                     None \<Rightarrow> (runs, next)
                   | Some run \<Rightarrow> stitch_loop norms words cursor (runs @ [run]))"

definition stitch_in_order :: "word_track \<Rightarrow> label_track \<Rightarrow> label_run list \<times> label_slot" where
  "stitch_in_order words labels = stitch_loop (lt_norms labels) words 0 []"

subsection \<open>The residue\<close>

definition MAX_RESIDUE_ALIGN_CHARS :: nat where "MAX_RESIDUE_ALIGN_CHARS = 4096"

definition char_stream :: "text_chars list \<Rightarrow> nat \<Rightarrow> (rust_char \<times> nat) list" where
  "char_stream norms first_slot =
     concat (map (\<lambda>slot. map (\<lambda>ch. (ch, slot)) (norms ! slot)) [first_slot..<length norms])"

record residue_tally =
  ry_shared :: "(word_slot, nat) btree_map list"
  ry_unmatched :: "nat list"
  ry_edits :: "(word_slot, char_edits) btree_map"

definition add_transcript_only :: "nat \<Rightarrow> char_edits \<Rightarrow> char_edits" where
  "add_transcript_only n e = e\<lparr>transcript_only := transcript_only e + n\<rparr>"

definition add_label_only :: "nat \<Rightarrow> char_edits \<Rightarrow> char_edits" where
  "add_label_only n e = e\<lparr>label_only := label_only e + n\<rparr>"

fun tally_item :: "word_slot list \<Rightarrow> label_slot list \<Rightarrow> align_result \<Rightarrow> residue_tally \<Rightarrow> residue_tally" where
  "tally_item word_of_char label_of_char (Match _ p r) t =
     (let word = word_of_char ! p; label = label_of_char ! r
      in t\<lparr>ry_shared := (ry_shared t)[label := bt_entry word 0 (\<lambda>n. n + 1) (ry_shared t ! label)]\<rparr>)"
| "tally_item word_of_char label_of_char (ExtraPayload _ p) t =
     t\<lparr>ry_edits := bt_entry (word_of_char ! p) CharEdits_ZERO (add_transcript_only 1) (ry_edits t)\<rparr>"
| "tally_item word_of_char label_of_char (ExtraReference _ r) t =
     (let label = label_of_char ! r
      in t\<lparr>ry_unmatched := (ry_unmatched t)[label := ry_unmatched t ! label + 1]\<rparr>)"

definition residue_tally_of ::
    "word_slot list \<Rightarrow> label_slot list \<Rightarrow> nat \<Rightarrow> align_result list \<Rightarrow> residue_tally" where
  "residue_tally_of word_of_char label_of_char labels items =
     fold (tally_item word_of_char label_of_char) items
       \<lparr>ry_shared = replicate labels [], ry_unmatched = replicate labels 0, ry_edits = []\<rparr>"

fun best_step :: "word_slot \<times> nat \<Rightarrow> (word_slot \<times> nat) option \<Rightarrow> (word_slot \<times> nat) option" where
  "best_step (word, n) None = Some (word, n)"
| "best_step (word, n) (Some (best_word, best_n)) =
     (if n > best_n then Some (word, n) else Some (best_word, best_n))"

definition best_owner :: "(word_slot, nat) btree_map \<Rightarrow> word_slot option" where
  "best_owner shared = map_option fst (fold best_step shared None)"

definition label_owners :: "label_slot \<Rightarrow> (word_slot, nat) btree_map list \<Rightarrow> word_slot option list" where
  "label_owners first_label shared =
     map (\<lambda>slot. if slot < first_label then None else best_owner (shared ! slot)) [0..<length shared]"

fun monotone_from :: "word_slot option \<Rightarrow> word_slot option list \<Rightarrow> bool" where
  "monotone_from previous [] = True"
| "monotone_from previous (None # owner) = monotone_from previous owner"
| "monotone_from previous (Some word # owner) =
     (case previous of
        Some p \<Rightarrow> if word < p then False else monotone_from (Some word) owner
      | None \<Rightarrow> monotone_from (Some word) owner)"

definition owners_are_monotone :: "word_slot option list \<Rightarrow> bool" where
  "owners_are_monotone owner = monotone_from None owner"

type_synonym claims = "(word_slot, label_slot \<times> label_slot) btree_map"

definition claim_label :: "word_slot \<Rightarrow> label_slot \<Rightarrow> claims \<Rightarrow> claims" where
  "claim_label word label claim =
     (case bt_get claim word of
        Some (f, _) \<Rightarrow> bt_insert word (f, label) claim
      | None \<Rightarrow> bt_insert word (label, label) claim)"

definition claim_step ::
    "word_slot option list \<Rightarrow> nat list \<Rightarrow> label_slot \<Rightarrow> claims \<times> (word_slot, char_edits) btree_map \<Rightarrow>
      claims \<times> (word_slot, char_edits) btree_map" where
  "claim_step owner unmatched slot st =
     (case owner ! slot of
        None \<Rightarrow> st
      | Some word \<Rightarrow>
          (claim_label word slot (fst st),
           bt_entry word CharEdits_ZERO (add_label_only (unmatched ! slot)) (snd st)))"

function next_placed :: "word_track \<Rightarrow> claims \<Rightarrow> word_slot option \<Rightarrow> word_slot option" where
  "next_placed words claim None = None"
| "next_placed words claim (Some slot) =
     (if bt_get claim slot \<noteq> None then Some slot else next_placed words claim (slot_after words slot))"
  by pat_completeness auto
termination
  by (relation "measure (\<lambda>(words, claim, slot). case slot of None \<Rightarrow> 0 | Some s \<Rightarrow> Suc (length words - s))")
    (auto simp: slot_after_def)

lemma next_placed_ge: "next_placed words claim c = Some e \<Longrightarrow> \<exists>s. c = Some s \<and> s \<le> e \<and> bt_get claim e \<noteq> None"
proof (induction words claim c rule: next_placed.induct)
  case (2 words claim slot)
  then show ?case by (auto simp: slot_after_def split: if_splits)
qed simp

definition left_bracket :: "claims \<Rightarrow> word_slot \<Rightarrow> label_slot \<Rightarrow> word_slot \<Rightarrow> label_slot option" where
  "left_bracket claim first_word first_label word =
     (if word = first_word then map_option (\<lambda>_. first_label) (slot_before first_word)
      else case slot_before word of
             Some previous \<Rightarrow> map_option (\<lambda>(_, l). l + 1) (bt_get claim previous)
           | None \<Rightarrow> None)"

definition right_bracket :: "claims \<Rightarrow> word_slot option \<Rightarrow> label_slot option" where
  "right_bracket claim placed =
     map_option fst (Option.bind placed (bt_get claim))"

definition bracket_step ::
    "word_track \<Rightarrow> nat list \<Rightarrow> word_slot \<Rightarrow> label_slot \<Rightarrow> word_slot \<Rightarrow> word_slot option \<Rightarrow>
      claims \<times> (word_slot, char_edits) btree_map \<Rightarrow> claims \<times> (word_slot, char_edits) btree_map" where
  "bracket_step words unmatched first_word first_label word placed st =
     (case (left_bracket (fst st) first_word first_label word, right_bracket (fst st) placed) of
        (Some left, Some right) \<Rightarrow>
          (if slot_after words word = placed \<and> left < right
           then case run_through left (right - 1) of
                  Some run \<Rightarrow>
                    (bt_insert word (run_first run, run_last run) (fst st),
                     bt_entry word CharEdits_ZERO
                       (add_label_only (sum_list (take (right - left) (drop left unmatched)))) (snd st))
                | None \<Rightarrow> st
           else st)
      | _ \<Rightarrow> st)"

function bracket_loop ::
    "word_track \<Rightarrow> nat list \<Rightarrow> word_slot \<Rightarrow> label_slot \<Rightarrow> word_slot option \<Rightarrow>
      claims \<times> (word_slot, char_edits) btree_map \<Rightarrow> claims \<times> (word_slot, char_edits) btree_map" where
  "bracket_loop words unmatched first_word first_label None st = st"
| "bracket_loop words unmatched first_word first_label (Some word) st =
     (if bt_get (fst st) word \<noteq> None
      then bracket_loop words unmatched first_word first_label (slot_after words word) st
      else let placed = next_placed words (fst st) (Some word)
           in bracket_loop words unmatched first_word first_label placed
                (bracket_step words unmatched first_word first_label word placed st))"
  by pat_completeness auto
termination
proof (relation "measure (\<lambda>(words, um, fw, fl, slot, st). case slot of None \<Rightarrow> 0 | Some s \<Rightarrow> Suc (length words - s))", goal_cases)
  case (3 words unmatched first_word first_label word st placed)
  then have placed: "placed = next_placed words (fst st) (slot_after words word)" by simp
  have "placed = None \<or> (\<exists>e s. placed = Some e \<and> slot_after words word = Some s \<and> s \<le> e)"
  proof (cases placed)
    case (Some e)
    with placed next_placed_ge [of words "fst st" "slot_after words word" e] show ?thesis by auto
  qed simp
  then show ?case by (auto simp: slot_after_def split: if_splits)
qed (auto simp: slot_after_def)

declare next_placed.simps(2) [simp del]
declare bracket_loop.simps(2) [simp del]

definition attribute_claims ::
    "claims \<Rightarrow> (word_slot, char_edits) btree_map \<Rightarrow> attribution option list \<Rightarrow> attribution option list" where
  "attribute_claims claim edits attributions =
     fold (\<lambda>(slot, (f, l)) acc.
         case run_through f l of
           None \<Rightarrow> acc
         | Some run \<Rightarrow>
             acc[slot := Some \<lparr>at_run = run,
               at_edits = (case bt_get edits slot of Some counted \<Rightarrow> counted | None \<Rightarrow> CharEdits_ZERO)\<rparr>])
       claim attributions"

definition remap_residue ::
    "word_track \<Rightarrow> text_chars list \<Rightarrow> word_slot \<Rightarrow> label_slot \<Rightarrow> attribution option list \<Rightarrow>
      (untimed_reason, attribution option list) result option" where
  "remap_residue words labels first_word first_label attributions =
     (let word_stream = char_stream words first_word; label_stream = char_stream labels first_label;
          word_chars = map fst word_stream; word_of_char = map snd word_stream;
          label_chars = map fst label_stream; label_of_char = map snd label_stream
      in if word_chars = [] \<or> label_chars = [] then Some (Ok attributions)
         else if length word_chars > MAX_RESIDUE_ALIGN_CHARS \<or> length label_chars > MAX_RESIDUE_ALIGN_CHARS
         then Some (Err (ResidueTooLongToAlign (length word_chars) (length label_chars) MAX_RESIDUE_ALIGN_CHARS))
         else case align_chars word_chars label_chars (Exact :: unit match_mode) of
                None \<Rightarrow> None
              | Some items \<Rightarrow>
                  (let t = residue_tally_of word_of_char label_of_char (length labels) items;
                       owner = label_owners first_label (ry_shared t)
                   in if \<not> owners_are_monotone owner then Some (Err NonMonotoneAttribution)
                      else let (claim, edits) =
                             fold (claim_step owner (ry_unmatched t)) [first_label..<length labels]
                               ([], ry_edits t);
                           (claim, edits) =
                             bracket_loop words (ry_unmatched t) first_word first_label (Some first_word)
                               (claim, edits)
                        in Some (Ok (attribute_claims claim edits attributions))))"

subsection \<open>From attributions to outcomes\<close>

definition attributed_origin :: "char_edits \<Rightarrow> origin \<Rightarrow> origin" where
  "attributed_origin edits origin =
     (if is_exact edits then origin else AttributedByCharAlignment origin edits)"

definition lower_to_outcome ::
    "untimed_reason \<Rightarrow> label_track \<Rightarrow> attribution option \<Rightarrow> discarded_timings \<Rightarrow>
      word_timing_outcome \<times> discarded_timings" where
  "lower_to_outcome unplaced labels attribution d =
     (case attribution of
        None \<Rightarrow> (Untimed unplaced, d)
      | Some a \<Rightarrow>
          (case span_for labels (at_run a) of
             Inl fault \<Rightarrow> (Untimed (SpanRefused fault), d)
           | Inr outcome \<Rightarrow>
               (let d = note_clamp d outcome; span = clamped_value outcome
                in (case word_timing_new (ri_at (ws_start span)) (ri_at (ws_end span))
                          (attributed_origin (at_edits a) (ri_origin (ws_start span)))
                          (attributed_origin (at_edits a) (ri_origin (ws_end span))) of
                      Some timing \<Rightarrow> Timed timing (at_edits a)
                    | None \<Rightarrow> Untimed TimingRefusedProvenSpan, d))))"

fun lower_all ::
    "untimed_reason \<Rightarrow> label_track \<Rightarrow> attribution option list \<Rightarrow> discarded_timings \<Rightarrow>
      word_timing_outcome list \<times> discarded_timings" where
  "lower_all unplaced labels [] d = ([], d)"
| "lower_all unplaced labels (a # attributions) d =
     (let (outcome, d') = lower_to_outcome unplaced labels a d;
          (outcomes, d'') = lower_all unplaced labels attributions d'
      in (outcome # outcomes, d''))"

record label_mapping =
  lm_outcomes :: "word_timing_outcome list"
  lm_discarded :: discarded_timings
  lm_tokens_reported :: nat

definition all_untimed :: "nat \<Rightarrow> untimed_reason \<Rightarrow> discarded_timings \<Rightarrow> nat \<Rightarrow> label_mapping" where
  "all_untimed words reason d tokens =
     \<lparr>lm_outcomes = replicate words (Untimed reason), lm_discarded = d, lm_tokens_reported = tokens\<rparr>"

definition stitched_attributions :: "nat \<Rightarrow> label_run list \<Rightarrow> attribution option list" where
  "stitched_attributions n runs =
     fold (\<lambda>(idx, run) acc. acc[idx := Some \<lparr>at_run = run, at_edits = CharEdits_ZERO\<rparr>])
       (enumerate 0 runs) (replicate n None)"

definition map_labels_to_words ::
    "'f fa_ops \<Rightarrow> fa_word list \<Rightarrow> 'f fa_raw_token list \<Rightarrow> fa_window \<Rightarrow> string \<Rightarrow> label_mapping option" where
  "map_labels_to_words F original_words tokens window engine =
     (case word_track_of F original_words of
        Inl reason \<Rightarrow> Some (all_untimed (length original_words) reason no_discards (length tokens))
      | Inr words \<Rightarrow>
          (let (labels, discarded) = from_engine_tokens F tokens window engine no_discards
           in if lt_norms labels = []
              then Some (all_untimed (length original_words) NoUsableLabels discarded (length tokens))
              else let (runs, next_label) = stitch_in_order words labels;
                       attributions = stitched_attributions (length original_words) runs;
                       residue = length runs;
                       finish = (\<lambda>unplaced attributions.
                         let (outcomes, d) = lower_all unplaced labels attributions discarded
                         in Some \<lparr>lm_outcomes = outcomes, lm_discarded = d, lm_tokens_reported = length tokens\<rparr>)
                   in if residue < length words \<and> next_label < length (lt_norms labels)
                      then case remap_residue words (lt_norms labels) residue next_label attributions of
                             None \<Rightarrow> None
                           | Some (Inl refusal) \<Rightarrow>
                               finish refusal (take residue attributions @
                                 replicate (length attributions - residue) None)
                           | Some (Inr attributions') \<Rightarrow> finish NoLabelSpan attributions'
                      else finish NoLabelSpan attributions))"

fun into_timing :: "word_timing_outcome \<Rightarrow> word_timing option" where
  "into_timing (Timed timing _) = Some timing"
| "into_timing (Untimed _) = None"

definition lower_outcomes :: "word_timing_outcome list \<Rightarrow> word_timing option list" where
  "lower_outcomes outcomes = map into_timing outcomes"

subsection \<open>Word intervals\<close>

datatype fa_alignment_error = IndexedCountMismatch nat nat

definition indexed_pair ::
    "fa_word list \<Rightarrow> 'f fa_indexed_timing option list \<Rightarrow> (fa_alignment_error, 'f fa_indexed_timing option list) result" where
  "indexed_pair words timings =
     (if length timings \<noteq> length words then Err (IndexedCountMismatch (length words) (length timings))
      else Ok timings)"

definition indexed_outcome ::
    "'f fa_ops \<Rightarrow> fa_window \<Rightarrow> string \<Rightarrow> 'f fa_indexed_timing option \<Rightarrow> discarded_timings \<Rightarrow>
      word_timing_outcome \<times> discarded_timings" where
  "indexed_outcome F window engine maybe_timing d =
     (case maybe_timing of
        None \<Rightarrow> (Untimed NoTimingFromHost, d)
      | Some timing \<Rightarrow>
          (let (model_score, d) =
                 (case it_confidence timing of
                    None \<Rightarrow> (None, d)
                  | Some c \<Rightarrow>
                      (case fo_model_score F c of
                         Some score \<Rightarrow> (Some score, d)
                       | None \<Rightarrow> (None, record_invalid_model_score d)))
           in (case to_file window (it_start_ms timing) engine of
                 Inl fault \<Rightarrow> Untimed (ReportedOutsideWindow fault)
               | Inr start \<Rightarrow>
                   (case to_file window (it_end_ms timing) engine of
                      Inl fault \<Rightarrow> Untimed (ReportedOutsideWindow fault)
                    | Inr e \<Rightarrow>
                        (case span_measured start e of
                           Inl fault \<Rightarrow> Untimed (SpanRefused fault)
                         | Inr span \<Rightarrow>
                             (case word_timing_new (ri_at (ws_start span)) (ri_at (ws_end span))
                                     (ri_origin (ws_start span)) (ri_origin (ws_end span)) of
                                None \<Rightarrow> Untimed TimingRefusedProvenSpan
                              | Some t \<Rightarrow>
                                  Timed (case model_score of Some score \<Rightarrow> with_model_score score t | None \<Rightarrow> t)
                                    CharEdits_ZERO))), d)))"

fun apply_indexed_timings ::
    "'f fa_ops \<Rightarrow> fa_window \<Rightarrow> string \<Rightarrow> 'f fa_indexed_timing option list \<Rightarrow> discarded_timings \<Rightarrow>
      word_timing_outcome list \<times> discarded_timings" where
  "apply_indexed_timings F window engine [] d = ([], d)"
| "apply_indexed_timings F window engine (t # ts) d =
     (let (outcome, d') = indexed_outcome F window engine t d;
          (outcomes, d'') = apply_indexed_timings F window engine ts d'
      in (outcome # outcomes, d''))"

definition align_token_timings ::
    "'f fa_ops \<Rightarrow> fa_word list \<Rightarrow> 'f fa_raw_token list \<Rightarrow> fa_window \<Rightarrow> string \<Rightarrow> word_timing option list option" where
  "align_token_timings F original_words tokens window engine =
     map_option (\<lambda>mapping. lower_outcomes (lm_outcomes mapping))
       (map_labels_to_words F original_words tokens window engine)"

definition align_fa_response ::
    "'f fa_ops \<Rightarrow> 'f fa_raw_response \<Rightarrow> fa_word list \<Rightarrow> fa_window \<Rightarrow> string \<Rightarrow>
      (fa_alignment_error, word_timing option list) result option" where
  "align_fa_response F response original_words window engine =
     (case response of
        IndexedWordLevel indexed_timings \<Rightarrow>
          (case indexed_pair original_words indexed_timings of
             Inl e \<Rightarrow> Some (Err e)
           | Inr pairs \<Rightarrow>
               Some (Ok (lower_outcomes (fst (apply_indexed_timings F window engine pairs no_discards)))))
      | TokenLevel tokens \<Rightarrow>
          map_option Ok (align_token_timings F original_words tokens window engine))"

subsection \<open>What a group's warning says\<close>

record untimed_words =
  un_rejected :: span_rejections
  un_no_timing_from_host :: nat
  un_timing_refused_proven_span :: nat

definition untimed_word :: "word_timing_outcome \<Rightarrow> untimed_words \<Rightarrow> untimed_words" where
  "untimed_word outcome tally =
     (case outcome of
        Timed _ _ \<Rightarrow> tally
      | Untimed reason \<Rightarrow>
          (case reason of
             NoTimingFromHost \<Rightarrow> tally\<lparr>un_no_timing_from_host := un_no_timing_from_host tally + 1\<rparr>
           | SpanRefused fault \<Rightarrow> tally\<lparr>un_rejected := record_span_fault (un_rejected tally) fault\<rparr>
           | ReportedOutsideWindow fault \<Rightarrow> tally\<lparr>un_rejected := record_outside (un_rejected tally) fault\<rparr>
           | TimingRefusedProvenSpan \<Rightarrow>
               tally\<lparr>un_timing_refused_proven_span := un_timing_refused_proven_span tally + 1\<rparr>
           | _ \<Rightarrow> tally))"

definition untimed_words_of :: "word_timing_outcome list \<Rightarrow> untimed_words" where
  "untimed_words_of outcomes =
     fold untimed_word outcomes
       \<lparr>un_rejected = no_rejections, un_no_timing_from_host = 0, un_timing_refused_proven_span = 0\<rparr>"

datatype fa_warn_subject = SubjectOutsideWindow | UnusableTimings | HostDeclined | AdjustmentsOnly

record fa_group_warning =
  gw_untimed :: untimed_words
  gw_labels_rejected :: span_rejections
  gw_assumed_then_clamped :: nat
  gw_invalid_model_score :: nat

definition group_tally :: "discarded_timings \<Rightarrow> word_timing_outcome list \<Rightarrow> fa_group_warning" where
  "group_tally d outcomes =
     \<lparr>gw_untimed = untimed_words_of outcomes, gw_labels_rejected = dt_labels_rejected d,
      gw_assumed_then_clamped = dt_assumed_then_clamped d, gw_invalid_model_score = dt_invalid_model_score d\<rparr>"

definition warning_any_outside_window :: "fa_group_warning \<Rightarrow> bool" where
  "warning_any_outside_window w \<longleftrightarrow>
     rejections_outside_window (un_rejected (gw_untimed w)) \<or> rejections_outside_window (gw_labels_rejected w)"

definition warning_unusable :: "fa_group_warning \<Rightarrow> nat" where
  "warning_unusable w =
     rejections_total (un_rejected (gw_untimed w)) + rejections_total (gw_labels_rejected w) +
     un_timing_refused_proven_span (gw_untimed w)"

definition warning_adjustments :: "fa_group_warning \<Rightarrow> nat" where
  "warning_adjustments w = gw_assumed_then_clamped w + gw_invalid_model_score w"

definition warning_notable :: "fa_group_warning \<Rightarrow> nat" where
  "warning_notable w = warning_unusable w + un_no_timing_from_host (gw_untimed w) + warning_adjustments w"

definition warning_subject :: "fa_group_warning \<Rightarrow> fa_warn_subject" where
  "warning_subject w =
     (if warning_any_outside_window w then SubjectOutsideWindow
      else if warning_unusable w > 0 then UnusableTimings
      else if un_no_timing_from_host (gw_untimed w) > 0 then HostDeclined
      else AdjustmentsOnly)"

definition warn_if_any :: "discarded_timings \<Rightarrow> word_timing_outcome list \<Rightarrow> fa_warn_subject option" where
  "warn_if_any d outcomes =
     (let warning = group_tally d outcomes
      in if warning_notable warning = 0 then None else Some (warning_subject warning))"

subsection \<open>Streams and alignments\<close>

lemma char_stream_slots: "slot \<in> set (map snd (char_stream norms f)) \<Longrightarrow> f \<le> slot \<and> slot < length norms"
  by (auto simp: char_stream_def)

lemma char_stream_split:
  "f < length norms \<Longrightarrow> char_stream norms f = map (\<lambda>ch. (ch, f)) (norms ! f) @ char_stream norms (Suc f)"
  by (simp add: char_stream_def upt_conv_Cons)

lemma char_stream_sorted: "sorted (map snd (char_stream norms f))"
proof (induction "length norms - f" arbitrary: f)
  case (Suc d)
  from Suc.hyps(2) have f: "f < length norms" by simp
  have "sorted (map snd (char_stream norms (Suc f)))" using Suc.hyps by simp
  moreover have "Suc f \<le> x" if "x \<in> set (map snd (char_stream norms (Suc f)))" for x
    using char_stream_slots [OF that] by simp
  ultimately show ?case
    by (fastforce simp: char_stream_split [OF f] sorted_append comp_def map_replicate_const)
qed (simp add: char_stream_def)

definition match_pairs :: "align_result list \<Rightarrow> (nat \<times> nat) list" where
  "match_pairs out = List.map_filter (\<lambda>x. case x of Match _ p r \<Rightarrow> Some (p, r) | _ \<Rightarrow> None) out"

lemma match_pairs_simps [simp]:
  "match_pairs [] = []"
  "match_pairs (Match k p r # out) = (p, r) # match_pairs out"
  "match_pairs (ExtraPayload k p # out) = match_pairs out"
  "match_pairs (ExtraReference k r # out) = match_pairs out"
  by (simp_all add: match_pairs_def)

lemma aligned_chars_pairs:
  "aligned m key ps rs i j out \<Longrightarrow>
     (\<forall>(p, r) \<in> set (match_pairs out). i \<le> p \<and> p < i + length ps \<and> j \<le> r \<and> r < j + length rs) \<and>
     sorted_wrt (\<lambda>x y. fst x < fst y \<and> snd x < snd y) (match_pairs out)"
proof (induction m key ps rs i j out rule: aligned.induct)
  case (2 m key ps rs i j k a b out)
  then show ?case by (fastforce split: list.splits)
next
  case (3 m key ps rs i j k a out)
  then show ?case by (fastforce split: list.splits)
next
  case (4 m key ps rs i j k b out)
  then show ?case by (fastforce split: list.splits)
qed simp

lemma pairs_ordered:
  assumes "sorted_wrt (\<lambda>x y. fst x < fst y \<and> snd x < snd y) xs"
    and "(p, r) \<in> set xs" and "(p', r') \<in> set xs" and "r < (r' :: nat)"
  shows "p < (p' :: nat)"
proof -
  obtain a b where a: "a < length xs" "xs ! a = (p, r)" and b: "b < length xs" "xs ! b = (p', r')"
    using assms(2,3) by (metis in_set_conv_nth)
  have "a < b"
  proof (rule ccontr)
    assume "\<not> a < b"
    then consider "a = b" | "b < a" by linarith
    then show False
      using sorted_wrt_nth_less [OF assms(1), of b a] a b assms(4) by cases auto
  qed
  from sorted_wrt_nth_less [OF assms(1) this] a b show ?thesis by simp
qed

subsection \<open>Owners\<close>

lemma keys_bt_entry: "fst ` set (bt_entry k d f m) = insert k (fst ` set m)"
  by (simp add: bt_entry_def set_bt_insert)

lemma best_owner_key: "best_owner m = Some w \<Longrightarrow> w \<in> fst ` set m"
proof -
  have "fold best_step m b = Some (w, n) \<Longrightarrow> w \<in> fst ` set m \<or> b = Some (w, n)" for b n
  proof (induction m arbitrary: b)
    case (Cons e m)
    obtain k c where e: "e = (k, c)" by force
    from Cons.IH [of "best_step (k, c) b"] Cons.prems show ?case
      by (cases b) (auto simp: e split: if_splits)
  qed simp
  then show "best_owner m = Some w \<Longrightarrow> w \<in> fst ` set m" by (auto simp: best_owner_def)
qed

lemma residue_tally_length [simp]:
  "length (ry_shared (fold (tally_item word_of label_of) out t)) = length (ry_shared t)"
proof (induction out arbitrary: t)
  case (Cons x out)
  then show ?case by (cases x) (simp_all add: Let_def)
qed simp

lemma tally_step_shared:
  assumes "w \<in> fst ` set (ry_shared (tally_item word_of label_of x t) ! l)" and "l < length (ry_shared t)"
  shows "w \<in> fst ` set (ry_shared t ! l) \<or> (\<exists>k p r. x = Match k p r \<and> word_of ! p = w \<and> label_of ! r = l)"
proof (cases x)
  case (Match k p r)
  show ?thesis
  proof (cases "label_of ! r = l")
    case True
    with assms Match show ?thesis by (auto simp: Let_def keys_bt_entry)
  next
    case False
    with assms Match show ?thesis by (simp add: Let_def)
  qed
qed (use assms in \<open>simp_all add: Let_def\<close>)

lemma tally_shared:
  "l < length (ry_shared t) \<Longrightarrow>
   w \<in> fst ` set (ry_shared (fold (tally_item word_of label_of) out t) ! l) \<Longrightarrow>
   w \<in> fst ` set (ry_shared t ! l) \<or> (\<exists>k p r. Match k p r \<in> set out \<and> word_of ! p = w \<and> label_of ! r = l)"
proof (induction out arbitrary: t)
  case (Cons x out)
  have "length (ry_shared (tally_item word_of label_of x t)) = length (ry_shared t)"
    by (cases x) (simp_all add: Let_def)
  then have "w \<in> fst ` set (ry_shared (tally_item word_of label_of x t) ! l) \<or>
      (\<exists>k p r. Match k p r \<in> set out \<and> word_of ! p = w \<and> label_of ! r = l)"
    using Cons.IH [of "tally_item word_of label_of x t"] Cons.prems by simp
  with tally_step_shared [of w word_of label_of x t l] Cons.prems(1) show ?case
    by (metis list.set_intros(1,2))
qed simp

lemma match_in_pairs: "Match k p r \<in> set out \<Longrightarrow> (p, r) \<in> set (match_pairs out)"
  by (induction out) (auto simp: match_pairs_def split: align_result.splits)

lemma label_owner_match:
  assumes "slot < n" and "label_owners f (ry_shared (residue_tally_of word_of label_of n out)) ! slot = Some w"
  shows "\<exists>p r. (p, r) \<in> set (match_pairs out) \<and> word_of ! p = w \<and> label_of ! r = slot"
proof -
  from assms have "best_owner (ry_shared (residue_tally_of word_of label_of n out) ! slot) = Some w"
    by (simp add: label_owners_def residue_tally_of_def split: if_splits)
  from best_owner_key [OF this] assms(1) have "\<exists>k p r. Match k p r \<in> set out \<and> word_of ! p = w \<and> label_of ! r = slot"
    using tally_shared [of slot "\<lparr>ry_shared = replicate n [], ry_unmatched = replicate n 0, ry_edits = []\<rparr>" w
        word_of label_of out]
    by (simp add: residue_tally_of_def)
  then show ?thesis using match_in_pairs by blast
qed

definition owners_sorted :: "word_slot option list \<Rightarrow> bool" where
  "owners_sorted owner \<longleftrightarrow> (\<forall>s s' w w'. s < s' \<longrightarrow> s' < length owner \<longrightarrow>
     owner ! s = Some w \<longrightarrow> owner ! s' = Some w' \<longrightarrow> w \<le> w')"

lemma monotone_from_sorted:
  "monotone_from p owner \<longleftrightarrow> sorted ((case p of None \<Rightarrow> [] | Some x \<Rightarrow> [x]) @ List.map_filter (\<lambda>x. x) owner)"
proof (induction p owner rule: monotone_from.induct)
  case (3 p word owner)
  then show ?case by (cases p) (auto split: if_splits)
qed (auto split: option.splits)

lemma owners_sorted_monotone: "owners_sorted owner \<Longrightarrow> owners_are_monotone owner"
proof -
  have "owners_sorted owner \<Longrightarrow> sorted (List.map_filter (\<lambda>x. x) owner)"
  proof (induction owner)
    case (Cons x owner)
    have "owners_sorted owner"
      unfolding owners_sorted_def
    proof (intro allI impI)
      fix s s' w w'
      assume "s < s'" "s' < length owner" "owner ! s = Some w" "owner ! s' = Some w'"
      with Cons.prems [unfolded owners_sorted_def, rule_format, of "Suc s" "Suc s'" w w'] show "w \<le> w'" by simp
    qed
    moreover have "w \<le> w'" if "x = Some w" "w' \<in> set (List.map_filter (\<lambda>x. x) owner)" for w w'
    proof -
      from that(2) obtain s' where "s' < length owner" "owner ! s' = Some w'"
        by (auto simp: map_filter_def in_set_conv_nth)
      with Cons.prems [unfolded owners_sorted_def, rule_format, of 0 "Suc s'" w w'] that(1) show ?thesis by simp
    qed
    ultimately show ?case using Cons.IH by (cases x) auto
  qed simp
  then show "owners_sorted owner \<Longrightarrow> owners_are_monotone owner"
    by (simp add: owners_are_monotone_def monotone_from_sorted)
qed

lemma residue_owners_sorted:
  assumes "aligned m key (map fst (char_stream words fw)) (map fst (char_stream labels fl)) 0 0 out"
  defines "owner \<equiv> label_owners fl (ry_shared (residue_tally_of (map snd (char_stream words fw))
      (map snd (char_stream labels fl)) (length labels) out))"
  shows "owners_sorted owner \<and> length owner = length labels \<and>
    (\<forall>s w. s < length labels \<longrightarrow> owner ! s = Some w \<longrightarrow> fl \<le> s \<and> fw \<le> w \<and> w < length words)"
proof -
  let ?wo = "map snd (char_stream words fw)" and ?lo = "map snd (char_stream labels fl)"
  have len: "length owner = length labels" by (simp add: owner_def label_owners_def residue_tally_of_def)
  note pairs = aligned_chars_pairs [OF assms(1)]
  have pair: "\<exists>p r. (p, r) \<in> set (match_pairs out) \<and> ?wo ! p = w \<and> ?lo ! r = s \<and> p < length ?wo \<and> r < length ?lo"
    if "s < length labels" "owner ! s = Some w" for s w
    using label_owner_match [OF that(1) that(2) [unfolded owner_def]] pairs by fastforce
  have "w \<le> w'" if "s < s'" "s' < length labels" "owner ! s = Some w" "owner ! s' = Some w'" for s s' w w'
  proof -
    from that pair [of s w] obtain p r where a: "(p, r) \<in> set (match_pairs out)" "?wo ! p = w" "?lo ! r = s"
        "p < length ?wo" "r < length ?lo" by auto
    from that pair [of s' w'] obtain p' r' where b: "(p', r') \<in> set (match_pairs out)" "?wo ! p' = w'"
        "?lo ! r' = s'" "p' < length ?wo" "r' < length ?lo" by auto
    have "r < r'"
    proof (rule ccontr)
      assume "\<not> r < r'"
      then have "?lo ! r' \<le> ?lo ! r" using a(5) by (intro sorted_nth_mono [OF char_stream_sorted]) simp_all
      with a(3) b(3) that(1) show False by simp
    qed
    with pairs a(1) b(1) have "p < p'" using pairs_ordered by blast
    then have "?wo ! p \<le> ?wo ! p'" using b(4) by (intro sorted_nth_mono [OF char_stream_sorted]) simp_all
    with a(2) b(2) show ?thesis by simp
  qed
  then have "owners_sorted owner" by (auto simp: owners_sorted_def len)
  moreover have "fl \<le> s \<and> fw \<le> w \<and> w < length words" if sw: "s < length labels" "owner ! s = Some w" for s w
  proof -
    from pair [OF sw] obtain p r where "?wo ! p = w" "?lo ! r = s" "p < length ?wo" "r < length ?lo" by blast
    then have "w \<in> set ?wo" "s \<in> set ?lo" using nth_mem by blast+
    then show ?thesis using char_stream_slots by blast
  qed
  ultimately show ?thesis using len by blast
qed

subsection \<open>Claims\<close>

text \<open>
  Claims are in order: every claim is a run of labels of the residue, and the claims of different
  words are disjoint and run the way the words do.
\<close>

definition claims_ok :: "nat \<Rightarrow> nat \<Rightarrow> word_slot \<Rightarrow> label_slot \<Rightarrow> claims \<Rightarrow> bool" where
  "claims_ok nwords nlabels fw fl claim \<longleftrightarrow> bt_wf claim \<and>
     (\<forall>w f l. bt_get claim w = Some (f, l) \<longrightarrow>
        fw \<le> w \<and> w < nwords \<and> fl \<le> f \<and> f \<le> l \<and> l < nlabels) \<and>
     (\<forall>w w' f l f' l'. w < w' \<longrightarrow> bt_get claim w = Some (f, l) \<longrightarrow> bt_get claim w' = Some (f', l') \<longrightarrow> l < f')"

lemma claims_okD:
  assumes "claims_ok nwords nlabels fw fl claim"
  shows "bt_wf claim"
    and "bt_get claim w = Some (f, l) \<Longrightarrow> fw \<le> w \<and> w < nwords \<and> fl \<le> f \<and> f \<le> l \<and> l < nlabels"
    and "w < w' \<Longrightarrow> bt_get claim w = Some (f, l) \<Longrightarrow> bt_get claim w' = Some (f', l') \<Longrightarrow> l < f'"
  using assms unfolding claims_ok_def by blast+

lemma claims_ok_Nil [simp]: "claims_ok nwords nlabels fw fl []"
  by (simp add: claims_ok_def)

lemma claim_fold_owned:
  fixes owner um ed fl k
  assumes "fl \<le> k"
  defines "claim \<equiv> fst (fold (claim_step owner um) [fl..<k] ([], ed))"
  shows "bt_wf claim" and "bt_get claim w = Some (f, l) \<Longrightarrow>
    fl \<le> f \<and> f \<le> l \<and> l < k \<and> owner ! f = Some w \<and> owner ! l = Some w"
proof -
  have "bt_wf (fst (fold (claim_step owner um) [fl..<k] ([], ed))) \<and>
    (\<forall>w f l. bt_get (fst (fold (claim_step owner um) [fl..<k] ([], ed))) w = Some (f, l) \<longrightarrow>
      fl \<le> f \<and> f \<le> l \<and> l < k \<and> owner ! f = Some w \<and> owner ! l = Some w)"
    using assms(1)
  proof (induction k rule: dec_induct)
    case (step k)
    let ?st = "fold (claim_step owner um) [fl..<k] ([], ed)"
    have last: "fold (claim_step owner um) [fl..<Suc k] ([], ed) = claim_step owner um k ?st"
      using step.hyps by simp
    show ?case
    proof (cases "owner ! k")
      case None
      then have "claim_step owner um k ?st = ?st" by (simp only: claim_step_def option.case)
      with step.IH show ?thesis unfolding last by (metis less_Suc_eq)
    next
      case (Some v)
      have st: "fst (claim_step owner um k ?st) = claim_label v k (fst ?st)"
        by (simp only: claim_step_def Some option.case fst_conv)
      have "fl \<le> f \<and> f \<le> l \<and> l < Suc k \<and> owner ! f = Some w \<and> owner ! l = Some w"
        if "bt_get (claim_label v k (fst ?st)) w = Some (f, l)" for w f l
      proof (cases "w = v")
        case True
        with that have "l = k" and "f = k \<or> (\<exists>l'. bt_get (fst ?st) v = Some (f, l'))"
          by (auto simp only: claim_label_def bt_get_insert split: option.splits prod.splits if_splits)
        then show ?thesis
        proof (elim disjE exE)
          fix l'
          assume "bt_get (fst ?st) v = Some (f, l')"
          with step.IH have "fl \<le> f \<and> f \<le> l' \<and> l' < k \<and> owner ! f = Some v" by blast
          with \<open>l = k\<close> True Some show ?thesis by simp
        qed (use \<open>l = k\<close> True Some step.hyps in simp)
      next
        case False
        with that have "bt_get (fst ?st) w = Some (f, l)"
          by (auto simp only: claim_label_def bt_get_insert split: option.splits prod.splits if_splits)
        with step.IH show ?thesis by (metis less_Suc_eq)
      qed
      moreover have "bt_wf (claim_label v k (fst ?st))"
        using step.IH by (auto simp only: claim_label_def bt_wf_insert split: option.splits prod.splits)
      ultimately show ?thesis unfolding last st by blast
    qed
  qed simp
  then show "bt_wf claim" and "bt_get claim w = Some (f, l) \<Longrightarrow>
    fl \<le> f \<and> f \<le> l \<and> l < k \<and> owner ! f = Some w \<and> owner ! l = Some w"
    unfolding claim_def by blast+
qed

lemma claims_ok_owned:
  assumes "owners_sorted owner" and "length owner = n"
    and "\<And>s w. s < n \<Longrightarrow> owner ! s = Some w \<Longrightarrow> fl \<le> s \<and> fw \<le> w \<and> w < nwords"
    and "fl \<le> n"
  shows "claims_ok nwords n fw fl (fst (fold (claim_step owner um) [fl..<n] ([], ed)))" (is "claims_ok _ _ _ _ ?claim")
  unfolding claims_ok_def
proof (intro conjI allI impI)
  show "bt_wf ?claim" by (rule claim_fold_owned(1) [OF assms(4)])
next
  fix w f l
  assume "bt_get ?claim w = Some (f, l)"
  note owned = claim_fold_owned(2) [OF assms(4) this]
  then show "fl \<le> f" "f \<le> l" "l < n" by simp_all
  with owned assms(3) [of l w] show "fw \<le> w" "w < nwords" by simp_all
next
  fix w w' :: nat and f l f' l'
  assume less: "w < w'" and a: "bt_get ?claim w = Some (f, l)" and b: "bt_get ?claim w' = Some (f', l')"
  note a = claim_fold_owned(2) [OF assms(4) a] and b = claim_fold_owned(2) [OF assms(4) b]
  show "l < f'"
  proof (rule ccontr)
    assume "\<not> l < f'"
    then consider "f' = l" | "f' < l" by linarith
    then show False
    proof cases
      case 1
      with a b less show False by simp
    next
      case 2
      with assms(1,2) a b have "w' \<le> w" unfolding owners_sorted_def by blast
      with less show False by simp
    qed
  qed
qed

lemma left_bracket_bound:
  assumes "claims_ok nwords nlabels fw fl claim" and "left_bracket claim fw fl word = Some left"
    and "w < word" and "bt_get claim w = Some (f, l)" and "fw \<le> word"
  shows "l < left"
proof (cases "word = fw")
  case True
  with claims_okD(2) [OF assms(1,4)] assms(3) show ?thesis by simp
next
  case False
  with assms(2,5) obtain f' l' where p: "bt_get claim (word - 1) = Some (f', l')" "left = l' + 1"
    by (auto simp: left_bracket_def slot_before_def split: if_splits)
  show ?thesis
  proof (cases "w = word - 1")
    case True
    with p assms(4) show ?thesis by simp
  next
    case False
    with assms(3) have "w < word - 1" by simp
    from claims_okD(3) [OF assms(1) this assms(4) p(1)] claims_okD(2) [OF assms(1) p(1)] p(2)
    show ?thesis by simp
  qed
qed

lemma left_bracket_ge:
  assumes "claims_ok nwords nlabels fw fl claim" and "left_bracket claim fw fl word = Some left" and "fw \<le> word"
  shows "fl \<le> left"
proof (cases "word = fw")
  case False
  with assms(2,3) obtain f' l' where "bt_get claim (word - 1) = Some (f', l')" "left = l' + 1"
    by (auto simp: left_bracket_def slot_before_def split: if_splits)
  with claims_okD(2) [OF assms(1) this(1)] show ?thesis by simp
qed (use assms(2) in \<open>auto simp: left_bracket_def\<close>)

lemma bracket_step_ok:
  assumes ok: "claims_ok (length words) nlabels fw fl (fst st)" and fw: "fw \<le> word"
  shows "claims_ok (length words) nlabels fw fl (fst (bracket_step words um fw fl word placed st))"
proof (cases "fst (bracket_step words um fw fl word placed st) = fst st")
  case False
  then obtain left right where l: "left_bracket (fst st) fw fl word = Some left"
    and r: "right_bracket (fst st) placed = Some right" and p: "slot_after words word = placed" and lr: "left < right"
    by (auto simp: bracket_step_def split: option.splits if_splits)
  from r p obtain rl where nx: "bt_get (fst st) (word + 1) = Some (right, rl)" "word + 1 < length words"
    by (auto simp: right_bracket_def slot_after_def split: if_splits option.splits)
  have new: "fst (bracket_step words um fw fl word placed st) = bt_insert word (left, right - 1) (fst st)"
    using l r p lr by (auto simp: bracket_step_def run_through_def)
  note fits = claims_okD(2) [OF ok nx(1)]
  have "f' > right - 1" if "word < w'" "bt_get (fst st) w' = Some (f', l')" for w' f' l'
  proof (cases "w' = word + 1")
    case True
    with nx(1) that(2) lr show ?thesis by simp
  next
    case False
    with that(1) have "word + 1 < w'" by simp
    from claims_okD(3) [OF ok this nx(1) that(2)] fits show ?thesis by linarith
  qed
  moreover have "l' < left" if "w' < word" "bt_get (fst st) w' = Some (f', l')" for w' f' l'
    using left_bracket_bound [OF ok l that fw] .
  ultimately show ?thesis
    using ok fw fits lr nx(2) left_bracket_ge [OF ok l fw]
    unfolding new claims_ok_def bt_get_insert
    by (auto simp del: bt_get_insert split: if_splits)
qed (use ok in simp)

lemma bracket_loop_ok:
  "claims_ok (length words) nlabels fw fl (fst st) \<Longrightarrow> (\<And>w. cursor = Some w \<Longrightarrow> fw \<le> w) \<Longrightarrow>
     claims_ok (length words) nlabels fw fl (fst (bracket_loop words um fw fl cursor st))"
proof (induction words um fw fl cursor st rule: bracket_loop.induct)
  case (2 words um fw fl word st)
  show ?case
  proof (cases "bt_get (fst st) word = None")
    case False
    with 2 show ?thesis
      by (subst bracket_loop.simps) (auto simp: slot_after_def split: if_splits)
  next
    case True
    let ?placed = "next_placed words (fst st) (Some word)"
    have "fw \<le> w" if "?placed = Some w" for w
      using next_placed_ge [OF that] "2.prems"(2) by fastforce
    with "2.IH"(2) [OF _ refl] True bracket_step_ok [OF "2.prems"(1), of word um ?placed] "2.prems"(2)
    show ?thesis by (subst bracket_loop.simps) (simp add: Let_def)
  qed
qed simp

subsection \<open>Attributions\<close>

lemma attribute_claims_spec:
  assumes "bt_wf claim" and "\<And>w f l. bt_get claim w = Some (f, l) \<Longrightarrow> f \<le> l \<and> w < length as"
  shows "length (attribute_claims claim edits as) = length as \<and>
    (\<forall>w < length as. attribute_claims claim edits as ! w =
      (case bt_get claim w of
         Some (f, l) \<Rightarrow> Some \<lparr>at_run = \<lparr>run_first = f, run_last = l\<rparr>,
           at_edits = (case bt_get edits w of Some e \<Rightarrow> e | None \<Rightarrow> CharEdits_ZERO)\<rparr>
       | None \<Rightarrow> as ! w))"
  using assms
proof (induction claim arbitrary: as)
  case (Cons e claim)
  obtain k f l where e: "e = (k, f, l)" by (cases e) auto
  let ?a = "Some \<lparr>at_run = \<lparr>run_first = f, run_last = l\<rparr>,
      at_edits = (case bt_get edits k of Some e \<Rightarrow> e | None \<Rightarrow> CharEdits_ZERO)\<rparr>"
  have k: "f \<le> l \<and> k < length as" using Cons.prems(2) [of k f l] by (simp add: e bt_get_def)
  have wf: "bt_wf claim" using Cons.prems(1) by (simp add: e bt_wf_Cons)
  have none: "bt_get claim k = None" using Cons.prems(1) bt_get_first [of k "(f, l)" claim k] by (simp add: e)
  have get: "bt_get (e # claim) w = (if w = k then Some (f, l) else bt_get claim w)" for w
    by (simp add: e bt_get_def)
  have "f' \<le> l' \<and> w < length (as[k := ?a])" if "bt_get claim w = Some (f', l')" for w f' l'
  proof -
    have "w \<noteq> k" using that none by auto
    with that Cons.prems(2) [of w f' l'] show ?thesis by (simp add: get)
  qed
  from Cons.IH [OF wf this] have IH: "length (attribute_claims claim edits (as[k := ?a])) = length as"
    "\<And>w. w < length as \<Longrightarrow> attribute_claims claim edits (as[k := ?a]) ! w =
      (case bt_get claim w of
         Some (f, l) \<Rightarrow> Some \<lparr>at_run = \<lparr>run_first = f, run_last = l\<rparr>,
           at_edits = (case bt_get edits w of Some e \<Rightarrow> e | None \<Rightarrow> CharEdits_ZERO)\<rparr>
       | None \<Rightarrow> as[k := ?a] ! w)" by auto
  have "attribute_claims (e # claim) edits as = attribute_claims claim edits (as[k := ?a])"
    using k by (simp add: attribute_claims_def e run_through_def)
  with IH k show ?case by (auto simp: get none split: option.split)
qed (simp add: attribute_claims_def)

definition claimed_attribution :: "claims \<Rightarrow> (word_slot, char_edits) btree_map \<Rightarrow> attribution option list \<Rightarrow> word_slot \<Rightarrow> attribution option" where
  "claimed_attribution claim edits as w =
     (case bt_get claim w of
        Some (f, l) \<Rightarrow> Some \<lparr>at_run = \<lparr>run_first = f, run_last = l\<rparr>,
          at_edits = (case bt_get edits w of Some e \<Rightarrow> e | None \<Rightarrow> CharEdits_ZERO)\<rparr>
      | None \<Rightarrow> as ! w)"

lemma remap_residue_cases:
  assumes "length as = length words" and "fl \<le> length labels"
  obtains (too_long) nw nl where "nw > MAX_RESIDUE_ALIGN_CHARS \<or> nl > MAX_RESIDUE_ALIGN_CHARS"
      "nw = length (char_stream words fw)" "nl = length (char_stream labels fl)"
      "remap_residue words labels fw fl as = Some (Err (ResidueTooLongToAlign nw nl MAX_RESIDUE_ALIGN_CHARS))"
    | (placed) claim edits as' where "remap_residue words labels fw fl as = Some (Ok as')"
      "claims_ok (length words) (length labels) fw fl claim" "length as' = length as"
      "\<And>w. w < length as \<Longrightarrow> as' ! w = claimed_attribution claim edits as w"
proof -
  let ?ws = "char_stream words fw" and ?ls = "char_stream labels fl"
  consider (empty) "?ws = [] \<or> ?ls = []"
    | (long) "?ws \<noteq> []" "?ls \<noteq> []"
        "length ?ws > MAX_RESIDUE_ALIGN_CHARS \<or> length ?ls > MAX_RESIDUE_ALIGN_CHARS"
    | (fits) "?ws \<noteq> []" "?ls \<noteq> []" "length ?ws \<le> MAX_RESIDUE_ALIGN_CHARS" "length ?ls \<le> MAX_RESIDUE_ALIGN_CHARS"
    by linarith
  then show thesis
  proof cases
    case empty
    then show ?thesis by (intro placed [of as "[]" "[]"]) (auto simp: remap_residue_def claimed_attribution_def Let_def)
  next
    case long
    then show ?thesis by (intro too_long [of "length ?ws" "length ?ls"]) (auto simp: remap_residue_def Let_def)
  next
    case fits
    then have "length (map fst ?ws) + length (map fst ?ls) < usize_max"
      by (simp add: MAX_RESIDUE_ALIGN_CHARS_def usize_max_def)
    from align_chars_optimal [OF this, of "Exact :: unit match_mode"]
    obtain out where out: "align_chars (map fst ?ws) (map fst ?ls) (Exact :: unit match_mode) = Some out"
      and al: "aligned (char_matches LiteralExact) char_to_key (map fst ?ws) (map fst ?ls) 0 0 out"
      by (auto simp: Let_def)
    let ?t = "residue_tally_of (map snd ?ws) (map snd ?ls) (length labels) out"
    let ?owner = "label_owners fl (ry_shared ?t)"
    let ?st = "fold (claim_step ?owner (ry_unmatched ?t)) [fl..<length labels] ([], ry_edits ?t)"
    let ?st' = "bracket_loop words (ry_unmatched ?t) fw fl (Some fw) ?st"
    note own = residue_owners_sorted [OF al]
    have ok: "claims_ok (length words) (length labels) fw fl (fst ?st')"
      using own assms(2) by (intro bracket_loop_ok claims_ok_owned) auto
    have remap: "remap_residue words labels fw fl as = Some (Ok (attribute_claims (fst ?st') (snd ?st') as))"
      using fits out owners_sorted_monotone [of ?owner] own
      by (simp add: remap_residue_def Let_def case_prod_beta)
    have spec: "length (attribute_claims (fst ?st') (snd ?st') as) = length as \<and>
        (\<forall>w < length as. attribute_claims (fst ?st') (snd ?st') as ! w = claimed_attribution (fst ?st') (snd ?st') as w)"
      unfolding claimed_attribution_def using claims_okD(1,2) [OF ok] assms(1) by (intro attribute_claims_spec) auto
    show ?thesis by (rule placed [OF remap ok, of "snd ?st'"]) (use spec in \<open>blast+\<close>)
  qed
qed

subsection \<open>The stitch spells words\<close>

lemma len_utf8_append [simp]: "len_utf8 (a @ b) = len_utf8 a + len_utf8 b"
  by (simp add: len_utf8_def)

lemma char_to_key_nonempty [simp]: "char_to_key c \<noteq> []"
  by (simp add: char_to_key_def)

lemma len_utf8_zero [simp]: "len_utf8 a = 0 \<longleftrightarrow> a = []"
  by (cases a) (simp_all add: len_utf8_def)

lemma get_from_prefix: "get_from (a @ b) (len_utf8 a) = Some b"
proof (induction a)
  case Nil
  show ?case by (cases b) (simp_all add: len_utf8_def)
next
  case (Cons c a)
  have "len_utf8 (c # a) = length (char_to_key c) + len_utf8 a" by (simp add: len_utf8_def)
  with Cons show ?case by simp
qed

definition labels_text :: "text_chars list \<Rightarrow> nat \<Rightarrow> nat \<Rightarrow> text_chars" where
  "labels_text norms i j = concat (map ((!) norms) [i..<j])"

lemma labels_text_same [simp]: "labels_text norms i i = []"
  by (simp add: labels_text_def)

lemma labels_text_snoc: "i \<le> j \<Longrightarrow> labels_text norms i (Suc j) = labels_text norms i j @ norms ! j"
  by (simp add: labels_text_def)

lemma labels_text_split: "i \<le> j \<Longrightarrow> j \<le> k \<Longrightarrow> labels_text norms i k = labels_text norms i j @ labels_text norms j k"
proof -
  assume "i \<le> j" "j \<le> k"
  then have "[i..<k] = [i..<j] @ [j..<k]" by (metis le_iff_add upt_add_eq_append)
  then show ?thesis by (simp add: labels_text_def)
qed

lemma labels_text_pos:
  "i < j \<Longrightarrow> j \<le> length norms \<Longrightarrow> [] \<notin> set norms \<Longrightarrow> labels_text norms i j \<noteq> []"
  by (simp add: labels_text_def upt_conv_Cons) (metis nth_mem order_less_le_trans)

lemma labels_text_Cons: "i < j \<Longrightarrow> labels_text norms i j = norms ! i @ labels_text norms (Suc i) j"
  by (simp add: labels_text_def upt_conv_Cons)

lemma spell_loop_sound:
  "spell_loop norms word matched cursor = (True, c) \<Longrightarrow> word = before' @ rest \<Longrightarrow> matched = len_utf8 before' \<Longrightarrow>
     cursor < c \<and> c \<le> length norms \<and> labels_text norms cursor c = rest"
proof (induction norms word matched cursor arbitrary: before' rest rule: spell_loop.induct)
  case (1 norms word matched cursor)
  from "1.prems" have cursor: "cursor < length norms"
    by (subst (asm) spell_loop.simps) (auto split: if_splits)
  have get: "get_from word matched = Some rest" using "1.prems" by (simp add: get_from_prefix)
  from "1.prems"(1) cursor get have pre: "prefix (norms ! cursor) rest"
    by (subst (asm) spell_loop.simps) (auto simp: Let_def split: if_splits)
  then obtain rest' where rest': "rest = norms ! cursor @ rest'" by (auto simp: prefix_def)
  have len: "matched + len_utf8 (norms ! cursor) = len_utf8 word \<longleftrightarrow> rest' = []"
    using "1.prems"(2,3) by (simp add: rest')
  show ?case
  proof (cases "rest' = []")
    case True
    with "1.prems"(1) cursor get pre len have "c = Suc cursor"
      by (subst (asm) spell_loop.simps) (simp add: Let_def)
    with True cursor show ?thesis by (simp add: labels_text_Cons rest')
  next
    case False
    with "1.prems"(1) cursor get pre len
    have "spell_loop norms word (matched + len_utf8 (norms ! cursor)) (cursor + 1) = (True, c)"
      by (subst (asm) spell_loop.simps) (simp add: Let_def)
    with "1.IH" [OF cursor get refl _ refl refl, of "before' @ norms ! cursor" rest'] pre False len "1.prems"(2,3)
    have "cursor + 1 < c \<and> c \<le> length norms \<and> labels_text norms (cursor + 1) c = rest'"
      by (simp add: rest')
    then show ?thesis by (simp add: labels_text_Cons rest')
  qed
qed

lemma spell_loop_complete:
  "[] \<notin> set norms \<Longrightarrow> word = before' @ labels_text norms cursor c \<Longrightarrow> matched = len_utf8 before' \<Longrightarrow>
     cursor < c \<Longrightarrow> c \<le> length norms \<Longrightarrow> spell_loop norms word matched cursor = (True, c)"
proof (induction norms word matched cursor arbitrary: before' rule: spell_loop.induct)
  case (1 norms word matched cursor)
  let ?label = "norms ! cursor" and ?rest = "labels_text norms (Suc cursor) c"
  have cursor: "cursor < length norms" using "1.prems"(4,5) by simp
  have spelt: "labels_text norms cursor c = ?label @ ?rest" using "1.prems"(4) by (rule labels_text_Cons)
  have get: "get_from word matched = Some (?label @ ?rest)"
    using "1.prems"(2,3) by (simp add: spelt get_from_prefix)
  have len: "matched + len_utf8 ?label = len_utf8 word \<longleftrightarrow> ?rest = []"
    using "1.prems"(2,3) by (simp add: spelt)
  have empty: "?rest = [] \<longleftrightarrow> c = Suc cursor"
    using labels_text_pos [of "Suc cursor" c norms] "1.prems"(1,4,5) by (cases "c = Suc cursor") auto
  show ?case
  proof (cases "c = Suc cursor")
    case True
    with cursor get len empty show ?thesis by (subst spell_loop.simps) (simp add: Let_def)
  next
    case False
    then have "spell_loop norms word (matched + len_utf8 ?label) (cursor + 1) = (True, c)"
      using "1.IH" [OF cursor get refl _ refl refl, of "before' @ ?label"] len empty "1.prems"
      by (simp add: spelt)
    with False cursor get len empty show ?thesis by (subst spell_loop.simps) (simp add: Let_def)
  qed
qed

text \<open>
  \<open>stitched norms words i runs nx\<close>: \<open>runs\<close> are consecutive runs of labels from \<open>i\<close> up to \<open>nx\<close> that
  spell the first words, one after the other.
\<close>

fun stitched :: "text_chars list \<Rightarrow> word_track \<Rightarrow> nat \<Rightarrow> label_run list \<Rightarrow> nat \<Rightarrow> bool" where
  "stitched norms words i [] nx \<longleftrightarrow> nx = i"
| "stitched norms [] i (r # rs) nx \<longleftrightarrow> False"
| "stitched norms (w # words) i (r # rs) nx \<longleftrightarrow>
     run_first r = i \<and> i \<le> run_last r \<and> run_last r < length norms \<and> labels_text norms i (Suc (run_last r)) = w \<and>
     stitched norms words (Suc (run_last r)) rs nx"

lemma stitch_loop_spec:
  assumes "[] \<notin> set norms" and "[] \<notin> set words" and "i \<le> length norms"
  shows "\<exists>rs nx. stitch_loop norms words i runs = (runs @ rs, nx) \<and> stitched norms words i rs nx \<and> nx \<le> length norms \<and>
    (length rs = length words \<or>
     length rs < length words \<and> (\<forall>c. nx < c \<longrightarrow> c \<le> length norms \<longrightarrow> labels_text norms nx c \<noteq> words ! length rs))"
  using assms
proof (induction norms words i runs rule: stitch_loop.induct)
  case (2 norms w words i runs)
  obtain ok c where sp: "spell_loop norms w 0 i = (ok, c)" by force
  show ?case
  proof (cases "i < length norms \<and> ok")
    case False
    have "labels_text norms i c' \<noteq> w" if "i < c'" "c' \<le> length norms" for c'
    proof
      assume "labels_text norms i c' = w"
      with spell_loop_complete [of norms w "[]" i c' 0] that "2.prems"(1) sp False show False
        by (simp add: len_utf8_def)
    qed
    moreover have "stitch_loop norms (w # words) i runs = (runs, i)" using False sp by auto
    ultimately show ?thesis using "2.prems"(3) by (intro exI [of _ "[]"] exI [of _ i]) auto
  next
    case True
    with sp spell_loop_sound [of norms w 0 i c "[]" w]
    have c: "i < c" "c \<le> length norms" "labels_text norms i c = w" by (auto simp: len_utf8_def)
    let ?run = "\<lparr>run_first = i, run_last = c - 1\<rparr>"
    have run: "run_through i (c - 1) = Some ?run" using c(1) by (simp add: run_through_def)
    have loop: "stitch_loop norms (w # words) i runs = stitch_loop norms words c (runs @ [?run])"
      using True sp run by simp
    from "2.IH" [OF _ refl sp [symmetric] _ run] True "2.prems" c(2) obtain rs nx where
      "stitch_loop norms words c (runs @ [?run]) = ((runs @ [?run]) @ rs, nx)" "stitched norms words c rs nx"
      "nx \<le> length norms" "length rs = length words \<or>
        length rs < length words \<and> (\<forall>c. nx < c \<longrightarrow> c \<le> length norms \<longrightarrow> labels_text norms nx c \<noteq> words ! length rs)"
      by auto
    with c show ?thesis unfolding loop by (intro exI [of _ "?run # rs"] exI [of _ nx]) auto
  qed
qed auto

lemma stitched_runs:
  "stitched norms words i rs nx \<Longrightarrow> i \<le> nx \<and> length rs \<le> length words \<and>
     (\<forall>k < length rs. i \<le> run_first (rs ! k) \<and> run_first (rs ! k) \<le> run_last (rs ! k) \<and> run_last (rs ! k) < nx \<and>
        run_last (rs ! k) < length norms \<and>
        labels_text norms (run_first (rs ! k)) (Suc (run_last (rs ! k))) = words ! k) \<and>
     (\<forall>j k. j < k \<longrightarrow> k < length rs \<longrightarrow> run_last (rs ! j) < run_first (rs ! k))"
proof (induction norms words i rs nx rule: stitched.induct)
  case (3 norms w words i r rs nx)
  then have IH: "Suc (run_last r) \<le> nx" "length rs \<le> length words"
    "\<And>k. k < length rs \<Longrightarrow> Suc (run_last r) \<le> run_first (rs ! k) \<and> run_first (rs ! k) \<le> run_last (rs ! k) \<and>
       run_last (rs ! k) < nx \<and> run_last (rs ! k) < length norms \<and>
       labels_text norms (run_first (rs ! k)) (Suc (run_last (rs ! k))) = words ! k"
    "\<And>j k. j < k \<Longrightarrow> k < length rs \<Longrightarrow> run_last (rs ! j) < run_first (rs ! k)" by auto
  have "run_last ((r # rs) ! j) < run_first ((r # rs) ! k)" if "j < k" "k < length (r # rs)" for j k
    using that IH(3) [of "k - 1"] IH(4) [of "j - 1" "k - 1"] by (cases j; cases k) auto
  moreover have "i \<le> run_first ((r # rs) ! k) \<and> run_first ((r # rs) ! k) \<le> run_last ((r # rs) ! k) \<and>
      run_last ((r # rs) ! k) < nx \<and> run_last ((r # rs) ! k) < length norms \<and>
      labels_text norms (run_first ((r # rs) ! k)) (Suc (run_last ((r # rs) ! k))) = (w # words) ! k"
    if "k < length (r # rs)" for k
    using that IH(1) IH(3) [of "k - 1"] "3.prems" by (cases k) auto
  ultimately show ?case using IH(1,2) "3.prems" by auto
qed auto

subsection \<open>The tracks\<close>

lemma word_track_Ok:
  "word_track_of F ws = Ok words \<Longrightarrow>
     words = map (\<lambda>w. normalize_fa_alignment_unit F (fd_text w)) ws \<and> [] \<notin> set words"
  by (induction ws arbitrary: words) (auto simp: Let_def split: if_splits sum.splits)

lemma word_track_Err:
  "word_track_of F ws = Err r \<longleftrightarrow>
     r = NoLexicalContent \<and> (\<exists>w \<in> set ws. normalize_fa_alignment_unit F (fd_text w) = [])"
  by (induction ws) (auto simp: Let_def split: sum.splits dest: word_track_Ok)

definition token_norm :: "'f fa_ops \<Rightarrow> 'f fa_raw_token \<Rightarrow> text_chars" where
  "token_norm F t = normalize_fa_alignment_unit F (trim_text (rt_text t))"

definition token_onset :: "'f fa_ops \<Rightarrow> fa_window \<Rightarrow> string \<Rightarrow> 'f fa_raw_token \<Rightarrow> recorded_instant" where
  "token_onset F w engine t =
     \<lparr>ri_at = fw_start w + fo_whole_millis F (rt_time_s t), ri_recording = fw_recording w,
      ri_origin = EngineMeasured engine\<rparr>"

definition token_usable :: "'f fa_ops \<Rightarrow> fa_window \<Rightarrow> 'f fa_raw_token \<Rightarrow> bool" where
  "token_usable F w t \<longleftrightarrow> \<not> special_marker (trim_text (rt_text t)) \<and> token_norm F t \<noteq> [] \<and>
     fo_whole_millis F (rt_time_s t) \<le> window_len w"

lemma from_engine_tokens_loop_spec:
  assumes "window_wf w"
  shows "fst (from_engine_tokens_loop F w engine toks (ns, os) d) =
    (ns @ map (token_norm F) (filter (token_usable F w) toks),
     os @ map (token_onset F w engine) (filter (token_usable F w) toks))"
proof (induction toks arbitrary: ns os d)
  case (Cons t toks)
  consider (marker) "special_marker (trim_text (rt_text t)) \<or> token_norm F t = []"
    | (inside) "\<not> special_marker (trim_text (rt_text t))" "token_norm F t \<noteq> []"
        "fo_whole_millis F (rt_time_s t) \<le> window_len w"
    | (beyond) "\<not> special_marker (trim_text (rt_text t))" "token_norm F t \<noteq> []"
        "\<not> fo_whole_millis F (rt_time_s t) \<le> window_len w" by blast
  then show ?case
  proof cases
    case marker
    then show ?thesis using Cons.IH by (auto simp: Let_def token_usable_def token_norm_def)
  next
    case inside
    then show ?thesis using Cons.IH
      by (simp add: Let_def token_usable_def token_norm_def to_file_cases [OF assms] token_onset_def)
  next
    case beyond
    then show ?thesis using Cons.IH
      by (simp add: Let_def token_usable_def token_norm_def to_file_cases [OF assms])
  qed
qed simp

lemma from_engine_tokens_spec:
  assumes "window_wf w"
  shows "fst (from_engine_tokens F toks w engine d) =
    \<lparr>lt_norms = map (token_norm F) (filter (token_usable F w) toks),
     lt_onsets = map (token_onset F w engine) (filter (token_usable F w) toks), lt_window = w\<rparr>"
  using from_engine_tokens_loop_spec [OF assms, of F engine toks "[]" "[]" d]
  by (auto simp: from_engine_tokens_def split: prod.splits)

lemma token_onset_in: "window_wf w \<Longrightarrow> token_usable F w t \<Longrightarrow> instant_in w (token_onset F w engine t)"
  using window_offset [of w "fo_whole_millis F (rt_time_s t)"]
  by (simp add: token_usable_def instant_in_def token_onset_def word_le_nat_alt)

text \<open>A track whose onsets lie in its window, one per label, no label empty.\<close>

definition track_ok :: "label_track \<Rightarrow> bool" where
  "track_ok labels \<longleftrightarrow> window_wf (lt_window labels) \<and> length (lt_onsets labels) = length (lt_norms labels) \<and>
     [] \<notin> set (lt_norms labels) \<and> (\<forall>i \<in> set (lt_onsets labels). instant_in (lt_window labels) i)"

lemma from_engine_tokens_ok: "window_wf w \<Longrightarrow> track_ok (fst (from_engine_tokens F toks w engine d))"
  by (auto simp: track_ok_def from_engine_tokens_spec token_onset_in) (auto simp: token_usable_def)

lemma token_onsets_sorted:
  fixes toks :: "'f fa_raw_token list"
  assumes "window_wf w" and "sorted (map (\<lambda>t. fo_whole_millis F (rt_time_s t)) toks)"
  shows "sorted (map ri_at (map (token_onset F w engine) (filter (token_usable F w) toks)))"
proof -
  let ?f = "\<lambda>t. fo_whole_millis F (rt_time_s t)"
  have mono: "fw_start w + a \<le> fw_start w + b" if "a \<le> b" "b \<le> window_len w" for a b
    using window_offset [OF assms(1), of a] window_offset [OF assms(1), of b] that
    by (simp add: word_le_nat_alt)
  have "sorted (map (\<lambda>t. fw_start w + ?f t) ts)"
    if "sorted (map ?f ts)" "\<forall>t \<in> set ts. ?f t \<le> window_len w" for ts :: "'f fa_raw_token list"
    using that by (induction ts) (auto intro: mono)
  moreover have "\<forall>t \<in> set (filter (token_usable F w) toks). ?f t \<le> window_len w"
    by (simp add: token_usable_def)
  moreover have "map ri_at (map (token_onset F w engine) ts) = map (\<lambda>t. fw_start w + ?f t) ts" for ts
    by (simp add: token_onset_def)
  ultimately show ?thesis using sorted_filter [OF assms(2)] by metis
qed

lemma map_sum_Inr_iff: "map_sum f g r = Inr c \<longleftrightarrow> (\<exists>p. r = Inr p \<and> c = g p)"
  by (cases r) auto

subsection \<open>Outcomes\<close>

definition outcome_of :: "untimed_reason \<Rightarrow> label_track \<Rightarrow> attribution option \<Rightarrow> word_timing_outcome" where
  "outcome_of unplaced labels a = fst (lower_to_outcome unplaced labels a no_discards)"

lemma lower_all_outcomes: "fst (lower_all unplaced labels as d) = map (outcome_of unplaced labels) as"
proof (induction as arbitrary: d)
  case (Cons a as)
  have "fst (lower_to_outcome unplaced labels a d) = outcome_of unplaced labels a"
    by (auto simp: outcome_of_def lower_to_outcome_def Let_def split: option.splits sum.splits)
  with Cons show ?case by (auto simp: case_prod_beta Let_def)
qed simp

definition attrs_ok :: "nat \<Rightarrow> attribution option list \<Rightarrow> bool" where
  "attrs_ok n as \<longleftrightarrow>
     (\<forall>i a. i < length as \<longrightarrow> as ! i = Some a \<longrightarrow>
        run_first (at_run a) \<le> run_last (at_run a) \<and> run_last (at_run a) < n) \<and>
     (\<forall>i j a b. i < j \<longrightarrow> j < length as \<longrightarrow> as ! i = Some a \<longrightarrow> as ! j = Some b \<longrightarrow>
        run_last (at_run a) < run_first (at_run b))"

lemma span_for_Ok:
  assumes "track_ok labels" and "run_first r \<le> run_last r" and "run_last r < length (lt_norms labels)"
    and "span_for labels r = Ok c"
  defines "p \<equiv> clamped_value c"
  shows "ws_start p = lt_onsets labels ! run_first r" and "ri_at (ws_start p) < ri_at (ws_end p)"
    and "instant_in (lt_window labels) (ws_start p)" and "instant_in (lt_window labels) (ws_end p)"
    and "Suc (run_last r) < length (lt_norms labels) \<Longrightarrow> ri_at (ws_end p) = ri_at (lt_onsets labels ! Suc (run_last r))"
proof -
  let ?s = "lt_onsets labels ! run_first r"
  have inside: "instant_in (lt_window labels) ?s" using assms(1-3) by (auto simp: track_ok_def)
  have "ws_start p = ?s \<and> ri_at ?s < ri_at (ws_end p) \<and> instant_in (lt_window labels) (ws_end p) \<and>
    (Suc (run_last r) < length (lt_norms labels) \<longrightarrow> ri_at (ws_end p) = ri_at (lt_onsets labels ! Suc (run_last r)))"
  proof (cases "Suc (run_last r) < length (lt_norms labels)")
    case True
    let ?n = "lt_onsets labels ! Suc (run_last r)"
    from True assms(1,4) have c: "end_from_next_onset ?s ?n = Ok p"
      by (auto simp: span_for_def run_after_def track_ok_def p_def map_sum_Inr_iff)
    have "instant_in (lt_window labels) ?n" using True assms(1) by (auto simp: track_ok_def)
    with end_from_next_onset_Ok [OF c] show ?thesis by (simp add: instant_in_def)
  next
    case False
    with assms(1,4) have "end_assumed ?s LAST_WORD_FALLBACK_MS (lt_window labels) = Ok c"
      by (simp add: span_for_def run_after_def track_ok_def)
    from end_assumed_Ok [OF _ inside this] assms(1) False show ?thesis by (simp add: track_ok_def p_def)
  qed
  with inside show "ws_start p = ?s" "ri_at (ws_start p) < ri_at (ws_end p)"
    "instant_in (lt_window labels) (ws_start p)" "instant_in (lt_window labels) (ws_end p)"
    "Suc (run_last r) < length (lt_norms labels) \<Longrightarrow> ri_at (ws_end p) = ri_at (lt_onsets labels ! Suc (run_last r))"
    by simp_all
qed

lemma stitched_attributions_eq:
  assumes "length runs \<le> n"
  shows "stitched_attributions n runs =
    map (\<lambda>r. Some \<lparr>at_run = r, at_edits = CharEdits_ZERO\<rparr>) runs @ replicate (n - length runs) None"
proof -
  let ?f = "\<lambda>(idx, run) acc. acc[idx := Some \<lparr>at_run = run, at_edits = CharEdits_ZERO\<rparr>]"
  have "fold ?f (enumerate k runs) (xs @ replicate m None) =
      xs @ map (\<lambda>r. Some \<lparr>at_run = r, at_edits = CharEdits_ZERO\<rparr>) runs @ replicate (m - length runs) None"
    if "length xs = k" "length runs \<le> m" for k m and xs :: "attribution option list" and runs
    using that
  proof (induction runs arbitrary: k xs m)
    case (Cons r runs)
    obtain m' where m: "m = Suc m'" using Cons.prems(2) by (cases m) auto
    from Cons.IH [of "xs @ [Some \<lparr>at_run = r, at_edits = CharEdits_ZERO\<rparr>]" "Suc k" m'] Cons.prems
    show ?case by (simp add: m list_update_append)
  qed simp
  from this [of "[]" 0 runs n] assms show ?thesis by (simp add: stitched_attributions_def)
qed

lemma claimed_after_runs:
  assumes c: "claims_ok nwords n (length runs) nx claim"
    and b: "base ! i = (if i < length runs then Some \<lparr>at_run = runs ! i, at_edits = CharEdits_ZERO\<rparr> else None)"
  shows "i < length runs \<Longrightarrow> claimed_attribution claim edits base i = Some \<lparr>at_run = runs ! i, at_edits = CharEdits_ZERO\<rparr>"
    and "claimed_attribution claim edits base i = Some a \<Longrightarrow> \<not> i < length runs \<Longrightarrow>
      bt_get claim i = Some (run_first (at_run a), run_last (at_run a))"
proof -
  have "bt_get claim i = None" if "i < length runs"
    using claims_okD(2) [OF c, of i] that by (cases "bt_get claim i") auto
  then show "i < length runs \<Longrightarrow> claimed_attribution claim edits base i = Some \<lparr>at_run = runs ! i, at_edits = CharEdits_ZERO\<rparr>"
    by (simp add: claimed_attribution_def b)
  show "claimed_attribution claim edits base i = Some a \<Longrightarrow> \<not> i < length runs \<Longrightarrow>
      bt_get claim i = Some (run_first (at_run a), run_last (at_run a))"
    by (auto simp: claimed_attribution_def b split: option.splits)
qed

lemma attrs_ok_claimed:
  assumes c: "claims_ok nwords (length norms) (length runs) nx claim" and st: "stitched norms words 0 runs nx"
    and nth: "\<And>i. i < length as \<Longrightarrow> as ! i = claimed_attribution claim edits base i"
    and b: "\<And>i. i < length as \<Longrightarrow>
      base ! i = (if i < length runs then Some \<lparr>at_run = runs ! i, at_edits = CharEdits_ZERO\<rparr> else None)"
  shows "attrs_ok (length norms) as"
proof -
  note runs = stitched_runs [OF st]
  have at: "if i < length runs then at_run a = runs ! i
      else bt_get claim i = Some (run_first (at_run a), run_last (at_run a))"
    if "i < length as" "as ! i = Some a" for i a
    using that nth [OF that(1)] claimed_after_runs [OF c b [OF that(1)], of edits] by auto
  have one: "run_first (at_run a) \<le> run_last (at_run a) \<and> run_last (at_run a) < length norms"
    if "i < length as" "as ! i = Some a" for i a
    using at [OF that] runs claims_okD(2) [OF c, of i "run_first (at_run a)" "run_last (at_run a)"]
    by (auto split: if_splits)
  have two: "run_last (at_run x) < run_first (at_run y)"
    if "i < j" "j < length as" "as ! i = Some x" "as ! j = Some y" for i j x y
  proof -
    consider "j < length runs" | "i < length runs" "\<not> j < length runs" | "\<not> i < length runs" "\<not> j < length runs"
      using that(1) by linarith
    then show ?thesis
    proof cases
      case 1
      with that at [of i x] at [of j y] runs show ?thesis by auto
    next
      case 2
      with that at [of i x] runs have "run_last (at_run x) < nx" by auto
      moreover have "nx \<le> run_first (at_run y)"
        using 2 that at [of j y] claims_okD(2) [OF c, of j "run_first (at_run y)" "run_last (at_run y)"] by auto
      ultimately show ?thesis by simp
    next
      case 3
      with that at [of i x] at [of j y] claims_okD(3) [OF c that(1)] show ?thesis by auto
    qed
  qed
  from one two show ?thesis unfolding attrs_ok_def by blast
qed

text \<open>
  Either the whole group is refused, or every word has an attribution or none, the runs are
  disjoint and in word order, and the words the stitch identified keep exactly their runs.
\<close>

lemma map_labels_cases:
  fixes F :: "'f fa_ops" and w :: fa_window and toks engine
  assumes wf: "window_wf w"
  defines "labels \<equiv> fst (from_engine_tokens F toks w engine no_discards)"
  obtains (refused) m reason where "map_labels_to_words F ws toks w engine = Some m"
      "lm_outcomes m = replicate (length ws) (Untimed reason)"
      "reason = NoLexicalContent \<and> (\<exists>x \<in> set ws. normalize_fa_alignment_unit F (fd_text x) = []) \<or>
       reason = NoUsableLabels \<and> lt_norms labels = []"
    | (mapped) m unplaced as runs nx where "map_labels_to_words F ws toks w engine = Some m"
      "lm_outcomes m = map (outcome_of unplaced labels) as" "length as = length ws"
      "attrs_ok (length (lt_norms labels)) as"
      "stitched (lt_norms labels) (map (\<lambda>x. normalize_fa_alignment_unit F (fd_text x)) ws) 0 runs nx"
      "length runs \<le> length ws"
      "length runs = length ws \<or> (\<forall>c. nx < c \<longrightarrow> c \<le> length (lt_norms labels) \<longrightarrow>
         labels_text (lt_norms labels) nx c \<noteq> normalize_fa_alignment_unit F (fd_text (ws ! length runs)))"
      "\<And>i. i < length runs \<Longrightarrow> as ! i = Some \<lparr>at_run = runs ! i, at_edits = CharEdits_ZERO\<rparr>"
      "unplaced = NoLabelSpan \<or> (\<exists>a b. unplaced = ResidueTooLongToAlign a b MAX_RESIDUE_ALIGN_CHARS)"
proof -
  obtain d where tr: "from_engine_tokens F toks w engine no_discards = (labels, d)"
    unfolding labels_def by (metis prod.collapse)
  have ok: "track_ok labels" unfolding labels_def by (rule from_engine_tokens_ok [OF wf])
  let ?n = "length (lt_norms labels)"
  show thesis
  proof (cases "word_track_of F ws")
    case (Inl r)
    then have "r = NoLexicalContent \<and> (\<exists>x \<in> set ws. normalize_fa_alignment_unit F (fd_text x) = [])"
      using word_track_Err by blast
    with Inl show ?thesis by (intro refused [of "all_untimed (length ws) r no_discards (length toks)" r]) (simp_all add: map_labels_to_words_def all_untimed_def)
  next
    case (Inr words)
    note words = word_track_Ok [OF Inr]
    have lw: "length words = length ws" by (simp add: words)
    show ?thesis
    proof (cases "lt_norms labels = []")
      case True
      with Inr tr show ?thesis
        by (intro refused [of "all_untimed (length ws) NoUsableLabels d (length toks)" NoUsableLabels]) (simp_all add: map_labels_to_words_def all_untimed_def)
    next
      case False
      obtain runs nx where st: "stitch_in_order words labels = (runs, nx)" "stitched (lt_norms labels) words 0 runs nx"
          "nx \<le> ?n" "length runs = length words \<or> length runs < length words \<and>
            (\<forall>c. nx < c \<longrightarrow> c \<le> ?n \<longrightarrow> labels_text (lt_norms labels) nx c \<noteq> words ! length runs)"
        using stitch_loop_spec [of "lt_norms labels" words 0 "[]"] ok words
        by (auto simp: stitch_in_order_def track_ok_def)
      note runs = stitched_runs [OF st(2)]
      let ?as = "stitched_attributions (length ws) runs"
      have as: "?as = map (\<lambda>r. Some \<lparr>at_run = r, at_edits = CharEdits_ZERO\<rparr>) runs @
          replicate (length ws - length runs) None"
        using runs lw by (intro stitched_attributions_eq) simp
      have len: "length ?as = length ws" using runs lw by (simp add: as)
      have nth: "?as ! i = (if i < length runs then Some \<lparr>at_run = runs ! i, at_edits = CharEdits_ZERO\<rparr> else None)"
        if "i < length ws" for i using that by (simp add: as nth_append)
      have finish: thesis
        if "map_labels_to_words F ws toks w engine =
             Some \<lparr>lm_outcomes = fst (lower_all unplaced labels as d), lm_discarded = snd (lower_all unplaced labels as d),
               lm_tokens_reported = length toks\<rparr>"
          "length as = length ws" "attrs_ok ?n as"
          "\<And>i. i < length runs \<Longrightarrow> as ! i = Some \<lparr>at_run = runs ! i, at_edits = CharEdits_ZERO\<rparr>"
          "unplaced = NoLabelSpan \<or> (\<exists>a b. unplaced = ResidueTooLongToAlign a b MAX_RESIDUE_ALIGN_CHARS)"
        for unplaced as
        using that st(2,4) runs lw words
        by (intro mapped [of _ unplaced as runs nx]) (auto simp: lower_all_outcomes)
      have base: "attrs_ok ?n ?as"
        using runs by (auto simp: attrs_ok_def len nth split: if_splits)
      show ?thesis
      proof (cases "length runs < length words \<and> nx < ?n")
        case no: False
        show ?thesis
          by (rule finish [OF _ len base, of NoLabelSpan])
            (use Inr tr False st(1) no nth runs lw in \<open>auto simp: map_labels_to_words_def Let_def case_prod_beta\<close>)
      next
        case yes: True
        show ?thesis
        proof (rule remap_residue_cases [of ?as words nx "lt_norms labels" "length runs"])
          show "length ?as = length words" "nx \<le> ?n" using len lw st(3) by simp_all
        next
          fix nw nl
          assume r: "remap_residue words (lt_norms labels) (length runs) nx ?as =
              Some (Err (ResidueTooLongToAlign nw nl MAX_RESIDUE_ALIGN_CHARS))"
          have same: "take (length runs) ?as @ replicate (length ?as - length runs) None = ?as"
            by (simp add: as)
          show ?thesis
            by (rule finish [OF _ len base, of "ResidueTooLongToAlign nw nl MAX_RESIDUE_ALIGN_CHARS"])
              (use Inr tr False st(1) yes r same nth runs lw in
                \<open>auto simp: map_labels_to_words_def Let_def case_prod_beta\<close>)
        next
          fix claim edits as'
          assume r: "remap_residue words (lt_norms labels) (length runs) nx ?as = Some (Ok as')"
            and c: "claims_ok (length words) ?n (length runs) nx claim" and len': "length as' = length ?as"
            and nth': "\<And>i. i < length ?as \<Longrightarrow> as' ! i = claimed_attribution claim edits ?as i"
          have base': "?as ! i = (if i < length runs then Some \<lparr>at_run = runs ! i, at_edits = CharEdits_ZERO\<rparr> else None)"
            if "i < length as'" for i using nth that len len' by simp
          have keep: "as' ! i = Some \<lparr>at_run = runs ! i, at_edits = CharEdits_ZERO\<rparr>" if "i < length runs" for i
            using that yes lw len nth' [of i] claimed_after_runs(1) [OF c base', of i edits] len' by simp
          have "attrs_ok ?n as'"
            by (rule attrs_ok_claimed [OF c st(2) _ base']) (use nth' len' in auto)
          then show ?thesis
            by (intro finish [of NoLabelSpan as'])
              (use Inr tr False st(1) yes r len len' keep in
                \<open>auto simp: map_labels_to_words_def Let_def case_prod_beta\<close>)
        qed
      qed
    qed
  qed
qed

lemma outcome_of_timed:
  assumes ok: "track_ok labels" and run: "run_first (at_run a) \<le> run_last (at_run a)"
      "run_last (at_run a) < length (lt_norms labels)"
    and t: "outcome_of unplaced labels (Some a) = Timed t e"
  shows "e = at_edits a" and "ts_start_ms (wt_span t) = ri_at (lt_onsets labels ! run_first (at_run a))"
    and "timing_wf t" and "fw_start (lt_window labels) \<le> ts_start_ms (wt_span t)"
    and "ts_end_ms (wt_span t) \<le> fw_end (lt_window labels)"
    and "Suc (run_last (at_run a)) < length (lt_norms labels) \<Longrightarrow>
      ts_end_ms (wt_span t) = ri_at (lt_onsets labels ! Suc (run_last (at_run a)))"
proof -
  from t obtain c where c: "span_for labels (at_run a) = Ok c"
    and new: "word_timing_new (ri_at (ws_start (clamped_value c))) (ri_at (ws_end (clamped_value c)))
        (attributed_origin (at_edits a) (ri_origin (ws_start (clamped_value c))))
        (attributed_origin (at_edits a) (ri_origin (ws_end (clamped_value c)))) = Some t"
    and e: "e = at_edits a"
    by (auto simp: outcome_of_def lower_to_outcome_def Let_def split: sum.splits option.splits)
  note span = span_for_Ok [OF ok run c]
  show "e = at_edits a" by (rule e)
  show "ts_start_ms (wt_span t) = ri_at (lt_onsets labels ! run_first (at_run a))" "timing_wf t"
    "fw_start (lt_window labels) \<le> ts_start_ms (wt_span t)" "ts_end_ms (wt_span t) \<le> fw_end (lt_window labels)"
    using new span by (auto simp: word_timing_new_Some_iff timing_wf_def instant_in_def)
  show "ts_end_ms (wt_span t) = ri_at (lt_onsets labels ! Suc (run_last (at_run a)))"
    if "Suc (run_last (at_run a)) < length (lt_norms labels)"
    using new span(5) [OF that] by (auto simp: word_timing_new_Some_iff)
qed

lemma outcome_of_reason:
  assumes ok: "track_ok labels" and run: "run_first (at_run a) \<le> run_last (at_run a)"
      "run_last (at_run a) < length (lt_norms labels)"
    and t: "outcome_of unplaced labels (Some a) = Untimed r"
  shows "\<exists>fault. r = SpanRefused fault"
proof (cases "span_for labels (at_run a)")
  case (Inl fault)
  with t show ?thesis by (auto simp: outcome_of_def lower_to_outcome_def)
next
  case (Inr c)
  with t span_for_Ok(2) [OF ok run Inr] show ?thesis
    by (simp add: outcome_of_def lower_to_outcome_def Let_def word_timing_new_def)
qed

text \<open>
  C12. Every word of a group is answered, and no timing leaves the audio the engine was given. The
  attribution returns for every group, with one outcome per word; a timed word has a positive
  extent inside the request window; and two refusals the code keeps as a safeguard never happen:
  the character alignment never attributes labels out of order, and a span that was accepted is
  never refused as a timing.
\<close>

theorem label_timings_sound:
  assumes "window_wf w"
  shows "\<exists>m. map_labels_to_words F ws toks w engine = Some m \<and> length (lm_outcomes m) = length ws \<and>
    (\<forall>out \<in> set (lm_outcomes m). case out of
       Timed t e \<Rightarrow> timing_wf t \<and> fw_start w \<le> ts_start_ms (wt_span t) \<and> ts_end_ms (wt_span t) \<le> fw_end w
     | Untimed r \<Rightarrow> r \<noteq> NonMonotoneAttribution \<and> r \<noteq> TimingRefusedProvenSpan)"
proof (rule map_labels_cases [OF assms, where F = F and toks = toks and engine = engine and ws = ws])
  fix m reason
  assume "map_labels_to_words F ws toks w engine = Some m" and "lm_outcomes m = replicate (length ws) (Untimed reason)"
    and "reason = NoLexicalContent \<and> (\<exists>x \<in> set ws. normalize_fa_alignment_unit F (fd_text x) = []) \<or>
      reason = NoUsableLabels \<and> lt_norms (fst (from_engine_tokens F toks w engine no_discards)) = []"
  then show ?thesis by (intro exI [of _ m]) auto
next
  fix m unplaced as and runs :: "label_run list" and nx :: nat
  let ?labels = "fst (from_engine_tokens F toks w engine no_discards)"
  assume m: "map_labels_to_words F ws toks w engine = Some m" "lm_outcomes m = map (outcome_of unplaced ?labels) as"
    and len: "length as = length ws" and ok: "attrs_ok (length (lt_norms ?labels)) as"
    and u: "unplaced = NoLabelSpan \<or> (\<exists>a b. unplaced = ResidueTooLongToAlign a b MAX_RESIDUE_ALIGN_CHARS)"
  have tr: "track_ok ?labels" by (rule from_engine_tokens_ok [OF assms])
  have win: "lt_window ?labels = w" by (simp add: from_engine_tokens_spec [OF assms])
  have "case out of
       Timed t e \<Rightarrow> timing_wf t \<and> fw_start w \<le> ts_start_ms (wt_span t) \<and> ts_end_ms (wt_span t) \<le> fw_end w
     | Untimed r \<Rightarrow> r \<noteq> NonMonotoneAttribution \<and> r \<noteq> TimingRefusedProvenSpan"
    if "out \<in> set (lm_outcomes m)" for out
  proof -
    from that m(2) obtain i where i: "i < length as" "out = outcome_of unplaced ?labels (as ! i)"
      by (auto simp: in_set_conv_nth)
    show ?thesis
    proof (cases "as ! i")
      case None
      with i u show ?thesis by (auto simp: outcome_of_def lower_to_outcome_def)
    next
      case (Some a)
      with ok i(1) have run: "run_first (at_run a) \<le> run_last (at_run a)"
        "run_last (at_run a) < length (lt_norms ?labels)" by (auto simp: attrs_ok_def)
      show ?thesis
      proof (cases out)
        case (Timed t e)
        with i(2) Some have "outcome_of unplaced ?labels (Some a) = Timed t e" by simp
        from outcome_of_timed(3-5) [OF tr run this] Timed win show ?thesis by simp
      next
        case (Untimed r)
        with i(2) Some have "outcome_of unplaced ?labels (Some a) = Untimed r" by simp
        from outcome_of_reason [OF tr run this] Untimed show ?thesis by auto
      qed
    qed
  qed
  with m len show ?thesis by (intro exI [of _ m]) auto
qed

text \<open>
  C13. Timed words follow one another. When the engine reports its labels in time order, the words
  that get a timing are in order and never overlap, stitched and remapped words alike: a word ends
  no later than any later word begins.
\<close>

theorem timed_words_ordered:
  assumes "window_wf w" and "sorted (map (\<lambda>t. fo_whole_millis F (rt_time_s t)) toks)"
    and "map_labels_to_words F ws toks w engine = Some m" and "i < j" and "j < length ws"
    and "lm_outcomes m ! i = Timed t e" and "lm_outcomes m ! j = Timed t' e'"
  shows "ts_end_ms (wt_span t) \<le> ts_start_ms (wt_span t')"
proof (rule map_labels_cases [OF assms(1), where F = F and toks = toks and engine = engine and ws = ws])
  fix m' reason
  assume "map_labels_to_words F ws toks w engine = Some m'" "lm_outcomes m' = replicate (length ws) (Untimed reason)"
  with assms(3-6) show ?thesis by simp
next
  fix m' unplaced as
  let ?labels = "fst (from_engine_tokens F toks w engine no_discards)"
  assume m: "map_labels_to_words F ws toks w engine = Some m'" "lm_outcomes m' = map (outcome_of unplaced ?labels) as"
    and len: "length as = length ws" and ok: "attrs_ok (length (lt_norms ?labels)) as"
  have tr: "track_ok ?labels" by (rule from_engine_tokens_ok [OF assms(1)])
  have out: "lm_outcomes m ! k = outcome_of unplaced ?labels (as ! k)" if "k < length ws" for k
    using m assms(3) len that by simp
  have some: "\<exists>a. as ! k = Some a \<and> run_first (at_run a) \<le> run_last (at_run a) \<and>
      run_last (at_run a) < length (lt_norms ?labels) \<and> outcome_of unplaced ?labels (Some a) = Timed x y"
    if "k < length ws" "lm_outcomes m ! k = Timed x y" for k x y
    using that out [OF that(1)] ok len
    by (cases "as ! k") (auto simp: attrs_ok_def outcome_of_def lower_to_outcome_def)
  obtain a where a: "as ! i = Some a" "run_first (at_run a) \<le> run_last (at_run a)"
      "run_last (at_run a) < length (lt_norms ?labels)" "outcome_of unplaced ?labels (Some a) = Timed t e"
    using some [OF _ assms(6)] assms(4,5) by auto
  obtain b where b: "as ! j = Some b" "run_first (at_run b) \<le> run_last (at_run b)"
      "run_last (at_run b) < length (lt_norms ?labels)" "outcome_of unplaced ?labels (Some b) = Timed t' e'"
    using some [OF assms(5,7)] by auto
  have before: "run_last (at_run a) < run_first (at_run b)"
    using ok a(1) b(1) assms(4,5) len by (auto simp: attrs_ok_def)
  have "ts_end_ms (wt_span t) = ri_at (lt_onsets ?labels ! Suc (run_last (at_run a)))"
    using outcome_of_timed(6) [OF tr a(2-4)] before b(2,3) by simp
  moreover have "ts_start_ms (wt_span t') = ri_at (lt_onsets ?labels ! run_first (at_run b))"
    by (rule outcome_of_timed(2) [OF tr b(2-4)])
  moreover have "sorted (map ri_at (lt_onsets ?labels))"
    using token_onsets_sorted [OF assms(1,2)] by (simp add: from_engine_tokens_spec [OF assms(1)])
  moreover have "length (lt_onsets ?labels) = length (lt_norms ?labels)" using tr by (simp add: track_ok_def)
  ultimately show ?thesis
    using before b(2,3) sorted_nth_mono [of "map ri_at (lt_onsets ?labels)" "Suc (run_last (at_run a))"
        "run_first (at_run b)"] by simp
qed

text \<open>
  C27. The stitch is exact and as long as it can be. The words timed by the stitch are the longest
  initial run of words that consecutive labels spell letter for letter, starting at the first
  label; whatever happens to the words after them, each keeps the labels that spell it and is
  marked as exact.
\<close>

theorem stitch_exact:
  fixes F :: "'f fa_ops" and engine :: string
  assumes "window_wf w" and "\<forall>x \<in> set ws. normalize_fa_alignment_unit F (fd_text x) \<noteq> []"
    and "\<exists>t \<in> set toks. token_usable F w t"
  defines "labels \<equiv> fst (from_engine_tokens F toks w engine no_discards)"
  shows "\<exists>m unplaced runs nx. map_labels_to_words F ws toks w engine = Some m \<and> length runs \<le> length ws \<and>
    stitched (lt_norms labels) (map (\<lambda>x. normalize_fa_alignment_unit F (fd_text x)) ws) 0 runs nx \<and>
    (\<forall>i < length runs. lm_outcomes m ! i =
       outcome_of unplaced labels (Some \<lparr>at_run = runs ! i, at_edits = CharEdits_ZERO\<rparr>)) \<and>
    (length runs = length ws \<or> (\<forall>c. nx < c \<longrightarrow> c \<le> length (lt_norms labels) \<longrightarrow>
       labels_text (lt_norms labels) nx c \<noteq> normalize_fa_alignment_unit F (fd_text (ws ! length runs))))"
proof (rule map_labels_cases [OF assms(1), where F = F and toks = toks and engine = engine and ws = ws])
  fix m reason
  assume "reason = NoLexicalContent \<and> (\<exists>x \<in> set ws. normalize_fa_alignment_unit F (fd_text x) = []) \<or>
      reason = NoUsableLabels \<and> lt_norms (fst (from_engine_tokens F toks w engine no_discards)) = []"
  with assms(2,3) show ?thesis by (auto simp: from_engine_tokens_spec [OF assms(1)] filter_empty_conv)
next
  fix m unplaced as runs nx
  assume "map_labels_to_words F ws toks w engine = Some m"
    and "lm_outcomes m = map (outcome_of unplaced (fst (from_engine_tokens F toks w engine no_discards))) as"
    and "length as = length ws" and "length runs \<le> length ws"
    and "stitched (lt_norms (fst (from_engine_tokens F toks w engine no_discards)))
      (map (\<lambda>x. normalize_fa_alignment_unit F (fd_text x)) ws) 0 runs nx"
    and "length runs = length ws \<or> (\<forall>c. nx < c \<longrightarrow>
       c \<le> length (lt_norms (fst (from_engine_tokens F toks w engine no_discards))) \<longrightarrow>
       labels_text (lt_norms (fst (from_engine_tokens F toks w engine no_discards))) nx c \<noteq>
         normalize_fa_alignment_unit F (fd_text (ws ! length runs)))"
    and "\<And>i. i < length runs \<Longrightarrow> as ! i = Some \<lparr>at_run = runs ! i, at_edits = CharEdits_ZERO\<rparr>"
  then show ?thesis unfolding labels_def
    by (intro exI [of _ m] exI [of _ unplaced] exI [of _ runs] exI [of _ nx]) simp
qed

subsection \<open>A small group\<close>

definition ascii_ops :: "u64 fa_ops" where
  "ascii_ops = \<lparr>fo_to_lowercase = (\<lambda>c. [char_ascii_lower c]), fo_nfc = id,
     fo_is_alphanumeric = (\<lambda>c. 97 \<le> c \<and> c \<le> 122 \<or> 48 \<le> c \<and> c \<le> 57),
     fo_whole_millis = id, fo_model_score = (\<lambda>_. None)\<rparr>"

definition ten_seconds :: fa_window where
  "ten_seconds = \<lparr>fw_start = 0, fw_end = 10000, fw_recording = \<lparr>rec_duration = 10000\<rparr>\<rparr>"

definition word_ab :: fa_word where
  "word_ab = \<lparr>fd_utterance_index = 0, fd_utterance_word_index = 0, fd_text = [97, 98]\<rparr>"

definition token_at :: "text_chars \<Rightarrow> u64 \<Rightarrow> u64 fa_raw_token" where
  "token_at cs t = \<lparr>rt_text = cs, rt_time_s = t\<rparr>"

lemma ten_seconds_wf: "window_wf ten_seconds"
  by (simp add: window_wf_def ten_seconds_def)

lemmas small_group_simps = ascii_ops_def word_ab_def token_at_def normalize_fa_alignment_unit_def
  char_ascii_lower_def token_usable_def token_norm_def trim_text_def is_whitespace_def special_marker_def

theorem label_timings_sound_witness:
  "\<exists>m. map_labels_to_words ascii_ops [word_ab] [token_at [97] 100, token_at [98] 300] ten_seconds ''w'' = Some m \<and>
     length (lm_outcomes m) = 1"
  using label_timings_sound [OF ten_seconds_wf, of ascii_ops "[word_ab]" "[token_at [97] 100, token_at [98] 300]" "''w''"]
  by auto

theorem stitch_exact_witness:
  "\<exists>m runs nx. map_labels_to_words ascii_ops [word_ab] [token_at [97] 100, token_at [98] 300] ten_seconds ''w'' = Some m \<and>
     stitched [[97], [98]] [[97, 98]] 0 runs nx \<and> length runs = 1"
proof -
  let ?toks = "[token_at [97] 100, token_at [98] 300]"
  have u: "token_usable ascii_ops ten_seconds t" if "t \<in> set ?toks" for t
    using that by (auto simp: small_group_simps window_len_def since_def u64_sat_sub_def ten_seconds_def)
  then have labels: "lt_norms (fst (from_engine_tokens ascii_ops ?toks ten_seconds ''w'' no_discards)) = [[97], [98]]"
    by (simp add: from_engine_tokens_spec [OF ten_seconds_wf])
      (simp add: small_group_simps)
  have norm: "normalize_fa_alignment_unit ascii_ops (fd_text word_ab) = [97, 98]" by (simp add: small_group_simps)
  have "\<forall>x \<in> set [word_ab]. normalize_fa_alignment_unit ascii_ops (fd_text x) \<noteq> []" by (simp add: norm)
  moreover have "\<exists>t \<in> set ?toks. token_usable ascii_ops ten_seconds t" using u [of "token_at [97] 100"] by auto
  ultimately obtain m runs nx where m: "map_labels_to_words ascii_ops [word_ab] ?toks ten_seconds ''w'' = Some m"
      "stitched [[97], [98]] [[97, 98]] 0 runs nx" "length runs \<le> Suc 0"
      "length runs = Suc 0 \<or> (\<forall>c. nx < c \<longrightarrow> c \<le> Suc (Suc 0) \<longrightarrow> labels_text [[97], [98]] nx c \<noteq>
         normalize_fa_alignment_unit ascii_ops (fd_text ([word_ab] ! length runs)))"
    using stitch_exact [OF ten_seconds_wf, of "[word_ab]" ascii_ops ?toks "''w''"]
    by (simp add: labels norm) blast
  have "length runs = 1"
  proof (rule ccontr)
    assume "length runs \<noteq> 1"
    with m(2-4) have "labels_text [[97], [98]] 0 2 \<noteq> normalize_fa_alignment_unit ascii_ops (fd_text word_ab)"
      by (cases runs) (auto simp: numeral_2_eq_2)
    then show False by (simp add: norm labels_text_def upt_rec)
  qed
  with m show ?thesis by blast
qed

definition word_x :: "text_chars \<Rightarrow> fa_word" where
  "word_x cs = \<lparr>fd_utterance_index = 0, fd_utterance_word_index = 0, fd_text = cs\<rparr>"

lemma get_from_zero [simp]: "get_from cs 0 = Some cs"
  by (cases cs) simp_all

lemma aligned_enum:
  "aligned m key [] [] i j out \<longleftrightarrow> out = []"
  "aligned m key (p # ps) [] i j out \<longleftrightarrow>
     (\<exists>out'. out = ExtraPayload (key p) i # out' \<and> aligned m key ps [] (Suc i) j out')"
  "aligned m key [] (r # rs) i j out \<longleftrightarrow>
     (\<exists>out'. out = ExtraReference (key r) j # out' \<and> aligned m key [] rs i (Suc j) out')"
  "aligned m key (p # ps) (r # rs) i j out \<longleftrightarrow>
     (\<exists>out'. out = Match (key r) i j # out' \<and> m p r \<and> aligned m key ps rs (Suc i) (Suc j) out') \<or>
     (\<exists>out'. out = ExtraPayload (key p) i # out' \<and> aligned m key ps (r # rs) (Suc i) j out') \<or>
     (\<exists>out'. out = ExtraReference (key r) j # out' \<and> aligned m key (p # ps) rs i (Suc j) out')"
  by (cases out; (cases "hd out")?; auto)+

lemma aligned_ab_axb:
  assumes "aligned (char_matches LiteralExact) char_to_key [97, 98] [97, 120, 98] 0 0 out" and "gaps out \<le> 1"
  shows "out = [Match (char_to_key 97) 0 0, ExtraReference (char_to_key 120) 1, Match (char_to_key 98) 1 2]"
proof -
  have "gaps out \<le> 1 \<longrightarrow>
      out = [Match (char_to_key 97) 0 0, ExtraReference (char_to_key 120) 1, Match (char_to_key 98) 1 2]"
    using assms(1) by (simp add: aligned_enum char_matches_def) (elim disjE exE conjE; simp)
  with assms(2) show ?thesis by simp
qed

lemma align_ab_axb:
  "align_chars [97, 98] [97, 120, 98] (Exact :: unit match_mode) =
     Some [Match (char_to_key 97) 0 0, ExtraReference (char_to_key 120) 1, Match (char_to_key 98) 1 2]"
proof -
  have "length [97, 98 :: rust_char] + length [97, 120, 98 :: rust_char] < usize_max" by (simp add: usize_max_def)
  from align_chars_optimal [OF this, of "Exact :: unit match_mode"] obtain out where
    out: "align_chars [97, 98] [97, 120, 98] (Exact :: unit match_mode) = Some out"
      "aligned (char_matches LiteralExact) char_to_key [97, 98] [97, 120, 98] 0 0 out"
      "\<forall>out'. aligned (char_matches LiteralExact) char_to_key [97, 98] [97, 120, 98] 0 0 out' \<longrightarrow> gaps out \<le> gaps out'"
    by (auto simp: Let_def)
  have "aligned (char_matches LiteralExact) char_to_key [97, 98] [97, 120, 98] 0 0
      [Match (char_to_key 97) 0 0, ExtraReference (char_to_key 120) 1, Match (char_to_key 98) 1 2]"
    by (simp add: char_matches_def)
  with out(3) have "gaps out \<le> 1" by fastforce
  with out aligned_ab_axb show ?thesis by simp
qed

lemma remap_ab_axb:
  "remap_residue [[97, 98]] [[97], [120], [98]] 0 0 [None] =
     Some (Ok [Some \<lparr>at_run = \<lparr>run_first = 0, run_last = 2\<rparr>, at_edits = CharEdits_ZERO\<rparr>])"
  by (simp add: remap_residue_def char_stream_def upt_rec MAX_RESIDUE_ALIGN_CHARS_def align_ab_axb
    residue_tally_of_def bt_entry_def bt_get_def label_owners_def best_owner_def owners_are_monotone_def
    claim_step_def claim_label_def bracket_loop.simps(2) slot_after_def attribute_claims_def run_through_def
    CharEdits_ZERO_def add_label_only_def Let_def numeral_2_eq_2)

lemma align_ab_ab:
  "align_chars [97, 98] [97, 98] (Exact :: unit match_mode) =
     Some [Match (char_to_key 97) 0 0, Match (char_to_key 98) 1 1]"
proof -
  have "length [97, 98 :: rust_char] + length [97, 98 :: rust_char] < usize_max" by (simp add: usize_max_def)
  from align_chars_optimal [OF this, of "Exact :: unit match_mode"] obtain out where
    out: "align_chars [97, 98] [97, 98] (Exact :: unit match_mode) = Some out"
      "aligned (char_matches LiteralExact) char_to_key [97, 98] [97, 98] 0 0 out"
      "\<forall>out'. aligned (char_matches LiteralExact) char_to_key [97, 98] [97, 98] 0 0 out' \<longrightarrow> gaps out \<le> gaps out'"
    by (auto simp: Let_def)
  have "aligned (char_matches LiteralExact) char_to_key [97, 98] [97, 98] 0 0
      [Match (char_to_key 97) 0 0, Match (char_to_key 98) 1 1]"
    by (simp add: char_matches_def)
  with out(3) have "gaps out = 0" by fastforce
  then have "gaps out = 0 \<longrightarrow> out = [Match (char_to_key 97) 0 0, Match (char_to_key 98) 1 1]"
    using out(2) by (simp add: aligned_enum char_matches_def) (elim disjE exE conjE; simp)
  with \<open>gaps out = 0\<close> out(1) show ?thesis by simp
qed

lemma remap_a_b_ab:
  "remap_residue [[97], [98]] [[97, 98]] 0 0 [None, None] =
     Some (Ok [Some \<lparr>at_run = \<lparr>run_first = 0, run_last = 0\<rparr>, at_edits = CharEdits_ZERO\<rparr>, None])"
  by (simp add: remap_residue_def char_stream_def upt_rec MAX_RESIDUE_ALIGN_CHARS_def align_ab_ab
    residue_tally_of_def bt_entry_def bt_get_def label_owners_def best_owner_def owners_are_monotone_def
    claim_step_def claim_label_def bracket_loop.simps(2) next_placed.simps(2) slot_after_def attribute_claims_def run_through_def
    bracket_step_def left_bracket_def right_bracket_def slot_before_def
    CharEdits_ZERO_def add_label_only_def Let_def numeral_2_eq_2)

lemma ten_seconds_to_file:
  "t \<le> 10000 \<Longrightarrow> to_file ten_seconds t engine =
     Ok \<lparr>ri_at = t, ri_recording = \<lparr>rec_duration = 10000\<rparr>, ri_origin = EngineMeasured engine\<rparr>"
proof -
  have "window_len ten_seconds = 10000"
    by (simp add: window_len_def since_def u64_sat_sub_def ten_seconds_def)
  then show "t \<le> 10000 \<Longrightarrow> ?thesis"
    by (simp add: to_file_cases [OF ten_seconds_wf]) (simp add: ten_seconds_def)
qed

lemma token_at_eval:
  "rt_time_s (token_at cs t) = t" "rt_text (token_at cs t) = cs"
  by (simp_all add: token_at_def)

lemma ascii_normal:
  "\<forall>c \<in> set cs. 97 \<le> c \<and> c \<le> 122 \<Longrightarrow> trim_text cs = cs \<and> \<not> special_marker cs \<and>
     normalize_fa_alignment_unit ascii_ops cs = cs"
proof -
  assume letters: "\<forall>c \<in> set cs. 97 \<le> c \<and> c \<le> 122"
  then have ws: "\<not> is_whitespace c" if "c \<in> set cs" for c using that by (auto simp: is_whitespace_def)
  have "dropWhile is_whitespace xs = xs" if "set xs \<subseteq> set cs" for xs
    using that ws by (cases xs) auto
  then have "trim_text cs = cs" by (simp add: trim_text_def)
  moreover have "\<not> special_marker cs" using letters by (cases cs) (auto simp: special_marker_def)
  moreover have "concat (map (\<lambda>c. [char_ascii_lower c]) cs) = cs"
    using letters by (induction cs) (auto simp: char_ascii_lower_def)
  then have "normalize_fa_alignment_unit ascii_ops cs = cs"
    using letters by (simp add: normalize_fa_alignment_unit_def ascii_ops_def filter_id_conv)
  ultimately show ?thesis by blast
qed

lemma ascii_millis [simp]: "fo_whole_millis ascii_ops t = t"
  by (simp add: ascii_ops_def)

lemma small_outcome:
  assumes "word_track_of ascii_ops ws = Ok words"
    and "from_engine_tokens ascii_ops toks ten_seconds ''w'' no_discards = (labels, d)" and "lt_norms labels \<noteq> []"
    and "stitch_loop (lt_norms labels) words 0 [] = ([], 0)" and "words \<noteq> []"
    and "remap_residue words (lt_norms labels) 0 0 (replicate (length ws) None) = Some (Ok as)"
  shows "map_option lm_outcomes (map_labels_to_words ascii_ops ws toks ten_seconds ''w'') =
    Some (map (outcome_of NoLabelSpan labels) as)"
  using assms
  by (simp add: map_labels_to_words_def stitch_in_order_def stitched_attributions_def Let_def case_prod_beta
      lower_all_outcomes)

lemma outcome_of_None: "outcome_of unplaced labels None = Untimed unplaced"
  by (simp add: outcome_of_def lower_to_outcome_def)

definition measured_at :: "u64 \<Rightarrow> recorded_instant" where
  "measured_at t = \<lparr>ri_at = t, ri_recording = \<lparr>rec_duration = 10000\<rparr>, ri_origin = EngineMeasured ''w''\<rparr>"

definition exact_timing :: word_timing where
  "exact_timing = \<lparr>wt_span = \<lparr>ts_start_ms = 100, ts_end_ms = 600\<rparr>, wt_request_window = None, wt_model_score = None,
     wt_start_origin = EngineMeasured ''w'', wt_end_origin = FallbackDuration 500\<rparr>"

lemma exact_outcome:
  assumes "lt_window labels = ten_seconds" and "lt_onsets labels ! run_first r = measured_at 100"
    and "Suc (run_last r) = length (lt_onsets labels)"
  shows "outcome_of NoLabelSpan labels (Some \<lparr>at_run = r, at_edits = CharEdits_ZERO\<rparr>) = Timed exact_timing CharEdits_ZERO"
  using assms
  by (simp add: outcome_of_def lower_to_outcome_def span_for_def run_after_def end_assumed_def
      clamp_derived_end_def recording_clamp_def locate_def span_between_def word_timing_new_def Let_def
      attributed_origin_def is_exact_def CharEdits_ZERO_def measured_at_def ten_seconds_def
      exact_timing_def LAST_WORD_FALLBACK_MS_def)

lemma small_tokens:
  assumes "\<forall>(cs, t) \<in> set xs. cs \<noteq> [] \<and> (\<forall>c \<in> set cs. 97 \<le> c \<and> c \<le> 122) \<and> t \<le> 10000"
  shows "from_engine_tokens ascii_ops (map (\<lambda>(cs, t). token_at cs t) xs) ten_seconds ''w'' no_discards =
    (\<lparr>lt_norms = map fst xs, lt_onsets = map (\<lambda>x. measured_at (snd x)) xs, lt_window = ten_seconds\<rparr>, no_discards)"
proof -
  have "from_engine_tokens_loop ascii_ops ten_seconds ''w'' (map (\<lambda>(cs, t). token_at cs t) xs) (ns, os) d =
      ((ns @ map fst xs, os @ map (\<lambda>x. measured_at (snd x)) xs), d)" for ns os d
    using assms
    by (induction xs arbitrary: ns os)
      (auto simp: token_at_eval ascii_normal ten_seconds_to_file measured_at_def Let_def)
  then show ?thesis by (simp add: from_engine_tokens_def)
qed

lemma small_words:
  "\<forall>cs \<in> set xs. cs \<noteq> [] \<and> (\<forall>c \<in> set cs. 97 \<le> c \<and> c \<le> 122) \<Longrightarrow> word_track_of ascii_ops (map word_x xs) = Ok xs"
  by (induction xs) (auto simp: word_x_def ascii_normal Let_def)

text \<open>
  A word is called exact although its labels do not spell it. The counts of a remapped word
  leave out a label between its first and its last that matched nothing, and characters of its
  labels that matched another word. So a word \<^verbatim>\<open>ab\<close> given the labels \<^verbatim>\<open>a x b\<close>, and a word \<^verbatim>\<open>a\<close> given a
  label \<^verbatim>\<open>ab\<close> that merges two words, are reported with no unreconciled character, and their times
  are not marked as attributed by alignment.
\<close>

theorem exact_without_spelling:
  "map_option lm_outcomes (map_labels_to_words ascii_ops [word_x [97, 98]]
     [token_at [97] 100, token_at [120] 200, token_at [98] 300] ten_seconds ''w'') =
     Some [Timed exact_timing CharEdits_ZERO] \<and>
   map_option lm_outcomes (map_labels_to_words ascii_ops [word_x [97], word_x [98]] [token_at [97, 98] 100] ten_seconds ''w'') =
     Some [Timed exact_timing CharEdits_ZERO, Untimed NoLabelSpan] \<and>
   \<not> attributed_by_alignment (wt_start_origin exact_timing) \<and> \<not> attributed_by_alignment (wt_end_origin exact_timing)"
proof (intro conjI)
  have stitch: "stitch_loop [[97], [120], [98]] [[97, 98]] 0 [] = ([], 0)" "stitch_loop [[97, 98]] [[97], [98]] 0 [] = ([], 0)"
    by (simp_all add: spell_loop.simps len_utf8_def char_to_key_def)
  show "map_option lm_outcomes (map_labels_to_words ascii_ops [word_x [97, 98]]
     [token_at [97] 100, token_at [120] 200, token_at [98] 300] ten_seconds ''w'') =
     Some [Timed exact_timing CharEdits_ZERO]"
    using small_words [of "[[97, 98]]"] small_tokens [of "[([97], 100), ([120], 200), ([98], 300)]"] stitch(1) remap_ab_axb
    by (subst small_outcome) (auto simp: exact_outcome)
  show "map_option lm_outcomes (map_labels_to_words ascii_ops [word_x [97], word_x [98]] [token_at [97, 98] 100] ten_seconds ''w'') =
     Some [Timed exact_timing CharEdits_ZERO, Untimed NoLabelSpan]"
    using small_words [of "[[97], [98]]"] small_tokens [of "[([97, 98], 100)]"] stitch(2) remap_a_b_ab
    by (subst small_outcome) (auto simp: exact_outcome outcome_of_None)
qed (simp_all add: attributed_by_alignment_def exact_timing_def)

theorem timed_words_ordered_witness:
  "\<exists>m t t'. map_labels_to_words ascii_ops [word_x [97], word_x [98]] [token_at [97] 100, token_at [98] 300]
       ten_seconds ''w'' = Some m \<and>
     lm_outcomes m = [Timed t CharEdits_ZERO, Timed t' CharEdits_ZERO] \<and>
     ts_end_ms (wt_span t) \<le> ts_start_ms (wt_span t')"
proof -
  let ?ws = "[word_x [97], word_x [98]]" and ?toks = "[token_at [97] 100, token_at [98] 300]"
  have stitch: "stitch_loop [[97], [98]] [[97], [98]] 0 [] =
      ([\<lparr>run_first = 0, run_last = 0\<rparr>, \<lparr>run_first = 1, run_last = 1\<rparr>], 2)"
    by (simp add: spell_loop.simps len_utf8_def char_to_key_def run_through_def)
  obtain m t t' where m: "map_labels_to_words ascii_ops ?ws ?toks ten_seconds ''w'' = Some m"
      "lm_outcomes m = [Timed t CharEdits_ZERO, Timed t' CharEdits_ZERO]"
    using small_words [of "[[97], [98]]"] small_tokens [of "[([97], 100), ([98], 300)]"] stitch
    by (simp add: map_labels_to_words_def stitch_in_order_def stitched_attributions_def Let_def
        lower_to_outcome_def span_for_def run_after_def end_assumed_def end_from_next_onset_def relabelled_def
        clamp_derived_end_def recording_clamp_def locate_def span_between_def word_timing_new_def
        measured_at_def ten_seconds_def LAST_WORD_FALLBACK_MS_def del: stitch_loop.simps word_track_of.simps)
  have "sorted (map (\<lambda>t. fo_whole_millis ascii_ops (rt_time_s t)) ?toks)" by (simp add: token_at_eval)
  from timed_words_ordered [OF ten_seconds_wf this m(1), of 0 1] m show ?thesis by auto
qed

subsection \<open>Engines that report intervals\<close>

definition indexed_usable :: "fa_window \<Rightarrow> 'f fa_indexed_timing \<Rightarrow> bool" where
  "indexed_usable w it \<longleftrightarrow> it_start_ms it < it_end_ms it \<and> it_end_ms it \<le> window_len w"

definition indexed_timing :: "'f fa_ops \<Rightarrow> fa_window \<Rightarrow> string \<Rightarrow> 'f fa_indexed_timing \<Rightarrow> word_timing" where
  "indexed_timing F w engine it =
     \<lparr>wt_span = \<lparr>ts_start_ms = fw_start w + it_start_ms it, ts_end_ms = fw_start w + it_end_ms it\<rparr>,
      wt_request_window = None, wt_model_score = Option.bind (it_confidence it) (fo_model_score F),
      wt_start_origin = EngineMeasured engine, wt_end_origin = EngineMeasured engine\<rparr>"

lemma window_offset_less:
  assumes "window_wf w" and "b \<le> window_len w" and "a \<le> window_len w"
  shows "fw_start w + a < fw_start w + b \<longleftrightarrow> a < b"
  using window_offset [OF assms(1,2)] window_offset [OF assms(1,3)] by (simp add: word_less_nat_alt)

lemma indexed_outcome_timed:
  assumes "window_wf w" and "indexed_usable w it"
  shows "fst (indexed_outcome F w engine (Some it) d) = Timed (indexed_timing F w engine it) CharEdits_ZERO"
proof -
  from assms(2) have le: "it_start_ms it \<le> window_len w" "it_end_ms it \<le> window_len w"
    by (auto simp: indexed_usable_def)
  then have "fw_start w + it_start_ms it < fw_start w + it_end_ms it"
    using assms by (simp add: window_offset_less indexed_usable_def)
  with le show ?thesis
    by (auto simp: indexed_outcome_def to_file_cases [OF assms(1)] span_measured_def span_between_def
        word_timing_new_def indexed_timing_def with_model_score_def Let_def split: option.splits)
qed

lemma indexed_outcome_untimed:
  assumes "window_wf w" and "\<not> indexed_usable w it"
  shows "\<exists>r. fst (indexed_outcome F w engine (Some it) d) = Untimed r \<and>
    (r \<in> range ReportedOutsideWindow \<or> r \<in> range SpanRefused)"
proof (cases "it_start_ms it \<le> window_len w \<and> it_end_ms it \<le> window_len w")
  case True
  then have "\<not> fw_start w + it_start_ms it < fw_start w + it_end_ms it"
    using assms by (simp add: window_offset_less indexed_usable_def)
  with True show ?thesis
    by (auto simp: indexed_outcome_def to_file_cases [OF assms(1)] span_measured_def span_between_def Let_def
        split: option.splits)
next
  case False
  then show ?thesis
    by (auto simp: indexed_outcome_def to_file_cases [OF assms(1)] Let_def split: option.splits)
qed

lemma indexed_outcome_score:
  "dt_labels_rejected (snd (indexed_outcome F w engine x d)) = dt_labels_rejected d \<and>
   dt_assumed_then_clamped (snd (indexed_outcome F w engine x d)) = dt_assumed_then_clamped d \<and>
   dt_invalid_model_score (snd (indexed_outcome F w engine x d)) = dt_invalid_model_score d +
     (case x of Some it \<Rightarrow> (case it_confidence it of Some c \<Rightarrow> if fo_model_score F c = None then 1 else 0 | None \<Rightarrow> 0)
      | None \<Rightarrow> 0)"
  by (auto simp: indexed_outcome_def record_invalid_model_score_def Let_def split: option.splits)

lemma apply_indexed_lengths [simp]: "length (fst (apply_indexed_timings F w engine ts d)) = length ts"
  by (induction ts arbitrary: d) (auto simp: case_prod_beta Let_def)

text \<open>
  C28. Reported word intervals are taken whole or not at all. A response with another number of
  timings than words is refused with both numbers; otherwise a word is timed exactly when the
  engine gave it an interval of positive length that ends within the audio, at that interval shifted
  to the window's start, both ends marked as measured, with the score if it is a valid one.
\<close>

theorem indexed_response_exact:
  assumes "window_wf w"
  shows "align_fa_response F (IndexedWordLevel ts) ws w engine = Some
    (if length ts = length ws
     then Ok (map (\<lambda>x. case x of
          Some it \<Rightarrow> if indexed_usable w it then Some (indexed_timing F w engine it) else None
        | None \<Rightarrow> None) ts)
     else Err (IndexedCountMismatch (length ws) (length ts)))"
proof -
  have one: "into_timing (fst (indexed_outcome F w engine x d)) =
      (case x of Some it \<Rightarrow> if indexed_usable w it then Some (indexed_timing F w engine it) else None | None \<Rightarrow> None)" for x d
  proof (cases x)
    case None
    then show ?thesis by (simp add: indexed_outcome_def)
  next
    case (Some it)
    then show ?thesis
      using indexed_outcome_timed [OF assms, of it F engine d] indexed_outcome_untimed [OF assms, of it F engine d]
      by (cases "indexed_usable w it") auto
  qed
  have "lower_outcomes (fst (apply_indexed_timings F w engine ts d)) = map (\<lambda>x. case x of
          Some it \<Rightarrow> if indexed_usable w it then Some (indexed_timing F w engine it) else None
        | None \<Rightarrow> None) ts" for d
    by (induction ts arbitrary: d) (simp_all add: lower_outcomes_def case_prod_beta Let_def one)
  then show ?thesis by (simp add: align_fa_response_def indexed_pair_def)
qed

theorem indexed_response_exact_witness:
  "align_fa_response ascii_ops (IndexedWordLevel [None, Some \<lparr>it_start_ms = 100, it_end_ms = 10001, it_confidence = None\<rparr>])
     [word_x [97], word_x [98]] ten_seconds ''w'' = Some (Ok [None, None])"
proof -
  have "\<not> indexed_usable ten_seconds \<lparr>it_start_ms = 100, it_end_ms = 10001, it_confidence = None :: u64 option\<rparr>"
    by (simp add: indexed_usable_def window_len_def since_def u64_sat_sub_def ten_seconds_def)
  then show ?thesis
    using indexed_response_exact [OF ten_seconds_wf, of ascii_ops
        "[None, Some \<lparr>it_start_ms = 100, it_end_ms = 10001, it_confidence = None\<rparr>]" "[word_x [97], word_x [98]]" "''w''"]
    by simp
qed

subsection \<open>The warning of a group\<close>

definition untimed_total :: "untimed_words \<Rightarrow> nat" where
  "untimed_total u = rejections_total (un_rejected u) + un_no_timing_from_host u + un_timing_refused_proven_span u"

fun counted_reason :: "untimed_reason \<Rightarrow> bool" where
  "counted_reason NoTimingFromHost = True"
| "counted_reason (SpanRefused _) = True"
| "counted_reason (ReportedOutsideWindow _) = True"
| "counted_reason TimingRefusedProvenSpan = True"
| "counted_reason _ = False"

fun counted :: "word_timing_outcome \<Rightarrow> bool" where
  "counted (Untimed r) = counted_reason r"
| "counted (Timed _ _) = False"

lemma untimed_total_fold:
  "untimed_total (fold untimed_word outs u) = untimed_total u + length (filter counted outs)"
proof (induction outs arbitrary: u)
  case (Cons x outs)
  have "untimed_total (untimed_word x u) = untimed_total u + (if counted x then 1 else 0)"
    by (cases x) (auto simp: untimed_word_def untimed_total_def rejections_total_def record_span_fault_def
        record_outside_def split: untimed_reason.splits span_fault.splits outside_window.splits)
  with Cons show ?case by simp
qed simp

lemma warn_silent_iff:
  "warn_if_any d outs = None \<longleftrightarrow>
     (\<forall>x \<in> set outs. \<not> counted x) \<and> rejections_total (dt_labels_rejected d) = 0 \<and>
     dt_assumed_then_clamped d = 0 \<and> dt_invalid_model_score d = 0"
proof -
  have "warning_notable (group_tally d outs) = untimed_total (untimed_words_of outs) +
      rejections_total (dt_labels_rejected d) + dt_assumed_then_clamped d + dt_invalid_model_score d"
    by (simp add: warning_notable_def warning_unusable_def warning_adjustments_def group_tally_def untimed_total_def)
  then show ?thesis
    by (simp add: warn_if_any_def Let_def untimed_words_of_def untimed_total_fold filter_empty_conv)
      (auto simp: untimed_total_def no_rejections_def rejections_total_def)
qed

text \<open>
  Nothing is lost without a word in the log. For an engine that reports intervals, the group's
  warning is silent exactly when the engine gave every word a usable interval and every score it
  gave is valid.
\<close>

theorem indexed_silent_iff:
  assumes "window_wf w" and "apply_indexed_timings F w engine ts no_discards = (outs, d)"
  shows "warn_if_any d outs = None \<longleftrightarrow>
    (\<forall>x \<in> set ts. \<exists>it. x = Some it \<and> indexed_usable w it \<and>
       (\<forall>c. it_confidence it = Some c \<longrightarrow> fo_model_score F c \<noteq> None))"
proof -
  have one: "\<not> counted (fst (indexed_outcome F w engine x d0)) \<longleftrightarrow> (\<exists>it. x = Some it \<and> indexed_usable w it)" for x d0
  proof (cases x)
    case None
    then show ?thesis by (simp add: indexed_outcome_def)
  next
    case (Some it)
    then show ?thesis
      using indexed_outcome_timed [OF assms(1), of it F engine d0] indexed_outcome_untimed [OF assms(1), of it F engine d0]
      by (cases "indexed_usable w it") auto
  qed
  have a: "(\<forall>x \<in> set (fst (apply_indexed_timings F w engine ts d0)). \<not> counted x) \<longleftrightarrow>
        (\<forall>x \<in> set ts. \<exists>it. x = Some it \<and> indexed_usable w it)" for d0
    by (induction ts arbitrary: d0) (simp_all add: case_prod_beta Let_def one)
  have b: "dt_labels_rejected (snd (apply_indexed_timings F w engine ts d0)) = dt_labels_rejected d0 \<and>
        dt_assumed_then_clamped (snd (apply_indexed_timings F w engine ts d0)) = dt_assumed_then_clamped d0 \<and>
        (dt_invalid_model_score (snd (apply_indexed_timings F w engine ts d0)) = 0 \<longleftrightarrow> dt_invalid_model_score d0 = 0 \<and>
         (\<forall>x \<in> set ts. \<forall>it c. x = Some it \<longrightarrow> it_confidence it = Some c \<longrightarrow> fo_model_score F c \<noteq> None))" for d0
  proof (induction ts arbitrary: d0)
    case (Cons x ts)
    then show ?case using indexed_outcome_score [of F w engine x d0]
      by (auto simp: case_prod_beta Let_def split: option.splits if_splits)
  qed simp
  have zero: "rejections_total (dt_labels_rejected no_discards) = 0" "dt_assumed_then_clamped no_discards = 0"
    "dt_invalid_model_score no_discards = 0"
    by (simp_all add: no_discards_def no_rejections_def rejections_total_def)
  have "(\<forall>x \<in> set outs. \<not> counted x) \<longleftrightarrow> (\<forall>x \<in> set ts. \<exists>it. x = Some it \<and> indexed_usable w it)"
    using a [of no_discards] by (simp add: assms(2))
  moreover have "rejections_total (dt_labels_rejected d) = 0 \<and> dt_assumed_then_clamped d = 0 \<and>
      (dt_invalid_model_score d = 0 \<longleftrightarrow>
        (\<forall>x \<in> set ts. \<forall>it c. x = Some it \<longrightarrow> it_confidence it = Some c \<longrightarrow> fo_model_score F c \<noteq> None))"
    using b [of no_discards] by (simp add: assms(2) zero)
  moreover have "(\<forall>x \<in> set ts. \<exists>it. x = Some it \<and> indexed_usable w it) \<and>
      (\<forall>x \<in> set ts. \<forall>it c. x = Some it \<longrightarrow> it_confidence it = Some c \<longrightarrow> fo_model_score F c \<noteq> None) \<longleftrightarrow>
    (\<forall>x \<in> set ts. \<exists>it. x = Some it \<and> indexed_usable w it \<and>
       (\<forall>c. it_confidence it = Some c \<longrightarrow> fo_model_score F c \<noteq> None))"
    unfolding ball_conj_distrib [symmetric] by (intro ball_cong refl) auto
  ultimately show ?thesis by (simp only: warn_silent_iff simp_thms)
qed

theorem indexed_silent_iff_witness:
  "\<exists>outs d. apply_indexed_timings ascii_ops ten_seconds ''w'' [None] no_discards = (outs, d) \<and>
     warn_if_any d outs \<noteq> None"
proof -
  obtain outs d where o: "apply_indexed_timings ascii_ops ten_seconds ''w'' [None] no_discards = (outs, d)"
    by force
  with indexed_silent_iff [OF ten_seconds_wf o] show ?thesis by simp
qed

end
