(* ===== verification/Fa_Postprocess.thy ===== *)
theory Fa_Postprocess
  imports Fa_Timing Engines
begin

text \<open>
  From aligned word timings to the bullets of an utterance
  (\<^verbatim>\<open>crates/batchalign/src/chat_ops/fa/postprocess.rs\<close>, policies in \<^verbatim>\<open>chat_ops/fa/mod.rs\<close>): healing of
  gaps, rebalancing of near-zero words with a neighbour, clamping to a retained utterance bullet, the
  final settlement of each timing inside its request window, and the counts of what was dropped and
  of where the surviving numbers came from. The utterance, a value of the external CHAT model, enters
  as what the code reads of it (\<^verbatim>\<open>utterance_view\<close>): its main bullet, whether it has a \<^verbatim>\<open>%wor\<close> tier, and
  which of its words are fillers. The write-back is the list of the words' new timings.
\<close>

subsection \<open>Policies and state\<close>

datatype word_gap_healing = Heal | PreserveMeasured
datatype existing_wor_boundary_policy = Preserve | RebuildFromEvidence
datatype bullet_source = Authoritative | UtrHint

record word_end_policy =
  we_gap_healing :: word_gap_healing
  we_resolution :: fa_timing_resolution

definition word_end_policy_for_engine :: "fa_engine_name \<Rightarrow> word_gap_healing \<Rightarrow> word_end_policy" where
  "word_end_policy_for_engine engine gap_healing =
     \<lparr>we_gap_healing = gap_healing, we_resolution = fs_timing_resolution (fa_spec engine)\<rparr>"

definition heals :: "word_end_policy \<Rightarrow> bool" where
  "heals p \<longleftrightarrow> we_gap_healing p = Heal"

definition ends_are_derived :: "word_end_policy \<Rightarrow> bool" where
  "ends_are_derived p \<longleftrightarrow> we_resolution p = TokenOnsets"

record bullet =
  bl_source :: bullet_source
  bl_timing :: time_span

record utterance_view =
  uv_bullet :: "bullet option"
  uv_has_wor :: bool
  uv_filler :: "bool list"
  uv_compound_filler :: "bool list"

record pending_timing =
  pt_span :: time_span
  pt_request_window :: "fa_window option"
  pt_model_score :: "model_alignment_score option"
  pt_start_origin :: origin
  pt_end_origin :: origin

definition pt_start :: "pending_timing \<Rightarrow> u64" where "pt_start t = ts_start_ms (pt_span t)"
definition pt_end :: "pending_timing \<Rightarrow> u64" where "pt_end t = ts_end_ms (pt_span t)"

definition pt_duration :: "pending_timing \<Rightarrow> u64" where
  "pt_duration t = duration_ms (pt_span t)"

record dropped_word_timings =
  dw_clamped_to_utterance_boundary :: nat
  dw_without_extent :: nat

definition dropped_total :: "dropped_word_timings \<Rightarrow> nat" where
  "dropped_total d = dw_clamped_to_utterance_boundary d + dw_without_extent d"

record postprocess_outcome =
  po_dropped :: dropped_word_timings
  po_provenance :: provenance_tally

subsection \<open>One pending timing\<close>

definition from_aligned :: "word_timing \<Rightarrow> pending_timing" where
  "from_aligned t =
     \<lparr>pt_span = wt_span t, pt_request_window = wt_request_window t, pt_model_score = wt_model_score t,
      pt_start_origin = wt_start_origin t, pt_end_origin = wt_end_origin t\<rparr>"

definition pending_from_transcript :: "time_span \<Rightarrow> pending_timing" where
  "pending_from_transcript s =
     \<lparr>pt_span = s, pt_request_window = None, pt_model_score = None,
      pt_start_origin = TranscriptBullet, pt_end_origin = TranscriptBullet\<rparr>"

record moved_boundary =
  mb_was :: origin
  mb_original :: file_ms
  mb_now :: file_ms

definition moved_distance :: "moved_boundary \<Rightarrow> ms" where
  "moved_distance m =
     (if mb_original m \<ge> mb_now m then since (mb_original m) (mb_now m) else since (mb_now m) (mb_original m))"

definition remeasured :: "time_span \<Rightarrow> (moved_boundary \<Rightarrow> origin) \<Rightarrow> pending_timing \<Rightarrow> pending_timing" where
  "remeasured span why t =
     t\<lparr>pt_span := span,
       pt_start_origin :=
         (if ts_start_ms span = pt_start t then pt_start_origin t
          else why \<lparr>mb_was = pt_start_origin t, mb_original = pt_start t, mb_now = ts_start_ms span\<rparr>),
       pt_end_origin :=
         (if ts_end_ms span = pt_end t then pt_end_origin t
          else why \<lparr>mb_was = pt_end_origin t, mb_original = pt_end t, mb_now = ts_end_ms span\<rparr>)\<rparr>"

definition with_end :: "u64 \<Rightarrow> origin \<Rightarrow> pending_timing \<Rightarrow> pending_timing" where
  "with_end end_ms origin t =
     t\<lparr>pt_span := \<lparr>ts_start_ms = pt_start t, ts_end_ms = end_ms\<rparr>, pt_end_origin := origin\<rparr>"

definition clamped_to_bullet :: "u64 \<Rightarrow> u64 \<Rightarrow> pending_timing \<Rightarrow> pending_timing option" where
  "clamped_to_bullet start_ms end_ms t =
     (if end_ms > start_ms
      then Some (remeasured \<lparr>ts_start_ms = start_ms, ts_end_ms = end_ms\<rparr>
             (\<lambda>moved. ClampedTo UtteranceBullet (mb_was moved) (mb_original moved) (moved_distance moved)) t)
      else None)"

definition settle_start :: "fa_window \<Rightarrow> pending_timing \<Rightarrow> pending_timing" where
  "settle_start w t =
     (if pt_start t < fw_start w
      then t\<lparr>pt_span := (pt_span t)\<lparr>ts_start_ms := fw_start w\<rparr>,
             pt_start_origin := ClampedTo RequestStart (pt_start_origin t) (pt_start t) (fw_start w - pt_start t)\<rparr>
      else t)"

definition settle_end :: "fa_window \<Rightarrow> pending_timing \<Rightarrow> pending_timing" where
  "settle_end w t =
     (if pt_end t > fw_end w
      then t\<lparr>pt_span := (pt_span t)\<lparr>ts_end_ms := fw_end w\<rparr>,
             pt_end_origin := ClampedTo RequestEnd (pt_end_origin t) (pt_end t) (pt_end t - fw_end w)\<rparr>
      else t)"

definition settle_pending :: "pending_timing \<Rightarrow> (degenerate_word_timing, word_timing) result" where
  "settle_pending t =
     (let t = (case pt_request_window t of None \<Rightarrow> t | Some w \<Rightarrow> settle_end w (settle_start w t))
      in case word_timing_new (pt_start t) (pt_end t) (pt_start_origin t) (pt_end_origin t) of
           Some timing \<Rightarrow>
             (let timing = timing\<lparr>wt_request_window := pt_request_window t\<rparr>
              in Ok (case pt_model_score t of Some score \<Rightarrow> with_model_score score timing | None \<Rightarrow> timing))
         | None \<Rightarrow> Err (DegenerateWordTiming (pt_start t) (pt_end t)))"

datatype word_clamp_outcome = Trimmed word_timing | DroppedPastBound time_span

definition clamp_transcript_word_to_bullet :: "time_span \<Rightarrow> u64 \<Rightarrow> u64 \<Rightarrow> word_clamp_outcome" where
  "clamp_transcript_word_to_bullet span start_ms end_ms =
     (case clamped_to_bullet start_ms end_ms (pending_from_transcript span) of
        None \<Rightarrow> DroppedPastBound span
      | Some pending \<Rightarrow>
          (case settle_pending pending of Inr timing \<Rightarrow> Trimmed timing | Inl _ \<Rightarrow> DroppedPastBound span))"

subsection \<open>Healing\<close>

definition MAX_HEALED_INTERNAL_GAP_MS :: u64 where "MAX_HEALED_INTERNAL_GAP_MS = 1000"
definition MIN_HEALABLE_WORD_DURATION_MS :: u64 where "MIN_HEALABLE_WORD_DURATION_MS = 40"
definition MIN_HEALED_FINAL_WORD_DURATION_MS :: u64 where "MIN_HEALED_FINAL_WORD_DURATION_MS = 100"
definition MAX_HEALED_FINAL_WORD_OVERRUN_MS :: u64 where "MAX_HEALED_FINAL_WORD_OVERRUN_MS = 500"

definition within_proportion_cap :: "u64 option \<Rightarrow> u64 \<Rightarrow> bool" where
  "within_proportion_cap utterance_span_ms bridged =
     (case utterance_span_ms of
        None \<Rightarrow> False
      | Some s \<Rightarrow> u64_sat_mul bridged 5 \<le> u64_sat_mul s 2)"

definition observe_boundary :: "bullet \<Rightarrow> time_span option" where
  "observe_boundary b = (case bl_source b of Authoritative \<Rightarrow> Some (bl_timing b) | UtrHint \<Rightarrow> None)"

definition extend_derived_end :: "time_span \<Rightarrow> pending_timing \<Rightarrow> pending_timing" where
  "extend_derived_end boundary t =
     (let end_ms = ts_end_ms boundary
      in if end_ms > pt_start t \<and> end_ms > pt_end t then with_end end_ms (InheritedFromNeighbour end_ms) t else t)"

fun extend_last :: "(pending_timing \<Rightarrow> pending_timing) \<Rightarrow> pending_timing option list \<Rightarrow> pending_timing option list" where
  "extend_last f [] = []"
| "extend_last f (t # ts) =
     (if list_all (\<lambda>x. x = None) ts then map_option f t # ts else t # extend_last f ts)"

definition utterance_span_of :: "bullet option \<Rightarrow> pending_timing option list \<Rightarrow> u64 option" where
  "utterance_span_of b ts =
     (case b of
        Some b \<Rightarrow> Some (u64_sat_sub (ts_end_ms (bl_timing b)) (ts_start_ms (bl_timing b)))
      | None \<Rightarrow>
          (case (List.map_filter id ts) of
             [] \<Rightarrow> None
           | x # xs \<Rightarrow> Some (u64_sat_sub (pt_end (last (x # xs))) (pt_start x))))"

definition heal_one ::
    "u64 option \<Rightarrow> bool \<Rightarrow> bool \<Rightarrow> u64 \<Rightarrow> bool \<Rightarrow> pending_timing \<Rightarrow> pending_timing" where
  "heal_one utterance_span filler compound ns next_is_filler t =
     (let gap_ms = u64_sat_sub ns (pt_end t);
          bridged = u64_sat_sub ns (pt_start t);
          lexical_ok = (if next_is_filler \<and> \<not> filler
             then u64_sat_sub (pt_end t) (pt_start t) < MIN_HEALABLE_WORD_DURATION_MS \<and>
               within_proportion_cap utterance_span bridged
             else True);
          filler_ok = (if filler then within_proportion_cap utterance_span bridged else True);
          should_fill_gap = (if next_is_filler then lexical_ok \<and> filler_ok
             else gap_ms \<le> MAX_HEALED_INTERNAL_GAP_MS \<and> filler_ok)
      in if should_fill_gap \<and> \<not> compound
         then (if ns > pt_start t then with_end ns DerivedFromNextOnset t else t)
         else if pt_start t = pt_end t
         then (let assumed = pt_start t + LAST_WORD_FALLBACK_MS;
                   capped_end = min assumed ns;
                   invented = FallbackDuration LAST_WORD_FALLBACK_MS
               in with_end capped_end
                    (if capped_end < assumed then ClampedTo NextOnset invented assumed (assumed - capped_end)
                     else invented) t)
         else t)"

fun heal_pass ::
    "u64 option \<Rightarrow> (pending_timing option \<times> bool \<times> bool) list \<Rightarrow>
      pending_timing option list \<times> u64 option \<times> bool" where
  "heal_pass span [] = ([], None, False)"
| "heal_pass span ((t, filler, compound) # rest) =
     (let (ys, next_start, next_is_filler) = heal_pass span rest
      in case t of
           None \<Rightarrow> (None # ys, next_start, next_is_filler)
         | Some p \<Rightarrow>
             (Some (case next_start of
                      None \<Rightarrow> p
                    | Some ns \<Rightarrow> heal_one span filler compound ns next_is_filler p) # ys,
              Some (pt_start p), filler))"

definition rebalanced_with_neighbour :: "moved_boundary \<Rightarrow> origin" where
  "rebalanced_with_neighbour moved = RebalancedWithNeighbour (mb_was moved) (mb_original moved)"

definition rebalance_following ::
    "bool list \<Rightarrow> nat \<Rightarrow> pending_timing option list \<Rightarrow> pending_timing option list" where
  "rebalance_following filler i ts =
     (case (ts ! i, ts ! (i + 1)) of
        (Some current, Some nxt) \<Rightarrow>
          (let needed_ms = MIN_HEALABLE_WORD_DURATION_MS - pt_duration current
           in if filler ! i \<or> pt_duration current \<ge> MIN_HEALABLE_WORD_DURATION_MS \<or>
                 pt_end current \<noteq> pt_start nxt \<or>
                 pt_duration nxt < needed_ms + MIN_HEALABLE_WORD_DURATION_MS
              then ts
              else let new_boundary = pt_start nxt + needed_ms
                   in ts[i := Some (remeasured \<lparr>ts_start_ms = pt_start current, ts_end_ms = new_boundary\<rparr>
                              rebalanced_with_neighbour current),
                         i + 1 := Some (remeasured \<lparr>ts_start_ms = new_boundary, ts_end_ms = pt_end nxt\<rparr>
                              rebalanced_with_neighbour nxt)])
      | _ \<Rightarrow> ts)"

definition rebalance_preceding ::
    "bool list \<Rightarrow> nat \<Rightarrow> pending_timing option list \<Rightarrow> pending_timing option list" where
  "rebalance_preceding filler i ts =
     (case (ts ! (i - 1), ts ! i) of
        (Some previous, Some current) \<Rightarrow>
          (let needed_ms = MIN_HEALABLE_WORD_DURATION_MS - pt_duration current
           in if filler ! i \<or> pt_duration current \<ge> MIN_HEALABLE_WORD_DURATION_MS \<or>
                 pt_end previous \<noteq> pt_start current \<or>
                 pt_duration previous < needed_ms + MIN_HEALABLE_WORD_DURATION_MS
              then ts
              else let new_boundary = pt_start current - needed_ms
                   in ts[i - 1 := Some (remeasured \<lparr>ts_start_ms = pt_start previous, ts_end_ms = new_boundary\<rparr>
                              rebalanced_with_neighbour previous),
                         i := Some (remeasured \<lparr>ts_start_ms = new_boundary, ts_end_ms = pt_end current\<rparr>
                              rebalanced_with_neighbour current)])
      | _ \<Rightarrow> ts)"

definition rebalance_all :: "bool list \<Rightarrow> pending_timing option list \<Rightarrow> pending_timing option list" where
  "rebalance_all filler ts =
     fold (rebalance_preceding filler) [1..<length ts]
       (fold (rebalance_following filler) [0..<length ts - 1] ts)"

definition heal_words ::
    "word_end_policy \<Rightarrow> utterance_view \<Rightarrow> pending_timing option list \<Rightarrow> pending_timing option list" where
  "heal_words policy u ts =
     (let span = utterance_span_of (uv_bullet u) ts;
          boundary = Option.bind (uv_bullet u) observe_boundary;
          ts = (case boundary of
                  Some b \<Rightarrow> if ends_are_derived policy then extend_last (extend_derived_end b) ts else ts
                | None \<Rightarrow> ts);
          ts = fst (heal_pass span (zip ts (zip (uv_filler u) (uv_compound_filler u))))
      in rebalance_all (uv_filler u) ts)"

subsection \<open>Clamping, settling, counting\<close>

definition bullet_clamp :: "time_span \<Rightarrow> bool \<Rightarrow> pending_timing \<Rightarrow> pending_timing option" where
  "bullet_clamp boundary last_timed span =
     (let clamped_start = max (pt_start span) (ts_start_ms boundary);
          clamped_end = min (pt_end span) (ts_end_ms boundary);
          clamped_end =
            (if last_timed \<and> clamped_end < pt_end span \<and>
                u64_sat_sub clamped_end clamped_start < MIN_HEALED_FINAL_WORD_DURATION_MS \<and>
                u64_sat_sub (pt_end span) (ts_end_ms boundary) \<le> MAX_HEALED_FINAL_WORD_OVERRUN_MS
             then pt_end span else clamped_end)
      in clamped_to_bullet clamped_start clamped_end span)"

fun clamp_loop :: "time_span \<Rightarrow> pending_timing option list \<Rightarrow> nat \<Rightarrow> pending_timing option list \<times> nat" where
  "clamp_loop boundary [] dropped = ([], dropped)"
| "clamp_loop boundary (None # ts) dropped =
     (let (ys, d) = clamp_loop boundary ts dropped in (None # ys, d))"
| "clamp_loop boundary (Some t # ts) dropped =
     (let c = bullet_clamp boundary (list_all (\<lambda>x. x = None) ts) t;
          (ys, d) = clamp_loop boundary ts (if c = None then dropped + 1 else dropped)
      in (c # ys, d))"

fun settle_loop :: "pending_timing option list \<Rightarrow> nat \<Rightarrow> word_timing option list \<times> nat" where
  "settle_loop [] dropped = ([], dropped)"
| "settle_loop (None # ts) dropped = (let (ys, d) = settle_loop ts dropped in (None # ys, d))"
| "settle_loop (Some t # ts) dropped =
     (case settle_pending t of
        Inr timing \<Rightarrow> (let (ys, d) = settle_loop ts dropped in (Some timing # ys, d))
      | Inl _ \<Rightarrow> (let (ys, d) = settle_loop ts (dropped + 1) in (None # ys, d)))"

definition tally_timings :: "word_timing option list \<Rightarrow> provenance_tally" where
  "tally_timings ts =
     fold (\<lambda>t p. tally_record (tally_record p (wt_start_origin t)) (wt_end_origin t))
       (List.map_filter id ts) empty_tally"

definition postprocess_utterance_timings ::
    "word_end_policy \<Rightarrow> existing_wor_boundary_policy \<Rightarrow> utterance_view \<Rightarrow> word_timing option list \<Rightarrow>
      word_timing option list \<times> postprocess_outcome" where
  "postprocess_utterance_timings policy existing u injected =
     (let ts = map (map_option from_aligned) injected
      in if ts = []
         then ([], \<lparr>po_dropped = \<lparr>dw_clamped_to_utterance_boundary = 0, dw_without_extent = 0\<rparr>,
                po_provenance = empty_tally\<rparr>)
         else let ts = (if heals policy then heal_words policy u ts else ts);
                  (ts, clamped) =
                    (case Option.bind (uv_bullet u) observe_boundary of
                       Some boundary \<Rightarrow>
                         if uv_has_wor u \<and> existing = Preserve then clamp_loop boundary ts 0 else (ts, 0)
                     | None \<Rightarrow> (ts, 0));
                  (validated, without_extent) = settle_loop ts 0
              in (validated,
                  \<lparr>po_dropped = \<lparr>dw_clamped_to_utterance_boundary = clamped, dw_without_extent = without_extent\<rparr>,
                   po_provenance = tally_timings validated\<rparr>))"

subsection \<open>Words in order\<close>

text \<open>
  \<open>in_order lo ts\<close>: the timed words have positive extents, none begins before \<open>lo\<close>, and each ends no
  later than the next begins. \<open>frontier lo ts\<close> is where the last of them ends.
\<close>

fun in_order :: "u64 \<Rightarrow> pending_timing option list \<Rightarrow> bool" where
  "in_order lo [] \<longleftrightarrow> True"
| "in_order lo (None # ts) \<longleftrightarrow> in_order lo ts"
| "in_order lo (Some t # ts) \<longleftrightarrow> lo \<le> pt_start t \<and> pt_start t < pt_end t \<and> in_order (pt_end t) ts"

fun frontier :: "u64 \<Rightarrow> pending_timing option list \<Rightarrow> u64" where
  "frontier lo [] = lo"
| "frontier lo (None # ts) = frontier lo ts"
| "frontier lo (Some t # ts) = frontier (pt_end t) ts"

lemma in_order_append: "in_order lo (xs @ ys) \<longleftrightarrow> in_order lo xs \<and> in_order (frontier lo xs) ys"
  by (induction lo xs rule: in_order.induct) auto

lemma in_order_mono: "in_order lo ts \<Longrightarrow> lo' \<le> lo \<Longrightarrow> in_order lo' ts"
  by (induction lo ts rule: in_order.induct) auto

lemma in_order_none: "list_all (\<lambda>x. x = None) ts \<Longrightarrow> in_order lo ts"
  by (induction ts) auto

text \<open>A pass that drops words or shrinks them inside their own extent keeps the order.\<close>

definition shrunk :: "pending_timing option \<Rightarrow> pending_timing option \<Rightarrow> bool" where
  "shrunk x y \<longleftrightarrow> (case y of None \<Rightarrow> True
     | Some t' \<Rightarrow> (case x of None \<Rightarrow> False
        | Some t \<Rightarrow> pt_start t \<le> pt_start t' \<and> pt_start t' < pt_end t' \<and> pt_end t' \<le> pt_end t))"

lemma in_order_shrunk: "list_all2 shrunk xs ys \<Longrightarrow> in_order lo xs \<Longrightarrow> in_order lo ys"
proof (induction xs ys arbitrary: lo rule: list_all2_induct)
  case (Cons x xs y ys)
  show ?case
  proof (cases y)
    case None
    have "in_order lo xs"
    proof (cases x)
      case (Some t)
      with Cons.prems have "in_order (pt_end t) xs" "lo \<le> pt_end t" by auto
      then show ?thesis by (rule in_order_mono)
    qed (use Cons.prems in simp)
    with Cons.IH None show ?thesis by simp
  next
    case (Some t')
    with Cons.hyps(1) obtain t where t: "x = Some t" "pt_start t \<le> pt_start t'" "pt_start t' < pt_end t'" "pt_end t' \<le> pt_end t"
      by (auto simp: shrunk_def split: option.splits)
    from Cons.prems t(1) have "in_order (pt_end t) xs" "lo \<le> pt_start t" by auto
    with Cons.IH [of "pt_end t'"] in_order_mono [of "pt_end t" xs "pt_end t'"] t Some show ?thesis by auto
  qed
qed simp

lemma with_end_eval [simp]: "pt_start (with_end e x t) = pt_start t" "pt_end (with_end e x t) = e"
  by (simp_all add: with_end_def pt_start_def pt_end_def)

lemma remeasured_eval [simp]:
  "pt_start (remeasured s why t) = ts_start_ms s" "pt_end (remeasured s why t) = ts_end_ms s"
  by (simp_all add: remeasured_def pt_start_def pt_end_def)

lemma extend_last_order:
  assumes "in_order lo ts" and "\<And>t. pt_start (f t) = pt_start t" and "\<And>t. pt_end t \<le> pt_end (f t)"
  shows "in_order lo (extend_last f ts)"
  using assms(1)
proof (induction ts arbitrary: lo)
  case (Cons x ts)
  show ?case
  proof (cases "list_all (\<lambda>x. x = None) ts")
    case True
    with Cons.prems assms(2,3) show ?thesis
      by (cases x) (auto simp: in_order_none intro: order.strict_trans2)
  next
    case False
    with Cons show ?thesis by (cases x) auto
  qed
qed simp

lemma extend_derived_end_eval:
  "pt_start (extend_derived_end b t) = pt_start t" "pt_end t \<le> pt_end (extend_derived_end b t)"
  by (auto simp: extend_derived_end_def Let_def)

lemma heal_one_eval:
  assumes "pt_start t < pt_end t" and "pt_end t \<le> ns"
  shows "pt_start (heal_one s fl c ns nf t) = pt_start t \<and> pt_end t \<le> pt_end (heal_one s fl c ns nf t) \<and>
    pt_end (heal_one s fl c ns nf t) \<le> ns"
  using assms by (auto simp: heal_one_def Let_def)

lemma heal_pass_order:
  assumes "heal_pass s zs = (ys, ns, nf)" and "in_order lo (map fst zs)"
  shows "in_order lo ys \<and> (case ns of None \<Rightarrow> list_all (\<lambda>x. x = None) ys | Some n \<Rightarrow> lo \<le> n \<and> in_order n ys)"
  using assms
proof (induction zs arbitrary: ys ns nf lo)
  case (Cons z zs)
  obtain t fl c where z: "z = (t, fl, c)" by (cases z) auto
  obtain ys' ns' nf' where rest: "heal_pass s zs = (ys', ns', nf')" by (cases "heal_pass s zs") auto
  show ?case
  proof (cases t)
    case None
    with Cons.prems z rest Cons.IH [OF rest, of lo] show ?thesis
      by (auto split: option.splits)
  next
    case (Some p)
    from Cons.prems(2) have p: "lo \<le> pt_start p" "pt_start p < pt_end p" "in_order (pt_end p) (map fst zs)"
      by (simp_all add: z Some)
    note IH = Cons.IH [OF rest p(3)]
    let ?p = "case ns' of None \<Rightarrow> p | Some n \<Rightarrow> heal_one s fl c n nf' p"
    have ys: "ys = Some ?p # ys'" "ns = Some (pt_start p)" using Cons.prems(1) by (auto simp: z rest Some)
    have healed: "pt_start ?p = pt_start p" "pt_start p < pt_end ?p" "in_order (pt_end ?p) ys'"
    proof (atomize (full), cases ns')
      case None
      with p IH show "pt_start ?p = pt_start p \<and> pt_start p < pt_end ?p \<and> in_order (pt_end ?p) ys'" by simp
    next
      case (Some n)
      with IH have n: "pt_end p \<le> n" "in_order n ys'" by simp_all
      from heal_one_eval [OF p(2) n(1), of s fl c nf'] n p(2) in_order_mono [OF n(2)] Some
      show "pt_start ?p = pt_start p \<and> pt_start p < pt_end ?p \<and> in_order (pt_end ?p) ys'"
        by auto
    qed
    with ys p(1) show ?thesis by (auto simp: z Some)
  qed
qed auto

lemma split_pair:
  "Suc i < length ts \<Longrightarrow> ts = take i ts @ ts ! i # ts ! Suc i # drop (Suc (Suc i)) ts"
  by (metis Cons_nth_drop_Suc Suc_lessD append_take_drop_id)

lemma update_pair:
  assumes "Suc i < length ts"
  shows "ts[i := x, Suc i := y] = take i ts @ x # y # drop (Suc (Suc i)) ts"
proof -
  have "(take i ts @ ts ! i # ts ! Suc i # drop (Suc (Suc i)) ts)[i := x, Suc i := y] =
      take i ts @ x # y # drop (Suc (Suc i)) ts"
    using assms by (simp add: list_update_append)
  then show ?thesis using split_pair [OF assms] by simp
qed

lemma shifted_boundary:
  fixes s e n :: u64
  assumes "n + MIN_HEALABLE_WORD_DURATION_MS \<le> u64_sat_sub e s" and "0 < n" and "n \<le> MIN_HEALABLE_WORD_DURATION_MS"
  shows "s < s + n" and "s + n < e" and "s < e - n" and "e - n < e"
proof -
  have n: "0 < unat n" "unat n \<le> 40"
    using assms(2,3) by (simp_all add: MIN_HEALABLE_WORD_DURATION_MS_def word_le_nat_alt unat_gt_0)
  then have "unat (n + MIN_HEALABLE_WORD_DURATION_MS) = unat n + 40"
    by (simp add: MIN_HEALABLE_WORD_DURATION_MS_def unat_word_ariths)
  with assms(1) have room: "unat n + 40 \<le> unat e - unat s" by (simp add: word_le_nat_alt unat_sat_sub)
  have sum: "unat (s + n) = unat s + unat n"
    using room by (intro unat_add_bounded [of s n e]) simp
  have diff: "unat (e - n) = unat e - unat n"
    using room by (intro unat_sub) (simp add: word_le_nat_alt)
  from sum diff room n show "s < s + n" "s + n < e" "s < e - n" "e - n < e"
    by (simp_all add: word_less_nat_alt)
qed

lemma needed_bounds:
  assumes "\<not> MIN_HEALABLE_WORD_DURATION_MS \<le> d"
  shows "0 < MIN_HEALABLE_WORD_DURATION_MS - d \<and> MIN_HEALABLE_WORD_DURATION_MS - d \<le> MIN_HEALABLE_WORD_DURATION_MS"
proof -
  from assms have "d \<le> MIN_HEALABLE_WORD_DURATION_MS" "unat d < unat MIN_HEALABLE_WORD_DURATION_MS"
    by (simp_all add: word_less_nat_alt word_le_nat_alt not_le)
  moreover from this(1) have "unat (MIN_HEALABLE_WORD_DURATION_MS - d) = unat MIN_HEALABLE_WORD_DURATION_MS - unat d"
    by (rule unat_sub)
  ultimately show ?thesis by (simp add: word_less_nat_alt word_le_nat_alt)
qed

lemma rebalance_following_order:
  assumes "in_order lo ts" and "Suc i < length ts"
  shows "in_order lo (rebalance_following filler i ts)"
proof (cases "rebalance_following filler i ts = ts")
  case False
  then obtain a b where ab: "ts ! i = Some a" "ts ! Suc i = Some b"
    and short: "\<not> MIN_HEALABLE_WORD_DURATION_MS \<le> pt_duration a" and joint: "pt_end a = pt_start b"
    and room: "\<not> pt_duration b < MIN_HEALABLE_WORD_DURATION_MS - pt_duration a + MIN_HEALABLE_WORD_DURATION_MS"
    by (auto simp: rebalance_following_def Let_def split: option.splits if_splits)
  let ?n = "MIN_HEALABLE_WORD_DURATION_MS - pt_duration a"
  have shift: "pt_start b < pt_start b + ?n" "pt_start b + ?n < pt_end b"
    using shifted_boundary(1,2) [of ?n "pt_end b" "pt_start b"] room needed_bounds [OF short]
    by (simp_all add: pt_duration_def duration_ms_def pt_end_def pt_start_def not_less)
  have new: "rebalance_following filler i ts = take i ts @
      Some (remeasured \<lparr>ts_start_ms = pt_start a, ts_end_ms = pt_start b + ?n\<rparr> rebalanced_with_neighbour a) #
      Some (remeasured \<lparr>ts_start_ms = pt_start b + ?n, ts_end_ms = pt_end b\<rparr> rebalanced_with_neighbour b) #
      drop (Suc (Suc i)) ts"
    using False ab assms(2) by (auto simp: rebalance_following_def Let_def update_pair split: if_splits)
  from assms(1) have "in_order lo (take i ts @ Some a # Some b # drop (Suc (Suc i)) ts)"
    using split_pair [OF assms(2)] ab by simp
  with shift joint show ?thesis unfolding new by (auto simp: in_order_append)
qed (use assms in simp)

lemma rebalance_preceding_order:
  assumes "in_order lo ts" and "Suc i < length ts"
  shows "in_order lo (rebalance_preceding filler (Suc i) ts)"
proof (cases "rebalance_preceding filler (Suc i) ts = ts")
  case False
  then obtain a b where ab: "ts ! i = Some a" "ts ! Suc i = Some b"
    and short: "\<not> MIN_HEALABLE_WORD_DURATION_MS \<le> pt_duration b" and joint: "pt_end a = pt_start b"
    and room: "\<not> pt_duration a < MIN_HEALABLE_WORD_DURATION_MS - pt_duration b + MIN_HEALABLE_WORD_DURATION_MS"
    by (auto simp: rebalance_preceding_def Let_def split: option.splits if_splits)
  let ?n = "MIN_HEALABLE_WORD_DURATION_MS - pt_duration b"
  have shift: "pt_start a < pt_end a - ?n" "pt_end a - ?n < pt_end a"
    using shifted_boundary(3,4) [of ?n "pt_end a" "pt_start a"] room needed_bounds [OF short]
    by (simp_all add: pt_duration_def duration_ms_def pt_end_def pt_start_def not_less)
  have new: "rebalance_preceding filler (Suc i) ts = take i ts @
      Some (remeasured \<lparr>ts_start_ms = pt_start a, ts_end_ms = pt_start b - ?n\<rparr> rebalanced_with_neighbour a) #
      Some (remeasured \<lparr>ts_start_ms = pt_start b - ?n, ts_end_ms = pt_end b\<rparr> rebalanced_with_neighbour b) #
      drop (Suc (Suc i)) ts"
    using False ab assms(2) by (auto simp: rebalance_preceding_def Let_def update_pair split: if_splits)
  from assms(1) have "in_order lo (take i ts @ Some a # Some b # drop (Suc (Suc i)) ts)"
    using split_pair [OF assms(2)] ab by simp
  with shift joint show ?thesis unfolding new by (auto simp: in_order_append)
qed (use assms in simp)

lemma rebalance_length [simp]:
  "length (rebalance_following filler i ts) = length ts" "length (rebalance_preceding filler i ts) = length ts"
  by (auto simp: rebalance_following_def rebalance_preceding_def Let_def split: option.splits)

lemma rebalance_all_order: "in_order lo ts \<Longrightarrow> in_order lo (rebalance_all filler ts) \<and> length (rebalance_all filler ts) = length ts"
proof -
  have following: "in_order lo ts \<Longrightarrow> set js \<subseteq> {..<length ts - 1} \<Longrightarrow>
      in_order lo (fold (rebalance_following filler) js ts) \<and> length (fold (rebalance_following filler) js ts) = length ts" for js ts
    by (induction js arbitrary: ts) (auto simp: rebalance_following_order)
  have preceding: "in_order lo ts \<Longrightarrow> set js \<subseteq> {1..<length ts} \<Longrightarrow>
      in_order lo (fold (rebalance_preceding filler) js ts) \<and> length (fold (rebalance_preceding filler) js ts) = length ts" for js ts
  proof (induction js arbitrary: ts)
    case (Cons i js)
    then obtain k where "i = Suc k" by (cases i) auto
    with Cons rebalance_preceding_order [of lo ts k filler] show ?case by auto
  qed simp
  let ?ts = "fold (rebalance_following filler) [0..<length ts - 1] ts"
  assume "in_order lo ts"
  then have "in_order lo ?ts \<and> length ?ts = length ts" by (rule following) auto
  with preceding [of ?ts "[1..<length ts]"] show ?thesis unfolding rebalance_all_def by auto
qed

lemma heal_pass_in_order: "in_order lo (map fst zs) \<Longrightarrow> in_order lo (fst (heal_pass s zs))"
  using heal_pass_order [of s zs] by (cases "heal_pass s zs") auto

lemma heal_words_order:
  assumes "in_order lo ts" and "length (uv_filler u) = length ts" and "length (uv_compound_filler u) = length ts"
  shows "in_order lo (heal_words policy u ts)"
proof -
  let ?ts = "case Option.bind (uv_bullet u) observe_boundary of
      Some b \<Rightarrow> if ends_are_derived policy then extend_last (extend_derived_end b) ts else ts | None \<Rightarrow> ts"
  have len: "length (extend_last f ts) = length ts" for f
    by (induction ts) auto
  have "in_order lo ?ts" using assms(1)
    by (auto simp: extend_derived_end_eval intro!: extend_last_order split: option.split)
  moreover have "map fst (zip ?ts (zip (uv_filler u) (uv_compound_filler u))) = ?ts"
    using assms(2,3) len by (simp split: option.split)
  ultimately have "in_order lo (fst (heal_pass s (zip ?ts (zip (uv_filler u) (uv_compound_filler u)))))" for s
    using heal_pass_in_order by simp
  then show ?thesis unfolding heal_words_def Let_def using rebalance_all_order by blast
qed

lemma clamped_to_bullet_shrunk:
  assumes "pt_start t \<le> s" and "e \<le> pt_end t"
  shows "shrunk (Some t) (clamped_to_bullet s e t)"
  using assms by (auto simp: shrunk_def clamped_to_bullet_def)

lemma clamp_loop_shrunk: "list_all2 shrunk ts (fst (clamp_loop b ts d))"
proof (induction b ts d rule: clamp_loop.induct)
  case (2 b ts d)
  then show ?case by (auto simp: case_prod_beta Let_def shrunk_def)
next
  case (3 b t ts d)
  have "shrunk (Some t) (bullet_clamp b l t)" for l
    unfolding bullet_clamp_def Let_def by (intro clamped_to_bullet_shrunk) auto
  with 3 show ?case by (auto simp: case_prod_beta Let_def)
qed simp

definition settled_span :: "pending_timing \<Rightarrow> pending_timing" where
  "settled_span t = (case pt_request_window t of None \<Rightarrow> t | Some w \<Rightarrow> settle_end w (settle_start w t))"

lemma settled_span_eval:
  "pt_start (settled_span t) = (case pt_request_window t of None \<Rightarrow> pt_start t | Some w \<Rightarrow> max (pt_start t) (fw_start w))"
  "pt_end (settled_span t) = (case pt_request_window t of None \<Rightarrow> pt_end t | Some w \<Rightarrow> min (pt_end t) (fw_end w))"
  "pt_request_window (settled_span t) = pt_request_window t"
  "pt_model_score (settled_span t) = pt_model_score t"
  by (auto simp: settled_span_def settle_end_def settle_start_def pt_start_def pt_end_def max_def min_def not_less
      split: option.splits)

lemma settle_pending_cases:
  "settle_pending t =
     (if pt_start (settled_span t) < pt_end (settled_span t)
      then Ok \<lparr>wt_span = \<lparr>ts_start_ms = pt_start (settled_span t), ts_end_ms = pt_end (settled_span t)\<rparr>,
             wt_request_window = pt_request_window t, wt_model_score = pt_model_score t,
             wt_start_origin = pt_start_origin (settled_span t), wt_end_origin = pt_end_origin (settled_span t)\<rparr>
      else Err (DegenerateWordTiming (pt_start (settled_span t)) (pt_end (settled_span t))))"
proof -
  have "settle_pending t =
      (case word_timing_new (pt_start (settled_span t)) (pt_end (settled_span t)) (pt_start_origin (settled_span t))
          (pt_end_origin (settled_span t)) of
         Some timing \<Rightarrow>
           Ok (case pt_model_score t of
                 Some score \<Rightarrow> with_model_score score (timing\<lparr>wt_request_window := pt_request_window t\<rparr>)
               | None \<Rightarrow> timing\<lparr>wt_request_window := pt_request_window t\<rparr>)
       | None \<Rightarrow> Err (DegenerateWordTiming (pt_start (settled_span t)) (pt_end (settled_span t))))"
    unfolding settle_pending_def Let_def settled_span_def [symmetric] by (simp only: settled_span_eval(3,4))
  then show ?thesis by (auto simp: word_timing_new_def with_model_score_def split: option.splits)
qed

definition in_request_window :: "word_timing \<Rightarrow> bool" where
  "in_request_window t \<longleftrightarrow> (case wt_request_window t of None \<Rightarrow> True
     | Some w \<Rightarrow> fw_start w \<le> ts_start_ms (wt_span t) \<and> ts_end_ms (wt_span t) \<le> fw_end w)"

lemma from_aligned_eval [simp]:
  "pt_start (from_aligned x) = ts_start_ms (wt_span x)" "pt_end (from_aligned x) = ts_end_ms (wt_span x)"
  by (simp_all add: from_aligned_def pt_start_def pt_end_def)

lemma settle_pending_Ok:
  assumes "settle_pending t = Ok x"
  shows "timing_wf x \<and> in_request_window x \<and> shrunk (Some t) (Some (from_aligned x))"
  using assms
  by (auto simp: settle_pending_cases timing_wf_def in_request_window_def shrunk_def settled_span_eval
      split: if_splits option.splits)

lemma settle_loop_spec:
  "list_all2 shrunk ts (map (map_option from_aligned) (fst (settle_loop ts d))) \<and>
   (\<forall>x \<in> set (fst (settle_loop ts d)). case x of None \<Rightarrow> True | Some t \<Rightarrow> timing_wf t \<and> in_request_window t)"
proof (induction ts d rule: settle_loop.induct)
  case (3 t ts d)
  show ?case
  proof (cases "settle_pending t")
    case (Inl e)
    with 3 show ?thesis by (auto simp: case_prod_beta Let_def shrunk_def)
  next
    case (Inr x)
    with 3 settle_pending_Ok [OF Inr] show ?thesis by (auto simp: case_prod_beta Let_def)
  qed
qed (auto simp: case_prod_beta Let_def shrunk_def)

definition timed_count :: "'a option list \<Rightarrow> nat" where
  "timed_count ts = length (filter (\<lambda>x. x \<noteq> None) ts)"

lemma timed_count_simps [simp]:
  "timed_count [] = 0" "timed_count (None # ts) = timed_count ts" "timed_count (Some t # ts) = Suc (timed_count ts)"
  by (simp_all add: timed_count_def)

lemma clamp_loop_count: "timed_count (fst (clamp_loop b ts d)) + snd (clamp_loop b ts d) = timed_count ts + d"
proof (induction b ts d rule: clamp_loop.induct)
  case (3 b t ts d)
  then show ?case
    by (cases "bullet_clamp b (list_all (\<lambda>x. x = None) ts) t") (auto simp: case_prod_beta Let_def)
qed (auto simp: case_prod_beta Let_def)

lemma settle_loop_count: "timed_count (fst (settle_loop ts d)) + snd (settle_loop ts d) = timed_count ts + d"
  by (induction ts d rule: settle_loop.induct) (auto simp: case_prod_beta Let_def split: sum.split)

definition same_timed :: "'a option list \<Rightarrow> 'b option list \<Rightarrow> bool" where
  "same_timed xs ys \<longleftrightarrow> list_all2 (\<lambda>x y. (x = None) = (y = None)) xs ys"

lemma same_timed_count: "same_timed xs ys \<Longrightarrow> timed_count xs = timed_count ys"
  unfolding same_timed_def by (induction rule: list_all2_induct) (auto simp: timed_count_def)

lemma same_timed_refl [simp]: "same_timed xs xs"
  by (simp add: same_timed_def list_all2_refl)

lemma same_timed_trans: "same_timed xs ys \<Longrightarrow> same_timed ys zs \<Longrightarrow> same_timed xs zs"
  unfolding same_timed_def by (rule list_all2_trans) auto

lemma extend_last_same: "same_timed ts (extend_last f ts)"
  by (induction ts) (auto simp: same_timed_def list_all2_refl)

lemma heal_pass_same: "same_timed (map fst zs) (fst (heal_pass s zs))"
proof (induction zs)
  case (Cons z zs)
  then show ?case by (cases z) (auto simp: same_timed_def case_prod_beta Let_def split: option.split)
qed (simp add: same_timed_def)

lemma same_timed_update:
  "ts ! i \<noteq> None \<Longrightarrow> same_timed ts (ts[i := Some x])"
  by (cases "i < length ts") (auto simp: same_timed_def list_all2_conv_all_nth nth_list_update)

lemma rebalance_same: "same_timed ts (rebalance_following fl i ts)" "same_timed ts (rebalance_preceding fl i ts)"
proof -
  have two: "same_timed ts (ts[i := Some x, j := Some y])" if "ts ! i \<noteq> None" "ts ! j \<noteq> None" for i j x y
  proof -
    have "same_timed (ts[i := Some x]) (ts[i := Some x, j := Some y])"
      using that by (intro same_timed_update) (cases "i = j"; cases "i < length ts"; simp add: nth_list_update list_update_beyond)
    with same_timed_update [OF that(1)] show ?thesis by (rule same_timed_trans)
  qed
  show "same_timed ts (rebalance_following fl i ts)" "same_timed ts (rebalance_preceding fl i ts)"
    by (auto simp: rebalance_following_def rebalance_preceding_def Let_def intro!: two split: option.split)
qed

lemma heal_words_same:
  assumes "length (uv_filler u) = length ts" and "length (uv_compound_filler u) = length ts"
  shows "same_timed ts (heal_words policy u ts)"
proof -
  let ?ts = "case Option.bind (uv_bullet u) observe_boundary of
      Some b \<Rightarrow> if ends_are_derived policy then extend_last (extend_derived_end b) ts else ts | None \<Rightarrow> ts"
  have len: "length (extend_last f ts) = length ts" for f by (induction ts) auto
  have folds: "same_timed xs (fold f js xs)" if "\<And>i xs. same_timed xs (f i xs)" for f :: "nat \<Rightarrow> pending_timing option list \<Rightarrow> pending_timing option list" and js xs
    using that by (induction js arbitrary: xs) (auto intro: same_timed_trans)
  have "same_timed ts ?ts" by (simp add: extend_last_same split: option.split)
  moreover have "map fst (zip ?ts (zip (uv_filler u) (uv_compound_filler u))) = ?ts"
    using assms len by (simp split: option.split)
  then have "same_timed ?ts (fst (heal_pass s (zip ?ts (zip (uv_filler u) (uv_compound_filler u)))))" for s
    using heal_pass_same [of "zip ?ts (zip (uv_filler u) (uv_compound_filler u))" s] by simp
  moreover have "same_timed xs (rebalance_all fl xs)" for fl xs
    unfolding rebalance_all_def by (rule same_timed_trans [OF folds folds]) (rule rebalance_same)+
  ultimately show ?thesis unfolding heal_words_def Let_def by (blast intro: same_timed_trans)
qed

subsection \<open>The whole pass\<close>

definition origins_of :: "word_timing option list \<Rightarrow> origin list" where
  "origins_of ts = concat (map (\<lambda>t. [wt_start_origin t, wt_end_origin t]) (List.map_filter id ts))"

lemma tally_timings_spec:
  "tally_total (tally_timings ts) = 2 * timed_count ts \<and>
   (needs_review (tally_timings ts) \<longleftrightarrow> (\<exists>x \<in> set (origins_of ts). origin_kind_of x = Assumed \<or>
      attributed_by_alignment x \<or> origin_overran_recording x))"
proof -
  have "fold (\<lambda>t p. tally_record (tally_record p (wt_start_origin t)) (wt_end_origin t)) (xs :: word_timing list) p =
      fold (\<lambda>x t. tally_record t x) (concat (map (\<lambda>t. [wt_start_origin t, wt_end_origin t]) xs)) p" for xs p
    by (induction xs arbitrary: p) simp_all
  then have eq: "tally_timings ts = fold (\<lambda>x t. tally_record t x) (origins_of ts) empty_tally"
    by (simp add: tally_timings_def origins_of_def)
  have "length (origins_of ts) = 2 * timed_count ts"
  proof (induction ts)
    case (Cons x ts)
    then show ?case by (cases x) (simp_all add: origins_of_def)
  qed (simp add: origins_of_def)
  with tally_fold [of "origins_of ts" empty_tally] show ?thesis
    by (simp add: eq) (simp add: tally_total_def needs_review_def empty_tally_def)
qed

text \<open>What reaches the settlement, and what the clamp dropped on the way.\<close>

definition before_settle ::
    "word_end_policy \<Rightarrow> existing_wor_boundary_policy \<Rightarrow> utterance_view \<Rightarrow> pending_timing option list \<Rightarrow>
      pending_timing option list \<times> nat" where
  "before_settle policy existing u ts =
     (let ts = (if heals policy then heal_words policy u ts else ts)
      in case Option.bind (uv_bullet u) observe_boundary of
           Some boundary \<Rightarrow> if uv_has_wor u \<and> existing = Preserve then clamp_loop boundary ts 0 else (ts, 0)
         | None \<Rightarrow> (ts, 0))"

lemma postprocess_eq:
  fixes policy existing u injected
  assumes "injected \<noteq> []"
  defines "st \<equiv> before_settle policy existing u (map (map_option from_aligned) injected)"
  shows "postprocess_utterance_timings policy existing u injected =
    (fst (settle_loop (fst st) 0),
     \<lparr>po_dropped = \<lparr>dw_clamped_to_utterance_boundary = snd st, dw_without_extent = snd (settle_loop (fst st) 0)\<rparr>,
      po_provenance = tally_timings (fst (settle_loop (fst st) 0))\<rparr>)"
  using assms(1)
  by (simp add: postprocess_utterance_timings_def st_def before_settle_def Let_def case_prod_beta)

lemma before_settle_spec:
  assumes "length (uv_filler u) = length ts" and "length (uv_compound_filler u) = length ts"
  shows "length (fst (before_settle policy existing u ts)) = length ts"
    and "timed_count (fst (before_settle policy existing u ts)) + snd (before_settle policy existing u ts) = timed_count ts"
    and "in_order lo ts \<Longrightarrow> in_order lo (fst (before_settle policy existing u ts))"
proof -
  define hs where "hs = (if heals policy then heal_words policy u ts else ts)"
  have same: "same_timed ts hs" using heal_words_same [OF assms] by (simp add: hs_def)
  have len: "length hs = length ts" using same list_all2_lengthD unfolding same_timed_def by fastforce
  have count: "timed_count hs = timed_count ts" using same_timed_count [OF same] by simp
  have cases: "before_settle policy existing u ts = (hs, 0) \<or> (\<exists>b. before_settle policy existing u ts = clamp_loop b hs 0)"
    unfolding before_settle_def Let_def hs_def [symmetric] by (auto split: option.split)
  have clamp: "length (fst (clamp_loop b hs 0)) = length ts" for b
    using list_all2_lengthD [OF clamp_loop_shrunk [of hs b 0]] len by simp
  show "length (fst (before_settle policy existing u ts)) = length ts"
    using cases clamp len by auto
  show "timed_count (fst (before_settle policy existing u ts)) + snd (before_settle policy existing u ts) = timed_count ts"
    using cases
  proof (elim disjE exE)
    fix b assume "before_settle policy existing u ts = clamp_loop b hs 0"
    with clamp_loop_count [of b hs 0] count show ?thesis by simp
  qed (simp add: count)
  assume "in_order lo ts"
  then have "in_order lo hs" using heal_words_order [OF _ assms] by (simp add: hs_def)
  with cases in_order_shrunk [OF clamp_loop_shrunk] show "in_order lo (fst (before_settle policy existing u ts))"
    by auto
qed

text \<open>
  C14. No timing disappears uncounted. The pass answers for every word; each timing that came in
  either comes out, with a positive extent inside its request window, or is counted under one of the
  two drop reasons. The tally counts both ends of every surviving word, and asks for review exactly
  when one of them was assumed, attributed by alignment, or overran the recording somewhere in its
  history.
\<close>

theorem postprocess_accounts:
  assumes "length (uv_filler u) = length injected" and "length (uv_compound_filler u) = length injected"
    and "postprocess_utterance_timings policy existing u injected = (out, po)"
  shows "length out = length injected \<and>
    timed_count injected = timed_count out + dropped_total (po_dropped po) \<and>
    (\<forall>x \<in> set out. case x of None \<Rightarrow> True | Some t \<Rightarrow> timing_wf t \<and> in_request_window t) \<and>
    tally_total (po_provenance po) = 2 * timed_count out \<and>
    (needs_review (po_provenance po) \<longleftrightarrow> (\<exists>x \<in> set (origins_of out). origin_kind_of x = Assumed \<or>
       attributed_by_alignment x \<or> origin_overran_recording x))"
proof (cases "injected = []")
  case True
  with assms(3) show ?thesis
    by (auto simp: postprocess_utterance_timings_def dropped_total_def tally_total_def needs_review_def
        empty_tally_def origins_of_def)
next
  case False
  let ?ts = "map (map_option from_aligned) injected"
  let ?st = "before_settle policy existing u ?ts"
  have len: "length (uv_filler u) = length ?ts" "length (uv_compound_filler u) = length ?ts" using assms(1,2) by simp_all
  have out: "out = fst (settle_loop (fst ?st) 0)" and po: "dropped_total (po_dropped po) = snd ?st + snd (settle_loop (fst ?st) 0)"
      "po_provenance po = tally_timings out"
    using assms(3) by (auto simp: postprocess_eq [OF False] dropped_total_def)
  have "timed_count ?ts = timed_count injected" by (induction injected) (auto simp: timed_count_def)
  with before_settle_spec(2) [OF len] settle_loop_count [of "fst ?st" 0]
  have "timed_count injected = timed_count out + dropped_total (po_dropped po)"
    unfolding out po(1) by (metis (no_types, lifting) add.assoc add.commute add_0)
  moreover have "length out = length injected"
    using list_all2_lengthD [OF conjunct1 [OF settle_loop_spec [of "fst ?st" 0]]] before_settle_spec(1) [OF len]
    by (simp add: out)
  ultimately show ?thesis
    using settle_loop_spec [of "fst ?st" 0] tally_timings_spec [of out] unfolding out [symmetric] po(2) by blast
qed

text \<open>
  C15. Post-processing never makes words overlap. When the timed words come in one after the other,
  they leave one after the other: healing, rebalancing, clamping and settling move boundaries only
  within the space between neighbouring words.
\<close>

theorem postprocess_keeps_order:
  assumes "length (uv_filler u) = length injected" and "length (uv_compound_filler u) = length injected"
    and "in_order 0 (map (map_option from_aligned) injected)"
    and "postprocess_utterance_timings policy existing u injected = (out, po)"
  shows "in_order 0 (map (map_option from_aligned) out)"
proof (cases "injected = []")
  case False
  let ?ts = "map (map_option from_aligned) injected"
  have "in_order 0 (fst (before_settle policy existing u ?ts))"
    using assms(1-3) by (intro before_settle_spec(3)) simp_all
  moreover have "out = fst (settle_loop (fst (before_settle policy existing u ?ts)) 0)"
    using assms(4) by (simp add: postprocess_eq [OF False])
  ultimately show ?thesis
    using in_order_shrunk settle_loop_spec by blast
qed (use assms(4) in \<open>simp add: postprocess_utterance_timings_def\<close>)

lemma settle_aligned:
  assumes "timing_wf t" and "in_request_window t"
  shows "settle_pending (from_aligned t) = Ok t"
proof -
  have "settled_span (from_aligned t) = from_aligned t"
    using assms(2)
    by (auto simp: settled_span_def settle_start_def settle_end_def in_request_window_def from_aligned_def
        pt_start_def pt_end_def split: option.splits)
  with assms(1) show ?thesis
    by (cases t) (simp add: settle_pending_cases timing_wf_def from_aligned_def pt_start_def pt_end_def)
qed

text \<open>
  Without healing a measured timing is left alone. Under the default policy, unless the utterance
  has a \<^verbatim>\<open>%wor\<close> tier whose authoritative bullet is to be preserved, every timing that lies in its request
  window leaves as it came in, origins and score included, and nothing is dropped.
\<close>

theorem measured_timings_kept:
  assumes "\<not> heals policy"
    and "uv_has_wor u \<longrightarrow> existing = RebuildFromEvidence \<or> Option.bind (uv_bullet u) observe_boundary = None"
    and "\<forall>x \<in> set injected. case x of None \<Rightarrow> True | Some t \<Rightarrow> timing_wf t \<and> in_request_window t"
  shows "postprocess_utterance_timings policy existing u injected =
    (injected, \<lparr>po_dropped = \<lparr>dw_clamped_to_utterance_boundary = 0, dw_without_extent = 0\<rparr>,
       po_provenance = tally_timings injected\<rparr>)"
proof (cases "injected = []")
  case False
  let ?ts = "map (map_option from_aligned) injected"
  have "before_settle policy existing u ?ts = (?ts, 0)"
    using assms(1,2) by (auto simp: before_settle_def Let_def split: option.split)
  moreover have "settle_loop ?ts d = (injected, d)" for d
    using assms(3)
  proof (induction injected)
    case (Cons x xs)
    then show ?case by (cases x) (simp_all add: settle_aligned)
  qed simp
  ultimately show ?thesis by (simp add: postprocess_eq [OF False])
qed (simp add: postprocess_utterance_timings_def tally_timings_def)

subsection \<open>A short utterance\<close>

definition plain_timing :: "u64 \<Rightarrow> u64 \<Rightarrow> word_timing" where
  "plain_timing s e = \<lparr>wt_span = \<lparr>ts_start_ms = s, ts_end_ms = e\<rparr>, wt_request_window = None, wt_model_score = None,
     wt_start_origin = TranscriptBullet, wt_end_origin = TranscriptBullet\<rparr>"

definition two_words :: "word_timing option list" where
  "two_words = [Some (plain_timing 100 400), Some (plain_timing 600 900)]"

definition two_word_view :: utterance_view where
  "two_word_view = \<lparr>uv_bullet = Some \<lparr>bl_source = Authoritative, bl_timing = \<lparr>ts_start_ms = 0, ts_end_ms = 650\<rparr>\<rparr>,
     uv_has_wor = True, uv_filler = [False, False], uv_compound_filler = [False, False]\<rparr>"

definition heal_onsets :: word_end_policy where
  "heal_onsets = \<lparr>we_gap_healing = Heal, we_resolution = TokenOnsets\<rparr>"

theorem postprocess_accounts_witness:
  "\<exists>out po. postprocess_utterance_timings heal_onsets Preserve two_word_view two_words = (out, po) \<and>
     length out = 2 \<and> 2 = timed_count out + dropped_total (po_dropped po)"
proof -
  obtain out po where o: "postprocess_utterance_timings heal_onsets Preserve two_word_view two_words = (out, po)" by force
  have len: "length (uv_filler two_word_view) = length two_words" "length (uv_compound_filler two_word_view) = length two_words"
    and n: "length two_words = 2" "timed_count two_words = 2"
    by (simp_all add: two_word_view_def two_words_def timed_count_def)
  from postprocess_accounts [OF len o] o n show ?thesis by (intro exI [of _ out] exI [of _ po]) simp
qed

theorem postprocess_keeps_order_witness:
  "\<exists>out po. postprocess_utterance_timings heal_onsets Preserve two_word_view two_words = (out, po) \<and>
     in_order 0 (map (map_option from_aligned) out)"
proof -
  obtain out po where o: "postprocess_utterance_timings heal_onsets Preserve two_word_view two_words = (out, po)" by force
  from postprocess_keeps_order [OF _ _ _ o] o show ?thesis
    by (simp add: two_word_view_def two_words_def plain_timing_def)
qed

theorem measured_timings_kept_witness:
  "fst (postprocess_utterance_timings (heal_onsets\<lparr>we_gap_healing := PreserveMeasured\<rparr>) RebuildFromEvidence
     two_word_view two_words) = two_words"
  by (subst measured_timings_kept)
    (simp_all add: heals_def heal_onsets_def two_words_def plain_timing_def timing_wf_def in_request_window_def)

end
