(* ===== verification/Fa_Bullets.thy ===== *)
theory Fa_Bullets
  imports Fa_Postprocess
begin

text \<open>
  A transcript as the last phases of forced alignment see it, and the bullets its author gave
  (\<^verbatim>\<open>crates/batchalign/src/chat_ops/fa/main_bullets.rs\<close>, \<^verbatim>\<open>presence.rs\<close>, the word clamps and the strip of
  \<^verbatim>\<open>orchestrate.rs\<close>, the indexing helpers and bullet policies of \<^verbatim>\<open>mod.rs\<close>). A line of the external CHAT
  model is an utterance or something else; of an utterance the phases read and write its speaker, its
  main bullet, the timing of its main-tier words in document order, its \<^verbatim>\<open>%wor\<close> tier, whether its
  linkers mark a preceding overlap, and its postcodes. Which words a strip of the main tier reaches
  is a property of the external tree, recorded with each word. The text of a decision is not
  modelled; its line, speaker, strategy and review flag are.
\<close>

subsection \<open>Transcripts\<close>

datatype bullet_state = Parsed time_span | Unparsed string

fun as_parsed :: "bullet_state \<Rightarrow> time_span option" where
  "as_parsed (Parsed b) = Some b"
| "as_parsed (Unparsed s) = None"

record main_word =
  mw_timing :: "time_span option"
  mw_strippable :: bool

record utterance =
  ut_speaker :: string
  ut_bullet :: "bullet_state option"
  ut_words :: "main_word list"
  ut_wor :: "time_span option list option"
  ut_overlap_precedes :: bool
  ut_postcodes :: "string list"

datatype chat_line = Utterance utterance | OtherLine

type_synonym chat_file = "chat_line list"

definition parsed_bullet :: "utterance \<Rightarrow> time_span option" where
  "parsed_bullet u = Option.bind (ut_bullet u) as_parsed"

definition set_bullet_start :: "u64 \<Rightarrow> utterance \<Rightarrow> utterance" where
  "set_bullet_start ms u =
     (case parsed_bullet u of Some b \<Rightarrow> u\<lparr>ut_bullet := Some (Parsed (b\<lparr>ts_start_ms := ms\<rparr>))\<rparr> | None \<Rightarrow> u)"

definition set_bullet_end :: "u64 \<Rightarrow> utterance \<Rightarrow> utterance" where
  "set_bullet_end ms u =
     (case parsed_bullet u of Some b \<Rightarrow> u\<lparr>ut_bullet := Some (Parsed (b\<lparr>ts_end_ms := ms\<rparr>))\<rparr> | None \<Rightarrow> u)"

fun line_utterance :: "chat_line \<Rightarrow> utterance option" where
  "line_utterance (Utterance u) = Some u"
| "line_utterance OtherLine = None"

definition utterance_at :: "chat_file \<Rightarrow> nat \<Rightarrow> utterance option" where
  "utterance_at f i = (if i < length f then line_utterance (f ! i) else None)"

definition put_utterance :: "nat \<Rightarrow> utterance \<Rightarrow> chat_file \<Rightarrow> chat_file" where
  "put_utterance i u f = (case utterance_at f i of Some _ \<Rightarrow> f[i := Utterance u] | None \<Rightarrow> f)"

fun indexed_from :: "nat \<Rightarrow> nat \<Rightarrow> chat_file \<Rightarrow> (nat \<times> nat \<times> utterance) list" where
  "indexed_from l k [] = []"
| "indexed_from l k (Utterance u # f) = (l, k, u) # indexed_from (l + 1) (k + 1) f"
| "indexed_from l k (OtherLine # f) = indexed_from (l + 1) k f"

definition utterances_indexed :: "chat_file \<Rightarrow> (nat \<times> nat \<times> utterance) list" where
  "utterances_indexed f = indexed_from 0 0 f"

text \<open>A loop over the utterances of a file that may change each of them, carries a state and stops at an error.\<close>

fun over_utterances ::
    "(nat \<Rightarrow> nat \<Rightarrow> utterance \<Rightarrow> 's \<Rightarrow> ('e, utterance \<times> 's) result) \<Rightarrow> nat \<Rightarrow> nat \<Rightarrow> chat_file \<Rightarrow> 's \<Rightarrow>
      ('e, chat_file \<times> 's) result" where
  "over_utterances step l k [] s = Ok ([], s)"
| "over_utterances step l k (OtherLine # f) s =
     map_sum id (\<lambda>(f', s'). (OtherLine # f', s')) (over_utterances step (l + 1) k f s)"
| "over_utterances step l k (Utterance u # f) s =
     (case step l k u s of
        Inl e \<Rightarrow> Err e
      | Inr (u', s') \<Rightarrow>
          map_sum id (\<lambda>(f', s''). (Utterance u' # f', s'')) (over_utterances step (l + 1) (k + 1) f s'))"

subsection \<open>Presence in the recording\<close>

datatype off_record_postcode = Diary

definition off_record_all :: "off_record_postcode list" where "off_record_all = [Diary]"

fun postcode_text :: "off_record_postcode \<Rightarrow> string" where
  "postcode_text Diary = ''diary''"

definition of_postcode_text :: "string \<Rightarrow> off_record_postcode option" where
  "of_postcode_text txt = List.find (\<lambda>p. postcode_text p = txt) off_record_all"

datatype recording_presence = InRecording | NotInRecording off_record_postcode

definition presence_of :: "utterance \<Rightarrow> recording_presence" where
  "presence_of u =
     (case List.map_filter of_postcode_text (ut_postcodes u) of
        [] \<Rightarrow> InRecording
      | p # _ \<Rightarrow> NotInRecording p)"

subsection \<open>Word hulls, clamps and strips\<close>

definition iter_max :: "u64 list \<Rightarrow> u64 option" where
  "iter_max xs = fold (\<lambda>x acc. Some (case acc of None \<Rightarrow> x | Some c \<Rightarrow> max c x)) xs None"

definition iter_min :: "u64 list \<Rightarrow> u64 option" where
  "iter_min xs = fold (\<lambda>x acc. Some (case acc of None \<Rightarrow> x | Some c \<Rightarrow> min c x)) xs None"

definition some_list :: "'a option \<Rightarrow> 'a list" where
  "some_list x = (case x of None \<Rightarrow> [] | Some v \<Rightarrow> [v])"

definition word_timings :: "utterance \<Rightarrow> time_span list" where
  "word_timings u = List.map_filter mw_timing (ut_words u)"

definition wor_timings :: "utterance \<Rightarrow> time_span list" where
  "wor_timings u = (case ut_wor u of None \<Rightarrow> [] | Some ws \<Rightarrow> List.map_filter id ws)"

definition furthest_word_timing_end :: "utterance \<Rightarrow> u64 option" where
  "furthest_word_timing_end u =
     iter_max (some_list (iter_max (map ts_end_ms (word_timings u))) @
       some_list (iter_max (map ts_end_ms (wor_timings u))))"

definition earliest_word_timing_start :: "utterance \<Rightarrow> u64 option" where
  "earliest_word_timing_start u =
     iter_min (some_list (iter_min (map ts_start_ms (word_timings u))) @
       some_list (iter_min (map ts_start_ms (wor_timings u))))"

datatype word_tier = MainTier | WorTier

record dropped_word =
  dw_index :: nat
  dw_tier :: word_tier
  dw_measured :: time_span

record trimmed_word =
  tw_index :: nat
  tw_tier :: word_tier
  tw_measured :: time_span
  tw_kept :: time_span

record clamped_words =
  cw_trimmed :: "trimmed_word list"
  cw_dropped :: "dropped_word list"

definition no_cuts :: clamped_words where
  "no_cuts = \<lparr>cw_trimmed = [], cw_dropped = []\<rparr>"

definition cut_main_tier :: "clamped_words \<Rightarrow> bool" where
  "cut_main_tier c \<longleftrightarrow>
     list_ex (\<lambda>t. tw_tier t = MainTier) (cw_trimmed c) \<or> list_ex (\<lambda>d. dw_tier d = MainTier) (cw_dropped c)"

definition cut_any :: "clamped_words \<Rightarrow> bool" where
  "cut_any c \<longleftrightarrow> cw_trimmed c \<noteq> [] \<or> cw_dropped c \<noteq> []"

definition record_clamp ::
    "nat \<Rightarrow> word_tier \<Rightarrow> time_span \<Rightarrow> word_clamp_outcome \<Rightarrow> clamped_words \<Rightarrow> time_span option \<times> clamped_words" where
  "record_clamp word_index tier measured outcome c =
     (case outcome of
        Trimmed timing \<Rightarrow>
          (Some (wt_span timing),
           c\<lparr>cw_trimmed := cw_trimmed c @ [\<lparr>tw_index = word_index, tw_tier = tier, tw_measured = measured,
               tw_kept = wt_span timing\<rparr>]\<rparr>)
      | DroppedPastBound measured \<Rightarrow>
          (None, c\<lparr>cw_dropped := cw_dropped c @ [\<lparr>dw_index = word_index, dw_tier = tier, dw_measured = measured\<rparr>]\<rparr>))"

definition clamp_word ::
    "nat \<Rightarrow> word_tier \<Rightarrow> time_span \<Rightarrow> time_span option \<Rightarrow> clamped_words \<Rightarrow> time_span option \<times> clamped_words" where
  "clamp_word word_index tier bound timing c =
     (case timing of
        None \<Rightarrow> (None, c)
      | Some span \<Rightarrow>
          (if ts_start_ms span \<ge> ts_start_ms bound \<and> ts_end_ms span \<le> ts_end_ms bound then (Some span, c)
           else record_clamp word_index tier span
                  (clamp_transcript_word_to_bullet span (max (ts_start_ms span) (ts_start_ms bound))
                    (min (ts_end_ms span) (ts_end_ms bound))) c))"

fun clamp_timings ::
    "word_tier \<Rightarrow> time_span \<Rightarrow> nat \<Rightarrow> time_span option list \<Rightarrow> clamped_words \<Rightarrow> time_span option list \<times> clamped_words" where
  "clamp_timings tier bound i [] c = ([], c)"
| "clamp_timings tier bound i (t # ts) c =
     (let (t', c') = clamp_word i tier bound t c; (ts', c'') = clamp_timings tier bound (i + 1) ts c'
      in (t' # ts', c''))"

definition write_timings :: "main_word list \<Rightarrow> time_span option list \<Rightarrow> main_word list" where
  "write_timings ws ts = map2 (\<lambda>w t. w\<lparr>mw_timing := t\<rparr>) ws ts"

definition clamp_words_within :: "time_span \<Rightarrow> utterance \<Rightarrow> utterance \<times> clamped_words" where
  "clamp_words_within bound u =
     (let (ts, c) = clamp_timings MainTier bound 0 (map mw_timing (ut_words u)) no_cuts;
          u = u\<lparr>ut_words := write_timings (ut_words u) ts\<rparr>
      in case ut_wor u of
           None \<Rightarrow> (u, c)
         | Some ws \<Rightarrow>
             (let (ws', c') = clamp_timings WorTier bound 0 ws c in (u\<lparr>ut_wor := Some ws'\<rparr>, c')))"

definition clamp_words_past_bound :: "u64 \<Rightarrow> utterance \<Rightarrow> utterance \<times> clamped_words" where
  "clamp_words_past_bound bound_ms u = clamp_words_within \<lparr>ts_start_ms = 0, ts_end_ms = bound_ms\<rparr> u"

definition clamp_words_before_bound :: "u64 \<Rightarrow> utterance \<Rightarrow> utterance \<times> clamped_words" where
  "clamp_words_before_bound bound_ms u = clamp_words_within \<lparr>ts_start_ms = bound_ms, ts_end_ms = - 1\<rparr> u"

definition raise_bullet_start :: "u64 \<Rightarrow> utterance \<Rightarrow> utterance \<times> clamped_words" where
  "raise_bullet_start to_ms u = clamp_words_before_bound to_ms (set_bullet_start to_ms u)"

fun timed_words_from :: "word_tier \<Rightarrow> nat \<Rightarrow> time_span option list \<Rightarrow> dropped_word list" where
  "timed_words_from tier i [] = []"
| "timed_words_from tier i (None # ts) = timed_words_from tier (i + 1) ts"
| "timed_words_from tier i (Some s # ts) =
     \<lparr>dw_index = i, dw_tier = tier, dw_measured = s\<rparr> # timed_words_from tier (i + 1) ts"

definition strip_timing_from_content :: "main_word list \<Rightarrow> main_word list" where
  "strip_timing_from_content ws = map (\<lambda>w. if mw_strippable w then w\<lparr>mw_timing := None\<rparr> else w) ws"

definition remove_wor_tier :: "utterance \<Rightarrow> utterance" where
  "remove_wor_tier u = u\<lparr>ut_wor := None\<rparr>"

definition strip_utterance_timing :: "utterance \<Rightarrow> utterance \<times> dropped_word list" where
  "strip_utterance_timing u =
     (let words_dropped = timed_words_from MainTier 0 (map mw_timing (ut_words u)) @
            (case ut_wor u of None \<Rightarrow> [] | Some ws \<Rightarrow> timed_words_from WorTier 0 ws)
      in (u\<lparr>ut_bullet := None, ut_words := strip_timing_from_content (ut_words u), ut_wor := None\<rparr>, words_dropped))"

fun strip_off_record_timing :: "chat_file \<Rightarrow> chat_file \<times> nat" where
  "strip_off_record_timing [] = ([], 0)"
| "strip_off_record_timing (OtherLine # f) = map_prod ((#) OtherLine) id (strip_off_record_timing f)"
| "strip_off_record_timing (Utterance u # f) =
     (case presence_of u of
        InRecording \<Rightarrow> map_prod ((#) (Utterance u)) id (strip_off_record_timing f)
      | NotInRecording _ \<Rightarrow>
          (case (strip_utterance_timing u, strip_off_record_timing f) of
             ((u', _), (f', bullets)) \<Rightarrow> (Utterance u' # f', bullets + (if ut_bullet u \<noteq> None then 1 else 0))))"

subsection \<open>Decisions\<close>

datatype fa_strategy =
    GapFilled | BoundaryAveraged | LisRemoval | WordsClampedToKeptBullet | WordsUntimedForKeptAbsence

datatype monotonicity_strategy =
    EndClampedCoverageOnly | EndClampedBoundaryFromWords | EndClampedInterleavedWords | TimingStripped
  | StartRaisedToPrecedingStart | KeptBulletLeftUnresolved | YieldedToKeptBullet

datatype decision_strategy = StrategyFa fa_strategy | StrategyMonotonicity monotonicity_strategy

record decision_record =
  dr_line_idx :: nat
  dr_speaker :: string
  dr_strategy :: decision_strategy
  dr_needs_review :: bool

subsection \<open>Given bullets\<close>

datatype main_bullet_policy = DeriveFromWords | KeepGiven | KeepExact

datatype exact_refuses_utr = ExactRefusesUtr

definition admit_utr :: "main_bullet_policy \<Rightarrow> 'e option \<Rightarrow> (exact_refuses_utr, 'e option) result" where
  "admit_utr policy requested =
     (case (policy, requested) of
        (KeepExact, Some _) \<Rightarrow> Err ExactRefusesUtr
      | (KeepExact, None) \<Rightarrow> Ok None
      | (_, requested) \<Rightarrow> Ok requested)"

fun stamp_name :: "main_bullet_policy \<Rightarrow> string" where
  "stamp_name DeriveFromWords = ''derive''"
| "stamp_name KeepGiven = ''keep''"
| "stamp_name KeepExact = ''exact''"

datatype given_main_bullet = GivenExtent u64 u64 | GivenEmpty u64 | GivenBackward u64 u64

definition classify_given :: "time_span \<Rightarrow> given_main_bullet" where
  "classify_given b =
     (if ts_start_ms b < ts_end_ms b then GivenExtent (ts_start_ms b) (ts_end_ms b)
      else if ts_start_ms b = ts_end_ms b then GivenEmpty (ts_start_ms b)
      else GivenBackward (ts_start_ms b) (ts_end_ms b))"

datatype kept_bullet = KeptExtent u64 u64 | KeptEmpty u64

fun kept_start_ms :: "kept_bullet \<Rightarrow> u64" where
  "kept_start_ms (KeptExtent s e) = s"
| "kept_start_ms (KeptEmpty t) = t"

fun kept_end_ms :: "kept_bullet \<Rightarrow> u64" where
  "kept_end_ms (KeptExtent s e) = e"
| "kept_end_ms (KeptEmpty t) = t"

definition kept_span :: "kept_bullet \<Rightarrow> time_span" where
  "kept_span k = \<lparr>ts_start_ms = kept_start_ms k, ts_end_ms = kept_end_ms k\<rparr>"

definition kept_to_bullet :: "kept_bullet \<Rightarrow> time_span" where
  "kept_to_bullet k = \<lparr>ts_start_ms = kept_start_ms k, ts_end_ms = kept_end_ms k\<rparr>"

definition is_live :: "kept_bullet \<Rightarrow> time_span option \<Rightarrow> bool" where
  "is_live k live =
     (case live of
        Some b \<Rightarrow> ts_start_ms b = kept_start_ms k \<and> ts_end_ms b = kept_end_ms k
      | None \<Rightarrow> False)"

datatype given = Unbulleted | GivenKept kept_bullet | OffRecord "kept_bullet option"

datatype absence_policy = AbsenceDerive | AbsenceKeep

datatype given_slot =
    SlotUnbulleted | SlotKeptAbsent | SlotKept kept_bullet | SlotOffRecord "kept_bullet option"

record given_main_bullets =
  by_utterance :: "given list"
  absence :: absence_policy

datatype given_bullet_error = Backward nat nat u64 u64 | GivenUnparsed nat nat string

datatype kept_bullet_error =
    UnparsedWorking nat string
  | UtteranceOutsideInput nat nat
  | UtteranceMissing nat nat
  | Drifted nat u64 u64 "time_span option"
  | OffRecordBullet nat u64 u64
  | GainedBullet nat u64 u64

definition given_slot_of :: "given_main_bullets \<Rightarrow> nat \<Rightarrow> (kept_bullet_error, given_slot) result" where
  "given_slot_of g idx =
     (if idx < length (by_utterance g)
      then Ok (case (by_utterance g ! idx, absence g) of
                 (GivenKept kept, _) \<Rightarrow> SlotKept kept
               | (OffRecord kept, _) \<Rightarrow> SlotOffRecord kept
               | (Unbulleted, AbsenceDerive) \<Rightarrow> SlotUnbulleted
               | (Unbulleted, AbsenceKeep) \<Rightarrow> SlotKeptAbsent)
      else Err (UtteranceOutsideInput idx (length (by_utterance g))))"

datatype main_bullet_authority = AuthorityDerive | AuthorityKeep given_main_bullets

definition authority_slot :: "main_bullet_authority \<Rightarrow> nat \<Rightarrow> (kept_bullet_error, given_slot option) result" where
  "authority_slot a idx =
     (case a of AuthorityDerive \<Rightarrow> Ok None | AuthorityKeep g \<Rightarrow> map_sum id Some (given_slot_of g idx))"

datatype given_mutability = GivenReadOnly | GivenRevisable

datatype bullet_mutability = ReadOnly kept_bullet | Revisable

definition live_bullet :: "nat \<Rightarrow> bullet_state option \<Rightarrow> (kept_bullet_error, time_span option) result" where
  "live_bullet idx state =
     (case state of
        None \<Rightarrow> Ok None
      | Some (Parsed b) \<Rightarrow> Ok (Some b)
      | Some (Unparsed source) \<Rightarrow> Err (UnparsedWorking idx source))"

definition drifted :: "nat \<Rightarrow> kept_bullet \<Rightarrow> time_span option \<Rightarrow> kept_bullet_error" where
  "drifted idx kept live = Drifted idx (kept_start_ms kept) (kept_end_ms kept) live"

definition off_record :: "nat \<Rightarrow> time_span \<Rightarrow> kept_bullet_error" where
  "off_record idx live = OffRecordBullet idx (ts_start_ms live) (ts_end_ms live)"

definition gained :: "nat \<Rightarrow> time_span \<Rightarrow> kept_bullet_error" where
  "gained idx live = GainedBullet idx (ts_start_ms live) (ts_end_ms live)"

definition bind_utterance :: "nat \<Rightarrow> nat \<Rightarrow> utterance \<Rightarrow> (given_bullet_error, given) result" where
  "bind_utterance line_idx idx u =
     (case ut_bullet u of
        Some (Unparsed source) \<Rightarrow> Err (GivenUnparsed idx line_idx source)
      | _ \<Rightarrow>
          (let finish = (\<lambda>kept. Ok (case (presence_of u, kept) of
                 (NotInRecording _, kept) \<Rightarrow> OffRecord kept
               | (InRecording, None) \<Rightarrow> Unbulleted
               | (InRecording, Some kept) \<Rightarrow> GivenKept kept))
           in case map_option classify_given (parsed_bullet u) of
                None \<Rightarrow> finish None
              | Some (GivenExtent s e) \<Rightarrow> finish (Some (KeptExtent s e))
              | Some (GivenEmpty t) \<Rightarrow> finish (Some (KeptEmpty t))
              | Some (GivenBackward s e) \<Rightarrow> Err (Backward idx line_idx s e)))"

fun bind_all :: "(nat \<times> nat \<times> utterance) list \<Rightarrow> (given_bullet_error, given list) result" where
  "bind_all [] = Ok []"
| "bind_all ((l, k, u) # us) =
     (case bind_utterance l k u of
        Inl e \<Rightarrow> Err e
      | Inr g \<Rightarrow> map_sum id ((#) g) (bind_all us))"

definition authority_bind ::
    "main_bullet_policy \<Rightarrow> chat_file \<Rightarrow> (given_bullet_error, main_bullet_authority) result" where
  "authority_bind policy input =
     (case policy of
        DeriveFromWords \<Rightarrow> Ok AuthorityDerive
      | KeepGiven \<Rightarrow>
          map_sum id (\<lambda>gs. AuthorityKeep \<lparr>by_utterance = gs, absence = AbsenceDerive\<rparr>) (bind_all (utterances_indexed input))
      | KeepExact \<Rightarrow>
          map_sum id (\<lambda>gs. AuthorityKeep \<lparr>by_utterance = gs, absence = AbsenceKeep\<rparr>) (bind_all (utterances_indexed input)))"

definition given_mutability_of :: "main_bullet_authority \<Rightarrow> nat \<Rightarrow> (kept_bullet_error, given_mutability) result" where
  "given_mutability_of a idx =
     (case authority_slot a idx of
        Inl e \<Rightarrow> Err e
      | Inr None \<Rightarrow> Ok GivenRevisable
      | Inr (Some SlotUnbulleted) \<Rightarrow> Ok GivenRevisable
      | Inr (Some _) \<Rightarrow> Ok GivenReadOnly)"

definition mutability :: "main_bullet_authority \<Rightarrow> nat \<Rightarrow> time_span \<Rightarrow> (kept_bullet_error, bullet_mutability) result" where
  "mutability a idx live =
     (case authority_slot a idx of
        Inl e \<Rightarrow> Err e
      | Inr None \<Rightarrow> Ok Revisable
      | Inr (Some SlotUnbulleted) \<Rightarrow> Ok Revisable
      | Inr (Some SlotKeptAbsent) \<Rightarrow> Err (gained idx live)
      | Inr (Some (SlotOffRecord _)) \<Rightarrow> Err (off_record idx live)
      | Inr (Some (SlotKept kept)) \<Rightarrow>
          (if is_live kept (Some live) then Ok (ReadOnly kept) else Err (drifted idx kept (Some live))))"

definition imposition_review :: "kept_bullet \<Rightarrow> clamped_words \<Rightarrow> bool option" where
  "imposition_review kept c =
     (case kept of
        KeptExtent _ _ \<Rightarrow> if cw_trimmed c = [] \<and> cw_dropped c = [] then None else Some (cw_dropped c \<noteq> [])
      | KeptEmpty _ \<Rightarrow> Some True)"

definition impose_step ::
    "given_main_bullets \<Rightarrow> nat \<Rightarrow> nat \<Rightarrow> utterance \<Rightarrow> nat list \<times> decision_record list \<Rightarrow>
      (kept_bullet_error, utterance \<times> nat list \<times> decision_record list) result" where
  "impose_step g line_idx idx u st =
     (let (cuts, records) = st;
          decide = (\<lambda>strategy review. \<lparr>dr_line_idx = line_idx, dr_speaker = ut_speaker u,
             dr_strategy = StrategyFa strategy, dr_needs_review = review\<rparr>)
      in case given_slot_of g idx of
           Inl e \<Rightarrow> Err e
         | Inr SlotUnbulleted \<Rightarrow> Ok (u, cuts, records)
         | Inr (SlotOffRecord _) \<Rightarrow> Ok (u, cuts, records)
         | Inr SlotKeptAbsent \<Rightarrow>
             (let (u', untimed) = clamp_words_within \<lparr>ts_start_ms = 0, ts_end_ms = 0\<rparr> (u\<lparr>ut_bullet := None\<rparr>)
              in Ok (u', if cut_main_tier untimed then cuts @ [idx] else cuts,
                   if cw_dropped untimed = [] then records
                   else records @ [decide WordsUntimedForKeptAbsence False]))
         | Inr (SlotKept kept) \<Rightarrow>
             (let (u', c) = clamp_words_within (kept_span kept) (u\<lparr>ut_bullet := Some (Parsed (kept_to_bullet kept))\<rparr>)
              in Ok (u', if cut_main_tier c then cuts @ [idx] else cuts,
                   case imposition_review kept c of
                     None \<Rightarrow> records
                   | Some review \<Rightarrow> records @ [decide WordsClampedToKeptBullet review])))"

definition impose ::
    "main_bullet_authority \<Rightarrow> chat_file \<Rightarrow>
      (kept_bullet_error, chat_file \<times> nat list \<times> decision_record list) result" where
  "impose a f =
     (case a of
        AuthorityDerive \<Rightarrow> Ok (f, [], [])
      | AuthorityKeep g \<Rightarrow> over_utterances (impose_step g) 0 0 f ([], []))"

definition restore_step ::
    "given_main_bullets \<Rightarrow> nat \<Rightarrow> nat \<Rightarrow> utterance \<Rightarrow> unit \<Rightarrow> (kept_bullet_error, utterance \<times> unit) result" where
  "restore_step g line_idx idx u st =
     (case live_bullet idx (ut_bullet u) of
        Inl e \<Rightarrow> Err e
      | Inr _ \<Rightarrow>
          (case given_slot_of g idx of
             Inl e \<Rightarrow> Err e
           | Inr (SlotOffRecord (Some kept)) \<Rightarrow> Ok (u\<lparr>ut_bullet := Some (Parsed (kept_to_bullet kept))\<rparr>, ())
           | Inr _ \<Rightarrow> Ok (u, ())))"

definition restore_off_record :: "main_bullet_authority \<Rightarrow> chat_file \<Rightarrow> (kept_bullet_error, chat_file) result" where
  "restore_off_record a f =
     (case a of
        AuthorityDerive \<Rightarrow> Ok f
      | AuthorityKeep g \<Rightarrow> map_sum id fst (over_utterances (restore_step g) 0 0 f ()))"

definition off_record_bullet :: "main_bullet_authority \<Rightarrow> nat \<Rightarrow> (kept_bullet_error, time_span option) result" where
  "off_record_bullet a idx =
     (case authority_slot a idx of
        Inl e \<Rightarrow> Err e
      | Inr (Some (SlotOffRecord (Some kept))) \<Rightarrow> Ok (Some (kept_to_bullet kept))
      | Inr _ \<Rightarrow> Ok None)"

definition restores_off_record_bullet :: "main_bullet_authority \<Rightarrow> bool" where
  "restores_off_record_bullet a =
     (case a of
        AuthorityDerive \<Rightarrow> False
      | AuthorityKeep g \<Rightarrow> list_ex (\<lambda>s. case s of OffRecord (Some _) \<Rightarrow> True | _ \<Rightarrow> False) (by_utterance g))"

datatype held_bullets = NoneKept | AllHeld nat nat

fun held_kept :: "held_bullets \<Rightarrow> nat" where
  "held_kept NoneKept = 0"
| "held_kept (AllHeld kept absent) = kept"

fun held_kept_absent :: "held_bullets \<Rightarrow> nat" where
  "held_kept_absent NoneKept = 0"
| "held_kept_absent (AllHeld kept absent) = absent"

definition verify_step ::
    "given_main_bullets \<Rightarrow> nat \<Rightarrow> nat \<Rightarrow> utterance \<Rightarrow> nat \<times> nat \<times> nat \<Rightarrow>
      (kept_bullet_error, utterance \<times> nat \<times> nat \<times> nat) result" where
  "verify_step g line_idx idx u st =
     (let (working, kept_count, kept_absent) = st; working = working + 1
      in case live_bullet idx (ut_bullet u) of
           Inl e \<Rightarrow> Err e
         | Inr live \<Rightarrow>
             (case given_slot_of g idx of
                Inl e \<Rightarrow> Err e
              | Inr SlotUnbulleted \<Rightarrow> Ok (u, working, kept_count, kept_absent)
              | Inr SlotKeptAbsent \<Rightarrow>
                  (case live of
                     None \<Rightarrow> Ok (u, working, kept_count, kept_absent + 1)
                   | Some live \<Rightarrow> Err (gained idx live))
              | Inr (SlotKept kept) \<Rightarrow>
                  (if is_live kept live then Ok (u, working, kept_count + 1, kept_absent)
                   else Err (drifted idx kept live))
              | Inr (SlotOffRecord None) \<Rightarrow>
                  (case live of
                     None \<Rightarrow> Ok (u, working, kept_count, kept_absent)
                   | Some live \<Rightarrow> Err (off_record idx live))
              | Inr (SlotOffRecord (Some kept)) \<Rightarrow>
                  (if is_live kept live then Ok (u, working, kept_count + 1, kept_absent)
                   else Err (drifted idx kept live))))"

definition verify_held :: "main_bullet_authority \<Rightarrow> chat_file \<Rightarrow> (kept_bullet_error, held_bullets) result" where
  "verify_held a f =
     (case a of
        AuthorityDerive \<Rightarrow> Ok NoneKept
      | AuthorityKeep g \<Rightarrow>
          (case over_utterances (verify_step g) 0 0 f (0, 0, 0) of
             Inl e \<Rightarrow> Err e
           | Inr (_, working, kept, kept_absent) \<Rightarrow>
               (if working = length (by_utterance g) then Ok (AllHeld kept kept_absent)
                else Err (UtteranceMissing (length (by_utterance g)) working))))"

definition restore_and_verify ::
    "main_bullet_authority \<Rightarrow> chat_file \<Rightarrow> (kept_bullet_error, chat_file \<times> held_bullets) result" where
  "restore_and_verify a f =
     (case restore_off_record a f of
        Inl e \<Rightarrow> Err e
      | Inr f' \<Rightarrow> map_sum id (\<lambda>held. (f', held)) (verify_held a f'))"

subsection \<open>Files by line\<close>

text \<open>The bullet a line carries now, and the utterance number of a line.\<close>

definition live :: "chat_file \<Rightarrow> nat \<Rightarrow> time_span option" where
  "live f i = Option.bind (utterance_at f i) parsed_bullet"

definition ordinal :: "chat_file \<Rightarrow> nat \<Rightarrow> nat" where
  "ordinal f i = length (filter (\<lambda>l. l \<noteq> OtherLine) (take i f))"

lemma line_utterance_Some [simp]: "line_utterance l = Some u \<longleftrightarrow> l = Utterance u"
  by (cases l) auto

lemma utterance_at_iff: "utterance_at f i = Some u \<longleftrightarrow> i < length f \<and> f ! i = Utterance u"
  by (simp add: utterance_at_def)

lemma utterance_at_Cons [simp]:
  "utterance_at (l # f) 0 = line_utterance l" "utterance_at (l # f) (Suc i) = utterance_at f i"
  by (simp_all add: utterance_at_def)

lemma utterance_at_Nil [simp]: "utterance_at [] i = None"
  by (simp add: utterance_at_def)

lemma put_utterance_at [simp]:
  "utterance_at (put_utterance i u f) j = (if j = i \<and> utterance_at f i \<noteq> None then Some u else utterance_at f j)"
  by (auto simp: put_utterance_def utterance_at_def split: option.split)

lemma length_put_utterance [simp]: "length (put_utterance i u f) = length f"
  by (simp add: put_utterance_def split: option.split)

lemma live_put [simp]:
  "live (put_utterance i u f) j = (if j = i \<and> utterance_at f i \<noteq> None then parsed_bullet u else live f j)"
  by (auto simp: live_def)

lemma live_utterance: "live f i = Some b \<longleftrightarrow> (\<exists>u. utterance_at f i = Some u \<and> parsed_bullet u = Some b)"
  by (auto simp: live_def bind_eq_Some_conv)

lemma put_utterance_kind: "(put_utterance i u f ! j = OtherLine) = (f ! j = OtherLine)"
  by (cases "i = j") (auto simp: put_utterance_def utterance_at_def split: option.split)

lemma ordinal_put [simp]: "ordinal (put_utterance i u f) j = ordinal f j"
proof -
  have "map (\<lambda>l. l \<noteq> OtherLine) (put_utterance i u f) = map (\<lambda>l. l \<noteq> OtherLine) f"
    by (auto intro!: nth_equalityI simp: put_utterance_kind)
  moreover have "ordinal g j = length (filter id (take j (map (\<lambda>l. l \<noteq> OtherLine) g)))" for g
    by (simp add: ordinal_def take_map filter_map comp_def)
  ultimately show ?thesis by simp
qed

lemma indexed_from_iff:
  "(l', k', u) \<in> set (indexed_from l k f) \<longleftrightarrow> (\<exists>i. utterance_at f i = Some u \<and> l' = l + i \<and> k' = k + ordinal f i)"
proof (induction l k f rule: indexed_from.induct)
  case (2 l k u' f)
  have "(\<exists>i. utterance_at (Utterance u' # f) i = Some u \<and> l' = l + i \<and> k' = k + ordinal (Utterance u' # f) i) \<longleftrightarrow>
      (u' = u \<and> l' = l \<and> k' = k) \<or>
      (\<exists>i. utterance_at f i = Some u \<and> l' = l + 1 + i \<and> k' = k + 1 + ordinal f i)" (is "?L \<longleftrightarrow> ?R")
  proof
    assume ?L
    then obtain i where "utterance_at (Utterance u' # f) i = Some u" "l' = l + i" "k' = k + ordinal (Utterance u' # f) i" by blast
    then show ?R by (cases i) (auto simp: ordinal_def)
  next
    assume ?R
    then show ?L
    proof (elim disjE exE conjE)
      fix i assume "utterance_at f i = Some u" "l' = l + 1 + i" "k' = k + 1 + ordinal f i"
      then show ?L by (intro exI [of _ "Suc i"]) (simp add: ordinal_def)
    qed (auto intro!: exI [of _ 0] simp: ordinal_def)
  qed
  with 2 show ?case by auto
next
  case (3 l k f)
  have "(\<exists>i. utterance_at (OtherLine # f) i = Some u \<and> l' = l + i \<and> k' = k + ordinal (OtherLine # f) i) \<longleftrightarrow>
      (\<exists>i. utterance_at f i = Some u \<and> l' = l + 1 + i \<and> k' = k + ordinal f i)" (is "?L \<longleftrightarrow> ?R")
  proof
    assume ?L
    then obtain i where "utterance_at (OtherLine # f) i = Some u" "l' = l + i" "k' = k + ordinal (OtherLine # f) i" by blast
    then show ?R by (cases i) (auto simp: ordinal_def)
  next
    assume ?R
    then obtain i where "utterance_at f i = Some u" "l' = l + 1 + i" "k' = k + ordinal f i" by blast
    then show ?L by (intro exI [of _ "Suc i"]) (simp add: ordinal_def)
  qed
  with 3 show ?case by auto
qed (simp add: utterance_at_def)

lemma utterances_indexed_iff:
  "(l, k, u) \<in> set (utterances_indexed f) \<longleftrightarrow> utterance_at f l = Some u \<and> k = ordinal f l"
  by (auto simp: utterances_indexed_def indexed_from_iff)

lemma indexed_from_sorted: "sorted_wrt (<) (map fst (indexed_from l k f))"
proof (induction l k f rule: indexed_from.induct)
  case (2 l k u f)
  then show ?case by (auto simp: indexed_from_iff)
qed simp_all

lemma utterances_indexed_sorted: "sorted_wrt (<) (map fst (utterances_indexed f))"
  by (simp add: utterances_indexed_def indexed_from_sorted)

text \<open>What a loop over the utterances leaves: every line's utterance went through the step.\<close>

lemma over_utterances_nth:
  assumes "over_utterances step l k f s = Ok (f', s')"
  shows "length f' = length f \<and>
    (\<forall>i. case utterance_at f i of
       None \<Rightarrow> utterance_at f' i = None
     | Some u \<Rightarrow> \<exists>u' s1 s2. step (l + i) (k + ordinal f i) u s1 = Ok (u', s2) \<and> utterance_at f' i = Some u')"
  using assms
proof (induction step l k f s arbitrary: f' s' rule: over_utterances.induct)
  case (1 step l k s)
  then show ?case by simp
next
  case (2 step l k f s)
  then obtain g where g: "over_utterances step (l + 1) k f s = Ok (g, s')" "f' = OtherLine # g"
    by (cases "over_utterances step (l + 1) k f s") auto
  have "case utterance_at (OtherLine # f) i of
       None \<Rightarrow> utterance_at f' i = None
     | Some u \<Rightarrow> \<exists>u' s1 s2. step (l + i) (k + ordinal (OtherLine # f) i) u s1 = Ok (u', s2) \<and> utterance_at f' i = Some u'" for i
  proof (cases i)
    case 0
    then show ?thesis using g(2) by simp
  next
    case (Suc j)
    have "ordinal (OtherLine # f) (Suc j) = ordinal f j" by (simp add: ordinal_def)
    with conjunct2 [OF "2.IH" [OF g(1)]] g(2) Suc show ?thesis by (auto dest!: spec [of _ j] split: option.splits)
  qed
  with "2.IH" [OF g(1)] g(2) show ?case by simp
next
  case (3 step l k u f s)
  obtain u' s1 where s: "step l k u s = Ok (u', s1)" using "3.prems" by (cases "step l k u s") auto
  obtain g where g: "over_utterances step (l + 1) (k + 1) f s1 = Ok (g, s')" "f' = Utterance u' # g"
    using "3.prems" s by (cases "over_utterances step (l + 1) (k + 1) f s1") auto
  note IH = "3.IH" [OF s refl g(1)]
  have "case utterance_at (Utterance u # f) i of
       None \<Rightarrow> utterance_at f' i = None
     | Some v \<Rightarrow> \<exists>v' s1 s2. step (l + i) (k + ordinal (Utterance u # f) i) v s1 = Ok (v', s2) \<and> utterance_at f' i = Some v'" for i
  proof (cases i)
    case 0
    then show ?thesis using s g(2) by (auto simp: ordinal_def)
  next
    case (Suc j)
    have "ordinal (Utterance u # f) (Suc j) = Suc (ordinal f j)" by (simp add: ordinal_def)
    with conjunct2 [OF IH] g(2) Suc show ?thesis by (auto dest!: spec [of _ j] split: option.splits)
  qed
  with IH g(2) show ?case by simp
qed

subsection \<open>What a clamp leaves\<close>

definition clamp_span :: "time_span \<Rightarrow> time_span \<Rightarrow> time_span option" where
  "clamp_span bound s =
     (if ts_start_ms bound \<le> ts_start_ms s \<and> ts_end_ms s \<le> ts_end_ms bound then Some s
      else let a = max (ts_start_ms s) (ts_start_ms bound); b = min (ts_end_ms s) (ts_end_ms bound)
           in if a < b then Some \<lparr>ts_start_ms = a, ts_end_ms = b\<rparr> else None)"

definition clamp_utterance :: "time_span \<Rightarrow> utterance \<Rightarrow> utterance" where
  "clamp_utterance bound u =
     u\<lparr>ut_words := map (\<lambda>w. w\<lparr>mw_timing := Option.bind (mw_timing w) (clamp_span bound)\<rparr>) (ut_words u),
       ut_wor := map_option (map (\<lambda>t. Option.bind t (clamp_span bound))) (ut_wor u)\<rparr>"

definition outside :: "time_span \<Rightarrow> time_span option \<Rightarrow> bool" where
  "outside bound t \<longleftrightarrow> (\<exists>s. t = Some s \<and> \<not> (ts_start_ms bound \<le> ts_start_ms s \<and> ts_end_ms s \<le> ts_end_ms bound))"

lemma clamp_transcript_cases:
  "(s < e \<and> (\<exists>t. clamp_transcript_word_to_bullet span s e = Trimmed t \<and> wt_span t = \<lparr>ts_start_ms = s, ts_end_ms = e\<rparr>)) \<or>
   (\<not> s < e \<and> clamp_transcript_word_to_bullet span s e = DroppedPastBound span)"
  by (cases span)
    (auto simp: clamp_transcript_word_to_bullet_def clamped_to_bullet_def settle_pending_def remeasured_def
      pending_from_transcript_def pt_start_def pt_end_def word_timing_new_def)

lemma clamp_word_fst [simp]: "fst (clamp_word i tier bound t c) = Option.bind t (clamp_span bound)"
proof (cases t)
  case (Some s)
  with clamp_transcript_cases [of "max (ts_start_ms s) (ts_start_ms bound)" "min (ts_end_ms s) (ts_end_ms bound)" s]
  show ?thesis
    by (elim disjE conjE exE) (simp_all add: clamp_word_def clamp_span_def record_clamp_def Let_def)
qed (simp add: clamp_word_def)

definition cuts_made :: "clamped_words \<Rightarrow> nat" where
  "cuts_made c = length (cw_trimmed c) + length (cw_dropped c)"

lemma clamp_word_cuts: "cuts_made (snd (clamp_word i tier bound t c)) = cuts_made c + (if outside bound t then 1 else 0)"
  by (auto simp: clamp_word_def record_clamp_def cuts_made_def outside_def split: option.split word_clamp_outcome.split)

lemma clamp_timings_fst [simp]:
  "fst (clamp_timings tier bound i ts c) = map (\<lambda>t. Option.bind t (clamp_span bound)) ts"
  by (induction ts arbitrary: i c) (simp_all add: Let_def case_prod_beta)

lemma clamp_timings_cuts:
  "cuts_made (snd (clamp_timings tier bound i ts c)) = cuts_made c + length (filter (outside bound) ts)"
  by (induction ts arbitrary: i c) (simp_all add: Let_def case_prod_beta clamp_word_cuts)

lemma write_timings_map: "write_timings ws (map (\<lambda>x. g (mw_timing x)) ws) = map (\<lambda>w. w\<lparr>mw_timing := g (mw_timing w)\<rparr>) ws"
  unfolding write_timings_def by (induction ws) simp_all

lemma clamp_words_within_fst [simp]: "fst (clamp_words_within bound u) = clamp_utterance bound u"
  by (cases u) (auto simp: clamp_words_within_def clamp_utterance_def write_timings_map [where g = "\<lambda>t. Option.bind t (clamp_span bound)"]
      Let_def case_prod_beta comp_def split: option.split)

lemma clamp_words_cuts:
  "cuts_made (snd (clamp_words_within bound u)) =
     length (filter (outside bound) (map mw_timing (ut_words u))) +
     (case ut_wor u of None \<Rightarrow> 0 | Some ws \<Rightarrow> length (filter (outside bound) ws))"
  by (simp add: clamp_words_within_def Let_def case_prod_beta clamp_timings_cuts no_cuts_def cuts_made_def [of "\<lparr>cw_trimmed = [], cw_dropped = []\<rparr>"]
      split: option.split)

lemma not_outside: "\<not> outside bound t \<Longrightarrow> Option.bind t (clamp_span bound) = t"
  by (cases t) (auto simp: outside_def clamp_span_def)

lemma clamp_utterance_id:
  assumes "\<not> cut_any (snd (clamp_words_within bound u))"
  shows "clamp_utterance bound u = u"
proof -
  have "cuts_made (snd (clamp_words_within bound u)) = 0" using assms by (simp add: cut_any_def cuts_made_def)
  then have none: "\<forall>w \<in> set (ut_words u). \<not> outside bound (mw_timing w)"
      "\<forall>ws. ut_wor u = Some ws \<longrightarrow> (\<forall>t \<in> set ws. \<not> outside bound t)"
    by (auto simp: clamp_words_cuts filter_empty_conv split: option.splits)
  then have "map (\<lambda>w. w\<lparr>mw_timing := Option.bind (mw_timing w) (clamp_span bound)\<rparr>) (ut_words u) = ut_words u"
    by (intro map_idI) (auto simp: not_outside)
  moreover have "map_option (map (\<lambda>t. Option.bind t (clamp_span bound))) (ut_wor u) = ut_wor u"
    using none(2) by (cases "ut_wor u") (auto intro!: map_idI simp: not_outside)
  ultimately show ?thesis by (simp add: clamp_utterance_def)
qed

lemma clamp_utterance_simps [simp]:
  "ut_speaker (clamp_utterance bound u) = ut_speaker u" "ut_bullet (clamp_utterance bound u) = ut_bullet u"
  "parsed_bullet (clamp_utterance bound u) = parsed_bullet u"
  "ut_overlap_precedes (clamp_utterance bound u) = ut_overlap_precedes u"
  "ut_postcodes (clamp_utterance bound u) = ut_postcodes u"
  by (simp_all add: clamp_utterance_def parsed_bullet_def)

lemma map_filter_bind: "List.map_filter (\<lambda>x. Option.bind (g x) h) xs = List.map_filter h (List.map_filter g xs)"
  by (induction xs) (simp_all split: option.split)

lemma map_filter_map_comp: "List.map_filter g (map h xs) = List.map_filter (\<lambda>x. g (h x)) xs"
  by (induction xs) (simp_all split: option.split)

lemma clamp_utterance_timings [simp]:
  "word_timings (clamp_utterance bound u) = List.map_filter (clamp_span bound) (word_timings u)"
  "wor_timings (clamp_utterance bound u) = List.map_filter (clamp_span bound) (wor_timings u)"
  by (simp_all add: word_timings_def wor_timings_def clamp_utterance_def map_filter_map_comp
      map_filter_bind [of mw_timing] map_filter_bind [of id, simplified] split: option.split)

subsection \<open>Hulls and valid utterances\<close>

lemma Max_insert_max: "finite S \<Longrightarrow> Max (insert (max a x) S) = Max (insert a (insert (x :: 'a :: linorder) S))"
  by (cases "S = {}") (simp_all add: max.assoc)

lemma Min_insert_min: "finite S \<Longrightarrow> Min (insert (min a x) S) = Min (insert a (insert (x :: 'a :: linorder) S))"
  by (cases "S = {}") (simp_all add: min.assoc)

lemma iter_max_eq: "iter_max xs = (if xs = [] then None else Some (Max (set xs)))"
proof -
  have "fold (\<lambda>x acc. Some (case acc of None \<Rightarrow> x | Some c \<Rightarrow> max c x)) ys (Some (a :: u64)) = Some (Max (insert a (set ys)))" for ys a
    by (induction ys arbitrary: a) (simp_all add: Max_insert_max del: Max_insert)
  then show ?thesis by (cases xs) (simp_all add: iter_max_def)
qed

lemma iter_min_eq: "iter_min xs = (if xs = [] then None else Some (Min (set xs)))"
proof -
  have "fold (\<lambda>x acc. Some (case acc of None \<Rightarrow> x | Some c \<Rightarrow> min c x)) ys (Some (a :: u64)) = Some (Min (insert a (set ys)))" for ys a
    by (induction ys arbitrary: a) (simp_all add: Min_insert_min del: Min_insert)
  then show ?thesis by (cases xs) (simp_all add: iter_min_def)
qed

definition all_timings :: "utterance \<Rightarrow> time_span list" where
  "all_timings u = word_timings u @ wor_timings u"

lemma furthest_eq:
  "furthest_word_timing_end u = (if all_timings u = [] then None else Some (Max (ts_end_ms ` set (all_timings u))))"
  by (simp add: furthest_word_timing_end_def iter_max_eq some_list_def all_timings_def image_Un Max_Un)

lemma earliest_eq:
  "earliest_word_timing_start u = (if all_timings u = [] then None else Some (Min (ts_start_ms ` set (all_timings u))))"
  by (simp add: earliest_word_timing_start_def iter_min_eq some_list_def all_timings_def image_Un Min_Un)

lemma furthest_SomeE:
  assumes "furthest_word_timing_end u = Some h"
  obtains s where "s \<in> set (all_timings u)" "ts_end_ms s = h" "\<And>t. t \<in> set (all_timings u) \<Longrightarrow> ts_end_ms t \<le> h"
proof -
  from assms have ne: "all_timings u \<noteq> []" and h: "h = Max (ts_end_ms ` set (all_timings u))"
    by (auto simp: furthest_eq split: if_splits)
  from ne have "Max (ts_end_ms ` set (all_timings u)) \<in> ts_end_ms ` set (all_timings u)" by (intro Max_in) auto
  then show thesis using that h by (metis (no_types, lifting) List.finite_set Max_ge finite_imageI imageE imageI)
qed

lemma earliest_SomeE:
  assumes "earliest_word_timing_start u = Some h"
  obtains s where "s \<in> set (all_timings u)" "ts_start_ms s = h" "\<And>t. t \<in> set (all_timings u) \<Longrightarrow> h \<le> ts_start_ms t"
proof -
  from assms have ne: "all_timings u \<noteq> []" and h: "h = Min (ts_start_ms ` set (all_timings u))"
    by (auto simp: earliest_eq split: if_splits)
  from ne have "Min (ts_start_ms ` set (all_timings u)) \<in> ts_start_ms ` set (all_timings u)" by (intro Min_in) auto
  then show thesis using that h by (metis (no_types, lifting) List.finite_set Min_le finite_imageI imageE imageI)
qed

text \<open>A valid utterance: a bullet with extent, and every timed word with extent inside it.\<close>

definition span_in :: "time_span \<Rightarrow> time_span \<Rightarrow> bool" where
  "span_in b s \<longleftrightarrow> ts_start_ms b \<le> ts_start_ms s \<and> ts_start_ms s < ts_end_ms s \<and> ts_end_ms s \<le> ts_end_ms b"

definition valid_utterance :: "utterance \<Rightarrow> bool" where
  "valid_utterance u =
     (case parsed_bullet u of
        None \<Rightarrow> True
      | Some b \<Rightarrow> ts_start_ms b < ts_end_ms b \<and> list_all (span_in b) (all_timings u))"

lemma set_bullet_simps [simp]:
  "parsed_bullet (set_bullet_start ms u) = map_option (\<lambda>b. b\<lparr>ts_start_ms := ms\<rparr>) (parsed_bullet u)"
  "parsed_bullet (set_bullet_end ms u) = map_option (\<lambda>b. b\<lparr>ts_end_ms := ms\<rparr>) (parsed_bullet u)"
  "all_timings (set_bullet_start ms u) = all_timings u" "all_timings (set_bullet_end ms u) = all_timings u"
  "ut_speaker (set_bullet_start ms u) = ut_speaker u" "ut_speaker (set_bullet_end ms u) = ut_speaker u"
  "ut_words (set_bullet_start ms u) = ut_words u" "ut_words (set_bullet_end ms u) = ut_words u"
  "ut_wor (set_bullet_start ms u) = ut_wor u" "ut_wor (set_bullet_end ms u) = ut_wor u"
  by (auto simp: set_bullet_start_def set_bullet_end_def parsed_bullet_def all_timings_def word_timings_def
      wor_timings_def split: option.splits)

lemma clamp_all_timings [simp]:
  "all_timings (clamp_utterance bound u) = List.map_filter (clamp_span bound) (all_timings u)"
  by (simp add: all_timings_def List.map_filter_def)

lemma clamp_span_in:
  assumes "clamp_span bound s = Some t" and "ts_start_ms s < ts_end_ms s"
  shows "ts_start_ms bound \<le> ts_start_ms t" "ts_end_ms t \<le> ts_end_ms bound" "ts_start_ms t < ts_end_ms t"
    "ts_start_ms s \<le> ts_start_ms t" "ts_end_ms t \<le> ts_end_ms s"
  using assms by (auto simp: clamp_span_def Let_def split: if_splits)

lemma strip_simps [simp]:
  "parsed_bullet (fst (strip_utterance_timing u)) = None" "ut_bullet (fst (strip_utterance_timing u)) = None"
  "ut_speaker (fst (strip_utterance_timing u)) = ut_speaker u"
  by (simp_all add: strip_utterance_timing_def Let_def parsed_bullet_def)

lemma raise_simps [simp]:
  "parsed_bullet (fst (raise_bullet_start ms u)) = map_option (\<lambda>b. b\<lparr>ts_start_ms := ms\<rparr>) (parsed_bullet u)"
  "ut_speaker (fst (raise_bullet_start ms u)) = ut_speaker u"
  "all_timings (fst (raise_bullet_start ms u)) =
     List.map_filter (clamp_span \<lparr>ts_start_ms = ms, ts_end_ms = - 1\<rparr>) (all_timings u)"
  by (simp_all add: raise_bullet_start_def clamp_words_before_bound_def)

lemma valid_strip [simp]: "valid_utterance (fst (strip_utterance_timing u))"
  by (simp add: valid_utterance_def)

lemma valid_raise:
  assumes "valid_utterance u" and "parsed_bullet u = Some b" and "ms < ts_end_ms b"
  shows "valid_utterance (fst (raise_bullet_start ms u))"
proof -
  have "span_in (b\<lparr>ts_start_ms := ms\<rparr>) t"
    if s: "s \<in> set (all_timings u)" and t: "clamp_span \<lparr>ts_start_ms = ms, ts_end_ms = - 1\<rparr> s = Some t" for s t
  proof -
    have "span_in b s" using assms(1,2) s by (simp add: valid_utterance_def list_all_iff)
    with clamp_span_in [OF t] show ?thesis by (auto simp: span_in_def)
  qed
  with assms(2,3) show ?thesis
    by (auto simp: valid_utterance_def list_all_iff List.map_filter_def)
qed

lemma valid_clamp_end:
  assumes "valid_utterance u" and "parsed_bullet u = Some b" and "ts_start_ms b < ms"
  shows "valid_utterance (clamp_utterance \<lparr>ts_start_ms = 0, ts_end_ms = ms\<rparr> (set_bullet_end ms u))"
proof -
  have "span_in (b\<lparr>ts_end_ms := ms\<rparr>) t"
    if s: "s \<in> set (all_timings u)" and t: "clamp_span \<lparr>ts_start_ms = 0, ts_end_ms = ms\<rparr> s = Some t" for s t
  proof -
    have "span_in b s" using assms(1,2) s by (simp add: valid_utterance_def list_all_iff)
    with clamp_span_in [OF t] show ?thesis by (auto simp: span_in_def)
  qed
  with assms(2,3) show ?thesis
    by (auto simp: valid_utterance_def list_all_iff List.map_filter_def)
qed

lemma valid_hull_end:
  assumes "valid_utterance u" and "parsed_bullet u = Some b" and "furthest_word_timing_end u = Some h"
  shows "valid_utterance (set_bullet_end h u)" and "ts_start_ms b < h" and "h \<le> ts_end_ms b"
proof -
  obtain s where s: "s \<in> set (all_timings u)" "ts_end_ms s = h" "\<And>t. t \<in> set (all_timings u) \<Longrightarrow> ts_end_ms t \<le> h"
    using furthest_SomeE [OF assms(3)] by metis
  have in_b: "span_in b t" if "t \<in> set (all_timings u)" for t
    using assms(1,2) that by (simp add: valid_utterance_def list_all_iff)
  show "ts_start_ms b < h" "h \<le> ts_end_ms b" using in_b [OF s(1)] s(2) by (auto simp: span_in_def)
  then show "valid_utterance (set_bullet_end h u)"
    using assms(2) in_b s(3) by (auto simp: valid_utterance_def list_all_iff span_in_def)
qed

lemma valid_hull_start:
  assumes "valid_utterance u" and "parsed_bullet u = Some b" and "earliest_word_timing_start u = Some h"
  shows "valid_utterance (set_bullet_start h u)" and "ts_start_ms b \<le> h" and "h < ts_end_ms b"
proof -
  obtain s where s: "s \<in> set (all_timings u)" "ts_start_ms s = h" "\<And>t. t \<in> set (all_timings u) \<Longrightarrow> h \<le> ts_start_ms t"
    using earliest_SomeE [OF assms(3)] by metis
  have in_b: "span_in b t" if "t \<in> set (all_timings u)" for t
    using assms(1,2) that by (simp add: valid_utterance_def list_all_iff)
  show "ts_start_ms b \<le> h" "h < ts_end_ms b" using in_b [OF s(1)] s(2) by (auto simp: span_in_def)
  then show "valid_utterance (set_bullet_start h u)"
    using assms(2) in_b s(3) by (auto simp: valid_utterance_def list_all_iff span_in_def)
qed

lemma valid_no_words_end:
  assumes "valid_utterance u" and "parsed_bullet u = Some b" and "furthest_word_timing_end u = None" and "ts_start_ms b < ms"
  shows "valid_utterance (set_bullet_end ms u)"
  using assms by (auto simp: valid_utterance_def furthest_eq split: if_splits)

text \<open>A strip lists every timed word before it takes the timing away.\<close>

lemma timed_words_from_iff:
  "d \<in> set (timed_words_from tier i ts) \<longleftrightarrow>
     dw_tier d = tier \<and> i \<le> dw_index d \<and> dw_index d < i + length ts \<and> ts ! (dw_index d - i) = Some (dw_measured d)"
proof (induction tier i ts rule: timed_words_from.induct)
  case (2 tier i ts)
  then show ?case by (cases "dw_index d = i") (auto simp: nth_Cons')
next
  case (3 tier i s ts)
  then show ?case by (cases "dw_index d = i"; cases d) (auto simp: nth_Cons')
qed auto

subsection \<open>Files that agree with the given bullets\<close>

definition slot_agrees :: "given_slot option \<Rightarrow> bullet_state option \<Rightarrow> bool" where
  "slot_agrees slot b =
     ((\<forall>source. b \<noteq> Some (Unparsed source)) \<and>
      (case slot of
         None \<Rightarrow> True
       | Some SlotUnbulleted \<Rightarrow> True
       | Some SlotKeptAbsent \<Rightarrow> b = None
       | Some (SlotOffRecord _) \<Rightarrow> b = None
       | Some (SlotKept k) \<Rightarrow> b = Some (Parsed (kept_to_bullet k))))"

definition agrees :: "main_bullet_authority \<Rightarrow> chat_file \<Rightarrow> bool" where
  "agrees a f \<longleftrightarrow> (\<forall>i u. utterance_at f i = Some u \<longrightarrow>
     (\<exists>slot. authority_slot a (ordinal f i) = Ok slot \<and> slot_agrees slot (ut_bullet u)))"

definition line_kind :: "chat_line \<Rightarrow> (string \<times> bool \<times> string list) option" where
  "line_kind l = map_option (\<lambda>u. (ut_speaker u, ut_overlap_precedes u, ut_postcodes u)) (line_utterance l)"

definition same_shape :: "chat_file \<Rightarrow> chat_file \<Rightarrow> bool" where
  "same_shape f f' \<longleftrightarrow> map line_kind f = map line_kind f'"

definition utterance_count :: "chat_file \<Rightarrow> nat" where
  "utterance_count f = ordinal f (length f)"

lemma ordinal_kinds: "ordinal f i = length (filter (\<lambda>x. x \<noteq> None) (take i (map line_kind f)))"
proof -
  have "(line_kind l \<noteq> None) = (l \<noteq> OtherLine)" for l by (cases l) (simp_all add: line_kind_def)
  then show ?thesis by (simp add: ordinal_def take_map filter_map comp_def)
qed

lemma same_shape_refl [simp]: "same_shape f f" by (simp add: same_shape_def)

lemma same_shape_trans [trans]: "same_shape f g \<Longrightarrow> same_shape g h \<Longrightarrow> same_shape f h"
  by (simp add: same_shape_def)

lemma same_shape_ordinal: "same_shape f f' \<Longrightarrow> ordinal f' i = ordinal f i"
  by (simp add: same_shape_def ordinal_kinds)

lemma same_shape_length: "same_shape f f' \<Longrightarrow> length f' = length f"
  unfolding same_shape_def by (metis length_map)

lemma same_shape_at:
  assumes "same_shape f f'"
  shows "map_option (\<lambda>u. (ut_speaker u, ut_overlap_precedes u, ut_postcodes u)) (utterance_at f' i) =
    map_option (\<lambda>u. (ut_speaker u, ut_overlap_precedes u, ut_postcodes u)) (utterance_at f i)"
proof (cases "i < length f")
  case True
  with assms same_shape_length [OF assms] have "line_kind (f' ! i) = line_kind (f ! i)"
    unfolding same_shape_def by (metis nth_map)
  with True same_shape_length [OF assms] show ?thesis by (simp add: utterance_at_def line_kind_def)
qed (simp add: utterance_at_def same_shape_length [OF assms])

lemma same_shape_count: "same_shape f f' \<Longrightarrow> utterance_count f' = utterance_count f"
  by (simp add: utterance_count_def same_shape_ordinal same_shape_length)

lemma same_shapeI:
  assumes "length f' = length f"
    and "\<And>i. map_option (\<lambda>u. (ut_speaker u, ut_overlap_precedes u, ut_postcodes u)) (utterance_at f' i) =
      map_option (\<lambda>u. (ut_speaker u, ut_overlap_precedes u, ut_postcodes u)) (utterance_at f i)"
  shows "same_shape f f'"
proof -
  have "line_kind (f ! i) = line_kind (f' ! i)" if "i < length f" for i
    using assms(1) assms(2) [of i] that by (simp add: utterance_at_def line_kind_def)
  with assms(1) show ?thesis by (auto simp: same_shape_def intro: nth_equalityI)
qed

lemma same_shape_put:
  assumes "utterance_at f i = Some u" and "ut_speaker u' = ut_speaker u"
    and "ut_overlap_precedes u' = ut_overlap_precedes u" and "ut_postcodes u' = ut_postcodes u"
  shows "same_shape f (put_utterance i u' f)"
  using assms by (intro same_shapeI) auto

lemma same_shape_Cons:
  "same_shape (l # f) (l' # f') \<longleftrightarrow> line_kind l = line_kind l' \<and> same_shape f f'"
  by (simp add: same_shape_def)

lemma utterance_count_simps [simp]:
  "utterance_count [] = 0" "utterance_count (Utterance u # f) = Suc (utterance_count f)"
  "utterance_count (OtherLine # f) = utterance_count f"
  by (simp_all add: utterance_count_def ordinal_def)

lemma ordinal_less: "utterance_at f i = Some u \<Longrightarrow> ordinal f i < utterance_count f"
proof (induction f arbitrary: i)
  case (Cons l f)
  have ord: "ordinal (l # f) (Suc j) = (if l = OtherLine then 0 else 1) + ordinal f j" for j by (simp add: ordinal_def)
  show ?case
  proof (cases i)
    case 0
    with Cons.prems show ?thesis by (cases l) (simp_all add: ordinal_def)
  next
    case (Suc j)
    with Cons.prems Cons.IH [of j] ord [of j] show ?thesis by (cases l) simp_all
  qed
qed simp

lemma kept_live [simp]: "is_live k (Some b) \<longleftrightarrow> b = kept_to_bullet k"
  by (cases b) (auto simp: is_live_def kept_to_bullet_def)

lemma is_live_iff: "is_live k x \<longleftrightarrow> x = Some (kept_to_bullet k)"
  by (cases x) (simp_all add: is_live_def [of k None])

text \<open>Where a file agrees, asking what may be done to a live bullet never fails.\<close>

lemma mutability_agrees:
  assumes "agrees a f" and "utterance_at f i = Some u" and "parsed_bullet u = Some b"
  obtains "mutability a (ordinal f i) b = Ok Revisable"
      "authority_slot a (ordinal f i) = Ok None \<or> authority_slot a (ordinal f i) = Ok (Some SlotUnbulleted)"
    | k where "mutability a (ordinal f i) b = Ok (ReadOnly k)" "authority_slot a (ordinal f i) = Ok (Some (SlotKept k))"
        "b = kept_to_bullet k"
proof -
  from assms(1,2) obtain slot where s: "authority_slot a (ordinal f i) = Ok slot" "slot_agrees slot (ut_bullet u)"
    unfolding agrees_def by blast
  have b: "ut_bullet u = Some (Parsed b)"
    using assms(3) by (cases "ut_bullet u"; cases "the (ut_bullet u)") (auto simp: parsed_bullet_def)
  show thesis
  proof (cases slot)
    case None
    then show thesis using that s by (simp add: mutability_def)
  next
    case (Some sl)
    then show thesis using that s b by (cases sl) (auto simp: mutability_def slot_agrees_def)
  qed
qed

lemma agrees_put:
  assumes "agrees a f" and "utterance_at f i = Some u"
    and "authority_slot a (ordinal f i) = Ok None \<or> authority_slot a (ordinal f i) = Ok (Some SlotUnbulleted)"
    and "\<And>source. ut_bullet u' \<noteq> Some (Unparsed source)"
  shows "agrees a (put_utterance i u' f)"
  unfolding agrees_def
proof (intro allI impI)
  fix j v
  assume "utterance_at (put_utterance i u' f) j = Some v"
  then show "\<exists>slot. authority_slot a (ordinal (put_utterance i u' f) j) = Ok slot \<and> slot_agrees slot (ut_bullet v)"
    using assms by (cases "j = i") (auto simp: agrees_def slot_agrees_def)
qed

subsection \<open>Imposing, restoring, verifying\<close>

lemma over_utterances_ok:
  assumes "\<And>i u s. utterance_at f i = Some u \<Longrightarrow> \<exists>r. step (l + i) (k + ordinal f i) u s = Ok r"
  shows "\<exists>r. over_utterances step l k f s = Ok r"
  using assms
proof (induction step l k f s rule: over_utterances.induct)
  case (2 step l k f s)
  have "\<exists>r. over_utterances step (l + 1) k f s = Ok r"
  proof (rule "2.IH")
    fix i u s assume "utterance_at f i = Some u"
    with "2.prems" [of "Suc i" u s] show "\<exists>r. step (l + 1 + i) (k + ordinal f i) u s = Ok r"
      by (simp add: ordinal_def)
  qed
  then show ?case by auto
next
  case (3 step l k u f s)
  from "3.prems" [of 0 u s] obtain u' s' where s: "step l k u s = Ok (u', s')" by (auto simp: ordinal_def)
  have "\<exists>r. over_utterances step (l + 1) (k + 1) f s' = Ok r"
  proof (rule "3.IH" [OF s refl])
    fix i v t assume "utterance_at f i = Some v"
    with "3.prems" [of "Suc i" v t] show "\<exists>r. step (l + 1 + i) (k + 1 + ordinal f i) v t = Ok r"
      by (simp add: ordinal_def)
  qed
  with s show ?case by auto
qed simp

lemma over_utterances_shape:
  assumes "over_utterances step l k f s = Ok (f', s')"
    and "\<And>l k u s u' s'. step l k u s = Ok (u', s') \<Longrightarrow>
      ut_speaker u' = ut_speaker u \<and> ut_overlap_precedes u' = ut_overlap_precedes u \<and> ut_postcodes u' = ut_postcodes u"
  shows "same_shape f f'"
proof (rule same_shapeI)
  note nth = over_utterances_nth [OF assms(1)]
  then show "length f' = length f" by blast
  fix i
  from nth show "map_option (\<lambda>u. (ut_speaker u, ut_overlap_precedes u, ut_postcodes u)) (utterance_at f' i) =
      map_option (\<lambda>u. (ut_speaker u, ut_overlap_precedes u, ut_postcodes u)) (utterance_at f i)"
    using assms(2) by (cases "utterance_at f i") (auto dest!: spec [of _ i])
qed

lemma clamp_keeps:
  assumes "clamp_words_within bound u = (u', c)"
  shows "ut_bullet u' = ut_bullet u \<and> ut_speaker u' = ut_speaker u \<and>
    ut_overlap_precedes u' = ut_overlap_precedes u \<and> ut_postcodes u' = ut_postcodes u"
  using clamp_words_within_fst [of bound u] assms by (metis clamp_utterance_simps(1,2,4,5) fst_conv)

lemma impose_step_result:
  assumes "impose_step g l idx u st = Ok (u', st')" and "given_slot_of g idx = Ok slot"
  shows "ut_speaker u' = ut_speaker u \<and> ut_overlap_precedes u' = ut_overlap_precedes u \<and> ut_postcodes u' = ut_postcodes u \<and>
    ut_bullet u' = (case slot of
       SlotUnbulleted \<Rightarrow> ut_bullet u | SlotOffRecord _ \<Rightarrow> ut_bullet u
     | SlotKeptAbsent \<Rightarrow> None | SlotKept k \<Rightarrow> Some (Parsed (kept_to_bullet k)))"
  using assms clamp_keeps by (cases slot) (auto simp: impose_step_def Let_def split: prod.splits)

text \<open>
  What a working file must be for given bullets to be imposed on it: the utterances of the input, no
  unreadable bullet, and none on an utterance that is not in the recording.
\<close>

definition fits :: "main_bullet_authority \<Rightarrow> chat_file \<Rightarrow> bool" where
  "fits a f \<longleftrightarrow>
     (\<forall>i u. utterance_at f i = Some u \<longrightarrow> (\<forall>source. ut_bullet u \<noteq> Some (Unparsed source))) \<and>
     (case a of
        AuthorityDerive \<Rightarrow> True
      | AuthorityKeep g \<Rightarrow> length (by_utterance g) = utterance_count f \<and>
          (\<forall>i u k. utterance_at f i = Some u \<longrightarrow> by_utterance g ! ordinal f i = OffRecord k \<longrightarrow> ut_bullet u = None))"

lemma impose_agrees:
  assumes "fits a f"
  obtains f' cuts records where "impose a f = Ok (f', cuts, records)" "agrees a f'" "same_shape f f'"
proof (cases a)
  case AuthorityDerive
  with assms have "agrees a f" by (auto simp: agrees_def fits_def authority_slot_def slot_agrees_def)
  then show thesis using that AuthorityDerive by (simp add: impose_def)
next
  case (AuthorityKeep g)
  have slot: "\<exists>slot. given_slot_of g (ordinal f i) = Ok slot" if "utterance_at f i = Some u" for i u
    using assms ordinal_less [OF that] AuthorityKeep by (simp add: fits_def given_slot_of_def)
  have step: "\<exists>r. impose_step g (0 + i) (0 + ordinal f i) u s = Ok r" if here: "utterance_at f i = Some u" for i u s
  proof -
    obtain sl where "given_slot_of g (ordinal f i) = Ok sl" using slot [OF here] by blast
    then show ?thesis by (cases sl) (auto simp: impose_step_def Let_def split: prod.splits)
  qed
  from over_utterances_ok [where step = "impose_step g" and l = 0 and k = 0 and f = f, OF step]
  obtain f' cuts records where ok: "over_utterances (impose_step g) 0 0 f ([], []) = Ok (f', cuts, records)"
    by (metis surj_pair)
  have shape: "same_shape f f'"
  proof (rule over_utterances_shape [OF ok])
    fix l k u s u' s'
    assume r: "impose_step g l k u s = Ok (u', s' :: nat list \<times> decision_record list)"
    then obtain sl where "given_slot_of g k = Ok sl"
      by (cases "given_slot_of g k") (auto simp: impose_step_def Let_def split: prod.splits)
    from impose_step_result [OF r this] show
      "ut_speaker u' = ut_speaker u \<and> ut_overlap_precedes u' = ut_overlap_precedes u \<and> ut_postcodes u' = ut_postcodes u"
      by blast
  qed
  have "agrees a f'"
    unfolding agrees_def
  proof (intro allI impI)
    fix i u'
    assume u': "utterance_at f' i = Some u'"
    with over_utterances_nth [OF ok] obtain u s1 s2 where u: "utterance_at f i = Some u"
      and st: "impose_step g i (ordinal f i) u s1 = Ok (u', s2)"
      by (cases "utterance_at f i") (auto dest!: conjunct2 spec [of _ i])
    obtain sl where sl: "given_slot_of g (ordinal f i) = Ok sl" using slot [OF u] by blast
    have off: "ut_bullet u = None" if "sl = SlotOffRecord k" for k
      using assms u sl that AuthorityKeep
      by (auto simp: fits_def given_slot_of_def split: if_splits given.splits absence_policy.splits)
    have "\<forall>source. ut_bullet u \<noteq> Some (Unparsed source)" using assms u by (auto simp: fits_def)
    with impose_step_result [OF st sl] off
    have "slot_agrees (Some sl) (ut_bullet u')" by (cases sl) (auto simp: slot_agrees_def)
    then show "\<exists>slot. authority_slot a (ordinal f' i) = Ok slot \<and> slot_agrees slot (ut_bullet u')"
      using AuthorityKeep sl same_shape_ordinal [OF shape, of i] by (auto simp: authority_slot_def)
  qed
  with that AuthorityKeep ok shape show thesis by (simp add: impose_def)
qed

text \<open>The bullet a given slot ends with, as far as the input decides it.\<close>

definition given_bullet_held :: "given_slot \<Rightarrow> bullet_state option \<Rightarrow> bool" where
  "given_bullet_held slot b =
     (case slot of
        SlotUnbulleted \<Rightarrow> True
      | SlotKeptAbsent \<Rightarrow> b = None
      | SlotKept k \<Rightarrow> b = Some (Parsed (kept_to_bullet k))
      | SlotOffRecord k \<Rightarrow> b = map_option (\<lambda>k. Parsed (kept_to_bullet k)) k)"

fun keeps_bullet :: "given \<Rightarrow> bool" where
  "keeps_bullet (GivenKept k) = True"
| "keeps_bullet (OffRecord k) = (k \<noteq> None)"
| "keeps_bullet Unbulleted = False"

definition keeps_absence :: "absence_policy \<Rightarrow> given \<Rightarrow> bool" where
  "keeps_absence p s \<longleftrightarrow> s = Unbulleted \<and> p = AbsenceKeep"

lemma verify_step_held:
  assumes "given_slot_of g idx = Ok slot" and "given_bullet_held slot (ut_bullet u)"
    and "\<And>source. ut_bullet u \<noteq> Some (Unparsed source)"
  shows "verify_step g l idx u (w, kept, absent) =
    Ok (u, w + 1, kept + (if keeps_bullet (by_utterance g ! idx) then 1 else 0),
        absent + (if keeps_absence (absence g) (by_utterance g ! idx) then 1 else 0))"
proof -
  obtain x where x: "live_bullet idx (ut_bullet u) = Ok x" "x = parsed_bullet u"
    using assms(3) by (cases "ut_bullet u"; cases "the (ut_bullet u)") (auto simp: live_bullet_def parsed_bullet_def)
  show ?thesis
    using assms(1,2) x
    by (cases "by_utterance g ! idx"; cases "absence g")
      (auto simp: verify_step_def given_slot_of_def given_bullet_held_def is_live_iff keeps_absence_def parsed_bullet_def
        split: if_splits option.splits)
qed

lemma verify_held_ok:
  assumes "\<And>i u. utterance_at f i = Some u \<Longrightarrow> (\<exists>slot. given_slot_of g (k + ordinal f i) = Ok slot \<and>
      given_bullet_held slot (ut_bullet u)) \<and> (\<forall>source. ut_bullet u \<noteq> Some (Unparsed source))"
    and "k + utterance_count f = length (by_utterance g)"
  shows "over_utterances (verify_step g) l k f (w, kept, absent) =
    Ok (f, w + utterance_count f, kept + length (filter keeps_bullet (drop k (by_utterance g))),
      absent + length (filter (keeps_absence (absence g)) (drop k (by_utterance g))))"
  using assms
proof (induction f arbitrary: l k w kept absent)
  case (Cons line f)
  show ?case
  proof (cases line)
    case OtherLine
    have ord: "ordinal (OtherLine # f) (Suc i) = ordinal f i" for i by (simp add: ordinal_def)
    have prem: "(\<exists>slot. given_slot_of g (k + ordinal f i) = Ok slot \<and> given_bullet_held slot (ut_bullet u)) \<and>
        (\<forall>source. ut_bullet u \<noteq> Some (Unparsed source))" if "utterance_at f i = Some u" for i u
      using Cons.prems(1) [of "Suc i" u] that OtherLine ord by simp
    show ?thesis using Cons.IH [OF prem] Cons.prems(2) OtherLine by simp
  next
    case (Utterance v)
    have ord: "ordinal (Utterance v # f) (Suc i) = Suc (ordinal f i)" for i by (simp add: ordinal_def)
    have prem: "(\<exists>slot. given_slot_of g (Suc k + ordinal f i) = Ok slot \<and> given_bullet_held slot (ut_bullet u)) \<and>
        (\<forall>source. ut_bullet u \<noteq> Some (Unparsed source))" if "utterance_at f i = Some u" for i u
      using Cons.prems(1) [of "Suc i" u] that Utterance ord by simp
    have kk: "k < length (by_utterance g)" using Cons.prems(2) Utterance by simp
    from Cons.prems(1) [of 0 v] Utterance obtain slot where s: "given_slot_of g k = Ok slot"
      "given_bullet_held slot (ut_bullet v)" "\<And>source. ut_bullet v \<noteq> Some (Unparsed source)"
      by (auto simp: ordinal_def)
    have d: "drop k (by_utterance g) = by_utterance g ! k # drop (Suc k) (by_utterance g)"
      using kk by (simp add: Cons_nth_drop_Suc)
    show ?thesis
      using Cons.IH [OF prem, where l = "Suc l"] Cons.prems(2) Utterance verify_step_held [OF s, of l w kept absent] d by simp
  qed
qed simp

lemma restore_step_result:
  assumes "given_slot_of g idx = Ok slot" and "slot_agrees (Some slot) (ut_bullet u)"
  obtains u' where "restore_step g l idx u s = Ok (u', ())" "given_bullet_held slot (ut_bullet u')"
    "\<And>source. ut_bullet u' \<noteq> Some (Unparsed source)" "ut_speaker u' = ut_speaker u"
    "ut_overlap_precedes u' = ut_overlap_precedes u" "ut_postcodes u' = ut_postcodes u"
proof -
  obtain x where x: "live_bullet idx (ut_bullet u) = Ok x"
    using assms(2) by (cases "ut_bullet u"; cases "the (ut_bullet u)") (auto simp: live_bullet_def slot_agrees_def)
  show thesis
  proof (cases slot)
    case (SlotOffRecord k)
    then show thesis using that assms x
      by (cases k) (auto simp: restore_step_def given_bullet_held_def slot_agrees_def)
  qed (use that assms x in \<open>auto simp: restore_step_def given_bullet_held_def slot_agrees_def\<close>)
qed

lemma restore_and_verify_ok:
  assumes "agrees (AuthorityKeep g) f" and "utterance_count f = length (by_utterance g)"
  obtains f' where "restore_and_verify (AuthorityKeep g) f =
      Ok (f', AllHeld (length (filter keeps_bullet (by_utterance g)))
            (length (filter (keeps_absence (absence g)) (by_utterance g))))"
    "same_shape f f'"
    "\<And>i u. utterance_at f' i = Some u \<Longrightarrow>
       \<exists>slot. given_slot_of g (ordinal f' i) = Ok slot \<and> given_bullet_held slot (ut_bullet u)"
proof -
  have slot: "\<exists>slot. given_slot_of g (ordinal f i) = Ok slot \<and> slot_agrees (Some slot) (ut_bullet u)"
    if here: "utterance_at f i = Some u" for i u
  proof -
    from assms(1) here obtain x where "authority_slot (AuthorityKeep g) (ordinal f i) = Ok x" "slot_agrees x (ut_bullet u)"
      unfolding agrees_def by blast
    then show ?thesis by (cases "given_slot_of g (ordinal f i)") (auto simp: authority_slot_def)
  qed
  have step: "\<exists>r. restore_step g (0 + i) (0 + ordinal f i) u s = Ok r" if here: "utterance_at f i = Some u" for i u s
    using slot [OF here] restore_step_result [of g "ordinal f i" _ u i s] by (metis add_0)
  from over_utterances_ok [where step = "restore_step g" and l = 0 and k = 0 and f = f, OF step]
  obtain f' where ok: "over_utterances (restore_step g) 0 0 f () = Ok (f', ())" by auto
  have each: "\<exists>u. utterance_at f i = Some u \<and> ut_speaker u' = ut_speaker u \<and>
      ut_overlap_precedes u' = ut_overlap_precedes u \<and> ut_postcodes u' = ut_postcodes u \<and>
      (\<exists>slot. given_slot_of g (ordinal f i) = Ok slot \<and> given_bullet_held slot (ut_bullet u')) \<and>
      (\<forall>source. ut_bullet u' \<noteq> Some (Unparsed source))" if here: "utterance_at f' i = Some u'" for i u'
  proof -
    from over_utterances_nth [OF ok] here obtain u s1 s2 where u: "utterance_at f i = Some u"
      and st: "restore_step g i (ordinal f i) u s1 = Ok (u', s2)"
      by (cases "utterance_at f i") (auto dest!: conjunct2 spec [of _ i])
    obtain sl where sl: "given_slot_of g (ordinal f i) = Ok sl" "slot_agrees (Some sl) (ut_bullet u)"
      using slot [OF u] by blast
    from restore_step_result [OF sl, of i s1] st u sl(1) show ?thesis by (metis Pair_inject sum.inject(2))
  qed
  have shape: "same_shape f f'"
  proof (rule same_shapeI)
    show "length f' = length f" using over_utterances_nth [OF ok] by blast
    fix i
    show "map_option (\<lambda>u. (ut_speaker u, ut_overlap_precedes u, ut_postcodes u)) (utterance_at f' i) =
        map_option (\<lambda>u. (ut_speaker u, ut_overlap_precedes u, ut_postcodes u)) (utterance_at f i)"
      using each [of i] over_utterances_nth [OF ok]
      by (cases "utterance_at f i"; cases "utterance_at f' i") (auto dest!: conjunct2 spec [of _ i])
  qed
  have held: "(\<exists>slot. given_slot_of g (0 + ordinal f' i) = Ok slot \<and> given_bullet_held slot (ut_bullet u)) \<and>
      (\<forall>source. ut_bullet u \<noteq> Some (Unparsed source))" if here: "utterance_at f' i = Some u" for i u
    using each [OF here] same_shape_ordinal [OF shape, of i] by auto
  have count: "0 + utterance_count f' = length (by_utterance g)" using same_shape_count [OF shape] assms(2) by simp
  from verify_held_ok [of f' g 0 0 0 0 0, OF held count] count ok shape held
  show thesis
    by (intro that [of f'])
      (auto simp: restore_and_verify_def restore_off_record_def verify_held_def)
qed

text \<open>What binding reads from the input, utterance by utterance.\<close>

definition given_of :: "utterance \<Rightarrow> given" where
  "given_of u =
     (let kept = map_option (\<lambda>b. if ts_start_ms b = ts_end_ms b then KeptEmpty (ts_start_ms b)
            else KeptExtent (ts_start_ms b) (ts_end_ms b)) (parsed_bullet u)
      in case presence_of u of
           NotInRecording _ \<Rightarrow> OffRecord kept
         | InRecording \<Rightarrow> (case kept of None \<Rightarrow> Unbulleted | Some k \<Rightarrow> GivenKept k))"

lemma bind_utterance_given: "bind_utterance l k u = Ok g \<Longrightarrow> g = given_of u"
  by (auto simp: bind_utterance_def given_of_def classify_given_def parsed_bullet_def Let_def
      split: option.splits bullet_state.splits recording_presence.splits if_splits)

lemma bind_all_given: "bind_all us = Ok gs \<Longrightarrow> gs = map (\<lambda>(l, k, u). given_of u) us"
proof (induction us arbitrary: gs)
  case (Cons x us)
  obtain l k u where x: "x = (l, k, u)" by (cases x)
  with Cons.prems obtain g where g: "bind_utterance l k u = Ok g" by (cases "bind_utterance l k u") auto
  with Cons.prems x obtain hs where "bind_all us = Ok hs" "gs = g # hs" by (cases "bind_all us") auto
  with Cons.IH x bind_utterance_given [OF g] show ?case by simp
qed simp

lemma indexed_from_nth:
  assumes "utterance_at f i = Some u"
  shows "indexed_from l k f ! ordinal f i = (l + i, k + ordinal f i, u)"
  using assms
proof (induction l k f arbitrary: i rule: indexed_from.induct)
  case (2 l k v f)
  show ?case
  proof (cases i)
    case 0
    then show ?thesis using "2.prems" by (simp add: ordinal_def)
  next
    case (Suc j)
    have "ordinal (Utterance v # f) (Suc j) = Suc (ordinal f j)" by (simp add: ordinal_def)
    with "2.IH" [of j] "2.prems" Suc show ?thesis by simp
  qed
next
  case (3 l k f)
  show ?case
  proof (cases i)
    case 0
    then show ?thesis using "3.prems" by simp
  next
    case (Suc j)
    have "ordinal (OtherLine # f) (Suc j) = ordinal f j" by (simp add: ordinal_def)
    with "3.IH" [of j] "3.prems" Suc show ?thesis by simp
  qed
qed simp

lemma length_indexed_from: "length (indexed_from l k f) = utterance_count f"
  by (induction l k f rule: indexed_from.induct) simp_all

lemma authority_bind_given:
  assumes "authority_bind policy input = Ok a" and "policy \<noteq> DeriveFromWords"
  obtains g where "a = AuthorityKeep g" "length (by_utterance g) = utterance_count input"
    "absence g = (if policy = KeepExact then AbsenceKeep else AbsenceDerive)"
    "\<And>i u. utterance_at input i = Some u \<Longrightarrow> by_utterance g ! ordinal input i = given_of u"
proof -
  from assms obtain gs where gs: "bind_all (utterances_indexed input) = Ok gs"
    "a = AuthorityKeep \<lparr>by_utterance = gs, absence = (if policy = KeepExact then AbsenceKeep else AbsenceDerive)\<rparr>"
    by (cases "bind_all (utterances_indexed input)"; cases policy) (auto simp: authority_bind_def)
  have "gs ! ordinal input i = given_of u" if "utterance_at input i = Some u" for i u
    using that ordinal_less [OF that] bind_all_given [OF gs(1)] indexed_from_nth [OF that, of 0 0]
    by (simp add: utterances_indexed_def length_indexed_from)
  then show thesis
    using that gs(2) bind_all_given [OF gs(1)] by (simp add: utterances_indexed_def length_indexed_from)
qed

subsection \<open>Phases between imposing and verifying\<close>

text \<open>
  The phases change a file one utterance at a time. They change a bullet only where the authority
  leaves it revisable; the writing of a \<^verbatim>\<open>%wor\<close> tier changes no bullet. That alone keeps the file in
  agreement with the given bullets.
\<close>

definition revisable_at :: "main_bullet_authority \<Rightarrow> nat \<Rightarrow> bool" where
  "revisable_at a idx \<longleftrightarrow> authority_slot a idx = Ok None \<or> authority_slot a idx = Ok (Some SlotUnbulleted)"

definition same_line :: "utterance \<Rightarrow> utterance \<Rightarrow> bool" where
  "same_line u u' \<longleftrightarrow> ut_speaker u' = ut_speaker u \<and> ut_overlap_precedes u' = ut_overlap_precedes u \<and>
     ut_postcodes u' = ut_postcodes u \<and> (\<forall>source. ut_bullet u' \<noteq> Some (Unparsed source))"

inductive revises :: "main_bullet_authority \<Rightarrow> chat_file \<Rightarrow> chat_file \<Rightarrow> bool" for a where
  unrevised: "revises a f f"
| revised: "revises a f g \<Longrightarrow> utterance_at g i = Some u \<Longrightarrow> revisable_at a (ordinal g i) \<Longrightarrow> same_line u u' \<Longrightarrow>
    revises a f (put_utterance i u' g)"
| relabelled: "revises a f g \<Longrightarrow> utterance_at g i = Some u \<Longrightarrow> ut_bullet u' = ut_bullet u \<Longrightarrow> ut_speaker u' = ut_speaker u \<Longrightarrow>
    ut_overlap_precedes u' = ut_overlap_precedes u \<Longrightarrow> ut_postcodes u' = ut_postcodes u \<Longrightarrow>
    revises a f (put_utterance i u' g)"

lemma revises_agrees: "revises a f g \<Longrightarrow> agrees a f \<Longrightarrow> agrees a g \<and> same_shape f g"
proof (induction rule: revises.induct)
  case (revised f g i u u')
  then have "agrees a (put_utterance i u' g)"
    by (intro agrees_put [of a g i u]) (auto simp: revisable_at_def same_line_def)
  moreover have "same_shape g (put_utterance i u' g)"
    using revised by (intro same_shape_put [of g i u]) (auto simp: same_line_def)
  ultimately show ?case using revised same_shape_trans by blast
next
  case (relabelled f g i u u')
  then have "agrees a (put_utterance i u' g)" by (auto simp: agrees_def)
  moreover have "same_shape g (put_utterance i u' g)" using relabelled by (intro same_shape_put [of g i u]) auto
  ultimately show ?case using relabelled same_shape_trans by blast
qed simp

lemma revises_trans: "revises a g h \<Longrightarrow> revises a f g \<Longrightarrow> revises a f h"
  by (induction rule: revises.induct) (auto intro: revises.intros)

lemma revises_one: "utterance_at g i = Some u \<Longrightarrow> revisable_at a (ordinal g i) \<Longrightarrow> same_line u u' \<Longrightarrow>
    revises a g (put_utterance i u' g)"
  by (auto intro: revises.intros)

locale kept_phase =
  fixes phase :: "main_bullet_authority \<Rightarrow> chat_file \<Rightarrow> (kept_bullet_error, chat_file \<times> 'r) result"
  assumes revises_only: "agrees a f \<Longrightarrow> \<exists>f' r. phase a f = Ok (f', r) \<and> revises a f f'"
begin

text \<open>
  Bind the input, impose, run the phase, restore and verify: nothing refuses, every bullet of the
  input is in the result, and under the exact policy no utterance has gained one.
\<close>

lemma input_bullets_held:
  assumes bind: "authority_bind policy input = Ok a" "policy \<noteq> DeriveFromWords"
    and shape: "same_shape input f"
    and parsed: "\<forall>i u source. utterance_at f i = Some u \<longrightarrow> ut_bullet u \<noteq> Some (Unparsed source)"
    and off: "\<forall>i u. utterance_at f i = Some u \<longrightarrow> presence_of u \<noteq> InRecording \<longrightarrow> ut_bullet u = None"
  shows "\<exists>f1 cuts records f2 r f3 held.
    impose a f = Ok (f1, cuts, records) \<and> phase a f1 = Ok (f2, r) \<and> restore_and_verify a f2 = Ok (f3, held) \<and>
    (\<forall>i u u'. utterance_at input i = Some u \<longrightarrow> utterance_at f3 i = Some u' \<longrightarrow>
       (\<forall>b. parsed_bullet u = Some b \<longrightarrow> parsed_bullet u' = Some b) \<and>
       (policy = KeepExact \<longrightarrow> parsed_bullet u = None \<longrightarrow> parsed_bullet u' = None))"
proof -
  obtain g where a: "a = AuthorityKeep g" and len: "length (by_utterance g) = utterance_count input"
    and abs: "absence g = (if policy = KeepExact then AbsenceKeep else AbsenceDerive)"
    and nth: "\<And>i u. utterance_at input i = Some u \<Longrightarrow> by_utterance g ! ordinal input i = given_of u"
    using authority_bind_given [OF bind] by metis
  have "fits a f"
  proof -
    have "ut_bullet u = None" if u: "utterance_at f i = Some u" and o: "by_utterance g ! ordinal f i = OffRecord k" for i u k
    proof -
      from same_shape_at [OF shape, of i] u obtain v where v: "utterance_at input i = Some v" "ut_postcodes v = ut_postcodes u"
        by (cases "utterance_at input i") auto
      have "given_of v = OffRecord k" using nth [OF v(1)] o same_shape_ordinal [OF shape, of i] by simp
      then have "presence_of v \<noteq> InRecording"
        by (auto simp: given_of_def Let_def split: recording_presence.splits option.splits)
      moreover have "presence_of v = presence_of u" using v(2) by (simp add: presence_of_def)
      ultimately show ?thesis using off u by simp
    qed
    then show ?thesis using a len same_shape_count [OF shape] parsed by (auto simp: fits_def)
  qed
  then obtain f1 cuts records where f1: "impose a f = Ok (f1, cuts, records)" "agrees a f1" "same_shape f f1"
    by (rule impose_agrees)
  obtain f2 r where f2: "phase a f1 = Ok (f2, r)" "revises a f1 f2" using revises_only [OF f1(2)] by blast
  have ag: "agrees a f2" "same_shape f1 f2" using revises_agrees [OF f2(2) f1(2)] by auto
  have cnt: "utterance_count f2 = length (by_utterance g)"
    using same_shape_count [OF ag(2)] same_shape_count [OF f1(3)] same_shape_count [OF shape] len by simp
  from restore_and_verify_ok [OF ag(1) [unfolded a] cnt] obtain f3 held where
    f3: "restore_and_verify a f2 = Ok (f3, held)" "same_shape f2 f3"
      "\<And>i u. utterance_at f3 i = Some u \<Longrightarrow>
        \<exists>slot. given_slot_of g (ordinal f3 i) = Ok slot \<and> given_bullet_held slot (ut_bullet u)"
    using a by metis
  have whole: "same_shape input f3" using same_shape_trans shape f1(3) ag(2) f3(2) by blast
  have "(\<forall>b. parsed_bullet u = Some b \<longrightarrow> parsed_bullet u' = Some b) \<and>
      (policy = KeepExact \<longrightarrow> parsed_bullet u = None \<longrightarrow> parsed_bullet u' = None)"
    if u: "utterance_at input i = Some u" and u': "utterance_at f3 i = Some u'" for i u u'
  proof -
    from f3(3) [OF u'] obtain slot where slot: "given_slot_of g (ordinal input i) = Ok slot"
      "given_bullet_held slot (ut_bullet u')" using same_shape_ordinal [OF whole] by auto
    show ?thesis
      using slot nth [OF u] ordinal_less [OF u] len abs
      by (cases "parsed_bullet u"; cases "presence_of u"; cases policy)
        (auto simp: given_slot_of_def given_of_def given_bullet_held_def kept_to_bullet_def parsed_bullet_def
          split: if_splits)
  qed
  with f1(1) f2(1) f3(1) show ?thesis by blast
qed

end

end
