(* ===== verification/Fa_Order.thy ===== *)
theory Fa_Order
  imports Fa_Bullets
begin

text \<open>
  Monotonicity of a transcript's bullets (\<^verbatim>\<open>crates/batchalign/src/chat_ops/fa/orchestrate.rs\<close> and
  \<^verbatim>\<open>orchestrate/start_order.rs\<close>). The first pass puts the starts in file order: a regressing start is
  raised or stripped, a start above the next kept one yields. The second pass resolves end overlaps,
  first along each speaker's own utterances, then between neighbouring timed utterances as the policy
  says. Every change is recorded as an effect. Kept bullets are read through the authority of
  \<^verbatim>\<open>Fa_Bullets\<close>, which refuses when one has moved.
\<close>

subsection \<open>Policies, edges and effects\<close>

datatype end_overlap_policy = ClampAllAdjacent | PreserveCrossSpeaker

definition should_clamp :: "end_overlap_policy \<Rightarrow> string \<Rightarrow> string \<Rightarrow> bool" where
  "should_clamp policy earlier_speaker next_speaker =
     (case policy of ClampAllAdjacent \<Rightarrow> True | PreserveCrossSpeaker \<Rightarrow> earlier_speaker = next_speaker)"

record overlap_edge =
  oe_line_idx :: nat
  oe_utterance_idx :: nat
  oe_speaker :: string
  oe_original_end_ms :: u64
  oe_next_line_idx :: nat
  oe_next_utterance_idx :: nat
  oe_next_speaker :: string

record regression_facts =
  rf_line_idx :: nat
  rf_utterance_idx :: nat
  rf_speaker :: string
  rf_start_ms :: u64
  rf_previous_start_ms :: u64
  rf_previous_line_idx :: nat
  rf_previous_utterance_idx :: nat
  rf_previous_speaker :: string

datatype kept_bullet_yield =
    StartMoved u64 u64 "trimmed_word list" "dropped_word list"
  | YieldStripped u64 u64 "dropped_word list"

record yield_facts =
  yf_line_idx :: nat
  yf_utterance_idx :: nat
  yf_speaker :: string
  yf_kept_line_idx :: nat
  yf_kept_utterance_idx :: nat
  yf_kept_speaker :: string
  yf_kept_boundary_ms :: u64

datatype monotonicity_effect =
    StartRegressionStripped regression_facts "dropped_word list"
  | StartRegressionRaised regression_facts "dropped_word list" "trimmed_word list"
  | ZeroDurationClampStripped overlap_edge u64 u64 "dropped_word list"
  | EffectCoverageOnly overlap_edge u64
  | EffectBoundaryFromWords overlap_edge u64 u64
  | EffectInterleavedWords overlap_edge u64 "trimmed_word list" "dropped_word list"
  | EffectYieldedToKept yield_facts kept_bullet_yield

fun word_mutated_utterance :: "monotonicity_effect \<Rightarrow> nat option" where
  "word_mutated_utterance (EffectInterleavedWords edge _ _ _) = Some (oe_utterance_idx edge)"
| "word_mutated_utterance (EffectYieldedToKept y (StartMoved _ _ trimmed dropped)) =
     (if trimmed \<noteq> [] \<or> dropped \<noteq> [] then Some (yf_utterance_idx y) else None)"
| "word_mutated_utterance (StartRegressionRaised r dropped trimmed) =
     (if trimmed \<noteq> [] \<or> dropped \<noteq> [] then Some (rf_utterance_idx r) else None)"
| "word_mutated_utterance _ = None"

record mono_state =
  ms_file :: chat_file
  ms_decisions :: "decision_record list"
  ms_effects :: "monotonicity_effect list"
  ms_reported :: "(nat \<times> nat) list"

definition decide :: "nat \<Rightarrow> string \<Rightarrow> monotonicity_strategy \<Rightarrow> bool \<Rightarrow> mono_state \<Rightarrow> mono_state" where
  "decide line_idx speaker strategy review st =
     st\<lparr>ms_decisions := ms_decisions st @
       [\<lparr>dr_line_idx = line_idx, dr_speaker = speaker, dr_strategy = StrategyMonotonicity strategy,
         dr_needs_review = review\<rparr>]\<rparr>"

definition effect :: "monotonicity_effect \<Rightarrow> mono_state \<Rightarrow> mono_state" where
  "effect e st = st\<lparr>ms_effects := ms_effects st @ [e]\<rparr>"

definition store_at :: "nat \<Rightarrow> utterance \<Rightarrow> mono_state \<Rightarrow> mono_state" where
  "store_at line_idx u st = st\<lparr>ms_file := put_utterance line_idx u (ms_file st)\<rparr>"

subsection \<open>Pass 1: starts in file order\<close>

datatype transcribed_overlap = PrecedesMarked | Unmarked

definition transcribed_overlap_of :: "utterance \<Rightarrow> transcribed_overlap" where
  "transcribed_overlap_of u = (if ut_overlap_precedes u then PrecedesMarked else Unmarked)"

record start_order_entry =
  so_line_idx :: nat
  so_utterance_idx :: nat
  so_speaker :: string
  so_start_ms :: u64
  so_end_ms :: u64
  so_overlap :: transcribed_overlap

datatype start_order_source = SourceKept start_order_entry | SourceRevisable start_order_entry

fun source_facts :: "start_order_source \<Rightarrow> start_order_entry" where
  "source_facts (SourceKept e) = e"
| "source_facts (SourceRevisable e) = e"

datatype start_order_position =
    Accepted start_order_entry
  | Regressing start_order_entry start_order_entry
  | Yielding start_order_entry start_order_entry

definition classify_start ::
    "start_order_entry \<Rightarrow> start_order_entry option \<Rightarrow> start_order_entry option \<Rightarrow> start_order_position" where
  "classify_start entry previous next_kept =
     (case previous of
        Some p \<Rightarrow>
          (if so_start_ms entry < so_start_ms p then Regressing entry p
           else case next_kept of
                  Some kept \<Rightarrow> if so_start_ms entry > so_start_ms kept then Yielding entry kept else Accepted entry
                | None \<Rightarrow> Accepted entry)
      | None \<Rightarrow>
          (case next_kept of
             Some kept \<Rightarrow> if so_start_ms entry > so_start_ms kept then Yielding entry kept else Accepted entry
           | None \<Rightarrow> Accepted entry))"

datatype strip_cause = NoOverlapMarker | NothingAfterPrecedingStart

datatype start_regression_resolution =
    RegressionStripped "dropped_word list" strip_cause
  | RaisedToPrecedingStart "dropped_word list" "trimmed_word list"

definition resolve_regression ::
    "start_order_entry \<Rightarrow> start_order_entry \<Rightarrow> utterance \<Rightarrow> utterance \<times> start_regression_resolution" where
  "resolve_regression entry previous u =
     (let stripped = (\<lambda>cause. case strip_utterance_timing u of (u', dropped) \<Rightarrow> (u', RegressionStripped dropped cause));
          new_start = so_start_ms previous
      in case so_overlap entry of
           Unmarked \<Rightarrow> stripped NoOverlapMarker
         | PrecedesMarked \<Rightarrow>
             (let timed_extent_survives =
                    (case furthest_word_timing_end u of None \<Rightarrow> True | Some furthest_end \<Rightarrow> furthest_end > new_start)
              in if so_end_ms entry \<le> new_start \<or> \<not> timed_extent_survives then stripped NothingAfterPrecedingStart
                 else case raise_bullet_start new_start u of
                        (u', c) \<Rightarrow> (u', RaisedToPrecedingStart (cw_dropped c) (cw_trimmed c))))"

definition start_entry :: "nat \<Rightarrow> nat \<Rightarrow> utterance \<Rightarrow> time_span \<Rightarrow> start_order_entry" where
  "start_entry line_idx idx u b =
     \<lparr>so_line_idx = line_idx, so_utterance_idx = idx, so_speaker = ut_speaker u, so_start_ms = ts_start_ms b,
      so_end_ms = ts_end_ms b, so_overlap = transcribed_overlap_of u\<rparr>"

fun collect_starts ::
    "main_bullet_authority \<Rightarrow> (nat \<times> nat \<times> utterance) list \<Rightarrow> (kept_bullet_error, start_order_source list) result" where
  "collect_starts a [] = Ok []"
| "collect_starts a ((l, k, u) # us) =
     (case parsed_bullet u of
        None \<Rightarrow> collect_starts a us
      | Some b \<Rightarrow>
          (case mutability a k b of
             Inl e \<Rightarrow> Err e
           | Inr (ReadOnly _) \<Rightarrow> map_sum id ((#) (SourceKept (start_entry l k u b))) (collect_starts a us)
           | Inr Revisable \<Rightarrow> map_sum id ((#) (SourceRevisable (start_entry l k u b))) (collect_starts a us)))"

fun next_kept_of :: "start_order_source list \<Rightarrow> start_order_entry option" where
  "next_kept_of [] = None"
| "next_kept_of (SourceKept e # ss) = Some e"
| "next_kept_of (SourceRevisable _ # ss) = next_kept_of ss"

definition regression_of :: "start_order_entry \<Rightarrow> start_order_entry \<Rightarrow> regression_facts" where
  "regression_of entry previous =
     \<lparr>rf_line_idx = so_line_idx entry, rf_utterance_idx = so_utterance_idx entry, rf_speaker = so_speaker entry,
      rf_start_ms = so_start_ms entry, rf_previous_start_ms = so_start_ms previous,
      rf_previous_line_idx = so_line_idx previous, rf_previous_utterance_idx = so_utterance_idx previous,
      rf_previous_speaker = so_speaker previous\<rparr>"

definition yield_of :: "start_order_entry \<Rightarrow> start_order_entry \<Rightarrow> yield_facts" where
  "yield_of entry kept =
     \<lparr>yf_line_idx = so_line_idx entry, yf_utterance_idx = so_utterance_idx entry, yf_speaker = so_speaker entry,
      yf_kept_line_idx = so_line_idx kept, yf_kept_utterance_idx = so_utterance_idx kept,
      yf_kept_speaker = so_speaker kept, yf_kept_boundary_ms = so_start_ms kept\<rparr>"

definition start_decide :: "start_order_entry \<Rightarrow> monotonicity_strategy \<Rightarrow> mono_state \<Rightarrow> mono_state" where
  "start_decide entry strategy st = decide (so_line_idx entry) (so_speaker entry) strategy True st"

definition apply_regression :: "start_order_entry \<Rightarrow> start_order_entry \<Rightarrow> utterance \<Rightarrow> mono_state \<Rightarrow> mono_state" where
  "apply_regression entry previous u st =
     (case resolve_regression entry previous u of
        (u', RegressionStripped dropped cause) \<Rightarrow>
          effect (StartRegressionStripped (regression_of entry previous) dropped)
            (start_decide entry TimingStripped (store_at (so_line_idx entry) u' st))
      | (u', RaisedToPrecedingStart dropped trimmed) \<Rightarrow>
          effect (StartRegressionRaised (regression_of entry previous) dropped trimmed)
            (start_decide entry StartRaisedToPrecedingStart (store_at (so_line_idx entry) u' st)))"

definition apply_start_yield :: "start_order_entry \<Rightarrow> start_order_entry \<Rightarrow> utterance \<Rightarrow> mono_state \<Rightarrow> mono_state" where
  "apply_start_yield entry kept u st =
     (case strip_utterance_timing u of
        (u', dropped) \<Rightarrow>
          effect (EffectYieldedToKept (yield_of entry kept)
              (YieldStripped (so_start_ms entry) (so_end_ms entry) dropped))
            (start_decide entry TimingStripped (store_at (so_line_idx entry) u' st)))"

fun start_loop ::
    "start_order_source list \<Rightarrow> start_order_entry option \<Rightarrow> start_order_entry option \<Rightarrow> mono_state \<Rightarrow> mono_state" where
  "start_loop [] last_accepted last_kept st = st"
| "start_loop (SourceKept entry # ss) last_accepted last_kept st =
     (case last_kept of
        Some previous \<Rightarrow>
          (if so_start_ms entry < so_start_ms previous
           then start_loop ss last_accepted last_kept (start_decide entry KeptBulletLeftUnresolved st)
           else start_loop ss (Some entry) (Some entry) st)
      | None \<Rightarrow> start_loop ss (Some entry) (Some entry) st)"
| "start_loop (SourceRevisable entry # ss) last_accepted last_kept st =
     (case utterance_at (ms_file st) (so_line_idx entry) of
        None \<Rightarrow> start_loop ss last_accepted last_kept st
      | Some u \<Rightarrow>
          (case classify_start entry last_accepted (next_kept_of ss) of
             Regressing e previous \<Rightarrow> start_loop ss last_accepted last_kept (apply_regression e previous u st)
           | Yielding e kept \<Rightarrow> start_loop ss last_accepted last_kept (apply_start_yield e kept u st)
           | Accepted facts \<Rightarrow> start_loop ss (Some facts) last_kept st))"

definition enforce_start_order ::
    "main_bullet_authority \<Rightarrow> mono_state \<Rightarrow> (kept_bullet_error, mono_state) result" where
  "enforce_start_order a st =
     map_sum id (\<lambda>entries. start_loop entries None None st) (collect_starts a (utterances_indexed (ms_file st)))"

subsection \<open>Pass 2: end overlaps\<close>

datatype end_overlap_resolution =
    CoverageOnly "u64 option"
  | BoundaryFromWords u64 u64
  | InterleavedWords

definition classify_end_overlap :: "u64 option \<Rightarrow> u64 \<Rightarrow> u64 option \<Rightarrow> u64 option \<Rightarrow> end_overlap_resolution" where
  "classify_end_overlap prev_hull_end next_start next_hull_start next_successor_start =
     (case prev_hull_end of
        None \<Rightarrow> CoverageOnly None
      | Some hull_end \<Rightarrow>
          (if hull_end \<le> next_start then CoverageOnly (Some hull_end)
           else case next_hull_start of
                  Some nhs \<Rightarrow>
                    (if nhs \<ge> hull_end \<and> (case next_successor_start of Some s \<Rightarrow> nhs < s | None \<Rightarrow> True)
                     then BoundaryFromWords hull_end nhs else InterleavedWords)
                | None \<Rightarrow> InterleavedWords))"

fun keeping_next_start :: "end_overlap_resolution \<Rightarrow> end_overlap_resolution" where
  "keeping_next_start (CoverageOnly h) = CoverageOnly h"
| "keeping_next_start InterleavedWords = InterleavedWords"
| "keeping_next_start (BoundaryFromWords p n) = InterleavedWords"

fun resolution_needs_review :: "end_overlap_resolution \<Rightarrow> bool" where
  "resolution_needs_review InterleavedWords = True"
| "resolution_needs_review (CoverageOnly _) = False"
| "resolution_needs_review (BoundaryFromWords _ _) = False"

fun resolution_strategy :: "end_overlap_resolution \<Rightarrow> monotonicity_strategy" where
  "resolution_strategy (CoverageOnly _) = EndClampedCoverageOnly"
| "resolution_strategy (BoundaryFromWords _ _) = EndClampedBoundaryFromWords"
| "resolution_strategy InterleavedWords = EndClampedInterleavedWords"

definition file_order_successor_start_ms :: "chat_file \<Rightarrow> nat \<Rightarrow> u64 option" where
  "file_order_successor_start_ms f after_line =
     (case List.map_filter (\<lambda>l. Option.bind (line_utterance l) parsed_bullet) (drop (after_line + 1) f) of
        [] \<Rightarrow> None
      | b # _ \<Rightarrow> Some (ts_start_ms b))"

record overlap_facts =
  of_edge :: overlap_edge
  of_prev_start_ms :: u64
  of_next_start_ms :: u64

datatype next_start = NextMovable | NextKept

definition strip_zero_duration :: "overlap_facts \<Rightarrow> utterance \<Rightarrow> mono_state \<Rightarrow> mono_state" where
  "strip_zero_duration facts u st =
     (let edge = of_edge facts; st = decide (oe_line_idx edge) (oe_speaker edge) TimingStripped True st
      in case strip_utterance_timing u of
           (u', dropped) \<Rightarrow>
             effect (ZeroDurationClampStripped edge (of_prev_start_ms facts) (of_next_start_ms facts) dropped)
               (store_at (oe_line_idx edge) u' st))"

definition apply_resolution ::
    "overlap_facts \<Rightarrow> end_overlap_resolution \<Rightarrow> utterance \<Rightarrow> utterance \<Rightarrow> mono_state \<Rightarrow> mono_state" where
  "apply_resolution facts resolution prev_u next_u st =
     (let edge = of_edge facts; prev_idx = oe_line_idx edge; next_idx = oe_next_line_idx edge;
          decision = decide prev_idx (oe_speaker edge) (resolution_strategy resolution) (resolution_needs_review resolution)
      in case resolution of
           CoverageOnly hull_end \<Rightarrow>
             (let clamped_to = (case hull_end of Some h \<Rightarrow> h | None \<Rightarrow> of_next_start_ms facts)
              in store_at prev_idx (set_bullet_end clamped_to prev_u)
                   (effect (EffectCoverageOnly edge clamped_to) (decision st)))
         | BoundaryFromWords prev_hull_end next_hull_start \<Rightarrow>
             store_at next_idx (set_bullet_start next_hull_start next_u)
               (store_at prev_idx (set_bullet_end prev_hull_end prev_u)
                 (effect (EffectBoundaryFromWords edge prev_hull_end next_hull_start) (decision st)))
         | InterleavedWords \<Rightarrow>
             (case clamp_words_past_bound (of_next_start_ms facts) (set_bullet_end (of_next_start_ms facts) prev_u) of
                (u', c) \<Rightarrow>
                  effect (EffectInterleavedWords edge (of_next_start_ms facts) (cw_trimmed c) (cw_dropped c))
                    (decision (store_at prev_idx u' st))))"

definition resolve_revisable_prev ::
    "overlap_facts \<Rightarrow> next_start \<Rightarrow> utterance \<Rightarrow> utterance \<Rightarrow> mono_state \<Rightarrow> mono_state" where
  "resolve_revisable_prev facts nxt prev_u next_u st =
     (if of_next_start_ms facts \<le> of_prev_start_ms facts then strip_zero_duration facts prev_u st
      else let classified = classify_end_overlap (furthest_word_timing_end prev_u) (of_next_start_ms facts)
                 (earliest_word_timing_start next_u)
                 (file_order_successor_start_ms (ms_file st) (oe_next_line_idx (of_edge facts)));
               resolution = (case nxt of NextMovable \<Rightarrow> classified | NextKept \<Rightarrow> keeping_next_start classified)
           in apply_resolution facts resolution prev_u next_u st)"

datatype kept_end_yield = StartToKeptEnd | LeadingWordsClamped | YieldStrip

definition keeping_prev_end :: "u64 \<Rightarrow> u64 \<Rightarrow> u64 option \<Rightarrow> u64 option \<Rightarrow> kept_end_yield" where
  "keeping_prev_end kept_end next_end next_hull_start next_successor_start =
     (let passes_successor = (case next_successor_start of Some s \<Rightarrow> s < kept_end | None \<Rightarrow> False)
      in if \<not> next_end > kept_end \<or> passes_successor then YieldStrip
         else case next_hull_start of
                Some hull_start \<Rightarrow> if hull_start < kept_end then LeadingWordsClamped else StartToKeptEnd
              | None \<Rightarrow> StartToKeptEnd)"

definition yield_edge :: "overlap_edge \<Rightarrow> u64 \<Rightarrow> yield_facts" where
  "yield_edge edge kept_end =
     \<lparr>yf_line_idx = oe_next_line_idx edge, yf_utterance_idx = oe_next_utterance_idx edge,
      yf_speaker = oe_next_speaker edge, yf_kept_line_idx = oe_line_idx edge,
      yf_kept_utterance_idx = oe_utterance_idx edge, yf_kept_speaker = oe_speaker edge,
      yf_kept_boundary_ms = kept_end\<rparr>"

definition yield_next_to_kept_end ::
    "overlap_facts \<Rightarrow> kept_bullet \<Rightarrow> utterance \<Rightarrow> time_span \<Rightarrow> mono_state \<Rightarrow> mono_state" where
  "yield_next_to_kept_end facts kept_prev next_u next_b st =
     (let edge = of_edge facts; next_idx = oe_next_line_idx edge; kept_end = kept_end_ms kept_prev;
          next_end = ts_end_ms next_b
      in case keeping_prev_end kept_end next_end (earliest_word_timing_start next_u)
                (file_order_successor_start_ms (ms_file st) next_idx) of
           YieldStrip \<Rightarrow>
             (case strip_utterance_timing next_u of
                (u', dropped) \<Rightarrow>
                  effect (EffectYieldedToKept (yield_edge edge kept_end)
                      (YieldStripped (of_next_start_ms facts) next_end dropped))
                    (decide next_idx (oe_next_speaker edge) TimingStripped True (store_at next_idx u' st)))
         | _ \<Rightarrow>
             (case raise_bullet_start kept_end next_u of
                (u', c) \<Rightarrow>
                  effect (EffectYieldedToKept (yield_edge edge kept_end)
                      (StartMoved (of_next_start_ms facts) kept_end (cw_trimmed c) (cw_dropped c)))
                    (decide next_idx (oe_next_speaker edge) YieldedToKeptBullet (cut_any c) (store_at next_idx u' st))))"

definition first_report :: "nat \<Rightarrow> nat \<Rightarrow> mono_state \<Rightarrow> bool \<times> mono_state" where
  "first_report prev nxt st =
     (if (prev, nxt) \<in> set (ms_reported st) then (False, st)
      else (True, st\<lparr>ms_reported := (prev, nxt) # ms_reported st\<rparr>))"

record overlap_pair =
  pr_prev_line_idx :: nat
  pr_prev_utterance_idx :: nat
  pr_next_line_idx :: nat
  pr_next_utterance_idx :: nat
  pr_next_speaker :: string

definition pair_facts :: "overlap_pair \<Rightarrow> utterance \<Rightarrow> time_span \<Rightarrow> time_span \<Rightarrow> overlap_facts" where
  "pair_facts pair prev_u prev_b next_b =
     \<lparr>of_edge = \<lparr>oe_line_idx = pr_prev_line_idx pair, oe_utterance_idx = pr_prev_utterance_idx pair,
         oe_speaker = ut_speaker prev_u, oe_original_end_ms = ts_end_ms prev_b,
         oe_next_line_idx = pr_next_line_idx pair, oe_next_utterance_idx = pr_next_utterance_idx pair,
         oe_next_speaker = pr_next_speaker pair\<rparr>,
      of_prev_start_ms = ts_start_ms prev_b, of_next_start_ms = ts_start_ms next_b\<rparr>"

definition leave_kept_overlap :: "overlap_facts \<Rightarrow> mono_state \<Rightarrow> mono_state" where
  "leave_kept_overlap facts st =
     (let edge = of_edge facts
      in case first_report (oe_utterance_idx edge) (oe_next_utterance_idx edge) st of
           (True, st) \<Rightarrow>
             decide (oe_line_idx edge) (oe_speaker edge) KeptBulletLeftUnresolved (oe_speaker edge = oe_next_speaker edge) st
         | (False, st) \<Rightarrow> st)"

definition resolve_end_overlap_pair ::
    "main_bullet_authority \<Rightarrow> overlap_pair \<Rightarrow> mono_state \<Rightarrow> (kept_bullet_error, mono_state) result" where
  "resolve_end_overlap_pair a pair st =
     (case utterance_at (ms_file st) (pr_next_line_idx pair) of
        None \<Rightarrow> Ok st
      | Some next_u \<Rightarrow>
     (case parsed_bullet next_u of
        None \<Rightarrow> Ok st
      | Some next_b \<Rightarrow>
     (case mutability a (pr_next_utterance_idx pair) next_b of
        Inl e \<Rightarrow> Err e
      | Inr next_mutability \<Rightarrow>
     (case utterance_at (ms_file st) (pr_prev_line_idx pair) of
        None \<Rightarrow> Ok st
      | Some prev_u \<Rightarrow>
     (case parsed_bullet prev_u of
        None \<Rightarrow> Ok st
      | Some prev_b \<Rightarrow>
          (if ts_end_ms prev_b \<le> ts_start_ms next_b then Ok st
           else case mutability a (pr_prev_utterance_idx pair) prev_b of
                  Inl e \<Rightarrow> Err e
                | Inr prev_mutability \<Rightarrow>
                    (let facts = pair_facts pair prev_u prev_b next_b
                     in Ok (case (prev_mutability, next_mutability) of
                          (Revisable, Revisable) \<Rightarrow> resolve_revisable_prev facts NextMovable prev_u next_u st
                        | (Revisable, ReadOnly _) \<Rightarrow> resolve_revisable_prev facts NextKept prev_u next_u st
                        | (ReadOnly kept_prev, Revisable) \<Rightarrow> yield_next_to_kept_end facts kept_prev next_u next_b st
                        | (ReadOnly _, ReadOnly _) \<Rightarrow> leave_kept_overlap facts st))))))))"

fun resolve_pairs ::
    "main_bullet_authority \<Rightarrow> overlap_pair list \<Rightarrow> mono_state \<Rightarrow> (kept_bullet_error, mono_state) result" where
  "resolve_pairs a [] st = Ok st"
| "resolve_pairs a (p # ps) st =
     (case resolve_end_overlap_pair a p st of Inl e \<Rightarrow> Err e | Inr st' \<Rightarrow> resolve_pairs a ps st')"

definition bulleted :: "chat_file \<Rightarrow> (nat \<times> nat \<times> string) list" where
  "bulleted f =
     map (\<lambda>(l, k, u). (l, k, ut_speaker u)) (filter (\<lambda>(l, k, u). ut_bullet u \<noteq> None) (utterances_indexed f))"

definition first_appearance :: "'a list \<Rightarrow> 'a list" where
  "first_appearance xs = fold (\<lambda>x acc. if x \<in> set acc then acc else acc @ [x]) xs []"

definition windows :: "'a list \<Rightarrow> ('a \<times> 'a) list" where
  "windows xs = zip xs (tl xs)"

fun pair_of :: "(nat \<times> nat \<times> string) \<times> (nat \<times> nat \<times> string) \<Rightarrow> overlap_pair" where
  "pair_of ((l, k, s), (l', k', s')) =
     \<lparr>pr_prev_line_idx = l, pr_prev_utterance_idx = k, pr_next_line_idx = l', pr_next_utterance_idx = k',
      pr_next_speaker = s'\<rparr>"

definition stream_of :: "string \<Rightarrow> (nat \<times> nat \<times> string) list \<Rightarrow> (nat \<times> nat \<times> string) list" where
  "stream_of speaker xs = filter (\<lambda>(l, k, s). s = speaker) xs"

definition stream_pairs :: "(nat \<times> nat \<times> string) list \<Rightarrow> overlap_pair list" where
  "stream_pairs xs =
     concat (map (\<lambda>speaker. map pair_of (windows (stream_of speaker xs)))
       (first_appearance (map (\<lambda>(l, k, s). s) xs)))"

definition resolve_same_speaker_stream_overlaps ::
    "main_bullet_authority \<Rightarrow> mono_state \<Rightarrow> (kept_bullet_error, mono_state) result" where
  "resolve_same_speaker_stream_overlaps a st = resolve_pairs a (stream_pairs (bulleted (ms_file st))) st"

definition adjacent_pairs :: "end_overlap_policy \<Rightarrow> (nat \<times> nat \<times> string) list \<Rightarrow> overlap_pair list" where
  "adjacent_pairs policy xs =
     map pair_of (filter (\<lambda>((_, _, s), (_, _, s')). should_clamp policy s s') (windows xs))"

definition mono_start :: "chat_file \<Rightarrow> mono_state" where
  "mono_start f = \<lparr>ms_file = f, ms_decisions = [], ms_effects = [], ms_reported = []\<rparr>"

definition enforce_monotonicity_under ::
    "end_overlap_policy \<Rightarrow> main_bullet_authority \<Rightarrow> chat_file \<Rightarrow> (kept_bullet_error, mono_state) result" where
  "enforce_monotonicity_under policy a f =
     (case enforce_start_order a (mono_start f) of
        Inl e \<Rightarrow> Err e
      | Inr st \<Rightarrow>
          (case resolve_same_speaker_stream_overlaps a st of
             Inl e \<Rightarrow> Err e
           | Inr st \<Rightarrow> resolve_pairs a (adjacent_pairs policy (bulleted (ms_file st))) st))"

definition strip_wor_from_monotonicity_stripped_utterances :: "decision_record list \<Rightarrow> chat_file \<Rightarrow> chat_file" where
  "strip_wor_from_monotonicity_stripped_utterances decisions f =
     (let stripped = map dr_line_idx (filter (\<lambda>d. dr_strategy d = StrategyMonotonicity TimingStripped) decisions)
      in map (\<lambda>(i, l). if i \<in> set stripped then (case l of Utterance u \<Rightarrow> Utterance (remove_wor_tier u) | OtherLine \<Rightarrow> OtherLine)
            else l) (zip [0..<length f] f))"

subsection \<open>Steps of the enforcement\<close>

text \<open>
  Every pass changes the file by single writes to lines whose bullet is live and revisable. A write
  keeps the line's speaker and marks, never moves a start down, keeps a valid utterance valid without
  moving its end up, and leaves its evidence: an effect that names the line and, where a word's timing
  changed, an effect that names the utterance for a new \<^verbatim>\<open>%wor\<close> tier or a decision that removes it.
\<close>

definition narrowed :: "utterance \<Rightarrow> utterance \<Rightarrow> bool" where
  "narrowed u u' \<longleftrightarrow> same_line u u' \<and>
     (\<forall>b'. parsed_bullet u' = Some b' \<longrightarrow> (\<exists>b. parsed_bullet u = Some b \<and> ts_start_ms b \<le> ts_start_ms b')) \<and>
     (valid_utterance u \<longrightarrow> valid_utterance u' \<and>
       (\<forall>b b'. parsed_bullet u = Some b \<longrightarrow> parsed_bullet u' = Some b' \<longrightarrow> ts_end_ms b' \<le> ts_end_ms b))"

fun effect_lines :: "monotonicity_effect \<Rightarrow> nat set" where
  "effect_lines (StartRegressionStripped r _) = {rf_line_idx r}"
| "effect_lines (StartRegressionRaised r _ _) = {rf_line_idx r}"
| "effect_lines (ZeroDurationClampStripped edge _ _ _) = {oe_line_idx edge}"
| "effect_lines (EffectCoverageOnly edge _) = {oe_line_idx edge}"
| "effect_lines (EffectBoundaryFromWords edge _ _) = {oe_line_idx edge, oe_next_line_idx edge}"
| "effect_lines (EffectInterleavedWords edge _ _ _) = {oe_line_idx edge}"
| "effect_lines (EffectYieldedToKept y _) = {yf_line_idx y}"

definition named :: "mono_state \<Rightarrow> nat \<Rightarrow> bool" where
  "named st i \<longleftrightarrow> (\<exists>e \<in> set (ms_effects st). i \<in> effect_lines e)"

definition rewritten :: "mono_state \<Rightarrow> nat \<Rightarrow> nat \<Rightarrow> bool" where
  "rewritten st i k \<longleftrightarrow> (\<exists>e \<in> set (ms_effects st). word_mutated_utterance e = Some k) \<or>
     (\<exists>d \<in> set (ms_decisions st). dr_line_idx d = i \<and> dr_strategy d = StrategyMonotonicity TimingStripped)"

definition same_words :: "utterance \<Rightarrow> utterance \<Rightarrow> bool" where
  "same_words u u' \<longleftrightarrow> ut_words u' = ut_words u \<and> ut_wor u' = ut_wor u"

definition grown :: "mono_state \<Rightarrow> mono_state \<Rightarrow> bool" where
  "grown st st' \<longleftrightarrow> set (ms_effects st) \<subseteq> set (ms_effects st') \<and> set (ms_decisions st) \<subseteq> set (ms_decisions st')"

inductive mono_step :: "main_bullet_authority \<Rightarrow> mono_state \<Rightarrow> mono_state \<Rightarrow> bool" for a where
  noted: "ms_file st' = ms_file st \<Longrightarrow> grown st st' \<Longrightarrow> mono_step a st st'"
| wrote: "utterance_at (ms_file st) i = Some u \<Longrightarrow> parsed_bullet u \<noteq> None \<Longrightarrow>
    revisable_at a (ordinal (ms_file st) i) \<Longrightarrow> narrowed u u' \<Longrightarrow>
    ms_file st' = put_utterance i u' (ms_file st) \<Longrightarrow> grown st st' \<Longrightarrow> named st' i \<Longrightarrow>
    same_words u u' \<or> rewritten st' i (ordinal (ms_file st) i) \<Longrightarrow> mono_step a st st'"

abbreviation mono_steps :: "main_bullet_authority \<Rightarrow> mono_state \<Rightarrow> mono_state \<Rightarrow> bool" where
  "mono_steps a \<equiv> (mono_step a)\<^sup>*\<^sup>*"

lemma state_simps [simp]:
  "ms_file (decide l s x r st) = ms_file st" "ms_effects (decide l s x r st) = ms_effects st"
  "ms_file (effect e st) = ms_file st" "ms_decisions (effect e st) = ms_decisions st"
  "ms_effects (effect e st) = ms_effects st @ [e]"
  "ms_file (store_at i u st) = put_utterance i u (ms_file st)" "ms_effects (store_at i u st) = ms_effects st"
  "ms_decisions (store_at i u st) = ms_decisions st"
  "ms_decisions (decide l s x r st) = ms_decisions st @
     [\<lparr>dr_line_idx = l, dr_speaker = s, dr_strategy = StrategyMonotonicity x, dr_needs_review = r\<rparr>]"
  by (simp_all add: decide_def effect_def store_at_def)

lemma start_decide_simps [simp]:
  "ms_file (start_decide e x st) = ms_file st" "ms_effects (start_decide e x st) = ms_effects st"
  "ms_decisions (start_decide e x st) = ms_decisions st @
     [\<lparr>dr_line_idx = so_line_idx e, dr_speaker = so_speaker e, dr_strategy = StrategyMonotonicity x, dr_needs_review = True\<rparr>]"
  by (simp_all add: start_decide_def)

lemma same_line_simps [simp]:
  "same_line u (fst (strip_utterance_timing u))"
  "parsed_bullet u \<noteq> None \<Longrightarrow> same_line u (set_bullet_end ms u)"
  "parsed_bullet u \<noteq> None \<Longrightarrow> same_line u (set_bullet_start ms u)"
  "same_line u (clamp_utterance bound v) \<longleftrightarrow> same_line u v"
  by (auto simp: same_line_def strip_utterance_timing_def Let_def set_bullet_end_def set_bullet_start_def)

lemma raise_eq: "fst (raise_bullet_start ms u) = clamp_utterance \<lparr>ts_start_ms = ms, ts_end_ms = - 1\<rparr> (set_bullet_start ms u)"
  by (simp add: raise_bullet_start_def clamp_words_before_bound_def)

lemma narrowed_strip [simp]: "narrowed u (fst (strip_utterance_timing u))"
  by (simp add: narrowed_def)

lemma narrowed_raise:
  assumes "parsed_bullet u = Some b" and "ts_start_ms b \<le> ms" and "ms < ts_end_ms b"
  shows "narrowed u (fst (raise_bullet_start ms u))"
  using assms valid_raise [OF _ assms(1,3)] by (auto simp: narrowed_def raise_eq)

lemma narrowed_hull_end:
  assumes "parsed_bullet u = Some b" and "furthest_word_timing_end u = Some h"
  shows "narrowed u (set_bullet_end h u)"
  using assms valid_hull_end [OF _ assms] by (auto simp: narrowed_def)

lemma narrowed_hull_start:
  assumes "parsed_bullet u = Some b" and "earliest_word_timing_start u = Some h" and "ts_start_ms b \<le> h"
  shows "narrowed u (set_bullet_start h u)"
  using assms valid_hull_start [OF _ assms(1,2)] by (auto simp: narrowed_def)

lemma narrowed_no_words_end:
  assumes "parsed_bullet u = Some b" and "furthest_word_timing_end u = None"
    and "ts_start_ms b < ms" and "ms \<le> ts_end_ms b"
  shows "narrowed u (set_bullet_end ms u)"
  using assms valid_no_words_end [OF _ assms(1-3)] by (auto simp: narrowed_def)

lemma narrowed_clamp_end:
  assumes "parsed_bullet u = Some b" and "ts_start_ms b < ms" and "ms \<le> ts_end_ms b"
  shows "narrowed u (clamp_utterance \<lparr>ts_start_ms = 0, ts_end_ms = ms\<rparr> (set_bullet_end ms u))"
  using assms valid_clamp_end [OF _ assms(1,2)] by (auto simp: narrowed_def)

lemma raise_same_words:
  assumes "\<not> cut_any (snd (raise_bullet_start ms u))"
  shows "same_words u (fst (raise_bullet_start ms u))"
  using assms clamp_utterance_id [of "\<lparr>ts_start_ms = ms, ts_end_ms = - 1\<rparr>" "set_bullet_start ms u"]
  by (simp add: raise_bullet_start_def clamp_words_before_bound_def same_words_def)

lemma narrowed_simps [simp]:
  "same_words u (set_bullet_end ms u)" "same_words u (set_bullet_start ms u)"
  by (simp_all add: same_words_def)

lemma grown_trans: "grown st st' \<Longrightarrow> grown st' st'' \<Longrightarrow> grown st st''"
  by (auto simp: grown_def)

lemma mono_steps_keep:
  assumes "mono_steps a st st'" and "agrees a (ms_file st)"
  shows "revises a (ms_file st) (ms_file st') \<and> agrees a (ms_file st') \<and> same_shape (ms_file st) (ms_file st')"
proof -
  have "revises a (ms_file st) (ms_file st')"
    using assms(1)
  proof (induction rule: rtranclp_induct)
    case (step st' st'')
    from step.hyps(2) show ?case
      by (cases rule: mono_step.cases) (use step.IH in \<open>auto simp: narrowed_def intro: revises.revised\<close>)
  qed (rule unrevised)
  with revises_agrees [OF this assms(2)] show ?thesis by blast
qed

subsection \<open>Pass 1 by steps\<close>

definition source_line :: "start_order_source \<Rightarrow> nat" where
  "source_line s = so_line_idx (source_facts s)"

definition source_start :: "start_order_source \<Rightarrow> u64" where
  "source_start s = so_start_ms (source_facts s)"

fun is_kept_source :: "start_order_source \<Rightarrow> bool" where
  "is_kept_source (SourceKept e) = True"
| "is_kept_source (SourceRevisable e) = False"

definition source_of :: "main_bullet_authority \<Rightarrow> chat_file \<Rightarrow> start_order_source \<Rightarrow> bool" where
  "source_of a f s \<longleftrightarrow> (\<exists>u b. utterance_at f (source_line s) = Some u \<and> parsed_bullet u = Some b \<and>
     source_facts s = start_entry (source_line s) (ordinal f (source_line s)) u b \<and>
     (\<not> is_kept_source s \<longrightarrow> revisable_at a (ordinal f (source_line s))))"

lemma source_simps [simp]:
  "source_line (SourceKept e) = so_line_idx e" "source_line (SourceRevisable e) = so_line_idx e"
  "source_start (SourceKept e) = so_start_ms e" "source_start (SourceRevisable e) = so_start_ms e"
  by (simp_all add: source_line_def source_start_def)

lemma start_entry_simps [simp]:
  "so_line_idx (start_entry l k u b) = l" "so_utterance_idx (start_entry l k u b) = k"
  "so_start_ms (start_entry l k u b) = ts_start_ms b" "so_end_ms (start_entry l k u b) = ts_end_ms b"
  by (simp_all add: start_entry_def)

lemma apply_regression_step:
  assumes "utterance_at (ms_file st) l = Some u" and "parsed_bullet u = Some b"
    and "revisable_at a (ordinal (ms_file st) l)" and "entry = start_entry l (ordinal (ms_file st) l) u b"
    and "so_start_ms entry < so_start_ms previous"
  shows "mono_step a st (apply_regression entry previous u st)"
proof -
  have cases: "(\<exists>dropped cause. resolve_regression entry previous u = (fst (strip_utterance_timing u), RegressionStripped dropped cause)) \<or>
      (so_start_ms previous < ts_end_ms b \<and> (\<exists>c. raise_bullet_start (so_start_ms previous) u = (fst (raise_bullet_start (so_start_ms previous) u), c) \<and>
        resolve_regression entry previous u =
          (fst (raise_bullet_start (so_start_ms previous) u), RaisedToPrecedingStart (cw_dropped c) (cw_trimmed c))))"
    using assms(4)
    by (cases "so_overlap entry") (auto simp: resolve_regression_def Let_def not_le split: prod.splits option.splits if_splits)
  then show ?thesis
  proof (elim disjE exE conjE)
    fix dropped cause
    assume "resolve_regression entry previous u = (fst (strip_utterance_timing u), RegressionStripped dropped cause)"
    then show ?thesis using assms
      by (intro wrote [of st l u a "fst (strip_utterance_timing u)"])
        (auto simp: apply_regression_def grown_def named_def rewritten_def regression_of_def)
  next
    fix c
    assume lt: "so_start_ms previous < ts_end_ms b"
      and c: "raise_bullet_start (so_start_ms previous) u = (fst (raise_bullet_start (so_start_ms previous) u), c)"
      and res: "resolve_regression entry previous u =
        (fst (raise_bullet_start (so_start_ms previous) u), RaisedToPrecedingStart (cw_dropped c) (cw_trimmed c))"
    have "cut_any c \<or> same_words u (fst (raise_bullet_start (so_start_ms previous) u))"
      using raise_same_words [of "so_start_ms previous" u] c by (metis snd_conv)
    moreover have "narrowed u (fst (raise_bullet_start (so_start_ms previous) u))"
      using narrowed_raise [OF assms(2) _ lt] assms(4,5) by auto
    ultimately show ?thesis using assms res
      by (intro wrote [of st l u a "fst (raise_bullet_start (so_start_ms previous) u)"])
        (auto simp: apply_regression_def grown_def named_def rewritten_def regression_of_def cut_any_def)
  qed
qed

lemma apply_start_yield_step:
  assumes "utterance_at (ms_file st) l = Some u" and "parsed_bullet u = Some b"
    and "revisable_at a (ordinal (ms_file st) l)" and "entry = start_entry l (ordinal (ms_file st) l) u b"
  shows "mono_step a st (apply_start_yield entry kept u st)"
  using assms
  by (intro wrote [of st l u a "fst (strip_utterance_timing u)"])
    (auto simp: apply_start_yield_def grown_def named_def rewritten_def yield_of_def split: prod.splits)

lemma apply_start_files:
  "ms_file (apply_start_yield entry kept u st) = put_utterance (so_line_idx entry) (fst (strip_utterance_timing u)) (ms_file st)"
  "\<exists>u'. ms_file (apply_regression entry previous u st) = put_utterance (so_line_idx entry) u' (ms_file st) \<and>
     (parsed_bullet u' = None \<or> parsed_bullet u' = map_option (\<lambda>b. b\<lparr>ts_start_ms := so_start_ms previous\<rparr>) (parsed_bullet u))"
proof -
  show "ms_file (apply_start_yield entry kept u st) = put_utterance (so_line_idx entry) (fst (strip_utterance_timing u)) (ms_file st)"
    by (simp add: apply_start_yield_def split: prod.splits)
  have "parsed_bullet (fst (resolve_regression entry previous u)) = None \<or>
      parsed_bullet (fst (resolve_regression entry previous u)) =
        map_option (\<lambda>b. b\<lparr>ts_start_ms := so_start_ms previous\<rparr>) (parsed_bullet u)"
    by (auto simp: resolve_regression_def Let_def case_prod_beta split: transcribed_overlap.splits option.splits if_splits)
  then show "\<exists>u'. ms_file (apply_regression entry previous u st) = put_utterance (so_line_idx entry) u' (ms_file st) \<and>
     (parsed_bullet u' = None \<or> parsed_bullet u' = map_option (\<lambda>b. b\<lparr>ts_start_ms := so_start_ms previous\<rparr>) (parsed_bullet u))"
    by (auto simp: apply_regression_def split: prod.splits start_regression_resolution.splits)
qed

lemma source_of_put: "source_line s \<noteq> i \<Longrightarrow> source_of a f s \<Longrightarrow> source_of a (put_utterance i u f) s"
  by (simp add: source_of_def)

lemma classify_start_cases:
  obtains (accepted) "classify_start entry la nk = Accepted entry" "\<And>p. la = Some p \<Longrightarrow> so_start_ms p \<le> so_start_ms entry"
      "\<And>k. nk = Some k \<Longrightarrow> so_start_ms entry \<le> so_start_ms k"
  | (regressing) p where "la = Some p" "classify_start entry la nk = Regressing entry p" "so_start_ms entry < so_start_ms p"
  | (yielding) k where "nk = Some k" "classify_start entry la nk = Yielding entry k"
proof (cases "\<exists>p. la = Some p \<and> so_start_ms entry < so_start_ms p")
  case True
  then show thesis using regressing by (auto simp: classify_start_def)
next
  case False
  then have eq: "classify_start entry la nk = (case nk of
      Some kept \<Rightarrow> if so_start_ms entry > so_start_ms kept then Yielding entry kept else Accepted entry
    | None \<Rightarrow> Accepted entry)"
    by (auto simp: classify_start_def split: option.split)
  show thesis
  proof (cases "\<exists>k. nk = Some k \<and> so_start_ms entry > so_start_ms k")
    case True
    then show thesis using yielding eq by auto
  next
    case no: False
    then show thesis using accepted eq False by (auto simp: not_less split: option.splits)
  qed
qed

lemma start_loop_steps:
  assumes "sorted_wrt (<) (map source_line ss)" and "list_all (source_of a (ms_file st)) ss"
  shows "mono_steps a st (start_loop ss la lk st)"
  using assms
proof (induction ss la lk st rule: start_loop.induct)
  case (2 entry ss la lk st)
  have "mono_step a st (start_decide entry KeptBulletLeftUnresolved st)" by (rule noted) (auto simp: grown_def)
  with 2 show ?case
    by (auto split: option.split intro: converse_rtranclp_into_rtranclp)
next
  case (3 entry ss la lk st)
  from "3.prems"(2) obtain u b where u: "utterance_at (ms_file st) (so_line_idx entry) = Some u" "parsed_bullet u = Some b"
      "revisable_at a (ordinal (ms_file st) (so_line_idx entry))"
      "entry = start_entry (so_line_idx entry) (ordinal (ms_file st) (so_line_idx entry)) u b"
    by (auto simp: source_of_def)
  have keep: "list_all (source_of a (put_utterance (so_line_idx entry) v (ms_file st))) ss" for v
    using "3.prems" by (auto simp: list_all_iff intro!: source_of_put)
  show ?case
  proof (cases rule: classify_start_cases [of entry la "next_kept_of ss"])
    case accepted
    then show ?thesis using "3.IH"(2) [OF u(1) accepted(1)] "3.prems" u(1) by simp
  next
    case (regressing p)
    obtain v where "ms_file (apply_regression entry p u st) = put_utterance (so_line_idx entry) v (ms_file st)"
      using apply_start_files(2) by metis
    then have "mono_steps a (apply_regression entry p u st) (start_loop ss la lk (apply_regression entry p u st))"
      using "3.IH"(3) [OF u(1) regressing(2)] "3.prems"(1) keep by simp
    with apply_regression_step [OF u(1,2,3,4) regressing(3)] show ?thesis
      using u(1) regressing(2) by (simp add: converse_rtranclp_into_rtranclp)
  next
    case (yielding k)
    have "mono_steps a (apply_start_yield entry k u st) (start_loop ss la lk (apply_start_yield entry k u st))"
      using "3.IH"(4) [OF u(1) yielding(2)] "3.prems"(1) keep by (simp add: apply_start_files(1))
    with apply_start_yield_step [OF u(1,2,3,4), of k] show ?thesis
      using u(1) yielding(2) by (simp add: converse_rtranclp_into_rtranclp)
  qed
qed simp

lemma revisable_iff_mutability:
  assumes "agrees a f" and "utterance_at f i = Some u" and "parsed_bullet u = Some b"
  obtains "mutability a (ordinal f i) b = Ok Revisable" "revisable_at a (ordinal f i)"
    | k where "mutability a (ordinal f i) b = Ok (ReadOnly k)" "b = kept_to_bullet k" "\<not> revisable_at a (ordinal f i)"
  using mutability_agrees [OF assms] unfolding revisable_at_def by (metis option.distinct(1) option.inject given_slot.distinct(3) sum.inject(2))

definition sources :: "main_bullet_authority \<Rightarrow> chat_file \<Rightarrow> nat set \<Rightarrow> start_order_source list \<Rightarrow> bool" where
  "sources a f L ss \<longleftrightarrow> list_all (source_of a f) ss \<and> sorted_wrt (<) (map source_line ss) \<and>
     source_line ` set ss = {l \<in> L. live f l \<noteq> None} \<and>
     (\<forall>s \<in> set ss. is_kept_source s \<longleftrightarrow> \<not> revisable_at a (ordinal f (source_line s)))"

lemma sources_Cons:
  assumes "sources a f L ss" and "\<And>m. m \<in> L \<Longrightarrow> l < m" and "utterance_at f l = Some u" and "parsed_bullet u = Some b"
    and "source_facts s = start_entry l (ordinal f l) u b" and "is_kept_source s \<longleftrightarrow> \<not> revisable_at a (ordinal f l)"
  shows "sources a f (insert l L) (s # ss)"
proof -
  have l: "source_line s = l" using assms(5) by (simp add: source_line_def)
  have "source_of a f s" using assms l by (auto simp: source_of_def)
  moreover have "l < m" if "m \<in> source_line ` set ss" for m
    using that assms(1,2) by (auto simp: sources_def)
  moreover have "live f l \<noteq> None" using assms(3,4) by (simp add: live_def)
  ultimately show ?thesis using assms(1,6) l by (auto simp: sources_def)
qed

lemma sources_skip: "sources a f L ss \<Longrightarrow> live f l = None \<Longrightarrow> sources a f (insert l L) ss"
  by (auto simp: sources_def)

lemma collect_starts_sources:
  assumes "agrees a f" and "\<And>l k u. (l, k, u) \<in> set us \<Longrightarrow> utterance_at f l = Some u \<and> k = ordinal f l"
    and "sorted_wrt (<) (map fst us)"
  shows "\<exists>ss. collect_starts a us = Ok ss \<and> sources a f (fst ` set us) ss"
  using assms(2,3)
proof (induction us)
  case (Cons x us)
  obtain l k u where x: "x = (l, k, u)" by (cases x)
  have u: "utterance_at f l = Some u" "k = ordinal f l" using Cons.prems(1) [of l k u] x by auto
  obtain ss where ss: "collect_starts a us = Ok ss" "sources a f (fst ` set us) ss"
    using Cons.IH Cons.prems by auto
  have first: "\<And>m. m \<in> fst ` set us \<Longrightarrow> l < m" using Cons.prems(2) x by auto
  show ?case
  proof (cases "parsed_bullet u")
    case None
    then show ?thesis using ss u x sources_skip [OF ss(2), of l] by (auto simp: live_def)
  next
    case (Some b)
    note add = sources_Cons [OF ss(2) first u(1) Some]
    show ?thesis
    proof (cases rule: revisable_iff_mutability [OF assms(1) u(1) Some])
      case 1
      then show ?thesis using ss x Some u add [of "SourceRevisable (start_entry l k u b)"] by auto
    next
      case (2 kb)
      then show ?thesis using ss x Some u add [of "SourceKept (start_entry l k u b)"] by auto
    qed
  qed
qed (simp add: sources_def)

text \<open>Starts in file order, and the same of the kept bullets only.\<close>

definition starts_ordered :: "chat_file \<Rightarrow> bool" where
  "starts_ordered f \<longleftrightarrow> (\<forall>i j b c. i < j \<longrightarrow> live f i = Some b \<longrightarrow> live f j = Some c \<longrightarrow> ts_start_ms b \<le> ts_start_ms c)"

definition kept_ordered :: "main_bullet_authority \<Rightarrow> chat_file \<Rightarrow> bool" where
  "kept_ordered a f \<longleftrightarrow> (\<forall>i j b c. i < j \<longrightarrow> live f i = Some b \<longrightarrow> live f j = Some c \<longrightarrow>
     \<not> revisable_at a (ordinal f i) \<longrightarrow> \<not> revisable_at a (ordinal f j) \<longrightarrow> ts_start_ms b \<le> ts_start_ms c)"

text \<open>
  The invariant of the first pass: the lines already passed are in order and none of them starts after
  the last accepted start, the lines to come carry their entries, and no kept entry to come starts
  before the last accepted or the last kept one.
\<close>

definition passed_ordered :: "chat_file \<Rightarrow> start_order_source list \<Rightarrow> start_order_entry option \<Rightarrow> bool" where
  "passed_ordered f ss la \<longleftrightarrow>
     (\<forall>i b. live f i = Some b \<longrightarrow> i \<notin> source_line ` set ss \<longrightarrow>
        (\<exists>p. la = Some p \<and> ts_start_ms b \<le> so_start_ms p) \<and> (\<forall>s \<in> set ss. i < source_line s)) \<and>
     (\<forall>i j b c. i < j \<longrightarrow> live f i = Some b \<longrightarrow> live f j = Some c \<longrightarrow> i \<notin> source_line ` set ss \<longrightarrow>
        j \<notin> source_line ` set ss \<longrightarrow> ts_start_ms b \<le> ts_start_ms c)"

definition kept_after :: "start_order_entry option \<Rightarrow> start_order_source list \<Rightarrow> bool" where
  "kept_after p ss \<longleftrightarrow> (\<forall>e. p = Some e \<longrightarrow> (\<forall>s \<in> set ss. is_kept_source s \<longrightarrow> so_start_ms e \<le> source_start s))"

lemma next_kept_least:
  assumes "next_kept_of ss = Some k" and "sorted_wrt (\<lambda>s t. is_kept_source s \<longrightarrow> is_kept_source t \<longrightarrow> source_start s \<le> source_start t) ss"
    and "s \<in> set ss" and "is_kept_source s"
  shows "so_start_ms k \<le> source_start s"
  using assms by (induction ss rule: next_kept_of.induct) auto

lemma next_kept_None: "next_kept_of ss = None \<Longrightarrow> s \<in> set ss \<Longrightarrow> \<not> is_kept_source s"
  by (induction ss rule: next_kept_of.induct) auto

lemma passed_accept:
  assumes "passed_ordered f (s # ss) la" and "sorted_wrt (<) (map source_line (s # ss))" and "source_of a f s"
    and "\<And>p. la = Some p \<Longrightarrow> so_start_ms p \<le> source_start s"
  shows "passed_ordered f ss (Some (source_facts s))"
proof -
  have here: "ts_start_ms b = source_start s" if "live f (source_line s) = Some b" for b
    using assms(3) that by (auto simp: source_of_def live_def source_start_def)
  have old: "ts_start_ms b \<le> source_start s" "\<forall>t \<in> set (s # ss). i < source_line t"
    if "live f i = Some b" "i \<notin> source_line ` set ss" "i \<noteq> source_line s" for i b
    using assms(1) that unfolding passed_ordered_def by (fastforce intro: order_trans assms(4))+
  show ?thesis
    unfolding passed_ordered_def
  proof (intro conjI allI impI)
    fix i b
    assume i: "live f i = Some b" "i \<notin> source_line ` set ss"
    show "\<exists>p. Some (source_facts s) = Some p \<and> ts_start_ms b \<le> so_start_ms p"
      using old(1) [OF i] here i by (cases "i = source_line s") (auto simp: source_start_def)
    show "\<forall>t \<in> set ss. i < source_line t"
      using old(2) [OF i] assms(2) by (cases "i = source_line s") auto
  next
    fix i j b c
    assume ij: "i < j" "live f i = Some b" "live f j = Some c" "i \<notin> source_line ` set ss" "j \<notin> source_line ` set ss"
    show "ts_start_ms b \<le> ts_start_ms c"
    proof (cases "i = source_line s \<or> j = source_line s")
      case True
      then show ?thesis using ij here old(1) [OF ij(2,4)] old(2) [OF ij(3,5)] by auto
    next
      case False
      then show ?thesis using assms(1) ij unfolding passed_ordered_def by auto
    qed
  qed
qed

lemma passed_write:
  assumes "passed_ordered f (s # ss) la" and "sorted_wrt (<) (map source_line (s # ss))" and "utterance_at f (source_line s) = Some u"
    and "parsed_bullet u' = None \<or> (\<exists>p b'. la = Some p \<and> parsed_bullet u' = Some b' \<and> ts_start_ms b' = so_start_ms p)"
  shows "passed_ordered (put_utterance (source_line s) u' f) ss la"
proof -
  let ?f = "put_utterance (source_line s) u' f"
  have here: "\<exists>p. la = Some p \<and> ts_start_ms b = so_start_ms p" if "live ?f (source_line s) = Some b" for b
    using assms(3,4) that by auto
  have old: "(\<exists>p. la = Some p \<and> ts_start_ms b \<le> so_start_ms p) \<and> (\<forall>t \<in> set (s # ss). i < source_line t)"
    if "live ?f i = Some b" "i \<notin> source_line ` set ss" "i \<noteq> source_line s" for i b
    using assms(1) that unfolding passed_ordered_def by auto
  show ?thesis
    unfolding passed_ordered_def
  proof (intro conjI allI impI)
    fix i b
    assume i: "live ?f i = Some b" "i \<notin> source_line ` set ss"
    show "\<exists>p. la = Some p \<and> ts_start_ms b \<le> so_start_ms p"
      using old [OF i] here i by (cases "i = source_line s") auto
    show "\<forall>t \<in> set ss. i < source_line t"
      using old [OF i] assms(2) by (cases "i = source_line s") auto
  next
    fix i j b c
    assume ij: "i < j" "live ?f i = Some b" "live ?f j = Some c" "i \<notin> source_line ` set ss" "j \<notin> source_line ` set ss"
    show "ts_start_ms b \<le> ts_start_ms c"
    proof (cases "i = source_line s \<or> j = source_line s")
      case True
      then show ?thesis using ij here old [OF ij(2,4)] old [OF ij(3,5)] by fastforce
    next
      case False
      then show ?thesis using assms(1) ij unfolding passed_ordered_def by auto
    qed
  qed
qed

lemma start_loop_ordered:
  assumes "sorted_wrt (<) (map source_line ss)" and "list_all (source_of a (ms_file st)) ss"
    and "sorted_wrt (\<lambda>s t. is_kept_source s \<longrightarrow> is_kept_source t \<longrightarrow> source_start s \<le> source_start t) ss"
    and "passed_ordered (ms_file st) ss la" and "kept_after la ss" and "kept_after lk ss"
  shows "starts_ordered (ms_file (start_loop ss la lk st))"
  using assms
proof (induction ss la lk st rule: start_loop.induct)
  case (1 la lk st)
  then show ?case by (auto simp: passed_ordered_def starts_ordered_def)
next
  case (2 entry ss la lk st)
  have "passed_ordered (ms_file st) ss (Some entry)"
    using passed_accept [OF "2.prems"(4,1)] "2.prems"(2,5) by (auto simp: kept_after_def)
  moreover have "kept_after (Some entry) ss" using "2.prems"(3) by (auto simp: kept_after_def)
  moreover have "\<not> so_start_ms entry < so_start_ms p" if "lk = Some p" for p
    using "2.prems"(6) that by (auto simp: kept_after_def not_less)
  ultimately show ?case using "2.IH" "2.prems"(1-3) by (auto split: option.splits)
next
  case (3 entry ss la lk st)
  note sorted = "3.prems"(1)
  from "3.prems"(2) obtain u b where u: "utterance_at (ms_file st) (so_line_idx entry) = Some u" "parsed_bullet u = Some b"
    by (auto simp: source_of_def)
  have keep: "list_all (source_of a (put_utterance (so_line_idx entry) v (ms_file st))) ss" for v
    using "3.prems"(1,2) by (auto simp: list_all_iff intro!: source_of_put)
  have tail: "sorted_wrt (<) (map source_line ss)" "kept_after la ss" "kept_after lk ss"
    "sorted_wrt (\<lambda>s t. is_kept_source s \<longrightarrow> is_kept_source t \<longrightarrow> source_start s \<le> source_start t) ss"
    using "3.prems" by (auto simp: kept_after_def)
  note put = passed_write [OF "3.prems"(4,1), of u, simplified, OF u(1)]
  show ?case
  proof (cases rule: classify_start_cases [of entry la "next_kept_of ss"])
    case accepted
    have "passed_ordered (ms_file st) ss (Some entry)"
      using passed_accept [OF "3.prems"(4,1)] "3.prems"(2) accepted(2) by auto
    moreover have "kept_after (Some entry) ss"
      using next_kept_least [OF _ tail(4)] next_kept_None [of ss] accepted(3)
      by (cases "next_kept_of ss") (auto simp: kept_after_def intro: order_trans)
    ultimately show ?thesis
      using "3.IH"(2) [OF u(1) accepted(1) tail(1)] "3.prems"(2) tail u(1) accepted(1) by simp
  next
    case (regressing p)
    obtain v where v: "ms_file (apply_regression entry p u st) = put_utterance (so_line_idx entry) v (ms_file st)"
      "parsed_bullet v = None \<or> parsed_bullet v = map_option (\<lambda>b. b\<lparr>ts_start_ms := so_start_ms p\<rparr>) (parsed_bullet u)"
      using apply_start_files(2) by metis
    then have "passed_ordered (ms_file (apply_regression entry p u st)) ss la"
      using put [of v] regressing(1) u(2) by auto
    then show ?thesis
      using "3.IH"(3) [OF u(1) regressing(2) tail(1) _ tail(4) _ tail(2,3)] keep v(1) u(1) regressing(2) by simp
  next
    case (yielding k)
    have "passed_ordered (ms_file (apply_start_yield entry k u st)) ss la"
      using put [of "fst (strip_utterance_timing u)"] by (simp add: apply_start_files(1))
    then show ?thesis
      using "3.IH"(4) [OF u(1) yielding(2) tail(1) _ tail(4) _ tail(2,3)] keep u(1) yielding(2)
      by (simp add: apply_start_files(1))
  qed
qed

lemma enforce_start_order_ok:
  assumes "agrees a (ms_file st)"
  obtains st' where "enforce_start_order a st = Ok st'" "mono_steps a st st'"
    "kept_ordered a (ms_file st) \<Longrightarrow> starts_ordered (ms_file st')"
proof -
  let ?f = "ms_file st"
  obtain ss where ss: "collect_starts a (utterances_indexed ?f) = Ok ss" "sources a ?f (fst ` set (utterances_indexed ?f)) ss"
    using collect_starts_sources [OF assms, of "utterances_indexed ?f"] utterances_indexed_iff utterances_indexed_sorted by blast
  have lines: "i \<in> source_line ` set ss" if "live ?f i \<noteq> None" for i
  proof -
    from that obtain u where "utterance_at ?f i = Some u" by (auto simp: live_utterance)
    then have "(i, ordinal ?f i, u) \<in> set (utterances_indexed ?f)" by (simp add: utterances_indexed_iff)
    with that ss(2) show ?thesis unfolding sources_def by (metis (mono_tags, lifting) fst_conv image_eqI mem_Collect_eq)
  qed
  have ordered: "starts_ordered (ms_file (start_loop ss None None st))" if kept: "kept_ordered a ?f"
  proof (rule start_loop_ordered)
    have "sorted_wrt (\<lambda>s t. source_line s < source_line t) ss" using ss(2) by (simp add: sources_def sorted_wrt_map)
    then show "sorted_wrt (\<lambda>s t. is_kept_source s \<longrightarrow> is_kept_source t \<longrightarrow> source_start s \<le> source_start t) ss"
    proof (rule sorted_wrt_mono_rel [rotated])
      fix s t
      assume st: "s \<in> set ss" "t \<in> set ss" "source_line s < source_line t"
      have fact: "\<exists>b. live ?f (source_line x) = Some b \<and> ts_start_ms b = source_start x" if "x \<in> set ss" for x
        using that ss(2) by (auto simp: sources_def list_all_iff source_of_def source_start_def live_def dest!: bspec)
      obtain b c where bc: "live ?f (source_line s) = Some b" "ts_start_ms b = source_start s"
        "live ?f (source_line t) = Some c" "ts_start_ms c = source_start t" using fact st by metis
      have "is_kept_source x \<longleftrightarrow> \<not> revisable_at a (ordinal ?f (source_line x))" if "x \<in> set ss" for x
        using ss(2) that by (simp add: sources_def)
      then show "is_kept_source s \<longrightarrow> is_kept_source t \<longrightarrow> source_start s \<le> source_start t"
        using kept [unfolded kept_ordered_def, rule_format, OF st(3) bc(1,3)] bc(2,4) st by simp
    qed
    show "passed_ordered ?f ss None" using lines by (auto simp: passed_ordered_def)
  qed (use ss(2) in \<open>auto simp: sources_def kept_after_def\<close>)
  have "mono_steps a st (start_loop ss None None st)"
    using ss(2) by (intro start_loop_steps) (auto simp: sources_def)
  with ordered ss(1) show thesis using that by (auto simp: enforce_start_order_def)
qed

subsection \<open>Pass 2 by steps\<close>

lemma map_filter_first:
  "List.map_filter g xs = y # ys \<Longrightarrow> \<exists>k < length xs. g (xs ! k) = Some y \<and> (\<forall>m < k. g (xs ! m) = None)"
proof (induction xs)
  case (Cons x xs)
  show ?case
  proof (cases "g x")
    case None
    with Cons obtain k where "k < length xs" "g (xs ! k) = Some y" "\<forall>m < k. g (xs ! m) = None" by auto
    with None show ?thesis by (intro exI [of _ "Suc k"]) (auto simp: nth_Cons' gr0_conv_Suc)
  qed (use Cons.prems in auto)
qed simp

lemma live_drop:
  assumes "n < j" and "j < length f"
  shows "live f j = Option.bind (line_utterance (drop (n + 1) f ! (j - (n + 1)))) parsed_bullet"
  using assms by (simp add: live_def utterance_at_def)

lemma live_outside: "live f j \<noteq> None \<Longrightarrow> j < length f"
  by (auto simp: live_utterance utterance_at_iff)

lemma successor_None:
  assumes "file_order_successor_start_ms f n = None" and "n < j"
  shows "live f j = None"
proof (rule ccontr)
  assume l: "live f j \<noteq> None"
  let ?g = "\<lambda>l. Option.bind (line_utterance l) parsed_bullet"
  have "List.map_filter ?g (drop (n + 1) f) = []"
    using assms(1) by (simp add: file_order_successor_start_ms_def split: list.splits)
  moreover have "drop (n + 1) f ! (j - (n + 1)) \<in> set (drop (n + 1) f)"
    using live_outside [OF l] assms(2) by (intro nth_mem) auto
  ultimately show False
    using l live_drop [OF assms(2) live_outside [OF l]] by (auto simp: List.map_filter_def filter_empty_conv)
qed

lemma successor_Some:
  assumes "file_order_successor_start_ms f n = Some s" and "starts_ordered f" and "n < j" and "live f j = Some d"
  shows "s \<le> ts_start_ms d"
proof -
  let ?g = "\<lambda>l. Option.bind (line_utterance l) parsed_bullet"
  obtain b bs where b: "List.map_filter ?g (drop (n + 1) f) = b # bs" "s = ts_start_ms b"
    using assms(1) by (auto simp: file_order_successor_start_ms_def split: list.splits)
  from map_filter_first [OF b(1)] obtain k where k: "k < length (drop (n + 1) f)" "?g (drop (n + 1) f ! k) = Some b"
    "\<forall>m < k. ?g (drop (n + 1) f ! m) = None" by blast
  have jl: "j < length f" using assms(4) live_outside [of f j] by simp
  have lk: "live f (n + 1 + k) = Some b" using live_drop [of n "n + 1 + k" f] k(1,2) by simp
  have "\<not> j - (n + 1) < k" using k(3) live_drop [OF assms(3) jl] assms(4) by auto
  then have "n + 1 + k = j \<or> n + 1 + k < j" using assms(3) by linarith
  with lk b(2) assms(2,4) show ?thesis by (auto simp: starts_ordered_def)
qed

text \<open>What one pair leaves: of the earlier line the start or nothing, of the later one a start that still precedes its successor's.\<close>

definition pair_outcome :: "chat_file \<Rightarrow> nat \<Rightarrow> nat \<Rightarrow> chat_file \<Rightarrow> bool" where
  "pair_outcome f p n f' \<longleftrightarrow>
     (\<forall>i. i \<noteq> p \<longrightarrow> i \<noteq> n \<longrightarrow> live f' i = live f i) \<and>
     (\<forall>b'. live f' p = Some b' \<longrightarrow> (\<exists>b. live f p = Some b \<and> ts_start_ms b' = ts_start_ms b)) \<and>
     (\<forall>c'. live f' n = Some c' \<longrightarrow> (\<exists>c. live f n = Some c \<and> ts_start_ms c \<le> ts_start_ms c' \<and>
        (ts_start_ms c' = ts_start_ms c \<or>
         (\<forall>s. file_order_successor_start_ms f n = Some s \<longrightarrow> ts_start_ms c' \<le> s))))"

definition pair_settled :: "chat_file \<Rightarrow> nat \<Rightarrow> nat \<Rightarrow> bool" where
  "pair_settled f p n \<longleftrightarrow> (\<forall>b c. live f p = Some b \<longrightarrow> live f n = Some c \<longrightarrow> ts_end_ms b \<le> ts_start_ms c)"

lemma pair_outcome_ordered:
  assumes "pair_outcome f p n f'" and "starts_ordered f" and "p < n"
  shows "starts_ordered f'"
  unfolding starts_ordered_def
proof (intro allI impI)
  fix i j b' c'
  assume ij: "i < j" "live f' i = Some b'" "live f' j = Some c'"
  have grow: "\<exists>c. live f x = Some c \<and> ts_start_ms c \<le> ts_start_ms d \<and> (x = n \<or> ts_start_ms d = ts_start_ms c)"
    if "live f' x = Some d" for x d
    using assms(1,3) that by (cases "x = p"; cases "x = n") (auto simp: pair_outcome_def)
  from grow [OF ij(3)] obtain c where c: "live f j = Some c" "ts_start_ms c \<le> ts_start_ms c'" by blast
  from grow [OF ij(2)] obtain b where b: "live f i = Some b" "i = n \<or> ts_start_ms b' = ts_start_ms b" by blast
  have bc: "ts_start_ms b \<le> ts_start_ms c" using assms(2) ij(1) b(1) c(1) by (auto simp: starts_ordered_def)
  show "ts_start_ms b' \<le> ts_start_ms c'"
  proof (cases "ts_start_ms b' = ts_start_ms b")
    case True
    with bc c(2) show ?thesis by simp
  next
    case False
    then have "i = n" using b(2) by blast
    then have succ: "ts_start_ms b' \<le> s" if "file_order_successor_start_ms f n = Some s" for s
      using assms(1) ij(2) b(1) False that by (auto simp: pair_outcome_def)
    show ?thesis
    proof (cases "file_order_successor_start_ms f n")
      case None
      then show ?thesis using successor_None [of f n j] c(1) ij(1) \<open>i = n\<close> by simp
    next
      case (Some s)
      then show ?thesis using succ successor_Some [OF Some assms(2) _ c(1)] ij(1) \<open>i = n\<close> c(2) by fastforce
    qed
  qed
qed

definition overlapping :: "mono_state \<Rightarrow> nat \<Rightarrow> nat \<Rightarrow> utterance \<Rightarrow> utterance \<Rightarrow> time_span \<Rightarrow> time_span \<Rightarrow> bool" where
  "overlapping st p n prev_u next_u prev_b next_b \<longleftrightarrow> p < n \<and>
     utterance_at (ms_file st) p = Some prev_u \<and> parsed_bullet prev_u = Some prev_b \<and>
     utterance_at (ms_file st) n = Some next_u \<and> parsed_bullet next_u = Some next_b \<and>
     ts_start_ms next_b < ts_end_ms prev_b"

definition edge_of :: "mono_state \<Rightarrow> overlap_facts \<Rightarrow> nat \<Rightarrow> nat \<Rightarrow> time_span \<Rightarrow> time_span \<Rightarrow> bool" where
  "edge_of st facts p n prev_b next_b \<longleftrightarrow> oe_line_idx (of_edge facts) = p \<and> oe_next_line_idx (of_edge facts) = n \<and>
     oe_utterance_idx (of_edge facts) = ordinal (ms_file st) p \<and>
     oe_next_utterance_idx (of_edge facts) = ordinal (ms_file st) n \<and>
     of_prev_start_ms facts = ts_start_ms prev_b \<and> of_next_start_ms facts = ts_start_ms next_b"

lemma live_overlapping:
  "overlapping st p n prev_u next_u prev_b next_b \<Longrightarrow> live (ms_file st) p = Some prev_b \<and> live (ms_file st) n = Some next_b"
  by (simp add: overlapping_def live_def)

text \<open>One write to the earlier line settles the pair when its end goes, or comes down to the later start.\<close>

lemma prev_write_outcome:
  assumes "overlapping st p n prev_u next_u prev_b next_b"
    and "parsed_bullet v = None \<or> (\<exists>e \<le> ts_start_ms next_b. parsed_bullet v = Some (prev_b\<lparr>ts_end_ms := e\<rparr>))"
  shows "pair_outcome (ms_file st) p n (put_utterance p v (ms_file st)) \<and>
    pair_settled (put_utterance p v (ms_file st)) p n \<and> live (put_utterance p v (ms_file st)) n \<noteq> None"
  using assms live_overlapping [OF assms(1)] by (auto simp: pair_outcome_def pair_settled_def overlapping_def)

lemma next_write_outcome:
  assumes "overlapping st p n prev_u next_u prev_b next_b"
    and "parsed_bullet v = None \<or> (\<exists>s \<ge> ts_start_ms next_b. parsed_bullet v = Some (next_b\<lparr>ts_start_ms := s\<rparr>) \<and>
      (\<forall>t. file_order_successor_start_ms (ms_file st) n = Some t \<longrightarrow> s \<le> t))"
  shows "pair_outcome (ms_file st) p n (put_utterance n v (ms_file st))"
  using assms live_overlapping [OF assms(1)] by (auto simp: pair_outcome_def overlapping_def)

lemma strip_zero_duration_step:
  assumes "overlapping st p n prev_u next_u prev_b next_b" and "edge_of st facts p n prev_b next_b"
    and "revisable_at a (ordinal (ms_file st) p)"
  shows "mono_step a st (strip_zero_duration facts prev_u st)"
    and "ms_file (strip_zero_duration facts prev_u st) = put_utterance p (fst (strip_utterance_timing prev_u)) (ms_file st)"
proof -
  show f: "ms_file (strip_zero_duration facts prev_u st) = put_utterance p (fst (strip_utterance_timing prev_u)) (ms_file st)"
    using assms(2) by (simp add: strip_zero_duration_def edge_of_def Let_def split: prod.splits)
  show "mono_step a st (strip_zero_duration facts prev_u st)"
    using assms f
    by (intro wrote [of st p prev_u a "fst (strip_utterance_timing prev_u)"])
      (auto simp: overlapping_def edge_of_def strip_zero_duration_def grown_def named_def rewritten_def Let_def split: prod.splits)
qed

lemma coverage_step:
  assumes "overlapping st p n prev_u next_u prev_b next_b" and "edge_of st facts p n prev_b next_b"
    and "revisable_at a (ordinal (ms_file st) p)" and "ts_start_ms prev_b < ts_start_ms next_b"
    and "hull = furthest_word_timing_end prev_u" and "\<And>h. hull = Some h \<Longrightarrow> h \<le> ts_start_ms next_b"
  defines "e \<equiv> (case hull of Some h \<Rightarrow> h | None \<Rightarrow> ts_start_ms next_b)"
  shows "mono_step a st (apply_resolution facts (CoverageOnly hull) prev_u next_u st)"
    and "ms_file (apply_resolution facts (CoverageOnly hull) prev_u next_u st) = put_utterance p (set_bullet_end e prev_u) (ms_file st)"
    and "e \<le> ts_start_ms next_b"
proof -
  show e: "e \<le> ts_start_ms next_b" using assms(6) by (auto simp: e_def split: option.split)
  show f: "ms_file (apply_resolution facts (CoverageOnly hull) prev_u next_u st) = put_utterance p (set_bullet_end e prev_u) (ms_file st)"
    using assms(2) by (cases hull) (simp_all add: apply_resolution_def Let_def edge_of_def e_def)
  have "narrowed prev_u (set_bullet_end e prev_u)"
    using assms(1,4,5) narrowed_hull_end [of prev_u prev_b] narrowed_no_words_end [of prev_u prev_b]
    by (auto simp: e_def overlapping_def split: option.splits)
  then show "mono_step a st (apply_resolution facts (CoverageOnly hull) prev_u next_u st)"
    using assms(1,2,3) f
    by (intro wrote [of st p prev_u a "set_bullet_end e prev_u"])
      (auto simp: overlapping_def edge_of_def apply_resolution_def grown_def named_def Let_def)
qed

lemma interleaved_step:
  assumes "overlapping st p n prev_u next_u prev_b next_b" and "edge_of st facts p n prev_b next_b"
    and "revisable_at a (ordinal (ms_file st) p)" and "ts_start_ms prev_b < ts_start_ms next_b"
  defines "v \<equiv> clamp_utterance \<lparr>ts_start_ms = 0, ts_end_ms = ts_start_ms next_b\<rparr> (set_bullet_end (ts_start_ms next_b) prev_u)"
  shows "mono_step a st (apply_resolution facts InterleavedWords prev_u next_u st)"
    and "ms_file (apply_resolution facts InterleavedWords prev_u next_u st) = put_utterance p v (ms_file st)"
proof -
  have v: "fst (clamp_words_past_bound (ts_start_ms next_b) (set_bullet_end (ts_start_ms next_b) prev_u)) = v"
    by (simp add: clamp_words_past_bound_def v_def)
  show f: "ms_file (apply_resolution facts InterleavedWords prev_u next_u st) = put_utterance p v (ms_file st)"
    using assms(2) v by (auto simp: apply_resolution_def Let_def edge_of_def split: prod.splits)
  have "narrowed prev_u v" using assms(1,4) narrowed_clamp_end [of prev_u prev_b] by (auto simp: overlapping_def v_def)
  then show "mono_step a st (apply_resolution facts InterleavedWords prev_u next_u st)"
    using assms(1,2,3) f
    by (intro wrote [of st p prev_u a v])
      (auto simp: overlapping_def edge_of_def apply_resolution_def grown_def named_def rewritten_def Let_def split: prod.splits)
qed

lemma boundary_steps:
  assumes "overlapping st p n prev_u next_u prev_b next_b" and "edge_of st facts p n prev_b next_b"
    and "revisable_at a (ordinal (ms_file st) p)" and "revisable_at a (ordinal (ms_file st) n)"
    and "furthest_word_timing_end prev_u = Some h" and "earliest_word_timing_start next_u = Some s"
    and "ts_start_ms next_b \<le> s"
  shows "mono_steps a st (apply_resolution facts (BoundaryFromWords h s) prev_u next_u st)"
    and "ms_file (apply_resolution facts (BoundaryFromWords h s) prev_u next_u st) =
      put_utterance n (set_bullet_start s next_u) (put_utterance p (set_bullet_end h prev_u) (ms_file st))"
proof -
  show f: "ms_file (apply_resolution facts (BoundaryFromWords h s) prev_u next_u st) =
      put_utterance n (set_bullet_start s next_u) (put_utterance p (set_bullet_end h prev_u) (ms_file st))"
    using assms(2) by (simp add: apply_resolution_def Let_def edge_of_def)
  define st1 where "st1 = store_at p (set_bullet_end h prev_u)
    (effect (EffectBoundaryFromWords (of_edge facts) h s)
      (decide p (oe_speaker (of_edge facts)) EndClampedBoundaryFromWords False st))"
  have st2: "apply_resolution facts (BoundaryFromWords h s) prev_u next_u st = store_at n (set_bullet_start s next_u) st1"
    using assms(2) by (simp add: apply_resolution_def Let_def edge_of_def st1_def)
  have "mono_step a st st1"
    using assms(1,2,3) narrowed_hull_end [of prev_u prev_b h] assms(5)
    by (intro wrote [of st p prev_u a "set_bullet_end h prev_u"])
      (auto simp: overlapping_def edge_of_def st1_def grown_def named_def)
  moreover have "mono_step a st1 (store_at n (set_bullet_start s next_u) st1)"
    using assms(1,2,4,6,7) narrowed_hull_start [of next_u next_b s]
    by (intro wrote [of st1 n next_u a "set_bullet_start s next_u"])
      (auto simp: overlapping_def edge_of_def st1_def grown_def named_def)
  ultimately show "mono_steps a st (apply_resolution facts (BoundaryFromWords h s) prev_u next_u st)"
    unfolding st2 by auto
qed

lemma classify_end_overlap_cases:
  "(classify_end_overlap h start s t = CoverageOnly h \<and> (\<forall>x. h = Some x \<longrightarrow> x \<le> start)) \<or>
   classify_end_overlap h start s t = InterleavedWords \<or>
   (\<exists>x y. classify_end_overlap h start s t = BoundaryFromWords x y \<and> h = Some x \<and> s = Some y \<and> x \<le> y \<and>
      start < x \<and> (\<forall>z. t = Some z \<longrightarrow> y < z))"
  by (auto simp: classify_end_overlap_def not_le split: option.split)

lemma resolve_revisable_prev_steps:
  assumes "overlapping st p n prev_u next_u prev_b next_b" and "edge_of st facts p n prev_b next_b"
    and "revisable_at a (ordinal (ms_file st) p)"
    and "nxt = NextMovable \<Longrightarrow> revisable_at a (ordinal (ms_file st) n)"
  defines "st' \<equiv> resolve_revisable_prev facts nxt prev_u next_u st"
  shows "mono_steps a st st' \<and> pair_outcome (ms_file st) p n (ms_file st') \<and>
    pair_settled (ms_file st') p n \<and> live (ms_file st') n \<noteq> None"
proof (cases "ts_start_ms next_b \<le> ts_start_ms prev_b")
  case True
  then have "st' = strip_zero_duration facts prev_u st"
    using assms(2) by (simp add: st'_def resolve_revisable_prev_def edge_of_def)
  then show ?thesis
    using strip_zero_duration_step [OF assms(1-3)] prev_write_outcome [OF assms(1), of "fst (strip_utterance_timing prev_u)"]
    by auto
next
  case False
  define h where "h = furthest_word_timing_end prev_u"
  define s where "s = earliest_word_timing_start next_u"
  define t where "t = file_order_successor_start_ms (ms_file st) n"
  define r where "r = (case nxt of NextMovable \<Rightarrow> classify_end_overlap h (ts_start_ms next_b) s t
    | NextKept \<Rightarrow> keeping_next_start (classify_end_overlap h (ts_start_ms next_b) s t))"
  have st': "st' = apply_resolution facts r prev_u next_u st"
    using assms(2) False by (cases nxt) (simp_all add: st'_def resolve_revisable_prev_def edge_of_def r_def h_def s_def t_def Let_def)
  consider (coverage) "r = CoverageOnly h" "\<And>x. h = Some x \<Longrightarrow> x \<le> ts_start_ms next_b"
    | (interleaved) "r = InterleavedWords"
    | (boundary) x y where "r = BoundaryFromWords x y" "nxt = NextMovable" "h = Some x" "s = Some y" "x \<le> y"
        "ts_start_ms next_b < x" "\<And>z. t = Some z \<Longrightarrow> y < z"
    using classify_end_overlap_cases [of h "ts_start_ms next_b" s t]
    by (cases nxt) (auto simp: r_def)
  then show ?thesis
  proof cases
    case coverage
    have "mono_step a st st'" "ms_file st' = put_utterance p (set_bullet_end (case h of Some h \<Rightarrow> h | None \<Rightarrow> ts_start_ms next_b) prev_u) (ms_file st)"
      "(case h of Some h \<Rightarrow> h | None \<Rightarrow> ts_start_ms next_b) \<le> ts_start_ms next_b"
      using coverage_step [OF assms(1-3) _ h_def coverage(2)] False st' coverage(1) by auto
    then show ?thesis
      using prev_write_outcome [OF assms(1), of "set_bullet_end (case h of Some h \<Rightarrow> h | None \<Rightarrow> ts_start_ms next_b) prev_u"] assms(1)
      by (auto simp: overlapping_def)
  next
    case interleaved
    then show ?thesis
      using interleaved_step [OF assms(1-3)] False st' assms(1)
        prev_write_outcome [OF assms(1), of "clamp_utterance \<lparr>ts_start_ms = 0, ts_end_ms = ts_start_ms next_b\<rparr> (set_bullet_end (ts_start_ms next_b) prev_u)"]
      by (auto simp: overlapping_def)
  next
    case (boundary x y)
    have yy: "ts_start_ms next_b \<le> y" using boundary(5,6) by simp
    note steps = boundary_steps [OF assms(1-3) assms(4) [OF boundary(2)] boundary(3) [unfolded h_def] boundary(4) [unfolded s_def] yy]
    have "pair_outcome (ms_file st) p n (ms_file st')" "pair_settled (ms_file st') p n" "live (ms_file st') n \<noteq> None"
      using assms(1) boundary(1,5,7) steps(2) yy live_overlapping [OF assms(1)]
      by (auto simp: st' overlapping_def pair_outcome_def pair_settled_def t_def intro: less_imp_le)
    with steps(1) st' boundary(1) show ?thesis by simp
  qed
qed

lemma yield_next_steps:
  assumes "overlapping st p n prev_u next_u prev_b next_b" and "edge_of st facts p n prev_b next_b"
    and "revisable_at a (ordinal (ms_file st) n)" and "kept_end_ms k = ts_end_ms prev_b"
  defines "st' \<equiv> yield_next_to_kept_end facts k next_u next_b st"
  shows "mono_steps a st st' \<and> pair_outcome (ms_file st) p n (ms_file st')"
proof (cases "keeping_prev_end (kept_end_ms k) (ts_end_ms next_b) (earliest_word_timing_start next_u)
    (file_order_successor_start_ms (ms_file st) n) = YieldStrip")
  case True
  have f: "ms_file st' = put_utterance n (fst (strip_utterance_timing next_u)) (ms_file st)"
    using True assms(2) by (simp add: st'_def yield_next_to_kept_end_def edge_of_def Let_def split: prod.splits)
  have "mono_step a st st'"
    using assms(1-3) f True
    by (intro wrote [of st n next_u a "fst (strip_utterance_timing next_u)"])
      (auto simp: st'_def yield_next_to_kept_end_def overlapping_def edge_of_def grown_def named_def rewritten_def
        yield_edge_def Let_def split: prod.splits)
  with f next_write_outcome [OF assms(1)] show ?thesis by auto
next
  case False
  let ?e = "kept_end_ms k"
  let ?v = "fst (raise_bullet_start ?e next_u)"
  have k: "?e < ts_end_ms next_b" "\<And>t. file_order_successor_start_ms (ms_file st) n = Some t \<Longrightarrow> ?e \<le> t"
    using False by (auto simp: keeping_prev_end_def Let_def split: if_splits)
  have st': "st' = effect (EffectYieldedToKept (yield_edge (of_edge facts) ?e)
      (StartMoved (ts_start_ms next_b) ?e (cw_trimmed (snd (raise_bullet_start ?e next_u))) (cw_dropped (snd (raise_bullet_start ?e next_u)))))
    (decide n (oe_next_speaker (of_edge facts)) YieldedToKeptBullet (cut_any (snd (raise_bullet_start ?e next_u)))
      (store_at n ?v st))"
    using False assms(2)
    by (auto simp: st'_def yield_next_to_kept_end_def edge_of_def Let_def case_prod_beta split: kept_end_yield.split)
  have "ts_start_ms next_b \<le> ?e" using assms(1,4) by (auto simp: overlapping_def)
  then have nar: "narrowed next_u ?v" using narrowed_raise [of next_u next_b ?e] assms(1) k(1) by (simp add: overlapping_def)
  have "cut_any (snd (raise_bullet_start ?e next_u)) \<or> same_words next_u ?v" using raise_same_words by blast
  then have "mono_step a st st'"
    using assms(1-3) nar
    by (intro wrote [of st n next_u a ?v])
      (auto simp: st' overlapping_def edge_of_def grown_def named_def rewritten_def yield_edge_def cut_any_def)
  moreover have "pair_outcome (ms_file st) p n (ms_file st')"
    using next_write_outcome [OF assms(1), of ?v] k(2) \<open>ts_start_ms next_b \<le> ?e\<close> assms(1)
    by (auto simp: st' overlapping_def)
  ultimately show ?thesis by blast
qed

lemma leave_kept_step: "mono_step a st (leave_kept_overlap facts st)" "ms_file (leave_kept_overlap facts st) = ms_file st"
proof -
  show f: "ms_file (leave_kept_overlap facts st) = ms_file st"
    by (simp add: leave_kept_overlap_def first_report_def Let_def)
  show "mono_step a st (leave_kept_overlap facts st)"
    by (rule noted [OF f]) (auto simp: leave_kept_overlap_def first_report_def Let_def grown_def decide_def)
qed

definition pair_in :: "chat_file \<Rightarrow> overlap_pair \<Rightarrow> bool" where
  "pair_in f pair \<longleftrightarrow> pr_prev_line_idx pair < pr_next_line_idx pair \<and>
     pr_prev_utterance_idx pair = ordinal f (pr_prev_line_idx pair) \<and>
     pr_next_utterance_idx pair = ordinal f (pr_next_line_idx pair)"

lemma pair_outcome_refl [simp]: "pair_outcome f p n f"
  by (auto simp: pair_outcome_def)

lemma settled_pair_noop:
  assumes "agrees a (ms_file st)" and "pair_in (ms_file st) pair"
    and "pair_settled (ms_file st) (pr_prev_line_idx pair) (pr_next_line_idx pair)"
  shows "resolve_end_overlap_pair a pair st = Ok st"
proof (cases "utterance_at (ms_file st) (pr_next_line_idx pair)")
  case (Some next_u)
  show ?thesis
  proof (cases "parsed_bullet next_u")
    case b: (Some next_b)
    obtain m where m: "mutability a (pr_next_utterance_idx pair) next_b = Ok m"
      using revisable_iff_mutability [OF assms(1) Some b] assms(2) by (metis pair_in_def)
    show ?thesis
      using Some b m assms(3)
      by (auto simp: resolve_end_overlap_pair_def pair_settled_def live_def split: option.split)
  qed (use Some in \<open>simp add: resolve_end_overlap_pair_def\<close>)
qed (simp add: resolve_end_overlap_pair_def)

lemma unsettled_pair:
  assumes "\<not> pair_settled (ms_file st) p n" and "p < n"
  obtains prev_u next_u prev_b next_b where "overlapping st p n prev_u next_u prev_b next_b"
  using assms that by (auto simp: pair_settled_def overlapping_def live_utterance not_le)

lemma resolve_pair_steps:
  assumes "agrees a (ms_file st)" and "pair_in (ms_file st) pair"
  defines "p \<equiv> pr_prev_line_idx pair" and "n \<equiv> pr_next_line_idx pair"
  obtains st' where "resolve_end_overlap_pair a pair st = Ok st'" "mono_steps a st st'"
    "pair_outcome (ms_file st) p n (ms_file st')"
    "revisable_at a (ordinal (ms_file st) p) \<Longrightarrow>
       pair_settled (ms_file st') p n \<and> (live (ms_file st) n \<noteq> None \<longrightarrow> live (ms_file st') n \<noteq> None)"
proof (cases "pair_settled (ms_file st) p n")
  case True
  then show thesis using that settled_pair_noop [OF assms(1,2)] by (simp add: p_def n_def)
next
  case False
  have pn: "p < n" using assms(2) by (simp add: pair_in_def p_def n_def)
  obtain prev_u next_u prev_b next_b where ov: "overlapping st p n prev_u next_u prev_b next_b"
    using unsettled_pair [OF False pn] by metis
  define facts where "facts = pair_facts pair prev_u prev_b next_b"
  have edge: "edge_of st facts p n prev_b next_b"
    using assms(2) by (simp add: edge_of_def facts_def pair_facts_def pair_in_def p_def n_def)
  have at: "utterance_at (ms_file st) p = Some prev_u" "parsed_bullet prev_u = Some prev_b"
    "utterance_at (ms_file st) n = Some next_u" "parsed_bullet next_u = Some next_b" "\<not> ts_end_ms prev_b \<le> ts_start_ms next_b"
    using ov by (auto simp: overlapping_def)
  have idx: "pr_prev_utterance_idx pair = ordinal (ms_file st) p" "pr_next_utterance_idx pair = ordinal (ms_file st) n"
    using assms(2) by (auto simp: pair_in_def p_def n_def)
  have res: "resolve_end_overlap_pair a pair st = Ok (case (m1, m2) of
        (Revisable, Revisable) \<Rightarrow> resolve_revisable_prev facts NextMovable prev_u next_u st
      | (Revisable, ReadOnly _) \<Rightarrow> resolve_revisable_prev facts NextKept prev_u next_u st
      | (ReadOnly kept_prev, Revisable) \<Rightarrow> yield_next_to_kept_end facts kept_prev next_u next_b st
      | (ReadOnly _, ReadOnly _) \<Rightarrow> leave_kept_overlap facts st)"
    if "mutability a (ordinal (ms_file st) p) prev_b = Ok m1" "mutability a (ordinal (ms_file st) n) next_b = Ok m2" for m1 m2
    using that at idx unfolding resolve_end_overlap_pair_def p_def n_def
    by (cases m1; cases m2) (simp_all add: facts_def Let_def)
  show thesis
  proof (cases rule: revisable_iff_mutability [OF assms(1) at(1,2)])
    case prev: 1
    show thesis
    proof (cases rule: revisable_iff_mutability [OF assms(1) at(3,4)])
      case 1
      from resolve_revisable_prev_steps [OF ov edge prev(2), of NextMovable] 1(2) res [OF prev(1) 1(1)] show thesis
        by (intro that) auto
    next
      case (2 k)
      from resolve_revisable_prev_steps [OF ov edge prev(2), of NextKept] res [OF prev(1) 2(1)] show thesis
        by (intro that) auto
    qed
  next
    case prev: (2 k)
    have ke: "kept_end_ms k = ts_end_ms prev_b" using prev(2) by (simp add: kept_to_bullet_def)
    show thesis
    proof (cases rule: revisable_iff_mutability [OF assms(1) at(3,4)])
      case 1
      from yield_next_steps [OF ov edge 1(2) ke] res [OF prev(1) 1(1)] prev(3) show thesis by (intro that) auto
    next
      case (2 k')
      from leave_kept_step res [OF prev(1) 2(1)] prev(3) show thesis by (intro that) auto
    qed
  qed
qed

subsection \<open>Both passes\<close>

lemma mono_steps_starts:
  assumes "mono_steps a st st'" and "live (ms_file st') i = Some c'"
  shows "\<exists>c. live (ms_file st) i = Some c \<and> ts_start_ms c \<le> ts_start_ms c'"
  using assms
proof (induction arbitrary: c' rule: rtranclp_induct)
  case (step st' st'')
  from step.hyps(2) have "\<exists>c. live (ms_file st') i = Some c \<and> ts_start_ms c \<le> ts_start_ms c'"
    using step.prems by (cases rule: mono_step.cases) (auto simp: narrowed_def live_utterance split: if_splits)
  then show ?case using step.IH order_trans by blast
qed auto

lemma pair_in_shape: "same_shape f f' \<Longrightarrow> pair_in f pair \<Longrightarrow> pair_in f' pair"
  by (simp add: pair_in_def same_shape_ordinal)

lemma resolve_pairs_append:
  "resolve_pairs a (ps @ qs) st = (case resolve_pairs a ps st of Inl e \<Rightarrow> Err e | Inr st' \<Rightarrow> resolve_pairs a qs st')"
  by (induction ps arbitrary: st) (auto split: sum.splits)

definition pair_lines :: "overlap_pair list \<Rightarrow> nat set" where
  "pair_lines ps = pr_prev_line_idx ` set ps \<union> pr_next_line_idx ` set ps"

lemma resolve_pairs_steps:
  assumes "agrees a (ms_file st)" and "\<And>pair. pair \<in> set ps \<Longrightarrow> pair_in (ms_file st) pair"
  shows "\<exists>st'. resolve_pairs a ps st = Ok st' \<and> mono_steps a st st' \<and>
    (starts_ordered (ms_file st) \<longrightarrow> starts_ordered (ms_file st')) \<and>
    (\<forall>i. i \<notin> pair_lines ps \<longrightarrow> live (ms_file st') i = live (ms_file st) i)"
  using assms
proof (induction ps arbitrary: st)
  case (Cons pair ps)
  have pin: "pair_in (ms_file st) pair" using Cons.prems(2) by simp
  obtain st1 where st1: "resolve_end_overlap_pair a pair st = Ok st1" "mono_steps a st st1"
    "pair_outcome (ms_file st) (pr_prev_line_idx pair) (pr_next_line_idx pair) (ms_file st1)"
    using resolve_pair_steps [OF Cons.prems(1) pin] by metis
  have k: "agrees a (ms_file st1)" "same_shape (ms_file st) (ms_file st1)"
    using mono_steps_keep [OF st1(2) Cons.prems(1)] by auto
  obtain st2 where st2: "resolve_pairs a ps st1 = Ok st2" "mono_steps a st1 st2"
    "starts_ordered (ms_file st1) \<longrightarrow> starts_ordered (ms_file st2)"
    "\<forall>i. i \<notin> pair_lines ps \<longrightarrow> live (ms_file st2) i = live (ms_file st1) i"
    using Cons.IH [OF k(1)] pair_in_shape [OF k(2)] Cons.prems(2) by (metis list.set_intros(2))
  have "live (ms_file st2) i = live (ms_file st) i" if "i \<notin> pair_lines (pair # ps)" for i
    using that st2(4) st1(3) by (auto simp: pair_lines_def pair_outcome_def)
  moreover have "starts_ordered (ms_file st2)" if "starts_ordered (ms_file st)"
    using st2(3) pair_outcome_ordered [OF st1(3) that] pin by (simp add: pair_in_def)
  moreover have "mono_steps a st st2" using st1(2) st2(2) by (rule rtranclp_trans)
  ultimately show ?case using st1(1) st2(1) by auto
qed auto

lemma resolve_settled_pairs:
  assumes "agrees a (ms_file st)" and "\<And>pair. pair \<in> set ps \<Longrightarrow> pair_in (ms_file st) pair"
    and "\<And>pair. pair \<in> set ps \<Longrightarrow> pair_settled (ms_file st) (pr_prev_line_idx pair) (pr_next_line_idx pair)"
  shows "resolve_pairs a ps st = Ok st"
  using assms by (induction ps) (auto simp: settled_pair_noop)

text \<open>The entries of a list of timed lines, and its neighbours.\<close>

definition entries_in :: "chat_file \<Rightarrow> (nat \<times> nat \<times> string) list \<Rightarrow> bool" where
  "entries_in f xs \<longleftrightarrow> sorted_wrt (<) (map fst xs) \<and> (\<forall>x \<in> set xs. fst (snd x) = ordinal f (fst x))"

lemma entries_in_shape: "same_shape f f' \<Longrightarrow> entries_in f xs \<Longrightarrow> entries_in f' xs"
  by (simp add: entries_in_def same_shape_ordinal)

lemma windows_simps [simp]:
  "windows [] = []" "windows [x] = []" "windows (x # y # r) = (x, y) # windows (y # r)"
  by (simp_all add: windows_def)

lemma windows_mem:
  assumes "(x, y) \<in> set (windows xs)" and "sorted_wrt R xs"
  shows "x \<in> set xs \<and> y \<in> set xs \<and> R x y"
  using assms
proof (induction xs rule: induct_list012)
  case (3 z w r)
  then show ?case by auto
qed simp_all

lemma pair_of_simps [simp]:
  "pr_prev_line_idx (pair_of (x, y)) = fst x" "pr_next_line_idx (pair_of (x, y)) = fst y"
  "pr_prev_utterance_idx (pair_of (x, y)) = fst (snd x)" "pr_next_utterance_idx (pair_of (x, y)) = fst (snd y)"
  by (cases x; cases y; simp)+

lemma windows_pair_in:
  assumes "entries_in f xs" and "(x, y) \<in> set (windows xs)"
  shows "pair_in f (pair_of (x, y)) \<and> x \<in> set xs \<and> y \<in> set xs \<and> fst x < fst y"
proof -
  have "x \<in> set xs \<and> y \<in> set xs \<and> fst x < fst y"
    using windows_mem [OF assms(2), of "\<lambda>x y. fst x < fst y"] assms(1) by (auto simp: entries_in_def sorted_wrt_map)
  then show ?thesis using assms(1) by (auto simp: pair_in_def entries_in_def simp del: pair_of.simps)
qed

lemma windows_lines:
  assumes "entries_in f xs"
  shows "pair_lines (map pair_of (windows xs)) \<subseteq> fst ` set xs"
proof
  fix l
  assume "l \<in> pair_lines (map pair_of (windows xs))"
  then obtain x y where "(x, y) \<in> set (windows xs)" "l = fst x \<or> l = fst y"
    by (auto simp: pair_lines_def simp del: pair_of.simps)
  with windows_pair_in [OF assms this(1)] show "l \<in> fst ` set xs" by auto
qed


lemma resolve_windows_settled:
  assumes "agrees a (ms_file st)" and "starts_ordered (ms_file st)" and "entries_in (ms_file st) xs"
    and "\<And>l. l \<in> fst ` set xs \<Longrightarrow> live (ms_file st) l \<noteq> None \<and> revisable_at a (ordinal (ms_file st) l)"
  shows "\<exists>st'. resolve_pairs a (map pair_of (windows xs)) st = Ok st' \<and> mono_steps a st st' \<and> starts_ordered (ms_file st') \<and>
    (\<forall>i. i \<notin> fst ` set xs \<longrightarrow> live (ms_file st') i = live (ms_file st) i) \<and>
    (\<forall>l m. l \<in> fst ` set xs \<longrightarrow> m \<in> fst ` set xs \<longrightarrow> l < m \<longrightarrow> pair_settled (ms_file st') l m)"
  using assms
proof (induction xs arbitrary: st rule: induct_list012)
  case (3 x y r)
  let ?f = "ms_file st"
  have pin: "pair_in ?f (pair_of (x, y))" and xy: "fst x < fst y"
    using windows_pair_in [OF "3.prems"(3), of x y] by simp_all
  obtain st1 where st1: "resolve_end_overlap_pair a (pair_of (x, y)) st = Ok st1" "mono_steps a st st1"
    "pair_outcome ?f (fst x) (fst y) (ms_file st1)"
    "revisable_at a (ordinal ?f (fst x)) \<Longrightarrow> pair_settled (ms_file st1) (fst x) (fst y) \<and>
      (live ?f (fst y) \<noteq> None \<longrightarrow> live (ms_file st1) (fst y) \<noteq> None)"
    using resolve_pair_steps [OF "3.prems"(1) pin] unfolding pair_of_simps by metis
  have k: "agrees a (ms_file st1)" "same_shape ?f (ms_file st1)"
    using mono_steps_keep [OF st1(2) "3.prems"(1)] by auto
  have first: "fst x < m" if "m \<in> fst ` set (y # r)" for m
    using "3.prems"(3) that by (auto simp: entries_in_def)
  have second: "fst y < m" if "m \<in> fst ` set r" for m
    using "3.prems"(3) that by (auto simp: entries_in_def)
  have settled: "pair_settled (ms_file st1) (fst x) (fst y)" "live (ms_file st1) (fst y) \<noteq> None"
    using st1(4) "3.prems"(4) by auto
  have o1: "starts_ordered (ms_file st1)" using pair_outcome_ordered [OF st1(3) "3.prems"(2) xy] .
  have live1: "live (ms_file st1) l \<noteq> None \<and> revisable_at a (ordinal (ms_file st1) l)" if "l \<in> fst ` set (y # r)" for l
  proof -
    have "live (ms_file st1) l \<noteq> None"
      using that settled(2) st1(3) "3.prems"(4) [of l] first [OF that] second [of l]
      by (cases "l = fst y") (auto simp: pair_outcome_def)
    moreover have "l \<in> fst ` set (x # y # r)" using that by auto
    ultimately show ?thesis using "3.prems"(4) [of l] same_shape_ordinal [OF k(2)] by simp
  qed
  have e1: "entries_in (ms_file st1) (y # r)"
    using entries_in_shape [OF k(2) "3.prems"(3)] by (simp add: entries_in_def)
  from "3.IH"(2) [OF k(1) o1 e1 live1] obtain st2 where st2: "resolve_pairs a (map pair_of (windows (y # r))) st1 = Ok st2"
    "mono_steps a st1 st2" "starts_ordered (ms_file st2)"
    "\<And>i. i \<notin> fst ` set (y # r) \<Longrightarrow> live (ms_file st2) i = live (ms_file st1) i"
    "\<And>l m. l \<in> fst ` set (y # r) \<Longrightarrow> m \<in> fst ` set (y # r) \<Longrightarrow> l < m \<Longrightarrow> pair_settled (ms_file st2) l m"
    by blast
  have x2: "live (ms_file st2) (fst x) = live (ms_file st1) (fst x)" using st2(4) first by blast
  have head: "pair_settled (ms_file st2) (fst x) m" if m: "m \<in> fst ` set (y # r)" for m
    unfolding pair_settled_def
  proof (intro allI impI)
    fix b c
    assume b: "live (ms_file st2) (fst x) = Some b" and c: "live (ms_file st2) m = Some c"
    obtain c1 where c1: "live (ms_file st1) m = Some c1" "ts_start_ms c1 \<le> ts_start_ms c"
      using mono_steps_starts [OF st2(2) c] by blast
    obtain y1 where y1: "live (ms_file st1) (fst y) = Some y1" using settled(2) by auto
    have "ts_end_ms b \<le> ts_start_ms y1" using settled(1) b x2 y1 by (simp add: pair_settled_def)
    also have "\<dots> \<le> ts_start_ms c1"
      using o1 y1 c1(1) second [of m] m by (cases "m = fst y") (auto simp: starts_ordered_def)
    finally show "ts_end_ms b \<le> ts_start_ms c" using c1(2) by simp
  qed
  have "pair_settled (ms_file st2) l m" if "l \<in> fst ` set (x # y # r)" "m \<in> fst ` set (x # y # r)" "l < m" for l m
  proof (cases "l = fst x")
    case True
    then show ?thesis using head that by auto
  next
    case False
    then show ?thesis using st2(5) that first by (metis image_insert insert_iff less_asym list.simps(15))
  qed
  moreover have "live (ms_file st2) i = live ?f i" if "i \<notin> fst ` set (x # y # r)" for i
    using that st2(4) st1(3) by (auto simp: pair_outcome_def)
  moreover have "mono_steps a st st2" using st1(2) st2(2) by (rule rtranclp_trans)
  ultimately show ?case using st1(1) st2(1,3) by (auto simp del: pair_of.simps)
qed auto


lemma first_appearance_set [simp]: "set (first_appearance xs) = set xs"
proof -
  have "set (fold (\<lambda>x acc. if x \<in> set acc then acc else acc @ [x]) xs acc) = set acc \<union> set xs" for acc :: "'a list"
    by (induction xs arbitrary: acc) auto
  then show ?thesis by (simp add: first_appearance_def)
qed

lemma first_appearance_distinct: "distinct (first_appearance xs)"
proof -
  have "distinct acc \<Longrightarrow> distinct (fold (\<lambda>x acc. if x \<in> set acc then acc else acc @ [x]) xs acc)" for acc :: "'a list"
    by (induction xs arbitrary: acc) auto
  then show ?thesis by (simp add: first_appearance_def)
qed

lemma entries_in_filter: "entries_in f xs \<Longrightarrow> entries_in f (filter P xs)"
  by (auto simp: entries_in_def sorted_wrt_map sorted_wrt_filter)

lemma stream_of_set: "set (stream_of speaker xs) = {x \<in> set xs. snd (snd x) = speaker}"
  by (auto simp: stream_of_def)

lemma entries_distinct: "entries_in f xs \<Longrightarrow> x \<in> set xs \<Longrightarrow> y \<in> set xs \<Longrightarrow> fst x = fst y \<Longrightarrow> x = y"
  by (auto simp: entries_in_def strict_sorted_iff distinct_map inj_on_def)

lemma resolve_streams_settled:
  assumes "agrees a (ms_file st)" and "starts_ordered (ms_file st)" and "entries_in (ms_file st) xs" and "distinct sps"
    and "\<And>x. x \<in> set xs \<Longrightarrow> snd (snd x) \<in> set sps \<Longrightarrow>
      live (ms_file st) (fst x) \<noteq> None \<and> revisable_at a (ordinal (ms_file st) (fst x))"
  shows "\<exists>st'. resolve_pairs a (concat (map (\<lambda>sp. map pair_of (windows (stream_of sp xs))) sps)) st = Ok st' \<and>
    mono_steps a st st' \<and> starts_ordered (ms_file st') \<and>
    (\<forall>i. i \<notin> fst ` {x \<in> set xs. snd (snd x) \<in> set sps} \<longrightarrow> live (ms_file st') i = live (ms_file st) i) \<and>
    (\<forall>x \<in> set xs. \<forall>y \<in> set xs. snd (snd x) \<in> set sps \<longrightarrow> snd (snd y) = snd (snd x) \<longrightarrow> fst x < fst y \<longrightarrow>
      pair_settled (ms_file st') (fst x) (fst y))"
  using assms
proof (induction sps arbitrary: st)
  case (Cons sp sps)
  let ?f = "ms_file st" and ?ys = "stream_of sp xs"
  have e: "entries_in ?f ?ys" using entries_in_filter [OF Cons.prems(3)] by (simp add: stream_of_def)
  have ok: "live ?f l \<noteq> None \<and> revisable_at a (ordinal ?f l)" if "l \<in> fst ` set ?ys" for l
    using that Cons.prems(5) by (auto simp: stream_of_set)
  obtain st1 where st1: "resolve_pairs a (map pair_of (windows ?ys)) st = Ok st1" "mono_steps a st st1" "starts_ordered (ms_file st1)"
    "\<And>i. i \<notin> fst ` set ?ys \<Longrightarrow> live (ms_file st1) i = live ?f i"
    "\<And>l m. l \<in> fst ` set ?ys \<Longrightarrow> m \<in> fst ` set ?ys \<Longrightarrow> l < m \<Longrightarrow> pair_settled (ms_file st1) l m"
    using resolve_windows_settled [OF Cons.prems(1,2) e ok] by blast
  have k: "agrees a (ms_file st1)" "same_shape ?f (ms_file st1)"
    using mono_steps_keep [OF st1(2) Cons.prems(1)] by auto
  have e1: "entries_in (ms_file st1) xs" by (rule entries_in_shape [OF k(2) Cons.prems(3)])
  have other: "fst x \<notin> fst ` set ?ys" if "x \<in> set xs" "snd (snd x) \<noteq> sp" for x
    using entries_distinct [OF Cons.prems(3) that(1)] that(2) by (auto simp: stream_of_set)
  have d: "sp \<notin> set sps" "distinct sps" using Cons.prems(4) by auto
  have ok1: "live (ms_file st1) (fst x) \<noteq> None \<and> revisable_at a (ordinal (ms_file st1) (fst x))"
    if "x \<in> set xs" "snd (snd x) \<in> set sps" for x
  proof -
    have "snd (snd x) \<noteq> sp" using that(2) d(1) by blast
    then show ?thesis
      using Cons.prems(5) [OF that(1)] st1(4) [OF other [OF that(1)]] that(2) same_shape_ordinal [OF k(2)] by simp
  qed
  obtain st2 where st2: "resolve_pairs a (concat (map (\<lambda>sp. map pair_of (windows (stream_of sp xs))) sps)) st1 = Ok st2"
    "mono_steps a st1 st2" "starts_ordered (ms_file st2)"
    "\<And>i. i \<notin> fst ` {x \<in> set xs. snd (snd x) \<in> set sps} \<Longrightarrow> live (ms_file st2) i = live (ms_file st1) i"
    "\<And>x y. x \<in> set xs \<Longrightarrow> y \<in> set xs \<Longrightarrow> snd (snd x) \<in> set sps \<Longrightarrow> snd (snd y) = snd (snd x) \<Longrightarrow> fst x < fst y \<Longrightarrow>
      pair_settled (ms_file st2) (fst x) (fst y)"
    using Cons.IH [OF k(1) st1(3) e1 d(2) ok1] by blast
  have mine: "live (ms_file st2) (fst x) = live (ms_file st1) (fst x)" if "x \<in> set xs" "snd (snd x) = sp" for x
    using st2(4) that entries_distinct [OF Cons.prems(3) that(1)] d(1) by fastforce
  have "pair_settled (ms_file st2) (fst x) (fst y)"
    if "x \<in> set xs" "y \<in> set xs" "snd (snd x) \<in> set (sp # sps)" "snd (snd y) = snd (snd x)" "fst x < fst y" for x y
  proof (cases "snd (snd x) = sp")
    case True
    then have "pair_settled (ms_file st1) (fst x) (fst y)"
      using st1(5) [of "fst x" "fst y"] that by (auto simp: stream_of_set)
    then show ?thesis using mine that True by (simp add: pair_settled_def)
  qed (use st2(5) that in auto)
  moreover have "live (ms_file st2) i = live ?f i" if "i \<notin> fst ` {x \<in> set xs. snd (snd x) \<in> set (sp # sps)}" for i
  proof -
    have "i \<notin> fst ` set ?ys" "i \<notin> fst ` {x \<in> set xs. snd (snd x) \<in> set sps}" using that by (auto simp: stream_of_set)
    then show ?thesis using st1(4) st2(4) by simp
  qed
  moreover have "mono_steps a st st2" using st1(2) st2(2) by (rule rtranclp_trans)
  ultimately show ?case using st1(1) st2(1,3) by (auto simp: resolve_pairs_append)
qed auto

lemma bulleted_entries: "entries_in f (bulleted f)"
proof -
  have "map fst (bulleted f) = map fst (filter (\<lambda>(l, k, u). ut_bullet u \<noteq> None) (utterances_indexed f))"
    by (auto simp: bulleted_def)
  moreover have "sorted_wrt (<) (map fst (filter (\<lambda>(l, k, u). ut_bullet u \<noteq> None) (utterances_indexed f)))"
    using utterances_indexed_sorted [of f] by (simp add: sorted_wrt_map sorted_wrt_filter)
  ultimately have "sorted_wrt (<) (map fst (bulleted f))" by (simp only:)
  moreover have "fst (snd x) = ordinal f (fst x)" if "x \<in> set (bulleted f)" for x
    using that by (auto simp: bulleted_def utterances_indexed_iff)
  ultimately show ?thesis by (simp add: entries_in_def)
qed

lemma bulleted_live:
  assumes "agrees a f"
  shows "(l, k, s) \<in> set (bulleted f) \<longleftrightarrow> k = ordinal f l \<and> (\<exists>u b. utterance_at f l = Some u \<and> ut_speaker u = s \<and> parsed_bullet u = Some b)"
proof -
  have "ut_bullet u \<noteq> None \<longleftrightarrow> (\<exists>b. parsed_bullet u = Some b)" if here: "utterance_at f l = Some u" for u
  proof -
    from assms here have "\<And>source. ut_bullet u \<noteq> Some (Unparsed source)" by (auto simp: agrees_def slot_agrees_def)
    then show ?thesis by (cases "ut_bullet u"; cases "the (ut_bullet u)") (auto simp: parsed_bullet_def)
  qed
  then show ?thesis by (auto simp: bulleted_def utterances_indexed_iff image_iff)
qed


lemma stream_pairs_in:
  assumes "entries_in f xs" and "pair \<in> set (stream_pairs xs)"
  shows "pair_in f pair"
proof -
  obtain speaker x y where xy: "(x, y) \<in> set (windows (stream_of speaker xs))" "pair = pair_of (x, y)"
    using assms(2) by (auto simp: stream_pairs_def simp del: pair_of.simps)
  have "entries_in f (stream_of speaker xs)" using entries_in_filter [OF assms(1)] by (simp add: stream_of_def)
  from windows_pair_in [OF this xy(1)] xy(2) show ?thesis by simp
qed

lemma adjacent_pairs_in:
  assumes "entries_in f xs" and "pair \<in> set (adjacent_pairs policy xs)"
  obtains x y where "pair = pair_of (x, y)" "x \<in> set xs" "y \<in> set xs" "fst x < fst y" "pair_in f pair"
    "should_clamp policy (snd (snd x)) (snd (snd y))"
proof -
  from assms(2) obtain x y where xy: "pair = pair_of (x, y)" "(x, y) \<in> set (windows xs)"
      "should_clamp policy (snd (snd x)) (snd (snd y))"
    by (auto simp: adjacent_pairs_def simp del: pair_of.simps)
  with windows_pair_in [OF assms(1) xy(2)] show thesis using that by simp
qed

lemma enforce_monotonicity_ok:
  assumes "agrees a f"
  obtains st where "enforce_monotonicity_under policy a f = Ok st" "mono_steps a (mono_start f) st"
    "kept_ordered a f \<Longrightarrow> starts_ordered (ms_file st)"
proof -
  have f0: "ms_file (mono_start f) = f" by (simp add: mono_start_def)
  obtain st1 where st1: "enforce_start_order a (mono_start f) = Ok st1" "mono_steps a (mono_start f) st1"
    "kept_ordered a f \<Longrightarrow> starts_ordered (ms_file st1)"
    using enforce_start_order_ok [of a "mono_start f"] assms f0 by metis
  have ag1: "agrees a (ms_file st1)" using mono_steps_keep [OF st1(2)] assms f0 by simp
  obtain st2 where st2: "resolve_same_speaker_stream_overlaps a st1 = Ok st2" "mono_steps a st1 st2"
    "starts_ordered (ms_file st1) \<longrightarrow> starts_ordered (ms_file st2)"
    using resolve_pairs_steps [OF ag1, of "stream_pairs (bulleted (ms_file st1))"] stream_pairs_in [OF bulleted_entries]
    unfolding resolve_same_speaker_stream_overlaps_def by blast
  have ag2: "agrees a (ms_file st2)" using mono_steps_keep [OF st2(2) ag1] by simp
  have "pair_in (ms_file st2) pair" if "pair \<in> set (adjacent_pairs policy (bulleted (ms_file st2)))" for pair
    by (rule adjacent_pairs_in [OF bulleted_entries that])
  then obtain st3 where st3: "resolve_pairs a (adjacent_pairs policy (bulleted (ms_file st2))) st2 = Ok st3" "mono_steps a st2 st3"
    "starts_ordered (ms_file st2) \<longrightarrow> starts_ordered (ms_file st3)"
    using resolve_pairs_steps [OF ag2, of "adjacent_pairs policy (bulleted (ms_file st2))"] by blast
  have "mono_steps a (mono_start f) st3" using st1(2) st2(2) st3(2) by (meson rtranclp_trans)
  then show thesis using that st1(1,3) st2(1,3) st3(1,3) by (simp add: enforce_monotonicity_under_def)
qed

text \<open>Every bullet revisable: after both passes a pair the policy clamps never overlaps.\<close>

lemma revisable_derive [simp]: "revisable_at AuthorityDerive i"
  by (simp add: revisable_at_def authority_slot_def)

lemma bulleted_at:
  assumes "agrees a f" and "x \<in> set (bulleted f)"
  obtains u b where "utterance_at f (fst x) = Some u" "ut_speaker u = snd (snd x)" "live f (fst x) = Some b"
proof -
  have "(fst x, fst (snd x), snd (snd x)) \<in> set (bulleted f)" using assms(2) by simp
  with that show thesis unfolding bulleted_live [OF assms(1)] by (auto simp: live_def)
qed

definition speakers_settled :: "(string \<Rightarrow> string \<Rightarrow> bool) \<Rightarrow> chat_file \<Rightarrow> bool" where
  "speakers_settled R f \<longleftrightarrow> (\<forall>i j u v. i < j \<longrightarrow> utterance_at f i = Some u \<longrightarrow> utterance_at f j = Some v \<longrightarrow>
     R (ut_speaker u) (ut_speaker v) \<longrightarrow> pair_settled f i j)"

lemma derive_streams:
  assumes ag: "agrees AuthorityDerive (ms_file st)" and ord: "starts_ordered (ms_file st)"
  obtains st' where "resolve_same_speaker_stream_overlaps AuthorityDerive st = Ok st'" "mono_steps AuthorityDerive st st'"
    "starts_ordered (ms_file st')" "speakers_settled (=) (ms_file st')"
proof -
  let ?a = AuthorityDerive
  let ?xs = "bulleted (ms_file st)"
  let ?sps = "first_appearance (map (\<lambda>(l, k, s). s) ?xs)"
  have live1: "live (ms_file st) (fst x) \<noteq> None \<and> revisable_at ?a (ordinal (ms_file st) (fst x))" if "x \<in> set ?xs" for x
    using bulleted_at [OF ag that] by auto
  have "snd (snd x) \<in> set ?sps" if "x \<in> set ?xs" for x using that by (force simp: case_prod_beta)
  then obtain st2 where st2: "resolve_same_speaker_stream_overlaps ?a st = Ok st2" "mono_steps ?a st st2" "starts_ordered (ms_file st2)"
    "\<And>x y. x \<in> set ?xs \<Longrightarrow> y \<in> set ?xs \<Longrightarrow> snd (snd y) = snd (snd x) \<Longrightarrow> fst x < fst y \<Longrightarrow>
      pair_settled (ms_file st2) (fst x) (fst y)"
    using resolve_streams_settled [OF ag ord bulleted_entries first_appearance_distinct, of "map (\<lambda>(l, k, s). s) ?xs"] live1
    unfolding resolve_same_speaker_stream_overlaps_def stream_pairs_def by blast
  have k2: "agrees ?a (ms_file st2)" "same_shape (ms_file st) (ms_file st2)" using mono_steps_keep [OF st2(2) ag] by auto
  have sub: "(l, ordinal (ms_file st) l, ut_speaker u) \<in> set ?xs"
    if u: "utterance_at (ms_file st2) l = Some u" "parsed_bullet u = Some b" for l u b
  proof -
    obtain c where "live (ms_file st) l = Some c" using mono_steps_starts [OF st2(2), of l b] u by (auto simp: live_def)
    then show ?thesis using same_shape_at [OF k2(2), of l] u(1) bulleted_live [OF ag] by (auto simp: live_utterance)
  qed
  have "speakers_settled (=) (ms_file st2)"
    unfolding speakers_settled_def
  proof (intro allI impI)
    fix i j u v
    assume ij: "i < j" "utterance_at (ms_file st2) i = Some u" "utterance_at (ms_file st2) j = Some v" "ut_speaker u = ut_speaker v"
    show "pair_settled (ms_file st2) i j"
    proof (cases "parsed_bullet u = None \<or> parsed_bullet v = None")
      case False
      then show ?thesis using st2(4) [OF sub [OF ij(2)] sub [OF ij(3)]] ij(1,4) by auto
    qed (use ij in \<open>auto simp: pair_settled_def live_def\<close>)
  qed
  with that st2 show thesis by blast
qed

lemma derive_adjacent_all:
  assumes ag: "agrees AuthorityDerive (ms_file st)" and ord: "starts_ordered (ms_file st)"
  obtains st' where "resolve_pairs AuthorityDerive (adjacent_pairs ClampAllAdjacent (bulleted (ms_file st))) st = Ok st'"
    "mono_steps AuthorityDerive st st'" "starts_ordered (ms_file st')" "speakers_settled (\<lambda>_ _. True) (ms_file st')"
proof -
  let ?a = AuthorityDerive
  let ?xs = "bulleted (ms_file st)"
  have all: "adjacent_pairs ClampAllAdjacent ?xs = map pair_of (windows ?xs)"
    by (simp add: adjacent_pairs_def should_clamp_def case_prod_beta)
  have "live (ms_file st) l \<noteq> None \<and> revisable_at ?a (ordinal (ms_file st) l)" if "l \<in> fst ` set ?xs" for l
  proof -
    from that obtain x where x: "x \<in> set ?xs" "l = fst x" by blast
    show ?thesis by (rule bulleted_at [OF ag x(1)]) (simp add: x(2))
  qed
  from resolve_windows_settled [OF ag ord bulleted_entries this] obtain st' where
    st': "resolve_pairs ?a (adjacent_pairs ClampAllAdjacent ?xs) st = Ok st'" "mono_steps ?a st st'" "starts_ordered (ms_file st')"
      "\<And>l m. l \<in> fst ` set ?xs \<Longrightarrow> m \<in> fst ` set ?xs \<Longrightarrow> l < m \<Longrightarrow> pair_settled (ms_file st') l m"
    unfolding all by blast
  have mem: "i \<in> fst ` set ?xs" if "live (ms_file st') i = Some b" for i b
  proof -
    from mono_steps_starts [OF st'(2) that] obtain c where "live (ms_file st) i = Some c" by blast
    then obtain speaker where "(i, ordinal (ms_file st) i, speaker) \<in> set ?xs"
      using bulleted_live [OF ag] by (auto simp: live_utterance)
    then show ?thesis by force
  qed
  have "pair_settled (ms_file st') i j" if "i < j" for i j
    using st'(4) [OF mem mem that] by (auto simp: pair_settled_def)
  with that st' show thesis by (auto simp: speakers_settled_def)
qed

lemma derive_adjacent_same:
  assumes ag: "agrees AuthorityDerive (ms_file st)" and "speakers_settled (=) (ms_file st)"
  shows "resolve_pairs AuthorityDerive (adjacent_pairs PreserveCrossSpeaker (bulleted (ms_file st))) st = Ok st"
proof -
  have "pair_in (ms_file st) pair \<and> pair_settled (ms_file st) (pr_prev_line_idx pair) (pr_next_line_idx pair)"
    if "pair \<in> set (adjacent_pairs PreserveCrossSpeaker (bulleted (ms_file st)))" for pair
  proof (rule adjacent_pairs_in [OF bulleted_entries that])
    fix x y
    assume xy: "pair = pair_of (x, y)" "x \<in> set (bulleted (ms_file st))" "y \<in> set (bulleted (ms_file st))" "fst x < fst y"
      "pair_in (ms_file st) pair" "should_clamp PreserveCrossSpeaker (snd (snd x)) (snd (snd y))"
    obtain u where u: "utterance_at (ms_file st) (fst x) = Some u" "ut_speaker u = snd (snd x)"
      by (rule bulleted_at [OF ag xy(2)])
    obtain v where v: "utterance_at (ms_file st) (fst y) = Some v" "ut_speaker v = snd (snd y)"
      by (rule bulleted_at [OF ag xy(3)])
    have "ut_speaker u = ut_speaker v" using xy(6) u(2) v(2) by (simp add: should_clamp_def)
    with assms(2) xy(1,4,5) u(1) v(1) show ?thesis
      unfolding speakers_settled_def xy(1) pair_of_simps by blast
  qed
  then show ?thesis using resolve_settled_pairs [OF ag] by blast
qed

lemma derive_settles:
  assumes "agrees AuthorityDerive f"
  obtains st where "enforce_monotonicity_under policy AuthorityDerive f = Ok st"
    "mono_steps AuthorityDerive (mono_start f) st" "starts_ordered (ms_file st)"
    "speakers_settled (should_clamp policy) (ms_file st)"
proof -
  let ?a = AuthorityDerive
  have f0: "ms_file (mono_start f) = f" by (simp add: mono_start_def)
  have ko: "kept_ordered ?a f" by (simp add: kept_ordered_def)
  obtain st1 where st1: "enforce_start_order ?a (mono_start f) = Ok st1" "mono_steps ?a (mono_start f) st1" "starts_ordered (ms_file st1)"
    using enforce_start_order_ok [of ?a "mono_start f"] assms f0 ko by metis
  have ag1: "agrees ?a (ms_file st1)" using mono_steps_keep [OF st1(2)] assms f0 by simp
  obtain st2 where st2: "resolve_same_speaker_stream_overlaps ?a st1 = Ok st2" "mono_steps ?a st1 st2"
    "starts_ordered (ms_file st2)" "speakers_settled (=) (ms_file st2)"
    by (rule derive_streams [OF ag1 st1(3)])
  have ag2: "agrees ?a (ms_file st2)" using mono_steps_keep [OF st2(2) ag1] by simp
  have s2: "mono_steps ?a (mono_start f) st2" using st1(2) st2(2) by (rule rtranclp_trans)
  note run = enforce_monotonicity_under_def st1(1) st2(1)
  show thesis
  proof (cases policy)
    case PreserveCrossSpeaker
    then have "enforce_monotonicity_under policy ?a f = Ok st2" using derive_adjacent_same [OF ag2 st2(4)] by (simp add: run)
    then show thesis using that [of st2] s2 st2(3,4) PreserveCrossSpeaker
      by (simp add: should_clamp_def speakers_settled_def)
  next
    case ClampAllAdjacent
    obtain st3 where st3: "resolve_pairs ?a (adjacent_pairs ClampAllAdjacent (bulleted (ms_file st2))) st2 = Ok st3"
      "mono_steps ?a st2 st3" "starts_ordered (ms_file st3)" "speakers_settled (\<lambda>_ _. True) (ms_file st3)"
      by (rule derive_adjacent_all [OF ag2 st2(3)])
    have "mono_steps ?a (mono_start f) st3" using s2 st3(2) by (rule rtranclp_trans)
    then show thesis using that [of st3] st3 ClampAllAdjacent by (simp add: run should_clamp_def speakers_settled_def)
  qed
qed


subsection \<open>What the enforcement leaves\<close>

lemma named_grown: "grown st st' \<Longrightarrow> named st i \<Longrightarrow> named st' i"
  by (auto simp: grown_def named_def)

lemma rewritten_grown: "grown st st' \<Longrightarrow> rewritten st i k \<Longrightarrow> rewritten st' i k"
  by (auto simp: grown_def rewritten_def)

lemma mono_steps_logged:
  assumes "mono_steps a st st'" and "utterance_at (ms_file st) i = Some u" and "utterance_at (ms_file st') i = Some u'"
  shows "(u' \<noteq> u \<longrightarrow> named st' i) \<and> (same_words u u' \<or> rewritten st' i (ordinal (ms_file st) i))"
  using assms(1,3)
proof (induction arbitrary: u' rule: rtranclp_induct)
  case base
  then show ?case using assms(2) by (simp add: same_words_def)
next
  case (step st' st'')
  from step.hyps(2) show ?case
  proof (cases rule: mono_step.cases)
    case noted
    with step.prems have "utterance_at (ms_file st') i = Some u'" by simp
    from step.IH [OF this] noted show ?thesis using named_grown rewritten_grown by blast
  next
    case (wrote j v v')
    have ord: "ordinal (ms_file st') i = ordinal (ms_file st) i"
      using step.hyps(1)
    proof (induction rule: rtranclp_induct)
      case (step x y)
      from step.hyps(2) show ?case using step.IH by (cases rule: mono_step.cases) simp_all
    qed simp
    show ?thesis
    proof (cases "j = i")
      case True
      with wrote step.IH [of v] step.prems ord have "u' = v'" "same_words u v \<or> rewritten st' i (ordinal (ms_file st) i)" by auto
      then show ?thesis using wrote True ord rewritten_grown [of st' st''] by (auto simp: same_words_def)
    next
      case False
      with wrote step.prems have "utterance_at (ms_file st') i = Some u'" by simp
      from step.IH [OF this] wrote show ?thesis using named_grown rewritten_grown by blast
    qed
  qed
qed

lemma mono_steps_narrow:
  assumes "mono_steps a st st'" and "utterance_at (ms_file st) i = Some u" and "valid_utterance u"
  shows "\<exists>u'. utterance_at (ms_file st') i = Some u' \<and> valid_utterance u' \<and>
    (\<forall>b'. parsed_bullet u' = Some b' \<longrightarrow> (\<exists>b. parsed_bullet u = Some b \<and>
       ts_start_ms b \<le> ts_start_ms b' \<and> ts_end_ms b' \<le> ts_end_ms b))"
  using assms(1)
proof (induction rule: rtranclp_induct)
  case base
  then show ?case using assms(2,3) by auto
next
  case (step st' st'')
  then obtain v where v: "utterance_at (ms_file st') i = Some v" "valid_utterance v"
    "\<And>b'. parsed_bullet v = Some b' \<Longrightarrow> \<exists>b. parsed_bullet u = Some b \<and> ts_start_ms b \<le> ts_start_ms b' \<and> ts_end_ms b' \<le> ts_end_ms b"
    by blast
  from step.hyps(2) show ?case
  proof (cases rule: mono_step.cases)
    case noted
    then show ?thesis using v by auto
  next
    case (wrote j w w')
    show ?thesis
    proof (cases "j = i")
      case True
      with wrote v have w: "w = v" "utterance_at (ms_file st'') i = Some w'" "narrowed v w'" by auto
      have "\<exists>b. parsed_bullet u = Some b \<and> ts_start_ms b \<le> ts_start_ms b' \<and> ts_end_ms b' \<le> ts_end_ms b"
        if b': "parsed_bullet w' = Some b'" for b'
      proof -
        obtain c where c: "parsed_bullet v = Some c" "ts_start_ms c \<le> ts_start_ms b'" "ts_end_ms b' \<le> ts_end_ms c"
          using w(3) b' v(2) by (auto simp: narrowed_def)
        from v(3) [OF c(1)] c(2,3) show ?thesis using order_trans by blast
      qed
      moreover have "valid_utterance w'" using w(3) v(2) by (simp add: narrowed_def)
      ultimately show ?thesis using w(2) by blast
    next
      case False
      then show ?thesis using v wrote by auto
    qed
  qed
qed

interpretation monotonicity: kept_phase "\<lambda>a f. map_sum id (\<lambda>st. (ms_file st, st)) (enforce_monotonicity_under policy a f)" for policy
proof
  fix a f
  assume ag: "agrees a f"
  obtain st where st: "enforce_monotonicity_under policy a f = Ok st" "mono_steps a (mono_start f) st"
    by (rule enforce_monotonicity_ok [OF ag])
  from mono_steps_keep [OF st(2)] ag have "revises a f (ms_file st)" by (simp add: mono_start_def)
  with st(1) show "\<exists>f' r. map_sum id (\<lambda>st. (ms_file st, st)) (enforce_monotonicity_under policy a f) = Ok (f', r) \<and> revises a f f'"
    by auto
qed


subsection \<open>Properties\<close>

definition bullets_parsed :: "chat_file \<Rightarrow> bool" where
  "bullets_parsed f \<longleftrightarrow> list_all (\<lambda>(l, k, u). case ut_bullet u of Some (Unparsed _) \<Rightarrow> False | _ \<Rightarrow> True) (utterances_indexed f)"

lemma bullets_parsed_iff: "bullets_parsed f \<longleftrightarrow> (\<forall>i u source. utterance_at f i = Some u \<longrightarrow> ut_bullet u \<noteq> Some (Unparsed source))"
proof
  assume l: "bullets_parsed f"
  show "\<forall>i u source. utterance_at f i = Some u \<longrightarrow> ut_bullet u \<noteq> Some (Unparsed source)"
  proof (intro allI impI)
    fix i u source
    assume "utterance_at f i = Some u"
    then have "(i, ordinal f i, u) \<in> set (utterances_indexed f)" by (simp add: utterances_indexed_iff)
    with l show "ut_bullet u \<noteq> Some (Unparsed source)" by (auto simp: bullets_parsed_def list_all_iff)
  qed
next
  assume "\<forall>i u source. utterance_at f i = Some u \<longrightarrow> ut_bullet u \<noteq> Some (Unparsed source)"
  then show "bullets_parsed f"
    by (fastforce simp: bullets_parsed_def list_all_iff utterances_indexed_iff split: option.split bullet_state.split)
qed

lemma agrees_derive: "bullets_parsed f \<Longrightarrow> agrees AuthorityDerive f"
  by (auto simp: bullets_parsed_iff agrees_def authority_slot_def slot_agrees_def)

lemma agrees_check:
  "list_all (\<lambda>(l, k, u). case authority_slot a k of Inl _ \<Rightarrow> False | Inr slot \<Rightarrow> slot_agrees slot (ut_bullet u)) (utterances_indexed f) \<Longrightarrow>
   agrees a f"
  unfolding agrees_def
proof (intro allI impI)
  fix i u
  assume l: "list_all (\<lambda>(l, k, u). case authority_slot a k of Inl _ \<Rightarrow> False | Inr slot \<Rightarrow> slot_agrees slot (ut_bullet u)) (utterances_indexed f)"
    and "utterance_at f i = Some u"
  then have "(i, ordinal f i, u) \<in> set (utterances_indexed f)" by (simp add: utterances_indexed_iff)
  with l show "\<exists>slot. authority_slot a (ordinal f i) = Ok slot \<and> slot_agrees slot (ut_bullet u)"
    by (cases "authority_slot a (ordinal f i)") (auto simp: list_all_iff)
qed

definition said :: "string \<Rightarrow> u64 \<Rightarrow> u64 \<Rightarrow> time_span list \<Rightarrow> chat_line" where
  "said speaker s e words =
     Utterance \<lparr>ut_speaker = speaker, ut_bullet = Some (Parsed \<lparr>ts_start_ms = s, ts_end_ms = e\<rparr>),
       ut_words = map (\<lambda>w. \<lparr>mw_timing = Some w, mw_strippable = True\<rparr>) words, ut_wor = None,
       ut_overlap_precedes = False, ut_postcodes = []\<rparr>"

definition overlapping_talk :: chat_file where
  "overlapping_talk =
     [said ''CHI'' 0 900 [\<lparr>ts_start_ms = 100, ts_end_ms = 800\<rparr>], OtherLine, said ''MOT'' 300 700 [],
      said ''CHI'' 500 1000 [\<lparr>ts_start_ms = 600, ts_end_ms = 900\<rparr>], said ''MOT'' 200 400 []]"

text \<open>
  C16. Bullets end in order. When every bullet is readable and none is kept, enforcing monotonicity
  succeeds and leaves the starts in file order; of two timed utterances whose overlap the policy clamps
  (any two under \<^verbatim>\<open>ClampAllAdjacent\<close>, two of one speaker under \<^verbatim>\<open>PreserveCrossSpeaker\<close>, however far
  apart in the file) the earlier ends no later than the other starts.
\<close>

theorem monotonicity_orders_bullets:
  assumes "bullets_parsed f"
  shows "\<exists>st. enforce_monotonicity_under policy AuthorityDerive f = Ok st \<and>
    (\<forall>i j u v b c. i < j \<longrightarrow> utterance_at (ms_file st) i = Some u \<longrightarrow> parsed_bullet u = Some b \<longrightarrow>
       utterance_at (ms_file st) j = Some v \<longrightarrow> parsed_bullet v = Some c \<longrightarrow>
       ts_start_ms b \<le> ts_start_ms c \<and>
       (should_clamp policy (ut_speaker u) (ut_speaker v) \<longrightarrow> ts_end_ms b \<le> ts_start_ms c))"
proof -
  obtain st where st: "enforce_monotonicity_under policy AuthorityDerive f = Ok st" "starts_ordered (ms_file st)"
    "speakers_settled (should_clamp policy) (ms_file st)" by (rule derive_settles [OF agrees_derive [OF assms]])
  then show ?thesis
    by (auto simp: starts_ordered_def speakers_settled_def pair_settled_def live_def)
qed

theorem monotonicity_orders_bullets_witness:
  "bullets_parsed overlapping_talk \<and>
   (\<exists>st. enforce_monotonicity_under PreserveCrossSpeaker AuthorityDerive overlapping_talk = Ok st \<and>
    (\<forall>i j u v b c. i < j \<longrightarrow> utterance_at (ms_file st) i = Some u \<longrightarrow> parsed_bullet u = Some b \<longrightarrow>
       utterance_at (ms_file st) j = Some v \<longrightarrow> parsed_bullet v = Some c \<longrightarrow>
       ts_start_ms b \<le> ts_start_ms c \<and>
       (should_clamp PreserveCrossSpeaker (ut_speaker u) (ut_speaker v) \<longrightarrow> ts_end_ms b \<le> ts_start_ms c)))"
proof -
  have "bullets_parsed overlapping_talk"
    by (simp add: bullets_parsed_def overlapping_talk_def said_def utterances_indexed_def)
  from this monotonicity_orders_bullets [OF this, of PreserveCrossSpeaker] show ?thesis by blast
qed

text \<open>
  C18. Enforcement only narrows, also among kept bullets. On a file that agrees with the given bullets
  it succeeds, keeps every line's speaker, overlap mark and postcodes, and changes no kept bullet; a
  valid utterance (its bullet has extent and holds its timed words) stays valid and its bullet, where
  it is left, lies inside the one it had. The starts end in file order when the kept ones were.
\<close>

theorem monotonicity_only_narrows:
  assumes "agrees a f"
  shows "\<exists>st. enforce_monotonicity_under policy a f = Ok st \<and> agrees a (ms_file st) \<and> same_shape f (ms_file st) \<and>
    (kept_ordered a f \<longrightarrow> starts_ordered (ms_file st)) \<and>
    (\<forall>i u. utterance_at f i = Some u \<longrightarrow> valid_utterance u \<longrightarrow>
       (\<exists>u'. utterance_at (ms_file st) i = Some u' \<and> valid_utterance u' \<and>
          (\<forall>b'. parsed_bullet u' = Some b' \<longrightarrow> (\<exists>b. parsed_bullet u = Some b \<and>
             ts_start_ms b \<le> ts_start_ms b' \<and> ts_end_ms b' \<le> ts_end_ms b))))"
proof -
  obtain st where st: "enforce_monotonicity_under policy a f = Ok st" "mono_steps a (mono_start f) st"
    "kept_ordered a f \<Longrightarrow> starts_ordered (ms_file st)" using enforce_monotonicity_ok [OF assms, of policy] by metis
  have f0: "ms_file (mono_start f) = f" by (simp add: mono_start_def)
  with mono_steps_keep [OF st(2)] mono_steps_narrow [OF st(2)] st(1,3) assms show ?thesis by auto
qed

theorem monotonicity_only_narrows_witness:
  "\<exists>st. enforce_monotonicity_under ClampAllAdjacent
      (AuthorityKeep \<lparr>by_utterance = [GivenKept (KeptExtent 0 900), Unbulleted, Unbulleted, Unbulleted], absence = AbsenceDerive\<rparr>)
      overlapping_talk = Ok st \<and>
    agrees (AuthorityKeep \<lparr>by_utterance = [GivenKept (KeptExtent 0 900), Unbulleted, Unbulleted, Unbulleted], absence = AbsenceDerive\<rparr>)
      (ms_file st)"
proof -
  have "agrees (AuthorityKeep \<lparr>by_utterance = [GivenKept (KeptExtent 0 900), Unbulleted, Unbulleted, Unbulleted], absence = AbsenceDerive\<rparr>)
      overlapping_talk"
    by (rule agrees_check)
      (simp add: overlapping_talk_def said_def utterances_indexed_def authority_slot_def given_slot_of_def slot_agrees_def
        kept_to_bullet_def)
  from monotonicity_only_narrows [OF this, of ClampAllAdjacent] show ?thesis by blast
qed

text \<open>
  C26. Effects are complete. Every line the enforcement changes is named by one of its effects; where
  the timing of a word of the main tier or of \<^verbatim>\<open>%wor\<close> changed, an effect names the utterance for a new
  \<^verbatim>\<open>%wor\<close> tier or a decision records the strip that removes the tier.
\<close>

theorem monotonicity_effects_complete:
  assumes "agrees a f"
  shows "\<exists>st. enforce_monotonicity_under policy a f = Ok st \<and>
    (\<forall>i u u'. utterance_at f i = Some u \<longrightarrow> utterance_at (ms_file st) i = Some u' \<longrightarrow>
       (u' \<noteq> u \<longrightarrow> (\<exists>e \<in> set (ms_effects st). i \<in> effect_lines e)) \<and>
       ((ut_words u' = ut_words u \<and> ut_wor u' = ut_wor u) \<or>
        (\<exists>e \<in> set (ms_effects st). word_mutated_utterance e = Some (ordinal f i)) \<or>
        (\<exists>d \<in> set (ms_decisions st). dr_line_idx d = i \<and> dr_strategy d = StrategyMonotonicity TimingStripped)))"
proof -
  obtain st where st: "enforce_monotonicity_under policy a f = Ok st" "mono_steps a (mono_start f) st"
    by (rule enforce_monotonicity_ok [OF assms])
  have f0: "ms_file (mono_start f) = f" by (simp add: mono_start_def)
  from mono_steps_logged [OF st(2)] f0 st(1) show ?thesis
    unfolding named_def rewritten_def same_words_def by auto
qed

theorem monotonicity_effects_complete_witness:
  "\<exists>st. enforce_monotonicity_under ClampAllAdjacent AuthorityDerive overlapping_talk = Ok st \<and>
    (\<forall>u'. utterance_at (ms_file st) 4 = Some u' \<longrightarrow>
       utterance_at overlapping_talk 4 \<noteq> Some u' \<longrightarrow> (\<exists>e \<in> set (ms_effects st). 4 \<in> effect_lines e))"
proof -
  have "bullets_parsed overlapping_talk"
    by (simp add: bullets_parsed_def overlapping_talk_def said_def utterances_indexed_def)
  moreover have "\<exists>u. utterance_at overlapping_talk 4 = Some u"
    by (simp add: overlapping_talk_def said_def utterance_at_def)
  ultimately show ?thesis
    using monotonicity_effects_complete [OF agrees_derive, of overlapping_talk ClampAllAdjacent] by fastforce
qed


text \<open>
  Among kept bullets the guarantee of the default policy does not carry over. Of three utterances of
  one speaker where the first is kept and long, the second lies inside it and is stripped, so the
  pair of the second and the third is skipped and the first still overlaps the third: both are of one
  speaker, the third is revisable, and no decision names either line.
\<close>

definition kept_first :: main_bullet_authority where
  "kept_first = AuthorityKeep \<lparr>by_utterance = [GivenKept (KeptExtent 0 10), Unbulleted, Unbulleted, Unbulleted], absence = AbsenceDerive\<rparr>"

definition kept_talk :: chat_file where
  "kept_talk = [said ''CHI'' 0 10 [], said ''CHI'' 5 9 [], said ''MOT'' 6 7 [], said ''CHI'' 6 20 []]"

lemma kept_overlap_survives:
  "map_sum id (\<lambda>st. (map (live (ms_file st)) [0..<4], map dr_line_idx (ms_decisions st)))
     (enforce_monotonicity_under PreserveCrossSpeaker kept_first kept_talk) =
   Ok ([Some \<lparr>ts_start_ms = 0, ts_end_ms = 10\<rparr>, None, Some \<lparr>ts_start_ms = 6, ts_end_ms = 7\<rparr>,
        Some \<lparr>ts_start_ms = 6, ts_end_ms = 20\<rparr>], [1])"
  by code_simp

end
