(* ===== verification/Fa_Repair.thy ===== *)
theory Fa_Repair
  imports Fa_Order
begin

text \<open>
  Bullet repair before the order is enforced (\<^verbatim>\<open>crates/batchalign/src/chat_ops/fa/repair.rs\<close>): small gaps
  of one speaker are filled, small overlaps averaged, and per speaker what lies outside a longest
  non-decreasing run of starts is stripped. Then the composition of the last phases
  (\<^verbatim>\<open>FaApplied::then_finalize\<close> of \<^verbatim>\<open>orchestrate.rs\<close>): impose, repair, enforce monotonicity, write \<^verbatim>\<open>%wor\<close>,
  restore and verify. The order in which the hash map of speakers is visited and the generation of
  a \<^verbatim>\<open>%wor\<close> tier by the external CHAT model are parameters.
\<close>

subsection \<open>Entries and gap filling\<close>

definition BOUNDARY_AVERAGING_THRESHOLD_MS :: u64 where "BOUNDARY_AVERAGING_THRESHOLD_MS = 500"

definition GAP_FILL_MAX_MS :: u64 where "GAP_FILL_MAX_MS = 1000"

datatype bullet_repair_policy = RepairDisabled | RepairEnabled

definition repair_policy_of :: "bool \<Rightarrow> bullet_repair_policy" where
  "repair_policy_of enabled = (if enabled then RepairEnabled else RepairDisabled)"

record repair_stats =
  rs_boundary_averaged :: nat
  rs_gaps_filled :: nat
  rs_timing_stripped :: nat
  rs_total_bulleted :: nat

record repair_decision =
  rd_line_idx :: nat
  rd_speaker :: string
  rd_strategy :: fa_strategy
  rd_words_dropped :: "dropped_word list"
  rd_needs_review :: bool

record bullet_entry =
  be_line_idx :: nat
  be_speaker :: string
  be_start_ms :: u64
  be_end_ms :: u64
  be_mutability :: bullet_mutability

fun collect_entries_from ::
    "main_bullet_authority \<Rightarrow> (nat \<times> nat \<times> utterance) list \<Rightarrow> (kept_bullet_error, bullet_entry list) result" where
  "collect_entries_from a [] = Ok []"
| "collect_entries_from a ((l, k, u) # us) =
     (case parsed_bullet u of
        None \<Rightarrow> collect_entries_from a us
      | Some b \<Rightarrow>
          (case mutability a k b of
             Inl e \<Rightarrow> Err e
           | Inr m \<Rightarrow>
               map_sum id ((#) \<lparr>be_line_idx = l, be_speaker = ut_speaker u, be_start_ms = ts_start_ms b,
                   be_end_ms = ts_end_ms b, be_mutability = m\<rparr>) (collect_entries_from a us)))"

definition collect_bullet_entries ::
    "main_bullet_authority \<Rightarrow> chat_file \<Rightarrow> (kept_bullet_error, bullet_entry list) result" where
  "collect_bullet_entries a f = collect_entries_from a (utterances_indexed f)"

fun gap_fills_from :: "(string \<Rightarrow> u64 option) \<Rightarrow> bullet_entry list \<Rightarrow> (nat \<times> u64) list" where
  "gap_fills_from last_end [] = []"
| "gap_fills_from last_end (e # es) =
     (case be_mutability e of
        ReadOnly _ \<Rightarrow> []
      | Revisable \<Rightarrow>
          (case last_end (be_speaker e) of
             Some prev_end \<Rightarrow>
               (if be_start_ms e > prev_end \<and> be_start_ms e - prev_end \<le> GAP_FILL_MAX_MS
                then [(be_line_idx e, prev_end)] else [])
           | None \<Rightarrow> [])) @
     gap_fills_from (last_end(be_speaker e \<mapsto> be_end_ms e)) es"

definition find_gap_fills :: "bullet_entry list \<Rightarrow> (nat \<times> u64) list" where
  "find_gap_fills entries = gap_fills_from (\<lambda>_. None) entries"

definition apply_gap_fill :: "nat \<times> u64 \<Rightarrow> chat_file \<Rightarrow> chat_file" where
  "apply_gap_fill fill f =
     (case utterance_at f (fst fill) of
        Some u \<Rightarrow> put_utterance (fst fill) (set_bullet_start (snd fill) u) f
      | None \<Rightarrow> f)"

definition entry_at :: "bullet_entry list \<Rightarrow> nat \<Rightarrow> bullet_entry option" where
  "entry_at entries line_idx = List.find (\<lambda>e. be_line_idx e = line_idx) entries"

definition entry_decision :: "bullet_entry list \<Rightarrow> fa_strategy \<Rightarrow> nat \<Rightarrow> repair_decision list" where
  "entry_decision entries strategy line_idx =
     (case entry_at entries line_idx of
        Some e \<Rightarrow> [\<lparr>rd_line_idx = line_idx, rd_speaker = be_speaker e, rd_strategy = strategy,
            rd_words_dropped = [], rd_needs_review = True\<rparr>]
      | None \<Rightarrow> [])"

subsection \<open>Boundary averaging\<close>

definition boundary_edges :: "end_overlap_resolution \<Rightarrow> u64 \<Rightarrow> u64 \<Rightarrow> u64 \<times> u64" where
  "boundary_edges resolution later_start overlap =
     (case resolution of
        InterleavedWords \<Rightarrow> (later_start, later_start)
      | BoundaryFromWords prev_hull_end next_hull_start \<Rightarrow> (prev_hull_end, next_hull_start)
      | CoverageOnly (Some hull_end) \<Rightarrow> (hull_end, later_start)
      | CoverageOnly None \<Rightarrow> (let midpoint = later_start + overlap div 2 in (midpoint, midpoint)))"

definition boundary_decision :: "bullet_entry \<Rightarrow> dropped_word list \<Rightarrow> end_overlap_resolution \<Rightarrow> repair_decision" where
  "boundary_decision later words_dropped resolution =
     \<lparr>rd_line_idx = be_line_idx later, rd_speaker = be_speaker later, rd_strategy = BoundaryAveraged,
      rd_words_dropped = words_dropped, rd_needs_review = (resolution = InterleavedWords)\<rparr>"

definition apply_boundary_average ::
    "bullet_entry \<Rightarrow> bullet_entry \<Rightarrow> end_overlap_resolution \<Rightarrow> u64 \<times> u64 \<Rightarrow> utterance \<Rightarrow> utterance \<Rightarrow> chat_file \<Rightarrow>
      chat_file \<times> repair_decision" where
  "apply_boundary_average earlier later resolution edges earlier_u later_u f =
     (let (earlier_new_end, later_new_start) = edges;
          u = set_bullet_end earlier_new_end earlier_u;
          f = put_utterance (be_line_idx earlier) u f
      in if resolution = InterleavedWords
         then (case clamp_words_past_bound earlier_new_end u of
                 (u', c) \<Rightarrow>
                   (put_utterance (be_line_idx earlier) u' f, boundary_decision later (cw_dropped c) resolution))
         else (put_utterance (be_line_idx later) (set_bullet_start later_new_start later_u) f,
               boundary_decision later [] resolution))"

definition resolve_boundary_average_pair ::
    "bullet_entry \<Rightarrow> bullet_entry \<Rightarrow> chat_file \<Rightarrow> chat_file \<times> repair_decision option" where
  "resolve_boundary_average_pair earlier later f =
     (case (be_mutability earlier, be_mutability later) of
        (Revisable, Revisable) \<Rightarrow>
          (case (utterance_at f (be_line_idx earlier), utterance_at f (be_line_idx later)) of
             (Some earlier_u, Some later_u) \<Rightarrow>
               (case (parsed_bullet earlier_u, parsed_bullet later_u) of
                  (Some earlier_b, Some later_b) \<Rightarrow>
                    (if ts_start_ms later_b \<ge> ts_end_ms earlier_b then (f, None)
                     else let overlap = ts_end_ms earlier_b - ts_start_ms later_b
                     in if overlap > BOUNDARY_AVERAGING_THRESHOLD_MS then (f, None)
                     else let resolution = classify_end_overlap (furthest_word_timing_end earlier_u) (ts_start_ms later_b)
                                (earliest_word_timing_start later_u) (file_order_successor_start_ms f (be_line_idx later));
                              edges = boundary_edges resolution (ts_start_ms later_b) overlap
                          in case apply_boundary_average earlier later resolution edges earlier_u later_u f of
                               (f', d) \<Rightarrow> (f', Some d))
                | _ \<Rightarrow> (f, None))
           | _ \<Rightarrow> (f, None))
      | _ \<Rightarrow> (f, None))"

fun average_pairs ::
    "(bullet_entry \<times> bullet_entry) list \<Rightarrow> chat_file \<Rightarrow> repair_decision list \<Rightarrow> chat_file \<times> repair_decision list" where
  "average_pairs [] f decisions = (f, decisions)"
| "average_pairs ((e, l) # ps) f decisions =
     (case resolve_boundary_average_pair e l f of
        (f', Some d) \<Rightarrow> average_pairs ps f' (decisions @ [d])
      | (f', None) \<Rightarrow> average_pairs ps f' decisions)"

definition speaker_streams :: "bullet_entry list \<Rightarrow> bullet_entry list list" where
  "speaker_streams entries =
     map (\<lambda>speaker. filter (\<lambda>e. be_speaker e = speaker) entries) (first_appearance (map be_speaker entries))"

definition resolve_boundary_averages_same_speaker_stream ::
    "main_bullet_authority \<Rightarrow> chat_file \<Rightarrow> (kept_bullet_error, chat_file \<times> repair_decision list) result" where
  "resolve_boundary_averages_same_speaker_stream a f =
     map_sum id (\<lambda>entries. average_pairs (concat (map windows (speaker_streams entries))) f []) (collect_bullet_entries a f)"

definition resolve_boundary_averages ::
    "end_overlap_policy \<Rightarrow> main_bullet_authority \<Rightarrow> chat_file \<Rightarrow>
      (kept_bullet_error, chat_file \<times> repair_decision list) result" where
  "resolve_boundary_averages policy a f =
     (case resolve_boundary_averages_same_speaker_stream a f of
        Inl e \<Rightarrow> Err e
      | Inr (f, decisions) \<Rightarrow>
          (case collect_bullet_entries a f of
             Inl e \<Rightarrow> Err e
           | Inr identity \<Rightarrow>
               Ok (average_pairs (filter (\<lambda>(e, l). should_clamp policy (be_speaker e) (be_speaker l)) (windows identity)) f decisions)))"

subsection \<open>Removal outside a longest non-decreasing run\<close>

definition partition_point :: "('a \<Rightarrow> bool) \<Rightarrow> 'a list \<Rightarrow> nat" where
  "partition_point P xs = length (takeWhile P xs)"

definition lis_step :: "u64 list \<Rightarrow> nat \<Rightarrow> nat list \<times> nat option list \<Rightarrow> nat list \<times> nat option list" where
  "lis_step values i st =
     (let (tails, prev) = st;
          pos = partition_point (\<lambda>t. values ! t \<le> values ! i) tails;
          tails' = (if pos = length tails then tails @ [i] else tails[pos := i]);
          prev' = (if pos > 0 then prev[i := Some (tails' ! (pos - 1))] else prev)
      in (tails', prev'))"

text \<open>The walk back along the previous indices; it visits every index at most once, so as much fuel as values is enough.\<close>

fun follow :: "nat option list \<Rightarrow> nat \<Rightarrow> nat \<Rightarrow> nat list" where
  "follow prev 0 idx = []"
| "follow prev (Suc fuel) idx = idx # (case prev ! idx of None \<Rightarrow> [] | Some p \<Rightarrow> follow prev fuel p)"

definition longest_increasing_subsequence :: "u64 list \<Rightarrow> nat list" where
  "longest_increasing_subsequence values =
     (if values = [] then []
      else let (tails, prev) = fold (lis_step values) [0..<length values] ([], replicate (length values) None)
           in rev (follow prev (length values) (last tails)))"

definition remove_outside_lis :: "bullet_entry list \<Rightarrow> u64 option \<Rightarrow> u64 option \<Rightarrow> nat list" where
  "remove_outside_lis segment lower_anchor upper_anchor =
     (let within = (\<lambda>e. (case lower_anchor of None \<Rightarrow> True | Some lower \<Rightarrow> be_start_ms e \<ge> lower) \<and>
            (case upper_anchor of None \<Rightarrow> True | Some upper \<Rightarrow> be_start_ms e \<le> upper));
          inside = filter within segment;
          outside = map be_line_idx (filter (\<lambda>e. \<not> within e) segment)
      in if length inside \<le> 1 then outside
         else let lis = longest_increasing_subsequence (map be_start_ms inside)
              in outside @ map (\<lambda>pos. be_line_idx (inside ! pos)) (filter (\<lambda>pos. pos \<notin> set lis) [0..<length inside]))"

fun lis_segments :: "bullet_entry list \<Rightarrow> u64 option \<Rightarrow> bullet_entry list \<Rightarrow> nat list" where
  "lis_segments segment lower_anchor [] = remove_outside_lis segment lower_anchor None"
| "lis_segments segment lower_anchor (e # es) =
     (case be_mutability e of
        Revisable \<Rightarrow> lis_segments (segment @ [e]) lower_anchor es
      | ReadOnly _ \<Rightarrow>
          remove_outside_lis segment lower_anchor (Some (be_start_ms e)) @ lis_segments [] (Some (be_start_ms e)) es)"

definition find_lis_removals :: "(string list \<Rightarrow> string list) \<Rightarrow> bullet_entry list \<Rightarrow> nat list" where
  "find_lis_removals visit entries =
     concat (map (\<lambda>speaker. lis_segments [] None (filter (\<lambda>e. be_speaker e = speaker) entries))
       (visit (first_appearance (map be_speaker entries))))"

definition strip_line :: "nat \<Rightarrow> chat_file \<Rightarrow> chat_file" where
  "strip_line line_idx f =
     (case utterance_at f line_idx of
        Some u \<Rightarrow> put_utterance line_idx (fst (strip_utterance_timing u)) f
      | None \<Rightarrow> f)"

definition repair_bullets_under ::
    "(string list \<Rightarrow> string list) \<Rightarrow> bool \<Rightarrow> end_overlap_policy \<Rightarrow> main_bullet_authority \<Rightarrow> chat_file \<Rightarrow>
      (kept_bullet_error, chat_file \<times> repair_stats \<times> repair_decision list) result" where
  "repair_bullets_under visit dry_run policy a f =
     (case collect_bullet_entries a f of
        Inl e \<Rightarrow> Err e
      | Inr entries \<Rightarrow>
          (if entries = []
           then Ok (f, \<lparr>rs_boundary_averaged = 0, rs_gaps_filled = 0, rs_timing_stripped = 0, rs_total_bulleted = 0\<rparr>, [])
           else let gap_fills = find_gap_fills entries;
                    working = fold apply_gap_fill gap_fills f
                in case resolve_boundary_averages policy a working of
                     Inl e \<Rightarrow> Err e
                   | Inr (working, boundary_decisions) \<Rightarrow>
                       (case collect_bullet_entries a working of
                          Inl e \<Rightarrow> Err e
                        | Inr after_averaging \<Rightarrow>
                            (let lis_removals = find_lis_removals visit after_averaging;
                                 stats = \<lparr>rs_boundary_averaged = length boundary_decisions, rs_gaps_filled = length gap_fills,
                                   rs_timing_stripped = length lis_removals, rs_total_bulleted = length entries\<rparr>;
                                 decisions = concat (map (\<lambda>(l, _). entry_decision entries GapFilled l) gap_fills) @ boundary_decisions @
                                   concat (map (entry_decision after_averaging LisRemoval) lis_removals)
                             in Ok (if dry_run then f else fold strip_line lis_removals working, stats, decisions)))))"

subsection \<open>The last phases together\<close>

datatype wor_plan = Suppressed | Pending "nat list"

definition wor_plan_new :: "bool \<Rightarrow> nat list \<Rightarrow> wor_plan" where
  "wor_plan_new write_wor touched = (if write_wor then Pending touched else Suppressed)"

fun also_touched :: "wor_plan \<Rightarrow> nat list \<Rightarrow> wor_plan" where
  "also_touched Suppressed extra = Suppressed"
| "also_touched (Pending touched) extra = Pending (touched @ extra)"

definition get_utterance :: "chat_file \<Rightarrow> nat \<Rightarrow> (nat \<times> utterance) option" where
  "get_utterance f utt_idx =
     map_option (\<lambda>(l, k, u). (l, u)) (List.find (\<lambda>(l, k, u). k = utt_idx) (utterances_indexed f))"

definition timed_utterance :: "utterance \<Rightarrow> bool" where
  "timed_utterance u \<longleftrightarrow> furthest_word_timing_end u \<noteq> None"

definition add_wor_tier :: "(main_word list \<Rightarrow> time_span option list) \<Rightarrow> utterance \<Rightarrow> utterance" where
  "add_wor_tier generate u = u\<lparr>ut_wor := Some (generate (ut_words u))\<rparr>"

definition write_wor :: "(main_word list \<Rightarrow> time_span option list) \<Rightarrow> nat list \<Rightarrow> chat_file \<Rightarrow> chat_file" where
  "write_wor generate touched f =
     fold (\<lambda>utt_idx f. case get_utterance f utt_idx of
         Some (l, u) \<Rightarrow> if timed_utterance u then put_utterance l (add_wor_tier generate u) f else f
       | None \<Rightarrow> f) (sort (remdups touched)) f"

record fa_applied =
  fa_postprocess :: "decision_record list"
  fa_end_overlap_policy :: end_overlap_policy
  fa_main_bullets :: main_bullet_authority
  fa_wor_plan :: wor_plan

record fa_finalized =
  ff_postprocess :: "decision_record list"
  ff_monotonicity :: mono_state
  ff_repair :: "repair_decision list"
  ff_repair_stats :: repair_stats
  ff_kept_bullets :: held_bullets

definition then_impose :: "fa_applied \<Rightarrow> chat_file \<Rightarrow> (kept_bullet_error, chat_file \<times> fa_applied) result" where
  "then_impose ap f =
     (case impose (fa_main_bullets ap) f of
        Inl e \<Rightarrow> Err e
      | Inr (f, cuts, kept_records) \<Rightarrow>
          Ok (f, ap\<lparr>fa_postprocess := fa_postprocess ap @ kept_records,
               fa_wor_plan := also_touched (fa_wor_plan ap) cuts\<rparr>))"

definition enforce_monotonicity_then_write_wor ::
    "(main_word list \<Rightarrow> time_span option list) \<Rightarrow> end_overlap_policy \<Rightarrow> wor_plan \<Rightarrow> main_bullet_authority \<Rightarrow> chat_file \<Rightarrow>
      (kept_bullet_error, chat_file \<times> mono_state) result" where
  "enforce_monotonicity_then_write_wor generate policy plan a f =
     map_sum id (\<lambda>st.
       (case also_touched plan (List.map_filter word_mutated_utterance (ms_effects st)) of
          Suppressed \<Rightarrow> ms_file st
        | Pending touched \<Rightarrow> write_wor generate touched (ms_file st), st))
       (enforce_monotonicity_under policy a f)"

definition optional_repair ::
    "(string list \<Rightarrow> string list) \<Rightarrow> bullet_repair_policy \<Rightarrow> end_overlap_policy \<Rightarrow> main_bullet_authority \<Rightarrow> chat_file \<Rightarrow>
      (kept_bullet_error, chat_file \<times> repair_stats \<times> repair_decision list) result" where
  "optional_repair visit repair_policy policy a f =
     (case repair_policy of
        RepairDisabled \<Rightarrow>
          Ok (f, \<lparr>rs_boundary_averaged = 0, rs_gaps_filled = 0, rs_timing_stripped = 0, rs_total_bulleted = 0\<rparr>, [])
      | RepairEnabled \<Rightarrow> repair_bullets_under visit False policy a f)"

definition imposed_then_finalize ::
    "(main_word list \<Rightarrow> time_span option list) \<Rightarrow> (string list \<Rightarrow> string list) \<Rightarrow> bullet_repair_policy \<Rightarrow> fa_applied \<Rightarrow>
      chat_file \<Rightarrow> (kept_bullet_error, chat_file \<times> fa_finalized) result" where
  "imposed_then_finalize generate visit repair_policy im f =
     (let a = fa_main_bullets im; policy = fa_end_overlap_policy im
      in case optional_repair visit repair_policy policy a f of
           Inl e \<Rightarrow> Err e
         | Inr (f, stats, repair) \<Rightarrow>
             (case enforce_monotonicity_then_write_wor generate policy (fa_wor_plan im) a f of
                Inl e \<Rightarrow> Err e
              | Inr (f, ordered) \<Rightarrow>
                  map_sum id (\<lambda>(f, held). (f, \<lparr>ff_postprocess = fa_postprocess im, ff_monotonicity = ordered, ff_repair = repair,
                      ff_repair_stats = stats, ff_kept_bullets = held\<rparr>)) (restore_and_verify a f)))"

definition then_finalize ::
    "(main_word list \<Rightarrow> time_span option list) \<Rightarrow> (string list \<Rightarrow> string list) \<Rightarrow> bullet_repair_policy \<Rightarrow> fa_applied \<Rightarrow>
      chat_file \<Rightarrow> (kept_bullet_error, chat_file \<times> fa_finalized) result" where
  "then_finalize generate visit repair_policy ap f =
     (case then_impose ap f of
        Inl e \<Rightarrow> Err e
      | Inr (f, im) \<Rightarrow> imposed_then_finalize generate visit repair_policy im f)"

subsection \<open>Repair keeps the given bullets\<close>

definition entry_of :: "main_bullet_authority \<Rightarrow> chat_file \<Rightarrow> bullet_entry \<Rightarrow> bool" where
  "entry_of a f e \<longleftrightarrow> utterance_at f (be_line_idx e) \<noteq> None \<and>
     (be_mutability e = Revisable \<longrightarrow> revisable_at a (ordinal f (be_line_idx e)))"

lemma entry_of_shape: "same_shape f f' \<Longrightarrow> entry_of a f e \<Longrightarrow> entry_of a f' e"
  using same_shape_at [of f f' "be_line_idx e"]
  by (cases "utterance_at f (be_line_idx e)"; cases "utterance_at f' (be_line_idx e)") (auto simp: entry_of_def same_shape_ordinal)

lemma collect_entries_ok:
  assumes "agrees a f" and "\<And>l k u. (l, k, u) \<in> set us \<Longrightarrow> utterance_at f l = Some u \<and> k = ordinal f l"
  shows "\<exists>es. collect_entries_from a us = Ok es \<and> list_all (entry_of a f) es"
  using assms(2)
proof (induction us)
  case (Cons x us)
  obtain l k u where x: "x = (l, k, u)" by (cases x)
  have u: "utterance_at f l = Some u" "k = ordinal f l" using Cons.prems [of l k u] x by auto
  obtain es where es: "collect_entries_from a us = Ok es" "list_all (entry_of a f) es" using Cons.IH Cons.prems by auto
  show ?case
  proof (cases "parsed_bullet u")
    case None
    then show ?thesis using es x by simp
  next
    case (Some b)
    show ?thesis
      by (cases rule: revisable_iff_mutability [OF assms(1) u(1) Some]) (use es x Some u in \<open>auto simp: entry_of_def list_all_iff\<close>)
  qed
qed simp

lemma collect_bullet_entries_ok:
  assumes "agrees a f"
  obtains es where "collect_bullet_entries a f = Ok es" "list_all (entry_of a f) es"
  using collect_entries_ok [OF assms, of "utterances_indexed f"]
  by (auto simp: collect_bullet_entries_def utterances_indexed_iff)

lemma revises_set_start:
  assumes "utterance_at f i = Some u" and "revisable_at a (ordinal f i)"
  shows "revises a f (put_utterance i (set_bullet_start ms u) f)" "revises a f (put_utterance i (set_bullet_end ms u) f)"
proof -
  have "f[i := Utterance u] = f" using assms(1) by (metis list_update_id utterance_at_iff)
  then have skip: "put_utterance i u f = f" using assms(1) by (simp add: put_utterance_def)
  show "revises a f (put_utterance i (set_bullet_start ms u) f)"
  proof (cases "parsed_bullet u")
    case None
    then show ?thesis by (simp add: set_bullet_start_def skip unrevised)
  qed (use assms in \<open>auto intro!: revises_one\<close>)
  show "revises a f (put_utterance i (set_bullet_end ms u) f)"
  proof (cases "parsed_bullet u")
    case None
    then show ?thesis by (simp add: set_bullet_end_def skip unrevised)
  qed (use assms in \<open>auto intro!: revises_one\<close>)
qed

lemma gap_fills_entries: "(l, ms) \<in> set (gap_fills_from m es) \<Longrightarrow> \<exists>e \<in> set es. be_line_idx e = l \<and> be_mutability e = Revisable"
  by (induction m es rule: gap_fills_from.induct)
    (auto split: bullet_mutability.splits option.splits if_splits)

lemma revises_keeps:
  assumes "revises a f g" and "agrees a f" and "list_all (entry_of a f) es"
  shows "agrees a g" "same_shape f g" "list_all (entry_of a g) es"
  using revises_agrees [OF assms(1,2)] assms(3) entry_of_shape by (auto simp: list_all_iff)

lemma fold_revises:
  assumes "\<And>x g. x \<in> set xs \<Longrightarrow> revises a f g \<Longrightarrow> revises a g (step x g)"
  shows "revises a f (fold step xs f)"
proof -
  have "revises a f (fold step xs g)" if "revises a f g" for g
    using assms that
  proof (induction xs arbitrary: g)
    case (Cons x xs)
    have "revises a f (step x g)" using Cons.prems revises_trans by (metis list.set_intros(1))
    with Cons show ?case by simp
  qed simp
  then show ?thesis using unrevised by blast
qed

lemma gap_fills_revise:
  assumes "agrees a f" and "list_all (entry_of a f) es"
  shows "revises a f (fold apply_gap_fill (find_gap_fills es) f)"
proof (rule fold_revises)
  fix x g
  assume x: "x \<in> set (find_gap_fills es)" and g: "revises a f g"
  obtain e where e: "e \<in> set es" "be_line_idx e = fst x" "be_mutability e = Revisable"
    using x gap_fills_entries [of "fst x" "snd x"] by (auto simp: find_gap_fills_def)
  have "entry_of a g e" using revises_keeps(3) [OF g assms] e(1) by (simp add: list_all_iff)
  with e obtain u where "utterance_at g (fst x) = Some u" "revisable_at a (ordinal g (fst x))" by (auto simp: entry_of_def)
  then show "revises a g (apply_gap_fill x g)" using revises_set_start(1) by (simp add: apply_gap_fill_def)
qed

lemma average_pair_revises:
  assumes "entry_of a f e" and "entry_of a f l"
  shows "revises a f (fst (resolve_boundary_average_pair e l f))"
proof (cases "resolve_boundary_average_pair e l f = (f, None)")
  case False
  then obtain eu lu where rv: "be_mutability e = Revisable" "be_mutability l = Revisable"
    and at: "utterance_at f (be_line_idx e) = Some eu" "utterance_at f (be_line_idx l) = Some lu"
    and ps: "parsed_bullet eu \<noteq> None" "parsed_bullet lu \<noteq> None"
    by (auto simp: resolve_boundary_average_pair_def split: bullet_mutability.splits option.splits)
  have "\<exists>r edges. fst (resolve_boundary_average_pair e l f) = fst (apply_boundary_average e l r edges eu lu f)"
    using False rv at ps
    by (auto simp: resolve_boundary_average_pair_def Let_def case_prod_beta simp del: split_paired_Ex split: option.splits if_splits)
  then obtain r edges where res: "fst (resolve_boundary_average_pair e l f) = fst (apply_boundary_average e l r edges eu lu f)"
    by blast
  define g where "g = put_utterance (be_line_idx e) (set_bullet_end (fst edges) eu) f"
  have fg: "revises a f g" using revises_set_start(2) [OF at(1)] assms(1) rv by (simp add: entry_of_def g_def)
  have rev_l: "revisable_at a (ordinal g (be_line_idx l))" and rev_e: "revisable_at a (ordinal g (be_line_idx e))"
    using assms rv by (auto simp: entry_of_def g_def)
  show ?thesis
  proof (cases "r = InterleavedWords")
    case True
    have "fst (apply_boundary_average e l r edges eu lu f) =
        put_utterance (be_line_idx e) (clamp_utterance \<lparr>ts_start_ms = 0, ts_end_ms = fst edges\<rparr> (set_bullet_end (fst edges) eu)) g"
      using True
      by (simp add: apply_boundary_average_def Let_def case_prod_beta g_def clamp_words_past_bound_def)
    moreover have "revises a g (put_utterance (be_line_idx e) (clamp_utterance \<lparr>ts_start_ms = 0, ts_end_ms = fst edges\<rparr> (set_bullet_end (fst edges) eu)) g)"
      by (rule revises_one [where u = "set_bullet_end (fst edges) eu"]) (use at(1) rev_e ps(1) in \<open>auto simp: g_def same_line_def set_bullet_end_def\<close>)
    ultimately show ?thesis using res fg revises_trans by metis
  next
    case False
    have eq: "fst (apply_boundary_average e l r edges eu lu f) = put_utterance (be_line_idx l) (set_bullet_start (snd edges) lu) g"
      using False by (simp add: apply_boundary_average_def Let_def case_prod_beta g_def)
    obtain w where w: "utterance_at g (be_line_idx l) = Some w" "ut_speaker w = ut_speaker lu"
      "ut_overlap_precedes w = ut_overlap_precedes lu" "ut_postcodes w = ut_postcodes lu"
      using at by (cases "be_line_idx l = be_line_idx e") (auto simp: g_def set_bullet_end_def split: option.splits)
    have "same_line w (set_bullet_start (snd edges) lu)"
      using w ps(2) by (auto simp: same_line_def set_bullet_start_def)
    from revises_one [OF w(1) rev_l this] show ?thesis using res eq fg revises_trans by metis
  qed
qed (simp add: unrevised)

lemma average_pairs_revise:
  assumes "agrees a f" and "\<And>e l. (e, l) \<in> set ps \<Longrightarrow> entry_of a f e \<and> entry_of a f l"
  shows "revises a f (fst (average_pairs ps f ds))"
  using assms
proof (induction ps f ds rule: average_pairs.induct)
  case (1 f ds)
  then show ?case by (simp add: unrevised)
next
  case (2 e l ps f ds)
  obtain f' d where r: "resolve_boundary_average_pair e l f = (f', d)" by (cases "resolve_boundary_average_pair e l f")
  have rv: "revises a f f'" using average_pair_revises [of a f e l] "2.prems"(2) [of e l] r by simp
  have k: "agrees a f'" "same_shape f f'" using revises_agrees [OF rv "2.prems"(1)] by auto
  have en: "entry_of a f' e' \<and> entry_of a f' l'" if "(e', l') \<in> set ps" for e' l'
    using "2.prems"(2) [of e' l'] that entry_of_shape [OF k(2)] by auto
  show ?case
  proof (cases d)
    case None
    then show ?thesis using "2.IH"(1) [OF r [symmetric] None k(1) en] r rv revises_trans by auto
  next
    case (Some x)
    then show ?thesis using "2.IH"(2) [OF r [symmetric] Some k(1) en] r rv revises_trans by auto
  qed
qed

lemma windows_in: "(x, y) \<in> set (windows xs) \<Longrightarrow> x \<in> set xs \<and> y \<in> set xs"
  using windows_mem [of x y xs "\<lambda>_ _. True"] by simp

lemma boundary_averages_ok:
  assumes "agrees a f"
  obtains f' ds where "resolve_boundary_averages policy a f = Ok (f', ds)" "revises a f f'"
proof -
  obtain es where es: "collect_bullet_entries a f = Ok es" "list_all (entry_of a f) es"
    by (rule collect_bullet_entries_ok [OF assms])
  obtain f1 d1 where f1: "resolve_boundary_averages_same_speaker_stream a f = Ok (f1, d1)"
    "average_pairs (concat (map windows (speaker_streams es))) f [] = (f1, d1)"
    using es(1) by (cases "average_pairs (concat (map windows (speaker_streams es))) f []")
      (simp add: resolve_boundary_averages_same_speaker_stream_def)
  have r1: "revises a f f1"
  proof -
    have "entry_of a f e \<and> entry_of a f l" if "(e, l) \<in> set (concat (map windows (speaker_streams es)))" for e l
      using that es(2) windows_in by (fastforce simp: speaker_streams_def list_all_iff)
    from average_pairs_revise [OF assms this, of "concat (map windows (speaker_streams es))" "[]"] f1(2) show ?thesis by simp
  qed
  have ag: "agrees a f1" using revises_agrees [OF r1 assms] by simp
  obtain es1 where es1: "collect_bullet_entries a f1 = Ok es1" "list_all (entry_of a f1) es1"
    by (rule collect_bullet_entries_ok [OF ag])
  let ?ps = "filter (\<lambda>(e, l). should_clamp policy (be_speaker e) (be_speaker l)) (windows es1)"
  have "entry_of a f1 e \<and> entry_of a f1 l" if "(e, l) \<in> set ?ps" for e l
    using that es1(2) windows_in [of e l es1] by (auto simp: list_all_iff)
  from average_pairs_revise [OF ag this, of ?ps d1] have "revises a f1 (fst (average_pairs ?ps f1 d1))" by simp
  with r1 have "revises a f (fst (average_pairs ?ps f1 d1))" using revises_trans by blast
  moreover have "resolve_boundary_averages policy a f = Ok (fst (average_pairs ?ps f1 d1), snd (average_pairs ?ps f1 d1))"
    using f1(1) es1(1) by (simp add: resolve_boundary_averages_def)
  ultimately show thesis using that by blast
qed

lemma remove_outside_lis_lines: "l \<in> set (remove_outside_lis seg lo hi) \<Longrightarrow> \<exists>e \<in> set seg. be_line_idx e = l"
  by (fastforce simp: remove_outside_lis_def Let_def in_set_conv_nth [of _ "filter _ seg"] dest: nth_mem split: if_splits)

lemma lis_segments_lines:
  assumes "l \<in> set (lis_segments seg lo es)" and "\<And>e. e \<in> set seg \<Longrightarrow> be_mutability e = Revisable"
  shows "\<exists>e \<in> set seg \<union> set es. be_line_idx e = l \<and> be_mutability e = Revisable"
  using assms
proof (induction seg lo es rule: lis_segments.induct)
  case (1 seg lo)
  then show ?case using remove_outside_lis_lines [of l seg lo None] by auto
next
  case (2 seg lo e es)
  show ?case
  proof (cases "be_mutability e")
    case Revisable
    then show ?thesis using "2.IH"(2) "2.prems" by fastforce
  next
    case (ReadOnly k)
    then show ?thesis
      using "2.IH"(1) "2.prems" remove_outside_lis_lines [of l seg lo "Some (be_start_ms e)"] by fastforce
  qed
qed

lemma lis_removal_lines:
  assumes "l \<in> set (find_lis_removals visit es)"
  shows "\<exists>e \<in> set es. be_line_idx e = l \<and> be_mutability e = Revisable"
  using assms lis_segments_lines [of l "[]" None] by (fastforce simp: find_lis_removals_def)

lemma repair_ok:
  assumes "agrees a f"
  obtains f' stats ds where "repair_bullets_under visit False policy a f = Ok (f', stats, ds)" "revises a f f'"
proof -
  obtain es where es: "collect_bullet_entries a f = Ok es" "list_all (entry_of a f) es"
    by (rule collect_bullet_entries_ok [OF assms])
  show thesis
  proof (cases "es = []")
    case True
    then show thesis using that es(1) unrevised by (simp add: repair_bullets_under_def)
  next
    case False
    let ?f1 = "fold apply_gap_fill (find_gap_fills es) f"
    have r1: "revises a f ?f1" by (rule gap_fills_revise [OF assms es(2)])
    have ag1: "agrees a ?f1" using revises_agrees [OF r1 assms] by simp
    obtain f2 ds where f2: "resolve_boundary_averages policy a ?f1 = Ok (f2, ds)" "revises a ?f1 f2"
      by (rule boundary_averages_ok [OF ag1])
    have ag2: "agrees a f2" using revises_agrees [OF f2(2) ag1] by simp
    obtain es2 where es2: "collect_bullet_entries a f2 = Ok es2" "list_all (entry_of a f2) es2"
      by (rule collect_bullet_entries_ok [OF ag2])
    have "revises a f2 (fold strip_line (find_lis_removals visit es2) f2)"
    proof (rule fold_revises)
      fix l g
      assume l: "l \<in> set (find_lis_removals visit es2)" and g: "revises a f2 g"
      obtain e where e: "e \<in> set es2" "be_line_idx e = l" "be_mutability e = Revisable" using lis_removal_lines [OF l] by blast
      have "entry_of a g e" using revises_keeps(3) [OF g ag2 es2(2)] e(1) by (simp add: list_all_iff)
      with e obtain u where "utterance_at g l = Some u" "revisable_at a (ordinal g l)" by (auto simp: entry_of_def)
      then show "revises a g (strip_line l g)" by (auto simp: strip_line_def intro: revises_one)
    qed
    with r1 f2(2) have "revises a f (fold strip_line (find_lis_removals visit es2) f2)" using revises_trans by blast
    then show thesis using that False es(1) f2(1) es2(1) by (simp add: repair_bullets_under_def Let_def)
  qed
qed

interpretation repair: kept_phase "\<lambda>a f. repair_bullets_under visit False policy a f" for visit policy
proof
  fix a f
  assume "agrees a f"
  then show "\<exists>f' r. repair_bullets_under visit False policy a f = Ok (f', r) \<and> revises a f f'"
    by (rule repair_ok) auto
qed

lemma write_wor_revises: "revises a f (write_wor generate touched f)"
  unfolding write_wor_def
proof (rule fold_revises)
  fix k g
  show "revises a g (case get_utterance g k of
      Some (l, u) \<Rightarrow> if timed_utterance u then put_utterance l (add_wor_tier generate u) g else g | None \<Rightarrow> g)"
  proof (cases "get_utterance g k")
    case (Some x)
    then obtain l u where x: "x = (l, u)" "(l, k, u) \<in> set (utterances_indexed g)"
      by (fastforce simp: get_utterance_def find_Some_iff in_set_conv_nth)
    then have "revises a g (put_utterance l (add_wor_tier generate u) g)"
      by (intro relabelled [OF unrevised, of _ _ u]) (auto simp: utterances_indexed_iff add_wor_tier_def)
    with Some x(1) show ?thesis by (simp add: unrevised)
  qed (simp add: unrevised)
qed

definition last_phases ::
    "(main_word list \<Rightarrow> time_span option list) \<Rightarrow> (string list \<Rightarrow> string list) \<Rightarrow> bullet_repair_policy \<Rightarrow> end_overlap_policy \<Rightarrow>
      wor_plan \<Rightarrow> main_bullet_authority \<Rightarrow> chat_file \<Rightarrow>
      (kept_bullet_error, chat_file \<times> (repair_stats \<times> repair_decision list) \<times> mono_state) result" where
  "last_phases generate visit repair_policy policy plan a f =
     (case optional_repair visit repair_policy policy a f of
        Inl e \<Rightarrow> Err e
      | Inr (f, r) \<Rightarrow>
          map_sum id (\<lambda>(f, st). (f, r, st)) (enforce_monotonicity_then_write_wor generate policy plan a f))"

interpretation last_phases: kept_phase "\<lambda>a f. last_phases generate visit repair_policy ends plan a f"
  for generate visit repair_policy ends plan
proof
  fix a f
  assume ag: "agrees a f"
  obtain f1 r where f1: "optional_repair visit repair_policy ends a f = Ok (f1, r)" "revises a f f1"
    using repair.revises_only [OF ag, of visit ends] unrevised [of a f]
    by (cases repair_policy) (auto simp: optional_repair_def)
  have ag1: "agrees a f1" using revises_agrees [OF f1(2) ag] by simp
  obtain f2 st where f2: "map_sum id (\<lambda>st. (ms_file st, st)) (enforce_monotonicity_under ends a f1) = Ok (f2, st)" "revises a f1 f2"
    using monotonicity.revises_only [OF ag1, of ends] by blast
  then have st: "enforce_monotonicity_under ends a f1 = Ok st" "f2 = ms_file st"
    by (cases "enforce_monotonicity_under ends a f1"; auto)+
  define f3 where "f3 = (case also_touched plan (List.map_filter word_mutated_utterance (ms_effects st)) of
      Suppressed \<Rightarrow> ms_file st | Pending touched \<Rightarrow> write_wor generate touched (ms_file st))"
  have "revises a f2 f3" using write_wor_revises unrevised by (simp add: f3_def st(2) split: wor_plan.split)
  then have "revises a f f3" using f1(2) f2(2) revises_trans by blast
  moreover have "last_phases generate visit repair_policy ends plan a f = Ok (f3, r, st)"
    using f1(1) st(1) by (simp add: last_phases_def enforce_monotonicity_then_write_wor_def f3_def)
  ultimately show "\<exists>f' r. last_phases generate visit repair_policy ends plan a f = Ok (f', r) \<and> revises a f f'" by blast
qed

lemma then_finalize_phases:
  assumes "impose (fa_main_bullets ap) f = Ok (f1, cuts, records)"
    and "last_phases generate visit repair_policy (fa_end_overlap_policy ap) (also_touched (fa_wor_plan ap) cuts) (fa_main_bullets ap) f1 =
      Ok (f2, (stats, ds), st)"
    and "restore_and_verify (fa_main_bullets ap) f2 = Ok (f3, held)"
  shows "then_finalize generate visit repair_policy ap f =
    Ok (f3, \<lparr>ff_postprocess = fa_postprocess ap @ records, ff_monotonicity = st, ff_repair = ds,
        ff_repair_stats = stats, ff_kept_bullets = held\<rparr>)"
proof -
  obtain g where g: "optional_repair visit repair_policy (fa_end_overlap_policy ap) (fa_main_bullets ap) f1 = Ok (g, stats, ds)"
    "enforce_monotonicity_then_write_wor generate (fa_end_overlap_policy ap) (also_touched (fa_wor_plan ap) cuts) (fa_main_bullets ap) g =
      Ok (f2, st)"
  proof (cases "optional_repair visit repair_policy (fa_end_overlap_policy ap) (fa_main_bullets ap) f1")
    case (Inr x)
    obtain h r where x: "x = (h, r)" by (cases x)
    with assms(2) Inr show thesis
      by (cases "enforce_monotonicity_then_write_wor generate (fa_end_overlap_policy ap) (also_touched (fa_wor_plan ap) cuts) (fa_main_bullets ap) h")
        (auto simp: last_phases_def intro: that)
  qed (use assms(2) in \<open>simp add: last_phases_def\<close>)
  then show ?thesis
    using assms(1,3) by (simp add: then_finalize_def then_impose_def imposed_then_finalize_def Let_def)
qed

definition off_record_unbulleted :: "chat_file \<Rightarrow> bool" where
  "off_record_unbulleted f \<longleftrightarrow> list_all (\<lambda>(l, k, u). presence_of u = InRecording \<or> ut_bullet u = None) (utterances_indexed f)"

text \<open>Input admission leaves such a file: it strips what is not in the recording and touches nothing else.\<close>

lemma strip_off_record_shape: "same_shape f (fst (strip_off_record_timing f))"
  by (induction f rule: strip_off_record_timing.induct)
    (auto simp: same_shape_Cons line_kind_def strip_utterance_timing_def Let_def split: recording_presence.split prod.split)

lemma strip_off_record_unbulleted: "off_record_unbulleted (fst (strip_off_record_timing f))"
proof -
  have "list_all (\<lambda>(l, k, u). presence_of u = InRecording \<or> ut_bullet u = None) (indexed_from l k (fst (strip_off_record_timing f)))" for l k
    by (induction f arbitrary: l k rule: strip_off_record_timing.induct)
      (auto simp: strip_utterance_timing_def Let_def split: recording_presence.split prod.split)
  then show ?thesis by (simp add: off_record_unbulleted_def utterances_indexed_def)
qed

text \<open>
  C17. Given bullets survive the last phases. Bind the input's bullets under a keeping policy; take a
  working file with the same utterances, whose bullets are readable and absent where the utterance is
  not in the recording. Then finalizing it (impose, optional repair, monotonicity, \<^verbatim>\<open>%wor\<close>, restore,
  verify) refuses nothing, whatever order repair visits the speakers in and whatever \<^verbatim>\<open>%wor\<close> tier the
  CHAT model generates; every bullet of the input stands on its utterance with its own times, and
  under the exact policy no utterance without a bullet has gained one.
\<close>

theorem finalize_holds_given_bullets:
  assumes "authority_bind policy input = Ok (fa_main_bullets ap)" and "policy \<noteq> DeriveFromWords"
    and "same_shape input f" and "bullets_parsed f" and "off_record_unbulleted f"
  shows "\<exists>f' result. then_finalize generate visit repair_policy ap f = Ok (f', result) \<and>
    (\<forall>i u u'. utterance_at input i = Some u \<longrightarrow> utterance_at f' i = Some u' \<longrightarrow>
       (\<forall>b. parsed_bullet u = Some b \<longrightarrow> parsed_bullet u' = Some b) \<and>
       (policy = KeepExact \<longrightarrow> parsed_bullet u = None \<longrightarrow> parsed_bullet u' = None))"
proof -
  have parsed: "\<forall>i u source. utterance_at f i = Some u \<longrightarrow> ut_bullet u \<noteq> Some (Unparsed source)"
    using assms(4) by (simp add: bullets_parsed_iff)
  have "ut_bullet u = None" if "utterance_at f i = Some u" "presence_of u \<noteq> InRecording" for i u
    using assms(5) that utterances_indexed_iff [of i "ordinal f i" u f] by (auto simp: off_record_unbulleted_def list_all_iff)
  then have off: "\<forall>i u. utterance_at f i = Some u \<longrightarrow> presence_of u \<noteq> InRecording \<longrightarrow> ut_bullet u = None" by blast
  note held = last_phases.input_bullets_held [where generate = generate and visit = visit and repair_policy = repair_policy and
    ends = "fa_end_overlap_policy ap", OF assms(1-3) parsed off]
  obtain f1 cuts records where im: "impose (fa_main_bullets ap) f = Ok (f1, cuts, records)"
    using held [where plan = Suppressed] by blast
  obtain f2 r f3 k where "last_phases generate visit repair_policy (fa_end_overlap_policy ap) (also_touched (fa_wor_plan ap) cuts)
        (fa_main_bullets ap) f1 = Ok (f2, r)" "restore_and_verify (fa_main_bullets ap) f2 = Ok (f3, k)"
      "\<forall>i u u'. utterance_at input i = Some u \<longrightarrow> utterance_at f3 i = Some u' \<longrightarrow>
       (\<forall>b. parsed_bullet u = Some b \<longrightarrow> parsed_bullet u' = Some b) \<and>
       (policy = KeepExact \<longrightarrow> parsed_bullet u = None \<longrightarrow> parsed_bullet u' = None)"
    using held [where plan = "also_touched (fa_wor_plan ap) cuts"] im by auto
  with then_finalize_phases [OF im, of generate visit repair_policy f2 "fst (fst r)" "snd (fst r)" "snd r" f3 k] show ?thesis
    by auto
qed

theorem finalize_holds_given_bullets_witness:
  "\<exists>f' result. then_finalize (map mw_timing) rev RepairEnabled
      \<lparr>fa_postprocess = [], fa_end_overlap_policy = PreserveCrossSpeaker,
       fa_main_bullets = AuthorityKeep \<lparr>by_utterance =
         [GivenKept (KeptExtent 0 900), GivenKept (KeptExtent 300 700), GivenKept (KeptExtent 500 1000), GivenKept (KeptExtent 200 400)],
         absence = AbsenceKeep\<rparr>, fa_wor_plan = Pending [0]\<rparr> overlapping_talk = Ok (f', result) \<and>
    (\<forall>u'. utterance_at f' 4 = Some u' \<longrightarrow> parsed_bullet u' = Some \<lparr>ts_start_ms = 200, ts_end_ms = 400\<rparr>)"
proof -
  define ap :: fa_applied where "ap = \<lparr>fa_postprocess = [], fa_end_overlap_policy = PreserveCrossSpeaker,
       fa_main_bullets = AuthorityKeep \<lparr>by_utterance =
         [GivenKept (KeptExtent 0 900), GivenKept (KeptExtent 300 700), GivenKept (KeptExtent 500 1000), GivenKept (KeptExtent 200 400)],
         absence = AbsenceKeep\<rparr>, fa_wor_plan = Pending [0]\<rparr>"
  have "authority_bind KeepExact overlapping_talk = Ok (fa_main_bullets ap)"
    by (simp add: ap_def authority_bind_def overlapping_talk_def said_def utterances_indexed_def bind_utterance_def
        parsed_bullet_def classify_given_def presence_of_def)
  moreover have "bullets_parsed overlapping_talk" "off_record_unbulleted overlapping_talk"
    by (simp_all add: bullets_parsed_def off_record_unbulleted_def overlapping_talk_def said_def utterances_indexed_def presence_of_def)
  moreover have "\<exists>u. utterance_at overlapping_talk 4 = Some u \<and> parsed_bullet u = Some \<lparr>ts_start_ms = 200, ts_end_ms = 400\<rparr>"
    by (simp add: overlapping_talk_def said_def utterance_at_def parsed_bullet_def)
  ultimately show ?thesis
    using finalize_holds_given_bullets [of KeepExact overlapping_talk ap overlapping_talk "map mw_timing" rev RepairEnabled]
    unfolding ap_def by fastforce
qed

subsection \<open>The longest run\<close>

definition rises :: "u64 list \<Rightarrow> nat list \<Rightarrow> bool" where
  "rises vals q \<longleftrightarrow> sorted_wrt (<) q \<and> (\<forall>x \<in> set q. x < length vals) \<and> sorted (map ((!) vals) q)"

text \<open>The indices met on the way back from an index.\<close>

inductive back_chain :: "u64 list \<Rightarrow> nat option list \<Rightarrow> nat \<Rightarrow> nat list \<Rightarrow> bool" for vals prev where
  chain_first: "prev ! j = None \<Longrightarrow> back_chain vals prev j [j]"
| chain_back: "prev ! j = Some i \<Longrightarrow> i < j \<Longrightarrow> vals ! i \<le> vals ! j \<Longrightarrow> back_chain vals prev i q \<Longrightarrow> back_chain vals prev j (j # q)"

lemma follow_chain: "back_chain vals prev j q \<Longrightarrow> length q \<le> fuel \<Longrightarrow> follow prev fuel j = q"
proof (induction arbitrary: fuel rule: back_chain.induct)
  case (chain_first j)
  then show ?case by (cases fuel) auto
next
  case (chain_back j i q)
  then show ?case by (cases fuel) auto
qed

lemma chain_rises:
  assumes "back_chain vals prev j q" and "j < length vals"
  shows "rises vals (rev q) \<and> q \<noteq> [] \<and> hd q = j \<and> (\<forall>x \<in> set q. x \<le> j) \<and> (\<forall>x \<in> set q. vals ! x \<le> vals ! j)"
  using assms
proof (induction rule: back_chain.induct)
  case (chain_back j i q)
  then have IH: "rises vals (rev q)" "q \<noteq> []" "hd q = i" "\<forall>x \<in> set q. x \<le> i" "\<forall>x \<in> set q. vals ! x \<le> vals ! i" by auto
  have "x < j \<and> vals ! x \<le> vals ! j" if "x \<in> set q" for x
    using IH(4,5) that chain_back.hyps(2,3) by fastforce
  with IH(1) chain_back.prems show ?case by (auto simp: rises_def sorted_wrt_append sorted_append intro: less_imp_le)
qed (simp add: rises_def)

lemma chain_update: "back_chain vals prev j q \<Longrightarrow> j < i \<Longrightarrow> back_chain vals (prev[i := x]) j q"
proof (induction rule: back_chain.induct)
  case (chain_first j)
  then show ?case by (simp add: back_chain.chain_first)
next
  case (chain_back j k q)
  then show ?case by (intro back_chain.chain_back) auto
qed

definition lis_invariant :: "u64 list \<Rightarrow> nat \<Rightarrow> nat list \<times> nat option list \<Rightarrow> bool" where
  "lis_invariant vals i st =
     (case st of (tails, prev) \<Rightarrow>
        length prev = length vals \<and> (\<forall>k. i \<le> k \<longrightarrow> k < length vals \<longrightarrow> prev ! k = None) \<and>
        (\<forall>k < length tails. tails ! k < i \<and> (\<exists>q. back_chain vals prev (tails ! k) q \<and> length q = Suc k)) \<and>
        sorted (map ((!) vals) tails) \<and>
        (\<forall>q. rises vals q \<longrightarrow> q \<noteq> [] \<longrightarrow> (\<forall>x \<in> set q. x < i) \<longrightarrow>
           length q \<le> length tails \<and> vals ! (tails ! (length q - 1)) \<le> vals ! last q))"

lemma partition_point_sorted:
  fixes v :: u64
  assumes "sorted (map ((!) vals) tails)"
  defines "pos \<equiv> partition_point (\<lambda>t. vals ! t \<le> v) tails"
  shows "k < length tails \<Longrightarrow> vals ! (tails ! k) \<le> v \<longleftrightarrow> k < pos" and "pos \<le> length tails"
proof -
  show le: "pos \<le> length tails" by (simp add: pos_def partition_point_def length_takeWhile_le)
  have below: "vals ! (tails ! k) \<le> v" if "k < pos" for k
    using that by (metis (no_types, lifting) nth_mem partition_point_def pos_def set_takeWhileD takeWhile_nth)
  have at_pos: "\<not> vals ! (tails ! pos) \<le> v" if "pos < length tails"
    using that nth_length_takeWhile [of "\<lambda>t. vals ! t \<le> v" tails] by (simp add: pos_def partition_point_def)
  assume k: "k < length tails"
  show "vals ! (tails ! k) \<le> v \<longleftrightarrow> k < pos"
  proof
    assume v: "vals ! (tails ! k) \<le> v"
    show "k < pos"
    proof (rule ccontr)
      assume "\<not> k < pos"
      then have "map ((!) vals) tails ! pos \<le> map ((!) vals) tails ! k"
        using k assms(1) by (intro sorted_nth_mono) auto
      then show False using at_pos v k \<open>\<not> k < pos\<close> by simp
    qed
  qed (rule below)
qed

lemma rises_butlast:
  assumes "rises vals (q @ [i])" and "q \<noteq> []"
  shows "rises vals q \<and> (\<forall>x \<in> set q. x < i) \<and> vals ! last q \<le> vals ! i"
  using assms by (auto simp: rises_def sorted_wrt_append sorted_append)

text \<open>The tails after a step, by position: the new index stands at the partition point, every other tail stays.\<close>

definition lis_tails :: "nat \<Rightarrow> nat \<Rightarrow> nat list \<Rightarrow> nat list" where
  "lis_tails pos i tails = (if pos = length tails then tails @ [i] else tails[pos := i])"

lemma lis_tails_nth:
  assumes "pos \<le> length tails"
  shows "length (lis_tails pos i tails) = max (length tails) (Suc pos)"
    and "k < length (lis_tails pos i tails) \<Longrightarrow> lis_tails pos i tails ! k = (if k = pos then i else tails ! k)"
    and "k < length (lis_tails pos i tails) \<Longrightarrow> k \<noteq> pos \<Longrightarrow> k < length tails"
  using assms by (auto simp: lis_tails_def nth_append split: if_splits)

lemma lis_tails_sorted:
  fixes i :: nat and vals :: "u64 list"
  assumes sorted: "sorted (map ((!) vals) tails)"
  defines "pos \<equiv> partition_point (\<lambda>t. vals ! t \<le> vals ! i) tails"
  shows "sorted (map ((!) vals) (lis_tails pos i tails))"
proof (rule sorted_iff_nth_mono_less [THEN iffD2], intro allI impI)
  note pp = partition_point_sorted [OF sorted, where v = "vals ! i", folded pos_def]
  note tl = lis_tails_nth [OF pp(2), where i = i]
  fix k m
  assume km: "k < m" "m < length (map ((!) vals) (lis_tails pos i tails))"
  have mono: "vals ! (tails ! k) \<le> vals ! (tails ! m)" if "m < length tails"
    using sorted_nth_mono [OF sorted, of k m] that km(1) by simp
  show "map ((!) vals) (lis_tails pos i tails) ! k \<le> map ((!) vals) (lis_tails pos i tails) ! m"
    using km tl(2) [of k] tl(2) [of m] tl(3) [of k] tl(3) [of m] pp(1) [of k] pp(1) [of m] mono by (auto simp: not_le)
qed

lemma lis_best_step:
  assumes sorted: "sorted (map ((!) vals) tails)"
    and best: "\<And>q. rises vals q \<Longrightarrow> q \<noteq> [] \<Longrightarrow> \<forall>x \<in> set q. x < i \<Longrightarrow>
      length q \<le> length tails \<and> vals ! (tails ! (length q - 1)) \<le> vals ! last q"
    and q: "rises vals q" "q \<noteq> []" "\<forall>x \<in> set q. x < Suc i"
  defines "pos \<equiv> partition_point (\<lambda>t. vals ! t \<le> vals ! i) tails"
  shows "length q \<le> length (lis_tails pos i tails) \<and> vals ! (lis_tails pos i tails ! (length q - 1)) \<le> vals ! last q"
proof (cases "last q = i")
  note pp = partition_point_sorted [OF sorted, where v = "vals ! i", folded pos_def]
  note tl = lis_tails_nth [OF pp(2), where i = i]
  case False
  have "x < i" if "x \<in> set q" for x
  proof -
    have "x \<le> last q" using q(1,2) that by (cases q rule: rev_cases) (auto simp: rises_def sorted_wrt_append intro: less_imp_le)
    then show ?thesis using q(2,3) False last_in_set [OF q(2)] by fastforce
  qed
  then have b: "length q \<le> length tails" "vals ! (tails ! (length q - 1)) \<le> vals ! last q" using best [OF q(1,2)] by auto
  have "length q - 1 < length tails" using b(1) q(2) by (cases q) auto
  then show ?thesis using b tl(1) tl(2) [of "length q - 1"] pp(1) [of "length q - 1"] by (auto simp: not_le)
next
  note pp = partition_point_sorted [OF sorted, where v = "vals ! i", folded pos_def]
  note tl = lis_tails_nth [OF pp(2), where i = i]
  case True
  obtain r where r: "q = r @ [i]" using q(2) True by (metis append_butlast_last_id)
  have "length r \<le> pos"
  proof (cases "r = []")
    case False
    then have "length r \<le> length tails" "vals ! (tails ! (length r - 1)) \<le> vals ! i"
      using rises_butlast [OF q(1) [unfolded r] False] best [of r] by auto
    moreover have "length r - 1 < length tails" using calculation(1) False by (cases r) auto
    ultimately show ?thesis using pp(1) [of "length r - 1"] by simp
  qed simp
  then show ?thesis using r tl(1) tl(2) [of "length r"] pp(1) [of "length r"] pp(2) by auto
qed

lemma lis_chain_step:
  assumes sorted: "sorted (map ((!) vals) tails)" and i: "i < length vals" and lp: "length prev = length vals"
    and none: "prev ! i = None"
    and chains: "\<And>k. k < length tails \<Longrightarrow> tails ! k < i \<and> (\<exists>q. back_chain vals prev (tails ! k) q \<and> length q = Suc k)"
  defines "pos \<equiv> partition_point (\<lambda>t. vals ! t \<le> vals ! i) tails"
  defines "prev' \<equiv> (if pos > 0 then prev[i := Some (lis_tails pos i tails ! (pos - 1))] else prev)"
  assumes k: "k < length (lis_tails pos i tails)"
  shows "lis_tails pos i tails ! k < Suc i \<and> (\<exists>q. back_chain vals prev' (lis_tails pos i tails ! k) q \<and> length q = Suc k)"
proof -
  note pp = partition_point_sorted [OF sorted, where v = "vals ! i", folded pos_def]
  note tl = lis_tails_nth [OF pp(2), where i = i]
  consider (old) "k \<noteq> pos" | (zero) "k = pos" "pos = 0" | (more) m where "k = pos" "pos = Suc m" by (cases pos) auto
  then show ?thesis
  proof cases
    case old
    with chains [OF tl(3) [OF k old]] tl(2) [OF k] show ?thesis by (auto simp: prev'_def intro: chain_update)
  next
    case zero
    then have "back_chain vals prev' i [i]" using none i by (auto simp: prev'_def intro: chain_first)
    then show ?thesis using zero tl(2) [OF k] by auto
  next
    case (more m)
    have m: "m < length tails" "lis_tails pos i tails ! m = tails ! m" using more pp(2) tl(1) tl(2) [of m] by auto
    obtain q where q: "back_chain vals prev (tails ! m) q" "length q = Suc m" "tails ! m < i" using chains [OF m(1)] by blast
    have "back_chain vals prev' i (i # q)"
    proof (rule chain_back)
      show "prev' ! i = Some (tails ! m)" using more m(2) i lp by (simp add: prev'_def)
      show "vals ! (tails ! m) \<le> vals ! i" using pp(1) [OF m(1)] more by simp
    qed (use q in \<open>auto simp: prev'_def intro: chain_update\<close>)
    then show ?thesis using more tl(2) [OF k] q(2) by auto
  qed
qed

lemma lis_step_invariant:
  assumes inv: "lis_invariant vals i (tails, prev)" and i: "i < length vals"
  shows "lis_invariant vals (Suc i) (lis_step vals i (tails, prev))"
proof -
  define pos where "pos = partition_point (\<lambda>t. vals ! t \<le> vals ! i) tails"
  define prev' where "prev' = (if pos > 0 then prev[i := Some (lis_tails pos i tails ! (pos - 1))] else prev)"
  have step: "lis_step vals i (tails, prev) = (lis_tails pos i tails, prev')"
    by (simp add: lis_step_def Let_def prev'_def lis_tails_def pos_def)
  have parts: "sorted (map ((!) vals) tails)" "length prev = length vals" "\<And>k. i \<le> k \<Longrightarrow> k < length vals \<Longrightarrow> prev ! k = None"
    "\<And>k. k < length tails \<Longrightarrow> tails ! k < i \<and> (\<exists>q. back_chain vals prev (tails ! k) q \<and> length q = Suc k)"
    "\<And>q. rises vals q \<Longrightarrow> q \<noteq> [] \<Longrightarrow> \<forall>x \<in> set q. x < i \<Longrightarrow>
      length q \<le> length tails \<and> vals ! (tails ! (length q - 1)) \<le> vals ! last q"
    using inv by (auto simp: lis_invariant_def)
  have none: "prev ! i = None" using parts(3) i by simp
  have "sorted (map ((!) vals) (lis_tails pos i tails))" unfolding pos_def by (rule lis_tails_sorted [OF parts(1)])
  moreover have "lis_tails pos i tails ! k < Suc i \<and> (\<exists>q. back_chain vals prev' (lis_tails pos i tails ! k) q \<and> length q = Suc k)"
    if "k < length (lis_tails pos i tails)" for k
    using lis_chain_step [OF parts(1) i parts(2) none parts(4)] that unfolding prev'_def pos_def by blast
  moreover have "length q \<le> length (lis_tails pos i tails) \<and> vals ! (lis_tails pos i tails ! (length q - 1)) \<le> vals ! last q"
    if "rises vals q" "q \<noteq> []" "\<forall>x \<in> set q. x < Suc i" for q
    unfolding pos_def by (rule lis_best_step [OF parts(1,5) that])
  ultimately show ?thesis using parts(2,3) i unfolding step lis_invariant_def by (auto simp: prev'_def)
qed

lemma lis_invariant_run:
  "n \<le> length vals \<Longrightarrow> lis_invariant vals n (fold (lis_step vals) [0..<n] ([], replicate (length vals) None))"
proof (induction n)
  case 0
  then show ?case by (auto simp: lis_invariant_def)
next
  case (Suc n)
  obtain t p where tp: "fold (lis_step vals) [0..<n] ([], replicate (length vals) None) = (t, p)"
    by (cases "fold (lis_step vals) [0..<n] ([], replicate (length vals) None)")
  with Suc lis_step_invariant [of vals n t p] show ?case by simp
qed

text \<open>
  C25. The runs repair keeps are longest. The indices the patience search returns are in file order,
  their starts never decrease, and no other such selection of indices is longer: the utterances outside
  it are a smallest set whose removal puts the starts in order.
\<close>

theorem lis_longest:
  "sorted_wrt (<) (longest_increasing_subsequence vals) \<and>
   (\<forall>x \<in> set (longest_increasing_subsequence vals). x < length vals) \<and>
   sorted (map ((!) vals) (longest_increasing_subsequence vals)) \<and>
   (\<forall>q. sorted_wrt (<) q \<and> (\<forall>x \<in> set q. x < length vals) \<and> sorted (map ((!) vals) q) \<longrightarrow>
      length q \<le> length (longest_increasing_subsequence vals))"
proof (cases "vals = []")
  case True
  then show ?thesis by (auto simp: longest_increasing_subsequence_def)
next
  case False
  obtain t p where tp: "fold (lis_step vals) [0..<length vals] ([], replicate (length vals) None) = (t, p)"
    by (cases "fold (lis_step vals) [0..<length vals] ([], replicate (length vals) None)")
  have inv: "lis_invariant vals (length vals) (t, p)" using lis_invariant_run [of "length vals" vals] tp by simp
  then have best: "length q \<le> length t" if "rises vals q" for q
    using that by (cases "q = []") (auto simp: lis_invariant_def rises_def)
  have "t \<noteq> []" using best [of "[0]"] False by (auto simp: rises_def)
  then have top: "length t - 1 < length t" "t ! (length t - 1) = last t" by (simp_all add: last_conv_nth)
  have "t ! (length t - 1) < length vals \<and> (\<exists>q. back_chain vals p (t ! (length t - 1)) q \<and> length q = Suc (length t - 1))"
    using inv top(1) by (simp add: lis_invariant_def)
  then obtain q where q: "back_chain vals p (last t) q" "length q = length t" "last t < length vals" using top by auto
  have rq: "rises vals (rev q)" using chain_rises [OF q(1,3)] by simp
  have "length q \<le> length vals"
  proof -
    have "distinct (rev q)" using rq by (auto simp: rises_def strict_sorted_iff)
    then have "length q = card (set q)" by (simp add: distinct_card)
    also have "\<dots> \<le> card {..<length vals}" using rq by (intro card_mono) (auto simp: rises_def)
    finally show ?thesis by simp
  qed
  then have "longest_increasing_subsequence vals = rev q"
    using False tp follow_chain [OF q(1)] by (simp add: longest_increasing_subsequence_def)
  then show ?thesis using rq best q(2) by (auto simp: rises_def)
qed

theorem lis_longest_witness: "length (longest_increasing_subsequence [5, 1, 2, 9, 3, 3]) \<ge> 4"
  using lis_longest [of "[5, 1, 2, 9, 3, 3]", THEN conjunct2, THEN conjunct2, THEN conjunct2, rule_format, of "[1, 2, 4, 5]"]
  by simp

text \<open>
  Averaging can turn a bullet around. An untimed utterance that contains a short later one of the same
  speaker is averaged at a midpoint past the end of the short one, which then starts at 250 and ends
  at 150; nothing after the repair looks at it again.
\<close>

definition nested_talk :: chat_file where
  "nested_talk = [said ''CHI'' 0 400 [], said ''CHI'' 100 150 []]"

lemma repair_inverts_bullet:
  "map_sum id (\<lambda>(f, result). map (live f) [0..<2])
     (then_finalize (map mw_timing) id RepairEnabled
        \<lparr>fa_postprocess = [], fa_end_overlap_policy = PreserveCrossSpeaker, fa_main_bullets = AuthorityDerive,
         fa_wor_plan = Suppressed\<rparr> nested_talk) =
   Ok [Some \<lparr>ts_start_ms = 0, ts_end_ms = 250\<rparr>, Some \<lparr>ts_start_ms = 250, ts_end_ms = 150\<rparr>]"
  by code_simp

end
