(* ===== verification/Spec2Isabelle.thy ===== *)
theory Spec2Isabelle
  imports Registry Admission Interleaving Host_Memory Fa_Labels Fa_Repair
begin

text \<open>
  \<^bold>\<open>Batchalign: the job server's state and its alignment core\<close>

  Batchalign is a server and command line tool that runs speech and language models over CHAT
  transcripts. This development covers four of its cores: the state machine of the job server (what
  a submitted job is, how it and its files move, what the in-memory registry does with it), the
  engine choices and the memory ledger through which the processes of one machine share its memory,
  the sequence alignment that maps recognised words onto transcript words, with the proofs of
  common correspondence built on it, and the forced alignment that gives transcript words their
  times from what an engine heard. Paths below are under \<^verbatim>\<open>src/crates/batchalign/src\<close> (\<^verbatim>\<open>server\<close> parts)
  and \<^verbatim>\<open>src/crates/batchalign-transform/src/dp_align\<close> (\<^verbatim>\<open>alignment\<close> parts).

  \<^bold>\<open>How the parts interact.\<close> A submission becomes a job with one entry per file; the registry
  checks it for conflicts with the active jobs of the same client and stores it. A queue claim takes
  a lease on a ready job, a runner claims it, moves its files through their phases (retrying worker
  calls under a policy, reporting waits), and finalises it; cancellation, shutdown, a memory requeue,
  a restart and recovery after a crash move it too. Before it runs, a job reserves the memory of its
  workers in the ledger, which every process of the machine reads, prunes and rewrites under one
  file lock; the workers it starts and the models they load draw on that reservation, sized by the
  engines the job's overrides select. The transcript side calls the aligner: words of
  the payload are compared with words of the reference under a match mode, and a correspondence
  analysis pairs the selected optimal alignment with the matches that every optimal alignment has;
  where two speakers overlap, both are compared with the reference at once.
  Forced alignment sends a window of the recording to an engine; its labels or intervals are given
  to the words of the group (with the character aligner where labels and words disagree) and the
  timings of an utterance are then healed, clamped, settled and counted. The last phases work on the
  whole transcript: the bullets the input gave are imposed, bullets are repaired if asked for, their
  order is enforced with every change recorded, \<^verbatim>\<open>%wor\<close> tiers are written, and what was to be kept is
  restored and verified.

  \<^bold>\<open>Theories of the job server.\<close>
  \<^item> \<^verbatim>\<open>Prelude\<close>: results as sums, the association-list image of a hash map, saturating \<^verbatim>\<open>usize\<close>
    arithmetic, rule collections.
  \<^item> \<^verbatim>\<open>Status\<close> (\<^verbatim>\<open>types/status.rs\<close>): job and file statuses, the transition table, spellings.
  \<^item> \<^verbatim>\<open>Scheduling\<close> (\<^verbatim>\<open>types/scheduling.rs\<close>, \<^verbatim>\<open>scheduling/lease.rs\<close>, \<^verbatim>\<open>types/machine_time.rs\<close>, the retry loop
    of the runner): failure categories, the 64-bit backoff, leases, the retry loop with its log.
  \<^item> \<^verbatim>\<open>File_Phase\<close> (\<^verbatim>\<open>store\<close>): phases of a file, the database row image and its reader, open waits.
  \<^item> \<^verbatim>\<open>Domain\<close> (\<^verbatim>\<open>types/domain.rs\<close>): commands, content types, language specifications.
  \<^item> \<^verbatim>\<open>Job\<close> (\<^verbatim>\<open>store/job\<close>, with the job of \<^verbatim>\<open>submission.rs\<close>, the startup sweep of \<^verbatim>\<open>db/recovery.rs\<close> and the load
    of one row of \<^verbatim>\<open>store/queries/recovery.rs\<close>): the job records and every lifecycle, file, lease and
    conflict operation, submission and startup, with runs of all of them over the lives of the
    server, the reachable jobs and their invariant.
  \<^item> \<^verbatim>\<open>Registry\<close> (\<^verbatim>\<open>store/registry.rs\<close>): every operation on the map of jobs, and the messages its actor
    runs: operations on one job, submissions, queue claims, the shutdown.
  Their lemmas: an ended job changes only by an accepted restart or a startup that recovers or
  refuses it; finalisation, restart, stop, recovery and shutdown do exactly what their contract
  says on every branch (recovery completes a job with some failed files, where the book says
  failed, a finding); the retry loop logs and returns exactly what the attempts and the policy
  decide; a stale runner cannot end a restarted job; a runner claim and a lease exclude a second
  one; conflict-free registries stay conflict-free, and a restart keeps that exactly when no other
  active job shares a file (it is not checked, which is a finding); the row reader inverts the row
  writer up to the documented loss it reports.

  \<^bold>\<open>Theories of engines and memory.\<close>
  \<^item> \<^verbatim>\<open>Engines\<close> (\<^verbatim>\<open>types/engines.rs\<close>): the engine names of every category, their wire and dispatch
    spellings, the overrides of a job with their reader and writers. The locale \<^verbatim>\<open>selectable_engine\<close>
    states what a category of engines promises; it is interpreted for all five.
  \<^item> \<^verbatim>\<open>Memory_Budget\<close> (\<^verbatim>\<open>worker/residency.rs\<close>, \<^verbatim>\<open>batchalign-types\<close>): memory tiers and budgets, worker
    profiles, the command table, what a loaded model holds.
  \<^item> \<^verbatim>\<open>Host_Memory\<close> (\<^verbatim>\<open>host_memory.rs\<close>): the ledger file with its reader, pruning and writer, every access
    (acquire, plan, tag, settle, release, snapshot), the bounded and the queued wait. The locale
    \<^verbatim>\<open>ledger_action\<close> carries the invariant once for all six; the step relation interleaves the accesses
    of any processes, with their configurations, clocks, process tables and file errors free. An
    access may also not return: after a failed write a granted lease is dropped under the held lock.
  Their lemmas: overrides survive storage and dispatch; admission is exact on both branches and
  keeps the ledger's invariant; demand is charged once per process; plans are maximal; bounded waits
  end at the first attempt past their deadline, and queued ones with the first decision; leases
  without a worker lapse after exactly thirty minutes, and a write that fails under a granted lease
  blocks its process: findings.

  \<^bold>\<open>Theories of the alignment core.\<close>
  \<^item> \<^verbatim>\<open>Alignment_Spec\<close>: alignments as a relation and their least cost, independent of the code.
  \<^item> \<^verbatim>\<open>Work_Control\<close> (\<^verbatim>\<open>control.rs\<close>): the interruption control as a record of functions on a hidden
    state, computations with \<^verbatim>\<open>?\<close> and loops, and the relation \<open>answers\<close>: from every state of the
    control a computation returns its value or an error the control raised.
  \<^item> \<^verbatim>\<open>Dp_Align\<close> (\<^verbatim>\<open>mod.rs\<close>, \<^verbatim>\<open>comparison.rs\<close>): match modes, stripping, divide and conquer, score rows,
    the full-table aligner. The locale \<^verbatim>\<open>alignable\<close> carries the lemmas for any element type; it is
    interpreted for strings and characters.
  \<^item> \<^verbatim>\<open>Chains\<close>: chains of matching pairs, their ranks, the edges common to all longest chains;
    no code.
  \<^item> \<^verbatim>\<open>Prefix_Maximum\<close> (\<^verbatim>\<open>correspondence.rs\<close>): the Fenwick tree.
  \<^item> \<^verbatim>\<open>Correspondence\<close> (\<^verbatim>\<open>correspondence/sparse.rs\<close>): rank passes and certification.
  \<^item> \<^verbatim>\<open>Fuzzy_Candidates\<close> (\<^verbatim>\<open>correspondence/fuzzy.rs\<close>): the producer with interned words and reused rows.
  \<^item> \<^verbatim>\<open>Packed_Bits\<close> (\<^verbatim>\<open>zero_padded.rs\<close>): packed vectors, windows, reversal.
  \<^item> \<^verbatim>\<open>Packed_Literal\<close> (\<^verbatim>\<open>packed_literal.rs\<close>, \<^verbatim>\<open>packed_literal/arithmetic.rs\<close>): masks of a reference, the
    bit-parallel row kernel on 64-bit words, checkpoints, prefix scores.
  \<^item> \<^verbatim>\<open>Literal_Candidates\<close> (\<^verbatim>\<open>correspondence/literal.rs\<close>): postings, the storage estimate, the packed proof.
  \<^item> \<^verbatim>\<open>Admission\<close> (\<^verbatim>\<open>correspondence.rs\<close>, \<^verbatim>\<open>correspondence/inspection.rs\<close>): the choice of producer,
    admission, the meter, the analysis.
  \<^item> \<^verbatim>\<open>Interleaving\<close> (\<^verbatim>\<open>interleaving.rs\<close>): two speakers against one reference, with the score tables over the
    product of the three sequences, the evidence and the traceback. The locale \<^verbatim>\<open>word_census\<close> holds the theory
    of largest assignments, \<^verbatim>\<open>prepared_census\<close> adds the prepared relation and the admitted shape; the second is
    interpreted on the relation and the shape the analysis builds.
  Their lemmas: every aligner returns an alignment at least cost whatever the control does, or the
  control's own error; the packed rows are the longest-common-subsequence table; the admitted pairs
  are exactly those every least-cost alignment matches, by every route, and lie on the inspected path;
  the joint analysis of two speakers selects a largest assignment and reports missing words, candidates
  and common matches exactly as all largest assignments together have them.

  \<^bold>\<open>Theories of forced alignment\<close> (\<^verbatim>\<open>time.rs\<close>, \<^verbatim>\<open>chat_ops/fa\<close>).
  \<^item> \<^verbatim>\<open>Btree_Map\<close>: the sorted association list that stands for a \<^verbatim>\<open>BTreeMap\<close>; used by \<^verbatim>\<open>Engines\<close> too.
  \<^item> \<^verbatim>\<open>Fa_Timing\<close> (\<^verbatim>\<open>time.rs\<close>, \<^verbatim>\<open>origin.rs\<close>, \<^verbatim>\<open>coordinates.rs\<close>, \<^verbatim>\<open>timing.rs\<close>, \<^verbatim>\<open>WordTiming\<close> of \<^verbatim>\<open>mod.rs\<close>): milliseconds on 64-bit
    words, the history of a number, recordings, request windows, spans and word timings.
  \<^item> \<^verbatim>\<open>Fa_Labels\<close> (\<^verbatim>\<open>alignment.rs\<close>, \<^verbatim>\<open>alignment/token_map.rs\<close>, \<^verbatim>\<open>alignment/residue.rs\<close>): both shapes of an engine's
    response, the in-order stitch, the residue with its owners, claims and brackets, the warning.
  \<^item> \<^verbatim>\<open>Fa_Postprocess\<close> (\<^verbatim>\<open>postprocess.rs\<close>, policies of \<^verbatim>\<open>mod.rs\<close>): healing, rebalancing, clamping, settlement.
  \<^item> \<^verbatim>\<open>Fa_Bullets\<close> (\<^verbatim>\<open>main_bullets.rs\<close>, \<^verbatim>\<open>presence.rs\<close>, clamps and strips of \<^verbatim>\<open>orchestrate.rs\<close>): the transcript as its
    lines, binding, imposing, restoring and verifying given bullets. The locale \<^verbatim>\<open>kept_phase\<close> states what a
    phase between imposing and verifying promises (it changes a bullet only where the authority leaves it
    revisable) and proves once that every given bullet then holds.
  \<^item> \<^verbatim>\<open>Fa_Order\<close> (\<^verbatim>\<open>orchestrate.rs\<close>, \<^verbatim>\<open>orchestrate/start_order.rs\<close>): both passes of monotonicity, with the relation
    \<^verbatim>\<open>mono_step\<close> of their single writes; interprets \<^verbatim>\<open>kept_phase\<close>.
  \<^item> \<^verbatim>\<open>Fa_Repair\<close> (\<^verbatim>\<open>repair.rs\<close>, \<^verbatim>\<open>then_finalize\<close> of \<^verbatim>\<open>orchestrate.rs\<close>): gap filling, averaging, removal outside a
    longest run, and the last phases composed; interprets \<^verbatim>\<open>kept_phase\<close> for repair and for all phases together.
  Their lemmas: reports are placed without wrap-around or refused with the excess; every word of a
  group is answered and timed words lie in their window, in order, without overlap; the stitch is
  the longest exact prefix; post-processing loses no timing uncounted, keeps the order and touches
  nothing it was not asked to; a remapped word may be called exact without being spelled, which
  is a finding. Monotonicity puts the starts in file order and ends every overlap the policy clamps,
  only narrows bullets, keeps valid utterances valid and names every change; the runs repair keeps are
  longest; given bullets survive all phases. Among kept bullets an overlap with a revisable one may
  survive unrecorded, and averaging may turn a bullet around: findings.

  \<^bold>\<open>Representation.\<close> Structs are records, enums datatypes, \<^verbatim>\<open>&mut\<close> methods functions that return the
  new state, \<^verbatim>\<open>Result\<close> a sum with the error on the left, \<^verbatim>\<open>u32\<close>/\<^verbatim>\<open>u64\<close> words; \<^verbatim>\<open>usize\<close> is a natural number
  with \<^verbatim>\<open>usize::MAX\<close> and saturation written out where the code has them, and where sums of
  lengths matter the theorems say that two slices together stay below it. Strings are byte lists; where the code
  walks characters they are lists of code points.
  Loops are structural recursions or functions with a proved measure, and a computation
  under a control is partial only in that a control may refuse. One loop has fuel, the walk back
  through the previous indices of a longest run: it visits distinct indices, so as much fuel as there
  are values is enough, which the proof of the longest run shows.

  \<^bold>\<open>Parameters.\<close> What the code takes from outside the repository is an argument: the range of
  instants and their text (jiff), cancellation tokens, the output policy and the artifact names a
  command's specification gives (\<^verbatim>\<open>store_env\<close>), Unicode lower-casing,
  Jaro-Winkler similarity and floating-point comparison (\<^verbatim>\<open>fuzzy_ops\<close>, assumed symmetric where an
  optimal fuzzy alignment is claimed), the sizes the compiler gives four types (\<^verbatim>\<open>type_sizes\<close>), and what
  one access to the ledger sees (\<^verbatim>\<open>ledger_env\<close>: process table, memory reading, clock, a new identifier,
  the file operation that fails if one does, what a broken write leaves, whether the file can be
  opened again) with the texts of errors;
  for forced alignment the Unicode tables, normalisation and the conversions from floating point
  (\<^verbatim>\<open>fa_ops\<close>), what is read of an utterance of the CHAT model (\<^verbatim>\<open>utterance_view\<close>, and the fields of
  \<^verbatim>\<open>utterance\<close>), the \<^verbatim>\<open>%wor\<close> tier that model generates from the words of a main tier, and the order in
  which a hash map of speakers is visited.

  \<^bold>\<open>Not modelled.\<close> Input and output (SQLite, HTTP, WebSocket, processes, files, clocks), the worker pool,
  the runner's recipes, CHAT operations over the external talkbank crates (of forced alignment the
  walks over the tree, grouping, injection, the reuse of \<^verbatim>\<open>%wor\<close> timings, the recovery of utterance times and the
  texts of decisions), the composition of adjacent turns into episodes (\<^verbatim>\<open>interleaving/episodes.rs\<close>, and with it
  the windowed advance, the merge of rows and the edge cuts of \<^verbatim>\<open>arithmetic.rs\<close>), provider clients, caches,
  the Python package and the user interfaces. The episodes come next.
\<close>

end
